(* ===== verification/Prelude.thy ===== *)
theory Prelude
  imports Main "HOL-Library.Word" "HOL-Library.Multiset" "HOL-Library.Char_ord"
    "HOL-Library.List_Lexorder" "HOL-Library.Product_Lexorder"
begin

text \<open>
  Shared vocabulary of the development: Rust strings and byte slices as lists of bytes, the
  operations of the Rust standard library the sources use on them, fixed-width arithmetic, and the
  generic lemmas the component theories rest on.

  A Rust \<open>&str\<close> is its UTF-8 bytes and a \<open>&[u8]\<close> is its bytes; both are lists of \<open>char\<close>,
  HOL's eight-bit character type, so \<open>len()\<close> is \<open>length\<close> and the derived order on \<open>&str\<close> is the
  lexicographic order on bytes (theories \<open>Char_ord\<close>, \<open>List_Lexorder\<close>). Tuples compare
  lexicographically (\<open>Product_Lexorder\<close>), as in Rust.
\<close>

named_theorems codec_simps \<open>equations of byte encodings\<close>

type_synonym byte = char
type_synonym bytes = "char list"
type_synonym octet = "8 word"
type_synonym u64 = "64 word"

subsection \<open>Bytes\<close>

abbreviation code :: "char \<Rightarrow> nat" where
  "code c \<equiv> of_char c"

definition is_ascii_digit :: "byte \<Rightarrow> bool" where
  "is_ascii_digit c \<longleftrightarrow> 48 \<le> code c \<and> code c \<le> 57"

definition is_ascii_upper :: "byte \<Rightarrow> bool" where
  "is_ascii_upper c \<longleftrightarrow> 65 \<le> code c \<and> code c \<le> 90"

definition is_ascii_lower :: "byte \<Rightarrow> bool" where
  "is_ascii_lower c \<longleftrightarrow> 97 \<le> code c \<and> code c \<le> 122"

definition is_ascii_alphabetic :: "byte \<Rightarrow> bool" where
  "is_ascii_alphabetic c \<longleftrightarrow> is_ascii_upper c \<or> is_ascii_lower c"

definition is_ascii_control :: "byte \<Rightarrow> bool" where
  "is_ascii_control c \<longleftrightarrow> code c < 32 \<or> code c = 127"

text \<open>\<open>u8::is_ascii_whitespace\<close>: space, tab, line feed, form feed, carriage return.\<close>

definition is_ascii_whitespace :: "byte \<Rightarrow> bool" where
  "is_ascii_whitespace c \<longleftrightarrow> code c = 32 \<or> code c = 9 \<or> code c = 10 \<or> code c = 12 \<or> code c = 13"

definition lower_byte :: "byte \<Rightarrow> byte" where
  "lower_byte c = (if is_ascii_upper c then char_of (code c + 32) else c)"

definition upper_byte :: "byte \<Rightarrow> byte" where
  "upper_byte c = (if is_ascii_lower c then char_of (code c - 32) else c)"

definition to_ascii_lowercase :: "bytes \<Rightarrow> bytes" where
  "to_ascii_lowercase s = map lower_byte s"

definition to_ascii_uppercase :: "bytes \<Rightarrow> bytes" where
  "to_ascii_uppercase s = map upper_byte s"

definition eq_ignore_ascii_case :: "bytes \<Rightarrow> bytes \<Rightarrow> bool" where
  "eq_ignore_ascii_case s t \<longleftrightarrow> to_ascii_lowercase s = to_ascii_lowercase t"

lemma code_lt_256 [simp]: "code c < 256"
  by (cases c) (simp add: of_char_def horner_sum_simps split: if_splits)

lemma code_char_of: "n < 256 \<Longrightarrow> code (char_of n) = n"
  by simp

lemma code_inject [simp]: "code c = code d \<longleftrightarrow> c = d"
  by (simp add: of_char_eq_iff)

lemma lower_byte_idem [simp]: "lower_byte (lower_byte c) = lower_byte c"
proof (cases "is_ascii_upper c")
  case True
  then have "code (lower_byte c) = code c + 32" and "65 \<le> code c" "code c \<le> 90"
    by (simp_all add: lower_byte_def is_ascii_upper_def)
  then have "\<not> is_ascii_upper (lower_byte c)" by (simp add: is_ascii_upper_def)
  then show ?thesis by (simp add: lower_byte_def [of "lower_byte c"])
qed (simp add: lower_byte_def)

lemma upper_byte_idem [simp]: "upper_byte (upper_byte c) = upper_byte c"
proof (cases "is_ascii_lower c")
  case True
  then have "code (upper_byte c) = code c - 32" and "97 \<le> code c" "code c \<le> 122"
    by (auto simp: upper_byte_def is_ascii_lower_def)
  then have "\<not> is_ascii_lower (upper_byte c)" by (simp add: is_ascii_lower_def)
  then show ?thesis by (simp add: upper_byte_def [of "upper_byte c"])
qed (simp add: upper_byte_def)

lemma to_ascii_lowercase_idem [simp]:
  "to_ascii_lowercase (to_ascii_lowercase s) = to_ascii_lowercase s"
  by (simp add: to_ascii_lowercase_def o_def)

lemma to_ascii_uppercase_idem [simp]:
  "to_ascii_uppercase (to_ascii_uppercase s) = to_ascii_uppercase s"
  by (simp add: to_ascii_uppercase_def o_def)

lemma length_to_ascii_lowercase [simp]: "length (to_ascii_lowercase s) = length s"
  by (simp add: to_ascii_lowercase_def)

lemma to_ascii_lowercase_append [simp]:
  "to_ascii_lowercase (s @ t) = to_ascii_lowercase s @ to_ascii_lowercase t"
  by (simp add: to_ascii_lowercase_def)

lemma to_ascii_lowercase_Nil [simp]: "to_ascii_lowercase [] = []"
  and to_ascii_lowercase_Cons: "to_ascii_lowercase (c # s) = lower_byte c # to_ascii_lowercase s"
  by (simp_all add: to_ascii_lowercase_def)

subsection \<open>Prefixes, suffixes and substrings\<close>

definition strip_prefix :: "'a list \<Rightarrow> 'a list \<Rightarrow> 'a list option" where
  "strip_prefix p s = (if take (length p) s = p then Some (drop (length p) s) else None)"

definition strip_suffix :: "'a list \<Rightarrow> 'a list \<Rightarrow> 'a list option" where
  "strip_suffix p s = map_option rev (strip_prefix (rev p) (rev s))"

definition starts_with :: "'a list \<Rightarrow> 'a list \<Rightarrow> bool" where
  "starts_with p s \<longleftrightarrow> strip_prefix p s \<noteq> None"

definition ends_with :: "'a list \<Rightarrow> 'a list \<Rightarrow> bool" where
  "ends_with p s \<longleftrightarrow> strip_suffix p s \<noteq> None"

fun contains_str :: "'a list \<Rightarrow> 'a list \<Rightarrow> bool" where
  "contains_str p [] = (p = [])"
| "contains_str p (c # s) = (starts_with p (c # s) \<or> contains_str p s)"

lemma strip_prefix_iff: "strip_prefix p s = Some r \<longleftrightarrow> s = p @ r"
  unfolding strip_prefix_def by (metis append_eq_conv_conj append_take_drop_id option.inject option.distinct(1))

lemma strip_prefix_append [simp]: "strip_prefix p (p @ r) = Some r"
  by (simp add: strip_prefix_iff)

lemma strip_suffix_iff: "strip_suffix p s = Some r \<longleftrightarrow> s = r @ p"
proof -
  have "strip_suffix p s = Some r \<longleftrightarrow> strip_prefix (rev p) (rev s) = Some (rev r)"
    unfolding strip_suffix_def by (cases "strip_prefix (rev p) (rev s)") (auto simp: rev_swap)
  then show ?thesis by (metis rev_append rev_rev_ident strip_prefix_iff)
qed

lemma strip_suffix_append [simp]: "strip_suffix p (r @ p) = Some r"
  by (simp add: strip_suffix_iff)

lemma starts_with_iff: "starts_with p s \<longleftrightarrow> (\<exists>r. s = p @ r)"
  by (auto simp: starts_with_def strip_prefix_iff)

lemma ends_with_iff: "ends_with p s \<longleftrightarrow> (\<exists>r. s = r @ p)"
  by (auto simp: ends_with_def strip_suffix_iff)

lemma starts_with_Nil [simp]: "starts_with [] s" and starts_with_Cons_Nil [simp]: "\<not> starts_with (c # p) []"
  and starts_with_Cons [simp]: "starts_with (c # p) (d # s) \<longleftrightarrow> c = d \<and> starts_with p s"
  by (auto simp: starts_with_iff)

lemma ends_with_snoc [simp]: "ends_with [c] (s @ [d]) \<longleftrightarrow> c = d"
  by (auto simp: ends_with_iff)

lemma ends_with_single: "ends_with [c] s \<longleftrightarrow> s \<noteq> [] \<and> last s = c"
  by (cases s rule: rev_cases) (auto simp: ends_with_iff)

lemma contains_str_iff: "contains_str p s \<longleftrightarrow> (\<exists>a b. s = a @ p @ b)"
proof (induction s)
  case Nil
  then show ?case by auto
next
  case (Cons c s)
  then show ?case
    by (auto simp: starts_with_iff Cons_eq_append_conv)
qed

subsection \<open>Splitting and joining\<close>

text \<open>\<open>str::split\<close> on one character: always at least one piece.\<close>

fun split_at :: "'a \<Rightarrow> 'a list \<Rightarrow> 'a list list" where
  "split_at c [] = [[]]"
| "split_at c (x # s) =
     (if x = c then [] # split_at c s
      else (case split_at c s of [] \<Rightarrow> [[x]] | y # ys \<Rightarrow> (x # y) # ys))"

text \<open>\<open>str::split_once\<close> on one character.\<close>

fun split_once :: "'a \<Rightarrow> 'a list \<Rightarrow> ('a list \<times> 'a list) option" where
  "split_once c [] = None"
| "split_once c (x # s) =
     (if x = c then Some ([], s) else map_option (\<lambda>(a, b). (x # a, b)) (split_once c s))"

text \<open>\<open>[&str]::join\<close>.\<close>

fun join :: "'a list \<Rightarrow> 'a list list \<Rightarrow> 'a list" where
  "join sep [] = []"
| "join sep [x] = x"
| "join sep (x # y # ys) = x @ sep @ join sep (y # ys)"

text \<open>\<open>str::replace\<close> of one character by a string.\<close>

definition replace_char :: "'a \<Rightarrow> 'a list \<Rightarrow> 'a list \<Rightarrow> 'a list" where
  "replace_char c r s = concat (map (\<lambda>x. if x = c then r else [x]) s)"

lemma split_at_not_Nil [simp]: "split_at c s \<noteq> []"
  by (induction s) (auto split: list.splits)

lemma split_at_no_sep: "c \<notin> set s \<Longrightarrow> split_at c s = [s]"
  by (induction s) auto

lemma split_at_append_sep: "split_at c (a @ c # b) = split_at c a @ split_at c b"
  by (induction a) (auto split: list.splits)

lemma split_at_parts: "p \<in> set (split_at c s) \<Longrightarrow> c \<notin> set p"
proof (induction s arbitrary: p)
  case (Cons x s)
  then show ?case by (fastforce split: if_splits list.splits)
qed simp

lemma split_at_elems: "p \<in> set (split_at c s) \<Longrightarrow> set p \<subseteq> set s"
proof (induction s arbitrary: p)
  case (Cons x s)
  then show ?case by (fastforce split: if_splits list.splits)
qed simp

lemma split_at_hd_last:
  "split_at c s = (if c \<in> set s then takeWhile (\<lambda>x. x \<noteq> c) s # split_at c (tl (dropWhile (\<lambda>x. x \<noteq> c) s)) else [s])"
  by (induction s) auto

lemma join_split_at [simp]: "join [c] (split_at c s) = s"
proof (induction s)
  case (Cons x s)
  show ?case
  proof (cases "split_at c s")
    case Nil
    then show ?thesis by simp
  next
    case (Cons y ys)
    with Cons.IH show ?thesis by (cases ys) auto
  qed
qed simp

lemma join_Cons: "xs \<noteq> [] \<Longrightarrow> join sep (x # xs) = x @ sep @ join sep xs"
  by (cases xs) auto

lemma join_append_single:
  "xs \<noteq> [] \<Longrightarrow> join sep (xs @ [y]) = join sep xs @ sep @ y"
  by (induction xs rule: induct_list012) (auto simp: join_Cons)

lemma split_at_join:
  "xs \<noteq> [] \<Longrightarrow> \<forall>x \<in> set xs. c \<notin> set x \<Longrightarrow> split_at c (join [c] xs) = xs"
  by (induction xs rule: induct_list012) (auto simp: split_at_append_sep split_at_no_sep)

lemma set_join: "set (join sep xs) \<subseteq> set sep \<union> (\<Union>x \<in> set xs. set x)"
  by (induction xs rule: induct_list012) auto

lemma split_once_None: "split_once c s = None \<longleftrightarrow> c \<notin> set s"
  by (induction s) auto

lemma split_once_Some: "split_once c s = Some (a, b) \<longleftrightarrow> s = a @ c # b \<and> c \<notin> set a"
proof (induction s arbitrary: a)
  case (Cons x s)
  show ?case
  proof (cases "x = c")
    case True
    then show ?thesis by (cases a) auto
  next
    case False
    with Cons.IH show ?thesis by (cases a) (auto split: option.splits)
  qed
qed simp

lemma split_once_append [simp]: "c \<notin> set a \<Longrightarrow> split_once c (a @ c # b) = Some (a, b)"
  by (simp add: split_once_Some)

lemma replace_char_Nil [simp]: "replace_char c r [] = []"
  and replace_char_Cons: "replace_char c r (x # s) = (if x = c then r else [x]) @ replace_char c r s"
  and replace_char_append [simp]: "replace_char c r (s @ t) = replace_char c r s @ replace_char c r t"
  by (simp_all add: replace_char_def)

lemma replace_char_id: "c \<notin> set s \<Longrightarrow> replace_char c r s = s"
  by (induction s) (auto simp: replace_char_Cons)

lemma replace_char_gone: "c \<notin> set r \<Longrightarrow> c \<notin> set (replace_char c r s)"
  by (induction s) (auto simp: replace_char_Cons)

lemma set_replace_char: "set (replace_char c r s) \<subseteq> (set s - {c}) \<union> set r"
  by (induction s) (auto simp: replace_char_Cons)

subsection \<open>Whitespace\<close>

text \<open>
  \<open>str::trim\<close> removes characters with the Unicode property \<open>White_Space\<close>; their UTF-8 encodings are
  listed here. \<open>trim_ascii\<close> on byte slices removes ASCII whitespace only.
\<close>

definition ws_encodings :: "bytes list" where
  "ws_encodings =
    [[CHR 0x09], [CHR 0x0A], [CHR 0x0B], [CHR 0x0C], [CHR 0x0D], [CHR 0x20],
     [CHR 0xC2, CHR 0x85], [CHR 0xC2, CHR 0xA0], [CHR 0xE1, CHR 0x9A, CHR 0x80],
     [CHR 0xE2, CHR 0x80, CHR 0x80], [CHR 0xE2, CHR 0x80, CHR 0x81], [CHR 0xE2, CHR 0x80, CHR 0x82],
     [CHR 0xE2, CHR 0x80, CHR 0x83], [CHR 0xE2, CHR 0x80, CHR 0x84], [CHR 0xE2, CHR 0x80, CHR 0x85],
     [CHR 0xE2, CHR 0x80, CHR 0x86], [CHR 0xE2, CHR 0x80, CHR 0x87], [CHR 0xE2, CHR 0x80, CHR 0x88],
     [CHR 0xE2, CHR 0x80, CHR 0x89], [CHR 0xE2, CHR 0x80, CHR 0x8A], [CHR 0xE2, CHR 0x80, CHR 0xA8],
     [CHR 0xE2, CHR 0x80, CHR 0xA9], [CHR 0xE2, CHR 0x80, CHR 0xAF], [CHR 0xE2, CHR 0x81, CHR 0x9F],
     [CHR 0xE3, CHR 0x80, CHR 0x80]]"

definition drop_one :: "'a list list \<Rightarrow> 'a list \<Rightarrow> 'a list option" where
  "drop_one ws s = (case find (\<lambda>w. w \<noteq> [] \<and> starts_with w s) ws of
      None \<Rightarrow> None | Some w \<Rightarrow> Some (drop (length w) s))"

lemma drop_one_Some: "drop_one ws s = Some r \<Longrightarrow> \<exists>w \<in> set ws. w \<noteq> [] \<and> s = w @ r"
  by (auto simp: drop_one_def find_Some_iff starts_with_iff split: option.splits)

lemma drop_one_None: "drop_one ws s = None \<longleftrightarrow> (\<forall>w \<in> set ws. w \<noteq> [] \<longrightarrow> \<not> starts_with w s)"
  by (simp add: drop_one_def option.case_eq_if find_None_iff) blast

lemma drop_one_shorter: "drop_one ws s = Some r \<Longrightarrow> length r < length s"
  by (auto dest: drop_one_Some)

function trim_with :: "'a list list \<Rightarrow> 'a list \<Rightarrow> 'a list" where
  "trim_with ws s = (case drop_one ws s of None \<Rightarrow> s | Some r \<Rightarrow> trim_with ws r)"
  by pat_completeness auto
termination
  by (relation "measure (\<lambda>(ws, s). length s)") (auto dest: drop_one_shorter)

declare trim_with.simps [simp del]

definition trim_start :: "bytes \<Rightarrow> bytes" where
  "trim_start s = trim_with ws_encodings s"

definition trim_end :: "bytes \<Rightarrow> bytes" where
  "trim_end s = rev (trim_with (map rev ws_encodings) (rev s))"

definition trim :: "bytes \<Rightarrow> bytes" where
  "trim s = trim_end (trim_start s)"

definition trim_ascii_start :: "bytes \<Rightarrow> bytes" where
  "trim_ascii_start s = dropWhile is_ascii_whitespace s"

definition trim_ascii :: "bytes \<Rightarrow> bytes" where
  "trim_ascii s = rev (dropWhile is_ascii_whitespace (rev (trim_ascii_start s)))"

text \<open>\<open>trim_start_matches(c)\<close> and \<open>trim_end_matches(c)\<close>.\<close>

definition trim_start_char :: "'a \<Rightarrow> 'a list \<Rightarrow> 'a list" where
  "trim_start_char c s = dropWhile (\<lambda>x. x = c) s"

definition trim_end_char :: "'a \<Rightarrow> 'a list \<Rightarrow> 'a list" where
  "trim_end_char c s = rev (dropWhile (\<lambda>x. x = c) (rev s))"

lemma trim_with_stuck: "drop_one ws (trim_with ws s) = None"
proof (induction ws s rule: trim_with.induct)
  case (1 ws s)
  then show ?case by (subst trim_with.simps) (auto split: option.splits)
qed

lemma trim_with_id: "drop_one ws s = None \<Longrightarrow> trim_with ws s = s"
  by (subst trim_with.simps) simp

lemma trim_with_suffix: "\<exists>p. s = p @ trim_with ws s"
proof (induction ws s rule: trim_with.induct)
  case (1 ws s)
  show ?case
  proof (cases "drop_one ws s")
    case None
    then show ?thesis by (subst trim_with.simps) simp
  next
    case (Some r)
    with 1 obtain p where "r = p @ trim_with ws r" by blast
    moreover from Some obtain w where "s = w @ r" by (blast dest: drop_one_Some)
    moreover have "trim_with ws s = trim_with ws r"
      using Some by (simp add: trim_with.simps [of ws s])
    ultimately have "s = (w @ p) @ trim_with ws s" by simp
    then show ?thesis ..
  qed
qed

lemma set_trim: "set (trim s) \<subseteq> set s"
proof -
  have "set (trim_with ws t) \<subseteq> set t" for ws and t :: bytes
    by (metis trim_with_suffix set_append Un_upper2)
  then show ?thesis unfolding trim_def trim_end_def trim_start_def
    by (metis set_rev subset_trans)
qed

text \<open>A string nothing can be trimmed from; lower-casing keeps it so.\<close>

definition trimmed :: "bytes \<Rightarrow> bool" where
  "trimmed s \<longleftrightarrow> drop_one ws_encodings s = None \<and> drop_one (map rev ws_encodings) (rev s) = None"

lemma trim_trimmed: "trimmed s \<Longrightarrow> trim s = s"
  by (simp add: trimmed_def trim_def trim_start_def trim_end_def trim_with_id)

lemma drop_one_prefix: "drop_one ws (s @ t) = None \<Longrightarrow> drop_one ws s = None"
  by (auto simp: drop_one_None starts_with_iff)

lemma trimmed_trim: "trimmed (trim s)"
proof -
  let ?t = "trim_start s"
  obtain p where "rev ?t = p @ trim_with (map rev ws_encodings) (rev ?t)"
    using trim_with_suffix by blast
  then have "?t = trim_end ?t @ rev p" by (metis rev_append rev_rev_ident trim_end_def)
  moreover have "drop_one ws_encodings ?t = None" by (simp add: trim_start_def trim_with_stuck)
  ultimately have "drop_one ws_encodings (trim_end ?t) = None" by (metis drop_one_prefix)
  then show ?thesis by (simp add: trimmed_def trim_def trim_end_def trim_with_stuck)
qed

lemma starts_with_lowercase:
  "starts_with w (to_ascii_lowercase s) \<Longrightarrow> list_all (\<lambda>b. \<not> is_ascii_lower b) w \<Longrightarrow> starts_with w s"
proof (induction w arbitrary: s)
  case (Cons b w)
  then obtain c t where s: "s = c # t" by (cases s) auto
  with Cons.prems have b: "lower_byte c = b" "\<not> is_ascii_lower b"
    by (simp_all add: to_ascii_lowercase_Cons)
  have "\<not> is_ascii_upper c"
  proof
    assume u: "is_ascii_upper c"
    then have "code b = code c + 32" using b by (auto simp: lower_byte_def is_ascii_upper_def)
    with u b show False by (simp add: is_ascii_lower_def is_ascii_upper_def)
  qed
  with b s Cons show ?case by (simp add: lower_byte_def to_ascii_lowercase_Cons)
qed simp

lemma ws_not_lower: "w \<in> set ws_encodings \<Longrightarrow> list_all (\<lambda>b. \<not> is_ascii_lower b) w"
  by (auto simp: ws_encodings_def is_ascii_lower_def)

lemma rev_to_ascii_lowercase: "rev (to_ascii_lowercase s) = to_ascii_lowercase (rev s)"
  by (simp add: to_ascii_lowercase_def rev_map)

lemma trimmed_lowercase:
  assumes "trimmed s"
  shows "trimmed (to_ascii_lowercase s)"
  using assms ws_not_lower
  by (fastforce simp: trimmed_def drop_one_None rev_to_ascii_lowercase list_all_iff dest: starts_with_lowercase)

subsection \<open>UTF-8\<close>

text \<open>
  \<open>std::str::from_utf8\<close> accepts exactly the well-formed sequences of the Unicode standard (table 3-7);
  \<open>char::is_control\<close> holds for U+0000..U+001F, U+007F and U+0080..U+009F, the last of which are
  encoded as the byte C2 followed by 80..9F.
\<close>

abbreviation within :: "nat \<Rightarrow> nat \<Rightarrow> byte \<Rightarrow> bool" where
  "within lo hi c \<equiv> lo \<le> code c \<and> code c \<le> hi"

abbreviation cont :: "byte \<Rightarrow> bool" where
  "cont c \<equiv> within 0x80 0xBF c"

definition lead3 :: "byte \<Rightarrow> byte \<Rightarrow> bool" where
  "lead3 a b \<longleftrightarrow> cont b \<and> (code a = 0xE0 \<longrightarrow> 0xA0 \<le> code b) \<and> (code a = 0xED \<longrightarrow> code b \<le> 0x9F)"

definition lead4 :: "byte \<Rightarrow> byte \<Rightarrow> bool" where
  "lead4 a b \<longleftrightarrow> cont b \<and> (code a = 0xF0 \<longrightarrow> 0x90 \<le> code b) \<and> (code a = 0xF4 \<longrightarrow> code b \<le> 0x8F)"

text \<open>One well-formed character off the front.\<close>

fun utf8_step :: "bytes \<Rightarrow> bytes option" where
  "utf8_step [] = None"
| "utf8_step (a # s) =
     (if code a < 0x80 then Some s
      else if within 0xC2 0xDF a then
        (case s of b # r \<Rightarrow> if cont b then Some r else None | _ \<Rightarrow> None)
      else if within 0xE0 0xEF a then
        (case s of b # c # r \<Rightarrow> if lead3 a b \<and> cont c then Some r else None | _ \<Rightarrow> None)
      else if within 0xF0 0xF4 a then
        (case s of b # c # d # r \<Rightarrow> if lead4 a b \<and> cont c \<and> cont d then Some r else None | _ \<Rightarrow> None)
      else None)"

lemma utf8_step_shorter: "utf8_step s = Some r \<Longrightarrow> length r < length s"
  by (cases s) (auto split: if_splits list.splits)

function utf8_valid :: "bytes \<Rightarrow> bool" where
  "utf8_valid s = (s = [] \<or> (case utf8_step s of None \<Rightarrow> False | Some r \<Rightarrow> utf8_valid r))"
  by pat_completeness auto
termination
  by (relation "measure length") (auto dest: utf8_step_shorter)

declare utf8_valid.simps [simp del]

lemma utf8_valid_Nil [simp]: "utf8_valid []"
  by (simp add: utf8_valid.simps)

lemma utf8_valid_ascii [simp]: "code a < 0x80 \<Longrightarrow> utf8_valid (a # s) = utf8_valid s"
  by (simp add: utf8_valid.simps [of "a # s"])

fun has_control :: "bytes \<Rightarrow> bool" where
  "has_control [] = False"
| "has_control (a # s) =
     (is_ascii_control a \<or>
      (code a = 0xC2 \<and> (case s of [] \<Rightarrow> False | b # _ \<Rightarrow> within 0x80 0x9F b)) \<or> has_control s)"

lemma utf8_step_append_ascii:
  assumes "s \<noteq> []" and x: "code x < 0x80"
  shows "utf8_step (s @ x # t) = map_option (\<lambda>r. r @ x # t) (utf8_step s)"
proof -
  have nx: "\<not> cont x" "\<not> lead3 a x" "\<not> lead4 a x" for a
    using x by (simp_all add: lead3_def lead4_def)
  obtain a s2 where s: "s = a # s2" using assms by (cases s) auto
  show ?thesis
  proof (cases s2)
    case (Cons b s3)
    then show ?thesis using s nx by (cases s3; cases "tl s3") (auto split: list.splits)
  qed (use s nx in \<open>auto split: list.splits\<close>)
qed

lemma utf8_valid_append_ascii:
  "code x < 0x80 \<Longrightarrow> utf8_valid (s @ x # t) \<longleftrightarrow> utf8_valid s \<and> utf8_valid t"
proof (induction s rule: utf8_valid.induct)
  case (1 s)
  show ?case
  proof (cases "s = []")
    case False
    then show ?thesis using 1
      by (simp add: utf8_valid.simps [of "s @ x # t"] utf8_valid.simps [of s]
          utf8_step_append_ascii split: option.splits)
  qed (use 1 in simp)
qed

lemma has_control_append_ascii:
  "\<not> is_ascii_control x \<Longrightarrow> code x < 0x80 \<Longrightarrow>
     has_control (s @ x # t) \<longleftrightarrow> has_control s \<or> has_control t"
  by (induction s) (auto split: list.splits simp: Cons_eq_append_conv append_eq_Cons_conv)

lemma utf8_valid_split_at:
  "code x < 0x80 \<Longrightarrow> utf8_valid s \<longleftrightarrow> (\<forall>p \<in> set (split_at x s). utf8_valid p)"
proof (induction "split_at x s" arbitrary: s)
  case Nil
  then show ?case by (metis split_at_not_Nil)
next
  case (Cons y ys)
  show ?case
  proof (cases "x \<in> set s")
    case True
    then obtain a b where s: "s = a @ x # b" and a: "x \<notin> set a" by (meson split_list_first)
    then have "y = a" and ys: "ys = split_at x b"
      using Cons.hyps(2) by (simp_all add: split_at_append_sep split_at_no_sep)
    with Cons.hyps(1) [OF ys] Cons.prems s a show ?thesis
      by (simp add: utf8_valid_append_ascii split_at_append_sep split_at_no_sep)
  qed (use Cons in \<open>simp add: split_at_no_sep\<close>)
qed

lemma has_control_split_at:
  "\<not> is_ascii_control x \<Longrightarrow> code x < 0x80 \<Longrightarrow>
     has_control s \<longleftrightarrow> (\<exists>p \<in> set (split_at x s). has_control p)"
proof (induction "split_at x s" arbitrary: s)
  case Nil
  then show ?case by (metis split_at_not_Nil)
next
  case (Cons y ys)
  show ?case
  proof (cases "x \<in> set s")
    case True
    then obtain a b where s: "s = a @ x # b" and a: "x \<notin> set a" by (meson split_list_first)
    then have "y = a" and ys: "ys = split_at x b"
      using Cons.hyps(2) by (simp_all add: split_at_append_sep split_at_no_sep)
    with Cons.hyps(1) [OF ys] Cons.prems s a show ?thesis
      by (simp add: has_control_append_ascii split_at_append_sep split_at_no_sep)
  qed (use Cons in \<open>simp add: split_at_no_sep\<close>)
qed

subsection \<open>Decimal numbers and fixed-width arithmetic\<close>

text \<open>
  Unsigned machine integers whose overflow the sources check are natural numbers with the bound
  written out; those that wrap are words.
\<close>

definition u8_max :: nat where "u8_max = 255"
definition u16_max :: nat where "u16_max = 65535"
definition u32_max :: nat where "u32_max = 4294967295"
definition u64_max :: nat where "u64_max = 18446744073709551615"

definition checked_add :: "nat \<Rightarrow> nat \<Rightarrow> nat \<Rightarrow> nat option" where
  "checked_add bnd a b = (if a + b \<le> bnd then Some (a + b) else None)"

definition checked_mul :: "nat \<Rightarrow> nat \<Rightarrow> nat \<Rightarrow> nat option" where
  "checked_mul bnd a b = (if a * b \<le> bnd then Some (a * b) else None)"

definition saturating_add :: "nat \<Rightarrow> nat \<Rightarrow> nat \<Rightarrow> nat" where
  "saturating_add bnd a b = min bnd (a + b)"

definition saturating_mul :: "nat \<Rightarrow> nat \<Rightarrow> nat \<Rightarrow> nat" where
  "saturating_mul bnd a b = min bnd (a * b)"

definition digit_val :: "byte \<Rightarrow> nat" where
  "digit_val c = code c - 48"

text \<open>The value of a string of decimal digits.\<close>

definition dec_value :: "bytes \<Rightarrow> nat" where
  "dec_value s = foldl (\<lambda>n c. 10 * n + digit_val c) 0 s"

text \<open>\<open>str::parse\<close> for an unsigned integer: an optional plus sign, at least one digit, no overflow.\<close>

definition parse_unsigned :: "nat \<Rightarrow> bytes \<Rightarrow> nat option" where
  "parse_unsigned bnd s =
     (let d = (case strip_prefix ''+'' s of Some r \<Rightarrow> r | None \<Rightarrow> s) in
      if d \<noteq> [] \<and> list_all is_ascii_digit d \<and> dec_value d \<le> bnd then Some (dec_value d) else None)"

text \<open>\<open>to_string\<close> of an unsigned integer.\<close>

function show_nat :: "nat \<Rightarrow> bytes" where
  "show_nat n = (if n < 10 then [char_of (48 + n)] else show_nat (n div 10) @ [char_of (48 + n mod 10)])"
  by pat_completeness auto
termination
  by (relation "measure (\<lambda>n. n)") auto

declare show_nat.simps [simp del]

lemma checked_add_Some: "checked_add bnd a b = Some c \<longleftrightarrow> c = a + b \<and> a + b \<le> bnd"
  by (auto simp: checked_add_def)

lemma checked_add_None: "checked_add bnd a b = None \<longleftrightarrow> bnd < a + b"
  by (auto simp: checked_add_def)

lemma checked_mul_Some: "checked_mul bnd a b = Some c \<longleftrightarrow> c = a * b \<and> a * b \<le> bnd"
  by (auto simp: checked_mul_def)

lemma dec_value_snoc [simp]: "dec_value (s @ [c]) = 10 * dec_value s + digit_val c"
  by (simp add: dec_value_def)

lemma dec_value_Nil [simp]: "dec_value [] = 0"
  by (simp add: dec_value_def)

lemma dec_value_append: "dec_value (s @ t) = dec_value s * 10 ^ length t + dec_value t"
  by (induction t rule: rev_induct) (simp_all add: append_assoc [symmetric] algebra_simps del: append_assoc)

lemma digit_char [simp]: "d < 10 \<Longrightarrow> is_ascii_digit (char_of (48 + d))"
  "d < 10 \<Longrightarrow> digit_val (char_of (48 + d)) = d"
  by (simp_all add: is_ascii_digit_def digit_val_def)

lemma show_nat_not_Nil [simp]: "show_nat n \<noteq> []"
  by (subst show_nat.simps) simp

lemma show_nat_digits: "list_all is_ascii_digit (show_nat n)"
proof (induction n rule: show_nat.induct)
  case (1 n)
  then show ?case by (subst show_nat.simps) (simp add: list_all_append)
qed

lemma dec_value_show_nat [simp]: "dec_value (show_nat n) = n"
proof (induction n rule: show_nat.induct)
  case (1 n)
  show ?case
  proof (cases "n < 10")
    case True
    then show ?thesis by (simp add: show_nat.simps [of n] dec_value_def)
  next
    case False
    with 1 show ?thesis by (simp add: show_nat.simps [of n])
  qed
qed

lemma plus_not_digit: "list_all is_ascii_digit s \<Longrightarrow> strip_prefix ''+'' s = None"
  by (cases s) (auto simp: strip_prefix_def is_ascii_digit_def)

lemma parse_show_nat: "parse_unsigned bnd (show_nat n) = (if n \<le> bnd then Some n else None)"
  by (simp add: parse_unsigned_def plus_not_digit show_nat_digits)

lemma parse_unsigned_le: "parse_unsigned bnd s = Some n \<Longrightarrow> n \<le> bnd"
  by (auto simp: parse_unsigned_def Let_def split: if_splits)

subsection \<open>Results\<close>

text \<open>\<open>Result\<close> is a sum with the error on the left; \<open>?\<close> is \<open>and_then\<close>.\<close>

definition and_then :: "'e + 'a \<Rightarrow> ('a \<Rightarrow> 'e + 'b) \<Rightarrow> 'e + 'b" where
  "and_then r f = (case r of Inl e \<Rightarrow> Inl e | Inr a \<Rightarrow> f a)"

definition ok_or :: "'e \<Rightarrow> 'a option \<Rightarrow> 'e + 'a" where
  "ok_or e x = (case x of None \<Rightarrow> Inl e | Some a \<Rightarrow> Inr a)"

lemma and_then_Inr [simp]: "and_then r f = Inr b \<longleftrightarrow> (\<exists>a. r = Inr a \<and> f a = Inr b)"
  by (auto simp: and_then_def split: sum.splits)

lemma and_then_Inl: "and_then r f = Inl e \<longleftrightarrow> r = Inl e \<or> (\<exists>a. r = Inr a \<and> f a = Inl e)"
  by (auto simp: and_then_def split: sum.splits)

lemma and_then_simps [simp]: "and_then (Inl e) f = Inl e" "and_then (Inr a) f = f a"
  by (simp_all add: and_then_def)

lemma ok_or_Inr [simp]: "ok_or e x = Inr a \<longleftrightarrow> x = Some a"
  and ok_or_Inl [simp]: "ok_or e x = Inl d \<longleftrightarrow> x = None \<and> d = e"
  by (auto simp: ok_or_def split: option.splits)

end
