(* ===== verification/Addresses.thy ===== *)
theory Addresses
  imports Prelude
begin

text \<open>
  IP addresses as \<open>std::net::IpAddr\<close> has them: an address is its octets in network order. This theory
  models the parser and the printer of the standard library that the configuration and the PROXY
  protocol reader use, and network membership by prefix length, which the source writes twice
  (\<open>ip_in_network\<close> in \<open>gatel-plan/src/matcher.rs\<close> and \<open>Network::contains\<close> in
  \<open>gatel-bundle-std/src/ip_filter.rs\<close>) with the same local function \<open>masked\<close>. The main result is that
  comparing masked octets decides exactly whether the first \<open>prefix\<close> bits agree.
\<close>

unbundle bit_operations_syntax

datatype ip_addr = V4 "octet list" | V6 "octet list"

fun octets :: "ip_addr \<Rightarrow> octet list" where
  "octets (V4 a) = a"
| "octets (V6 a) = a"

fun is_ipv4 :: "ip_addr \<Rightarrow> bool" where
  "is_ipv4 (V4 _) = True"
| "is_ipv4 (V6 _) = False"

fun wf_ip :: "ip_addr \<Rightarrow> bool" where
  "wf_ip (V4 a) = (length a = 4)"
| "wf_ip (V6 a) = (length a = 16)"

subsection \<open>Parsing\<close>

definition hex_digit :: "byte \<Rightarrow> nat option" where
  "hex_digit c =
     (if is_ascii_digit c then Some (code c - 48)
      else if within 97 102 c then Some (code c - 87)
      else if within 65 70 c then Some (code c - 55)
      else None)"

text \<open>\<open>Parser::read_number\<close> for a decimal octet: one to three digits, no leading zero, at most 255.\<close>

definition read_octet :: "bytes \<Rightarrow> (octet \<times> bytes) option" where
  "read_octet s =
     (let d = takeWhile is_ascii_digit s; v = dec_value d in
      if d = [] \<or> 3 < length d \<or> (hd d = CHR ''0'' \<and> 1 < length d) \<or> 255 < v then None
      else Some (of_nat v, dropWhile is_ascii_digit s))"

definition read_char :: "byte \<Rightarrow> bytes \<Rightarrow> bytes option" where
  "read_char c s = (case s of x # r \<Rightarrow> if x = c then Some r else None | [] \<Rightarrow> None)"

fun read_octets :: "nat \<Rightarrow> bytes \<Rightarrow> (octet list \<times> bytes) option" where
  "read_octets 0 s = Some ([], s)"
| "read_octets (Suc 0) s = (case read_octet s of None \<Rightarrow> None | Some (o1, r) \<Rightarrow> Some ([o1], r))"
| "read_octets (Suc (Suc n)) s =
     (case read_octet s of
        None \<Rightarrow> None
      | Some (o1, r) \<Rightarrow>
          (case read_char (CHR ''.'') r of
             None \<Rightarrow> None
           | Some r2 \<Rightarrow>
               (case read_octets (Suc n) r2 of
                  None \<Rightarrow> None
                | Some (os, r3) \<Rightarrow> Some (o1 # os, r3))))"

definition read_ipv4_addr :: "bytes \<Rightarrow> (octet list \<times> bytes) option" where
  "read_ipv4_addr s = read_octets 4 s"

text \<open>A group of one to four hexadecimal digits, as two octets.\<close>

definition read_group :: "bytes \<Rightarrow> (octet list \<times> bytes) option" where
  "read_group s =
     (let d = takeWhile (\<lambda>c. hex_digit c \<noteq> None) s;
          v = foldl (\<lambda>n c. 16 * n + the (hex_digit c)) 0 d in
      if d = [] \<or> 4 < length d then None
      else Some ([of_nat (v div 256), of_nat (v mod 256)], dropWhile (\<lambda>c. hex_digit c \<noteq> None) s))"

text \<open>
  \<open>read_groups\<close>: at most \<open>limit\<close> groups; the last two may be written as an IPv4 address. The index
  \<open>i\<close> counts the groups read, a separator precedes every group but the first. The result is the
  octets, whether they ended with an IPv4 address, and the rest.
\<close>

definition after_separator :: "nat \<Rightarrow> bytes \<Rightarrow> bytes option" where
  "after_separator i s = (if i = 0 then Some s else read_char (CHR '':'') s)"

function read_groups :: "nat \<Rightarrow> nat \<Rightarrow> octet list \<Rightarrow> bytes \<Rightarrow> octet list \<times> bool \<times> bytes" where
  "read_groups limit i acc s =
     (if limit \<le> i then (acc, False, s)
      else
        (case (if i + 1 < limit then Option.bind (after_separator i s) read_ipv4_addr else None) of
           Some (v4, r) \<Rightarrow> (acc @ v4, True, r)
         | None \<Rightarrow>
             (case Option.bind (after_separator i s) read_group of
                Some (g, r) \<Rightarrow> read_groups limit (i + 1) (acc @ g) r
              | None \<Rightarrow> (acc, False, s))))"
  by pat_completeness auto
termination
  by (relation "measure (\<lambda>(limit, i, acc, s). limit - i)") auto

declare read_groups.simps [simp del]

definition read_ipv6_addr :: "bytes \<Rightarrow> (octet list \<times> bytes) option" where
  "read_ipv6_addr s =
     (case read_groups 8 0 [] s of
        (head, head_v4, r) \<Rightarrow>
          if length head = 16 then Some (head, r)
          else if head_v4 then None
          else (case Option.bind (read_char (CHR '':'') r) (read_char (CHR '':'')) of
              None \<Rightarrow> None
            | Some r2 \<Rightarrow>
                (case read_groups (8 - (length head div 2 + 1)) 0 [] r2 of
                   (tail, _, r3) \<Rightarrow>
                     Some (head @ replicate (16 - length head - length tail) 0 @ tail, r3))))"

text \<open>\<open>IpAddr::from_str\<close>: IPv4 first, then IPv6, and nothing may remain.\<close>

definition parse_ip :: "bytes \<Rightarrow> ip_addr option" where
  "parse_ip s =
     (case read_ipv4_addr s of
        Some (a, []) \<Rightarrow> Some (V4 a)
      | _ \<Rightarrow> (case read_ipv6_addr s of
              Some (a, []) \<Rightarrow> Some (V6 a)
            | _ \<Rightarrow> None))"

subsection \<open>Printing\<close>

definition show_ipv4 :: "octet list \<Rightarrow> bytes" where
  "show_ipv4 a = join ''.'' (map (\<lambda>w. show_nat (unat w)) a)"

definition hex_char :: "nat \<Rightarrow> byte" where
  "hex_char n = (if n < 10 then char_of (48 + n) else char_of (87 + n))"

function show_hex :: "nat \<Rightarrow> bytes" where
  "show_hex n = (if n < 16 then [hex_char n] else show_hex (n div 16) @ [hex_char (n mod 16)])"
  by pat_completeness auto
termination
  by (relation "measure (\<lambda>n. n)") auto

declare show_hex.simps [simp del]

fun segments :: "octet list \<Rightarrow> nat list" where
  "segments (a # b # r) = (256 * unat a + unat b) # segments r"
| "segments _ = []"

text \<open>The first longest run of zero segments, as start and length.\<close>

fun zero_run :: "nat list \<Rightarrow> nat \<Rightarrow> nat \<times> nat \<Rightarrow> nat \<times> nat \<Rightarrow> nat \<times> nat" where
  "zero_run [] i longest current = longest"
| "zero_run (x # xs) i longest current =
     (if x = 0 then
        (let c = (if snd current = 0 then (i, 1) else (fst current, snd current + 1)) in
         zero_run xs (i + 1) (if snd longest < snd c then c else longest) c)
      else zero_run xs (i + 1) longest (0, 0))"

definition show_ipv6 :: "octet list \<Rightarrow> bytes" where
  "show_ipv6 a =
     (let seg = segments a; hx = (\<lambda>xs. join '':'' (map show_hex xs)) in
      if take 12 a = replicate 10 0 @ [255, 255] then ''::ffff:'' @ show_ipv4 (drop 12 a)
      else case zero_run seg 0 (0, 0) (0, 0) of
        (start, len) \<Rightarrow>
          if 1 < len then hx (take start seg) @ ''::'' @ hx (drop (start + len) seg)
          else hx seg)"

fun show_ip :: "ip_addr \<Rightarrow> bytes" where
  "show_ip (V4 a) = show_ipv4 a"
| "show_ip (V6 a) = show_ipv6 a"

subsection \<open>Networks\<close>

definition mask_octet :: "nat \<Rightarrow> octet \<Rightarrow> octet" where
  "mask_octet r b = b AND (if r = 0 then 0 else push_bit (8 - r) 0xFF)"

definition masked :: "octet list \<Rightarrow> nat \<Rightarrow> octet list" where
  "masked bs prefix =
     map (\<lambda>(i, b). if i < prefix div 8 then b
                   else if i = prefix div 8 then mask_octet (prefix mod 8) b
                   else 0) (enumerate 0 bs)"

text \<open>Bit \<open>j\<close> of an address, counted from the most significant bit of the first octet.\<close>

definition addr_bit :: "octet list \<Rightarrow> nat \<Rightarrow> bool" where
  "addr_bit a j = bit (a ! (j div 8)) (7 - j mod 8)"

lemma bit_ones: "bit (0xFF :: octet) j \<longleftrightarrow> j < 8"
proof -
  have eq: "(0xFF :: octet) = mask 8" by (simp add: mask_eq_exp_minus_1)
  show ?thesis unfolding eq bit_mask_iff by auto
qed

lemma bit_mask_octet:
  assumes "r < 8"
  shows "bit (mask_octet r b) k \<longleftrightarrow> bit b k \<and> 8 - r \<le> k"
proof (cases "r = 0")
  case True
  then show ?thesis using bit_imp_le_length [of b k] by (auto simp: mask_octet_def)
next
  case False
  have "bit (push_bit (8 - r) (0xFF :: octet)) k \<longleftrightarrow> 8 - r \<le> k \<and> k < 8"
    unfolding bit_push_bit_iff bit_ones by auto
  then have "bit (mask_octet r b) k \<longleftrightarrow> bit b k \<and> 8 - r \<le> k \<and> k < 8"
    using False by (simp only: mask_octet_def bit_and_iff if_False)
  then show ?thesis using bit_imp_le_length [of b k] by auto
qed

lemma mask_octet_eq_iff:
  assumes "r < 8"
  shows "mask_octet r b = mask_octet r c \<longleftrightarrow> (\<forall>k < r. bit b (7 - k) = bit c (7 - k))"
proof -
  have "mask_octet r b = mask_octet r c \<longleftrightarrow> (\<forall>n < 8. 8 - r \<le> n \<longrightarrow> bit b n = bit c n)"
    using assms by (auto simp: bit_eq_iff bit_mask_octet)
  also have "\<dots> \<longleftrightarrow> (\<forall>k < r. bit b (7 - k) = bit c (7 - k))"
  proof
    assume *: "\<forall>n < 8. 8 - r \<le> n \<longrightarrow> bit b n = bit c n"
    show "\<forall>k < r. bit b (7 - k) = bit c (7 - k)"
      using * assms by (simp add: Suc_leI diff_le_mono2)
  next
    assume *: "\<forall>k < r. bit b (7 - k) = bit c (7 - k)"
    show "\<forall>n < 8. 8 - r \<le> n \<longrightarrow> bit b n = bit c n"
    proof (intro allI impI)
      fix n :: nat
      assume "n < 8" "8 - r \<le> n"
      then have "7 - n < r" "7 - (7 - n) = n" using assms by auto
      with * show "bit b n = bit c n" by (metis)
    qed
  qed
  finally show ?thesis .
qed

lemma octet_eq_iff: "b = c \<longleftrightarrow> (\<forall>k < 8. bit b (7 - k) = bit c (7 - k))" for b c :: octet
proof
  assume *: "\<forall>k < 8. bit b (7 - k) = bit c (7 - k)"
  show "b = c"
  proof (rule bit_word_eqI)
    fix n :: nat
    assume "n < LENGTH(8)"
    then have "7 - n < 8" "7 - (7 - n) = n" by auto
    with * show "bit b n = bit c n" by metis
  qed
qed simp

lemma length_masked [simp]: "length (masked a p) = length a"
  by (simp add: masked_def)

lemma masked_nth:
  "i < length a \<Longrightarrow> masked a p ! i =
     (if i < p div 8 then a ! i else if i = p div 8 then mask_octet (p mod 8) (a ! i) else 0)"
  by (simp add: masked_def nth_enumerate_eq)

lemma masked_eq_iff:
  assumes "length a = length b" and "p \<le> 8 * length a"
  shows "masked a p = masked b p \<longleftrightarrow> (\<forall>j < p. addr_bit a j = addr_bit b j)"
proof -
  let ?ok = "\<lambda>i k. bit (a ! i) (7 - k) = bit (b ! i) (7 - k)"
  have "masked a p = masked b p \<longleftrightarrow> (\<forall>i < length a. masked a p ! i = masked b p ! i)"
    using assms by (simp add: list_eq_iff_nth_eq)
  also have "\<dots> \<longleftrightarrow> (\<forall>i < length a. \<forall>k < 8. 8 * i + k < p \<longrightarrow> ?ok i k)"
  proof -
    have "masked a p ! i = masked b p ! i \<longleftrightarrow> (\<forall>k < 8. 8 * i + k < p \<longrightarrow> ?ok i k)"
      if "i < length a" for i
    proof -
      consider "i < p div 8" | "i = p div 8" | "p div 8 < i" by linarith
      then show ?thesis
      proof cases
        case 1
        then have "\<forall>k < 8. 8 * i + k < p" by auto
        with 1 that assms show ?thesis by (simp add: masked_nth octet_eq_iff [of "a ! i"])
      next
        case 2
        then have "8 * i + k < p \<longleftrightarrow> k < p mod 8" for k
          by (metis add_less_cancel_left mult_div_mod_eq)
        moreover have "k < p mod 8 \<Longrightarrow> k < 8" for k by (metis mod_less_divisor less_trans zero_less_numeral)
        ultimately show ?thesis using 2 that assms
          by (auto simp: masked_nth mask_octet_eq_iff)
      next
        case 3
        then have "p \<le> 8 * i + k" for k by auto
        with 3 that assms show ?thesis by (simp add: masked_nth leD)
      qed
    qed
    then show ?thesis by auto
  qed
  also have "\<dots> \<longleftrightarrow> (\<forall>j < p. addr_bit a j = addr_bit b j)"
  proof (rule iffI; intro allI impI)
    fix j
    assume *: "\<forall>i < length a. \<forall>k < 8. 8 * i + k < p \<longrightarrow> ?ok i k" and j: "j < p"
    have "j div 8 < length a" using j assms(2) by auto
    moreover have "8 * (j div 8) + j mod 8 < p" "j mod 8 < 8" using j by auto
    ultimately show "addr_bit a j = addr_bit b j" using * by (simp add: addr_bit_def)
  next
    fix i k
    assume *: "\<forall>j < p. addr_bit a j = addr_bit b j" and "i < length a" "k < 8" "8 * i + k < p"
    moreover have "(8 * i + k) div 8 = i" "(8 * i + k) mod 8 = k" using \<open>k < 8\<close> by auto
    ultimately show "?ok i k" by (metis addr_bit_def)
  qed
  finally show ?thesis .
qed

subsection \<open>Parsing what was printed\<close>

lemma read_octet_show:
  assumes "rest = [] \<or> \<not> is_ascii_digit (hd rest)"
  shows "read_octet (show_nat (unat w) @ rest) = Some (w, rest)"
proof -
  let ?n = "unat w"
  have n: "?n < 256" using unsigned_less [of w] by simp
  have d: "takeWhile is_ascii_digit (show_nat ?n @ rest) = show_nat ?n"
    "dropWhile is_ascii_digit (show_nat ?n @ rest) = rest"
    using assms show_nat_digits [of ?n]
    by (cases rest; simp add: takeWhile_append dropWhile_append list_all_iff)+
  have len: "length (show_nat ?n) \<le> 3 \<and> (hd (show_nat ?n) = CHR ''0'' \<longrightarrow> length (show_nat ?n) = 1)"
  proof -
    have lead: "char_of (48 + m) \<noteq> CHR ''0''" if "1 \<le> m" "m < 10" for m :: nat
    proof
      assume "char_of (48 + m) = CHR ''0''"
      then have "code (char_of (48 + m)) = code (CHR ''0'')" by simp
      with that show False by simp
    qed
    consider "?n < 10" | "10 \<le> ?n" "?n < 100" | "100 \<le> ?n" by linarith
    then show ?thesis
    proof cases
      case 1
      then show ?thesis by (simp add: show_nat.simps [of ?n])
    next
      case 2
      then have "1 \<le> ?n div 10" "?n div 10 < 10" by auto
      with 2 show ?thesis
        by (simp add: show_nat.simps [of ?n] show_nat.simps [of "?n div 10"] lead)
    next
      case 3
      then have "1 \<le> ?n div 10 div 10" "?n div 10 div 10 < 10" "\<not> ?n div 10 < 10" using n by auto
      with 3 show ?thesis
        by (simp add: show_nat.simps [of ?n] show_nat.simps [of "?n div 10"]
            show_nat.simps [of "?n div 10 div 10"] lead)
    qed
  qed
  show ?thesis unfolding read_octet_def d Let_def
    using len n by auto
qed

lemma read_octets_show:
  "length a = Suc n \<Longrightarrow> read_octets (Suc n) (show_ipv4 a) = Some (a, [])"
proof (induction n arbitrary: a)
  case 0
  then obtain w where "a = [w]" by (cases a) auto
  then show ?case using read_octet_show [of "[]" w] by (simp add: show_ipv4_def)
next
  case (Suc n)
  then obtain w v b where a: "a = w # v # b" by (cases a; cases "tl a") auto
  let ?t = "show_ipv4 (v # b)"
  have "show_ipv4 a = show_nat (unat w) @ CHR ''.'' # ?t"
    by (simp add: a show_ipv4_def)
  moreover have "read_octet (show_nat (unat w) @ CHR ''.'' # ?t) = Some (w, CHR ''.'' # ?t)"
    by (rule read_octet_show) (simp add: is_ascii_digit_def)
  ultimately show ?case using Suc.IH [of "v # b"] Suc.prems a by (simp add: read_char_def)
qed

lemma parse_show_ipv4: "length a = 4 \<Longrightarrow> parse_ip (show_ip (V4 a)) = Some (V4 a)"
  using read_octets_show [of a 3] by (simp add: parse_ip_def read_ipv4_addr_def eval_nat_numeral)

subsection \<open>Parsed addresses are well formed\<close>

lemma length_read_octets: "read_octets n s = Some (a, r) \<Longrightarrow> length a = n"
  by (induction n s arbitrary: a r rule: read_octets.induct) (auto split: option.splits)

lemma length_read_group: "read_group s = Some (g, r) \<Longrightarrow> length g = 2"
  by (auto simp: read_group_def Let_def split: if_splits)

lemma length_read_groups:
  "i \<le> limit \<Longrightarrow> length acc = 2 * i \<Longrightarrow> read_groups limit i acc s = (a, v, r) \<Longrightarrow>
     even (length a) \<and> length a \<le> 2 * limit"
proof (induction limit i acc s rule: read_groups.induct)
  case (1 limit i acc s)
  show ?case
  proof (cases "limit \<le> i")
    case True
    with 1 show ?thesis by (auto simp: read_groups.simps [of limit limit acc s])
  next
    case False
    let ?v4 = "if i + 1 < limit then Option.bind (after_separator i s) read_ipv4_addr else None"
    show ?thesis
    proof (cases ?v4)
      case (Some x)
      then obtain o4 r4 where x: "x = (o4, r4)" and lt: "i + 1 < limit" and "length o4 = 4"
        by (cases x) (auto simp: bind_eq_Some_conv read_ipv4_addr_def split: if_splits dest: length_read_octets)
      with Some False 1 show ?thesis by (auto simp: read_groups.simps [of limit i acc s])
    next
      case None
      show ?thesis
      proof (cases "Option.bind (after_separator i s) read_group")
        case None2: None
        with None False 1 show ?thesis by (auto simp: read_groups.simps [of limit i acc s])
      next
        case (Some x)
        then obtain g r' where x: "x = (g, r')" and g: "length g = 2"
          by (cases x) (auto simp: bind_eq_Some_conv dest: length_read_group)
        have "read_groups limit (i + 1) (acc @ g) r' = (a, v, r)"
          using None Some x False 1(4) by (simp add: read_groups.simps [of limit i acc s])
        then show ?thesis using 1(1) [OF False None Some x [symmetric]] False 1(3) g x by simp
      qed
    qed
  qed
qed

lemma parse_ip_wf: "parse_ip s = Some ip \<Longrightarrow> wf_ip ip"
proof -
  assume p: "parse_ip s = Some ip"
  have v6: "length a = 16" if r6: "read_ipv6_addr s = Some (a, r)" for a r
  proof -
    obtain h v r1 where g: "read_groups 8 0 [] s = (h, v, r1)" by (metis prod_cases3)
    have h: "even (length h)" "length h \<le> 16" using length_read_groups [OF _ _ g] by auto
    show ?thesis
    proof (cases "length h = 16")
      case True
      with r6 g show ?thesis by (simp add: read_ipv6_addr_def)
    next
      case False
      with r6 g obtain r2 where r2: "Option.bind (read_char (CHR '':'') r1) (read_char (CHR '':'')) = Some r2"
        by (auto simp: read_ipv6_addr_def split: if_splits option.splits)
      obtain t w r3 where t: "read_groups (8 - (length h div 2 + 1)) 0 [] r2 = (t, w, r3)" by (metis prod_cases3)
      have "length t \<le> 2 * (8 - (length h div 2 + 1))" using length_read_groups [OF _ _ t] by auto
      then have "length t + length h \<le> 16" using h False by (auto elim!: evenE)
      with r6 g r2 t False show ?thesis by (auto simp: read_ipv6_addr_def split: if_splits)
    qed
  qed
  show ?thesis
    using p v6 by (auto simp: parse_ip_def read_ipv4_addr_def
        split: option.splits prod.splits list.splits dest: length_read_octets)
qed

end
