(* ===== verification/Config_Model.thy ===== *)
theory Config_Model
  imports Addresses
begin

text \<open>
  The format-neutral configuration tree and its decoding (\<open>gatel-model/src\<close>): scalars and nodes
  (\<open>value.rs\<close>), diagnostics and spelling suggestions (\<open>diagnostic.rs\<close>), durations, sizes, socket
  addresses and integers as they are written in a configuration (\<open>decode.rs\<close>). Source positions are
  not modelled; a diagnostic is its code and severity, and a parser's error message is a constructor.
  A float scalar is its IEEE bit pattern, which no modelled function inspects.
\<close>

subsection \<open>Scalars and nodes\<close>

datatype scalar = ScalarNull | ScalarBool bool | ScalarInt int | ScalarFloat u64 | ScalarStr bytes

fun as_str :: "scalar \<Rightarrow> bytes option" where
  "as_str (ScalarStr s) = Some s"
| "as_str _ = None"

fun as_int :: "scalar \<Rightarrow> int option" where
  "as_int (ScalarInt n) = Some n"
| "as_int _ = None"

fun as_bool :: "scalar \<Rightarrow> bool option" where
  "as_bool (ScalarBool b) = Some b"
| "as_bool _ = None"

fun type_name :: "scalar \<Rightarrow> bytes" where
  "type_name ScalarNull = ''null''"
| "type_name (ScalarBool _) = ''boolean''"
| "type_name (ScalarInt _) = ''integer''"
| "type_name (ScalarFloat _) = ''float''"
| "type_name (ScalarStr _) = ''string''"

type_synonym property = "bytes \<times> scalar"

datatype node = Node (node_name: bytes) (node_args: "scalar list") (node_props: "property list")
  (node_children: "node list")

definition node_prop :: "node \<Rightarrow> bytes \<Rightarrow> scalar option" where
  "node_prop n name = map_option snd (find (\<lambda>p. fst p = name) (node_props n))"

definition node_child :: "node \<Rightarrow> bytes \<Rightarrow> node option" where
  "node_child n name = find (\<lambda>c. node_name c = name) (node_children n)"

definition children_named :: "node \<Rightarrow> bytes \<Rightarrow> node list" where
  "children_named n name = filter (\<lambda>c. node_name c = name) (node_children n)"

primrec node_count :: "node \<Rightarrow> nat" where
  "node_count (Node n as ps cs) = 1 + sum_list (map node_count cs)"

primrec node_depth :: "node \<Rightarrow> nat" where
  "node_depth (Node n as ps cs) = 1 + foldr max (map node_depth cs) 0"

subsection \<open>Diagnostics\<close>

datatype diag_code =
    SyntaxError | UnknownNode | UnknownProperty | ArgumentCount | InvalidValue | MissingField
  | Duplicate | UnresolvedReference | InvalidScope | TerminalArity | MissingCapability
  | ImportFailed | InvalidSecret | OwnershipConflict | PrepareFailedCode

fun code_str :: "diag_code \<Rightarrow> bytes" where
  "code_str SyntaxError = ''syntax''"
| "code_str UnknownNode = ''unknown-node''"
| "code_str UnknownProperty = ''unknown-property''"
| "code_str ArgumentCount = ''argument-count''"
| "code_str InvalidValue = ''invalid-value''"
| "code_str MissingField = ''missing-field''"
| "code_str Duplicate = ''duplicate''"
| "code_str UnresolvedReference = ''unresolved-reference''"
| "code_str InvalidScope = ''invalid-scope''"
| "code_str TerminalArity = ''terminal-arity''"
| "code_str MissingCapability = ''missing-capability''"
| "code_str ImportFailed = ''import-failed''"
| "code_str InvalidSecret = ''invalid-secret''"
| "code_str OwnershipConflict = ''ownership-conflict''"
| "code_str PrepareFailedCode = ''prepare-failed''"

datatype severity = Warning | Error

record diagnostic =
  diag_code :: diag_code
  diag_severity :: severity
  diag_help :: "bytes option"

definition diag_error :: "diag_code \<Rightarrow> diagnostic" where
  "diag_error c = \<lparr>diag_code = c, diag_severity = Error, diag_help = None\<rparr>"

definition is_error :: "diagnostic \<Rightarrow> bool" where
  "is_error d \<longleftrightarrow> diag_severity d = Error"

type_synonym diagnostics = "diagnostic list"

definition has_errors :: "diagnostics \<Rightarrow> bool" where
  "has_errors ds \<longleftrightarrow> list_ex is_error ds"

definition error_count :: "diagnostics \<Rightarrow> nat" where
  "error_count ds = length (filter is_error ds)"

lemma has_errors_count: "has_errors ds \<longleftrightarrow> 0 < error_count ds"
  by (auto simp: has_errors_def error_count_def list_ex_iff filter_empty_conv)

subsection \<open>Spelling suggestions\<close>

text \<open>\<open>str::chars\<close>: a character is its UTF-8 encoding.\<close>

function chars :: "bytes \<Rightarrow> bytes list" where
  "chars s = (case utf8_step s of
      None \<Rightarrow> []
    | Some r \<Rightarrow> take (length s - length r) s # chars r)"
  by pat_completeness auto
termination
  by (relation "measure length") (auto dest: utf8_step_shorter)

declare chars.simps [simp del]

text \<open>
  The inner loop: from the previous row and the cell to the left, the rest of the current row.
\<close>

fun row_cells :: "'a \<Rightarrow> 'a list \<Rightarrow> nat list \<Rightarrow> nat \<Rightarrow> nat list" where
  "row_cells x (y # ys) (p # q # ps) left =
     (let cell = min (min (p + (if x \<noteq> y then 1 else 0)) (q + 1)) (left + 1) in
      cell # row_cells x ys (q # ps) cell)"
| "row_cells x _ _ left = []"

fun distance_rows :: "'a list \<Rightarrow> nat \<Rightarrow> 'a list \<Rightarrow> nat list \<Rightarrow> nat list" where
  "distance_rows [] i b previous = previous"
| "distance_rows (x # a) i b previous =
     distance_rows a (i + 1) b ((i + 1) # row_cells x b previous (i + 1))"

definition edit_distance :: "'a list \<Rightarrow> 'a list \<Rightarrow> nat" where
  "edit_distance a b = distance_rows a 0 b [0..<length b + 1] ! length b"

definition suggestion_budget :: "bytes \<Rightarrow> nat" where
  "suggestion_budget input =
     (if length input \<le> 3 then 1 else if length input \<le> 7 then 2 else 3)"

text \<open>\<open>Iterator::min_by_key\<close> returns the first of several minimal elements.\<close>

fun min_by_key :: "('a \<Rightarrow> 'b::linorder) \<Rightarrow> 'a list \<Rightarrow> 'a option" where
  "min_by_key f [] = None"
| "min_by_key f (x # xs) =
     (case min_by_key f xs of None \<Rightarrow> Some x | Some y \<Rightarrow> if f y < f x then Some y else Some x)"

definition did_you_mean :: "bytes \<Rightarrow> bytes list \<Rightarrow> bytes option" where
  "did_you_mean input candidates =
     map_option snd
       (min_by_key (\<lambda>(d, c). (d, length c))
          (filter (\<lambda>(d, c). d \<le> suggestion_budget input)
             (map (\<lambda>c. (edit_distance (chars input) (chars c), c)) candidates)))"

subsection \<open>Durations and sizes\<close>

datatype number_error =
    NeedsUnit | NoNumber | NotWhole | UnknownUnit bytes | TooLarge

definition digits_prefix :: "bytes \<Rightarrow> bytes" where
  "digits_prefix s = takeWhile is_ascii_digit s"

definition duration_factor :: "bytes \<Rightarrow> nat option" where
  "duration_factor unit =
     (if unit = ''ms'' then Some 1
      else if unit = ''s'' then Some 1000
      else if unit = ''m'' then Some 60000
      else if unit = ''h'' then Some 3600000
      else if unit = ''d'' then Some 86400000
      else None)"

text \<open>A duration in milliseconds.\<close>

definition parse_duration :: "bytes \<Rightarrow> number_error + nat" where
  "parse_duration text =
     (let t = trim text; number = digits_prefix t; unit = drop (length number) t in
      if unit = [] then Inl NeedsUnit
      else if number = [] then Inl NoNumber
      else and_then (ok_or NotWhole (parse_unsigned u64_max number))
        (\<lambda>v. case duration_factor unit of
               None \<Rightarrow> Inl (UnknownUnit unit)
             | Some f \<Rightarrow> ok_or TooLarge (checked_mul u64_max v f)))"

definition size_factor :: "bytes \<Rightarrow> nat option" where
  "size_factor unit =
     (if unit = '''' \<or> unit = ''B'' then Some 1
      else if unit = ''KiB'' then Some 1024
      else if unit = ''MiB'' then Some (1024 * 1024)
      else if unit = ''GiB'' then Some (1024 * 1024 * 1024)
      else if unit = ''KB'' then Some 1000
      else if unit = ''MB'' then Some 1000000
      else if unit = ''GB'' then Some 1000000000
      else None)"

definition parse_size :: "bytes \<Rightarrow> number_error + nat" where
  "parse_size text =
     (let t = trim text; number = digits_prefix t; unit = trim (drop (length number) t) in
      if number = [] then Inl NoNumber
      else and_then (ok_or NotWhole (parse_unsigned u64_max number))
        (\<lambda>v. case size_factor unit of
               None \<Rightarrow> Inl (UnknownUnit unit)
             | Some f \<Rightarrow> ok_or TooLarge (checked_mul u64_max v f)))"

definition show_size :: "nat \<Rightarrow> bytes" where
  "show_size n =
     (if 1073741824 \<le> n \<and> n mod 1073741824 = 0 then show_nat (n div 1073741824) @ ''GiB''
      else if 1048576 \<le> n \<and> n mod 1048576 = 0 then show_nat (n div 1048576) @ ''MiB''
      else if 1024 \<le> n \<and> n mod 1024 = 0 then show_nat (n div 1024) @ ''KiB''
      else show_nat n)"

subsection \<open>Values of a type\<close>

definition int_from_value :: "int \<Rightarrow> int \<Rightarrow> scalar \<Rightarrow> diag_code + int" where
  "int_from_value lo hi v =
     (case as_int v of
        None \<Rightarrow> Inl InvalidValue
      | Some n \<Rightarrow> if lo \<le> n \<and> n \<le> hi then Inr n else Inl InvalidValue)"

definition string_from_value :: "scalar \<Rightarrow> diag_code + bytes" where
  "string_from_value v = ok_or InvalidValue (as_str v)"

definition bool_from_value :: "scalar \<Rightarrow> diag_code + bool" where
  "bool_from_value v = ok_or InvalidValue (as_bool v)"

definition duration_from_value :: "scalar \<Rightarrow> diag_code + nat" where
  "duration_from_value v =
     (case as_str v of
        None \<Rightarrow> Inl InvalidValue
      | Some text \<Rightarrow> (case parse_duration text of Inl _ \<Rightarrow> Inl InvalidValue | Inr d \<Rightarrow> Inr d))"

definition size_from_value :: "scalar \<Rightarrow> diag_code + nat" where
  "size_from_value v =
     (case (case v of
              ScalarStr text \<Rightarrow> Some text
            | ScalarInt n \<Rightarrow> if 0 \<le> n then Some (show_nat (nat n)) else None
            | _ \<Rightarrow> None) of
        None \<Rightarrow> Inl InvalidValue
      | Some text \<Rightarrow> (case parse_size text of Inl _ \<Rightarrow> Inl InvalidValue | Inr s \<Rightarrow> Inr s))"

type_synonym socket_addr = "ip_addr \<times> nat"

text \<open>
  \<open>SocketAddr::from_str\<close>: an IPv4 address, a colon and a port, or an IPv6 address in brackets. The
  scope identifier that a bracketed address may carry is outside the model.
\<close>

text \<open>\<open>read_port\<close>: a colon and decimal digits (leading zeros allowed) up to 65535, to the end.\<close>

definition read_port :: "bytes \<Rightarrow> nat option" where
  "read_port s =
     (case read_char (CHR '':'') s of
        None \<Rightarrow> None
      | Some d \<Rightarrow>
          if d \<noteq> [] \<and> list_all is_ascii_digit d \<and> dec_value d \<le> u16_max then Some (dec_value d) else None)"

definition parse_std_socket_addr :: "bytes \<Rightarrow> socket_addr option" where
  "parse_std_socket_addr s =
     (case (case read_ipv4_addr s of
              None \<Rightarrow> None
            | Some (a, r) \<Rightarrow> map_option (\<lambda>p. (V4 a, p)) (read_port r)) of
        Some sa \<Rightarrow> Some sa
      | None \<Rightarrow>
          (case Option.bind (read_char (CHR ''['') s) read_ipv6_addr of
             None \<Rightarrow> None
           | Some (a, r) \<Rightarrow>
               map_option (\<lambda>p. (V6 a, p)) (Option.bind (read_char (CHR '']'') r) read_port)))"

datatype socket_error = NotNumeric | ZeroPort

definition parse_socket_addr :: "bytes \<Rightarrow> socket_error + socket_addr" where
  "parse_socket_addr text =
     (let candidate = (case strip_prefix '':'' text of Some port \<Rightarrow> ''0.0.0.0:'' @ port | None \<Rightarrow> text) in
      case parse_std_socket_addr candidate of
        None \<Rightarrow> Inl NotNumeric
      | Some (ip, port) \<Rightarrow> if port = 0 then Inl ZeroPort else Inr (ip, port))"

fun levenshtein :: "'a list \<Rightarrow> 'a list \<Rightarrow> nat" where
  "levenshtein [] b = length b"
| "levenshtein a [] = length a"
| "levenshtein (x # a) (y # b) =
     min (min (levenshtein a b + (if x \<noteq> y then 1 else 0)) (levenshtein a (y # b) + 1))
         (levenshtein (x # a) b + 1)"

lemma row_cells_levenshtein:
  "length ps = length bs \<Longrightarrow>
   p = levenshtein as (rev seen) \<Longrightarrow> 
   (\<And>j. j < length bs \<Longrightarrow> ps ! j = levenshtein as (rev (seen @ take (Suc j) bs))) \<Longrightarrow>
   left = levenshtein (x # as) (rev seen) \<Longrightarrow>
   row_cells x bs (p # ps) left =
     map (\<lambda>j. levenshtein (x # as) (rev (seen @ take (Suc j) bs))) [0..<length bs]"
proof (induction bs arbitrary: p ps left seen)
  case (Cons b bs)
  then obtain q qs where ps: "ps = q # qs" by (cases ps) auto
  have q: "q = levenshtein as (b # rev seen)" using Cons.prems(3) [of 0] ps by simp
  define cell where "cell = levenshtein (x # as) (b # rev seen)"
  have cell: "min (min (p + (if x \<noteq> b then 1 else 0)) (q + 1)) (left + 1) = cell"
    using Cons.prems q by (simp add: cell_def)
  have "row_cells x bs (q # qs) cell =
      map (\<lambda>j. levenshtein (x # as) (rev ((seen @ [b]) @ take (Suc j) bs))) [0..<length bs]"
  proof (rule Cons.IH)
    show "length qs = length bs" using Cons.prems(1) ps by simp
    show "qs ! j = levenshtein as (rev ((seen @ [b]) @ take (Suc j) bs))" if "j < length bs" for j
      using Cons.prems(3) [of "Suc j"] that ps by simp
  qed (simp_all add: q cell_def)
  moreover have "[0..<length (b # bs)] = 0 # map Suc [0..<length bs]"
    by (simp add: map_Suc_upt upt_conv_Cons del: upt_Suc)
  ultimately show ?case using cell ps by (simp add: cell_def o_def Let_def del: upt_Suc)
qed simp

lemma levenshtein_Nil2: "levenshtein a [] = length a"
  by (cases a) simp_all

lemma distance_rows_levenshtein:
  "previous = map (\<lambda>j. levenshtein (rev seen) (rev (take j b))) [0..<length b + 1] \<Longrightarrow>
   length seen = i \<Longrightarrow>
   distance_rows a i b previous = map (\<lambda>j. levenshtein (rev (seen @ a)) (rev (take j b))) [0..<length b + 1]"
proof (induction a arbitrary: i previous seen)
  case (Cons x a)
  let ?row = "(i + 1) # row_cells x b previous (i + 1)"
  have upt: "[0..<length b + 1] = 0 # map Suc [0..<length b]"
    by (simp add: map_Suc_upt upt_conv_Cons del: upt_Suc)
  have prev: "previous = length seen # map (\<lambda>j. levenshtein (rev seen) (rev (take (Suc j) b))) [0..<length b]"
    unfolding Cons.prems(1) upt by (simp add: o_def levenshtein_Nil2)
  have "row_cells x b previous (i + 1) =
      map (\<lambda>j. levenshtein (x # rev seen) (rev ([] @ take (Suc j) b))) [0..<length b]"
    unfolding prev by (rule row_cells_levenshtein) (simp_all add: levenshtein_Nil2 Cons.prems(2))
  then have "?row = map (\<lambda>j. levenshtein (rev (seen @ [x])) (rev (take j b))) [0..<length b + 1]"
    unfolding upt by (simp add: o_def levenshtein_Nil2 Cons.prems(2))
  from Cons.IH [OF this] Cons.prems(2) show ?case by simp
qed simp

lemma edit_distance_levenshtein: "edit_distance a b = levenshtein (rev a) (rev b)"
proof -
  have "distance_rows a 0 b [0..<length b + 1] = map (\<lambda>j. levenshtein (rev ([] @ a)) (rev (take j b))) [0..<length b + 1]"
    by (rule distance_rows_levenshtein) (auto simp: map_equality_iff nth_append intro!: nth_equalityI)
  then show ?thesis unfolding edit_distance_def by (simp add: nth_append)
qed

lemma levenshtein_sym: "levenshtein a b = levenshtein b a"
  by (induction a b rule: levenshtein.induct) (auto simp: levenshtein_Nil2 min.commute min.left_commute)

lemma levenshtein_zero: "levenshtein a b = 0 \<longleftrightarrow> a = b"
  by (induction a b rule: levenshtein.induct) (auto simp: min_def split: if_splits)

lemma min_by_key_None [simp]: "min_by_key f xs = None \<longleftrightarrow> xs = []"
  by (cases xs) (auto split: option.splits)

lemma min_by_key_Some:
  "min_by_key f xs = Some x \<Longrightarrow> x \<in> set xs \<and> (\<forall>y \<in> set xs. f x \<le> f y)"
  by (induction xs arbitrary: x) (fastforce split: option.splits if_splits)+

lemma digits_prefix_show: "(rest = [] \<or> \<not> is_ascii_digit (hd rest)) \<Longrightarrow> digits_prefix (show_nat n @ rest) = show_nat n"
  using show_nat_digits [of n]
  by (cases rest) (simp_all add: digits_prefix_def takeWhile_append list_all_iff)

lemma trimmed_number_unit:
  assumes u: "u = [] \<or> (\<forall>w \<in> set ws_encodings. \<not> starts_with (rev w) (rev u))" and "length u = 0 \<or> 3 \<le> length u"
  shows "trimmed (show_nat n @ u)"
proof -
  obtain d r where d: "show_nat n = d # r" and "is_ascii_digit d"
    using show_nat_digits [of n] show_nat_not_Nil [of n] by (cases "show_nat n") auto
  have digit_not_ws: "list_all (\<lambda>b. \<not> is_ascii_digit b) w \<and> w \<noteq> [] \<and> length w \<le> 3" if "w \<in> set ws_encodings" for w
    using that by (auto simp: ws_encodings_def is_ascii_digit_def)
  have front: "\<not> starts_with w (show_nat n @ u)" if w: "w \<in> set ws_encodings" for w
  proof
    assume s: "starts_with w (show_nat n @ u)"
    obtain c v where "w = c # v" using digit_not_ws [OF w] by (cases w) auto
    with s d digit_not_ws [OF w] \<open>is_ascii_digit d\<close> show False by simp
  qed
  have rear: "\<not> starts_with (rev w) (rev (show_nat n @ u))" if w: "w \<in> set ws_encodings" for w
  proof
    assume s: "starts_with (rev w) (rev (show_nat n @ u))"
    show False
    proof (cases "u = []")
      case True
      obtain c v where "rev w = c # v" using digit_not_ws [OF w] by (cases "rev w") auto
      moreover obtain e f where "rev (show_nat n) = e # f" "is_ascii_digit e"
        using show_nat_digits [of n] show_nat_not_Nil [of n]
        by (cases "rev (show_nat n)") (auto simp: list_all_iff) 
      moreover have "c \<in> set w" using \<open>rev w = c # v\<close> by (metis list.set_intros(1) set_rev)
      ultimately show False using s True digit_not_ws [OF w] by (auto simp: list_all_iff)
    next
      case False
      then have "length (rev w) \<le> length (rev u)" using assms(2) digit_not_ws [OF w] by auto
      with s have "starts_with (rev w) (rev u)"
        unfolding starts_with_iff rev_append by (metis append_eq_append_conv_if append_take_drop_id)
      with u False w show False by blast
    qed
  qed
  show ?thesis using front rear by (auto simp: trimmed_def drop_one_None)
qed

lemma trim_show_nat_unit:
  "u \<in> {'''', ''KiB'', ''MiB'', ''GiB''} \<Longrightarrow> trim (show_nat n @ u) = show_nat n @ u"
  by (rule trim_trimmed, rule trimmed_number_unit) (auto simp: ws_encodings_def)

lemma trim_unit: "u \<in> {'''', ''KiB'', ''MiB'', ''GiB''} \<Longrightarrow> trim u = u"
  by (rule trim_trimmed) (auto simp: trimmed_def drop_one_None ws_encodings_def)

lemma parse_size_unit:
  assumes "u \<in> {'''', ''KiB'', ''MiB'', ''GiB''}" "size_factor u = Some f" "v * f \<le> u64_max" "0 < f"
  shows "parse_size (show_nat v @ u) = Inr (v * f)"
proof -
  have "digits_prefix (show_nat v @ u) = show_nat v"
    using assms(1) by (intro digits_prefix_show) (auto simp: is_ascii_digit_def)
  moreover have "v \<le> u64_max" using assms(3,4) by (metis le_trans mult_le_mono2 nat_mult_1_right Suc_leI One_nat_def)
  ultimately show ?thesis using assms
    by (simp add: parse_size_def trim_show_nat_unit [OF assms(1)] trim_unit [OF assms(1)] parse_show_nat
        checked_mul_def ok_or_def Let_def)
qed

lemma parse_show_size:
  assumes "n \<le> u64_max"
  shows "parse_size (show_size n) = Inr n"
proof -
  have m: "k dvd n \<Longrightarrow> n div k * k = n" for k :: nat by simp
  show ?thesis
    using assms parse_size_unit [of "''GiB''" 1073741824 "n div 1073741824"]
      parse_size_unit [of "''MiB''" 1048576 "n div 1048576"]
      parse_size_unit [of "''KiB''" 1024 "n div 1024"] parse_size_unit [of "[]" 1 n]
    by (simp add: show_size_def size_factor_def m mod_eq_0_iff_dvd)
qed

lemma parse_duration_bound: "parse_duration t = Inr d \<Longrightarrow> d \<le> u64_max"
  by (auto simp: parse_duration_def Let_def checked_mul_def split: if_splits option.splits)

lemma parse_socket_addr_port:
  "parse_socket_addr t = Inr (ip, port) \<Longrightarrow> 0 < port \<and> port \<le> u16_max"
  by (auto simp: parse_socket_addr_def parse_std_socket_addr_def read_port_def Let_def bind_eq_Some_conv
      split: option.splits if_splits prod.splits)

subsection \<open>Properties\<close>

text \<open>
  the two-row dynamic program of the spelling suggester computes the Levenshtein distance (the
  words read from their ends), which is symmetric and zero exactly for equal words.
\<close>

theorem edit_distance_correct:
  "edit_distance a b = levenshtein (rev a) (rev b) \<and> edit_distance a b = edit_distance b a \<and>
   (edit_distance a b = 0 \<longleftrightarrow> a = b)"
proof -
  have "levenshtein (rev a) (rev b) = levenshtein (rev b) (rev a)" by (rule levenshtein_sym)
  then show ?thesis by (simp add: edit_distance_levenshtein levenshtein_zero eq_commute [of b a])
qed

text \<open>
  a suggestion is one of the candidates, within the budget for the input's length, and no
  candidate is closer.
\<close>

theorem did_you_mean_closest:
  assumes "did_you_mean input candidates = Some c"
  shows "c \<in> set candidates \<and> edit_distance (chars input) (chars c) \<le> suggestion_budget input \<and>
    (\<forall>d \<in> set candidates. edit_distance (chars input) (chars c) \<le> edit_distance (chars input) (chars d))"
proof -
  let ?e = "\<lambda>c. edit_distance (chars input) (chars c)"
  let ?close = "filter (\<lambda>(d, c). d \<le> suggestion_budget input) (map (\<lambda>c. (?e c, c)) candidates)"
  obtain n where m: "min_by_key (\<lambda>(d, c). (d, length c)) ?close = Some (n, c)"
    using assms by (auto simp: did_you_mean_def)
  from min_by_key_Some [OF m] have c: "c \<in> set candidates" "n = ?e c" "?e c \<le> suggestion_budget input"
    and least: "\<And>d. d \<in> set candidates \<Longrightarrow> ?e d \<le> suggestion_budget input \<Longrightarrow> ?e c \<le> ?e d"
    by (auto simp: less_le)
  have "?e c \<le> ?e d" if "d \<in> set candidates" for d
    using c(3) least [OF that] by linarith
  with c show ?thesis by blast
qed

theorem did_you_mean_closest_witness:
  "did_you_mean ''hots'' [''path'', ''host''] = Some ''host'' \<and> ''host'' \<in> set [''path'', ''host'']"
proof -
  have d: "did_you_mean ''hots'' [''path'', ''host''] = Some ''host''" by code_simp
  then show ?thesis using did_you_mean_closest [OF d] by blast
qed

text \<open>
  a size prints in its largest exact unit and the text parses back to the same number of bytes.
\<close>

theorem size_roundtrip:
  assumes "n \<le> u64_max"
  shows "parse_size (show_size n) = Inr n"
  by (rule parse_show_size [OF assms])

theorem size_roundtrip_witness:
  "show_size 3145728 = ''3MiB'' \<and> parse_size (show_size 3145728) = Inr 3145728"
proof -
  have "show_size 3145728 = ''3MiB''" by (simp add: show_size_def show_nat.simps char_of_def bit_0)
  then show ?thesis using size_roundtrip [of 3145728] by (simp add: u64_max_def)
qed

end
