(* ===== verification/Routing.thy ===== *)
theory Routing
  imports Config_Model
begin

text \<open>
  Route selection: the decoded path identity of a request (\<open>gatel-plan/src/request_path.rs\<close>) and the
  matchers of a route (\<open>gatel-plan/src/matcher.rs\<close>). Error messages are modelled as constructors of an
  error type per parser; the configuration node of \<open>match\<close> is reduced to its properties and the
  number of its arguments, and a diagnostic to its code.
\<close>

subsection \<open>One decoded path identity\<close>

definition hex :: "byte \<Rightarrow> nat option" where
  "hex b =
     (if within 48 57 b then Some (code b - 48)
      else if within 97 102 b then Some (code b - 97 + 10)
      else if within 65 70 b then Some (code b - 65 + 10)
      else None)"

definition to_slash :: "byte \<Rightarrow> byte" where
  "to_slash b = (if b = CHR 0x5C then CHR ''/'' else b)"

text \<open>The decoding loop: percent escapes are decoded once and backslashes become slashes.\<close>

fun decode_path :: "bytes \<Rightarrow> bytes option" where
  "decode_path [] = Some []"
| "decode_path (b # s) =
     (if b = CHR ''%'' then
        (case s of
           h # l # rest \<Rightarrow>
             (case (hex h, hex l) of
                (Some high, Some low) \<Rightarrow>
                  map_option (\<lambda>d. to_slash (char_of (high * 16 + low)) # d) (decode_path rest)
              | _ \<Rightarrow> None)
         | _ \<Rightarrow> None)
      else map_option (\<lambda>d. to_slash b # d) (decode_path s))"

definition is_dots :: "bytes \<Rightarrow> bool" where
  "is_dots p \<longleftrightarrow> p = ''.'' \<or> p = ''..''"

definition push_part :: "bytes list \<Rightarrow> bytes \<Rightarrow> bytes list" where
  "push_part parts p =
     (if p = '''' \<or> p = ''.'' then parts
      else if p = ''..'' then butlast parts
      else parts @ [p])"

definition canonical_path :: "bytes \<Rightarrow> bytes" where
  "canonical_path decoded =
     (let parts = split_at (CHR ''/'') decoded;
          trailing = ends_with ''/'' decoded \<or> is_dots (last parts);
          canonical = CHR ''/'' # join ''/'' (foldl push_part [] parts) in
      if trailing \<and> 1 < length canonical then canonical @ ''/'' else canonical)"

definition needs_normalizing :: "bytes \<Rightarrow> bool" where
  "needs_normalizing path \<longleftrightarrow>
     CHR ''%'' \<in> set path \<or> CHR 0x5C \<in> set path \<or> contains_str ''//'' path \<or>
     list_ex is_dots (split_at (CHR ''/'') path)"

definition routing_path :: "bytes \<Rightarrow> bytes option" where
  "routing_path path =
     (if path = ''*'' then Some path
      else if \<not> starts_with ''/'' path then None
      else if \<not> needs_normalizing path then (if has_control path then None else Some path)
      else (case decode_path path of
          None \<Rightarrow> None
        | Some decoded \<Rightarrow>
            if \<not> utf8_valid decoded then None
            else if has_control decoded then None
            else Some (canonical_path decoded)))"

subsection \<open>Hosts\<close>

datatype host_match = HostAny | HostExact bytes | HostSuffix bytes

datatype host_error = EmptyHost | HostHasPort | InvalidWildcard | MisplacedStar

definition host_parse :: "bytes \<Rightarrow> host_error + host_match" where
  "host_parse raw =
     (let host = trim raw in
      if host = ''*'' then Inr HostAny
      else if host = [] then Inl EmptyHost
      else if CHR '':'' \<in> set host then Inl HostHasPort
      else
        (let lowered = to_ascii_lowercase host in
         case strip_prefix ''*.'' lowered of
           Some rest \<Rightarrow>
             if rest = [] \<or> CHR ''*'' \<in> set rest then Inl InvalidWildcard
             else Inr (HostSuffix (CHR ''.'' # rest))
         | None \<Rightarrow>
             if CHR ''*'' \<in> set lowered then Inl MisplacedStar else Inr (HostExact lowered)))"

fun host_matches :: "host_match \<Rightarrow> bytes \<Rightarrow> bool" where
  "host_matches HostAny host = True"
| "host_matches (HostExact expected) host = eq_ignore_ascii_case host expected"
| "host_matches (HostSuffix suffix) host =
     (length suffix < length host \<and> ends_with suffix (to_ascii_lowercase host))"

fun host_specificity :: "host_match \<Rightarrow> nat \<times> nat" where
  "host_specificity (HostExact name) = (2, length name)"
| "host_specificity (HostSuffix suffix) = (1, length suffix)"
| "host_specificity HostAny = (0, 0)"

fun host_describe :: "host_match \<Rightarrow> bytes" where
  "host_describe HostAny = ''*''"
| "host_describe (HostExact name) = name"
| "host_describe (HostSuffix suffix) = CHR ''*'' # suffix"

definition local_suffixes :: "bytes list" where
  "local_suffixes = [''.localhost'', ''.test'', ''.local'', ''.internal'', ''.home.arpa'']"

text \<open>
  \<open>Ipv4Addr::is_loopback\<close>, \<open>is_private\<close> and \<open>is_link_local\<close>, and \<open>Ipv6Addr::is_loopback\<close>, on octets.
\<close>

fun local_address :: "ip_addr \<Rightarrow> bool" where
  "local_address (V4 a) =
     (let x = unat (a ! 0); y = unat (a ! 1) in
      x = 127 \<or> x = 10 \<or> (x = 172 \<and> 16 \<le> y \<and> y \<le> 31) \<or> (x = 192 \<and> y = 168) \<or> (x = 169 \<and> y = 254))"
| "local_address (V6 a) =
     (a = replicate 15 0 @ [1] \<or>
      (word_of_nat (256 * unat (a ! 0) + unat (a ! 1)) AND (0xFE00 :: 16 word)) = 0xFC00 \<or>
      (word_of_nat (256 * unat (a ! 0) + unat (a ! 1)) AND (0xFFC0 :: 16 word)) = 0xFE80)"

definition is_local :: "bytes \<Rightarrow> bool" where
  "is_local name =
     (if name = ''localhost'' then True
      else case parse_ip name of
        Some address \<Rightarrow> local_address address
      | None \<Rightarrow> list_ex (\<lambda>suffix. ends_with suffix name \<and> length suffix < length name) local_suffixes)"

fun local_name :: "host_match \<Rightarrow> bytes option" where
  "local_name HostAny = None"
| "local_name (HostExact name) = (if is_local name then Some name else None)"
| "local_name (HostSuffix suffix) =
     (if is_local (trim_start_char (CHR ''.'') suffix) then Some (CHR ''*'' # suffix) else None)"

subsection \<open>Paths\<close>

datatype path_match = PathExact bytes | PathPrefix bytes

datatype path_error = NotAbsolute | HasQueryOrFragment | StarInside | BadEscaping

definition path_parse :: "bytes \<Rightarrow> path_error + path_match" where
  "path_parse raw =
     (if \<not> starts_with ''/'' raw then Inl NotAbsolute
      else if CHR ''?'' \<in> set raw \<or> CHR ''#'' \<in> set raw then Inl HasQueryOrFragment
      else
        (let prefix = ends_with ''*'' raw;
             pattern = (case strip_suffix ''*'' raw of Some p \<Rightarrow> p | None \<Rightarrow> raw) in
         if CHR ''*'' \<in> set pattern then Inl StarInside
         else case routing_path pattern of
           None \<Rightarrow> Inl BadEscaping
         | Some canonical \<Rightarrow> Inr (if prefix then PathPrefix canonical else PathExact canonical)))"

fun path_matches :: "path_match \<Rightarrow> bytes \<Rightarrow> bool" where
  "path_matches (PathExact expected) path = (path = expected)"
| "path_matches (PathPrefix prefix) path =
     (starts_with prefix path \<or>
      (case strip_suffix ''/'' prefix of Some bare \<Rightarrow> path = bare | None \<Rightarrow> False))"

fun path_specificity :: "path_match \<Rightarrow> nat \<times> nat" where
  "path_specificity (PathExact path) = (1, length path)"
| "path_specificity (PathPrefix prefix) = (0, length prefix)"

definition escape_path_pattern :: "bytes \<Rightarrow> bytes" where
  "escape_path_pattern path =
     replace_char (CHR ''#'') ''%23''
       (replace_char (CHR ''?'') ''%3F''
          (replace_char (CHR ''*'') ''%2A'' (replace_char (CHR ''%'') ''%25'' path)))"

fun path_describe :: "path_match \<Rightarrow> bytes" where
  "path_describe (PathExact path) = escape_path_pattern path"
| "path_describe (PathPrefix prefix) = escape_path_pattern prefix @ ''*''"

subsection \<open>Methods\<close>

datatype method_match = MethodAny | MethodOnly "bytes list"

datatype method_error = StarCombined | NotAMethod bytes

fun collect_methods :: "bytes list \<Rightarrow> bytes list \<Rightarrow> method_error + bytes list" where
  "collect_methods methods [] = Inr methods"
| "collect_methods methods (m # rest) =
     (if m = [] \<or> \<not> list_all (\<lambda>b. is_ascii_alphabetic b \<or> b = CHR ''-'') m then Inl (NotAMethod m)
      else
        (let upper = to_ascii_uppercase m in
         collect_methods (if upper \<in> set methods then methods else methods @ [upper]) rest))"

definition method_parse :: "bytes list \<Rightarrow> method_error + method_match" where
  "method_parse raw =
     (if ''*'' \<in> set raw then (if 1 < length raw then Inl StarCombined else Inr MethodAny)
      else case collect_methods [] raw of
        Inl e \<Rightarrow> Inl e
      | Inr methods \<Rightarrow> if methods = [] then Inr MethodAny else Inr (MethodOnly (sort methods)))"

fun method_matches :: "method_match \<Rightarrow> bytes \<Rightarrow> bool" where
  "method_matches MethodAny m = True"
| "method_matches (MethodOnly methods) m =
     (m \<in> set methods \<or> (m = ''HEAD'' \<and> ''GET'' \<in> set methods))"

fun method_specificity :: "method_match \<Rightarrow> nat" where
  "method_specificity (MethodOnly _) = 1"
| "method_specificity MethodAny = 0"

fun method_describe :: "method_match \<Rightarrow> bytes" where
  "method_describe MethodAny = ''*''"
| "method_describe (MethodOnly methods) = join '' '' methods"

subsection \<open>Further conditions\<close>

datatype matcher =
    Header bytes "bytes option"
  | Query bytes "bytes option"
  | Cookie bytes "bytes option"
  | ClientIp ip_addr nat
  | Tls bool
  | Not matcher

record match_context =
  ctx_host :: bytes
  ctx_method :: bytes
  ctx_path :: bytes
  ctx_query :: "bytes option"
  ctx_header :: "bytes \<Rightarrow> bytes option"
  ctx_cookie :: "bytes \<Rightarrow> bytes option"
  ctx_client_ip :: "ip_addr option"
  ctx_tls :: bool

definition match_value :: "bytes option \<Rightarrow> bytes option \<Rightarrow> bool" where
  "match_value actual expected =
     (case actual of
        None \<Rightarrow> False
      | Some a \<Rightarrow> (case expected of Some e \<Rightarrow> a = e | None \<Rightarrow> True))"

fun find_pair :: "bytes \<Rightarrow> bytes list \<Rightarrow> bytes option" where
  "find_pair name [] = None"
| "find_pair name (pair # rest) =
     (case (case split_once (CHR ''='') pair of Some kv \<Rightarrow> kv | None \<Rightarrow> (pair, '''')) of
        (key, val) \<Rightarrow> if key = name then Some val else find_pair name rest)"

definition query_value :: "bytes option \<Rightarrow> bytes \<Rightarrow> bytes option" where
  "query_value query name =
     (case query of None \<Rightarrow> None | Some q \<Rightarrow> find_pair name (split_at (CHR ''&'') q))"

fun ip_in_network :: "ip_addr \<Rightarrow> ip_addr \<Rightarrow> nat \<Rightarrow> bool" where
  "ip_in_network (V4 a) (V4 b) prefix = (prefix \<le> 32 \<and> masked a prefix = masked b prefix)"
| "ip_in_network (V6 a) (V6 b) prefix = (prefix \<le> 128 \<and> masked a prefix = masked b prefix)"
| "ip_in_network _ _ _ = False"

fun matcher_matches :: "matcher \<Rightarrow> match_context \<Rightarrow> bool" where
  "matcher_matches (Header name val) cx = match_value (ctx_header cx name) val"
| "matcher_matches (Cookie name val) cx = match_value (ctx_cookie cx name) val"
| "matcher_matches (Query name val) cx = match_value (query_value (ctx_query cx) name) val"
| "matcher_matches (ClientIp network prefix) cx =
     (case ctx_client_ip cx of None \<Rightarrow> False | Some ip \<Rightarrow> ip_in_network ip network prefix)"
| "matcher_matches (Tls expected) cx = (ctx_tls cx = expected)"
| "matcher_matches (Not inner) cx = (\<not> matcher_matches inner cx)"

definition describe_pair :: "bytes \<Rightarrow> bytes \<Rightarrow> bytes option \<Rightarrow> bytes" where
  "describe_pair kind name val =
     (case val of Some v \<Rightarrow> kind @ '' '' @ name @ ''='' @ v | None \<Rightarrow> kind @ '' '' @ name)"

definition show_bool :: "bool \<Rightarrow> bytes" where
  "show_bool b = (if b then ''true'' else ''false'')"

fun matcher_describe :: "matcher \<Rightarrow> bytes" where
  "matcher_describe (Header name val) = describe_pair ''header'' name val"
| "matcher_describe (Query name val) = describe_pair ''query'' name val"
| "matcher_describe (Cookie name val) = describe_pair ''cookie'' name val"
| "matcher_describe (ClientIp network prefix) = ''client-ip '' @ show_ip network @ ''/'' @ show_nat prefix"
| "matcher_describe (Tls expected) = ''tls '' @ show_bool expected"
| "matcher_describe (Not inner) = ''not('' @ matcher_describe inner @ '')''"

datatype cidr_error = BadPrefixLength | BadAddress | PrefixTooLong nat

definition parse_cidr :: "bytes \<Rightarrow> cidr_error + ip_addr \<times> nat" where
  "parse_cidr raw =
     and_then
       (case split_once (CHR ''/'') raw of
          Some (address, prefix) \<Rightarrow>
            and_then (ok_or BadPrefixLength (parse_unsigned u8_max prefix)) (\<lambda>p. Inr (address, p))
        | None \<Rightarrow> Inr (raw, u8_max))
       (\<lambda>(address, prefix).
          and_then (ok_or BadAddress (parse_ip address))
            (\<lambda>ip. let longest = (if is_ipv4 ip then 32 else 128);
                      p = (if prefix = u8_max then longest else prefix) in
                  if longest < p then Inl (PrefixTooLong p) else Inr (ip, p)))"

subsection \<open>The \<open>match\<close> node\<close>

definition property_text :: "scalar \<Rightarrow> bytes option" where
  "property_text v =
     (case as_str v of Some s \<Rightarrow> Some s | None \<Rightarrow> map_option show_bool (as_bool v))"

definition match_property :: "property \<Rightarrow> diag_code + matcher" where
  "match_property prop =
     (case prop of (name, v) \<Rightarrow>
       (case property_text v of
          None \<Rightarrow> Inl InvalidValue
        | Some text \<Rightarrow>
            if name \<in> {''header'', ''query'', ''cookie''} then
              (case (case split_once (CHR ''='') text of
                       Some (n, x) \<Rightarrow> (n, Some x) | None \<Rightarrow> (text, None)) of
                 (n, x) \<Rightarrow>
                   if n = [] then Inl InvalidValue
                   else if name = ''header'' then Inr (Header (to_ascii_lowercase n) x)
                   else if name = ''query'' then Inr (Query n x)
                   else Inr (Cookie n x))
            else if name = ''client-ip'' then
              (case parse_cidr text of Inl _ \<Rightarrow> Inl InvalidValue | Inr (net, p) \<Rightarrow> Inr (ClientIp net p))
            else if name = ''tls'' then
              (case as_bool v of Some flag \<Rightarrow> Inr (Tls flag) | None \<Rightarrow> Inl InvalidValue)
            else Inl UnknownProperty))"

fun partition_results :: "('e + 'a) list \<Rightarrow> 'e list \<times> 'a list" where
  "partition_results [] = ([], [])"
| "partition_results (r # rs) =
     (case partition_results rs of
        (es, as) \<Rightarrow> (case r of Inl e \<Rightarrow> (e # es, as) | Inr a \<Rightarrow> (es, a # as)))"

definition parse_match_node :: "property list \<Rightarrow> nat \<Rightarrow> diag_code list \<times> matcher list" where
  "parse_match_node props args =
     (case partition_results (map match_property props) of
        (es, ms) \<Rightarrow>
          (es @ (if 0 < args then [ArgumentCount] else []), sort_key matcher_describe ms))"

subsection \<open>Selection order\<close>

datatype ordering = Less | Equal | Greater

definition cmp :: "'a::linorder \<Rightarrow> 'a \<Rightarrow> ordering" where
  "cmp a b = (if a < b then Less else if a = b then Equal else Greater)"

definition then_with :: "ordering \<Rightarrow> ordering \<Rightarrow> ordering" where
  "then_with a b = (if a = Equal then b else a)"

type_synonym route_claim = "host_match \<times> path_match \<times> method_match \<times> nat"

fun compare_specificity :: "route_claim \<Rightarrow> route_claim \<Rightarrow> ordering" where
  "compare_specificity (h1, p1, m1, n1) (h2, p2, m2, n2) =
     then_with (cmp (host_specificity h2) (host_specificity h1))
       (then_with (cmp (path_specificity p2) (path_specificity p1))
          (then_with (cmp (method_specificity m2) (method_specificity m1)) (cmp n2 n1)))"

subsection \<open>Canonical paths\<close>

text \<open>
  What the path identity promises: absolute, slashes only, no empty inner segment and no dot segment.
\<close>

definition canonical :: "bytes \<Rightarrow> bool" where
  "canonical q \<longleftrightarrow> starts_with ''/'' q \<and> CHR 0x5C \<notin> set q \<and> \<not> contains_str ''//'' q \<and>
     \<not> list_ex is_dots (split_at (CHR ''/'') q)"

definition segment :: "bytes \<Rightarrow> bool" where
  "segment p \<longleftrightarrow> p \<noteq> [] \<and> \<not> is_dots p \<and> CHR ''/'' \<notin> set p"

lemma contains_double:
  assumes "contains_str [c, c] s"
  shows "[] \<in> set (butlast (tl (split_at c s)))"
proof -
  obtain a b where "s = a @ c # c # b" using assms by (auto simp: contains_str_iff)
  then have "split_at c s = split_at c a @ [] # split_at c b"
    using split_at_append_sep [of c a "c # b"] by simp
  then show ?thesis by (simp add: butlast_append)
qed

lemma push_part_segments:
  "list_all segment parts \<Longrightarrow> CHR ''/'' \<notin> set p \<Longrightarrow> list_all segment (push_part parts p)"
  by (auto simp: push_part_def list_all_iff segment_def is_dots_def dest: in_set_butlastD)

lemma foldl_push_part_segments:
  "list_all segment parts \<Longrightarrow> \<forall>p \<in> set ps. CHR ''/'' \<notin> set p \<Longrightarrow>
     list_all segment (foldl push_part parts ps)"
  by (induction ps arbitrary: parts) (auto simp: push_part_segments)

lemma foldl_push_part_subset:
  "set (foldl push_part parts ps) \<subseteq> set parts \<union> set ps"
proof (induction ps arbitrary: parts)
  case (Cons p ps)
  have "set (push_part parts p) \<subseteq> set parts \<union> {p}" by (auto simp: push_part_def dest: in_set_butlastD)
  with Cons [of "push_part parts p"] show ?case by auto
qed simp

lemma foldl_push_part_filter:
  "\<forall>p \<in> set ps. \<not> is_dots p \<Longrightarrow> foldl push_part parts ps = parts @ filter (\<lambda>p. p \<noteq> []) ps"
  by (induction ps arbitrary: parts) (auto simp: push_part_def is_dots_def)

lemma to_slash_neq [simp]: "to_slash b \<noteq> CHR 0x5C" "CHR 0x5C \<noteq> to_slash b"
  by (auto simp: to_slash_def)

lemma decode_path_Cons:
  assumes "decode_path (b # s) = Some d"
  obtains c t e where "d = to_slash c # e" "decode_path t = Some e" "length t \<le> length s"
proof (cases "b = CHR ''%''")
  case True
  with assms obtain h l t where s: "s = h # l # t" by (auto split: list.splits)
  with assms True obtain x y where "hex h = Some x" "hex l = Some y" by (simp split: option.splits)
  with assms True s that [of "char_of (x * 16 + y)" _ t] show thesis by auto
next
  case False
  with assms that [of b _ s] show thesis by auto
qed

lemma decode_path_no_backslash: "decode_path s = Some d \<Longrightarrow> CHR 0x5C \<notin> set d"
proof (induction "length s" arbitrary: s d rule: less_induct)
  case less
  show ?case
  proof (cases s)
    case (Cons b r)
    then obtain c t e where "d = to_slash c # e" "decode_path t = Some e" "length t \<le> length r"
      using less.prems by (metis decode_path_Cons)
    with less.hyps [of t e] Cons show ?thesis by simp
  qed (use less.prems in simp)
qed

text \<open>The segments of a canonical path: the split at slashes and what joins back to it.\<close>

definition assemble :: "bytes list \<Rightarrow> bool \<Rightarrow> bytes" where
  "assemble ps trailing = CHR ''/'' # join ''/'' ps @ (if trailing \<and> ps \<noteq> [] then ''/'' else [])"

lemma split_assemble:
  assumes "list_all segment ps"
  shows "split_at (CHR ''/'') (assemble ps trailing) =
     [] # (if ps = [] then [[]] else if trailing then ps @ [[]] else ps)"
proof -
  have sep: "\<forall>p \<in> set ps. CHR ''/'' \<notin> set p" using assms by (auto simp: list_all_iff segment_def)
  then show ?thesis
    using split_at_append_sep [of "CHR ''/''" "join ''/'' ps" "[]"] split_at_join [of ps]
    by (auto simp: assemble_def)
qed

lemma assemble_canonical:
  assumes "list_all segment ps" "\<forall>p \<in> set ps. CHR 0x5C \<notin> set p"
  shows "canonical (assemble ps trailing)"
proof -
  have "[] \<notin> set ps" and "\<forall>p \<in> set ps. \<not> is_dots p"
    using assms(1) by (auto simp: list_all_iff segment_def)
  moreover from this have "\<not> contains_str ''//'' (assemble ps trailing)"
    using contains_double split_assemble [OF assms(1), of trailing]
    by (fastforce split: if_splits dest: in_set_butlastD)
  moreover have "CHR 0x5C \<notin> set (assemble ps trailing)"
    using set_join [of "''/''" ps] assms(2) by (auto simp: assemble_def)
  moreover have "starts_with ''/'' (assemble ps trailing)" by (simp add: assemble_def)
  ultimately show ?thesis
    using split_assemble [OF assms(1), of trailing]
    by (auto simp: canonical_def list_ex_iff is_dots_def split: if_splits)
qed

lemma join_Nil_iff: "list_all segment ps \<Longrightarrow> join ''/'' ps = [] \<longleftrightarrow> ps = []"
  by (cases ps; cases "tl ps") (auto simp: segment_def)

lemma canonical_path_assemble:
  "\<exists>ps trailing. canonical_path d = assemble ps trailing \<and> list_all segment ps \<and>
     set ps \<subseteq> set (split_at (CHR ''/'') d)"
proof -
  let ?parts = "split_at (CHR ''/'') d"
  let ?ps = "foldl push_part [] ?parts"
  let ?t = "ends_with ''/'' d \<or> is_dots (last ?parts)"
  have "list_all segment ?ps"
    by (rule foldl_push_part_segments) (auto dest: split_at_parts)
  moreover from this have "canonical_path d = assemble ?ps ?t"
    by (simp add: canonical_path_def assemble_def Let_def join_Nil_iff)
  ultimately show ?thesis using foldl_push_part_subset [of "[]" ?parts] by auto
qed

lemma slash_plain: "\<not> is_ascii_control (CHR ''/'')" "code (CHR ''/'') < 0x80"
  by (simp_all add: is_ascii_control_def)

lemma assemble_has_control:
  assumes "list_all segment ps" "\<not> (\<exists>p \<in> set ps. has_control p)"
  shows "\<not> has_control (assemble ps trailing)"
  using assms(2) unfolding has_control_split_at [OF slash_plain, of "assemble ps trailing"] split_assemble [OF assms(1)]
  by (auto split: if_splits)

lemma assemble_utf8:
  assumes "list_all segment ps" "\<forall>p \<in> set ps. utf8_valid p"
  shows "utf8_valid (assemble ps trailing)"
  using assms(2) unfolding utf8_valid_split_at [OF slash_plain(2), of "assemble ps trailing"] split_assemble [OF assms(1)]
  by (auto split: if_splits)

lemma canonical_path_ok:
  assumes "CHR 0x5C \<notin> set d" "utf8_valid d" "\<not> has_control d"
  shows "canonical (canonical_path d)" "utf8_valid (canonical_path d)" "\<not> has_control (canonical_path d)"
proof -
  obtain ps trailing where ps: "canonical_path d = assemble ps trailing" "list_all segment ps"
      "set ps \<subseteq> set (split_at (CHR ''/'') d)"
    using canonical_path_assemble by blast
  have "\<forall>p \<in> set ps. CHR 0x5C \<notin> set p" using ps(3) assms(1) split_at_elems by fastforce
  then show "canonical (canonical_path d)" using ps assemble_canonical by metis
  show "utf8_valid (canonical_path d)"
    using ps assemble_utf8 assms(2) utf8_valid_split_at [OF slash_plain(2)] by (metis subsetD)
  show "\<not> has_control (canonical_path d)"
    using ps assemble_has_control assms(3) has_control_split_at [OF slash_plain] by (metis subsetD)
qed

lemma canonical_normal: "canonical q \<Longrightarrow> needs_normalizing q \<longleftrightarrow> CHR ''%'' \<in> set q"
  by (auto simp: canonical_def needs_normalizing_def)

lemma routing_path_ok:
  assumes "routing_path p = Some q" "p \<noteq> ''*''"
  shows "canonical q" "\<not> has_control q" "utf8_valid p \<Longrightarrow> utf8_valid q"
  using assms canonical_path_ok decode_path_no_backslash
  by (auto simp: routing_path_def canonical_def needs_normalizing_def split: if_splits option.splits)

lemma routing_path_fixed:
  "canonical q \<Longrightarrow> \<not> has_control q \<Longrightarrow> CHR ''%'' \<notin> set q \<Longrightarrow> routing_path q = Some q"
  using canonical_normal by (auto simp: routing_path_def canonical_def)

text \<open>A canonical path is its own normal form.\<close>

lemma split_slash_last:
  "ends_with [c] s \<longleftrightarrow> s \<noteq> [] \<and> last (split_at c s) = []"
proof (cases s rule: rev_cases)
  case (snoc r x)
  show ?thesis
  proof (cases "x = c")
    case True
    then show ?thesis using snoc split_at_append_sep [of c r "[]"] by simp
  next
    case False
    have "last (split_at c (r @ [x])) \<noteq> []" by (induction r) (use False in \<open>auto split: list.splits\<close>)
    with False snoc show ?thesis by simp
  qed
qed (simp add: ends_with_iff)

lemma canonical_inner:
  assumes "canonical (CHR ''/'' # t)" "t \<noteq> []" "split_at (CHR ''/'') t = us @ [l]"
  shows "[] \<notin> set us"
proof
  assume "[] \<in> set us"
  then obtain a b where us: "us = a @ [] # b" by (meson split_list)
  have s: "t = join ''/'' (a @ [] # b @ [l])" using assms(3) us join_split_at [of "CHR ''/''" t] by simp
  show False
  proof (cases a rule: rev_cases)
    case Nil
    with s have "t = CHR ''/'' # join ''/'' (b @ [l])" by (simp add: join_Cons)
    then have "contains_str ''//'' (CHR ''/'' # t)" by simp
    with assms(1) show False by (simp add: canonical_def)
  next
    case (snoc a2 x)
    have "join ''/'' (zs @ [] # ys) = join ''/'' zs @ ''//'' @ join ''/'' ys" if "zs \<noteq> []" "ys \<noteq> []" for zs ys
      using that by (induction zs rule: induct_list012) (auto simp: join_Cons)
    from this [of a "b @ [l]"] s snoc have "contains_str ''//'' t" by (auto simp: contains_str_iff)
    with assms(1) show False by (simp add: canonical_def)
  qed
qed

lemma canonical_path_fixed:
  assumes "canonical q"
  shows "canonical_path q = q"
proof -
  obtain t where q: "q = CHR ''/'' # t" using assms by (auto simp: canonical_def starts_with_iff)
  obtain us l where t: "split_at (CHR ''/'') t = us @ [l]" by (metis rev_exhaust split_at_not_Nil)
  have parts: "split_at (CHR ''/'') q = [] # us @ [l]" using q t by simp
  have nodots: "\<forall>p \<in> set (us @ [l]). \<not> is_dots p"
    using assms parts by (auto simp: canonical_def list_ex_iff)
  have fold: "foldl push_part [] (split_at (CHR ''/'') q) = filter (\<lambda>p. p \<noteq> []) (us @ [l])"
    using nodots by (subst foldl_push_part_filter) (auto simp: parts is_dots_def)
  have tj: "t = join ''/'' (us @ [l])" using t join_split_at by metis
  have cp: "canonical_path q =
      (let canonical = CHR ''/'' # join ''/'' (filter (\<lambda>p. p \<noteq> []) (us @ [l])) in
       if (ends_with ''/'' q \<or> is_dots l) \<and> 1 < length canonical then canonical @ ''/'' else canonical)"
    unfolding canonical_path_def Let_def fold by (simp add: parts)
  show ?thesis
  proof (cases "t = []")
    case True
    then show ?thesis using q by (simp add: canonical_path_def push_part_def)
  next
    case False
    have us: "[] \<notin> set us" using canonical_inner assms q False t by blast
    then have f: "filter (\<lambda>p. p \<noteq> []) us = us" by (auto simp: filter_id_conv)
    have e: "ends_with ''/'' q \<longleftrightarrow> l = []" using split_slash_last [of "CHR ''/''" q] parts q by simp
    show ?thesis
    proof (cases "l = []")
      case True
      have "us \<noteq> []" using True False tj by auto
      moreover from this us have "join ''/'' us \<noteq> []" by (cases us; cases "tl us") auto
      ultimately show ?thesis unfolding cp using q tj True f e by (simp add: join_append_single)
    next
      case False
      have "\<not> is_dots l" using nodots by simp
      then show ?thesis unfolding cp using q tj False f e by simp
    qed
  qed
qed

text \<open>Escaping writes the four special characters as percent escapes, which decode to them.\<close>

definition escape_byte :: "byte \<Rightarrow> bytes" where
  "escape_byte c =
     (if c = CHR ''%'' then ''%25'' else if c = CHR ''*'' then ''%2A''
      else if c = CHR ''?'' then ''%3F'' else if c = CHR ''#'' then ''%23'' else [c])"

lemma escape_path_pattern_bytes: "escape_path_pattern q = concat (map escape_byte q)"
  by (induction q) (simp_all add: escape_path_pattern_def escape_byte_def replace_char_Cons)

lemma decode_escape_byte:
  assumes "c \<noteq> CHR 0x5C"
  shows "decode_path (escape_byte c @ s) = map_option (\<lambda>d. c # d) (decode_path s)"
proof -
  have "decode_path (''%25'' @ s) = map_option (\<lambda>d. CHR ''%'' # d) (decode_path s)"
    "decode_path (''%2A'' @ s) = map_option (\<lambda>d. CHR ''*'' # d) (decode_path s)"
    "decode_path (''%3F'' @ s) = map_option (\<lambda>d. CHR ''?'' # d) (decode_path s)"
    "decode_path (''%23'' @ s) = map_option (\<lambda>d. CHR ''#'' # d) (decode_path s)"
    by (simp_all add: hex_def to_slash_def char_of_def bit_0)
  with assms show ?thesis by (simp add: escape_byte_def to_slash_def)
qed

lemma decode_escape: "CHR 0x5C \<notin> set q \<Longrightarrow> decode_path (escape_path_pattern q) = Some q"
  unfolding escape_path_pattern_bytes by (induction q) (auto simp: decode_escape_byte)

lemma escape_free:
  "CHR ''*'' \<notin> set (escape_path_pattern q)" "CHR ''?'' \<notin> set (escape_path_pattern q)"
  "CHR ''#'' \<notin> set (escape_path_pattern q)"
  unfolding escape_path_pattern_bytes by (auto simp: escape_byte_def split: if_splits)

lemma escape_id: "CHR ''%'' \<notin> set (escape_path_pattern q) \<Longrightarrow> escape_path_pattern q = q"
  unfolding escape_path_pattern_bytes by (induction q) (auto simp: escape_byte_def split: if_splits)

lemma escape_starts: "starts_with ''/'' q \<Longrightarrow> starts_with ''/'' (escape_path_pattern q)"
  by (cases q) (auto simp: escape_path_pattern_bytes escape_byte_def)

lemma routing_path_escape:
  assumes "canonical q" "utf8_valid q" "\<not> has_control q"
  shows "routing_path (escape_path_pattern q) = Some q"
proof (cases "CHR ''%'' \<in> set (escape_path_pattern q)")
  case True
  then have "needs_normalizing (escape_path_pattern q)" by (simp add: needs_normalizing_def)
  then show ?thesis
    using assms escape_starts [of q] decode_escape [of q] canonical_path_fixed [of q]
    by (auto simp: routing_path_def canonical_def)
next
  case False
  with escape_id have "escape_path_pattern q = q" by blast
  with False assms routing_path_fixed show ?thesis by simp
qed

lemma path_parse_cases:
  assumes "path_parse raw = Inr m"
  obtains (exact) q where "m = PathExact q" "routing_path raw = Some q" "raw \<noteq> ''*''"
  | (pre) pattern q where "m = PathPrefix q" "raw = pattern @ ''*''" "routing_path pattern = Some q" "pattern \<noteq> ''*''"
proof (cases "strip_suffix ''*'' raw")
  case None
  with assms show ?thesis
    by (auto simp: path_parse_def Let_def ends_with_def split: if_splits option.splits intro: exact)
next
  case (Some pattern)
  with assms show ?thesis
    by (auto simp: path_parse_def Let_def ends_with_def strip_suffix_iff split: if_splits option.splits intro: pre)
qed

lemma path_parse_describe:
  assumes "path_parse raw = Inr m" "utf8_valid raw"
  shows "path_parse (path_describe m) = Inr m"
  using assms(1)
proof (cases rule: path_parse_cases)
  case (exact q)
  note q = routing_path_ok [OF exact(2,3)]
  have "strip_suffix ''*'' (escape_path_pattern q) = None"
    using escape_free(1) [of q] by (metis in_set_conv_decomp not_None_eq strip_suffix_iff)
  with q assms(2) exact(1) escape_free [of q] escape_starts [of q] routing_path_escape [of q]
  show ?thesis by (simp add: path_parse_def Let_def ends_with_def canonical_def)
next
  case (pre pattern q)
  note q = routing_path_ok [OF pre(3,4)]
  have "utf8_valid pattern" using assms(2) pre(2) utf8_valid_append_ascii [of "CHR ''*''" pattern "[]"] by simp
  moreover have "starts_with ''/'' (escape_path_pattern q @ ''*'')"
    using q(1) escape_starts [of q] by (auto simp: canonical_def starts_with_iff)
  ultimately show ?thesis using q pre(1) escape_free [of q] routing_path_escape [of q]
    by (simp add: path_parse_def Let_def ends_with_def)
qed

subsection \<open>Hosts, methods and networks\<close>

lemma lower_byte_inj_special:
  "\<not> is_ascii_lower b \<Longrightarrow> lower_byte c = b \<Longrightarrow> c = b"
  by (auto simp: lower_byte_def is_ascii_upper_def is_ascii_lower_def split: if_splits)

lemma in_lowercase_iff: "\<not> is_ascii_lower b \<Longrightarrow> \<not> is_ascii_upper b \<Longrightarrow> b \<in> set (to_ascii_lowercase s) \<longleftrightarrow> b \<in> set s"
  by (auto simp: to_ascii_lowercase_def image_iff dest: lower_byte_inj_special) (metis lower_byte_def)

lemma host_parse_describe:
  assumes "host_parse raw = Inr m"
  shows "host_parse (host_describe m) = Inr m"
proof (cases "m = HostAny")
  case True
  have "trim ''*'' = ''*''" by (rule trim_trimmed) (simp add: trimmed_def drop_one_None ws_encodings_def)
  with True show ?thesis by (simp add: host_parse_def)
next
  case False
  let ?l = "to_ascii_lowercase (trim raw)"
  have t: "trim ?l = ?l" by (rule trim_trimmed, rule trimmed_lowercase, rule trimmed_trim)
  have colon: "CHR '':'' \<notin> set ?l"
    using assms False by (auto simp: host_parse_def Let_def in_lowercase_iff is_ascii_lower_def is_ascii_upper_def split: if_splits)
  have "?l \<noteq> []" "?l \<noteq> ''*''" and d: "host_describe m = ?l"
    using assms False
    by (auto simp: host_parse_def Let_def strip_prefix_iff to_ascii_lowercase_def split: if_splits option.splits)
  with t colon assms False show ?thesis unfolding d by (auto simp: host_parse_def Let_def split: if_splits)
qed

lemma host_suffix_matches:
  "host_matches (HostSuffix (CHR ''.'' # parent)) host \<longleftrightarrow>
     (\<exists>label. label \<noteq> [] \<and> to_ascii_lowercase host = label @ CHR ''.'' # parent)"
  unfolding host_matches.simps ends_with_iff length_to_ascii_lowercase [of host, symmetric]
  by (auto simp del: length_to_ascii_lowercase)

lemma collect_methods_Inr:
  "collect_methods acc raw = Inr ms \<Longrightarrow> distinct acc \<Longrightarrow>
     distinct ms \<and> set ms = set acc \<union> to_ascii_uppercase ` set raw \<and>
     (\<forall>m \<in> set raw. m \<noteq> [] \<and> list_all (\<lambda>b. is_ascii_alphabetic b \<or> b = CHR ''-'') m)"
proof (induction acc raw rule: collect_methods.induct)
  case (2 acc m rest)
  let ?ok = "m \<noteq> [] \<and> list_all (\<lambda>b. is_ascii_alphabetic b \<or> b = CHR ''-'') m"
  let ?acc = "if to_ascii_uppercase m \<in> set acc then acc else acc @ [to_ascii_uppercase m]"
  have ok: ?ok and "collect_methods ?acc rest = Inr ms"
    using 2(2) by (auto simp: Let_def split: if_split_asm)
  with 2(1,3) show ?case by (auto simp: Let_def)
qed simp

lemma collect_methods_upper:
  "\<forall>m \<in> set raw. m \<noteq> [] \<and> list_all (\<lambda>b. is_ascii_alphabetic b \<or> b = CHR ''-'') m \<and> to_ascii_uppercase m = m \<Longrightarrow>
   distinct (acc @ raw) \<Longrightarrow> collect_methods acc raw = Inr (acc @ raw)"
  by (induction acc raw rule: collect_methods.induct) (simp_all add: Let_def)

lemma upper_method_chars:
  "list_all (\<lambda>b. is_ascii_alphabetic b \<or> b = CHR ''-'') m \<Longrightarrow>
   list_all (\<lambda>b. is_ascii_alphabetic b \<or> b = CHR ''-'') (to_ascii_uppercase m)"
proof (induction m)
  case (Cons b m)
  have "is_ascii_alphabetic (upper_byte b) \<or> upper_byte b = CHR ''-''"
    if "is_ascii_alphabetic b \<or> b = CHR ''-''"
    using that by (auto simp: upper_byte_def is_ascii_alphabetic_def is_ascii_lower_def is_ascii_upper_def)
  with Cons show ?case by (simp add: to_ascii_uppercase_def)
qed (simp add: to_ascii_uppercase_def)

lemma method_parse_only:
  assumes "method_parse raw = Inr (MethodOnly ms)"
  shows "sorted ms" "distinct ms" "set ms = to_ascii_uppercase ` set raw" "ms \<noteq> []"
    "\<forall>m \<in> set ms. m \<noteq> [] \<and> list_all (\<lambda>b. is_ascii_alphabetic b \<or> b = CHR ''-'') m \<and> to_ascii_uppercase m = m"
proof -
  obtain us where us: "collect_methods [] raw = Inr us" "ms = sort us" "us \<noteq> []"
    using assms by (auto simp: method_parse_def split: if_splits sum.splits)
  note c = collect_methods_Inr [OF us(1), simplified]
  show "sorted ms" "distinct ms" "set ms = to_ascii_uppercase ` set raw" "ms \<noteq> []" using us c by (auto dest: arg_cong [where f = length])
  show "\<forall>m \<in> set ms. m \<noteq> [] \<and> list_all (\<lambda>b. is_ascii_alphabetic b \<or> b = CHR ''-'') m \<and> to_ascii_uppercase m = m"
    using us(2) c upper_method_chars by (auto simp: to_ascii_uppercase_def)
qed

lemma method_parse_again:
  assumes "method_parse raw = Inr (MethodOnly ms)"
  shows "method_parse ms = Inr (MethodOnly ms)"
proof -
  note m = method_parse_only [OF assms]
  have "''*'' \<notin> set ms"
    using bspec [OF m(5), of "''*''"] by (auto simp: is_ascii_alphabetic_def is_ascii_lower_def is_ascii_upper_def)
  moreover have "collect_methods [] ms = Inr ms" using collect_methods_upper [of ms "[]"] m(2,5) by simp
  ultimately show ?thesis using m(1,4) by (simp add: method_parse_def sort_key_id_if_sorted)
qed

lemma ip_in_network_iff:
  assumes "wf_ip a" "wf_ip b" "prefix \<le> 8 * length (octets b)"
  shows "ip_in_network a b prefix \<longleftrightarrow>
     is_ipv4 a = is_ipv4 b \<and> (\<forall>j < prefix. addr_bit (octets a) j = addr_bit (octets b) j)"
  using assms by (cases a; cases b) (auto simp: masked_eq_iff)

lemma parse_cidr_ok:
  assumes "parse_cidr raw = Inr (net, prefix)"
  shows "wf_ip net" "prefix \<le> 8 * length (octets net)"
proof -
  show "wf_ip net" using assms
    by (auto simp: parse_cidr_def Let_def split: option.splits if_splits dest: parse_ip_wf)
  then show "prefix \<le> 8 * length (octets net)" using assms
    by (cases net) (auto simp: parse_cidr_def Let_def split: option.splits if_splits)
qed

subsection \<open>Specificity is a total order\<close>

definition route_rank :: "route_claim \<Rightarrow> (nat \<times> nat) \<times> (nat \<times> nat) \<times> nat \<times> nat" where
  "route_rank c = (case c of (h, p, m, n) \<Rightarrow>
     (host_specificity h, path_specificity p, method_specificity m, n))"

lemma cmp_pair: "then_with (cmp a b) (cmp c d) = cmp (a, c) (b, d)"
  for a b :: "'a::linorder" and c d :: "'b::linorder"
  by (auto simp: then_with_def cmp_def)

lemma compare_specificity_rank: "compare_specificity a b = cmp (route_rank b) (route_rank a)"
  by (cases a; cases b) (simp add: route_rank_def cmp_pair)

text \<open>
  What every comparison used for sorting has to satisfy; \<open>cmp\<close> on a linear order through any key does.
\<close>

locale ranked_order =
  fixes compare :: "'a \<Rightarrow> 'a \<Rightarrow> ordering" and rank :: "'a \<Rightarrow> 'b::linorder"
  assumes compare_rank: "compare x y = cmp (rank y) (rank x)"
begin

lemma compare_refl: "compare x x = Equal"
  by (simp add: compare_rank cmp_def)

lemma compare_swap: "compare x y = Less \<longleftrightarrow> compare y x = Greater"
  by (auto simp: compare_rank cmp_def)

lemma compare_trans: "compare x y = Less \<Longrightarrow> compare y z = Less \<Longrightarrow> compare x z = Less"
  by (auto simp: compare_rank cmp_def split: if_splits)

lemma compare_equal: "compare x y = Equal \<longleftrightarrow> rank x = rank y"
  by (auto simp: compare_rank cmp_def)

end

interpretation specificity: ranked_order compare_specificity route_rank
  by unfold_locales (rule compare_specificity_rank)

subsection \<open>Properties\<close>

text \<open>
  C3: the decoded path identity of a request, when there is one, is absolute, uses slashes only, has no
  empty inner segment, no dot segment and no control character, and is a valid string when the
  request's path is; \<open>*\<close> (\<open>OPTIONS *\<close>) is the one path kept as it is.
\<close>

theorem routing_path_canonical:
  assumes "routing_path p = Some q" "p \<noteq> ''*''" "utf8_valid p"
  shows "starts_with ''/'' q \<and> CHR 0x5C \<notin> set q \<and> \<not> contains_str ''//'' q \<and>
    (\<forall>part \<in> set (split_at (CHR ''/'') q). part \<noteq> ''.'' \<and> part \<noteq> ''..'') \<and>
    \<not> has_control q \<and> utf8_valid q"
  using routing_path_ok [OF assms(1,2)] assms(3)
  by (auto simp: canonical_def list_ex_iff is_dots_def)

theorem routing_path_canonical_witness:
  "routing_path ''/a/%2e%2E/b%5c//c/'' = Some ''/b/c/'' \<and> \<not> contains_str ''//'' ''/b/c/''"
proof -
  have r: "routing_path ''/a/%2e%2E/b%5c//c/'' = Some ''/b/c/''" by code_simp
  moreover have "utf8_valid ''/a/%2e%2E/b%5c//c/''" by code_simp
  ultimately show ?thesis using routing_path_canonical [OF r] by simp
qed

text \<open>
  normalising is idempotent on every result without a literal percent sign, so a path that was
  normalised once selects the same route again.
\<close>

theorem routing_path_idempotent:
  assumes "routing_path p = Some q" "CHR ''%'' \<notin> set q"
  shows "routing_path q = Some q"
proof (cases "p = ''*''")
  case True
  with assms show ?thesis by (simp add: routing_path_def)
next
  case False
  with assms show ?thesis using routing_path_ok [OF assms(1) False] routing_path_fixed by blast
qed

theorem routing_path_idempotent_witness:
  "routing_path ''/x/./y/..'' = Some ''/x/'' \<and> routing_path ''/x/'' = Some ''/x/''"
proof -
  have r: "routing_path ''/x/./y/..'' = Some ''/x/''" by code_simp
  then show ?thesis using routing_path_idempotent [OF r] by simp
qed

text \<open>
  the printed form of a path matcher parses back to the same matcher, escapes included.
\<close>

theorem path_describe_roundtrip:
  assumes "path_parse raw = Inr m" "utf8_valid raw"
  shows "path_parse (path_describe m) = Inr m"
  by (rule path_parse_describe [OF assms])

theorem path_describe_roundtrip_witness:
  "path_parse ''/a%25b/./c*'' = Inr (PathPrefix ''/a%b/c'') \<and>
   path_parse (path_describe (PathPrefix ''/a%b/c'')) = Inr (PathPrefix ''/a%b/c'')"
proof -
  have r: "path_parse ''/a%25b/./c*'' = Inr (PathPrefix ''/a%b/c'')" by code_simp
  moreover have "utf8_valid ''/a%25b/./c*''" by code_simp
  ultimately show ?thesis using path_describe_roundtrip [OF r] by simp
qed

text \<open>
  a parsed CIDR block matches a client exactly when the families agree and the first
  \<open>prefix\<close> bits of both addresses agree.
\<close>

theorem client_ip_matches_prefix:
  assumes "parse_cidr raw = Inr (net, prefix)" "ctx_client_ip cx = Some ip" "wf_ip ip"
  shows "matcher_matches (ClientIp net prefix) cx \<longleftrightarrow>
     is_ipv4 ip = is_ipv4 net \<and> (\<forall>j < prefix. addr_bit (octets ip) j = addr_bit (octets net) j)"
  using assms ip_in_network_iff parse_cidr_ok [OF assms(1)] by simp

definition client_context :: "ip_addr \<Rightarrow> match_context" where
  "client_context ip =
     \<lparr>ctx_host = [], ctx_method = [], ctx_path = [], ctx_query = None, ctx_header = \<lambda>_. None,
      ctx_cookie = \<lambda>_. None, ctx_client_ip = Some ip, ctx_tls = False\<rparr>"

theorem client_ip_matches_prefix_witness:
  "parse_cidr ''10.0.0.0/9'' = Inr (V4 [10, 0, 0, 0], 9) \<and>
   (matcher_matches (ClientIp (V4 [10, 0, 0, 0]) 9) (client_context (V4 [10, 127, 3, 4])) \<longleftrightarrow>
    (\<forall>j < 9. addr_bit [10, 127, 3, 4] j = addr_bit [10, 0, 0, 0] j))"
proof -
  have r: "parse_cidr ''10.0.0.0/9'' = Inr (V4 [10, 0, 0, 0], 9)" by code_simp
  have c: "ctx_client_ip (client_context (V4 [10, 127, 3, 4])) = Some (V4 [10, 127, 3, 4])"
    by (simp add: client_context_def)
  from r show ?thesis using client_ip_matches_prefix [OF r c] by simp
qed

text \<open>
  the prefix length 255 is taken for an absent one, so an address with the impossible length 255
  is accepted as a single-host network, where every other length beyond the family's is refused.
\<close>

theorem parse_cidr_accepts_255:
  "parse_cidr ''10.0.0.0/255'' = Inr (V4 [10, 0, 0, 0], 32) \<and>
   parse_cidr ''10.0.0.0/254'' = Inl (PrefixTooLong 254)"
  by code_simp

text \<open>
  the comparison routes are sorted by is a total preorder: it agrees with the lexicographic order
  of (host, path, method, conditions) specificities, most specific first, so sorting is well defined.
\<close>

theorem compare_specificity_order:
  "compare_specificity a a = Equal \<and>
   (compare_specificity a b = Less \<longleftrightarrow> compare_specificity b a = Greater) \<and>
   (compare_specificity a b = Less \<and> compare_specificity b c = Less \<longrightarrow> compare_specificity a c = Less) \<and>
   (compare_specificity a b = Equal \<and> compare_specificity b c = Equal \<longrightarrow> compare_specificity a c = Equal)"
  by (intro conjI impI specificity.compare_refl specificity.compare_swap)
    (auto intro: specificity.compare_trans simp: specificity.compare_equal)

theorem compare_specificity_order_witness:
  "compare_specificity (HostExact ''a'', PathExact ''/'', MethodAny, 0)
      (HostSuffix ''.a'', PathExact ''/x'', MethodAny, 0) = Less \<and>
   compare_specificity (HostSuffix ''.a'', PathExact ''/x'', MethodAny, 0)
      (HostAny, PathExact ''/x'', MethodAny, 3) = Less \<and>
   compare_specificity (HostExact ''a'', PathExact ''/'', MethodAny, 0) 
      (HostAny, PathExact ''/x'', MethodAny, 3) = Less"
proof -
  have "compare_specificity (HostExact ''a'', PathExact ''/'', MethodAny, 0)
      (HostSuffix ''.a'', PathExact ''/x'', MethodAny, 0) = Less" by code_simp
  moreover have "compare_specificity (HostSuffix ''.a'', PathExact ''/x'', MethodAny, 0)
      (HostAny, PathExact ''/x'', MethodAny, 3) = Less" by code_simp
  ultimately show ?thesis using compare_specificity_order by blast
qed

text \<open>
  the printed form of a host matcher parses back to it, and a wildcard host matches exactly the
  names with at least one label in front of its parent, never the parent itself.
\<close>

theorem host_roundtrip_and_wildcard:
  assumes "host_parse raw = Inr m"
  shows "host_parse (host_describe m) = Inr m \<and>
    (\<forall>parent host. m = HostSuffix (CHR ''.'' # parent) \<longrightarrow>
      (host_matches m host \<longleftrightarrow> (\<exists>label. label \<noteq> [] \<and> to_ascii_lowercase host = label @ CHR ''.'' # parent)))"
  using host_parse_describe [OF assms] host_suffix_matches by blast

theorem host_roundtrip_and_wildcard_witness:
  "host_parse '' *.Example.org '' = Inr (HostSuffix ''.example.org'') \<and>
   host_parse (host_describe (HostSuffix ''.example.org'')) = Inr (HostSuffix ''.example.org'')"
proof -
  have r: "host_parse '' *.Example.org '' = Inr (HostSuffix ''.example.org'')" by code_simp
  then show ?thesis using host_roundtrip_and_wildcard [OF r] by blast
qed

text \<open>
  a parsed method list is the sorted set of the upper-cased names, parses to itself again, and a
  request's method passes when it is listed or is \<open>HEAD\<close> beside a listed \<open>GET\<close>.
\<close>

theorem method_parse_canonical:
  assumes "method_parse raw = Inr (MethodOnly ms)"
  shows "sorted ms \<and> distinct ms \<and> set ms = to_ascii_uppercase ` set raw \<and>
    method_parse ms = Inr (MethodOnly ms) \<and>
    (method_matches (MethodOnly ms) m \<longleftrightarrow>
       m \<in> to_ascii_uppercase ` set raw \<or> (m = ''HEAD'' \<and> ''GET'' \<in> to_ascii_uppercase ` set raw))"
  using method_parse_only(1-3) [OF assms] method_parse_again [OF assms]
  unfolding method_matches.simps by blast

theorem method_parse_canonical_witness:
  "method_parse [''post'', ''Get'', ''POST''] = Inr (MethodOnly [''GET'', ''POST'']) \<and>
   method_parse [''GET'', ''POST''] = Inr (MethodOnly [''GET'', ''POST''])"
proof -
  have r: "method_parse [''post'', ''Get'', ''POST''] = Inr (MethodOnly [''GET'', ''POST''])" by code_simp
  then show ?thesis using method_parse_canonical [OF r] by blast
qed

end
