(* ===== verification/Identity.thy ===== *)
theory Identity
  imports Prelude
begin

text \<open>
  Content fingerprints and resource identities (\<open>gatel-model/src/hash.rs\<close>, \<open>gatel-model/src/id.rs\<close>).

  The hash function itself (the \<open>blake3\<close> crate) is a parameter \<open>digest\<close> from the bytes written to a
  fingerprint. A \<open>Hasher\<close> is the sequence of bytes written to it so far, so that what the code
  controls, the framing of its writes, is fully visible. Durations are given in nanoseconds.
\<close>

subsection \<open>Little-endian integers\<close>

primrec le_bytes :: "nat \<Rightarrow> nat \<Rightarrow> bytes" where
  "le_bytes 0 n = []"
| "le_bytes (Suc k) n = char_of (n mod 256) # le_bytes k (n div 256)"

primrec le_value :: "bytes \<Rightarrow> nat" where
  "le_value [] = 0"
| "le_value (b # s) = code b + 256 * le_value s"

lemma length_le_bytes [simp]: "length (le_bytes k n) = k"
  by (induction k arbitrary: n) simp_all

lemma le_value_bytes [codec_simps]: "le_value (le_bytes k n) = n mod 256 ^ k"
proof (induction k arbitrary: n)
  case (Suc k)
  have "le_value (le_bytes (Suc k) n) = n mod 256 + 256 * (n div 256 mod 256 ^ k)"
    by (simp add: Suc)
  also have "\<dots> = n mod (256 * 256 ^ k)" by (simp add: mod_mult2_eq)
  finally show ?case by simp
qed simp

lemma le_bytes_value: "le_bytes (length s) (le_value s) = s"
proof (induction s)
  case (Cons b s)
  have "(code b + 256 * le_value s) mod 256 = code b" by simp
  moreover have "(code b + 256 * le_value s) div 256 = le_value s" by simp
  ultimately show ?case using Cons by simp
qed simp

lemma le_value_lt: "le_value s < 256 ^ length s"
proof (induction s)
  case (Cons b s)
  have "code b + 256 * le_value s < 256 * (le_value s + 1)" using code_lt_256 [of b] by simp
  also have "\<dots> \<le> 256 * 256 ^ length s" using Cons by (intro mult_le_mono2) simp
  finally show ?case by simp
qed simp

subsection \<open>The hasher\<close>

type_synonym fingerprint = bytes
type_synonym hasher = bytes
type_synonym digest = "bytes \<Rightarrow> fingerprint"

definition hasher_new :: hasher where
  "hasher_new = []"

definition put_tag :: "nat \<Rightarrow> hasher \<Rightarrow> hasher" where
  "put_tag t h = h @ [char_of t]"

definition update_str :: "bytes \<Rightarrow> hasher \<Rightarrow> hasher" where
  "update_str v h = put_tag 1 h @ le_bytes 8 (length v) @ v"

definition update_u64 :: "nat \<Rightarrow> hasher \<Rightarrow> hasher" where
  "update_u64 v h = put_tag 2 h @ le_bytes 8 v"

definition update_i64 :: "int \<Rightarrow> hasher \<Rightarrow> hasher" where
  "update_i64 v h = put_tag 3 h @ le_bytes 8 (nat (v mod 2 ^ 64))"

definition update_bool :: "bool \<Rightarrow> hasher \<Rightarrow> hasher" where
  "update_bool v h = put_tag 4 h @ [char_of (if v then 1 else 0 :: nat)]"

definition update_bytes :: "bytes \<Rightarrow> hasher \<Rightarrow> hasher" where
  "update_bytes v h = put_tag 5 h @ le_bytes 8 (length v) @ v"

definition update_duration :: "nat \<Rightarrow> hasher \<Rightarrow> hasher" where
  "update_duration nanos h = put_tag 6 h @ le_bytes 16 nanos"

definition update_none :: "hasher \<Rightarrow> hasher" where
  "update_none h = put_tag 7 h"

definition update_opt_str :: "bytes option \<Rightarrow> hasher \<Rightarrow> hasher" where
  "update_opt_str v h = (case v of Some t \<Rightarrow> update_str t h | None \<Rightarrow> update_none h)"

definition update_fingerprint :: "fingerprint \<Rightarrow> hasher \<Rightarrow> hasher" where
  "update_fingerprint v h = put_tag 8 h @ v"

definition item_digests :: "digest \<Rightarrow> ('a \<Rightarrow> hasher \<Rightarrow> hasher) \<Rightarrow> 'a list \<Rightarrow> fingerprint list" where
  "item_digests digest hash_item items = map (\<lambda>item. digest (hash_item item hasher_new)) items"

definition update_unordered ::
  "digest \<Rightarrow> 'a list \<Rightarrow> ('a \<Rightarrow> hasher \<Rightarrow> hasher) \<Rightarrow> hasher \<Rightarrow> hasher" where
  "update_unordered digest items hash_item h =
     (let digests = sort (item_digests digest hash_item items) in
      put_tag 9 h @ le_bytes 8 (length digests) @ concat digests)"

definition update_ordered ::
  "digest \<Rightarrow> 'a list \<Rightarrow> ('a \<Rightarrow> hasher \<Rightarrow> hasher) \<Rightarrow> hasher \<Rightarrow> hasher" where
  "update_ordered digest items hash_item h =
     put_tag 10 h @ le_bytes 8 (length items) @ concat (item_digests digest hash_item items)"

definition finish :: "digest \<Rightarrow> hasher \<Rightarrow> fingerprint" where
  "finish digest h = digest h"

definition hex_byte :: "byte \<Rightarrow> bytes" where
  "hex_byte b =
     (let d = (\<lambda>n. if n < 10 then char_of (48 + n) else char_of (87 + n)) in
      [d (code b div 16), d (code b mod 16)])"

definition fingerprint_text :: "fingerprint \<Rightarrow> bytes" where
  "fingerprint_text f = concat (map hex_byte f)"

definition fingerprint_short :: "fingerprint \<Rightarrow> bytes" where
  "fingerprint_short f = take 16 (fingerprint_text f)"

subsection \<open>Sources and resources\<close>

datatype source_kind = FileSource | AdminSource | KubernetesSource

record source_id =
  source_kind :: source_kind
  source_name :: bytes

definition source_file :: "bytes \<Rightarrow> source_id" where
  "source_file name = \<lparr>source_kind = FileSource, source_name = name\<rparr>"

definition source_admin :: source_id where
  "source_admin = \<lparr>source_kind = AdminSource, source_name = ''runtime''\<rparr>"

definition source_kubernetes :: "bytes \<Rightarrow> source_id" where
  "source_kubernetes namespace = \<lparr>source_kind = KubernetesSource, source_name = namespace\<rparr>"

definition source_namespace :: "source_id \<Rightarrow> bytes option" where
  "source_namespace s =
     (case source_kind s of
        FileSource \<Rightarrow> None
      | AdminSource \<Rightarrow> Some ''runtime/''
      | KubernetesSource \<Rightarrow> Some (''k8s/'' @ source_name s @ ''/''))"

definition owns :: "source_id \<Rightarrow> bytes \<Rightarrow> bool" where
  "owns s resource_name =
     (case source_namespace s of
        Some prefix \<Rightarrow> starts_with prefix resource_name
      | None \<Rightarrow> CHR ''/'' \<notin> set resource_name)"

definition source_text :: "source_id \<Rightarrow> bytes" where
  "source_text s =
     (case source_kind s of
        FileSource \<Rightarrow> ''file:'' @ source_name s
      | AdminSource \<Rightarrow> ''admin''
      | KubernetesSource \<Rightarrow> ''k8s:'' @ source_name s)"

text \<open>\<open>SourceRev::next\<close>: exhaustion is refused, never wrapped.\<close>

type_synonym source_rev = nat

definition rev_next :: "source_rev \<Rightarrow> source_rev option" where
  "rev_next r = checked_add u64_max r 1"

datatype resource_kind = ListenerKind | SiteKind | RouteKind | UpstreamKind | TlsPolicyKind | DirectiveKind

fun resource_kind_text :: "resource_kind \<Rightarrow> bytes" where
  "resource_kind_text ListenerKind = ''listener''"
| "resource_kind_text SiteKind = ''site''"
| "resource_kind_text RouteKind = ''route''"
| "resource_kind_text UpstreamKind = ''upstream''"
| "resource_kind_text TlsPolicyKind = ''tls-policy''"
| "resource_kind_text DirectiveKind = ''directive''"

record resource_id =
  resource_kind :: resource_kind
  resource_name :: bytes

definition resource_new :: "resource_kind \<Rightarrow> bytes \<Rightarrow> resource_id" where
  "resource_new k n = \<lparr>resource_kind = k, resource_name = n\<rparr>"

definition derived :: "digest \<Rightarrow> resource_kind \<Rightarrow> bytes list \<Rightarrow> resource_id" where
  "derived digest k parts =
     (let h = foldl (\<lambda>h part. update_str part h) (update_str (resource_kind_text k) hasher_new) parts in
      resource_new k (CHR ''@'' # fingerprint_short (finish digest h)))"

definition derived_owned :: "digest \<Rightarrow> resource_kind \<Rightarrow> source_id \<Rightarrow> bytes list \<Rightarrow> resource_id" where
  "derived_owned digest k owner parts =
     (let d = derived digest k parts in
      case source_namespace owner of
        Some prefix \<Rightarrow> resource_new k (prefix @ resource_name d)
      | None \<Rightarrow> d)"

definition is_derived :: "resource_id \<Rightarrow> bool" where
  "is_derived r = starts_with ''@'' (last (split_at (CHR ''/'') (resource_name r)))"

definition resource_hash_into :: "resource_id \<Rightarrow> hasher \<Rightarrow> hasher" where
  "resource_hash_into r h = update_str (resource_name r) (update_str (resource_kind_text (resource_kind r)) h)"

definition resource_text :: "resource_id \<Rightarrow> bytes" where
  "resource_text r = resource_kind_text (resource_kind r) @ ''/'' @ resource_name r"

subsection \<open>The framing is uniquely decodable\<close>

text \<open>
  The typed writes as data, what a sequence of them appends to the hasher, and a reader for them.
\<close>

datatype field =
    FStr bytes | FU64 nat | FI64 int | FBool bool | FBytes bytes | FNanos nat | FNone
  | FFingerprint fingerprint | FUnordered "fingerprint list" | FOrdered "fingerprint list"

fun field_bytes :: "field \<Rightarrow> bytes" where
  "field_bytes (FStr v) = char_of (1::nat) # le_bytes 8 (length v) @ v"
| "field_bytes (FU64 v) = char_of (2::nat) # le_bytes 8 v"
| "field_bytes (FI64 v) = char_of (3::nat) # le_bytes 8 (nat (v mod 2 ^ 64))"
| "field_bytes (FBool v) = char_of (4::nat) # [char_of (if v then 1 else 0 :: nat)]"
| "field_bytes (FBytes v) = char_of (5::nat) # le_bytes 8 (length v) @ v"
| "field_bytes (FNanos v) = char_of (6::nat) # le_bytes 16 v"
| "field_bytes FNone = [char_of (7::nat)]"
| "field_bytes (FFingerprint v) = char_of (8::nat) # v"
| "field_bytes (FUnordered v) = char_of (9::nat) # le_bytes 8 (length v) @ concat v"
| "field_bytes (FOrdered v) = char_of (10::nat) # le_bytes 8 (length v) @ concat v"

text \<open>The values a Rust caller can pass: lengths and integers of their types, 32-byte digests.\<close>

fun field_ok :: "field \<Rightarrow> bool" where
  "field_ok (FStr v) \<longleftrightarrow> length v < 2 ^ 64"
| "field_ok (FU64 v) \<longleftrightarrow> v < 2 ^ 64"
| "field_ok (FI64 v) \<longleftrightarrow> - (2 ^ 63) \<le> v \<and> v < 2 ^ 63"
| "field_ok (FBool v) \<longleftrightarrow> True"
| "field_ok (FBytes v) \<longleftrightarrow> length v < 2 ^ 64"
| "field_ok (FNanos v) \<longleftrightarrow> v < 2 ^ 128"
| "field_ok FNone \<longleftrightarrow> True"
| "field_ok (FFingerprint v) \<longleftrightarrow> length v = 32"
| "field_ok (FUnordered v) \<longleftrightarrow> length v < 2 ^ 64 \<and> list_all (\<lambda>d. length d = 32) v"
| "field_ok (FOrdered v) \<longleftrightarrow> length v < 2 ^ 64 \<and> list_all (\<lambda>d. length d = 32) v"

lemma hasher_fields:
  "update_str v h = h @ field_bytes (FStr v)"
  "update_u64 n h = h @ field_bytes (FU64 n)"
  "update_i64 i h = h @ field_bytes (FI64 i)"
  "update_bool b h = h @ field_bytes (FBool b)"
  "update_bytes v h = h @ field_bytes (FBytes v)"
  "update_duration n h = h @ field_bytes (FNanos n)"
  "update_none h = h @ field_bytes FNone"
  "update_fingerprint f h = h @ field_bytes (FFingerprint f)"
  "update_unordered digest items hash_item h =
     h @ field_bytes (FUnordered (sort (item_digests digest hash_item items)))"
  "update_ordered digest items hash_item h =
     h @ field_bytes (FOrdered (item_digests digest hash_item items))"
  by (simp_all add: update_str_def update_u64_def update_i64_def update_bool_def update_bytes_def
      update_duration_def update_none_def update_fingerprint_def update_unordered_def
      update_ordered_def put_tag_def item_digests_def Let_def)

lemma le_bytes_append_inj:
  assumes "le_bytes k m @ s = le_bytes k n @ t" "m < 256 ^ k" "n < 256 ^ k"
  shows "m = n \<and> s = t"
proof -
  have "le_bytes k m = le_bytes k n" "s = t" using assms(1) by (simp_all add: append_eq_append_conv)
  then have "m mod 256 ^ k = n mod 256 ^ k" by (metis le_value_bytes)
  with assms \<open>s = t\<close> show ?thesis by simp
qed

lemma concat_append_inj:
  "length v = length w \<Longrightarrow> list_all (\<lambda>d. length d = k) v \<Longrightarrow> list_all (\<lambda>d. length d = k) w \<Longrightarrow>
   concat v @ s = concat w @ t \<Longrightarrow> v = w \<and> s = t"
  by (induction v w rule: list_induct2) auto

lemma i64_inj:
  assumes "- (2 ^ 63) \<le> v" "v < 2 ^ 63" "- (2 ^ 63) \<le> w" "w < (2::int) ^ 63"
    "nat (v mod 2 ^ 64) = nat (w mod 2 ^ 64)"
  shows "v = w"
proof -
  have "v mod 2 ^ 64 = w mod 2 ^ 64" using assms(5) by simp
  then have "(2::int) ^ 64 dvd v - w" by (simp add: mod_eq_dvd_iff)
  moreover have "\<bar>v - w\<bar> < 2 ^ 64" using assms(1-4) by simp
  ultimately show ?thesis using dvd_imp_le_int [of "v - w" "2 ^ 64"] by fastforce
qed

lemma length_prefix_inj:
  assumes "le_bytes 8 (length v) @ v @ s = le_bytes 8 (length w) @ w @ t"
    "length v < 2 ^ 64" "length w < 2 ^ 64"
  shows "v = w \<and> s = t"
  using le_bytes_append_inj [OF assms(1)] assms(2,3) by auto

lemma count_prefix_inj:
  assumes "le_bytes 8 (length v) @ concat v @ s = le_bytes 8 (length w) @ concat w @ t"
    "length v < 2 ^ 64" "length w < 2 ^ 64" "list_all (\<lambda>d. length d = 32) v" "list_all (\<lambda>d. length d = 32) w"
  shows "v = w \<and> s = t"
  using le_bytes_append_inj [OF assms(1)] assms(2-5) concat_append_inj [of v w 32 s t] by simp

lemma fixed_inj:
  assumes "le_bytes k m @ s = le_bytes k n @ t" "k = 8 \<and> m < 2 ^ 64 \<and> n < 2 ^ 64 \<or> k = 16 \<and> m < 2 ^ 128 \<and> n < 2 ^ 128"
  shows "m = n \<and> s = t"
  using le_bytes_append_inj [OF assms(1)] assms(2) by auto

lemma nat_mod_lt: "nat (v mod 2 ^ 64) < 2 ^ 64" for v :: int
  by (simp add: nat_less_iff)

fun field_tag :: "field \<Rightarrow> nat" where
  "field_tag (FStr _) = 1" | "field_tag (FU64 _) = 2" | "field_tag (FI64 _) = 3"
| "field_tag (FBool _) = 4" | "field_tag (FBytes _) = 5" | "field_tag (FNanos _) = 6"
| "field_tag FNone = 7" | "field_tag (FFingerprint _) = 8" | "field_tag (FUnordered _) = 9"
| "field_tag (FOrdered _) = 10"

lemma field_bytes_hd: "code (hd (field_bytes f)) = field_tag f" "field_bytes f \<noteq> []"
  by (cases f; simp)+

lemma field_bytes_inj:
  assumes e: "field_bytes f @ s = field_bytes g @ t" and ok: "field_ok f" "field_ok g"
  shows "f = g \<and> s = t"
proof -
  have tag: "field_tag f = field_tag g"
    using arg_cong [OF e, of hd] field_bytes_hd [of f] field_bytes_hd [of g] by (metis hd_append2)
  show ?thesis
  proof (cases f)
    case (FStr v)
    with tag e ok length_prefix_inj [of v s] show ?thesis by (cases g) auto
  next
    case (FU64 v)
    with tag e ok fixed_inj [of 8 v s] show ?thesis by (cases g) auto
  next
    case (FI64 v)
    with tag e ok fixed_inj [of 8 "nat (v mod 2 ^ 64)" s] nat_mod_lt i64_inj [of v]
    show ?thesis by (cases g) auto
  next
    case (FBool v)
    with tag e show ?thesis by (cases g) (auto split: if_splits)
  next
    case (FBytes v)
    with tag e ok length_prefix_inj [of v s] show ?thesis by (cases g) auto
  next
    case (FNanos v)
    with tag e ok fixed_inj [of 16 v s] show ?thesis by (cases g) auto
  next
    case FNone
    with tag e show ?thesis by (cases g) auto
  next
    case (FFingerprint v)
    with tag e ok show ?thesis by (cases g) auto
  next
    case (FUnordered v)
    with tag e ok count_prefix_inj [of v s] show ?thesis by (cases g) auto
  next
    case (FOrdered v)
    with tag e ok count_prefix_inj [of v s] show ?thesis by (cases g) auto
  qed
qed

definition fields_bytes :: "field list \<Rightarrow> bytes" where
  "fields_bytes fs = concat (map field_bytes fs)"

lemma fields_bytes_inj:
  "list_all field_ok fs \<Longrightarrow> list_all field_ok gs \<Longrightarrow> fields_bytes fs = fields_bytes gs \<Longrightarrow> fs = gs"
proof (induction fs arbitrary: gs)
  case Nil
  then show ?case by (cases gs) (simp_all add: fields_bytes_def field_bytes_hd(2))
next
  case (Cons f fs)
  obtain g hs where gs: "gs = g # hs"
    using Cons.prems(3) by (cases gs) (simp_all add: fields_bytes_def field_bytes_hd(2))
  with Cons.prems(3) have "field_bytes f @ fields_bytes fs = field_bytes g @ fields_bytes hs"
    by (simp add: fields_bytes_def)
  moreover have "field_ok f" "field_ok g" using Cons.prems(1,2) gs by simp_all
  ultimately have "f = g" "fields_bytes fs = fields_bytes hs" using field_bytes_inj by blast+
  moreover from this have "fs = hs" using Cons.prems(1,2) gs by (intro Cons.IH) simp_all
  ultimately show ?case using gs by simp
qed

lemma update_unordered_mset:
  assumes "mset xs = mset ys"
  shows "update_unordered digest xs hash_item h = update_unordered digest ys hash_item h"
proof -
  have "mset (item_digests digest hash_item xs) = mset (item_digests digest hash_item ys)"
    using assms by (simp add: item_digests_def)
  then have "sort (item_digests digest hash_item xs) = sort (item_digests digest hash_item ys)"
    by (metis properties_for_sort mset_sort sorted_sort)
  then show ?thesis by (simp add: update_unordered_def)
qed

lemma derived_fields:
  "derived digest k parts =
     resource_new k (CHR ''@'' # fingerprint_short (digest (fields_bytes (map FStr (resource_kind_text k # parts)))))"
proof -
  have "foldl (\<lambda>h part. update_str part h) h parts = h @ fields_bytes (map FStr parts)" for h
    by (induction parts arbitrary: h) (simp_all add: hasher_fields fields_bytes_def)
  then show ?thesis by (simp add: derived_def Let_def finish_def hasher_fields hasher_new_def fields_bytes_def)
qed

subsection \<open>Properties\<close>

text \<open>The writes of a caller, one hasher operation per field; collections are given by their items' digests.\<close>

fun write_field :: "field \<Rightarrow> hasher \<Rightarrow> hasher" where
  "write_field (FStr v) h = update_str v h"
| "write_field (FU64 v) h = update_u64 v h"
| "write_field (FI64 v) h = update_i64 v h"
| "write_field (FBool v) h = update_bool v h"
| "write_field (FBytes v) h = update_bytes v h"
| "write_field (FNanos v) h = update_duration v h"
| "write_field FNone h = update_none h"
| "write_field (FFingerprint v) h = update_fingerprint v h"
| "write_field (FUnordered ds) h = update_unordered id ds (\<lambda>d i. i @ d) h"
| "write_field (FOrdered ds) h = update_ordered id ds (\<lambda>d i. i @ d) h"

fun field_sorted :: "field \<Rightarrow> bool" where
  "field_sorted (FUnordered ds) \<longleftrightarrow> sorted ds"
| "field_sorted _ \<longleftrightarrow> True"

lemma write_field_bytes: "field_sorted f \<Longrightarrow> write_field f h = h @ field_bytes f"
  by (cases f) (simp_all add: hasher_fields item_digests_def hasher_new_def sort_key_id_if_sorted)

lemma write_fields_bytes:
  "list_all field_sorted fs \<Longrightarrow> foldl (\<lambda>h f. write_field f h) h fs = h @ fields_bytes fs"
  by (induction fs arbitrary: h) (simp_all add: write_field_bytes fields_bytes_def)

text \<open>
  the hasher's framing is injective: two sequences of typed writes that feed the hash function the
  same bytes are the same sequence (an unordered collection up to the order of its items), so no two
  different contents can share a fingerprint except through a collision of the hash function itself.
\<close>

theorem hasher_framing_injective:
  assumes "list_all field_ok fs" "list_all field_sorted fs" "list_all field_ok gs" "list_all field_sorted gs"
    and "foldl (\<lambda>h f. write_field f h) hasher_new fs = foldl (\<lambda>h f. write_field f h) hasher_new gs"
  shows "fs = gs"
  using assms fields_bytes_inj [of fs gs] by (simp add: write_fields_bytes hasher_new_def)

theorem hasher_framing_injective_witness:
  "foldl (\<lambda>h f. write_field f h) hasher_new [FStr ''ab'', FStr ''c''] \<noteq>
   foldl (\<lambda>h f. write_field f h) hasher_new [FStr ''a'', FStr ''bc'']"
  using hasher_framing_injective [of "[FStr ''ab'', FStr ''c'']" "[FStr ''a'', FStr ''bc'']"] by auto

text \<open>
  an unordered collection contributes the same bytes whatever order its items are declared in.
\<close>

theorem update_unordered_permutation:
  assumes "mset xs = mset ys"
  shows "update_unordered digest xs hash_item h = update_unordered digest ys hash_item h"
  by (rule update_unordered_mset [OF assms])

theorem update_unordered_permutation_witness:
  "update_unordered rev [''a'', ''b''] update_str [] = update_unordered rev [''b'', ''a''] update_str []"
  by (rule update_unordered_permutation) simp

lemma hex_byte_set: "set (hex_byte b) \<subseteq> {c. within 48 57 c \<or> within 97 102 c}"
proof -
  have "code b div 16 < 16" "code b mod 16 < 16"
    using code_lt_256 [of b] by (simp_all add: less_mult_imp_div_less)
  then show ?thesis by (auto simp: hex_byte_def Let_def)
qed

lemma fingerprint_short_no_slash: "CHR ''/'' \<notin> set (fingerprint_short f)"
proof
  assume "CHR ''/'' \<in> set (fingerprint_short f)"
  then have "CHR ''/'' \<in> set (fingerprint_text f)" by (auto simp: fingerprint_short_def dest: in_set_takeD)
  then obtain b where "CHR ''/'' \<in> set (hex_byte b)" by (auto simp: fingerprint_text_def)
  with hex_byte_set [of b] show False by auto
qed

lemma derived_name:
  obtains f where "resource_name (derived digest k parts) = CHR ''@'' # fingerprint_short f"
  by (simp add: derived_def Let_def resource_new_def)

text \<open>
  a resource identity derived for a source lies in that source's namespace and is recognised as
  derived, whatever the hash function.
\<close>

theorem derived_owned_in_namespace:
  "owns owner (resource_name (derived_owned digest k owner parts)) \<and>
   is_derived (derived_owned digest k owner parts)"
proof -
  obtain f where d: "resource_name (derived digest k parts) = CHR ''@'' # fingerprint_short f"
    by (rule derived_name)
  have ns: "CHR ''/'' \<notin> set (CHR ''@'' # fingerprint_short f)" using fingerprint_short_no_slash by simp
  show ?thesis
  proof (cases "source_namespace owner")
    case None
    with d ns show ?thesis
      by (simp add: owns_def derived_owned_def is_derived_def split_at_no_sep Let_def)
  next
    case (Some prefix)
    then obtain q where "prefix = q @ ''/''"
      by (cases "source_kind owner") (auto simp: source_namespace_def)
    with Some d ns show ?thesis
      by (simp add: owns_def derived_owned_def is_derived_def resource_new_def Let_def starts_with_iff
          split_at_append_sep split_at_no_sep)
  qed
qed

text \<open>
  the namespaces of two sources are disjoint: a resource name owned by both belongs to sources of
  one kind, and to the same Kubernetes namespace (whose name, as Kubernetes requires, has no slash).
\<close>

theorem namespaces_disjoint:
  assumes "owns s name" "owns t name" "CHR ''/'' \<notin> set (source_name s)" "CHR ''/'' \<notin> set (source_name t)"
  shows "source_kind s = source_kind t \<and> (source_kind s = KubernetesSource \<longrightarrow> source_name s = source_name t)"
proof -
  have k: "a = b" if "name = ''k8s/'' @ a @ ''/'' @ r" "name = ''k8s/'' @ b @ ''/'' @ q"
      "CHR ''/'' \<notin> set a" "CHR ''/'' \<notin> set b" for a b r q
  proof -
    have "split_once (CHR ''/'') (a @ CHR ''/'' # r) = split_once (CHR ''/'') (b @ CHR ''/'' # q)"
      using that(1,2) by simp
    with that(3,4) show ?thesis by simp
  qed
  have n: "case source_kind u of
      FileSource \<Rightarrow> CHR ''/'' \<notin> set name
    | AdminSource \<Rightarrow> (\<exists>r. name = ''runtime/'' @ r)
    | KubernetesSource \<Rightarrow> (\<exists>r. name = ''k8s/'' @ source_name u @ ''/'' @ r)" if "owns u name" for u
    using that by (cases "source_kind u") (simp_all add: owns_def source_namespace_def starts_with_iff)
  show ?thesis
  proof (cases "source_kind s"; cases "source_kind t")
    assume kk: "source_kind s = KubernetesSource" "source_kind t = KubernetesSource"
    obtain r where r: "name = ''k8s/'' @ source_name s @ ''/'' @ r" using n [OF assms(1)] kk by auto
    obtain q where q: "name = ''k8s/'' @ source_name t @ ''/'' @ q" using n [OF assms(2)] kk by auto
    from k [OF r q assms(3,4)] kk show ?thesis by simp
  qed (use n [OF assms(1)] n [OF assms(2)] in auto)
qed

theorem namespaces_disjoint_witness:
  "owns (source_kubernetes ''prod'') ''k8s/prod/api'' \<and> \<not> owns (source_kubernetes ''dev'') ''k8s/prod/api'' \<and>
   \<not> owns source_admin ''k8s/prod/api''"
proof -
  have o: "owns (source_kubernetes ''prod'') ''k8s/prod/api''" by code_simp
  then show ?thesis
    using namespaces_disjoint [OF o, of "source_kubernetes ''dev''"] namespaces_disjoint [OF o, of source_admin]
    by (auto simp: source_kubernetes_def source_admin_def)
qed

end
