(* ===== verification/Ordering.thy ===== *)
theory Ordering
  imports Config_Model Identity "HOL-Library.Option_ord"
begin

text \<open>
  Directives and their deterministic composition: the plugin interface (\<open>gatel-plugin-api/src/lib.rs\<close>,
  \<open>effects.rs\<close>), the registry of directives and their decoding (\<open>gatel-plan/src/directive.rs\<close>) and the
  ordering of a chain of middleware (\<open>gatel-plan/src/ordering.rs\<close>).

  A directive's configuration is any type \<open>'c\<close>; its decoder, supplied by a bundle, is a function stored
  in the registry. Diagnostics are their codes where the text does not matter.
\<close>

subsection \<open>Effects, phases and metadata\<close>

datatype effect =
    RequestBodyLimit | ReadRequestBody | CallUpstream | ConsumeQuota | CacheLookup | TransformRequestBody

definition must_precede :: "effect \<Rightarrow> effect \<Rightarrow> bool" where
  "must_precede a b \<longleftrightarrow>
     (a = RequestBodyLimit \<and> b \<in> {ReadRequestBody, CallUpstream, ConsumeQuota, TransformRequestBody}) \<or>
     (a = TransformRequestBody \<and> b \<in> {ReadRequestBody, CallUpstream})"

datatype phase = Observe | Guard | Request | Response

fun phase_index :: "phase \<Rightarrow> nat" where
  "phase_index Observe = 0"
| "phase_index Guard = 1"
| "phase_index Request = 2"
| "phase_index Response = 3"

lemma phase_index_inject [simp]: "phase_index p = phase_index q \<longleftrightarrow> p = q"
  by (cases p; cases q) simp_all

text \<open>The derived order of the enumeration.\<close>

instantiation phase :: linorder
begin

definition less_eq_phase :: "phase \<Rightarrow> phase \<Rightarrow> bool" where
  "less_eq_phase p q \<longleftrightarrow> phase_index p \<le> phase_index q"

definition less_phase :: "phase \<Rightarrow> phase \<Rightarrow> bool" where
  "less_phase p q \<longleftrightarrow> phase_index p < phase_index q"

instance
  by intro_classes (auto simp: less_eq_phase_def less_phase_def)

end

datatype role = Middleware phase | Terminal

fun role_phase :: "role \<Rightarrow> phase option" where
  "role_phase (Middleware p) = Some p"
| "role_phase Terminal = None"

datatype scope = Site | Route

record scopes =
  allow_site :: bool
  allow_route :: bool

fun scopes_allow :: "scopes \<Rightarrow> scope \<Rightarrow> bool" where
  "scopes_allow s Site = allow_site s"
| "scopes_allow s Route = allow_route s"

definition scopes_describe :: "scopes \<Rightarrow> bytes" where
  "scopes_describe s =
     (if allow_site s then (if allow_route s then ''site or route'' else ''site'')
      else (if allow_route s then ''route'' else ''nowhere''))"

definition scope_name :: "scope \<Rightarrow> bytes" where
  "scope_name s = (case s of Site \<Rightarrow> ''site'' | Route \<Rightarrow> ''route'')"

datatype failure_policy = Closed | Open

record directive_meta =
  meta_effects :: "effect list"
  meta_before :: "bytes list"
  meta_conflicts :: "bytes list"
  meta_name :: bytes
  meta_scopes :: scopes
  meta_role :: role
  meta_order :: int
  meta_version :: bytes
  meta_failure_policy :: failure_policy

definition meta_middleware :: "bytes \<Rightarrow> phase \<Rightarrow> scopes \<Rightarrow> directive_meta" where
  "meta_middleware name p s =
     \<lparr>meta_effects = [], meta_before = [], meta_conflicts = [], meta_name = name, meta_scopes = s,
      meta_role = Middleware p, meta_order = 0, meta_version = ''1'', meta_failure_policy = Closed\<rparr>"

definition meta_terminal :: "bytes \<Rightarrow> directive_meta" where
  "meta_terminal name =
     \<lparr>meta_effects = [], meta_before = [], meta_conflicts = [], meta_name = name,
      meta_scopes = \<lparr>allow_site = False, allow_route = True\<rparr>,
      meta_role = Terminal, meta_order = 0, meta_version = ''1'', meta_failure_policy = Closed\<rparr>"

fun effect_index :: "effect \<Rightarrow> nat" where
  "effect_index RequestBodyLimit = 0"
| "effect_index ReadRequestBody = 1"
| "effect_index CallUpstream = 2"
| "effect_index ConsumeQuota = 3"
| "effect_index CacheLookup = 4"
| "effect_index TransformRequestBody = 5"

definition effects_hash :: "effect list \<Rightarrow> hasher \<Rightarrow> hasher" where
  "effects_hash es h =
     (let canonical = remdups_adj (sort (map effect_index es)) in
      foldl (\<lambda>h e. update_u64 e h) (update_u64 (length canonical) h) canonical)"

definition names_hash :: "bytes list \<Rightarrow> hasher \<Rightarrow> hasher" where
  "names_hash names h =
     (let canonical = remdups_adj (sort names) in
      foldl (\<lambda>h n. update_str n h) (update_u64 (length canonical) h) canonical)"

definition meta_hash_into :: "directive_meta \<Rightarrow> hasher \<Rightarrow> hasher" where
  "meta_hash_into m h =
     (let h = effects_hash (meta_effects m) h;
          h = names_hash (meta_conflicts m) (names_hash (meta_before m) h);
          h = update_str (meta_version m) (update_str (meta_name m) h);
          h = update_bool (allow_route (meta_scopes m)) (update_bool (allow_site (meta_scopes m)) h);
          h = update_u64 (case meta_role m of Middleware p \<Rightarrow> phase_index p | Terminal \<Rightarrow> 100) h;
          h = update_i64 (meta_order m) h in
      update_bool (meta_failure_policy m = Open) h)"

subsection \<open>Instances\<close>

record 'c directive_instance =
  inst_meta :: directive_meta
  inst_config :: 'c
  inst_scope :: scope
  inst_order :: int
  inst_owner :: resource_id

definition inst_name :: "'c directive_instance \<Rightarrow> bytes" where
  "inst_name i = meta_name (inst_meta i)"

definition own :: "digest \<Rightarrow> resource_id \<Rightarrow> 'c directive_instance \<Rightarrow> 'c directive_instance" where
  "own digest r i =
     i\<lparr>inst_owner := derived digest DirectiveKind [resource_name r, inst_name i, scope_name (inst_scope i)]\<rparr>"

definition instance_key :: "'c directive_instance \<Rightarrow> nat \<times> nat \<times> int \<times> bytes" where
  "instance_key i =
     ((case inst_scope i of Site \<Rightarrow> 0 | Route \<Rightarrow> 1),
      (case role_phase (meta_role (inst_meta i)) of Some p \<Rightarrow> phase_index p | None \<Rightarrow> u8_max),
      inst_order i, inst_name i)"

subsection \<open>The registry\<close>

text \<open>
  A bundle's directive: its metadata and its decoder, which appends diagnostics and may yield a
  configuration. The registry maps names to directives in name order (a \<open>BTreeMap\<close>).
\<close>

record 'c directive =
  dir_meta :: directive_meta
  dir_decode :: "node \<Rightarrow> diagnostics \<times> 'c option"

record 'c registry =
  reg_directives :: "(bytes \<times> 'c directive) list"
  reg_bundles :: "(bytes \<times> bytes) list"

fun btree_insert :: "'k::linorder \<Rightarrow> 'v \<Rightarrow> ('k \<times> 'v) list \<Rightarrow> ('k \<times> 'v) list" where
  "btree_insert k v [] = [(k, v)]"
| "btree_insert k v ((k2, v2) # m) =
     (if k < k2 then (k, v) # (k2, v2) # m
      else if k = k2 then (k, v) # m
      else (k2, v2) # btree_insert k v m)"

definition names_for :: "'c registry \<Rightarrow> scope \<Rightarrow> bytes list" where
  "names_for r s = map fst (filter (\<lambda>(n, d). scopes_allow (meta_scopes (dir_meta d)) s) (reg_directives r))"

definition unknown_directive :: "'c registry \<Rightarrow> bytes \<Rightarrow> scope \<Rightarrow> diagnostic" where
  "unknown_directive r name s =
     (diag_error UnknownNode)\<lparr>diag_help := Some
        (case did_you_mean name (names_for r s) of
           Some suggestion \<Rightarrow> ''did you mean `'' @ suggestion @ ''`?''
         | None \<Rightarrow> ''run `gatel capabilities` to see what this build supports'')\<rparr>"

text \<open>The \<open>order\<close> property: at most once, an integer, and within 32 bits.\<close>

definition decode_order :: "directive_meta \<Rightarrow> node \<Rightarrow> int option" where
  "decode_order m n =
     (if 1 < length (filter (\<lambda>p. fst p = ''order'') (node_props n)) then None
      else case node_prop n ''order'' of
        None \<Rightarrow> Some (meta_order m)
      | Some v \<Rightarrow> (case as_int v of
          None \<Rightarrow> None
        | Some k \<Rightarrow> if - (2 ^ 31) \<le> k \<and> k < 2 ^ 31 then Some k else None))"

definition strip_order :: "node \<Rightarrow> node" where
  "strip_order n =
     Node (node_name n) (node_args n) (filter (\<lambda>p. fst p \<noteq> ''order'') (node_props n)) (node_children n)"

definition registry_decode ::
  "digest \<Rightarrow> 'c registry \<Rightarrow> node \<Rightarrow> scope \<Rightarrow> diagnostics \<times> 'c directive_instance option" where
  "registry_decode digest r n s =
     (case map_of (reg_directives r) (node_name n) of
        None \<Rightarrow> ([unknown_directive r (node_name n) s], None)
      | Some d \<Rightarrow>
          let m = dir_meta d in
          if \<not> scopes_allow (meta_scopes m) s then
            ([(diag_error InvalidScope)\<lparr>diag_help := Some
                (''`'' @ meta_name m @ ''` belongs in a '' @ scopes_describe (meta_scopes m))\<rparr>], None)
          else (case decode_order m n of
              None \<Rightarrow> ([diag_error InvalidValue], None)
            | Some k \<Rightarrow>
                (case dir_decode d (strip_order n) of
                   (ds, None) \<Rightarrow> (ds, None)
                 | (ds, Some c) \<Rightarrow>
                     (ds, Some \<lparr>inst_meta = m, inst_config = c, inst_scope = s, inst_order = k,
                        inst_owner = derived digest DirectiveKind [meta_name m, scope_name s]\<rparr>))))"

datatype registry_conflict =
    BundleTwice bytes | FailOpenOutsideObservation bytes | ClaimedTwice bytes

record 'c plugin_bundle =
  bundle_name :: bytes
  bundle_version :: bytes
  bundle_directives :: "'c directive list"

record 'c registry_builder =
  build_directives :: "(bytes \<times> 'c directive) list"
  build_bundles :: "(bytes \<times> bytes) list"
  build_conflicts :: "registry_conflict list"

definition registry_builder :: "'c registry_builder" where
  "registry_builder = \<lparr>build_directives = [], build_bundles = [], build_conflicts = []\<rparr>"

definition add_directive :: "'c registry_builder \<Rightarrow> 'c directive \<Rightarrow> 'c registry_builder" where
  "add_directive b d =
     (let m = dir_meta d; name = meta_name m in
      b\<lparr>build_directives := btree_insert name d (build_directives b),
        build_conflicts := build_conflicts b
          @ (if meta_failure_policy m = Open \<and> meta_role m \<noteq> Middleware Observe
             then [FailOpenOutsideObservation name] else [])
          @ (if name \<in> fst ` set (build_directives b) then [ClaimedTwice name] else [])\<rparr>)"

definition add_bundle :: "'c registry_builder \<Rightarrow> 'c plugin_bundle \<Rightarrow> 'c registry_builder" where
  "add_bundle b u =
     foldl add_directive
       (b\<lparr>build_bundles := build_bundles b @ [(bundle_name u, bundle_version u)],
          build_conflicts := build_conflicts b
            @ (if bundle_name u \<in> fst ` set (build_bundles b) then [BundleTwice (bundle_name u)] else [])\<rparr>)
       (bundle_directives u)"

definition registry_build :: "'c registry_builder \<Rightarrow> registry_conflict list + 'c registry" where
  "registry_build b =
     (if build_conflicts b \<noteq> [] then Inl (build_conflicts b)
      else Inr \<lparr>reg_directives = build_directives b, reg_bundles = sort (build_bundles b)\<rparr>)"

definition build_hash :: "digest \<Rightarrow> 'c registry \<Rightarrow> fingerprint" where
  "build_hash digest r =
     finish digest
       (foldl (\<lambda>h (n, d). meta_hash_into (dir_meta d) h)
          (foldl (\<lambda>h (n, v). update_str v (update_str n h)) hasher_new (reg_bundles r))
          (reg_directives r))"

subsection \<open>Composition\<close>

datatype order_error = Conflicting bytes bytes | Cycle "bytes list"
  | ConflictsWithTerminal bytes | TerminalFirst bytes

definition effects_before :: "'c directive_instance \<Rightarrow> 'c directive_instance \<Rightarrow> bool" where
  "effects_before a b \<longleftrightarrow>
     list_ex (\<lambda>l. list_ex (must_precede l) (meta_effects (inst_meta b))) (meta_effects (inst_meta a))"

definition conflicts_with :: "'c directive_instance \<Rightarrow> 'c directive_instance \<Rightarrow> bool" where
  "conflicts_with a b \<longleftrightarrow> inst_name b \<in> set (meta_conflicts (inst_meta a))"

text \<open>The constraint that the first instance runs before the second.\<close>

definition edge :: "'c directive_instance \<Rightarrow> 'c directive_instance \<Rightarrow> bool" where
  "edge a b \<longleftrightarrow>
     inst_name b \<in> set (meta_before (inst_meta a)) \<or>
     (inst_scope a = inst_scope b \<and>
        role_phase (meta_role (inst_meta a)) < role_phase (meta_role (inst_meta b))) \<or>
     effects_before a b \<or>
     (role_phase (meta_role (inst_meta a)) = Some Guard \<and> CacheLookup \<in> set (meta_effects (inst_meta b)))"

definition conflict_pairs :: "'c directive_instance list \<Rightarrow> order_error list" where
  "conflict_pairs chain =
     concat (map (\<lambda>i. concat (map (\<lambda>j.
         if i \<noteq> j \<and> conflicts_with (chain ! i) (chain ! j)
         then [Conflicting (inst_name (chain ! i)) (inst_name (chain ! j))] else [])
       [0..<length chain])) [0..<length chain])"

definition edges :: "'c directive_instance list \<Rightarrow> nat \<Rightarrow> nat \<Rightarrow> bool" where
  "edges chain i j \<longleftrightarrow> i \<noteq> j \<and> edge (chain ! i) (chain ! j)"

definition incoming :: "'c directive_instance list \<Rightarrow> nat list" where
  "incoming chain =
     map (\<lambda>j. length (filter (\<lambda>i. edges chain i j) [0..<length chain])) [0..<length chain]"

text \<open>
  The selection loop: repeatedly the first unselected instance without unselected predecessors.
\<close>

function kahn ::
  "nat \<Rightarrow> (nat \<Rightarrow> nat \<Rightarrow> bool) \<Rightarrow> bool list \<Rightarrow> nat list \<Rightarrow> nat list \<Rightarrow> nat list + nat list" where
  "kahn n es selected inc result =
     (if length result < n then
        (case find (\<lambda>j. \<not> selected ! j \<and> inc ! j = 0) [0..<n] of
           None \<Rightarrow> Inl (filter (\<lambda>i. \<not> selected ! i) [0..<n])
         | Some next \<Rightarrow>
             kahn n es (selected[next := True])
               (map (\<lambda>j. inc ! j - (if es next j then 1 else 0)) [0..<n]) (result @ [next]))
      else Inr result)"
  by pat_completeness auto
termination
  by (relation "measure (\<lambda>(n, es, selected, inc, result). n - length result)") auto

declare kahn.simps [simp del]

definition order_chain ::
  "'c directive_instance list \<Rightarrow> order_error list + 'c directive_instance list" where
  "order_chain declared =
     (let chain = sort_key instance_key declared; n = length chain in
      if conflict_pairs chain \<noteq> [] then Inl (conflict_pairs chain)
      else case kahn n (edges chain) (replicate n False) (incoming chain) [] of
        Inl blocked \<Rightarrow> Inl [Cycle (map (\<lambda>i. inst_name (chain ! i)) blocked)]
      | Inr picked \<Rightarrow> Inr (map (\<lambda>i. chain ! i) picked))"

datatype 'c terminal = Proxy resource_id | Directive "'c directive_instance"

fun terminal_name :: "'c terminal \<Rightarrow> bytes" where
  "terminal_name (Proxy _) = ''proxy''"
| "terminal_name (Directive i) = inst_name i"

fun terminal_conflict :: "'c terminal \<Rightarrow> 'c directive_instance \<Rightarrow> bool" where
  "terminal_conflict (Proxy _) item = (''proxy'' \<in> set (meta_conflicts (inst_meta item)))"
| "terminal_conflict (Directive i) item =
     (inst_name i \<in> set (meta_conflicts (inst_meta item)) \<or> conflicts_with i item)"

fun terminal_reverse :: "'c terminal \<Rightarrow> 'c directive_instance \<Rightarrow> bool" where
  "terminal_reverse (Proxy _) item = False"
| "terminal_reverse (Directive i) item =
     (inst_name item \<in> set (meta_before (inst_meta i)) \<or> effects_before i item)"

definition terminal_errors :: "'c directive_instance list \<Rightarrow> 'c terminal \<Rightarrow> order_error list" where
  "terminal_errors chain t =
     concat (map (\<lambda>item.
        if terminal_conflict t item then [ConflictsWithTerminal (inst_name item)]
        else if terminal_reverse t item then [TerminalFirst (inst_name item)] else []) chain)"

definition order_route ::
  "'c directive_instance list \<Rightarrow> 'c terminal \<Rightarrow> order_error list + 'c directive_instance list" where
  "order_route chain t =
     (if terminal_errors chain t \<noteq> [] then Inl (terminal_errors chain t) else order_chain chain)"

subsection \<open>The selection loop\<close>

definition kahn_inv ::
  "nat \<Rightarrow> (nat \<Rightarrow> nat \<Rightarrow> bool) \<Rightarrow> bool list \<Rightarrow> nat list \<Rightarrow> nat list \<Rightarrow> bool" where
  "kahn_inv n es selected inc result \<longleftrightarrow>
     length selected = n \<and> distinct result \<and> set result = {i. i < n \<and> selected ! i} \<and>
     (\<forall>j < n. inc ! j = card {i. i < n \<and> \<not> selected ! i \<and> es i j}) \<and>
     sorted_wrt (\<lambda>a b. \<not> es b a) result \<and>
     (\<forall>i \<in> set result. \<forall>k < n. \<not> selected ! k \<longrightarrow> \<not> es k i)"

lemma kahn_inv_start:
  assumes "\<And>j. j < n \<Longrightarrow> inc ! j = length (filter (\<lambda>i. es i j) [0..<n])"
  shows "kahn_inv n es (replicate n False) inc []"
proof -
  have "length (filter (\<lambda>i. es i j) [0..<n]) = card {i. i < n \<and> es i j}" for j
    by (subst distinct_card [symmetric]) (auto intro: arg_cong [where f = card])
  then show ?thesis using assms by (auto simp: kahn_inv_def intro!: arg_cong [where f = card])
qed

lemma kahn_inv_step:
  assumes inv: "kahn_inv n es selected inc result"
    and fnd: "find (\<lambda>j. \<not> selected ! j \<and> inc ! j = 0) [0..<n] = Some nx"
  shows "kahn_inv n es (selected[nx := True])
           (map (\<lambda>j. inc ! j - (if es nx j then 1 else 0)) [0..<n]) (result @ [nx])"
proof -
  have nx: "nx < n" "\<not> selected ! nx" "inc ! nx = 0"
    using fnd by (auto simp: find_Some_iff)
  have len: "length selected = n" using inv by (simp add: kahn_inv_def)
  have upd: "selected[nx := True] ! i \<longleftrightarrow> i = nx \<or> selected ! i" if "i < n" for i
    using that len nx(1) by (auto simp: nth_list_update)
  have none: "\<not> es k nx" if "k < n" "\<not> selected ! k" for k
    using nx inv that by (auto simp: kahn_inv_def card_eq_0_iff)
  have count: "inc ! j - (if es nx j then 1 else 0) = card {i. i < n \<and> \<not> selected[nx := True] ! i \<and> es i j}"
    if "j < n" for j
  proof -
    let ?A = "{i. i < n \<and> \<not> selected ! i \<and> es i j}"
    have "{i. i < n \<and> \<not> selected[nx := True] ! i \<and> es i j} = ?A - {nx}" using upd by auto
    moreover have "inc ! j = card ?A" using inv that by (simp add: kahn_inv_def)
    moreover have "nx \<in> ?A \<longleftrightarrow> es nx j" using nx by simp
    ultimately show ?thesis by (simp add: card_Diff_singleton_if)
  qed
  have "sorted_wrt (\<lambda>a b. \<not> es b a) (result @ [nx])"
    using inv nx by (auto simp: kahn_inv_def sorted_wrt_append)
  moreover have "\<forall>i \<in> set (result @ [nx]). \<forall>k < n. \<not> selected[nx := True] ! k \<longrightarrow> \<not> es k i"
    using inv none upd by (auto simp: kahn_inv_def)
  ultimately show ?thesis using inv nx len upd count by (auto simp: kahn_inv_def)
qed

lemma kahn_result:
  "kahn_inv n es selected inc result \<Longrightarrow> kahn n es selected inc result = Inr r \<Longrightarrow>
     distinct r \<and> set r = {..<n} \<and> sorted_wrt (\<lambda>a b. \<not> es b a) r"
proof (induction n es selected inc result rule: kahn.induct)
  case (1 n es selected inc result)
  show ?case
  proof (cases "length result < n")
    case True
    with "1.prems"(2) obtain nx where nx: "find (\<lambda>j. \<not> selected ! j \<and> inc ! j = 0) [0..<n] = Some nx"
      by (subst (asm) kahn.simps) (auto split: option.splits)
    with "1.IH" [OF True nx kahn_inv_step [OF "1.prems"(1) nx]] "1.prems"(2) True
    show ?thesis by (subst (asm) (2) kahn.simps) simp
  next
    case False
    have d: "distinct result" "set result \<subseteq> {..<n}" using "1.prems"(1) by (auto simp: kahn_inv_def)
    then have "card (set result) = length result" by (simp add: distinct_card)
    then have "set result = {..<n}" using False d(2) by (intro card_seteq) auto
    moreover have "r = result" using False "1.prems"(2) by (subst (asm) kahn.simps) simp
    ultimately show ?thesis using "1.prems"(1) by (simp add: kahn_inv_def)
  qed
qed

lemma kahn_blocked:
  "kahn_inv n es selected inc result \<Longrightarrow> kahn n es selected inc result = Inl bl \<Longrightarrow>
     bl \<noteq> [] \<and> set bl \<subseteq> {..<n} \<and> (\<forall>j \<in> set bl. \<exists>i \<in> set bl. es i j)"
proof (induction n es selected inc result rule: kahn.induct)
  case (1 n es selected inc result)
  have less: "length result < n"
    using "1.prems"(2) by (subst (asm) kahn.simps) (auto split: if_splits)
  show ?case
  proof (cases "find (\<lambda>j. \<not> selected ! j \<and> inc ! j = 0) [0..<n]")
    case None
    have bl: "bl = filter (\<lambda>i. \<not> selected ! i) [0..<n]"
      using None less "1.prems"(2) by (subst (asm) kahn.simps) simp
    have "bl \<noteq> []"
    proof
      assume "bl = []"
      then have "set result = {..<n}" using bl "1.prems"(1) by (auto simp: kahn_inv_def filter_empty_conv)
      then have "length result = n" using "1.prems"(1) by (metis card_lessThan distinct_card kahn_inv_def)
      with less show False by simp
    qed
    moreover have "\<exists>i \<in> set bl. es i j" if j: "j \<in> set bl" for j
    proof -
      have "j < n" "inc ! j \<noteq> 0" using j bl None by (auto simp: find_None_iff)
      moreover have "inc ! j = card {i. i < n \<and> \<not> selected ! i \<and> es i j}"
        using "1.prems"(1) \<open>j < n\<close> unfolding kahn_inv_def by blast
      ultimately have "{i. i < n \<and> \<not> selected ! i \<and> es i j} \<noteq> {}" by (metis card.empty)
      then show ?thesis using bl by auto
    qed
    ultimately show ?thesis using bl by auto
  next
    case (Some nx)
    with "1.IH" [OF less Some kahn_inv_step [OF "1.prems"(1) Some]] "1.prems"(2) less
    show ?thesis by (subst (asm) (2) kahn.simps) simp
  qed
qed

lemma blocked_no_order:
  assumes "bl \<noteq> []" "set bl \<subseteq> {..<n}" "\<forall>j \<in> set bl. \<exists>i \<in> set bl. es i j" "\<And>i. \<not> es i i"
    and ord: "set ord = {..<n}" "sorted_wrt (\<lambda>a b. \<not> es b a) ord"
  shows False
proof -
  have "\<exists>x \<in> set ord. x \<in> set bl" using assms(1,2) ord(1) by (cases bl) auto
  then obtain xs j ys where o: "ord = xs @ j # ys" "j \<in> set bl" "\<forall>x \<in> set xs. x \<notin> set bl"
    by (auto simp: split_list_first_prop_iff)
  obtain i where i: "i \<in> set bl" "es i j" using assms(3) o(2) by blast
  then have "i \<in> set ord" "i \<notin> set xs" "i \<noteq> j" using assms(2,4) ord(1) o(3) by auto
  then have "i \<in> set ys" using o(1) by simp
  then have "\<not> es i j" using ord(2) o(1) by (simp add: sorted_wrt_append)
  with i(2) show False by simp
qed

subsection \<open>Permutations by position\<close>

lemma mset_positions:
  assumes "mset ys = mset xs"
  obtains ps where "mset ps = mset [0..<length xs]" "map (nth xs) ps = ys"
proof -
  have "\<exists>ps. mset ps = M \<and> map f ps = zs" if "image_mset f M = mset zs" for f :: "nat \<Rightarrow> 'a" and M zs
    using that
  proof (induction zs arbitrary: M)
    case (Cons z zs)
    then obtain N a where "M = add_mset a N" "f a = z" "image_mset f N = mset zs"
      by (auto dest: msed_map_invR)
    with Cons.IH [of N] obtain ps where "mset ps = N" "map f ps = zs" by blast
    with \<open>M = add_mset a N\<close> \<open>f a = z\<close> show ?case by (intro exI [of _ "a # ps"]) simp
  qed simp
  moreover have "image_mset (nth xs) (mset [0..<length xs]) = mset ys"
    using assms by (metis map_nth mset_map)
  ultimately show thesis using that by blast
qed

lemma positions_distinct:
  "mset ps = mset [0..<n] \<Longrightarrow> distinct ps \<and> set ps = {..<n} \<and> length ps = n"
  by (metis atLeast0LessThan diff_zero distinct_upt length_upt mset_eq_imp_distinct_iff mset_eq_length
      mset_eq_setD set_upt)

lemma map_positions_mset:
  assumes "distinct ps" "set ps = {..<length xs}"
  shows "mset (map (nth xs) ps) = mset xs"
proof -
  have "mset ps = mset [0..<length xs]"
    using assms by (subst set_eq_iff_mset_eq_distinct [symmetric]) (auto simp: atLeast0LessThan)
  then show ?thesis by (metis map_nth mset_map)
qed

text \<open>No two different positions are related; invariant under permutation.\<close>

definition pairwise_free :: "('a \<Rightarrow> 'a \<Rightarrow> bool) \<Rightarrow> 'a list \<Rightarrow> bool" where
  "pairwise_free R xs \<longleftrightarrow> (\<forall>i < length xs. \<forall>j < length xs. i \<noteq> j \<longrightarrow> \<not> R (xs ! i) (xs ! j))"

lemma pairwise_free_mset:
  assumes "mset ys = mset xs" "pairwise_free R xs"
  shows "pairwise_free R ys"
proof -
  obtain ps where ps: "mset ps = mset [0..<length xs]" "map (nth xs) ps = ys"
    using mset_positions [OF assms(1)] by blast
  note d = positions_distinct [OF ps(1)]
  then have "ps ! i \<noteq> ps ! j \<and> ps ! i < length xs" if "i < length xs" "j < length xs" "i \<noteq> j" for i j
    using that by (metis lessThan_iff nth_eq_iff_index_eq nth_mem)
  then show ?thesis using assms(2) d unfolding pairwise_free_def ps(2) [symmetric] by simp
qed

subsection \<open>Ordered chains\<close>

text \<open>An execution order obeys the constraints when no later instance has to run before an earlier one.\<close>

definition obeys :: "'c directive_instance list \<Rightarrow> bool" where
  "obeys seqn \<longleftrightarrow> sorted_wrt (\<lambda>a b. \<not> edge b a) seqn"

lemma obeys_map:
  assumes "distinct ps" "set ps \<subseteq> {..<length s}"
  shows "obeys (map (nth s) ps) \<longleftrightarrow> sorted_wrt (\<lambda>a b. \<not> edges s b a) ps"
  using assms by (induction ps) (auto simp: obeys_def edges_def)

lemma conflict_pairs_Nil: "conflict_pairs s = [] \<longleftrightarrow> pairwise_free conflicts_with s"
proof -
  have e: "concat (map g xs) = [] \<longleftrightarrow> (\<forall>x \<in> set xs. g x = [])" for g :: "nat \<Rightarrow> order_error list" and xs
    by (induction xs) auto
  show ?thesis unfolding conflict_pairs_def pairwise_free_def e by (auto simp: Ball_def)
qed

lemma incoming_start: "kahn_inv (length s) (edges s) (replicate (length s) False) (incoming s) []"
  by (rule kahn_inv_start) (simp add: incoming_def)

lemma order_chain_Inr:
  assumes "order_chain declared = Inr out"
  shows "mset out = mset declared" "obeys out" "pairwise_free conflicts_with out"
proof -
  let ?s = "sort_key instance_key declared"
  obtain ps where free: "pairwise_free conflicts_with ?s" and out: "out = map (nth ?s) ps"
    and k: "kahn (length ?s) (edges ?s) (replicate (length ?s) False) (incoming ?s) [] = Inr ps"
    using assms by (auto simp: order_chain_def Let_def conflict_pairs_Nil split: if_splits sum.splits)
  note r = kahn_result [OF incoming_start k]
  then show m: "mset out = mset declared" using map_positions_mset [of ps ?s] out by simp
  show "obeys out" using obeys_map [of ps ?s] r out by simp
  show "pairwise_free conflicts_with out" using pairwise_free_mset [OF _ free] m by simp
qed

lemma order_chain_complete:
  assumes "mset seqn = mset declared" "obeys seqn" "pairwise_free conflicts_with declared"
  shows "\<exists>out. order_chain declared = Inr out"
proof -
  let ?s = "sort_key instance_key declared"
  have free: "conflict_pairs ?s = []"
    using pairwise_free_mset [OF _ assms(3), of ?s] by (simp add: conflict_pairs_Nil)
  obtain ps where ps: "mset ps = mset [0..<length ?s]" "map (nth ?s) ps = seqn"
    using mset_positions [of seqn ?s] assms(1) by auto
  note d = positions_distinct [OF ps(1)]
  have "sorted_wrt (\<lambda>a b. \<not> edges ?s b a) ps" using obeys_map [of ps ?s] d ps(2) assms(2) by auto
  then have "kahn (length ?s) (edges ?s) (replicate (length ?s) False) (incoming ?s) [] \<noteq> Inl bl" for bl
    using kahn_blocked [OF incoming_start, of ?s bl] blocked_no_order [of bl "length ?s" "edges ?s" ps] d
    by (metis edges_def)
  then show ?thesis using free
    by (cases "kahn (length ?s) (edges ?s) (replicate (length ?s) False) (incoming ?s) []")
      (auto simp: order_chain_def Let_def)
qed

lemma sort_key_unique:
  assumes "mset xs = mset ys" "inj_on f (set xs)"
  shows "sort_key f xs = sort_key f ys"
  by (rule sort_key_inj_key_eq) (use assms in auto)

lemma obeys_nth:
  "obeys out \<Longrightarrow> i < length out \<Longrightarrow> j < length out \<Longrightarrow> i \<noteq> j \<Longrightarrow> edge (out ! i) (out ! j) \<Longrightarrow> i < j"
  unfolding obeys_def by (metis linorder_neqE_nat sorted_wrt_nth_less)

subsection \<open>Properties\<close>

text \<open>
  C4: a successful composition is a permutation of the declared directives in which every constraint
  (declared \<open>before\<close>, phase within a scope, effect precedence, guards before cache lookups) points
  forward, and no two of them conflict.
\<close>

theorem order_chain_sound:
  assumes "order_chain declared = Inr out"
  shows "mset out = mset declared \<and>
    (\<forall>i < length out. \<forall>j < length out. i \<noteq> j \<and> edge (out ! i) (out ! j) \<longrightarrow> i < j) \<and>
    (\<forall>i < length out. \<forall>j < length out. i \<noteq> j \<longrightarrow> \<not> conflicts_with (out ! i) (out ! j))"
  using order_chain_Inr [OF assms] obeys_nth [of out] by (auto simp: pairwise_free_def)

definition sample_chain :: "unit directive_instance list" where
  "sample_chain =
     (let mw = (\<lambda>name p s es. \<lparr>inst_meta = (meta_middleware name p \<lparr>allow_site = True, allow_route = True\<rparr>)
                    \<lparr>meta_effects := es\<rparr>,
                  inst_config = (), inst_scope = s, inst_order = 0, inst_owner = resource_new DirectiveKind []\<rparr>) in
      [mw ''cache'' Response Site [CacheLookup], mw ''basic-auth'' Guard Route [],
       mw ''access-log'' Observe Site []])"

theorem order_chain_sound_witness:
  "\<exists>out. order_chain sample_chain = Inr out \<and> map inst_name out = [''access-log'', ''basic-auth'', ''cache''] \<and>
     mset out = mset sample_chain"
proof -
  have "case order_chain sample_chain of Inl _ \<Rightarrow> False
      | Inr out \<Rightarrow> map inst_name out = [''access-log'', ''basic-auth'', ''cache'']"
    by code_simp
  then show ?thesis using order_chain_sound by (auto split: sum.splits)
qed

text \<open>
  C27: composition succeeds exactly when it can: some order of the directives satisfies every constraint
  and no two directives conflict. In particular the reported cycles are real.
\<close>

theorem order_chain_complete_iff:
  "(\<exists>out. order_chain declared = Inr out) \<longleftrightarrow>
     (\<exists>seqn. mset seqn = mset declared \<and> sorted_wrt (\<lambda>a b. \<not> edge b a) seqn) \<and>
     (\<forall>i < length declared. \<forall>j < length declared. i \<noteq> j \<longrightarrow> \<not> conflicts_with (declared ! i) (declared ! j))"
  (is "?l \<longleftrightarrow> ?r")
proof
  assume ?l
  then obtain out where o: "order_chain declared = Inr out" by blast
  note r = order_chain_Inr [OF o]
  from r(1,3) have "pairwise_free conflicts_with declared" by (metis pairwise_free_mset)
  with r show ?r unfolding pairwise_free_def obeys_def by blast
next
  assume ?r
  then show ?l using order_chain_complete unfolding pairwise_free_def obeys_def by blast
qed

theorem order_chain_complete_iff_witness:
  "\<exists>seqn. mset seqn = mset sample_chain \<and> sorted_wrt (\<lambda>a b. \<not> edge b a) seqn"
proof -
  have "case order_chain sample_chain of Inl _ \<Rightarrow> False | Inr out \<Rightarrow> True" by code_simp
  then have "\<exists>out. order_chain sample_chain = Inr out" by (auto split: sum.splits)
  then show ?thesis unfolding order_chain_complete_iff by blast
qed

text \<open>
  the composition depends on what is declared and not on where: any reordering of directives with
  distinct sort keys gives the same result, errors included.
\<close>

theorem order_chain_declaration_order:
  assumes "mset xs = mset ys" "inj_on instance_key (set xs)"
  shows "order_chain xs = order_chain ys"
  using sort_key_unique [OF assms] by (simp add: order_chain_def)

theorem order_chain_declaration_order_witness:
  "order_chain sample_chain = order_chain (rev sample_chain)"
proof (rule order_chain_declaration_order)
  show "inj_on instance_key (set sample_chain)"
    by (simp add: sample_chain_def instance_key_def inst_name_def meta_middleware_def)
qed simp

text \<open>
  C7: a guard never runs behind a response cache, in whichever scopes the two were declared, and a
  limit on the request body is installed before anything reads the body, calls upstream or debits a quota.
\<close>

theorem guards_before_cache:
  assumes "order_route declared t = Inr out" "i < length out" "j < length out" "i \<noteq> j"
    and "role_phase (meta_role (inst_meta (out ! i))) = Some Guard \<and>
           CacheLookup \<in> set (meta_effects (inst_meta (out ! j)))
       \<or> RequestBodyLimit \<in> set (meta_effects (inst_meta (out ! i))) \<and>
           (\<exists>e \<in> {ReadRequestBody, CallUpstream, ConsumeQuota}. e \<in> set (meta_effects (inst_meta (out ! j))))"
  shows "i < j"
proof -
  have "order_chain declared = Inr out" using assms(1) by (auto simp: order_route_def split: if_splits)
  moreover have "edge (out ! i) (out ! j)"
    using assms(5) by (auto simp: edge_def effects_before_def list_ex_iff must_precede_def)
  ultimately show ?thesis using obeys_nth order_chain_Inr(2) assms(2-4) by blast
qed

theorem guards_before_cache_witness:
  "\<exists>out. order_route sample_chain (Proxy (resource_new UpstreamKind ''u'')) = Inr out \<and>
     role_phase (meta_role (inst_meta (out ! 1))) = Some Guard \<and> (1::nat) < 2"
proof -
  have "case order_route sample_chain (Proxy (resource_new UpstreamKind ''u'')) of Inl _ \<Rightarrow> False
      | Inr out \<Rightarrow> length out = 3 \<and> role_phase (meta_role (inst_meta (out ! 1))) = Some Guard \<and>
           CacheLookup \<in> set (meta_effects (inst_meta (out ! 2)))" by code_simp
  then obtain out where o: "order_route sample_chain (Proxy (resource_new UpstreamKind ''u'')) = Inr out"
    "length out = 3" "role_phase (meta_role (inst_meta (out ! 1))) = Some Guard"
    "CacheLookup \<in> set (meta_effects (inst_meta (out ! 2)))" by (auto split: sum.splits)
  then show ?thesis using guards_before_cache [OF o(1), of 1 2] by auto
qed

text \<open>
  a terminal that would have to run before some middleware, or conflicts with one, is refused; a
  route that composes leaves its terminal last and compatible with every directive.
\<close>

theorem order_route_terminal:
  "(\<exists>out. order_route declared t = Inr out) \<longleftrightarrow>
     (\<forall>item \<in> set declared. \<not> terminal_conflict t item \<and> \<not> terminal_reverse t item) \<and>
     (\<exists>out. order_chain declared = Inr out)"
proof -
  have "terminal_errors declared t = [] \<longleftrightarrow>
      (\<forall>item \<in> set declared. \<not> terminal_conflict t item \<and> \<not> terminal_reverse t item)"
    by (induction declared) (auto simp: terminal_errors_def)
  then show ?thesis by (auto simp: order_route_def)
qed

theorem order_route_terminal_witness:
  "(\<exists>out. order_route sample_chain (Proxy (resource_new UpstreamKind ''u'')) = Inr out) \<and>
   \<not> terminal_conflict (Proxy (resource_new UpstreamKind ''u'')) (hd sample_chain)"
proof -
  have "case order_route sample_chain (Proxy (resource_new UpstreamKind ''u'')) of Inl _ \<Rightarrow> False | Inr _ \<Rightarrow> True"
    by code_simp
  then have r: "\<exists>out. order_route sample_chain (Proxy (resource_new UpstreamKind ''u'')) = Inr out"
    by (auto split: sum.splits)
  moreover have "hd sample_chain \<in> set sample_chain" by (simp add: sample_chain_def Let_def)
  ultimately show ?thesis using order_route_terminal [of sample_chain "Proxy (resource_new UpstreamKind ''u'')"] by blast
qed

subsection \<open>Building the registry\<close>

lemma btree_insert_keys: "fst ` set (btree_insert k v m) = insert k (fst ` set m)"
  by (induction k v m rule: btree_insert.induct) (auto simp: image_iff)

lemma btree_insert_sorted: "sorted_wrt (<) (map fst m) \<Longrightarrow> sorted_wrt (<) (map fst (btree_insert k v m))"
proof (induction k v m rule: btree_insert.induct)
  case (2 k v k2 v2 m)
  then have "\<forall>x \<in> fst ` set m. k2 < x" by simp
  with 2 btree_insert_keys [of k v m] show ?case by auto
qed simp

lemma btree_insert_fresh: "k \<notin> fst ` set m \<Longrightarrow> set (btree_insert k v m) = insert (k, v) (set m)"
  by (induction k v m rule: btree_insert.induct) (auto simp: insert_commute)

text \<open>
  What building keeps: the names are strictly sorted, and as long as nothing conflicts the builder
  holds exactly the directives added so far, none of which fails open outside observation.
\<close>

definition builder_inv :: "'c registry_builder \<Rightarrow> 'c directive list \<Rightarrow> bool" where
  "builder_inv b ds \<longleftrightarrow>
     sorted_wrt (<) (map fst (build_directives b)) \<and>
     (build_conflicts b = [] \<longrightarrow>
        set (build_directives b) = (\<lambda>d. (meta_name (dir_meta d), d)) ` set ds \<and>
        distinct (map (\<lambda>d. meta_name (dir_meta d)) ds) \<and>
        (\<forall>d \<in> set ds. meta_failure_policy (dir_meta d) = Open \<longrightarrow> meta_role (dir_meta d) = Middleware Observe))"

lemma add_directive_inv: "builder_inv b ds \<Longrightarrow> builder_inv (add_directive b d) (ds @ [d])"
  using btree_insert_fresh [of "meta_name (dir_meta d)" "build_directives b" d]
  by (auto simp: builder_inv_def add_directive_def Let_def btree_insert_sorted image_iff
      split: if_splits)

lemma add_directives_inv: "builder_inv b ds \<Longrightarrow> builder_inv (foldl add_directive b es) (ds @ es)"
proof (induction es arbitrary: b ds)
  case (Cons e es)
  from Cons.IH [OF add_directive_inv [OF Cons.prems, of e]] show ?case by simp
qed simp

lemma add_bundles_inv:
  "builder_inv b ds \<Longrightarrow> builder_inv (foldl add_bundle b us) (ds @ concat (map bundle_directives us))"
proof (induction us arbitrary: b ds)
  case (Cons u us)
  let ?b = "b\<lparr>build_bundles := build_bundles b @ [(bundle_name u, bundle_version u)],
      build_conflicts := build_conflicts b
        @ (if bundle_name u \<in> fst ` set (build_bundles b) then [BundleTwice (bundle_name u)] else [])\<rparr>"
  have "builder_inv ?b ds" using Cons.prems by (simp add: builder_inv_def)
  from add_directives_inv [OF this] Cons.IH have
    "builder_inv (foldl add_bundle (foldl add_directive ?b (bundle_directives u)) us)
       ((ds @ bundle_directives u) @ concat (map bundle_directives us))" by blast
  then show ?case by (simp add: add_bundle_def [of b u])
qed simp

text \<open>
  a registry that builds holds exactly the directives of its bundles, each under its own name and
  no name claimed twice, in name order, and only observation may fail open.
\<close>

theorem registry_build_sound:
  assumes "registry_build (foldl add_bundle registry_builder us) = Inr r"
  shows "sorted_wrt (<) (map fst (reg_directives r)) \<and>
    (\<forall>u \<in> set us. \<forall>d \<in> set (bundle_directives u). map_of (reg_directives r) (meta_name (dir_meta d)) = Some d) \<and>
    (\<forall>name d. map_of (reg_directives r) name = Some d \<longrightarrow>
       name = meta_name (dir_meta d) \<and>
       (meta_failure_policy (dir_meta d) = Open \<longrightarrow> meta_role (dir_meta d) = Middleware Observe))"
proof -
  let ?b = "foldl add_bundle registry_builder us"
  have "builder_inv registry_builder []" by (simp add: builder_inv_def registry_builder_def)
  from add_bundles_inv [OF this, of us] have inv: "builder_inv ?b (concat (map bundle_directives us))" by simp
  have r: "build_conflicts ?b = []" "reg_directives r = build_directives ?b"
    using assms by (auto simp: registry_build_def split: if_splits)
  have "distinct (map fst (build_directives ?b))"
    using inv by (auto simp: builder_inv_def strict_sorted_iff)
  then have m: "map_of (reg_directives r) name = Some d \<longleftrightarrow> (name, d) \<in> set (build_directives ?b)" for name d
    using r(2) by simp
  show ?thesis unfolding m using inv r by (auto simp: builder_inv_def)
qed

theorem registry_build_sound_witness:
  "\<exists>r. registry_build (foldl add_bundle registry_builder
      [\<lparr>bundle_name = ''std'', bundle_version = ''1'',
        bundle_directives = [\<lparr>dir_meta = meta_terminal ''file'', dir_decode = \<lambda>n. ([], Some ())\<rparr>]\<rparr>]) = Inr r \<and>
     map_of (reg_directives r) ''file'' =
       Some \<lparr>dir_meta = meta_terminal ''file'', dir_decode = \<lambda>n. ([], Some ())\<rparr>"
proof -
  let ?d = "\<lparr>dir_meta = meta_terminal ''file'', dir_decode = \<lambda>n. ([], Some ())\<rparr>"
  obtain r where r: "registry_build (foldl add_bundle registry_builder
      [\<lparr>bundle_name = ''std'', bundle_version = ''1'', bundle_directives = [?d]\<rparr>]) = Inr r"
    by (simp add: registry_build_def add_bundle_def registry_builder_def add_directive_def meta_terminal_def Let_def)
  from registry_build_sound [OF r] have "map_of (reg_directives r) (meta_name (dir_meta ?d)) = Some ?d" by simp
  with r show ?thesis by (auto simp: meta_terminal_def)
qed

end
