(* ===== verification/Upstreams.thy ===== *)
theory Upstreams
  imports Ordering Routing
begin

text \<open>
  Upstreams and the resource graph: where a backend is (\<open>gatel-plan/src/upstream/target.rs\<close>), the policy
  for reaching a set of backends (\<open>gatel-plan/src/upstream/mod.rs\<close>), secret references
  (\<open>gatel-model/src/secret.rs\<close>) and the normalised configuration with its fingerprint
  (\<open>gatel-plan/src/spec.rs\<close>). Durations are in nanoseconds; source positions are not modelled.

  A directive's configuration is supplied by a bundle: what the graph needs of it, how it is hashed, the
  compatibility fingerprint of the state it asks for and its description, are the parameters of
  \<open>config_ops\<close>.
\<close>

subsection \<open>Targets\<close>

datatype target = TargetAddress socket_addr | TargetName bytes nat | TargetUnix bytes

datatype host_fault = NoHost | HostTooLong | EmptyLabel | LabelTooLong | LabelHyphen | BadCharacter

definition is_ascii_alphanumeric :: "byte \<Rightarrow> bool" where
  "is_ascii_alphanumeric b \<longleftrightarrow> is_ascii_alphabetic b \<or> is_ascii_digit b"

definition check_label :: "bytes \<Rightarrow> host_fault option" where
  "check_label label =
     (if label = [] then Some EmptyLabel
      else if 63 < length label then Some LabelTooLong
      else if starts_with ''-'' label \<or> ends_with ''-'' label then Some LabelHyphen
      else if \<not> list_all (\<lambda>b. is_ascii_alphanumeric b \<or> b = CHR ''-'') label then Some BadCharacter
      else None)"

fun first_fault :: "bytes list \<Rightarrow> host_fault option" where
  "first_fault [] = None"
| "first_fault (label # rest) = (case check_label label of Some e \<Rightarrow> Some e | None \<Rightarrow> first_fault rest)"

definition check_host :: "bytes \<Rightarrow> host_fault option" where
  "check_host host =
     (let trimmed = trim_end_char (CHR ''.'') host in
      if trimmed = [] then Some NoHost
      else if 253 < length trimmed then Some HostTooLong
      else first_fault (split_at (CHR ''.'') trimmed))"

text \<open>\<open>str::rsplit_once\<close> on one character.\<close>

definition rsplit_once :: "'a \<Rightarrow> 'a list \<Rightarrow> ('a list \<times> 'a list) option" where
  "rsplit_once c s = map_option (\<lambda>(b, a). (rev a, rev b)) (split_once c (rev s))"

datatype target_error =
    UnixNeedsPath | NotBracketed | NeedsPort | NotAPort | ZeroTargetPort | BadHost host_fault

text \<open>On a Unix-like system (\<open>cfg!(unix)\<close>).\<close>

definition target_parse :: "bytes \<Rightarrow> target_error + target" where
  "target_parse text =
     (case strip_prefix ''unix:'' text of
        Some path \<Rightarrow> if path = [] then Inl UnixNeedsPath else Inr (TargetUnix path)
      | None \<Rightarrow>
          (case parse_socket_addr text of
             Inr address \<Rightarrow> Inr (TargetAddress address)
           | Inl _ \<Rightarrow>
               if starts_with ''['' text then Inl NotBracketed
               else (case rsplit_once (CHR '':'') text of
                   None \<Rightarrow> Inl NeedsPort
                 | Some (host, port_text) \<Rightarrow>
                     (case parse_unsigned u16_max port_text of
                        None \<Rightarrow> Inl NotAPort
                      | Some port \<Rightarrow>
                          if port = 0 then Inl ZeroTargetPort
                          else case check_host host of
                            Some e \<Rightarrow> Inl (BadHost e)
                          | None \<Rightarrow>
                              Inr (TargetName (to_ascii_lowercase (trim_end_char (CHR ''.'') host)) port)))))"

definition show_socket_addr :: "socket_addr \<Rightarrow> bytes" where
  "show_socket_addr sa =
     (case sa of
        (V4 a, p) \<Rightarrow> show_ip (V4 a) @ '':'' @ show_nat p
      | (V6 a, p) \<Rightarrow> ''['' @ show_ip (V6 a) @ '']:'' @ show_nat p)"

fun target_describe :: "target \<Rightarrow> bytes" where
  "target_describe (TargetAddress address) = show_socket_addr address"
| "target_describe (TargetName host port) = host @ '':'' @ show_nat port"
| "target_describe (TargetUnix path) = ''unix:'' @ path"

fun target_port :: "target \<Rightarrow> nat option" where
  "target_port (TargetAddress address) = Some (snd address)"
| "target_port (TargetName _ port) = Some port"
| "target_port (TargetUnix _) = None"

fun target_host :: "target \<Rightarrow> bytes option" where
  "target_host (TargetName host _) = Some host"
| "target_host _ = None"

fun is_name :: "target \<Rightarrow> bool" where
  "is_name (TargetName _ _) = True"
| "is_name _ = False"

definition target_hash_into :: "target \<Rightarrow> hasher \<Rightarrow> hasher" where
  "target_hash_into t h = update_str (target_describe t) h"

datatype family = AnyFamily | Ipv4Only | Ipv6Only

fun family_text :: "family \<Rightarrow> bytes" where
  "family_text AnyFamily = ''any''"
| "family_text Ipv4Only = ''ipv4''"
| "family_text Ipv6Only = ''ipv6''"

definition family_parse :: "bytes \<Rightarrow> family option" where
  "family_parse t =
     (if t = ''any'' then Some AnyFamily else if t = ''ipv4'' then Some Ipv4Only
      else if t = ''ipv6'' then Some Ipv6Only else None)"

fun family_allows :: "family \<Rightarrow> ip_addr \<Rightarrow> bool" where
  "family_allows AnyFamily ip = True"
| "family_allows Ipv4Only ip = is_ipv4 ip"
| "family_allows Ipv6Only ip = (\<not> is_ipv4 ip)"

record resolve =
  resolve_interval :: nat
  resolve_timeout :: nat
  resolve_family :: family

definition seconds :: "nat \<Rightarrow> nat" where
  "seconds s = s * 1000000000"

definition resolve_default :: resolve where
  "resolve_default =
     \<lparr>resolve_interval = seconds 30, resolve_timeout = seconds 5, resolve_family = AnyFamily\<rparr>"

definition resolve_hash_into :: "resolve \<Rightarrow> hasher \<Rightarrow> hasher" where
  "resolve_hash_into r h =
     update_str (family_text (resolve_family r))
       (update_duration (resolve_timeout r) (update_duration (resolve_interval r) h))"

subsection \<open>Secrets\<close>

datatype secret_ref = SecretEnv bytes | SecretFile bytes

datatype secret_error = EnvNeedsName | BadEnvName | FileNeedsPath | InlinePem

definition secret_parse :: "bytes \<Rightarrow> secret_error + secret_ref" where
  "secret_parse text =
     (case strip_prefix ''env:'' text of
        Some name \<Rightarrow>
          if name = [] then Inl EnvNeedsName
          else if \<not> list_all (\<lambda>b. is_ascii_alphanumeric b \<or> b = CHR ''_'') name then Inl BadEnvName
          else Inr (SecretEnv name)
      | None \<Rightarrow>
          (let path = (case strip_prefix ''file:'' text of Some p \<Rightarrow> p | None \<Rightarrow> text) in
           if path = [] then Inl FileNeedsPath
           else if contains_str ''-----BEGIN'' path then Inl InlinePem
           else Inr (SecretFile path)))"

fun secret_display :: "secret_ref \<Rightarrow> bytes" where
  "secret_display (SecretEnv name) = ''env:'' @ name"
| "secret_display (SecretFile path) = ''file:'' @ path"

definition secret_hash_into :: "secret_ref \<Rightarrow> hasher \<Rightarrow> hasher" where
  "secret_hash_into r h = update_str (secret_display r) h"

definition hash_opt :: "('a \<Rightarrow> hasher \<Rightarrow> hasher) \<Rightarrow> 'a option \<Rightarrow> hasher \<Rightarrow> hasher" where
  "hash_opt f x h = (case x of Some v \<Rightarrow> f v h | None \<Rightarrow> update_none h)"

subsection \<open>Upstream policy\<close>

datatype balance =
    RoundRobin | WeightedRoundRobin | Random | TwoRandomChoices | LeastConn | IpHash | UriHash
  | HeaderHash bytes | CookieHash bytes | First

fun balance_describe :: "balance \<Rightarrow> bytes" where
  "balance_describe RoundRobin = ''round-robin''"
| "balance_describe WeightedRoundRobin = ''weighted-round-robin''"
| "balance_describe Random = ''random''"
| "balance_describe TwoRandomChoices = ''two-random-choices''"
| "balance_describe LeastConn = ''least-conn''"
| "balance_describe IpHash = ''ip-hash''"
| "balance_describe UriHash = ''uri-hash''"
| "balance_describe (HeaderHash header) = ''header-hash('' @ header @ '')''"
| "balance_describe (CookieHash cookie) = ''cookie-hash('' @ cookie @ '')''"
| "balance_describe First = ''first''"

definition balance_hash_into :: "balance \<Rightarrow> hasher \<Rightarrow> hasher" where
  "balance_hash_into b h = update_str (balance_describe b) h"

definition balance_key :: "node \<Rightarrow> bytes \<Rightarrow> diag_code + bytes" where
  "balance_key n key =
     (case node_prop n key of
        None \<Rightarrow> Inl MissingField
      | Some v \<Rightarrow> (case as_str v of
          Some text \<Rightarrow> if text \<noteq> [] then Inr text else Inl InvalidValue
        | None \<Rightarrow> Inl InvalidValue))"

definition balance_named :: "bytes \<Rightarrow> node \<Rightarrow> diag_code + balance" where
  "balance_named name n =
     (if name = ''round-robin'' then Inr RoundRobin
      else if name = ''weighted-round-robin'' then Inr WeightedRoundRobin
      else if name = ''random'' then Inr Random
      else if name = ''two-random-choices'' then Inr TwoRandomChoices
      else if name = ''least-conn'' then Inr LeastConn
      else if name = ''ip-hash'' then Inr IpHash
      else if name = ''uri-hash'' then Inr UriHash
      else if name = ''header-hash'' then
        and_then (balance_key n ''header'') (\<lambda>k. Inr (HeaderHash (to_ascii_lowercase k)))
      else if name = ''cookie-hash'' then and_then (balance_key n ''cookie'') (\<lambda>k. Inr (CookieHash k))
      else if name = ''first'' then Inr First
      else Inl InvalidValue)"

fun balance_prop_allowed :: "balance \<Rightarrow> bytes \<Rightarrow> bool" where
  "balance_prop_allowed (HeaderHash _) name = (name = ''header'')"
| "balance_prop_allowed (CookieHash _) name = (name = ''cookie'')"
| "balance_prop_allowed _ name = False"

definition balance_parse :: "bytes \<Rightarrow> node \<Rightarrow> diag_code list \<times> balance option" where
  "balance_parse name n =
     (case balance_named name n of
        Inl e \<Rightarrow> ([e], None)
      | Inr strategy \<Rightarrow>
          (map (\<lambda>_. UnknownProperty) (filter (\<lambda>p. \<not> balance_prop_allowed strategy (fst p)) (node_props n)),
           Some strategy))"

record endpoint =
  ep_id :: bytes
  ep_target :: target
  ep_weight :: nat
  ep_priority :: int

definition endpoint_hash_into :: "endpoint \<Rightarrow> hasher \<Rightarrow> hasher" where
  "endpoint_hash_into e h =
     update_i64 (ep_priority e)
       (update_u64 (ep_weight e) (target_hash_into (ep_target e) (update_str (ep_id e) h)))"

record timeouts =
  to_queue :: nat
  to_connect :: nat
  to_response_head :: nat
  to_body_idle :: nat
  to_overall :: nat
  to_upgrade_idle :: nat
  to_upgrade_duration :: nat

definition timeouts_default :: timeouts where
  "timeouts_default =
     \<lparr>to_queue = seconds 2, to_connect = seconds 5, to_response_head = seconds 10,
      to_body_idle = seconds 60, to_overall = seconds 300, to_upgrade_idle = seconds 300,
      to_upgrade_duration = seconds 86400\<rparr>"

definition timeouts_hash_into :: "timeouts \<Rightarrow> hasher \<Rightarrow> hasher" where
  "timeouts_hash_into t h =
     foldl (\<lambda>h d. update_duration d h) h
       [to_queue t, to_connect t, to_response_head t, to_body_idle t, to_overall t, to_upgrade_idle t,
        to_upgrade_duration t]"

definition timeouts_validate :: "timeouts \<Rightarrow> diag_code list" where
  "timeouts_validate t =
     (if to_overall t < to_queue t + to_connect t + to_response_head t then [InvalidValue] else [])
     @ (if to_upgrade_duration t < to_upgrade_idle t then [InvalidValue] else [])"

record pool =
  max_per_endpoint :: nat
  max_idle_per_endpoint :: nat
  pool_idle_timeout :: nat
  max_lifetime :: nat
  max_waiters :: nat
  max_h2_streams_per_connection :: nat
  max_h2_streams_per_endpoint :: nat

definition pool_default :: pool where
  "pool_default =
     \<lparr>max_per_endpoint = 32, max_idle_per_endpoint = 8, pool_idle_timeout = seconds 30,
      max_lifetime = seconds 300, max_waiters = 256, max_h2_streams_per_connection = 128,
      max_h2_streams_per_endpoint = 128\<rparr>"

definition pool_hash_into :: "pool \<Rightarrow> hasher \<Rightarrow> hasher" where
  "pool_hash_into p h =
     (let h = update_u64 (max_per_endpoint p) h;
          h = update_u64 (max_idle_per_endpoint p) h;
          h = update_duration (pool_idle_timeout p) h;
          h = update_duration (max_lifetime p) h;
          h = update_u64 (max_waiters p) h;
          h = update_u64 (max_h2_streams_per_connection p) h in
      update_u64 (max_h2_streams_per_endpoint p) h)"

datatype retry_mode = SafeRetry | ReplayRetry

fun retry_mode_text :: "retry_mode \<Rightarrow> bytes" where
  "retry_mode_text SafeRetry = ''safe''"
| "retry_mode_text ReplayRetry = ''replay''"

record retry =
  retry_mode :: retry_mode
  retry_attempts :: nat
  retry_per_try :: nat
  retry_buffer :: nat
  retry_budget_percent :: nat

definition retry_hash_into :: "retry \<Rightarrow> hasher \<Rightarrow> hasher" where
  "retry_hash_into r h =
     (let h = update_str (retry_mode_text (retry_mode r)) h;
          h = update_u64 (retry_attempts r) h;
          h = update_duration (retry_per_try r) h;
          h = update_u64 (retry_buffer r) h in
      update_u64 (retry_budget_percent r) h)"

datatype health_kind = TcpConnect | HttpProbe bytes nat "bytes option"

record health =
  health_kind :: health_kind
  health_interval :: nat
  health_timeout :: nat
  healthy_threshold :: nat
  unhealthy_threshold :: nat
  health_jitter :: nat

definition health_hash_into :: "health \<Rightarrow> hasher \<Rightarrow> hasher" where
  "health_hash_into p h =
     (let h = (case health_kind p of
             TcpConnect \<Rightarrow> update_str ''tcp'' h
           | HttpProbe path status host \<Rightarrow>
               update_opt_str host (update_u64 status (update_str path (update_str ''http'' h))));
          h = update_duration (health_interval p) h;
          h = update_duration (health_timeout p) h;
          h = update_u64 (healthy_threshold p) h;
          h = update_u64 (unhealthy_threshold p) h in
      update_duration (health_jitter p) h)"

record passive_health =
  max_fails :: nat
  ph_window :: nat
  ph_cooldown :: nat
  unhealthy_status :: "nat list"

definition passive_hash_into :: "digest \<Rightarrow> passive_health \<Rightarrow> hasher \<Rightarrow> hasher" where
  "passive_hash_into digest p h =
     (let h = update_u64 (max_fails p) h;
          h = update_duration (ph_window p) h;
          h = update_duration (ph_cooldown p) h in
      update_ordered digest (unhealthy_status p) update_u64 h)"

datatype upstream_protocol = Http1 | Http2

definition protocol_index :: "upstream_protocol \<Rightarrow> nat" where
  "protocol_index p = (case p of Http1 \<Rightarrow> 0 | Http2 \<Rightarrow> 1)"

record upstream_tls =
  ut_server_name :: bytes
  ut_ca :: "secret_ref option"
  ut_client_cert :: "secret_ref option"
  ut_client_key :: "secret_ref option"

definition upstream_tls_hash_into :: "upstream_tls \<Rightarrow> hasher \<Rightarrow> hasher" where
  "upstream_tls_hash_into t h =
     hash_opt secret_hash_into (ut_client_key t)
       (hash_opt secret_hash_into (ut_client_cert t)
          (hash_opt secret_hash_into (ut_ca t) (update_str (ut_server_name t) h)))"

record upstream =
  up_id :: resource_id
  up_owner :: source_id
  up_endpoints :: "endpoint list"
  up_balance :: balance
  up_timeouts :: timeouts
  up_pool :: pool
  up_retry :: "retry option"
  up_health :: "health option"
  up_passive_health :: "passive_health option"
  up_protocol :: upstream_protocol
  up_tls :: "upstream_tls option"
  up_resolve :: resolve

definition upstream_hash_into :: "digest \<Rightarrow> upstream \<Rightarrow> hasher \<Rightarrow> hasher" where
  "upstream_hash_into digest u h =
     (let h = resource_hash_into (up_id u) h;
          h = update_unordered digest (up_endpoints u) endpoint_hash_into h;
          h = balance_hash_into (up_balance u) h;
          h = timeouts_hash_into (up_timeouts u) h;
          h = pool_hash_into (up_pool u) h;
          h = hash_opt retry_hash_into (up_retry u) h;
          h = hash_opt health_hash_into (up_health u) h;
          h = hash_opt (passive_hash_into digest) (up_passive_health u) h;
          h = update_u64 (protocol_index (up_protocol u)) h;
          h = hash_opt upstream_tls_hash_into (up_tls u) h in
      resolve_hash_into (up_resolve u) h)"

definition has_names :: "upstream \<Rightarrow> bool" where
  "has_names u \<longleftrightarrow> list_ex (\<lambda>e. is_name (ep_target e)) (up_endpoints u)"

subsection \<open>Properties\<close>

lemma rsplit_once_Some: "rsplit_once c s = Some (a, b) \<Longrightarrow> s = a @ c # b"
  by (auto simp: rsplit_once_def split_once_Some rev_eq_append_conv)

lemma first_fault_None: "first_fault ls = None \<longleftrightarrow> (\<forall>l \<in> set ls. check_label l = None)"
  by (induction ls) (auto split: option.splits)

lemma check_label_None:
  "check_label l = None \<longleftrightarrow> l \<noteq> [] \<and> length l \<le> 63 \<and> hd l \<noteq> CHR ''-'' \<and> last l \<noteq> CHR ''-'' \<and>
     list_all (\<lambda>b. is_ascii_alphanumeric b \<or> b = CHR ''-'') l"
  by (cases l) (auto simp: check_label_def ends_with_single split: if_splits)

lemma split_at_lowercase:
  "split_at (CHR ''.'') (to_ascii_lowercase s) = map to_ascii_lowercase (split_at (CHR ''.'') s)"
proof (induction s)
  case (Cons c s)
  have "lower_byte c = CHR ''.'' \<longleftrightarrow> c = CHR ''.''"
    using lower_byte_inj_special [of "CHR ''.''" c] by (auto simp: is_ascii_lower_def lower_byte_def is_ascii_upper_def)
  with Cons show ?case by (auto simp: to_ascii_lowercase_Cons split: list.splits)
qed simp

text \<open>
  a named backend that parses has a host the resolver can be asked about: at most 253 bytes in
  non-empty labels of at most 63, in lower case, and a port between 1 and 65535.
\<close>

theorem target_parse_name:
  assumes "target_parse text = Inr (TargetName host port)"
  shows "0 < port \<and> port \<le> u16_max \<and> to_ascii_lowercase host = host \<and> host \<noteq> [] \<and> length host \<le> 253 \<and>
    (\<forall>label \<in> set (split_at (CHR ''.'') host). label \<noteq> [] \<and> length label \<le> 63)"
proof -
  obtain h p where parts: "rsplit_once (CHR '':'') text = Some (h, p)" "parse_unsigned u16_max p = Some port"
      "port \<noteq> 0" "check_host h = None" and host: "host = to_ascii_lowercase (trim_end_char (CHR ''.'') h)"
    using assms by (auto simp: target_parse_def split: option.splits sum.splits if_splits prod.splits)
  have t: "trim_end_char (CHR ''.'') h \<noteq> []" "length (trim_end_char (CHR ''.'') h) \<le> 253"
    and labels: "\<forall>l \<in> set (split_at (CHR ''.'') (trim_end_char (CHR ''.'') h)). check_label l = None"
    using parts(4) by (auto simp: check_host_def Let_def first_fault_None split: if_splits)
  have "host \<noteq> []" using t(1) host length_to_ascii_lowercase by (metis length_0_conv)
  moreover have "\<forall>label \<in> set (split_at (CHR ''.'') host). label \<noteq> [] \<and> length label \<le> 63"
    using labels unfolding host split_at_lowercase by (auto simp: check_label_None to_ascii_lowercase_def)
  ultimately show ?thesis using parts(2,3) parse_unsigned_le [OF parts(2)] t(2) host by simp
qed

theorem target_parse_name_witness:
  "target_parse ''Api.Internal.:8080'' = Inr (TargetName ''api.internal'' 8080) \<and> 0 < (8080::nat) \<and>
   length ''api.internal'' \<le> 253"
proof -
  have p: "parse_unsigned u16_max ''8080'' = Some 8080"
    by (simp add: parse_unsigned_def dec_value_def digit_val_def is_ascii_digit_def strip_prefix_def u16_max_def)
  have s: "strip_prefix ''unix:'' ''Api.Internal.:8080'' = None"
    "rsplit_once (CHR '':'') ''Api.Internal.:8080'' = Some (''Api.Internal.'', ''8080'')"
    "check_host ''Api.Internal.'' = None" "\<not> starts_with ''['' ''Api.Internal.:8080''"
    "to_ascii_lowercase (trim_end_char (CHR ''.'') ''Api.Internal.'') = ''api.internal''"
    "case parse_socket_addr ''Api.Internal.:8080'' of Inl _ \<Rightarrow> True | Inr _ \<Rightarrow> False" by code_simp+
  have t: "target_parse ''Api.Internal.:8080'' = Inr (TargetName ''api.internal'' 8080)"
    unfolding target_parse_def s(1) s(2) using p s(3-) by (simp split: sum.splits)
  then show ?thesis using target_parse_name [OF t] by blast
qed

text \<open>
  a secret reference prints in a form that parses back to it.
\<close>

theorem secret_roundtrip:
  assumes "secret_parse text = Inr r"
  shows "secret_parse (secret_display r) = Inr r"
proof (cases r)
  case (SecretEnv name)
  with assms show ?thesis
    by (auto simp: secret_parse_def strip_prefix_iff Let_def split: option.splits if_splits)
next
  case (SecretFile path)
  have "strip_prefix ''env:'' (''file:'' @ path) = None" by (simp add: strip_prefix_def)
  moreover have "path \<noteq> []" "\<not> contains_str ''-----BEGIN'' path"
    using assms SecretFile by (auto simp: secret_parse_def Let_def split: option.splits if_splits)
  moreover have "strip_prefix ''file:'' (''file:'' @ path) = Some path" by (rule strip_prefix_append)
  ultimately show ?thesis using SecretFile by (simp add: secret_parse_def)
qed

theorem secret_roundtrip_witness:
  "secret_parse ''tls/key.pem'' = Inr (SecretFile ''tls/key.pem'') \<and>
   secret_parse (secret_display (SecretFile ''tls/key.pem'')) = Inr (SecretFile ''tls/key.pem'')"
proof -
  have p: "secret_parse ''tls/key.pem'' = Inr (SecretFile ''tls/key.pem'')" by code_simp
  then show ?thesis using secret_roundtrip [OF p] by simp
qed

text \<open>
  the printed form of a target does not identify it: a host written \<open>UNIX\<close> is lower-cased and prints
  like a Unix socket, so the two contribute the same bytes to every fingerprint and share the default
  endpoint identity.
\<close>

theorem target_describe_ambiguous:
  "target_parse ''UNIX:8'' = Inr (TargetName ''unix'' 8) \<and> target_parse ''unix:8'' = Inr (TargetUnix ''8'') \<and>
   target_hash_into (TargetName ''unix'' 8) h = target_hash_into (TargetUnix ''8'') h"
proof -
  have p: "parse_unsigned u16_max ''8'' = Some 8"
    by (simp add: parse_unsigned_def dec_value_def digit_val_def is_ascii_digit_def strip_prefix_def u16_max_def)
  have s: "strip_prefix ''unix:'' ''UNIX:8'' = None" "rsplit_once (CHR '':'') ''UNIX:8'' = Some (''UNIX'', ''8'')"
    "check_host ''UNIX'' = None" "\<not> starts_with ''['' ''UNIX:8''"
    "to_ascii_lowercase (trim_end_char (CHR ''.'') ''UNIX'') = ''unix''"
    "case parse_socket_addr ''UNIX:8'' of Inl _ \<Rightarrow> True | Inr _ \<Rightarrow> False" by code_simp+
  have "target_parse ''UNIX:8'' = Inr (TargetName ''unix'' 8)"
    unfolding target_parse_def s(1) s(2) using p s(3-) by (simp split: sum.splits)
  moreover have "target_parse ''unix:8'' = Inr (TargetUnix ''8'')" by code_simp
  moreover have "target_describe (TargetName ''unix'' 8) = target_describe (TargetUnix ''8'')" by code_simp
  ultimately show ?thesis by (simp add: target_hash_into_def)
qed

lemma upstream_hash_endpoints:
  assumes "mset es = mset (up_endpoints u)"
  shows "upstream_hash_into digest (u\<lparr>up_endpoints := es\<rparr>) h = upstream_hash_into digest u h"
  by (simp add: upstream_hash_into_def update_unordered_mset [OF assms])

end
