(* ===== verification/Planning.thy ===== *)
theory Planning
  imports Upstreams
begin

text \<open>
  The normalised configuration and its fingerprint (\<open>gatel-plan/src/spec.rs\<close>), and its compilation into
  an execution plan (\<open>gatel-plan/src/plan.rs\<close>): which sites a listener serves and in which order, each
  route's middleware chain, the state bindings a plan needs and how they relate to what is running.
  A panic (\<open>expect\<close>) is the value \<open>None\<close>.
\<close>

subsection \<open>What the graph needs of a directive's configuration\<close>

record 'c config_ops =
  cfg_hash :: "'c \<Rightarrow> hasher \<Rightarrow> hasher"
  cfg_state :: "'c \<Rightarrow> fingerprint option"

definition instance_hash_into :: "'c config_ops \<Rightarrow> 'c directive_instance \<Rightarrow> hasher \<Rightarrow> hasher" where
  "instance_hash_into ops i h =
     (let h = meta_hash_into (inst_meta i) h;
          h = update_u64 (case inst_scope i of Site \<Rightarrow> 0 | Route \<Rightarrow> 1) h;
          h = update_i64 (inst_order i) h in
      cfg_hash ops (inst_config i) h)"

subsection \<open>The resource graph\<close>

datatype listener_protocol = Http | Https

fun listener_protocol_text :: "listener_protocol \<Rightarrow> bytes" where
  "listener_protocol_text Http = ''http''"
| "listener_protocol_text Https = ''https''"

record listener =
  li_id :: resource_id
  li_owner :: source_id
  li_name :: bytes
  li_bind :: socket_addr
  li_protocol :: listener_protocol
  li_proxy_protocol :: bool

definition listener_hash_into :: "listener \<Rightarrow> hasher \<Rightarrow> hasher" where
  "listener_hash_into l h =
     (let h = resource_hash_into (li_id l) h;
          h = update_str (li_name l) h;
          h = update_str (show_socket_addr (li_bind l)) h;
          h = update_str (listener_protocol_text (li_protocol l)) h in
      update_bool (li_proxy_protocol l) h)"

datatype certificate_source = Manual secret_ref secret_ref | Internal | AcmeIssued

record client_auth =
  ca_required :: bool
  ca_ca :: secret_ref

record site_tls =
  tls_source :: certificate_source
  tls_client_auth :: "client_auth option"
  tls_automatic :: bool

definition site_tls_hash_into :: "site_tls \<Rightarrow> hasher \<Rightarrow> hasher" where
  "site_tls_hash_into t h =
     (let h = (case tls_source t of
            Manual cert key \<Rightarrow> secret_hash_into key (secret_hash_into cert (update_str ''manual'' h))
          | Internal \<Rightarrow> update_str ''internal'' h
          | AcmeIssued \<Rightarrow> update_str ''acme'' h) in
      hash_opt (\<lambda>a h. secret_hash_into (ca_ca a) (update_bool (ca_required a) h)) (tls_client_auth t) h)"

fun terminal_hash_into :: "'c config_ops \<Rightarrow> 'c terminal \<Rightarrow> hasher \<Rightarrow> hasher" where
  "terminal_hash_into ops (Proxy u) h = resource_hash_into u (update_str ''proxy'' h)"
| "terminal_hash_into ops (Directive i) h = instance_hash_into ops i (update_str ''directive'' h)"

definition host_hash_into :: "host_match \<Rightarrow> hasher \<Rightarrow> hasher" where
  "host_hash_into m h = update_str (host_describe m) h"

fun path_hash_into :: "path_match \<Rightarrow> hasher \<Rightarrow> hasher" where
  "path_hash_into (PathExact path) h = update_str path (update_str ''exact'' h)"
| "path_hash_into (PathPrefix path) h = update_str path (update_str ''prefix'' h)"

definition method_hash_into :: "method_match \<Rightarrow> hasher \<Rightarrow> hasher" where
  "method_hash_into m h = update_str (method_describe m) h"

definition matcher_hash_into :: "matcher \<Rightarrow> hasher \<Rightarrow> hasher" where
  "matcher_hash_into m h = update_str (matcher_describe m) h"

record 'c route =
  rt_id :: resource_id
  rt_path :: path_match
  rt_methods :: method_match
  rt_matchers :: "matcher list"
  rt_directives :: "'c directive_instance list"
  rt_terminal :: "'c terminal"

definition route_hash_into :: "digest \<Rightarrow> 'c config_ops \<Rightarrow> 'c route \<Rightarrow> hasher \<Rightarrow> hasher" where
  "route_hash_into digest ops r h =
     (let h = resource_hash_into (rt_id r) h;
          h = path_hash_into (rt_path r) h;
          h = method_hash_into (rt_methods r) h;
          h = update_ordered digest (rt_matchers r) matcher_hash_into h;
          h = update_ordered digest (rt_directives r) (instance_hash_into ops) h in
      terminal_hash_into ops (rt_terminal r) h)"

record 'c site =
  si_id :: resource_id
  si_owner :: source_id
  si_host :: host_match
  si_listeners :: "bytes list"
  si_tls :: "site_tls option"
  si_directives :: "'c directive_instance list"
  si_routes :: "'c route list"

definition site_hash_into :: "digest \<Rightarrow> 'c config_ops \<Rightarrow> 'c site \<Rightarrow> hasher \<Rightarrow> hasher" where
  "site_hash_into digest ops s h =
     (let h = resource_hash_into (si_id s) h;
          h = host_hash_into (si_host s) h;
          h = update_unordered digest (si_listeners s) update_str h;
          h = hash_opt site_tls_hash_into (si_tls s) h;
          h = update_ordered digest (si_directives s) (instance_hash_into ops) h in
      update_ordered digest (si_routes s) (route_hash_into digest ops) h)"

record limits =
  max_header :: nat
  max_body :: nat
  handshake_timeout :: nat
  lim_idle_timeout :: nat
  max_connections :: nat

definition limits_default :: limits where
  "limits_default =
     \<lparr>max_header = 64 * 1024, max_body = 16 * 1024 * 1024, handshake_timeout = seconds 10,
      lim_idle_timeout = seconds 60, max_connections = 10000\<rparr>"

definition limits_hash_into :: "limits \<Rightarrow> hasher \<Rightarrow> hasher" where
  "limits_hash_into l h =
     (let h = update_u64 (max_header l) h;
          h = update_u64 (max_body l) h;
          h = update_duration (handshake_timeout l) h;
          h = update_duration (lim_idle_timeout l) h in
      update_u64 (max_connections l) h)"

record log_config =
  log_level :: bytes
  log_format :: bytes

record acme =
  acme_directory :: bytes
  acme_email :: bytes
  acme_agreed :: bool
  acme_directory_path :: "bytes option"
  acme_renew_before :: nat

definition acme_hash_into :: "acme \<Rightarrow> hasher \<Rightarrow> hasher" where
  "acme_hash_into a h =
     (let h = update_str (acme_directory a) h;
          h = update_str (acme_email a) h;
          h = update_bool (acme_agreed a) h;
          h = update_opt_str (acme_directory_path a) h in
      update_duration (acme_renew_before a) h)"

text \<open>\<open>blocking\<close> is the number of jobs and the bytes of memory the blocking pool may use.\<close>

record global =
  gl_blocking :: "(nat \<times> nat) option"
  gl_grace_period :: nat
  gl_reload_drain :: "nat option"
  gl_limits :: limits
  gl_trusted_proxies :: "(ip_addr \<times> nat) list"
  gl_acme :: "acme option"
  gl_log :: log_config

definition global_default :: global where
  "global_default =
     \<lparr>gl_blocking = None, gl_grace_period = seconds 30, gl_reload_drain = None,
      gl_limits = limits_default, gl_trusted_proxies = [], gl_acme = None,
      gl_log = \<lparr>log_level = ''info'', log_format = ''text''\<rparr>\<rparr>"

definition global_hash_into :: "digest \<Rightarrow> global \<Rightarrow> hasher \<Rightarrow> hasher" where
  "global_hash_into digest g h =
     (let h = (case gl_blocking g of
            Some (jobs, memory) \<Rightarrow> update_u64 memory (update_u64 jobs (update_str ''blocking-v1'' h))
          | None \<Rightarrow> update_none h);
          h = update_duration (gl_grace_period g) h;
          h = (case gl_reload_drain g of
            Some d \<Rightarrow> update_duration d (update_str ''reload-drain-v1'' h)
          | None \<Rightarrow> h);
          h = limits_hash_into (gl_limits g) h;
          h = update_str (log_level (gl_log g)) h;
          h = update_str (log_format (gl_log g)) h;
          h = update_unordered digest (gl_trusted_proxies g)
                (\<lambda>(network, prefix) h. update_u64 prefix (update_str (show_ip network) h)) h in
      hash_opt acme_hash_into (gl_acme g) h)"

record 'c spec =
  sp_global :: global
  sp_listeners :: "listener list"
  sp_sites :: "'c site list"
  sp_upstreams :: "upstream list"

definition spec_fingerprint :: "digest \<Rightarrow> 'c config_ops \<Rightarrow> 'c spec \<Rightarrow> fingerprint" where
  "spec_fingerprint digest ops s =
     (let h = update_str ''gatel.spec.v2'' hasher_new;
          h = global_hash_into digest (sp_global s) h;
          h = update_unordered digest (sp_listeners s)
                (\<lambda>l h. listener_hash_into l (update_str (source_text (li_owner l)) h)) h;
          h = update_unordered digest (sp_sites s)
                (\<lambda>x h. site_hash_into digest ops x (update_str (source_text (si_owner x)) h)) h;
          h = update_unordered digest (sp_upstreams s)
                (\<lambda>u h. upstream_hash_into digest u (update_str (source_text (up_owner u)) h)) h in
      finish digest h)"

definition spec_listener :: "'c spec \<Rightarrow> bytes \<Rightarrow> listener option" where
  "spec_listener s name = find (\<lambda>l. li_name l = name) (sp_listeners s)"

definition spec_upstream :: "'c spec \<Rightarrow> resource_id \<Rightarrow> upstream option" where
  "spec_upstream s i = find (\<lambda>u. up_id u = i) (sp_upstreams s)"

definition spec_route_count :: "'c spec \<Rightarrow> nat" where
  "spec_route_count s = sum_list (map (\<lambda>x. length (si_routes x)) (sp_sites s))"

definition listeners_for :: "'c spec \<Rightarrow> 'c site \<Rightarrow> listener list" where
  "listeners_for s x =
     (if si_listeners x = [] then
        filter (\<lambda>l. (li_protocol l = Https) = (si_tls x \<noteq> None)) (sp_listeners s)
      else List.map_filter (spec_listener s) (si_listeners x))"

subsection \<open>State bindings\<close>

datatype state_kind = EndpointsState | HealthState | PoolState | SelectorState | DirectiveState bytes
  | CertificateState

fun state_kind_text :: "state_kind \<Rightarrow> bytes" where
  "state_kind_text EndpointsState = ''endpoints''"
| "state_kind_text HealthState = ''health''"
| "state_kind_text PoolState = ''pool''"
| "state_kind_text SelectorState = ''selector''"
| "state_kind_text (DirectiveState name) = name"
| "state_kind_text CertificateState = ''certificate''"

text \<open>The derived order of the enumeration.\<close>

fun state_kind_rank :: "state_kind \<Rightarrow> nat \<times> bytes" where
  "state_kind_rank EndpointsState = (0, [])"
| "state_kind_rank HealthState = (1, [])"
| "state_kind_rank PoolState = (2, [])"
| "state_kind_rank SelectorState = (3, [])"
| "state_kind_rank (DirectiveState name) = (4, name)"
| "state_kind_rank CertificateState = (5, [])"

datatype reset_policy = Preserve | Reset

record state_binding =
  sb_owner :: resource_id
  sb_kind :: state_kind
  sb_compatibility :: fingerprint
  sb_policy :: reset_policy

definition preserving :: "resource_id \<Rightarrow> state_kind \<Rightarrow> fingerprint \<Rightarrow> state_binding" where
  "preserving r k f = \<lparr>sb_owner = r, sb_kind = k, sb_compatibility = f, sb_policy = Preserve\<rparr>"

definition binding_hash_into :: "state_binding \<Rightarrow> hasher \<Rightarrow> hasher" where
  "binding_hash_into b h =
     (let h = resource_hash_into (sb_owner b) h;
          h = update_str (state_kind_text (sb_kind b)) h;
          h = update_fingerprint (sb_compatibility b) h in
      update_bool (sb_policy b = Reset) h)"

definition instance_state_binding :: "'c config_ops \<Rightarrow> 'c directive_instance \<Rightarrow> state_binding option" where
  "instance_state_binding ops i =
     map_option (preserving (inst_owner i) (DirectiveState (inst_name i))) (cfg_state ops (inst_config i))"

definition transport_fingerprint :: "digest \<Rightarrow> upstream \<Rightarrow> fingerprint" where
  "transport_fingerprint digest u =
     finish digest
       (hash_opt upstream_tls_hash_into (up_tls u)
          (update_u64 (protocol_index (up_protocol u))
             (update_unordered digest (up_endpoints u)
                (\<lambda>e h. update_str (target_describe (ep_target e)) (update_str (ep_id e) h)) hasher_new)))"

definition upstream_bindings :: "digest \<Rightarrow> upstream \<Rightarrow> state_binding list" where
  "upstream_bindings digest u =
     (let transport = transport_fingerprint digest u in
      [preserving (up_id u) EndpointsState transport,
       preserving (up_id u) PoolState transport,
       preserving (up_id u) SelectorState
         (finish digest (update_fingerprint transport (balance_hash_into (up_balance u) hasher_new)))]
      @ (if up_health u \<noteq> None \<or> up_passive_health u \<noteq> None then
           [preserving (up_id u) HealthState
             (finish digest
                (update_fingerprint transport
                   (hash_opt (passive_hash_into digest) (up_passive_health u)
                      (hash_opt health_hash_into (up_health u) hasher_new))))]
         else []))"

definition route_bindings :: "'c config_ops \<Rightarrow> 'c route \<Rightarrow> state_binding list" where
  "route_bindings ops r =
     List.map_filter (instance_state_binding ops) (rt_directives r)
     @ (case rt_terminal r of
          Proxy _ \<Rightarrow> []
        | Directive i \<Rightarrow> (case instance_state_binding ops i of None \<Rightarrow> [] | Some b \<Rightarrow> [b]))"

definition site_bindings :: "'c config_ops \<Rightarrow> 'c site \<Rightarrow> state_binding list" where
  "site_bindings ops s =
     List.map_filter (instance_state_binding ops) (si_directives s)
     @ concat (map (route_bindings ops) (si_routes s))"

definition certificate_bindings :: "digest \<Rightarrow> 'c site \<Rightarrow> state_binding list" where
  "certificate_bindings digest s =
     (case si_tls s of
        None \<Rightarrow> []
      | Some tls \<Rightarrow>
          [preserving (si_id s) CertificateState (finish digest (site_tls_hash_into tls hasher_new))])"

definition collect_bindings :: "digest \<Rightarrow> 'c config_ops \<Rightarrow> 'c spec \<Rightarrow> state_binding list" where
  "collect_bindings digest ops s =
     sort_key (\<lambda>b. (resource_name (sb_owner b), state_kind_rank (sb_kind b)))
       (concat (map (upstream_bindings digest) (sp_upstreams s))
        @ concat (map (site_bindings ops) (sp_sites s))
        @ concat (map (certificate_bindings digest) (sp_sites s)))"

datatype binding_change =
    ReuseState state_binding | ReplaceState state_binding bytes | CreateState state_binding
  | RetireState state_binding

definition same_slot :: "state_binding \<Rightarrow> state_binding \<Rightarrow> bool" where
  "same_slot a b \<longleftrightarrow> sb_owner a = sb_owner b \<and> sb_kind a = sb_kind b"

definition change_for :: "state_binding list \<Rightarrow> state_binding \<Rightarrow> binding_change" where
  "change_for running b =
     (case find (\<lambda>c. same_slot c b) running of
        None \<Rightarrow> CreateState b
      | Some existing \<Rightarrow>
          if sb_policy b = Reset then ReplaceState b ''reset policy''
          else if sb_compatibility existing \<noteq> sb_compatibility b then ReplaceState b ''incompatible change''
          else ReuseState b)"

definition diff_bindings :: "state_binding list \<Rightarrow> state_binding list \<Rightarrow> binding_change list" where
  "diff_bindings running wanted =
     map (change_for running) wanted
     @ map RetireState (filter (\<lambda>b. \<not> list_ex (\<lambda>c. same_slot c b) wanted) running)"

subsection \<open>Plans\<close>

record 'c route_plan =
  rp_id :: resource_id
  rp_path :: path_match
  rp_methods :: method_match
  rp_matchers :: "matcher list"
  rp_chain :: "'c directive_instance list"
  rp_terminal :: "'c terminal"

definition accepts :: "'c route_plan \<Rightarrow> bytes \<Rightarrow> bytes \<Rightarrow> bool" where
  "accepts r path m \<longleftrightarrow> path_matches (rp_path r) path \<and> method_matches (rp_methods r) m"

record 'c site_plan =
  spl_id :: resource_id
  spl_host :: host_match
  spl_tls :: "site_tls option"
  spl_routes :: "'c route_plan list"
  spl_fallback :: "'c directive_instance list"

record 'c listener_plan =
  lpl_listener :: listener
  lpl_sites :: "'c site_plan list"

definition site_for :: "'c listener_plan \<Rightarrow> bytes \<Rightarrow> 'c site_plan option" where
  "site_for lp host = find (\<lambda>s. host_matches (spl_host s) host) (lpl_sites lp)"

record 'c plan =
  pl_spec :: "'c spec"
  pl_listeners :: "'c listener_plan list"
  pl_upstreams :: "upstream list"
  pl_bindings :: "state_binding list"
  pl_spec_hash :: fingerprint
  pl_plan_hash :: fingerprint

definition plan_upstream :: "'c plan \<Rightarrow> resource_id \<Rightarrow> upstream option" where
  "plan_upstream p i = find (\<lambda>u. up_id u = i) (pl_upstreams p)"

definition plan_listener :: "'c plan \<Rightarrow> bytes \<Rightarrow> 'c listener_plan option" where
  "plan_listener p name = find (\<lambda>l. li_name (lpl_listener l) = name) (pl_listeners p)"

definition plan_route_count :: "'c plan \<Rightarrow> nat" where
  "plan_route_count p =
     sum_list (map (\<lambda>l. sum_list (map (\<lambda>s. length (spl_routes s)) (lpl_sites l))) (pl_listeners p))"

definition compile_route :: "'c site \<Rightarrow> 'c route \<Rightarrow> 'c route_plan option" where
  "compile_route s r =
     (case order_route (si_directives s @ rt_directives r) (rt_terminal r) of
        Inl _ \<Rightarrow> None
      | Inr chain \<Rightarrow>
          Some \<lparr>rp_id = rt_id r, rp_path = rt_path r, rp_methods = rt_methods r, rp_matchers = rt_matchers r,
            rp_chain = chain, rp_terminal = rt_terminal r\<rparr>)"

definition compile_site :: "'c site \<Rightarrow> 'c site_plan option" where
  "compile_site s =
     (case those (map (compile_route s) (si_routes s)) of
        None \<Rightarrow> None
      | Some routes \<Rightarrow>
          (case order_chain (si_directives s) of
             Inl _ \<Rightarrow> None
           | Inr fallback \<Rightarrow>
               Some \<lparr>spl_id = si_id s, spl_host = si_host s, spl_tls = si_tls s, spl_routes = routes,
                 spl_fallback = fallback\<rparr>))"

text \<open>Most specific host first, then by name.\<close>

definition site_plan_key :: "'c site_plan \<Rightarrow> int \<times> int \<times> bytes" where
  "site_plan_key s =
     (- int (fst (host_specificity (spl_host s))), - int (snd (host_specificity (spl_host s))),
      resource_name (spl_id s))"

definition served_by :: "'c spec \<Rightarrow> listener \<Rightarrow> 'c site \<Rightarrow> bool" where
  "served_by s l x \<longleftrightarrow> list_ex (\<lambda>c. li_name c = li_name l) (listeners_for s x)"

definition compile_listener :: "'c spec \<Rightarrow> listener \<Rightarrow> 'c listener_plan option" where
  "compile_listener s l =
     map_option (\<lambda>sites. \<lparr>lpl_listener = l, lpl_sites = sort_key site_plan_key sites\<rparr>)
       (those (map compile_site (filter (served_by s l) (sp_sites s))))"

definition compile :: "digest \<Rightarrow> 'c config_ops \<Rightarrow> 'c registry \<Rightarrow> 'c spec \<Rightarrow> 'c plan option" where
  "compile digest ops registry s =
     map_option
       (\<lambda>listeners.
          let bindings = collect_bindings digest ops s;
              spec_hash = spec_fingerprint digest ops s;
              h = update_str ''gatel.plan.v1'' hasher_new;
              h = update_fingerprint spec_hash h;
              h = update_fingerprint (build_hash digest registry) h;
              h = update_ordered digest bindings binding_hash_into h in
          \<lparr>pl_spec = s, pl_listeners = listeners, pl_upstreams = sp_upstreams s, pl_bindings = bindings,
           pl_spec_hash = spec_hash, pl_plan_hash = finish digest h\<rparr>)
       (those (map (compile_listener s) (sp_listeners s)))"

subsection \<open>Selecting a site\<close>

lemma those_Some: "those xs = Some ys \<longleftrightarrow> xs = map Some ys"
  by (induction xs arbitrary: ys) (auto split: option.splits simp: Cons_eq_map_conv)

lemma those_map_Some: "those (map f xs) = Some ys \<longleftrightarrow> length xs = length ys \<and> (\<forall>i < length xs. f (xs ! i) = Some (ys ! i))"
  unfolding those_Some by (auto simp: list_eq_iff_nth_eq)

lemma those_map_total: "(\<exists>ys. those (map f xs) = Some ys) \<longleftrightarrow> (\<forall>x \<in> set xs. \<exists>y. f x = Some y)"
  by (induction xs) (auto split: option.splits)

lemma those_map_set: "those (map f xs) = Some ys \<Longrightarrow> set ys = {y. \<exists>x \<in> set xs. f x = Some y}"
  by (induction xs arbitrary: ys) (auto split: option.splits)

lemma find_member: "find P xs = Some x \<Longrightarrow> P x \<and> x \<in> set xs"
  by (induction xs) (auto split: if_splits)

text \<open>The first match of a list sorted by a key has the least key of all matches.\<close>

lemma find_sorted_least:
  fixes f :: "'a \<Rightarrow> 'b::linorder"
  assumes "find P (sort_key f xs) = Some x" "y \<in> set xs" "P y"
  shows "f x \<le> f y"
proof -
  have s: "sorted (map f zs) \<Longrightarrow> find P zs = Some x \<Longrightarrow> y \<in> set zs \<Longrightarrow> f x \<le> f y" for zs
    using assms(3) by (induction zs) (auto split: if_splits)
  show ?thesis using s [of "sort_key f xs"] assms(1,2) by simp
qed

lemma compile_listener_sites:
  assumes "compile_listener s l = Some lp"
  obtains sites where "lpl_sites lp = sort_key site_plan_key sites" "lpl_listener lp = l"
    "set sites = {y. \<exists>x \<in> set (sp_sites s). served_by s l x \<and> compile_site x = Some y}"
  using assms those_map_set by (fastforce simp: compile_listener_def)

lemma site_plan_key_le:
  assumes "site_plan_key y \<le> site_plan_key z"
  shows "host_specificity (spl_host z) \<le> host_specificity (spl_host y)"
proof -
  have "(c, d) \<le> (a, b)" if "(- int a, - int b, n) \<le> (- int c, - int d, m)" for a b c d :: nat and n m :: bytes
    using that by (auto simp: less_eq_prod_def)
  then show ?thesis
    using assms by (cases "host_specificity (spl_host y)"; cases "host_specificity (spl_host z)")
      (simp add: site_plan_key_def)
qed

lemma compile_site_fields:
  "compile_site x = Some y \<Longrightarrow> spl_host y = si_host x \<and> spl_id y = si_id x \<and> spl_tls y = si_tls x"
  by (auto simp: compile_site_def split: option.splits sum.splits)

lemma compile_listeners:
  assumes "compile digest ops reg s = Some p"
  shows "those (map (compile_listener s) (sp_listeners s)) = Some (pl_listeners p)"
    "pl_bindings p = collect_bindings digest ops s" "pl_spec_hash p = spec_fingerprint digest ops s"
  using assms by (auto simp: compile_def Let_def)

text \<open>
  The directives of a chain can be ordered if some order of them satisfies every constraint and no two of
  them conflict; a site can, if those of its fallback and of each of its routes can, and no directive of a
  route conflicts with its terminal or has to follow it.
\<close>

definition orderable :: "'c directive_instance list \<Rightarrow> bool" where
  "orderable ds \<longleftrightarrow> (\<exists>seqn. mset seqn = mset ds \<and> obeys seqn) \<and> pairwise_free conflicts_with ds"

definition site_orderable :: "'c site \<Rightarrow> bool" where
  "site_orderable x \<longleftrightarrow> orderable (si_directives x) \<and>
     (\<forall>r \<in> set (si_routes x). orderable (si_directives x @ rt_directives r) \<and>
        (\<forall>item \<in> set (si_directives x @ rt_directives r).
           \<not> terminal_conflict (rt_terminal r) item \<and> \<not> terminal_reverse (rt_terminal r) item))"

text \<open>What a plan makes of a chain, a route and a site.\<close>

definition ordered_as :: "'c directive_instance list \<Rightarrow> 'c directive_instance list \<Rightarrow> bool" where
  "ordered_as ds out \<longleftrightarrow> mset out = mset ds \<and> obeys out \<and> pairwise_free conflicts_with out"

definition route_planned :: "'c site \<Rightarrow> 'c route \<Rightarrow> 'c route_plan \<Rightarrow> bool" where
  "route_planned x r y \<longleftrightarrow> rp_id y = rt_id r \<and> rp_path y = rt_path r \<and> rp_methods y = rt_methods r \<and>
     rp_matchers y = rt_matchers r \<and> rp_terminal y = rt_terminal r \<and> ordered_as (si_directives x @ rt_directives r) (rp_chain y)"

definition site_planned :: "'c site \<Rightarrow> 'c site_plan \<Rightarrow> bool" where
  "site_planned x y \<longleftrightarrow> spl_id y = si_id x \<and> spl_host y = si_host x \<and> spl_tls y = si_tls x \<and>
     ordered_as (si_directives x) (spl_fallback y) \<and> list_all2 (route_planned x) (si_routes x) (spl_routes y)"

lemma order_chain_orderable: "(\<exists>out. order_chain ds = Inr out) \<longleftrightarrow> orderable ds"
proof
  assume "\<exists>out. order_chain ds = Inr out"
  then obtain out where o: "order_chain ds = Inr out" ..
  note r = order_chain_Inr [OF o]
  from r(1,3) have "pairwise_free conflicts_with ds" by (metis pairwise_free_mset)
  with r(1,2) show "orderable ds" by (auto simp: orderable_def)
qed (use order_chain_complete in \<open>auto simp: orderable_def\<close>)

lemma order_route_orderable:
  "(\<exists>out. order_route ds t = Inr out) \<longleftrightarrow> orderable ds \<and> (\<forall>item \<in> set ds. \<not> terminal_conflict t item \<and> \<not> terminal_reverse t item)"
proof -
  have "terminal_errors ds t = [] \<longleftrightarrow> (\<forall>item \<in> set ds. \<not> terminal_conflict t item \<and> \<not> terminal_reverse t item)"
    by (induction ds) (auto simp: terminal_errors_def)
  then show ?thesis using order_chain_orderable [of ds] by (auto simp: order_route_def)
qed

lemma compile_route_planned: "compile_route x r = Some y \<Longrightarrow> route_planned x r y"
  by (auto simp: compile_route_def route_planned_def ordered_as_def order_route_def order_chain_Inr split: sum.splits if_splits)

lemma compile_site_planned: "compile_site x = Some y \<Longrightarrow> site_planned x y"
  by (auto simp: compile_site_def site_planned_def ordered_as_def order_chain_Inr those_map_Some list_all2_conv_all_nth
      intro: compile_route_planned split: option.splits sum.splits)

lemma compile_site_orderable: "(\<exists>y. compile_site x = Some y) \<longleftrightarrow> site_orderable x"
proof -
  have route: "(\<exists>y. compile_route x r = Some y) \<longleftrightarrow> (\<exists>out. order_route (si_directives x @ rt_directives r) (rt_terminal r) = Inr out)" for r
    by (cases "order_route (si_directives x @ rt_directives r) (rt_terminal r)") (simp_all add: compile_route_def)
  have "(\<exists>y. compile_site x = Some y) \<longleftrightarrow>
      (\<exists>rs. those (map (compile_route x) (si_routes x)) = Some rs) \<and> (\<exists>out. order_chain (si_directives x) = Inr out)"
    by (auto simp: compile_site_def split: option.splits sum.splits)
  then show ?thesis unfolding those_map_total route order_route_orderable order_chain_orderable site_orderable_def by blast
qed

lemma compile_succeeds_iff:
  "(\<exists>p. compile digest ops reg s = Some p) \<longleftrightarrow>
     (\<forall>l \<in> set (sp_listeners s). \<forall>x \<in> set (sp_sites s). served_by s l x \<longrightarrow> site_orderable x)"
proof -
  have "(\<exists>lp. compile_listener s l = Some lp) \<longleftrightarrow> (\<forall>x \<in> set (sp_sites s). served_by s l x \<longrightarrow> site_orderable x)" for l
    using those_map_total [of compile_site "filter (served_by s l) (sp_sites s)"]
    by (auto simp: compile_listener_def compile_site_orderable)
  then have "(\<exists>lps. those (map (compile_listener s) (sp_listeners s)) = Some lps) \<longleftrightarrow>
      (\<forall>l \<in> set (sp_listeners s). \<forall>x \<in> set (sp_sites s). served_by s l x \<longrightarrow> site_orderable x)"
    unfolding those_map_total by simp
  then show ?thesis by (auto simp: compile_def Let_def)
qed

lemma compile_total:
  assumes "\<forall>x \<in> set (sp_sites s). site_orderable x"
  shows "\<exists>p. compile digest ops reg s = Some p"
  unfolding compile_succeeds_iff using assms by blast

subsection \<open>Properties\<close>

text \<open>
  C29: a specification compiles exactly if the directives of every site that a listener serves can be
  ordered, for its fallback and for each of its routes: then none of the plan's \<open>expect\<close>s fires, and
  otherwise one does. The plan has the listeners of the specification in their order; each has exactly
  the sites it serves; each site has its routes in their order, with their matchers and terminals; and
  every chain is an order of the directives declared for the site and the route that satisfies all of
  their constraints.
\<close>

theorem compile_exact:
  "((\<exists>p. compile digest ops reg s = Some p) \<longleftrightarrow>
      (\<forall>l \<in> set (sp_listeners s). \<forall>x \<in> set (sp_sites s). served_by s l x \<longrightarrow> site_orderable x)) \<and>
   (\<forall>p. compile digest ops reg s = Some p \<longrightarrow> map lpl_listener (pl_listeners p) = sp_listeners s \<and>
      (\<forall>lp \<in> set (pl_listeners p). \<exists>ys. mset (lpl_sites lp) = mset ys \<and>
         list_all2 site_planned (filter (served_by s (lpl_listener lp)) (sp_sites s)) ys))"
proof (intro conjI allI impI ballI)
  show "(\<exists>p. compile digest ops reg s = Some p) \<longleftrightarrow>
      (\<forall>l \<in> set (sp_listeners s). \<forall>x \<in> set (sp_sites s). served_by s l x \<longrightarrow> site_orderable x)"
    by (rule compile_succeeds_iff)
next
  fix p
  assume "compile digest ops reg s = Some p"
  from compile_listeners(1) [OF this] have l: "length (sp_listeners s) = length (pl_listeners p)"
      "\<And>i. i < length (pl_listeners p) \<Longrightarrow> compile_listener s (sp_listeners s ! i) = Some (pl_listeners p ! i)"
    unfolding those_map_Some by auto
  then have at: "lpl_listener (pl_listeners p ! i) = sp_listeners s ! i" if "i < length (pl_listeners p)" for i
    using l(2) [OF that] by (auto simp: compile_listener_def dest: arg_cong [where f = lpl_listener] sym)
  then show "map lpl_listener (pl_listeners p) = sp_listeners s" using l(1) by (intro nth_equalityI) auto
  fix lp
  assume "lp \<in> set (pl_listeners p)"
  then obtain i where i: "i < length (pl_listeners p)" "lp = pl_listeners p ! i" by (auto simp: in_set_conv_nth)
  with l(2) [of i] at [of i] have "compile_listener s (lpl_listener lp) = Some lp" by simp
  then obtain ys where ys: "those (map compile_site (filter (served_by s (lpl_listener lp)) (sp_sites s))) = Some ys"
    "lpl_sites lp = sort_key site_plan_key ys" unfolding compile_listener_def by (auto dest: arg_cong [where f = lpl_sites] sym)
  have "list_all2 site_planned (filter (served_by s (lpl_listener lp)) (sp_sites s)) ys"
    using ys(1) unfolding those_map_Some list_all2_conv_all_nth using compile_site_planned by blast
  then show "\<exists>ys. mset (lpl_sites lp) = mset ys \<and> list_all2 site_planned (filter (served_by s (lpl_listener lp)) (sp_sites s)) ys"
    using ys(2) by (intro exI [of _ ys]) simp
qed

text \<open>
  C22: the site a listener picks for a host matches it, was configured for that listener, and no other
  site of the listener that matches has a more specific host.
\<close>

theorem site_for_most_specific:
  assumes "compile digest ops reg s = Some p" "lp \<in> set (pl_listeners p)" "site_for lp host = Some y"
  shows "host_matches (spl_host y) host \<and>
    (\<exists>x \<in> set (sp_sites s). served_by s (lpl_listener lp) x \<and> compile_site x = Some y) \<and>
    (\<forall>x \<in> set (sp_sites s). served_by s (lpl_listener lp) x \<and> host_matches (si_host x) host \<longrightarrow>
       host_specificity (si_host x) \<le> host_specificity (spl_host y))"
proof -
  obtain l where "compile_listener s l = Some lp"
    using compile_listeners(1) [OF assms(1)] assms(2) those_map_set by blast
  then obtain sites where lp: "lpl_sites lp = sort_key site_plan_key sites" "lpl_listener lp = l"
    and sites: "set sites = {y. \<exists>x \<in> set (sp_sites s). served_by s l x \<and> compile_site x = Some y}"
    by (rule compile_listener_sites)
  have f: "find (\<lambda>z. host_matches (spl_host z) host) (sort_key site_plan_key sites) = Some y"
    using assms(3) lp(1) by (simp add: site_for_def)
  have y: "host_matches (spl_host y) host" "y \<in> set sites" using find_member [OF f] by simp_all
  have least: "host_specificity (spl_host z) \<le> host_specificity (spl_host y)"
    if "z \<in> set sites" "host_matches (spl_host z) host" for z
    by (rule site_plan_key_le) (rule find_sorted_least [OF f that])
  have all: "\<exists>z. compile_site x = Some z" if "x \<in> set (sp_sites s)" "served_by s l x" for x
    using \<open>compile_listener s l = Some lp\<close> that those_map_total [of compile_site "filter (served_by s l) (sp_sites s)"]
    by (auto simp: compile_listener_def)
  have "host_specificity (si_host x) \<le> host_specificity (spl_host y)"
    if x: "x \<in> set (sp_sites s)" "served_by s l x" "host_matches (si_host x) host" for x
  proof -
    obtain z where z: "compile_site x = Some z" using all x(1,2) by blast
    then have "z \<in> set sites" using sites x(1,2) by blast
    with least compile_site_fields [OF z] x(3) show ?thesis by metis
  qed
  moreover have "\<exists>x \<in> set (sp_sites s). served_by s l x \<and> compile_site x = Some y" using y(2) sites by blast
  ultimately show ?thesis using y(1) lp(2) by blast
qed

definition sample_site :: "bytes \<Rightarrow> host_match \<Rightarrow> unit site" where
  "sample_site name host =
     \<lparr>si_id = resource_new SiteKind name, si_owner = source_file ''main'', si_host = host, si_listeners = [],
      si_tls = None, si_directives = sample_chain, si_routes = []\<rparr>"

definition sample_spec :: "global \<Rightarrow> unit spec" where
  "sample_spec g =
     \<lparr>sp_global = g,
      sp_listeners = [\<lparr>li_id = resource_new ListenerKind ''http'', li_owner = source_file ''main'',
        li_name = ''http'', li_bind = (V4 [0, 0, 0, 0], 80), li_protocol = Http, li_proxy_protocol = False\<rparr>],
      sp_sites = [sample_site ''wild'' (HostSuffix ''.a''), sample_site ''exact'' (HostExact ''x.a'')],
      sp_upstreams = []\<rparr>"

definition no_config :: "unit config_ops" where
  "no_config = \<lparr>cfg_hash = \<lambda>c h. h, cfg_state = \<lambda>c. None\<rparr>"

lemma sample_spec_composes: "\<forall>x \<in> set (sp_sites (sample_spec g)). site_orderable x"
proof -
  have "case order_chain sample_chain of Inl _ \<Rightarrow> False | Inr _ \<Rightarrow> True" by code_simp
  then have "\<exists>out. order_chain sample_chain = Inr out" by (auto split: sum.splits)
  then have "orderable sample_chain" unfolding order_chain_orderable .
  then show ?thesis by (simp add: sample_spec_def sample_site_def site_orderable_def)
qed

theorem compile_exact_witness:
  "\<exists>p. compile rev no_config \<lparr>reg_directives = [], reg_bundles = []\<rparr> (sample_spec global_default) = Some p \<and>
     map lpl_listener (pl_listeners p) = sp_listeners (sample_spec global_default)"
  using compile_exact [of rev no_config "\<lparr>reg_directives = [], reg_bundles = []\<rparr>" "sample_spec global_default"] sample_spec_composes [of global_default]
  by blast

theorem site_for_most_specific_witness:
  "\<exists>p lp y. compile rev no_config \<lparr>reg_directives = [], reg_bundles = []\<rparr> (sample_spec global_default) = Some p \<and>
     lp \<in> set (pl_listeners p) \<and> site_for lp ''X.A'' = Some y \<and> spl_id y = resource_new SiteKind ''exact'' \<and>
     host_matches (spl_host y) ''X.A''"
proof -
  obtain p where p: "compile rev no_config \<lparr>reg_directives = [], reg_bundles = []\<rparr> (sample_spec global_default) = Some p"
    using compile_total [OF sample_spec_composes] by blast
  have "case those (map (compile_listener (sample_spec g)) (sp_listeners (sample_spec g))) of
      Some [lp] \<Rightarrow> (case site_for lp ''X.A'' of Some y \<Rightarrow> spl_id y = resource_new SiteKind ''exact'' | None \<Rightarrow> False)
    | _ \<Rightarrow> False" for g by code_simp
  from this [of global_default] obtain lp y where "pl_listeners p = [lp]" "site_for lp ''X.A'' = Some y"
      "spl_id y = resource_new SiteKind ''exact''"
    using compile_listeners(1) [OF p] by (auto split: option.splits list.splits)
  moreover from this have "host_matches (spl_host y) ''X.A''" using site_for_most_specific [OF p, of lp "''X.A''" y] by simp
  ultimately show ?thesis using p by force
qed

text \<open>
  how a plan's state relates to what runs is a complete decision: every wanted binding gets exactly
  one change, reuse happens exactly for a preserved binding whose running instance is compatible, and
  exactly the running bindings whose slot nothing wants are retired.
\<close>

theorem diff_bindings_complete:
  assumes "\<And>a b. a \<in> set running \<Longrightarrow> b \<in> set running \<Longrightarrow> same_slot a b \<Longrightarrow> a = b"
  shows "length (diff_bindings running wanted) =
      length wanted + length (filter (\<lambda>b. \<forall>c \<in> set wanted. \<not> same_slot c b) running) \<and>
    (ReuseState b \<in> set (diff_bindings running wanted) \<longleftrightarrow>
       b \<in> set wanted \<and> sb_policy b = Preserve \<and>
       (\<exists>a \<in> set running. same_slot a b \<and> sb_compatibility a = sb_compatibility b)) \<and>
    (CreateState b \<in> set (diff_bindings running wanted) \<longleftrightarrow>
       b \<in> set wanted \<and> (\<forall>a \<in> set running. \<not> same_slot a b)) \<and>
    (RetireState b \<in> set (diff_bindings running wanted) \<longleftrightarrow>
       b \<in> set running \<and> (\<forall>c \<in> set wanted. \<not> same_slot c b))"
proof -
  have slot: "find (\<lambda>c. same_slot c b) running = Some a \<longleftrightarrow> a \<in> set running \<and> same_slot a b" for a b
  proof
    assume r: "a \<in> set running \<and> same_slot a b"
    then obtain c where "find (\<lambda>c. same_slot c b) running = Some c"
      by (cases "find (\<lambda>c. same_slot c b) running") (auto simp: find_None_iff)
    moreover from find_member [OF this] r have "c = a" using assms by (auto simp: same_slot_def)
    ultimately show "find (\<lambda>c. same_slot c b) running = Some a" by simp
  qed (auto dest: find_member)
  have none: "find (\<lambda>c. same_slot c b) running = None \<longleftrightarrow> (\<forall>a \<in> set running. \<not> same_slot a b)" for b
    by (auto simp: find_None_iff)
  have P: "sb_policy b = Preserve \<longleftrightarrow> sb_policy b \<noteq> Reset" for b by (cases "sb_policy b") auto
  have reuse: "ReuseState d = change_for running b \<longleftrightarrow> d = b \<and> sb_policy b = Preserve \<and>
      (\<exists>a \<in> set running. same_slot a b \<and> sb_compatibility a = sb_compatibility b)" for b d
  proof (cases "find (\<lambda>c. same_slot c b) running")
    case None
    then show ?thesis using none [of b] by (auto simp: change_for_def)
  next
    case (Some a)
    have "c = a" if "c \<in> set running" "same_slot c b" for c using slot [of b c] Some that by simp
    with Some slot [of b a] P [of b] show ?thesis by (auto simp: change_for_def)
  qed
  have create: "CreateState d = change_for running b \<longleftrightarrow> d = b \<and> (\<forall>a \<in> set running. \<not> same_slot a b)" for b d
    using none [of b] by (auto simp: change_for_def split: option.splits)
  have retire: "RetireState d \<noteq> change_for running b" for b d
    by (auto simp: change_for_def split: option.splits)
  have all: "set (diff_bindings running wanted) = change_for running ` set wanted \<union>
      RetireState ` {b \<in> set running. \<forall>c \<in> set wanted. \<not> same_slot c b}"
    by (auto simp: diff_bindings_def list_ex_iff)
  have "length (diff_bindings running wanted) =
      length wanted + length (filter (\<lambda>b. \<forall>c \<in> set wanted. \<not> same_slot c b) running)"
    by (simp add: diff_bindings_def list_ex_iff)
  moreover have "ReuseState b \<in> set (diff_bindings running wanted) \<longleftrightarrow> b \<in> set wanted \<and> sb_policy b = Preserve \<and>
      (\<exists>a \<in> set running. same_slot a b \<and> sb_compatibility a = sb_compatibility b)"
    unfolding all Un_iff image_iff reuse by blast
  moreover have "CreateState b \<in> set (diff_bindings running wanted) \<longleftrightarrow>
      b \<in> set wanted \<and> (\<forall>a \<in> set running. \<not> same_slot a b)"
    unfolding all Un_iff image_iff create by blast
  moreover have "RetireState b \<in> set (diff_bindings running wanted) \<longleftrightarrow>
      b \<in> set running \<and> (\<forall>c \<in> set wanted. \<not> same_slot c b)"
    unfolding all Un_iff image_iff using retire by blast
  ultimately show ?thesis by blast
qed

theorem diff_bindings_complete_witness:
  "ReuseState (preserving (resource_new UpstreamKind ''u'') PoolState ''f'')
     \<in> set (diff_bindings [preserving (resource_new UpstreamKind ''u'') PoolState ''f'']
            [preserving (resource_new UpstreamKind ''u'') PoolState ''f''])"
  using diff_bindings_complete [of "[preserving (resource_new UpstreamKind ''u'') PoolState ''f'']"
      "[preserving (resource_new UpstreamKind ''u'') PoolState ''f'']"
      "preserving (resource_new UpstreamKind ''u'') PoolState ''f''"]
  by (auto simp: preserving_def same_slot_def)

lemma upstream_bindings_policy:
  "upstream_bindings digest (u\<lparr>up_pool := p, up_timeouts := t, up_retry := r, up_resolve := v\<rparr>) =
     upstream_bindings digest u"
  by (auto simp: upstream_bindings_def transport_fingerprint_def Let_def)

text \<open>
  resizing an upstream's pool, its deadlines, its retry policy or its resolver never changes a state
  binding, so such a change reuses every pool, balancer and health table: it cannot tear down live
  connections.
\<close>

theorem bindings_ignore_pool_size:
  "collect_bindings digest ops
     (s\<lparr>sp_upstreams := map (\<lambda>u. u\<lparr>up_pool := p u, up_timeouts := t u, up_retry := r u, up_resolve := v u\<rparr>)
        (sp_upstreams s)\<rparr>) = collect_bindings digest ops s"
  by (simp add: collect_bindings_def o_def upstream_bindings_policy)

lemma site_hash_automatic:
  "site_hash_into digest ops (x\<lparr>si_tls := map_option (\<lambda>t. t\<lparr>tls_automatic := f t\<rparr>) (si_tls x)\<rparr>) h =
     site_hash_into digest ops x h"
  by (cases "si_tls x") (simp_all add: site_hash_into_def hash_opt_def site_tls_hash_into_def)

text \<open>
  the fingerprint of a specification does not depend on the order in which listeners, sites,
  upstreams or trusted proxies are declared, nor on whether a development certificate was inferred or
  asked for.
\<close>

theorem spec_fingerprint_declaration_order:
  assumes "mset ls = mset (sp_listeners s)" "mset us = mset (sp_upstreams s)"
    and "mset xs = mset (map (\<lambda>x. x\<lparr>si_tls := map_option (\<lambda>t. t\<lparr>tls_automatic := f t\<rparr>) (si_tls x)\<rparr>) (sp_sites s))"
    and "mset ps = mset (gl_trusted_proxies (sp_global s))"
  shows "spec_fingerprint digest ops
      \<lparr>sp_global = (sp_global s)\<lparr>gl_trusted_proxies := ps\<rparr>, sp_listeners = ls, sp_sites = xs, sp_upstreams = us\<rparr> =
    spec_fingerprint digest ops s"
proof -
  let ?f = "\<lambda>x h. site_hash_into digest ops x (update_str (source_text (si_owner x)) h)"
  have "update_unordered digest xs ?f h = update_unordered digest (sp_sites s) ?f h" for h
    unfolding update_unordered_mset [OF assms(3)]
    by (simp add: update_unordered_def item_digests_def o_def site_hash_automatic)
  moreover have "global_hash_into digest ((sp_global s)\<lparr>gl_trusted_proxies := ps\<rparr>) h =
      global_hash_into digest (sp_global s) h" for h
    by (simp add: global_hash_into_def update_unordered_mset [OF assms(4)])
  ultimately show ?thesis
    by (simp add: spec_fingerprint_def update_unordered_mset [OF assms(1)] update_unordered_mset [OF assms(2)])
qed

theorem spec_fingerprint_declaration_order_witness:
  "spec_fingerprint rev no_config
     ((sample_spec global_default)\<lparr>sp_sites := rev (sp_sites (sample_spec global_default))\<rparr>) =
   spec_fingerprint rev no_config (sample_spec global_default)"
  using spec_fingerprint_declaration_order [of "sp_listeners (sample_spec global_default)" "sample_spec global_default"
      "sp_upstreams (sample_spec global_default)" "rev (sp_sites (sample_spec global_default))" tls_automatic
      "gl_trusted_proxies (sp_global (sample_spec global_default))" rev no_config]
  by (simp add: sample_spec_def sample_site_def global_default_def)

end
