(* ===== verification/Endpoints.thy ===== *)
theory Endpoints
  imports Upstreams
begin

text \<open>
  The backends of one upstream and what is believed about them (\<open>gatel-state/src/endpoint.rs\<close>).

  Instants and durations are nanoseconds on one monotonic clock, passed in where the code reads the
  clock. Counters have the width of the atomics that hold them and wrap. Every operation is one atomic
  step of the model; the \<open>inductive\<close> relation \<open>set_step\<close> interleaves them in any order.
\<close>

subsection \<open>Backends\<close>

datatype belief = Unknown | Healthy | Unhealthy | Draining

fun belief_as_u8 :: "belief \<Rightarrow> nat" where
  "belief_as_u8 Unknown = 0"
| "belief_as_u8 Healthy = 1"
| "belief_as_u8 Unhealthy = 2"
| "belief_as_u8 Draining = 3"

definition belief_from_u8 :: "nat \<Rightarrow> belief" where
  "belief_from_u8 v =
     (if v = 1 then Healthy else if v = 2 then Unhealthy else if v = 3 then Draining else Unknown)"

lemma belief_roundtrip: "belief_from_u8 (belief_as_u8 b) = b"
  by (cases b) (simp_all add: belief_from_u8_def)

definition wrap32 :: "nat \<Rightarrow> nat" where
  "wrap32 n = n mod 2 ^ 32"

definition wrap64 :: "nat \<Rightarrow> nat" where
  "wrap64 n = n mod 2 ^ 64"

record backend =
  be_id :: bytes
  be_target :: target
  be_weight :: nat
  be_priority :: int
  be_in_flight :: nat
  be_health :: belief
  be_consecutive_ok :: nat
  be_consecutive_fail :: nat
  be_passive_fails :: nat
  be_window_started :: "nat option"
  be_ejected_until :: "nat option"
  be_current_weight :: int
  be_addresses :: "socket_addr list"
  be_rotation :: nat
  be_failing :: nat

definition backend_new :: "endpoint \<Rightarrow> bool \<Rightarrow> backend" where
  "backend_new spec probed =
     \<lparr>be_id = ep_id spec, be_target = ep_target spec, be_weight = ep_weight spec,
      be_priority = ep_priority spec, be_in_flight = 0,
      be_health = (if probed then Unknown else Healthy),
      be_consecutive_ok = 0, be_consecutive_fail = 0, be_passive_fails = 0,
      be_window_started = None, be_ejected_until = None, be_current_weight = 0,
      be_addresses = (case ep_target spec of TargetAddress a \<Rightarrow> [a] | _ \<Rightarrow> []),
      be_rotation = 0, be_failing = 0\<rparr>"

definition dial_order :: "backend \<Rightarrow> socket_addr list \<times> backend" where
  "dial_order b =
     (let addresses = be_addresses b in
      if length addresses < 2 then (addresses, b)
      else
        (let start = be_rotation b mod length addresses in
         (drop start addresses @ take start addresses,
          b\<lparr>be_rotation := wrap64 (be_rotation b + 1)\<rparr>)))"

text \<open>The change a fresh answer makes, as the addresses before and now.\<close>

definition set_addresses ::
  "socket_addr list \<Rightarrow> backend \<Rightarrow> (socket_addr list \<times> socket_addr list) option \<times> backend" where
  "set_addresses addresses b =
     (let b = b\<lparr>be_failing := 0\<rparr> in
      if be_addresses b = addresses then (None, b)
      else (Some (be_addresses b, addresses), b\<lparr>be_addresses := addresses\<rparr>))"

definition record_resolve_failure :: "backend \<Rightarrow> bool \<times> backend" where
  "record_resolve_failure b = (be_failing b = 0, b\<lparr>be_failing := wrap32 (be_failing b + 1)\<rparr>)"

definition is_unresolved :: "backend \<Rightarrow> bool" where
  "is_unresolved b \<longleftrightarrow> be_addresses b = []"

definition is_ejected :: "nat \<Rightarrow> backend \<Rightarrow> bool \<times> backend" where
  "is_ejected now b =
     (case be_ejected_until b of
        None \<Rightarrow> (False, b)
      | Some until \<Rightarrow>
          if now < until then (True, b)
          else (False, b\<lparr>be_ejected_until := None, be_passive_fails := 0\<rparr>))"

definition is_eligible :: "nat \<Rightarrow> backend \<Rightarrow> bool \<times> backend" where
  "is_eligible now b =
     (if be_health b = Healthy \<or> be_health b = Unknown then
        (case is_ejected now b of (ejected, b2) \<Rightarrow> (\<not> ejected, b2))
      else (False, b))"

subsection \<open>The set\<close>

record endpoint_set =
  es_endpoints :: "backend list"
  es_passive :: "passive_health option"
  es_active :: "health option"

definition endpoint_set_new :: "upstream \<Rightarrow> endpoint_set" where
  "endpoint_set_new u =
     \<lparr>es_endpoints = map (\<lambda>spec. backend_new spec (up_health u \<noteq> None)) (up_endpoints u),
      es_passive = up_passive_health u, es_active = up_health u\<rparr>"

definition es_get :: "bytes \<Rightarrow> endpoint_set \<Rightarrow> backend option" where
  "es_get i s = find (\<lambda>b. be_id b = i) (es_endpoints s)"

text \<open>Writing through the shared reference that \<open>get\<close> returns.\<close>

fun update_first :: "('a \<Rightarrow> bool) \<Rightarrow> ('a \<Rightarrow> 'a) \<Rightarrow> 'a list \<Rightarrow> 'a list" where
  "update_first P f [] = []"
| "update_first P f (x # xs) = (if P x then f x # xs else x # update_first P f xs)"

definition es_put :: "bytes \<Rightarrow> (backend \<Rightarrow> backend) \<Rightarrow> endpoint_set \<Rightarrow> endpoint_set" where
  "es_put i f s = s\<lparr>es_endpoints := update_first (\<lambda>b. be_id b = i) f (es_endpoints s)\<rparr>"

definition eligible :: "nat \<Rightarrow> endpoint_set \<Rightarrow> backend list \<times> endpoint_set" where
  "eligible now s =
     (let checked = map (is_eligible now) (es_endpoints s) in
      (map snd (filter fst checked), s\<lparr>es_endpoints := map snd checked\<rparr>))"

definition es_in_flight :: "endpoint_set \<Rightarrow> nat" where
  "es_in_flight s = sum_list (map be_in_flight (es_endpoints s))"

definition claim :: "bytes \<Rightarrow> endpoint_set \<Rightarrow> endpoint_set" where
  "claim i s = es_put i (\<lambda>b. b\<lparr>be_in_flight := wrap64 (be_in_flight b + 1)\<rparr>) s"

text \<open>Dropping the guard: \<open>fetch_sub(1)\<close>.\<close>

definition release :: "bytes \<Rightarrow> endpoint_set \<Rightarrow> endpoint_set" where
  "release i s = es_put i (\<lambda>b. b\<lparr>be_in_flight := wrap64 (be_in_flight b + (2 ^ 64 - 1))\<rparr>) s"

definition probe_backend :: "health \<Rightarrow> bool \<Rightarrow> backend \<Rightarrow> backend" where
  "probe_backend policy success b =
     (if success then
        (let streak = wrap32 (be_consecutive_ok b + 1);
             b = b\<lparr>be_consecutive_fail := 0, be_consecutive_ok := streak\<rparr> in
         if healthy_threshold policy \<le> streak then
           b\<lparr>be_health := Healthy, be_ejected_until := None, be_passive_fails := 0\<rparr>
         else b)
      else
        (let streak = wrap32 (be_consecutive_fail b + 1);
             b = b\<lparr>be_consecutive_ok := 0, be_consecutive_fail := streak\<rparr> in
         if unhealthy_threshold policy \<le> streak then b\<lparr>be_health := Unhealthy\<rparr> else b))"

definition report_probe :: "bytes \<Rightarrow> bool \<Rightarrow> endpoint_set \<Rightarrow> belief option \<times> endpoint_set" where
  "report_probe i success s =
     (case es_get i s of
        None \<Rightarrow> (None, s)
      | Some b \<Rightarrow>
          (case es_active s of
             None \<Rightarrow> (None, s)
           | Some policy \<Rightarrow>
               (let after = be_health (probe_backend policy success b) in
                (if be_health b \<noteq> after then Some after else None,
                 es_put i (probe_backend policy success) s))))"

definition traffic_failure :: "passive_health \<Rightarrow> nat \<Rightarrow> backend \<Rightarrow> bool \<times> backend" where
  "traffic_failure policy now b =
     (let b = (case be_window_started b of
            Some started \<Rightarrow>
              if now - started < ph_window policy then b
              else b\<lparr>be_window_started := Some now, be_passive_fails := 0\<rparr>
          | None \<Rightarrow> b\<lparr>be_window_started := Some now, be_passive_fails := 0\<rparr>);
          fails = wrap32 (be_passive_fails b + 1);
          b = b\<lparr>be_passive_fails := fails\<rparr> in
      if max_fails policy \<le> fails \<and> be_ejected_until b = None
      then (True, b\<lparr>be_ejected_until := Some (now + ph_cooldown policy)\<rparr>)
      else (False, b))"

definition report_traffic :: "bytes \<Rightarrow> bool \<Rightarrow> nat \<Rightarrow> endpoint_set \<Rightarrow> bool \<times> endpoint_set" where
  "report_traffic i failed now s =
     (case es_passive s of
        None \<Rightarrow> (False, s)
      | Some policy \<Rightarrow>
          (case es_get i s of
             None \<Rightarrow> (False, s)
           | Some b \<Rightarrow>
               if \<not> failed then (False, s)
               else (fst (traffic_failure policy now b),
                     es_put i (\<lambda>b. snd (traffic_failure policy now b)) s)))"

definition counts_as_failure :: "nat \<Rightarrow> endpoint_set \<Rightarrow> bool" where
  "counts_as_failure status s =
     (case es_passive s of None \<Rightarrow> False | Some policy \<Rightarrow> status \<in> set (unhealthy_status policy))"

definition drain :: "bytes \<Rightarrow> endpoint_set \<Rightarrow> bool \<times> endpoint_set" where
  "drain i s =
     (case es_get i s of
        None \<Rightarrow> (False, s)
      | Some _ \<Rightarrow> (True, es_put i (\<lambda>b. b\<lparr>be_health := Draining\<rparr>) s))"

definition undrain :: "bytes \<Rightarrow> endpoint_set \<Rightarrow> bool \<times> endpoint_set" where
  "undrain i s =
     (case es_get i s of
        None \<Rightarrow> (False, s)
      | Some b \<Rightarrow>
          if be_health b = Draining then
            (True, es_put i (\<lambda>b. b\<lparr>be_health := (if es_active s \<noteq> None then Unknown else Healthy),
               be_consecutive_ok := 0, be_consecutive_fail := 0\<rparr>) s)
          else (False, s))"

text \<open>
  The delay before the next probe, in nanoseconds; \<open>None\<close> where the subtraction of durations underflows
  and panics.
\<close>

definition probe_delay :: "health \<Rightarrow> nat \<Rightarrow> nat \<Rightarrow> nat option" where
  "probe_delay policy index tick =
     (if health_jitter policy = 0 then Some (health_interval policy)
      else
        (let spread = wrap64 (health_jitter policy div 1000000);
             offset = wrap64 (wrap64 (index * 2654435761) + tick) mod wrap64 (spread * 2 + 1);
             total = health_interval policy + offset * 1000000 in
         if health_jitter policy \<le> total then Some (total - health_jitter policy) else None))"

subsection \<open>Interleavings\<close>

text \<open>
  The set together with the in-flight guards that exist, one entry per guard with its endpoint's
  identity. Every operation may run at any time; a guard is dropped at most once, because it is owned.
\<close>

datatype set_op =
    ClaimOp bytes | DropOp bytes | ProbeOp bytes bool | TrafficOp bytes bool nat | DrainOp bytes
  | UndrainOp bytes | EligibleOp nat

inductive set_step :: "endpoint_set \<times> bytes multiset \<Rightarrow> set_op \<Rightarrow> endpoint_set \<times> bytes multiset \<Rightarrow> bool" where
  step_claim: "es_get i s = Some b \<Longrightarrow> set_step (s, g) (ClaimOp i) (claim i s, add_mset i g)"
| step_drop: "i \<in># g \<Longrightarrow> set_step (s, g) (DropOp i) (release i s, g - {#i#})"
| step_probe: "set_step (s, g) (ProbeOp i ok) (snd (report_probe i ok s), g)"
| step_traffic: "set_step (s, g) (TrafficOp i failed now) (snd (report_traffic i failed now s), g)"
| step_drain: "set_step (s, g) (DrainOp i) (snd (drain i s), g)"
| step_undrain: "set_step (s, g) (UndrainOp i) (snd (undrain i s), g)"
| step_eligible: "set_step (s, g) (EligibleOp now) (snd (eligible now s), g)"

inductive set_reachable :: "upstream \<Rightarrow> endpoint_set \<times> bytes multiset \<Rightarrow> bool" for u where
  reach_new: "set_reachable u (endpoint_set_new u, {#})"
| reach_step: "set_reachable u x \<Longrightarrow> set_step x op y \<Longrightarrow> set_reachable u y"

inductive_cases set_step_cases: "set_step x op y"

subsection \<open>Updates through the set\<close>

lemma update_first_map: "(\<And>x. P x \<Longrightarrow> g (f x) = g x) \<Longrightarrow> map g (update_first P f xs) = map g xs"
  by (induction xs) auto

lemma update_first_in:
  "y \<in> set (update_first P f xs) \<Longrightarrow> (\<exists>x \<in> set xs. P x \<and> y = f x) \<or> y \<in> set xs"
  by (induction xs) (auto split: if_splits)

lemma update_first_distinct:
  assumes "distinct (map be_id xs)" "y \<in> set (update_first (\<lambda>b. be_id b = i) f xs)"
    "\<And>x. be_id (f x) = be_id x"
  shows "\<exists>x \<in> set xs. y = (if be_id x = i then f x else x) \<and> be_id y = be_id x"
  using assms
proof (induction xs)
  case (Cons x xs)
  show ?case
  proof (cases "be_id x = i")
    case True
    with Cons.prems have "y = f x \<or> y \<in> set xs" by auto
    moreover have "\<forall>z \<in> set xs. be_id z \<noteq> i" using Cons.prems(1) True by (auto simp: image_iff)
    ultimately show ?thesis using True Cons.prems(3) by auto
  next
    case False
    with Cons.prems(2) consider "y = x" | "y \<in> set (update_first (\<lambda>b. be_id b = i) f xs)" by auto
    then show ?thesis
    proof cases
      case 1
      with False show ?thesis by simp
    next
      case 2
      from Cons.IH [OF _ 2] Cons.prems(1,3) show ?thesis by simp
    qed
  qed
qed simp

lemma es_get_put:
  assumes "\<And>x. be_id (f x) = be_id x"
  shows "es_get i (es_put j f s) = (if i = j then map_option f (es_get i s) else es_get i s)"
proof -
  have "find (\<lambda>b. be_id b = i) (update_first (\<lambda>b. be_id b = j) f xs) =
      (if i = j then map_option f (find (\<lambda>b. be_id b = i) xs) else find (\<lambda>b. be_id b = i) xs)" for xs
    using assms by (induction xs) auto
  then show ?thesis by (simp add: es_get_def es_put_def)
qed

lemma es_get_id: "es_get i s = Some b \<Longrightarrow> be_id b = i \<and> b \<in> set (es_endpoints s)"
  unfolding es_get_def by (induction "es_endpoints s" arbitrary: s) (auto simp: find_Some_iff)

lemma probe_backend_id [simp]: "be_id (probe_backend p ok b) = be_id b"
  "be_in_flight (probe_backend p ok b) = be_in_flight b"
  by (simp_all add: probe_backend_def Let_def)

lemma traffic_failure_id [simp]: "be_id (snd (traffic_failure p now b)) = be_id b"
  "be_in_flight (snd (traffic_failure p now b)) = be_in_flight b"
  by (simp_all add: traffic_failure_def Let_def split: option.splits)

lemma is_eligible_id [simp]: "be_id (snd (is_eligible now b)) = be_id b"
  "be_in_flight (snd (is_eligible now b)) = be_in_flight b"
  by (simp_all add: is_eligible_def is_ejected_def split: option.splits)

subsection \<open>Guards and counters\<close>

text \<open>
  What the interleaving keeps: the identities of the plan in order, and on each backend a counter that
  is the number of live guards for it, modulo the width of the counter.
\<close>

definition guard_inv :: "upstream \<Rightarrow> endpoint_set \<times> bytes multiset \<Rightarrow> bool" where
  "guard_inv u x \<longleftrightarrow>
     map be_id (es_endpoints (fst x)) = map ep_id (up_endpoints u) \<and>
     (\<forall>b \<in> set (es_endpoints (fst x)). be_in_flight b = wrap64 (count (snd x) (be_id b))) \<and>
     set_mset (snd x) \<subseteq> ep_id ` set (up_endpoints u)"

lemma guard_inv_quiet:
  assumes "guard_inv u (s, g)" "\<And>x. be_id (f x) = be_id x \<and> be_in_flight (f x) = be_in_flight x"
  shows "guard_inv u (es_put i f s, g)"
  using assms unfolding guard_inv_def es_put_def
  by (auto simp: update_first_map dest!: update_first_in)

lemma guard_inv_count:
  assumes inv: "guard_inv u (s, g)" "distinct (map ep_id (up_endpoints u))"
    and f: "\<And>x. be_id (f x) = be_id x" "\<And>x. be_in_flight x = wrap64 (count g i) \<Longrightarrow> be_in_flight (f x) = wrap64 (count h i)"
    and h: "\<And>j. j \<noteq> i \<Longrightarrow> count h j = count g j" "set_mset h \<subseteq> ep_id ` set (up_endpoints u)"
  shows "guard_inv u (es_put i f s, h)"
proof -
  have ids: "map be_id (es_endpoints s) = map ep_id (up_endpoints u)" using inv(1) by (simp add: guard_inv_def)
  have "be_in_flight y = wrap64 (count h (be_id y))"
    if y: "y \<in> set (update_first (\<lambda>b. be_id b = i) f (es_endpoints s))" for y
  proof -
    obtain x where "x \<in> set (es_endpoints s)" "y = (if be_id x = i then f x else x)" "be_id y = be_id x"
      using update_first_distinct [OF _ y f(1)] inv(2) ids by auto
    then show ?thesis using inv(1) f(2) h(1) by (auto simp: guard_inv_def)
  qed
  then show ?thesis using ids f(1) h(2) by (simp add: guard_inv_def es_put_def update_first_map)
qed

lemma wrap64_down: "0 < n \<Longrightarrow> wrap64 (wrap64 n + (2 ^ 64 - 1)) = wrap64 (n - 1)"
  unfolding wrap64_def by (cases n) (simp_all add: mod_simps)

lemma guard_inv_step:
  assumes "set_step x op y" "guard_inv u x" "distinct (map ep_id (up_endpoints u))"
  shows "guard_inv u y"
  using assms
proof (induction rule: set_step.induct)
  case (step_claim i s b g)
  have "be_id ` set (es_endpoints s) = ep_id ` set (up_endpoints u)"
    using step_claim.prems(1) unfolding guard_inv_def by (metis fst_conv list.set_map)
  then have "i \<in> ep_id ` set (up_endpoints u)" using es_get_id [OF step_claim.hyps] by force
  with step_claim.prems show ?case unfolding claim_def
    by (intro guard_inv_count) (auto simp: wrap64_def mod_simps guard_inv_def)
next
  case (step_drop i g s)
  then have "wrap64 (wrap64 (count g i) + (2 ^ 64 - 1)) = wrap64 (count g i - 1)" by (intro wrap64_down) simp
  with step_drop.prems show ?case unfolding release_def
    by (intro guard_inv_count) (auto simp: guard_inv_def dest: in_diffD)
next
  case (step_probe s g i ok)
  then show ?case using guard_inv_quiet [of u s g]
    by (auto simp: report_probe_def Let_def split: option.splits)
next
  case (step_traffic s g i failed now)
  then show ?case using guard_inv_quiet [of u s g]
    by (auto simp: report_traffic_def Let_def split: option.splits)
next
  case (step_drain s g i)
  then show ?case using guard_inv_quiet [of u s g] by (auto simp: drain_def split: option.splits)
next
  case (step_undrain s g i)
  then show ?case using guard_inv_quiet [of u s g] by (auto simp: undrain_def split: option.splits)
next
  case (step_eligible s g now)
  then show ?case by (auto simp: guard_inv_def eligible_def Let_def o_def)
qed

lemma guard_inv_reachable:
  "set_reachable u x \<Longrightarrow> distinct (map ep_id (up_endpoints u)) \<Longrightarrow> guard_inv u x"
proof (induction rule: set_reachable.induct)
  case reach_new
  then show ?case by (auto simp: guard_inv_def endpoint_set_new_def backend_new_def wrap64_def)
qed (blast intro: guard_inv_step)

subsection \<open>Properties\<close>

text \<open>
  C12: whatever requests, probes, drains and cancellations interleave, a backend's in-flight counter is
  exactly the number of guards that exist for it, so no request is lost or counted twice and the
  upstream's total, the denominator of the retry budget, is the number of live guards.
\<close>

theorem in_flight_counts_guards:
  assumes "set_reachable u (s, g)" "distinct (map ep_id (up_endpoints u))" "size g < 2 ^ 64"
  shows "(\<forall>b \<in> set (es_endpoints s). be_in_flight b = count g (be_id b)) \<and> es_in_flight s = size g"
proof -
  have inv: "guard_inv u (s, g)" by (rule guard_inv_reachable [OF assms(1,2)])
  have lt: "count g i < 2 ^ 64" for i using count_le_size [of g i] assms(3) by (rule le_less_trans)
  have each: "\<forall>b \<in> set (es_endpoints s). be_in_flight b = count g (be_id b)"
    using inv lt unfolding guard_inv_def wrap64_def by (metis fst_conv mod_less snd_conv)
  have ids: "map be_id (es_endpoints s) = map ep_id (up_endpoints u)" using inv by (simp add: guard_inv_def)
  have "es_in_flight s = sum_list (map (\<lambda>b. count g (be_id b)) (es_endpoints s))"
    unfolding es_in_flight_def using each by (simp cong: map_cong)
  also have "\<dots> = sum_list (map (count g) (map be_id (es_endpoints s)))" by (simp add: o_def)
  also have "\<dots> = (\<Sum>i \<in> set (map ep_id (up_endpoints u)). count g i)"
    unfolding ids using assms(2) by (rule sum_list_distinct_conv_sum_set)
  also have "\<dots> = size g"
    using inv unfolding size_multiset_overloaded_eq guard_inv_def
    by (intro sum.mono_neutral_right) (auto simp: not_in_iff)
  finally show ?thesis using each by blast
qed

definition sample_upstream :: "health option \<Rightarrow> upstream" where
  "sample_upstream probe =
     \<lparr>up_id = resource_new UpstreamKind ''api'', up_owner = source_file ''main'',
      up_endpoints = [\<lparr>ep_id = ''a'', ep_target = TargetUnix ''/a'', ep_weight = 1, ep_priority = 0\<rparr>,
        \<lparr>ep_id = ''b'', ep_target = TargetUnix ''/b'', ep_weight = 1, ep_priority = 0\<rparr>],
      up_balance = RoundRobin, up_timeouts = timeouts_default, up_pool = pool_default, up_retry = None,
      up_health = probe, up_passive_health = None, up_protocol = Http1, up_tls = None,
      up_resolve = resolve_default\<rparr>"

theorem in_flight_counts_guards_witness:
  "\<exists>s. set_reachable (sample_upstream None) (s, {#''a''#}) \<and> es_in_flight s = 1"
proof -
  let ?u = "sample_upstream None"
  have "set_reachable ?u (endpoint_set_new ?u, {#})" by (rule reach_new)
  moreover obtain b where "es_get ''a'' (endpoint_set_new ?u) = Some b"
    by (simp add: es_get_def endpoint_set_new_def sample_upstream_def backend_new_def)
  ultimately have r: "set_reachable ?u (claim ''a'' (endpoint_set_new ?u), {#''a''#})"
    using reach_step step_claim by blast
  have "distinct (map ep_id (up_endpoints ?u))" by (simp add: sample_upstream_def)
  with in_flight_counts_guards [OF r] r show ?thesis by auto
qed

lemma is_eligible_iff:
  "fst (is_eligible now b) \<longleftrightarrow> be_health b \<in> {Healthy, Unknown} \<and>
     (\<forall>t. be_ejected_until b = Some t \<longrightarrow> t \<le> now)"
  by (auto simp: is_eligible_def is_ejected_def split: option.splits)

text \<open>
  exactly the backends that are believed usable and are not serving a cooldown are offered to the
  balancer, in the order of the configuration.
\<close>

theorem eligible_iff:
  "map be_id (fst (eligible now s)) =
     map be_id (filter (\<lambda>b. be_health b \<in> {Healthy, Unknown} \<and>
        (case be_ejected_until b of None \<Rightarrow> True | Some t \<Rightarrow> t \<le> now)) (es_endpoints s))"
proof -
  have e: "fst (is_eligible now b) \<longleftrightarrow> be_health b \<in> {Healthy, Unknown} \<and>
      (case be_ejected_until b of None \<Rightarrow> True | Some t \<Rightarrow> t \<le> now)" for b
    unfolding is_eligible_iff by (auto split: option.splits)
  have "map be_id (map snd (filter fst (map (is_eligible now) bs))) =
      map be_id (filter (\<lambda>b. fst (is_eligible now b)) bs)" for bs
    by (induction bs) auto
  then show ?thesis unfolding e by (simp add: eligible_def Let_def)
qed

text \<open>
  an ejection lasts exactly its cooldown: the failure that completes the limit inside the window
  takes the backend out until the cooldown ends, and from then on it is offered again without a probe.
\<close>

theorem ejection_lasts_cooldown:
  assumes "traffic_failure policy now b = (True, b')" "be_health b = Healthy"
  shows "(fst (is_eligible later b') \<longleftrightarrow> now + ph_cooldown policy \<le> later) \<and>
    max_fails policy \<le> be_passive_fails b' \<and> be_window_started b' \<noteq> None"
proof -
  have "be_ejected_until b' = Some (now + ph_cooldown policy)" "be_health b' = Healthy"
    "max_fails policy \<le> be_passive_fails b'" "be_window_started b' \<noteq> None"
    using assms by (auto simp: traffic_failure_def Let_def split: option.splits if_splits)
  then show ?thesis by (simp add: is_eligible_iff)
qed

definition sample_passive :: passive_health where
  "sample_passive = \<lparr>max_fails = 1, ph_window = 30, ph_cooldown = 60, unhealthy_status = [503]\<rparr>"

theorem ejection_lasts_cooldown_witness:
  "\<exists>b'. traffic_failure sample_passive 5
        (backend_new \<lparr>ep_id = ''a'', ep_target = TargetUnix ''/a'', ep_weight = 1, ep_priority = 0\<rparr> False) = (True, b') \<and>
     \<not> fst (is_eligible 64 b') \<and> fst (is_eligible 65 b')"
proof -
  let ?b = "backend_new \<lparr>ep_id = ''a'', ep_target = TargetUnix ''/a'', ep_weight = 1, ep_priority = 0\<rparr> False"
  have f: "fst (traffic_failure sample_passive 5 ?b)"
    by (simp add: traffic_failure_def backend_new_def sample_passive_def wrap32_def)
  then obtain b' where t: "traffic_failure sample_passive 5 ?b = (True, b')"
    by (cases "traffic_failure sample_passive 5 ?b") auto
  have "be_health ?b = Healthy" by (simp add: backend_new_def)
  with ejection_lasts_cooldown [OF t] t show ?thesis by (auto simp: sample_passive_def)
qed

text \<open>
  dialling tries every address exactly once, starting at the position of a counter that every dial
  advances, so successive dials start at successive addresses.
\<close>

theorem dial_order_rotates:
  assumes "2 \<le> length (be_addresses b)"
  shows "mset (fst (dial_order b)) = mset (be_addresses b) \<and>
    hd (fst (dial_order b)) = be_addresses b ! (be_rotation b mod length (be_addresses b)) \<and>
    be_rotation (snd (dial_order b)) = wrap64 (be_rotation b + 1)"
proof -
  let ?k = "be_rotation b mod length (be_addresses b)"
  have k: "?k < length (be_addresses b)" using assms by (intro mod_less_divisor) linarith
  have "mset (drop ?k (be_addresses b) @ take ?k (be_addresses b)) = mset (be_addresses b)"
    by (metis add.commute append_take_drop_id mset_append)
  then show ?thesis using assms k by (simp add: dial_order_def Let_def hd_drop_conv_nth)
qed

definition sample_dial :: backend where
  "sample_dial =
     (backend_new \<lparr>ep_id = ''a'', ep_target = TargetName ''x'' 80, ep_weight = 1, ep_priority = 0\<rparr> False)
       \<lparr>be_addresses := [(V4 [1, 1, 1, 1], 80), (V4 [2, 2, 2, 2], 80)], be_rotation := 4\<rparr>"

theorem dial_order_rotates_witness:
  "length (be_addresses sample_dial) = 2 \<and> hd (fst (dial_order sample_dial)) = (V4 [1, 1, 1, 1], 80)"
proof -
  have l: "length (be_addresses sample_dial) = 2" by (simp add: sample_dial_def)
  then have "hd (fst (dial_order sample_dial)) = be_addresses sample_dial ! (be_rotation sample_dial mod 2)"
    using dial_order_rotates [of sample_dial] by simp
  with l show ?thesis by (simp add: sample_dial_def)
qed

text \<open>
  a drained backend receives no new request, and \<open>undrain\<close> is not the only way back: a streak of
  successful probes also returns it to rotation.
\<close>

theorem probe_undrains:
  assumes "es_get i s = Some b" "es_active s = Some policy" "healthy_threshold policy = 1"
    "be_consecutive_ok b < 2 ^ 32 - 1"
  shows "es_get i (snd (drain i s)) = Some (b\<lparr>be_health := Draining\<rparr>) \<and>
    \<not> fst (is_eligible now (b\<lparr>be_health := Draining\<rparr>)) \<and>
    (\<exists>b2. es_get i (snd (report_probe i True (snd (drain i s)))) = Some b2 \<and>
       be_health b2 = Healthy \<and> fst (is_eligible now b2))"
proof -
  let ?s = "snd (drain i s)" and ?b = "b\<lparr>be_health := Draining\<rparr>"
  have s: "?s = es_put i (\<lambda>b. b\<lparr>be_health := Draining\<rparr>) s" using assms(1) by (simp add: drain_def)
  then have g: "es_get i ?s = Some ?b" "es_active ?s = Some policy"
    using assms(1,2) by (simp add: es_get_put, simp add: es_put_def)
  then have "es_get i (snd (report_probe i True ?s)) = Some (probe_backend policy True ?b)"
    by (simp add: report_probe_def Let_def es_get_put)
  moreover have "be_health (probe_backend policy True ?b) = Healthy" "be_ejected_until (probe_backend policy True ?b) = None"
    using assms(3,4) by (simp_all add: probe_backend_def Let_def wrap32_def)
  ultimately show ?thesis using g(1) by (simp add: is_eligible_iff)
qed

definition tcp_probe :: "nat \<Rightarrow> nat \<Rightarrow> health" where
  "tcp_probe interval jitter =
     \<lparr>health_kind = TcpConnect, health_interval = interval, health_timeout = 1, healthy_threshold = 1,
      unhealthy_threshold = 2, health_jitter = jitter\<rparr>"

theorem probe_undrains_witness:
  "\<exists>b2. es_get ''a'' (snd (report_probe ''a'' True (snd (drain ''a'' (endpoint_set_new (sample_upstream (Some (tcp_probe 5 0)))))))) = Some b2 \<and>
     be_health b2 = Healthy"
proof -
  let ?s = "endpoint_set_new (sample_upstream (Some (tcp_probe 5 0)))"
  obtain b where b: "es_get ''a'' ?s = Some b" "be_consecutive_ok b = 0"
    by (simp add: es_get_def endpoint_set_new_def sample_upstream_def backend_new_def)
  have "es_active ?s = Some (tcp_probe 5 0)" "healthy_threshold (tcp_probe 5 0) = 1"
    by (simp_all add: endpoint_set_new_def sample_upstream_def tcp_probe_def)
  from probe_undrains [OF b(1) this] b(2) show ?thesis by auto
qed

text \<open>
  with a jitter no longer than the interval, the delay before the next probe is within one jitter of
  the interval; with a longer one the subtraction can underflow, which panics.
\<close>

theorem probe_delay_bounds:
  assumes "health_jitter policy \<le> health_interval policy" "health_jitter policy < 1000000 * 2 ^ 63"
  shows "\<exists>d. probe_delay policy index tick = Some d \<and>
    health_interval policy - health_jitter policy \<le> d \<and> d \<le> health_interval policy + health_jitter policy"
proof (cases "health_jitter policy = 0")
  case True
  then show ?thesis by (simp add: probe_delay_def)
next
  case False
  define spread where "spread = health_jitter policy div 1000000"
  have "spread < 2 ^ 63" using assms(2) unfolding spread_def by (intro less_mult_imp_div_less) simp
  then have sp: "wrap64 spread = spread" "wrap64 (spread * 2 + 1) = spread * 2 + 1"
    by (simp_all add: wrap64_def)
  define offset where "offset = wrap64 (wrap64 (index * 2654435761) + tick) mod Suc (spread * 2)"
  have "offset \<le> spread * 2" using mod_less_divisor [of "Suc (spread * 2)"] by (simp add: offset_def less_Suc_eq_le)
  then have o: "offset * 1000000 \<le> 2 * health_jitter policy" by (simp add: spread_def)
  have "probe_delay policy index tick = Some (health_interval policy + offset * 1000000 - health_jitter policy)"
    using assms(1) False sp by (simp add: probe_delay_def Let_def spread_def [symmetric] offset_def [symmetric])
  moreover have "health_interval policy + offset * 1000000 - health_jitter policy \<le> health_interval policy + health_jitter policy"
    using o by linarith
  ultimately show ?thesis by simp
qed

theorem probe_delay_bounds_witness:
  "\<exists>d. probe_delay (tcp_probe 5000000 500000) 1 7 = Some d \<and> d \<le> 5500000"
proof -
  have "health_jitter (tcp_probe 5000000 500000) \<le> health_interval (tcp_probe 5000000 500000)"
    "health_jitter (tcp_probe 5000000 500000) < 1000000 * 2 ^ 63" by (simp_all add: tcp_probe_def)
  from probe_delay_bounds [OF this, of 1 7] show ?thesis by (auto simp: tcp_probe_def)
qed

lemma probe_delay_underflow: "probe_delay (tcp_probe 1000000 2000000) 0 0 = None"
  by (simp add: probe_delay_def tcp_probe_def wrap64_def Let_def)

end
