(* ===== verification/Selector.thy ===== *)
theory Selector
  imports Endpoints
begin

unbundle bit_operations_syntax

text \<open>
  Choosing among eligible backends (\<open>gatel-state/src/selector.rs\<close>) and the retry budget
  (\<open>gatel-state/src/retry.rs\<close>). A choice is the position of the backend in the eligible list; the
  credits that smooth weighted round robin keeps live on the backends and are returned updated.
  Credits are unbounded integers here; their bounds show that the 64-bit atomics never overflow.
\<close>

subsection \<open>State\<close>

record request_key =
  rk_client_ip :: "ip_addr option"
  rk_uri :: bytes
  rk_header :: "bytes option"
  rk_cookie :: "bytes option"

record selector_state =
  se_cursor :: nat
  se_random :: u64

definition next_random :: "selector_state \<Rightarrow> u64 \<times> selector_state" where
  "next_random st =
     (let v = se_random st;
          v = v XOR push_bit 13 v;
          v = v XOR drop_bit 7 v;
          v = v XOR push_bit 17 v in
      (v * 0x2545F4914F6CDD1D, st\<lparr>se_random := v\<rparr>))"

record selection =
  sel_index :: nat
  sel_effective :: bytes
  sel_fell_back :: bool

fun balance_name :: "balance \<Rightarrow> bytes" where
  "balance_name RoundRobin = ''round-robin''"
| "balance_name WeightedRoundRobin = ''weighted-round-robin''"
| "balance_name Random = ''random''"
| "balance_name TwoRandomChoices = ''two-random-choices''"
| "balance_name LeastConn = ''least-conn''"
| "balance_name IpHash = ''ip-hash''"
| "balance_name UriHash = ''uri-hash''"
| "balance_name (HeaderHash _) = ''header-hash''"
| "balance_name (CookieHash _) = ''cookie-hash''"
| "balance_name First = ''first''"

subsection \<open>Strategies\<close>

definition round_robin :: "backend list \<Rightarrow> selector_state \<Rightarrow> nat \<times> selector_state" where
  "round_robin bs st =
     (se_cursor st mod length bs, st\<lparr>se_cursor := wrap64 (se_cursor st + 1)\<rparr>)"

definition add_credit :: "backend \<Rightarrow> backend" where
  "add_credit b = b\<lparr>be_current_weight := be_current_weight b + int (be_weight b)\<rparr>"

text \<open>The scan for the highest credit; the first of several equal ones wins.\<close>

fun highest :: "(nat \<times> int) option \<Rightarrow> nat \<Rightarrow> backend list \<Rightarrow> (nat \<times> int) option" where
  "highest best i [] = best"
| "highest best i (b # bs) =
     highest
       (if (case best of None \<Rightarrow> True | Some (_, top_credit) \<Rightarrow> top_credit < be_current_weight b)
        then Some (i, be_current_weight b) else best)
       (i + 1) bs"

definition total_weight :: "backend list \<Rightarrow> int" where
  "total_weight bs = sum_list (map (\<lambda>b. int (be_weight b)) bs)"

definition weighted_round_robin :: "backend list \<Rightarrow> nat \<times> backend list" where
  "weighted_round_robin bs =
     (let credited = map add_credit bs in
      case highest None 0 credited of
        None \<Rightarrow> (0, credited)
      | Some (i, _) \<Rightarrow>
          (i, credited[i := (credited ! i)
             \<lparr>be_current_weight := be_current_weight (credited ! i) - total_weight bs\<rparr>]))"

definition two_random_choices :: "backend list \<Rightarrow> selector_state \<Rightarrow> nat \<times> selector_state" where
  "two_random_choices bs st =
     (case next_random st of (r1, st1) \<Rightarrow>
       (case next_random st1 of (r2, st2) \<Rightarrow>
         (let first = unat r1 mod length bs;
              second = unat r2 mod length bs;
              second = (if second = first then (second + 1) mod length bs else second) in
          (if be_in_flight (bs ! first) \<le> be_in_flight (bs ! second) then first else second, st2))))"

text \<open>A scan that keeps the best so far, with its position.\<close>

fun scan_best :: "('a \<Rightarrow> 'a \<Rightarrow> bool) \<Rightarrow> 'a \<Rightarrow> nat \<Rightarrow> nat \<Rightarrow> 'a list \<Rightarrow> nat" where
  "scan_best better best best_i i [] = best_i"
| "scan_best better best best_i i (x # xs) =
     (if better x best then scan_best better x i (i + 1) xs else scan_best better best best_i (i + 1) xs)"

definition pick_best :: "('a \<Rightarrow> 'a \<Rightarrow> bool) \<Rightarrow> 'a list \<Rightarrow> nat" where
  "pick_best better xs = scan_best better (xs ! 0) 0 1 (tl xs)"

definition least_conn :: "backend list \<Rightarrow> nat" where
  "least_conn bs =
     pick_best (\<lambda>x best. (be_in_flight x, be_id x) < (be_in_flight best, be_id best)) bs"

definition first_priority :: "backend list \<Rightarrow> nat" where
  "first_priority bs =
     pick_best (\<lambda>x best. (be_priority x, be_id x) < (be_priority best, be_id best)) bs"

definition score :: "bytes \<Rightarrow> bytes \<Rightarrow> u64" where
  "score key endpoint_id =
     foldl (\<lambda>h b. (h XOR of_nat (code b)) * 0x100000001b3) 0xcbf29ce484222325
       (key @ [char_of (0::nat)] @ endpoint_id)"

definition rendezvous :: "backend list \<Rightarrow> bytes \<Rightarrow> nat" where
  "rendezvous bs key =
     pick_best (\<lambda>x best. (score key (be_id best), be_id best) < (score key (be_id x), be_id x)) bs"

definition fallback :: "backend list \<Rightarrow> selector_state \<Rightarrow> selection \<times> selector_state" where
  "fallback bs st =
     (case round_robin bs st of
        (i, st2) \<Rightarrow> (\<lparr>sel_index = i, sel_effective = ''round-robin'', sel_fell_back = True\<rparr>, st2))"

definition hashed :: "balance \<Rightarrow> bytes option \<Rightarrow> backend list \<Rightarrow> selector_state \<Rightarrow> selection \<times> selector_state" where
  "hashed balance key bs st =
     (case key of
        None \<Rightarrow> fallback bs st
      | Some k \<Rightarrow>
          (\<lparr>sel_index = rendezvous bs k, sel_effective = balance_name balance, sel_fell_back = False\<rparr>, st))"

definition select ::
  "balance \<Rightarrow> backend list \<Rightarrow> selector_state \<Rightarrow> request_key \<Rightarrow>
     (selection \<times> selector_state \<times> backend list) option" where
  "select balance bs st key =
     (let chosen = (\<lambda>i. \<lparr>sel_index = i, sel_effective = balance_name balance, sel_fell_back = False\<rparr>) in
      if bs = [] then None
      else if length bs = 1 then Some (chosen 0, st, bs)
      else Some (case balance of
          RoundRobin \<Rightarrow> (case round_robin bs st of (i, st2) \<Rightarrow> (chosen i, st2, bs))
        | WeightedRoundRobin \<Rightarrow> (case weighted_round_robin bs of (i, bs2) \<Rightarrow> (chosen i, st, bs2))
        | Random \<Rightarrow> (case next_random st of (r, st2) \<Rightarrow> (chosen (unat r mod length bs), st2, bs))
        | TwoRandomChoices \<Rightarrow> (case two_random_choices bs st of (i, st2) \<Rightarrow> (chosen i, st2, bs))
        | LeastConn \<Rightarrow> (chosen (least_conn bs), st, bs)
        | First \<Rightarrow> (chosen (first_priority bs), st, bs)
        | IpHash \<Rightarrow>
            (case hashed balance (map_option show_ip (rk_client_ip key)) bs st of (s, st2) \<Rightarrow> (s, st2, bs))
        | UriHash \<Rightarrow> (case hashed balance (Some (rk_uri key)) bs st of (s, st2) \<Rightarrow> (s, st2, bs))
        | HeaderHash _ \<Rightarrow> (case hashed balance (rk_header key) bs st of (s, st2) \<Rightarrow> (s, st2, bs))
        | CookieHash _ \<Rightarrow> (case hashed balance (rk_cookie key) bs st of (s, st2) \<Rightarrow> (s, st2, bs))))"

subsection \<open>The retry budget\<close>

definition retry_floor :: nat where
  "retry_floor = 3"

definition allowed_retries :: "nat \<Rightarrow> nat \<Rightarrow> nat" where
  "allowed_retries in_flight percent = max retry_floor (saturating_mul u64_max in_flight percent div 100)"

text \<open>
  \<open>take\<close> is two atomic operations with other threads between them: a claim (\<open>fetch_add\<close>), and the check
  of the value it returned, which keeps the claim as a permit or gives it back. The state is the shared
  counter, the claims that are not checked yet, as pairs of what the claim returned and what it is
  allowed, and the number of permits held.
\<close>

record retry_budget =
  rb_live :: nat
  rb_pending :: "(nat \<times> nat) multiset"
  rb_permits :: nat

definition retry_budget_new :: retry_budget where
  "retry_budget_new = \<lparr>rb_live = 0, rb_pending = {#}, rb_permits = 0\<rparr>"

definition take_claim :: "nat \<Rightarrow> nat \<Rightarrow> retry_budget \<Rightarrow> retry_budget" where
  "take_claim in_flight percent b =
     (if percent = 0 then b
      else b\<lparr>rb_live := rb_live b + 1,
             rb_pending := add_mset (rb_live b + 1, allowed_retries in_flight percent) (rb_pending b)\<rparr>)"

definition take_check :: "nat \<times> nat \<Rightarrow> retry_budget \<Rightarrow> bool \<times> retry_budget" where
  "take_check c b =
     (let b = b\<lparr>rb_pending := rb_pending b - {#c#}\<rparr> in
      if snd c < fst c then (False, b\<lparr>rb_live := rb_live b - 1\<rparr>)
      else (True, b\<lparr>rb_permits := rb_permits b + 1\<rparr>))"

definition permit_drop :: "retry_budget \<Rightarrow> retry_budget" where
  "permit_drop b = b\<lparr>rb_live := rb_live b - 1, rb_permits := rb_permits b - 1\<rparr>"

inductive budget_reachable :: "nat \<Rightarrow> retry_budget \<Rightarrow> bool" for most where
  budget_new: "budget_reachable most retry_budget_new"
| budget_claim: "budget_reachable most b \<Longrightarrow> allowed_retries in_flight percent \<le> most \<Longrightarrow>
    budget_reachable most (take_claim in_flight percent b)"
| budget_check: "budget_reachable most b \<Longrightarrow> c \<in># rb_pending b \<Longrightarrow>
    budget_reachable most (snd (take_check c b))"
| budget_drop: "budget_reachable most b \<Longrightarrow> 0 < rb_permits b \<Longrightarrow> budget_reachable most (permit_drop b)"

subsection \<open>Smooth weighted round robin\<close>

lemma highest_spec:
  assumes "highest best i bs = Some (k, c)" "best = None \<or> (\<exists>j t. best = Some (j, t) \<and> j < i)"
  shows "(best = Some (k, c) \<or> (i \<le> k \<and> k < i + length bs \<and> be_current_weight (bs ! (k - i)) = c)) \<and>
    (\<forall>b \<in> set bs. be_current_weight b \<le> c) \<and> (\<forall>j t. best = Some (j, t) \<longrightarrow> t \<le> c)"
  using assms
proof (induction bs arbitrary: best i)
  case (Cons b bs)
  let ?best = "if (case best of None \<Rightarrow> True | Some (_, t) \<Rightarrow> t < be_current_weight b)
      then Some (i, be_current_weight b) else best"
  have h: "highest ?best (Suc i) bs = Some (k, c)" using Cons.prems(1) by simp
  have "?best = None \<or> (\<exists>j t. ?best = Some (j, t) \<and> j < Suc i)" using Cons.prems(2) by auto
  note ih = Cons.IH [OF h this]
  have b: "be_current_weight b \<le> c" using ih by (auto split: option.splits if_splits)
  have pos: "best = Some (k, c) \<or> (i \<le> k \<and> k < i + length (b # bs) \<and> be_current_weight ((b # bs) ! (k - i)) = c)"
    using ih by (auto simp: nth_Cons' split: if_splits option.splits)
  have "\<forall>j t. best = Some (j, t) \<longrightarrow> t \<le> c"
    using ih by (auto split: if_splits option.splits)
  with ih b pos show ?case by auto
qed auto

lemma highest_None: "highest best i bs = None \<longleftrightarrow> best = None \<and> bs = []"
  by (induction bs arbitrary: best i) (auto split: option.splits)

definition credit :: "backend list \<Rightarrow> nat \<Rightarrow> int" where
  "credit bs i = be_current_weight (bs ! i)"

lemma wrr_step:
  assumes "bs \<noteq> []" "weighted_round_robin bs = (k, bs2)"
  shows "k < length bs" "length bs2 = length bs" "\<And>i. i < length bs \<Longrightarrow> be_weight (bs2 ! i) = be_weight (bs ! i)"
    "\<And>i. i < length bs \<Longrightarrow> credit bs2 i = credit bs i + int (be_weight (bs ! i)) - (if i = k then total_weight bs else 0)"
    "\<And>i. i < length bs \<Longrightarrow> credit bs i + int (be_weight (bs ! i)) \<le> credit bs k + int (be_weight (bs ! k))"
    "total_weight bs2 = total_weight bs"
proof -
  let ?c = "map add_credit bs"
  obtain c where h: "highest None 0 ?c = Some (k, c)"
    and bs2: "bs2 = ?c[k := (?c ! k)\<lparr>be_current_weight := be_current_weight (?c ! k) - total_weight bs\<rparr>]"
    using assms by (auto simp: weighted_round_robin_def highest_None Let_def split: option.splits)
  note s = highest_spec [OF h]
  then show k: "k < length bs" by simp
  show len: "length bs2 = length bs" by (simp add: bs2)
  show w: "be_weight (bs2 ! i) = be_weight (bs ! i)" if "i < length bs" for i
    using that by (cases "i = k") (simp_all add: bs2 add_credit_def)
  show "credit bs2 i = credit bs i + int (be_weight (bs ! i)) - (if i = k then total_weight bs else 0)"
    if "i < length bs" for i
    using that by (cases "i = k") (simp_all add: bs2 add_credit_def credit_def)
  have "c = be_current_weight (?c ! k)" using s by auto
  then show "credit bs i + int (be_weight (bs ! i)) \<le> credit bs k + int (be_weight (bs ! k))" if "i < length bs" for i
    using s that k by (auto simp: add_credit_def credit_def dest!: bspec [of _ _ "?c ! i"])
  have "map be_weight bs2 = map be_weight bs" using len w by (simp add: list_eq_iff_nth_eq)
  then have "map (int \<circ> be_weight) bs2 = map (int \<circ> be_weight) bs" by (metis list.map_comp)
  then show "total_weight bs2 = total_weight bs" by (simp add: total_weight_def o_def)
qed

text \<open>Repeated picks: the positions chosen and the backends after them.\<close>

fun wrr_picks :: "nat \<Rightarrow> backend list \<Rightarrow> nat list \<times> backend list" where
  "wrr_picks 0 bs = ([], bs)"
| "wrr_picks (Suc n) bs =
     (case wrr_picks n bs of (ks, bs1) \<Rightarrow>
       (case weighted_round_robin bs1 of (k, bs2) \<Rightarrow> (ks @ [k], bs2)))"

lemma wrr_picks_inv:
  assumes "bs \<noteq> []" "wrr_picks n bs = (ks, bs2)"
  shows "length bs2 = length bs \<and> length ks = n \<and> set ks \<subseteq> {..<length bs} \<and> total_weight bs2 = total_weight bs \<and>
    (\<forall>i < length bs. be_weight (bs2 ! i) = be_weight (bs ! i) \<and>
       credit bs2 i = credit bs i + int n * int (be_weight (bs ! i)) - total_weight bs * int (count_list ks i))"
  using assms(2)
proof (induction n arbitrary: ks bs2)
  case (Suc n)
  obtain ks1 bs1 k where p: "wrr_picks n bs = (ks1, bs1)" "weighted_round_robin bs1 = (k, bs2)" "ks = ks1 @ [k]"
    using Suc.prems by (auto split: prod.splits)
  note ih = Suc.IH [OF p(1)]
  then have "bs1 \<noteq> []" using assms(1) by auto
  note s = wrr_step [OF this p(2)]
  have "credit bs2 i = credit bs i + int (Suc n) * int (be_weight (bs ! i)) - total_weight bs * int (count_list ks i)"
    if "i < length bs" for i
  proof -
    have "credit bs1 i = credit bs i + int n * int (be_weight (bs ! i)) - total_weight bs * int (count_list ks1 i)"
      and w: "be_weight (bs1 ! i) = be_weight (bs ! i)" "total_weight bs1 = total_weight bs" "length bs1 = length bs"
      using ih that by auto
    then show ?thesis using s(4) [of i] that p(3) by (cases "i = k") (simp_all add: algebra_simps)
  qed
  then show ?case using ih s p(3) by simp
qed simp

lemma sum_credit_total: "sum_list (map (\<lambda>b. be_current_weight b) bs) = (\<Sum>i < length bs. credit bs i)"
  by (simp add: sum_list_sum_nth credit_def atLeast0LessThan)

lemma total_weight_sum: "total_weight bs = (\<Sum>i < length bs. int (be_weight (bs ! i)))"
  by (simp add: total_weight_def sum_list_sum_nth atLeast0LessThan)

lemma total_weight_nonneg: "0 \<le> total_weight bs"
  by (simp add: total_weight_sum sum_nonneg)

lemma count_list_total: "set ks \<subseteq> {..<n} \<Longrightarrow> (\<Sum>i < n. count_list ks i) = length ks" for n :: nat
proof (induction ks)
  case (Cons k ks)
  have "count_list (k # ks) i = count_list ks i + (if i = k then 1 else 0)" for i by simp
  moreover have "(\<Sum>i < n. if i = k then 1 else 0 :: nat) = 1" using Cons.prems by (subst sum.delta) auto
  ultimately show ?case using Cons by (simp add: sum.distrib del: count_list.simps)
qed simp

text \<open>Starting without credit, the credits always sum to zero and none falls to minus the total.\<close>

lemma wrr_credit_bounds:
  assumes "bs \<noteq> []" "\<And>i. i < length bs \<Longrightarrow> credit bs i = 0" "0 < total_weight bs" "wrr_picks n bs = (ks, bs2)"
  shows "(\<Sum>i < length bs. credit bs2 i) = 0" "i < length bs \<Longrightarrow> - total_weight bs < credit bs2 i"
proof -
  note inv = wrr_picks_inv [OF assms(1)]
  have zero: "(\<Sum>i < length bs. credit cs i) = 0" if p: "wrr_picks m bs = (qs, cs)" for m qs cs
  proof -
    note i = inv [OF p]
    have "(\<Sum>i < length bs. credit cs i) =
        (\<Sum>i < length bs. int m * int (be_weight (bs ! i)) - total_weight bs * int (count_list qs i))"
      using i assms(2) by simp
    also have "\<dots> = int m * total_weight bs - total_weight bs * int (\<Sum>i < length bs. count_list qs i)"
      by (simp add: sum_subtractf sum_distrib_left [symmetric] total_weight_sum)
    also have "\<dots> = 0" using i count_list_total by (simp add: count_list_total)
    finally show ?thesis .
  qed
  show "(\<Sum>i < length bs. credit bs2 i) = 0" by (rule zero [OF assms(4)])
  show "- total_weight bs < credit bs2 i" if "i < length bs" using assms(4) that
  proof (induction n arbitrary: ks bs2 i)
    case 0
    then show ?case using assms(2,3) by simp
  next
    case (Suc n)
    obtain ks1 bs1 k where p: "wrr_picks n bs = (ks1, bs1)" "weighted_round_robin bs1 = (k, bs2)"
      using Suc.prems by (auto split: prod.splits)
    note i1 = inv [OF p(1)]
    then have ne: "bs1 \<noteq> []" using assms(1) by auto
    note s = wrr_step [OF ne p(2)]
    let ?f = "\<lambda>i. credit bs1 i + int (be_weight (bs1 ! i))"
    have "total_weight bs = (\<Sum>i < length bs. ?f i)"
      using zero [OF p(1)] i1 by (simp add: sum.distrib total_weight_sum)
    also have "\<dots> \<le> (\<Sum>i < length bs. ?f k)" using s(5) i1 by (intro sum_mono) simp
    finally have "total_weight bs \<le> int (length bs) * ?f k" by simp
    then have "0 < ?f k" using assms(3) by (smt (verit) mult_nonneg_nonpos of_nat_0_le_iff)
    moreover have "- total_weight bs < credit bs1 i" using Suc.IH [OF p(1) Suc.prems(2)] .
    ultimately show ?case using s(4) [of i] i1 Suc.prems(2) by auto
  qed
qed

lemma wrr_exact:
  assumes "bs \<noteq> []" "\<And>i. i < length bs \<Longrightarrow> credit bs i = 0" "wrr_picks (nat (total_weight bs)) bs = (ks, bs2)"
    and i: "i < length bs"
  shows "count_list ks i = be_weight (bs ! i)" "credit bs2 i = 0"
proof -
  note inv = wrr_picks_inv [OF assms(1,3)]
  let ?W = "total_weight bs"
  have n: "int (nat ?W) = ?W" using total_weight_nonneg by simp
  have le: "count_list ks j \<le> be_weight (bs ! j)" if j: "j < length bs" for j
  proof (cases "0 < ?W")
    case True
    have "- ?W < ?W * int (be_weight (bs ! j)) - ?W * int (count_list ks j)"
      using wrr_credit_bounds(2) [OF assms(1,2) True assms(3) j] inv j assms(2) n by simp
    then have "?W * (int (count_list ks j) - int (be_weight (bs ! j))) < ?W * 1" by (simp add: algebra_simps)
    then have "int (count_list ks j) - int (be_weight (bs ! j)) < 1" using True by (simp only: mult_less_cancel_left_pos)
    then show ?thesis by simp
  next
    case False
    then have "ks = []" using inv by simp
    then show ?thesis by simp
  qed
  have "(\<Sum>j < length bs. count_list ks j) = (\<Sum>j < length bs. be_weight (bs ! j))"
  proof -
    have "int (\<Sum>j < length bs. count_list ks j) = ?W"
      using inv count_list_total [of ks "length bs"] n by simp
    also have "?W = int (\<Sum>j < length bs. be_weight (bs ! j))" by (simp add: total_weight_sum)
    finally show ?thesis by linarith
  qed
  then show c: "count_list ks i = be_weight (bs ! i)"
    using le i sum_mono_inv [of "count_list ks" "{..<length bs}" "\<lambda>j. be_weight (bs ! j)" i] by simp
  show "credit bs2 i = 0" using inv i assms(2) n c by simp
qed

subsection \<open>Scanning for the best\<close>

text \<open>
  What a strategy that scans for the best backend relies on: the comparison is a strict order that
  decides between any two different identities.
\<close>

locale choice =
  fixes better :: "'a \<Rightarrow> 'a \<Rightarrow> bool" and ident :: "'a \<Rightarrow> 'b"
  assumes better_irrefl: "\<not> better x x"
    and better_trans: "better x y \<Longrightarrow> better y z \<Longrightarrow> better x z"
    and better_cotrans: "better x z \<Longrightarrow> better x y \<or> better y z"
    and better_total: "ident x \<noteq> ident y \<Longrightarrow> better x y \<or> better y x"
begin

lemma scan_best_spec:
  "k = scan_best better best best_i i xs \<Longrightarrow> best_i < i \<Longrightarrow>
     (k = best_i \<or> (i \<le> k \<and> k < i + length xs)) \<and>
     (let w = (if k = best_i then best else xs ! (k - i)) in
      \<not> better best w \<and> (\<forall>y \<in> set xs. \<not> better y w))"
proof (induction xs arbitrary: best best_i i)
  case Nil
  then show ?case by (simp add: better_irrefl)
next
  case (Cons x xs)
  show ?case
  proof (cases "better x best")
    case True
    then have k: "k = scan_best better x i (Suc i) xs" using Cons.prems by simp
    have "\<not> better best x" using True better_irrefl better_trans by blast
    with Cons.IH [OF k] Cons.prems(2) True show ?thesis
      by (auto simp: Let_def nth_Cons' dest: better_trans split: if_splits)
  next
    case False
    then have k: "k = scan_best better best best_i (Suc i) xs" using Cons.prems by simp
    have "best_i < Suc i" using Cons.prems(2) by simp
    from Cons.IH [OF k this] have
      w: "k = best_i \<or> Suc i \<le> k \<and> k < Suc i + length xs"
        "\<not> better best (if k = best_i then best else xs ! (k - Suc i))"
        "\<forall>y \<in> set xs. \<not> better y (if k = best_i then best else xs ! (k - Suc i))" by (simp_all add: Let_def)
    have e: "(if k = best_i then best else (x # xs) ! (k - i)) = (if k = best_i then best else xs ! (k - Suc i))"
      using w(1) by (auto simp: nth_Cons' Suc_diff_le)
    have "\<not> better x (if k = best_i then best else xs ! (k - Suc i))"
      using better_cotrans False w(2) by blast
    then show ?thesis using w unfolding e Let_def by auto
  qed
qed

lemma pick_best_spec:
  assumes "xs \<noteq> []"
  shows "pick_best better xs < length xs" "y \<in> set xs \<Longrightarrow> \<not> better y (xs ! pick_best better xs)"
proof -
  obtain x ys where xs: "xs = x # ys" using assms by (cases xs) auto
  have k: "pick_best better xs = scan_best better x 0 1 ys" by (simp add: pick_best_def xs)
  note s = scan_best_spec [OF k]
  then show "pick_best better xs < length xs" using xs by auto
  show "\<not> better y (xs ! pick_best better xs)" if "y \<in> set xs"
    using s that xs by (auto simp: Let_def nth_Cons' split: if_splits)
qed

lemma pick_best_unique:
  assumes "inj_on ident (set xs)" "w \<in> set xs" "\<And>y. y \<in> set xs \<Longrightarrow> \<not> better y w"
  shows "xs ! pick_best better xs = w"
proof -
  have ne: "xs \<noteq> []" using assms(2) by auto
  note p = pick_best_spec [OF ne]
  have "xs ! pick_best better xs \<in> set xs" using p(1) by simp
  then show ?thesis using assms p(2) [OF assms(2)] better_total by (metis inj_onD)
qed

lemma pick_best_stable:
  assumes "inj_on ident (set xs)" "set ys \<subseteq> set xs" "xs \<noteq> []" "xs ! pick_best better xs \<in> set ys"
  shows "ys ! pick_best better ys = xs ! pick_best better xs"
proof (rule pick_best_unique)
  show "inj_on ident (set ys)" using assms(1,2) by (rule inj_on_subset)
qed (use assms pick_best_spec(2) [OF assms(3)] in auto)

end

interpretation lc: choice "\<lambda>x best. (be_in_flight x, be_id x) < (be_in_flight best, be_id best)" be_id
  by unfold_locales auto

interpretation fp: choice "\<lambda>x best. (be_priority x, be_id x) < (be_priority best, be_id best)" be_id
  by unfold_locales auto

interpretation rv: choice "\<lambda>x best. (score key (be_id best), be_id best) < (score key (be_id x), be_id x)" be_id
  for key
  by unfold_locales auto

subsection \<open>Properties\<close>

text \<open>
  C13: smooth weighted round robin is exact: starting without credit, over as many picks as the weights
  sum to, every backend is picked exactly as often as its weight says and all credits are zero again;
  after any number of picks no backend is a full turn ahead of its share.
\<close>

theorem weighted_round_robin_fair:
  assumes "bs \<noteq> []" "\<forall>b \<in> set bs. be_current_weight b = 0"
  shows "(\<forall>i < length bs. count_list (fst (wrr_picks (nat (total_weight bs)) bs)) i = be_weight (bs ! i)) \<and>
    (\<forall>i < length bs. credit (snd (wrr_picks (nat (total_weight bs)) bs)) i = 0) \<and>
    (\<forall>n. \<forall>i < length bs. 0 < total_weight bs \<longrightarrow>
       total_weight bs * int (count_list (fst (wrr_picks n bs)) i) < int n * int (be_weight (bs ! i)) + total_weight bs)"
proof -
  have z: "credit bs i = 0" if "i < length bs" for i using assms(2) that by (simp add: credit_def)
  have ahead: "total_weight bs * int (count_list (fst (wrr_picks n bs)) i) < int n * int (be_weight (bs ! i)) + total_weight bs"
    if i: "i < length bs" and w: "0 < total_weight bs" for n i
  proof -
    obtain ks bs2 where p: "wrr_picks n bs = (ks, bs2)" by fastforce
    have "credit bs2 i = int n * int (be_weight (bs ! i)) - total_weight bs * int (count_list ks i)"
      using wrr_picks_inv [OF assms(1) p] i z by simp
    with wrr_credit_bounds(2) [OF assms(1) z w p i] p show ?thesis by simp
  qed
  obtain ks bs2 where p: "wrr_picks (nat (total_weight bs)) bs = (ks, bs2)" by fastforce
  from wrr_exact [OF assms(1) z p] ahead p show ?thesis by simp
qed

definition weighted :: "(bytes \<times> nat) list \<Rightarrow> backend list" where
  "weighted ws =
     map (\<lambda>(name, w). backend_new \<lparr>ep_id = name, ep_target = TargetUnix name, ep_weight = w, ep_priority = 0\<rparr> False) ws"

theorem weighted_round_robin_fair_witness:
  "count_list (fst (wrr_picks 4 (weighted [(''a'', 3), (''b'', 1)]))) 0 = 3"
proof -
  let ?bs = "weighted [(''a'', 3), (''b'', 1)]"
  have "total_weight ?bs = 4" by (simp add: total_weight_def weighted_def backend_new_def)
  moreover have "?bs \<noteq> []" "\<forall>b \<in> set ?bs. be_current_weight b = 0" "length ?bs = 2" "be_weight (?bs ! 0) = 3"
    by (simp_all add: weighted_def backend_new_def)
  ultimately show ?thesis using weighted_round_robin_fair [of ?bs] by simp
qed

lemma weighted_three_to_one: "fst (wrr_picks 4 (weighted [(''a'', 3), (''b'', 1)])) = [0, 0, 1, 0]"
  by code_simp

lemma mod_length: "bs \<noteq> [] \<Longrightarrow> n mod length bs < length bs"
  by simp

lemma pick_in_range:
  "bs \<noteq> [] \<Longrightarrow> least_conn bs < length bs" "bs \<noteq> [] \<Longrightarrow> first_priority bs < length bs"
  "bs \<noteq> [] \<Longrightarrow> rendezvous bs key < length bs"
  unfolding least_conn_def first_priority_def rendezvous_def
  by (rule lc.pick_best_spec fp.pick_best_spec rv.pick_best_spec; assumption)+

lemma hashed_in_range: "bs \<noteq> [] \<Longrightarrow> sel_index (fst (hashed balance key bs st)) < length bs"
  by (auto simp: hashed_def fallback_def round_robin_def pick_in_range split: option.splits)

lemma two_random_in_range: "bs \<noteq> [] \<Longrightarrow> fst (two_random_choices bs st) < length bs"
  by (auto simp: two_random_choices_def Let_def mod_length split: prod.splits)

text \<open>
  a selection is made exactly when some backend is eligible, and it is one of the eligible ones.
\<close>

theorem select_total:
  "(select balance bs st key = None \<longleftrightarrow> bs = []) \<and>
   (case select balance bs st key of None \<Rightarrow> True | Some (sel, st2, bs2) \<Rightarrow> sel_index sel < length bs)"
proof (cases "bs = []")
  case True
  then show ?thesis by (simp add: select_def)
next
  case False
  have w: "fst (weighted_round_robin bs) < length bs"
    using wrr_step(1) [OF False] by (metis prod.collapse)
  note r = mod_length [OF False] w two_random_in_range [OF False, of st] hashed_in_range [OF False] pick_in_range [OF False]
  show ?thesis using False r
    by (cases balance) (simp_all add: select_def Let_def round_robin_def case_prod_beta)
qed

text \<open>
  removing backends from the eligible set moves only the keys that pointed at them: as long as the
  chosen backend stays eligible, a hash strategy keeps choosing it, whatever else leaves or joins with
  a lower score, and in whatever order the set is listed.
\<close>

theorem rendezvous_stable:
  assumes "inj_on be_id (set bs)" "bs \<noteq> []" "set remaining \<subseteq> set bs" "bs ! rendezvous bs key \<in> set remaining"
  shows "remaining ! rendezvous remaining key = bs ! rendezvous bs key"
  using rv.pick_best_stable [OF assms(1,3,2)] assms(4) by (simp add: rendezvous_def)

theorem rendezvous_stable_witness:
  "\<exists>b \<in> set (weighted [(''a'', 1), (''b'', 1)]). [b] ! rendezvous [b] ''k'' = 
     weighted [(''a'', 1), (''b'', 1)] ! rendezvous (weighted [(''a'', 1), (''b'', 1)]) ''k''"
proof -
  let ?bs = "weighted [(''a'', 1), (''b'', 1)]"
  let ?b = "?bs ! rendezvous ?bs ''k''"
  have ne: "?bs \<noteq> []" and inj: "inj_on be_id (set ?bs)" by (auto simp: weighted_def backend_new_def)
  have m: "?b \<in> set ?bs" using pick_in_range(3) [OF ne] by simp
  then have "[?b] ! rendezvous [?b] ''k'' = ?b" using rendezvous_stable [OF inj ne, of "[?b]"] by simp
  with m show ?thesis by blast
qed

text \<open>
  \<open>least-conn\<close> picks a backend with the fewest requests in flight and \<open>first\<close> one with the lowest
  priority value; ties fall to the smallest identity, so the choice does not depend on the order in
  which the backends are listed.
\<close>

theorem least_conn_and_first_minimal:
  assumes "inj_on be_id (set bs)" "mset cs = mset bs" "b \<in> set bs"
  shows "be_in_flight (bs ! least_conn bs) \<le> be_in_flight b \<and> be_priority (bs ! first_priority bs) \<le> be_priority b \<and>
    cs ! least_conn cs = bs ! least_conn bs \<and> cs ! first_priority cs = bs ! first_priority bs"
proof -
  have ne: "bs \<noteq> []" and s: "set cs = set bs" using assms(2,3) by (auto dest: mset_eq_setD)
  note l = lc.pick_best_spec [OF ne] and f = fp.pick_best_spec [OF ne]
  have "bs ! least_conn bs \<in> set cs" "bs ! first_priority bs \<in> set cs"
    using pick_in_range(1,2) [OF ne] s by simp_all
  then have "cs ! least_conn cs = bs ! least_conn bs" "cs ! first_priority cs = bs ! first_priority bs"
    using lc.pick_best_stable [OF assms(1) _ ne, of cs] fp.pick_best_stable [OF assms(1) _ ne, of cs] s
    by (simp_all add: least_conn_def first_priority_def)
  moreover have "be_in_flight (bs ! least_conn bs) \<le> be_in_flight b" "be_priority (bs ! first_priority bs) \<le> be_priority b"
    using l(2) [OF assms(3)] f(2) [OF assms(3)] by (simp_all add: least_conn_def first_priority_def not_less)
  ultimately show ?thesis by blast
qed

theorem least_conn_and_first_minimal_witness:
  "rev (weighted [(''a'', 1), (''b'', 1)]) ! least_conn (rev (weighted [(''a'', 1), (''b'', 1)])) =
   weighted [(''a'', 1), (''b'', 1)] ! least_conn (weighted [(''a'', 1), (''b'', 1)])"
proof -
  let ?bs = "weighted [(''a'', 1), (''b'', 1)]"
  have "inj_on be_id (set ?bs)" "hd ?bs \<in> set ?bs" by (auto simp: weighted_def backend_new_def)
  then show ?thesis using least_conn_and_first_minimal [of ?bs "rev ?bs" "hd ?bs"] by simp
qed

lemma budget_inv:
  "budget_reachable most b \<Longrightarrow>
     rb_live b = rb_permits b + size (rb_pending b) \<and>
     rb_permits b + size (filter_mset (\<lambda>c. fst c \<le> snd c) (rb_pending b)) \<le> most"
proof (induction rule: budget_reachable.induct)
  case budget_new
  then show ?case by (simp add: retry_budget_new_def)
next
  case (budget_claim b in_flight percent)
  define f where "f = size (filter_mset (\<lambda>c. fst c \<le> snd c) (rb_pending b))"
  have "f \<le> size (rb_pending b)" unfolding f_def by (rule size_filter_mset_lesseq)
  with budget_claim show ?case by (auto simp: take_claim_def f_def [symmetric])
next
  case (budget_check b c)
  obtain p where p: "rb_pending b = add_mset c p" using budget_check.hyps by (meson mset_add)
  show ?case using budget_check.IH p by (auto simp: take_check_def Let_def)
next
  case (budget_drop b)
  then show ?case by (auto simp: permit_drop_def)
qed

text \<open>
  however claims and checks of the retry budget interleave, the retries that hold a permit never
  exceed the largest allowance any of them was checked against, and every permit and claim is given
  back to the counter exactly once.
\<close>

theorem retry_permits_bounded:
  assumes "budget_reachable most b"
  shows "rb_permits b \<le> most \<and> rb_live b = rb_permits b + size (rb_pending b)"
  using budget_inv [OF assms] by linarith

theorem retry_permits_bounded_witness:
  "rb_permits (snd (take_check (1, 3) (take_claim 0 20 retry_budget_new))) \<le> 3"
proof -
  have a: "allowed_retries 0 20 = 3" by (simp add: allowed_retries_def retry_floor_def saturating_mul_def)
  have "budget_reachable 3 (take_claim 0 20 retry_budget_new)"
    using a by (intro budget_claim budget_new) simp
  moreover have "(1, 3) \<in># rb_pending (take_claim 0 20 retry_budget_new)"
    using a by (simp add: take_claim_def retry_budget_new_def)
  ultimately have "budget_reachable 3 (snd (take_check (1, 3) (take_claim 0 20 retry_budget_new)))"
    by (rule budget_check)
  from retry_permits_bounded [OF this] show ?thesis by blast
qed

end
