(* ===== verification/Ordered_Maps.thy ===== *)
theory Ordered_Maps
  imports Prelude
begin

text \<open>
  Rust's \<open>BTreeMap\<close>, as far as the sources use it: an association list in strictly ascending key order,
  so that iteration is the list, equality of maps is equality of lists, and lookup is \<open>map_of\<close>.
\<close>

type_synonym ('k, 'v) btree = "('k \<times> 'v) list"

definition bt_get :: "'k \<Rightarrow> ('k, 'v) btree \<Rightarrow> 'v option" where
  "bt_get k m = map_of m k"

fun bt_insert :: "'k::linorder \<Rightarrow> 'v \<Rightarrow> ('k, 'v) btree \<Rightarrow> ('k, 'v) btree" where
  "bt_insert k v [] = [(k, v)]"
| "bt_insert k v ((j, u) # m) =
     (if k < j then (k, v) # (j, u) # m else if k = j then (k, v) # m else (j, u) # bt_insert k v m)"

definition bt_values :: "('k, 'v) btree \<Rightarrow> 'v list" where
  "bt_values m = map snd m"

definition bt_map :: "('v \<Rightarrow> 'w) \<Rightarrow> ('k, 'v) btree \<Rightarrow> ('k, 'w) btree" where
  "bt_map f m = map (\<lambda>(k, v). (k, f v)) m"

definition bt_ok :: "('k::linorder, 'v) btree \<Rightarrow> bool" where
  "bt_ok m \<longleftrightarrow> sorted_wrt (<) (map fst m)"

lemma bt_get_Nil [simp]: "bt_get k [] = None"
  by (simp add: bt_get_def)

lemma bt_get_Cons: "bt_get k ((j, v) # m) = (if k = j then Some v else bt_get k m)"
  by (simp add: bt_get_def)

lemma bt_ok_Nil [simp]: "bt_ok []"
  by (simp add: bt_ok_def)

lemma bt_ok_Cons: "bt_ok ((k, v) # m) \<longleftrightarrow> (\<forall>j \<in> fst ` set m. k < j) \<and> bt_ok m"
  by (simp add: bt_ok_def)

lemma bt_get_fresh:
  fixes k :: "'k::linorder"
  shows "\<forall>j \<in> fst ` set m. k < j \<Longrightarrow> bt_get k m = None"
  by (auto simp: bt_get_def map_of_eq_None_iff)

lemma bt_get_insert [simp]: "bt_ok m \<Longrightarrow> bt_get i (bt_insert k v m) = (if i = k then Some v else bt_get i m)"
  by (induction m) (auto simp: bt_get_Cons bt_ok_Cons)

lemma bt_insert_keys: "fst ` set (bt_insert k v m) = insert k (fst ` set m)"
  by (induction k v m rule: bt_insert.induct) auto

lemma bt_ok_insert [simp]: "bt_ok m \<Longrightarrow> bt_ok (bt_insert k v m)"
proof (induction m)
  case (Cons p m)
  obtain j u where p: "p = (j, u)" by fastforce
  show ?case using Cons p by (auto simp: bt_ok_Cons bt_insert_keys not_less)
qed (simp add: bt_ok_Cons)

lemma bt_get_map [simp]: "bt_get k (bt_map f m) = map_option f (bt_get k m)"
  by (induction m) (auto simp: bt_map_def bt_get_def)

lemma bt_keys_map [simp]: "map fst (bt_map f m) = map fst m"
  by (induction m) (auto simp: bt_map_def)

lemma bt_ok_map [simp]: "bt_ok (bt_map f m) = bt_ok m"
  by (simp add: bt_ok_def)

lemma bt_get_None: "bt_get k m = None \<longleftrightarrow> k \<notin> fst ` set m"
  by (simp add: bt_get_def map_of_eq_None_iff)

lemma bt_get_Some: "bt_ok m \<Longrightarrow> bt_get k m = Some v \<longleftrightarrow> (k, v) \<in> set m"
  unfolding bt_get_def bt_ok_def
  by (rule map_of_eq_Some_iff) (simp add: strict_sorted_iff)

lemma bt_get_in: "bt_get k m = Some v \<Longrightarrow> (k, v) \<in> set m"
  unfolding bt_get_def by (rule map_of_SomeD)

lemma bt_ok_distinct: "bt_ok m \<Longrightarrow> distinct (map fst m)"
  by (simp add: bt_ok_def strict_sorted_iff)

text \<open>Maps with the same lookups are equal.\<close>

lemma bt_entries: "bt_ok m \<Longrightarrow> map (\<lambda>k. (k, the (bt_get k m))) (map fst m) = m"
proof -
  assume "bt_ok m"
  then have "(fst p, the (bt_get (fst p) m)) = p" if "p \<in> set m" for p
    using that bt_get_Some [of m "fst p" "snd p"] by simp
  then show ?thesis by (simp add: map_idI)
qed

lemma bt_ext:
  assumes "bt_ok m" "bt_ok n" "\<And>k. bt_get k m = bt_get k n"
  shows "m = n"
proof -
  have "k \<in> fst ` set m \<longleftrightarrow> k \<in> fst ` set n" for k
    using assms(3) [of k] bt_get_None [of k m] bt_get_None [of k n] by auto
  then have "set (map fst m) = set (map fst n)" by auto
  then have k: "map fst m = map fst n"
    using assms(1,2) unfolding bt_ok_def by (intro strict_sorted_equal) simp_all
  have g: "(\<lambda>k. (k, the (bt_get k m))) = (\<lambda>k. (k, the (bt_get k n)))" using assms(3) by simp
  show ?thesis using bt_entries [OF assms(1)] bt_entries [OF assms(2)] unfolding k g by simp
qed

lemma bt_insert_same: "bt_ok m \<Longrightarrow> bt_get k m = Some v \<Longrightarrow> bt_insert k v m = m"
  by (rule bt_ext) auto

text \<open>Inserting entries in key order builds the map that has exactly those entries.\<close>

lemma bt_insert_last: "\<forall>j \<in> fst ` set m. j < k \<Longrightarrow> bt_insert k v m = m @ [(k, v)]"
  by (induction k v m rule: bt_insert.induct) auto

lemma bt_rebuild:
  assumes "bt_ok (m @ n)"
  shows "fold (\<lambda>(k, v). bt_insert k v) n m = m @ n"
  using assms
proof (induction n arbitrary: m)
  case (Cons p n)
  obtain k v where p: "p = (k, v)" by fastforce
  have "\<forall>j \<in> fst ` set m. j < k" using Cons.prems p by (auto simp: bt_ok_def sorted_wrt_append)
  then have "bt_insert k v m = m @ [(k, v)]" by (rule bt_insert_last)
  with Cons.IH [of "m @ [(k, v)]"] Cons.prems p show ?case by simp
qed simp

lemma bt_length_insert:
  "bt_ok m \<Longrightarrow> length (bt_insert k v m) = (if bt_get k m = None then Suc (length m) else length m)"
  by (induction m) (force simp: bt_get_Cons bt_ok_Cons dest: bt_get_in split: if_splits)+

end
