(* ===== verification/Snapshots.thy ===== *)
theory Snapshots
  imports Ordered_Maps Config_Model Identity
begin

text \<open>
  The immutable input to compilation (\<open>gatel-model/src/snapshot.rs\<close>, \<open>snapshot_history.rs\<close>,
  \<open>value_identity.rs\<close>, \<open>origin.rs\<close>): configuration trees with their origins, what each source
  contributed at which revision, revision vectors, and the history checks that make revisions move only
  forward.
\<close>

subsection \<open>Trees with origins\<close>

record span =
  span_offset :: nat
  span_length :: nat
  span_line :: nat
  span_column :: nat

datatype origin_kind = FileOrigin bytes span | ApiOrigin bytes bytes | SyntheticOrigin bytes

record origin =
  origin_kind :: origin_kind
  origin_path :: bytes

definition origin_file :: "bytes \<Rightarrow> span \<Rightarrow> origin" where
  "origin_file file sp = \<lparr>origin_kind = FileOrigin file sp, origin_path = []\<rparr>"

definition origin_api :: "bytes \<Rightarrow> bytes \<Rightarrow> origin" where
  "origin_api source pointer = \<lparr>origin_kind = ApiOrigin source pointer, origin_path = []\<rparr>"

definition origin_synthetic :: "bytes \<Rightarrow> origin" where
  "origin_synthetic reason = \<lparr>origin_kind = SyntheticOrigin reason, origin_path = []\<rparr>"

definition origin_field :: "origin \<Rightarrow> bytes \<Rightarrow> origin" where
  "origin_field orig name =
     orig\<lparr>origin_path := (if origin_path orig = [] then name else origin_path orig @ ''.'' @ name)\<rparr>"

definition origin_at :: "origin \<Rightarrow> span \<Rightarrow> origin" where
  "origin_at orig sp =
     (case origin_kind orig of
        FileOrigin file _ \<Rightarrow> \<lparr>origin_kind = FileOrigin file sp, origin_path = origin_path orig\<rparr>
      | _ \<Rightarrow> orig)"

record located =
  lv_scalar :: scalar
  lv_origin :: origin

record located_prop =
  lp_name :: bytes
  lp_value :: located
  lp_origin :: origin

datatype tree =
  Tree (t_name: bytes) (t_args: "located list") (t_props: "located_prop list") (t_children: "tree list")
    (t_origin: origin)

text \<open>
  \<open>same_nodes\<close> compares two forests with an explicit stack. Floats compare by their bits, which is how
  the model holds them.
\<close>

definition same_value :: "located \<Rightarrow> located \<Rightarrow> bool" where
  "same_value l r \<longleftrightarrow> lv_origin l = lv_origin r \<and> lv_scalar l = lv_scalar r"

definition same_prop :: "located_prop \<Rightarrow> located_prop \<Rightarrow> bool" where
  "same_prop l r \<longleftrightarrow> lp_name l = lp_name r \<and> lp_origin l = lp_origin r \<and> same_value (lp_value l) (lp_value r)"

definition same_head :: "tree \<Rightarrow> tree \<Rightarrow> bool" where
  "same_head l r \<longleftrightarrow>
     t_name l = t_name r \<and> t_origin l = t_origin r \<and> length (t_args l) = length (t_args r) \<and>
     length (t_props l) = length (t_props r) \<and> length (t_children l) = length (t_children r) \<and>
     list_all (\<lambda>(a, b). same_value a b) (zip (t_args l) (t_args r)) \<and>
     list_all (\<lambda>(a, b). same_prop a b) (zip (t_props l) (t_props r))"

lemma size_children: "size_list size (t_children t) < size t"
  by (cases t) simp

function same_pending :: "(tree \<times> tree) list \<Rightarrow> bool" where
  "same_pending [] = True"
| "same_pending ((l, r) # pending) =
     (if same_head l r then same_pending (rev (zip (t_children l) (t_children r)) @ pending) else False)"
  by pat_completeness auto

lemma size_zip_le: "sum_list (map (size \<circ> fst) (zip xs ys)) \<le> size_list size xs"
  by (induction xs ys rule: list_induct2') auto

termination same_pending
proof (relation "measure (\<lambda>ps. sum_list (map (size \<circ> fst) ps))")
  fix l r and pending :: "(tree \<times> tree) list"
  have "sum_list (map (size \<circ> fst) (zip (t_children l) (t_children r))) < size l"
    using size_zip_le size_children le_less_trans by blast
  then show "(rev (zip (t_children l) (t_children r)) @ pending, (l, r) # pending)
      \<in> measure (\<lambda>ps. sum_list (map (size \<circ> fst) ps))"
    by (simp add: rev_map [symmetric] sum_list_rev)
qed simp

text \<open>The stack is a list with its top first, so a push of the pairs of children reverses them.\<close>

definition same_nodes :: "tree list \<Rightarrow> tree list \<Rightarrow> bool" where
  "same_nodes left right \<longleftrightarrow> length left = length right \<and> same_pending (rev (zip left right))"

subsection \<open>Sources\<close>

instantiation source_kind :: linorder
begin

definition less_eq_source_kind :: "source_kind \<Rightarrow> source_kind \<Rightarrow> bool" where
  "less_eq_source_kind x y \<longleftrightarrow>
     (case x of FileSource \<Rightarrow> True | AdminSource \<Rightarrow> y \<noteq> FileSource | KubernetesSource \<Rightarrow> y = KubernetesSource)"

definition less_source_kind :: "source_kind \<Rightarrow> source_kind \<Rightarrow> bool" where
  "less_source_kind x y \<longleftrightarrow> x \<le> y \<and> x \<noteq> y"

instance
  by standard (auto simp: less_eq_source_kind_def less_source_kind_def split: source_kind.splits)

end

instantiation source_id_ext :: (linorder) linorder
begin

definition less_eq_source_id_ext :: "'a source_id_scheme \<Rightarrow> 'a source_id_scheme \<Rightarrow> bool" where
  "less_eq_source_id_ext x y \<longleftrightarrow>
     (source_kind x, source_name x, source_id.more x) \<le> (source_kind y, source_name y, source_id.more y)"

definition less_source_id_ext :: "'a source_id_scheme \<Rightarrow> 'a source_id_scheme \<Rightarrow> bool" where
  "less_source_id_ext x y \<longleftrightarrow>
     (source_kind x, source_name x, source_id.more x) < (source_kind y, source_name y, source_id.more y)"

instance
proof
  fix x y z :: "'a source_id_scheme"
  show "(x < y) = (x \<le> y \<and> \<not> y \<le> x)" "x \<le> x" "x \<le> y \<or> y \<le> x"
    unfolding less_source_id_ext_def less_eq_source_id_ext_def by auto
  show "x \<le> y \<Longrightarrow> y \<le> z \<Longrightarrow> x \<le> z" unfolding less_eq_source_id_ext_def by (rule order_trans)
  show "x \<le> y \<Longrightarrow> y \<le> x \<Longrightarrow> x = y"
    unfolding less_eq_source_id_ext_def by (drule (1) order_antisym) (cases x; cases y; simp)
qed

end

record source_snapshot =
  ss_source :: source_id
  ss_rev :: source_rev
  ss_content :: fingerprint
  ss_nodes :: "tree list"

datatype observation_error = WrongSource | RevisionExhausted | ContentMismatch

definition observe ::
  "source_id \<Rightarrow> fingerprint \<Rightarrow> tree list \<Rightarrow> source_snapshot option \<Rightarrow> observation_error + source_snapshot" where
  "observe source content nodes previous =
     (let new = (\<lambda>revision. \<lparr>ss_source = source, ss_rev = revision, ss_content = content, ss_nodes = nodes\<rparr>) in
      case previous of
        None \<Rightarrow> Inr (new 1)
      | Some p \<Rightarrow>
          if ss_source p \<noteq> source then Inl WrongSource
          else if ss_content p = content then
            (if same_nodes (ss_nodes p) nodes then Inr (new (ss_rev p)) else Inl ContentMismatch)
          else
            (case rev_next (ss_rev p) of
               None \<Rightarrow> Inl RevisionExhausted
             | Some next_rev \<Rightarrow> Inr (new next_rev)))"

type_synonym snapshot = "(source_id, source_snapshot) btree"

definition snapshot_insert :: "source_snapshot \<Rightarrow> snapshot \<Rightarrow> snapshot" where
  "snapshot_insert s m = bt_insert (ss_source s) s m"

definition snapshot_get :: "source_id \<Rightarrow> snapshot \<Rightarrow> source_snapshot option" where
  "snapshot_get i m = bt_get i m"

definition snapshot_sources :: "snapshot \<Rightarrow> source_snapshot list" where
  "snapshot_sources m = bt_values m"

datatype source_update_error =
  UpdateConflict "source_rev option" "source_rev option" | UpdateObservation observation_error

definition observe_if ::
  "source_id \<Rightarrow> source_rev option \<Rightarrow> fingerprint \<Rightarrow> tree list \<Rightarrow> snapshot
     \<Rightarrow> (source_update_error + source_rev) \<times> snapshot" where
  "observe_if source expected content nodes m =
     (let previous = snapshot_get source m; actual = map_option ss_rev previous in
      if actual \<noteq> expected then (Inl (UpdateConflict expected actual), m)
      else
        (case observe source content nodes previous of
           Inl e \<Rightarrow> (Inl (UpdateObservation e), m)
         | Inr observed \<Rightarrow> (Inr (ss_rev observed), snapshot_insert observed m)))"

text \<open>Every top-level node with its source, sources in order, nodes in declaration order.\<close>

definition snapshot_nodes :: "snapshot \<Rightarrow> (source_id \<times> tree) list" where
  "snapshot_nodes m = concat (map (\<lambda>s. map (\<lambda>n. (ss_source s, n)) (ss_nodes s)) (snapshot_sources m))"

subsection \<open>Revision vectors\<close>

type_synonym rev_vector = "(source_id, source_rev) btree"

definition revs :: "snapshot \<Rightarrow> rev_vector" where
  "revs m = bt_map ss_rev m"

definition merge_entry :: "source_id \<times> source_rev \<Rightarrow> rev_vector \<Rightarrow> rev_vector" where
  "merge_entry e v =
     (case bt_get (fst e) v of
        None \<Rightarrow> bt_insert (fst e) (snd e) v
      | Some r \<Rightarrow> if r < snd e then bt_insert (fst e) (snd e) v else v)"

definition merge_max :: "rev_vector \<Rightarrow> rev_vector \<Rightarrow> rev_vector" where
  "merge_max other v = fold merge_entry other v"

datatype rev_difference =
  Moved source_id source_rev source_rev | Disappeared source_id | Appeared source_id

fun first_moved :: "rev_vector \<Rightarrow> rev_vector \<Rightarrow> rev_difference option" where
  "first_moved [] other = None"
| "first_moved ((s, r) # v) other =
     (case bt_get s other of
        Some c \<Rightarrow> if c = r then first_moved v other else Some (Moved s r c)
      | None \<Rightarrow> Some (Disappeared s))"

definition first_difference :: "rev_vector \<Rightarrow> rev_vector \<Rightarrow> rev_difference option" where
  "first_difference v other =
     (case first_moved v other of
        Some d \<Rightarrow> Some d
      | None \<Rightarrow> map_option Appeared (find (\<lambda>s. bt_get s v = None) (map fst other)))"

subsection \<open>Histories\<close>

datatype history_error = ZeroRevision | MissingSource | RevisionRegression | RevisionReused

fun check_history :: "source_snapshot list \<Rightarrow> snapshot \<Rightarrow> history_error + unit" where
  "check_history [] m = Inr ()"
| "check_history (old # rest) m =
     (case snapshot_get (ss_source old) m of
        None \<Rightarrow> Inl MissingSource
      | Some new \<Rightarrow>
          if ss_rev new < ss_rev old then Inl RevisionRegression
          else if ss_rev new = ss_rev old \<and>
              (ss_content new \<noteq> ss_content old \<or> \<not> same_nodes (ss_nodes old) (ss_nodes new))
            then Inl RevisionReused
          else check_history rest m)"

definition validate_successor :: "snapshot \<Rightarrow> snapshot \<Rightarrow> history_error + unit" where
  "validate_successor m m2 =
     (if list_ex (\<lambda>s. ss_rev s = 0) (snapshot_sources m @ snapshot_sources m2) then Inl ZeroRevision
      else check_history (snapshot_sources m) m2)"

subsection \<open>Identity of trees\<close>

lemma same_value_iff [simp]: "same_value l r \<longleftrightarrow> l = r"
  by (auto simp: same_value_def intro: located.equality)

lemma same_prop_iff [simp]: "same_prop l r \<longleftrightarrow> l = r"
  by (auto simp: same_prop_def intro: located_prop.equality)

lemma zip_all_eq: "length xs = length ys \<Longrightarrow> list_all (\<lambda>(a, b). a = b) (zip xs ys) \<longleftrightarrow> xs = ys"
  by (induction xs ys rule: list_induct2) auto

lemma same_head_iff:
  "same_head l r \<longleftrightarrow> t_name l = t_name r \<and> t_origin l = t_origin r \<and> t_args l = t_args r \<and>
     t_props l = t_props r \<and> length (t_children l) = length (t_children r)"
  using zip_all_eq [of "t_args l" "t_args r"] zip_all_eq [of "t_props l" "t_props r"]
  by (auto simp: same_head_def)

lemma tree_eq_iff: "l = r \<longleftrightarrow> same_head l r \<and> list_all (\<lambda>(a, b). a = b) (zip (t_children l) (t_children r))"
  using zip_all_eq [of "t_children l" "t_children r"] by (cases l; cases r) (auto simp: same_head_iff)

lemma same_pending_iff: "same_pending ps \<longleftrightarrow> list_all (\<lambda>(a, b). a = b) ps"
proof (induction ps rule: same_pending.induct)
  case (2 l r pending)
  then show ?case using tree_eq_iff [of l r] by auto
qed simp

lemma same_nodes_eq [simp]: "same_nodes l r \<longleftrightarrow> l = r"
  using zip_all_eq [of l r] by (auto simp: same_nodes_def same_pending_iff)

text \<open>
  comparing two forests with the explicit stack decides exactly whether they are identical, with
  every name, argument, property, child, origin and float bit; the loop ends on every input.
\<close>

theorem same_nodes_iff: "same_nodes l r \<longleftrightarrow> l = r"
  by (rule same_nodes_eq)

subsection \<open>Revision vectors\<close>

lemma bt_ok_merge_entry [simp]: "bt_ok v \<Longrightarrow> bt_ok (merge_entry e v)"
  by (simp add: merge_entry_def split: option.splits)

lemma bt_ok_merge_max [simp]: "bt_ok v \<Longrightarrow> bt_ok (merge_max other v)"
  unfolding merge_max_def by (induction other arbitrary: v) simp_all

definition newer :: "source_rev option \<Rightarrow> source_rev option \<Rightarrow> source_rev option" where
  "newer x y = (case x of None \<Rightarrow> y | Some a \<Rightarrow> (case y of None \<Rightarrow> x | Some b \<Rightarrow> Some (max a b)))"

lemma bt_get_merge_entry:
  "bt_ok v \<Longrightarrow> bt_get s (merge_entry e v) = (if s = fst e then newer (bt_get s v) (Some (snd e)) else bt_get s v)"
  by (auto simp: merge_entry_def newer_def max_def split: option.splits)

lemma newer_assoc: "newer (newer x y) z = newer x (newer y z)"
  by (auto simp: newer_def max.assoc split: option.splits)

lemma newer_None [simp]: "newer x None = x" "newer None x = x"
  by (simp_all add: newer_def split: option.splits)

text \<open>Merging takes the newer revision of every source.\<close>

lemma bt_get_merge_max:
  assumes "bt_ok v" "bt_ok other"
  shows "bt_get s (merge_max other v) = newer (bt_get s v) (bt_get s other)"
  using assms unfolding merge_max_def
proof (induction other arbitrary: v)
  case (Cons e other)
  obtain k r where e: "e = (k, r)" by fastforce
  have k: "bt_ok other" "bt_get k other = None" using Cons.prems(2) e by (auto simp: bt_ok_Cons bt_get_fresh)
  show ?case using Cons.IH [OF bt_ok_merge_entry [OF Cons.prems(1), of e] k(1)] Cons.prems(1) k(2) e
    by (simp add: bt_get_merge_entry bt_get_Cons)
qed simp

text \<open>One vector is behind another when every source in it is in the other, at the same or a newer revision.\<close>

definition behind :: "rev_vector \<Rightarrow> rev_vector \<Rightarrow> bool" where
  "behind v w \<longleftrightarrow> (\<forall>s r. bt_get s v = Some r \<longrightarrow> (\<exists>q. bt_get s w = Some q \<and> r \<le> q))"

lemma behind_refl [simp]: "behind v v"
  by (simp add: behind_def)

lemma behind_trans: "behind u v \<Longrightarrow> behind v w \<Longrightarrow> behind u w"
  unfolding behind_def by (meson order_trans)

lemma behind_antisym: "bt_ok v \<Longrightarrow> bt_ok w \<Longrightarrow> behind v w \<Longrightarrow> behind w v \<Longrightarrow> v = w"
proof (rule bt_ext)
  fix s
  assume b: "behind v w" "behind w v"
  show "bt_get s v = bt_get s w"
  proof (cases "bt_get s v")
    case None
    with b(2) show ?thesis unfolding behind_def by (metis not_Some_eq)
  next
    case (Some r)
    with b(1) obtain q where "bt_get s w = Some q" "r \<le> q" unfolding behind_def by blast
    with b(2) Some show ?thesis unfolding behind_def by (metis option.inject order_antisym)
  qed
qed

lemma behind_merge_max: "bt_ok v \<Longrightarrow> bt_ok other \<Longrightarrow> behind v (merge_max other v) \<and> behind other (merge_max other v)"
  by (auto simp: behind_def bt_get_merge_max newer_def max.coboundedI1 max.coboundedI2 split: option.splits)

lemma first_moved_None: "first_moved v other = None \<longleftrightarrow> (\<forall>(s, r) \<in> set v. bt_get s other = Some r)"
  by (induction v other rule: first_moved.induct) (auto split: option.splits if_splits)

lemma first_difference_None:
  assumes "bt_ok v" "bt_ok other"
  shows "first_difference v other = None \<longleftrightarrow> v = other"
proof
  assume d: "first_difference v other = None"
  have m: "bt_get s v = Some r \<Longrightarrow> bt_get s other = Some r" for s r
    using d by (auto simp: first_difference_def first_moved_None split: option.splits dest!: bt_get_in)
  have n: "bt_get s v = None \<Longrightarrow> bt_get s other = None" for s
    using d by (auto simp: first_difference_def find_None_iff bt_get_None split: option.splits)
  show "v = other" using assms by (rule bt_ext) (metis m n not_None_eq)
next
  assume "v = other"
  then show "first_difference v other = None"
    using assms by (auto simp: first_difference_def find_None_iff first_moved_None bt_get_Some bt_get_None split: option.splits)
qed

subsection \<open>Histories\<close>

text \<open>What a \<open>Snapshot\<close> always is: a map in key order whose entries are filed under their own source.\<close>

definition snapshot_ok :: "snapshot \<Rightarrow> bool" where
  "snapshot_ok m \<longleftrightarrow> bt_ok m \<and> (\<forall>(k, s) \<in> set m. ss_source s = k)"

lemma snapshot_ok_Nil [simp]: "snapshot_ok []"
  by (simp add: snapshot_ok_def)

lemma snapshot_ok_insert [simp]: "snapshot_ok m \<Longrightarrow> snapshot_ok (snapshot_insert s m)"
proof -
  assume m: "snapshot_ok m"
  have "set (bt_insert k v n) \<subseteq> insert (k, v) (set n)" for k :: source_id and v n
    by (induction k v n rule: bt_insert.induct) auto
  with m show ?thesis by (fastforce simp: snapshot_ok_def snapshot_insert_def)
qed

lemma snapshot_get_insert [simp]:
  "snapshot_ok m \<Longrightarrow> snapshot_get i (snapshot_insert s m) = (if i = ss_source s then Some s else snapshot_get i m)"
  by (simp add: snapshot_get_def snapshot_insert_def snapshot_ok_def)

lemma snapshot_get_source: "snapshot_ok m \<Longrightarrow> snapshot_get i m = Some s \<Longrightarrow> ss_source s = i"
  by (auto simp: snapshot_ok_def snapshot_get_def dest!: bt_get_in)

lemma snapshot_sources_iff: "snapshot_ok m \<Longrightarrow> s \<in> set (snapshot_sources m) \<longleftrightarrow> snapshot_get (ss_source s) m = Some s"
  by (force simp: snapshot_ok_def snapshot_sources_def bt_values_def snapshot_get_def bt_get_Some)

lemma bt_get_revs [simp]: "bt_get s (revs m) = map_option ss_rev (snapshot_get s m)"
  by (simp add: revs_def snapshot_get_def)

lemma bt_ok_revs [simp]: "snapshot_ok m \<Longrightarrow> bt_ok (revs m)"
  by (simp add: revs_def snapshot_ok_def)

lemma snapshot_ext:
  "snapshot_ok m \<Longrightarrow> snapshot_ok n \<Longrightarrow> (\<And>i. snapshot_get i m = snapshot_get i n) \<Longrightarrow> m = n"
  unfolding snapshot_ok_def snapshot_get_def by (rule bt_ext) auto

definition succeeds :: "source_snapshot \<Rightarrow> source_snapshot \<Rightarrow> bool" where
  "succeeds old new \<longleftrightarrow> ss_rev old < ss_rev new \<or>
     ss_rev new = ss_rev old \<and> ss_content new = ss_content old \<and> ss_nodes new = ss_nodes old"

lemma check_history_iff:
  "check_history olds m = Inr () \<longleftrightarrow>
     (\<forall>old \<in> set olds. \<exists>new. snapshot_get (ss_source old) m = Some new \<and> succeeds old new)"
  by (induction olds m rule: check_history.induct)
    (auto simp: succeeds_def split: option.splits)

definition no_zero :: "snapshot \<Rightarrow> bool" where
  "no_zero m \<longleftrightarrow> (\<forall>s \<in> set (snapshot_sources m). 0 < ss_rev s)"

lemma validate_successor_iff:
  assumes "snapshot_ok m"
  shows "validate_successor m m2 = Inr () \<longleftrightarrow> no_zero m \<and> no_zero m2 \<and>
    (\<forall>i old. snapshot_get i m = Some old \<longrightarrow> (\<exists>new. snapshot_get i m2 = Some new \<and> succeeds old new))"
proof -
  have "check_history (snapshot_sources m) m2 = Inr () \<longleftrightarrow>
      (\<forall>i old. snapshot_get i m = Some old \<longrightarrow> (\<exists>new. snapshot_get i m2 = Some new \<and> succeeds old new))"
    (is "?c \<longleftrightarrow> ?r")
  proof
    assume c: ?c
    show ?r
    proof (intro allI impI)
      fix i old
      assume "snapshot_get i m = Some old"
      with snapshot_get_source [OF assms this] snapshot_sources_iff [OF assms, of old]
      have "old \<in> set (snapshot_sources m)" "ss_source old = i" by simp_all
      with c show "\<exists>new. snapshot_get i m2 = Some new \<and> succeeds old new" unfolding check_history_iff by blast
    qed
  next
    assume r: ?r
    show ?c unfolding check_history_iff
    proof
      fix old
      assume "old \<in> set (snapshot_sources m)"
      then have "snapshot_get (ss_source old) m = Some old" using snapshot_sources_iff [OF assms] by simp
      with r show "\<exists>new. snapshot_get (ss_source old) m2 = Some new \<and> succeeds old new" by blast
    qed
  qed
  then show ?thesis by (auto simp: validate_successor_def no_zero_def list_ex_iff)
qed

lemma succeeds_trans: "succeeds a b \<Longrightarrow> succeeds b c \<Longrightarrow> succeeds a c"
  by (auto simp: succeeds_def)

lemma observe_rev:
  assumes "observe source content nodes previous = Inr s"
  shows "s = \<lparr>ss_source = source, ss_rev = ss_rev s, ss_content = content, ss_nodes = nodes\<rparr> \<and>
    (case previous of
       None \<Rightarrow> ss_rev s = 1
     | Some p \<Rightarrow> ss_source p = source \<and>
         (if ss_content p = content then ss_nodes p = nodes \<and> ss_rev s = ss_rev p else ss_rev s = ss_rev p + 1))"
  using assms
  by (auto simp: observe_def Let_def rev_next_def checked_add_def split: option.splits if_splits)

lemma observe_succeeds: "observe source content nodes (Some p) = Inr s \<Longrightarrow> succeeds p s"
  using observe_rev [of source content nodes "Some p" s] by (auto simp: succeeds_def split: if_splits)

lemma no_zero_insert: "snapshot_ok m \<Longrightarrow> no_zero m \<Longrightarrow> 0 < ss_rev s \<Longrightarrow> no_zero (snapshot_insert s m)"
  unfolding no_zero_def
proof
  fix x
  assume a: "snapshot_ok m" "\<forall>s \<in> set (snapshot_sources m). 0 < ss_rev s" "0 < ss_rev s"
    and x: "x \<in> set (snapshot_sources (snapshot_insert s m))"
  from x a(1) have "snapshot_get (ss_source x) (snapshot_insert s m) = Some x"
    using snapshot_sources_iff snapshot_ok_insert by blast
  then have "x = s \<or> snapshot_get (ss_source x) m = Some x" using a(1) by (auto split: if_splits)
  then show "0 < ss_rev x" using a snapshot_sources_iff by blast
qed

lemma observe_rev_pos: "observe source content nodes previous = Inr s \<Longrightarrow> (\<And>p. previous = Some p \<Longrightarrow> 0 < ss_rev p) \<Longrightarrow> 0 < ss_rev s"
  using observe_rev [of source content nodes previous s] by (auto split: option.splits if_splits)

lemma no_zero_get: "snapshot_ok m \<Longrightarrow> no_zero m \<Longrightarrow> snapshot_get i m = Some s \<Longrightarrow> 0 < ss_rev s"
  using snapshot_get_source [of m i s] by (auto simp: no_zero_def snapshot_sources_iff)

lemma observed_successor:
  assumes "snapshot_ok m" "no_zero m" "observe source content nodes (snapshot_get source m) = Inr s"
  shows "validate_successor m (snapshot_insert s m) = Inr ()"
proof -
  have s: "ss_source s = source" using observe_rev [OF assms(3)] by (metis source_snapshot.select_convs(1))
  have "0 < ss_rev s" using observe_rev_pos [OF assms(3)] no_zero_get [OF assms(1,2)] by blast
  moreover have "succeeds old s" if "snapshot_get source m = Some old" for old
    using observe_succeeds assms(3) that by simp
  ultimately show ?thesis using assms(1,2) s
    by (auto simp: validate_successor_iff no_zero_insert succeeds_def)
qed

text \<open>
  a conditional observation either changes nothing, or was made against exactly the expected
  revision and yields a valid successor of the snapshot in which only the observed source has changed:
  its revision is 1 when it is new, the old one when the content identity is the same (and then the
  trees are the same), and one more otherwise.
\<close>

theorem observe_if_history:
  assumes "snapshot_ok m" "no_zero m" "observe_if source expected content nodes m = (result, m2)"
  shows "case result of
      Inl _ \<Rightarrow> m2 = m
    | Inr r \<Rightarrow> expected = map_option ss_rev (snapshot_get source m) \<and> validate_successor m m2 = Inr () \<and>
        snapshot_get source m2 = Some \<lparr>ss_source = source, ss_rev = r, ss_content = content, ss_nodes = nodes\<rparr> \<and>
        (\<forall>i. i \<noteq> source \<longrightarrow> snapshot_get i m2 = snapshot_get i m) \<and>
        r = (case snapshot_get source m of
               None \<Rightarrow> 1 | Some p \<Rightarrow> if ss_content p = content then ss_rev p else ss_rev p + 1)"
proof (cases "map_option ss_rev (snapshot_get source m) = expected")
  case False
  then show ?thesis using assms(3) by (auto simp: observe_if_def Let_def)
next
  case e: True
  show ?thesis
  proof (cases "observe source content nodes (snapshot_get source m)")
    case (Inl x)
    then show ?thesis using assms(3) e by (auto simp: observe_if_def)
  next
    case (Inr s)
    note r = observe_rev [OF Inr]
    have "result = Inr (ss_rev s)" "m2 = snapshot_insert s m" using assms(3) e Inr by (auto simp: observe_if_def)
    moreover have "ss_source s = source" using r by (metis source_snapshot.select_convs(1))
    ultimately show ?thesis using r e assms(1) observed_successor [OF assms(1,2) Inr]
      by (auto split: option.splits)
  qed
qed

theorem observe_if_history_witness:
  "fst (observe_if source_admin None ''c'' [] []) = Inr 1 \<and>
   snapshot_get source_admin (snd (observe_if source_admin None ''c'' [] [])) =
     Some \<lparr>ss_source = source_admin, ss_rev = 1, ss_content = ''c'', ss_nodes = []\<rparr>"
proof -
  obtain r m where rm: "observe_if source_admin None ''c'' [] [] = (r, m)" by fastforce
  then have r: "r = Inr 1" by (simp add: observe_if_def observe_def snapshot_get_def bt_get_def)
  have "no_zero []" by (simp add: no_zero_def snapshot_sources_def bt_values_def)
  note h = observe_if_history [OF snapshot_ok_Nil this rm]
  show ?thesis using h unfolding rm r sum.case fst_conv snd_conv by blast
qed

text \<open>
  the history check is a preorder on snapshots: a valid snapshot follows itself, and a successor of
  a successor is a successor, so checking each step of a recovery checks the whole recovery; a successor
  never omits a source nor lowers a revision.
\<close>

theorem history_preorder:
  assumes "snapshot_ok a" "snapshot_ok b" "validate_successor a b = Inr ()" "validate_successor b c = Inr ()"
  shows "validate_successor a c = Inr () \<and> validate_successor a a = Inr () \<and> behind (revs a) (revs b)"
proof -
  note ab = assms(3) [unfolded validate_successor_iff [OF assms(1)]]
  note bc = assms(4) [unfolded validate_successor_iff [OF assms(2)]]
  have "\<exists>new. snapshot_get i c = Some new \<and> succeeds old new" if old: "snapshot_get i a = Some old" for i old
  proof -
    obtain mid where "snapshot_get i b = Some mid" "succeeds old mid" using ab old by blast
    moreover from this(1) obtain new where "snapshot_get i c = Some new" "succeeds mid new" using bc by blast
    ultimately show ?thesis using succeeds_trans by blast
  qed
  moreover have "behind (revs a) (revs b)"
    unfolding behind_def
  proof (intro allI impI)
    fix i r
    assume "bt_get i (revs a) = Some r"
    then obtain old where "snapshot_get i a = Some old" "ss_rev old = r" by auto
    moreover from this(1) obtain new where "snapshot_get i b = Some new" "succeeds old new" using ab by blast
    ultimately show "\<exists>q. bt_get i (revs b) = Some q \<and> r \<le> q" by (auto simp: succeeds_def)
  qed
  ultimately show ?thesis using ab bc unfolding validate_successor_iff [OF assms(1)] succeeds_def by blast
qed

definition sample_source :: "source_rev \<Rightarrow> source_snapshot" where
  "sample_source r = \<lparr>ss_source = source_file ''main'', ss_rev = r, ss_content = ''c'', ss_nodes = []\<rparr>"

lemma sample_successor: "0 < r \<Longrightarrow> validate_successor (snapshot_insert (sample_source r) []) (snapshot_insert (sample_source (Suc r)) []) = Inr ()"
  by (simp add: validate_successor_def sample_source_def snapshot_get_def snapshot_sources_def bt_values_def
      snapshot_insert_def bt_get_def)

theorem history_preorder_witness:
  "validate_successor (snapshot_insert (sample_source 1) []) (snapshot_insert (sample_source (Suc (Suc 1))) []) = Inr ()"
  using history_preorder [OF _ _ sample_successor [of 1] sample_successor [of "Suc 1"]] by simp

end
