(* ===== verification/Snapshot_Codec.thy ===== *)
theory Snapshot_Codec
  imports Snapshots
begin

text \<open>
  The bounded binary encoding of snapshots (\<open>gatel-model/src/snapshot_codec.rs\<close>): the writer and the
  reader with their shared budget, and the proof that reading gives back what was written, so that a
  checkpoint restores exactly the snapshot it was made of.

  \<open>usize\<close> is 64 bits wide. Every error of the code is a value of \<open>codec_error\<close>.
\<close>

definition magic :: bytes where "magic = ''GATELS01''"
definition header_len :: nat where "header_len = 40"
definition max_bytes :: nat where "max_bytes = 16777216"
definition max_string :: nat where "max_string = 1048576"
definition max_sources :: nat where "max_sources = 256"
definition max_nodes :: nat where "max_nodes = 65536"
definition max_values :: nat where "max_values = 262144"
definition max_depth :: nat where "max_depth = 64"

lemmas codec_limits = max_bytes_def max_string_def max_sources_def max_nodes_def max_values_def max_depth_def
  header_len_def

datatype codec_error = Limit | Invalid

definition checksum :: "digest \<Rightarrow> bytes \<Rightarrow> fingerprint" where
  "checksum digest bs = finish digest (update_bytes bs (update_str ''gatel.snapshot.codec.v1'' hasher_new))"

record budget =
  bg_nodes :: nat
  bg_values :: nat

definition budget_default :: budget where
  "budget_default = \<lparr>bg_nodes = 0, bg_values = 0\<rparr>"

definition budget_node :: "nat \<Rightarrow> budget \<Rightarrow> codec_error + budget" where
  "budget_node depth b =
     (let b = b\<lparr>bg_nodes := bg_nodes b + 1\<rparr> in
      if max_depth < depth \<or> max_nodes < bg_nodes b then Inl Limit else Inr b)"

definition budget_values :: "nat \<Rightarrow> budget \<Rightarrow> codec_error + budget" where
  "budget_values n b =
     (case checked_add u64_max (bg_values b) n of
        None \<Rightarrow> Inl Limit
      | Some v \<Rightarrow> if max_values < v then Inl Limit else Inr (b\<lparr>bg_values := v\<rparr>))"

subsection \<open>The writer\<close>

record writer =
  wr_bytes :: bytes
  wr_budget :: budget

definition put_raw :: "bytes \<Rightarrow> writer \<Rightarrow> codec_error + writer" where
  "put_raw bs w =
     (if max_bytes - length (wr_bytes w) < length bs then Inl Limit else Inr (w\<lparr>wr_bytes := wr_bytes w @ bs\<rparr>))"

definition put_byte :: "nat \<Rightarrow> writer \<Rightarrow> codec_error + writer" where
  "put_byte t w = put_raw [char_of t] w"

definition put_u32 :: "nat \<Rightarrow> writer \<Rightarrow> codec_error + writer" where
  "put_u32 v w = put_raw (le_bytes 4 v) w"

definition put_u64 :: "nat \<Rightarrow> writer \<Rightarrow> codec_error + writer" where
  "put_u64 v w = put_raw (le_bytes 8 v) w"

definition put_count :: "nat \<Rightarrow> nat \<Rightarrow> writer \<Rightarrow> codec_error + writer" where
  "put_count bound n w = (if bound < n then Inl Limit else put_u32 n w)"

definition put_string :: "bytes \<Rightarrow> writer \<Rightarrow> codec_error + writer" where
  "put_string text w = and_then (put_count max_string (length text) w) (put_raw text)"

fun put_location :: "origin_kind \<Rightarrow> writer \<Rightarrow> codec_error + writer" where
  "put_location (FileOrigin file sp) w =
     and_then (put_byte 0 w) (\<lambda>w. and_then (put_string file w) (\<lambda>w.
       and_then (put_u64 (span_offset sp) w) (\<lambda>w. and_then (put_u64 (span_length sp) w) (\<lambda>w.
         and_then (put_u32 (span_line sp) w) (put_u32 (span_column sp))))))"
| "put_location (ApiOrigin source pointer) w =
     and_then (put_byte 1 w) (\<lambda>w. and_then (put_string source w) (put_string pointer))"
| "put_location (SyntheticOrigin reason) w = and_then (put_byte 2 w) (put_string reason)"

definition put_origin :: "origin \<Rightarrow> writer \<Rightarrow> codec_error + writer" where
  "put_origin orig w = and_then (put_location (origin_kind orig) w) (put_string (origin_path orig))"

fun put_scalar :: "scalar \<Rightarrow> writer \<Rightarrow> codec_error + writer" where
  "put_scalar ScalarNull w = put_byte 0 w"
| "put_scalar (ScalarBool b) w = put_byte (if b then 2 else 1) w"
| "put_scalar (ScalarInt i) w = and_then (put_byte 3 w) (put_u64 (nat (i mod 2 ^ 64)))"
| "put_scalar (ScalarFloat f) w = and_then (put_byte 4 w) (put_u64 (unat f))"
| "put_scalar (ScalarStr s) w = and_then (put_byte 5 w) (put_string s)"

definition put_value :: "located \<Rightarrow> writer \<Rightarrow> codec_error + writer" where
  "put_value v w = and_then (put_scalar (lv_scalar v) w) (put_origin (lv_origin v))"

definition put_prop :: "located_prop \<Rightarrow> writer \<Rightarrow> codec_error + writer" where
  "put_prop p w =
     and_then (put_string (lp_name p) w) (\<lambda>w. and_then (put_origin (lp_origin p) w) (put_value (lp_value p)))"

fun put_list :: "('a \<Rightarrow> writer \<Rightarrow> codec_error + writer) \<Rightarrow> 'a list \<Rightarrow> writer \<Rightarrow> codec_error + writer" where
  "put_list put [] w = Inr w"
| "put_list put (x # xs) w = and_then (put x w) (put_list put xs)"

definition put_budget :: "(budget \<Rightarrow> codec_error + budget) \<Rightarrow> writer \<Rightarrow> codec_error + writer" where
  "put_budget f w = and_then (f (wr_budget w)) (\<lambda>b. Inr (w\<lparr>wr_budget := b\<rparr>))"

text \<open>The values of a node: charged to the budget, counted, then written.\<close>

definition put_values :: "('a \<Rightarrow> writer \<Rightarrow> codec_error + writer) \<Rightarrow> 'a list \<Rightarrow> writer \<Rightarrow> codec_error + writer" where
  "put_values put xs w =
     and_then (put_budget (budget_values (length xs)) w) (\<lambda>w.
       and_then (put_count max_values (length xs) w) (put_list put xs))"

text \<open>The loop body of \<open>nodes\<close> over the remaining nodes of one level.\<close>

fun put_nodes_from :: "nat \<Rightarrow> tree list \<Rightarrow> writer \<Rightarrow> codec_error + writer" where
  "put_nodes_from depth [] w = Inr w"
| "put_nodes_from depth (Tree name args props children orig # rest) w =
     and_then (put_budget (budget_node depth) w) (\<lambda>w.
     and_then (put_string name w) (\<lambda>w.
     and_then (put_origin orig w) (\<lambda>w.
     and_then (put_values put_value args w) (\<lambda>w.
     and_then (put_values put_prop props w) (\<lambda>w.
     and_then (put_count max_nodes (length children) w) (\<lambda>w.
     and_then (put_nodes_from (depth + 1) children w) (\<lambda>w.
     put_nodes_from depth rest w)))))))"

definition put_nodes :: "nat \<Rightarrow> tree list \<Rightarrow> writer \<Rightarrow> codec_error + writer" where
  "put_nodes depth ts w = and_then (put_count max_nodes (length ts) w) (put_nodes_from depth ts)"

fun source_tag :: "source_kind \<Rightarrow> nat" where
  "source_tag FileSource = 0"
| "source_tag AdminSource = 1"
| "source_tag KubernetesSource = 2"

definition put_source :: "source_snapshot \<Rightarrow> writer \<Rightarrow> codec_error + writer" where
  "put_source s w =
     and_then (put_byte (source_tag (source_kind (ss_source s))) w) (\<lambda>w.
     and_then (put_string (source_name (ss_source s)) w) (\<lambda>w.
     and_then (put_u64 (ss_rev s) w) (\<lambda>w.
     and_then (put_raw (ss_content s) w) (put_nodes 1 (ss_nodes s)))))"

definition encode :: "digest \<Rightarrow> snapshot \<Rightarrow> codec_error + bytes" where
  "encode digest m =
     (let w = \<lparr>wr_bytes = replicate header_len (char_of (0::nat)), wr_budget = budget_default\<rparr>;
          sources = snapshot_sources m in
      and_then (and_then (put_count max_sources (length sources) w) (put_list put_source sources))
        (\<lambda>w. let body = drop header_len (wr_bytes w) in Inr (magic @ checksum digest body @ body)))"

subsection \<open>The reader\<close>

record reader =
  rd_bytes :: bytes
  rd_budget :: budget

type_synonym 'a read = "codec_error + ('a \<times> reader)"

definition take_raw :: "nat \<Rightarrow> reader \<Rightarrow> bytes read" where
  "take_raw n r =
     (if n \<le> length (rd_bytes r) then Inr (take n (rd_bytes r), r\<lparr>rd_bytes := drop n (rd_bytes r)\<rparr>)
      else Inl Invalid)"

definition take_byte :: "reader \<Rightarrow> nat read" where
  "take_byte r = and_then (take_raw 1 r) (\<lambda>(bs, r). Inr (code (hd bs), r))"

definition take_u32 :: "reader \<Rightarrow> nat read" where
  "take_u32 r = and_then (take_raw 4 r) (\<lambda>(bs, r). Inr (le_value bs, r))"

definition take_u64 :: "reader \<Rightarrow> nat read" where
  "take_u64 r = and_then (take_raw 8 r) (\<lambda>(bs, r). Inr (le_value bs, r))"

definition take_count :: "nat \<Rightarrow> reader \<Rightarrow> nat read" where
  "take_count bound r = and_then (take_u32 r) (\<lambda>(n, r). if bound < n then Inl Limit else Inr (n, r))"

definition take_string :: "reader \<Rightarrow> bytes read" where
  "take_string r =
     and_then (take_count max_string r) (\<lambda>(n, r).
       and_then (take_raw n r) (\<lambda>(text, r). if utf8_valid text then Inr (text, r) else Inl Invalid))"

definition take_location :: "reader \<Rightarrow> origin read" where
  "take_location r =
     and_then (take_byte r) (\<lambda>(t, r).
       if t = 0 then
         and_then (take_string r) (\<lambda>(file, r). and_then (take_u64 r) (\<lambda>(offset, r).
           and_then (take_u64 r) (\<lambda>(len, r). and_then (take_u32 r) (\<lambda>(line, r).
             and_then (take_u32 r) (\<lambda>(column, r).
               Inr (origin_file file \<lparr>span_offset = offset, span_length = len, span_line = line,
                 span_column = column\<rparr>, r))))))
       else if t = 1 then
         and_then (take_string r) (\<lambda>(source, r). and_then (take_string r) (\<lambda>(pointer, r).
           Inr (origin_api source pointer, r)))
       else if t = 2 then and_then (take_string r) (\<lambda>(reason, r). Inr (origin_synthetic reason, r))
       else Inl Invalid)"

definition take_origin :: "reader \<Rightarrow> origin read" where
  "take_origin r =
     and_then (take_location r) (\<lambda>(orig, r). and_then (take_string r) (\<lambda>(path, r). Inr (origin_field orig path, r)))"

text \<open>\<open>i64::from_le_bytes\<close> reads two's complement.\<close>

definition signed64 :: "nat \<Rightarrow> int" where
  "signed64 n = (if n < 2 ^ 63 then int n else int n - 2 ^ 64)"

definition take_scalar :: "reader \<Rightarrow> scalar read" where
  "take_scalar r =
     and_then (take_byte r) (\<lambda>(t, r).
       if t = 0 then Inr (ScalarNull, r)
       else if t = 1 then Inr (ScalarBool False, r)
       else if t = 2 then Inr (ScalarBool True, r)
       else if t = 3 then and_then (take_u64 r) (\<lambda>(v, r). Inr (ScalarInt (signed64 v), r))
       else if t = 4 then and_then (take_u64 r) (\<lambda>(v, r). Inr (ScalarFloat (word_of_nat v), r))
       else if t = 5 then and_then (take_string r) (\<lambda>(s, r). Inr (ScalarStr s, r))
       else Inl Invalid)"

definition take_value :: "reader \<Rightarrow> located read" where
  "take_value r =
     and_then (take_scalar r) (\<lambda>(s, r). and_then (take_origin r) (\<lambda>(orig, r).
       Inr (\<lparr>lv_scalar = s, lv_origin = orig\<rparr>, r)))"

definition take_prop :: "reader \<Rightarrow> located_prop read" where
  "take_prop r =
     and_then (take_string r) (\<lambda>(name, r). and_then (take_origin r) (\<lambda>(orig, r).
       and_then (take_value r) (\<lambda>(v, r). Inr (\<lparr>lp_name = name, lp_value = v, lp_origin = orig\<rparr>, r))))"

fun take_list :: "(reader \<Rightarrow> 'a read) \<Rightarrow> nat \<Rightarrow> reader \<Rightarrow> 'a list read" where
  "take_list f 0 r = Inr ([], r)"
| "take_list f (Suc n) r = and_then (f r) (\<lambda>(x, r). and_then (take_list f n r) (\<lambda>(xs, r). Inr (x # xs, r)))"

definition take_budget :: "(budget \<Rightarrow> codec_error + budget) \<Rightarrow> reader \<Rightarrow> codec_error + reader" where
  "take_budget f r = and_then (f (rd_budget r)) (\<lambda>b. Inr (r\<lparr>rd_budget := b\<rparr>))"

definition take_values :: "(reader \<Rightarrow> 'a read) \<Rightarrow> reader \<Rightarrow> 'a list read" where
  "take_values f r =
     and_then (take_count max_values r) (\<lambda>(n, r).
       and_then (take_budget (budget_values n) r) (take_list f n))"

text \<open>
  The reader recurses as the encoded tree does. It ends on every input: a level deeper than the limit
  fails before it descends again.
\<close>

function take_nodes :: "nat \<Rightarrow> reader \<Rightarrow> tree list read"
  and take_nodes_from :: "nat \<Rightarrow> nat \<Rightarrow> reader \<Rightarrow> tree list read" where
  "take_nodes depth r =
     (case take_count max_nodes r of Inl e \<Rightarrow> Inl e | Inr (n, r) \<Rightarrow> take_nodes_from depth n r)"
| "take_nodes_from depth 0 r = Inr ([], r)"
| "take_nodes_from depth (Suc n) r =
     (case take_budget (budget_node depth) r of
        Inl e \<Rightarrow> Inl e
      | Inr r \<Rightarrow>
          and_then (take_string r) (\<lambda>(name, r).
          and_then (take_origin r) (\<lambda>(orig, r).
          and_then (take_values take_value r) (\<lambda>(args, r).
          and_then (take_values take_prop r) (\<lambda>(props, r).
          and_then (take_nodes (depth + 1) r) (\<lambda>(children, r).
          and_then (take_nodes_from depth n r) (\<lambda>(rest, r).
            Inr (Tree name args props children orig # rest, r))))))))"
  by pat_completeness auto

lemma take_budget_node_depth: "take_budget (budget_node depth) r = Inr r2 \<Longrightarrow> depth \<le> max_depth"
  by (auto simp: take_budget_def budget_node_def Let_def split: if_splits)

termination take_nodes
  by (relation "inv_image (less_than <*lex*> less_than <*lex*> less_than)
      (\<lambda>x. case x of Inl (d, r) \<Rightarrow> (max_depth + 2 - d, 1, 0) | Inr (d, n, r) \<Rightarrow> (max_depth + 2 - d, 0, n))")
    (auto dest: take_budget_node_depth)

definition take_source_id :: "reader \<Rightarrow> source_id read" where
  "take_source_id r =
     and_then (take_byte r) (\<lambda>(t, r). and_then (take_string r) (\<lambda>(name, r).
       if t = 0 then Inr (source_file name, r)
       else if t = 1 \<and> name = source_name source_admin then Inr (source_admin, r)
       else if t = 2 then Inr (source_kubernetes name, r)
       else Inl Invalid))"

text \<open>The loop of \<open>decode\<close> over the remaining sources, with the last source read.\<close>

fun take_sources :: "nat \<Rightarrow> source_id option \<Rightarrow> snapshot \<Rightarrow> reader \<Rightarrow> snapshot read" where
  "take_sources 0 previous m r = Inr (m, r)"
| "take_sources (Suc n) previous m r =
     and_then (take_source_id r) (\<lambda>(source, r).
       if (case previous of Some p \<Rightarrow> source \<le> p | None \<Rightarrow> False) then Inl Invalid
       else
         and_then (take_u64 r) (\<lambda>(revision, r).
         and_then (take_raw 32 r) (\<lambda>(content, r).
         and_then (take_nodes 1 r) (\<lambda>(nodes, r).
           take_sources n (Some source)
             (snapshot_insert
               \<lparr>ss_source = source, ss_rev = revision, ss_content = content, ss_nodes = nodes\<rparr> m) r))))"

definition decode :: "digest \<Rightarrow> bytes \<Rightarrow> codec_error + snapshot" where
  "decode digest bs =
     (if max_bytes < length bs then Inl Limit
      else if length bs < header_len \<or> take 8 bs \<noteq> magic \<or>
          checksum digest (drop header_len bs) \<noteq> take 32 (drop 8 bs) then Inl Invalid
      else
        and_then (take_count max_sources \<lparr>rd_bytes = drop header_len bs, rd_budget = budget_default\<rparr>) (\<lambda>(n, r).
        and_then (take_sources n None [] r) (\<lambda>(m, r).
          if rd_bytes r \<noteq> [] then Inl Invalid else Inr m)))"

subsection \<open>Writing, then reading\<close>

text \<open>
  A writing step carries a value when reading what it appended, with the budget it started from, gives
  the value back, leaves what follows unread, and ends with the same budget.
\<close>

definition carries :: "(writer \<Rightarrow> codec_error + writer) \<Rightarrow> (reader \<Rightarrow> 'a read) \<Rightarrow> 'a \<Rightarrow> bool" where
  "carries put get x \<longleftrightarrow>
     (\<forall>w w2. put w = Inr w2 \<longrightarrow>
        (\<exists>bs. wr_bytes w2 = wr_bytes w @ bs \<and>
           (\<forall>rest. get \<lparr>rd_bytes = bs @ rest, rd_budget = wr_budget w\<rparr> =
              Inr (x, \<lparr>rd_bytes = rest, rd_budget = wr_budget w2\<rparr>))))"

lemma carriesI:
  assumes "\<And>w w2. put w = Inr w2 \<Longrightarrow> \<exists>bs. wr_bytes w2 = wr_bytes w @ bs \<and>
     (\<forall>rest. get \<lparr>rd_bytes = bs @ rest, rd_budget = wr_budget w\<rparr> = Inr (x, \<lparr>rd_bytes = rest, rd_budget = wr_budget w2\<rparr>))"
  shows "carries put get x"
  using assms by (simp add: carries_def)

lemma carriesE:
  assumes "carries put get x" "put w = Inr w2"
  obtains bs where "wr_bytes w2 = wr_bytes w @ bs"
    "\<And>rest. get \<lparr>rd_bytes = bs @ rest, rd_budget = wr_budget w\<rparr> = Inr (x, \<lparr>rd_bytes = rest, rd_budget = wr_budget w2\<rparr>)"
  using assms unfolding carries_def by blast

lemma carries_seq:
  assumes "carries p f x" "carries q (g x) y"
  shows "carries (\<lambda>w. and_then (p w) q) (\<lambda>r. and_then (f r) (case_prod g)) y"
proof (rule carriesI)
  fix w w3
  assume "and_then (p w) q = Inr w3"
  then obtain w2 where w2: "p w = Inr w2" "q w2 = Inr w3" by auto
  obtain bs where bs: "wr_bytes w2 = wr_bytes w @ bs"
    "\<And>rest. f \<lparr>rd_bytes = bs @ rest, rd_budget = wr_budget w\<rparr> = Inr (x, \<lparr>rd_bytes = rest, rd_budget = wr_budget w2\<rparr>)"
    by (rule carriesE [OF assms(1) w2(1)]) blast
  obtain cs where cs: "wr_bytes w3 = wr_bytes w2 @ cs"
    "\<And>rest. g x \<lparr>rd_bytes = cs @ rest, rd_budget = wr_budget w2\<rparr> = Inr (y, \<lparr>rd_bytes = rest, rd_budget = wr_budget w3\<rparr>)"
    by (rule carriesE [OF assms(2) w2(2)]) blast
  show "\<exists>bs. wr_bytes w3 = wr_bytes w @ bs \<and>
      (\<forall>rest. and_then (f \<lparr>rd_bytes = bs @ rest, rd_budget = wr_budget w\<rparr>) (case_prod g) =
         Inr (y, \<lparr>rd_bytes = rest, rd_budget = wr_budget w3\<rparr>))"
    by (rule exI [of _ "bs @ cs"]) (simp add: bs cs)
qed

lemma carries_result:
  assumes "carries p f x" "\<And>r. g x r = Inr (y, r)"
  shows "carries p (\<lambda>r. and_then (f r) (case_prod g)) y"
  using assms unfolding carries_def by fastforce

lemma carries_last:
  assumes "carries p f x" "y = g x"
  shows "carries p (\<lambda>r. and_then (f r) (\<lambda>(x, r). Inr (g x, r))) y"
  using assms unfolding carries_def by fastforce

lemma carries_done: "carries Inr (\<lambda>r. Inr (x, r)) x"
  by (simp add: carries_def)

lemma carries_eq: "(\<And>w. p w = p2 w) \<Longrightarrow> (\<And>r. f r = f2 r) \<Longrightarrow> carries p2 f2 x \<Longrightarrow> carries p f x"
  by (simp add: carries_def)

lemma carries_raw: "length bs = n \<Longrightarrow> carries (put_raw bs) (take_raw n) bs"
  by (rule carriesI) (auto simp: put_raw_def take_raw_def split: if_splits)

lemma carries_raw_with:
  "carries (put_raw bs) (\<lambda>r. and_then (take_raw n r) (\<lambda>(bs, r). Inr (g bs, r))) y" if "length bs = n" "y = g bs"
  by (rule carries_last [where g = g, OF carries_raw [OF that(1)] that(2)])

lemma carries_byte: "t < 256 \<Longrightarrow> carries (put_byte t) take_byte t"
  unfolding put_byte_def [abs_def] take_byte_def [abs_def] by (rule carries_raw_with) simp_all

lemma carries_u32: "v < 2 ^ 32 \<Longrightarrow> carries (put_u32 v) take_u32 v"
  unfolding put_u32_def [abs_def] take_u32_def [abs_def] by (rule carries_raw_with) (simp_all add: le_value_bytes)

lemma carries_u64: "v < 2 ^ 64 \<Longrightarrow> carries (put_u64 v) take_u64 v"
  unfolding put_u64_def [abs_def] take_u64_def [abs_def] by (rule carries_raw_with) (simp_all add: le_value_bytes)

lemma carries_count: "bound < 2 ^ 32 \<Longrightarrow> carries (put_count bound n) (take_count bound) n"
proof (rule carriesI)
  fix w w2
  assume b: "bound < 2 ^ 32" and "put_count bound n w = Inr w2"
  then have n: "n \<le> bound" "put_u32 n w = Inr w2" by (auto simp: put_count_def split: if_splits)
  then have "carries (put_u32 n) take_u32 n" using b by (intro carries_u32) simp
  from carriesE [OF this n(2)] obtain bs where "wr_bytes w2 = wr_bytes w @ bs"
    "\<And>rest. take_u32 \<lparr>rd_bytes = bs @ rest, rd_budget = wr_budget w\<rparr> = Inr (n, \<lparr>rd_bytes = rest, rd_budget = wr_budget w2\<rparr>)"
    by blast
  with n(1) show "\<exists>bs. wr_bytes w2 = wr_bytes w @ bs \<and>
      (\<forall>rest. take_count bound \<lparr>rd_bytes = bs @ rest, rd_budget = wr_budget w\<rparr> =
         Inr (n, \<lparr>rd_bytes = rest, rd_budget = wr_budget w2\<rparr>))"
    by (intro exI [of _ bs]) (simp add: take_count_def)
qed

lemma carries_string: "utf8_valid s \<Longrightarrow> carries (put_string s) take_string s"
  unfolding put_string_def [abs_def] take_string_def [abs_def]
proof (rule carries_seq [OF carries_count])
  show "max_string < 2 ^ 32" by (simp add: max_string_def)
  assume "utf8_valid s"
  then show "carries (put_raw s) (\<lambda>r. and_then (take_raw (length s) r)
      (\<lambda>(text, r). if utf8_valid text then Inr (text, r) else Inl Invalid)) s"
    by (intro carries_result [OF carries_raw]) simp_all
qed

text \<open>What the types of the Rust values guarantee.\<close>

fun location_fits :: "origin_kind \<Rightarrow> bool" where
  "location_fits (FileOrigin file sp) \<longleftrightarrow> utf8_valid file \<and> span_offset sp < 2 ^ 64 \<and> span_length sp < 2 ^ 64 \<and>
     span_line sp < 2 ^ 32 \<and> span_column sp < 2 ^ 32"
| "location_fits (ApiOrigin source pointer) \<longleftrightarrow> utf8_valid source \<and> utf8_valid pointer"
| "location_fits (SyntheticOrigin reason) \<longleftrightarrow> utf8_valid reason"

definition origin_fits :: "origin \<Rightarrow> bool" where
  "origin_fits orig \<longleftrightarrow> location_fits (origin_kind orig) \<and> utf8_valid (origin_path orig)"

fun scalar_fits :: "scalar \<Rightarrow> bool" where
  "scalar_fits (ScalarInt i) \<longleftrightarrow> - (2 ^ 63) \<le> i \<and> i < 2 ^ 63"
| "scalar_fits (ScalarStr s) \<longleftrightarrow> utf8_valid s"
| "scalar_fits _ \<longleftrightarrow> True"

definition value_fits :: "located \<Rightarrow> bool" where
  "value_fits v \<longleftrightarrow> scalar_fits (lv_scalar v) \<and> origin_fits (lv_origin v)"

definition prop_fits :: "located_prop \<Rightarrow> bool" where
  "prop_fits p \<longleftrightarrow> utf8_valid (lp_name p) \<and> value_fits (lp_value p) \<and> origin_fits (lp_origin p)"

primrec tree_fits :: "tree \<Rightarrow> bool" where
  "tree_fits (Tree name args props children orig) \<longleftrightarrow>
     utf8_valid name \<and> list_all value_fits args \<and> list_all prop_fits props \<and> origin_fits orig \<and>
     list_all (\<lambda>x. x) (map tree_fits children)"

definition source_fits :: "source_snapshot \<Rightarrow> bool" where
  "source_fits s \<longleftrightarrow> utf8_valid (source_name (ss_source s)) \<and> ss_rev s < 2 ^ 64 \<and> length (ss_content s) = 32 \<and>
     list_all tree_fits (ss_nodes s) \<and>
     (source_kind (ss_source s) = AdminSource \<longrightarrow> ss_source s = source_admin)"

lemma carries_tagged:
  assumes "t < 256" "carries q (g t) y"
  shows "carries (\<lambda>w. and_then (put_byte t w) q) (\<lambda>r. and_then (take_byte r) (case_prod g)) y"
  by (rule carries_seq [where g = g, OF carries_byte [OF assms(1)] assms(2)])

lemma carries_tag_only:
  assumes "t < 256" "\<And>r. g t r = Inr (y, r)"
  shows "carries (put_byte t) (\<lambda>r. and_then (take_byte r) (case_prod g)) y"
  by (rule carries_result [where g = g, OF carries_byte [OF assms(1)] assms(2)])

lemma span_eta: "\<lparr>span_offset = span_offset sp, span_length = span_length sp, span_line = span_line sp, span_column = span_column sp\<rparr> = sp"
  by simp

lemma carries_location:
  "location_fits k \<Longrightarrow> carries (put_location k) take_location \<lparr>origin_kind = k, origin_path = []\<rparr>"
proof (cases k)
  case (FileOrigin path sp)
  assume "location_fits k"
  with FileOrigin have f: "utf8_valid path" "span_offset sp < 2 ^ 64" "span_length sp < 2 ^ 64"
    "span_line sp < 2 ^ 32" "span_column sp < 2 ^ 32" by simp_all
  show ?thesis unfolding FileOrigin put_location.simps [abs_def] take_location_def [abs_def]
    by (rule carries_tagged) (auto simp: origin_file_def intro!: carries_seq carries_last carries_string carries_u64 carries_u32 f)
next
  case (ApiOrigin source pointer)
  assume "location_fits k"
  with ApiOrigin show ?thesis unfolding ApiOrigin put_location.simps [abs_def] take_location_def [abs_def]
    by (intro carries_tagged) (auto simp: origin_api_def intro!: carries_seq carries_last carries_string)
next
  case (SyntheticOrigin reason)
  assume "location_fits k"
  with SyntheticOrigin show ?thesis unfolding SyntheticOrigin put_location.simps [abs_def] take_location_def [abs_def]
    by (intro carries_tagged) (auto simp: origin_synthetic_def intro!: carries_last carries_string)
qed

lemma carries_origin: "origin_fits orig \<Longrightarrow> carries (put_origin orig) take_origin orig"
  unfolding put_origin_def [abs_def] take_origin_def [abs_def] origin_fits_def
  by (rule carries_seq [OF carries_location carries_last [OF carries_string]]) (auto simp: origin_field_def)

lemma signed64_roundtrip: "- (2 ^ 63) \<le> i \<Longrightarrow> i < 2 ^ 63 \<Longrightarrow> signed64 (nat (i mod 2 ^ 64)) = i"
proof -
  assume i: "- (2 ^ 63) \<le> i" "i < 2 ^ 63"
  show ?thesis
  proof (cases "0 \<le> i")
    case True
    with i have "i mod 2 ^ 64 = i" by simp
    with True i show ?thesis by (simp add: signed64_def)
  next
    case False
    with i have "(i + 2 ^ 64) mod 2 ^ 64 = i + 2 ^ 64" by (intro mod_pos_pos_trivial) simp_all
    then have "i mod 2 ^ 64 = i + 2 ^ 64" by simp
    with False i show ?thesis by (simp add: signed64_def)
  qed
qed

lemma carries_scalar: "scalar_fits s \<Longrightarrow> carries (put_scalar s) take_scalar s"
proof (cases s)
  case (ScalarBool b)
  then show ?thesis unfolding ScalarBool put_scalar.simps [abs_def] take_scalar_def [abs_def]
    by (cases b) (auto intro!: carries_tag_only)
next
  case (ScalarInt i)
  assume "scalar_fits s"
  with ScalarInt have i: "signed64 (nat (i mod 2 ^ 64)) = i" using signed64_roundtrip by simp
  show ?thesis unfolding ScalarInt put_scalar.simps [abs_def] take_scalar_def [abs_def]
    by (rule carries_tagged) (auto simp: i [simplified] nat_mod_lt [simplified] intro!: carries_last carries_u64)
next
  case (ScalarFloat f)
  have "unat f < 2 ^ 64" using unsigned_less [of f] by simp
  then show ?thesis unfolding ScalarFloat put_scalar.simps [abs_def] take_scalar_def [abs_def]
    by (intro carries_tagged) (auto intro!: carries_last carries_u64)
next
  case (ScalarStr x)
  assume "scalar_fits s"
  with ScalarStr show ?thesis unfolding ScalarStr put_scalar.simps [abs_def] take_scalar_def [abs_def]
    by (intro carries_tagged) (auto intro!: carries_last carries_string)
qed (auto simp: put_scalar.simps [abs_def] take_scalar_def [abs_def] intro!: carries_tag_only)

lemma carries_value: "value_fits v \<Longrightarrow> carries (put_value v) take_value v"
  unfolding put_value_def [abs_def] take_value_def [abs_def] value_fits_def
  by (rule carries_seq [OF carries_scalar carries_last [OF carries_origin]]) auto

lemma carries_prop: "prop_fits p \<Longrightarrow> carries (put_prop p) take_prop p"
  unfolding put_prop_def [abs_def] take_prop_def [abs_def] prop_fits_def
  by (rule carries_seq [OF carries_string carries_seq [OF carries_origin carries_last [OF carries_value]]]) auto

lemma carries_budget:
  assumes "carries p f x"
  shows "carries (\<lambda>w. and_then (put_budget b w) p) (\<lambda>r. and_then (take_budget b r) f) x"
proof (rule carriesI)
  fix w w2
  assume "and_then (put_budget b w) p = Inr w2"
  then obtain b2 where b2: "b (wr_budget w) = Inr b2" "p (w\<lparr>wr_budget := b2\<rparr>) = Inr w2" by (auto simp: put_budget_def)
  obtain bs where "wr_bytes w2 = wr_bytes (w\<lparr>wr_budget := b2\<rparr>) @ bs"
    "\<And>rest. f \<lparr>rd_bytes = bs @ rest, rd_budget = wr_budget (w\<lparr>wr_budget := b2\<rparr>)\<rparr> =
        Inr (x, \<lparr>rd_bytes = rest, rd_budget = wr_budget w2\<rparr>)"
    by (rule carriesE [OF assms b2(2)]) blast
  with b2(1) show "\<exists>bs. wr_bytes w2 = wr_bytes w @ bs \<and>
      (\<forall>rest. and_then (take_budget b \<lparr>rd_bytes = bs @ rest, rd_budget = wr_budget w\<rparr>) f =
         Inr (x, \<lparr>rd_bytes = rest, rd_budget = wr_budget w2\<rparr>))"
    by (intro exI [of _ bs]) (simp add: take_budget_def)
qed

text \<open>A codec is a pair of steps with a predicate on the values it carries; counted lists of them follow.\<close>

locale codec =
  fixes put :: "'a \<Rightarrow> writer \<Rightarrow> codec_error + writer" and get :: "reader \<Rightarrow> 'a read" and fits :: "'a \<Rightarrow> bool"
  assumes roundtrip: "fits x \<Longrightarrow> carries (put x) get x"
begin

lemma carries_list: "list_all fits xs \<Longrightarrow> carries (put_list put xs) (take_list get (length xs)) xs"
proof (induction xs)
  case Nil
  have "put_list put [] = Inr" "take_list get 0 = (\<lambda>r. Inr ([], r))" by auto
  then show ?case by (simp add: carries_done)
next
  case (Cons x xs)
  then have x: "carries (put x) get x" and xs: "carries (put_list put xs) (take_list get (length xs)) xs"
    by (simp_all add: roundtrip)
  show ?case unfolding put_list.simps [abs_def] length_Cons take_list.simps [abs_def]
    by (rule carries_seq [OF x]) (rule carries_last [where g = "(#) x", OF xs refl])
qed

lemma carries_values: "list_all fits xs \<Longrightarrow> carries (put_values put xs) (take_values get) xs"
proof (rule carriesI)
  fix w w3
  assume a: "list_all fits xs" "put_values put xs w = Inr w3"
  have v: "max_values < 2 ^ 32" by (simp add: max_values_def)
  let ?p = "\<lambda>w. and_then (put_count max_values (length xs) w) (put_list put xs)"
  obtain b where b: "budget_values (length xs) (wr_budget w) = Inr b"
    and p: "?p (w\<lparr>wr_budget := b\<rparr>) = Inr w3"
    using a(2) by (auto simp: put_values_def put_budget_def)
  then obtain w2 where w2: "put_count max_values (length xs) (w\<lparr>wr_budget := b\<rparr>) = Inr w2" "put_list put xs w2 = Inr w3"
    by auto
  have c: "put_count max_values (length xs) w = Inr (w2\<lparr>wr_budget := wr_budget w\<rparr>)" "wr_budget w2 = b"
    using w2(1) by (auto simp: put_count_def put_u32_def put_raw_def split: if_splits)
  obtain bs where bs: "wr_bytes w2 = wr_bytes w @ bs"
    "\<And>rest. take_count max_values \<lparr>rd_bytes = bs @ rest, rd_budget = wr_budget w\<rparr> =
       Inr (length xs, \<lparr>rd_bytes = rest, rd_budget = wr_budget w\<rparr>)"
    by (rule carriesE [OF carries_count [OF v] c(1)]) auto
  obtain cs where cs: "wr_bytes w3 = wr_bytes w2 @ cs"
    "\<And>rest. take_list get (length xs) \<lparr>rd_bytes = cs @ rest, rd_budget = b\<rparr> =
       Inr (xs, \<lparr>rd_bytes = rest, rd_budget = wr_budget w3\<rparr>)"
    using c(2) by (auto intro: carriesE [OF carries_list [OF a(1)] w2(2)])
  show "\<exists>bs. wr_bytes w3 = wr_bytes w @ bs \<and>
      (\<forall>rest. take_values get \<lparr>rd_bytes = bs @ rest, rd_budget = wr_budget w\<rparr> =
         Inr (xs, \<lparr>rd_bytes = rest, rd_budget = wr_budget w3\<rparr>))"
    by (rule exI [of _ "bs @ cs"]) (simp add: bs cs b take_values_def take_budget_def)
qed

end

interpretation value_codec: codec put_value take_value value_fits
  by unfold_locales (rule carries_value)

interpretation prop_codec: codec put_prop take_prop prop_fits
  by unfold_locales (rule carries_prop)

lemma and_then_assoc: "and_then (and_then x f) g = and_then x (\<lambda>y. and_then (f y) g)"
  by (simp add: and_then_def split: sum.splits)

text \<open>A forest, level by level: the counted level, then its nodes with their subtrees.\<close>

lemma take_nodes_and_then:
  "take_nodes depth = (\<lambda>r. and_then (take_count max_nodes r) (case_prod (take_nodes_from depth)))"
  by (rule ext) (simp add: and_then_def split: sum.splits)

lemma take_nodes_from_and_then:
  "take_nodes_from depth (Suc n) = (\<lambda>r. and_then (take_budget (budget_node depth) r) (\<lambda>r.
     and_then (take_string r) (\<lambda>(name, r). and_then (take_origin r) (\<lambda>(orig, r).
     and_then (take_values take_value r) (\<lambda>(args, r). and_then (take_values take_prop r) (\<lambda>(props, r).
     and_then (take_nodes (depth + 1) r) (\<lambda>(children, r). and_then (take_nodes_from depth n r) (\<lambda>(rest, r).
       Inr (Tree name args props children orig # rest, r)))))))))"
  by (rule ext) (simp add: and_then_def [of "take_budget _ _"] split: sum.splits)

lemma put_nodes_from_Cons:
  "put_nodes_from depth (Tree name args props children orig # rest) =
     (\<lambda>w. and_then (put_budget (budget_node depth) w) (\<lambda>w. and_then (put_string name w) (\<lambda>w.
       and_then (put_origin orig w) (\<lambda>w. and_then (put_values put_value args w) (\<lambda>w.
       and_then (put_values put_prop props w) (\<lambda>w. and_then (put_nodes (depth + 1) children w)
         (put_nodes_from depth rest)))))))"
  by (rule ext) (simp add: put_nodes_def and_then_assoc)

lemma max_nodes_fit: "max_nodes < 2 ^ 32"
  by (simp add: max_nodes_def)

lemma carries_nodes_from:
  "list_all tree_fits ts \<Longrightarrow> carries (put_nodes_from depth ts) (take_nodes_from depth (length ts)) ts"
proof (induction "size_list size ts" arbitrary: ts depth rule: less_induct)
  case less
  show ?case
  proof (cases ts)
    case Nil
    have "put_nodes_from depth [] = Inr" "take_nodes_from depth 0 = (\<lambda>r. Inr ([], r))" by auto
    then show ?thesis using Nil by (simp add: carries_done)
  next
    case (Cons t rest)
    obtain name args props children orig where t: "t = Tree name args props children orig" by (cases t)
    have f: "utf8_valid name" "list_all value_fits args" "list_all prop_fits props" "origin_fits orig"
      "list_all tree_fits children" "list_all tree_fits rest"
      using less.prems Cons t by (simp_all add: list_all_iff)
    have c: "carries (put_nodes_from (depth + 1) children) (take_nodes_from (depth + 1) (length children)) children"
      using f(5) by (intro less.hyps) (simp_all add: Cons t)
    have n: "carries (put_nodes (depth + 1) children) (take_nodes (depth + 1)) children"
      unfolding put_nodes_def [abs_def] take_nodes_and_then
      by (rule carries_seq [OF carries_count [OF max_nodes_fit]]) (rule c)
    have r: "carries (put_nodes_from depth rest) (take_nodes_from depth (length rest)) rest"
      using f(6) by (intro less.hyps) (simp_all add: Cons)
    have "carries (put_nodes_from depth rest)
        (\<lambda>r. and_then (take_nodes_from depth (length rest) r) (\<lambda>(rest, r). Inr (t # rest, r))) (t # rest)"
      by (rule carries_last [OF r]) simp
    then show ?thesis unfolding Cons t put_nodes_from_Cons length_Cons take_nodes_from_and_then
      by (intro carries_budget carries_seq [OF carries_string] carries_seq [OF carries_origin]
          carries_seq [OF value_codec.carries_values] carries_seq [OF prop_codec.carries_values] carries_seq [OF n] f)
  qed
qed

lemma carries_nodes: "list_all tree_fits ts \<Longrightarrow> carries (put_nodes depth ts) (take_nodes depth) ts"
  unfolding put_nodes_def [abs_def] take_nodes_and_then
  by (rule carries_seq [OF carries_count [OF max_nodes_fit]]) (rule carries_nodes_from)

lemma carries_source_id:
  assumes "utf8_valid (source_name i)" "source_kind i = AdminSource \<longrightarrow> i = source_admin"
  shows "carries (\<lambda>w. and_then (put_byte (source_tag (source_kind i)) w) (put_string (source_name i))) take_source_id i"
  unfolding take_source_id_def [abs_def]
proof (rule carries_tagged)
  show "source_tag (source_kind i) < 256" by (cases "source_kind i") simp_all
  have "i = (case source_kind i of FileSource \<Rightarrow> source_file (source_name i) | AdminSource \<Rightarrow> source_admin
      | KubernetesSource \<Rightarrow> source_kubernetes (source_name i))"
    using assms(2) by (cases i) (simp add: source_file_def source_kubernetes_def split: source_kind.splits)
  then have "(if source_tag (source_kind i) = 0 then Inr (source_file (source_name i), r)
      else if source_tag (source_kind i) = 1 \<and> source_name i = source_name source_admin then Inr (source_admin, r)
      else if source_tag (source_kind i) = 2 then Inr (source_kubernetes (source_name i), r)
      else Inl Invalid) = Inr (i, r)" for r :: reader
    using assms(2) by (auto split: source_kind.splits)
  then show "carries (put_string (source_name i)) (\<lambda>r. and_then (take_string r) (\<lambda>(name, r).
      if source_tag (source_kind i) = 0 then Inr (source_file name, r)
      else if source_tag (source_kind i) = 1 \<and> name = source_name source_admin then Inr (source_admin, r)
      else if source_tag (source_kind i) = 2 then Inr (source_kubernetes name, r) else Inl Invalid)) i"
    by (rule carries_result [OF carries_string [OF assms(1)]])
qed

lemma put_sources_Cons:
  "put_list put_source (s # ss) = (\<lambda>w. and_then (and_then (put_byte (source_tag (source_kind (ss_source s))) w)
      (put_string (source_name (ss_source s)))) (\<lambda>w. and_then (put_u64 (ss_rev s) w) (\<lambda>w.
        and_then (put_raw (ss_content s) w) (\<lambda>w. and_then (put_nodes 1 (ss_nodes s) w) (put_list put_source ss)))))"
  by (rule ext) (simp add: put_source_def and_then_assoc)

definition entries :: "source_snapshot list \<Rightarrow> snapshot" where
  "entries ss = map (\<lambda>s. (ss_source s, s)) ss"

lemma carries_sources:
  assumes "list_all source_fits ss" "bt_ok (m @ entries ss)"
    "case previous of None \<Rightarrow> m = [] | Some p \<Rightarrow> p \<in> fst ` set m"
  shows "carries (put_list put_source ss) (take_sources (length ss) previous m) (m @ entries ss)"
  using assms
proof (induction ss arbitrary: m previous)
  case Nil
  have "put_list put_source [] = Inr" "take_sources 0 previous m = (\<lambda>r. Inr (m, r))" by auto
  then show ?case by (simp add: carries_done entries_def)
next
  case (Cons s ss)
  have f: "utf8_valid (source_name (ss_source s))" "ss_rev s < 2 ^ 64" "length (ss_content s) = 32"
    "list_all tree_fits (ss_nodes s)" "source_kind (ss_source s) = AdminSource \<longrightarrow> ss_source s = source_admin"
    using Cons.prems(1) by (simp_all add: source_fits_def)
  have eta: "\<lparr>ss_source = ss_source s, ss_rev = ss_rev s, ss_content = ss_content s, ss_nodes = ss_nodes s\<rparr> = s" by simp
  have less: "\<forall>j \<in> fst ` set m. j < ss_source s"
    using Cons.prems(2) by (auto simp: bt_ok_def sorted_wrt_append entries_def)
  then have ins: "snapshot_insert s m = m @ [(ss_source s, s)]"
    unfolding snapshot_insert_def by (rule bt_insert_last)
  have after: "\<not> (case previous of Some p \<Rightarrow> ss_source s \<le> p | None \<Rightarrow> False)"
    using Cons.prems(3) less by (auto split: option.splits)
  have "carries (put_list put_source ss) (take_sources (length ss) (Some (ss_source s)) (snapshot_insert s m))
      (m @ entries (s # ss))"
    using Cons.IH [of "m @ [(ss_source s, s)]" "Some (ss_source s)"] Cons.prems(1,2) by (simp add: ins entries_def)
  then have rest: "carries (\<lambda>w. and_then (put_u64 (ss_rev s) w) (\<lambda>w. and_then (put_raw (ss_content s) w) (\<lambda>w.
      and_then (put_nodes 1 (ss_nodes s) w) (put_list put_source ss))))
    (\<lambda>r. and_then (take_u64 r) (\<lambda>(revision, r). and_then (take_raw 32 r) (\<lambda>(content, r).
      and_then (take_nodes 1 r) (\<lambda>(nodes, r). take_sources (length ss) (Some (ss_source s))
        (snapshot_insert \<lparr>ss_source = ss_source s, ss_rev = revision, ss_content = content, ss_nodes = nodes\<rparr> m) r))))
    (m @ entries (s # ss))"
    by (intro carries_seq [OF carries_u64 [OF f(2)]] carries_seq [OF carries_raw [OF f(3)]]
        carries_seq [OF carries_nodes [OF f(4)]]) (simp only: eta)
  show ?case unfolding put_sources_Cons length_Cons take_sources.simps [abs_def]
    by (rule carries_seq [OF carries_source_id [OF f(1,5)]]) (simp only: after if_False rest)
qed

text \<open>
  A snapshot that fits the Rust types. The checksum function is the \<open>blake3\<close> crate's, which always
  gives 32 bytes.
\<close>

definition snapshot_fits :: "snapshot \<Rightarrow> bool" where
  "snapshot_fits m \<longleftrightarrow> snapshot_ok m \<and> list_all source_fits (snapshot_sources m)"

lemma entries_sources: "snapshot_ok m \<Longrightarrow> entries (snapshot_sources m) = m"
  by (auto simp: entries_def snapshot_sources_def bt_values_def snapshot_ok_def intro!: map_idI)

text \<open>No writing step outgrows the limit.\<close>

definition bounded :: "(writer \<Rightarrow> codec_error + writer) \<Rightarrow> bool" where
  "bounded p \<longleftrightarrow> (\<forall>w w2. p w = Inr w2 \<longrightarrow> length (wr_bytes w) \<le> max_bytes \<longrightarrow> length (wr_bytes w2) \<le> max_bytes)"

lemma bounded_seq: "bounded p \<Longrightarrow> bounded q \<Longrightarrow> bounded (\<lambda>w. and_then (p w) q)"
  by (auto simp: bounded_def)

lemma bounded_raw: "bounded (put_raw bs)"
  by (auto simp: bounded_def put_raw_def split: if_splits)

lemma bounded_ints: "bounded (put_byte t)" "bounded (put_u32 v)" "bounded (put_u64 v)"
  using bounded_raw by (simp_all add: bounded_def put_byte_def put_u32_def put_u64_def)

lemma bounded_count: "bounded (put_count b n)"
  using bounded_ints(2) by (simp add: bounded_def put_count_def)

lemma bounded_string: "bounded (put_string s)"
  unfolding put_string_def [abs_def] by (intro bounded_seq bounded_count bounded_raw)

lemma bounded_origin: "bounded (put_origin orig)"
proof -
  have "bounded (put_location k)" for k
    by (cases k) (simp_all add: put_location.simps [abs_def] bounded_seq bounded_ints bounded_string)
  then show ?thesis unfolding put_origin_def [abs_def] by (intro bounded_seq bounded_string)
qed

lemma bounded_value: "bounded (put_value v)"
proof -
  have "bounded (put_scalar s)" for s
    by (cases s) (simp_all add: put_scalar.simps [abs_def] bounded_seq bounded_ints bounded_string)
  then show ?thesis unfolding put_value_def [abs_def] by (intro bounded_seq bounded_origin)
qed

lemma bounded_prop: "bounded (put_prop p)"
  unfolding put_prop_def [abs_def] by (intro bounded_seq bounded_string bounded_origin bounded_value)

lemma bounded_list: "(\<And>x. bounded (put x)) \<Longrightarrow> bounded (put_list put xs)"
  by (induction xs) (auto simp: bounded_def)

lemma bounded_budget: "bounded (put_budget f)"
  by (auto simp: bounded_def put_budget_def)

lemma bounded_values: "(\<And>x. bounded (put x)) \<Longrightarrow> bounded (put_values put xs)"
  unfolding put_values_def [abs_def] by (intro bounded_seq bounded_budget bounded_count bounded_list)

lemma bounded_nodes_from: "bounded (put_nodes_from depth ts)"
proof (induction "size_list size ts" arbitrary: ts depth rule: less_induct)
  case less
  show ?case
  proof (cases ts)
    case Nil
    then show ?thesis by (simp add: bounded_def)
  next
    case (Cons t rest)
    obtain name args props children orig where t: "t = Tree name args props children orig" by (cases t)
    have "bounded (put_nodes_from (depth + 1) children)" "bounded (put_nodes_from depth rest)"
      by (rule less.hyps; simp add: Cons t)+
    then show ?thesis unfolding Cons t put_nodes_from.simps [abs_def]
      by (intro bounded_seq bounded_budget bounded_string bounded_origin bounded_values bounded_value bounded_prop bounded_count)
  qed
qed

lemma bounded_source: "bounded (put_source s)"
  unfolding put_source_def [abs_def] put_nodes_def [abs_def]
  by (intro bounded_seq bounded_ints bounded_string bounded_raw bounded_count bounded_nodes_from)

lemma decode_encode:
  assumes d: "\<And>bs. length (digest bs) = 32" and m: "snapshot_fits m" and e: "encode digest m = Inr bs"
  shows "decode digest bs = Inr m"
proof -
  let ?w = "\<lparr>wr_bytes = replicate header_len (char_of (0::nat)), wr_budget = budget_default\<rparr>"
  let ?p = "\<lambda>w. and_then (put_count max_sources (length (snapshot_sources m)) w) (put_list put_source (snapshot_sources m))"
  obtain w where w: "?p ?w = Inr w" and bs: "bs = magic @ checksum digest (drop header_len (wr_bytes w)) @ drop header_len (wr_bytes w)"
    using e unfolding encode_def Let_def by auto
  have ok: "snapshot_ok m" and fits: "list_all source_fits (snapshot_sources m)" using m by (simp_all add: snapshot_fits_def)
  have "carries (put_list put_source (snapshot_sources m)) (take_sources (length (snapshot_sources m)) None []) m"
    using carries_sources [OF fits, of "[]" None] ok by (simp add: entries_sources snapshot_ok_def)
  then have "carries ?p (\<lambda>r. and_then (take_count max_sources r) (\<lambda>(n, r). take_sources n None [] r)) m"
    by (intro carries_seq [OF carries_count]) (simp_all add: max_sources_def)
  then obtain body where b: "wr_bytes w = wr_bytes ?w @ body"
    and r: "\<And>rest. and_then (take_count max_sources \<lparr>rd_bytes = body @ rest, rd_budget = wr_budget ?w\<rparr>)
      (\<lambda>(n, r). take_sources n None [] r) = Inr (m, \<lparr>rd_bytes = rest, rd_budget = wr_budget w\<rparr>)"
    using w by (rule carriesE) blast
  have body: "wr_bytes w = replicate header_len (char_of (0::nat)) @ body" using b by simp
  have read: "and_then (take_count max_sources \<lparr>rd_bytes = body, rd_budget = budget_default\<rparr>)
      (\<lambda>(n, r). take_sources n None [] r) = Inr (m, \<lparr>rd_bytes = [], rd_budget = wr_budget w\<rparr>)"
    using r [of "[]"] by simp
  have "bounded ?p" by (intro bounded_seq bounded_count bounded_list bounded_source)
  then have "length (wr_bytes ?w) \<le> max_bytes \<longrightarrow> length (wr_bytes w) \<le> max_bytes"
    using w unfolding bounded_def by blast
  then have len: "header_len + length body \<le> max_bytes" using body by (simp add: codec_limits)
  have sum: "length (checksum digest body) = 32" by (simp add: checksum_def finish_def d)
  have bs2: "bs = magic @ checksum digest body @ body" using bs body by simp
  have "length bs \<le> max_bytes" "\<not> length bs < header_len" "take 8 bs = magic" "drop header_len bs = body"
    "take 32 (drop 8 bs) = checksum digest body"
    using len sum unfolding bs2 by (simp_all add: magic_def header_len_def)
  moreover obtain n r where "take_count max_sources \<lparr>rd_bytes = body, rd_budget = budget_default\<rparr> = Inr (n, r)"
    "take_sources n None [] r = Inr (m, \<lparr>rd_bytes = [], rd_budget = wr_budget w\<rparr>)"
    using read by auto
  ultimately show ?thesis by (simp add: decode_def)
qed

text \<open>
  C5: a checkpoint restores exactly what was written: whenever a snapshot encodes, the bytes decode to
  the same snapshot, with every source, revision, content identity, node, origin and float bit; both
  functions end on every input, and the encoding never exceeds the size the decoder accepts.
\<close>

theorem snapshot_codec_roundtrip:
  assumes "\<forall>bs. length (digest bs) = 32" "snapshot_fits m" "encode digest m = Inr bs"
  shows "decode digest bs = Inr m \<and> length bs \<le> max_bytes"
proof -
  have "decode digest bs = Inr m" using decode_encode [of digest m bs] assms by blast
  moreover from this have "length bs \<le> max_bytes" by (auto simp: decode_def split: if_splits)
  ultimately show ?thesis ..
qed

definition sample_file :: source_snapshot where
  "sample_file =
     \<lparr>ss_source = source_file ''main'', ss_rev = 7, ss_content = replicate 32 (char_of (1::nat)),
      ss_nodes = [Tree ''site'' [\<lparr>lv_scalar = ScalarInt (-1), lv_origin = origin_synthetic ''d''\<rparr>] [] [] (origin_synthetic ''d'')]\<rparr>"

definition sample_digest :: digest where
  "sample_digest bs = take 32 (bs @ replicate 32 (char_of (0::nat)))"

theorem snapshot_codec_roundtrip_witness:
  "case encode sample_digest (snapshot_insert sample_file []) of
     Inl _ \<Rightarrow> False
   | Inr bs \<Rightarrow> decode sample_digest bs = Inr (snapshot_insert sample_file [])"
proof -
  let ?m = "snapshot_insert sample_file []"
  have fits: "snapshot_fits ?m"
    by (simp add: snapshot_fits_def snapshot_sources_def bt_values_def snapshot_insert_def snapshot_ok_def bt_ok_def source_fits_def
        sample_file_def source_file_def value_fits_def origin_fits_def origin_synthetic_def)
  have d: "\<forall>bs. length (sample_digest bs) = 32" by (auto simp: sample_digest_def min_def)
  obtain bs where e: "encode sample_digest ?m = Inr bs"
    by (auto simp: encode_def Let_def snapshot_sources_def bt_values_def snapshot_insert_def sample_file_def put_source_def
        put_nodes_def put_count_def put_u32_def put_u64_def put_byte_def put_string_def put_origin_def put_values_def put_value_def
        put_budget_def budget_node_def budget_values_def put_raw_def codec_limits budget_default_def checked_add_def u64_max_def
        source_file_def origin_synthetic_def)
  show ?thesis using snapshot_codec_roundtrip [OF d fits e] e by simp
qed

end
