(* ===== verification/Machines.thy ===== *)
theory Machines
  imports Main
begin

text \<open>
  Transition systems: what an invariant kept by every step gives along a run, and what a step-wise
  simulation of an abstract system gives along a run.
\<close>

locale invariant_system =
  fixes step :: "'s \<Rightarrow> 's \<Rightarrow> bool" and inv :: "'s \<Rightarrow> bool"
  assumes inv_step: "inv s \<Longrightarrow> step s t \<Longrightarrow> inv t"
begin

lemma inv_run: "step\<^sup>*\<^sup>* s t \<Longrightarrow> inv s \<Longrightarrow> inv t"
  by (induction rule: rtranclp_induct) (auto intro: inv_step)

text \<open>A reflexive and transitive relation that holds along every step holds along every run.\<close>

lemma relation_run:
  assumes "step\<^sup>*\<^sup>* s t" "inv s"
    and "\<And>s. rel s s" "\<And>a b c. rel a b \<Longrightarrow> rel b c \<Longrightarrow> rel a c" "\<And>s t. inv s \<Longrightarrow> step s t \<Longrightarrow> rel s t"
  shows "rel s t"
  using assms(1)
proof (induction rule: rtranclp_induct)
  case base
  then show ?case by (rule assms(3))
next
  case (step y z)
  have "inv y" using inv_run [OF step.hyps(1) assms(2)] .
  with step show ?case using assms(4,5) by blast
qed

end

locale simulation = invariant_system step inv
  for step :: "'s \<Rightarrow> 's \<Rightarrow> bool" and inv :: "'s \<Rightarrow> bool" +
  fixes abs_step :: "'a \<Rightarrow> 'a \<Rightarrow> bool" and abs_of :: "'s \<Rightarrow> 'a"
  assumes simulates: "inv s \<Longrightarrow> step s t \<Longrightarrow> abs_of s = abs_of t \<or> abs_step (abs_of s) (abs_of t)"
begin

lemma abs_run: "step\<^sup>*\<^sup>* s t \<Longrightarrow> inv s \<Longrightarrow> abs_step\<^sup>*\<^sup>* (abs_of s) (abs_of t)"
proof (induction rule: rtranclp_induct)
  case (step y z)
  have "inv y" using inv_run [OF step.hyps(1) step.prems] .
  with simulates [OF this step.hyps(2)] step show ?case by (metis rtranclp.rtrancl_into_rtrancl)
qed simp

end

end
