(* ===== verification/Generations.thy ===== *)
theory Generations
  imports Machines Snapshots Planning
begin

text \<open>
  The generation store (\<open>gatel-plan/src/generation.rs\<close> and its submodules \<open>generation_observe.rs\<close>,
  \<open>generation_intent.rs\<close>, \<open>generation_restore.rs\<close>, \<open>generation_version.rs\<close>, \<open>generation_capture.rs\<close>,
  \<open>generation_writer.rs\<close>): how a candidate configuration is observed, compiled, prepared and published
  while other candidates do the same.

  The state behind the lock is the record \<open>store\<close>. A candidate takes the lock three times: to read what
  it has to retain, to be admitted, and to finish; each of these sections is one definition, and the
  relation \<open>store_step\<close> interleaves the sections of any number of candidates, recoveries and shutdowns.
  Normalisation, the hash, and the host's \<open>prepare\<close> closure are parameters; instants are not modelled,
  and reasons are constructors instead of message texts.
\<close>

subsection \<open>State\<close>

type_synonym generation = nat

definition generation_next :: "generation \<Rightarrow> generation option" where
  "generation_next g = checked_add u64_max g 1"

record ('c, 'r) committed =
  cm_number :: generation
  cm_boot_id :: fingerprint
  cm_plan :: "'c plan"
  cm_runtime :: 'r
  cm_revs :: rev_vector
  cm_sources :: snapshot

record ('c, 'r) candidate_base =
  cb_expected_head :: rev_vector
  cb_base_generation :: generation
  cb_previous :: "('c, 'r) committed option"
  cb_refresh :: bool

datatype stale_reason =
    PublicationSealed | HeadMoved "rev_difference option" | GenerationMoved generation generation
  | SourceNotRegistered | SourceCapacity | ContentChanged

datatype outcome =
    Started generation | Reloaded generation "binding_change list" | NoOp generation
  | Rejected diagnostics | PrepareFailed bytes | Stale stale_reason

definition outcome_generation :: "outcome \<Rightarrow> generation option" where
  "outcome_generation r =
     (case r of Started g \<Rightarrow> Some g | Reloaded g _ \<Rightarrow> Some g | NoOp g \<Rightarrow> Some g | _ \<Rightarrow> None)"

definition outcome_is_failure :: "outcome \<Rightarrow> bool" where
  "outcome_is_failure r = (case r of Rejected _ \<Rightarrow> True | PrepareFailed _ \<Rightarrow> True | _ \<Rightarrow> False)"

record failure =
  fl_attempts :: nat
  fl_stage :: bytes
  fl_summary :: bytes

record version =
  vs_boot_id :: fingerprint
  vs_generation :: generation
  vs_revs :: rev_vector

record ('c, 'r) preparation =
  pr_plan :: "'c plan"
  pr_previous :: "('c, 'r) committed option"
  pr_changes :: "binding_change list"
  pr_generation :: generation
  pr_boot_id :: fingerprint

record ('c, 'r) store =
  gs_sealed :: bool
  gs_boot_id :: fingerprint
  gs_generation :: generation
  gs_current :: "('c, 'r) committed option"
  gs_head :: rev_vector
  gs_intent :: snapshot
  gs_last_failure :: "failure option"
  gs_source_limit :: nat
  gs_allowed :: "source_id list option"

text \<open>What the host fixes: the hash, the operations on directive configurations, normalisation.\<close>

record 'c host =
  host_digest :: digest
  host_ops :: "'c config_ops"
  host_normalize :: "snapshot \<Rightarrow> 'c registry \<Rightarrow> diagnostics + 'c spec"

definition with_source_limit :: "fingerprint \<Rightarrow> nat \<Rightarrow> ('c, 'r) store" where
  "with_source_limit boot limit =
     \<lparr>gs_sealed = False, gs_boot_id = boot, gs_generation = 0, gs_current = None, gs_head = [], gs_intent = [],
      gs_last_failure = None, gs_source_limit = limit, gs_allowed = None\<rparr>"

definition store_new :: "fingerprint \<Rightarrow> ('c, 'r) store" where
  "store_new boot = with_source_limit boot 256"

definition with_allowed_sources :: "fingerprint \<Rightarrow> source_id list \<Rightarrow> ('c, 'r) store" where
  "with_allowed_sources boot sources =
     (let allowed = remdups sources in
      (with_source_limit boot (max (length allowed) 1))\<lparr>gs_allowed := Some allowed\<rparr>)"

definition seal :: "('c, 'r) store \<Rightarrow> ('c, 'r) store" where
  "seal st = st\<lparr>gs_sealed := True\<rparr>"

record status =
  st_boot_id :: fingerprint
  st_generation :: generation
  st_spec_hash :: "fingerprint option"
  st_plan_hash :: "fingerprint option"
  st_revs :: rev_vector
  st_last_failure :: "failure option"
  st_observed_differs :: bool

definition store_status :: "('c, 'r) store \<Rightarrow> status" where
  "store_status st =
     \<lparr>st_boot_id = gs_boot_id st, st_generation = gs_generation st,
      st_spec_hash = map_option (\<lambda>c. pl_spec_hash (cm_plan c)) (gs_current st),
      st_plan_hash = map_option (\<lambda>c. pl_plan_hash (cm_plan c)) (gs_current st),
      st_revs = gs_head st, st_last_failure = gs_last_failure st,
      st_observed_differs = (case gs_current st of None \<Rightarrow> False | Some c \<Rightarrow> cm_revs c \<noteq> gs_head st)\<rparr>"

definition status_version :: "status \<Rightarrow> version" where
  "status_version s = \<lparr>vs_boot_id = st_boot_id s, vs_generation = st_generation s, vs_revs = st_revs s\<rparr>"

definition is_serving :: "status \<Rightarrow> bool" where
  "is_serving s \<longleftrightarrow> st_generation s \<noteq> 0"

definition is_degraded :: "status \<Rightarrow> bool" where
  "is_degraded s \<longleftrightarrow> is_serving s \<and> st_last_failure s \<noteq> None"

definition store_version :: "('c, 'r) store \<Rightarrow> version" where
  "store_version st = \<lparr>vs_boot_id = gs_boot_id st, vs_generation = gs_generation st, vs_revs = gs_head st\<rparr>"

subsection \<open>Admission\<close>

definition newer_than_head :: "('c, 'r) store \<Rightarrow> source_snapshot \<Rightarrow> bool" where
  "newer_than_head st s = (case bt_get (ss_source s) (gs_head st) of None \<Rightarrow> True | Some r \<Rightarrow> r < ss_rev s)"

definition new_intent :: "('c, 'r) store \<Rightarrow> snapshot \<Rightarrow> source_snapshot list" where
  "new_intent st m = filter (newer_than_head st) (snapshot_sources m)"

definition retain :: "('c, 'r) store \<Rightarrow> source_snapshot list \<Rightarrow> snapshot" where
  "retain st observed = fold (\<lambda>s m. if newer_than_head st s then snapshot_insert s m else m) observed (gs_intent st)"

definition stale_head :: "rev_vector \<Rightarrow> rev_vector \<Rightarrow> stale_reason" where
  "stale_head expected actual = HeadMoved (first_difference expected actual)"

datatype ('c, 'r) admission = AdmitConflict version | AdmitStale stale_reason | Admitted "('c, 'r) candidate_base"

definition admissible :: "snapshot \<Rightarrow> ('c, 'r) store \<Rightarrow> stale_reason option" where
  "admissible m st =
     (if (case gs_allowed st of
            None \<Rightarrow> False
          | Some allowed \<Rightarrow> list_ex (\<lambda>s. ss_source s \<notin> set allowed) (snapshot_sources m)) then Some SourceNotRegistered
      else if gs_source_limit st <
          saturating_add u64_max (length (gs_intent st))
            (length (filter (\<lambda>s. bt_get (ss_source s) (gs_head st) = None) (snapshot_sources m))) then Some SourceCapacity
      else if list_ex (\<lambda>s. bt_get (ss_source s) (gs_head st) = Some (ss_rev s) \<and>
          map_option ss_content (snapshot_get (ss_source s) (gs_intent st)) \<noteq> Some (ss_content s)) (snapshot_sources m)
        then Some ContentChanged
      else None)"

text \<open>The section of \<open>attempt_conditionally\<close> under the write lock; \<open>observed\<close> was read before.\<close>

definition admit ::
  "version option \<Rightarrow> bool \<Rightarrow> snapshot \<Rightarrow> source_snapshot list \<Rightarrow> ('c, 'r) store \<Rightarrow> ('c, 'r) admission \<times> ('c, 'r) store" where
  "admit expected refresh m observed st =
     (if gs_sealed st then (AdmitStale PublicationSealed, st)
      else if (case expected of None \<Rightarrow> False | Some v \<Rightarrow> v \<noteq> store_version st) then (AdmitConflict (store_version st), st)
      else
        (case admissible m st of
           Some reason \<Rightarrow> (AdmitStale reason, st)
         | None \<Rightarrow>
             (let st2 = st\<lparr>gs_intent := retain st observed, gs_head := merge_max (revs m) (gs_head st)\<rparr> in
              if gs_head st2 \<noteq> revs m then (AdmitStale (stale_head (revs m) (gs_head st2)), st2)
              else (Admitted \<lparr>cb_expected_head = revs m, cb_base_generation = gs_generation st2,
                      cb_previous = gs_current st2, cb_refresh = refresh\<rparr>, st2))))"

subsection \<open>Finishing\<close>

definition validate_candidate :: "rev_vector \<Rightarrow> generation \<Rightarrow> ('c, 'r) store \<Rightarrow> stale_reason option" where
  "validate_candidate expected base st =
     (if gs_sealed st then Some PublicationSealed
      else if gs_head st \<noteq> expected then Some (stale_head expected (gs_head st))
      else if gs_generation st \<noteq> base then Some (GenerationMoved base (gs_generation st))
      else None)"

definition note_failure :: "bytes \<Rightarrow> bytes \<Rightarrow> ('c, 'r) store \<Rightarrow> ('c, 'r) store" where
  "note_failure stage summary st =
     st\<lparr>gs_last_failure := Some
        \<lparr>fl_attempts = (case gs_last_failure st of None \<Rightarrow> 1 | Some f \<Rightarrow> saturating_add u32_max (fl_attempts f) 1),
         fl_stage = stage, fl_summary = summary\<rparr>\<rparr>"

definition record_failure ::
  "rev_vector \<Rightarrow> generation \<Rightarrow> bytes \<Rightarrow> bytes \<Rightarrow> ('c, 'r) store \<Rightarrow> stale_reason option \<times> ('c, 'r) store" where
  "record_failure expected base stage summary st =
     (case validate_candidate expected base st of
        Some reason \<Rightarrow> (Some reason, st)
      | None \<Rightarrow> (None, note_failure stage summary st))"

definition fail_with ::
  "('c, 'r) candidate_base \<Rightarrow> bytes \<Rightarrow> bytes \<Rightarrow> outcome \<Rightarrow> ('c, 'r) store \<Rightarrow> outcome \<times> ('c, 'r) store" where
  "fail_with base stage summary result st =
     (case record_failure (cb_expected_head base) (cb_base_generation base) stage summary st of
        (Some reason, st2) \<Rightarrow> (Stale reason, st2)
      | (None, st2) \<Rightarrow> (result, st2))"

definition finish_noop :: "('c, 'r) candidate_base \<Rightarrow> ('c, 'r) store \<Rightarrow> outcome \<times> ('c, 'r) store" where
  "finish_noop base st =
     (case validate_candidate (cb_expected_head base) (cb_base_generation base) st of
        Some reason \<Rightarrow> (Stale reason, st)
      | None \<Rightarrow> (NoOp (gs_generation st), st\<lparr>gs_last_failure := None\<rparr>))"

definition publish ::
  "snapshot \<Rightarrow> ('c, 'r) candidate_base \<Rightarrow> 'c plan \<Rightarrow> binding_change list \<Rightarrow> generation \<Rightarrow> 'r
     \<Rightarrow> ('c, 'r) store \<Rightarrow> outcome \<times> ('c, 'r) store" where
  "publish m base plan changes number runtime st =
     (case validate_candidate (cb_expected_head base) (cb_base_generation base) st of
        Some reason \<Rightarrow> (Stale reason, st)
      | None \<Rightarrow>
          (if gs_current st = None then Started number else Reloaded number changes,
           st\<lparr>gs_generation := number,
              gs_current := Some \<lparr>cm_number = number, cm_boot_id = gs_boot_id st, cm_plan = plan, cm_runtime = runtime,
                cm_revs = revs m, cm_sources = m\<rparr>,
              gs_last_failure := None\<rparr>))"

definition running_bindings :: "('c, 'r) candidate_base \<Rightarrow> state_binding list" where
  "running_bindings base = (case cb_previous base of None \<Rightarrow> [] | Some c \<Rightarrow> pl_bindings (cm_plan c))"

definition unchanged_plan :: "('c, 'r) candidate_base \<Rightarrow> 'c plan \<Rightarrow> bool" where
  "unchanged_plan base plan \<longleftrightarrow>
     (case cb_previous base of None \<Rightarrow> False | Some c \<Rightarrow> pl_plan_hash (cm_plan c) = pl_plan_hash plan) \<and> \<not> cb_refresh base"

text \<open>
  \<open>finish_attempt\<close>, with the store as it is when the candidate takes the lock again. \<open>None\<close> is the panic
  of a compilation whose chains do not compose; the lock is not held there.
\<close>

definition finish_attempt ::
  "'c host \<Rightarrow> 'c registry \<Rightarrow> (('c, 'r) preparation \<Rightarrow> bytes + 'r) \<Rightarrow> snapshot \<Rightarrow> ('c, 'r) candidate_base
     \<Rightarrow> ('c, 'r) store \<Rightarrow> outcome option \<times> ('c, 'r) store" where
  "finish_attempt host registry prepare m base st =
     (case host_normalize host m registry of
        Inl ds \<Rightarrow>
          map_prod Some id (fail_with base ''normalize'' (show_nat (error_count ds) @ '' problems'') (Rejected ds) st)
      | Inr spec \<Rightarrow>
          (case compile (host_digest host) (host_ops host) registry spec of
             None \<Rightarrow> (None, st)
           | Some plan \<Rightarrow>
               (let changes = diff_bindings (running_bindings base) (pl_bindings plan) in
                if unchanged_plan base plan then map_prod Some id (finish_noop base st)
                else
                  (case generation_next (cb_base_generation base) of
                     None \<Rightarrow>
                       map_prod Some id
                         (fail_with base ''prepare'' ''generation counter exhausted''
                           (PrepareFailed ''generation counter exhausted'') st)
                   | Some number \<Rightarrow>
                       (case prepare \<lparr>pr_plan = plan, pr_previous = cb_previous base, pr_changes = changes,
                               pr_generation = number, pr_boot_id = gs_boot_id st\<rparr> of
                          Inl message \<Rightarrow> map_prod Some id (fail_with base ''prepare'' message (PrepareFailed message) st)
                        | Inr runtime \<Rightarrow> map_prod Some id (publish m base plan changes number runtime st))))))"

subsection \<open>Whole attempts, when nothing else runs\<close>

definition attempt_conditionally ::
  "'c host \<Rightarrow> 'c registry \<Rightarrow> (('c, 'r) preparation \<Rightarrow> bytes + 'r) \<Rightarrow> version option \<Rightarrow> bool \<Rightarrow> snapshot
     \<Rightarrow> ('c, 'r) store \<Rightarrow> (version + outcome option) \<times> ('c, 'r) store" where
  "attempt_conditionally host registry prepare expected refresh m st =
     (case admit expected refresh m (new_intent st m) st of
        (AdmitConflict actual, st2) \<Rightarrow> (Inl actual, st2)
      | (AdmitStale reason, st2) \<Rightarrow> (Inr (Some (Stale reason)), st2)
      | (Admitted base, st2) \<Rightarrow> map_prod Inr id (finish_attempt host registry prepare m base st2))"

definition attempt where
  "attempt host registry prepare m st = attempt_conditionally host registry prepare None False m st"

definition attempt_if where
  "attempt_if host registry prepare expected m st = attempt_conditionally host registry prepare (Some expected) False m st"

definition refresh where
  "refresh host registry prepare m st = attempt_conditionally host registry prepare None True m st"

definition refresh_if where
  "refresh_if host registry prepare expected m st = attempt_conditionally host registry prepare (Some expected) True m st"

text \<open>The entity tag of a version, and the attempt it guards.\<close>

definition version_etag :: "digest \<Rightarrow> version \<Rightarrow> bytes" where
  "version_etag digest v =
     (let h = update_str ''gatel.configuration-version.v1'' hasher_new;
          h = update_fingerprint (vs_boot_id v) h;
          h = update_u64 (vs_generation v) h;
          h = fold (\<lambda>(s, r) h. update_u64 r (update_str (source_text s) h)) (vs_revs v) h in
      [CHR 0x22] @ ''gatel-v1-'' @ fingerprint_text (finish digest h) @ [CHR 0x22])"

definition attempt_if_etag where
  "attempt_if_etag host registry prepare expected m st =
     (let actual = status_version (store_status st) in
      if expected \<noteq> version_etag (host_digest host) actual then (Inl actual, st)
      else attempt_if host registry prepare actual m st)"

definition observed_snapshot :: "('c, 'r) store \<Rightarrow> version \<times> snapshot" where
  "observed_snapshot st = (store_version st, fold snapshot_insert (bt_values (gs_intent st)) [])"

definition attempt_source_if where
  "attempt_source_if host registry prepare expected source st =
     (case observed_snapshot st of
        (actual, m) \<Rightarrow>
          if actual \<noteq> expected then (Inl actual, st)
          else attempt_if host registry prepare expected (snapshot_insert source m) st)"

definition reject_observation_if ::
  "version \<Rightarrow> diagnostics \<Rightarrow> bytes \<Rightarrow> ('c, 'r) store \<Rightarrow> (version + outcome) \<times> ('c, 'r) store" where
  "reject_observation_if expected ds first_message st =
     (let summary = (if ds = [] then ''configuration observation failed'' else first_message) in
      if gs_sealed st then (Inr (Stale PublicationSealed), st)
      else if store_version st \<noteq> expected then (Inl (store_version st), st)
      else (Inr (Rejected ds), note_failure ''observe'' summary st))"

subsection \<open>Source writers\<close>

datatype source_write_error =
  WriterUnavailable | WriteConflict version | WriteObservation observation_error

definition is_registered_source :: "source_id \<Rightarrow> ('c, 'r) store \<Rightarrow> bool" where
  "is_registered_source i st = (case gs_allowed st of None \<Rightarrow> False | Some allowed \<Rightarrow> i \<in> set allowed)"

text \<open>A writer exists only for a registered source of an open store; it is the source it writes.\<close>

definition source_writer :: "source_id \<Rightarrow> ('c, 'r) store \<Rightarrow> source_id option" where
  "source_writer i st = (if gs_sealed st \<or> \<not> is_registered_source i st then None else Some i)"

definition writer_attempt_if ::
  "'c host \<Rightarrow> 'c registry \<Rightarrow> (('c, 'r) preparation \<Rightarrow> bytes + 'r) \<Rightarrow> source_id \<Rightarrow> version \<Rightarrow> fingerprint \<Rightarrow> tree list
     \<Rightarrow> ('c, 'r) store \<Rightarrow> (source_write_error + outcome option) \<times> ('c, 'r) store" where
  "writer_attempt_if host registry prepare source expected content nodes st =
     (if gs_sealed st then (Inl WriterUnavailable, st)
      else
        (case observed_snapshot st of
           (actual, intent) \<Rightarrow>
             if actual \<noteq> expected then (Inl (WriteConflict actual), st)
             else
               (case observe source content nodes (snapshot_get source intent) of
                  Inl e \<Rightarrow> (Inl (WriteObservation e), st)
                | Inr observed \<Rightarrow>
                    map_prod (map_sum WriteConflict id) id
                      (attempt_if host registry prepare expected (snapshot_insert observed intent) st))))"

subsection \<open>Recovery\<close>

datatype restore_error = RestoreConflict version | RestoreSealed | InvalidSources | AlreadyPublished

definition validate_restored_sources :: "snapshot \<Rightarrow> snapshot \<Rightarrow> ('c, 'r) store \<Rightarrow> restore_error option" where
  "validate_restored_sources previous m st =
     (if gs_source_limit st < length (snapshot_sources m) \<or>
         list_ex (\<lambda>s. case gs_allowed st of None \<Rightarrow> False | Some allowed \<Rightarrow> ss_source s \<notin> set allowed) (snapshot_sources m)
      then Some InvalidSources
      else (case validate_successor previous m of Inl _ \<Rightarrow> Some InvalidSources | Inr _ \<Rightarrow> None))"

text \<open>The unlocked part of \<open>restore_intent_if\<close>, and its section under the write lock.\<close>

definition restore_check :: "version \<Rightarrow> snapshot \<Rightarrow> ('c, 'r) store \<Rightarrow> restore_error option" where
  "restore_check expected m st =
     (case observed_snapshot st of
        (actual, previous) \<Rightarrow>
          if actual \<noteq> expected then Some (RestoreConflict actual) else validate_restored_sources previous m st)"

definition commit_restored_intent ::
  "version \<Rightarrow> snapshot \<Rightarrow> ('c, 'r) store \<Rightarrow> (restore_error + version) \<times> ('c, 'r) store" where
  "commit_restored_intent expected m st =
     (if gs_sealed st then (Inl RestoreSealed, st)
      else if store_version st \<noteq> expected then (Inl (RestoreConflict (store_version st)), st)
      else
        (let st2 = st\<lparr>gs_intent := m, gs_head := revs m\<rparr> in
         (Inr (store_version st2), st2)))"

definition restore_intent_if ::
  "version \<Rightarrow> snapshot \<Rightarrow> ('c, 'r) store \<Rightarrow> (restore_error + version) \<times> ('c, 'r) store" where
  "restore_intent_if expected m st =
     (case restore_check expected m st of
        Some e \<Rightarrow> (Inl e, st)
      | None \<Rightarrow> commit_restored_intent expected m st)"

definition recovery_base :: "version \<Rightarrow> ('c, 'r) candidate_base" where
  "recovery_base v =
     \<lparr>cb_expected_head = vs_revs v, cb_base_generation = vs_generation v, cb_previous = None, cb_refresh = False\<rparr>"

definition recover_check :: "version \<Rightarrow> snapshot \<Rightarrow> snapshot \<Rightarrow> ('c, 'r) store \<Rightarrow> restore_error option" where
  "recover_check expected serving observed st =
     (if vs_generation expected \<noteq> 0 then Some AlreadyPublished
      else
        (case validate_restored_sources [] serving st of
           Some e \<Rightarrow> Some e
         | None \<Rightarrow> validate_restored_sources serving observed st))"

definition recover_if ::
  "'c host \<Rightarrow> 'c registry \<Rightarrow> (('c, 'r) preparation \<Rightarrow> bytes + 'r) \<Rightarrow> version \<Rightarrow> snapshot \<Rightarrow> snapshot
     \<Rightarrow> ('c, 'r) store \<Rightarrow> (restore_error + outcome option) \<times> ('c, 'r) store" where
  "recover_if host registry prepare expected serving observed st =
     (case recover_check expected serving observed st of
        Some e \<Rightarrow> (Inl e, st)
      | None \<Rightarrow>
          (case restore_intent_if expected observed st of
             (Inl e, st2) \<Rightarrow> (Inl e, st2)
           | (Inr v, st2) \<Rightarrow> map_prod Inr id (finish_attempt host registry prepare serving (recovery_base v) st2)))"

record ('c, 'r) configuration_capture =
  cc_version :: version
  cc_committed :: "('c, 'r) committed option"
  cc_observed :: snapshot
  cc_sealed :: bool

definition capture_configuration :: "('c, 'r) store \<Rightarrow> ('c, 'r) configuration_capture" where
  "capture_configuration st =
     \<lparr>cc_version = store_version st, cc_committed = gs_current st,
      cc_observed = fold snapshot_insert (bt_values (gs_intent st)) [], cc_sealed = gs_sealed st\<rparr>"

subsection \<open>Interleavings\<close>

text \<open>
  A task is between two of its sections: a candidate that has read what is new and waits to be admitted,
  an admitted candidate that compiles and prepares, a restoration that has been validated. The last
  component of a restoration is the snapshot to publish afterwards, when it is part of a recovery.
\<close>

datatype ('c, 'r) task =
    Observing "version option" bool snapshot "source_snapshot list"
  | Preparing snapshot "('c, 'r) candidate_base"
  | Restoring version snapshot "snapshot option"

type_synonym ('c, 'r) system = "('c, 'r) store \<times> ('c, 'r) task multiset"

inductive store_step :: "('c, 'r) system \<Rightarrow> ('c, 'r) system \<Rightarrow> bool" where
  step_begin: "snapshot_ok m \<Longrightarrow> store_step (st, ts) (st, add_mset (Observing expected again m (new_intent st m)) ts)"
| step_refused: "admit expected again m observed st = (r, st2) \<Longrightarrow> (\<And>base. r \<noteq> Admitted base) \<Longrightarrow>
    store_step (st, add_mset (Observing expected again m observed) ts) (st2, ts)"
| step_admitted: "admit expected again m observed st = (Admitted base, st2) \<Longrightarrow>
    store_step (st, add_mset (Observing expected again m observed) ts) (st2, add_mset (Preparing m base) ts)"
| step_finish: "finish_attempt host registry prepare m base st = (r, st2) \<Longrightarrow>
    store_step (st, add_mset (Preparing m base) ts) (st2, ts)"
| step_reject: "reject_observation_if expected ds message st = (r, st2) \<Longrightarrow> store_step (st, ts) (st2, ts)"
| step_restore: "snapshot_ok m \<Longrightarrow> restore_check expected m st = None \<Longrightarrow>
    store_step (st, ts) (st, add_mset (Restoring expected m None) ts)"
| step_recover: "snapshot_ok m \<Longrightarrow> snapshot_ok s \<Longrightarrow> recover_check expected s m st = None \<Longrightarrow> restore_check expected m st = None \<Longrightarrow>
    store_step (st, ts) (st, add_mset (Restoring expected m (Some s)) ts)"
| step_restore_fails: "commit_restored_intent expected m st = (Inl e, st2) \<Longrightarrow>
    store_step (st, add_mset (Restoring expected m s) ts) (st2, ts)"
| step_restored: "commit_restored_intent expected m st = (Inr v, st2) \<Longrightarrow>
    store_step (st, add_mset (Restoring expected m None) ts) (st2, ts)"
| step_recovered: "commit_restored_intent expected m st = (Inr v, st2) \<Longrightarrow>
    store_step (st, add_mset (Restoring expected m (Some s)) ts) (st2, add_mset (Preparing s (recovery_base v)) ts)"
| step_seal: "store_step (st, ts) (seal st, ts)"
| step_abandon: "store_step (st, add_mset t ts) (st, ts)"

inductive_cases store_stepE: "store_step x y"

subsection \<open>What admission retains\<close>

lemma fold_retain:
  assumes "snapshot_ok m" "snapshot_ok n" "set obs \<subseteq> set (snapshot_sources m)"
  shows "snapshot_ok (fold (\<lambda>s x. if P s then snapshot_insert s x else x) obs n) \<and>
    snapshot_get i (fold (\<lambda>s x. if P s then snapshot_insert s x else x) obs n) =
      (case snapshot_get i m of
         None \<Rightarrow> snapshot_get i n
       | Some s \<Rightarrow> if s \<in> set obs \<and> P s then Some s else snapshot_get i n)"
  using assms(2,3)
proof (induction obs arbitrary: n)
  case Nil
  then show ?case by (simp split: option.splits)
next
  case (Cons s obs)
  have s: "snapshot_get (ss_source s) m = Some s" using Cons.prems(2) snapshot_sources_iff [OF assms(1)] by simp
  let ?n = "if P s then snapshot_insert s n else n"
  have ok: "snapshot_ok ?n" using Cons.prems(1) by simp
  note IH = Cons.IH [OF ok] Cons.prems
  show ?case
  proof (cases "i = ss_source s")
    case True
    then have "snapshot_get i ?n = (if P s then Some s else snapshot_get i n)" using Cons.prems(1) by simp
    with True s IH show ?thesis by simp
  next
    case False
    then have "snapshot_get i ?n = snapshot_get i n" using Cons.prems(1) by simp
    moreover have "x \<noteq> s" if "snapshot_get i m = Some x" for x
      using snapshot_get_source [OF assms(1) that] False by blast
    ultimately show ?thesis using IH False by (simp split: option.splits)
  qed
qed

lemma retain_get:
  assumes "snapshot_ok m" "snapshot_ok (gs_intent st)" "set obs \<subseteq> set (snapshot_sources m)"
    "\<And>s. s \<in> set (snapshot_sources m) \<Longrightarrow> newer_than_head st s \<Longrightarrow> s \<in> set obs"
  shows "snapshot_ok (retain st obs)"
    "snapshot_get i (retain st obs) =
      (case snapshot_get i m of
         None \<Rightarrow> snapshot_get i (gs_intent st)
       | Some s \<Rightarrow> if newer_than_head st s then Some s else snapshot_get i (gs_intent st))"
proof -
  note f = fold_retain [OF assms(1,2,3), of "newer_than_head st"]
  show "snapshot_ok (retain st obs)" using f by (simp add: retain_def)
  have "s \<in> set (snapshot_sources m)" if "snapshot_get i m = Some s" for s
    using that snapshot_get_source [OF assms(1) that] snapshot_sources_iff [OF assms(1)] by simp
  then show "snapshot_get i (retain st obs) =
      (case snapshot_get i m of
         None \<Rightarrow> snapshot_get i (gs_intent st)
       | Some s \<Rightarrow> if newer_than_head st s then Some s else snapshot_get i (gs_intent st))"
    using f [THEN conjunct2, of i] assms(4) unfolding retain_def by (simp split: option.splits)
qed

lemma retain_revs:
  assumes "snapshot_ok m" "snapshot_ok (gs_intent st)" "gs_head st = revs (gs_intent st)"
    "set obs \<subseteq> set (snapshot_sources m)"
    "\<And>s. s \<in> set (snapshot_sources m) \<Longrightarrow> newer_than_head st s \<Longrightarrow> s \<in> set obs"
  shows "revs (retain st obs) = merge_max (revs m) (gs_head st)"
proof (rule bt_ext)
  note r = retain_get [OF assms(1,2,4,5)]
  show "bt_ok (revs (retain st obs))" "bt_ok (merge_max (revs m) (gs_head st))"
    using r(1) assms(2,3) by simp_all
  fix i
  have src: "ss_source s = i" if "snapshot_get i m = Some s" for s by (rule snapshot_get_source [OF assms(1) that])
  have g: "bt_get i (merge_max (revs m) (gs_head st)) =
      newer (map_option ss_rev (snapshot_get i (gs_intent st))) (map_option ss_rev (snapshot_get i m))"
    using assms(1,2,3) by (simp add: bt_get_merge_max)
  show "bt_get i (revs (retain st obs)) = bt_get i (merge_max (revs m) (gs_head st))"
  proof (cases "snapshot_get i m")
    case None
    then show ?thesis by (simp add: r(2) g)
  next
    case (Some s)
    then have "newer_than_head st s = (case snapshot_get i (gs_intent st) of None \<Rightarrow> True | Some q \<Rightarrow> ss_rev q < ss_rev s)"
      using src assms(3) by (simp add: newer_than_head_def split: option.splits)
    with Some show ?thesis by (simp add: r(2) g newer_def max_def split: option.splits)
  qed
qed

lemma length_keys: "snapshot_ok m \<Longrightarrow> length m = card (fst ` set m)"
  by (metis bt_ok_distinct distinct_card length_map set_map snapshot_ok_def)

lemma snapshot_keys: "i \<in> fst ` set m \<longleftrightarrow> snapshot_get i m \<noteq> None"
  by (simp add: snapshot_get_def bt_get_None)

lemma retain_length:
  assumes "snapshot_ok m" "snapshot_ok (gs_intent st)" "gs_head st = revs (gs_intent st)"
    "set obs \<subseteq> set (snapshot_sources m)"
    "\<And>s. s \<in> set (snapshot_sources m) \<Longrightarrow> newer_than_head st s \<Longrightarrow> s \<in> set obs"
  shows "length (retain st obs) \<le>
    length (gs_intent st) + length (filter (\<lambda>s. bt_get (ss_source s) (gs_head st) = None) (snapshot_sources m))"
    (is "_ \<le> _ + length ?new")
proof -
  note r = retain_get [OF assms(1,2,4,5)]
  have "fst ` set (retain st obs) \<subseteq> fst ` set (gs_intent st) \<union> ss_source ` set ?new"
  proof
    fix i
    assume "i \<in> fst ` set (retain st obs)"
    then have g: "snapshot_get i (retain st obs) \<noteq> None" by (simp add: snapshot_keys)
    show "i \<in> fst ` set (gs_intent st) \<union> ss_source ` set ?new"
    proof (cases "snapshot_get i (gs_intent st)")
      case None
      with g obtain s where s: "snapshot_get i m = Some s" by (auto simp: r(2) split: option.splits)
      note src = snapshot_get_source [OF assms(1) s]
      have "s \<in> set ?new" using s src None assms(3) snapshot_sources_iff [OF assms(1)] by simp
      with src show ?thesis by blast
    next
      case (Some x)
      then have "i \<in> fst ` set (gs_intent st)" unfolding snapshot_keys by simp
      then show ?thesis ..
    qed
  qed
  then have "card (fst ` set (retain st obs)) \<le> card (fst ` set (gs_intent st) \<union> ss_source ` set ?new)"
    by (intro card_mono) simp_all
  also have "\<dots> \<le> card (fst ` set (gs_intent st)) + card (ss_source ` set ?new)" by (rule card_Un_le)
  also have "card (ss_source ` set ?new) \<le> length ?new"
    by (meson card_image_le card_length finite_set order_trans)
  finally show ?thesis using r(1) assms(2) by (simp add: length_keys)
qed

subsection \<open>The invariant\<close>

definition permitted :: "('c, 'r) store \<Rightarrow> snapshot \<Rightarrow> bool" where
  "permitted st m \<longleftrightarrow> length m \<le> gs_source_limit st \<and>
     (case gs_allowed st of None \<Rightarrow> True | Some allowed \<Rightarrow> \<forall>i. snapshot_get i m \<noteq> None \<longrightarrow> i \<in> set allowed)"

definition published_ok :: "('c, 'r) store \<Rightarrow> bool" where
  "published_ok st \<longleftrightarrow>
     (case gs_current st of
        None \<Rightarrow> gs_generation st = 0
      | Some c \<Rightarrow> cm_number c = gs_generation st \<and> 0 < gs_generation st \<and> cm_boot_id c = gs_boot_id st \<and>
          cm_revs c = revs (cm_sources c) \<and> behind (cm_revs c) (gs_head st)) \<and>
     gs_generation st \<le> u64_max"

definition store_inv :: "('c, 'r) store \<Rightarrow> bool" where
  "store_inv st \<longleftrightarrow> snapshot_ok (gs_intent st) \<and> gs_head st = revs (gs_intent st) \<and> permitted st (gs_intent st) \<and>
     published_ok st \<and> gs_source_limit st < u64_max"

fun task_inv :: "('c, 'r) store \<Rightarrow> ('c, 'r) task \<Rightarrow> bool" where
  "task_inv st (Observing expected again m observed) \<longleftrightarrow>
     snapshot_ok m \<and> set observed \<subseteq> set (snapshot_sources m) \<and>
     (\<forall>s \<in> set (snapshot_sources m). newer_than_head st s \<longrightarrow> s \<in> set observed)"
| "task_inv st (Preparing m base) \<longleftrightarrow>
     behind (revs m) (cb_expected_head base) \<and> cb_base_generation base \<le> gs_generation st \<and>
     (cb_base_generation base = gs_generation st \<longrightarrow> cb_previous base = gs_current st)"
| "task_inv st (Restoring expected m s) \<longleftrightarrow>
     snapshot_ok m \<and> permitted st m \<and> behind (vs_revs expected) (revs m) \<and>
     (case s of None \<Rightarrow> True | Some serving \<Rightarrow> behind (revs serving) (revs m) \<and> vs_generation expected = 0)"

text \<open>What every section keeps: nothing published is lost, revisions and generations only move forward.\<close>

definition advances :: "('c, 'r) store \<Rightarrow> ('c, 'r) store \<Rightarrow> bool" where
  "advances st st2 \<longleftrightarrow>
     gs_boot_id st2 = gs_boot_id st \<and> gs_source_limit st2 = gs_source_limit st \<and> gs_allowed st2 = gs_allowed st \<and>
     (gs_sealed st \<longrightarrow> st2 = st) \<and> behind (gs_head st) (gs_head st2) \<and> gs_generation st \<le> gs_generation st2 \<and>
     (gs_generation st2 = gs_generation st \<longrightarrow> gs_current st2 = gs_current st)"

lemma advances_refl [simp]: "advances st st"
  by (simp add: advances_def)

lemma permitted_cong: "advances st st2 \<Longrightarrow> permitted st2 m = permitted st m"
  by (simp add: advances_def permitted_def)

lemma task_inv_advances:
  assumes "task_inv st t" "advances st st2"
  shows "task_inv st2 t"
proof (cases t)
  case (Observing expected again m observed)
  have "newer_than_head st2 s \<Longrightarrow> newer_than_head st s" for s
  proof -
    assume n: "newer_than_head st2 s"
    have b: "behind (gs_head st) (gs_head st2)" using assms(2) by (simp add: advances_def)
    show "newer_than_head st s"
    proof (cases "bt_get (ss_source s) (gs_head st)")
      case (Some q)
      then obtain q2 where "bt_get (ss_source s) (gs_head st2) = Some q2" "q \<le> q2" using b unfolding behind_def by blast
      with n Some show ?thesis by (simp add: newer_than_head_def)
    qed (simp add: newer_than_head_def)
  qed
  with assms(1) show ?thesis unfolding Observing by auto
next
  case (Preparing m base)
  with assms show ?thesis by (auto simp: advances_def)
next
  case (Restoring expected m s)
  with assms show ?thesis by (simp add: permitted_cong)
qed

lemma admissible_None:
  assumes "admissible m st = None" "snapshot_ok m" "gs_source_limit st < u64_max"
  shows "length (gs_intent st) + length (filter (\<lambda>s. bt_get (ss_source s) (gs_head st) = None) (snapshot_sources m))
      \<le> gs_source_limit st"
    "gs_allowed st = Some allowed \<Longrightarrow> snapshot_get i m \<noteq> None \<Longrightarrow> i \<in> set allowed"
proof -
  have b: "\<not> gs_source_limit st < saturating_add u64_max (length (gs_intent st))
      (length (filter (\<lambda>s. bt_get (ss_source s) (gs_head st) = None) (snapshot_sources m)))"
    and a: "\<not> (case gs_allowed st of None \<Rightarrow> False | Some allowed \<Rightarrow> list_ex (\<lambda>s. ss_source s \<notin> set allowed) (snapshot_sources m))"
    using assms(1) by (simp_all add: admissible_def split: if_splits)
  show "length (gs_intent st) + length (filter (\<lambda>s. bt_get (ss_source s) (gs_head st) = None) (snapshot_sources m))
      \<le> gs_source_limit st"
    using b assms(3) by (auto simp: saturating_add_def min_def split: if_splits)
  show "i \<in> set allowed" if al: "gs_allowed st = Some allowed" and i: "snapshot_get i m \<noteq> None"
  proof -
    obtain s where s: "snapshot_get i m = Some s" using i by blast
    then have "s \<in> set (snapshot_sources m)" "ss_source s = i"
      using snapshot_get_source [OF assms(2) s] snapshot_sources_iff [OF assms(2)] by simp_all
    with a al show ?thesis by (auto simp: list_ex_iff)
  qed
qed

lemma published_ok_head: "published_ok st \<Longrightarrow> behind (gs_head st) h \<Longrightarrow> published_ok (st\<lparr>gs_intent := n, gs_head := h\<rparr>)"
  using behind_trans by (auto simp: published_ok_def split: option.splits)

lemma admit_inv:
  assumes "store_inv st" "task_inv st (Observing expected again m observed)"
    "admit expected again m observed st = (r, st2)"
  shows "store_inv st2 \<and> advances st st2 \<and> gs_current st2 = gs_current st \<and> gs_generation st2 = gs_generation st \<and>
    (\<forall>base. r = Admitted base \<longrightarrow> task_inv st2 (Preparing m base) \<and> cb_previous base = gs_current st2 \<and>
       cb_expected_head base = revs m \<and> gs_head st2 = revs m \<and> \<not> gs_sealed st2)"
proof (cases "st2 = st")
  case True
  have "r \<noteq> Admitted base \<or> (gs_head st2 = revs m \<and> cb_previous base = gs_current st2 \<and> cb_base_generation base = gs_generation st2
      \<and> cb_expected_head base = revs m \<and> \<not> gs_sealed st)" for base
    using assms(3) by (auto simp: admit_def Let_def split: if_splits option.splits)
  with True assms(1) show ?thesis by auto
next
  case False
  let ?h = "merge_max (revs m) (gs_head st)"
  have sealed: "\<not> gs_sealed st" and ad: "admissible m st = None"
    and st2: "st2 = st\<lparr>gs_intent := retain st observed, gs_head := ?h\<rparr>"
    and r: "\<And>base. r = Admitted base \<Longrightarrow> ?h = revs m \<and> cb_previous base = gs_current st \<and>
       cb_base_generation base = gs_generation st \<and> cb_expected_head base = revs m"
    using assms(3) False by (auto simp: admit_def Let_def split: if_splits option.splits)
  have inv: "snapshot_ok (gs_intent st)" "gs_head st = revs (gs_intent st)" "permitted st (gs_intent st)"
    "published_ok st" "gs_source_limit st < u64_max" using assms(1) by (simp_all add: store_inv_def)
  have t: "snapshot_ok m" "set observed \<subseteq> set (snapshot_sources m)"
    "\<And>s. s \<in> set (snapshot_sources m) \<Longrightarrow> newer_than_head st s \<Longrightarrow> s \<in> set observed" using assms(2) by simp_all
  note ok = retain_get [OF t(1) inv(1) t(2,3)]
  have b: "behind (gs_head st) ?h" using behind_merge_max [of "gs_head st" "revs m"] inv(1,2) t(1) by simp
  have "permitted st2 (retain st observed)"
  proof -
    have "length (retain st observed) \<le> gs_source_limit st"
      using retain_length [OF t(1) inv(1,2) t(2,3)] admissible_None(1) [OF ad t(1) inv(5)] by simp
    moreover have "i \<in> set allowed" if "gs_allowed st = Some allowed" "snapshot_get i (retain st observed) \<noteq> None" for i allowed
    proof (cases "snapshot_get i m = None")
      case True
      with that inv(3) show ?thesis by (simp add: ok(2) permitted_def)
    next
      case False
      with that(1) show ?thesis by (rule admissible_None(2) [OF ad t(1) inv(5)])
    qed
    ultimately show ?thesis by (simp add: permitted_def st2 split: option.splits)
  qed
  moreover have "published_ok st2" unfolding st2 by (rule published_ok_head [OF inv(4) b])
  moreover have "revs (retain st observed) = ?h" by (rule retain_revs [OF t(1) inv(1,2) t(2,3)])
  ultimately have "store_inv st2" using ok(1) inv(5) by (simp add: store_inv_def st2)
  moreover have "advances st st2" using b sealed by (simp add: advances_def st2)
  ultimately show ?thesis using r sealed by (auto simp: st2)
qed

lemma validate_candidate_None:
  "validate_candidate expected base st = None \<longleftrightarrow> \<not> gs_sealed st \<and> gs_head st = expected \<and> gs_generation st = base"
  by (simp add: validate_candidate_def)

text \<open>A finish leaves the store alone, touches only the failure record, or publishes.\<close>

definition publishes ::
  "'c host \<Rightarrow> 'c registry \<Rightarrow> (('c, 'r) preparation \<Rightarrow> bytes + 'r) \<Rightarrow> snapshot \<Rightarrow> ('c, 'r) candidate_base
     \<Rightarrow> outcome option \<Rightarrow> ('c, 'r) store \<Rightarrow> ('c, 'r) store \<Rightarrow> bool" where
  "publishes host registry prepare m base r st st2 \<longleftrightarrow>
     (\<exists>spec plan runtime. let number = gs_generation st + 1; changes = diff_bindings (running_bindings base) (pl_bindings plan) in
        \<not> gs_sealed st \<and> gs_head st = cb_expected_head base \<and> gs_generation st = cb_base_generation base \<and> number \<le> u64_max \<and>
        host_normalize host m registry = Inr spec \<and>
        compile (host_digest host) (host_ops host) registry spec = Some plan \<and> \<not> unchanged_plan base plan \<and>
        prepare \<lparr>pr_plan = plan, pr_previous = cb_previous base, pr_changes = changes, pr_generation = number,
          pr_boot_id = gs_boot_id st\<rparr> = Inr runtime \<and>
        r = Some (if gs_current st = None then Started number else Reloaded number changes) \<and>
        st2 = st\<lparr>gs_generation := number,
          gs_current := Some \<lparr>cm_number = number, cm_boot_id = gs_boot_id st, cm_plan = plan, cm_runtime = runtime,
            cm_revs = revs m, cm_sources = m\<rparr>, gs_last_failure := None\<rparr>)"

lemma fail_with_cases:
  assumes "fail_with base stage summary result st = (r, st2)"
  shows "st2 = st \<and> (\<exists>reason. r = Stale reason) \<or> \<not> gs_sealed st \<and> r = result \<and> st2 = note_failure stage summary st"
  using assms by (auto simp: fail_with_def record_failure_def validate_candidate_None split: option.splits prod.splits)

lemma finish_noop_cases:
  assumes "finish_noop base st = (r, st2)"
  shows "st2 = st \<and> (\<exists>reason. r = Stale reason) \<or>
    \<not> gs_sealed st \<and> r = NoOp (gs_generation st) \<and> st2 = st\<lparr>gs_last_failure := None\<rparr>"
  using assms by (auto simp: finish_noop_def validate_candidate_None split: option.splits)

definition keeps_published :: "outcome option \<Rightarrow> ('c, 'r) store \<Rightarrow> ('c, 'r) store \<Rightarrow> bool" where
  "keeps_published r st st2 \<longleftrightarrow> (\<exists>f. st2 = st\<lparr>gs_last_failure := f\<rparr>) \<and> (gs_sealed st \<longrightarrow> st2 = st) \<and>
     (\<forall>g changes. r \<noteq> Some (Started g) \<and> r \<noteq> Some (Reloaded g changes))"

lemma keeps_same: "(\<forall>g changes. r \<noteq> Some (Started g) \<and> r \<noteq> Some (Reloaded g changes)) \<Longrightarrow> keeps_published r st st"
  unfolding keeps_published_def by (intro conjI exI [of _ "gs_last_failure st"]) simp_all

lemma keeps_fail:
  assumes "map_prod Some id (fail_with base stage summary result st) = (s, st2)"
    "\<forall>g changes. result \<noteq> Started g \<and> result \<noteq> Reloaded g changes"
  shows "keeps_published s st st2"
proof -
  obtain r where f: "fail_with base stage summary result st = (r, st2)" and s: "s = Some r"
    using assms(1) by (cases "fail_with base stage summary result st") auto
  show ?thesis
  proof (cases "st2 = st \<and> (\<exists>reason. r = Stale reason)")
    case True
    then show ?thesis by (auto simp: s intro: keeps_same)
  next
    case False
    then show ?thesis using fail_with_cases [OF f] assms(2) by (auto simp: s keeps_published_def note_failure_def)
  qed
qed

lemma keeps_noop: "map_prod Some id (finish_noop base st) = (s, st2) \<Longrightarrow> keeps_published s st st2"
  using finish_noop_cases [of base st] keeps_same [of s st] by (cases "finish_noop base st") (auto simp: keeps_published_def)

lemma finish_cases:
  assumes "finish_attempt host registry prepare m base st = (r, st2)"
  shows "keeps_published r st st2 \<or> publishes host registry prepare m base r st st2"
proof (cases "host_normalize host m registry")
  case (Inl ds)
  then show ?thesis using assms by (auto simp: finish_attempt_def intro: keeps_fail)
next
  case n: (Inr spec)
  show ?thesis
  proof (cases "compile (host_digest host) (host_ops host) registry spec")
    case None
    then show ?thesis using assms n by (auto simp: finish_attempt_def intro: keeps_same)
  next
    case c: (Some plan)
    show ?thesis
    proof (cases "unchanged_plan base plan")
      case True
      then show ?thesis using assms n c by (auto simp: finish_attempt_def Let_def intro: keeps_noop)
    next
      case u: False
      show ?thesis
      proof (cases "generation_next (cb_base_generation base)")
        case None
        then show ?thesis using assms n c u by (auto simp: finish_attempt_def Let_def intro: keeps_fail)
      next
        case g: (Some number)
        then have number: "number = cb_base_generation base + 1" "number \<le> u64_max"
          by (simp_all add: generation_next_def checked_add_Some)
        let ?ch = "diff_bindings (running_bindings base) (pl_bindings plan)"
        let ?p = "prepare \<lparr>pr_plan = plan, pr_previous = cb_previous base, pr_changes = ?ch, pr_generation = number,
          pr_boot_id = gs_boot_id st\<rparr>"
        show ?thesis
        proof (cases ?p)
          case (Inl message)
          then show ?thesis using assms n c u g by (auto simp: finish_attempt_def Let_def intro: keeps_fail)
        next
          case p: (Inr runtime)
          then have e: "map_prod Some id (publish m base plan ?ch number runtime st) = (r, st2)"
            using assms n c u g by (simp add: finish_attempt_def Let_def)
          show ?thesis
          proof (cases "validate_candidate (cb_expected_head base) (cb_base_generation base) st")
            case (Some reason)
            then show ?thesis using e by (auto simp: publish_def intro: keeps_same)
          next
            case None
            then have v: "\<not> gs_sealed st" "gs_head st = cb_expected_head base" "gs_generation st = cb_base_generation base"
              by (simp_all add: validate_candidate_None)
            have "publishes host registry prepare m base r st st2" unfolding publishes_def Let_def
              by (rule exI [of _ spec], rule exI [of _ plan], rule exI [of _ runtime])
                (use e v n c u p number None in \<open>auto simp: publish_def\<close>)
            then show ?thesis ..
          qed
        qed
      qed
    qed
  qed
qed

lemma publishes_inv:
  assumes "publishes host registry prepare m base r st st2" "store_inv st" "task_inv st (Preparing m base)"
  shows "store_inv st2 \<and> advances st st2"
proof -
  from assms(1) obtain plan runtime where p: "\<not> gs_sealed st" "gs_head st = cb_expected_head base" "gs_generation st + 1 \<le> u64_max"
    "st2 = st\<lparr>gs_generation := gs_generation st + 1,
          gs_current := Some \<lparr>cm_number = gs_generation st + 1, cm_boot_id = gs_boot_id st, cm_plan = plan, cm_runtime = runtime,
            cm_revs = revs m, cm_sources = m\<rparr>, gs_last_failure := None\<rparr>"
    unfolding publishes_def Let_def by blast
  then show ?thesis using assms(2,3)
    by (simp add: store_inv_def published_ok_def permitted_def advances_def)
qed

lemma store_inv_failure: "store_inv (st\<lparr>gs_last_failure := f\<rparr>) = store_inv st"
  by (simp add: store_inv_def permitted_def published_ok_def cong: option.case_cong)

lemma finish_inv:
  assumes "store_inv st" "task_inv st (Preparing m base)" "finish_attempt host registry prepare m base st = (r, st2)"
  shows "store_inv st2 \<and> advances st st2"
  using finish_cases [OF assms(3)]
proof
  assume "keeps_published r st st2"
  then obtain f where "st2 = st\<lparr>gs_last_failure := f\<rparr>" "gs_sealed st \<longrightarrow> st2 = st" by (auto simp: keeps_published_def)
  then show ?thesis using assms(1) by (auto simp: store_inv_failure advances_def)
qed (rule publishes_inv [OF _ assms(1,2)])

lemma snapshot_rebuild: "snapshot_ok m \<Longrightarrow> fold snapshot_insert (bt_values m) [] = m"
proof -
  assume m: "snapshot_ok m"
  have "fold snapshot_insert (map snd xs) n = fold (\<lambda>(k, s). bt_insert k s) xs n" if "\<forall>(k, s) \<in> set xs. ss_source s = k" for xs n
    using that by (induction xs arbitrary: n) (auto simp: snapshot_insert_def)
  with m bt_rebuild [of "[]" m] show ?thesis by (simp add: bt_values_def snapshot_ok_def)
qed

lemma observed_snapshot_intent: "store_inv st \<Longrightarrow> observed_snapshot st = (store_version st, gs_intent st)"
  by (simp add: observed_snapshot_def store_inv_def snapshot_rebuild)

lemma length_sources [simp]: "length (snapshot_sources m) = length m"
  by (simp add: snapshot_sources_def bt_values_def)

lemma validate_restored_None:
  assumes "validate_restored_sources previous m st = None" "snapshot_ok m" "snapshot_ok previous"
  shows "permitted st m" "behind (revs previous) (revs m)"
proof -
  have l: "length m \<le> gs_source_limit st" and a: "\<not> list_ex (\<lambda>s. case gs_allowed st of None \<Rightarrow> False
      | Some allowed \<Rightarrow> ss_source s \<notin> set allowed) (snapshot_sources m)"
    and v: "validate_successor previous m = Inr ()"
    using assms(1) by (auto simp: validate_restored_sources_def split: if_splits sum.splits)
  have "i \<in> set allowed" if al: "gs_allowed st = Some allowed" and i: "snapshot_get i m \<noteq> None" for i allowed
  proof -
    obtain s where s: "snapshot_get i m = Some s" using i by blast
    then have "s \<in> set (snapshot_sources m)" "ss_source s = i"
      using snapshot_get_source [OF assms(2) s] snapshot_sources_iff [OF assms(2)] by simp_all
    with a al show ?thesis by (auto simp: list_ex_iff)
  qed
  with l show "permitted st m" by (simp add: permitted_def split: option.splits)
  show "behind (revs previous) (revs m)" unfolding behind_def
  proof (intro allI impI)
    fix i r
    assume "bt_get i (revs previous) = Some r"
    then obtain old where "snapshot_get i previous = Some old" "ss_rev old = r" by auto
    moreover from this(1) obtain new where "snapshot_get i m = Some new" "succeeds old new"
      using v [unfolded validate_successor_iff [OF assms(3)]] by blast
    ultimately show "\<exists>q. bt_get i (revs m) = Some q \<and> r \<le> q" by (auto simp: succeeds_def)
  qed
qed

lemma restore_check_task:
  assumes "store_inv st" "snapshot_ok m" "restore_check expected m st = None"
  shows "task_inv st (Restoring expected m None)"
proof -
  have e: "store_version st = expected" and v: "validate_restored_sources (gs_intent st) m st = None"
    using assms(1,3) by (auto simp: restore_check_def observed_snapshot_intent split: if_splits)
  have i: "snapshot_ok (gs_intent st)" "gs_head st = revs (gs_intent st)" using assms(1) by (simp_all add: store_inv_def)
  from validate_restored_None [OF v assms(2) i(1)] show ?thesis
    using assms(2) i(2) e by (auto simp: store_version_def)
qed

lemma recover_check_task:
  assumes "store_inv st" "snapshot_ok m" "snapshot_ok s" "recover_check expected s m st = None" "restore_check expected m st = None"
  shows "task_inv st (Restoring expected m (Some s))"
proof -
  have v: "validate_restored_sources s m st = None" "vs_generation expected = 0"
    using assms(4) by (auto simp: recover_check_def split: if_splits option.splits)
  then show ?thesis using restore_check_task [OF assms(1,2,5)] validate_restored_None(2) [OF v(1) assms(2,3)] by simp
qed

lemma commit_restored_inv:
  assumes "store_inv st" "task_inv st (Restoring expected m s)" "commit_restored_intent expected m st = (r, st2)"
  shows "store_inv st2 \<and> advances st st2 \<and>
    (\<forall>v serving. r = Inr v \<longrightarrow> s = Some serving \<longrightarrow> task_inv st2 (Preparing serving (recovery_base v)))"
proof (cases "gs_sealed st \<or> store_version st \<noteq> expected")
  case True
  then show ?thesis using assms(1,3) by (auto simp: commit_restored_intent_def split: if_splits)
next
  case False
  then have e: "\<not> gs_sealed st" "vs_revs expected = gs_head st" "vs_generation expected = gs_generation st"
    and st2: "st2 = st\<lparr>gs_intent := m, gs_head := revs m\<rparr>" "r = Inr (store_version st2)"
    using assms(3) by (auto simp: commit_restored_intent_def store_version_def Let_def)
  have b: "behind (gs_head st) (revs m)" "permitted st m" "snapshot_ok m" using assms(2) e by simp_all
  have p: "published_ok st" "gs_source_limit st < u64_max" using assms(1) by (simp_all add: store_inv_def)
  have "published_ok st2" unfolding st2 by (rule published_ok_head [OF p(1) b(1)])
  moreover have "permitted st2 m" using b(2) by (simp add: permitted_def st2)
  ultimately have "store_inv st2" using b p by (simp add: store_inv_def st2)
  moreover have "advances st st2" using b e by (simp add: advances_def st2)
  moreover have "gs_current st = None" if "gs_generation st = 0"
    using p(1) that by (auto simp: published_ok_def split: option.splits)
  ultimately show ?thesis using assms(2) e st2
    by (auto simp: recovery_base_def store_version_def split: option.splits)
qed

lemma reject_inv:
  assumes "reject_observation_if expected ds message st = (r, st2)" "store_inv st"
  shows "store_inv st2 \<and> advances st st2 \<and> gs_current st2 = gs_current st \<and> gs_generation st2 = gs_generation st"
  using assms by (auto simp: reject_observation_if_def note_failure_def store_inv_failure advances_def Let_def split: if_splits)

lemma seal_inv: "store_inv st \<Longrightarrow> store_inv (seal st)"
  by (auto simp: store_inv_def permitted_def published_ok_def seal_def split: option.splits)

subsection \<open>Every interleaving\<close>

definition system_inv :: "('c, 'r) system \<Rightarrow> bool" where
  "system_inv x \<longleftrightarrow> store_inv (fst x) \<and> (\<forall>t \<in># snd x. task_inv (fst x) t)"

lemma system_inv_add:
  assumes "system_inv (st, add_mset t ts)"
  shows "store_inv st" "task_inv st t" "system_inv (st, ts)"
  using assms by (simp_all add: system_inv_def del: task_inv.simps)

lemma system_inv_intro: "system_inv (st, ts) \<Longrightarrow> task_inv st t \<Longrightarrow> system_inv (st, add_mset t ts)"
  by (simp add: system_inv_def del: task_inv.simps)

lemma system_inv_advances:
  assumes "system_inv (st, ts)" "store_inv st2 \<and> advances st st2"
  shows "system_inv (st2, ts) \<and> advances st st2"
  using assms task_inv_advances unfolding system_inv_def fst_conv snd_conv by blast

lemma new_intent_task: "snapshot_ok m \<Longrightarrow> task_inv st (Observing expected again m (new_intent st m))"
  by (auto simp: new_intent_def)

lemma store_step_inv:
  assumes "store_step x y" "system_inv x"
  shows "system_inv y \<and> advances (fst x) (fst y)"
  using assms unfolding fst_conv
proof (induction rule: store_step.induct)
  case (step_begin m st ts expected again)
  then show ?case using system_inv_intro [OF _ new_intent_task [OF step_begin(1)]] by simp
next
  case (step_refused expected again m observed st r st2 ts)
  note s = system_inv_add [OF step_refused.prems]
  from admit_inv [OF s(1,2) step_refused(1)] system_inv_advances [OF s(3)] show ?case by simp
next
  case (step_admitted expected again m observed st base st2 ts)
  note s = system_inv_add [OF step_admitted.prems]
  note a = admit_inv [OF s(1,2) step_admitted(1)]
  then have "system_inv (st2, ts) \<and> advances st st2" by (intro system_inv_advances [OF s(3)]) blast
  with a system_inv_intro show ?case unfolding fst_conv by blast
next
  case (step_finish host registry prepare m base st r st2 ts)
  note s = system_inv_add [OF step_finish.prems]
  from finish_inv [OF s(1,2) step_finish(1)] system_inv_advances [OF s(3)] show ?case by simp
next
  case (step_reject expected ds message st r st2 ts)
  then have "store_inv st" by (simp add: system_inv_def)
  from reject_inv [OF step_reject(1) this] system_inv_advances [OF step_reject(2)] show ?case by simp
next
  case (step_restore m expected st ts)
  then have "store_inv st" by (simp add: system_inv_def)
  then have "task_inv st (Restoring expected m None)" using step_restore by (intro restore_check_task)
  then show ?case using system_inv_intro [OF step_restore.prems] by simp
next
  case (step_recover m s expected st ts)
  then have "store_inv st" by (simp add: system_inv_def)
  then have "task_inv st (Restoring expected m (Some s))" using step_recover by (intro recover_check_task)
  then show ?case using system_inv_intro [OF step_recover.prems] by simp
next
  case (step_restore_fails expected m st e st2 serving ts)
  note s = system_inv_add [OF step_restore_fails.prems]
  from commit_restored_inv [OF s(1,2) step_restore_fails(1)] system_inv_advances [OF s(3)] show ?case by simp
next
  case (step_restored expected m st v st2 ts)
  note s = system_inv_add [OF step_restored.prems]
  from commit_restored_inv [OF s(1,2) step_restored(1)] system_inv_advances [OF s(3)] show ?case by simp
next
  case (step_recovered expected m st v st2 serving ts)
  note s = system_inv_add [OF step_recovered.prems]
  note a = commit_restored_inv [OF s(1,2) step_recovered(1)]
  then have "system_inv (st2, ts) \<and> advances st st2" by (intro system_inv_advances [OF s(3)]) blast
  with a system_inv_intro show ?case unfolding fst_conv by blast
next
  case (step_seal st ts)
  then have "store_inv (seal st)" by (auto simp: system_inv_def intro: seal_inv)
  moreover have "advances st (seal st)" by (auto simp: seal_def advances_def)
  ultimately show ?case using system_inv_advances [OF step_seal] by simp
next
  case (step_abandon st t ts)
  then show ?case using system_inv_add by simp
qed

lemma advances_trans:
  assumes "advances a b" "advances b c"
  shows "advances a c"
proof -
  have "behind (gs_head a) (gs_head c)" using assms behind_trans unfolding advances_def by blast
  then show ?thesis using assms by (auto simp: advances_def)
qed

interpretation stores: invariant_system store_step system_inv
  by unfold_locales (use store_step_inv in blast)

lemma store_run:
  assumes "store_step\<^sup>*\<^sup>* x y" "system_inv x"
  shows "system_inv y \<and> advances (fst x) (fst y)"
  using stores.inv_run [OF assms] stores.relation_run [OF assms, of "\<lambda>x y. advances (fst x) (fst y)"]
    advances_trans store_step_inv by fastforce

lemma system_inv_start: "store_inv st \<Longrightarrow> system_inv (st, {#})"
  by (simp add: system_inv_def)

lemma store_inv_new:
  "limit < u64_max \<Longrightarrow> store_inv (with_source_limit boot limit)"
  "length (remdups sources) < u64_max \<Longrightarrow> store_inv (with_allowed_sources boot sources)"
  by (simp_all add: store_inv_def with_source_limit_def with_allowed_sources_def permitted_def published_ok_def
      snapshot_get_def revs_def bt_map_def Let_def u64_max_def)

text \<open>A step that changes what is published is the finish of a candidate that nothing has overtaken.\<close>

lemma publish_step:
  assumes "store_step x y" "system_inv x" "gs_current (fst y) \<noteq> gs_current (fst x)"
  shows "\<exists>host registry prepare m base r. Preparing m base \<in># snd x \<and>
    publishes host registry prepare m base r (fst x) (fst y) \<and> cb_previous base = gs_current (fst x)"
  using assms
proof (induction rule: store_step.induct)
  case (step_refused expected again m observed st r st2 ts)
  note s = system_inv_add [OF step_refused(3)]
  from admit_inv [OF s(1,2) step_refused(1)] step_refused show ?case by simp
next
  case (step_admitted expected again m observed st base st2 ts)
  note s = system_inv_add [OF step_admitted(2)]
  from admit_inv [OF s(1,2) step_admitted(1)] step_admitted show ?case by simp
next
  case (step_finish host registry prepare m base st r st2 ts)
  have "\<not> keeps_published r st st2" using step_finish by (auto simp: keeps_published_def)
  then have p: "publishes host registry prepare m base r st st2" using finish_cases [OF step_finish(1)] by blast
  then have "gs_generation st = cb_base_generation base" unfolding publishes_def Let_def by blast
  with system_inv_add(2) [OF step_finish(2)] have "cb_previous base = gs_current st" by simp
  moreover have "Preparing m base \<in># snd (st, add_mset (Preparing m base) ts)" by simp
  ultimately show ?case using p unfolding fst_conv by blast
next
  case (step_reject expected ds message st r st2 ts)
  then have "gs_current st2 = gs_current st" using reject_inv by (fastforce simp: system_inv_def)
  with step_reject show ?case by simp
qed (auto simp: commit_restored_intent_def seal_def Let_def split: if_splits)

subsection \<open>What the store promises\<close>

text \<open>
  The contract without tasks, locks and intents: a generation number, what is served, and the newest
  revisions seen. It is closed once, seen revisions move forward, and a publication takes the next number.
\<close>

record ('c, 'r) serving =
  sv_closed :: bool
  sv_generation :: generation
  sv_current :: "('c, 'r) committed option"
  sv_head :: rev_vector

inductive serving_step :: "('c, 'r) serving \<Rightarrow> ('c, 'r) serving \<Rightarrow> bool" where
  serving_observe: "\<not> sv_closed s \<Longrightarrow> behind (sv_head s) h \<Longrightarrow> serving_step s (s\<lparr>sv_head := h\<rparr>)"
| serving_publish: "\<not> sv_closed s \<Longrightarrow> cm_number c = sv_generation s + 1 \<Longrightarrow> behind (cm_revs c) (sv_head s) \<Longrightarrow>
    serving_step s (s\<lparr>sv_generation := sv_generation s + 1, sv_current := Some c\<rparr>)"
| serving_close: "serving_step s (s\<lparr>sv_closed := True\<rparr>)"

definition serving_of :: "('c, 'r) system \<Rightarrow> ('c, 'r) serving" where
  "serving_of x = (let st = fst x in
     \<lparr>sv_closed = gs_sealed st, sv_generation = gs_generation st, sv_current = gs_current st, sv_head = gs_head st\<rparr>)"

lemma publishes_shape:
  assumes "publishes host registry prepare m base r st st2"
  obtains c where "cm_number c = gs_generation st + 1" "cm_revs c = revs m" "cm_sources c = m" "\<not> gs_sealed st"
    "gs_head st = cb_expected_head base"
    "st2 = st\<lparr>gs_generation := gs_generation st + 1, gs_current := Some c, gs_last_failure := None\<rparr>"
proof -
  from assms obtain plan runtime where "\<not> gs_sealed st" "gs_head st = cb_expected_head base"
    "st2 = st\<lparr>gs_generation := gs_generation st + 1,
          gs_current := Some \<lparr>cm_number = gs_generation st + 1, cm_boot_id = gs_boot_id st, cm_plan = plan, cm_runtime = runtime,
            cm_revs = revs m, cm_sources = m\<rparr>, gs_last_failure := None\<rparr>"
    unfolding publishes_def Let_def by blast
  then show thesis by (intro that) simp_all
qed

lemma observes:
  assumes "gs_sealed st2 = gs_sealed st" "advances st st2" "gs_generation st2 = gs_generation st"
  shows "serving_of (st, ts) = serving_of (st2, us) \<or> serving_step (serving_of (st, ts)) (serving_of (st2, us))"
proof (cases "gs_sealed st")
  case True
  then show ?thesis using assms by (simp add: advances_def serving_of_def)
next
  case False
  have "serving_of (st2, us) = (serving_of (st, ts))\<lparr>sv_head := gs_head st2\<rparr>"
    using assms by (simp add: serving_of_def advances_def)
  moreover have "behind (sv_head (serving_of (st, ts))) (gs_head st2)" "\<not> sv_closed (serving_of (st, ts))"
    using assms False by (simp_all add: serving_of_def advances_def)
  ultimately show ?thesis using serving_observe by metis
qed

lemma step_kinds:
  assumes "store_step x y" "system_inv x"
  shows "gs_sealed (fst y) = gs_sealed (fst x) \<and> gs_generation (fst y) = gs_generation (fst x) \<or>
    fst y = seal (fst x) \<or> gs_current (fst y) \<noteq> gs_current (fst x)"
  using assms
proof (induction rule: store_step.induct)
  case (step_refused expected again m observed st r st2 ts)
  then show ?case by (auto simp: admit_def Let_def split: if_splits option.splits)
next
  case (step_admitted expected again m observed st base st2 ts)
  then show ?case by (auto simp: admit_def Let_def split: if_splits option.splits)
next
  case (step_finish host registry prepare m base st r st2 ts)
  note s = system_inv_add [OF step_finish.prems]
  show ?case
  proof (cases "keeps_published r st st2")
    case True
    then show ?thesis by (auto simp: keeps_published_def)
  next
    case False
    then have p: "publishes host registry prepare m base r st st2" using finish_cases [OF step_finish(1)] by blast
    then obtain c where "gs_current st2 = Some c" "cm_number c = gs_generation st + 1" by (rule publishes_shape) simp
    moreover have "published_ok st" using s(1) by (simp add: store_inv_def)
    ultimately have "gs_current st2 \<noteq> gs_current st" by (auto simp: published_ok_def split: option.splits)
    then show ?thesis by simp
  qed
next
  case (step_reject expected ds message st r st2 ts)
  then show ?case by (auto simp: reject_observation_if_def note_failure_def Let_def split: if_splits)
qed (auto simp: commit_restored_intent_def Let_def split: if_splits)

lemma serving_simulates:
  assumes "system_inv x" "store_step x y"
  shows "serving_of x = serving_of y \<or> serving_step (serving_of x) (serving_of y)"
proof -
  note i = store_step_inv [OF assms(2,1)]
  from step_kinds [OF assms(2,1)] consider
      "gs_sealed (fst y) = gs_sealed (fst x)" "gs_generation (fst y) = gs_generation (fst x)"
    | "fst y = seal (fst x)" | "gs_current (fst y) \<noteq> gs_current (fst x)" by blast
  then show ?thesis
  proof cases
    case 1
    with observes [of "fst y" "fst x" "snd x" "snd y"] i show ?thesis by simp
  next
    case 2
    then have "serving_of y = (serving_of x)\<lparr>sv_closed := True\<rparr>" by (simp add: serving_of_def seal_def Let_def)
    then show ?thesis using serving_close by metis
  next
    case 3
    from publish_step [OF assms(2,1) 3] obtain host registry prepare m base r where
      p: "publishes host registry prepare m base r (fst x) (fst y)" by blast
    then obtain c where c: "cm_number c = gs_generation (fst x) + 1" "\<not> gs_sealed (fst x)"
      and y: "fst y = (fst x)\<lparr>gs_generation := gs_generation (fst x) + 1, gs_current := Some c, gs_last_failure := None\<rparr>"
      by (rule publishes_shape)
    have "published_ok (fst y)" using i by (simp add: system_inv_def store_inv_def)
    then have "behind (cm_revs c) (gs_head (fst x))" by (auto simp: published_ok_def y)
    with c have "serving_step (serving_of x) ((serving_of x)\<lparr>sv_generation := sv_generation (serving_of x) + 1, sv_current := Some c\<rparr>)"
      by (intro serving_publish) (simp_all add: serving_of_def Let_def)
    then show ?thesis using y by (simp add: serving_of_def Let_def)
  qed
qed

interpretation serving: simulation store_step system_inv serving_step serving_of
  by unfold_locales (rule serving_simulates)

text \<open>
  C6: the locked store with its concurrent candidates refines the contract of a served configuration:
  every interleaving of admissions, finishes, rejections, recoveries, abandoned candidates and shutdown
  is a run of \<open>serving_step\<close>, in which generations are published one by one in order, seen revisions never
  move back, and nothing happens after closing.
\<close>

theorem store_refines_serving:
  assumes "store_inv st0" "store_step\<^sup>*\<^sup>* (st0, {#}) x"
  shows "serving_step\<^sup>*\<^sup>* (serving_of (st0, {#})) (serving_of x)"
  by (rule serving.abs_run [OF assms(2) system_inv_start [OF assms(1)]])

theorem store_refines_serving_witness:
  "serving_step\<^sup>*\<^sup>* (serving_of (store_new ''boot'' :: (unit, unit) store, {#})) (serving_of (seal (store_new ''boot'') :: (unit, unit) store, {#}))"
proof (rule store_refines_serving)
  show "store_inv (store_new ''boot'')" unfolding store_new_def by (rule store_inv_new) (simp add: u64_max_def)
  show "store_step\<^sup>*\<^sup>* (store_new ''boot'', {#}) (seal (store_new ''boot''), {#})" by (rule r_into_rtranclp) (rule step_seal)
qed

text \<open>
  C1: what is served changes only by publishing a candidate that nothing has overtaken: at that moment
  the store is open, the newest revisions seen are exactly the ones the candidate was admitted with, the
  generation it replaces is the one its binding changes were computed against and its preparation was
  given, its plan is the compilation of its own sources, and the new number is the next one. Every
  failed, rejected, stale or conflicting attempt leaves the serving generation as it was.
\<close>

theorem publish_fenced:
  assumes "store_inv st0" "store_step\<^sup>*\<^sup>* (st0, {#}) x" "store_step x y" "gs_current (fst y) \<noteq> gs_current (fst x)"
  shows "\<exists>host registry prepare m base r. Preparing m base \<in># snd x \<and>
    publishes host registry prepare m base r (fst x) (fst y) \<and> cb_previous base = gs_current (fst x)"
  by (rule publish_step [OF assms(3) _ assms(4)]) (use store_run [OF assms(2) system_inv_start [OF assms(1)]] in blast)

text \<open>
  C11: the version of a store never returns: once another candidate's observation or publication has moved
  it, no later state has the old version again, so a conditional write against it is refused and changes
  nothing. Of several writers that start from one version, none can overwrite a configuration it has not
  seen.
\<close>

theorem version_never_returns:
  assumes "store_inv st0" "store_step\<^sup>*\<^sup>* (st0, {#}) x" "store_step\<^sup>*\<^sup>* x y" "store_step\<^sup>*\<^sup>* y z"
    "store_version (fst y) \<noteq> store_version (fst x)"
  shows "store_version (fst z) \<noteq> store_version (fst x) \<and>
    (\<exists>r. admit (Some (store_version (fst x))) again m observed (fst z) = (r, fst z) \<and> (\<forall>base. r \<noteq> Admitted base))"
proof -
  have x: "system_inv x" using store_run [OF assms(2) system_inv_start [OF assms(1)]] by blast
  note xy = store_run [OF assms(3) x]
  note yz = store_run [OF assms(4) xy [THEN conjunct1]]
  have h: "bt_ok (gs_head (fst x))" "bt_ok (gs_head (fst y))"
    using x xy by (auto simp: system_inv_def store_inv_def)
  have ne: "store_version (fst z) \<noteq> store_version (fst x)"
  proof
    assume e: "store_version (fst z) = store_version (fst x)"
    then have "gs_generation (fst y) = gs_generation (fst x)"
      using xy yz by (auto simp: store_version_def advances_def)
    moreover have "gs_head (fst y) = gs_head (fst x)"
      using behind_antisym [OF h] xy yz e by (simp add: store_version_def advances_def)
    moreover have "gs_boot_id (fst y) = gs_boot_id (fst x)" using xy by (simp add: advances_def)
    ultimately show False using assms(5) by (simp add: store_version_def)
  qed
  moreover have "\<exists>r. admit (Some (store_version (fst x))) again m observed (fst z) = (r, fst z) \<and> (\<forall>base. r \<noteq> Admitted base)"
    using ne by (auto simp: admit_def)
  ultimately show ?thesis ..
qed

text \<open>
  after sealing, no interleaving of the candidates already preparing, new ones, recoveries and failed
  observations changes the store at all.
\<close>

theorem sealed_is_final:
  assumes "store_inv st0" "store_step\<^sup>*\<^sup>* (st0, {#}) x" "gs_sealed (fst x)" "store_step\<^sup>*\<^sup>* x y"
  shows "fst y = fst x"
proof -
  have "system_inv x" using store_run [OF assms(2) system_inv_start [OF assms(1)]] by blast
  with store_run [OF assms(4)] assms(3) show ?thesis by (auto simp: advances_def)
qed

text \<open>
  C14: under every interleaving the retained intent and the seen revisions agree, stay within the source
  limit and the registered sources, and the served generation is numbered by the store's counter, was
  built from the revisions of the sources it carries, and is not ahead of what was seen; a capture of the
  store therefore describes one consistent moment.
\<close>

theorem intent_matches_head:
  assumes "store_inv st0" "store_step\<^sup>*\<^sup>* (st0, {#}) x"
  shows "let c = capture_configuration (fst x) in
    revs (cc_observed c) = vs_revs (cc_version c) \<and> permitted (fst x) (cc_observed c) \<and>
    (case cc_committed c of
       None \<Rightarrow> vs_generation (cc_version c) = 0
     | Some g \<Rightarrow> cm_number g = vs_generation (cc_version c) \<and> cm_revs g = revs (cm_sources g) \<and>
         behind (cm_revs g) (vs_revs (cc_version c)))"
proof -
  have "store_inv (fst x)" using store_run [OF assms(2) system_inv_start [OF assms(1)]] by (simp add: system_inv_def)
  then have "cc_observed (capture_configuration (fst x)) = gs_intent (fst x)" "gs_head (fst x) = revs (gs_intent (fst x))"
    "permitted (fst x) (gs_intent (fst x))" "published_ok (fst x)"
    by (simp_all add: capture_configuration_def snapshot_rebuild store_inv_def)
  then show ?thesis
    by (auto simp: Let_def capture_configuration_def store_version_def published_ok_def split: option.splits)
qed

lemma merge_max_behind: "bt_ok v \<Longrightarrow> bt_ok w \<Longrightarrow> behind v w \<Longrightarrow> merge_max w v = w"
proof (rule bt_ext)
  fix i
  assume a: "bt_ok v" "bt_ok w" "behind v w"
  show "bt_get i (merge_max w v) = bt_get i w"
  proof (cases "bt_get i v")
    case None
    then show ?thesis using a by (simp add: bt_get_merge_max)
  next
    case (Some r)
    then obtain q where "bt_get i w = Some q" "r \<le> q" using a(3) unfolding behind_def by blast
    then show ?thesis using a Some by (simp add: bt_get_merge_max newer_def max_def)
  qed
qed simp_all

lemma admit_accepts:
  assumes "\<not> gs_sealed st" "admissible m st = None" "merge_max (revs m) (gs_head st) = revs m"
  shows "admit None again m observed st =
    (Admitted \<lparr>cb_expected_head = revs m, cb_base_generation = gs_generation st, cb_previous = gs_current st, cb_refresh = again\<rparr>,
     st\<lparr>gs_intent := retain st observed, gs_head := revs m\<rparr>)"
  using assms by (simp add: admit_def)

text \<open>After an admission the same snapshot is admissible again and nothing in it is new.\<close>

lemma admitted_again:
  assumes "store_inv st" "snapshot_ok m" "admissible m st = None" "behind (gs_head st) (revs m)"
  defines "st2 \<equiv> st\<lparr>gs_intent := retain st (new_intent st m), gs_head := revs m\<rparr>"
  shows "admissible m st2 = None" "new_intent st2 m = []"
proof -
  have i: "snapshot_ok (gs_intent st)" "gs_head st = revs (gs_intent st)" "gs_source_limit st < u64_max"
    using assms(1) by (simp_all add: store_inv_def)
  have t: "set (new_intent st m) \<subseteq> set (snapshot_sources m)"
    "\<And>s. s \<in> set (snapshot_sources m) \<Longrightarrow> newer_than_head st s \<Longrightarrow> s \<in> set (new_intent st m)"
    by (auto simp: new_intent_def)
  note r = retain_get [OF assms(2) i(1) t]
  have src: "snapshot_get (ss_source s) m = Some s" if "s \<in> set (snapshot_sources m)" for s
    using that snapshot_sources_iff [OF assms(2)] by simp
  show "new_intent st2 m = []"
    using src by (auto simp: new_intent_def filter_empty_conv newer_than_head_def st2_def)
  have len: "length (retain st (new_intent st m)) \<le> gs_source_limit st"
    using retain_length [OF assms(2) i(1,2) t] admissible_None(1) [OF assms(3,2) i(3)] by simp
  have none: "filter (\<lambda>s. bt_get (ss_source s) (revs m) = None) (snapshot_sources m) = []"
    using src by (auto simp: filter_empty_conv)
  have content: "map_option ss_content (snapshot_get (ss_source s) (retain st (new_intent st m))) = Some (ss_content s)"
    if s: "s \<in> set (snapshot_sources m)" for s
  proof (cases "newer_than_head st s")
    case True
    then show ?thesis using src [OF s] by (simp add: r(2))
  next
    case False
    then obtain q where q: "bt_get (ss_source s) (gs_head st) = Some q" "ss_rev s \<le> q"
      by (auto simp: newer_than_head_def split: option.splits)
    with assms(4) src [OF s] have "bt_get (ss_source s) (gs_head st) = Some (ss_rev s)"
      unfolding behind_def by fastforce
    then have "map_option ss_content (snapshot_get (ss_source s) (gs_intent st)) = Some (ss_content s)"
      using assms(3) s by (auto simp: admissible_def list_ex_iff split: if_splits)
    then show ?thesis using src [OF s] False by (simp add: r(2))
  qed
  have allowed: "\<not> (case gs_allowed st of None \<Rightarrow> False
      | Some allowed \<Rightarrow> list_ex (\<lambda>s. ss_source s \<notin> set allowed) (snapshot_sources m))"
    using assms(3) by (auto simp: admissible_def split: if_splits)
  have c: "\<not> list_ex (\<lambda>s. bt_get (ss_source s) (revs m) = Some (ss_rev s) \<and>
      map_option ss_content (snapshot_get (ss_source s) (retain st (new_intent st m))) \<noteq> Some (ss_content s)) (snapshot_sources m)"
    using content by (auto simp: list_ex_iff)
  show "admissible m st2 = None"
    using allowed len none c i(3) by (simp add: admissible_def st2_def saturating_add_def min_def)
qed

lemma same_admission:
  assumes "gs_allowed a = gs_allowed b" "gs_source_limit a = gs_source_limit b" "gs_intent a = gs_intent b" "gs_head a = gs_head b"
  shows "admissible m a = admissible m b" "new_intent a m = new_intent b m"
  using assms by (simp_all add: admissible_def new_intent_def newer_than_head_def [abs_def])

lemma finish_accepts:
  assumes "host_normalize host m registry = Inr spec" "compile (host_digest host) (host_ops host) registry spec = Some plan"
    "\<not> gs_sealed st" "gs_head st = revs m" "gs_generation st < u64_max"
    "prepare \<lparr>pr_plan = plan, pr_previous = gs_current st,
       pr_changes = diff_bindings (case gs_current st of None \<Rightarrow> [] | Some c \<Rightarrow> pl_bindings (cm_plan c)) (pl_bindings plan),
       pr_generation = gs_generation st + 1, pr_boot_id = gs_boot_id st\<rparr> = Inr runtime"
  shows "finish_attempt host registry prepare m
      \<lparr>cb_expected_head = revs m, cb_base_generation = gs_generation st, cb_previous = gs_current st, cb_refresh = False\<rparr> st =
    (case gs_current st of
       None \<Rightarrow> (Some (Started (gs_generation st + 1)),
         st\<lparr>gs_generation := gs_generation st + 1, gs_current := Some \<lparr>cm_number = gs_generation st + 1,
           cm_boot_id = gs_boot_id st, cm_plan = plan, cm_runtime = runtime, cm_revs = revs m, cm_sources = m\<rparr>, gs_last_failure := None\<rparr>)
     | Some c \<Rightarrow>
         if pl_plan_hash (cm_plan c) = pl_plan_hash plan then (Some (NoOp (gs_generation st)), st\<lparr>gs_last_failure := None\<rparr>)
         else (Some (Reloaded (gs_generation st + 1) (diff_bindings (pl_bindings (cm_plan c)) (pl_bindings plan))),
           st\<lparr>gs_generation := gs_generation st + 1, gs_current := Some \<lparr>cm_number = gs_generation st + 1,
             cm_boot_id = gs_boot_id st, cm_plan = plan, cm_runtime = runtime, cm_revs = revs m, cm_sources = m\<rparr>, gs_last_failure := None\<rparr>))"
  using assms
  by (cases "gs_current st")
    (simp_all add: finish_attempt_def unchanged_plan_def running_bindings_def finish_noop_def publish_def validate_candidate_def
      generation_next_def checked_add_def Let_def)

text \<open>
  C28: an attempt that nothing races with succeeds whenever it can: from an open store, a permitted
  snapshot that is not behind what was seen, whose configuration normalises and compiles and whose
  preparation succeeds, is published as the next generation, or is recognised as no change when its plan
  is the one already served; afterwards it is served, and attempting it again changes nothing.
\<close>

theorem attempt_converges:
  assumes "store_inv st" "snapshot_ok m" "\<not> gs_sealed st" "admissible m st = None" "behind (gs_head st) (revs m)"
    "host_normalize host m registry = Inr spec" "compile (host_digest host) (host_ops host) registry spec = Some plan"
    "gs_generation st + 1 < u64_max" "\<forall>p. prepare p = Inr runtime"
  shows "\<exists>r st2 c. attempt host registry prepare m st = (Inr (Some r), st2) \<and>
    outcome_generation r = Some (gs_generation st2) \<and> gs_generation st2 \<le> gs_generation st + 1 \<and>
    gs_current st2 = Some c \<and> pl_plan_hash (cm_plan c) = pl_plan_hash plan \<and> gs_head st2 = revs m \<and>
    attempt host registry prepare m st2 = (Inr (Some (NoOp (gs_generation st2))), st2)"
proof -
  let ?a = "st\<lparr>gs_intent := retain st (new_intent st m), gs_head := revs m\<rparr>"
  have i: "snapshot_ok (gs_intent st)" "gs_head st = revs (gs_intent st)" using assms(1) by (simp_all add: store_inv_def)
  have mm: "merge_max (revs m) (gs_head st) = revs m" "merge_max (revs m) (revs m) = revs m"
    using merge_max_behind [of "gs_head st" "revs m"] merge_max_behind [of "revs m" "revs m"] assms(2,5) i by simp_all
  note ag = admitted_again [OF assms(1,2,4,5)]
  have first: "attempt host registry prepare m st = map_prod Inr id (finish_attempt host registry prepare m
      \<lparr>cb_expected_head = revs m, cb_base_generation = gs_generation ?a, cb_previous = gs_current ?a, cb_refresh = False\<rparr> ?a)"
    using admit_accepts [OF assms(3,4) mm(1)] by (simp add: attempt_def attempt_conditionally_def)
  obtain r st2 c where f: "finish_attempt host registry prepare m
      \<lparr>cb_expected_head = revs m, cb_base_generation = gs_generation ?a, cb_previous = gs_current ?a, cb_refresh = False\<rparr> ?a = (Some r, st2)"
    and r: "outcome_generation r = Some (gs_generation st2)" "gs_generation st2 \<le> gs_generation st + 1"
      "gs_current st2 = Some c" "pl_plan_hash (cm_plan c) = pl_plan_hash plan"
    and st2: "gs_head st2 = revs m" "gs_intent st2 = gs_intent ?a" "gs_last_failure st2 = None" "\<not> gs_sealed st2"
      "gs_allowed st2 = gs_allowed st" "gs_source_limit st2 = gs_source_limit st"
    using finish_accepts [OF assms(6,7), of ?a prepare runtime] assms(3,8,9)
    by (cases "gs_current st") (auto simp: outcome_generation_def split: if_splits)
  have "admissible m st2 = admissible m ?a" "new_intent st2 m = new_intent ?a m" by (rule same_admission; simp add: st2)+
  then have adm: "admissible m st2 = None" and ni: "new_intent st2 m = []" using ag by simp_all
  have same: "st2\<lparr>gs_intent := retain st2 [], gs_head := revs m\<rparr> = st2" using st2(1) by (simp add: retain_def)
  have "attempt host registry prepare m st2 = map_prod Inr id (finish_attempt host registry prepare m
      \<lparr>cb_expected_head = revs m, cb_base_generation = gs_generation st2, cb_previous = gs_current st2, cb_refresh = False\<rparr> st2)"
    using admit_accepts [OF st2(4) adm, of False "[]"] mm(2) st2(1) ni same by (simp add: attempt_def attempt_conditionally_def)
  also have "\<dots> = (Inr (Some (NoOp (gs_generation st2))), st2)"
    using finish_accepts [OF assms(6,7) st2(4,1), of prepare runtime] r(2-4) assms(8,9) st2(3) by simp
  finally show ?thesis using first f r st2(1) by simp
qed

subsection \<open>The properties on a concrete run\<close>

definition sample_host :: "unit host" where
  "sample_host = \<lparr>host_digest = rev, host_ops = no_config, host_normalize = (\<lambda>m registry. Inr (sample_spec global_default))\<rparr>"

definition sample_registry :: "unit registry" where
  "sample_registry = \<lparr>reg_directives = [], reg_bundles = []\<rparr>"

definition sample_prepare :: "(unit, unit) preparation \<Rightarrow> bytes + unit" where
  "sample_prepare p = Inr ()"

definition sample_snapshot :: "source_rev \<Rightarrow> snapshot" where
  "sample_snapshot r = snapshot_insert (sample_source r) []"

definition sample_store :: "(unit, unit) store" where
  "sample_store = store_new ''boot''"

lemma sample_store_inv: "store_inv sample_store"
  unfolding sample_store_def store_new_def by (rule store_inv_new) (simp add: u64_max_def)

lemma sample_snapshot_ok: "snapshot_ok (sample_snapshot r)"
  by (simp add: sample_snapshot_def)

lemma sample_compiles: obtains plan where
  "compile (host_digest sample_host) (host_ops sample_host) sample_registry (sample_spec global_default) = Some plan"
  using compile_total [OF sample_spec_composes] unfolding sample_host_def sample_registry_def by fastforce

lemma sample_admissible: "admissible (sample_snapshot r) sample_store = None"
  by (simp add: admissible_def sample_snapshot_def sample_store_def store_new_def with_source_limit_def snapshot_sources_def
      bt_values_def snapshot_insert_def saturating_add_def u64_max_def)

theorem attempt_converges_witness:
  "\<exists>r st2 c. attempt sample_host sample_registry sample_prepare (sample_snapshot 1) sample_store = (Inr (Some r), st2) \<and>
     outcome_generation r = Some (gs_generation st2) \<and> gs_current st2 = Some c \<and>
     attempt sample_host sample_registry sample_prepare (sample_snapshot 1) st2 = (Inr (Some (NoOp (gs_generation st2))), st2)"
proof -
  obtain plan where p: "compile (host_digest sample_host) (host_ops sample_host) sample_registry (sample_spec global_default) = Some plan"
    by (rule sample_compiles)
  have "\<not> gs_sealed sample_store" "behind (gs_head sample_store) (revs (sample_snapshot 1))" "gs_generation sample_store + 1 < u64_max"
    by (simp_all add: sample_store_def store_new_def with_source_limit_def behind_def u64_max_def)
  moreover have "host_normalize sample_host (sample_snapshot 1) sample_registry = Inr (sample_spec global_default)"
    "\<forall>p. sample_prepare p = Inr ()" by (simp_all add: sample_host_def sample_prepare_def)
  ultimately show ?thesis
    using attempt_converges [OF sample_store_inv sample_snapshot_ok _ sample_admissible _ _ p, where prepare = sample_prepare and runtime = "()"] by blast
qed

text \<open>The first candidate of a store, section by section.\<close>

definition sample_base :: "(unit, unit) candidate_base" where
  "sample_base = \<lparr>cb_expected_head = revs (sample_snapshot 1), cb_base_generation = 0, cb_previous = None, cb_refresh = False\<rparr>"

definition sample_admitted :: "(unit, unit) store" where
  "sample_admitted = sample_store\<lparr>gs_intent := retain sample_store (new_intent sample_store (sample_snapshot 1)),
     gs_head := revs (sample_snapshot 1)\<rparr>"

lemma sample_run: "store_step\<^sup>*\<^sup>* (sample_store, {#}) (sample_admitted, {#Preparing (sample_snapshot 1) sample_base#})"
proof -
  let ?t = "Observing None False (sample_snapshot 1) (new_intent sample_store (sample_snapshot 1))"
  have b: "store_step (sample_store, {#}) (sample_store, {#?t#})" using step_begin [OF sample_snapshot_ok] by auto
  have "merge_max (revs (sample_snapshot 1)) (gs_head sample_store) = revs (sample_snapshot 1)"
    by (rule merge_max_behind) (simp_all add: sample_snapshot_ok sample_store_def store_new_def with_source_limit_def behind_def)
  then have "admit None False (sample_snapshot 1) (new_intent sample_store (sample_snapshot 1)) sample_store = (Admitted sample_base, sample_admitted)"
    using admit_accepts [OF _ sample_admissible]
    by (simp add: sample_base_def sample_admitted_def sample_store_def store_new_def with_source_limit_def)
  from b step_admitted [OF this, of "{#}"] show ?thesis by (meson r_into_rtranclp rtranclp_trans)
qed

lemma sample_publishes:
  obtains st2 where "store_step (sample_admitted, {#Preparing (sample_snapshot 1) sample_base#}) (st2, {#})"
    "gs_current st2 \<noteq> None" "gs_generation st2 = 1"
proof -
  obtain plan where p: "compile (host_digest sample_host) (host_ops sample_host) sample_registry (sample_spec global_default) = Some plan"
    by (rule sample_compiles)
  have a: "gs_current sample_admitted = None" "gs_generation sample_admitted = 0" "\<not> gs_sealed sample_admitted"
    "gs_head sample_admitted = revs (sample_snapshot 1)"
    by (simp_all add: sample_admitted_def sample_store_def store_new_def with_source_limit_def)
  obtain r st2 where f: "finish_attempt sample_host sample_registry sample_prepare (sample_snapshot 1) sample_base sample_admitted = (r, st2)"
    by fastforce
  have "gs_current st2 \<noteq> None" "gs_generation st2 = 1"
    using finish_accepts [OF _ p a(3,4), of sample_prepare "()"] a f
    by (auto simp: sample_host_def sample_prepare_def sample_base_def u64_max_def)
  with step_finish [OF f, of "{#}"] that show thesis by auto
qed

lemma sample_admitted_current: "gs_current sample_admitted = None" "gs_generation sample_admitted = 0"
  by (simp_all add: sample_admitted_def sample_store_def store_new_def with_source_limit_def)

theorem publish_fenced_witness:
  "\<exists>st2. store_step (sample_admitted, {#Preparing (sample_snapshot 1) sample_base#}) (st2, {#}) \<and>
    (\<exists>host registry prepare m base r. Preparing m base \<in># {#Preparing (sample_snapshot 1) sample_base#} \<and>
       publishes host registry prepare m base r sample_admitted st2 \<and> cb_previous base = gs_current sample_admitted)"
proof -
  obtain st2 where s: "store_step (sample_admitted, {#Preparing (sample_snapshot 1) sample_base#}) (st2, {#})" "gs_current st2 \<noteq> None"
    by (rule sample_publishes)
  have "gs_current (fst (st2, {#})) \<noteq> gs_current (fst (sample_admitted, {#Preparing (sample_snapshot 1) sample_base#}))"
    using s(2) sample_admitted_current by simp
  from publish_fenced [OF sample_store_inv sample_run s(1) this] s(1) show ?thesis unfolding fst_conv snd_conv by blast
qed

theorem version_never_returns_witness:
  "\<exists>st2 :: (unit, unit) store. store_version st2 \<noteq> store_version sample_admitted \<and>
     (\<exists>r. admit (Some (store_version sample_admitted)) False (sample_snapshot 1) [] st2 = (r, st2) \<and> (\<forall>base. r \<noteq> Admitted base))"
proof -
  obtain st2 where s: "store_step (sample_admitted, {#Preparing (sample_snapshot 1) sample_base#}) (st2, {#})" "gs_generation st2 = 1"
    by (rule sample_publishes)
  have "store_version (fst (st2, {#} :: (unit, unit) task multiset)) \<noteq>
      store_version (fst (sample_admitted, {#Preparing (sample_snapshot 1) sample_base#}))"
    using s(2) sample_admitted_current by (simp add: store_version_def)
  from version_never_returns [OF sample_store_inv sample_run r_into_rtranclp [of store_step, OF s(1)] rtranclp.rtrancl_refl this, of False "sample_snapshot 1" "[]"]
  show ?thesis unfolding fst_conv by blast
qed

theorem sealed_is_final_witness:
  "\<exists>y. store_step\<^sup>*\<^sup>* (seal sample_store, {#}) y \<and> snd y \<noteq> {#} \<and> fst y = seal sample_store"
proof -
  have "store_step\<^sup>*\<^sup>* (sample_store, {#}) (seal sample_store, {#})" by (rule r_into_rtranclp) (rule step_seal)
  moreover obtain t where t: "store_step (seal sample_store, {#}) (seal sample_store, {#t#})"
    using step_begin [OF sample_snapshot_ok] by blast
  ultimately have "fst (seal sample_store, {#t#}) = seal sample_store"
    using sealed_is_final [OF sample_store_inv _ _ r_into_rtranclp [of store_step, OF t]] by (simp add: seal_def)
  moreover have "store_step\<^sup>*\<^sup>* (seal sample_store, {#}) (seal sample_store, {#t#})" using t by (rule r_into_rtranclp)
  ultimately show ?thesis by (intro exI [of _ "(seal sample_store, {#t#})"]) simp
qed

theorem intent_matches_head_witness:
  "revs (cc_observed (capture_configuration sample_admitted)) = vs_revs (cc_version (capture_configuration sample_admitted))"
  using intent_matches_head [OF sample_store_inv sample_run] by (simp add: Let_def)

end
