(* ===== verification/Headers.thy ===== *)
theory Headers
  imports Prelude
begin

text \<open>
  HTTP header maps, \<open>Vary\<close> (\<open>gatel-bundle-std/src/vary.rs\<close>) and preconditions
  (\<open>gatel-bundle-std/src/preconditions.rs\<close>).

  A \<open>HeaderMap\<close> is the list of its fields, names in lower case, in the order it yields the values of
  a name. What the \<open>http\<close> and \<open>httpdate\<close> crates decide is a parameter, the record \<open>http_crate\<close>:
  whether bytes are a header name (\<open>HeaderName::from_bytes\<close>), the text of a header value
  (\<open>HeaderValue::to_str\<close>), the value made of a text (\<open>HeaderValue::from_str\<close>) and the date a text
  denotes (\<open>parse_http_date\<close>), in seconds.
\<close>

subsection \<open>Header maps\<close>

type_synonym header_map = "(bytes \<times> bytes) list"

record http_crate =
  name_valid :: "bytes \<Rightarrow> bool"
  value_str :: "bytes \<Rightarrow> bytes option"
  value_of :: "bytes \<Rightarrow> bytes option"
  parse_date :: "bytes \<Rightarrow> nat option"

definition get_all :: "bytes \<Rightarrow> header_map \<Rightarrow> bytes list" where
  "get_all name h = map snd (filter (\<lambda>(n, _). n = name) h)"

definition get_header :: "bytes \<Rightarrow> header_map \<Rightarrow> bytes option" where
  "get_header name h = (case get_all name h of [] \<Rightarrow> None | v # _ \<Rightarrow> Some v)"

definition contains_key :: "bytes \<Rightarrow> header_map \<Rightarrow> bool" where
  "contains_key name h \<longleftrightarrow> get_all name h \<noteq> []"

definition remove_header :: "bytes \<Rightarrow> header_map \<Rightarrow> header_map" where
  "remove_header name h = filter (\<lambda>(n, _). n \<noteq> name) h"

definition append_header :: "bytes \<Rightarrow> bytes \<Rightarrow> header_map \<Rightarrow> header_map" where
  "append_header name v h = h @ [(name, v)]"

definition insert_header :: "bytes \<Rightarrow> bytes \<Rightarrow> header_map \<Rightarrow> header_map" where
  "insert_header name v h = append_header name v (remove_header name h)"

lemma get_all_Nil [simp]: "get_all n [] = []"
  and get_all_Cons [simp]: "get_all n ((m, v) # h) = (if m = n then v # get_all n h else get_all n h)"
  and get_all_append [simp]: "get_all n (h @ k) = get_all n h @ get_all n k"
  by (simp_all add: get_all_def)

lemma get_all_remove [simp]: "get_all n (remove_header m h) = (if n = m then [] else get_all n h)"
  by (induction h) (auto simp: remove_header_def)

lemma get_all_append_header [simp]:
  "get_all n (append_header m v h) = get_all n h @ (if n = m then [v] else [])"
  by (simp add: append_header_def)

lemma get_all_insert [simp]: "get_all n (insert_header m v h) = (if n = m then [v] else get_all n h)"
  by (simp add: insert_header_def)

lemma contains_key_insert [simp]: "contains_key n (insert_header m v h) \<longleftrightarrow> n = m \<or> contains_key n h"
  and contains_key_remove [simp]: "contains_key n (remove_header m h) \<longleftrightarrow> n \<noteq> m \<and> contains_key n h"
  by (simp_all add: contains_key_def)

lemma get_header_None [simp]: "get_header n h = None \<longleftrightarrow> \<not> contains_key n h"
  by (simp add: get_header_def contains_key_def split: list.splits)

subsection \<open>\<open>vary.rs\<close>\<close>

text \<open>One field line of \<open>Vary\<close>: \<open>None\<close> is the early return of the wildcard.\<close>

definition vary_line :: "http_crate \<Rightarrow> bytes \<Rightarrow> bytes list option" where
  "vary_line http v =
     (case value_str http v of
        None \<Rightarrow> None
      | Some text \<Rightarrow>
          (let names = filter (\<lambda>n. n \<noteq> []) (map trim (split_at (CHR '','') text)) in
           if list_ex (\<lambda>n. n = ''*'' \<or> \<not> name_valid http n) names then None
           else Some (map to_ascii_lowercase names)))"

fun vary_lines :: "http_crate \<Rightarrow> bytes list \<Rightarrow> bytes list option" where
  "vary_lines http [] = Some []"
| "vary_lines http (v # vs) =
     (case vary_line http v of
        None \<Rightarrow> None
      | Some ns \<Rightarrow> map_option (\<lambda>r. ns @ r) (vary_lines http vs))"

definition vary_names :: "http_crate \<Rightarrow> header_map \<Rightarrow> bytes list" where
  "vary_names http h =
     (case vary_lines http (get_all ''vary'' h) of
        None \<Rightarrow> [''*'']
      | Some names \<Rightarrow> remdups_adj (sort names))"

definition vary_append :: "http_crate \<Rightarrow> header_map \<Rightarrow> bytes \<Rightarrow> header_map" where
  "vary_append http h name =
     (let values = vary_names http h;
          values = (if list_ex (\<lambda>v. v = ''*'' \<or> eq_ignore_ascii_case v name) values then values
                    else values @ [to_ascii_lowercase name]) in
      insert_header ''vary'' (case value_of http (join '', '' values) of Some v \<Rightarrow> v | None \<Rightarrow> ''*'') h)"

lemma vary_line_lower: "vary_line http v = Some ns \<Longrightarrow> n \<in> set ns \<Longrightarrow> to_ascii_lowercase n = n"
  by (auto simp: vary_line_def Let_def split: option.splits if_splits)

lemma vary_lines_lower: "vary_lines http vs = Some ns \<Longrightarrow> n \<in> set ns \<Longrightarrow> to_ascii_lowercase n = n"
  by (induction vs arbitrary: ns) (auto split: option.splits dest: vary_line_lower)

lemma star_lower: "to_ascii_lowercase n = ''*'' \<longleftrightarrow> n = ''*''"
proof
  assume l: "to_ascii_lowercase n = ''*''"
  then obtain c where n: "n = [c]" "lower_byte c = CHR ''*''"
    by (auto simp: to_ascii_lowercase_def map_eq_Cons_conv)
  have "\<not> is_ascii_upper c"
  proof
    assume "is_ascii_upper c"
    then have "code (lower_byte c) = code c + 32" "65 \<le> code c"
      by (simp_all add: lower_byte_def is_ascii_upper_def)
    with n(2) show False by simp
  qed
  with n show "n = ''*''" by (simp add: lower_byte_def)
qed (simp add: to_ascii_lowercase_def lower_byte_def is_ascii_upper_def)

lemma vary_lines_star: "vary_lines http vs = Some ns \<Longrightarrow> ''*'' \<notin> set ns"
proof (induction vs arbitrary: ns)
  case (Cons v vs)
  then obtain a b where ab: "vary_line http v = Some a" "vary_lines http vs = Some b" "ns = a @ b"
    by (auto split: option.splits)
  have "''*'' \<notin> set a" using ab(1)
    by (auto simp: vary_line_def Let_def list_ex_iff split: option.splits if_splits dest!: sym [of "''*''"])
      (metis star_lower)
  with ab Cons show ?case by simp
qed simp

lemma sorted_remdups_adj_distinct: "sorted (xs :: 'a :: linorder list) \<Longrightarrow> distinct (remdups_adj xs)"
proof (induction xs rule: remdups_adj.induct)
  case (3 x y xs)
  show ?case
  proof (cases "x = y")
    case False
    with 3 have "\<forall>z \<in> set (y # xs). x < z" by auto
    then have "x \<notin> set (remdups_adj (y # xs))" by auto
    with 3 False show ?thesis by simp
  qed (use 3 in simp)
qed simp_all

subsection \<open>\<open>preconditions.rs\<close>\<close>

definition single_date :: "http_crate \<Rightarrow> header_map \<Rightarrow> bytes \<Rightarrow> nat option" where
  "single_date http h name =
     (case get_all name h of
        [] \<Rightarrow> None
      | v # others \<Rightarrow>
          (case value_str http v of
             None \<Rightarrow> None
           | Some text \<Rightarrow>
               (case parse_date http text of
                  None \<Rightarrow> None
                | Some d \<Rightarrow> if others = [] then Some d else None)))"

definition etagc :: "byte \<Rightarrow> bool" where
  "etagc b \<longleftrightarrow> code b = 0x21 \<or> 0x23 \<le> code b \<and> code b \<le> 0x7e \<or> code b \<ge> 0x80"

definition tag :: "bytes \<Rightarrow> (bool \<times> bytes) option" where
  "tag bs =
     (let weak = starts_with ''W/'' bs;
          bs = (case strip_prefix ''W/'' bs of Some r \<Rightarrow> r | None \<Rightarrow> bs) in
      case strip_prefix [CHR 0x22] bs of
        None \<Rightarrow> None
      | Some r \<Rightarrow>
          (case strip_suffix [CHR 0x22] r of
             None \<Rightarrow> None
           | Some opaque \<Rightarrow> if list_all etagc opaque then Some (weak, opaque) else None))"

definition strong_equal :: "bytes \<Rightarrow> bytes \<Rightarrow> bool" where
  "strong_equal l r =
     (case (tag l, tag r) of (Some (False, a), Some (False, b)) \<Rightarrow> a = b | _ \<Rightarrow> False)"

definition valid_tag :: "bytes \<Rightarrow> bool" where
  "valid_tag bs \<longleftrightarrow> tag bs \<noteq> None"

definition tag_equal :: "bool \<Rightarrow> (bool \<times> bytes) option \<Rightarrow> bool \<times> bytes \<Rightarrow> bool" where
  "tag_equal weak current t =
     (case current of
        None \<Rightarrow> False
      | Some (cw, v) \<Rightarrow> v = snd t \<and> (weak \<or> \<not> fst t \<and> \<not> cw))"

fun position :: "('a \<Rightarrow> bool) \<Rightarrow> 'a list \<Rightarrow> nat option" where
  "position p [] = None"
| "position p (x # xs) = (if p x then Some 0 else map_option Suc (position p xs))"

text \<open>The inner loop over one field line: whether a tag matched, and how many tags were read.\<close>

function scan_tags ::
  "(bool \<times> bytes) option \<Rightarrow> bool \<Rightarrow> bytes \<Rightarrow> bool \<times> nat \<Rightarrow> (bool \<times> nat) option" where
  "scan_tags current weak input (matched, tags) =
     (if input = [] then Some (matched, tags)
      else if hd input = CHR '','' then
        scan_tags current weak (trim_ascii_start (tl input)) (matched, tags)
      else
        (let prefix = (if starts_with ''W/'' input then 2 else 0) in
         if length input \<le> prefix \<or> input ! prefix \<noteq> CHR 0x22 then None
         else
           (case position (\<lambda>b. b = CHR 0x22) (drop (prefix + 1) input) of
              None \<Rightarrow> None
            | Some i \<Rightarrow>
                (let end = prefix + 1 + i in
                 case tag (take (end + 1) input) of
                   None \<Rightarrow> None
                 | Some t \<Rightarrow>
                     (let rest = trim_ascii_start (drop (end + 1) input) in
                      if rest \<noteq> [] \<and> hd rest \<noteq> CHR '','' then None
                      else scan_tags current weak rest (matched \<or> tag_equal weak current t, tags + 1))))))"
  by pat_completeness auto

lemma length_trim_ascii_start: "length (trim_ascii_start s) \<le> length s"
  by (simp add: trim_ascii_start_def length_dropWhile_le)

termination scan_tags
proof (relation "measure (\<lambda>(_, _, input, _). length input)", simp, goal_cases)
  case (1 current weak input matched tags)
  then show ?case using length_trim_ascii_start [of "tl input"] by (cases input) auto
next
  case (2 current weak input matched tags x i xa xb xc)
  then show ?case using length_trim_ascii_start [of "drop (xa + 1) input"] by (cases input) auto
qed

declare scan_tags.simps [simp del]

fun scan_fields ::
  "(bool \<times> bytes) option \<Rightarrow> bool \<Rightarrow> bytes list \<Rightarrow> bool \<times> nat \<times> nat \<Rightarrow> (bool \<times> nat \<times> nat) option" where
  "scan_fields current weak [] st = Some st"
| "scan_fields current weak (f # fs) (matched, wildcards, tags) =
     (let input = trim_ascii f in
      if input = ''*'' then scan_fields current weak fs (matched, wildcards + 1, tags)
      else
        (case scan_tags current weak input (matched, tags) of
           None \<Rightarrow> None
         | Some (m, t) \<Rightarrow> scan_fields current weak fs (m, wildcards, t)))"

definition tags_match :: "header_map \<Rightarrow> bytes \<Rightarrow> bytes option \<Rightarrow> bool \<Rightarrow> bool option" where
  "tags_match h name current weak =
     (let current = (case current of None \<Rightarrow> None | Some c \<Rightarrow> tag c) in
      case scan_fields current weak (get_all name h) (False, 0, 0) of
        None \<Rightarrow> None
      | Some (matched, wildcards, tags) \<Rightarrow>
          if wildcards > 1 \<or> wildcards \<noteq> 0 \<and> tags \<noteq> 0 then None
          else Some (wildcards = 1 \<or> matched))"

definition evaluate :: "http_crate \<Rightarrow> bytes \<Rightarrow> header_map \<Rightarrow> header_map \<Rightarrow> nat option" where
  "evaluate http m request selected =
     (if m \<in> {''CONNECT'', ''OPTIONS'', ''TRACE''} then None
      else
        (let current = get_header ''etag'' selected;
             modified = single_date http selected ''last-modified'';
             retrieval = (m = ''GET'' \<or> m = ''HEAD'');
             first =
               (if contains_key ''if-match'' request then
                  (case tags_match request ''if-match'' current False of
                     Some True \<Rightarrow> None | Some False \<Rightarrow> Some 412 | None \<Rightarrow> Some 400)
                else
                  (case (single_date http request ''if-unmodified-since'', modified) of
                     (Some since, Some md) \<Rightarrow> if md > since then Some 412 else None
                   | _ \<Rightarrow> None)) in
         case first of
           Some status \<Rightarrow> Some status
         | None \<Rightarrow>
             (if contains_key ''if-none-match'' request then
                (case tags_match request ''if-none-match'' current True of
                   Some True \<Rightarrow> Some (if retrieval then 304 else 412)
                 | Some False \<Rightarrow> None
                 | None \<Rightarrow> Some 400)
              else if retrieval then
                (case (single_date http request ''if-modified-since'', modified) of
                   (Some since, Some md) \<Rightarrow> if md \<le> since then Some 304 else None
                 | _ \<Rightarrow> None)
              else None)))"

text \<open>Reading back a list of entity tags.\<close>

definition tag_text :: "bool \<times> bytes \<Rightarrow> bytes" where
  "tag_text t = (if fst t then ''W/'' else []) @ [CHR 0x22] @ snd t @ [CHR 0x22]"

lemma etagc_not_quote: "list_all etagc s \<Longrightarrow> CHR 0x22 \<notin> set s"
  by (induction s) (auto simp: etagc_def)

lemma tag_text_parse: "list_all etagc (snd t) \<Longrightarrow> tag (tag_text t) = Some t"
  by (cases t) (simp add: tag_def tag_text_def Let_def strip_prefix_def starts_with_def
      strip_suffix_append [of "[CHR 0x22]", simplified])

lemma tag_Some: "tag bs = Some t \<longleftrightarrow> bs = tag_text t \<and> list_all etagc (snd t)"
proof
  assume "tag bs = Some t"
  then show "bs = tag_text t \<and> list_all etagc (snd t)"
    by (auto simp: tag_def tag_text_def Let_def starts_with_def strip_prefix_iff strip_suffix_iff
        split: option.splits if_splits)
qed (auto simp: tag_text_parse)

lemma position_append: "x \<notin> set s \<Longrightarrow> position (\<lambda>b. b = x) (s @ x # t) = Some (length s)"
  by (induction s) auto

lemma tag_text_Cons: "\<exists>c s. tag_text t = c # s \<and> (c = CHR ''W'' \<or> c = CHR 0x22)"
  by (auto simp: tag_text_def)

lemma trim_ascii_start_tag [simp]: "trim_ascii_start (tag_text t @ r) = tag_text t @ r"
  using tag_text_Cons [of t] by (auto simp: trim_ascii_start_def is_ascii_whitespace_def)

lemma scan_tags_Nil [simp]: "scan_tags cur weak [] st = Some st"
  by (cases st) (simp add: scan_tags.simps)

lemma scan_tags_comma:
  "scan_tags cur weak (CHR '','' # r) st = scan_tags cur weak (trim_ascii_start r) st"
  by (cases st) (simp add: scan_tags.simps [of cur weak "CHR '','' # r"])

lemma scan_tags_tag:
  assumes t: "list_all etagc (snd t)" and r: "r = [] \<or> hd r = CHR '',''"
  shows "scan_tags cur weak (tag_text t @ r) (m, n) = scan_tags cur weak r (m \<or> tag_equal weak cur t, n + 1)"
proof -
  obtain w s where ws: "t = (w, s)" by (cases t)
  have s: "CHR 0x22 \<notin> set s" using etagc_not_quote [of s] t ws by simp
  have "trim_ascii_start r = r"
    using r by (cases r) (auto simp: trim_ascii_start_def is_ascii_whitespace_def)
  moreover have "position (\<lambda>b. b = CHR 0x22) (s @ CHR 0x22 # r) = Some (length s)"
    using position_append [OF s] .
  moreover have "tag (tag_text t) = Some t" using tag_text_parse [OF t] .
  moreover have "starts_with ''W/'' (tag_text t @ r) \<longleftrightarrow> w"
    by (simp add: ws tag_text_def)
  ultimately show ?thesis using r
    by (subst scan_tags.simps) (cases w; auto simp: ws tag_text_def Let_def eval_nat_numeral)
qed

lemma scan_tags_join:
  assumes "list_all (\<lambda>t. list_all etagc (snd t)) ts" "ts \<noteq> []"
  shows "scan_tags cur weak (join '', '' (map tag_text ts)) (m, n) =
    Some (m \<or> (\<exists>t \<in> set ts. tag_equal weak cur t), n + length ts)"
  using assms
proof (induction ts arbitrary: m n rule: induct_list012)
  case (2 t)
  then show ?case using scan_tags_tag [of t "[]" cur weak m n] by simp
next
  case (3 t u ts)
  let ?rest = "join '', '' (map tag_text (u # ts))"
  have rest: "trim_ascii_start (CHR '' '' # ?rest) = ?rest"
  proof -
    obtain r where "?rest = tag_text u @ r" by (cases ts) auto
    then show ?thesis using trim_ascii_start_tag [of u r]
      by (simp add: trim_ascii_start_def is_ascii_whitespace_def)
  qed
  have "scan_tags cur weak (join '', '' (map tag_text (t # u # ts))) (m, n) =
      scan_tags cur weak ('', '' @ ?rest) (m \<or> tag_equal weak cur t, n + 1)"
    using scan_tags_tag [of t "'', '' @ ?rest" cur weak m n] 3(3) by simp
  also have "\<dots> = scan_tags cur weak ?rest (m \<or> tag_equal weak cur t, n + 1)"
    using scan_tags_comma [of cur weak "CHR '' '' # ?rest"] rest by simp
  finally show ?case using 3 by auto
qed simp

lemma trim_ascii_join_tags:
  assumes "ts \<noteq> []"
  shows "trim_ascii (join '', '' (map tag_text ts)) = join '', '' (map tag_text ts)"
proof -
  obtain t us where ts: "ts = t # us" using assms by (cases ts) auto
  obtain r where r: "join '', '' (map tag_text ts) = tag_text t @ r" unfolding ts by (cases us) auto
  obtain q where q: "join '', '' (map tag_text ts) = q @ [CHR 0x22]" using assms
  proof (induction ts arbitrary: thesis rule: induct_list012)
    case (2 x)
    then show ?case by (simp add: tag_text_def)
  next
    case (3 x y zs)
    obtain q where "join '', '' (map tag_text (y # zs)) = q @ [CHR 0x22]" using 3(2) by auto
    then show ?case using 3(3) [of "tag_text x @ '', '' @ q"] by simp
  qed simp
  have "trim_ascii_start (join '', '' (map tag_text ts)) = join '', '' (map tag_text ts)" unfolding r by simp
  then show ?thesis unfolding q by (simp add: trim_ascii_def is_ascii_whitespace_def)
qed

lemma join_tags_not_star:
  assumes "ts \<noteq> []"
  shows "join '', '' (map tag_text ts) \<noteq> ''*''"
proof -
  obtain t us where ts: "ts = t # us" using assms by (cases ts) auto
  obtain r where r: "join '', '' (map tag_text ts) = tag_text t @ r" unfolding ts by (cases us) auto
  then show ?thesis using tag_text_Cons [of t] by auto
qed

text \<open>
  Entity-tag lists (\<open>preconditions.rs\<close>): a field line that lists valid entity tags is read back
  exactly, commas inside a quoted tag included. The comparison says yes when one of the listed tags
  is the current one, where the strong comparison also asks that neither be weak.
\<close>

theorem tags_match_list:
  assumes "ts \<noteq> []" and "\<forall>t \<in> set ts. list_all etagc (snd t)"
  shows "tags_match [(name, join '', '' (map tag_text ts))] name current weak =
    Some (\<exists>t \<in> set ts. \<exists>c cw v. current = Some c \<and> tag c = Some (cw, v) \<and> v = snd t \<and>
      (weak \<or> \<not> fst t \<and> \<not> cw))"
proof -
  have valid: "list_all (\<lambda>t. list_all etagc (snd t)) ts" using assms(2) by (simp add: list_all_iff)
  have "tags_match [(name, join '', '' (map tag_text ts))] name current weak =
      Some (\<exists>t \<in> set ts. tag_equal weak (case current of None \<Rightarrow> None | Some c \<Rightarrow> tag c) t)"
    unfolding tags_match_def Let_def
    by (simp add: trim_ascii_join_tags [OF assms(1)] join_tags_not_star [OF assms(1)] Let_def
        scan_tags_join [OF valid assms(1)])
  moreover have "(\<exists>t \<in> set ts. tag_equal weak (case current of None \<Rightarrow> None | Some c \<Rightarrow> tag c) t) \<longleftrightarrow>
      (\<exists>t \<in> set ts. \<exists>c cw v. current = Some c \<and> tag c = Some (cw, v) \<and> v = snd t \<and>
        (weak \<or> \<not> fst t \<and> \<not> cw))"
    by (intro bex_cong refl) (auto simp: tag_equal_def split: option.splits)
  ultimately show ?thesis by simp
qed

theorem tags_match_list_witness:
  "tags_match [(''if-none-match'', join '', '' (map tag_text [(True, ''a,b''), (False, ''c'')]))]
     ''if-none-match'' (Some (tag_text (False, ''a,b''))) True = Some True"
  by (subst tags_match_list) (auto simp: etagc_def tag_text_parse)

end
