(* ===== verification/Cache_Store.thy ===== *)
theory Cache_Store
  imports Headers Identity Machines "HOL-Library.AList"
begin

text \<open>
  The shared response store of the \<open>cache\<close> directive
  (\<open>gatel-bundle-std/src/cache/store.rs\<close>).

  The two hash maps are association lists without repeated keys. The contents mutex makes every
  operation one step, so an operation is a function on the record \<open>cache_store\<close>. Atomic counters are
  64-bit words and wrap; the revision is bumped with saturation. An \<open>Arc\<close> used as an identity is a
  number drawn from a counter: an observed copy keeps its \<open>Arc\<close> alive, so its address is not reused.
  Instants and durations are nanoseconds, and the operations that compare them take the current
  instant. Sums of the lengths of data held in memory are exact. The hash maps are iterated only to
  collect the candidates of an eviction, which are then sorted by a stamp that no two copies share
  until the 64-bit clock wraps.
\<close>

subsection \<open>Keys and entries\<close>

record cache_key =
  key_method :: bytes
  key_namespace :: bytes
  key_scheme :: bytes
  key_host :: bytes
  key_target :: bytes

definition key_new :: "bytes \<Rightarrow> bytes \<Rightarrow> bytes \<Rightarrow> bytes \<Rightarrow> cache_key" where
  "key_new m scheme host target =
     \<lparr>key_method = m, key_namespace = [], key_scheme = scheme, key_host = to_ascii_lowercase host,
      key_target = target\<rparr>"

record entry =
  en_status :: nat
  en_headers :: header_map
  en_body :: bytes
  en_stored :: nat
  en_ttl :: nat
  en_age_on_arrival :: nat

text \<open>\<open>Duration::MAX\<close>, in nanoseconds.\<close>

definition duration_max :: nat where
  "duration_max = u64_max * 1000000000 + 999999999"

definition en_age :: "nat \<Rightarrow> entry \<Rightarrow> nat" where
  "en_age now e = now - en_stored e"

definition current_age :: "nat \<Rightarrow> entry \<Rightarrow> nat" where
  "current_age now e = saturating_add duration_max (en_age_on_arrival e) (en_age now e)"

definition is_fresh :: "nat \<Rightarrow> entry \<Rightarrow> bool" where
  "is_fresh now e \<longleftrightarrow> current_age now e < en_ttl e"

definition weight :: "entry \<Rightarrow> cache_key \<Rightarrow> bytes \<Rightarrow> bytes list \<Rightarrow> nat" where
  "weight e key sg vary =
     (let headers = sum_list (map (\<lambda>(name, v). length name + length v + 64) (en_headers e));
          keys = length (key_method key) + length (key_namespace key) + length (key_scheme key) +
            length (key_host key) + length (key_target key);
          add = saturating_add u64_max in
      add (add (add (add (add 256 (length (en_body e))) headers) (saturating_mul u64_max keys 2))
        (length sg)) (sum_list (map (\<lambda>name. length name + 24) vary)))"

record held =
  h_identity :: nat
  h_entry :: entry
  h_weight :: nat
  h_signature :: bytes
  h_used :: u64

record observed =
  ob_key :: cache_key
  ob_signature :: bytes
  ob_identity :: nat

record cache_store =
  cs_held :: "(cache_key \<times> held list) list"
  cs_vary :: "(cache_key \<times> bytes list) list"
  cs_revision :: nat
  cs_bytes :: u64
  cs_max_bytes :: nat
  cs_clock :: u64
  cs_hits :: u64
  cs_misses :: u64
  cs_evictions :: u64
  cs_next_identity :: nat

definition cache_store_new :: "nat \<Rightarrow> cache_store" where
  "cache_store_new max_bytes =
     \<lparr>cs_held = [], cs_vary = [], cs_revision = 0, cs_bytes = 0, cs_max_bytes = max_bytes, cs_clock = 0,
      cs_hits = 0, cs_misses = 0, cs_evictions = 0, cs_next_identity = 0\<rparr>"

subsection \<open>Signatures\<close>

definition hash_varied :: "header_map \<Rightarrow> bytes \<Rightarrow> hasher \<Rightarrow> hasher" where
  "hash_varied headers name h =
     (let values = get_all name headers in
      fold update_bytes values (update_u64 (length values) (update_str name h)))"

definition signature :: "digest \<Rightarrow> header_map \<Rightarrow> bytes list \<Rightarrow> bytes" where
  "signature digest headers vary =
     (if vary = [] then []
      else
        (let h = update_u64 (length vary) (update_str ''cache-vary-v2'' hasher_new) in
         fingerprint_text (finish digest (fold (hash_varied headers) vary h))))"

subsection \<open>Reading the store\<close>

text \<open>
  The copies of one resource replaced by what is left of them: a resource with no copy left is
  forgotten together with the headers it varied on.
\<close>

definition set_copies :: "cache_key \<Rightarrow> held list \<Rightarrow> cache_store \<Rightarrow> cache_store" where
  "set_copies key copies st =
     (if copies = [] then
        st\<lparr>cs_held := AList.delete key (cs_held st), cs_vary := AList.delete key (cs_vary st)\<rparr>
      else st\<lparr>cs_held := AList.update key copies (cs_held st)\<rparr>)"

definition remove_nth :: "nat \<Rightarrow> 'a list \<Rightarrow> 'a list" where
  "remove_nth i xs = take i xs @ drop (i + 1) xs"

definition sub_bytes :: "nat \<Rightarrow> cache_store \<Rightarrow> cache_store" where
  "sub_bytes n st = st\<lparr>cs_bytes := cs_bytes st - of_nat n\<rparr>"

definition bump_revision :: "cache_store \<Rightarrow> cache_store" where
  "bump_revision st = st\<lparr>cs_revision := saturating_add u64_max (cs_revision st) 1\<rparr>"

definition store_observe :: "digest \<Rightarrow> cache_key \<Rightarrow> header_map \<Rightarrow> cache_store \<Rightarrow> observed option" where
  "store_observe digest key headers st =
     (case map_of (cs_vary st) key of
        None \<Rightarrow> None
      | Some vary \<Rightarrow>
          (let sg = signature digest headers vary in
           case map_of (cs_held st) key of
             None \<Rightarrow> None
           | Some copies \<Rightarrow>
               (case find (\<lambda>copy. h_signature copy = sg) copies of
                  None \<Rightarrow> None
                | Some copy \<Rightarrow>
                    Some \<lparr>ob_key = key, ob_signature = sg, ob_identity = h_identity copy\<rparr>)))"

definition discard_observed :: "observed \<Rightarrow> cache_store \<Rightarrow> cache_store" where
  "discard_observed ob st =
     (case map_of (cs_held st) (ob_key ob) of
        None \<Rightarrow> st
      | Some copies \<Rightarrow>
          (case position (\<lambda>copy. h_signature copy = ob_signature ob \<and> h_identity copy = ob_identity ob)
              copies of
             None \<Rightarrow> st
           | Some index \<Rightarrow>
               bump_revision (set_copies (ob_key ob) (remove_nth index copies)
                 (sub_bytes (h_weight (copies ! index)) st))))"

definition take_stale ::
  "digest \<Rightarrow> nat \<Rightarrow> cache_key \<Rightarrow> header_map \<Rightarrow> cache_store \<Rightarrow> (nat \<times> entry) option \<times> cache_store" where
  "take_stale digest now key headers st =
     (case map_of (cs_vary st) key of
        None \<Rightarrow> (None, st)
      | Some vary \<Rightarrow>
          (let sg = signature digest headers vary in
           case map_of (cs_held st) key of
             None \<Rightarrow> (None, st)
           | Some copies \<Rightarrow>
               (case position (\<lambda>copy. h_signature copy = sg \<and> \<not> is_fresh now (h_entry copy)) copies of
                  None \<Rightarrow> (None, st)
                | Some index \<Rightarrow>
                    (Some (cs_revision st, h_entry (copies ! index)),
                     set_copies key (remove_nth index copies)
                       (sub_bytes (h_weight (copies ! index)) st)))))"

text \<open>The first copy that satisfies the predicate is stamped and handed out.\<close>

fun find_touch :: "(held \<Rightarrow> bool) \<Rightarrow> u64 \<Rightarrow> held list \<Rightarrow> entry option \<times> held list" where
  "find_touch p now [] = (None, [])"
| "find_touch p now (c # cs) =
     (if p c then (Some (h_entry c), c\<lparr>h_used := now\<rparr> # cs)
      else (case find_touch p now cs of (r, ds) \<Rightarrow> (r, c # ds)))"

definition weight_of :: "held list \<Rightarrow> nat" where
  "weight_of copies = sum_list (map h_weight copies)"

definition lookup ::
  "nat \<Rightarrow> cache_key \<Rightarrow> (bytes list \<Rightarrow> bytes) \<Rightarrow> (entry \<Rightarrow> bool) \<Rightarrow> cache_store \<Rightarrow> entry option \<times> cache_store" where
  "lookup now key signature_for accepts st =
     (let sg = signature_for (case map_of (cs_vary st) key of Some v \<Rightarrow> v | None \<Rightarrow> []) in
      case map_of (cs_held st) key of
        None \<Rightarrow> (None, st\<lparr>cs_misses := cs_misses st + 1\<rparr>)
      | Some copies \<Rightarrow>
          (let fresh = filter (\<lambda>copy. is_fresh now (h_entry copy)) copies;
               freed = weight_of (filter (\<lambda>copy. \<not> is_fresh now (h_entry copy)) copies);
               st = (if freed > 0 then sub_bytes freed st else st);
               stamp = cs_clock st;
               st = st\<lparr>cs_clock := stamp + 1\<rparr> in
           case find_touch (\<lambda>copy. h_signature copy = sg \<and> accepts (h_entry copy)) stamp fresh of
             (found, touched) \<Rightarrow>
               (let st = set_copies key touched st in
                case found of
                  Some e \<Rightarrow> (Some e, st\<lparr>cs_hits := cs_hits st + 1\<rparr>)
                | None \<Rightarrow> (None, st\<lparr>cs_misses := cs_misses st + 1\<rparr>))))"

definition get_matching ::
  "digest \<Rightarrow> nat \<Rightarrow> cache_key \<Rightarrow> header_map \<Rightarrow> (entry \<Rightarrow> bool) \<Rightarrow> cache_store \<Rightarrow> entry option \<times> cache_store" where
  "get_matching digest now key headers accepts st = lookup now key (signature digest headers) accepts st"

subsection \<open>Changing the store\<close>

definition same_uri :: "cache_key \<Rightarrow> cache_key \<Rightarrow> bool" where
  "same_uri candidate key \<longleftrightarrow>
     key_scheme candidate = key_scheme key \<and> key_host candidate = key_host key \<and>
     key_target candidate = key_target key"

definition held_weight :: "(cache_key \<times> held list) list \<Rightarrow> nat" where
  "held_weight hs = sum_list (map (\<lambda>(_, copies). weight_of copies) hs)"

definition invalidate :: "cache_key \<Rightarrow> cache_store \<Rightarrow> cache_store" where
  "invalidate key st =
     (let st = bump_revision st;
          freed = held_weight (filter (\<lambda>(k, _). same_uri k key) (cs_held st)) in
      sub_bytes freed
        (st\<lparr>cs_held := filter (\<lambda>(k, _). \<not> same_uri k key) (cs_held st),
            cs_vary := filter (\<lambda>(k, _). \<not> same_uri k key) (cs_vary st)\<rparr>))"

definition all_copies :: "(cache_key \<times> held list) list \<Rightarrow> (cache_key \<times> held) list" where
  "all_copies hs = concat (map (\<lambda>(k, copies). map (Pair k) copies) hs)"

definition candidates :: "cache_store \<Rightarrow> (cache_key \<times> held) list" where
  "candidates st = sort_key (\<lambda>(_, copy). h_used copy) (all_copies (cs_held st))"

fun select_victims :: "nat \<Rightarrow> nat \<Rightarrow> (cache_key \<times> held) list \<Rightarrow> (cache_key \<times> held) list" where
  "select_victims excess selected [] = []"
| "select_victims excess selected (c # cs) =
     (let selected = saturating_add u64_max selected (h_weight (snd c)) in
      c # (if selected \<ge> excess then [] else select_victims excess selected cs))"

definition evict_key ::
  "(cache_key \<times> bytes) set \<Rightarrow> cache_key \<Rightarrow> cache_store \<times> nat \<times> nat \<Rightarrow> cache_store \<times> nat \<times> nat" where
  "evict_key victims key acc =
     (case acc of (st, freed, removed) \<Rightarrow>
        (case map_of (cs_held st) key of
           None \<Rightarrow> (st, freed, removed)
         | Some copies \<Rightarrow>
             (let gone = filter (\<lambda>copy. (key, h_signature copy) \<in> victims) copies;
                  kept = filter (\<lambda>copy. (key, h_signature copy) \<notin> victims) copies in
              (set_copies key kept st, freed + weight_of gone, removed + length gone))))"

definition evict_down_to_budget :: "cache_store \<Rightarrow> cache_store" where
  "evict_down_to_budget st =
     (let excess = unat (cs_bytes st) - cs_max_bytes st in
      if excess = 0 then st
      else
        (let victims = select_victims excess 0 (candidates st);
             names = set (map (\<lambda>(k, copy). (k, h_signature copy)) victims) in
         case fold (evict_key names) (remdups (map fst victims)) (st, 0, 0) of
           (st, freed, removed) \<Rightarrow>
             (sub_bytes freed st)\<lparr>cs_evictions := cs_evictions st + of_nat removed\<rparr>))"

fun replace_copy :: "held \<Rightarrow> held list \<Rightarrow> (nat \<times> held list) option" where
  "replace_copy new [] = None"
| "replace_copy new (c # cs) =
     (if h_signature c = h_signature new then Some (h_weight c, new # cs)
      else map_option (\<lambda>(w, ds). (w, c # ds)) (replace_copy new cs))"

text \<open>Copies stored under another \<open>Vary\<close> list are dropped before the new one is recorded.\<close>

definition other_vary :: "cache_key \<Rightarrow> bytes list \<Rightarrow> cache_store \<Rightarrow> bool" where
  "other_vary key vary st = (case map_of (cs_vary st) key of None \<Rightarrow> False | Some old \<Rightarrow> old \<noteq> vary)"

definition drop_other_vary :: "cache_key \<Rightarrow> bytes list \<Rightarrow> cache_store \<Rightarrow> cache_store" where
  "drop_other_vary key vary st =
     (if other_vary key vary st then
        (case map_of (cs_held st) key of
           None \<Rightarrow> st
         | Some old \<Rightarrow> sub_bytes (weight_of old) (st\<lparr>cs_held := AList.delete key (cs_held st)\<rparr>))
      else st)"

definition insert_copy :: "cache_key \<Rightarrow> bytes \<Rightarrow> bytes list \<Rightarrow> entry \<Rightarrow> nat \<Rightarrow> cache_store \<Rightarrow> cache_store" where
  "insert_copy key sg vary e w st =
     (let st = st\<lparr>cs_vary := AList.update key vary (cs_vary st)\<rparr>;
          stamp = cs_clock st;
          st = st\<lparr>cs_clock := stamp + 1\<rparr>;
          copies = (case map_of (cs_held st) key of None \<Rightarrow> [] | Some cs \<Rightarrow> cs);
          new = \<lparr>h_identity = cs_next_identity st, h_entry = e, h_weight = w, h_signature = sg, h_used = stamp\<rparr>;
          st = st\<lparr>cs_next_identity := cs_next_identity st + 1\<rparr>;
          st =
            (case replace_copy new copies of
               Some (old_weight, cs) \<Rightarrow>
                 sub_bytes old_weight (st\<lparr>cs_held := AList.update key cs (cs_held st)\<rparr>)
             | None \<Rightarrow> st\<lparr>cs_held := AList.update key (copies @ [new]) (cs_held st)\<rparr>) in
      st\<lparr>cs_bytes := cs_bytes st + of_nat w\<rparr>)"

definition put_guarded ::
  "nat \<Rightarrow> cache_key \<Rightarrow> bytes \<Rightarrow> bytes list \<Rightarrow> entry \<Rightarrow> bool \<Rightarrow> cache_store \<Rightarrow> bool \<times> cache_store" where
  "put_guarded revision key sg vary e only_if_absent st =
     (let w = weight e key sg vary in
      if w > cs_max_bytes st then (False, st)
      else if cs_revision st \<noteq> revision \<or> revision = u64_max then (False, st)
      else if only_if_absent \<and>
          (other_vary key vary st \<or>
           (case map_of (cs_held st) key of
              None \<Rightarrow> False
            | Some copies \<Rightarrow> list_ex (\<lambda>copy. h_signature copy = sg) copies)) then (False, st)
      else (True, evict_down_to_budget (insert_copy key sg vary e w (drop_other_vary key vary st))))"

definition put_if_current ::
  "nat \<Rightarrow> cache_key \<Rightarrow> bytes \<Rightarrow> bytes list \<Rightarrow> entry \<Rightarrow> cache_store \<Rightarrow> bool \<times> cache_store" where
  "put_if_current revision key sg vary e st = put_guarded revision key sg vary e False st"

definition held_bytes :: "cache_store \<Rightarrow> nat" where
  "held_bytes st = unat (cs_bytes st)"

definition store_len :: "cache_store \<Rightarrow> nat" where
  "store_len st = sum_list (map (\<lambda>(_, copies). length copies) (cs_held st))"

definition remembered_resources :: "cache_store \<Rightarrow> nat" where
  "remembered_resources st = length (cs_vary st)"

subsection \<open>The copies a store holds\<close>

lemma all_copies_Nil [simp]: "all_copies [] = []"
  and all_copies_Cons [simp]: "all_copies ((k, cs) # hs) = map (Pair k) cs @ all_copies hs"
  by (simp_all add: all_copies_def)

lemma weight_of_Nil [simp]: "weight_of [] = 0"
  and weight_of_Cons [simp]: "weight_of (c # cs) = h_weight c + weight_of cs"
  and weight_of_append [simp]: "weight_of (cs @ ds) = weight_of cs + weight_of ds"
  by (simp_all add: weight_of_def)

lemma held_weight_Nil [simp]: "held_weight [] = 0"
  and held_weight_Cons [simp]: "held_weight ((k, cs) # hs) = weight_of cs + held_weight hs"
  by (simp_all add: held_weight_def)

lemma weight_of_filter: "weight_of (filter p cs) + weight_of (filter (\<lambda>c. \<not> p c) cs) = weight_of cs"
  by (induction cs) auto

lemma held_weight_filter:
  "held_weight (filter (\<lambda>(k, _). p k) hs) + held_weight (filter (\<lambda>(k, _). \<not> p k) hs) = held_weight hs"
  by (induction hs) auto

definition copies_weight :: "(cache_key \<times> held) list \<Rightarrow> nat" where
  "copies_weight cs = sum_list (map (\<lambda>(_, c). h_weight c) cs)"

lemma copies_weight_Nil [simp]: "copies_weight [] = 0"
  and copies_weight_Cons [simp]: "copies_weight ((k, c) # cs) = h_weight c + copies_weight cs"
  and copies_weight_append [simp]: "copies_weight (cs @ ds) = copies_weight cs + copies_weight ds"
  by (simp_all add: copies_weight_def)

lemma copies_weight_mset: "mset cs = mset ds \<Longrightarrow> copies_weight cs = copies_weight ds"
  unfolding copies_weight_def by (metis mset_map sum_mset_sum_list)

lemma held_weight_all_copies: "held_weight hs = copies_weight (all_copies hs)"
proof (induction hs)
  case (Cons h hs)
  have "copies_weight (map (Pair k) cs) = weight_of cs" for k cs by (induction cs) auto
  with Cons show ?case by (cases h) simp
qed simp

text \<open>The copies of one key, none when it is absent.\<close>

definition copies_of :: "(cache_key \<times> held list) list \<Rightarrow> cache_key \<Rightarrow> held list" where
  "copies_of hs k = (case map_of hs k of None \<Rightarrow> [] | Some cs \<Rightarrow> cs)"

lemma all_copies_iff:
  "distinct (map fst hs) \<Longrightarrow> (k, c) \<in> set (all_copies hs) \<longleftrightarrow> c \<in> set (copies_of hs k)"
proof (induction hs)
  case (Cons h hs)
  obtain k' cs where h: "h = (k', cs)" by (cases h)
  have "k = k' \<Longrightarrow> map_of hs k = None" using Cons.prems by (simp add: h map_of_eq_None_iff image_iff)
  with Cons show ?case by (auto simp: h copies_of_def)
qed (simp add: copies_of_def)

lemma held_weight_delete:
  "distinct (map fst hs) \<Longrightarrow> held_weight (AList.delete k hs) + weight_of (copies_of hs k) = held_weight hs"
proof (induction hs)
  case (Cons h hs)
  obtain k' cs where h: "h = (k', cs)" by (cases h)
  show ?case
  proof (cases "k = k'")
    case True
    then have "k \<notin> fst ` set hs" using Cons.prems by (auto simp: h)
    then show ?thesis by (simp add: h True copies_of_def delete_idem)
  next
    case False
    then show ?thesis using Cons by (simp add: h copies_of_def)
  qed
qed (simp add: copies_of_def)

lemma held_weight_update:
  "distinct (map fst hs) \<Longrightarrow>
     held_weight (AList.update k cs hs) + weight_of (copies_of hs k) = held_weight hs + weight_of cs"
proof (induction hs)
  case (Cons h hs)
  obtain k' ds where h: "h = (k', ds)" by (cases h)
  show ?case
  proof (cases "k = k'")
    case True
    then show ?thesis by (simp add: h copies_of_def)
  next
    case False
    then show ?thesis using Cons by (simp add: h copies_of_def)
  qed
qed (simp add: copies_of_def)

definition held_ok :: "(cache_key \<times> held list) list \<Rightarrow> bool" where
  "held_ok hs \<longleftrightarrow> distinct (map fst hs) \<and>
     (\<forall>(k, cs) \<in> set hs. cs \<noteq> [] \<and> distinct (map h_signature cs))"

lemma held_ok_distinct: "held_ok hs \<Longrightarrow> distinct (map fst hs)"
  by (simp add: held_ok_def)

lemma held_ok_copies: "held_ok hs \<Longrightarrow> map_of hs k = Some cs \<Longrightarrow> cs \<noteq> [] \<and> distinct (map h_signature cs)"
  by (auto simp: held_ok_def dest!: map_of_SomeD)

lemma held_ok_delete: "held_ok hs \<Longrightarrow> held_ok (AList.delete k hs)"
  by (auto simp: held_ok_def AList.delete_eq distinct_map inj_on_def)

lemma held_ok_filter: "held_ok hs \<Longrightarrow> held_ok (filter (\<lambda>(k, _). p k) hs)"
  by (auto simp: held_ok_def distinct_map inj_on_def)

lemma set_update_subset: "set (AList.update k v al) \<subseteq> insert (k, v) (set al)"
  by (induction al) auto

lemma held_ok_update:
  "held_ok hs \<Longrightarrow> cs \<noteq> [] \<Longrightarrow> distinct (map h_signature cs) \<Longrightarrow> held_ok (AList.update k cs hs)"
  using set_update_subset [of k cs hs] by (auto simp: held_ok_def distinct_update)

lemma distinct_all_copies:
  assumes "held_ok hs"
  shows "distinct (map (\<lambda>(k, c). (k, h_signature c)) (all_copies hs))"
  using assms
proof (induction hs)
  case (Cons h hs)
  obtain k cs where h: "h = (k, cs)" by (cases h)
  have ok: "held_ok hs" "k \<notin> fst ` set hs" "distinct (map h_signature cs)"
    using Cons.prems by (auto simp: h held_ok_def)
  have "distinct (map (\<lambda>c. (k, h_signature c)) cs)"
    using ok(3) by (auto simp: distinct_map inj_on_def)
  moreover have "(k, c) \<notin> set (all_copies hs)" for c
    using ok(2) by (auto simp: all_copies_def image_iff)
  ultimately show ?case using Cons.IH [OF ok(1)] by (auto simp: h o_def)
qed simp

lemma all_copies_set_copies:
  assumes "distinct (map fst (cs_held st))" "copies_of (cs_held st) k = cs"
  shows "all_copies (cs_held (set_copies k (filter p cs) st)) =
    filter (\<lambda>(k', c). k' = k \<longrightarrow> p c) (all_copies (cs_held st))"
proof -
  have upd: "all_copies (AList.update k (filter p (copies_of hs k)) hs) =
      filter (\<lambda>(k', c). k' = k \<longrightarrow> p c) (all_copies hs)"
    if "distinct (map fst hs)" for hs
    using that
  proof (induction hs)
    case (Cons h hs)
    obtain k' ds where h: "h = (k', ds)" by (cases h)
    have other: "filter (\<lambda>(k', c). k' = k \<longrightarrow> p c) (all_copies hs) = all_copies hs" if "k = k'"
      using Cons.prems that by (intro filter_True) (auto simp: h all_copies_def image_iff)
    show ?case
    proof (cases "k = k'")
      case True
      then show ?thesis using other by (simp add: h copies_of_def filter_map o_def)
    next
      case False
      then have "filter (\<lambda>(k', c). k' = k \<longrightarrow> p c) (map (Pair k') ds) = map (Pair k') ds"
        by (intro filter_True) auto
      with False Cons show ?thesis by (simp add: h copies_of_def)
    qed
  qed (simp add: copies_of_def)
  have del: "all_copies (AList.delete k hs) = all_copies (AList.update k [] hs)"
    if "distinct (map fst hs)" for hs
    using that
  proof (induction hs)
    case (Cons h hs)
    obtain k' ds where h: "h = (k', ds)" by (cases h)
    show ?case
    proof (cases "k = k'")
      case True
      then have "k \<notin> fst ` set hs" using Cons.prems by (auto simp: h)
      then show ?thesis by (simp add: h True delete_idem)
    next
      case False
      then show ?thesis using Cons by (simp add: h)
    qed
  qed simp
  show ?thesis
    using upd [OF assms(1)] assms(2) del [OF assms(1)] by (auto simp: set_copies_def)
qed

subsection \<open>Well-formed stores\<close>

definition copy_ok :: "cache_store \<Rightarrow> cache_key \<Rightarrow> held \<Rightarrow> bool" where
  "copy_ok st k c \<longleftrightarrow> h_identity c < cs_next_identity st \<and>
     (case map_of (cs_vary st) k of
        None \<Rightarrow> False
      | Some v \<Rightarrow> h_weight c = weight (h_entry c) k (h_signature c) v)"

definition cache_shape :: "cache_store \<Rightarrow> bool" where
  "cache_shape st \<longleftrightarrow> held_ok (cs_held st) \<and> distinct (map fst (cs_vary st)) \<and>
     fst ` set (cs_held st) = fst ` set (cs_vary st) \<and>
     (\<forall>k. \<forall>c \<in> set (copies_of (cs_held st) k). copy_ok st k c)"

definition accounted :: "cache_store \<Rightarrow> bool" where
  "accounted st \<longleftrightarrow> cs_bytes st = of_nat (held_weight (cs_held st))"

definition cache_ok :: "cache_store \<Rightarrow> bool" where
  "cache_ok st \<longleftrightarrow> cache_shape st \<and> accounted st \<and> held_weight (cs_held st) \<le> cs_max_bytes st \<and>
     2 * cs_max_bytes st \<le> u64_max \<and> cs_revision st \<le> u64_max"

lemma cache_shape_distinct: "cache_shape st \<Longrightarrow> distinct (map fst (cs_held st))"
  by (simp add: cache_shape_def held_ok_def)

lemma keys_delete: "fst ` set (AList.delete k al) = fst ` set al - {k}"
  by (force simp: AList.delete_eq)

lemma keys_update: "fst ` set (AList.update k v al) = insert k (fst ` set al)"
  by (induction al) auto

lemma copies_of_set_copies:
  "copies_of (cs_held (set_copies k ds st)) k' = (if k' = k then ds else copies_of (cs_held st) k')"
  by (simp add: set_copies_def copies_of_def update_conv' delete_conv')

lemma copies_of_SomeI: "map_of hs k = Some cs \<Longrightarrow> copies_of hs k = cs"
  by (simp add: copies_of_def)

lemma set_copies_fields [simp]:
  "cs_revision (set_copies k ds st) = cs_revision st" "cs_bytes (set_copies k ds st) = cs_bytes st"
  "cs_max_bytes (set_copies k ds st) = cs_max_bytes st" "cs_clock (set_copies k ds st) = cs_clock st"
  "cs_next_identity (set_copies k ds st) = cs_next_identity st"
  "cs_evictions (set_copies k ds st) = cs_evictions st"
  by (simp_all add: set_copies_def)

lemma sub_bytes_fields [simp]:
  "cs_held (sub_bytes n st) = cs_held st" "cs_vary (sub_bytes n st) = cs_vary st"
  "cs_revision (sub_bytes n st) = cs_revision st" "cs_bytes (sub_bytes n st) = cs_bytes st - of_nat n"
  "cs_max_bytes (sub_bytes n st) = cs_max_bytes st" "cs_clock (sub_bytes n st) = cs_clock st"
  "cs_next_identity (sub_bytes n st) = cs_next_identity st"
  by (simp_all add: sub_bytes_def)

lemma bump_revision_fields [simp]:
  "cs_held (bump_revision st) = cs_held st" "cs_vary (bump_revision st) = cs_vary st"
  "cs_bytes (bump_revision st) = cs_bytes st" "cs_max_bytes (bump_revision st) = cs_max_bytes st"
  "cs_next_identity (bump_revision st) = cs_next_identity st"
  "cs_revision (bump_revision st) = saturating_add u64_max (cs_revision st) 1"
  by (simp_all add: bump_revision_def)

text \<open>Only the contents and the identity counter matter for the shape.\<close>

lemma cache_shape_cong:
  "cs_held st = cs_held s \<Longrightarrow> cs_vary st = cs_vary s \<Longrightarrow> cs_next_identity st = cs_next_identity s \<Longrightarrow>
     cache_shape st = cache_shape s"
  by (simp add: cache_shape_def copy_ok_def)

lemma shape_set_copies:
  assumes shape: "cache_shape st" and cs: "map_of (cs_held st) k = Some cs"
    and ds: "distinct (map h_signature ds)" "\<forall>c \<in> set ds. copy_ok st k c"
  shows "cache_shape (set_copies k ds st)"
proof -
  have k: "k \<in> fst ` set (cs_held st)" using cs by (metis map_of_eq_None_iff option.distinct(1))
  have sh: "held_ok (cs_held st)" "distinct (map fst (cs_vary st))"
      "fst ` set (cs_held st) = fst ` set (cs_vary st)"
      "\<And>k c. c \<in> set (copies_of (cs_held st) k) \<Longrightarrow> copy_ok st k c"
    using shape by (auto simp: cache_shape_def)
  have held: "held_ok (cs_held (set_copies k ds st))"
    using sh(1) ds(1) by (simp add: set_copies_def held_ok_delete held_ok_update)
  have vary: "distinct (map fst (cs_vary (set_copies k ds st)))"
    using sh(2) by (simp add: set_copies_def distinct_delete)
  have keys: "fst ` set (cs_held (set_copies k ds st)) = fst ` set (cs_vary (set_copies k ds st))"
    using sh(3) k by (auto simp: set_copies_def keys_delete keys_update)
  have "copy_ok (set_copies k ds st) k' c" if "c \<in> set (copies_of (cs_held (set_copies k ds st)) k')" for k' c
  proof (cases "k' = k")
    case True
    then have "c \<in> set ds" using that by (simp add: copies_of_set_copies)
    then show ?thesis using ds(2) True by (auto simp: copy_ok_def set_copies_def)
  next
    case False
    then have "copy_ok st k' c" using that sh(4) by (simp add: copies_of_set_copies)
    then show ?thesis using False by (simp add: copy_ok_def set_copies_def delete_conv')
  qed
  then show ?thesis using held vary keys by (simp add: cache_shape_def)
qed

lemma held_weight_set_copies:
  assumes "distinct (map fst (cs_held st))"
  shows "held_weight (cs_held (set_copies k ds st)) + weight_of (copies_of (cs_held st) k) =
    held_weight (cs_held st) + weight_of ds"
  using held_weight_delete [OF assms, of k] held_weight_update [OF assms, of k ds]
  by (simp add: set_copies_def)

lemma accounted_less:
  assumes "accounted st" "cs_bytes st' = cs_bytes st - of_nat n"
    "held_weight (cs_held st') + n = held_weight (cs_held st)"
  shows "accounted st'"
proof -
  have "(of_nat (held_weight (cs_held st)) :: u64) = of_nat (held_weight (cs_held st')) + of_nat n"
    by (metis assms(3) of_nat_add)
  then show ?thesis using assms(1,2) by (simp add: accounted_def)
qed

text \<open>Taking copies away: the common step of every removing operation.\<close>

lemma cache_ok_shrink:
  assumes ok: "cache_ok st" and cs: "map_of (cs_held st) k = Some cs"
    and ds: "distinct (map h_signature ds)" "\<forall>c \<in> set ds. copy_ok st k c"
    and w: "weight_of ds + n = weight_of cs"
  shows "cache_ok (set_copies k ds (sub_bytes n st))"
proof -
  let ?st = "set_copies k ds (sub_bytes n st)"
  have sh: "cache_shape (sub_bytes n st)" using ok cache_shape_cong [of "sub_bytes n st" st] by (simp add: cache_ok_def)
  have "copy_ok (sub_bytes n st) k c \<longleftrightarrow> copy_ok st k c" for c by (simp add: copy_ok_def)
  then have shape: "cache_shape ?st" using shape_set_copies [OF sh] cs ds by simp
  have less: "held_weight (cs_held ?st) + n = held_weight (cs_held st)"
    using held_weight_set_copies [OF cache_shape_distinct [OF sh], of k ds] w copies_of_SomeI [OF cs] by simp
  have "accounted ?st"
    by (rule accounted_less [of st _ n]) (use ok less in \<open>simp_all add: cache_ok_def\<close>)
  then show ?thesis using ok shape less by (simp add: cache_ok_def)
qed

lemma position_Some: "position p xs = Some i \<Longrightarrow> i < length xs \<and> p (xs ! i)"
  by (induction xs arbitrary: i) (auto split: if_splits)

lemma remove_nth_weight: "i < length cs \<Longrightarrow> weight_of (remove_nth i cs) + h_weight (cs ! i) = weight_of cs"
proof -
  assume "i < length cs"
  then have "cs = take i cs @ cs ! i # drop (i + 1) cs" using id_take_nth_drop by simp
  then have "weight_of cs = weight_of (take i cs) + (h_weight (cs ! i) + weight_of (drop (i + 1) cs))"
    by (metis weight_of_append weight_of_Cons)
  then show ?thesis by (simp add: remove_nth_def)
qed

lemma remove_nth_distinct: "distinct (map f cs) \<Longrightarrow> distinct (map f (remove_nth i cs))"
proof -
  assume d: "distinct (map f cs)"
  have "set (take i (map f cs)) \<inter> set (drop (i + 1) (map f cs)) = {}"
    using set_take_disj_set_drop_if_distinct [OF d, of i "i + 1"] by simp
  moreover have "map f (remove_nth i cs) = take i (map f cs) @ drop (i + 1) (map f cs)"
    by (simp add: remove_nth_def take_map drop_map)
  ultimately show ?thesis using d by (metis distinct_append distinct_drop distinct_take)
qed

lemma set_remove_nth: "set (remove_nth i cs) \<subseteq> set cs"
  by (auto simp: remove_nth_def dest: in_set_takeD in_set_dropD)

lemma cache_ok_remove_nth:
  assumes ok: "cache_ok st" and cs: "map_of (cs_held st) k = Some cs" and i: "i < length cs"
  shows "cache_ok (set_copies k (remove_nth i cs) (sub_bytes (h_weight (cs ! i)) st))"
proof (rule cache_ok_shrink [OF ok cs])
  have "cs \<noteq> [] \<and> distinct (map h_signature cs)"
    using held_ok_copies [OF _ cs] ok by (simp add: cache_ok_def cache_shape_def)
  then show "distinct (map h_signature (remove_nth i cs))" by (simp add: remove_nth_distinct)
  show "\<forall>c \<in> set (remove_nth i cs). copy_ok st k c"
    using ok set_remove_nth [of i cs] copies_of_SomeI [OF cs] by (auto simp: cache_ok_def cache_shape_def)
qed (rule remove_nth_weight [OF i])

lemma cache_ok_bump [intro]: "cache_ok st \<Longrightarrow> cache_ok (bump_revision st)"
  using cache_shape_cong [of "bump_revision st" st]
  by (simp add: cache_ok_def accounted_def saturating_add_def)

lemma cache_ok_store_new: "2 * m \<le> u64_max \<Longrightarrow> cache_ok (cache_store_new m)"
  by (simp add: cache_ok_def cache_shape_def held_ok_def accounted_def cache_store_new_def copies_of_def)

lemma cache_ok_discard: "cache_ok st \<Longrightarrow> cache_ok (discard_observed ob st)"
  by (auto simp: discard_observed_def intro!: cache_ok_remove_nth cache_ok_bump dest: position_Some split: option.splits)

lemma cache_ok_take_stale: "cache_ok st \<Longrightarrow> cache_ok (snd (take_stale digest now k h st))"
  by (auto simp: take_stale_def Let_def intro: cache_ok_remove_nth dest: position_Some split: option.splits)

lemma find_touch_sigs: "find_touch p now cs = (r, ds) \<Longrightarrow> map h_signature ds = map h_signature cs"
  and find_touch_weight: "find_touch p now cs = (r, ds) \<Longrightarrow> weight_of ds = weight_of cs"
  by (induction cs arbitrary: r ds) (auto split: if_splits prod.splits)

lemma find_touch_mem:
  "find_touch p now cs = (r, ds) \<Longrightarrow> d \<in> set ds \<Longrightarrow> \<exists>c \<in> set cs. d = c \<or> d = c\<lparr>h_used := now\<rparr>"
proof (induction cs arbitrary: r ds)
  case (Cons c cs)
  obtain q es where ft: "find_touch p now cs = (q, es)" by (cases "find_touch p now cs")
  show ?case
  proof (cases "p c")
    case False
    with Cons.prems ft have "d = c \<or> d \<in> set es" by auto
    with Cons.IH [OF ft] show ?thesis by auto
  qed (use Cons.prems in auto)
qed simp

lemma find_touch_Some: "find_touch p now cs = (Some e, ds) \<Longrightarrow> \<exists>c \<in> set cs. p c \<and> e = h_entry c"
  by (induction cs arbitrary: ds) (auto split: if_splits prod.splits)

lemma find_touch_None: "find_touch p now cs = (None, ds) \<longleftrightarrow> ds = cs \<and> (\<forall>c \<in> set cs. \<not> p c)"
proof (induction cs arbitrary: ds)
  case (Cons c cs)
  obtain q es where ft: "find_touch p now cs = (q, es)" by (cases "find_touch p now cs")
  show ?case using Cons.IH [of es] Cons.IH [of cs] by (simp add: ft) blast
qed auto

text \<open>A lookup in stages: the expired copies go, then the one handed out is stamped.\<close>

lemma lookup_eq:
  assumes "map_of (cs_held st) key = Some copies"
  shows "lookup now key sf accepts st =
    (let sg = sf (case map_of (cs_vary st) key of Some v \<Rightarrow> v | None \<Rightarrow> []);
         fresh = filter (\<lambda>c. is_fresh now (h_entry c)) copies;
         freed = weight_of (filter (\<lambda>c. \<not> is_fresh now (h_entry c)) copies);
         (found, touched) = find_touch (\<lambda>c. h_signature c = sg \<and> accepts (h_entry c)) (cs_clock st) fresh;
         st' = set_copies key touched (sub_bytes freed st)\<lparr>cs_clock := cs_clock st + 1\<rparr> in
     (found, case found of Some e \<Rightarrow> st'\<lparr>cs_hits := cs_hits st + 1\<rparr> | None \<Rightarrow> st'\<lparr>cs_misses := cs_misses st + 1\<rparr>))"
  using assms
  by (auto simp: lookup_def Let_def set_copies_def sub_bytes_def split: prod.splits option.splits)

lemma copy_ok_used [simp]: "copy_ok st k (c\<lparr>h_used := u\<rparr>) = copy_ok st k c"
  by (simp add: copy_ok_def split: option.splits)

lemma cache_ok_counters [simp]:
  "cache_ok (st\<lparr>cs_clock := n\<rparr>) = cache_ok st" "cache_ok (st\<lparr>cs_hits := n\<rparr>) = cache_ok st"
  "cache_ok (st\<lparr>cs_misses := n\<rparr>) = cache_ok st" "cache_ok (st\<lparr>cs_evictions := n\<rparr>) = cache_ok st"
  by (simp_all add: cache_ok_def accounted_def cache_shape_def copy_ok_def)

lemma cache_ok_lookup:
  assumes ok: "cache_ok st"
  shows "cache_ok (snd (lookup now key sf accepts st))"
proof (cases "map_of (cs_held st) key")
  case None
  then show ?thesis using ok by (simp add: lookup_def)
next
  case (Some copies)
  let ?fresh = "filter (\<lambda>c. is_fresh now (h_entry c)) copies"
  have copies: "distinct (map h_signature copies)" "\<forall>c \<in> set copies. copy_ok st key c"
    using held_ok_copies [OF _ Some] copies_of_SomeI [OF Some] ok
    by (auto simp: cache_ok_def cache_shape_def)
  have "cache_ok (set_copies key ds (sub_bytes (weight_of (filter (\<lambda>c. \<not> is_fresh now (h_entry c)) copies)) st))"
    if t: "find_touch p u ?fresh = (r, ds)" for p u r ds
  proof (rule cache_ok_shrink [OF ok Some])
    show "distinct (map h_signature ds)"
      using copies(1) by (simp add: find_touch_sigs [OF t] distinct_map_filter)
    show "\<forall>c \<in> set ds. copy_ok st key c"
      using copies(2) find_touch_mem [OF t] by fastforce
    show "weight_of ds + weight_of (filter (\<lambda>c. \<not> is_fresh now (h_entry c)) copies) = weight_of copies"
      unfolding find_touch_weight [OF t] by (rule weight_of_filter)
  qed
  then show ?thesis
    by (auto simp: lookup_eq [OF Some] Let_def split: prod.splits option.splits)
qed

lemma cache_ok_invalidate:
  assumes ok: "cache_ok st"
  shows "cache_ok (invalidate key st)"
proof -
  let ?keep = "\<lambda>k. \<not> same_uri k key"
  let ?st = "invalidate key st"
  have f: "cs_held ?st = filter (\<lambda>(k, _). ?keep k) (cs_held st)" "cs_vary ?st = filter (\<lambda>(k, _). ?keep k) (cs_vary st)"
    "cs_max_bytes ?st = cs_max_bytes st" "cs_next_identity ?st = cs_next_identity st"
    "cs_bytes ?st = cs_bytes st - of_nat (held_weight (filter (\<lambda>(k, _). same_uri k key) (cs_held st)))"
    "cs_revision ?st = saturating_add u64_max (cs_revision st) 1"
    by (simp_all add: invalidate_def Let_def)
  have less: "held_weight (cs_held ?st) + held_weight (filter (\<lambda>(k, _). same_uri k key) (cs_held st)) =
      held_weight (cs_held st)"
    using held_weight_filter [of "\<lambda>k. same_uri k key" "cs_held st"] by (simp add: f)
  have acc: "accounted ?st" by (rule accounted_less [OF _ f(5) less]) (use ok in \<open>simp add: cache_ok_def\<close>)
  have mapf: "map_of (filter (\<lambda>(k, _). p k) al) k = (if p k then map_of al k else None)"
    for p and al :: "(cache_key \<times> 'z) list" and k by (induction al) auto
  have sh: "held_ok (cs_held st)" "distinct (map fst (cs_vary st))"
      "fst ` set (cs_held st) = fst ` set (cs_vary st)"
      "\<And>k c. c \<in> set (copies_of (cs_held st) k) \<Longrightarrow> copy_ok st k c"
    using ok by (auto simp: cache_ok_def cache_shape_def)
  have keys: "fst ` set (filter (\<lambda>(k, _). p k) al) = {k \<in> fst ` set al. p k}"
    for p and al :: "(cache_key \<times> 'z) list" by force
  have "copies_of (cs_held ?st) k = (if ?keep k then copies_of (cs_held st) k else [])" for k
    by (simp add: copies_of_def f mapf)
  then have "copy_ok ?st k c" if "c \<in> set (copies_of (cs_held ?st) k)" for k c
    using that sh(4) [of c k] by (auto simp: copy_ok_def f mapf split: if_splits)
  moreover have "distinct (map fst (cs_vary ?st))"
    using sh(2) by (auto simp: f distinct_map inj_on_def)
  moreover have "fst ` set (cs_held ?st) = fst ` set (cs_vary ?st)" unfolding f keys using sh(3) by simp
  moreover have "held_ok (cs_held ?st)" unfolding f by (rule held_ok_filter [OF sh(1)])
  ultimately have "cache_shape ?st" by (simp add: cache_shape_def)
  then show ?thesis using acc ok less by (simp add: cache_ok_def f(3,6) saturating_add_def)
qed

subsection \<open>Eviction\<close>

definition same_counters :: "cache_store \<Rightarrow> cache_store \<Rightarrow> bool" where
  "same_counters s t \<longleftrightarrow> cs_bytes t = cs_bytes s \<and> cs_max_bytes t = cs_max_bytes s \<and>
     cs_revision t = cs_revision s \<and> cs_clock t = cs_clock s \<and> cs_next_identity t = cs_next_identity s"

definition evicted ::
  "(cache_key \<times> bytes) set \<Rightarrow> cache_key set \<Rightarrow> cache_store \<times> nat \<times> nat \<Rightarrow> cache_store \<times> nat \<times> nat \<Rightarrow> bool" where
  "evicted names ks a b \<longleftrightarrow>
     (case (a, b) of ((s, f, n), (t, g, m)) \<Rightarrow>
        cache_shape t \<and> same_counters s t \<and>
        all_copies (cs_held t) =
          filter (\<lambda>(k, c). k \<in> ks \<longrightarrow> (k, h_signature c) \<notin> names) (all_copies (cs_held s)) \<and>
        g + held_weight (cs_held t) = f + held_weight (cs_held s) \<and>
        map_of (cs_vary t) \<subseteq>\<^sub>m map_of (cs_vary s))"

lemma vary_set_copies: "map_of (cs_vary (set_copies k ds st)) \<subseteq>\<^sub>m map_of (cs_vary st)"
  by (simp add: set_copies_def delete_conv' map_le_def)

lemma evict_key_evicted:
  assumes "cache_shape (fst a)"
  shows "evicted names {k} a (evict_key names k a)"
proof -
  obtain s f n where a: "a = (s, f, n)" by (cases a)
  have shape: "cache_shape s" using assms by (simp add: a)
  show ?thesis
  proof (cases "map_of (cs_held s) k")
    case None
    have "filter (\<lambda>(k', c). k' \<in> {k} \<longrightarrow> (k', h_signature c) \<notin> names) (all_copies (cs_held s)) =
        all_copies (cs_held s)"
      using None all_copies_iff [OF cache_shape_distinct [OF shape]]
      by (intro filter_True) (auto simp: copies_of_def)
    then show ?thesis using None shape by (simp add: evicted_def evict_key_def a same_counters_def)
  next
    case (Some cs)
    let ?p = "\<lambda>c. (k, h_signature c) \<notin> names"
    have cs: "copies_of (cs_held s) k = cs" using Some by (rule copies_of_SomeI)
    have "cache_shape (set_copies k (filter ?p cs) s)"
    proof (rule shape_set_copies [OF shape Some])
      show "distinct (map h_signature (filter ?p cs))"
        using held_ok_copies [OF _ Some] shape by (simp add: cache_shape_def distinct_map_filter)
      show "\<forall>c \<in> set (filter ?p cs). copy_ok s k c" using shape cs by (auto simp: cache_shape_def)
    qed
    moreover have "all_copies (cs_held (set_copies k (filter ?p cs) s)) =
        filter (\<lambda>(k', c). k' \<in> {k} \<longrightarrow> (k', h_signature c) \<notin> names) (all_copies (cs_held s))"
      unfolding all_copies_set_copies [OF cache_shape_distinct [OF shape] cs]
      by (rule filter_cong) auto
    moreover have "weight_of (filter (\<lambda>c. (k, h_signature c) \<in> names) cs) +
        held_weight (cs_held (set_copies k (filter ?p cs) s)) = held_weight (cs_held s)"
      using held_weight_set_copies [OF cache_shape_distinct [OF shape], of k "filter ?p cs"]
        weight_of_filter [of "\<lambda>c. (k, h_signature c) \<in> names" cs] cs by simp
    ultimately show ?thesis using Some vary_set_copies [of k "filter ?p cs" s]
      by (simp add: evicted_def evict_key_def a same_counters_def Let_def)
  qed
qed

lemma evicted_trans: "evicted names ks a b \<Longrightarrow> evicted names ls b c \<Longrightarrow> evicted names (ks \<union> ls) a c"
  by (auto simp: evicted_def same_counters_def filter_filter split: prod.splits
      intro!: filter_cong intro: map_le_trans)

lemma fold_evict_key:
  "cache_shape (fst a) \<Longrightarrow> evicted names (set ks) a (fold (evict_key names) ks a)"
proof (induction ks arbitrary: a)
  case Nil
  have "filter (\<lambda>(k, c). True) cs = cs" for cs :: "(cache_key \<times> held) list" by (intro filter_True) auto
  with Nil show ?case by (cases a) (simp add: evicted_def same_counters_def)
next
  case (Cons k ks)
  have e: "evicted names {k} a (evict_key names k a)" using evict_key_evicted [OF Cons.prems] .
  then have "cache_shape (fst (evict_key names k a))" by (auto simp: evicted_def split: prod.splits)
  from evicted_trans [OF e Cons.IH [OF this]] show ?case by simp
qed

lemma select_victims_prefix: "\<exists>rest. cs = select_victims excess n cs @ rest"
  by (induction cs arbitrary: n) (auto simp: Let_def)

text \<open>Selection stops at the first copy that reaches the excess.\<close>

lemma select_victims_enough:
  "excess \<le> n + copies_weight cs \<Longrightarrow> 0 < excess \<Longrightarrow> n < excess \<Longrightarrow> excess \<le> u64_max \<Longrightarrow>
     excess \<le> n + copies_weight (select_victims excess n cs) \<and>
     select_victims excess n cs \<noteq> [] \<and>
     n + copies_weight (butlast (select_victims excess n cs)) < excess"
proof (induction cs arbitrary: n)
  case (Cons kc cs)
  obtain k c where kc: "kc = (k, c)" by (cases kc)
  let ?s = "saturating_add u64_max n (h_weight c)"
  show ?case
  proof (cases "?s \<ge> excess")
    case True
    then show ?thesis using Cons.prems by (simp add: kc saturating_add_def)
  next
    case False
    then have s: "?s = n + h_weight c" using Cons.prems(4) by (auto simp: saturating_add_def min_def split: if_splits)
    then show ?thesis using Cons.IH [of "n + h_weight c"] Cons.prems False by (simp add: kc)
  qed
qed simp

lemma filter_distinct_split:
  assumes "distinct (map f (xs @ ys))"
  shows "filter (\<lambda>x. f x \<notin> set (map f xs)) (xs @ ys) = ys"
  using assms by (auto simp: filter_empty_conv intro!: filter_True)

definition copy_name :: "cache_key \<times> held \<Rightarrow> cache_key \<times> bytes" where
  "copy_name kc = (case kc of (k, c) \<Rightarrow> (k, h_signature c))"

lemma evict_names:
  assumes shape: "cache_shape st" and cand: "candidates st = victims @ rest"
    and ev: "evicted (set (map copy_name victims)) (set (map fst victims)) (st, 0, 0) (s, freed, n)"
  shows "mset (all_copies (cs_held s)) = mset rest"
proof -
  let ?all = "all_copies (cs_held st)" and ?names = "set (map copy_name victims)"
  have mset: "mset (candidates st) = mset ?all" by (simp add: candidates_def)
  have "all_copies (cs_held s) =
      filter (\<lambda>(k, c). k \<in> fst ` set victims \<longrightarrow> (k, h_signature c) \<notin> ?names) ?all"
    using ev by (simp add: evicted_def)
  also have "\<dots> = filter (\<lambda>x. copy_name x \<notin> ?names) ?all"
    by (rule filter_cong) (force simp: copy_name_def)+
  finally have "mset (all_copies (cs_held s)) = mset (filter (\<lambda>x. copy_name x \<notin> ?names) (candidates st))"
    by (simp add: mset)
  moreover have "distinct (map copy_name (victims @ rest))"
  proof -
    have "copy_name = (\<lambda>(k, c). (k, h_signature c))" by (auto simp: copy_name_def)
    then have "distinct (map copy_name ?all)" using distinct_all_copies shape by (simp add: cache_shape_def)
    then show ?thesis unfolding cand [symmetric] by (metis mset mset_map mset_eq_imp_distinct_iff)
  qed
  ultimately show ?thesis unfolding cand by (simp only: filter_distinct_split)
qed

lemma copies_weight_last:
  "cs \<noteq> [] \<Longrightarrow> copies_weight cs = copies_weight (butlast cs) + h_weight (snd (last cs))"
  by (cases cs rule: rev_cases) (auto simp: copies_weight_def split: prod.splits)

lemma evict_spec:
  assumes shape: "cache_shape st" and acc: "accounted st" and fits: "held_weight (cs_held st) \<le> u64_max"
  defines "t \<equiv> evict_down_to_budget st"
  obtains victims rest where "candidates st = victims @ rest" "mset (all_copies (cs_held t)) = mset rest"
    "copies_weight rest \<le> cs_max_bytes st"
    "victims \<noteq> [] \<Longrightarrow> cs_max_bytes st < copies_weight rest + h_weight (snd (last victims))"
    "cache_shape t" "accounted t" "cs_max_bytes t = cs_max_bytes st" "cs_revision t = cs_revision st"
    "cs_clock t = cs_clock st" "cs_next_identity t = cs_next_identity st"
    "map_of (cs_vary t) \<subseteq>\<^sub>m map_of (cs_vary st)"
proof -
  let ?excess = "unat (cs_bytes st) - cs_max_bytes st"
  have mset: "mset (candidates st) = mset (all_copies (cs_held st))" by (simp add: candidates_def)
  have bytes: "unat (cs_bytes st) = copies_weight (candidates st)"
    using acc fits copies_weight_mset [OF mset]
    by (simp add: accounted_def held_weight_all_copies unat_of_nat u64_max_def take_bit_nat_eq_self)
  show ?thesis
  proof (cases "?excess = 0")
    case True
    then have "t = st" by (simp add: t_def evict_down_to_budget_def)
    then show ?thesis using that [of "[]" "candidates st"] True mset shape acc bytes by simp
  next
    case False
    define victims where "victims = select_victims ?excess 0 (candidates st)"
    define names where "names = set (map copy_name victims)"
    obtain rest where rest: "candidates st = victims @ rest"
      using select_victims_prefix [of "candidates st" ?excess 0] by (auto simp: victims_def)
    obtain s freed n where fold: "fold (evict_key names) (remdups (map fst victims)) (st, 0, 0) = (s, freed, n)"
      by (metis prod_cases3)
    have ev: "evicted names (set (map fst victims)) (st, 0, 0) (s, freed, n)"
      using fold_evict_key [of "(st, 0, 0)" names "remdups (map fst victims)"] shape by (simp add: fold)
    have ms: "mset (all_copies (cs_held s)) = mset rest"
      using evict_names [OF shape rest] ev by (simp add: names_def)
    have t: "t = (sub_bytes freed s)\<lparr>cs_evictions := cs_evictions s + of_nat n\<rparr>"
      using False fold
      by (simp add: t_def evict_down_to_budget_def Let_def victims_def names_def copy_name_def [abs_def])
    have eq: "cache_shape s" "same_counters st s" "freed + held_weight (cs_held s) = held_weight (cs_held st)"
      "map_of (cs_vary s) \<subseteq>\<^sub>m map_of (cs_vary st)"
      using ev by (auto simp: evicted_def)
    have total: "copies_weight (candidates st) = copies_weight victims + copies_weight rest" by (simp add: rest)
    have enough: "?excess \<le> copies_weight victims" "victims \<noteq> []" "copies_weight (butlast victims) < ?excess"
      using select_victims_enough [of ?excess 0 "candidates st"] False fits bytes
        copies_weight_mset [OF mset] unfolding victims_def by (simp_all add: held_weight_all_copies)
    have last: "cs_max_bytes st < copies_weight rest + h_weight (snd (last victims))"
      using copies_weight_last [OF enough(2)] enough(3) total bytes by linarith
    have acc': "accounted t"
      by (rule accounted_less [OF acc, of _ freed]) (use eq in \<open>simp_all add: t same_counters_def add.commute\<close>)
    have "cache_shape t" using eq(1) cache_shape_cong [of t s] by (simp add: t)
    moreover have "copies_weight rest \<le> cs_max_bytes st" using enough(1) total bytes by linarith
    ultimately show ?thesis using that [OF rest] ms last acc' eq(2,4) by (simp add: t same_counters_def)
  qed
qed

subsection \<open>Storing\<close>

lemma replace_copy_Some:
  "replace_copy new old = Some (w, cs) \<Longrightarrow>
     map h_signature cs = map h_signature old \<and> weight_of cs + w = weight_of old + h_weight new \<and>
     set cs \<subseteq> insert new (set old) \<and> new \<in> set cs"
  by (induction old arbitrary: cs) (auto split: if_splits)

lemma replace_copy_None:
  "replace_copy new old = None \<longleftrightarrow> (\<forall>c \<in> set old. h_signature c \<noteq> h_signature new)"
  by (induction old) auto

text \<open>What \<open>insert_copy\<close> leaves, as one update of the copies of the key.\<close>

definition with_copy :: "held \<Rightarrow> held list \<Rightarrow> held list" where
  "with_copy new old = (case replace_copy new old of Some (_, cs) \<Rightarrow> cs | None \<Rightarrow> old @ [new])"

definition replaced_weight :: "held \<Rightarrow> held list \<Rightarrow> nat" where
  "replaced_weight new old = (case replace_copy new old of Some (w, _) \<Rightarrow> w | None \<Rightarrow> 0)"

definition new_copy :: "bytes \<Rightarrow> entry \<Rightarrow> nat \<Rightarrow> cache_store \<Rightarrow> held" where
  "new_copy sg e w st =
     \<lparr>h_identity = cs_next_identity st, h_entry = e, h_weight = w, h_signature = sg, h_used = cs_clock st\<rparr>"

lemma with_copy_weight:
  "weight_of (with_copy new old) + replaced_weight new old = weight_of old + h_weight new"
  by (auto simp: with_copy_def replaced_weight_def dest: replace_copy_Some split: option.splits)

lemma with_copy_distinct:
  assumes "distinct (map h_signature old)"
  shows "distinct (map h_signature (with_copy new old))"
proof (cases "replace_copy new old")
  case None
  then have "h_signature new \<notin> set (map h_signature old)" by (auto simp: replace_copy_None)
  then show ?thesis using assms None by (simp add: with_copy_def)
next
  case (Some wc)
  then obtain w cs where wc: "replace_copy new old = Some (w, cs)" by (cases wc) auto
  have "map h_signature cs = map h_signature old" using replace_copy_Some [OF wc] by blast
  then show ?thesis using assms wc by (simp add: with_copy_def)
qed

lemma with_copy_Nil [simp]: "with_copy new [] = [new]"
  and with_copy_Cons [simp]: "with_copy new (d # old) =
    (if h_signature d = h_signature new then new # old else d # with_copy new old)"
  by (auto simp: with_copy_def split: option.splits)

lemma with_copy_mem:
  "distinct (map h_signature old) \<Longrightarrow>
     c \<in> set (with_copy new old) \<longleftrightarrow> c = new \<or> c \<in> set old \<and> h_signature c \<noteq> h_signature new"
  by (induction old) (auto simp: image_iff)

lemma with_copy_not_Nil [simp]: "with_copy new old \<noteq> []"
  by (auto simp: with_copy_def dest: replace_copy_Some split: option.splits)

lemma insert_copy_fields:
  "cs_held (insert_copy key sg vary e w st) =
     AList.update key (with_copy (new_copy sg e w st) (copies_of (cs_held st) key)) (cs_held st)"
  "cs_vary (insert_copy key sg vary e w st) = AList.update key vary (cs_vary st)"
  "cs_bytes (insert_copy key sg vary e w st) =
     cs_bytes st - of_nat (replaced_weight (new_copy sg e w st) (copies_of (cs_held st) key)) + of_nat w"
  "cs_max_bytes (insert_copy key sg vary e w st) = cs_max_bytes st"
  "cs_revision (insert_copy key sg vary e w st) = cs_revision st"
  "cs_clock (insert_copy key sg vary e w st) = cs_clock st + 1"
  "cs_next_identity (insert_copy key sg vary e w st) = cs_next_identity st + 1"
  by (auto simp: insert_copy_def Let_def with_copy_def replaced_weight_def new_copy_def copies_of_def
      split: option.splits)

lemma drop_other_vary_fields [simp]:
  "cs_vary (drop_other_vary key vary st) = cs_vary st"
  "cs_max_bytes (drop_other_vary key vary st) = cs_max_bytes st"
  "cs_revision (drop_other_vary key vary st) = cs_revision st"
  "cs_clock (drop_other_vary key vary st) = cs_clock st"
  "cs_next_identity (drop_other_vary key vary st) = cs_next_identity st"
  by (simp_all add: drop_other_vary_def split: option.splits)

lemma drop_other_vary_copies:
  "copies_of (cs_held (drop_other_vary key vary st)) k =
     (if k = key \<and> other_vary key vary st then [] else copies_of (cs_held st) k)"
  by (auto simp: drop_other_vary_def copies_of_def delete_conv' split: option.splits)

lemma drop_other_vary_held:
  fixes key :: cache_key and vary :: "bytes list"
  assumes "cache_ok st"
  defines "s \<equiv> drop_other_vary key vary st"
  shows "held_ok (cs_held s)" "accounted s" "held_weight (cs_held s) \<le> held_weight (cs_held st)"
    "insert key (fst ` set (cs_held s)) = insert key (fst ` set (cs_vary s))"
proof -
  have ok: "held_ok (cs_held st)" "accounted st" "fst ` set (cs_held st) = fst ` set (cs_vary st)"
    using assms(1) by (simp_all add: cache_ok_def cache_shape_def)
  have less: "held_weight (AList.delete key (cs_held st)) + weight_of (copies_of (cs_held st) key) =
      held_weight (cs_held st)" using held_weight_delete held_ok_distinct [OF ok(1)] by blast
  have "accounted (sub_bytes (weight_of (copies_of (cs_held st) key))
      (st\<lparr>cs_held := AList.delete key (cs_held st)\<rparr>))"
    by (rule accounted_less [OF ok(2), of _ "weight_of (copies_of (cs_held st) key)"]) (use less in simp_all)
  then show "held_ok (cs_held s)" "accounted s" "held_weight (cs_held s) \<le> held_weight (cs_held st)"
      "insert key (fst ` set (cs_held s)) = insert key (fst ` set (cs_vary s))"
    using ok less held_ok_delete [OF ok(1)]
    by (auto simp: s_def drop_other_vary_def copies_of_def keys_delete split: option.splits)
qed

lemma copies_of_update: "copies_of (AList.update k cs hs) k' = (if k' = k then cs else copies_of hs k')"
  by (simp add: copies_of_def update_conv')

lemma insert_copy_ok:
  fixes key :: cache_key and sg :: bytes and vary :: "bytes list" and e :: entry
  assumes ok: "cache_ok st"
  defines "w \<equiv> weight e key sg vary"
  defines "t \<equiv> insert_copy key sg vary e w (drop_other_vary key vary st)"
  shows "cache_shape t" "accounted t" "held_weight (cs_held t) \<le> held_weight (cs_held st) + w"
proof -
  let ?s = "drop_other_vary key vary st"
  let ?new = "new_copy sg e w ?s" and ?old = "copies_of (cs_held ?s) key"
  note s = drop_other_vary_held [OF ok, of key vary]
  have d: "distinct (map h_signature ?old)"
    using held_ok_copies [OF s(1), of key] by (auto simp: copies_of_def split: option.splits)
  have w_new: "h_weight ?new = w" by (simp add: new_copy_def)
  have hw: "held_weight (cs_held t) + replaced_weight ?new ?old = held_weight (cs_held ?s) + w"
    using held_weight_update [OF held_ok_distinct [OF s(1)], of key "with_copy ?new ?old"]
      with_copy_weight [of ?new ?old] w_new by (simp add: t_def insert_copy_fields)
  then show "held_weight (cs_held t) \<le> held_weight (cs_held st) + w" using s(3) by linarith
  have "(of_nat (held_weight (cs_held t)) :: u64) + of_nat (replaced_weight ?new ?old) =
      of_nat (held_weight (cs_held ?s)) + of_nat w"
    by (metis hw of_nat_add)
  then have "of_nat (held_weight (cs_held ?s)) - of_nat (replaced_weight ?new ?old) + of_nat w =
      (of_nat (held_weight (cs_held t)) :: u64)" by (simp add: diff_add_eq diff_eq_eq)
  then show "accounted t" using s(2) by (simp add: accounted_def t_def insert_copy_fields)
  have sh: "distinct (map fst (cs_vary st))"
      "\<And>k c. c \<in> set (copies_of (cs_held st) k) \<Longrightarrow> copy_ok st k c"
    using ok by (auto simp: cache_ok_def cache_shape_def)
  have "copy_ok t k c" if c: "c \<in> set (copies_of (cs_held t) k)" for k c
  proof (cases "k = key")
    case True
    then have "c = ?new \<or> c \<in> set ?old"
      using c with_copy_mem [OF d] by (auto simp add: t_def insert_copy_fields copies_of_update)
    then show ?thesis
    proof
      assume "c = ?new"
      then show ?thesis
        by (simp add: copy_ok_def t_def insert_copy_fields new_copy_def update_conv' True w_def)
    next
      assume "c \<in> set ?old"
      then have "\<not> other_vary key vary st" "copy_ok st key c"
        using sh(2) by (auto simp: drop_other_vary_copies split: if_splits)
      then show ?thesis
        by (auto simp: copy_ok_def t_def insert_copy_fields update_conv' True other_vary_def split: option.splits)
    qed
  next
    case False
    then have "c \<in> set (copies_of (cs_held st) k)"
      using c by (simp add: t_def insert_copy_fields copies_of_update drop_other_vary_copies)
    from sh(2) [OF this] show ?thesis using False
      by (auto simp: copy_ok_def t_def insert_copy_fields update_conv' split: option.splits)
  qed
  moreover have "fst ` set (cs_held t) = fst ` set (cs_vary t)"
    using s(4) by (simp add: t_def insert_copy_fields keys_update)
  moreover have "held_ok (cs_held t)" "distinct (map fst (cs_vary t))"
    using s(1) sh(1) d by (simp_all add: t_def insert_copy_fields held_ok_update with_copy_distinct distinct_update)
  ultimately show "cache_shape t" by (simp add: cache_shape_def)
qed

lemma put_guarded_cases:
  obtains (refused) "put_guarded revision key sg vary e oia st = (False, st)"
  | (stored) "put_guarded revision key sg vary e oia st =
      (True, evict_down_to_budget (insert_copy key sg vary e (weight e key sg vary) (drop_other_vary key vary st)))"
    "weight e key sg vary \<le> cs_max_bytes st" "cs_revision st = revision" "revision \<noteq> u64_max"
    "oia \<Longrightarrow> \<not> other_vary key vary st"
proof (cases "weight e key sg vary > cs_max_bytes st \<or> cs_revision st \<noteq> revision \<or> revision = u64_max \<or>
    (oia \<and> (other_vary key vary st \<or>
      (case map_of (cs_held st) key of None \<Rightarrow> False | Some copies \<Rightarrow> list_ex (\<lambda>copy. h_signature copy = sg) copies)))")
  case True
  show ?thesis by (rule refused) (use True in \<open>unfold put_guarded_def Let_def, metis\<close>)
next
  case False
  then have "put_guarded revision key sg vary e oia st =
      (True, evict_down_to_budget (insert_copy key sg vary e (weight e key sg vary) (drop_other_vary key vary st)))"
    unfolding put_guarded_def Let_def by metis
  then show ?thesis by (rule stored) (use False in auto)
qed

lemma cache_ok_put:
  assumes ok: "cache_ok st"
  shows "cache_ok (snd (put_guarded revision key sg vary e oia st))"
proof (cases rule: put_guarded_cases [of revision key sg vary e oia st])
  case refused
  then show ?thesis using ok by simp
next
  case stored
  let ?w = "weight e key sg vary"
  let ?t = "insert_copy key sg vary e ?w (drop_other_vary key vary st)"
  have w: "?w \<le> cs_max_bytes st" and put: "snd (put_guarded revision key sg vary e oia st) = evict_down_to_budget ?t"
    using stored by simp_all
  note t = insert_copy_ok [OF ok, of key sg vary e]
  have "held_weight (cs_held ?t) \<le> u64_max" using t(3) w ok by (simp add: cache_ok_def)
  then obtain rest where
    "mset (all_copies (cs_held (evict_down_to_budget ?t))) = mset rest"
    "copies_weight rest \<le> cs_max_bytes ?t" "cache_shape (evict_down_to_budget ?t)"
    "accounted (evict_down_to_budget ?t)" "cs_max_bytes (evict_down_to_budget ?t) = cs_max_bytes ?t"
    "cs_revision (evict_down_to_budget ?t) = cs_revision ?t"
    by (rule evict_spec [OF t(1,2)]) blast
  moreover from this(1) have "held_weight (cs_held (evict_down_to_budget ?t)) = copies_weight rest"
    unfolding held_weight_all_copies by (rule copies_weight_mset)
  ultimately show ?thesis using ok unfolding put by (simp add: cache_ok_def insert_copy_fields)
qed

subsection \<open>Runs of the store\<close>

text \<open>
  Every operation a request can perform on the shared store, in any interleaving: each holds the
  contents lock from start to end. What is stored is constrained by \<open>admitted\<close>, the condition under
  which the handler stores; an observed copy and a revision may be any earlier reading.
\<close>

inductive cache_step ::
  "(cache_key \<Rightarrow> bytes \<Rightarrow> bytes list \<Rightarrow> entry \<Rightarrow> bool) \<Rightarrow> digest \<Rightarrow> cache_store \<Rightarrow> cache_store \<Rightarrow> bool"
  for admitted digest where
    step_take_stale: "cache_step admitted digest st (snd (take_stale digest now key headers st))"
  | step_get: "cache_step admitted digest st (snd (get_matching digest now key headers accepts st))"
  | step_discard: "cache_step admitted digest st (discard_observed ob st)"
  | step_invalidate: "cache_step admitted digest st (invalidate key st)"
  | step_put: "admitted key sg vary e \<Longrightarrow>
      cache_step admitted digest st (snd (put_guarded revision key sg vary e oia st))"

lemma cache_step_ok: "cache_step admitted digest st t \<Longrightarrow> cache_ok st \<Longrightarrow> cache_ok t"
  by (induction rule: cache_step.induct)
    (simp_all add: cache_ok_take_stale get_matching_def cache_ok_lookup cache_ok_discard cache_ok_invalidate
      cache_ok_put)

interpretation caches: invariant_system "cache_step admitted digest" cache_ok for admitted digest
  by unfold_locales (rule cache_step_ok)

text \<open>Where a copy held after a step comes from.\<close>

definition kept_from :: "cache_store \<Rightarrow> cache_store \<Rightarrow> cache_key \<Rightarrow> held \<Rightarrow> bool" where
  "kept_from st t k c \<longleftrightarrow>
     (\<exists>c' \<in> set (copies_of (cs_held st) k).
        h_signature c' = h_signature c \<and> h_entry c' = h_entry c \<and> h_identity c' = h_identity c) \<and>
     map_of (cs_vary t) k = map_of (cs_vary st) k"

lemma cache_ok_vary: "cache_ok t \<Longrightarrow> c \<in> set (copies_of (cs_held t) k) \<Longrightarrow> \<exists>v. map_of (cs_vary t) k = Some v"
  by (force simp: cache_ok_def cache_shape_def copy_ok_def split: option.splits)

lemma kept_fromI:
  assumes "cache_ok t" "c \<in> set (copies_of (cs_held t) k)" "map_of (cs_vary t) \<subseteq>\<^sub>m map_of (cs_vary st)"
    and "\<exists>c' \<in> set (copies_of (cs_held st) k).
        h_signature c' = h_signature c \<and> h_entry c' = h_entry c \<and> h_identity c' = h_identity c"
  shows "kept_from st t k c"
proof -
  obtain v where "map_of (cs_vary t) k = Some v" using cache_ok_vary [OF assms(1,2)] by blast
  with assms(3) have "map_of (cs_vary t) k = map_of (cs_vary st) k" by (auto simp: map_le_def dom_def)
  with assms(4) show ?thesis by (simp add: kept_from_def)
qed

lemma set_copies_kept:
  assumes "map_of (cs_held st) key = Some cs"
    and "\<forall>d \<in> set ds. \<exists>c \<in> set cs. h_signature c = h_signature d \<and> h_entry c = h_entry d \<and> h_identity c = h_identity d"
    and "cs_held t = cs_held (set_copies key ds st)" "cs_vary t = cs_vary (set_copies key ds st)"
    and "cache_ok t" "c \<in> set (copies_of (cs_held t) k)"
  shows "kept_from st t k c"
proof (rule kept_fromI [OF assms(5,6)])
  show "map_of (cs_vary t) \<subseteq>\<^sub>m map_of (cs_vary st)" unfolding assms(4) by (rule vary_set_copies)
  show "\<exists>c' \<in> set (copies_of (cs_held st) k).
      h_signature c' = h_signature c \<and> h_entry c' = h_entry c \<and> h_identity c' = h_identity c"
    using assms(2,6) copies_of_SomeI [OF assms(1)] by (auto simp: assms(3) copies_of_set_copies split: if_splits)
qed

lemma kept_from_refl:
  "cs_vary t = cs_vary st \<Longrightarrow> cs_held t = cs_held st \<Longrightarrow> c \<in> set (copies_of (cs_held t) k) \<Longrightarrow> kept_from st t k c"
  by (auto simp: kept_from_def)

lemma set_copies_sub_bytes:
  "cs_held (set_copies k ds (sub_bytes n st)) = cs_held (set_copies k ds st)"
  "cs_vary (set_copies k ds (sub_bytes n st)) = cs_vary (set_copies k ds st)"
  by (simp_all add: set_copies_def)

lemma remove_nth_kept: "d \<in> set (remove_nth i cs) \<Longrightarrow>
    \<exists>c \<in> set cs. h_signature c = h_signature d \<and> h_entry c = h_entry d \<and> h_identity c = h_identity d"
  using set_remove_nth [of i cs] by blast

lemma discard_contents:
  "discard_observed ob st = st \<or> (\<exists>cs i. map_of (cs_held st) (ob_key ob) = Some cs \<and>
     cs_held (discard_observed ob st) = cs_held (set_copies (ob_key ob) (remove_nth i cs) st) \<and>
     cs_vary (discard_observed ob st) = cs_vary (set_copies (ob_key ob) (remove_nth i cs) st))"
  by (auto simp: discard_observed_def set_copies_sub_bytes split: option.splits)

lemma take_stale_contents:
  "snd (take_stale digest now key h st) = st \<or> (\<exists>cs i. map_of (cs_held st) key = Some cs \<and>
     cs_held (snd (take_stale digest now key h st)) = cs_held (set_copies key (remove_nth i cs) st) \<and>
     cs_vary (snd (take_stale digest now key h st)) = cs_vary (set_copies key (remove_nth i cs) st))"
  by (auto simp: take_stale_def Let_def set_copies_sub_bytes split: option.splits)

lemma remove_kept:
  assumes "t = st \<or> (\<exists>cs i. map_of (cs_held st) key = Some cs \<and>
      cs_held t = cs_held (set_copies key (remove_nth i cs) st) \<and>
      cs_vary t = cs_vary (set_copies key (remove_nth i cs) st))"
    and "cache_ok t" "c \<in> set (copies_of (cs_held t) k)"
  shows "kept_from st t k c"
  using assms(1)
proof
  assume "t = st"
  then show ?thesis using assms(3) by (simp add: kept_from_refl)
next
  assume "\<exists>cs i. map_of (cs_held st) key = Some cs \<and>
      cs_held t = cs_held (set_copies key (remove_nth i cs) st) \<and>
      cs_vary t = cs_vary (set_copies key (remove_nth i cs) st)"
  then show ?thesis using set_copies_kept [OF _ _ _ _ assms(2,3)] remove_nth_kept by blast
qed

lemmas discard_kept = remove_kept [OF discard_contents cache_ok_discard]
lemmas take_stale_kept = remove_kept [OF take_stale_contents cache_ok_take_stale]

lemma lookup_contents:
  assumes "map_of (cs_held st) key = Some cs"
  shows "\<exists>p r ds. find_touch p (cs_clock st) (filter (\<lambda>c. is_fresh now (h_entry c)) cs) = (r, ds) \<and>
    cs_held (snd (lookup now key sf acc st)) = cs_held (set_copies key ds st) \<and>
    cs_vary (snd (lookup now key sf acc st)) = cs_vary (set_copies key ds st)"
proof -
  let ?p = "\<lambda>c. h_signature c = sf (case map_of (cs_vary st) key of None \<Rightarrow> [] | Some v \<Rightarrow> v) \<and> acc (h_entry c)"
  obtain r ds where t: "find_touch ?p (cs_clock st) (filter (\<lambda>c. is_fresh now (h_entry c)) cs) = (r, ds)"
    by (rule prod.exhaust)
  have "cs_held (snd (lookup now key sf acc st)) = cs_held (set_copies key ds st)"
      "cs_vary (snd (lookup now key sf acc st)) = cs_vary (set_copies key ds st)"
    using t by (cases r; simp add: lookup_eq [OF assms] Let_def set_copies_sub_bytes)+
  with t show ?thesis by blast
qed

lemma lookup_kept:
  assumes "cache_ok st" "c \<in> set (copies_of (cs_held (snd (lookup now key sf acc st))) k)"
  shows "kept_from st (snd (lookup now key sf acc st)) k c"
proof (cases "map_of (cs_held st) key")
  case None
  then show ?thesis using assms kept_from_refl [of "snd (lookup now key sf acc st)" st] by (simp add: lookup_def)
next
  case (Some cs)
  let ?fresh = "filter (\<lambda>c. is_fresh now (h_entry c)) cs"
  obtain p r ds where t: "find_touch p (cs_clock st) ?fresh = (r, ds)"
      "cs_held (snd (lookup now key sf acc st)) = cs_held (set_copies key ds st)"
      "cs_vary (snd (lookup now key sf acc st)) = cs_vary (set_copies key ds st)"
    using lookup_contents [OF Some] by blast
  have "\<forall>d \<in> set ds. \<exists>c \<in> set cs. h_signature c = h_signature d \<and> h_entry c = h_entry d \<and> h_identity c = h_identity d"
    using find_touch_mem [OF t(1)] by fastforce
  then show ?thesis using set_copies_kept [OF Some _ t(2,3) cache_ok_lookup [OF assms(1)] assms(2)] by blast
qed

lemma map_of_filter_key: "map_of (filter (\<lambda>(k, _). p k) al) k = (if p k then map_of al k else None)"
  by (induction al) auto

lemma invalidate_contents:
  "copies_of (cs_held (invalidate key st)) k = (if same_uri k key then [] else copies_of (cs_held st) k)"
  "map_of (cs_vary (invalidate key st)) k = (if same_uri k key then None else map_of (cs_vary st) k)"
  by (simp_all add: invalidate_def Let_def copies_of_def map_of_filter_key)

lemma invalidate_kept:
  "c \<in> set (copies_of (cs_held (invalidate key st)) k) \<Longrightarrow> kept_from st (invalidate key st) k c"
  by (auto simp: kept_from_def invalidate_contents split: if_splits)

lemma put_copies:
  assumes ok: "cache_ok st" and put: "put_guarded revision key sg vary e oia st = (b, t)"
    and c: "c \<in> set (copies_of (cs_held t) k)"
  shows "kept_from st t k c \<and> (b \<longrightarrow> k \<noteq> key \<or> h_signature c \<noteq> sg) \<or>
    b \<and> k = key \<and> h_signature c = sg \<and> h_entry c = e \<and> h_identity c = cs_next_identity st \<and>
      map_of (cs_vary t) key = Some vary"
proof (cases rule: put_guarded_cases [of revision key sg vary e oia st])
  case refused
  then show ?thesis using put c kept_from_refl [of t st] by simp
next
  case stored
  let ?w = "weight e key sg vary" and ?d = "drop_other_vary key vary st"
  let ?s = "insert_copy key sg vary e ?w ?d"
  let ?new = "new_copy sg e ?w ?d" and ?old = "copies_of (cs_held ?d) key"
  have b: "b" and t: "t = evict_down_to_budget ?s" using stored(1) put by simp_all
  have ok_t: "cache_ok t" using cache_ok_put [OF ok] put by (metis snd_conv)
  note s = insert_copy_ok [OF ok, of key sg vary e]
  have "held_weight (cs_held ?s) \<le> u64_max" using s(3) stored(2) ok by (simp add: cache_ok_def)
  then obtain rest victims where ev: "candidates ?s = victims @ rest" "mset (all_copies (cs_held t)) = mset rest"
      "map_of (cs_vary t) \<subseteq>\<^sub>m map_of (cs_vary ?s)"
    unfolding t by (rule evict_spec [OF s(1,2)]) blast
  have "(k, c) \<in> set (all_copies (cs_held t))"
    using c all_copies_iff cache_shape_distinct ok_t by (simp add: cache_ok_def)
  then have "(k, c) \<in> set (candidates ?s)" using ev(1) mset_eq_setD [OF ev(2)] by simp
  then have c_s: "c \<in> set (copies_of (cs_held ?s) k)"
    using all_copies_iff cache_shape_distinct [OF s(1)] by (simp add: candidates_def)
  obtain v where "map_of (cs_vary t) k = Some v" using cache_ok_vary [OF ok_t c] by blast
  then have vary: "map_of (cs_vary t) k = (if k = key then Some vary else map_of (cs_vary st) k)"
    using ev(3) by (auto simp: map_le_def dom_def insert_copy_fields update_conv')
  have d: "distinct (map h_signature ?old)"
    using held_ok_copies [OF drop_other_vary_held(1) [OF ok]] by (auto simp: copies_of_def split: option.splits)
  show ?thesis
  proof (cases "k = key \<and> c = ?new")
    case True
    then show ?thesis using b vary by (simp add: new_copy_def)
  next
    case False
    then have old: "c \<in> set (copies_of (cs_held ?d) k)" "k = key \<Longrightarrow> h_signature c \<noteq> sg"
      using c_s with_copy_mem [OF d]
      by (auto simp: insert_copy_fields copies_of_update new_copy_def split: if_splits)
    then have old_st: "c \<in> set (copies_of (cs_held st) k)" "k = key \<Longrightarrow> \<not> other_vary key vary st"
      by (auto simp: drop_other_vary_copies split: if_splits)
    moreover obtain u where "map_of (cs_vary st) k = Some u" using cache_ok_vary [OF ok old_st(1)] by blast
    ultimately show ?thesis using vary old(2) by (auto simp: kept_from_def other_vary_def split: if_splits)
  qed
qed

lemma cache_step_copies:
  assumes "cache_step admitted digest st t" "cache_ok st" "c \<in> set (copies_of (cs_held t) k)"
  shows "kept_from st t k c \<or>
    (\<exists>vary. map_of (cs_vary t) k = Some vary \<and> admitted k (h_signature c) vary (h_entry c)) \<and>
      h_identity c = cs_next_identity st"
  using assms
proof (cases rule: cache_step.cases)
  case (step_put key sg vary e revision oia)
  then show ?thesis using put_copies [OF assms(2) surjective_pairing, of c revision key sg vary e oia k] assms(3) by auto
qed (auto simp: get_matching_def intro: take_stale_kept lookup_kept discard_kept invalidate_kept)

lemma put_fixed:
  assumes "cache_ok st"
  shows "cs_revision (snd (put_guarded revision key sg vary e oia st)) = cs_revision st \<and>
    cs_max_bytes (snd (put_guarded revision key sg vary e oia st)) = cs_max_bytes st"
proof (cases rule: put_guarded_cases [of revision key sg vary e oia st])
  case stored
  let ?s = "insert_copy key sg vary e (weight e key sg vary) (drop_other_vary key vary st)"
  note s = insert_copy_ok [OF assms, of key sg vary e]
  have "held_weight (cs_held ?s) \<le> u64_max" using s(3) stored(2) assms by (simp add: cache_ok_def)
  then have "cs_revision (evict_down_to_budget ?s) = cs_revision ?s \<and>
      cs_max_bytes (evict_down_to_budget ?s) = cs_max_bytes ?s" by (rule evict_spec [OF s(1,2)]) blast
  then show ?thesis by (simp add: stored(1) insert_copy_fields)
qed simp

lemma lookup_fixed [simp]:
  "cs_revision (snd (lookup now key sf acc st)) = cs_revision st"
  "cs_max_bytes (snd (lookup now key sf acc st)) = cs_max_bytes st"
  by (simp_all add: lookup_def Let_def split: option.split prod.split)

lemma take_stale_fixed [simp]:
  "cs_revision (snd (take_stale digest now key h st)) = cs_revision st"
  "cs_max_bytes (snd (take_stale digest now key h st)) = cs_max_bytes st"
  by (simp_all add: take_stale_def Let_def split: option.splits)

lemma discard_fixed:
  "cs_revision st \<le> u64_max \<Longrightarrow> cs_revision st \<le> cs_revision (discard_observed ob st)"
  "cs_max_bytes (discard_observed ob st) = cs_max_bytes st"
  by (simp_all add: discard_observed_def saturating_add_def split: option.splits)

lemma invalidate_fixed:
  "cs_revision (invalidate key st) = saturating_add u64_max (cs_revision st) 1"
  "cs_max_bytes (invalidate key st) = cs_max_bytes st"
  by (simp_all add: invalidate_def Let_def)

lemma cache_step_fixed:
  assumes "cache_step admitted digest st t" "cache_ok st"
  shows "cs_revision st \<le> cs_revision t \<and> cs_max_bytes t = cs_max_bytes st"
proof -
  have "cs_revision st \<le> u64_max" using assms(2) by (simp add: cache_ok_def)
  with assms(1) show ?thesis
  proof (cases rule: cache_step.cases)
    case (step_put key sg vary e revision oia)
    then show ?thesis using put_fixed [OF assms(2)] by simp
  qed (simp_all add: get_matching_def discard_fixed invalidate_fixed saturating_add_def)
qed

lemma cache_run_revision:
  assumes "(cache_step admitted digest)\<^sup>*\<^sup>* st t" "cache_ok st"
  shows "cs_revision st \<le> cs_revision t"
  by (rule caches.relation_run [OF assms]) (use cache_step_fixed in auto)

subsection \<open>Properties\<close>

text \<open>A small response and its key, to instantiate the properties.\<close>

definition sample_key :: cache_key where
  "sample_key = key_new ''GET'' ''http'' ''a'' ''/''"

definition sample_entry :: entry where
  "sample_entry =
     \<lparr>en_status = 200, en_headers = [], en_body = ''x'', en_stored = 0, en_ttl = 5, en_age_on_arrival = 0\<rparr>"

lemma sample_weight: "weight sample_entry sample_key [] [] = 275"
  by (simp add: weight_def sample_key_def sample_entry_def key_new_def Let_def saturating_add_def saturating_mul_def
      u64_max_def)

definition sample_cache :: cache_store where
  "sample_cache = snd (put_guarded 0 sample_key [] [] sample_entry False (cache_store_new 1000))"

lemma sample_put: "put_guarded 0 sample_key [] [] sample_entry False (cache_store_new 1000) = (True, sample_cache)"
  by (simp add: put_guarded_def Let_def cache_store_new_def u64_max_def sample_weight sample_cache_def)

lemma sample_new_ok: "cache_ok (cache_store_new 1000)"
  by (simp add: cache_ok_store_new u64_max_def)

lemma saturating_add_ge: "n \<le> bnd \<Longrightarrow> n \<le> a \<Longrightarrow> n \<le> saturating_add bnd a b"
  by (simp add: saturating_add_def)

lemma weight_at_least: "256 \<le> weight e k sg v"
  unfolding weight_def Let_def by (intro saturating_add_ge order.refl) (simp_all add: u64_max_def)

lemma sum_list_lower: "(\<And>x. x \<in> set xs \<Longrightarrow> n \<le> f x) \<Longrightarrow> n * length xs \<le> sum_list (map f xs)" for n :: nat
  by (induction xs) (auto simp: add_mono)

lemma length_all_copies: "length (all_copies hs) = sum_list (map (\<lambda>(_, cs). length cs) hs)"
  by (induction hs) auto

lemma cache_ok_counts:
  assumes ok: "cache_ok st"
  shows "256 * store_len st \<le> held_weight (cs_held st)" "remembered_resources st \<le> store_len st"
proof -
  let ?hs = "cs_held st"
  have sh: "held_ok ?hs" "distinct (map fst (cs_vary st))" "fst ` set ?hs = fst ` set (cs_vary st)"
    "\<And>k c. c \<in> set (copies_of ?hs k) \<Longrightarrow> copy_ok st k c"
    using ok by (auto simp: cache_ok_def cache_shape_def)
  have "256 \<le> (case x of (_, c) \<Rightarrow> h_weight c)" if x: "x \<in> set (all_copies ?hs)" for x
  proof -
    obtain k c where kc: "x = (k, c)" by (cases x)
    then have "copy_ok st k c" using x all_copies_iff [OF held_ok_distinct [OF sh(1)]] sh(4) by simp
    then show ?thesis using weight_at_least by (auto simp: kc copy_ok_def split: option.splits)
  qed
  from sum_list_lower [OF this, where xs = "all_copies ?hs"]
  show "256 * store_len st \<le> held_weight ?hs"
    by (simp add: held_weight_all_copies copies_weight_def length_all_copies store_len_def)
  have "length (cs_vary st) = length ?hs"
    using sh(2,3) held_ok_distinct [OF sh(1)] by (metis distinct_card length_map set_map)
  moreover have "1 * length ?hs \<le> sum_list (map (\<lambda>(_, cs). length cs) ?hs)"
    by (rule sum_list_lower) (use sh(1) in \<open>force simp: held_ok_def Suc_le_eq\<close>)
  ultimately show "remembered_resources st \<le> store_len st" by (simp add: remembered_resources_def store_len_def)
qed

text \<open>
  C9: The cache's budget: whatever requests do to the shared store, in whatever order, its byte counter
  (a wrapping 64-bit atomic) is the total charge of the copies it holds and never exceeds
  \<open>max-size\<close>. As every copy is charged at least 256 bytes, the number of copies is bounded too, and
  so is the table of \<open>Vary\<close> lists, which the byte budget does not count.
\<close>

theorem cache_budget:
  assumes "(cache_step admitted digest)\<^sup>*\<^sup>* (cache_store_new m) st" and "2 * m \<le> u64_max"
  shows "held_bytes st = copies_weight (all_copies (cs_held st)) \<and> held_bytes st \<le> m \<and>
    256 * store_len st \<le> m \<and> remembered_resources st \<le> store_len st"
proof -
  have ok: "cache_ok st" using caches.inv_run [OF assms(1) cache_ok_store_new [OF assms(2)]] .
  have "cs_max_bytes (cache_store_new m) = cs_max_bytes st"
    by (rule caches.relation_run [OF assms(1) cache_ok_store_new [OF assms(2)]]) (use cache_step_fixed in auto)
  then have "cs_max_bytes st = m" by (simp add: cache_store_new_def)
  moreover have "held_bytes st = held_weight (cs_held st)"
  proof -
    have "held_weight (cs_held st) \<le> u64_max" using ok by (simp add: cache_ok_def)
    then show ?thesis using ok
      by (simp add: held_bytes_def cache_ok_def accounted_def unat_of_nat u64_max_def take_bit_nat_eq_self)
  qed
  ultimately show ?thesis using ok cache_ok_counts [OF ok] by (simp add: cache_ok_def held_weight_all_copies)
qed

theorem cache_budget_witness: "held_bytes sample_cache \<le> 1000"
proof -
  have run: "(cache_step (\<lambda>_ _ _ _. True) (\<lambda>x. x))\<^sup>*\<^sup>* (cache_store_new 1000) sample_cache"
    unfolding sample_cache_def by (rule r_into_rtranclp) (rule step_put, rule TrueI)
  show ?thesis using cache_budget [OF run] by (simp add: u64_max_def)
qed

text \<open>
  Eviction is least-recently-used and no more than needed: the copies a successful insertion throws
  away were all used no later than any that stay, and keeping just the last of them would have left
  the store over its budget.
\<close>

theorem cache_evicts_oldest:
  assumes ok: "cache_ok st" and put: "put_guarded revision key sg vary e oia st = (True, t)"
  shows "\<exists>victims.
    mset victims + mset (all_copies (cs_held t)) =
      mset (all_copies (cs_held (insert_copy key sg vary e (weight e key sg vary) (drop_other_vary key vary st)))) \<and>
    (\<forall>(k, c) \<in> set victims. \<forall>(k', c') \<in> set (all_copies (cs_held t)). h_used c \<le> h_used c') \<and>
    (victims = [] \<or> cs_max_bytes st < copies_weight (all_copies (cs_held t)) + h_weight (snd (last victims)))"
proof (cases rule: put_guarded_cases [of revision key sg vary e oia st])
  case refused
  then show ?thesis using put by simp
next
  case stored
  let ?s = "insert_copy key sg vary e (weight e key sg vary) (drop_other_vary key vary st)"
  have t: "t = evict_down_to_budget ?s" using stored(1) put by simp
  note s = insert_copy_ok [OF ok, of key sg vary e]
  have "held_weight (cs_held ?s) \<le> u64_max" using s(3) stored(2) ok by (simp add: cache_ok_def)
  then obtain victims rest where ev: "candidates ?s = victims @ rest" "mset (all_copies (cs_held t)) = mset rest"
      "victims \<noteq> [] \<Longrightarrow> cs_max_bytes ?s < copies_weight rest + h_weight (snd (last victims))"
    unfolding t by (rule evict_spec [OF s(1,2)]) blast
  have "mset victims + mset (all_copies (cs_held t)) = mset (all_copies (cs_held ?s))"
    unfolding ev(2) using arg_cong [OF ev(1), of mset] by (simp add: candidates_def)
  moreover have "sorted (map (\<lambda>(_, c). h_used c) (victims @ rest))"
    unfolding ev(1) [symmetric] by (simp add: candidates_def)
  then have "\<forall>(k, c) \<in> set victims. \<forall>(k', c') \<in> set (all_copies (cs_held t)). h_used c \<le> h_used c'"
    using mset_eq_setD [OF ev(2)] by (fastforce simp: sorted_append)
  moreover have "victims = [] \<or>
      cs_max_bytes st < copies_weight (all_copies (cs_held t)) + h_weight (snd (last victims))"
    using ev(3) copies_weight_mset [OF ev(2)] by (auto simp: insert_copy_fields)
  ultimately show ?thesis by blast
qed

theorem cache_evicts_oldest_witness:
  "\<exists>victims. mset victims + mset (all_copies (cs_held sample_cache)) =
    mset (all_copies (cs_held (insert_copy sample_key [] [] sample_entry (weight sample_entry sample_key [] [])
      (drop_other_vary sample_key [] (cache_store_new 1000)))))"
  using cache_evicts_oldest [OF sample_new_ok sample_put] by blast

text \<open>In a sorted list, the only greatest element is the last one.\<close>

lemma sorted_greatest_last:
  assumes "sorted (map f (xs @ ys))" "x \<in> set xs" "x \<notin> set ys"
    and "\<And>y. y \<in> set (xs @ ys) \<Longrightarrow> y = x \<or> f y < f x"
  shows "ys = []" "last xs = x"
proof -
  have "f x \<le> f y" if "y \<in> set ys" for y using assms(1,2) that by (auto simp: sorted_append)
  then have "y \<notin> set ys" for y using assms(3) assms(4) [of y] by (metis Un_iff leD set_append)
  then show "ys = []" by (cases ys) auto
  obtain us z where us: "xs = us @ [z]" using assms(2) by (cases xs rule: rev_cases) auto
  have "f x \<le> f z" using assms(1,2) us by (auto simp: sorted_append)
  then show "last xs = x" using assms(4) [of z] us by (simp add: leD)
qed

lemma new_copy_survives:
  assumes ok: "cache_ok st" and put: "put_guarded revision key sg vary e oia st = (True, t)"
    and stamps: "\<forall>(k, c) \<in> set (all_copies (cs_held st)). h_used c < cs_clock st"
  shows "\<exists>c \<in> set (copies_of (cs_held t) key). h_signature c = sg \<and> h_entry c = e"
proof (cases rule: put_guarded_cases [of revision key sg vary e oia st])
  case refused
  then show ?thesis using put by simp
next
  case stored
  let ?w = "weight e key sg vary" and ?d = "drop_other_vary key vary st"
  let ?s = "insert_copy key sg vary e ?w ?d" and ?new = "new_copy sg e ?w ?d"
  have t: "t = evict_down_to_budget ?s" using stored(1) put by simp
  have ok_t: "cache_ok t" using cache_ok_put [OF ok] put by (metis snd_conv)
  note s = insert_copy_ok [OF ok, of key sg vary e]
  note dist = all_copies_iff [OF cache_shape_distinct]
  have "held_weight (cs_held ?s) \<le> u64_max" using s(3) stored(2) ok by (simp add: cache_ok_def)
  then obtain victims rest where ev: "candidates ?s = victims @ rest" "mset (all_copies (cs_held t)) = mset rest"
      "victims \<noteq> [] \<Longrightarrow> cs_max_bytes ?s < copies_weight rest + h_weight (snd (last victims))"
    unfolding t by (rule evict_spec [OF s(1,2)]) blast
  have d: "distinct (map h_signature (copies_of (cs_held ?d) key))"
    using held_ok_copies [OF drop_other_vary_held(1) [OF ok]] by (auto simp: copies_of_def split: option.splits)
  have newest: "(k, c) = (key, ?new) \<or> h_used c < cs_clock st" if kc: "(k, c) \<in> set (candidates ?s)" for k c
  proof -
    have "c \<in> set (copies_of (cs_held ?s) k)" using kc dist [OF s(1)] by (simp add: candidates_def)
    then have "k = key \<and> c = ?new \<or> c \<in> set (copies_of (cs_held st) k)"
      using with_copy_mem [OF d] by (auto simp: insert_copy_fields copies_of_update drop_other_vary_copies split: if_splits)
    then show ?thesis using stamps dist [of st] ok by (auto simp: cache_ok_def)
  qed
  have new: "(key, ?new) \<in> set (candidates ?s)"
    using dist [OF s(1)] with_copy_mem [OF d] by (simp add: candidates_def insert_copy_fields copies_of_update)
  have "(key, ?new) \<in> set rest"
  proof (rule ccontr)
    assume notin: "(key, ?new) \<notin> set rest"
    then have v: "(key, ?new) \<in> set victims" using new ev(1) by auto
    have sorted: "sorted (map (\<lambda>(_, c). h_used c) (victims @ rest))"
      unfolding ev(1) [symmetric] by (simp add: candidates_def)
    have greatest: "y = (key, ?new) \<or> (case y of (_, c) \<Rightarrow> h_used c) < (case (key, ?new) of (_, c) \<Rightarrow> h_used c)"
      if "y \<in> set (victims @ rest)" for y
      using newest [of "fst y" "snd y"] that ev(1) by (cases y) (simp add: new_copy_def)
    have "rest = []" "last victims = (key, ?new)"
      using sorted_greatest_last [OF sorted v notin greatest] by simp_all
    then have "cs_max_bytes st < ?w" using ev(3) length_pos_if_in_set [OF v] by (simp add: insert_copy_fields new_copy_def)
    then show False using stored(2) by simp
  qed
  then have "(key, ?new) \<in> set (all_copies (cs_held t))" using mset_eq_setD [OF ev(2)] by simp
  then have "?new \<in> set (copies_of (cs_held t) key)" using dist [of t] ok_t by (simp add: cache_ok_def)
  then show ?thesis by (force simp: new_copy_def)
qed

text \<open>
  What is stored is found: a response the store accepted is the answer to the next request with the
  same key and the same values of the headers it varies on, as long as it is fresh and acceptable. It
  is never the copy its own insertion evicts.
\<close>

theorem put_then_get:
  assumes ok: "cache_ok st"
    and put: "put_guarded revision key (signature digest headers vary) vary e oia st = (True, t)"
    and stamps: "\<forall>(k, c) \<in> set (all_copies (cs_held st)). h_used c < cs_clock st"
    and fresh: "is_fresh now e" and acc: "accepts e"
  shows "fst (get_matching digest now key headers accepts t) = Some e"
proof -
  let ?sg = "signature digest headers vary"
  obtain c where c: "c \<in> set (copies_of (cs_held t) key)" "h_signature c = ?sg" "h_entry c = e"
    using new_copy_survives [OF ok put stamps] by blast
  then obtain cs where cs: "map_of (cs_held t) key = Some cs" "c \<in> set cs"
    by (cases "map_of (cs_held t) key") (auto simp: copies_of_def)
  have only: "h_entry d = e" if "d \<in> set cs" "h_signature d = ?sg" for d
    using put_copies [OF ok put, of d key] that by (auto simp: copies_of_SomeI [OF cs(1)])
  have vary: "map_of (cs_vary t) key = Some vary"
    using put_copies [OF ok put c(1)] c(2) by auto
  let ?p = "\<lambda>d. h_signature d = ?sg \<and> accepts (h_entry d)"
  let ?fresh = "filter (\<lambda>d. is_fresh now (h_entry d)) cs"
  obtain r ds where ft: "find_touch ?p (cs_clock t) ?fresh = (r, ds)" by (rule prod.exhaust)
  have "r \<noteq> None" using find_touch_None [of ?p "cs_clock t" ?fresh ds] ft c cs(2) fresh acc by auto
  then obtain x where r: "r = Some x" by blast
  then have "x = e" using find_touch_Some [of ?p "cs_clock t" ?fresh x ds] ft only by auto
  then show ?thesis using ft r by (simp add: get_matching_def lookup_eq [OF cs(1)] vary Let_def)
qed

theorem put_then_get_witness:
  "fst (get_matching (\<lambda>x. x) 2 sample_key [] (\<lambda>_. True) sample_cache) = Some sample_entry"
proof -
  have put: "put_guarded 0 sample_key (signature (\<lambda>x. x) [] []) [] sample_entry False (cache_store_new 1000) =
      (True, sample_cache)"
    by (simp add: signature_def sample_put)
  show ?thesis
    by (rule put_then_get [OF sample_new_ok put])
      (simp_all add: cache_store_new_def sample_entry_def is_fresh_def current_age_def en_age_def saturating_add_def
        duration_max_def u64_max_def)
qed

text \<open>
  C10: Invalidation fences fills: a response whose fetch began (and so read the store's revision) before a
  successful unsafe request invalidated some URI is never stored afterwards, whatever happens in
  between, so an old representation cannot come back. The saturating 64-bit revision is no way around
  it: at its last value nothing is stored any more.
\<close>

theorem invalidate_fences_fills:
  assumes ok: "cache_ok st" and read: "revision \<le> cs_revision st"
    and run: "(cache_step admitted digest)\<^sup>*\<^sup>* (invalidate key st) t"
  shows "put_guarded revision key' sg vary e oia t = (False, t)"
proof -
  have ok': "cache_ok (invalidate key st)" using cache_ok_invalidate [OF ok] .
  have "saturating_add u64_max (cs_revision st) 1 \<le> cs_revision t"
    using cache_run_revision [OF run ok'] by (simp add: invalidate_fixed)
  moreover have "cs_revision t \<le> u64_max" using caches.inv_run [OF run ok'] by (simp add: cache_ok_def)
  moreover have "cs_revision st \<le> u64_max" using ok by (simp add: cache_ok_def)
  ultimately have "cs_revision t \<noteq> revision \<or> revision = u64_max"
    using read by (auto simp: saturating_add_def min_def split: if_splits)
  then show ?thesis by (auto simp: put_guarded_def Let_def)
qed

theorem invalidate_fences_fills_witness:
  "put_guarded 0 sample_key [] [] sample_entry False (invalidate sample_key (cache_store_new 1000)) =
   (False, invalidate sample_key (cache_store_new 1000))"
  by (rule invalidate_fences_fills
      [OF sample_new_ok _ rtranclp.rtrancl_refl [of "cache_step (\<lambda>_ _ _ _. True) (\<lambda>x. x)"]])
    (simp add: cache_store_new_def)

text \<open>Identities are never reused, so a copy found later is an old one or was stored since.\<close>

lemma put_next_identity:
  assumes "cache_ok st"
  shows "cs_next_identity (snd (put_guarded revision key sg vary e oia st)) =
    cs_next_identity st + (if fst (put_guarded revision key sg vary e oia st) then 1 else 0)"
proof (cases rule: put_guarded_cases [of revision key sg vary e oia st])
  case stored
  let ?s = "insert_copy key sg vary e (weight e key sg vary) (drop_other_vary key vary st)"
  note s = insert_copy_ok [OF assms, of key sg vary e]
  have "held_weight (cs_held ?s) \<le> u64_max" using s(3) stored(2) assms by (simp add: cache_ok_def)
  then have "cs_next_identity (evict_down_to_budget ?s) = cs_next_identity ?s" by (rule evict_spec [OF s(1,2)]) blast
  then show ?thesis by (simp add: stored(1) insert_copy_fields)
qed simp

lemma cache_step_next_identity:
  assumes "cache_step admitted digest st t" "cache_ok st"
  shows "cs_next_identity st \<le> cs_next_identity t"
  using assms(1)
proof (cases rule: cache_step.cases)
  case (step_put key sg vary e revision oia)
  then show ?thesis using put_next_identity [OF assms(2)] by simp
next
  case (step_get now key headers accepts)
  then show ?thesis by (simp add: get_matching_def lookup_def Let_def split: option.split prod.split)
qed (simp_all add: take_stale_def discard_observed_def invalidate_def Let_def split: option.split)

definition later_copies :: "cache_store \<Rightarrow> cache_store \<Rightarrow> bool" where
  "later_copies s t \<longleftrightarrow> cs_next_identity s \<le> cs_next_identity t \<and>
     (\<forall>k. \<forall>c \<in> set (copies_of (cs_held t) k).
        cs_next_identity s \<le> h_identity c \<or>
        (\<exists>c' \<in> set (copies_of (cs_held s) k). h_signature c' = h_signature c \<and> h_identity c' = h_identity c))"

lemma later_copies_refl: "later_copies s s"
  by (auto simp: later_copies_def)

lemma later_copies_trans: "later_copies a b \<Longrightarrow> later_copies b c \<Longrightarrow> later_copies a c"
  unfolding later_copies_def by (metis order.trans)

lemma cache_step_later: "cache_ok s \<Longrightarrow> cache_step admitted digest s t \<Longrightarrow> later_copies s t"
  using cache_step_next_identity [of admitted digest s t] cache_step_copies [of admitted digest s t]
  unfolding later_copies_def kept_from_def by (metis order.refl)

lemma cache_run_later: "(cache_step admitted digest)\<^sup>*\<^sup>* s t \<Longrightarrow> cache_ok s \<Longrightarrow> later_copies s t"
  by (rule caches.relation_run) (auto intro: later_copies_refl later_copies_trans cache_step_later)

lemma position_None: "position p xs = None \<longleftrightarrow> (\<forall>x \<in> set xs. \<not> p x)"
  by (induction xs) auto

lemma identity_fresh: "cache_ok st \<Longrightarrow> c \<in> set (copies_of (cs_held st) k) \<Longrightarrow> h_identity c < cs_next_identity st"
  unfolding cache_ok_def cache_shape_def copy_ok_def by blast

lemma store_observe_Some:
  assumes "store_observe digest key headers st = Some ob"
  shows "ob_key ob = key \<and> (\<exists>c \<in> set (copies_of (cs_held st) key).
    h_signature c = ob_signature ob \<and> h_identity c = ob_identity ob)"
  using assms nth_mem
  by (fastforce simp: store_observe_def copies_of_def Let_def find_Some_iff split: option.splits)

text \<open>
  Retirement is by identity: a request that observed a copy before calling the origin and retires it
  afterwards does nothing when the copy was replaced meanwhile, whatever else happened to the store.
  A concurrent replacement is never discarded in its place.
\<close>

theorem discard_spares_replacement:
  assumes ok: "cache_ok st" and ob: "store_observe digest key headers st = Some ob"
    and put: "put_guarded revision key (ob_signature ob) vary e oia st = (True, s)"
    and run: "(cache_step admitted digest')\<^sup>*\<^sup>* s t"
  shows "discard_observed ob t = t"
proof -
  have id: "ob_key ob = key" "ob_identity ob < cs_next_identity st"
    using store_observe_Some [OF ob] by (auto dest: identity_fresh [OF ok])
  have ok_s: "cache_ok s" using cache_ok_put [OF ok] put by (metis snd_conv)
  have next_s: "cs_next_identity s = cs_next_identity st + 1"
    using put_next_identity [OF ok, of revision key "ob_signature ob" vary e oia] by (simp add: put)
  have "h_identity d \<noteq> ob_identity ob" if d: "d \<in> set (copies_of (cs_held t) key)" "h_signature d = ob_signature ob" for d
  proof
    assume eq: "h_identity d = ob_identity ob"
    then have "\<not> cs_next_identity s \<le> h_identity d" using next_s id(2) by simp
    then obtain d' where d': "d' \<in> set (copies_of (cs_held s) key)" "h_signature d' = ob_signature ob"
        "h_identity d' = ob_identity ob"
      using cache_run_later [OF run ok_s] d eq unfolding later_copies_def by metis
    then have "h_identity d' = cs_next_identity st" using put_copies [OF ok put d'(1)] by blast
    then show False using d'(3) id(2) by simp
  qed
  then have "position (\<lambda>c. h_signature c = ob_signature ob \<and> h_identity c = ob_identity ob)
      (copies_of (cs_held t) key) = None" by (auto simp: position_None)
  then show ?thesis
    by (simp add: discard_observed_def id(1) copies_of_def split: option.splits)
qed

theorem discard_spares_replacement_witness:
  "discard_observed \<lparr>ob_key = sample_key, ob_signature = [], ob_identity = 0\<rparr>
     (snd (put_guarded 0 sample_key [] [] sample_entry False sample_cache)) =
   snd (put_guarded 0 sample_key [] [] sample_entry False sample_cache)"
proof -
  have st: "cs_held sample_cache = [(sample_key, [new_copy [] sample_entry 275 (cache_store_new 1000)])]"
      "cs_vary sample_cache = [(sample_key, [])]" "cs_revision sample_cache = 0" "cs_max_bytes sample_cache = 1000"
    by (simp_all add: sample_cache_def put_guarded_def Let_def sample_weight u64_max_def cache_store_new_def insert_copy_def
        drop_other_vary_def other_vary_def new_copy_def evict_down_to_budget_def)
  have ok: "cache_ok sample_cache" using cache_ok_put [OF sample_new_ok] by (simp add: sample_cache_def)
  have ob: "store_observe (\<lambda>x. x) sample_key [] sample_cache =
      Some \<lparr>ob_key = sample_key, ob_signature = [], ob_identity = 0\<rparr>"
    by (simp add: store_observe_def st signature_def new_copy_def cache_store_new_def)
  have "put_guarded 0 sample_key (ob_signature \<lparr>ob_key = sample_key, ob_signature = [], ob_identity = 0\<rparr>) []
      sample_entry False sample_cache = (True, snd (put_guarded 0 sample_key [] [] sample_entry False sample_cache))"
    by (simp add: put_guarded_def Let_def sample_weight st u64_max_def)
  from discard_spares_replacement [OF ok ob this
      rtranclp.rtrancl_refl [of "cache_step (\<lambda>_ _ _ _. True) (\<lambda>x. x)"]]
  show ?thesis .
qed

subsection \<open>Provenance\<close>

definition copies_admitted ::
  "(cache_key \<Rightarrow> bytes \<Rightarrow> bytes list \<Rightarrow> entry \<Rightarrow> bool) \<Rightarrow> cache_store \<Rightarrow> bool" where
  "copies_admitted admitted st \<longleftrightarrow>
     (\<forall>k. \<forall>c \<in> set (copies_of (cs_held st) k).
        \<exists>vary. map_of (cs_vary st) k = Some vary \<and> admitted k (h_signature c) vary (h_entry c))"

interpretation provenance: invariant_system "cache_step admitted digest"
    "\<lambda>st. cache_ok st \<and> copies_admitted admitted st" for admitted digest
proof unfold_locales
  fix s t assume s: "cache_ok s \<and> copies_admitted admitted s" and st: "cache_step admitted digest s t"
  have "copies_admitted admitted t" unfolding copies_admitted_def
    using cache_step_copies [OF st] s unfolding copies_admitted_def kept_from_def by metis
  then show "cache_ok t \<and> copies_admitted admitted t" using cache_step_ok [OF st] s by simp
qed

lemma lookup_Some:
  assumes "fst (lookup now key sf accepts st) = Some e"
  shows "\<exists>c \<in> set (copies_of (cs_held st) key). h_entry c = e \<and> is_fresh now e \<and> accepts e \<and>
    h_signature c = sf (case map_of (cs_vary st) key of Some v \<Rightarrow> v | None \<Rightarrow> [])"
proof (cases "map_of (cs_held st) key")
  case None
  then show ?thesis using assms by (simp add: lookup_def)
next
  case (Some cs)
  let ?p = "\<lambda>c. h_signature c = sf (case map_of (cs_vary st) key of None \<Rightarrow> [] | Some v \<Rightarrow> v) \<and> accepts (h_entry c)"
  let ?fresh = "filter (\<lambda>c. is_fresh now (h_entry c)) cs"
  obtain r ds where t: "find_touch ?p (cs_clock st) ?fresh = (r, ds)" by (rule prod.exhaust)
  have "r = Some e" using assms t by (simp add: lookup_eq [OF Some] Let_def)
  then show ?thesis using find_touch_Some [of ?p "cs_clock st" ?fresh e ds] t
    by (auto simp: copies_of_SomeI [OF Some])
qed

lemma get_admitted:
  assumes "(cache_step admitted digest)\<^sup>*\<^sup>* (cache_store_new m) st" "2 * m \<le> u64_max"
    and "fst (get_matching digest now key headers accepts st) = Some e"
  shows "is_fresh now e \<and> accepts e \<and> (\<exists>vary. admitted key (signature digest headers vary) vary e)"
proof -
  have "copies_admitted admitted (cache_store_new m)" by (simp add: copies_admitted_def cache_store_new_def copies_of_def)
  then have "copies_admitted admitted st"
    using provenance.inv_run [OF assms(1)] cache_ok_store_new [OF assms(2)] by simp
  then show ?thesis using lookup_Some [OF assms(3) [unfolded get_matching_def]]
    by (fastforce simp: copies_admitted_def)
qed

end
