(* ===== verification/Cache_Policy.thy ===== *)
theory Cache_Policy
  imports Cache_Store
begin

text \<open>
  What the \<open>cache\<close> directive may store and serve, and for how long
  (\<open>gatel-bundle-std/src/cache/\<close>: \<open>control.rs\<close>, \<open>age.rs\<close>, \<open>policy.rs\<close>, \<open>conditional.rs\<close>,
  \<open>revalidate.rs\<close>). Durations are nanoseconds; the wall clock is an argument. A response body is kept
  abstract enough to say what is replayed: a body in memory or the frames a stream will yield.
\<close>

subsection \<open>\<open>control.rs\<close>\<close>

type_synonym control = "(bytes \<times> bytes option) list"

text \<open>The text between the quotes of a quoted string, with its escapes undone.\<close>

fun unquote :: "bytes \<Rightarrow> bool \<Rightarrow> bytes \<Rightarrow> unit + bytes" where
  "unquote decoded escaped [] = (if escaped then Inl () else Inr decoded)"
| "unquote decoded escaped (c # cs) =
     (if escaped then unquote (decoded @ [c]) False cs
      else if c = CHR 0x5C then unquote decoded True cs
      else if c = CHR 0x22 then Inl ()
      else unquote (decoded @ [c]) False cs)"

definition parse_value :: "http_crate \<Rightarrow> bytes \<Rightarrow> unit + bytes" where
  "parse_value http v =
     (case (case strip_prefix [CHR 0x22] v of None \<Rightarrow> None | Some r \<Rightarrow> strip_suffix [CHR 0x22] r) of
        Some inner \<Rightarrow> unquote [] False inner
      | None \<Rightarrow> if name_valid http v then Inr v else Inl ())"

definition control_contains :: "control \<Rightarrow> bytes \<Rightarrow> bool" where
  "control_contains es name \<longleftrightarrow> list_ex (\<lambda>(key, _). key = name) es"

definition control_seconds :: "control \<Rightarrow> bytes \<Rightarrow> unit + nat option" where
  "control_seconds es name =
     (case find (\<lambda>(key, _). key = name) es of
        None \<Rightarrow> Inr None
      | Some (_, None) \<Rightarrow> Inl ()
      | Some (_, Some v) \<Rightarrow>
          if v = [] \<or> \<not> list_all is_ascii_digit v then Inl ()
          else (case parse_unsigned u64_max v of Some n \<Rightarrow> Inr (Some n) | None \<Rightarrow> Inl ()))"

text \<open>One comma-separated element: skipped when empty, refused when malformed or repeated.\<close>

definition control_entry :: "http_crate \<Rightarrow> control \<Rightarrow> bytes \<Rightarrow> unit + control" where
  "control_entry http es piece =
     (let e = trim piece in
      if e = [] then Inr es
      else
        and_then
          (case split_once (CHR ''='') e of
             Some (name, v) \<Rightarrow> and_then (parse_value http (trim v)) (\<lambda>x. Inr (trim name, Some x))
           | None \<Rightarrow> Inr (e, None))
          (\<lambda>(name, v).
             if \<not> name_valid http name then Inl ()
             else
               (let name = to_ascii_lowercase name in
                if control_contains es name then Inl () else Inr (es @ [(name, v)]))))"

fun control_scan :: "http_crate \<Rightarrow> bytes \<Rightarrow> bool \<Rightarrow> bool \<Rightarrow> control \<Rightarrow> bytes \<Rightarrow> unit + control" where
  "control_scan http piece quoted escaped es [] = (if quoted \<or> escaped then Inl () else Inr es)"
| "control_scan http piece quoted escaped es (c # cs) =
     (if escaped then control_scan http (piece @ [c]) quoted False es cs
      else if quoted \<and> c = CHR 0x5C then control_scan http (piece @ [c]) quoted True es cs
      else if c = CHR 0x22 then control_scan http (piece @ [c]) (\<not> quoted) False es cs
      else if c = CHR '','' \<and> \<not> quoted then
        and_then (control_entry http es piece) (\<lambda>es. control_scan http [] quoted False es cs)
      else control_scan http (piece @ [c]) quoted False es cs)"

fun control_lines :: "http_crate \<Rightarrow> control \<Rightarrow> bytes list \<Rightarrow> unit + control" where
  "control_lines http es [] = Inr es"
| "control_lines http es (v # vs) =
     (case value_str http v of
        None \<Rightarrow> Inl ()
      | Some text \<Rightarrow>
          and_then (control_scan http [] False False es (text @ [CHR '','']))
            (\<lambda>es. control_lines http es vs))"

definition control_parse :: "http_crate \<Rightarrow> header_map \<Rightarrow> unit + control" where
  "control_parse http headers =
     and_then (control_lines http [] (get_all ''cache-control'' headers)) (\<lambda>es.
       if list_all (\<lambda>name. \<not> isl (control_seconds es name)) [''max-age'', ''s-maxage'', ''min-fresh''] then Inr es
       else Inl ())"

subsection \<open>\<open>age.rs\<close>\<close>

abbreviation second :: nat where
  "second \<equiv> 1000000000"

text \<open>\<open>received\<close> and \<open>delay\<close> are in nanoseconds, \<open>received\<close> since the epoch.\<close>

definition initial_age :: "http_crate \<Rightarrow> header_map \<Rightarrow> nat \<Rightarrow> nat \<Rightarrow> nat option" where
  "initial_age http headers received delay =
     (let age =
        (case get_all ''age'' headers of
           [] \<Rightarrow> Some 0
         | v # others \<Rightarrow>
             (case map_option trim (value_str http v) of
                None \<Rightarrow> None
              | Some text \<Rightarrow>
                  if text = [] \<or> \<not> list_all is_ascii_digit text \<or> others \<noteq> [] then None
                  else Some ((case parse_unsigned u64_max text of Some n \<Rightarrow> n | None \<Rightarrow> u64_max) * second)));
      apparent =
        (case get_all ''date'' headers of
           [] \<Rightarrow> Some 0
         | v # others \<Rightarrow>
             (case value_str http v of
                None \<Rightarrow> None
              | Some text \<Rightarrow>
                  (case parse_date http text of
                     None \<Rightarrow> None
                   | Some d \<Rightarrow> if others = [] then Some (received - d * second) else None))) in
      case (age, apparent) of
        (Some a, Some p) \<Rightarrow> Some (max p (saturating_add duration_max a delay))
      | _ \<Rightarrow> None)"

subsection \<open>\<open>policy.rs\<close>\<close>

definition cacheable :: "nat list" where
  "cacheable = [200, 203, 204, 300, 301, 308, 404, 405, 410, 414, 501]"

datatype refusal =
    Method | ClientSaidNo | Status | ResponseSaidNo | SetsACookie | Authorised | VariesOnEverything
  | NoFreshness | TooLarge

fun refusal_str :: "refusal \<Rightarrow> bytes" where
  "refusal_str Method = ''method''"
| "refusal_str ClientSaidNo = ''request-no-store''"
| "refusal_str Status = ''status''"
| "refusal_str ResponseSaidNo = ''response-no-store''"
| "refusal_str SetsACookie = ''set-cookie''"
| "refusal_str Authorised = ''authorized''"
| "refusal_str VariesOnEverything = ''vary-star''"
| "refusal_str NoFreshness = ''no-freshness''"
| "refusal_str TooLarge = ''too-large''"

record request =
  rq_method :: bytes
  rq_headers :: header_map

datatype frame = Data bytes | Trailers header_map | Failed bytes

text \<open>
  A response body: absent, in memory, or a stream with its size hint (lower bound, exact size when
  known) and the frames it will yield.
\<close>

datatype body = NoBody | Once bytes | Streamed nat "nat option" "frame list"

record response =
  rs_status :: "nat option"
  rs_headers :: header_map
  rs_body :: body

definition status_of :: "response \<Rightarrow> nat" where
  "status_of rs = (case rs_status rs of Some s \<Rightarrow> s | None \<Rightarrow> 200)"

definition only_if_cached :: "http_crate \<Rightarrow> request \<Rightarrow> bool" where
  "only_if_cached http rq =
     (case control_parse http (rq_headers rq) of Inl _ \<Rightarrow> False | Inr es \<Rightarrow> control_contains es ''only-if-cached'')"

definition request_is_cacheable :: "http_crate \<Rightarrow> request \<Rightarrow> refusal + unit" where
  "request_is_cacheable http rq =
     (if rq_method rq \<noteq> ''GET'' \<and> rq_method rq \<noteq> ''HEAD'' then Inl Method
      else
        (case control_parse http (rq_headers rq) of
           Inl _ \<Rightarrow> Inl ClientSaidNo
         | Inr es \<Rightarrow> if control_contains es ''no-store'' then Inl ClientSaidNo else Inr ()))"

definition may_serve_from_cache :: "http_crate \<Rightarrow> request \<Rightarrow> bool" where
  "may_serve_from_cache http rq =
     (case control_parse http (rq_headers rq) of
        Inl _ \<Rightarrow> False
      | Inr es \<Rightarrow> \<not> control_contains es ''no-cache'' \<and> control_seconds es ''max-age'' \<noteq> Inr (Some 0))"

text \<open>\<open>Result::ok().flatten()\<close>.\<close>

definition flat :: "unit + nat option \<Rightarrow> nat option" where
  "flat r = (case r of Inl _ \<Rightarrow> None | Inr x \<Rightarrow> x)"

definition entry_satisfies_request :: "http_crate \<Rightarrow> nat \<Rightarrow> request \<Rightarrow> entry \<Rightarrow> bool" where
  "entry_satisfies_request http now rq e =
     (case control_parse http (rq_headers rq) of
        Inl _ \<Rightarrow> False
      | Inr es \<Rightarrow>
          (let age = current_age now e in
           (case control_seconds es ''max-age'' of
              Inr (Some m) \<Rightarrow> age \<le> m * second
            | _ \<Rightarrow> True) \<and>
           (let least = (case flat (control_seconds es ''min-fresh'') of Some n \<Rightarrow> n | None \<Rightarrow> 0) in
            saturating_add duration_max age (least * second) < en_ttl e)))"

definition header_text :: "http_crate \<Rightarrow> header_map \<Rightarrow> bytes \<Rightarrow> bytes option" where
  "header_text http headers name =
     (case get_header name headers of None \<Rightarrow> None | Some v \<Rightarrow> value_str http v)"

definition http_date :: "http_crate \<Rightarrow> bytes option \<Rightarrow> nat option" where
  "http_date http text = (case text of None \<Rightarrow> None | Some t \<Rightarrow> parse_date http t)"

text \<open>\<open>wall\<close> is the current time in seconds since the epoch.\<close>

definition expires_in :: "http_crate \<Rightarrow> nat \<Rightarrow> header_map \<Rightarrow> nat option" where
  "expires_in http wall headers =
     (case http_date http (header_text http headers ''expires'') of
        None \<Rightarrow> None
      | Some expires \<Rightarrow>
          (let date = (case http_date http (header_text http headers ''date'') of Some d \<Rightarrow> d | None \<Rightarrow> wall) in
           Some ((expires - date) * second)))"

definition freshness ::
  "http_crate \<Rightarrow> nat \<Rightarrow> request \<Rightarrow> response \<Rightarrow> nat option \<Rightarrow> refusal + nat" where
  "freshness http wall rq rs default_ttl =
     (if status_of rs \<notin> set cacheable then Inl Status
      else
        (case control_parse http (rs_headers rs) of
           Inl _ \<Rightarrow> Inl ResponseSaidNo
         | Inr es \<Rightarrow>
             if list_ex (control_contains es) [''no-store'', ''private'', ''no-cache''] then Inl ResponseSaidNo
             else if contains_key ''set-cookie'' (rs_headers rs) then Inl SetsACookie
             else if list_ex (\<lambda>name. name = ''*'') (vary_names http (rs_headers rs)) then Inl VariesOnEverything
             else if contains_key ''authorization'' (rq_headers rq) \<and> \<not> control_contains es ''public'' \<and>
               flat (control_seconds es ''s-maxage'') = None then Inl Authorised
             else
               (case (case flat (control_seconds es ''s-maxage'') of
                        Some n \<Rightarrow> Some n
                      | None \<Rightarrow> flat (control_seconds es ''max-age'')) of
                  Some n \<Rightarrow> if n = 0 then Inl NoFreshness else Inr (n * second)
                | None \<Rightarrow>
                    (case expires_in http wall (rs_headers rs) of
                       Some lifetime \<Rightarrow> if lifetime = 0 then Inl NoFreshness else Inr lifetime
                     | None \<Rightarrow> ok_or NoFreshness default_ttl))))"

definition vary_on :: "http_crate \<Rightarrow> response \<Rightarrow> bytes list" where
  "vary_on http rs = vary_names http (rs_headers rs)"

subsection \<open>\<open>conditional.rs\<close>\<close>

datatype decision = Body | NotModified | Forward

definition conditional_evaluate :: "http_crate \<Rightarrow> header_map \<Rightarrow> entry \<Rightarrow> decision" where
  "conditional_evaluate http headers e =
     (if list_ex (\<lambda>name. contains_key name headers)
          [''if-match'', ''if-unmodified-since'', ''range'', ''if-range''] then Forward
      else if contains_key ''if-none-match'' headers then
        (if en_status e \<noteq> 200 then Forward
         else
           (case get_all ''etag'' (en_headers e) of
              tags \<Rightarrow>
                (let t = (case tags of [] \<Rightarrow> None | v # _ \<Rightarrow> Some v) in
                 if length tags > 1 \<or> (case t of None \<Rightarrow> False | Some v \<Rightarrow> \<not> valid_tag v) then Forward
                 else
                   (case tags_match headers ''if-none-match'' t True of
                      Some True \<Rightarrow> NotModified
                    | Some False \<Rightarrow> Body
                    | None \<Rightarrow> Forward))))
      else if contains_key ''if-modified-since'' headers then
        (if en_status e \<noteq> 200 then Forward
         else
           (case (single_date http headers ''if-modified-since'',
                  single_date http (en_headers e) ''last-modified'') of
              (Some since, Some md) \<Rightarrow> if md \<le> since then NotModified else Body
            | _ \<Rightarrow> Body))
      else Body)"

subsection \<open>\<open>revalidate.rs\<close>\<close>

definition eligible_for_revalidation :: "request \<Rightarrow> bool" where
  "eligible_for_revalidation rq \<longleftrightarrow>
     rq_method rq = ''GET'' \<and>
     \<not> list_ex (\<lambda>name. contains_key name (rq_headers rq))
        [''if-none-match'', ''if-modified-since'', ''if-match'', ''if-unmodified-since'', ''range'', ''if-range'']"

datatype validator = EntityTag bytes | ModifiedSince bytes

fun validator_header :: "validator \<Rightarrow> bytes" where
  "validator_header (EntityTag _) = ''if-none-match''"
| "validator_header (ModifiedSince _) = ''if-modified-since''"

fun validator_value :: "validator \<Rightarrow> bytes" where
  "validator_value (EntityTag v) = v"
| "validator_value (ModifiedSince v) = v"

definition single :: "header_map \<Rightarrow> bytes \<Rightarrow> unit + bytes option" where
  "single headers name =
     (case get_all name headers of [] \<Rightarrow> Inr None | [v] \<Rightarrow> Inr (Some v) | _ \<Rightarrow> Inl ())"

definition date_of :: "http_crate \<Rightarrow> bytes \<Rightarrow> unit + nat" where
  "date_of http v =
     (case value_str http v of None \<Rightarrow> Inl () | Some text \<Rightarrow> ok_or () (parse_date http text))"

definition opaque :: "bytes \<Rightarrow> bytes option" where
  "opaque bs =
     (let bs = (case strip_prefix ''W/'' bs of Some r \<Rightarrow> r | None \<Rightarrow> bs) in
      case strip_prefix [CHR 0x22] bs of
        None \<Rightarrow> None
      | Some r \<Rightarrow>
          (case strip_suffix [CHR 0x22] r of
             None \<Rightarrow> None
           | Some t \<Rightarrow> if list_all etagc t then Some t else None))"

definition validator_of :: "http_crate \<Rightarrow> entry \<Rightarrow> validator option" where
  "validator_of http e =
     (if en_status e \<noteq> 200 \<or> contains_key ''content-encoding'' (en_headers e) then None
      else
        (case single (en_headers e) ''etag'' of
           Inl _ \<Rightarrow> None
         | Inr (Some t) \<Rightarrow> if opaque t = None then None else Some (EntityTag t)
         | Inr None \<Rightarrow>
             (case single (en_headers e) ''last-modified'' of
                Inr (Some md) \<Rightarrow> if isl (date_of http md) then None else Some (ModifiedSince md)
              | _ \<Rightarrow> None)))"

definition transport_headers :: "bytes list" where
  "transport_headers =
     [''connection'', ''keep-alive'', ''proxy-authenticate'', ''proxy-authorization'', ''te'', ''trailer'',
      ''transfer-encoding'', ''upgrade'', ''cache-status'']"

definition nominated :: "http_crate \<Rightarrow> header_map \<Rightarrow> bytes list" where
  "nominated http headers =
     map to_ascii_lowercase (filter (name_valid http) (map trim (concat
       (map (split_at (CHR '','')) (List.map_filter (value_str http) (get_all ''connection'' headers))))))"

definition strip_transport :: "http_crate \<Rightarrow> header_map \<Rightarrow> header_map" where
  "strip_transport http headers =
     fold remove_header transport_headers (fold remove_header (nominated http headers) headers)"

definition replace_name :: "header_map \<Rightarrow> bytes \<Rightarrow> header_map \<Rightarrow> header_map" where
  "replace_name incoming name headers =
     fold (append_header name) (get_all name incoming) (remove_header name headers)"

definition same_validator :: "http_crate \<Rightarrow> validator \<Rightarrow> bytes option \<Rightarrow> bytes option \<Rightarrow> unit + unit" where
  "same_validator http v tg md =
     (case v of
        EntityTag old \<Rightarrow>
          and_then (ok_or () tg) (\<lambda>new. if opaque new \<noteq> opaque old then Inl () else Inr ())
      | ModifiedSince old \<Rightarrow>
          (case md of
             None \<Rightarrow> Inr ()
           | Some new \<Rightarrow>
               and_then (date_of http new) (\<lambda>a. and_then (date_of http old) (\<lambda>b. if a \<noteq> b then Inl () else Inr ()))))"

definition merge :: "http_crate \<Rightarrow> entry \<Rightarrow> validator \<Rightarrow> response \<Rightarrow> unit + response" where
  "merge http e v rs =
     (let incoming = rs_headers rs in
      if contains_key ''content-range'' incoming \<or> contains_key ''content-encoding'' incoming then Inl ()
      else
        and_then (single incoming ''etag'') (\<lambda>tg.
        and_then (case tg of None \<Rightarrow> Inr () | Some t \<Rightarrow> if opaque t = None then Inl () else Inr ()) (\<lambda>_.
        and_then (single incoming ''last-modified'') (\<lambda>md.
        and_then (case md of None \<Rightarrow> Inr () | Some m \<Rightarrow> and_then (date_of http m) (\<lambda>_. Inr ())) (\<lambda>_.
        and_then (same_validator http v tg md) (\<lambda>_.
        and_then (single incoming ''content-length'') (\<lambda>len.
        and_then
          (case len of
             None \<Rightarrow> Inr ()
           | Some l \<Rightarrow>
               (case value_str http l of
                  None \<Rightarrow> Inl ()
                | Some text \<Rightarrow>
                    if parse_unsigned u64_max text = Some (length (en_body e)) then Inr () else Inl ())) (\<lambda>_.
        (let headers = fold remove_header [''age'', ''date''] (en_headers e);
             headers = fold (replace_name incoming) (remdups (map fst incoming)) headers;
             headers = strip_transport http headers in
         and_then (ok_or () (value_of http (show_nat (length (en_body e))))) (\<lambda>len.
           Inr (rs\<lparr>rs_headers := insert_header ''content-length'' len headers, rs_status := Some 200,
             rs_body := Once (en_body e)\<rparr>)))))))))))"

subsection \<open>Reading directives back\<close>

definition escape :: "bytes \<Rightarrow> bytes" where
  "escape v = concat (map (\<lambda>c. if c = CHR 0x22 \<or> c = CHR 0x5C then [CHR 0x5C, c] else [c]) v)"

definition directive_text :: "bytes \<times> bytes option \<Rightarrow> bytes" where
  "directive_text d =
     (case d of
        (n, None) \<Rightarrow> n
      | (n, Some v) \<Rightarrow> n @ [CHR ''=''] @ [CHR 0x22] @ escape v @ [CHR 0x22])"

definition directive_ok :: "http_crate \<Rightarrow> bytes \<times> bytes option \<Rightarrow> bool" where
  "directive_ok http d \<longleftrightarrow>
     (let n = fst d in
      n \<noteq> [] \<and> name_valid http n \<and> to_ascii_lowercase n = n \<and> trimmed n \<and>
      CHR ''='' \<notin> set n \<and> CHR '','' \<notin> set n \<and> CHR 0x22 \<notin> set n)"

lemma escape_Nil [simp]: "escape [] = []"
  and escape_Cons: "escape (c # v) =
    (if c = CHR 0x22 \<or> c = CHR 0x5C then [CHR 0x5C, c] else [c]) @ escape v"
  by (simp_all add: escape_def)

lemma unquote_escape: "unquote decoded False (escape v) = Inr (decoded @ v)"
  by (induction v arbitrary: decoded) (auto simp: escape_Cons)

lemma scan_plain:
  "CHR 0x22 \<notin> set p \<Longrightarrow> CHR '','' \<notin> set p \<Longrightarrow>
     control_scan http q False False es (p @ r) = control_scan http (q @ p) False False es r"
  by (induction p arbitrary: q) auto

lemma scan_quoted:
  "control_scan http q True False es (escape v @ r) = control_scan http (q @ escape v) True False es r"
  by (induction v arbitrary: q) (auto simp: escape_Cons)

lemma scan_directive:
  assumes "directive_ok http d"
  shows "control_scan http [] False False es (directive_text d @ CHR '','' # r) =
    and_then (control_entry http es (directive_text d)) (\<lambda>es. control_scan http [] False False es r)"
proof -
  obtain n v where d: "d = (n, v)" by (cases d)
  have n: "CHR 0x22 \<notin> set n" "CHR '','' \<notin> set n" using assms by (simp_all add: d directive_ok_def Let_def)
  show ?thesis
  proof (cases v)
    case None
    then show ?thesis using scan_plain [OF n, of http "[]" es "CHR '','' # r"] by (simp add: d directive_text_def)
  next
    case (Some x)
    let ?rest = "escape x @ CHR 0x22 # CHR '','' # r"
    have "CHR 0x22 \<notin> set (n @ ''='')" "CHR '','' \<notin> set (n @ ''='')" using n by auto
    from scan_plain [OF this, of http "[]" es "CHR 0x22 # ?rest"]
    show ?thesis using scan_quoted [of http "n @ ''='' @ [CHR 0x22]" es x "CHR 0x22 # CHR '','' # r"]
      by (simp add: d Some directive_text_def)
  qed
qed

lemma starts_with_before: "starts_with w (n @ c # r) \<Longrightarrow> c \<notin> set w \<Longrightarrow> starts_with w n"
proof (induction w arbitrary: n)
  case (Cons x w)
  then show ?case by (cases n) auto
qed simp

lemma ws_plain: "w \<in> set ws_encodings \<Longrightarrow> CHR 0x22 \<notin> set w \<and> CHR ''='' \<notin> set w"
  by (auto simp: ws_encodings_def)

lemma trimmed_value:
  assumes "trimmed n" "c = CHR 0x22 \<or> c = CHR ''=''"
  shows "trimmed (n @ c # x @ [CHR 0x22])"
proof -
  have "\<not> starts_with w (n @ c # x @ [CHR 0x22])" if w: "w \<in> set ws_encodings" "w \<noteq> []" for w
    using assms w starts_with_before [of w n c "x @ [CHR 0x22]"] ws_plain [OF w(1)]
    by (auto simp: trimmed_def drop_one_None)
  moreover have "\<not> starts_with (rev w) (rev (n @ c # x @ [CHR 0x22]))" if w: "w \<in> set ws_encodings" "w \<noteq> []" for w
    using starts_with_before [of "rev w" "[]" "CHR 0x22" "rev (n @ c # x)"] ws_plain [OF w(1)] w(2)
    by (cases "rev w") auto
  ultimately show ?thesis by (auto simp: trimmed_def drop_one_None)
qed

lemma control_entry_directive:
  assumes ok: "directive_ok http d" and new: "fst d \<notin> fst ` set es"
  shows "control_entry http es (directive_text d) = Inr (es @ [d])"
proof -
  obtain n v where d: "d = (n, v)" by (cases d)
  have n: "n \<noteq> []" "name_valid http n" "to_ascii_lowercase n = n" "trimmed n" "CHR ''='' \<notin> set n"
    using ok by (simp_all add: d directive_ok_def Let_def)
  have fresh: "\<not> control_contains es n" using new by (force simp: control_contains_def list_ex_iff d)
  show ?thesis
  proof (cases v)
    case None
    then show ?thesis using n fresh
      by (simp add: d control_entry_def directive_text_def trim_trimmed split_once_None [THEN iffD2])
  next
    case (Some x)
    let ?q = "CHR 0x22 # escape x @ [CHR 0x22]"
    have "trimmed []" by (simp add: trimmed_def drop_one_None starts_with_iff)
    then have q: "trim ?q = ?q" using trimmed_value [of "[]" "CHR 0x22" "escape x"] by (intro trim_trimmed) simp
    have "trim (n @ CHR ''='' # ?q) = n @ CHR ''='' # ?q"
      using trimmed_value [OF n(4), of "CHR ''=''" "CHR 0x22 # escape x"] by (intro trim_trimmed) simp
    moreover have "parse_value http ?q = Inr x"
      by (simp add: parse_value_def strip_prefix_def strip_suffix_append unquote_escape)
    ultimately show ?thesis using n fresh q
      by (simp add: d Some control_entry_def directive_text_def trim_trimmed split_once_append)
  qed
qed

lemma scan_directives:
  "list_all (directive_ok http) ds \<Longrightarrow> distinct (map fst (es @ ds)) \<Longrightarrow> ds \<noteq> [] \<Longrightarrow>
     control_scan http [] False False es (join '','' (map directive_text ds) @ '','') = Inr (es @ ds)"
proof (induction ds arbitrary: es rule: induct_list012)
  case (2 d)
  then show ?case using scan_directive [of http d es "[]"] by (simp add: control_entry_directive)
next
  case (3 d d' ds)
  then show ?case
    using scan_directive [of http d es "join '','' (map directive_text (d' # ds)) @ '',''"]
      3(2) [of "es @ [d]"] by (auto simp: control_entry_directive)
qed simp

lemma seconds_ok:
  assumes "\<And>v. (name, v) \<in> set ds \<Longrightarrow> \<exists>k \<le> u64_max. v = Some (show_nat k)"
  shows "\<not> isl (control_seconds ds name)"
proof (cases "find (\<lambda>(key, _). key = name) ds")
  case (Some d)
  then have "d \<in> set ds" "fst d = name" by (auto simp: find_Some_iff in_set_conv_nth)
  then obtain k where "d = (name, Some (show_nat k))" "k \<le> u64_max" using assms by (metis prod.collapse)
  then show ?thesis using Some by (simp add: control_seconds_def show_nat_digits parse_show_nat)
qed (simp add: control_seconds_def)

lemma control_parse_lines:
  assumes "control_lines http [] (get_all ''cache-control'' headers) = Inr es"
    and "\<And>name. name \<in> {''max-age'', ''s-maxage'', ''min-fresh''} \<Longrightarrow> \<not> isl (control_seconds es name)"
  shows "control_parse http headers = Inr es"
  unfolding control_parse_def assms(1) and_then_simps by (simp add: assms(2))

text \<open>
  \<open>Cache-Control\<close> parsing (\<open>control.rs\<close>): a field line made of distinct directives, their values
  quoted with escapes, is read back exactly. Commas, quotes and backslashes inside a value stay in
  it, so no value can smuggle in a directive.
\<close>

theorem control_roundtrip:
  assumes "ds \<noteq> []" "list_all (directive_ok http) ds" "distinct (map fst ds)"
    and seconds: "\<And>name v. (name, v) \<in> set ds \<Longrightarrow> name \<in> {''max-age'', ''s-maxage'', ''min-fresh''} \<Longrightarrow>
      \<exists>k \<le> u64_max. v = Some (show_nat k)"
    and str: "value_str http (join '','' (map directive_text ds)) = Some (join '','' (map directive_text ds))"
  shows "control_parse http [(''cache-control'', join '','' (map directive_text ds))] = Inr ds"
proof (rule control_parse_lines)
  have "control_scan http [] False False [] (join '','' (map directive_text ds) @ '','') = Inr ([] @ ds)"
    by (rule scan_directives) (use assms(1-3) in simp_all)
  then show "control_lines http [] (get_all ''cache-control'' [(''cache-control'', join '','' (map directive_text ds))]) = Inr ds"
    by (simp add: str)
qed (use seconds seconds_ok in blast)

text \<open>An \<open>http\<close> crate that takes every text as it is, to instantiate the properties.\<close>

definition sample_http :: http_crate where
  "sample_http = \<lparr>name_valid = (\<lambda>n. n \<noteq> []), value_str = Some, value_of = Some, parse_date = (\<lambda>_. None)\<rparr>"

theorem control_roundtrip_witness:
  "control_parse sample_http [(''cache-control'', join '','' (map directive_text
      [(''private'', Some ''x, no-store''), (''max-age'', Some (show_nat 60))]))] =
   Inr [(''private'', Some ''x, no-store''), (''max-age'', Some (show_nat 60))]"
proof -
  have "trimmed ''private''" "trimmed ''max-age''"
    by (auto simp: trimmed_def drop_one_None ws_encodings_def)
  then show ?thesis
    by (intro control_roundtrip)
      (auto simp: directive_ok_def sample_http_def Let_def to_ascii_lowercase_def lower_byte_def is_ascii_upper_def
        u64_max_def intro: exI [of _ 60])
qed

subsection \<open>What may be stored\<close>

lemma freshness_sound:
  assumes "freshness http wall rq rs default_ttl = Inr ttl"
  shows "\<exists>es. status_of rs \<in> set cacheable \<and> control_parse http (rs_headers rs) = Inr es \<and>
    \<not> control_contains es ''no-store'' \<and> \<not> control_contains es ''private'' \<and> \<not> control_contains es ''no-cache'' \<and>
    \<not> contains_key ''set-cookie'' (rs_headers rs) \<and> ''*'' \<notin> set (vary_on http rs) \<and>
    (contains_key ''authorization'' (rq_headers rq) \<longrightarrow>
      control_contains es ''public'' \<or> (\<exists>n. control_seconds es ''s-maxage'' = Inr (Some n))) \<and>
    (0 < ttl \<or> default_ttl = Some ttl)"
  using assms
  by (auto simp: freshness_def vary_on_def flat_def list_ex_iff split: if_splits sum.splits option.splits)

subsection \<open>Revalidated responses\<close>

lemma get_all_fold_remove: "get_all n (fold remove_header ns h) = (if n \<in> set ns then [] else get_all n h)"
  by (induction ns arbitrary: h) auto

lemma get_all_fold_append: "get_all n (fold (append_header m) vs h) = get_all n h @ (if n = m then vs else [])"
  by (induction vs arbitrary: h) auto

lemma get_all_replace_name:
  "get_all n (replace_name inc m h) = (if n = m then get_all n inc else get_all n h)"
  by (simp add: replace_name_def get_all_fold_append)

lemma get_all_fold_replace:
  "get_all n (fold (replace_name inc) ms h) = (if n \<in> set ms then get_all n inc else get_all n h)"
  by (induction ms arbitrary: h) (auto simp: get_all_replace_name)

lemma contains_key_iff: "contains_key n h \<longleftrightarrow> n \<in> fst ` set h"
  by (auto simp: contains_key_def get_all_def filter_empty_conv intro: rev_image_eqI)

definition merged_headers :: "entry \<Rightarrow> header_map \<Rightarrow> header_map" where
  "merged_headers e incoming =
     fold (replace_name incoming) (remdups (map fst incoming)) (fold remove_header [''age'', ''date''] (en_headers e))"

lemma get_all_merged:
  "get_all n (merged_headers e incoming) =
    (if contains_key n incoming then get_all n incoming
     else if n = ''age'' \<or> n = ''date'' then [] else get_all n (en_headers e))"
  unfolding merged_headers_def get_all_fold_replace get_all_fold_remove by (simp add: contains_key_iff)

text \<open>
  Revalidation (\<open>revalidate.rs\<close>): a 304 that is accepted rebuilds the whole stored response. Its status
  is 200 and its body the stored body, its length says so; a header the 304 sent replaces the stored
  one, the stored \<open>Age\<close> and \<open>Date\<close> never survive, and connection-level headers are dropped. An accepted
  answer to an entity tag names that same tag.
\<close>

theorem merge_rebuilds:
  assumes "merge http e v rs = Inr rs'" and "name \<noteq> ''content-length''"
  shows "rs_status rs' = Some 200 \<and> rs_body rs' = Once (en_body e) \<and>
    (\<exists>len. value_of http (show_nat (length (en_body e))) = Some len \<and>
      get_all ''content-length'' (rs_headers rs') = [len]) \<and>
    get_all name (rs_headers rs') =
      (if name \<in> set transport_headers \<or> name \<in> set (nominated http (merged_headers e (rs_headers rs))) then []
       else if contains_key name (rs_headers rs) then get_all name (rs_headers rs)
       else if name = ''age'' \<or> name = ''date'' then [] else get_all name (en_headers e)) \<and>
    (case v of EntityTag old \<Rightarrow> (\<exists>new. get_all ''etag'' (rs_headers rs) = [new] \<and> opaque new = opaque old \<and> opaque new \<noteq> None)
     | ModifiedSince old \<Rightarrow> True)"
proof -
  obtain tg md len where tg: "single (rs_headers rs) ''etag'' = Inr tg"
      "(case tg of None \<Rightarrow> Inr () | Some t \<Rightarrow> if opaque t = None then Inl () else Inr ()) = Inr ()"
      "same_validator http v tg md = Inr ()"
    and len: "value_of http (show_nat (length (en_body e))) = Some len"
    and rs': "rs' = rs\<lparr>rs_headers := insert_header ''content-length'' len
        (strip_transport http (merged_headers e (rs_headers rs))), rs_status := Some 200, rs_body := Once (en_body e)\<rparr>"
    using assms(1) unfolding merge_def merged_headers_def Let_def
    by (auto simp del: fold_simps split: if_split_asm)
  have "get_all name (rs_headers rs') = get_all name (strip_transport http (merged_headers e (rs_headers rs)))"
    using assms(2) by (simp add: rs')
  also have "\<dots> = (if name \<in> set transport_headers \<or> name \<in> set (nominated http (merged_headers e (rs_headers rs))) then []
      else get_all name (merged_headers e (rs_headers rs)))"
    by (simp add: strip_transport_def get_all_fold_remove)
  finally have headers: "get_all name (rs_headers rs') = \<dots>" .
  have "\<exists>new. get_all ''etag'' (rs_headers rs) = [new] \<and> opaque new = opaque old \<and> opaque new \<noteq> None"
    if "v = EntityTag old" for old
    using tg that by (auto simp: single_def same_validator_def split: list.splits option.splits if_splits)
  then show ?thesis using headers len by (simp add: rs' get_all_merged split: validator.split)
qed

theorem merge_rebuilds_witness:
  "\<exists>rs'. merge sample_http
      \<lparr>en_status = 200, en_headers = [(''etag'', tag_text (False, ''v'')), (''age'', ''7'')], en_body = ''seed'',
       en_stored = 0, en_ttl = 5, en_age_on_arrival = 0\<rparr>
      (EntityTag (tag_text (False, ''v'')))
      \<lparr>rs_status = Some 304, rs_headers = [(''etag'', tag_text (True, ''v''))], rs_body = NoBody\<rparr> = Inr rs' \<and>
    rs_body rs' = Once ''seed'' \<and> get_all ''age'' (rs_headers rs') = []"
proof -
  let ?e = "\<lparr>en_status = 200, en_headers = [(''etag'', tag_text (False, ''v'')), (''age'', ''7'')], en_body = ''seed'',
       en_stored = 0, en_ttl = 5, en_age_on_arrival = 0\<rparr>"
  let ?rs = "\<lparr>rs_status = Some 304, rs_headers = [(''etag'', tag_text (True, ''v''))], rs_body = NoBody\<rparr>"
  have tags: "opaque (tag_text (w, ''v'')) = Some ''v''" for w
    by (cases w) (simp_all add: opaque_def tag_text_def strip_prefix_def strip_suffix_def etagc_def)
  obtain rs' where rs': "merge sample_http ?e (EntityTag (tag_text (False, ''v''))) ?rs = Inr rs'"
    by (simp add: merge_def contains_key_def single_def same_validator_def tags sample_http_def ok_or_def)
  from merge_rebuilds [OF rs', of "''age''"] rs' show ?thesis by (auto simp: contains_key_def)
qed

end
