(* ===== verification/Cache.thy ===== *)
theory Cache
  imports Cache_Policy
begin

text \<open>
  The \<open>cache\<close> directive as a whole (\<open>gatel-bundle-std/src/cache/\<close>: \<open>fill.rs\<close>, \<open>invalidation.rs\<close>,
  \<open>mod.rs\<close>): the budget of unfinished fills, collecting a body, and the handler in two halves, before
  and after the next handler, with every operation it performs on the shared store. The \<open>url\<close> crate
  is a parameter. A validator the handler adds to a request is removed again before the response is
  judged, so what is judged and signed are the headers the request came with.
\<close>

subsection \<open>\<open>fill.rs\<close>: the budget of unfinished fills\<close>

definition max_fills :: nat where
  "max_fills = 64"

record fill_budget =
  fb_max_bytes :: nat
  fb_bytes :: nat
  fb_count :: nat

definition fill_new :: "nat \<Rightarrow> fill_budget" where
  "fill_new m = \<lparr>fb_max_bytes = m, fb_bytes = 0, fb_count = 0\<rparr>"

definition reserve :: "nat \<Rightarrow> fill_budget \<Rightarrow> fill_budget option" where
  "reserve n b =
     (if fb_count b \<ge> max_fills \<or> n > fb_max_bytes b - fb_bytes b then None
      else Some (b\<lparr>fb_bytes := fb_bytes b + n, fb_count := fb_count b + 1\<rparr>))"

text \<open>Dropping a reservation; the checked subtraction of the two counters panics on underflow.\<close>

definition reservation_drop :: "nat \<Rightarrow> fill_budget \<Rightarrow> fill_budget option" where
  "reservation_drop n b =
     (if n > fb_bytes b \<or> fb_count b = 0 then None
      else Some (b\<lparr>fb_bytes := fb_bytes b - n, fb_count := fb_count b - 1\<rparr>))"

text \<open>Requests reserve and drop in any order; the live reservations are kept beside the budget.\<close>

inductive fill_step :: "fill_budget \<times> nat list \<Rightarrow> fill_budget \<times> nat list \<Rightarrow> bool" where
  fill_reserve: "reserve n b = Some b' \<Longrightarrow> fill_step (b, live) (b', n # live)"
| fill_refuse: "reserve n b = None \<Longrightarrow> fill_step (b, live) (b, live)"
| fill_drop: "n \<in> set live \<Longrightarrow> reservation_drop n b = Some b' \<Longrightarrow> fill_step (b, live) (b', remove1 n live)"

definition fill_ok :: "fill_budget \<times> nat list \<Rightarrow> bool" where
  "fill_ok s \<longleftrightarrow>
     (case s of (b, live) \<Rightarrow>
        fb_bytes b = sum_list live \<and> fb_count b = length live \<and> fb_bytes b \<le> fb_max_bytes b \<and>
        fb_count b \<le> max_fills)"

lemma sum_list_remove1: "n \<in> set xs \<Longrightarrow> sum_list xs = n + sum_list (remove1 n xs)" for xs :: "nat list"
  by (induction xs) auto

interpretation fills: invariant_system fill_step fill_ok
proof unfold_locales
  fix s t assume ok: "fill_ok s" and step: "fill_step s t"
  from step ok show "fill_ok t"
  proof cases
    case (fill_drop n live b b')
    then show ?thesis using ok sum_list_remove1 [of n live]
      by (auto simp: fill_ok_def reservation_drop_def length_remove1 split: if_splits)
  qed (auto simp: fill_ok_def reserve_def split: if_splits)
qed

text \<open>
  The fill budget: however requests reserve and drop, the bytes reserved by unfinished fills are
  exactly the sum of the live reservations, never more than \<open>max-size\<close>, with at most 64 of them; and
  dropping a live reservation never underflows.
\<close>

theorem fill_budget_exact:
  assumes "fill_step\<^sup>*\<^sup>* (fill_new m, []) (b, live)"
  shows "fb_bytes b = sum_list live \<and> fb_count b = length live \<and> sum_list live \<le> m \<and> length live \<le> 64 \<and>
    (\<forall>n \<in> set live. reservation_drop n b \<noteq> None)"
proof -
  have "fill_ok (fill_new m, [])" by (simp add: fill_ok_def fill_new_def)
  then have ok: "fill_ok (b, live)" using fills.inv_run [OF assms] by blast
  have "fb_max_bytes (fst (fill_new m, [] :: nat list)) = fb_max_bytes (fst (b, live))"
    by (rule fills.relation_run [OF assms, where rel = "\<lambda>s t. fb_max_bytes (fst s) = fb_max_bytes (fst t)"])
      (auto simp: fill_ok_def fill_new_def reserve_def reservation_drop_def elim!: fill_step.cases split: if_splits)
  then have "fb_max_bytes b = m" by (simp add: fill_new_def)
  moreover have "reservation_drop n b \<noteq> None" if "n \<in> set live" for n
    using ok that sum_list_remove1 [OF that] length_pos_if_in_set [OF that] by (simp add: reservation_drop_def fill_ok_def)
  ultimately show ?thesis using ok by (auto simp: fill_ok_def max_fills_def)
qed

theorem fill_budget_exact_witness:
  "fb_bytes (fill_new 10\<lparr>fb_bytes := 4, fb_count := 1\<rparr>) = sum_list [4] \<and>
   sum_list [4 :: nat] \<le> 10"
proof -
  have "reserve 4 (fill_new 10) = Some (fill_new 10\<lparr>fb_bytes := 4, fb_count := 1\<rparr>)"
    by (simp add: reserve_def fill_new_def max_fills_def)
  then have "fill_step (fill_new 10, []) (fill_new 10\<lparr>fb_bytes := 4, fb_count := 1\<rparr>, [4])"
    by (rule fill_reserve)
  then have "fill_step\<^sup>*\<^sup>* (fill_new 10, []) (fill_new 10\<lparr>fb_bytes := 4, fb_count := 1\<rparr>, [4])" by blast
  from fill_budget_exact [OF this] show ?thesis by blast
qed

subsection \<open>\<open>fill.rs\<close>: collecting a body\<close>

definition size_lower :: "body \<Rightarrow> nat" where
  "size_lower b = (case b of NoBody \<Rightarrow> 0 | Once bs \<Rightarrow> length bs | Streamed lo _ _ \<Rightarrow> lo)"

definition size_exact :: "body \<Rightarrow> nat option" where
  "size_exact b = (case b of NoBody \<Rightarrow> Some 0 | Once bs \<Rightarrow> Some (length bs) | Streamed _ ex _ \<Rightarrow> ex)"

definition frames_of :: "body \<Rightarrow> frame list" where
  "frames_of b = (case b of NoBody \<Rightarrow> [] | Once bs \<Rightarrow> [Data bs] | Streamed _ _ fs \<Rightarrow> fs)"

text \<open>A body that is given back may still hold its reservation, until its prefix has been sent.\<close>

datatype collected = Whole bytes | TooLargeBody body bool | Uncacheable body

definition replay :: "bytes \<Rightarrow> frame \<Rightarrow> frame list \<Rightarrow> body" where
  "replay bs f rest = Streamed 0 None ((if bs = [] then [] else [Data bs]) @ f # rest)"

fun collect_frames :: "nat \<Rightarrow> bytes \<Rightarrow> frame list \<Rightarrow> collected" where
  "collect_frames limit bs [] = Whole bs"
| "collect_frames limit bs (Failed e # fs) = Uncacheable (replay bs (Failed e) fs)"
| "collect_frames limit bs (Trailers t # fs) = Uncacheable (replay bs (Trailers t) fs)"
| "collect_frames limit bs (Data d # fs) =
     (if length d > limit - length bs then TooLargeBody (replay bs (Data d) fs) True
      else collect_frames limit (bs @ d) fs)"

definition collect :: "body \<Rightarrow> nat \<Rightarrow> collected" where
  "collect b limit =
     (if size_lower b > limit then TooLargeBody b False
      else (case b of Once bs \<Rightarrow> Whole bs | _ \<Rightarrow> collect_frames limit [] (frames_of b)))"

text \<open>What a client sees of a sequence of frames: its bytes in order, trailers and the error.\<close>

datatype event = Byte byte | Trailer header_map | Broken bytes

fun frame_events :: "frame \<Rightarrow> event list" where
  "frame_events (Data d) = map Byte d"
| "frame_events (Trailers t) = [Trailer t]"
| "frame_events (Failed e) = [Broken e]"

definition events :: "frame list \<Rightarrow> event list" where
  "events fs = concat (map frame_events fs)"

lemma events_Nil [simp]: "events [] = []" and events_Cons [simp]: "events (f # fs) = frame_events f @ events fs"
  by (simp_all add: events_def)

lemma events_replay: "events (frames_of (replay bs f rest)) = map Byte bs @ frame_events f @ events rest"
  by (simp add: replay_def frames_of_def)

lemma collect_frames_events:
  "length bs \<le> limit \<Longrightarrow>
     (case collect_frames limit bs fs of
        Whole all \<Rightarrow> map Byte all = map Byte bs @ events fs \<and> length all \<le> limit
      | TooLargeBody b _ \<Rightarrow> events (frames_of b) = map Byte bs @ events fs
      | Uncacheable b \<Rightarrow> events (frames_of b) = map Byte bs @ events fs)"
proof (induction limit bs fs rule: collect_frames.induct)
  case (4 limit bs d fs)
  show ?case
  proof (cases "length d > limit - length bs")
    case False
    then have "length (bs @ d) \<le> limit" using 4(2) by simp
    from 4(1) [OF False this] False show ?thesis by (simp split: collected.splits)
  qed (simp add: events_replay)
qed (simp_all add: events_replay)

text \<open>
  Collecting never costs the client anything: a body kept whole is all of the body's bytes and fits
  the limit, and a body given back for being too large, broken or trailed yields exactly what the
  original would have, in order, including its trailers and its error.
\<close>

theorem collect_preserves_stream:
  "case collect b limit of
     Whole all \<Rightarrow> map Byte all = events (frames_of b) \<and> length all \<le> limit
   | TooLargeBody b' _ \<Rightarrow> events (frames_of b') = events (frames_of b)
   | Uncacheable b' \<Rightarrow> events (frames_of b') = events (frames_of b)"
proof (cases "size_lower b > limit")
  case False
  then show ?thesis
    using collect_frames_events [of "[]" limit "frames_of b"]
    by (cases b) (auto simp: collect_def size_lower_def frames_of_def split: collected.splits)
qed (simp add: collect_def)

subsection \<open>\<open>invalidation.rs\<close>\<close>

text \<open>The \<open>url\<close> crate, over an abstract type of parsed URLs.\<close>

record 'u url_crate =
  url_parse :: "bytes \<Rightarrow> 'u option"
  url_join :: "'u \<Rightarrow> bytes \<Rightarrow> 'u option"
  url_origin :: "'u \<Rightarrow> bytes"
  url_username :: "'u \<Rightarrow> bytes"
  url_password :: "'u \<Rightarrow> bytes option"
  url_path :: "'u \<Rightarrow> bytes"
  url_query :: "'u \<Rightarrow> bytes option"

definition associated_key :: "http_crate \<Rightarrow> 'u url_crate \<Rightarrow> cache_key \<Rightarrow> 'u \<Rightarrow> header_map \<Rightarrow> bytes \<Rightarrow> cache_key option" where
  "associated_key http url key base headers name =
     (case get_all name headers of
        [] \<Rightarrow> None
      | v # others \<Rightarrow>
          (case value_str http v of
             None \<Rightarrow> None
           | Some text \<Rightarrow>
               if others \<noteq> [] \<or> list_ex (\<lambda>b. code b \<le> 0x20 \<or> code b = 0x7f \<or> b = CHR 0x5C) text then None
               else
                 (case url_join url base text of
                    None \<Rightarrow> None
                  | Some target \<Rightarrow>
                      if url_origin url target \<noteq> url_origin url base \<or> url_username url target \<noteq> [] \<or>
                        url_password url target \<noteq> None then None
                      else
                        (let path = url_path url target @
                           (case url_query url target of Some q \<Rightarrow> ''?'' @ q | None \<Rightarrow> []) in
                         Some (key_new ''GET'' (key_scheme key) (key_host key) path)))))"

definition add_key :: "cache_key option \<Rightarrow> cache_key list \<Rightarrow> cache_key list" where
  "add_key k keys = (case k of None \<Rightarrow> keys | Some k \<Rightarrow> if k \<in> set keys then keys else keys @ [k])"

definition associated :: "http_crate \<Rightarrow> 'u url_crate \<Rightarrow> cache_key \<Rightarrow> header_map \<Rightarrow> cache_key list" where
  "associated http url key headers =
     (case url_parse url (key_scheme key @ ''://'' @ key_host key @ key_target key) of
        None \<Rightarrow> []
      | Some base \<Rightarrow>
          if url_username url base \<noteq> [] \<or> url_password url base \<noteq> None then []
          else
            add_key (associated_key http url key base headers ''content-location'')
              (add_key (associated_key http url key base headers ''location'') []))"

subsection \<open>\<open>mod.rs\<close>: the directive\<close>

record cache_config =
  cc_max_size :: nat
  cc_max_entry :: nat
  cc_default_ttl :: "nat option"

definition cache_hash_into :: "cache_config \<Rightarrow> hasher \<Rightarrow> hasher" where
  "cache_hash_into c h =
     (let h = update_u64 (cc_max_entry c) (update_u64 (cc_max_size c) h) in
      case cc_default_ttl c of Some ttl \<Rightarrow> update_duration ttl h | None \<Rightarrow> update_none h)"

text \<open>What identifies the state a configuration asks for; the state it creates is an empty store.\<close>

definition cache_compatibility :: "digest \<Rightarrow> cache_config \<Rightarrow> fingerprint" where
  "cache_compatibility digest c =
     finish digest (cache_hash_into c (update_str ''cache-policy-state-v2'' hasher_new))"

definition cache_decode :: "nat \<Rightarrow> nat \<Rightarrow> nat option \<Rightarrow> bytes + cache_config" where
  "cache_decode max_size max_entry default_ttl =
     (if max_entry > max_size then
        Inl ''`max-entry` is larger than `max-size`, so nothing would ever be kept''
      else if max_size = 0 then Inl ''`max-size` must be more than nothing; remove `cache` to turn it off''
      else Inr \<lparr>cc_max_size = max_size, cc_max_entry = max_entry, cc_default_ttl = default_ttl\<rparr>)"

text \<open>
  The part of a request the handler sees besides its method and headers: the authority and the path
  and query of its URI, and what the depot says of the connection and the executing generation.
\<close>

record call = request +
  cl_uri_authority :: "bytes option"
  cl_path_and_query :: "bytes option"
  cl_tls :: bool
  cl_identity :: "fingerprint option"

definition authority :: "http_crate \<Rightarrow> call \<Rightarrow> bytes option" where
  "authority http cl =
     (case cl_uri_authority cl of
        Some a \<Rightarrow> Some a
      | None \<Rightarrow>
          (case map_option trim (header_text http (rq_headers cl) ''host'') of
             None \<Rightarrow> None
           | Some h \<Rightarrow> if h = [] then None else Some h))"

definition handler_key :: "http_crate \<Rightarrow> call \<Rightarrow> cache_key" where
  "handler_key http cl =
     (let host = (case authority http cl of Some a \<Rightarrow> a | None \<Rightarrow> []);
          target = (case cl_path_and_query cl of Some p \<Rightarrow> p | None \<Rightarrow> ''/'');
          scheme = (if cl_tls cl then ''https'' else ''http'') in
      (key_new (rq_method cl) scheme host target)
        \<lparr>key_namespace := (case cl_identity cl of Some f \<Rightarrow> fingerprint_text f | None \<Rightarrow> [])\<rparr>)"

definition set_header :: "http_crate \<Rightarrow> bytes \<Rightarrow> bytes \<Rightarrow> response \<Rightarrow> response" where
  "set_header http name text rs =
     (case value_of http text of
        Some v \<Rightarrow> rs\<lparr>rs_headers := insert_header name v (rs_headers rs)\<rparr>
      | None \<Rightarrow> rs)"

definition status_header :: "http_crate \<Rightarrow> bytes \<Rightarrow> response \<Rightarrow> response" where
  "status_header http detail rs = set_header http ''cache-status'' (''gatel; '' @ detail) rs"

definition serve :: "http_crate \<Rightarrow> nat \<Rightarrow> entry \<Rightarrow> response \<Rightarrow> response" where
  "serve http now e rs =
     (let age = current_age now e div second;
          rs = rs\<lparr>rs_status := Some (en_status e), rs_headers := en_headers e\<rparr>;
          rs = set_header http ''age'' (show_nat age) rs;
          rs = status_header http (''hit; ttl='' @ show_nat (en_ttl e div second - age)) rs in
      rs\<lparr>rs_body := Once (en_body e)\<rparr>)"

definition cache_only_miss :: "http_crate \<Rightarrow> call \<Rightarrow> response \<Rightarrow> response" where
  "cache_only_miss http cl rs =
     (let rs = rs\<lparr>rs_status := Some 504, rs_headers := insert_header ''cache-control'' ''no-store'' (rs_headers rs)\<rparr>;
          rs = status_header http ''fwd=uri-miss; detail=only-if-cached'' rs in
      rs\<lparr>rs_body := (if rq_method cl \<noteq> ''HEAD'' then Once (''504 no acceptable cached response'' @ [CHR 0x0A]) else NoBody)\<rparr>)"

record fetch =
  ft_revision :: nat
  ft_stale :: "(entry \<times> validator) option"
  ft_headers :: header_map
  ft_observed :: "observed option"

text \<open>
  The handler up to the point where it answers or calls the next one: an answer, a call with no
  execution identity, a call whose request is refused (with whether its method is unsafe), or a fetch.
\<close>

datatype before = Answered response | Unidentified | Refused refusal bool | Fetching fetch

definition unsafe_method :: "bytes \<Rightarrow> bool" where
  "unsafe_method m \<longleftrightarrow> m \<notin> {''GET'', ''HEAD'', ''OPTIONS'', ''TRACE''}"

definition not_modified :: "response \<Rightarrow> response" where
  "not_modified rs =
     rs\<lparr>rs_status := Some 304, rs_body := NoBody,
        rs_headers := remove_header ''content-range'' (remove_header ''content-length'' (rs_headers rs))\<rparr>"

definition answer_from :: "http_crate \<Rightarrow> nat \<Rightarrow> call \<Rightarrow> entry \<Rightarrow> response \<Rightarrow> response" where
  "answer_from http now cl e rs =
     (let rs = serve http now e rs in
      if conditional_evaluate http (rq_headers cl) e = NotModified then not_modified rs else rs)"

definition acceptable :: "http_crate \<Rightarrow> nat \<Rightarrow> call \<Rightarrow> entry \<Rightarrow> bool" where
  "acceptable http now cl e \<longleftrightarrow>
     entry_satisfies_request http now (request.truncate cl) e \<and> conditional_evaluate http (rq_headers cl) e \<noteq> Forward"

definition stale_candidate ::
  "http_crate \<Rightarrow> digest \<Rightarrow> nat \<Rightarrow> call \<Rightarrow> cache_store \<Rightarrow> (nat \<times> entry \<times> validator) option \<times> cache_store" where
  "stale_candidate http digest now cl st =
     (case take_stale digest now (handler_key http cl) (rq_headers cl) st of
        (None, st) \<Rightarrow> (None, st)
      | (Some (revision, e), st) \<Rightarrow>
          (map_option (\<lambda>v. (revision, e, v)) (validator_of http e), st))"

definition handle_before ::
  "http_crate \<Rightarrow> digest \<Rightarrow> nat \<Rightarrow> call \<Rightarrow> response \<Rightarrow> cache_store \<Rightarrow> before \<times> cache_store" where
  "handle_before http digest now cl rs st =
     (let rq = request.truncate cl; oic = only_if_cached http rq; key = handler_key http cl in
      if cl_identity cl = None then (if oic then Answered (cache_only_miss http cl rs) else Unidentified, st)
      else
        (case request_is_cacheable http rq of
           Inl refusal \<Rightarrow>
             (if oic then Answered (cache_only_miss http cl rs) else Refused refusal (unsafe_method (rq_method cl)), st)
         | Inr _ \<Rightarrow>
             (let (stale, st) =
                (if \<not> oic \<and> eligible_for_revalidation rq then stale_candidate http digest now cl st else (None, st));
              (found, st) =
                (if may_serve_from_cache http rq then
                   get_matching digest now key (rq_headers cl) (acceptable http now cl) st
                 else (None, st)) in
              case found of
                Some e \<Rightarrow> (Answered (answer_from http now cl e rs), st)
              | None \<Rightarrow>
                  if oic then (Answered (cache_only_miss http cl rs), st)
                  else
                    (let headers =
                       (case stale of
                          Some (_, _, v) \<Rightarrow> insert_header (validator_header v) (validator_value v) (rq_headers cl)
                        | None \<Rightarrow> rq_headers cl) in
                     (Fetching
                        \<lparr>ft_revision = (case stale of Some (r, _, _) \<Rightarrow> r | None \<Rightarrow> cs_revision st),
                         ft_stale = map_option (\<lambda>(_, e, v). (e, v)) stale,
                         ft_headers = headers,
                         ft_observed = store_observe digest key headers st\<rparr>, st)))))"

text \<open>After the next handler, for a request that is not cacheable.\<close>

definition invalidates :: "bool \<Rightarrow> response \<Rightarrow> bool" where
  "invalidates unsafe rs \<longleftrightarrow>
     unsafe \<and> (200 \<le> status_of rs \<and> status_of rs < 300 \<or> 300 \<le> status_of rs \<and> status_of rs < 400)"

definition handle_refused ::
  "http_crate \<Rightarrow> 'u url_crate \<Rightarrow> call \<Rightarrow> refusal \<Rightarrow> bool \<Rightarrow> response \<Rightarrow> cache_store \<Rightarrow> response \<times> cache_store" where
  "handle_refused http url cl refusal unsafe rs st =
     (let key = handler_key http cl;
          st = (if invalidates unsafe rs then
                  fold invalidate (associated http url key (rs_headers rs)) (invalidate key st)
                else st) in
      (status_header http (''fwd=uri-miss; detail='' @ refusal_str refusal) rs, st))"

text \<open>
  After the next handler, for a fetch. The clocks: \<open>delay\<close> is how long the next handler took,
  \<open>received\<close> the monotonic instant it returned, \<open>wall\<close> the time of day in nanoseconds. A stored copy
  that was observed is retired on every way out when the new status is 200.
\<close>

definition declared_length :: "http_crate \<Rightarrow> response \<Rightarrow> nat option" where
  "declared_length http rs =
     (case header_text http (rs_headers rs) ''content-length'' of
        None \<Rightarrow> None
      | Some t \<Rightarrow> parse_unsigned u64_max t)"

definition invalid_validation :: "http_crate \<Rightarrow> response \<Rightarrow> response" where
  "invalid_validation http rs =
     status_header http ''fwd=miss; detail=invalid-validation''
       (rs\<lparr>rs_status := Some 502, rs_headers := [],
          rs_body := Once (''502 invalid cache validation response'' @ [CHR 0x0A])\<rparr>)"

definition store_fill ::
  "http_crate \<Rightarrow> digest \<Rightarrow> call \<Rightarrow> fetch \<Rightarrow> bool \<Rightarrow> nat \<Rightarrow> nat \<Rightarrow> nat \<Rightarrow> response \<Rightarrow> bytes \<Rightarrow> cache_store \<Rightarrow>
     response \<times> cache_store" where
  "store_fill http digest cl ft revalidated received ttl age rs bs st =
     (let vary = vary_on http rs;
          e = \<lparr>en_status = status_of rs, en_headers = rs_headers rs, en_body = bs, en_stored = received,
               en_ttl = ttl, en_age_on_arrival = age\<rparr> in
      case put_guarded (ft_revision ft) (handler_key http cl) (signature digest (rq_headers cl) vary) vary e
          (ft_stale ft \<noteq> None) st of
        (stored, st) \<Rightarrow>
          ((status_header http
             (if stored then
                (if revalidated then ''fwd=stale; fwd-status=304; stored'' else ''fwd=miss; stored'')
              else ''fwd=miss; detail=fill-rejected'') rs)\<lparr>rs_body := Once bs\<rparr>, st))"

definition fill_from ::
  "http_crate \<Rightarrow> digest \<Rightarrow> cache_config \<Rightarrow> call \<Rightarrow> fetch \<Rightarrow> bool \<Rightarrow> nat \<Rightarrow> nat \<Rightarrow> nat \<Rightarrow> response \<Rightarrow> fill_budget \<Rightarrow>
     cache_store \<Rightarrow> response \<times> fill_budget \<times> cache_store" where
  "fill_from http digest cfg cl ft revalidated received ttl age rs fb st =
     (let declared = declared_length http rs in
      if (case declared of None \<Rightarrow> False | Some n \<Rightarrow> n > cc_max_entry cfg) \<or> size_lower (rs_body rs) > cc_max_entry cfg then
        (status_header http ''fwd=miss; detail=too-large'' rs, fb, st)
      else
        (let want = min (cc_max_entry cfg)
           (case size_exact (rs_body rs) of
              Some n \<Rightarrow> n
            | None \<Rightarrow> (case declared of Some n \<Rightarrow> n | None \<Rightarrow> cc_max_entry cfg)) in
         case reserve want fb of
           None \<Rightarrow> (status_header http ''fwd=miss; detail=fill-budget'' rs, fb, st)
         | Some fb' \<Rightarrow>
             (case collect (rs_body rs) want of
                Whole bs \<Rightarrow>
                  (case store_fill http digest cl ft revalidated received ttl age rs bs st of
                     (rs, st) \<Rightarrow> (rs, fb, st))
              | TooLargeBody b holds \<Rightarrow>
                  (status_header http (''fwd=miss; detail='' @ refusal_str TooLarge) (rs\<lparr>rs_body := b\<rparr>),
                   if holds then fb' else fb, st)
              | Uncacheable b \<Rightarrow> (status_header http ''fwd=miss; detail=body-error'' (rs\<lparr>rs_body := b\<rparr>), fb', st))))"

definition retire :: "observed option \<Rightarrow> response \<Rightarrow> cache_store \<Rightarrow> cache_store" where
  "retire ob rs st =
     (if status_of rs = 200 then (case ob of Some ob \<Rightarrow> discard_observed ob st | None \<Rightarrow> st) else st)"

definition handle_fetched ::
  "http_crate \<Rightarrow> digest \<Rightarrow> cache_config \<Rightarrow> call \<Rightarrow> fetch \<Rightarrow> nat \<Rightarrow> nat \<Rightarrow> nat \<Rightarrow> response \<Rightarrow> fill_budget \<Rightarrow>
     cache_store \<Rightarrow> response \<times> fill_budget \<times> cache_store" where
  "handle_fetched http digest cfg cl ft delay received wall rs fb st =
     (let revalidated = (ft_stale ft \<noteq> None \<and> rs_status rs = Some 304);
          merged =
            (case ft_stale ft of
               Some (e, v) \<Rightarrow> if rs_status rs = Some 304 then merge http e v rs else Inr rs
             | None \<Rightarrow> Inr rs);
          (rs', fb, st) =
            (case merged of
               Inl _ \<Rightarrow> (invalid_validation http rs, fb, st)
             | Inr rs \<Rightarrow>
                 (case initial_age http (rs_headers rs) wall delay of
                    None \<Rightarrow> (status_header http ''fwd=miss; detail=invalid-age'' rs, fb, st)
                  | Some age \<Rightarrow>
                      (case freshness http (wall div second) (request.truncate cl) rs (cc_default_ttl cfg) of
                         Inl refusal \<Rightarrow>
                           (status_header http (''fwd=miss; detail='' @ refusal_str refusal) rs, fb, st)
                       | Inr ttl \<Rightarrow> fill_from http digest cfg cl ft revalidated received ttl age rs fb st))) in
      (rs', fb, retire (ft_observed ft) rs st))"

subsection \<open>Signatures separate variants\<close>

definition headers_fit :: "header_map \<Rightarrow> bool" where
  "headers_fit h \<longleftrightarrow> length h < 2 ^ 64 \<and> list_all (\<lambda>(_, v). length v < 2 ^ 64) h"

definition value_block :: "bytes \<Rightarrow> bytes" where
  "value_block v = char_of (5::nat) # le_bytes 8 (length v) @ v"

definition name_block :: "header_map \<Rightarrow> bytes \<Rightarrow> bytes" where
  "name_block h n = field_bytes (FStr n) @ char_of (2::nat) # le_bytes 8 (length (get_all n h)) @
     concat (map value_block (get_all n h))"

lemma fold_update_bytes: "fold update_bytes vs h = h @ concat (map value_block vs)"
  by (induction vs arbitrary: h) (simp_all add: update_bytes_def put_tag_def value_block_def)

lemma hash_varied_block: "hash_varied h n x = x @ name_block h n"
  by (simp add: hash_varied_def Let_def fold_update_bytes name_block_def hasher_fields)

lemma fold_hash_varied: "fold (hash_varied h) ns x = x @ concat (map (name_block h) ns)"
  by (induction ns arbitrary: x) (simp_all add: hash_varied_block)

lemma le_bytes_inj: "le_bytes k a = le_bytes k b \<Longrightarrow> a < 256 ^ k \<Longrightarrow> b < 256 ^ k \<Longrightarrow> a = b"
  by (metis le_value_bytes mod_less)

lemma value_block_inj:
  assumes "value_block v @ r = value_block w @ s" "length v < 2 ^ 64" "length w < 2 ^ 64"
  shows "v = w \<and> r = s"
proof -
  have len: "le_bytes 8 (length v) = le_bytes 8 (length w)" and rest: "v @ r = w @ s"
    using assms(1) append_eq_append_conv [of "le_bytes 8 (length v)" "le_bytes 8 (length w)"]
    by (simp_all add: value_block_def)
  then have "length v = length w" using le_bytes_inj assms(2,3) by (simp add: le_bytes_inj)
  then show ?thesis using rest by simp
qed

lemma value_blocks_inj:
  "concat (map value_block vs) @ r = concat (map value_block ws) @ s \<Longrightarrow> length vs = length ws \<Longrightarrow>
     list_all (\<lambda>v. length v < 2 ^ 64) vs \<Longrightarrow> list_all (\<lambda>v. length v < 2 ^ 64) ws \<Longrightarrow> vs = ws \<and> r = s"
proof (induction vs arbitrary: ws)
  case (Cons v vs)
  then obtain w ws' where ws: "ws = w # ws'" by (cases ws) auto
  have "v = w \<and> concat (map value_block vs) @ r = concat (map value_block ws') @ s"
    using Cons.prems by (intro value_block_inj) (simp_all add: ws)
  then show ?case using Cons.IH [of ws'] Cons.prems by (simp add: ws)
qed simp

lemma get_all_fit: "headers_fit h \<Longrightarrow> length (get_all n h) < 2 ^ 64 \<and> list_all (\<lambda>v. length v < 2 ^ 64) (get_all n h)"
  unfolding headers_fit_def get_all_def
  by (auto simp: list_all_iff intro: le_less_trans [OF length_filter_le])

lemma name_block_inj:
  assumes "name_block h n @ r = name_block k n @ s" "headers_fit h" "headers_fit k"
  shows "get_all n h = get_all n k \<and> r = s"
proof -
  have eq: "le_bytes 8 (length (get_all n h)) @ concat (map value_block (get_all n h)) @ r =
      le_bytes 8 (length (get_all n k)) @ concat (map value_block (get_all n k)) @ s"
    using assms(1) by (simp add: name_block_def)
  then have "le_bytes 8 (length (get_all n h)) = le_bytes 8 (length (get_all n k))"
    by (simp add: append_eq_append_conv)
  then have len: "length (get_all n h) = length (get_all n k)"
    using le_bytes_inj [of 8] get_all_fit [OF assms(2), of n] get_all_fit [OF assms(3), of n] by simp
  with eq have "concat (map value_block (get_all n h)) @ r = concat (map value_block (get_all n k)) @ s" by simp
  then show ?thesis using value_blocks_inj len get_all_fit [OF assms(2)] get_all_fit [OF assms(3)] by blast
qed

lemma name_blocks_inj:
  "concat (map (name_block h) ns) = concat (map (name_block k) ns) \<Longrightarrow> headers_fit h \<Longrightarrow> headers_fit k \<Longrightarrow>
     n \<in> set ns \<Longrightarrow> get_all n h = get_all n k"
proof (induction ns)
  case (Cons m ns)
  have "get_all m h = get_all m k \<and> concat (map (name_block h) ns) = concat (map (name_block k) ns)"
    using Cons.prems by (intro name_block_inj) simp_all
  then show ?case using Cons by auto
qed simp

lemma hex_byte_inj: "hex_byte a = hex_byte b \<Longrightarrow> a = b"
proof -
  assume eq: "hex_byte a = hex_byte b"
  define d where "d = (\<lambda>n::nat. if n < 10 then char_of (48 + n) else char_of (87 + n) :: char)"
  have inj: "m = n" if "d m = d n" "m < 16" "n < 16" for m n
    using arg_cong [OF that(1), of code] that(2,3) by (simp add: d_def split: if_splits)
  have lt: "code x div 16 < 16" "code x mod 16 < 16" for x
    using code_lt_256 [of x] by (simp_all add: less_mult_imp_div_less)
  have "code a div 16 = code b div 16" "code a mod 16 = code b mod 16"
    using eq inj lt by (simp_all add: hex_byte_def Let_def d_def)
  then have "code a = code b" by (metis div_mult_mod_eq)
  then show "a = b" by simp
qed

lemma length_hex_byte [simp]: "length (hex_byte b) = 2"
  by (simp add: hex_byte_def Let_def)

lemma hex_byte_not_Nil [simp]: "hex_byte b \<noteq> []"
  by (simp add: hex_byte_def Let_def)

lemma fingerprint_text_inj: "fingerprint_text f = fingerprint_text g \<Longrightarrow> f = g"
proof (induction f arbitrary: g)
  case Nil
  then show ?case by (cases g) (auto simp: fingerprint_text_def)
next
  case (Cons a f)
  then obtain b g' where g: "g = b # g'"
    by (cases g) (auto simp: fingerprint_text_def)
  have "hex_byte a = hex_byte b \<and> fingerprint_text f = fingerprint_text g'"
    using Cons.prems append_eq_append_conv [of "hex_byte a" "hex_byte b"] by (simp add: g fingerprint_text_def)
  then show ?case using Cons.IH hex_byte_inj by (simp add: g)
qed

lemma signature_agrees:
  assumes "signature digest h vary = signature digest k vary" "headers_fit h" "headers_fit k"
    and "\<forall>x y. digest x = digest y \<longrightarrow> x = y" "n \<in> set vary"
  shows "get_all n h = get_all n k"
proof -
  let ?x = "update_u64 (length vary) (update_str ''cache-vary-v2'' hasher_new)"
  have "fingerprint_text (digest (?x @ concat (map (name_block h) vary))) =
      fingerprint_text (digest (?x @ concat (map (name_block k) vary)))"
    using assms(1,5) by (auto simp: signature_def Let_def finish_def fold_hash_varied split: if_splits)
  then have "?x @ concat (map (name_block h) vary) = ?x @ concat (map (name_block k) vary)"
    using fingerprint_text_inj assms(4) by blast
  then have "concat (map (name_block h) vary) = concat (map (name_block k) vary)" by simp
  then show ?thesis using name_blocks_inj assms(2,3,5) by blast
qed

lemma signature_cong: "(\<And>n. n \<in> set vary \<Longrightarrow> get_all n h = get_all n k) \<Longrightarrow> signature digest h vary = signature digest k vary"
proof -
  assume eq: "\<And>n. n \<in> set vary \<Longrightarrow> get_all n h = get_all n k"
  have "fold (hash_varied h) vary x = fold (hash_varied k) vary x" for x
    by (rule fold_cong) (auto simp: hash_varied_def eq)
  then show ?thesis by (simp add: signature_def)
qed

subsection \<open>The directive over the shared store\<close>

text \<open>
  Every request, in any interleaving with the others: what it does before calling the next handler,
  and what it does with the answer. The fetch a request resumes from may be any earlier one.
\<close>

inductive handler_step ::
  "http_crate \<Rightarrow> digest \<Rightarrow> cache_config \<Rightarrow> 'u url_crate \<Rightarrow> cache_store \<Rightarrow> cache_store \<Rightarrow> bool"
  for http digest cfg url where
    step_before: "handler_step http digest cfg url st (snd (handle_before http digest now cl rs st))"
  | step_refused: "handler_step http digest cfg url st (snd (handle_refused http url cl refusal unsafe rs st))"
  | step_fetched: "headers_fit (rq_headers cl) \<Longrightarrow>
      handler_step http digest cfg url st (snd (snd (handle_fetched http digest cfg cl ft delay received wall rs fb st)))"

definition fill_admitted ::
  "http_crate \<Rightarrow> digest \<Rightarrow> cache_config \<Rightarrow> cache_key \<Rightarrow> bytes \<Rightarrow> bytes list \<Rightarrow> entry \<Rightarrow> bool" where
  "fill_admitted http digest cfg key sg vary e \<longleftrightarrow>
     (\<exists>cl rs wall. headers_fit (rq_headers cl) \<and> key = handler_key http cl \<and> vary = vary_on http rs \<and>
        sg = signature digest (rq_headers cl) vary \<and>
        freshness http wall (request.truncate cl) rs (cc_default_ttl cfg) = Inr (en_ttl e) \<and>
        en_headers e = rs_headers rs \<and> en_status e = status_of rs)"

lemma step_invalidate_all: "(cache_step admitted digest)\<^sup>*\<^sup>* st (fold invalidate keys st)"
proof (induction keys arbitrary: st)
  case (Cons k keys)
  have "cache_step admitted digest st (invalidate k st)" by (rule step_invalidate)
  then show ?case using Cons [of "invalidate k st"] by (simp add: converse_rtranclp_into_rtranclp)
qed simp

lemma stay_or_step: "t = s \<or> R s t \<Longrightarrow> R\<^sup>*\<^sup>* s t"
  by auto

lemma stale_candidate_steps: "(cache_step admitted digest)\<^sup>*\<^sup>* st (snd (stale_candidate http digest now cl st))"
proof (rule stay_or_step)
  have "snd (stale_candidate http digest now cl st) = snd (take_stale digest now (handler_key http cl) (rq_headers cl) st)"
    by (simp add: stale_candidate_def split: prod.split option.split)
  then show "snd (stale_candidate http digest now cl st) = st \<or>
      cache_step admitted digest st (snd (stale_candidate http digest now cl st))"
    by (simp add: step_take_stale)
qed

definition take_if ::
  "http_crate \<Rightarrow> digest \<Rightarrow> nat \<Rightarrow> call \<Rightarrow> cache_store \<Rightarrow> (nat \<times> entry \<times> validator) option \<times> cache_store" where
  "take_if http digest now cl st =
     (if \<not> only_if_cached http (request.truncate cl) \<and> eligible_for_revalidation (request.truncate cl)
      then stale_candidate http digest now cl st else (None, st))"

definition get_if :: "http_crate \<Rightarrow> digest \<Rightarrow> nat \<Rightarrow> call \<Rightarrow> cache_store \<Rightarrow> entry option \<times> cache_store" where
  "get_if http digest now cl st =
     (if may_serve_from_cache http (request.truncate cl)
      then get_matching digest now (handler_key http cl) (rq_headers cl) (acceptable http now cl) st else (None, st))"

lemma handle_before_store:
  "snd (handle_before http digest now cl rs st) \<in>
    {st, snd (get_if http digest now cl (snd (take_if http digest now cl st)))}"
proof -
  have "snd (handle_before http digest now cl rs st) =
      (if cl_identity cl = None \<or> isl (request_is_cacheable http (request.truncate cl)) then st
       else snd (get_if http digest now cl (snd (take_if http digest now cl st))))"
    unfolding handle_before_def Let_def case_prod_unfold take_if_def [symmetric] get_if_def [symmetric]
    by (simp split: sum.split option.split)
  then show ?thesis by simp
qed

lemma before_steps: "(cache_step admitted digest)\<^sup>*\<^sup>* st (snd (handle_before http digest now cl rs st))"
proof -
  have "(cache_step admitted digest)\<^sup>*\<^sup>* st (snd (take_if http digest now cl st))"
    using stale_candidate_steps by (simp add: take_if_def)
  moreover have "(cache_step admitted digest)\<^sup>*\<^sup>* s (snd (get_if http digest now cl s))" for s
    by (rule stay_or_step) (simp add: get_if_def step_get)
  ultimately have "(cache_step admitted digest)\<^sup>*\<^sup>* st (snd (get_if http digest now cl (snd (take_if http digest now cl st))))"
    by (rule rtranclp_trans)
  then show ?thesis using handle_before_store [of http digest now cl rs st] by (elim insertE emptyE) simp_all
qed

lemma refused_steps: "(cache_step admitted digest)\<^sup>*\<^sup>* st (snd (handle_refused http url cl refusal unsafe rs st))"
  using step_invalidate_all [of admitted digest st "handler_key http cl # associated http url (handler_key http cl) (rs_headers rs)"]
  by (simp add: handle_refused_def Let_def)

lemma fill_steps:
  assumes fresh: "freshness http w (request.truncate cl) rs (cc_default_ttl cfg) = Inr ttl" and fit: "headers_fit (rq_headers cl)"
  shows "(cache_step (fill_admitted http digest cfg) digest)\<^sup>*\<^sup>* st
    (snd (snd (fill_from http digest cfg cl ft revalidated received ttl age rs fb st)))"
proof -
  let ?put = "\<lambda>bs. put_guarded (ft_revision ft) (handler_key http cl) (signature digest (rq_headers cl) (vary_on http rs))
      (vary_on http rs) \<lparr>en_status = status_of rs, en_headers = rs_headers rs, en_body = bs, en_stored = received,
        en_ttl = ttl, en_age_on_arrival = age\<rparr> (ft_stale ft \<noteq> None) st"
  have "cache_step (fill_admitted http digest cfg) digest st (snd (?put bs))" for bs
  proof (rule step_put)
    show "fill_admitted http digest cfg (handler_key http cl) (signature digest (rq_headers cl) (vary_on http rs))
      (vary_on http rs) \<lparr>en_status = status_of rs, en_headers = rs_headers rs, en_body = bs, en_stored = received,
        en_ttl = ttl, en_age_on_arrival = age\<rparr>"
      unfolding fill_admitted_def by (intro exI [of _ cl] exI [of _ rs] exI [of _ w]) (simp add: fresh fit)
  qed
  moreover have "snd (store_fill http digest cl ft revalidated received ttl age rs bs st) = snd (?put bs)" for bs
    by (simp add: store_fill_def Let_def case_prod_unfold)
  moreover have "snd (snd (fill_from http digest cfg cl ft revalidated received ttl age rs fb st)) = st \<or>
      (\<exists>bs. snd (snd (fill_from http digest cfg cl ft revalidated received ttl age rs fb st)) =
        snd (store_fill http digest cl ft revalidated received ttl age rs bs st))"
    unfolding fill_from_def Let_def case_prod_unfold by (simp split: option.split collected.split) blast
  ultimately show ?thesis by (intro stay_or_step) auto
qed

lemma retire_steps: "(cache_step admitted digest)\<^sup>*\<^sup>* st (retire ob rs st)"
  using step_discard by (auto simp: retire_def split: option.split)

lemma fetched_steps:
  assumes fit: "headers_fit (rq_headers cl)"
  shows "(cache_step (fill_admitted http digest cfg) digest)\<^sup>*\<^sup>* st
    (snd (snd (handle_fetched http digest cfg cl ft delay received wall rs fb st)))"
proof -
  let ?steps = "(cache_step (fill_admitted http digest cfg) digest)\<^sup>*\<^sup>*"
  define merged where "merged =
    (case ft_stale ft of Some (e, v) \<Rightarrow> if rs_status rs = Some 304 then merge http e v rs else Inr rs | None \<Rightarrow> Inr rs)"
  define result where "result =
    (case merged of
       Inl _ \<Rightarrow> (invalid_validation http rs, fb, st)
     | Inr rs' \<Rightarrow>
         (case initial_age http (rs_headers rs') wall delay of
            None \<Rightarrow> (status_header http ''fwd=miss; detail=invalid-age'' rs', fb, st)
          | Some age \<Rightarrow>
              (case freshness http (wall div second) (request.truncate cl) rs' (cc_default_ttl cfg) of
                 Inl refusal \<Rightarrow> (status_header http (''fwd=miss; detail='' @ refusal_str refusal) rs', fb, st)
               | Inr ttl \<Rightarrow> fill_from http digest cfg cl ft (ft_stale ft \<noteq> None \<and> rs_status rs = Some 304) received ttl age rs' fb st)))"
  have "?steps st (snd (snd result))"
    unfolding result_def using fill_steps [OF _ fit] by (simp split: sum.split option.split)
  moreover have "snd (snd (handle_fetched http digest cfg cl ft delay received wall rs fb st)) =
      retire (ft_observed ft) rs (snd (snd result))"
    by (simp only: handle_fetched_def result_def merged_def Let_def case_prod_unfold snd_conv fst_conv)
  ultimately show ?thesis using retire_steps by (simp add: rtranclp_trans)
qed

lemma handler_runs:
  "(handler_step http digest cfg url)\<^sup>*\<^sup>* st t \<Longrightarrow> (cache_step (fill_admitted http digest cfg) digest)\<^sup>*\<^sup>* st t"
proof (induction rule: rtranclp_induct)
  case (step s t)
  from step.hyps(2) have "(cache_step (fill_admitted http digest cfg) digest)\<^sup>*\<^sup>* s t"
    by cases (simp_all add: before_steps refused_steps fetched_steps)
  then show ?case using step.IH by (rule rtranclp_trans [rotated])
qed simp

text \<open>
  C8: What the cache serves is shareable. Whatever requests have done to the shared store, an entry
  handed to a request is fresh, and it was stored for a request with the same key (method, execution
  identity, scheme, host and target) that agrees with this one on every header the response varies on.
  The stored response has a cacheable status, sets no cookie, is not \<open>no-store\<close>, \<open>private\<close> or \<open>no-cache\<close>,
  does not vary on everything, and if it answered an authorised request it said that it may be shared.
  The hash function is assumed collision-free.
\<close>

theorem cache_serves_shareable:
  assumes run: "(handler_step http digest cfg url)\<^sup>*\<^sup>* (cache_store_new m) st" and "2 * m \<le> u64_max"
    and hit: "fst (get_matching digest now (handler_key http cl) (rq_headers cl) accepts st) = Some e"
    and fits: "headers_fit (rq_headers cl)"
    and collision_free: "\<forall>x y. digest x = digest y \<longrightarrow> x = y"
  shows "is_fresh now e \<and>
    (\<exists>cl0 rs0 es. handler_key http cl0 = handler_key http cl \<and> en_headers e = rs_headers rs0 \<and>
      en_status e = status_of rs0 \<and> en_status e \<in> set cacheable \<and>
      list_all (\<lambda>n. get_all n (rq_headers cl0) = get_all n (rq_headers cl)) (vary_on http rs0) \<and>
      ''*'' \<notin> set (vary_on http rs0) \<and> \<not> contains_key ''set-cookie'' (en_headers e) \<and>
      control_parse http (en_headers e) = Inr es \<and>
      \<not> control_contains es ''no-store'' \<and> \<not> control_contains es ''private'' \<and> \<not> control_contains es ''no-cache'' \<and>
      (contains_key ''authorization'' (rq_headers cl0) \<longrightarrow>
        control_contains es ''public'' \<or> (\<exists>n. control_seconds es ''s-maxage'' = Inr (Some n))))"
proof -
  obtain vary where adm: "fill_admitted http digest cfg (handler_key http cl) (signature digest (rq_headers cl) vary) vary e"
    and fresh: "is_fresh now e"
    using get_admitted [OF handler_runs [OF run] assms(2) hit] by blast
  then obtain cl0 rs0 wall where *: "headers_fit (rq_headers cl0)" "handler_key http cl = handler_key http cl0"
      "vary = vary_on http rs0" "signature digest (rq_headers cl) vary = signature digest (rq_headers cl0) vary"
      "freshness http wall (request.truncate cl0) rs0 (cc_default_ttl cfg) = Inr (en_ttl e)"
      "en_headers e = rs_headers rs0" "en_status e = status_of rs0"
    unfolding fill_admitted_def by blast
  have "list_all (\<lambda>n. get_all n (rq_headers cl0) = get_all n (rq_headers cl)) (vary_on http rs0)"
    using signature_agrees [OF *(4) fits *(1) collision_free] *(3) by (simp add: list_all_iff)
  moreover obtain es where "status_of rs0 \<in> set cacheable" "control_parse http (rs_headers rs0) = Inr es"
      "\<not> control_contains es ''no-store''" "\<not> control_contains es ''private''" "\<not> control_contains es ''no-cache''"
      "\<not> contains_key ''set-cookie'' (rs_headers rs0)" "''*'' \<notin> set (vary_on http rs0)"
      "contains_key ''authorization'' (rq_headers cl0) \<longrightarrow>
        control_contains es ''public'' \<or> (\<exists>n. control_seconds es ''s-maxage'' = Inr (Some n))"
    using freshness_sound [OF *(5)] by (auto simp: request.truncate_def)
  ultimately show ?thesis using fresh *(2,6,7) by (intro conjI exI [of _ cl0] exI [of _ rs0] exI [of _ es]) simp_all
qed

definition sample_call :: call where
  "sample_call =
     \<lparr>rq_method = ''GET'', rq_headers = [], cl_uri_authority = Some ''a'', cl_path_and_query = Some ''/'',
      cl_tls = False, cl_identity = Some ''i''\<rparr>"

definition sample_config :: cache_config where
  "sample_config = \<lparr>cc_max_size = 1000, cc_max_entry = 100, cc_default_ttl = Some 60000000000\<rparr>"

definition sample_fetch :: fetch where
  "sample_fetch = \<lparr>ft_revision = 0, ft_stale = None, ft_headers = [], ft_observed = None\<rparr>"

definition sample_response :: response where
  "sample_response = \<lparr>rs_status = Some 200, rs_headers = [], rs_body = Once ''x''\<rparr>"

definition sample_filled :: cache_store where
  "sample_filled = snd (snd (handle_fetched sample_http (\<lambda>x. x) sample_config sample_call sample_fetch 0 0 0
     sample_response (fill_new 1000) (cache_store_new 1000)))"

definition sample_served :: entry where
  "sample_served = \<lparr>en_status = 200, en_headers = [], en_body = ''x'', en_stored = 0, en_ttl = 60000000000,
     en_age_on_arrival = 0\<rparr>"

lemma sample_fill:
  "sample_filled = snd (put_guarded 0 (handler_key sample_http sample_call) [] [] sample_served False (cache_store_new 1000))"
  by (simp add: sample_filled_def handle_fetched_def sample_fetch_def sample_response_def initial_age_def Let_def
      freshness_def status_of_def cacheable_def control_parse_def control_seconds_def control_contains_def
      contains_key_def vary_names_def expires_in_def http_date_def header_text_def get_header_def sample_config_def
      fill_from_def declared_length_def size_lower_def size_exact_def reserve_def fill_new_def max_fills_def
      collect_def store_fill_def vary_on_def signature_def retire_def flat_def ok_or_def saturating_add_def
      duration_max_def u64_max_def sample_call_def sample_served_def case_prod_unfold request.truncate_def)

lemma sample_hit:
  "fst (get_matching (\<lambda>x. x) 2 (handler_key sample_http sample_call) [] (\<lambda>_. True) sample_filled) = Some sample_served"
proof -
  let ?k = "handler_key sample_http sample_call"
  have "weight sample_served ?k [] [] = 279"
    by (simp add: weight_def sample_served_def handler_key_def key_new_def authority_def sample_call_def Let_def
        saturating_add_def saturating_mul_def fingerprint_text_def u64_max_def)
  moreover have "is_fresh 2 sample_served"
    by (simp add: is_fresh_def current_age_def en_age_def sample_served_def saturating_add_def duration_max_def)
  ultimately show ?thesis unfolding sample_fill
    by (simp add: put_guarded_def Let_def u64_max_def cache_store_new_def insert_copy_def drop_other_vary_def
        other_vary_def evict_down_to_budget_def get_matching_def lookup_def signature_def)
qed

theorem cache_serves_shareable_witness:
  "is_fresh 2 sample_served \<and> \<not> contains_key ''set-cookie'' (en_headers sample_served)"
proof -
  have fits: "headers_fit (rq_headers sample_call)" by (simp add: headers_fit_def sample_call_def)
  have run: "(handler_step sample_http (\<lambda>x. x) sample_config (undefined :: nat url_crate))\<^sup>*\<^sup>*
      (cache_store_new 1000) sample_filled"
    unfolding sample_filled_def by (rule r_into_rtranclp, rule step_fetched, rule fits)
  have hit: "fst (get_matching (\<lambda>x. x) 2 (handler_key sample_http sample_call) (rq_headers sample_call) (\<lambda>_. True) sample_filled) =
      Some sample_served" using sample_hit by (simp add: sample_call_def)
  show ?thesis using cache_serves_shareable [OF run _ hit fits] by (simp add: u64_max_def) blast
qed

end
