(* ===== verification/Framing.thy ===== *)
theory Framing
  imports Identity
begin

text \<open>
  Append-only logs of framed records: what a reader that consumes one frame at a time finds in a log
  that was written frame by frame, and in one whose last write was cut short.

  Two logs of the sources share this scheme, the admin journal (\<open>gatel/src/admin_journal.rs\<close>) and the
  binary write-ahead log (\<open>gatel/src/admin_wal_frame.rs\<close>). Each provides its own frame, its own reader of
  one frame and its own scan; the locale below is the contract between them and its clients.
\<close>

text \<open>The bytes of consecutive records, numbered from the successor of \<open>base\<close>.\<close>

fun frames :: "(nat \<Rightarrow> 'p \<Rightarrow> bytes) \<Rightarrow> nat \<Rightarrow> 'p list \<Rightarrow> bytes" where
  "frames frame base [] = []"
| "frames frame base (p # ps) = frame (base + 1) p @ frames frame (base + 1) ps"

text \<open>What the visitor of a scan does with consecutive records.\<close>

fun visit_all :: "(nat \<Rightarrow> 'p \<Rightarrow> 'v \<Rightarrow> 'e + 'v) \<Rightarrow> nat \<Rightarrow> 'p list \<Rightarrow> 'v \<Rightarrow> 'e + 'v" where
  "visit_all visit base [] v = Inr v"
| "visit_all visit base (p # ps) v = and_then (visit (base + 1) p v) (visit_all visit (base + 1) ps)"

lemma frames_append: "frames f b (ps @ qs) = frames f b ps @ frames f (b + length ps) qs"
  by (induction ps arbitrary: b) simp_all

lemma visit_all_append: "visit_all visit b (ps @ qs) v = and_then (visit_all visit b ps v) (visit_all visit (b + length ps) qs)"
  by (induction ps arbitrary: b v) (simp_all add: and_then_def split: sum.splits)

lemma and_then_cong: "(\<And>a. f a = g a) \<Longrightarrow> and_then r f = and_then r g"
  by (simp add: and_then_def split: sum.splits)

locale framed_log =
  fixes frame :: "nat \<Rightarrow> 'p \<Rightarrow> bytes" and fits :: "'p \<Rightarrow> bool"
    and read :: "nat \<Rightarrow> bytes \<Rightarrow> 'e + (nat \<times> 'p \<times> nat) option"
    and seq :: "'r \<Rightarrow> nat" and valid :: "'r \<Rightarrow> nat"
    and advance :: "nat \<Rightarrow> 'p \<Rightarrow> nat \<Rightarrow> 'r \<Rightarrow> 'r" and torn :: "'r \<Rightarrow> 'r"
    and scan :: "(nat \<Rightarrow> 'p \<Rightarrow> 'v \<Rightarrow> 'e + 'v) \<Rightarrow> bytes \<Rightarrow> 'r \<Rightarrow> 'v \<Rightarrow> 'e + ('r \<times> 'v)"
  assumes frame_not_Nil: "fits p \<Longrightarrow> frame s p \<noteq> []"
    and read_frame: "fits p \<Longrightarrow> base < u64_max \<Longrightarrow>
      read base (frame (base + 1) p @ rest) = Inr (Some (base + 1, p, length (frame (base + 1) p)))"
    and read_short: "fits p \<Longrightarrow> base < u64_max \<Longrightarrow> 0 < k \<Longrightarrow> k < length (frame (base + 1) p) \<Longrightarrow>
      read base (take k (frame (base + 1) p)) = Inr None"
    and read_exact: "read base bs = Inr (Some (s, p, n)) \<Longrightarrow>
      fits p \<and> base < u64_max \<and> s = base + 1 \<and> (\<exists>rest. bs = frame s p @ rest) \<and> n = length (frame s p)"
    and seq_advance: "seq (advance s p n r) = s"
    and valid_advance: "valid (advance s p n r) = valid r + n"
    and scan_unfold: "scan visit input r v =
      (if valid r < length input then
         (case read (seq r) (drop (valid r) input) of
            Inl e \<Rightarrow> Inl e
          | Inr None \<Rightarrow> Inr (torn r, v)
          | Inr (Some (s, p, n)) \<Rightarrow> and_then (visit s p v) (scan visit input (advance s p n r)))
       else Inr (r, v))"
begin

text \<open>The reader's position after the given records.\<close>

primrec position_after :: "'p list \<Rightarrow> 'r \<Rightarrow> 'r" where
  "position_after [] r = r"
| "position_after (p # ps) r = position_after ps (advance (seq r + 1) p (length (frame (seq r + 1) p)) r)"

lemma position_after_seq [simp]: "seq (position_after ps r) = seq r + length ps"
  by (induction ps arbitrary: r) (simp_all add: seq_advance)

lemma position_after_valid [simp]: "valid (position_after ps r) = valid r + length (frames frame (seq r) ps)"
  by (induction ps arbitrary: r) (simp_all add: seq_advance valid_advance)

lemma position_after_append: "position_after (ps @ qs) r = position_after qs (position_after ps r)"
  by (induction ps arbitrary: r) simp_all

text \<open>A log of complete frames, then anything: the scan visits each frame, then goes on with the rest.\<close>

lemma scan_frames:
  assumes "list_all fits ps" "seq r + length ps \<le> u64_max" "valid r = length pre"
  shows "scan visit (pre @ frames frame (seq r) ps @ tail) r v =
    and_then (visit_all visit (seq r) ps v) (scan visit (pre @ frames frame (seq r) ps @ tail) (position_after ps r))"
  using assms
proof (induction ps arbitrary: r v pre)
  case (Cons p ps)
  let ?f = "frame (seq r + 1) p" and ?r = "advance (seq r + 1) p (length (frame (seq r + 1) p)) r"
  have f: "fits p" "seq r < u64_max" "list_all fits ps" using Cons.prems by auto
  have rd: "read (seq r) (drop (valid r) (pre @ frames frame (seq r) (p # ps) @ tail)) =
      Inr (Some (seq r + 1, p, length ?f))"
    using read_frame [OF f(1,2)] Cons.prems(3) by simp
  have "valid r < length (pre @ frames frame (seq r) (p # ps) @ tail)"
    using frame_not_Nil [OF f(1), of "seq r + 1"] Cons.prems(3) by simp
  then have "scan visit (pre @ frames frame (seq r) (p # ps) @ tail) r v =
      and_then (visit (seq r + 1) p v) (scan visit ((pre @ ?f) @ frames frame (seq ?r) ps @ tail) ?r)"
    using rd by (simp add: scan_unfold [of _ _ r] seq_advance)
  also have "\<dots> = and_then (visit (seq r + 1) p v) (\<lambda>v. and_then (visit_all visit (seq r + 1) ps v)
      (scan visit (pre @ frames frame (seq r) (p # ps) @ tail) (position_after (p # ps) r)))"
    using Cons.IH [of ?r "pre @ ?f"] f(3) Cons.prems(2,3) by (intro and_then_cong) (simp add: seq_advance valid_advance)
  finally show ?case by (simp add: and_then_def split: sum.splits)
qed simp

lemma scan_log:
  assumes "list_all fits ps" "seq r + length ps \<le> u64_max" "valid r = 0"
  shows "scan visit (frames frame (seq r) ps) r v = and_then (visit_all visit (seq r) ps v) (\<lambda>v. Inr (position_after ps r, v))"
proof -
  have "scan visit (frames frame (seq r) ps) (position_after ps r) = (\<lambda>v. Inr (position_after ps r, v))"
    by (rule ext) (use assms(3) in \<open>simp add: scan_unfold [of _ _ "position_after ps r"]\<close>)
  then show ?thesis using scan_frames [OF assms(1,2), of "[]" visit "[]" v] assms(3)
    by simp
qed

text \<open>A last write cut short at any byte is found as a torn tail, and nothing of it is visited.\<close>

lemma scan_torn:
  assumes "list_all fits ps" "seq r + length ps < u64_max" "valid r = 0" "fits p"
    and "0 < k" "k < length (frame (seq r + length ps + 1) p)"
  shows "scan visit (frames frame (seq r) ps @ take k (frame (seq r + length ps + 1) p)) r v =
    and_then (visit_all visit (seq r) ps v) (\<lambda>v. Inr (torn (position_after ps r), v))"
proof -
  let ?t = "take k (frame (seq r + length ps + 1) p)"
  have s: "read (seq r + length ps) ?t = Inr None"
    using read_short [OF assms(4) assms(2) assms(5)] assms(6) by simp
  have "?t \<noteq> []" using assms(5,6) by auto
  then have "scan visit (frames frame (seq r) ps @ ?t) (position_after ps r) = (\<lambda>v. Inr (torn (position_after ps r), v))"
    by (intro ext) (use s assms(3) in \<open>simp add: scan_unfold [of _ _ "position_after ps r"]\<close>)
  then show ?thesis using scan_frames [OF assms(1), of r "[]" visit ?t v] assms(2,3) by simp
qed

text \<open>What a scan accepts is, byte for byte, frames of the records it visited and a tail it could not read.\<close>

lemma scan_sound:
  "scan visit input r v = Inr (r2, v2) \<Longrightarrow> valid r \<le> length input \<Longrightarrow>
   \<exists>ps tail. drop (valid r) input = frames frame (seq r) ps @ tail \<and> list_all fits ps \<and>
     seq r + length ps \<le> max (seq r) u64_max \<and> visit_all visit (seq r) ps v = Inr v2 \<and>
     (if tail = [] then r2 = position_after ps r
      else r2 = torn (position_after ps r) \<and> read (seq r + length ps) tail = Inr None)"
proof (induction "length input - valid r" arbitrary: r v rule: less_induct)
  case less
  show ?case
  proof (cases "valid r < length input")
    case False
    then have "r2 = r" "v2 = v" using less.prems(1) by (simp_all add: scan_unfold [of _ _ r])
    with False show ?thesis by (intro exI [of _ "[]"]) simp
  next
    case True
    show ?thesis
    proof (cases "read (seq r) (drop (valid r) input)")
      case (Inl e)
      with less.prems(1) True show ?thesis by (simp add: scan_unfold [of _ _ r])
    next
      case (Inr res)
      show ?thesis
      proof (cases res)
        case None
        with less.prems(1) True Inr have "r2 = torn r" "v2 = v" by (simp_all add: scan_unfold [of _ _ r])
        with True Inr None show ?thesis by (intro exI [of _ "[]"] exI [of _ "drop (valid r) input"]) simp
      next
        case (Some x)
        then obtain s p n where x: "res = Some (s, p, n)" by (cases x) auto
        obtain rest where e: "fits p" "seq r < u64_max" "s = seq r + 1" "drop (valid r) input = frame s p @ rest"
          "n = length (frame s p)"
          using read_exact [of "seq r" "drop (valid r) input" s p n] Inr x by blast
        let ?r = "advance s p n r"
        obtain v1 where v1: "visit s p v = Inr v1" "scan visit input ?r v1 = Inr (r2, v2)"
          using less.prems(1) True Inr x by (auto simp: scan_unfold [of _ _ r])
        have "length (drop (valid r) input) = n + length rest" using e(4,5) by simp
        then have le: "valid ?r \<le> length input" using True by (simp add: valid_advance)
        have "0 < n" using frame_not_Nil [OF e(1)] e(5) by simp
        then have "length input - valid ?r < length input - valid r" using True by (simp add: valid_advance)
        from less.hyps [OF this v1(2) le] obtain ps tail where
          h: "drop (valid ?r) input = frames frame (seq ?r) ps @ tail" "list_all fits ps"
            "seq ?r + length ps \<le> max (seq ?r) u64_max" "visit_all visit (seq ?r) ps v1 = Inr v2"
            "if tail = [] then r2 = position_after ps ?r
             else r2 = torn (position_after ps ?r) \<and> read (seq ?r + length ps) tail = Inr None"
          by blast
        have "drop (valid ?r) input = drop n (drop (valid r) input)" by (simp add: valid_advance add.commute)
        also have "\<dots> = rest" using e(4,5) by simp
        finally have "drop (valid r) input = frames frame (seq r) (p # ps) @ tail" using h(1) e(3,4) by (simp add: seq_advance)
        moreover have "position_after (p # ps) r = position_after ps ?r" using e(3,5) by simp
        ultimately show ?thesis using h(2-5) e(1-3) v1(1)
          by (intro exI [of _ "p # ps"] exI [of _ tail]) (auto simp: seq_advance)
      qed
    qed
  qed
qed

end

end
