(* ===== verification/Journal.thy ===== *)
theory Journal
  imports Framing
begin

text \<open>
  The admin journal: the framing of its records (\<open>gatel/src/admin_journal.rs\<close>), the append-only store
  that owns the log file (\<open>admin_journal_store.rs\<close>), the binding of a log to one deployment
  (\<open>admin_journal_binding.rs\<close>) and the intent and decision protocol on top (\<open>admin_journal_transaction.rs\<close>).

  The directory is the record \<open>journal_dir\<close>: the bytes of \<open>intent.log\<close> where it exists, whether
  \<open>writer.lock\<close> exists, and whether a live handle holds its lock. It survives a handle, so that a crash
  is the handle's disappearance. Every call that reaches the file system can fail: what each of them
  does is the argument \<open>file_ops\<close>, one field per call, and \<open>file_ops_ok\<close> states what a POSIX file promises
  of them (a write that fails may have appended any part of its bytes, a failed truncation may have
  happened).
\<close>

subsection \<open>Framing\<close>

definition journal_magic :: bytes where "journal_magic = ''GATELJ01''"

definition journal_header :: nat where "journal_header = 84"

definition journal_max_log :: nat where "journal_max_log = 16 * 1024 * 1024"

definition admin_max_body :: nat where "admin_max_body = 1024 * 1024"

definition max_payload :: nat where "max_payload = admin_max_body + 32"

datatype journal_error =
  TooLarge | InvalidMagic | InvalidHeader | InvalidLength | InvalidPayload | InvalidUtf8
| InvalidSequence | SequenceExhausted | InvalidRecord | InvalidBinding

record recovered =
  rc_sequence :: nat
  rc_text :: "bytes option"
  rc_valid_bytes :: nat
  rc_incomplete_tail :: bool

definition domain_checksum :: "digest \<Rightarrow> bytes \<Rightarrow> bytes \<Rightarrow> fingerprint" where
  "domain_checksum digest domain bs = finish digest (update_bytes bs (update_str domain hasher_new))"

text \<open>\<open>encode\<close>: the bytes of one record, and the checks before it is built.\<close>

definition record_prefix :: "digest \<Rightarrow> nat \<Rightarrow> bytes \<Rightarrow> bytes" where
  "record_prefix digest sequence text =
     journal_magic @ le_bytes 8 sequence @ le_bytes 4 (length text) @
     domain_checksum digest ''gatel.admin-intent.payload.v1'' text"

definition record_bytes :: "digest \<Rightarrow> nat \<Rightarrow> bytes \<Rightarrow> bytes" where
  "record_bytes digest sequence text =
     record_prefix digest sequence text @
     domain_checksum digest ''gatel.admin-intent.header.v1'' (record_prefix digest sequence text) @ text"

definition journal_encode :: "digest \<Rightarrow> nat \<Rightarrow> bytes \<Rightarrow> journal_error + bytes" where
  "journal_encode digest sequence text =
     (if sequence = 0 then Inl InvalidSequence
      else if max_payload < length text then Inl TooLarge
      else Inr (record_bytes digest sequence text))"

text \<open>
  One turn of the loop of \<open>recover_each\<close>, up to the visitor: the record at the head of the remaining
  bytes with its length, or none for a short tail.
\<close>

definition read_record :: "digest \<Rightarrow> nat \<Rightarrow> bytes \<Rightarrow> journal_error + (nat \<times> bytes \<times> nat) option" where
  "read_record digest current remaining =
     (let prefix = min (length remaining) (length journal_magic) in
      if take prefix remaining \<noteq> take prefix journal_magic then Inl InvalidMagic
      else if length remaining < journal_header then Inr None
      else if domain_checksum digest ''gatel.admin-intent.header.v1'' (take 52 remaining) \<noteq> take 32 (drop 52 remaining)
        then Inl InvalidHeader
      else (case checked_add u64_max current 1 of
          None \<Rightarrow> Inl SequenceExhausted
        | Some expected \<Rightarrow>
            let sequence = le_value (take 8 (drop 8 remaining)); len = le_value (take 4 (drop 16 remaining)) in
            if sequence \<noteq> expected then Inl InvalidSequence
            else if max_payload < len then Inl InvalidLength
            else if length remaining - journal_header < len then Inr None
            else
              let payload = take len (drop journal_header remaining) in
              if domain_checksum digest ''gatel.admin-intent.payload.v1'' payload \<noteq> take 32 (drop 20 remaining)
                then Inl InvalidPayload
              else if \<not> utf8_valid payload then Inl InvalidUtf8
              else Inr (Some (sequence, payload, journal_header + len))))"

definition recovered_advance :: "nat \<Rightarrow> bytes \<Rightarrow> nat \<Rightarrow> recovered \<Rightarrow> recovered" where
  "recovered_advance sequence text n r =
     r\<lparr>rc_sequence := sequence, rc_text := Some text, rc_valid_bytes := rc_valid_bytes r + n\<rparr>"

lemma read_record_consumes: "read_record digest current bs = Inr (Some (s, p, n)) \<Longrightarrow> 0 < n"
  by (auto simp: read_record_def Let_def journal_header_def split: if_splits option.splits)

function recover_loop ::
  "digest \<Rightarrow> (nat \<Rightarrow> bytes \<Rightarrow> 'v \<Rightarrow> journal_error + 'v) \<Rightarrow> bytes \<Rightarrow> recovered \<Rightarrow> 'v \<Rightarrow> journal_error + (recovered \<times> 'v)" where
  "recover_loop digest visit input r v =
     (if rc_valid_bytes r < length input then
        (case read_record digest (rc_sequence r) (drop (rc_valid_bytes r) input) of
           Inl e \<Rightarrow> Inl e
         | Inr None \<Rightarrow> Inr (r\<lparr>rc_incomplete_tail := True\<rparr>, v)
         | Inr (Some (sequence, text, n)) \<Rightarrow>
             (case visit sequence text v of
                Inl e \<Rightarrow> Inl e
              | Inr v2 \<Rightarrow> recover_loop digest visit input (recovered_advance sequence text n r) v2))
      else Inr (r, v))"
  by pat_completeness auto
termination
  by (relation "measure (\<lambda>(_, _, input, r, _). length input - rc_valid_bytes r)")
    (auto simp: recovered_advance_def dest: read_record_consumes)

declare recover_loop.simps [simp del]

definition recovered_from :: "nat \<Rightarrow> recovered" where
  "recovered_from base = \<lparr>rc_sequence = base, rc_text = None, rc_valid_bytes = 0, rc_incomplete_tail = False\<rparr>"

definition recover_each ::
  "digest \<Rightarrow> (nat \<Rightarrow> bytes \<Rightarrow> 'v \<Rightarrow> journal_error + 'v) \<Rightarrow> bytes \<Rightarrow> nat \<Rightarrow> 'v \<Rightarrow> journal_error + (recovered \<times> 'v)" where
  "recover_each digest visit input base v =
     (if journal_max_log < length input then Inl TooLarge
      else recover_loop digest visit input (recovered_from base) v)"

definition recover :: "digest \<Rightarrow> bytes \<Rightarrow> nat \<Rightarrow> journal_error + recovered" where
  "recover digest input base = and_then (recover_each digest (\<lambda>_ _ v. Inr v) input base ()) (\<lambda>(r, _). Inr r)"

subsection \<open>Intents and decisions\<close>

definition intent_prefix :: bytes where "intent_prefix = ''GATEL-TX1 I'' @ [CHR 0x0A]"

definition applied_prefix :: bytes where "applied_prefix = ''GATEL-TX1 A'' @ [CHR 0x0A]"

definition rejected_prefix :: bytes where "rejected_prefix = ''GATEL-TX1 R'' @ [CHR 0x0A]"

definition decision_reserve :: nat where "decision_reserve = journal_header + length applied_prefix + 20"

datatype tx_decision = TxApplied | TxRejected

record tx_intent =
  ti_sequence :: nat
  ti_text :: bytes

record tx_state =
  tx_latest :: "tx_intent option"
  tx_applied :: "tx_intent option"
  tx_decision :: "tx_decision option"

definition tx_default :: tx_state where
  "tx_default = \<lparr>tx_latest = None, tx_applied = None, tx_decision = None\<rparr>"

definition decide :: "tx_decision \<Rightarrow> bytes \<Rightarrow> tx_state \<Rightarrow> journal_error + tx_state" where
  "decide verdict reference st =
     (case parse_unsigned u64_max reference of
        None \<Rightarrow> Inl InvalidRecord
      | Some referenced \<Rightarrow>
          if reference \<noteq> show_nat referenced \<or> tx_decision st \<noteq> None \<or>
             (case tx_latest st of None \<Rightarrow> True | Some i \<Rightarrow> ti_sequence i \<noteq> referenced)
          then Inl InvalidRecord
          else
            let st = (if verdict = TxApplied then st\<lparr>tx_applied := tx_latest st\<rparr> else st) in
            Inr (st\<lparr>tx_decision := Some verdict\<rparr>))"

definition tx_accept :: "nat \<Rightarrow> bytes \<Rightarrow> tx_state \<Rightarrow> journal_error + tx_state" where
  "tx_accept sequence payload st =
     (case strip_prefix intent_prefix payload of
        Some text \<Rightarrow>
          if admin_max_body < length text \<or> (tx_latest st \<noteq> None \<and> tx_decision st = None) then Inl InvalidRecord
          else Inr (st\<lparr>tx_latest := Some \<lparr>ti_sequence = sequence, ti_text = text\<rparr>, tx_decision := None\<rparr>)
      | None \<Rightarrow>
          (case strip_prefix applied_prefix payload of
             Some reference \<Rightarrow> decide TxApplied reference st
           | None \<Rightarrow>
               (case strip_prefix rejected_prefix payload of
                  Some reference \<Rightarrow> decide TxRejected reference st
                | None \<Rightarrow> Inl InvalidRecord)))"

subsection \<open>The journal as a framed log\<close>

text \<open>
  The digest of the \<open>blake3\<close> crate has 32 bytes. \<open>padded\<close> gives any function that length and leaves one
  that has it alone, so that the contract of the log holds of every digest.
\<close>

definition padded :: "digest \<Rightarrow> digest" where
  "padded digest bs = take 32 (digest bs @ replicate 32 (char_of (0::nat)))"

lemma length_padded [simp]: "length (padded digest bs) = 32"
  by (simp add: padded_def)

lemma padded_id: "\<forall>bs. length (digest bs) = 32 \<Longrightarrow> padded digest = digest"
  by (rule ext) (simp add: padded_def)

lemma length_domain_checksum: "length (domain_checksum (padded digest) domain bs) = 32"
  by (simp add: domain_checksum_def finish_def)

definition text_fits :: "bytes \<Rightarrow> bool" where
  "text_fits msg \<longleftrightarrow> utf8_valid msg \<and> length msg \<le> max_payload"

lemma max_payload_lt: "max_payload < 2 ^ 32"
  by (simp add: max_payload_def admin_max_body_def)

lemma length_journal_magic [simp]: "length journal_magic = 8"
  by (simp add: journal_magic_def)

lemma u64_max_alt: "u64_max = 2 ^ 64 - 1"
  by (simp add: u64_max_def)

lemma length_record_prefix: "length (record_prefix (padded digest) s msg) = 52"
  by (simp add: record_prefix_def journal_magic_def length_domain_checksum)

lemma length_record [simp]: "length (record_bytes (padded digest) s msg) = journal_header + length msg"
  by (simp add: record_bytes_def length_record_prefix length_domain_checksum journal_header_def)

text \<open>The fields of a record, at the offsets the reader uses.\<close>

lemma record_fields:
  fixes digest s msg rest
  defines "bs \<equiv> record_bytes (padded digest) s msg @ rest"
  shows "take 8 bs = journal_magic" "take 52 bs = record_prefix (padded digest) s msg"
    "take 32 (drop 52 bs) = domain_checksum (padded digest) ''gatel.admin-intent.header.v1'' (record_prefix (padded digest) s msg)"
    "take 8 (drop 8 bs) = le_bytes 8 s" "take 4 (drop 16 bs) = le_bytes 4 (length msg)"
    "take 32 (drop 20 bs) = domain_checksum (padded digest) ''gatel.admin-intent.payload.v1'' msg"
    "drop 84 bs = msg @ rest"
  using length_domain_checksum [of digest]
  by (simp_all add: bs_def record_bytes_def record_prefix_def journal_magic_def)

lemma take_min_prefix: "take k bs = m \<Longrightarrow> take (min (length bs) k) bs = take (min (length bs) k) m"
  by (metis min.idem take_take)

lemma take_drop_take: "a + b \<le> k \<Longrightarrow> take b (drop a (take k bs)) = take b (drop a bs)"
  by (simp add: drop_take min_def)

text \<open>What the reader does with a header that is intact.\<close>

lemma read_record_header:
  assumes "84 \<le> length bs" "take 8 bs = journal_magic" "take 52 bs = pre"
    "take 32 (drop 52 bs) = domain_checksum digest ''gatel.admin-intent.header.v1'' pre"
    "take 8 (drop 8 bs) = le_bytes 8 (base + 1)" "take 4 (drop 16 bs) = le_bytes 4 n" "n \<le> max_payload" "base < u64_max"
  shows "read_record digest base bs =
    (if length bs - 84 < n then Inr None
     else if domain_checksum digest ''gatel.admin-intent.payload.v1'' (take n (drop 84 bs)) \<noteq> take 32 (drop 20 bs)
       then Inl InvalidPayload
     else if \<not> utf8_valid (take n (drop 84 bs)) then Inl InvalidUtf8
     else Inr (Some (base + 1, take n (drop 84 bs), 84 + n)))"
proof -
  have m: "take (min (length bs) 8) bs = take (min (length bs) 8) journal_magic"
    by (rule take_min_prefix [OF assms(2)])
  have v: "le_value (le_bytes 8 (base + 1)) = base + 1" "le_value (le_bytes 4 n) = n"
    using assms(7,8) max_payload_lt by (simp_all add: codec_simps u64_max_alt)
  show ?thesis using assms(1,7,8) m
    unfolding read_record_def Let_def length_journal_magic journal_header_def assms(3-6) v
    by (simp add: checked_add_def)
qed

lemma read_record_frame:
  assumes "text_fits msg" "base < u64_max"
  shows "read_record (padded digest) base (record_bytes (padded digest) (base + 1) msg @ rest) =
    Inr (Some (base + 1, msg, length (record_bytes (padded digest) (base + 1) msg)))"
proof -
  note f = record_fields [of digest "base + 1" msg rest]
  have t: "utf8_valid msg" "length msg \<le> max_payload" using assms(1) by (simp_all add: text_fits_def)
  have l: "84 \<le> length (record_bytes (padded digest) (base + 1) msg @ rest)"
    "\<not> length (record_bytes (padded digest) (base + 1) msg @ rest) - 84 < length msg"
    by (simp_all add: journal_header_def)
  show ?thesis
    unfolding read_record_header [OF l(1) f(1) f(2) f(3) f(4) f(5) t(2) assms(2)] f(6,7)
    using l(2) t(1) by (simp add: journal_header_def)
qed

lemma read_record_short:
  assumes "text_fits msg" "base < u64_max" "0 < k" "k < length (record_bytes (padded digest) (base + 1) msg)"
  shows "read_record (padded digest) base (take k (record_bytes (padded digest) (base + 1) msg)) = Inr None"
proof -
  define f where "f = record_bytes (padded digest) (base + 1) msg"
  note g = record_fields [of digest "base + 1" msg "[]", unfolded append_Nil2, folded f_def]
  have len: "length (take k f) = k" using assms(4) by (simp add: f_def)
  show ?thesis
  proof (cases "k < 84")
    case True
    have "take (min k 8) (take k f) = take (min k 8) journal_magic"
      using g(1) by (metis min.commute min.left_idem take_take)
    then show ?thesis using True len unfolding read_record_def Let_def f_def [symmetric]
      by (simp add: journal_header_def)
  next
    case False
    have s: "take 8 (take k f) = journal_magic" "take 52 (take k f) = record_prefix (padded digest) (base + 1) msg"
      "take 32 (drop 52 (take k f)) =
        domain_checksum (padded digest) ''gatel.admin-intent.header.v1'' (record_prefix (padded digest) (base + 1) msg)"
      "take 8 (drop 8 (take k f)) = le_bytes 8 (base + 1)" "take 4 (drop 16 (take k f)) = le_bytes 4 (length msg)"
      using False g(1-5) take_drop_take [of 0 8 k f] take_drop_take [of 0 52 k f]
      by (simp_all add: take_drop_take)
    have l: "84 \<le> length (take k f)" "length msg \<le> max_payload" "length (take k f) - 84 < length msg"
      using False len assms(1,4) by (simp_all add: text_fits_def journal_header_def)
    show ?thesis unfolding f_def [symmetric]
      using read_record_header [OF l(1) s(1) s(2) s(3) s(4) s(5) l(2) assms(2)] l(3) by simp
  qed
qed

lemma read_record_exact:
  assumes "read_record digest base bs = Inr (Some (s, msg, n))"
  shows "text_fits msg \<and> base < u64_max \<and> s = base + 1 \<and> (\<exists>rest. bs = record_bytes digest s msg @ rest) \<and>
    n = length (record_bytes digest s msg)"
proof -
  let ?len = "le_value (take 4 (drop 16 bs))"
  have len: "84 \<le> length bs" and h: "take 32 (drop 52 bs) = domain_checksum digest ''gatel.admin-intent.header.v1'' (take 52 bs)"
    and m: "take 8 bs = journal_magic" and s: "s = base + 1" "base < u64_max" "le_value (take 8 (drop 8 bs)) = s"
    and l: "?len \<le> max_payload" "?len \<le> length bs - 84"
    and msg: "msg = take ?len (drop 84 bs)" and n: "n = 84 + ?len" and u: "utf8_valid msg"
    and p: "take 32 (drop 20 bs) = domain_checksum digest ''gatel.admin-intent.payload.v1'' msg"
    using assms by (auto simp: read_record_def Let_def journal_header_def checked_add_def min_def split: if_splits)
  have lt: "length msg = ?len" using msg l len by simp
  have "le_bytes 8 s = take 8 (drop 8 bs)" using le_bytes_value [of "take 8 (drop 8 bs)"] s(3) len by simp
  moreover have "le_bytes 4 (length msg) = take 4 (drop 16 bs)"
    using le_bytes_value [of "take 4 (drop 16 bs)"] lt len by simp
  ultimately have pre: "record_prefix digest s msg = take 8 bs @ take 8 (drop 8 bs) @ take 4 (drop 16 bs) @ take 32 (drop 20 bs)"
    by (simp add: record_prefix_def m p)
  have "take 52 bs = take 8 bs @ take (8 + (4 + 32)) (drop 8 bs)" using take_add [of 8 44 bs] by simp
  also have "\<dots> = take 8 bs @ take 8 (drop 8 bs) @ take 4 (drop 16 bs) @ take 32 (drop 20 bs)"
    by (simp only: take_add) simp
  finally have pre52: "record_prefix digest s msg = take 52 bs" using pre by simp
  have "bs = take 52 bs @ take 32 (drop 52 bs) @ drop 84 bs"
    using append_take_drop_id [of 52 bs] append_take_drop_id [of 32 "drop 52 bs"] by simp
  also have "drop 84 bs = msg @ drop (84 + ?len) bs"
    using append_take_drop_id [of ?len "drop 84 bs"] msg by (simp add: add.commute)
  finally have bs: "bs = record_bytes digest s msg @ drop (84 + ?len) bs"
    by (simp add: record_bytes_def pre52 h)
  have "record_bytes digest s msg = take 52 bs @ take 32 (drop 52 bs) @ msg" by (simp add: record_bytes_def pre52 h)
  then have "length (record_bytes digest s msg) = n" using len lt n by simp
  with bs s u l(1) lt show ?thesis unfolding text_fits_def by auto
qed

interpretation journal_log: framed_log "record_bytes (padded digest)" text_fits "read_record (padded digest)"
  rc_sequence rc_valid_bytes recovered_advance "\<lambda>r. r\<lparr>rc_incomplete_tail := True\<rparr>" "recover_loop (padded digest)"
  for digest
proof unfold_locales
  fix visit :: "nat \<Rightarrow> bytes \<Rightarrow> 'v \<Rightarrow> journal_error + 'v" and input r v
  show "recover_loop (padded digest) visit input r v =
      (if rc_valid_bytes r < length input then
         (case read_record (padded digest) (rc_sequence r) (drop (rc_valid_bytes r) input) of
            Inl e \<Rightarrow> Inl e
          | Inr None \<Rightarrow> Inr (r\<lparr>rc_incomplete_tail := True\<rparr>, v)
          | Inr (Some (s, p, n)) \<Rightarrow>
              and_then (visit s p v) (recover_loop (padded digest) visit input (recovered_advance s p n r)))
       else Inr (r, v))"
    by (subst recover_loop.simps) (auto simp: and_then_def split: sum.splits option.splits)
next
  show "record_bytes (padded digest) s p \<noteq> []" for s p
    by (simp add: record_bytes_def record_prefix_def journal_magic_def)
qed (blast intro: read_record_frame read_record_short dest: read_record_exact | simp add: recovered_advance_def)+

lemma journal_position:
  "journal_log.position_after digest ps r = r\<lparr>rc_sequence := rc_sequence r + length ps,
     rc_text := (if ps = [] then rc_text r else Some (last ps)),
     rc_valid_bytes := rc_valid_bytes r + length (frames (record_bytes (padded digest)) (rc_sequence r) ps)\<rparr>"
  by (induction ps arbitrary: r) (auto simp: recovered_advance_def)

lemma frames_length: "journal_header * length ps \<le> length (frames (record_bytes (padded digest)) base ps)"
  by (induction ps arbitrary: base) (auto simp: add_mono)

lemma frames_count: "length (frames (record_bytes (padded digest)) base ps) \<le> journal_max_log \<Longrightarrow> length ps < 1000000"
  using frames_length [of ps digest base] by (simp add: journal_header_def journal_max_log_def)

definition recovered_log :: "digest \<Rightarrow> bytes list \<Rightarrow> bool \<Rightarrow> recovered" where
  "recovered_log digest ps torn =
     \<lparr>rc_sequence = length ps, rc_text = (if ps = [] then None else Some (last ps)),
      rc_valid_bytes = length (frames (record_bytes digest) 0 ps), rc_incomplete_tail = torn\<rparr>"

lemma recovered_from_fields [simp]: "rc_sequence (recovered_from b) = b" "rc_valid_bytes (recovered_from b) = 0"
  by (simp_all add: recovered_from_def)

text \<open>Scanning a log of complete records, or one whose last append was cut short.\<close>

lemma recover_records:
  assumes "list_all text_fits ps" "length (frames (record_bytes (padded digest)) 0 ps) \<le> journal_max_log"
  shows "recover_each (padded digest) visit (frames (record_bytes (padded digest)) 0 ps) 0 v =
    and_then (visit_all visit 0 ps v) (\<lambda>v. Inr (recovered_log (padded digest) ps False, v))"
proof -
  have "length ps \<le> u64_max" using frames_count [OF assms(2)] by (simp add: u64_max_def)
  then show ?thesis
    using journal_log.scan_log [OF assms(1), of "recovered_from 0" digest visit v] assms(2)
    by (simp add: recover_each_def journal_position recovered_from_def recovered_log_def)
qed

lemma recover_torn:
  fixes digest ps
  defines "log \<equiv> frames (record_bytes (padded digest)) 0 ps"
  assumes "list_all text_fits ps" "text_fits p" "0 < k" "k < length (record_bytes (padded digest) (length ps + 1) p)"
    and "length log + k \<le> journal_max_log"
  shows "recover_each (padded digest) visit (log @ take k (record_bytes (padded digest) (length ps + 1) p)) 0 v =
    and_then (visit_all visit 0 ps v) (\<lambda>v. Inr (recovered_log (padded digest) ps True, v))"
proof -
  have "length ps < u64_max" using frames_count [of digest 0 ps] assms(6) by (simp add: u64_max_def log_def)
  moreover have "length (log @ take k (record_bytes (padded digest) (length ps + 1) p)) \<le> journal_max_log"
    using assms(5,6) by simp
  ultimately show ?thesis
    using journal_log.scan_torn [OF assms(2), of "recovered_from 0" p k digest visit v] assms(3-5)
    by (simp add: recover_each_def journal_position recovered_from_def recovered_log_def log_def)
qed

lemma recover_each_sound:
  assumes "recover_each (padded digest) visit input 0 v = Inr (r, v2)"
  shows "\<exists>ps tail. input = frames (record_bytes (padded digest)) 0 ps @ tail \<and> list_all text_fits ps \<and>
    visit_all visit 0 ps v = Inr v2 \<and> r = recovered_log (padded digest) ps (tail \<noteq> []) \<and>
    (tail \<noteq> [] \<longrightarrow> read_record (padded digest) (length ps) tail = Inr None)"
proof -
  have s: "recover_loop (padded digest) visit input (recovered_from 0) v = Inr (r, v2)"
    using assms by (simp add: recover_each_def split: if_splits)
  obtain ps tail where
    "input = frames (record_bytes (padded digest)) 0 ps @ tail" "list_all text_fits ps"
    "visit_all visit 0 ps v = Inr v2"
    "if tail = [] then r = journal_log.position_after digest ps (recovered_from 0)
     else r = (journal_log.position_after digest ps (recovered_from 0))\<lparr>rc_incomplete_tail := True\<rparr> \<and>
       read_record (padded digest) (length ps) tail = Inr None"
    using journal_log.scan_sound [OF s, unfolded recovered_from_fields drop_0 add_0] by blast
  then show ?thesis
    by (intro exI [of _ ps] exI [of _ tail])
      (auto simp: journal_position recovered_from_def recovered_log_def split: if_splits)
qed

subsection \<open>The store\<close>

datatype journal_fault =
  NotPrivate | NoSuchFile | LockHeld | OsError
| JournalFault journal_error | SizeLimit | InspectionOnly | PoisonedWriter | TornLog | SequenceSpent | CapacityExhausted
| LengthChanged | TailChanged | BadInstance | NoRoomToDecide

record journal_dir =
  jd_private :: bool
  jd_log :: "bytes option"
  jd_lock :: bool
  jd_held :: bool

record file_ops =
  fo_sync :: bool
  fo_read :: bool
  fo_stat :: bool
  fo_seek :: bool
  fo_persist :: "bytes \<Rightarrow> bytes \<Rightarrow> bytes \<times> bool"
  fo_truncate :: "bytes \<Rightarrow> nat \<Rightarrow> bytes \<times> bool"

definition file_ops_ok :: "file_ops \<Rightarrow> bool" where
  "file_ops_ok io \<longleftrightarrow>
     (\<forall>old bs new. fo_persist io old bs = (new, True) \<longrightarrow> new = old @ bs) \<and>
     (\<forall>old bs new. fo_persist io old bs = (new, False) \<longrightarrow> (\<exists>k. new = old @ take k bs)) \<and>
     (\<forall>old n new. fo_truncate io old n = (new, True) \<longrightarrow> new = take n old) \<and>
     (\<forall>old n new. fo_truncate io old n = (new, False) \<longrightarrow> new = old \<or> new = take n old)"

record journal_store =
  js_sequence :: nat
  js_text :: "bytes option"
  js_valid_bytes :: nat
  js_incomplete_tail :: bool
  js_tail_identity :: "fingerprint option"
  js_poisoned :: bool
  js_writable :: bool

definition tail_identity :: "digest \<Rightarrow> bytes \<Rightarrow> fingerprint" where
  "tail_identity digest bs = domain_checksum digest ''gatel.admin-intent.tail-observation.v1'' bs"

definition log_bytes :: "journal_dir \<Rightarrow> bytes" where
  "log_bytes dir = (case jd_log dir of None \<Rightarrow> [] | Some bs \<Rightarrow> bs)"

text \<open>\<open>WriterLock\<close>: dropped with its handle, on every path.\<close>

definition release_lock :: "journal_dir \<Rightarrow> journal_dir" where
  "release_lock dir = dir\<lparr>jd_held := False\<rparr>"

text \<open>\<open>Store::open_mode\<close>: \<open>create\<close> opens for writing and makes what is missing; otherwise nothing is created.\<close>

definition store_open_mode ::
  "digest \<Rightarrow> file_ops \<Rightarrow> (nat \<Rightarrow> bytes \<Rightarrow> 'v \<Rightarrow> journal_error + 'v) \<Rightarrow> bool \<Rightarrow> journal_dir \<Rightarrow> 'v \<Rightarrow>
     (journal_fault + journal_store \<times> 'v) \<times> journal_dir" where
  "store_open_mode digest io visit create dir v =
     (if \<not> jd_private dir then (Inl NotPrivate, dir)
      else if \<not> create \<and> \<not> jd_lock dir then (Inl NoSuchFile, dir)
      else
        let dir = dir\<lparr>jd_lock := True\<rparr> in
        if jd_held dir then (Inl LockHeld, dir)
        else if \<not> create \<and> jd_log dir = None then (Inl NoSuchFile, dir)
        else
          let bs = log_bytes dir; dir = dir\<lparr>jd_log := Some bs\<rparr> in
          if journal_max_log < length bs then (Inl SizeLimit, dir)
          else if \<not> fo_read io then (Inl OsError, dir)
          else (case recover_each digest visit bs 0 v of
              Inl e \<Rightarrow> (Inl (JournalFault e), dir)
            | Inr (r, v2) \<Rightarrow>
                if create \<and> \<not> fo_sync io then (Inl OsError, dir)
                else
                  (Inr (\<lparr>js_sequence = rc_sequence r, js_text = rc_text r, js_valid_bytes = rc_valid_bytes r,
                         js_incomplete_tail = rc_incomplete_tail r,
                         js_tail_identity = (if rc_incomplete_tail r then Some (tail_identity digest bs) else None),
                         js_poisoned = False, js_writable = create\<rparr>, v2),
                   dir\<lparr>jd_held := True\<rparr>)))"

definition remaining_capacity :: "journal_store \<Rightarrow> nat" where
  "remaining_capacity st = journal_max_log - js_valid_bytes st"

text \<open>\<open>Store::append_with\<close>: the handle is poisoned before the file is touched, and cured only by success.\<close>

definition store_append ::
  "digest \<Rightarrow> file_ops \<Rightarrow> bytes \<Rightarrow> journal_dir \<Rightarrow> journal_store \<Rightarrow> (journal_fault + nat) \<times> journal_dir \<times> journal_store" where
  "store_append digest io msg dir st =
     (if \<not> js_writable st then (Inl InspectionOnly, dir, st)
      else if js_poisoned st then (Inl PoisonedWriter, dir, st)
      else if js_incomplete_tail st then (Inl TornLog, dir, st)
      else (case checked_add u64_max (js_sequence st) 1 of
          None \<Rightarrow> (Inl SequenceSpent, dir, st)
        | Some sequence \<Rightarrow>
            (case journal_encode digest sequence msg of
               Inl e \<Rightarrow> (Inl (JournalFault e), dir, st)
             | Inr bs \<Rightarrow>
                 if journal_max_log - js_valid_bytes st < length bs then (Inl CapacityExhausted, dir, st)
                 else
                   let st = st\<lparr>js_poisoned := True\<rparr> in
                   if \<not> fo_stat io then (Inl OsError, dir, st)
                   else if length (log_bytes dir) \<noteq> js_valid_bytes st then (Inl LengthChanged, dir, st)
                   else if \<not> fo_seek io then (Inl OsError, dir, st)
                   else (case fo_persist io (log_bytes dir) bs of
                       (new, False) \<Rightarrow> (Inl OsError, dir\<lparr>jd_log := Some new\<rparr>, st)
                     | (new, True) \<Rightarrow>
                         (Inr sequence, dir\<lparr>jd_log := Some new\<rparr>,
                          st\<lparr>js_sequence := sequence, js_text := Some msg,
                            js_valid_bytes := js_valid_bytes st + length bs, js_poisoned := False\<rparr>)))))"

text \<open>\<open>Store::discard_tail_with\<close>: only the very tail that was seen when the log was opened.\<close>

definition discard_incomplete_tail ::
  "digest \<Rightarrow> file_ops \<Rightarrow> journal_dir \<Rightarrow> journal_store \<Rightarrow> (journal_fault + nat) \<times> journal_dir \<times> journal_store" where
  "discard_incomplete_tail digest io dir st =
     (if \<not> js_writable st then (Inl InspectionOnly, dir, st)
      else if js_poisoned st then (Inl PoisonedWriter, dir, st)
      else if \<not> js_incomplete_tail st then (Inr 0, dir, st)
      else
        let st = st\<lparr>js_poisoned := True\<rparr>; bs = log_bytes dir in
        if \<not> fo_stat io then (Inl OsError, dir, st)
        else if journal_max_log < length bs then (Inl SizeLimit, dir, st)
        else if \<not> fo_seek io \<or> \<not> fo_read io then (Inl OsError, dir, st)
        else (case recover digest bs 0 of
            Inl e \<Rightarrow> (Inl (JournalFault e), dir, st)
          | Inr r \<Rightarrow>
              if Some (tail_identity digest bs) \<noteq> js_tail_identity st \<or> \<not> rc_incomplete_tail r \<or>
                 rc_valid_bytes r \<noteq> js_valid_bytes st \<or> rc_sequence r \<noteq> js_sequence st \<or> rc_text r \<noteq> js_text st
              then (Inl TailChanged, dir, st)
              else (case fo_truncate io bs (js_valid_bytes st) of
                  (new, False) \<Rightarrow> (Inl OsError, dir\<lparr>jd_log := Some new\<rparr>, st)
                | (new, True) \<Rightarrow>
                    (Inr (length bs - js_valid_bytes st), dir\<lparr>jd_log := Some new\<rparr>,
                     st\<lparr>js_incomplete_tail := False, js_tail_identity := None, js_poisoned := False\<rparr>))))"

subsection \<open>The binding to one deployment\<close>

definition is_ascii_graphic :: "byte \<Rightarrow> bool" where
  "is_ascii_graphic c \<longleftrightarrow> 33 \<le> code c \<and> code c \<le> 126"

definition binding_prefix :: bytes where "binding_prefix = ''GATEL-INSTANCE1'' @ [CHR 0x0A]"

definition binding_record :: "digest \<Rightarrow> bytes \<Rightarrow> journal_fault + bytes" where
  "binding_record digest inst =
     (if inst = [] \<or> 256 < length inst \<or> \<not> list_all is_ascii_graphic inst then Inl BadInstance
      else Inr (binding_prefix @ fingerprint_text (domain_checksum digest ''gatel.admin-journal.instance.v1'' inst)))"

definition bound_visit ::
  "bytes \<Rightarrow> (nat \<Rightarrow> bytes \<Rightarrow> 'v \<Rightarrow> journal_error + 'v) \<Rightarrow> nat \<Rightarrow> bytes \<Rightarrow> 'v \<Rightarrow> journal_error + 'v" where
  "bound_visit expected visit sequence payload v =
     (if sequence = 1 then (if payload \<noteq> expected then Inl InvalidBinding else Inr v)
      else if starts_with binding_prefix payload then Inl InvalidBinding
      else visit sequence payload v)"

definition binding_open_mode ::
  "digest \<Rightarrow> file_ops \<Rightarrow> bytes \<Rightarrow> (nat \<Rightarrow> bytes \<Rightarrow> 'v \<Rightarrow> journal_error + 'v) \<Rightarrow> bool \<Rightarrow> journal_dir \<Rightarrow> 'v \<Rightarrow>
     (journal_fault + journal_store \<times> 'v) \<times> journal_dir" where
  "binding_open_mode digest io inst visit create dir v =
     (case binding_record digest inst of
        Inl e \<Rightarrow> (Inl e, dir)
      | Inr expected \<Rightarrow>
          (case store_open_mode digest io (bound_visit expected visit) create dir v of
             (Inl e, dir) \<Rightarrow> (Inl e, dir)
           | (Inr (st, v2), dir) \<Rightarrow>
               if js_sequence st = 0 then
                 if js_incomplete_tail st \<or> \<not> create then (Inl (JournalFault InvalidBinding), release_lock dir)
                 else (case store_append digest io expected dir st of
                     (Inl e, dir, _) \<Rightarrow> (Inl e, release_lock dir)
                   | (Inr _, dir, st) \<Rightarrow> (Inr (st, v2), dir))
               else (Inr (st, v2), dir)))"

subsection \<open>Transactions\<close>

record journal =
  jn_store :: journal_store
  jn_state :: tx_state
  jn_instance :: bytes

text \<open>\<open>Journal::open\<close> with \<open>create\<close>, \<open>Journal::open_existing\<close> without.\<close>

definition journal_open ::
  "digest \<Rightarrow> file_ops \<Rightarrow> bytes \<Rightarrow> bool \<Rightarrow> journal_dir \<Rightarrow> (journal_fault + journal) \<times> journal_dir" where
  "journal_open digest io inst create dir =
     (case binding_open_mode digest io inst tx_accept create dir tx_default of
        (Inl e, dir) \<Rightarrow> (Inl e, dir)
      | (Inr (st, state), dir) \<Rightarrow> (Inr \<lparr>jn_store = st, jn_state = state, jn_instance = inst\<rparr>, dir))"

definition journal_append ::
  "digest \<Rightarrow> file_ops \<Rightarrow> bytes \<Rightarrow> journal_dir \<Rightarrow> journal \<Rightarrow> (journal_fault + nat) \<times> journal_dir \<times> journal" where
  "journal_append digest io payload dir j =
     (case checked_add u64_max (js_sequence (jn_store j)) 1 of
        None \<Rightarrow> (Inl (JournalFault InvalidRecord), dir, j)
      | Some sequence \<Rightarrow>
          (case tx_accept sequence payload (jn_state j) of
             Inl _ \<Rightarrow> (Inl (JournalFault InvalidRecord), dir, j)
           | Inr candidate \<Rightarrow>
               (case store_append digest io payload dir (jn_store j) of
                  (Inl e, dir, st) \<Rightarrow> (Inl e, dir, j\<lparr>jn_store := st\<rparr>)
                | (Inr written, dir, st) \<Rightarrow> (Inr written, dir, j\<lparr>jn_store := st, jn_state := candidate\<rparr>))))"

definition journal_begin ::
  "digest \<Rightarrow> file_ops \<Rightarrow> bytes \<Rightarrow> journal_dir \<Rightarrow> journal \<Rightarrow> (journal_fault + nat) \<times> journal_dir \<times> journal" where
  "journal_begin digest io msg dir j =
     (if admin_max_body < length msg then (Inl (JournalFault InvalidRecord), dir, j)
      else if remaining_capacity (jn_store j) < journal_header + length intent_prefix + length msg + decision_reserve
        then (Inl NoRoomToDecide, dir, j)
      else journal_append digest io (intent_prefix @ msg) dir j)"

fun decision_prefix :: "tx_decision \<Rightarrow> bytes" where
  "decision_prefix TxApplied = applied_prefix"
| "decision_prefix TxRejected = rejected_prefix"

definition journal_finish ::
  "digest \<Rightarrow> file_ops \<Rightarrow> nat \<Rightarrow> tx_decision \<Rightarrow> journal_dir \<Rightarrow> journal \<Rightarrow> (journal_fault + nat) \<times> journal_dir \<times> journal" where
  "journal_finish digest io referenced verdict dir j =
     journal_append digest io (decision_prefix verdict @ show_nat referenced) dir j"

definition journal_discard ::
  "digest \<Rightarrow> file_ops \<Rightarrow> journal_dir \<Rightarrow> journal \<Rightarrow> (journal_fault + nat) \<times> journal_dir \<times> journal" where
  "journal_discard digest io dir j =
     (case discard_incomplete_tail digest io dir (jn_store j) of (r, dir, st) \<Rightarrow> (r, dir, j\<lparr>jn_store := st\<rparr>))"

text \<open>
  A directory and the one handle on it: opening, every call of the handle, and losing it at any moment.
  What the file system does in each call is unconstrained up to \<open>file_ops_ok\<close>; texts are Rust strings.
\<close>

inductive journal_step :: "digest \<Rightarrow> bytes \<Rightarrow> journal_dir \<times> journal option \<Rightarrow> journal_dir \<times> journal option \<Rightarrow> bool"
  for digest :: digest and inst :: bytes where
  opened: "file_ops_ok io \<Longrightarrow> journal_open digest io inst create dir = (Inr j, dir2) \<Longrightarrow>
    journal_step digest inst (dir, None) (dir2, Some j)"
| open_failed: "file_ops_ok io \<Longrightarrow> journal_open digest io inst create dir = (Inl e, dir2) \<Longrightarrow>
    journal_step digest inst (dir, None) (dir2, None)"
| began: "file_ops_ok io \<Longrightarrow> utf8_valid msg \<Longrightarrow> journal_begin digest io msg dir j = (res, dir2, j2) \<Longrightarrow>
    journal_step digest inst (dir, Some j) (dir2, Some j2)"
| finished: "file_ops_ok io \<Longrightarrow> referenced \<le> u64_max \<Longrightarrow>
    journal_finish digest io referenced verdict dir j = (res, dir2, j2) \<Longrightarrow>
    journal_step digest inst (dir, Some j) (dir2, Some j2)"
| discarded: "file_ops_ok io \<Longrightarrow> journal_discard digest io dir j = (res, dir2, j2) \<Longrightarrow>
    journal_step digest inst (dir, Some j) (dir2, Some j2)"
| crashed: "journal_step digest inst (dir, Some j) (release_lock dir, None)"

end
