(* ===== verification/Ledger.thy ===== *)
theory Ledger
  imports Journal
begin

text \<open>
  What the admin journal guarantees: its log stands for a ledger of settled intents with at most one
  open intent, through every call, failed write and crash; and damage to the log is never mistaken for
  an unfinished write.
\<close>

subsection \<open>The ledger\<close>

text \<open>
  What the journal promises: a list of settled intents, each with its one decision, and at most one
  intent whose outcome is unknown. \<open>ledger_records\<close> is the only sequence of payloads that stands for a
  ledger in a log, and \<open>ledger_state\<close> what replaying it must give.
\<close>

record ledger =
  settled :: "(bytes \<times> tx_decision) list"
  pending :: "bytes option"

definition ledger_empty :: ledger where
  "ledger_empty = \<lparr>settled = [], pending = None\<rparr>"

inductive ledger_step :: "ledger \<Rightarrow> ledger \<Rightarrow> bool" where
  ledger_begin: "pending led = None \<Longrightarrow> ledger_step led (led\<lparr>pending := Some msg\<rparr>)"
| ledger_settle: "pending led = Some msg \<Longrightarrow>
    ledger_step led (led\<lparr>settled := settled led @ [(msg, verdict)], pending := None\<rparr>)"

fun settled_records :: "nat \<Rightarrow> (bytes \<times> tx_decision) list \<Rightarrow> bytes list" where
  "settled_records n [] = []"
| "settled_records n ((msg, verdict) # xs) =
     (intent_prefix @ msg) # (decision_prefix verdict @ show_nat n) # settled_records (n + 2) xs"

definition ledger_records :: "bytes \<Rightarrow> ledger \<Rightarrow> bytes list" where
  "ledger_records expected led =
     expected # settled_records 2 (settled led) @ (case pending led of None \<Rightarrow> [] | Some msg \<Rightarrow> [intent_prefix @ msg])"

fun settled_state :: "nat \<Rightarrow> (bytes \<times> tx_decision) list \<Rightarrow> tx_state \<Rightarrow> tx_state" where
  "settled_state n [] st = st"
| "settled_state n ((msg, verdict) # xs) st =
     settled_state (n + 2) xs
       \<lparr>tx_latest = Some \<lparr>ti_sequence = n, ti_text = msg\<rparr>,
        tx_applied = (if verdict = TxApplied then Some \<lparr>ti_sequence = n, ti_text = msg\<rparr> else tx_applied st),
        tx_decision = Some verdict\<rparr>"

definition ledger_state :: "ledger \<Rightarrow> tx_state" where
  "ledger_state led =
     (let st = settled_state 2 (settled led) tx_default in
      case pending led of
        None \<Rightarrow> st
      | Some msg \<Rightarrow>
          st\<lparr>tx_latest := Some \<lparr>ti_sequence = 2 + 2 * length (settled led), ti_text = msg\<rparr>, tx_decision := None\<rparr>)"

definition ledger_ok :: "ledger \<Rightarrow> bool" where
  "ledger_ok led \<longleftrightarrow> list_all (\<lambda>msg. utf8_valid msg \<and> length msg \<le> admin_max_body)
     (map fst (settled led) @ (case pending led of None \<Rightarrow> [] | Some msg \<Rightarrow> [msg]))"

lemmas prefix_defs = intent_prefix_def applied_prefix_def rejected_prefix_def binding_prefix_def

lemma strip_prefix_decision:
  "strip_prefix intent_prefix (decision_prefix verdict @ r) = None"
  "strip_prefix applied_prefix (rejected_prefix @ r) = None"
  by (cases verdict; simp add: strip_prefix_def prefix_defs)+

lemma not_binding [simp]:
  "\<not> starts_with binding_prefix (intent_prefix @ r)" "\<not> starts_with binding_prefix (decision_prefix verdict @ r)"
  by (cases verdict; simp add: starts_with_def strip_prefix_def prefix_defs)+

definition resolved :: "tx_state \<Rightarrow> bool" where
  "resolved st \<longleftrightarrow> tx_latest st = None \<and> tx_decision st = None \<or> tx_latest st \<noteq> None \<and> tx_decision st \<noteq> None"

lemma tx_accept_intent:
  "tx_accept n (intent_prefix @ msg) st =
    (if admin_max_body < length msg \<or> (tx_latest st \<noteq> None \<and> tx_decision st = None) then Inl InvalidRecord
     else Inr (st\<lparr>tx_latest := Some \<lparr>ti_sequence = n, ti_text = msg\<rparr>, tx_decision := None\<rparr>))"
  by (simp add: tx_accept_def)

lemma tx_accept_decision: "tx_accept n (decision_prefix verdict @ r) st = decide verdict r st"
  using strip_prefix_decision(1) [of verdict r] by (cases verdict) (simp_all add: tx_accept_def strip_prefix_decision(2))

lemma decide_shown:
  "n \<le> u64_max \<Longrightarrow> decide verdict (show_nat n) st =
    (if tx_decision st \<noteq> None \<or> (case tx_latest st of None \<Rightarrow> True | Some i \<Rightarrow> ti_sequence i \<noteq> n) then Inl InvalidRecord
     else Inr (st\<lparr>tx_applied := (if verdict = TxApplied then tx_latest st else tx_applied st), tx_decision := Some verdict\<rparr>))"
  by (simp add: decide_def parse_show_nat Let_def)

lemma settled_state_resolved: "resolved st \<Longrightarrow> resolved (settled_state n xs st)"
  by (induction n xs st rule: settled_state.induct) (simp_all add: resolved_def)

lemma tx_default_resolved [simp]: "resolved tx_default"
  by (simp add: resolved_def tx_default_def)

lemma settled_state_append:
  "settled_state n (xs @ ys) st = settled_state (n + 2 * length xs) ys (settled_state n xs st)"
  by (induction n xs st rule: settled_state.induct) simp_all

lemma settled_records_append: "settled_records n (xs @ ys) = settled_records n xs @ settled_records (n + 2 * length xs) ys"
  by (induction n xs rule: settled_records.induct) simp_all

lemma length_settled_records [simp]: "length (settled_records n xs) = 2 * length xs"
  by (induction n xs rule: settled_records.induct) simp_all

text \<open>Replaying the records of a ledger gives its state, whatever the decisions were.\<close>

lemma replay_settled:
  assumes "list_all (\<lambda>(msg, _). length msg \<le> admin_max_body) xs" "resolved st" "n + 2 * length xs \<le> u64_max" "2 \<le> n"
  shows "visit_all (bound_visit expected tx_accept) (n - 1) (settled_records n xs) st = Inr (settled_state n xs st)"
  using assms
proof (induction n xs st rule: settled_state.induct)
  case (2 n msg verdict xs st)
  let ?v = "bound_visit expected tx_accept"
  let ?s = "\<lparr>tx_latest = Some \<lparr>ti_sequence = n, ti_text = msg\<rparr>,
        tx_applied = (if verdict = TxApplied then Some \<lparr>ti_sequence = n, ti_text = msg\<rparr> else tx_applied st),
        tx_decision = Some verdict\<rparr>"
  have n: "n \<noteq> 1" "n + 1 \<noteq> 1" "n - 1 + 1 = n" "n \<le> u64_max" using "2.prems" by auto
  have a: "?v n (intent_prefix @ msg) st = Inr (st\<lparr>tx_latest := Some \<lparr>ti_sequence = n, ti_text = msg\<rparr>, tx_decision := None\<rparr>)"
    using "2.prems"(1,2) n(1) by (auto simp: bound_visit_def tx_accept_intent resolved_def)
  have d: "?v (n + 1) (decision_prefix verdict @ show_nat n)
      (st\<lparr>tx_latest := Some \<lparr>ti_sequence = n, ti_text = msg\<rparr>, tx_decision := None\<rparr>) = Inr ?s"
    using n by (simp add: bound_visit_def tx_accept_decision decide_shown)
  have "visit_all ?v (n + 2 - 1) (settled_records (n + 2) xs) ?s = Inr (settled_state (n + 2) xs ?s)"
    using "2.prems" by (intro "2.IH") (simp_all add: resolved_def)
  then show ?case using a d n(3) by simp
qed simp

lemma settled_bounded: "ledger_ok led \<Longrightarrow> list_all (\<lambda>(msg, _). length msg \<le> admin_max_body) (settled led)"
  by (auto simp: ledger_ok_def list.pred_map comp_def elim!: list.pred_mono_strong)

lemma length_ledger_records: "length (ledger_records expected led) = 1 + 2 * length (settled led) + (if pending led = None then 0 else 1)"
  by (auto simp: ledger_records_def split: option.splits)

lemma replay_ledger:
  assumes "ledger_ok led" "length (ledger_records expected led) < u64_max"
  shows "visit_all (bound_visit expected tx_accept) 0 (ledger_records expected led) tx_default = Inr (ledger_state led)"
proof -
  let ?v = "bound_visit expected tx_accept" and ?s = "settled_state 2 (settled led) tx_default"
  have l: "2 + 2 * length (settled led) \<le> u64_max" using assms(2) unfolding length_ledger_records by simp
  have s: "visit_all ?v 1 (settled_records 2 (settled led)) tx_default = Inr ?s"
    using replay_settled [OF settled_bounded [OF assms(1)] tx_default_resolved l] by simp
  have b: "?v 1 expected tx_default = Inr tx_default" by (simp add: bound_visit_def)
  show ?thesis
  proof (cases "pending led")
    case None
    then show ?thesis using s b by (simp add: ledger_records_def ledger_state_def)
  next
    case (Some msg)
    have "resolved ?s" by (rule settled_state_resolved) simp
    then have "?v (1 + 2 * length (settled led) + 1) (intent_prefix @ msg) ?s =
        Inr (?s\<lparr>tx_latest := Some \<lparr>ti_sequence = 2 + 2 * length (settled led), ti_text = msg\<rparr>, tx_decision := None\<rparr>)"
      using assms(1) Some by (auto simp: bound_visit_def tx_accept_intent ledger_ok_def resolved_def)
    then show ?thesis using s b Some
      by (simp add: ledger_records_def ledger_state_def visit_all_append)
  qed
qed

text \<open>Which records a journal in the state of a ledger accepts, and the ledger each leads to.\<close>

lemma accept_begin:
  assumes "tx_accept (length (ledger_records expected led) + 1) (intent_prefix @ msg) (ledger_state led) = Inr st"
  shows "pending led = None \<and> length msg \<le> admin_max_body \<and> st = ledger_state (led\<lparr>pending := Some msg\<rparr>) \<and>
    ledger_records expected (led\<lparr>pending := Some msg\<rparr>) = ledger_records expected led @ [intent_prefix @ msg]"
proof -
  have "pending led = None"
    using assms by (auto simp: tx_accept_intent ledger_state_def Let_def split: if_splits option.splits)
  then show ?thesis using assms
    by (auto simp: tx_accept_intent ledger_state_def ledger_records_def Let_def split: if_splits)
qed

lemma accept_settle:
  assumes "tx_accept s (decision_prefix verdict @ show_nat n) (ledger_state led) = Inr st" "n \<le> u64_max"
  shows "\<exists>msg. pending led = Some msg \<and>
    st = ledger_state (led\<lparr>settled := settled led @ [(msg, verdict)], pending := None\<rparr>) \<and>
    ledger_records expected (led\<lparr>settled := settled led @ [(msg, verdict)], pending := None\<rparr>) =
      ledger_records expected led @ [decision_prefix verdict @ show_nat n]"
proof (cases "pending led")
  case None
  have "resolved (settled_state 2 (settled led) tx_default)" by (rule settled_state_resolved) simp
  then show ?thesis using assms None
    by (auto simp: tx_accept_decision decide_shown ledger_state_def resolved_def split: if_splits option.splits)
next
  case (Some msg)
  then have "n = 2 + 2 * length (settled led)"
    using assms by (simp add: tx_accept_decision decide_shown ledger_state_def split: if_splits)
  with Some assms show ?thesis
    by (auto simp: tx_accept_decision decide_shown ledger_state_def ledger_records_def settled_state_append
        settled_records_append split: if_splits)
qed

subsection \<open>The log on disk stands for a ledger\<close>

lemma utf8_valid_all_ascii: "list_all (\<lambda>c. code c < 0x80) s \<Longrightarrow> utf8_valid (s @ t) = utf8_valid t"
  by (induction s) simp_all

lemma length_show_nat: "n < 10 ^ k \<Longrightarrow> 0 < k \<Longrightarrow> length (show_nat n) \<le> k"
proof (induction n arbitrary: k rule: show_nat.induct)
  case (1 n)
  show ?case
  proof (cases "n < 10")
    case True
    with 1 show ?thesis by (subst show_nat.simps) simp
  next
    case False
    then have k: "1 < k" using 1 by (cases k; cases "k - 1") auto
    have "n div 10 < 10 ^ (k - 1)" using "1.prems"(1) k by (simp add: div_less_iff_less_mult power_eq_if mult.commute)
    with "1.IH" [of "k - 1"] False k have "length (show_nat (n div 10)) \<le> k - 1" by simp
    with False k show ?thesis by (subst show_nat.simps) simp
  qed
qed

lemma show_nat_ascii: "list_all (\<lambda>c. code c < 0x80) (show_nat n)"
  using show_nat_digits [of n] by (auto simp: list_all_iff is_ascii_digit_def)

lemma prefixes_ascii:
  "list_all (\<lambda>c. code c < 0x80) intent_prefix" "list_all (\<lambda>c. code c < 0x80) (decision_prefix verdict)"
  "list_all (\<lambda>c. code c < 0x80) binding_prefix"
  by (cases verdict; simp add: prefix_defs)+

lemma prefix_lengths: "length intent_prefix = 12" "length (decision_prefix verdict) = 12" "length applied_prefix = 12"
  "length binding_prefix = 16"
  by (cases verdict; simp add: prefix_defs)+

lemma intent_fits: "utf8_valid msg \<Longrightarrow> length msg \<le> admin_max_body \<Longrightarrow> text_fits (intent_prefix @ msg)"
  by (simp add: text_fits_def utf8_valid_all_ascii prefixes_ascii prefix_lengths max_payload_def)

lemma decision_fits:
  assumes "n \<le> u64_max"
  shows "text_fits (decision_prefix verdict @ show_nat n)" "length (decision_prefix verdict @ show_nat n) \<le> 32"
proof -
  have "length (show_nat n) \<le> 20" using assms by (intro length_show_nat) (simp_all add: u64_max_def)
  then show "length (decision_prefix verdict @ show_nat n) \<le> 32" by (simp add: prefix_lengths)
  then show "text_fits (decision_prefix verdict @ show_nat n)"
    using utf8_valid_all_ascii [OF show_nat_ascii, of n "[]"]
    by (simp add: text_fits_def utf8_valid_all_ascii prefixes_ascii max_payload_def)
qed

lemma fingerprint_text_ascii: "list_all (\<lambda>c. code c < 0x80) (fingerprint_text f)"
proof -
  have "code c < 0x80" if "c \<in> set (hex_byte b)" for b c
    using hex_byte_set [of b] that by auto
  then show ?thesis by (auto simp: fingerprint_text_def list_all_iff)
qed

lemma length_fingerprint_text: "length (fingerprint_text f) = 2 * length f"
  by (induction f) (simp_all add: fingerprint_text_def hex_byte_def Let_def)

lemma binding_fits:
  assumes "binding_record (padded digest) inst = Inr expected"
  shows "text_fits expected"
proof -
  obtain f where e: "expected = binding_prefix @ fingerprint_text f" "length f = 32"
    using assms length_domain_checksum [of digest] by (auto simp: binding_record_def split: if_splits)
  then show ?thesis
    using utf8_valid_all_ascii [OF fingerprint_text_ascii, of f "[]"]
    by (simp add: text_fits_def utf8_valid_all_ascii prefixes_ascii prefix_lengths length_fingerprint_text
        max_payload_def admin_max_body_def)
qed

lemma settled_records_fit:
  "list_all (\<lambda>(msg, _). utf8_valid msg \<and> length msg \<le> admin_max_body) xs \<Longrightarrow> n + 2 * length xs \<le> u64_max \<Longrightarrow>
   list_all text_fits (settled_records n xs)"
  by (induction n xs rule: settled_records.induct) (simp_all add: intent_fits decision_fits)

lemma ledger_records_fit:
  assumes "ledger_ok led" "text_fits expected" "length (ledger_records expected led) < u64_max"
  shows "list_all text_fits (ledger_records expected led)"
proof -
  have "list_all (\<lambda>(msg, _). utf8_valid msg \<and> length msg \<le> admin_max_body) (settled led)"
    using assms(1) by (auto simp: ledger_ok_def list.pred_map comp_def elim!: list.pred_mono_strong)
  moreover have "2 + 2 * length (settled led) \<le> u64_max" using assms(3) unfolding length_ledger_records by simp
  ultimately have "list_all text_fits (settled_records 2 (settled led))" by (rule settled_records_fit)
  then show ?thesis using assms(1,2)
    by (auto simp: ledger_records_def ledger_ok_def intent_fits split: option.splits)
qed

definition torn_record :: "digest \<Rightarrow> nat \<Rightarrow> bytes \<Rightarrow> bool" where
  "torn_record digest n tail \<longleftrightarrow>
     (\<exists>p k. text_fits p \<and> 0 < k \<and> k < length (record_bytes digest (n + 1) p) \<and> tail = take k (record_bytes digest (n + 1) p))"

definition disk_holds :: "digest \<Rightarrow> bytes \<Rightarrow> ledger \<Rightarrow> journal_dir \<Rightarrow> bytes list \<Rightarrow> bytes \<Rightarrow> bool" where
  "disk_holds digest expected led dir ps tail \<longleftrightarrow>
     log_bytes dir = frames (record_bytes digest) 0 ps @ tail \<and>
     (ps = [] \<and> led = ledger_empty \<or> ps = ledger_records expected led) \<and> ledger_ok led \<and>
     (tail = [] \<or> torn_record digest (length ps) tail) \<and> length (log_bytes dir) \<le> journal_max_log \<and>
     (pending led \<noteq> None \<longrightarrow> length (frames (record_bytes digest) 0 ps) + decision_reserve \<le> journal_max_log)"

definition store_of :: "digest \<Rightarrow> bytes list \<Rightarrow> bytes \<Rightarrow> bool \<Rightarrow> journal_store" where
  "store_of digest ps tail writable =
     \<lparr>js_sequence = length ps, js_text = (if ps = [] then None else Some (last ps)),
      js_valid_bytes = length (frames (record_bytes digest) 0 ps), js_incomplete_tail = (tail \<noteq> []),
      js_tail_identity = (if tail \<noteq> [] then Some (tail_identity digest (frames (record_bytes digest) 0 ps @ tail)) else None),
      js_poisoned = False, js_writable = writable\<rparr>"

definition handle_matches :: "digest \<Rightarrow> ledger \<Rightarrow> bytes list \<Rightarrow> bytes \<Rightarrow> journal \<Rightarrow> bool" where
  "handle_matches digest led ps tail j \<longleftrightarrow>
     js_poisoned (jn_store j) \<or>
     ps \<noteq> [] \<and> jn_state j = ledger_state led \<and> jn_store j = store_of digest ps tail (js_writable (jn_store j))"

definition journal_inv :: "digest \<Rightarrow> bytes \<Rightarrow> ledger \<Rightarrow> journal_dir \<times> journal option \<Rightarrow> bool" where
  "journal_inv digest expected led s \<longleftrightarrow>
     (\<exists>ps tail. disk_holds digest expected led (fst s) ps tail \<and>
        (case snd s of
           None \<Rightarrow> \<not> jd_held (fst s)
         | Some j \<Rightarrow> jd_held (fst s) \<and> handle_matches digest led ps tail j))"

text \<open>Reading the log of a ledger back: the complete records, the state of the ledger, the torn tail.\<close>

lemma disk_records:
  assumes "disk_holds digest expected led dir ps tail" "padded digest = digest" "text_fits expected"
  shows "list_all text_fits ps \<and> length ps < 1000000 \<and>
    visit_all (bound_visit expected tx_accept) 0 ps tx_default = Inr (ledger_state led)"
proof -
  have "length (frames (record_bytes digest) 0 ps) \<le> journal_max_log" using assms(1) by (auto simp: disk_holds_def)
  then have n: "length ps < 1000000" using frames_count [of digest 0 ps] assms(2) by simp
  show ?thesis
  proof (cases "ps = []")
    case True
    then have "led = ledger_empty" using assms(1) by (auto simp: disk_holds_def ledger_records_def)
    with True show ?thesis by (simp add: ledger_empty_def ledger_state_def)
  next
    case False
    then have ps: "ps = ledger_records expected led" and ok: "ledger_ok led" using assms(1) by (auto simp: disk_holds_def)
    have u: "length (ledger_records expected led) < u64_max" using n ps by (simp add: u64_max_def)
    show ?thesis using ledger_records_fit [OF ok assms(3) u] replay_ledger [OF ok u] n ps by simp
  qed
qed

lemma disk_recover:
  assumes h: "disk_holds digest expected led dir ps tail" and d: "padded digest = digest" and x: "list_all text_fits ps"
  shows "recover_each digest visit (log_bytes dir) 0 v =
    and_then (visit_all visit 0 ps v) (\<lambda>v. Inr (recovered_log digest ps (tail \<noteq> []), v))"
proof (cases "tail = []")
  case True
  then have "log_bytes dir = frames (record_bytes digest) 0 ps" "length (log_bytes dir) \<le> journal_max_log"
    using h by (auto simp: disk_holds_def)
  then show ?thesis using recover_records [OF x, of digest visit v] d True by simp
next
  case False
  then obtain p k where t: "text_fits p" "0 < k" "k < length (record_bytes digest (length ps + 1) p)"
      "tail = take k (record_bytes digest (length ps + 1) p)"
    using h by (auto simp: disk_holds_def torn_record_def)
  have "length (frames (record_bytes digest) 0 ps) + k \<le> journal_max_log" using h t(3,4) by (auto simp: disk_holds_def)
  then show ?thesis using recover_torn [OF x t(1,2), of digest visit v] h d t(3,4) False by (simp add: disk_holds_def)
qed

text \<open>
  The outcomes of an append: nothing happened; the file system failed and some part of the record is in
  the log; or the record is in the log and the handle knows it.
\<close>

lemma store_append_outcome:
  assumes "store_append digest io msg dir st = (res, dir2, st2)" "file_ops_ok io" "padded digest = digest"
  shows "dir2 = dir \<and> (\<exists>e. res = Inl e) \<and> (st2 = st \<or> st2 = st\<lparr>js_poisoned := True\<rparr>) \<or>
    js_writable st \<and> \<not> js_poisoned st \<and> \<not> js_incomplete_tail st \<and> js_sequence st < u64_max \<and> length msg \<le> max_payload \<and>
    js_valid_bytes st + length (record_bytes digest (js_sequence st + 1) msg) \<le> journal_max_log \<and>
    length (log_bytes dir) = js_valid_bytes st \<and>
    ((\<exists>k. dir2 = dir\<lparr>jd_log := Some (log_bytes dir @ take k (record_bytes digest (js_sequence st + 1) msg))\<rparr>) \<and>
       res = Inl OsError \<and> st2 = st\<lparr>js_poisoned := True\<rparr> \<or>
     dir2 = dir\<lparr>jd_log := Some (log_bytes dir @ record_bytes digest (js_sequence st + 1) msg)\<rparr> \<and>
       res = Inr (js_sequence st + 1) \<and>
       st2 = st\<lparr>js_sequence := js_sequence st + 1, js_text := Some msg,
         js_valid_bytes := js_valid_bytes st + length (record_bytes digest (js_sequence st + 1) msg), js_poisoned := False\<rparr>)"
  (is "?a \<or> ?b")
proof (cases "js_writable st \<and> \<not> js_poisoned st \<and> \<not> js_incomplete_tail st \<and> js_sequence st < u64_max \<and>
    length msg \<le> max_payload \<and> length (record_bytes digest (js_sequence st + 1) msg) \<le> journal_max_log - js_valid_bytes st \<and>
    fo_stat io \<and> length (log_bytes dir) = js_valid_bytes st \<and> fo_seek io")
  case False
  then have ?a using assms(1)
    by (auto simp: store_append_def journal_encode_def checked_add_def Let_def split: if_splits)
  then show ?thesis ..
next
  case True
  let ?r = "record_bytes digest (js_sequence st + 1) msg"
  obtain new ok where w: "fo_persist io (log_bytes dir) ?r = (new, ok)" by fastforce
  have "0 < length ?r" using length_record [of digest "js_sequence st + 1" msg] assms(3) by (simp add: journal_header_def)
  then have c: "js_valid_bytes st + length ?r \<le> journal_max_log" using True by linarith
  have n: "if ok then new = log_bytes dir @ ?r else \<exists>k. new = log_bytes dir @ take k ?r"
    using assms(2) w by (auto simp: file_ops_ok_def)
  have "(res, dir2, st2) = (if ok
      then (Inr (js_sequence st + 1), dir\<lparr>jd_log := Some new\<rparr>,
        st\<lparr>js_sequence := js_sequence st + 1, js_text := Some msg, js_valid_bytes := js_valid_bytes st + length ?r, js_poisoned := False\<rparr>)
      else (Inl OsError, dir\<lparr>jd_log := Some new\<rparr>, st\<lparr>js_poisoned := True\<rparr>))"
    using assms(1) True w
    by (simp add: store_append_def journal_encode_def checked_add_def Let_def not_less split: if_splits bool.splits)
  then have ?b using True c n by (auto split: if_splits)
  then show ?thesis ..
qed

lemma handle_poison: "js_poisoned (jn_store j) \<Longrightarrow> handle_matches digest led ps tail j"
  by (simp add: handle_matches_def)

lemma log_bytes_put [simp]: "log_bytes (dir\<lparr>jd_log := Some bs\<rparr>) = bs"
  by (simp add: log_bytes_def)

text \<open>What part of a record a failed write left behind decides between the old log, the new one, and a torn one.\<close>

lemma disk_partial:
  assumes h: "disk_holds digest expected led dir ps []" and p: "text_fits p"
    and c: "length (frames (record_bytes digest) 0 (ps @ [p])) \<le> journal_max_log"
    and n: "disk_holds digest expected led2 (dir\<lparr>jd_log := Some (frames (record_bytes digest) 0 (ps @ [p]))\<rparr>) (ps @ [p]) []"
  shows "\<exists>tail. disk_holds digest expected led (dir\<lparr>jd_log := Some (log_bytes dir @ take k (record_bytes digest (length ps + 1) p))\<rparr>) ps tail \<or>
    disk_holds digest expected led2 (dir\<lparr>jd_log := Some (log_bytes dir @ take k (record_bytes digest (length ps + 1) p))\<rparr>) (ps @ [p]) tail"
proof -
  let ?r = "record_bytes digest (length ps + 1) p"
  have b: "log_bytes dir = frames (record_bytes digest) 0 ps" using h by (simp add: disk_holds_def)
  consider "k = 0" | "0 < k" "k < length ?r" | "length ?r \<le> k" by linarith
  then show ?thesis
  proof cases
    case 1
    then have "disk_holds digest expected led (dir\<lparr>jd_log := Some (log_bytes dir @ take k ?r)\<rparr>) ps []"
      using h by (auto simp: disk_holds_def)
    then show ?thesis by blast
  next
    case 2
    then have "torn_record digest (length ps) (take k ?r)" unfolding torn_record_def using p by blast
    moreover have "length (log_bytes dir @ take k ?r) \<le> journal_max_log"
      using c 2 unfolding b by (simp add: frames_append)
    ultimately have "disk_holds digest expected led (dir\<lparr>jd_log := Some (log_bytes dir @ take k ?r)\<rparr>) ps (take k ?r)"
      using h b by (auto simp: disk_holds_def)
    then show ?thesis by blast
  next
    case 3
    then have "log_bytes dir @ take k ?r = frames (record_bytes digest) 0 (ps @ [p])" unfolding b by (simp add: frames_append)
    then show ?thesis using n by metis
  qed
qed

text \<open>The record that takes the log of one ledger to the log of another.\<close>

definition record_for :: "digest \<Rightarrow> bytes \<Rightarrow> ledger \<Rightarrow> bytes list \<Rightarrow> bytes \<Rightarrow> ledger \<Rightarrow> bool" where
  "record_for digest expected led ps payload led2 \<longleftrightarrow>
     (led2 = led \<or> ledger_step led led2) \<and> ledger_ok led2 \<and> ledger_records expected led2 = ps @ [payload] \<and>
     (pending led2 \<noteq> None \<longrightarrow> length (frames (record_bytes digest) 0 (ps @ [payload])) + decision_reserve \<le> journal_max_log)"

lemma store_append_keeps:
  assumes a: "store_append digest io p dir (store_of digest ps tail w) = (res, dir2, st2)"
    and h: "disk_holds digest expected led dir ps tail" and d: "padded digest = digest" and io: "file_ops_ok io"
    and p: "text_fits p" and r: "record_for digest expected led ps p led2"
  shows "(\<exists>e. res = Inl e) \<and> st2 = store_of digest ps tail w \<and> dir2 = dir \<or>
    (\<exists>e. res = Inl e) \<and> js_poisoned st2 \<and> jd_held dir2 = jd_held dir \<and>
      (\<exists>tail2. disk_holds digest expected led dir2 ps tail2 \<or> disk_holds digest expected led2 dir2 (ps @ [p]) tail2) \<or>
    res = Inr (length ps + 1) \<and> st2 = store_of digest (ps @ [p]) [] w \<and> jd_held dir2 = jd_held dir \<and>
      disk_holds digest expected led2 dir2 (ps @ [p]) []"
proof -
  let ?st = "store_of digest ps tail w" and ?r = "record_bytes digest (length ps + 1) p"
  let ?new = "dir\<lparr>jd_log := Some (frames (record_bytes digest) 0 (ps @ [p]))\<rparr>"
  have f: "js_sequence ?st = length ps" "js_valid_bytes ?st = length (frames (record_bytes digest) 0 ps)"
    "js_incomplete_tail ?st \<longleftrightarrow> tail \<noteq> []" by (simp_all add: store_of_def)
  have full: "disk_holds digest expected led2 ?new (ps @ [p]) []"
    if "length (frames (record_bytes digest) 0 (ps @ [p])) \<le> journal_max_log"
    using r that by (simp add: disk_holds_def record_for_def)
  from store_append_outcome [OF a io d, unfolded f]
  consider (none) "dir2 = dir" "\<exists>e. res = Inl e" "st2 = ?st \<or> st2 = ?st\<lparr>js_poisoned := True\<rparr>"
    | (part) k where "tail = []" "length (frames (record_bytes digest) 0 ps) + length ?r \<le> journal_max_log"
        "dir2 = dir\<lparr>jd_log := Some (log_bytes dir @ take k ?r)\<rparr>" "res = Inl OsError" "st2 = ?st\<lparr>js_poisoned := True\<rparr>"
    | (whole) "tail = []" "length (frames (record_bytes digest) 0 ps) + length ?r \<le> journal_max_log"
        "dir2 = dir\<lparr>jd_log := Some (log_bytes dir @ ?r)\<rparr>" "res = Inr (length ps + 1)"
        "st2 = ?st\<lparr>js_sequence := length ps + 1, js_text := Some p,
           js_valid_bytes := length (frames (record_bytes digest) 0 ps) + length ?r, js_poisoned := False\<rparr>"
    by blast
  then show ?thesis
  proof cases
    case none
    then show ?thesis using h by auto
  next
    case part
    have c: "length (frames (record_bytes digest) 0 (ps @ [p])) \<le> journal_max_log"
      using part(2) by (simp add: frames_append)
    have "\<exists>tail2. disk_holds digest expected led dir2 ps tail2 \<or> disk_holds digest expected led2 dir2 (ps @ [p]) tail2"
      unfolding part(3) by (rule disk_partial [OF h [unfolded part(1)] p c full [OF c]])
    then show ?thesis using part(3-5) by simp
  next
    case whole
    have c: "length (frames (record_bytes digest) 0 (ps @ [p])) \<le> journal_max_log"
      using whole(2) by (simp add: frames_append)
    have "dir2 = ?new" using whole(1,3) h by (simp add: disk_holds_def frames_append)
    moreover have "st2 = store_of digest (ps @ [p]) [] w"
      using whole(1,5) by (simp add: store_of_def frames_append)
    ultimately show ?thesis using full [OF c] whole(4) by simp
  qed
qed

text \<open>Appending a record that the state accepts, through the journal's handle.\<close>

lemma journal_append_keeps:
  assumes a: "journal_append digest io p dir j = (res, dir2, j2)"
    and h: "disk_holds digest expected led dir ps tail" "handle_matches digest led ps tail j" "jd_held dir"
    and d: "padded digest = digest" and io: "file_ops_ok io" and p: "text_fits p"
    and r: "\<And>st. \<not> js_poisoned (jn_store j) \<Longrightarrow> ps = ledger_records expected led \<Longrightarrow>
      tx_accept (length ps + 1) p (ledger_state led) = Inr st \<Longrightarrow>
      st = ledger_state led2 \<and> record_for digest expected led ps p led2"
  shows "(\<exists>led3 ps3 tail3. (led3 = led \<or> led3 = led2 \<and> ledger_step led led2 \<and> tx_accept (length ps + 1) p (ledger_state led) = Inr (ledger_state led2)) \<and>
    disk_holds digest expected led3 dir2 ps3 tail3 \<and> jd_held dir2 \<and> handle_matches digest led3 ps3 tail3 j2) \<and>
    (\<forall>n. res = Inr n \<longrightarrow> disk_holds digest expected led2 dir2 (ps @ [p]) [] \<and> n = length ps + 1 \<and>
      jn_state j2 = ledger_state led2 \<and> \<not> js_poisoned (jn_store j2))"
proof (cases "js_poisoned (jn_store j)")
  case True
  then have "dir2 = dir \<and> j2 = j \<and> (\<exists>e. res = Inl e)"
    using a by (auto simp: journal_append_def store_append_def split: option.splits sum.splits if_splits)
  then show ?thesis using h by auto
next
  case False
  have ps: "ps \<noteq> []" "ps = ledger_records expected led" and st_eq: "jn_state j = ledger_state led"
    using h(1,2) False by (auto simp: handle_matches_def disk_holds_def)
  obtain w where st2: "jn_store j = store_of digest ps tail w" using h(2) False by (auto simp: handle_matches_def)
  have sq: "js_sequence (jn_store j) = length ps" by (simp add: st2 store_of_def)
  show ?thesis
  proof (cases "\<exists>cand. length ps < u64_max \<and> tx_accept (length ps + 1) p (ledger_state led) = Inr cand")
    case False
    then have "dir2 = dir \<and> j2 = j \<and> (\<exists>e. res = Inl e)" using a st_eq sq
      by (cases "tx_accept (length ps + 1) p (ledger_state led)")
        (auto simp: journal_append_def checked_add_def split: if_splits)
    then show ?thesis using h by auto
  next
    case True
    then obtain cand where cand: "length ps < u64_max" "tx_accept (length ps + 1) p (ledger_state led) = Inr cand" by blast
    have q: "cand = ledger_state led2" "record_for digest expected led ps p led2"
      using r [OF \<open>\<not> js_poisoned (jn_store j)\<close> ps(2) cand(2)] by simp_all
    obtain res1 dir1 st1 where s: "store_append digest io p dir (store_of digest ps tail w) = (res1, dir1, st1)"
      by (metis prod_cases3)
    have sj: "store_append digest io p dir (jn_store j) = (res1, dir1, st1)" using s st2 by simp
    have ca: "checked_add u64_max (js_sequence (jn_store j)) 1 = Some (length ps + 1)"
      using cand(1) sq by (simp add: checked_add_def)
    have "journal_append digest io p dir j = (case res1 of Inl e \<Rightarrow> (Inl e, dir1, j\<lparr>jn_store := st1\<rparr>)
        | Inr n \<Rightarrow> (Inr n, dir1, j\<lparr>jn_store := st1, jn_state := cand\<rparr>))"
      unfolding journal_append_def ca st_eq sj option.case cand(2) sum.case prod.case by (rule refl)
    then have e: "dir2 = dir1" "res = res1" "j2 = (if isl res then j\<lparr>jn_store := st1\<rparr> else j\<lparr>jn_store := st1, jn_state := cand\<rparr>)"
      using a by (auto split: sum.splits)
    have step: "led2 = led \<or> ledger_step led led2 \<and> tx_accept (length ps + 1) p (ledger_state led) = Inr (ledger_state led2)"
      using q cand(2) by (simp add: record_for_def)
    from store_append_keeps [OF s h(1) d io p q(2)] show ?thesis
    proof (elim disjE conjE exE, goal_cases)
      case (1 e)
      then have "j2 = j" "dir2 = dir" using e st2 by simp_all
      then show ?thesis using 1 e(2) h by blast
    next
      case (2 e tail2)
      then have "handle_matches digest led ps tail2 j2" "jd_held dir2"
        using e(1,3) h(3) by (simp_all add: handle_matches_def split: if_splits)
      with 2 e(1,2) show ?thesis by blast
    next
      case (3 e tail2)
      then have "handle_matches digest led2 (ps @ [p]) tail2 j2" "jd_held dir2"
        using e(1,3) h(3) by (simp_all add: handle_matches_def split: if_splits)
      with 3 e(1,2) step show ?thesis by blast
    next
      case 4
      then have "handle_matches digest led2 (ps @ [p]) [] j2" "jd_held dir2" "\<not> js_poisoned (jn_store j2)" "jn_state j2 = ledger_state led2"
        using e q(1) h(3) by (simp_all add: handle_matches_def store_of_def)
      then show ?thesis using 4 e(1,2) step by simp blast
    qed
  qed
qed

lemma visit_nothing [simp]: "visit_all (\<lambda>_ _ v. Inr v) b ps v = Inr v"
  by (induction ps arbitrary: b) simp_all

lemma disk_holds_cong: "log_bytes dir = log_bytes dir2 \<Longrightarrow> disk_holds digest expected led dir ps tail = disk_holds digest expected led dir2 ps tail"
  by (simp add: disk_holds_def)

lemma begin_keeps:
  assumes a: "journal_begin digest io msg dir j = (res, dir2, j2)"
    and h: "disk_holds digest expected led dir ps tail" "handle_matches digest led ps tail j" "jd_held dir"
    and d: "padded digest = digest" and io: "file_ops_ok io" and u: "utf8_valid msg"
  shows "(\<exists>led3 ps3 tail3. (led3 = led \<or> led3 = led\<lparr>pending := Some msg\<rparr> \<and> ledger_step led (led\<lparr>pending := Some msg\<rparr>) \<and>
      tx_accept (length ps + 1) (intent_prefix @ msg) (ledger_state led) = Inr (ledger_state (led\<lparr>pending := Some msg\<rparr>))) \<and>
    disk_holds digest expected led3 dir2 ps3 tail3 \<and> jd_held dir2 \<and> handle_matches digest led3 ps3 tail3 j2) \<and>
    (\<forall>n. res = Inr n \<longrightarrow> disk_holds digest expected (led\<lparr>pending := Some msg\<rparr>) dir2 (ps @ [intent_prefix @ msg]) [] \<and>
      n = length ps + 1 \<and> jn_state j2 = ledger_state (led\<lparr>pending := Some msg\<rparr>) \<and> \<not> js_poisoned (jn_store j2))"
proof (cases "length msg \<le> admin_max_body \<and> journal_header + length intent_prefix + length msg + decision_reserve \<le> remaining_capacity (jn_store j)")
  case False
  then have "dir2 = dir" "j2 = j" "\<exists>e. res = Inl e" using a by (auto simp: journal_begin_def not_le split: if_splits)
  then show ?thesis using h by blast
next
  case True
  then have app: "journal_append digest io (intent_prefix @ msg) dir j = (res, dir2, j2)"
    using a by (simp add: journal_begin_def not_less)
  have fits: "text_fits (intent_prefix @ msg)" using u True by (intro intent_fits) simp_all
  show ?thesis
  proof (rule journal_append_keeps [OF app h d io fits])
    fix st
    assume np: "\<not> js_poisoned (jn_store j)" and ps: "ps = ledger_records expected led"
      and acc: "tx_accept (length ps + 1) (intent_prefix @ msg) (ledger_state led) = Inr st"
    have cap: "remaining_capacity (jn_store j) = journal_max_log - length (frames (record_bytes digest) 0 ps)"
      using h(2) np by (auto simp: handle_matches_def remaining_capacity_def store_of_def dest: arg_cong [where f = js_valid_bytes])
    have len: "length (frames (record_bytes digest) 0 (ps @ [intent_prefix @ msg])) =
        length (frames (record_bytes digest) 0 ps) + (journal_header + length intent_prefix + length msg)"
      using length_record [of digest "length ps + 1" "intent_prefix @ msg"] d by (simp add: frames_append)
    have b: "pending led = None" "st = ledger_state (led\<lparr>pending := Some msg\<rparr>)"
      "ledger_records expected (led\<lparr>pending := Some msg\<rparr>) = ps @ [intent_prefix @ msg]"
      using accept_begin [OF acc [unfolded ps]] ps by simp_all
    have "ledger_ok (led\<lparr>pending := Some msg\<rparr>)" using h(1) b(1) u True by (simp add: disk_holds_def ledger_ok_def)
    moreover have "length (frames (record_bytes digest) 0 (ps @ [intent_prefix @ msg])) + decision_reserve \<le> journal_max_log"
      using True unfolding len cap journal_header_def by arith
    ultimately show "st = ledger_state (led\<lparr>pending := Some msg\<rparr>) \<and>
        record_for digest expected led ps (intent_prefix @ msg) (led\<lparr>pending := Some msg\<rparr>)"
      using b by (simp add: record_for_def ledger_begin)
  qed
qed

definition settle :: "tx_decision \<Rightarrow> ledger \<Rightarrow> ledger" where
  "settle verdict led = (case pending led of None \<Rightarrow> led
     | Some msg \<Rightarrow> led\<lparr>settled := settled led @ [(msg, verdict)], pending := None\<rparr>)"

lemma finish_keeps:
  assumes a: "journal_finish digest io referenced verdict dir j = (res, dir2, j2)"
    and h: "disk_holds digest expected led dir ps tail" "handle_matches digest led ps tail j" "jd_held dir"
    and d: "padded digest = digest" and io: "file_ops_ok io" and n: "referenced \<le> u64_max"
  shows "(\<exists>led3 ps3 tail3. (led3 = led \<or> led3 = settle verdict led \<and> ledger_step led (settle verdict led) \<and>
      tx_accept (length ps + 1) (decision_prefix verdict @ show_nat referenced) (ledger_state led) = Inr (ledger_state (settle verdict led))) \<and>
    disk_holds digest expected led3 dir2 ps3 tail3 \<and> jd_held dir2 \<and> handle_matches digest led3 ps3 tail3 j2) \<and>
    (\<forall>n. res = Inr n \<longrightarrow> disk_holds digest expected (settle verdict led) dir2 (ps @ [decision_prefix verdict @ show_nat referenced]) [] \<and>
      n = length ps + 1 \<and> jn_state j2 = ledger_state (settle verdict led) \<and> \<not> js_poisoned (jn_store j2))"
proof (rule journal_append_keeps [OF a [unfolded journal_finish_def] h d io decision_fits(1) [OF n]])
  fix st
  assume ps: "ps = ledger_records expected led"
    and acc: "tx_accept (length ps + 1) (decision_prefix verdict @ show_nat referenced) (ledger_state led) = Inr st"
  obtain msg where s: "pending led = Some msg" "st = ledger_state (settle verdict led)"
      "ledger_records expected (settle verdict led) = ps @ [decision_prefix verdict @ show_nat referenced]"
    using accept_settle [OF acc n, of expected] ps by (auto simp: settle_def)
  have "ledger_step led (settle verdict led)" using ledger_settle [OF s(1)] s(1) by (simp add: settle_def)
  moreover have "ledger_ok (settle verdict led)" "pending (settle verdict led) = None"
    using h(1) s(1) by (simp_all add: disk_holds_def ledger_ok_def settle_def)
  ultimately show "st = ledger_state (settle verdict led) \<and>
      record_for digest expected led ps (decision_prefix verdict @ show_nat referenced) (settle verdict led)"
    using s(2,3) by (simp add: record_for_def)
qed

lemma discard_keeps:
  assumes a: "journal_discard digest io dir j = (res, dir2, j2)"
    and h: "disk_holds digest expected led dir ps tail" "handle_matches digest led ps tail j" "jd_held dir"
    and d: "padded digest = digest" and io: "file_ops_ok io" and e: "text_fits expected"
  shows "\<exists>tail3. disk_holds digest expected led dir2 ps tail3 \<and> jd_held dir2 \<and> handle_matches digest led ps tail3 j2"
proof -
  obtain st2 where s: "discard_incomplete_tail digest io dir (jn_store j) = (res, dir2, st2)" "j2 = j\<lparr>jn_store := st2\<rparr>"
    using a by (auto simp: journal_discard_def split: prod.splits)
  let ?log = "frames (record_bytes digest) 0 ps"
  show ?thesis
  proof (cases "js_poisoned (jn_store j) \<or> tail = [] \<or> \<not> js_writable (jn_store j)")
    case True
    then have "st2 = jn_store j" "dir2 = dir"
      using s(1) h(2) by (auto simp: discard_incomplete_tail_def handle_matches_def store_of_def split: if_splits
          dest: arg_cong [where f = js_incomplete_tail])
    then show ?thesis using h s(2) by auto
  next
    case False
    then have tl: "tail \<noteq> []" and st: "jn_store j = store_of digest ps tail True"
      and lst: "jn_state j = ledger_state led" "ps \<noteq> []"
      using h(2) by (auto simp: handle_matches_def)
    have x: "list_all text_fits ps" using disk_records [OF h(1) d e] by simp
    have bs: "log_bytes dir = ?log @ tail" "length (log_bytes dir) \<le> journal_max_log" using h(1) by (auto simp: disk_holds_def)
    have r: "recover digest (log_bytes dir) 0 = Inr (recovered_log digest ps True)"
      using disk_recover [OF h(1) d x, of "\<lambda>_ _ v. Inr v" "()"] False by (simp add: recover_def)
    have trunc: "disk_holds digest expected led (dir\<lparr>jd_log := Some ?log\<rparr>) ps []"
      using h(1) bs by (auto simp: disk_holds_def)
    have same: "disk_holds digest expected led (dir\<lparr>jd_log := Some (log_bytes dir)\<rparr>) ps tail"
      using h(1) disk_holds_cong [of dir "dir\<lparr>jd_log := Some (log_bytes dir)\<rparr>"] by simp
    show ?thesis
    proof (cases "fo_stat io \<and> fo_seek io \<and> fo_read io")
      case False
      then have "dir2 = dir" "js_poisoned st2"
        using s(1) st tl bs(2) by (auto simp: discard_incomplete_tail_def store_of_def Let_def split: if_splits)
      then show ?thesis using h(1,3) s(2) by (auto simp: handle_matches_def)
    next
      case io_ok: True
      obtain new ok where t: "fo_truncate io (log_bytes dir) (length ?log) = (new, ok)" by fastforce
      have "if ok then new = take (length ?log) (log_bytes dir)
          else new = log_bytes dir \<or> new = take (length ?log) (log_bytes dir)"
        using io t unfolding file_ops_ok_def by (cases ok) auto
      then have n: "if ok then new = ?log else new = log_bytes dir \<or> new = ?log" using bs(1) by (simp split: if_splits)
      have "(res, dir2, st2) = (if ok then (Inr (length (log_bytes dir) - length ?log), dir\<lparr>jd_log := Some new\<rparr>, store_of digest ps [] True)
          else (Inl OsError, dir\<lparr>jd_log := Some new\<rparr>, (jn_store j)\<lparr>js_poisoned := True\<rparr>))"
        using s(1) st bs r t io_ok tl
        by (simp add: discard_incomplete_tail_def store_of_def recovered_log_def Let_def not_less split: if_splits bool.splits)
      then show ?thesis using n trunc same s(2) lst h(3)
        by (cases ok) (auto simp: handle_matches_def store_of_def)
    qed
  qed
qed

text \<open>Opening: the handle that comes back, if one does, stands for the ledger on disk.\<close>

lemma open_keeps:
  assumes a: "journal_open digest io inst create dir = (out, dir2)" and b: "binding_record digest inst = Inr expected"
    and h: "disk_holds digest expected led dir ps tail" "\<not> jd_held dir" and d: "padded digest = digest" and io: "file_ops_ok io"
  shows "\<exists>ps2 tail2. disk_holds digest expected led dir2 ps2 tail2 \<and>
    (case out of
       Inl e \<Rightarrow> \<not> jd_held dir2
     | Inr j \<Rightarrow> jd_held dir2 \<and> handle_matches digest led ps2 tail2 j \<and> \<not> js_poisoned (jn_store j))"
proof -
  have e: "text_fits expected" using binding_fits [of digest inst expected] b d by simp
  let ?dir = "dir\<lparr>jd_lock := True, jd_log := Some (log_bytes dir)\<rparr>" and ?v = "bound_visit expected tx_accept"
  have x: "list_all text_fits ps" and v: "visit_all ?v 0 ps tx_default = Inr (ledger_state led)"
    using disk_records [OF h(1) d e] by simp_all
  have lock [simp]: "log_bytes (dir\<lparr>jd_lock := l\<rparr>) = log_bytes dir" for l by (simp add: log_bytes_def)
  have r: "recover_each digest ?v (log_bytes dir) 0 tx_default = Inr (recovered_log digest ps (tail \<noteq> []), ledger_state led)"
    using disk_recover [OF h(1) d x, of ?v tx_default] v by simp
  have bs: "log_bytes dir = frames (record_bytes digest) 0 ps @ tail" "length (log_bytes dir) \<le> journal_max_log"
    using h(1) by (auto simp: disk_holds_def)
  have held: "disk_holds digest expected led dir3 ps tail" if "log_bytes dir3 = log_bytes dir" for dir3
    using h(1) disk_holds_cong [OF that] by simp
  obtain o1 dir1 where s: "store_open_mode digest io ?v create dir tx_default = (o1, dir1)" by fastforce
  have s2: "log_bytes dir1 = log_bytes dir \<and> ((\<exists>f. o1 = Inl f) \<and> \<not> jd_held dir1 \<or>
      o1 = Inr (store_of digest ps tail create, ledger_state led) \<and> jd_held dir1)"
    using s h(2) r bs
    by (auto simp: store_open_mode_def store_of_def recovered_log_def Let_def log_bytes_def [of "_\<lparr>jd_held := _\<rparr>"] split: if_splits)
  show ?thesis
  proof (cases "\<exists>f. o1 = Inl f")
    case True
    then have "(\<exists>f. out = Inl f) \<and> dir2 = dir1 \<and> \<not> jd_held dir1" using a b s s2
      by (auto simp: journal_open_def binding_open_mode_def)
    then show ?thesis using held [of dir1] s2 by (intro exI [of _ ps] exI [of _ tail]) auto
  next
    case False
    then have o1: "o1 = Inr (store_of digest ps tail create, ledger_state led)" "jd_held dir1" using s2 by auto
    show ?thesis
    proof (cases "ps = []")
      case False
      then have "out = Inr \<lparr>jn_store = store_of digest ps tail create, jn_state = ledger_state led, jn_instance = inst\<rparr> \<and> dir2 = dir1"
        using a b s o1 by (simp add: journal_open_def binding_open_mode_def) (simp add: store_of_def)
      then show ?thesis using held [of dir1] s2 o1(2) False
        by (intro exI [of _ ps] exI [of _ tail]) (simp add: handle_matches_def store_of_def)
    next
      case True
      then have led: "led = ledger_empty" using h(1) by (auto simp: disk_holds_def ledger_records_def)
      show ?thesis
      proof (cases "tail \<noteq> [] \<or> \<not> create")
        case True
        then have "out = Inl (JournalFault InvalidBinding) \<and> dir2 = release_lock dir1"
          using a b s o1 \<open>ps = []\<close> by (simp add: journal_open_def binding_open_mode_def) (auto simp: store_of_def)
        then show ?thesis using held [of "release_lock dir1"] s2 by (auto simp: release_lock_def log_bytes_def)
      next
        case False
        obtain res dir3 st3 where w: "store_append digest io expected dir1 (store_of digest ps tail create) = (res, dir3, st3)"
          by (metis prod_cases3)
        have rf: "record_for digest expected led ps expected led"
          using led True by (simp add: record_for_def ledger_empty_def ledger_records_def ledger_ok_def)
        have o2: "(out, dir2) = (case res of Inl f \<Rightarrow> (Inl f, release_lock dir3)
            | Inr _ \<Rightarrow> (Inr \<lparr>jn_store = st3, jn_state = ledger_state led, jn_instance = inst\<rparr>, dir3))"
          using a b s o1 w True False
          by (cases res) (simp_all add: journal_open_def binding_open_mode_def store_of_def)
        have rel: "disk_holds digest expected led (release_lock dir3) qs t = disk_holds digest expected led dir3 qs t" for qs t
          by (rule disk_holds_cong) (simp add: release_lock_def log_bytes_def)
        have h1: "disk_holds digest expected led dir1 ps tail" using held [of dir1] s2 by simp
        from store_append_keeps [OF w h1 d io e rf] show ?thesis
        proof (elim disjE conjE exE, goal_cases)
          case (1 f)
          then show ?thesis using o2 h1 rel by (auto simp: release_lock_def)
        next
          case (2 f tail2)
          then show ?thesis using o2 rel by (auto simp: release_lock_def)
        next
          case (3 f tail2)
          then show ?thesis using o2 rel by (auto simp: release_lock_def)
        next
          case 4
          then show ?thesis using o2 o1(2)
            by (intro exI [of _ "ps @ [expected]"] exI [of _ "[]"]) (auto simp: handle_matches_def store_of_def)
        qed
      qed
    qed
  qed
qed

text \<open>Every step of the system is a step of the ledger or leaves it alone.\<close>

lemma journal_step_keeps:
  assumes "journal_step digest inst s t" "journal_inv digest expected led s" "padded digest = digest"
    and "binding_record digest inst = Inr expected"
  shows "\<exists>led2. (led2 = led \<or> ledger_step led led2) \<and> journal_inv digest expected led2 t"
proof -
  have e: "text_fits expected" using binding_fits [of digest inst expected] assms(3,4) by simp
  show ?thesis using assms(1,2)
  proof cases
    case (opened io create dir j dir2)
    then obtain ps tail where h: "disk_holds digest expected led dir ps tail" "\<not> jd_held dir"
      using assms(2) by (auto simp: journal_inv_def)
    show ?thesis using open_keeps [OF opened(4) assms(4) h assms(3) opened(3)] opened(2) by (auto simp: journal_inv_def)
  next
    case (open_failed io create dir f dir2)
    then obtain ps tail where h: "disk_holds digest expected led dir ps tail" "\<not> jd_held dir"
      using assms(2) by (auto simp: journal_inv_def)
    show ?thesis using open_keeps [OF open_failed(4) assms(4) h assms(3) open_failed(3)] open_failed(2)
      by (auto simp: journal_inv_def)
  next
    case (began io msg dir j res dir2 j2)
    then obtain ps tail where h: "disk_holds digest expected led dir ps tail" "handle_matches digest led ps tail j" "jd_held dir"
      using assms(2) by (auto simp: journal_inv_def)
    show ?thesis using begin_keeps [OF began(5) h assms(3) began(3,4)] began(2) by (auto simp: journal_inv_def)
  next
    case (finished io referenced verdict dir j res dir2 j2)
    then obtain ps tail where h: "disk_holds digest expected led dir ps tail" "handle_matches digest led ps tail j" "jd_held dir"
      using assms(2) by (auto simp: journal_inv_def)
    show ?thesis using finish_keeps [OF finished(5) h assms(3) finished(3,4)] finished(2) by (auto simp: journal_inv_def)
  next
    case (discarded io dir j res dir2 j2)
    then obtain ps tail where h: "disk_holds digest expected led dir ps tail" "handle_matches digest led ps tail j" "jd_held dir"
      using assms(2) by (auto simp: journal_inv_def)
    show ?thesis using discard_keeps [OF discarded(4) h assms(3) discarded(3) e] discarded(2) by (auto simp: journal_inv_def)
  next
    case (crashed dir j)
    then obtain ps tail where h: "disk_holds digest expected led dir ps tail" using assms(2) by (auto simp: journal_inv_def)
    then have "disk_holds digest expected led (release_lock dir) ps tail"
      using disk_holds_cong [of dir "release_lock dir"] by (simp add: release_lock_def log_bytes_def)
    then show ?thesis using crashed by (auto simp: journal_inv_def release_lock_def)
  qed
qed

subsection \<open>What the journal guarantees\<close>

lemma journal_inv_init:
  assumes "log_bytes dir = []" "\<not> jd_held dir"
  shows "journal_inv digest expected ledger_empty (dir, None)"
  unfolding journal_inv_def
  by (rule exI [of _ "[]"], rule exI [of _ "[]"])
    (simp add: disk_holds_def ledger_ok_def ledger_empty_def assms)

lemma journal_run_keeps:
  assumes "(journal_step digest inst)\<^sup>*\<^sup>* s t" "journal_inv digest expected led s" "padded digest = digest"
    and "binding_record digest inst = Inr expected"
  shows "\<exists>led2. ledger_step\<^sup>*\<^sup>* led led2 \<and> journal_inv digest expected led2 t"
  using assms(1)
proof (induction rule: rtranclp_induct)
  case base
  then show ?case using assms(2) by blast
next
  case (step y z)
  then obtain led2 where l: "ledger_step\<^sup>*\<^sup>* led led2" "journal_inv digest expected led2 y" by blast
  from journal_step_keeps [OF step.hyps(2) l(2) assms(3,4)] l(1) show ?case
    by (meson rtranclp.rtrancl_into_rtrancl)
qed

text \<open>With an instance name that cannot be bound, the directory is never touched.\<close>

lemma unbound_never_opens:
  assumes "(journal_step digest inst)\<^sup>*\<^sup>* (dir, None) t" "binding_record digest inst = Inl e"
  shows "t = (dir, None)"
  using assms(1)
proof (induction rule: rtranclp_induct)
  case (step y z)
  from step.hyps(2) show ?case unfolding step.IH
    by cases (use assms(2) in \<open>auto simp: journal_open_def binding_open_mode_def\<close>)
qed simp

lemma reachable_inv:
  assumes "(journal_step digest inst)\<^sup>*\<^sup>* (dir0, None) s" "log_bytes dir0 = []" "\<not> jd_held dir0"
    and "padded digest = digest" "binding_record digest inst = Inr expected"
  shows "\<exists>led. ledger_step\<^sup>*\<^sup>* ledger_empty led \<and> journal_inv digest expected led s"
  using journal_run_keeps [OF assms(1) journal_inv_init [OF assms(2,3)] assms(4,5)] .

text \<open>The bytes of the log determine the ledger they stand for.\<close>

lemma settled_records_inject:
  assumes "settled_records n xs @ (case p of None \<Rightarrow> [] | Some msg \<Rightarrow> [intent_prefix @ msg]) =
    settled_records n ys @ (case q of None \<Rightarrow> [] | Some msg \<Rightarrow> [intent_prefix @ msg])"
  shows "xs = ys \<and> p = q"
  using assms
proof (induction n xs arbitrary: ys rule: settled_records.induct)
  case (1 n)
  then show ?case by (cases ys) (auto split: option.splits)
next
  case (2 n msg verdict xs)
  then obtain y zs where ys: "ys = y # zs" by (cases ys) (auto split: option.splits)
  obtain m v where y: "y = (m, v)" by fastforce
  have "decision_prefix verdict @ show_nat n = decision_prefix v @ show_nat n \<Longrightarrow> verdict = v"
    by (cases verdict; cases v) (simp_all add: prefix_defs)
  with 2 ys y show ?case by auto
qed

lemma ledger_records_inject: "ledger_records expected led = ledger_records expected led2 \<Longrightarrow> led = led2"
  unfolding ledger_records_def using settled_records_inject [of 2 "settled led" "pending led" "settled led2" "pending led2"] by simp

lemma visit_collect: "visit_all (\<lambda>_ p acc. Inr (acc @ [p])) b ps acc = Inr (acc @ ps)"
  by (induction ps arbitrary: b acc) simp_all

lemma disk_holds_unique:
  assumes h: "disk_holds digest expected led dir ps tail" "disk_holds digest expected led2 dir ps2 tail2"
    and d: "padded digest = digest" and e: "text_fits expected"
  shows "led2 = led \<and> ps2 = ps \<and> tail2 = tail"
proof -
  let ?v = "\<lambda>_ p acc. Inr (acc @ [p])"
  have fits: "list_all text_fits ps" "list_all text_fits ps2" using disk_records [OF _ d e] h by blast+
  from disk_recover [OF h(1) d fits(1), of ?v "[]"] disk_recover [OF h(2) d fits(2), of ?v "[]"] have ps: "ps2 = ps"
    by (simp add: visit_collect)
  have "ps = [] \<and> led = ledger_empty \<or> ps = ledger_records expected led"
    "ps = [] \<and> led2 = ledger_empty \<or> ps = ledger_records expected led2" using h ps by (auto simp: disk_holds_def)
  moreover have "ledger_records expected l \<noteq> []" for l by (simp add: ledger_records_def)
  ultimately have "led2 = led" using ledger_records_inject by metis
  with ps h show ?thesis by (auto simp: disk_holds_def)
qed

text \<open>
  The ledger a state of the system stands for: the log is its records, or nothing yet, followed at most by
  a part of one more record, with room left to settle what is pending, and a handle that is not poisoned shows its state.
\<close>

definition stands_for :: "digest \<Rightarrow> bytes \<Rightarrow> journal_dir \<times> journal option \<Rightarrow> ledger \<Rightarrow> bool" where
  "stands_for digest expected s led \<longleftrightarrow>
     (\<exists>ps tail. disk_holds digest expected led (fst s) ps tail) \<and>
     (\<forall>j. snd s = Some j \<longrightarrow> \<not> js_poisoned (jn_store j) \<longrightarrow> jn_state j = ledger_state led)"

text \<open>
  What a step of the system does to the ledger. Opening, failing to open, a crash and discarding a torn
  tail leave it alone; a call of \<open>begin\<close> or \<open>finish\<close> does what it says or leaves it alone, and does it
  for certain when it reports success.
\<close>

definition ledger_follows ::
    "digest \<Rightarrow> journal_dir \<times> journal option \<Rightarrow> ledger \<Rightarrow> journal_dir \<times> journal option \<Rightarrow> ledger \<Rightarrow> bool" where
  "ledger_follows digest s led t led2 \<longleftrightarrow>
     (led2 = led \<or> ledger_step led led2) \<and>
     (snd s = None \<or> snd t = None \<longrightarrow> led2 = led) \<and>
     (\<forall>j j2 io res. snd s = Some j \<longrightarrow> snd t = Some j2 \<longrightarrow> file_ops_ok io \<longrightarrow>
        (journal_discard digest io (fst s) j = (res, fst t, j2) \<longrightarrow> led2 = led)) \<and>
     (\<forall>j j2 io res msg. snd s = Some j \<longrightarrow> snd t = Some j2 \<longrightarrow> file_ops_ok io \<longrightarrow> utf8_valid msg \<longrightarrow>
        journal_begin digest io msg (fst s) j = (res, fst t, j2) \<longrightarrow>
        (\<exists>f. res = Inl f) \<and> led2 = led \<or> pending led = None \<and> led2 = led\<lparr>pending := Some msg\<rparr>) \<and>
     (\<forall>j j2 io res referenced verdict. snd s = Some j \<longrightarrow> snd t = Some j2 \<longrightarrow> file_ops_ok io \<longrightarrow> referenced \<le> u64_max \<longrightarrow>
        journal_finish digest io referenced verdict (fst s) j = (res, fst t, j2) \<longrightarrow>
        (\<exists>f. res = Inl f) \<and> led2 = led \<or>
        (\<exists>msg. pending led = Some msg \<and> led2 = \<lparr>settled = settled led @ [(msg, verdict)], pending = None\<rparr>))"

lemma journal_inv_unique:
  assumes "journal_inv digest expected led s" "journal_inv digest expected led2 s" "padded digest = digest" "text_fits expected"
  shows "led2 = led"
  using assms disk_holds_unique [OF _ _ assms(3,4)] unfolding journal_inv_def by blast

lemma journal_inv_stands: "journal_inv digest expected led s \<Longrightarrow> stands_for digest expected s led"
  unfolding journal_inv_def stands_for_def handle_matches_def by (cases "snd s") auto

lemma begin_follows:
  assumes a: "journal_begin digest io msg (fst s) j = (res, fst t, j2)" "snd s = Some j" "snd t = Some j2"
    and i: "journal_inv digest expected led s" "journal_inv digest expected led2 t"
    and d: "padded digest = digest" and e: "text_fits expected" and io: "file_ops_ok io" and u: "utf8_valid msg"
  shows "(\<exists>f. res = Inl f) \<and> led2 = led \<or> pending led = None \<and> led2 = led\<lparr>pending := Some msg\<rparr>"
proof -
  obtain ps tail where h: "disk_holds digest expected led (fst s) ps tail" "handle_matches digest led ps tail j" "jd_held (fst s)"
    using i(1) a(2) by (auto simp: journal_inv_def)
  obtain ps2 tail2 where h2: "disk_holds digest expected led2 (fst t) ps2 tail2" using i(2) by (auto simp: journal_inv_def)
  note k = begin_keeps [OF a(1) h d io u]
  obtain led3 ps3 tail3 where k3: "led3 = led \<or> led3 = led\<lparr>pending := Some msg\<rparr> \<and> ledger_step led (led\<lparr>pending := Some msg\<rparr>)"
    "disk_holds digest expected led3 (fst t) ps3 tail3" using k by blast
  have l3: "led2 = led3" using disk_holds_unique [OF k3(2) h2 d e] by blast
  have none: "pending led = None" if "ledger_step led (led\<lparr>pending := Some msg\<rparr>)"
    using that by (cases rule: ledger_step.cases) (metis ledger.select_convs(2) ledger.surjective ledger.update_convs(2) option.distinct(1))+
  show ?thesis
  proof (cases res)
    case (Inl f)
    then show ?thesis using k3(1) l3 none by blast
  next
    case (Inr n)
    with k have "disk_holds digest expected (led\<lparr>pending := Some msg\<rparr>) (fst t) (ps @ [intent_prefix @ msg]) []" by blast
    from disk_holds_unique [OF this k3(2) d e] have l: "led3 = led\<lparr>pending := Some msg\<rparr>" "ps3 = ps @ [intent_prefix @ msg]" by auto
    have "led3 \<noteq> led"
    proof
      assume "led3 = led"
      with k3(2) h(1) l(2) have "ps = [] \<and> led = ledger_empty" by (auto simp: disk_holds_def)
      with l(1) \<open>led3 = led\<close> show False by (simp add: ledger_empty_def)
    qed
    with k3(1) none l l3 show ?thesis by blast
  qed
qed

lemma finish_follows:
  assumes a: "journal_finish digest io referenced verdict (fst s) j = (res, fst t, j2)" "snd s = Some j" "snd t = Some j2"
    and i: "journal_inv digest expected led s" "journal_inv digest expected led2 t"
    and d: "padded digest = digest" and b: "binding_record digest inst = Inr expected" and io: "file_ops_ok io" and n: "referenced \<le> u64_max"
  shows "(\<exists>f. res = Inl f) \<and> led2 = led \<or>
    (\<exists>msg. pending led = Some msg \<and> led2 = \<lparr>settled = settled led @ [(msg, verdict)], pending = None\<rparr>)"
proof -
  have e: "text_fits expected" using binding_fits [of digest inst expected] b d by simp
  obtain ps tail where h: "disk_holds digest expected led (fst s) ps tail" "handle_matches digest led ps tail j" "jd_held (fst s)"
    using i(1) a(2) by (auto simp: journal_inv_def)
  obtain ps2 tail2 where h2: "disk_holds digest expected led2 (fst t) ps2 tail2" using i(2) by (auto simp: journal_inv_def)
  note k = finish_keeps [OF a(1) h d io n]
  obtain led3 ps3 tail3 where k3: "led3 = led \<or> led3 = settle verdict led \<and> ledger_step led (settle verdict led)"
    "disk_holds digest expected led3 (fst t) ps3 tail3" using k by blast
  have l3: "led2 = led3" using disk_holds_unique [OF k3(2) h2 d e] by blast
  have some: "\<exists>msg. pending led = Some msg \<and> settle verdict led = \<lparr>settled = settled led @ [(msg, verdict)], pending = None\<rparr>"
    if "settle verdict led \<noteq> led" using that by (cases "pending led") (simp_all add: settle_def)
  show ?thesis
  proof (cases res)
    case (Inl f)
    then show ?thesis using k3(1) l3 some by (cases "settle verdict led = led") auto
  next
    case (Inr m)
    let ?p = "decision_prefix verdict @ show_nat referenced"
    from Inr k have "disk_holds digest expected (settle verdict led) (fst t) (ps @ [?p]) []" by blast
    from disk_holds_unique [OF this k3(2) d e] have l: "led3 = settle verdict led" "ps3 = ps @ [?p]" by auto
    have "settle verdict led \<noteq> led"
    proof
      assume "settle verdict led = led"
      with l k3(2) h(1) have "ps = [] \<and> led = ledger_empty" by (auto simp: disk_holds_def)
      with \<open>settle verdict led = led\<close> l k3(2) have "?p = expected" by (auto simp: disk_holds_def ledger_records_def ledger_empty_def)
      moreover have "\<exists>r. expected = binding_prefix @ r" using b by (auto simp: binding_record_def split: if_splits)
      ultimately show False by (cases verdict) (auto simp: prefix_defs)
    qed
    with some l l3 show ?thesis by auto
  qed
qed

lemma journal_step_follows:
  assumes s: "journal_step digest inst s t" "journal_inv digest expected led s" and d: "padded digest = digest"
    and b: "binding_record digest inst = Inr expected"
  shows "\<exists>led2. journal_inv digest expected led2 t \<and> ledger_follows digest s led t led2"
proof -
  have e: "text_fits expected" using binding_fits [of digest inst expected] b d by simp
  obtain led2 where l: "led2 = led \<or> ledger_step led led2" "journal_inv digest expected led2 t"
    using journal_step_keeps [OF s d b] by blast
  have quiet: "led2 = led" if "journal_inv digest expected led t" using journal_inv_unique [OF that l(2) d e] .
  have closed: "led2 = led" if "snd s = None \<or> snd t = None"
    using s(1)
  proof cases
    case (opened io create dir j dir2)
    then obtain ps tail where h: "disk_holds digest expected led dir ps tail" "\<not> jd_held dir"
      using s(2) by (auto simp: journal_inv_def)
    show ?thesis using open_keeps [OF opened(4) b h d opened(3)] opened(2) by (intro quiet) (auto simp: journal_inv_def)
  next
    case (open_failed io create dir f dir2)
    then obtain ps tail where h: "disk_holds digest expected led dir ps tail" "\<not> jd_held dir"
      using s(2) by (auto simp: journal_inv_def)
    show ?thesis using open_keeps [OF open_failed(4) b h d open_failed(3)] open_failed(2) by (intro quiet) (auto simp: journal_inv_def)
  next
    case (crashed dir j)
    then obtain ps tail where h: "disk_holds digest expected led dir ps tail" using s(2) by (auto simp: journal_inv_def)
    then have "disk_holds digest expected led (release_lock dir) ps tail"
      using disk_holds_cong [of dir "release_lock dir"] by (simp add: release_lock_def log_bytes_def)
    then show ?thesis using crashed by (intro quiet) (auto simp: journal_inv_def release_lock_def)
  qed (use that in auto)
  have dropped: "led2 = led" if a: "journal_discard digest io (fst s) j = (res, fst t, j2)" "snd s = Some j" "snd t = Some j2" "file_ops_ok io"
    for io j j2 res
  proof -
    obtain ps tail where h: "disk_holds digest expected led (fst s) ps tail" "handle_matches digest led ps tail j" "jd_held (fst s)"
      using s(2) a(2) by (auto simp: journal_inv_def)
    show ?thesis using discard_keeps [OF a(1) h d a(4) e] a(3) by (intro quiet) (auto simp: journal_inv_def)
  qed
  have "ledger_follows digest s led t led2"
    unfolding ledger_follows_def
    by (intro conjI allI impI)
      (rule l(1), erule closed, rule dropped, assumption+,
       rule begin_follows [OF _ _ _ s(2) l(2) d e], assumption+,
       rule finish_follows [OF _ _ _ s(2) l(2) d b], assumption+)
  with l(2) show ?thesis by blast
qed

text \<open>
  C2: the journal keeps its promise to the operator through any sequence of calls, failed writes and
  crashes, from an empty directory on. At every moment what is on disk stands for exactly one ledger: its
  exact records, followed at most by a part of one more, and a handle that is not poisoned shows its
  state. The ledger starts empty and each step follows the call that was made: a call of \<open>begin\<close> that
  reports success has made its intent the pending one, when none was; a call of \<open>finish\<close> that reports
  success has settled the pending intent with its decision; one that reports a failure has done either
  that or nothing; and opening, failing to open, discarding a torn tail and a crash change nothing.
\<close>

theorem journal_refines_ledger:
  assumes "\<forall>bs. length (digest bs) = 32" "binding_record digest inst = Inr expected"
    and "log_bytes dir0 = []" "\<not> jd_held dir0" "path 0 = (dir0, None)"
    and "\<forall>i < n. journal_step digest inst (path i) (path (Suc i))"
  shows "\<exists>led. led 0 = ledger_empty \<and>
    (\<forall>i \<le> n. \<forall>l. stands_for digest expected (path i) l \<longleftrightarrow> l = led i) \<and>
    (\<forall>i < n. ledger_follows digest (path i) (led i) (path (Suc i)) (led (Suc i)))"
proof -
  have d: "padded digest = digest" by (rule padded_id [OF assms(1)])
  have e: "text_fits expected" using binding_fits [of digest inst expected] assms(2) d by simp
  define P where "P = (\<lambda>i l. (i = 0 \<longrightarrow> l = ledger_empty) \<and> (i \<le> n \<longrightarrow> journal_inv digest expected l (path i)))"
  define Q where "Q = (\<lambda>i l l2. i < n \<longrightarrow> ledger_follows digest (path i) l (path (Suc i)) l2)"
  have "\<exists>led. \<forall>i. P i (led i) \<and> Q i (led i) (led (Suc i))"
  proof (rule dependent_nat_choice)
    show "\<exists>l. P 0 l" using journal_inv_init [OF assms(3,4)] assms(5) by (auto simp: P_def)
    show "\<exists>l2. P (Suc i) l2 \<and> Q i l l2" if "P i l" for i l
      using that journal_step_follows [of digest inst "path i" "path (Suc i)" expected l] assms(2,6) d
      by (cases "i < n") (auto simp: P_def Q_def)
  qed
  then obtain led where led: "\<And>i. P i (led i)" "\<And>i. Q i (led i) (led (Suc i))" by blast
  have "stands_for digest expected (path i) l \<longleftrightarrow> l = led i" if "i \<le> n" for i l
  proof -
    have inv: "journal_inv digest expected (led i) (path i)" using led(1) [of i] that by (simp add: P_def)
    then obtain ps tail where "disk_holds digest expected (led i) (fst (path i)) ps tail" by (auto simp: journal_inv_def)
    from disk_holds_unique [OF this _ d e] journal_inv_stands [OF inv] show ?thesis by (auto simp: stands_for_def)
  qed
  then show ?thesis using led unfolding P_def Q_def by blast
qed

definition sample_io :: file_ops where
  "sample_io = \<lparr>fo_sync = True, fo_read = True, fo_stat = True, fo_seek = True,
     fo_persist = (\<lambda>old bs. (old @ bs, True)), fo_truncate = (\<lambda>old n. (take n old, True))\<rparr>"

definition sample_dir :: journal_dir where
  "sample_dir = \<lparr>jd_private = True, jd_log = None, jd_lock = False, jd_held = False\<rparr>"

definition zero_digest :: digest where
  "zero_digest bs = replicate 32 (char_of (0::nat))"

definition sample_binding :: bytes where
  "sample_binding = binding_prefix @ fingerprint_text (replicate 32 (char_of (0::nat)))"

definition sample_journal :: journal where
  "sample_journal =
     \<lparr>jn_store = store_of zero_digest [sample_binding] [] True, jn_state = tx_default, jn_instance = ''a''\<rparr>"

definition sample_opened :: journal_dir where
  "sample_opened = \<lparr>jd_private = True, jd_log = Some (record_bytes zero_digest 1 sample_binding), jd_lock = True, jd_held = True\<rparr>"

lemma sample_io_ok: "file_ops_ok sample_io"
  by (auto simp: file_ops_ok_def sample_io_def intro: exI [of _ "0 :: nat"])

lemma zero_digest_length [simp]: "\<forall>bs. length (zero_digest bs) = 32"
  by (simp add: zero_digest_def)

lemma sample_binding_record: "binding_record zero_digest ''a'' = Inr sample_binding"
  by (simp add: binding_record_def is_ascii_graphic_def sample_binding_def domain_checksum_def finish_def zero_digest_def)

lemma sample_open: "journal_open zero_digest sample_io ''a'' True sample_dir = (Inr sample_journal, sample_opened)"
proof -
  have l: "recover_each zero_digest v [] 0 s = Inr (recovered_from 0, s)" for v :: "nat \<Rightarrow> bytes \<Rightarrow> tx_state \<Rightarrow> journal_error + tx_state" and s
    by (simp add: recover_each_def recover_loop.simps)
  have "text_fits sample_binding"
    using binding_fits [of zero_digest "''a''" sample_binding] sample_binding_record padded_id [OF zero_digest_length] by simp
  then have "length sample_binding \<le> max_payload" by (simp add: text_fits_def)
  moreover have "length (record_bytes zero_digest 1 sample_binding) \<le> journal_max_log"
    using length_record [of zero_digest 1 sample_binding] padded_id [OF zero_digest_length] \<open>length sample_binding \<le> max_payload\<close>
    by (simp add: journal_header_def max_payload_def admin_max_body_def journal_max_log_def)
  ultimately show ?thesis
    by (simp add: journal_open_def binding_open_mode_def sample_binding_record store_open_mode_def sample_dir_def sample_io_def
        log_bytes_def l recovered_from_def store_append_def journal_encode_def checked_add_def u64_max_def Let_def
        sample_journal_def sample_opened_def store_of_def)
qed

lemma sample_reached: "(journal_step zero_digest ''a'')\<^sup>*\<^sup>* (sample_dir, None) (sample_opened, Some sample_journal)"
  using opened [OF sample_io_ok sample_open] by blast

definition sample_path :: "nat \<Rightarrow> journal_dir \<times> journal option" where
  "sample_path i = (if i = 0 then (sample_dir, None) else (sample_opened, Some sample_journal))"

theorem journal_refines_ledger_witness:
  "\<forall>l. stands_for zero_digest sample_binding (sample_opened, Some sample_journal) l \<longleftrightarrow> l = ledger_empty"
proof -
  have start: "log_bytes sample_dir = []" "\<not> jd_held sample_dir" "sample_path 0 = (sample_dir, None)"
    by (simp_all add: sample_dir_def log_bytes_def sample_path_def)
  have run: "\<forall>i < 1. journal_step zero_digest ''a'' (sample_path i) (sample_path (Suc i))"
    using opened [OF sample_io_ok sample_open] by (simp add: sample_path_def)
  obtain led where led: "led 0 = ledger_empty" "\<forall>i \<le> 1. \<forall>l. stands_for zero_digest sample_binding (sample_path i) l \<longleftrightarrow> l = led i"
      "\<forall>i < 1. ledger_follows zero_digest (sample_path i) (led i) (sample_path (Suc i)) (led (Suc i))"
    using journal_refines_ledger [OF zero_digest_length sample_binding_record start run] by blast
  from led(3) have "led 1 = led 0" by (simp add: ledger_follows_def sample_path_def)
  moreover from led(2) have "\<forall>l. stands_for zero_digest sample_binding (sample_path 1) l \<longleftrightarrow> l = led 1" by blast
  ultimately show ?thesis using led(1) by (simp add: sample_path_def)
qed

lemma open_succeeds:
  assumes b: "binding_record digest inst = Inr expected" and h: "disk_holds digest expected led dir ps tail" "ps \<noteq> []"
    and d: "padded digest = digest" and g: "jd_private dir" "\<not> jd_held dir" "fo_read io" "fo_sync io"
  shows "journal_open digest io inst True dir =
    (Inr \<lparr>jn_store = store_of digest ps tail True, jn_state = ledger_state led, jn_instance = inst\<rparr>,
     dir\<lparr>jd_lock := True, jd_log := Some (log_bytes dir), jd_held := True\<rparr>)"
proof -
  let ?v = "bound_visit expected tx_accept"
  have e: "text_fits expected" using binding_fits [of digest inst expected] b d by simp
  have x: "list_all text_fits ps" and v: "visit_all ?v 0 ps tx_default = Inr (ledger_state led)"
    using disk_records [OF h(1) d e] by simp_all
  have r: "recover_each digest ?v (log_bytes dir) 0 tx_default = Inr (recovered_log digest ps (tail \<noteq> []), ledger_state led)"
    using disk_recover [OF h(1) d x, of ?v tx_default] v by simp
  have lock: "log_bytes (dir\<lparr>jd_lock := True\<rparr>) = log_bytes dir" by (simp add: log_bytes_def)
  have bs: "log_bytes dir = frames (record_bytes digest) 0 ps @ tail" "\<not> journal_max_log < length (log_bytes dir)"
    using h(1) by (auto simp: disk_holds_def)
  have "store_open_mode digest io ?v True dir tx_default = (Inr (store_of digest ps tail True, ledger_state led),
      dir\<lparr>jd_lock := True, jd_log := Some (log_bytes dir), jd_held := True\<rparr>)"
    using g r bs lock by (simp add: store_open_mode_def store_of_def recovered_log_def Let_def)
  then show ?thesis using b h(2) by (simp add: journal_open_def binding_open_mode_def) (simp add: store_of_def)
qed

lemma handle_store:
  assumes "handle_matches digest led ps tail j" "\<not> js_poisoned (jn_store j)"
  shows "\<exists>w. ps \<noteq> [] \<and> jn_state j = ledger_state led \<and> jn_store j = store_of digest ps tail w"
  using assms unfolding handle_matches_def by blast

lemma disk_release: "disk_holds digest expected led (release_lock dir) ps tail = disk_holds digest expected led dir ps tail"
  by (rule disk_holds_cong) (simp add: release_lock_def log_bytes_def)

text \<open>
  C30: nothing the operator was shown is lost in a crash: whenever a handle that is not poisoned is lost,
  opening the directory again succeeds, replays to the very state the handle had, keeps every byte of
  the log, and reports the same torn tail.
\<close>

theorem journal_reopen_agrees:
  assumes "\<forall>bs. length (digest bs) = 32" "binding_record digest inst = Inr expected"
    and "log_bytes dir0 = []" "\<not> jd_held dir0" "(journal_step digest inst)\<^sup>*\<^sup>* (dir0, None) (dir, Some j)"
    and "\<not> js_poisoned (jn_store j)" "jd_private dir" "fo_read io" "fo_sync io"
  shows "\<exists>j2 dir2. journal_open digest io inst True (release_lock dir) = (Inr j2, dir2) \<and>
    jn_state j2 = jn_state j \<and> log_bytes dir2 = log_bytes dir \<and>
    jn_store j2 = (jn_store j)\<lparr>js_writable := True\<rparr>"
proof -
  obtain led ps tail where h: "disk_holds digest expected led dir ps tail" "handle_matches digest led ps tail j"
    using reachable_inv [OF assms(5,3,4) padded_id [OF assms(1)] assms(2)] by (auto simp: journal_inv_def)
  then obtain w where j: "ps \<noteq> []" "jn_state j = ledger_state led" "jn_store j = store_of digest ps tail w"
    using handle_store assms(6) by blast
  have w: "store_of digest ps tail True = (jn_store j)\<lparr>js_writable := True\<rparr>" unfolding j(3) by (simp add: store_of_def)
  have "journal_open digest io inst True (release_lock dir) =
      (Inr \<lparr>jn_store = store_of digest ps tail True, jn_state = ledger_state led, jn_instance = inst\<rparr>,
       (release_lock dir)\<lparr>jd_lock := True, jd_log := Some (log_bytes (release_lock dir)), jd_held := True\<rparr>)"
    using assms(7-9) disk_release h(1)
    by (intro open_succeeds [OF assms(2) _ j(1) padded_id [OF assms(1)]]) (simp_all add: release_lock_def)
  then show ?thesis using j(2) w by (simp add: release_lock_def log_bytes_def)
qed

theorem journal_reopen_agrees_witness:
  "case journal_open zero_digest sample_io ''a'' True (release_lock sample_opened) of
     (Inl _, _) \<Rightarrow> False
   | (Inr j, dir) \<Rightarrow> jn_state j = tx_default \<and> log_bytes dir = record_bytes zero_digest 1 sample_binding"
proof -
  have "log_bytes sample_dir = []" "\<not> jd_held sample_dir" "\<not> js_poisoned (jn_store sample_journal)" "jd_private sample_opened"
    "fo_read sample_io" "fo_sync sample_io"
    by (simp_all add: sample_dir_def log_bytes_def sample_journal_def store_of_def sample_opened_def sample_io_def)
  from journal_reopen_agrees [OF zero_digest_length sample_binding_record this(1,2) sample_reached this(3-6)]
  show ?thesis by (auto simp: sample_journal_def sample_opened_def log_bytes_def)
qed

text \<open>
  a decision whose write fails is old or new, never anything else: after a failed or interrupted
  \<open>finish\<close>, a handle that opens the directory again shows either the state before the call or the
  state the call would have given, and the failed handle itself can write nothing more.
\<close>

theorem journal_finish_atomic:
  assumes "\<forall>bs. length (digest bs) = 32" "binding_record digest inst = Inr expected"
    and "log_bytes dir0 = []" "\<not> jd_held dir0" "(journal_step digest inst)\<^sup>*\<^sup>* (dir0, None) (dir, Some j)"
    and "\<not> js_poisoned (jn_store j)" "file_ops_ok io" "referenced \<le> u64_max"
    and "journal_finish digest io referenced verdict dir j = (Inl f, dir1, j1)"
    and "file_ops_ok io2" "journal_open digest io2 inst create (release_lock dir1) = (Inr j2, dir2)"
  shows "jn_state j2 = jn_state j \<or>
    tx_accept (js_sequence (jn_store j) + 1) (decision_prefix verdict @ show_nat referenced) (jn_state j) = Inr (jn_state j2)"
proof -
  note d = padded_id [OF assms(1)]
  obtain led ps tail where h: "disk_holds digest expected led dir ps tail" "handle_matches digest led ps tail j" "jd_held dir"
    using reachable_inv [OF assms(5,3,4) d assms(2)] by (auto simp: journal_inv_def)
  have j: "jn_state j = ledger_state led" "js_sequence (jn_store j) = length ps"
    using handle_store [OF h(2) assms(6)] by (auto simp: store_of_def)
  from finish_keeps [OF assms(9) h d assms(7,8), THEN conjunct1] obtain led3 ps3 tail3 where
    k: "led3 = led \<or> led3 = settle verdict led \<and> ledger_step led (settle verdict led) \<and>
      tx_accept (length ps + 1) (decision_prefix verdict @ show_nat referenced) (ledger_state led) = Inr (ledger_state (settle verdict led))"
      "disk_holds digest expected led3 dir1 ps3 tail3"
    by (elim exE conjE) (rule that)
  have h1: "disk_holds digest expected led3 (release_lock dir1) ps3 tail3" using k(2) by (simp only: disk_release)
  have nh: "\<not> jd_held (release_lock dir1)" by (simp add: release_lock_def)
  obtain ps4 tail4 where m: "handle_matches digest led3 ps4 tail4 j2" "\<not> js_poisoned (jn_store j2)"
    using open_keeps [OF assms(11,2) h1 nh d assms(10)] by auto
  have "jn_state j2 = ledger_state led3" using handle_store [OF m] by blast
  then show ?thesis using j k(1) by auto
qed

definition io_works :: "file_ops \<Rightarrow> bool" where
  "io_works io \<longleftrightarrow> fo_stat io \<and> fo_seek io \<and> (\<forall>old bs. fo_persist io old bs = (old @ bs, True))"

lemma store_append_succeeds:
  assumes h: "disk_holds digest expected led dir ps []" and io: "io_works io" and p: "text_fits p"
    and c: "length (frames (record_bytes digest) 0 (ps @ [p])) \<le> journal_max_log" and d: "padded digest = digest"
  shows "store_append digest io p dir (store_of digest ps [] True) =
    (Inr (length ps + 1), dir\<lparr>jd_log := Some (frames (record_bytes digest) 0 (ps @ [p]))\<rparr>, store_of digest (ps @ [p]) [] True)"
proof -
  have "length ps < 1000000" using frames_count [of digest 0 "ps @ [p]"] c d by simp
  then have n: "length ps + 1 \<le> u64_max" by (simp add: u64_max_def)
  have l: "length (frames (record_bytes digest) 0 (ps @ [p])) =
      length (frames (record_bytes digest) 0 ps) + length (record_bytes digest (length ps + 1) p)"
    by (simp add: frames_append)
  have "log_bytes dir = frames (record_bytes digest) 0 ps" using h by (simp add: disk_holds_def)
  moreover have "\<not> journal_max_log - length (frames (record_bytes digest) 0 ps) < length (record_bytes digest (length ps + 1) p)"
    using c l by arith
  moreover have "\<not> max_payload < length p" using p by (simp add: text_fits_def)
  ultimately show ?thesis using n io
    by (simp add: store_append_def store_of_def checked_add_def journal_encode_def Let_def io_works_def frames_append)
qed

lemma journal_append_succeeds:
  assumes h: "disk_holds digest expected led dir ps []" and io: "io_works io" and p: "text_fits p"
    and c: "length (frames (record_bytes digest) 0 (ps @ [p])) \<le> journal_max_log" and d: "padded digest = digest"
    and j: "jn_store j = store_of digest ps [] True" "tx_accept (length ps + 1) p (jn_state j) = Inr cand"
  shows "journal_append digest io p dir j =
    (Inr (length ps + 1), dir\<lparr>jd_log := Some (frames (record_bytes digest) 0 (ps @ [p]))\<rparr>,
     j\<lparr>jn_store := store_of digest (ps @ [p]) [] True, jn_state := cand\<rparr>)"
proof -
  have "length ps < 1000000" using frames_count [of digest 0 "ps @ [p]"] c d by simp
  then have "checked_add u64_max (js_sequence (jn_store j)) 1 = Some (length ps + 1)"
    using j(1) by (simp add: store_of_def checked_add_def u64_max_def)
  then show ?thesis using j store_append_succeeds [OF h io p c d] by (simp add: journal_append_def)
qed

lemma ledger_state_pending:
  assumes "tx_latest (ledger_state led) = Some i" "tx_decision (ledger_state led) = None"
  shows "pending led = Some (ti_text i) \<and> ti_sequence i = 2 + 2 * length (settled led)"
proof (cases "pending led")
  case None
  have "resolved (settled_state 2 (settled led) tx_default)" by (rule settled_state_resolved) simp
  then show ?thesis using None assms by (simp add: ledger_state_def resolved_def)
next
  case (Some msg)
  then show ?thesis using assms by (auto simp: ledger_state_def)
qed

text \<open>
  C31: an intent is never stranded by the size limit: whenever the journal shows an intent without a
  decision, and its handle is sound, deciding that intent is accepted and written, because the room
  for the decision was set aside when the intent was begun; afterwards the journal shows the decision.
\<close>

theorem journal_finish_fits:
  assumes "\<forall>bs. length (digest bs) = 32" "binding_record digest inst = Inr expected"
    and "log_bytes dir0 = []" "\<not> jd_held dir0" "(journal_step digest inst)\<^sup>*\<^sup>* (dir0, None) (dir, Some j)"
    and "\<not> js_poisoned (jn_store j)" "js_writable (jn_store j)" "\<not> js_incomplete_tail (jn_store j)" "io_works io"
    and "tx_latest (jn_state j) = Some i" "tx_decision (jn_state j) = None"
  shows "\<exists>dir2 j2. journal_finish digest io (ti_sequence i) verdict dir j = (Inr (ti_sequence i + 1), dir2, j2) \<and>
    tx_latest (jn_state j2) = Some i \<and> tx_decision (jn_state j2) = Some verdict \<and>
    tx_applied (jn_state j2) = (if verdict = TxApplied then Some i else tx_applied (jn_state j))"
proof -
  note d = padded_id [OF assms(1)]
  obtain led ps tail where h: "disk_holds digest expected led dir ps tail" "handle_matches digest led ps tail j"
    using reachable_inv [OF assms(5,3,4) d assms(2)] by (auto simp: journal_inv_def)
  obtain w where j: "ps \<noteq> []" "jn_state j = ledger_state led" "jn_store j = store_of digest ps tail w"
    using handle_store [OF h(2) assms(6)] by blast
  have w: "w" "tail = []" using assms(7,8) j(3) by (simp_all add: store_of_def)
  have p: "pending led = Some (ti_text i)" "ti_sequence i = 2 + 2 * length (settled led)"
    using ledger_state_pending assms(10,11) j(2) by simp_all
  have ps: "ps = ledger_records expected led" using h(1) j(1) by (auto simp: disk_holds_def)
  have n: "ti_sequence i = length ps" using p by (simp add: ps length_ledger_records)
  have log: "length (frames (record_bytes digest) 0 ps) + decision_reserve \<le> journal_max_log"
    using h(1) p(1) by (auto simp: disk_holds_def)
  then have "length ps < 1000000" using frames_count [of digest 0 ps] d by simp
  then have u: "ti_sequence i \<le> u64_max" using n by (simp add: u64_max_def)
  let ?p = "decision_prefix verdict @ show_nat (ti_sequence i)"
  let ?st = "(jn_state j)\<lparr>tx_applied := (if verdict = TxApplied then Some i else tx_applied (jn_state j)), tx_decision := Some verdict\<rparr>"
  have c: "length (frames (record_bytes digest) 0 (ps @ [?p])) \<le> journal_max_log"
    using length_record [of digest "length ps + 1" ?p] d decision_fits(2) [OF u, of verdict] log
    by (simp add: frames_append decision_reserve_def journal_header_def prefix_lengths)
  have acc: "tx_accept (length ps + 1) ?p (jn_state j) = Inr ?st"
    using assms(10,11) u by (simp add: tx_accept_decision decide_shown)
  have s: "jn_store j = store_of digest ps [] True" using j(3) w by simp
  have "journal_finish digest io (ti_sequence i) verdict dir j =
      (Inr (length ps + 1), dir\<lparr>jd_log := Some (frames (record_bytes digest) 0 (ps @ [?p]))\<rparr>,
       j\<lparr>jn_store := store_of digest (ps @ [?p]) [] True, jn_state := ?st\<rparr>)"
    unfolding journal_finish_def
    by (rule journal_append_succeeds [OF h(1) [unfolded w(2)] assms(9) decision_fits(1) [OF u] c d s acc])
  then show ?thesis using n assms(10) by simp
qed

definition sample_pending_records :: "bytes list" where
  "sample_pending_records = [sample_binding, intent_prefix @ ''x'']"

definition sample_pending :: journal where
  "sample_pending =
     \<lparr>jn_store = store_of zero_digest sample_pending_records [] True,
      jn_state = \<lparr>tx_latest = Some \<lparr>ti_sequence = 2, ti_text = ''x''\<rparr>, tx_applied = None, tx_decision = None\<rparr>, jn_instance = ''a''\<rparr>"

definition sample_pending_dir :: journal_dir where
  "sample_pending_dir = sample_opened\<lparr>jd_log := Some (frames (record_bytes zero_digest) 0 sample_pending_records)\<rparr>"

lemma sample_begin:
  "journal_begin zero_digest sample_io ''x'' sample_opened sample_journal = (Inr 2, sample_pending_dir, sample_pending)"
proof -
  have z: "padded zero_digest = zero_digest" by (rule padded_id) simp
  have b: "length sample_binding = 80"
    by (simp add: sample_binding_def prefix_lengths length_fingerprint_text)
  have l: "length (record_bytes zero_digest s p) = journal_header + length p" for s p
    using length_record [of zero_digest s p] z by simp
  have h: "disk_holds zero_digest sample_binding ledger_empty sample_opened [sample_binding] []"
    by (simp add: disk_holds_def sample_opened_def log_bytes_def ledger_records_def ledger_empty_def ledger_ok_def l b
        journal_header_def journal_max_log_def)
  have f: "text_fits (intent_prefix @ ''x'')" by (rule intent_fits) (simp_all add: admin_max_body_def)
  have io: "io_works sample_io" by (simp add: io_works_def sample_io_def)
  have "journal_append zero_digest sample_io (intent_prefix @ ''x'') sample_opened sample_journal =
      (Inr (length [sample_binding] + 1),
       sample_opened\<lparr>jd_log := Some (frames (record_bytes zero_digest) 0 ([sample_binding] @ [intent_prefix @ ''x'']))\<rparr>,
       sample_journal\<lparr>jn_store := store_of zero_digest ([sample_binding] @ [intent_prefix @ ''x'']) [] True,
         jn_state := \<lparr>tx_latest = Some \<lparr>ti_sequence = 2, ti_text = ''x''\<rparr>, tx_applied = None, tx_decision = None\<rparr>\<rparr>)"
    by (rule journal_append_succeeds [OF h io f _ z])
      (simp_all add: l b journal_header_def journal_max_log_def prefix_lengths sample_journal_def tx_accept_intent
        admin_max_body_def tx_default_def)
  then show ?thesis
    by (simp add: journal_begin_def admin_max_body_def remaining_capacity_def sample_journal_def store_of_def l b journal_max_log_def
        journal_header_def prefix_lengths decision_reserve_def sample_pending_dir_def sample_pending_def sample_pending_records_def)
qed

lemma sample_pending_reached:
  "(journal_step zero_digest ''a'')\<^sup>*\<^sup>* (sample_dir, None) (sample_pending_dir, Some sample_pending)"
  using sample_reached began [OF sample_io_ok _ sample_begin, of "''a''"] by (simp add: rtranclp.rtrancl_into_rtrancl)

lemma sample_start: "log_bytes sample_dir = []" "\<not> jd_held sample_dir"
  by (simp_all add: sample_dir_def log_bytes_def)

theorem journal_finish_fits_witness:
  "\<exists>dir2 j2. journal_finish zero_digest sample_io 2 TxApplied sample_pending_dir sample_pending = (Inr 3, dir2, j2) \<and>
    tx_applied (jn_state j2) = Some \<lparr>ti_sequence = 2, ti_text = ''x''\<rparr>"
proof -
  have "\<not> js_poisoned (jn_store sample_pending)" "js_writable (jn_store sample_pending)"
    "\<not> js_incomplete_tail (jn_store sample_pending)" "io_works sample_io"
    "tx_latest (jn_state sample_pending) = Some \<lparr>ti_sequence = 2, ti_text = ''x''\<rparr>" "tx_decision (jn_state sample_pending) = None"
    by (simp_all add: sample_pending_def store_of_def io_works_def sample_io_def)
  from journal_finish_fits [OF zero_digest_length sample_binding_record sample_start sample_pending_reached this, of TxApplied]
  show ?thesis by auto
qed

definition full_disk :: file_ops where
  "full_disk = sample_io\<lparr>fo_persist := (\<lambda>old bs. (old, False))\<rparr>"

lemma full_disk_ok: "file_ops_ok full_disk"
  by (auto simp: file_ops_ok_def full_disk_def sample_io_def intro: exI [of _ "0 :: nat"])

lemma sample_pending_disk:
  "disk_holds zero_digest sample_binding \<lparr>settled = [], pending = Some ''x''\<rparr> sample_pending_dir sample_pending_records []"
proof -
  have z: "padded zero_digest = zero_digest" by (rule padded_id) simp
  have b: "length sample_binding = 80" by (simp add: sample_binding_def prefix_lengths length_fingerprint_text)
  have l: "length (record_bytes zero_digest s p) = journal_header + length p" for s p
    using length_record [of zero_digest s p] z by simp
  show ?thesis
    by (simp add: disk_holds_def sample_pending_dir_def log_bytes_def ledger_records_def ledger_ok_def sample_pending_records_def
        l b journal_header_def journal_max_log_def prefix_lengths decision_reserve_def admin_max_body_def)
qed

lemma journal_append_full:
  assumes h: "disk_holds digest expected led dir ps []" and p: "text_fits p"
    and c: "length (frames (record_bytes digest) 0 (ps @ [p])) \<le> journal_max_log" and d: "padded digest = digest"
    and j: "jn_store j = store_of digest ps [] True" "tx_accept (length ps + 1) p (jn_state j) = Inr cand"
  shows "journal_append digest full_disk p dir j =
    (Inl OsError, dir\<lparr>jd_log := Some (log_bytes dir)\<rparr>, j\<lparr>jn_store := (jn_store j)\<lparr>js_poisoned := True\<rparr>\<rparr>)"
proof -
  have "length ps < 1000000" using frames_count [of digest 0 "ps @ [p]"] c d by simp
  then have n: "checked_add u64_max (js_sequence (jn_store j)) 1 = Some (length ps + 1)"
    using j(1) by (simp add: store_of_def checked_add_def u64_max_def)
  have l: "length (frames (record_bytes digest) 0 (ps @ [p])) =
      length (frames (record_bytes digest) 0 ps) + length (record_bytes digest (length ps + 1) p)"
    by (simp add: frames_append)
  have "log_bytes dir = frames (record_bytes digest) 0 ps" using h by (simp add: disk_holds_def)
  moreover have "\<not> journal_max_log - length (frames (record_bytes digest) 0 ps) < length (record_bytes digest (length ps + 1) p)"
    using c l by arith
  moreover have "\<not> max_payload < length p" using p by (simp add: text_fits_def)
  moreover have "checked_add u64_max (js_sequence (store_of digest ps [] True)) 1 = Some (length ps + 1)" using n j(1) by simp
  ultimately have "store_append digest full_disk p dir (store_of digest ps [] True) =
      (Inl OsError, dir\<lparr>jd_log := Some (log_bytes dir)\<rparr>, (store_of digest ps [] True)\<lparr>js_poisoned := True\<rparr>)"
    by (simp add: store_append_def journal_encode_def Let_def full_disk_def sample_io_def)
      (simp add: store_of_def)
  then have sj: "store_append digest full_disk p dir (jn_store j) =
      (Inl OsError, dir\<lparr>jd_log := Some (log_bytes dir)\<rparr>, (jn_store j)\<lparr>js_poisoned := True\<rparr>)" using j(1) by simp
  show ?thesis unfolding journal_append_def n option.case j(2) sum.case sj by simp
qed

lemma sample_decision:
  "tx_accept (length sample_pending_records + 1) (decision_prefix TxApplied @ show_nat 2) (jn_state sample_pending) =
    Inr ((jn_state sample_pending)\<lparr>tx_applied := tx_latest (jn_state sample_pending), tx_decision := Some TxApplied\<rparr>)"
  "length (frames (record_bytes zero_digest) 0 (sample_pending_records @ [decision_prefix TxApplied @ show_nat 2])) \<le> journal_max_log"
  "jn_store sample_pending = store_of zero_digest sample_pending_records [] True" "(2::nat) \<le> u64_max"
  "length sample_pending_records + 1 = 3" "\<not> js_poisoned (jn_store sample_pending)"
proof -
  have l: "length (record_bytes zero_digest s p) = journal_header + length p" for s p
    using length_record [of zero_digest s p] padded_id [OF zero_digest_length] by simp
  have b: "length sample_binding = 80" by (simp add: sample_binding_def prefix_lengths length_fingerprint_text)
  have two: "length (show_nat 2) = 1" by (simp add: show_nat.simps)
  show "length (frames (record_bytes zero_digest) 0 (sample_pending_records @ [decision_prefix TxApplied @ show_nat 2])) \<le> journal_max_log"
    by (simp add: sample_pending_records_def l b two prefix_lengths journal_header_def journal_max_log_def)
  show "tx_accept (length sample_pending_records + 1) (decision_prefix TxApplied @ show_nat 2) (jn_state sample_pending) =
    Inr ((jn_state sample_pending)\<lparr>tx_applied := tx_latest (jn_state sample_pending), tx_decision := Some TxApplied\<rparr>)"
    unfolding tx_accept_decision by (subst decide_shown) (simp_all add: u64_max_def sample_pending_def)
qed (simp_all add: sample_pending_def u64_max_def sample_pending_records_def store_of_def)

theorem journal_finish_atomic_witness:
  "\<exists>dir1 j1 dir2 j2. journal_finish zero_digest full_disk 2 TxApplied sample_pending_dir sample_pending = (Inl OsError, dir1, j1) \<and>
    journal_open zero_digest sample_io ''a'' True (release_lock dir1) = (Inr j2, dir2) \<and>
    (jn_state j2 = jn_state sample_pending \<or>
     tx_accept (js_sequence (jn_store sample_pending) + 1) (decision_prefix TxApplied @ show_nat 2) (jn_state sample_pending) =
       Inr (jn_state j2))"
proof -
  let ?d = "sample_pending_dir\<lparr>jd_log := Some (log_bytes sample_pending_dir)\<rparr>"
  have f: "journal_finish zero_digest full_disk 2 TxApplied sample_pending_dir sample_pending =
      (Inl OsError, ?d, sample_pending\<lparr>jn_store := (jn_store sample_pending)\<lparr>js_poisoned := True\<rparr>\<rparr>)"
    unfolding journal_finish_def
    by (rule journal_append_full [OF sample_pending_disk decision_fits(1) [OF sample_decision(4)] sample_decision(2)
          padded_id [OF zero_digest_length] sample_decision(3,1)])
  have d: "disk_holds zero_digest sample_binding \<lparr>settled = [], pending = Some ''x''\<rparr> (release_lock ?d) sample_pending_records []"
    unfolding disk_release using sample_pending_disk by (subst disk_holds_cong [of _ sample_pending_dir]) simp_all
  have "sample_pending_records \<noteq> []" "jd_private (release_lock ?d)" "\<not> jd_held (release_lock ?d)" "fo_read sample_io" "fo_sync sample_io"
    by (simp_all add: sample_pending_records_def release_lock_def sample_pending_dir_def sample_opened_def sample_io_def)
  then obtain j2 dir2 where open2: "journal_open zero_digest sample_io ''a'' True (release_lock ?d) = (Inr j2, dir2)"
    using open_succeeds [OF sample_binding_record d _ padded_id [OF zero_digest_length], of sample_io] by blast
  from journal_finish_atomic [OF zero_digest_length sample_binding_record sample_start sample_pending_reached sample_decision(6)
      full_disk_ok sample_decision(4) f sample_io_ok open2]
  show ?thesis using f open2 by blast
qed

lemma ledger_settled_grows: "ledger_step\<^sup>*\<^sup>* led led2 \<Longrightarrow> set (settled led) \<subseteq> set (settled led2)"
  by (induction rule: rtranclp_induct) (auto elim!: ledger_step.cases)

text \<open>
  an acknowledged decision is final: once \<open>finish\<close> has returned success, then after any further
  calls, failures and crashes, every sound handle on the directory shows the state of a ledger that
  still has this intent settled with this decision.
\<close>

theorem journal_decision_final:
  assumes "\<forall>bs. length (digest bs) = 32" "binding_record digest inst = Inr expected"
    and "log_bytes dir0 = []" "\<not> jd_held dir0" "(journal_step digest inst)\<^sup>*\<^sup>* (dir0, None) (dir, Some j)"
    and "\<not> js_poisoned (jn_store j)" "file_ops_ok io" "referenced \<le> u64_max"
    and "journal_finish digest io referenced verdict dir j = (Inr n, dir1, j1)" "tx_latest (jn_state j) = Some i"
    and "(journal_step digest inst)\<^sup>*\<^sup>* (dir1, Some j1) (dir2, Some j2)" "\<not> js_poisoned (jn_store j2)"
  shows "\<exists>led. jn_state j2 = ledger_state led \<and> (ti_text i, verdict) \<in> set (settled led)"
proof -
  note d = padded_id [OF assms(1)]
  obtain led ps tail where h: "disk_holds digest expected led dir ps tail" "handle_matches digest led ps tail j" "jd_held dir"
    using reachable_inv [OF assms(5,3,4) d assms(2)] by (auto simp: journal_inv_def)
  note k = finish_keeps [OF assms(9) h d assms(7,8)]
  have m: "jn_state j = ledger_state led" using handle_store [OF h(2) assms(6)] by blast
  have s: "\<exists>st. tx_accept (js_sequence (jn_store j) + 1) (decision_prefix verdict @ show_nat referenced) (jn_state j) = Inr st"
    using assms(9) by (auto simp: journal_finish_def journal_append_def checked_add_def split: if_splits sum.splits)
  then have "tx_decision (jn_state j) = None"
    using assms(8) by (auto simp: tx_accept_decision decide_shown split: if_splits)
  then have p: "pending led = Some (ti_text i)" using ledger_state_pending assms(10) m by simp
  have fresh: "tx_decision (ledger_state (settle verdict led)) = Some verdict"
    using p by (simp add: settle_def ledger_state_def settled_state_append)
  have e: "jn_state j1 = ledger_state (settle verdict led)" "\<not> js_poisoned (jn_store j1)" using k by simp_all
  from k [THEN conjunct1] obtain led3 ps3 tail3 where c: "led3 = led \<or> led3 = settle verdict led"
      "disk_holds digest expected led3 dir1 ps3 tail3" "jd_held dir1" "handle_matches digest led3 ps3 tail3 j1"
    by (elim exE conjE) (rule that, auto)
  have "jn_state j1 = ledger_state led3" using handle_store [OF c(4) e(2)] by blast
  then have "led3 = settle verdict led" using c(1) e(1) fresh m \<open>tx_decision (jn_state j) = None\<close> by auto
  with c(2-4) have "journal_inv digest expected (settle verdict led) (dir1, Some j1)" by (auto simp: journal_inv_def)
  from journal_run_keeps [OF assms(11) this d assms(2)] obtain led2 where
    g: "ledger_step\<^sup>*\<^sup>* (settle verdict led) led2" "journal_inv digest expected led2 (dir2, Some j2)" by blast
  then obtain ps2 tail2 where q: "handle_matches digest led2 ps2 tail2 j2" by (auto simp: journal_inv_def)
  have "(ti_text i, verdict) \<in> set (settled led2)"
    using ledger_settled_grows [OF g(1)] p by (auto simp: settle_def)
  then show ?thesis using handle_store [OF q assms(12)] by blast
qed

theorem journal_decision_final_witness:
  "\<exists>dir1 j1 led. journal_finish zero_digest sample_io 2 TxApplied sample_pending_dir sample_pending = (Inr 3, dir1, j1) \<and>
    jn_state j1 = ledger_state led \<and> (''x'', TxApplied) \<in> set (settled led)"
proof -
  have io: "io_works sample_io" by (simp add: io_works_def sample_io_def)
  note f = journal_append_succeeds [OF sample_pending_disk io decision_fits(1) [OF sample_decision(4)] sample_decision(2)
      padded_id [OF zero_digest_length] sample_decision(3,1), unfolded sample_decision(5), folded journal_finish_def]
  have h: "\<not> js_poisoned (jn_store sample_pending)" "tx_latest (jn_state sample_pending) = Some \<lparr>ti_sequence = 2, ti_text = ''x''\<rparr>"
    by (simp_all add: sample_pending_def store_of_def)
  show ?thesis
    using journal_decision_final [OF zero_digest_length sample_binding_record sample_start sample_pending_reached h(1)
        sample_io_ok sample_decision(4) f h(2) rtranclp.rtrancl_refl] f
    by (auto simp: store_of_def)
qed

subsection \<open>Damage to the log\<close>

text \<open>
  every record that was written in full is recovered, whatever happened to the write after it: the
  scan of complete records followed by any strict part of one more visits the complete records in order,
  ends behind the last of them, and reports an incomplete tail exactly if that part is not empty.
\<close>

theorem recover_torn_prefix:
  assumes "\<forall>bs. length (digest bs) = 32" "list_all text_fits ps" "text_fits p"
    and "k < length (record_bytes digest (length ps + 1) p)"
    and "length (frames (record_bytes digest) 0 ps) + k \<le> journal_max_log"
  shows "recover_each digest visit (frames (record_bytes digest) 0 ps @ take k (record_bytes digest (length ps + 1) p)) 0 v =
    and_then (visit_all visit 0 ps v) (\<lambda>v.
      Inr (\<lparr>rc_sequence = length ps, rc_text = (if ps = [] then None else Some (last ps)),
            rc_valid_bytes = length (frames (record_bytes digest) 0 ps), rc_incomplete_tail = (0 < k)\<rparr>, v))"
proof (cases "k = 0")
  case True
  then show ?thesis using recover_records [OF assms(2), of digest visit v] assms(5) padded_id [OF assms(1)]
    by (simp add: recovered_log_def)
next
  case False
  then show ?thesis
    using recover_torn [OF assms(2,3), of k digest visit v] assms(4,5) padded_id [OF assms(1)]
    by (simp add: recovered_log_def)
qed

theorem recover_torn_prefix_witness:
  "recover_each zero_digest (\<lambda>s p v. Inr (v @ [(s, p)])) (record_bytes zero_digest 1 ''first;'' @ take 90 (record_bytes zero_digest 2 ''second;'')) 0 [] =
     Inr (\<lparr>rc_sequence = 1, rc_text = Some ''first;'', rc_valid_bytes = 90, rc_incomplete_tail = True\<rparr>, [(1, ''first;'')])"
proof -
  have l: "length (record_bytes zero_digest s p) = journal_header + length p" for s p
    using length_record [of zero_digest s p] padded_id [OF zero_digest_length] by simp
  have f: "list_all text_fits [''first;'']" "text_fits ''second;''" by (simp_all add: text_fits_def max_payload_def admin_max_body_def)
  have k: "90 < length (record_bytes zero_digest (length [''first;''] + 1) ''second;'')"
    "length (frames (record_bytes zero_digest) 0 [''first;'']) + 90 \<le> journal_max_log"
    by (simp_all add: l journal_header_def journal_max_log_def)
  show ?thesis
    using recover_torn_prefix [OF zero_digest_length f k, of "\<lambda>s p v. Inr (v @ [(s, p)])" "[]"]
    by (simp add: l journal_header_def numeral_2_eq_2)
qed

text \<open>A digest that no change of a single byte of the given message escapes.\<close>

definition detects :: "digest \<Rightarrow> bytes \<Rightarrow> bytes \<Rightarrow> bool" where
  "detects digest domain m \<longleftrightarrow>
     (\<forall>i b. i < length m \<longrightarrow> b \<noteq> m ! i \<longrightarrow> domain_checksum digest domain (m[i := b]) \<noteq> domain_checksum digest domain m)"

lemma update_slice:
  "i < n \<Longrightarrow> take n (bs[i := b]) = (take n bs)[i := b]" "n \<le> i \<Longrightarrow> take n (bs[i := b]) = take n bs"
  "i < n \<Longrightarrow> drop n (bs[i := b]) = drop n bs" "n \<le> i \<Longrightarrow> drop n (bs[i := b]) = (drop n bs)[i - n := b]"
  by (simp_all add: take_update_swap drop_update_swap list_update_beyond)

lemma record_update_header:
  assumes "detects (padded digest) ''gatel.admin-intent.header.v1'' (record_prefix (padded digest) s msg)"
    and "i < 84" "b \<noteq> record_bytes (padded digest) s msg ! i"
  shows "domain_checksum (padded digest) ''gatel.admin-intent.header.v1'' (take 52 ((record_bytes (padded digest) s msg)[i := b])) \<noteq>
    take 32 (drop 52 ((record_bytes (padded digest) s msg)[i := b]))"
proof -
  define f where "f = record_bytes (padded digest) s msg"
  note g = record_fields [of digest s msg "[]", unfolded append_Nil2, folded f_def]
  have len: "length f = 84 + length msg" by (simp add: f_def journal_header_def)
  have i: "i < length f" using assms(2) len by simp
  show ?thesis
  proof (cases "i < 52")
    case True
    have "take 52 f ! i \<noteq> b" "i < length (take 52 f)" using True assms(3) len by (simp_all add: f_def)
    then show ?thesis using assms(1) True g(2,3) unfolding f_def [symmetric] detects_def
      by (simp add: update_slice)
  next
    case False
    then have "take 52 (f[i := b]) = take 52 f" "take 32 (drop 52 (f[i := b])) = (take 32 (drop 52 f))[i - 52 := b]"
      using assms(2) by (simp_all add: update_slice)
    moreover have "(take 32 (drop 52 f))[i - 52 := b] \<noteq> take 32 (drop 52 f)"
    proof
      assume a: "(take 32 (drop 52 f))[i - 52 := b] = take 32 (drop 52 f)"
      have "(take 32 (drop 52 f))[i - 52 := b] ! (i - 52) = b" using False assms(2) i len by (subst nth_list_update_eq) simp_all
      then have "take 32 (drop 52 f) ! (i - 52) = b" using a by simp
      then show False using assms(2,3) False i by (simp add: f_def [symmetric])
    qed
    ultimately show ?thesis using g(2,3) unfolding f_def [symmetric] by metis
  qed
qed

lemma read_record_damaged:
  fixes digest base msg i b
  defines "f \<equiv> record_bytes (padded digest) (base + 1) msg"
  assumes h: "detects (padded digest) ''gatel.admin-intent.header.v1'' (record_prefix (padded digest) (base + 1) msg)"
    and p: "detects (padded digest) ''gatel.admin-intent.payload.v1'' msg"
    and t: "text_fits msg" "base < u64_max" and i: "i < length f" "b \<noteq> f ! i"
  shows "\<exists>e. read_record (padded digest) base (f[i := b] @ rest) = Inl e"
proof (cases "i < 84")
  case True
  have len: "length f = 84 + length msg" by (simp add: f_def journal_header_def)
  have "domain_checksum (padded digest) ''gatel.admin-intent.header.v1'' (take 52 (f[i := b] @ rest)) \<noteq>
      take 32 (drop 52 (f[i := b] @ rest))"
    using record_update_header [OF h True i(2) [unfolded f_def], folded f_def] len by simp
  moreover have "\<not> length (f[i := b] @ rest) < journal_header" using len by (simp add: journal_header_def)
  ultimately show ?thesis by (auto simp: read_record_def Let_def)
next
  case False
  note g = record_fields [of digest "base + 1" msg "[]", unfolded append_Nil2, folded f_def]
  have len: "length f = 84 + length msg" by (simp add: f_def journal_header_def)
  let ?bs = "f[i := b] @ rest"
  have m: "drop 84 ?bs = msg[i - 84 := b] @ rest" using False i(1) g(7) len by (simp add: update_slice)
  have s: "take 8 ?bs = journal_magic" "take 52 ?bs = record_prefix (padded digest) (base + 1) msg"
    "take 32 (drop 52 ?bs) = domain_checksum (padded digest) ''gatel.admin-intent.header.v1'' (record_prefix (padded digest) (base + 1) msg)"
    "take 8 (drop 8 ?bs) = le_bytes 8 (base + 1)" "take 4 (drop 16 ?bs) = le_bytes 4 (length msg)"
    "take 32 (drop 20 ?bs) = domain_checksum (padded digest) ''gatel.admin-intent.payload.v1'' msg"
    using False g len by (simp_all add: update_slice)
  have "msg ! (i - 84) = f ! i" using g(7) False i(1) by (metis le_add_diff_inverse less_imp_le not_less nth_drop len le_add1)
  then have "domain_checksum (padded digest) ''gatel.admin-intent.payload.v1'' (msg[i - 84 := b]) \<noteq>
      domain_checksum (padded digest) ''gatel.admin-intent.payload.v1'' msg"
    using p i False len unfolding detects_def by simp
  moreover have "84 \<le> length ?bs" "length msg \<le> max_payload" "\<not> length ?bs - 84 < length msg" using len t(1) by (simp_all add: text_fits_def)
  ultimately show ?thesis
    using read_record_header [OF _ s(1-5) _ t(2)] unfolding m s(6) by simp
qed

text \<open>
  C32: damage is never mistaken for an unfinished write: in a log of complete records, changing any one
  byte of any record, in its header or its payload, makes the whole scan fail, whatever follows it, so
  that a damaged record is neither accepted nor skipped nor dropped as a torn tail. The digest is only
  assumed to tell apart a message and the same message with one byte changed.
\<close>

theorem recover_detects_damage:
  assumes "\<forall>bs. length (digest bs) = 32" "list_all text_fits ps" "text_fits p"
    and "detects digest ''gatel.admin-intent.header.v1'' (record_prefix digest (length ps + 1) p)"
    and "detects digest ''gatel.admin-intent.payload.v1'' p"
    and "i < length (record_bytes digest (length ps + 1) p)" "b \<noteq> record_bytes digest (length ps + 1) p ! i"
  shows "\<exists>e. recover_each digest visit
    (frames (record_bytes digest) 0 ps @ (record_bytes digest (length ps + 1) p)[i := b] @ rest) 0 v = Inl e"
proof (cases "length (frames (record_bytes digest) 0 ps) \<le> journal_max_log")
  case False
  then show ?thesis by (simp add: recover_each_def)
next
  case True
  note d = padded_id [OF assms(1)]
  let ?f = "(record_bytes digest (length ps + 1) p)[i := b]" and ?log = "frames (record_bytes digest) 0 ps"
  have n: "length ps < u64_max" using frames_count [of digest 0 ps] True d by (simp add: u64_max_def)
  obtain e where e: "read_record digest (length ps) (?f @ rest) = Inl e"
    using read_record_damaged [of digest "length ps" p i b rest] assms(3-7) n d by auto
  have "length ?f > 0" using assms(6) by (metis gr_zeroI length_list_update not_less_zero)
  define r where "r = journal_log.position_after digest ps (recovered_from 0)"
  have r: "rc_sequence r = length ps" "rc_valid_bytes r = length ?log"
    unfolding r_def journal_position by (simp_all add: d)
  have l: "recover_loop digest visit (?log @ ?f @ rest) r v2 = Inl e" for v2
    using e r \<open>length ?f > 0\<close> by (subst recover_loop.simps) simp
  have "recover_loop digest visit (?log @ ?f @ rest) (recovered_from 0) v =
      and_then (visit_all visit 0 ps v) (recover_loop digest visit (?log @ ?f @ rest) r)"
    using journal_log.scan_frames [OF assms(2), of "recovered_from 0" "[]" digest visit "?f @ rest" v] n
    unfolding r_def d by simp
  then have "\<exists>e. recover_loop digest visit (?log @ ?f @ rest) (recovered_from 0) v = Inl e"
    using l by (cases "visit_all visit 0 ps v") simp_all
  then show ?thesis by (auto simp: recover_each_def)
qed

text \<open>A digest that sums the bytes: enough to see every change of one byte.\<close>

definition sum_digest :: digest where
  "sum_digest bs = le_bytes 32 (sum_list (map code bs) mod 256)"

lemma sum_digest_length [simp]: "\<forall>bs. length (sum_digest bs) = 32"
  by (simp add: sum_digest_def)

lemma sum_update: "i < length m \<Longrightarrow> int (sum_list (map code (m[i := b]))) = int (sum_list (map code m)) + int (code b) - int (code (m ! i))"
proof (induction m arbitrary: i)
  case (Cons x m)
  then show ?case by (cases i) auto
qed simp

lemma le_mod: "le_value (le_bytes 32 (n mod 256)) = n mod 256"
  unfolding le_value_bytes by (rule mod_less) (rule less_le_trans [of _ 256], simp_all)

lemma mod_shift: "a mod 256 = b mod 256 \<Longrightarrow> int a = int b + c - d \<Longrightarrow> 256 dvd c - d"
  by (metis (no_types) add_diff_eq add_diff_cancel_left' mod_eq_dvd_iff of_nat_mod of_nat_numeral)

lemma sum_digest_detects: "detects sum_digest domain m"
  unfolding detects_def
proof (intro allI impI notI)
  fix i b
  assume a: "i < length m" "b \<noteq> m ! i"
    and e: "domain_checksum sum_digest domain (m[i := b]) = domain_checksum sum_digest domain m"
  let ?s = "\<lambda>m. sum_list (map code (update_bytes m (update_str domain hasher_new)))"
  have l: "le_bytes 32 (?s (m[i := b]) mod 256) = le_bytes 32 (?s m mod 256)"
    using e by (simp add: domain_checksum_def finish_def sum_digest_def)
  have "?s (m[i := b]) mod 256 = ?s m mod 256"
    using arg_cong [OF l, of le_value] unfolding le_mod .
  moreover have "int (?s (m[i := b])) = int (?s m) + int (code b) - int (code (m ! i))"
    using sum_update [OF a(1), of b] by (simp add: update_bytes_def)
  ultimately have "256 dvd int (code b) - int (code (m ! i))" by (rule mod_shift)
  moreover have "\<bar>int (code b) - int (code (m ! i))\<bar> < 256" using code_lt_256 [of b] code_lt_256 [of "m ! i"] by linarith
  ultimately have "int (code b) - int (code (m ! i)) = 0" using dvd_imp_le_int [of "int (code b) - int (code (m ! i))" 256] by linarith
  then have "code b = code (m ! i)" by linarith
  with a(2) show False by simp
qed

theorem recover_detects_damage_witness:
  "\<exists>e. recover_each sum_digest (\<lambda>_ _ v. Inr v) (record_bytes sum_digest 1 ''first;'' @ (record_bytes sum_digest 2 ''next;'')[84 := CHR ''t'']) 0 () = Inl e"
proof -
  have l: "length (record_bytes sum_digest s p) = journal_header + length p" for s p
    using length_record [of sum_digest s p] padded_id [OF sum_digest_length] by simp
  have f: "list_all text_fits [''first;'']" "text_fits ''next;''" by (simp_all add: text_fits_def max_payload_def admin_max_body_def)
  have k: "84 < length (record_bytes sum_digest (length [''first;''] + 1) ''next;'')" by (simp add: l journal_header_def)
  have "record_bytes sum_digest (length [''first;''] + 1) ''next;'' ! 84 = hd (drop 84 (record_bytes sum_digest (length [''first;''] + 1) ''next;''))"
    using k by (simp add: hd_drop_conv_nth)
  also have "\<dots> = CHR ''n''"
    using record_fields(7) [of sum_digest "length [''first;''] + 1" "''next;''" "[]"] padded_id [OF sum_digest_length] by simp
  finally have b: "CHR ''t'' \<noteq> record_bytes sum_digest (length [''first;''] + 1) ''next;'' ! 84" by simp
  show ?thesis
    using recover_detects_damage [OF sum_digest_length f sum_digest_detects sum_digest_detects k b, of "\<lambda>_ _ v. Inr v" "[]" "()"]
    by (simp add: numeral_2_eq_2)
qed

text \<open>
  a journal that belongs to another deployment is refused before anything of it is used: opening a
  log that begins with the binding of one instance under the name of another gives the binding error,
  and the log keeps every byte.
\<close>

theorem foreign_journal_refused:
  assumes "\<forall>bs. length (digest bs) = 32" "binding_record digest inst = Inr expected" "text_fits other" "other \<noteq> expected"
    and "log_bytes dir = record_bytes digest 1 other @ rest" "length (log_bytes dir) \<le> journal_max_log"
    and "jd_private dir" "\<not> jd_held dir" "jd_log dir \<noteq> None" "jd_lock dir \<or> create" "fo_read io"
  shows "fst (journal_open digest io inst create dir) = Inl (JournalFault InvalidBinding) \<and>
    log_bytes (snd (journal_open digest io inst create dir)) = log_bytes dir \<and>
    \<not> jd_held (snd (journal_open digest io inst create dir))"
proof -
  note d = padded_id [OF assms(1)]
  let ?v = "bound_visit expected tx_accept"
  have "recover_loop digest ?v (log_bytes dir) (recovered_from 0) tx_default =
      and_then (visit_all ?v 0 [other] tx_default) (recover_loop digest ?v (log_bytes dir) (journal_log.position_after digest [other] (recovered_from 0)))"
    using journal_log.scan_frames [of "[other]" "recovered_from 0" "[]" digest ?v rest tx_default] assms(3,5) d
    by (simp add: u64_max_def)
  then have r: "recover_each digest ?v (log_bytes dir) 0 tx_default = Inl InvalidBinding"
    using assms(4,6) by (simp add: recover_each_def bound_visit_def)
  have lock: "log_bytes (dir\<lparr>jd_lock := True\<rparr>) = log_bytes dir" by (simp add: log_bytes_def)
  have "store_open_mode digest io ?v create dir tx_default =
      (Inl (JournalFault InvalidBinding), dir\<lparr>jd_lock := True, jd_log := Some (log_bytes dir)\<rparr>)"
    using assms(6-11) r lock by (auto simp: store_open_mode_def Let_def)
  then have "journal_open digest io inst create dir =
      (Inl (JournalFault InvalidBinding), dir\<lparr>jd_lock := True, jd_log := Some (log_bytes dir)\<rparr>)"
    using assms(2) by (simp add: journal_open_def binding_open_mode_def)
  then show ?thesis using assms(8) by simp
qed

theorem foreign_journal_refused_witness:
  "fst (journal_open sum_digest sample_io ''b'' True (sample_opened\<lparr>jd_held := False,
      jd_log := Some (record_bytes sum_digest 1 (binding_prefix @ fingerprint_text (domain_checksum sum_digest ''gatel.admin-journal.instance.v1'' ''a'')))\<rparr>))
   = Inl (JournalFault InvalidBinding)"
proof -
  let ?rec = "\<lambda>i. binding_prefix @ fingerprint_text (domain_checksum sum_digest ''gatel.admin-journal.instance.v1'' i)"
  let ?dir = "sample_opened\<lparr>jd_held := False, jd_log := Some (record_bytes sum_digest 1 (?rec ''a''))\<rparr>"
  have b: "binding_record sum_digest ''b'' = Inr (?rec ''b'')" "binding_record sum_digest ''a'' = Inr (?rec ''a'')"
    by (simp_all add: binding_record_def is_ascii_graphic_def)
  have f: "text_fits (?rec ''a'')" using binding_fits [of sum_digest "''a''"] b(2) padded_id [OF sum_digest_length] by simp
  have ne: "?rec ''a'' \<noteq> ?rec ''b''" by code_simp
  have l: "length (record_bytes sum_digest 1 (?rec ''a'')) \<le> journal_max_log"
    using length_record [of sum_digest 1 "?rec ''a''"] padded_id [OF sum_digest_length] f
    by (simp add: journal_header_def text_fits_def max_payload_def admin_max_body_def journal_max_log_def)
  show ?thesis
    using foreign_journal_refused [OF sum_digest_length b(1) f ne, of ?dir "[]" True sample_io] l
    by (simp add: sample_opened_def sample_io_def log_bytes_def)
qed

end
