(* ===== verification/Wal_Frames.thy ===== *)
theory Wal_Frames
  imports Journal Snapshot_Codec
begin

text \<open>
  The frames of the binary write-ahead log (\<open>gatel/src/admin_wal_frame.rs\<close>) and the decisions in them
  (\<open>admin_wal_decision.rs\<close>). A \<open>usize\<close> has 64 bits.
\<close>

subsection \<open>Frames\<close>

definition wal_magic :: bytes where "wal_magic = ''GATELW01''"

definition wal_header :: nat where "wal_header = 96"

definition wal_max_log :: nat where "wal_max_log = 64 * 1024 * 1024"

definition decision_bytes :: nat where "decision_bytes = 41"

definition wal_decision_reserve :: nat where "wal_decision_reserve = wal_header + decision_bytes"

definition intent_header :: nat where "intent_header = 40"

definition intent_meta :: nat where "intent_meta = 32 * 5"

definition intent_length :: nat where "intent_length = 8"

definition intent_max_bytes :: nat where
  "intent_max_bytes = intent_header + intent_meta + intent_length + max_bytes"

datatype wal_kind = WalIntent | WalDecision

datatype wal_error = WalLimit | WalHeader | WalPayload | WalLength | WalSequence

fun kind_tag :: "wal_kind \<Rightarrow> nat" where
  "kind_tag WalIntent = 1"
| "kind_tag WalDecision = 2"

fun kind_validate :: "wal_kind \<Rightarrow> nat \<Rightarrow> wal_error + unit" where
  "kind_validate WalIntent n = (if 0 < n \<and> n \<le> intent_max_bytes then Inr () else Inl WalLength)"
| "kind_validate WalDecision n = (if n = decision_bytes then Inr () else Inl WalLength)"

record wal_scan_state =
  ws_sequence :: nat
  ws_valid_bytes :: nat
  ws_incomplete_tail :: bool

definition reserve_intent :: "nat \<Rightarrow> nat \<Rightarrow> nat \<Rightarrow> wal_error + unit" where
  "reserve_intent used sequence payload_bytes =
     and_then (kind_validate WalIntent payload_bytes) (\<lambda>_.
       case checked_add u64_max sequence 2 of
         None \<Rightarrow> Inl WalSequence
       | Some _ \<Rightarrow>
           (case Option.bind (Option.bind (checked_add u64_max used wal_header) (\<lambda>n. checked_add u64_max n payload_bytes))
                  (\<lambda>n. checked_add u64_max n wal_decision_reserve) of
              None \<Rightarrow> Inl WalLimit
            | Some required \<Rightarrow> if wal_max_log < required then Inl WalLimit else Inr ()))"

definition frame_prefix :: "digest \<Rightarrow> nat \<Rightarrow> wal_kind \<Rightarrow> bytes \<Rightarrow> bytes" where
  "frame_prefix digest sequence kind payload =
     wal_magic @ le_bytes 8 sequence @ [char_of (kind_tag kind)] @ replicate 7 (char_of (0::nat)) @
     le_bytes 8 (length payload) @ domain_checksum digest ''gatel.wal.frame-payload.v1'' payload"

definition frame_bytes :: "digest \<Rightarrow> nat \<Rightarrow> wal_kind \<times> bytes \<Rightarrow> bytes" where
  "frame_bytes digest sequence = (\<lambda>(kind, payload).
     frame_prefix digest sequence kind payload @
     domain_checksum digest ''gatel.wal.frame-header.v1'' (frame_prefix digest sequence kind payload) @ payload)"

definition wal_encode :: "digest \<Rightarrow> nat \<Rightarrow> wal_kind \<Rightarrow> bytes \<Rightarrow> wal_error + bytes" where
  "wal_encode digest sequence kind payload =
     (if sequence = 0 then Inl WalSequence
      else and_then (kind_validate kind (length payload)) (\<lambda>_. Inr (frame_bytes digest sequence (kind, payload))))"

definition kind_of_tag :: "nat \<Rightarrow> wal_kind option" where
  "kind_of_tag n = (if n = 1 then Some WalIntent else if n = 2 then Some WalDecision else None)"

text \<open>One turn of the loop of \<open>scan\<close>, up to the visitor.\<close>

definition read_frame :: "digest \<Rightarrow> nat \<Rightarrow> bytes \<Rightarrow> wal_error + (nat \<times> (wal_kind \<times> bytes) \<times> nat) option" where
  "read_frame digest current remaining =
     (let prefix = min (length remaining) (length wal_magic) in
      if take prefix remaining \<noteq> take prefix wal_magic then Inl WalHeader
      else if length remaining < wal_header then Inr None
      else if domain_checksum digest ''gatel.wal.frame-header.v1'' (take 64 remaining) \<noteq> take 32 (drop 64 remaining) \<or>
              take 7 (drop 17 remaining) \<noteq> replicate 7 (char_of (0::nat))
        then Inl WalHeader
      else (case kind_of_tag (code (hd (drop 16 remaining))) of
          None \<Rightarrow> Inl WalHeader
        | Some kind \<Rightarrow>
            (case checked_add u64_max current 1 of
               None \<Rightarrow> Inl WalSequence
             | Some expected \<Rightarrow>
                 let sequence = le_value (take 8 (drop 8 remaining)); len = le_value (take 8 (drop 24 remaining)) in
                 if sequence \<noteq> expected then Inl WalSequence
                 else and_then (kind_validate kind len) (\<lambda>_.
                   if length remaining - wal_header < len then Inr None
                   else
                     let payload = take len (drop wal_header remaining) in
                     if domain_checksum digest ''gatel.wal.frame-payload.v1'' payload \<noteq> take 32 (drop 32 remaining)
                       then Inl WalPayload
                     else Inr (Some (sequence, (kind, payload), wal_header + len))))))"

definition scan_advance :: "nat \<Rightarrow> wal_kind \<times> bytes \<Rightarrow> nat \<Rightarrow> wal_scan_state \<Rightarrow> wal_scan_state" where
  "scan_advance sequence _ n r = r\<lparr>ws_sequence := sequence, ws_valid_bytes := ws_valid_bytes r + n\<rparr>"

lemma read_frame_consumes: "read_frame digest current bs = Inr (Some (s, p, n)) \<Longrightarrow> 0 < n"
  by (auto simp: read_frame_def Let_def wal_header_def split: if_splits option.splits)

function scan_loop ::
  "digest \<Rightarrow> (nat \<Rightarrow> wal_kind \<times> bytes \<Rightarrow> 'v \<Rightarrow> wal_error + 'v) \<Rightarrow> bytes \<Rightarrow> wal_scan_state \<Rightarrow> 'v \<Rightarrow> wal_error + (wal_scan_state \<times> 'v)" where
  "scan_loop digest visit input r v =
     (if ws_valid_bytes r < length input then
        (case read_frame digest (ws_sequence r) (drop (ws_valid_bytes r) input) of
           Inl e \<Rightarrow> Inl e
         | Inr None \<Rightarrow> Inr (r\<lparr>ws_incomplete_tail := True\<rparr>, v)
         | Inr (Some (sequence, p, n)) \<Rightarrow>
             (case visit sequence p v of
                Inl e \<Rightarrow> Inl e
              | Inr v2 \<Rightarrow> scan_loop digest visit input (scan_advance sequence p n r) v2))
      else Inr (r, v))"
  by pat_completeness auto
termination
  by (relation "measure (\<lambda>(_, _, input, r, _). length input - ws_valid_bytes r)")
    (auto simp: scan_advance_def dest: read_frame_consumes)

declare scan_loop.simps [simp del]

definition scan_from :: "nat \<Rightarrow> wal_scan_state" where
  "scan_from base = \<lparr>ws_sequence = base, ws_valid_bytes = 0, ws_incomplete_tail = False\<rparr>"

definition wal_scan ::
  "digest \<Rightarrow> (nat \<Rightarrow> wal_kind \<times> bytes \<Rightarrow> 'v \<Rightarrow> wal_error + 'v) \<Rightarrow> bytes \<Rightarrow> nat \<Rightarrow> 'v \<Rightarrow> wal_error + (wal_scan_state \<times> 'v)" where
  "wal_scan digest visit input base v =
     (if wal_max_log < length input then Inl WalLimit else scan_loop digest visit input (scan_from base) v)"

subsection \<open>Decisions\<close>

datatype wal_outcome = OutcomeApplied | OutcomeRejected

record wal_decision =
  wd_intent_sequence :: nat
  wd_intent_identity :: fingerprint
  wd_outcome :: wal_outcome

fun outcome_tag :: "wal_outcome \<Rightarrow> nat" where
  "outcome_tag OutcomeApplied = 1"
| "outcome_tag OutcomeRejected = 2"

definition decision_encode :: "wal_decision \<Rightarrow> wal_error + bytes" where
  "decision_encode d =
     (if wd_intent_sequence d = 0 then Inl WalSequence
      else Inr (le_bytes 8 (wd_intent_sequence d) @ wd_intent_identity d @ [char_of (outcome_tag (wd_outcome d))]))"

definition decision_decode :: "bytes \<Rightarrow> nat \<Rightarrow> wal_error + wal_decision" where
  "decision_decode bs decision_sequence =
     (if length bs \<noteq> decision_bytes then Inl WalLength
      else
        let intent_sequence = le_value (take 8 bs) in
        if intent_sequence = 0 \<or> checked_add u64_max intent_sequence 1 \<noteq> Some decision_sequence then Inl WalSequence
        else (case (if code (hd (drop 40 bs)) = 1 then Some OutcomeApplied
                    else if code (hd (drop 40 bs)) = 2 then Some OutcomeRejected else None) of
            None \<Rightarrow> Inl WalPayload
          | Some outcome \<Rightarrow>
              Inr \<lparr>wd_intent_sequence = intent_sequence, wd_intent_identity = take 32 (drop 8 bs), wd_outcome = outcome\<rparr>))"

subsection \<open>The write-ahead log as a framed log\<close>

definition payload_fits :: "wal_kind \<times> bytes \<Rightarrow> bool" where
  "payload_fits p \<longleftrightarrow> kind_validate (fst p) (length (snd p)) = Inr ()"

lemma intent_max_bytes_lt: "intent_max_bytes < 2 ^ 32"
  by (simp add: intent_max_bytes_def intent_header_def intent_meta_def intent_length_def max_bytes_def)

lemma payload_length: "kind_validate kind n = Inr () \<Longrightarrow> n \<le> intent_max_bytes"
  by (cases kind) (auto simp: decision_bytes_def intent_max_bytes_def max_bytes_def split: if_splits)

lemma length_wal_magic [simp]: "length wal_magic = 8"
  by (simp add: wal_magic_def)

lemma length_frame_prefix: "length (frame_prefix (padded digest) s kind payload) = 64"
  by (simp add: frame_prefix_def length_domain_checksum)

lemma length_frame [simp]: "length (frame_bytes (padded digest) s p) = wal_header + length (snd p)"
  by (cases p) (simp add: frame_bytes_def length_frame_prefix length_domain_checksum wal_header_def)

lemma kind_of_tag [simp]: "kind_of_tag (code (char_of (kind_tag kind))) = Some kind"
  by (cases kind) (simp_all add: kind_of_tag_def)

lemma frame_fields:
  fixes digest s kind payload rest
  defines "bs \<equiv> frame_bytes (padded digest) s (kind, payload) @ rest"
  shows "take 8 bs = wal_magic" "take 64 bs = frame_prefix (padded digest) s kind payload"
    "take 32 (drop 64 bs) = domain_checksum (padded digest) ''gatel.wal.frame-header.v1'' (frame_prefix (padded digest) s kind payload)"
    "take 7 (drop 17 bs) = replicate 7 (char_of (0::nat))" "hd (drop 16 bs) = char_of (kind_tag kind)"
    "take 8 (drop 8 bs) = le_bytes 8 s" "take 8 (drop 24 bs) = le_bytes 8 (length payload)"
    "take 32 (drop 32 bs) = domain_checksum (padded digest) ''gatel.wal.frame-payload.v1'' payload"
    "drop 96 bs = payload @ rest"
  using length_domain_checksum [of digest]
  by (simp_all add: bs_def frame_bytes_def frame_prefix_def)

lemma read_frame_header:
  assumes "96 \<le> length bs" "take 8 bs = wal_magic" "take 64 bs = pre"
    "take 32 (drop 64 bs) = domain_checksum digest ''gatel.wal.frame-header.v1'' pre"
    "take 7 (drop 17 bs) = replicate 7 (char_of (0::nat))" "hd (drop 16 bs) = char_of (kind_tag kind)"
    "take 8 (drop 8 bs) = le_bytes 8 (base + 1)" "take 8 (drop 24 bs) = le_bytes 8 n" "kind_validate kind n = Inr ()" "base < u64_max"
  shows "read_frame digest base bs =
    (if length bs - 96 < n then Inr None
     else if domain_checksum digest ''gatel.wal.frame-payload.v1'' (take n (drop 96 bs)) \<noteq> take 32 (drop 32 bs) then Inl WalPayload
     else Inr (Some (base + 1, (kind, take n (drop 96 bs)), 96 + n)))"
proof -
  have m: "take (min (length bs) 8) bs = take (min (length bs) 8) wal_magic"
    by (rule take_min_prefix [OF assms(2)])
  have v: "le_value (le_bytes 8 (base + 1)) = base + 1" "le_value (le_bytes 8 n) = n"
    using assms(10) payload_length [OF assms(9)] intent_max_bytes_lt by (simp_all add: codec_simps u64_max_alt)
  show ?thesis using assms(1,9,10) m
    unfolding read_frame_def Let_def length_wal_magic wal_header_def assms(3-8) v kind_of_tag option.case
    by (simp add: checked_add_def)
qed

lemma read_frame_frame:
  assumes "payload_fits p" "base < u64_max"
  shows "read_frame (padded digest) base (frame_bytes (padded digest) (base + 1) p @ rest) =
    Inr (Some (base + 1, p, length (frame_bytes (padded digest) (base + 1) p)))"
proof -
  obtain kind payload where p: "p = (kind, payload)" by fastforce
  note f = frame_fields [of digest "base + 1" kind payload rest]
  have t: "kind_validate kind (length payload) = Inr ()" using assms(1) p by (simp add: payload_fits_def)
  have l: "96 \<le> length (frame_bytes (padded digest) (base + 1) (kind, payload) @ rest)"
    "\<not> length (frame_bytes (padded digest) (base + 1) (kind, payload) @ rest) - 96 < length payload"
    by (simp_all add: wal_header_def)
  show ?thesis
    unfolding p read_frame_header [OF l(1) f(1) f(2) f(3) f(4) f(5) f(6) f(7) t assms(2)] f(8,9)
    using l(2) by (simp add: wal_header_def)
qed

lemma field_take: "take n (drop a f) = x \<Longrightarrow> a + n \<le> k \<Longrightarrow> take n (drop a (take k f)) = x"
  by (simp add: take_drop_take)

lemma prefix_take: "take n f = x \<Longrightarrow> n \<le> k \<Longrightarrow> take n (take k f) = x"
  by (simp add: min_def)

lemma read_frame_short:
  assumes "payload_fits p" "base < u64_max" "0 < k" "k < length (frame_bytes (padded digest) (base + 1) p)"
  shows "read_frame (padded digest) base (take k (frame_bytes (padded digest) (base + 1) p)) = Inr None"
proof -
  obtain kind payload where p: "p = (kind, payload)" by fastforce
  define f where "f = frame_bytes (padded digest) (base + 1) (kind, payload)"
  note g = frame_fields [of digest "base + 1" kind payload "[]", unfolded append_Nil2, folded f_def]
  have len: "length (take k f) = k" "k < wal_header + length payload" using assms(4) by (simp_all add: f_def p)
  show ?thesis
  proof (cases "k < 96")
    case True
    have "take (min k 8) (take k f) = take (min k 8) (take 8 f)" by (simp add: min.commute)
    then have "take (min (length (take k f)) (length wal_magic)) (take k f) = take (min (length (take k f)) (length wal_magic)) wal_magic"
      unfolding g(1) len(1) length_wal_magic .
    then show ?thesis using True len unfolding p f_def [symmetric] by (simp add: read_frame_def Let_def wal_header_def)
  next
    case False
    have k: "8 \<le> k" "64 \<le> k" "64 + 32 \<le> k" "17 + 7 \<le> k" "8 + 8 \<le> k" "24 + 8 \<le> k" using False by simp_all
    note s = prefix_take [OF g(1) k(1)] prefix_take [OF g(2) k(2)] field_take [OF g(3) k(3)] field_take [OF g(4) k(4)]
      field_take [OF g(6) k(5)] field_take [OF g(7) k(6)]
    have h: "hd (drop 16 (take k f)) = char_of (kind_tag kind)"
      using g(5) k(3) by (simp only: drop_take) (subst hd_take, simp_all)
    have t: "kind_validate kind (length payload) = Inr ()" using assms(1) p by (simp add: payload_fits_def)
    have l: "96 \<le> length (take k f)" "length (take k f) - 96 < length payload"
      using False len by (simp_all add: wal_header_def)
    show ?thesis unfolding p f_def [symmetric]
      using read_frame_header [OF l(1) s(1) s(2) s(3) s(4) h s(5) s(6) t assms(2)] l(2) by simp
  qed
qed

lemma kind_of_tag_Some: "kind_of_tag (code c) = Some kind \<Longrightarrow> c = char_of (kind_tag kind)"
proof -
  assume "kind_of_tag (code c) = Some kind"
  then have "code c = kind_tag kind" by (auto simp: kind_of_tag_def split: if_splits)
  then show ?thesis by (metis char_of_char)
qed

lemma read_frame_exact:
  assumes "read_frame digest base bs = Inr (Some (s, p, n))"
  shows "payload_fits p \<and> base < u64_max \<and> s = base + 1 \<and> (\<exists>rest. bs = frame_bytes digest s p @ rest) \<and>
    n = length (frame_bytes digest s p)"
proof -
  obtain kind payload where pp: "p = (kind, payload)" by fastforce
  let ?len = "le_value (take 8 (drop 24 bs))"
  have len: "96 \<le> length bs" and h: "take 32 (drop 64 bs) = domain_checksum digest ''gatel.wal.frame-header.v1'' (take 64 bs)"
    and m: "take 8 bs = wal_magic" and s: "s = base + 1" "base < u64_max" "le_value (take 8 (drop 8 bs)) = s"
    and z: "take 7 (drop 17 bs) = replicate 7 (char_of (0::nat))" and k: "kind_of_tag (code (hd (drop 16 bs))) = Some kind"
    and l: "kind_validate kind ?len = Inr ()" "?len \<le> length bs - 96"
    and payload: "payload = take ?len (drop 96 bs)" and n: "n = 96 + ?len"
    and p: "take 32 (drop 32 bs) = domain_checksum digest ''gatel.wal.frame-payload.v1'' payload"
    using assms by (auto simp: pp read_frame_def Let_def wal_header_def checked_add_def min_def split: if_splits option.splits)
  have lt: "length payload = ?len" using payload l(2) len by simp
  have t16: "take 1 (drop 16 bs) = [char_of (kind_tag kind)]"
    using kind_of_tag_Some [OF k] len by (simp add: take_Suc)
  have "le_bytes 8 s = take 8 (drop 8 bs)" using le_bytes_value [of "take 8 (drop 8 bs)"] s(3) len by simp
  moreover have "le_bytes 8 (length payload) = take 8 (drop 24 bs)"
    using le_bytes_value [of "take 8 (drop 24 bs)"] lt len by simp
  ultimately have pre: "frame_prefix digest s kind payload =
      take 8 bs @ take 8 (drop 8 bs) @ take 1 (drop 16 bs) @ take 7 (drop 17 bs) @ take 8 (drop 24 bs) @ take 32 (drop 32 bs)"
    by (simp only: frame_prefix_def m p z t16)
  have "take 64 bs = take 8 bs @ take (8 + (1 + (7 + (8 + 32)))) (drop 8 bs)" using take_add [of 8 56 bs] by simp
  also have "\<dots> = frame_prefix digest s kind payload"
    unfolding pre by (simp only: take_add drop_drop) simp
  finally have pre64: "frame_prefix digest s kind payload = take 64 bs" by simp
  have "bs = take 64 bs @ take 32 (drop 64 bs) @ drop 96 bs"
    using append_take_drop_id [of 64 bs] append_take_drop_id [of 32 "drop 64 bs"] by simp
  also have "drop 96 bs = payload @ drop (96 + ?len) bs"
    using append_take_drop_id [of ?len "drop 96 bs"] payload by (simp add: add.commute)
  finally have bs: "bs = frame_bytes digest s p @ drop (96 + ?len) bs"
    by (simp add: frame_bytes_def pp pre64 h)
  have "frame_bytes digest s p = take 64 bs @ take 32 (drop 64 bs) @ payload" by (simp add: frame_bytes_def pp pre64 h)
  then have "length (frame_bytes digest s p) = n" using len lt n by simp
  with bs s l(1) lt pp show ?thesis unfolding payload_fits_def by auto
qed

interpretation wal_log: framed_log "frame_bytes (padded digest)" payload_fits "read_frame (padded digest)"
  ws_sequence ws_valid_bytes scan_advance "\<lambda>r. r\<lparr>ws_incomplete_tail := True\<rparr>" "scan_loop (padded digest)"
  for digest
proof unfold_locales
  fix visit :: "nat \<Rightarrow> wal_kind \<times> bytes \<Rightarrow> 'v \<Rightarrow> wal_error + 'v" and input r v
  show "scan_loop (padded digest) visit input r v =
      (if ws_valid_bytes r < length input then
         (case read_frame (padded digest) (ws_sequence r) (drop (ws_valid_bytes r) input) of
            Inl e \<Rightarrow> Inl e
          | Inr None \<Rightarrow> Inr (r\<lparr>ws_incomplete_tail := True\<rparr>, v)
          | Inr (Some (s, p, n)) \<Rightarrow>
              and_then (visit s p v) (scan_loop (padded digest) visit input (scan_advance s p n r)))
       else Inr (r, v))"
    by (subst scan_loop.simps) (auto simp: and_then_def split: sum.splits option.splits)
next
  show "frame_bytes (padded digest) s p \<noteq> []" for s p
    by (cases p) (simp add: frame_bytes_def frame_prefix_def wal_magic_def)
qed (blast intro: read_frame_frame read_frame_short dest: read_frame_exact | simp add: scan_advance_def)+

lemma wal_position:
  "wal_log.position_after digest ps r = r\<lparr>ws_sequence := ws_sequence r + length ps,
     ws_valid_bytes := ws_valid_bytes r + length (frames (frame_bytes (padded digest)) (ws_sequence r) ps)\<rparr>"
  by (induction ps arbitrary: r) (simp_all add: scan_advance_def)

lemma scan_from_fields [simp]: "ws_sequence (scan_from b) = b" "ws_valid_bytes (scan_from b) = 0"
  by (simp_all add: scan_from_def)

end
