(* ===== verification/Wal.thy ===== *)
theory Wal
  imports Wal_Frames Ledger Generations
begin

text \<open>
  The write-ahead log of complete configuration sources: the envelope of an intent over the snapshot
  codec (\<open>gatel/src/admin_wal_intent.rs\<close>), and that a logged transaction is recovered whole.
\<close>

subsection \<open>Intent envelopes\<close>

datatype intent_error = IntentInvalidKey | IntentInvalid | IntentLimit | IntentContext | IntentHistory

type_synonym request_id = fingerprint

definition request_client :: "digest \<Rightarrow> source_id \<Rightarrow> bytes \<Rightarrow> intent_error + request_id" where
  "request_client digest source key =
     (if key = [] \<or> 128 < length key \<or> \<not> list_all is_ascii_graphic key then Inl IntentInvalidKey
      else Inr (finish digest (update_str key (update_str (source_text source)
        (update_str ''gatel.wal.client-request.v1'' hasher_new)))))"

text \<open>\<open>RequestId::generate\<close>; the identity of the process is an argument.\<close>

definition request_generate :: "digest \<Rightarrow> fingerprint \<Rightarrow> request_id" where
  "request_generate digest boot =
     finish digest (update_fingerprint boot (update_str ''gatel.wal.host-request.v1'' hasher_new))"

record wal_intent =
  wi_request :: request_id
  wi_base_version :: fingerprint
  wi_identity :: fingerprint
  wi_sources :: snapshot

definition intent_magic :: bytes where "intent_magic = ''GATELI01''"

definition instance_hash :: "digest \<Rightarrow> bytes \<Rightarrow> intent_error + fingerprint" where
  "instance_hash digest inst =
     (case binding_record digest inst of
        Inl _ \<Rightarrow> Inl IntentContext
      | Inr b \<Rightarrow> Inr (domain_checksum digest ''gatel.wal.intent-instance.v1'' b))"

fun codec_fault :: "codec_error \<Rightarrow> intent_error" where
  "codec_fault Limit = IntentLimit"
| "codec_fault Invalid = IntentInvalid"

definition map_err :: "('e \<Rightarrow> 'f) \<Rightarrow> 'e + 'a \<Rightarrow> 'f + 'a" where
  "map_err f r = (case r of Inl e \<Rightarrow> Inl (f e) | Inr a \<Rightarrow> Inr a)"

definition source_bytes :: "digest \<Rightarrow> snapshot \<Rightarrow> intent_error + bytes" where
  "source_bytes digest m = map_err codec_fault (encode digest m)"

definition intent_body :: "digest \<Rightarrow> fingerprint \<Rightarrow> fingerprint \<Rightarrow> request_id \<Rightarrow> version \<Rightarrow> bytes \<Rightarrow> bytes \<Rightarrow> bytes" where
  "intent_body digest inst build request ver base sources =
     inst @ build @ request @ domain_checksum digest ''gatel.wal.base-version.v1'' (version_etag digest ver) @
     domain_checksum digest ''gatel.wal.base-sources.v1'' base @ le_bytes 8 (length sources) @ sources"

definition intent_encode ::
  "digest \<Rightarrow> bytes \<Rightarrow> fingerprint \<Rightarrow> request_id \<Rightarrow> version \<Rightarrow> snapshot \<Rightarrow> snapshot \<Rightarrow> intent_error + bytes" where
  "intent_encode digest inst build request ver base candidate =
     and_then (instance_hash digest inst) (\<lambda>ih.
       if vs_revs ver \<noteq> revs base then Inl IntentContext
       else and_then (map_err (\<lambda>_. IntentHistory) (validate_successor base candidate)) (\<lambda>_.
         and_then (source_bytes digest base) (\<lambda>bb. and_then (source_bytes digest candidate) (\<lambda>sources.
           let body = intent_body digest ih build request ver bb sources in
           Inr (intent_magic @ domain_checksum digest ''gatel.wal.intent-envelope.v1'' body @ body)))))"

definition intent_decode :: "digest \<Rightarrow> bytes \<Rightarrow> bytes \<Rightarrow> fingerprint \<Rightarrow> snapshot \<Rightarrow> intent_error + wal_intent" where
  "intent_decode digest bs inst build base =
     (if intent_max_bytes < length bs then Inl IntentLimit
      else if length bs < intent_header + intent_meta + intent_length \<or> take 8 bs \<noteq> intent_magic then Inl IntentInvalid
      else
        let identity = domain_checksum digest ''gatel.wal.intent-envelope.v1'' (drop intent_header bs);
            hash = (\<lambda>offset. take 32 (drop (intent_header + offset) bs)) in
        if identity \<noteq> take 32 (drop 8 bs) then Inl IntentInvalid
        else and_then (instance_hash digest inst) (\<lambda>ih.
          if hash 0 \<noteq> ih \<or> hash 32 \<noteq> build then Inl IntentContext
          else and_then (source_bytes digest base) (\<lambda>bb.
            if hash 128 \<noteq> domain_checksum digest ''gatel.wal.base-sources.v1'' bb then Inl IntentContext
            else
              let len = le_value (take 8 (drop (intent_header + intent_meta) bs));
                  payload = drop (intent_header + intent_meta + intent_length) bs in
              if len \<noteq> length payload then Inl IntentInvalid
              else and_then (map_err codec_fault (decode digest payload)) (\<lambda>sources.
                and_then (map_err (\<lambda>_. IntentHistory) (validate_successor base sources)) (\<lambda>_.
                  Inr \<lparr>wi_request = hash 64, wi_base_version = hash 96, wi_identity = identity, wi_sources = sources\<rparr>)))))"

lemma map_err_Inr [simp]: "map_err f r = Inr a \<longleftrightarrow> r = Inr a"
  by (simp add: map_err_def split: sum.splits)

text \<open>The fields of an envelope, at the offsets the decoder uses.\<close>

lemma envelope_fields:
  fixes sources :: bytes and n :: nat
  assumes "length magic8 = 8" "length identity = 32" "length ih = 32" "length build = 32" "length request = 32" "length vh = 32" "length bh = 32"
  defines "bs \<equiv> magic8 @ identity @ ih @ build @ request @ vh @ bh @ le_bytes 8 n @ sources"
  shows "take 8 bs = magic8" "take 32 (drop 8 bs) = identity"
    "drop 40 bs = ih @ build @ request @ vh @ bh @ le_bytes 8 n @ sources"
    "take 32 (drop 40 bs) = ih" "take 32 (drop 72 bs) = build" "take 32 (drop 104 bs) = request" "take 32 (drop 136 bs) = vh"
    "take 32 (drop 168 bs) = bh" "take 8 (drop 200 bs) = le_bytes 8 n" "drop 208 bs = sources" "length bs = 208 + length sources"
  using assms(1-7) by (simp_all add: bs_def)

lemma intent_decode_encode:
  assumes d: "\<forall>bs. length (digest bs) = 32" and fit: "snapshot_fits candidate" "length build = 32" "length request = 32"
    and e: "intent_encode digest inst build request ver base candidate = Inr bs"
  shows "length bs \<le> intent_max_bytes \<and> (\<exists>identity. intent_decode digest bs inst build base =
    Inr \<lparr>wi_request = request, wi_base_version = domain_checksum digest ''gatel.wal.base-version.v1'' (version_etag digest ver),
         wi_identity = identity, wi_sources = candidate\<rparr>)"
proof -
  obtain ih bb sources where p: "instance_hash digest inst = Inr ih" "validate_successor base candidate = Inr ()"
      "source_bytes digest base = Inr bb" "encode digest candidate = Inr sources"
      "bs = intent_magic @ domain_checksum digest ''gatel.wal.intent-envelope.v1'' (intent_body digest ih build request ver bb sources) @
        intent_body digest ih build request ver bb sources"
    using e by (auto simp: intent_encode_def source_bytes_def Let_def split: if_splits)
  have c: "length (domain_checksum digest dom m) = 32" for dom m using d by (simp add: domain_checksum_def finish_def)
  have ih: "length ih = 32" using p(1) c by (auto simp: instance_hash_def split: sum.splits)
  have m8: "length intent_magic = 8" by (simp add: intent_magic_def)
  have de: "decode digest sources = Inr candidate" using decode_encode [OF _ fit(1) p(4)] d by blast
  then have sz: "length sources \<le> max_bytes" by (auto simp: decode_def split: if_splits)
  then have "length sources < 256 ^ 8" by (simp add: max_bytes_def)
  then have lv: "le_value (le_bytes 8 (length sources)) = length sources" by (simp add: codec_simps)
  note f = envelope_fields [OF m8 c [of "''gatel.wal.intent-envelope.v1''" "intent_body digest ih build request ver bb sources"]
      ih fit(2,3) c [of "''gatel.wal.base-version.v1''" "version_etag digest ver"] c [of "''gatel.wal.base-sources.v1''" bb],
      of "length sources" sources, folded intent_body_def, folded p(5)]
  have "length bs \<le> intent_max_bytes" "\<not> length bs < 208" using f(11) sz
    by (simp_all add: intent_max_bytes_def intent_header_def intent_meta_def intent_length_def)
  then show ?thesis using p(1-3) de f(1-10) lv
    by (simp add: intent_decode_def intent_header_def intent_meta_def intent_length_def Let_def map_err_def)
qed

subsection \<open>A transaction survives the log\<close>

definition scanned :: "digest \<Rightarrow> (wal_kind \<times> bytes) list \<Rightarrow> bool \<Rightarrow> wal_scan_state" where
  "scanned digest ps torn = \<lparr>ws_sequence = length ps, ws_valid_bytes = length (frames (frame_bytes digest) 0 ps), ws_incomplete_tail = torn\<rparr>"

lemma wal_frames_length: "wal_header * length ps \<le> length (frames (frame_bytes (padded digest)) base ps)"
  by (induction ps arbitrary: base) (auto simp: add_mono)

lemma wal_frames_count: "length (frames (frame_bytes (padded digest)) base ps) \<le> wal_max_log \<Longrightarrow> length ps < 1000000"
  using wal_frames_length [of ps digest base] by (simp add: wal_header_def wal_max_log_def)

lemma wal_scan_cut:
  assumes "list_all payload_fits ps" "payload_fits p" "k < length (frame_bytes (padded digest) (length ps + 1) p)"
    and "length (frames (frame_bytes (padded digest)) 0 ps) + k \<le> wal_max_log"
  shows "wal_scan (padded digest) visit (frames (frame_bytes (padded digest)) 0 ps @ take k (frame_bytes (padded digest) (length ps + 1) p)) 0 v =
    and_then (visit_all visit 0 ps v) (\<lambda>v. Inr (scanned (padded digest) ps (0 < k), v))"
proof -
  have "length ps < u64_max" using wal_frames_count [of digest 0 ps] assms(4) by (simp add: u64_max_def)
  moreover have "\<not> wal_max_log < length (frames (frame_bytes (padded digest)) 0 ps @ take k (frame_bytes (padded digest) (length ps + 1) p))"
    using assms(3,4) by simp
  ultimately show ?thesis
    using wal_log.scan_log [OF assms(1), of "scan_from 0" digest visit v] assms(2,3)
      wal_log.scan_torn [OF assms(1), of "scan_from 0" p k digest visit v]
    by (cases "k = 0") (simp_all add: wal_scan_def wal_position scanned_def scan_from_def)
qed

lemma wal_scan_whole:
  assumes "list_all payload_fits ps" "length (frames (frame_bytes (padded digest)) 0 ps) \<le> wal_max_log"
  shows "wal_scan (padded digest) visit (frames (frame_bytes (padded digest)) 0 ps) 0 v =
    and_then (visit_all visit 0 ps v) (\<lambda>v. Inr (scanned (padded digest) ps False, v))"
  using wal_scan_cut [OF assms(1), of "(WalDecision, replicate 41 (char_of (0::nat)))" 0 digest visit v] assms(2)
  by (simp add: payload_fits_def decision_bytes_def wal_header_def)

lemma decision_decode_encode:
  assumes "wd_intent_sequence d < u64_max" "length (wd_intent_identity d) = 32" "decision_encode d = Inr bs"
  shows "decision_decode bs (wd_intent_sequence d + 1) = Inr d \<and> length bs = decision_bytes"
proof -
  have s: "wd_intent_sequence d \<noteq> 0" "bs = le_bytes 8 (wd_intent_sequence d) @ wd_intent_identity d @ [char_of (outcome_tag (wd_outcome d))]"
    using assms(3) by (auto simp: decision_encode_def split: if_splits)
  have v: "le_value (le_bytes 8 (wd_intent_sequence d)) = wd_intent_sequence d" using assms(1) by (simp add: codec_simps u64_max_alt)
  show ?thesis using s v assms(1,2)
    by (cases d; cases "wd_outcome d") (simp_all add: decision_decode_def decision_bytes_def checked_add_def Let_def)
qed

lemma reserve_intent_iff:
  "reserve_intent used sequence n = Inr () \<longleftrightarrow>
    0 < n \<and> n \<le> intent_max_bytes \<and> sequence + 2 \<le> u64_max \<and> used + wal_header + n + wal_decision_reserve \<le> wal_max_log"
  by (auto simp: reserve_intent_def checked_add_def wal_max_log_def u64_max_def wal_header_def wal_decision_reserve_def
      Option.bind_eq_Some_conv split: option.splits if_splits)

text \<open>
  C33: a transaction that was reserved can be logged and is recovered whole: both frames are accepted and
  fit the log; a scan of the log, with the decision's frame cut at any byte, visits the earlier records
  and the intent, and the decision exactly if all of its frame is there; the intent decodes to the very
  candidate configuration and request it was made of, and the decision to itself.
\<close>

theorem wal_transaction_restored:
  fixes digest ps payload db
  defines "log \<equiv> frames (frame_bytes digest) 0 ps" and "f1 \<equiv> frame_bytes digest (length ps + 1) (WalIntent, payload)"
    and "f2 \<equiv> frame_bytes digest (length ps + 2) (WalDecision, db)"
  assumes "\<forall>bs. length (digest bs) = 32" "list_all payload_fits ps"
    and "snapshot_fits candidate" "length build = 32" "length request = 32"
    and "intent_encode digest inst build request ver base candidate = Inr payload"
    and "reserve_intent (length log) (length ps) (length payload) = Inr ()"
    and "wd_intent_sequence d = length ps + 1" "length (wd_intent_identity d) = 32" "decision_encode d = Inr db" "k \<le> length f2"
  shows "wal_encode digest (length ps + 1) WalIntent payload = Inr f1 \<and> wal_encode digest (length ps + 2) WalDecision db = Inr f2 \<and>
    length (log @ f1 @ f2) \<le> wal_max_log \<and>
    wal_scan digest visit (log @ f1 @ take k f2) 0 v =
      and_then (visit_all visit 0 (ps @ (WalIntent, payload) # (if k = length f2 then [(WalDecision, db)] else [])) v) (\<lambda>v.
        Inr (\<lparr>ws_sequence = length ps + (if k = length f2 then 2 else 1),
              ws_valid_bytes = length (log @ f1) + (if k = length f2 then k else 0),
              ws_incomplete_tail = (0 < k \<and> k < length f2)\<rparr>, v)) \<and>
    (\<exists>identity. intent_decode digest payload inst build base =
      Inr \<lparr>wi_request = request, wi_base_version = domain_checksum digest ''gatel.wal.base-version.v1'' (version_etag digest ver),
           wi_identity = identity, wi_sources = candidate\<rparr>) \<and>
    decision_decode db (length ps + 2) = Inr d"
proof -
  note D = padded_id [OF assms(4)]
  have r: "0 < length payload" "length payload \<le> intent_max_bytes" "length ps + 2 \<le> u64_max"
      "length log + wal_header + length payload + wal_decision_reserve \<le> wal_max_log"
    using assms(10) by (simp_all add: reserve_intent_iff)
  have dd: "decision_decode db (length ps + 1 + 1) = Inr d" "length db = decision_bytes"
    using decision_decode_encode [of d db] assms(11-13) r(3) by simp_all
  have fits: "payload_fits (WalIntent, payload)" "payload_fits (WalDecision, db)"
    using r(1,2) dd(2) by (simp_all add: payload_fits_def)
  let ?ps = "ps @ [(WalIntent, payload)]"
  have log1: "log @ f1 = frames (frame_bytes digest) 0 ?ps" by (simp add: log_def f1_def frames_append)
  have len: "length f1 = wal_header + length payload" "length f2 = wal_decision_reserve"
    using length_frame [of digest "length ps + 1" "(WalIntent, payload)"] length_frame [of digest "length ps + 2" "(WalDecision, db)"] D dd(2)
    by (simp_all add: f1_def f2_def wal_decision_reserve_def)
  have sz: "length (log @ f1) + length f2 \<le> wal_max_log" using r(4) len by simp
  have scan: "wal_scan digest visit (log @ f1 @ take k f2) 0 v =
      and_then (visit_all visit 0 (ps @ (WalIntent, payload) # (if k = length f2 then [(WalDecision, db)] else [])) v) (\<lambda>v.
        Inr (\<lparr>ws_sequence = length ps + (if k = length f2 then 2 else 1),
              ws_valid_bytes = length (log @ f1) + (if k = length f2 then k else 0),
              ws_incomplete_tail = (0 < k \<and> k < length f2)\<rparr>, v))"
  proof (cases "k = length f2")
    case True
    have "frames (frame_bytes digest) 0 (?ps @ [(WalDecision, db)]) = log @ f1 @ f2"
      by (simp add: log_def f1_def f2_def frames_append)
    then show ?thesis using wal_scan_whole [of "?ps @ [(WalDecision, db)]" digest visit v] True sz assms(5) fits D
      by (simp add: scanned_def add.assoc)
  next
    case False
    then have "k < length f2" using assms(14) by simp
    have eq: "log @ f1 @ take k f2 = frames (frame_bytes digest) 0 ?ps @ take k f2" using log1 by (metis append.assoc)
    have cut: "wal_scan digest visit (frames (frame_bytes digest) 0 ?ps @ take k f2) 0 v =
        and_then (visit_all visit 0 ?ps v) (\<lambda>v. Inr (scanned digest ?ps (0 < k), v))"
      using wal_scan_cut [of ?ps "(WalDecision, db)" k digest visit v] \<open>k < length f2\<close> sz [unfolded log1] assms(5) fits D
      by (simp add: f2_def)
    show ?thesis unfolding eq cut scanned_def log1 using False \<open>k < length f2\<close> by simp
  qed
  show ?thesis using scan intent_decode_encode [OF assms(4,6-9)] dd fits sz
    by (simp add: wal_encode_def payload_fits_def f1_def f2_def)
qed

definition sample_sources :: snapshot where
  "sample_sources = snapshot_insert sample_file []"

definition sample_version :: version where
  "sample_version = \<lparr>vs_boot_id = replicate 32 (char_of (0::nat)), vs_generation = 1, vs_revs = revs sample_sources\<rparr>"

lemma sample_sources_fit: "snapshot_fits sample_sources"
  by (simp add: sample_sources_def snapshot_fits_def snapshot_sources_def bt_values_def snapshot_insert_def snapshot_ok_def bt_ok_def
      source_fits_def sample_file_def source_file_def value_fits_def origin_fits_def origin_synthetic_def)

lemma sample_sources_succeed: "validate_successor sample_sources sample_sources = Inr ()"
proof -
  have "snapshot_ok sample_sources" using sample_sources_fit by (simp add: snapshot_fits_def)
  moreover have "no_zero sample_sources"
    by (simp add: no_zero_def sample_sources_def snapshot_insert_def snapshot_sources_def bt_values_def sample_file_def)
  ultimately show ?thesis by (simp add: validate_successor_iff succeeds_def)
qed

lemma sample_sources_encode: "\<exists>bs. encode digest sample_sources = Inr bs"
  by (auto simp: sample_sources_def encode_def Let_def snapshot_sources_def bt_values_def snapshot_insert_def sample_file_def put_source_def
      put_nodes_def put_count_def put_u32_def put_u64_def put_byte_def put_string_def put_origin_def put_values_def put_value_def
      put_budget_def budget_node_def budget_values_def put_raw_def codec_limits budget_default_def checked_add_def u64_max_def
      source_file_def origin_synthetic_def)

theorem wal_transaction_restored_witness:
  "\<exists>payload identity. intent_encode zero_digest ''a'' (replicate 32 (char_of (0::nat))) (replicate 32 (char_of (0::nat)))
      sample_version sample_sources sample_sources = Inr payload \<and>
    reserve_intent 0 0 (length payload) = Inr () \<and>
    intent_decode zero_digest payload ''a'' (replicate 32 (char_of (0::nat))) sample_sources =
      Inr \<lparr>wi_request = replicate 32 (char_of (0::nat)),
           wi_base_version = domain_checksum zero_digest ''gatel.wal.base-version.v1'' (version_etag zero_digest sample_version),
           wi_identity = identity, wi_sources = sample_sources\<rparr>"
proof -
  let ?z = "replicate 32 (char_of (0::nat))"
  obtain bs where bs: "encode zero_digest sample_sources = Inr bs" using sample_sources_encode by blast
  obtain payload where e: "intent_encode zero_digest ''a'' ?z ?z sample_version sample_sources sample_sources = Inr payload"
    using bs sample_sources_succeed sample_binding_record
    by (simp add: intent_encode_def instance_hash_def sample_version_def source_bytes_def map_err_def Let_def)
  have l: "length ?z = 32" by simp
  have p: "length payload \<le> intent_max_bytes" "payload \<noteq> []"
    using intent_decode_encode [OF zero_digest_length sample_sources_fit l l e] e
    by (auto simp: intent_decode_def intent_header_def)
  have r: "reserve_intent (length (frames (frame_bytes zero_digest) 0 [])) (length ([] :: (wal_kind \<times> bytes) list)) (length payload) = Inr ()"
    using p intent_max_bytes_lt
    by (simp add: reserve_intent_iff u64_max_def wal_header_def wal_decision_reserve_def decision_bytes_def wal_max_log_def
        intent_max_bytes_def intent_header_def intent_meta_def intent_length_def max_bytes_def)
  define d where "d = \<lparr>wd_intent_sequence = 1, wd_intent_identity = ?z, wd_outcome = OutcomeApplied\<rparr>"
  obtain db where db: "decision_encode d = Inr db" by (simp add: decision_encode_def d_def)
  have ds: "wd_intent_sequence d = length ([] :: (wal_kind \<times> bytes) list) + 1" "length (wd_intent_identity d) = 32"
    by (simp_all add: d_def)
  have "\<exists>identity. intent_decode zero_digest payload ''a'' ?z sample_sources =
      Inr \<lparr>wi_request = ?z,
           wi_base_version = domain_checksum zero_digest ''gatel.wal.base-version.v1'' (version_etag zero_digest sample_version),
           wi_identity = identity, wi_sources = sample_sources\<rparr>"
    using wal_transaction_restored [OF zero_digest_length _ sample_sources_fit l l e r ds db le0, of "\<lambda>_ _ v. Inr v" "()"]
    by simp
  then show ?thesis using e r by auto
qed

end
