(* ===== verification/Checkpoints.thy ===== *)
theory Checkpoints
  imports Wal Machines
begin

text \<open>
  Checkpoints: the envelope that pairs a published and an observed configuration with an exact prefix of
  the admin journal (\<open>gatel/src/admin_checkpoint.rs\<close>), its replacement on disk (\<open>admin_checkpoint_store.rs\<close>),
  offline compaction, the classification of recovery work (\<open>admin_recovery.rs\<close>), and the host's handle
  (\<open>admin_checkpoint_writer.rs\<close>).

  The file \<open>checkpoint.bin\<close> is an optional byte string next to the journal directory. What each call on it
  and on its staged replacement does is one boolean of \<open>checkpoint_ops\<close>; a rename is atomic.
\<close>

subsection \<open>The envelope\<close>

definition cp_magic :: bytes where "cp_magic = ''GATELC02''"

definition cp_header :: nat where "cp_header = 40"

definition cp_meta :: nat where "cp_meta = 32 * 5 + 8 * 2"

definition cp_length :: nat where "cp_length = 8"

definition cp_max_bytes :: nat where "cp_max_bytes = cp_header + cp_meta + cp_length + 2 * max_bytes"

record cp_metadata =
  md_instance :: fingerprint
  md_build :: fingerprint
  md_plan :: fingerprint
  md_publication :: fingerprint
  md_journal_sequence :: nat
  md_journal_bytes :: nat
  md_journal_prefix :: fingerprint

record checkpoint =
  cp_metadata :: cp_metadata
  cp_sources :: snapshot
  cp_observed :: snapshot

datatype checkpoint_fault =
  CpInvalid | CpInstance | CpPanic | CpReadOnly | CpPoisoned | CpSize | CpOs | CpChanged | CpMissing
| CpNeedsReconciliation | CpFailedWriter | CpUnconfirmed | CpNotPending | CpForeign | CpMismatch | CpSealed | CpJournal journal_fault

definition cp_binding :: "digest \<Rightarrow> bytes \<Rightarrow> checkpoint_fault + bytes" where
  "cp_binding digest inst = map_err (\<lambda>_. CpInstance) (binding_record digest inst)"

definition log_visit :: "bytes \<Rightarrow> nat \<Rightarrow> bytes \<Rightarrow> tx_state \<Rightarrow> journal_error + tx_state" where
  "log_visit expected sequence payload st =
     (if sequence = 1 then (if payload \<noteq> expected then Inl InvalidBinding else Inr st)
      else tx_accept sequence payload st)"

definition log_state :: "digest \<Rightarrow> bytes \<Rightarrow> bytes \<Rightarrow> checkpoint_fault + recovered \<times> tx_state" where
  "log_state digest log inst =
     and_then (cp_binding digest inst) (\<lambda>expected.
       and_then (map_err (\<lambda>_. CpInvalid) (recover_each digest (log_visit expected) log 0 tx_default)) (\<lambda>(r, st).
         if rc_sequence r = 0 then Inl CpInvalid else Inr (r, st)))"

definition unresolved :: "tx_state \<Rightarrow> bool" where
  "unresolved st \<longleftrightarrow> tx_latest st \<noteq> None \<and> tx_decision st = None"

text \<open>\<open>plan_matches\<close>: normalising is the host's, compiling is modelled; a compilation that panics is an error of its own.\<close>

definition plan_matches :: "'c host \<Rightarrow> 'c registry \<Rightarrow> snapshot \<Rightarrow> fingerprint \<Rightarrow> checkpoint_fault + unit" where
  "plan_matches host registry sources expected =
     (case host_normalize host sources registry of
        Inl _ \<Rightarrow> Inl CpInvalid
      | Inr spec \<Rightarrow>
          (case compile (host_digest host) (host_ops host) registry spec of
             None \<Rightarrow> Inl CpPanic
           | Some plan \<Rightarrow> if pl_plan_hash plan \<noteq> expected then Inl CpInvalid else Inr ()))"

definition source_history :: "snapshot \<Rightarrow> snapshot \<Rightarrow> checkpoint_fault + unit" where
  "source_history sources observed = map_err (\<lambda>_. CpInvalid) (validate_successor sources observed)"

definition cp_publication :: "digest \<Rightarrow> ('c, 'r) committed \<Rightarrow> fingerprint" where
  "cp_publication digest c =
     finish digest (update_u64 (cm_number c) (update_fingerprint (cm_boot_id c)
       (update_str ''gatel.checkpoint.publication.v1'' hasher_new)))"

definition metadata_bytes :: "cp_metadata \<Rightarrow> bytes" where
  "metadata_bytes m =
     md_instance m @ md_build m @ md_plan m @ md_publication m @ le_bytes 8 (md_journal_sequence m) @
     le_bytes 8 (md_journal_bytes m) @ md_journal_prefix m"

definition cp_seal :: "digest \<Rightarrow> bytes \<Rightarrow> bytes" where
  "cp_seal digest body = cp_magic @ domain_checksum digest ''gatel.checkpoint.envelope.v2'' body @ body"

definition checkpoint_encode ::
  "'c host \<Rightarrow> bytes \<Rightarrow> 'c registry \<Rightarrow> bytes \<Rightarrow> ('c, 'r) configuration_capture \<Rightarrow> checkpoint_fault + bytes" where
  "checkpoint_encode host inst registry log capture =
     (let digest = host_digest host in
      case cc_committed capture of
        None \<Rightarrow> Inl CpInvalid
      | Some c \<Rightarrow>
          and_then (log_state digest log inst) (\<lambda>(r, st).
            if rc_incomplete_tail r \<or> unresolved st then Inl CpInvalid
            else and_then (plan_matches host registry (cm_sources c) (pl_plan_hash (cm_plan c))) (\<lambda>_.
              and_then (map_err (\<lambda>_. CpInvalid) (encode digest (cm_sources c))) (\<lambda>sources.
              and_then (map_err (\<lambda>_. CpInvalid) (encode digest (cc_observed capture))) (\<lambda>observed.
              and_then (source_history (cm_sources c) (cc_observed capture)) (\<lambda>_.
              and_then (cp_binding digest inst) (\<lambda>b.
                Inr (cp_seal digest
                  (metadata_bytes
                     \<lparr>md_instance = domain_checksum digest ''gatel.checkpoint.instance.v1'' b,
                      md_build = build_hash digest registry, md_plan = pl_plan_hash (cm_plan c),
                      md_publication = cp_publication digest c, md_journal_sequence = rc_sequence r,
                      md_journal_bytes = length log,
                      md_journal_prefix = domain_checksum digest ''gatel.checkpoint.journal-prefix.v1'' log\<rparr> @
                   le_bytes 8 (length sources) @ sources @ observed)))))))))"

definition checkpoint_decode :: "'c host \<Rightarrow> bytes \<Rightarrow> bytes \<Rightarrow> 'c registry \<Rightarrow> bytes \<Rightarrow> checkpoint_fault + checkpoint" where
  "checkpoint_decode host bs inst registry log =
     (let digest = host_digest host in
      if cp_max_bytes < length bs \<or> length bs < cp_header + cp_meta + cp_length \<or> take 8 bs \<noteq> cp_magic \<or>
         domain_checksum digest ''gatel.checkpoint.envelope.v2'' (drop cp_header bs) \<noteq> take 32 (drop 8 bs)
      then Inl CpInvalid
      else
        let body = drop cp_header bs; hash = (\<lambda>start. take 32 (drop start body));
            m = \<lparr>md_instance = hash 0, md_build = hash 32, md_plan = hash 64, md_publication = hash 96,
                 md_journal_sequence = le_value (take 8 (drop 128 body)), md_journal_bytes = le_value (take 8 (drop 136 body)),
                 md_journal_prefix = hash 144\<rparr> in
        and_then (cp_binding digest inst) (\<lambda>b.
          if md_instance m \<noteq> domain_checksum digest ''gatel.checkpoint.instance.v1'' b \<or> md_build m \<noteq> build_hash digest registry
            then Inl CpInvalid
          else and_then (log_state digest log inst) (\<lambda>_.
            if length log < md_journal_bytes m then Inl CpInvalid
            else
              let prefix = take (md_journal_bytes m) log in
              if domain_checksum digest ''gatel.checkpoint.journal-prefix.v1'' prefix \<noteq> md_journal_prefix m then Inl CpInvalid
              else and_then (log_state digest prefix inst) (\<lambda>(r, st).
                if rc_incomplete_tail r \<or> rc_sequence r \<noteq> md_journal_sequence m \<or> unresolved st then Inl CpInvalid
                else
                  let source_length = le_value (take 8 (drop cp_meta body)); rest = drop (cp_meta + cp_length) body in
                  if length rest < source_length then Inl CpInvalid
                  else
                    and_then (map_err (\<lambda>_. CpInvalid) (decode digest (take source_length rest))) (\<lambda>sources.
                    and_then (map_err (\<lambda>_. CpInvalid) (decode digest (drop source_length rest))) (\<lambda>observed.
                    and_then (source_history sources observed) (\<lambda>_.
                    and_then (plan_matches host registry sources (md_plan m)) (\<lambda>_.
                      Inr \<lparr>cp_metadata = m, cp_sources = sources, cp_observed = observed\<rparr>))))))))"

text \<open>\<open>copy_from_slice\<close> into a range of a vector.\<close>

definition overwrite :: "nat \<Rightarrow> bytes \<Rightarrow> bytes \<Rightarrow> bytes" where
  "overwrite pos new bs = take pos bs @ new @ drop (pos + length new) bs"

definition checkpoint_compact :: "'c host \<Rightarrow> bytes \<Rightarrow> bytes \<Rightarrow> 'c registry \<Rightarrow> bytes \<Rightarrow> checkpoint_fault + bytes \<times> bytes" where
  "checkpoint_compact host bs inst registry log =
     (let digest = host_digest host in
      and_then (checkpoint_decode host bs inst registry log) (\<lambda>c.
      and_then (log_state digest log inst) (\<lambda>(r, st).
        if rc_incomplete_tail r \<or> md_journal_bytes (cp_metadata c) \<noteq> length log \<or>
           md_journal_sequence (cp_metadata c) \<noteq> rc_sequence r \<or> unresolved st
        then Inl CpInvalid
        else and_then (cp_binding digest inst) (\<lambda>b.
          and_then (map_err (\<lambda>_. CpInvalid) (journal_encode digest 1 b)) (\<lambda>log2.
            let c1 = overwrite (cp_header + 128) (le_bytes 8 1) bs;
                c2 = overwrite (cp_header + 136) (le_bytes 8 (length log2)) c1;
                c3 = overwrite (cp_header + 144) (domain_checksum digest ''gatel.checkpoint.journal-prefix.v1'' log2) c2;
                c4 = overwrite 8 (domain_checksum digest ''gatel.checkpoint.envelope.v2'' (drop cp_header c3)) c3 in
            and_then (checkpoint_decode host c4 inst registry log2) (\<lambda>_. Inr (c4, log2)))))))"

subsection \<open>What an envelope holds\<close>

definition metadata_ok :: "cp_metadata \<Rightarrow> bool" where
  "metadata_ok m \<longleftrightarrow> length (md_instance m) = 32 \<and> length (md_build m) = 32 \<and> length (md_plan m) = 32 \<and>
     length (md_publication m) = 32 \<and> length (md_journal_prefix m) = 32 \<and>
     md_journal_sequence m \<le> u64_max \<and> md_journal_bytes m \<le> u64_max"

definition cp_body :: "cp_metadata \<Rightarrow> bytes \<Rightarrow> bytes \<Rightarrow> bytes" where
  "cp_body m sources observed = metadata_bytes m @ le_bytes 8 (length sources) @ sources @ observed"

text \<open>The checks of the decoder behind the envelope's own.\<close>

definition checkpoint_check :: "'c host \<Rightarrow> cp_metadata \<Rightarrow> bytes \<Rightarrow> bytes \<Rightarrow> bytes \<Rightarrow> 'c registry \<Rightarrow> bytes \<Rightarrow> checkpoint_fault + checkpoint" where
  "checkpoint_check host m s ob inst registry log =
     (let digest = host_digest host in
      and_then (cp_binding digest inst) (\<lambda>b.
        if md_instance m \<noteq> domain_checksum digest ''gatel.checkpoint.instance.v1'' b \<or> md_build m \<noteq> build_hash digest registry
          then Inl CpInvalid
        else and_then (log_state digest log inst) (\<lambda>_.
          if length log < md_journal_bytes m then Inl CpInvalid
          else if domain_checksum digest ''gatel.checkpoint.journal-prefix.v1'' (take (md_journal_bytes m) log) \<noteq> md_journal_prefix m
            then Inl CpInvalid
          else and_then (log_state digest (take (md_journal_bytes m) log) inst) (\<lambda>(r, st).
            if rc_incomplete_tail r \<or> rc_sequence r \<noteq> md_journal_sequence m \<or> unresolved st then Inl CpInvalid
            else
              and_then (map_err (\<lambda>_. CpInvalid) (decode digest s)) (\<lambda>sources.
              and_then (map_err (\<lambda>_. CpInvalid) (decode digest ob)) (\<lambda>observed.
              and_then (source_history sources observed) (\<lambda>_.
              and_then (plan_matches host registry sources (md_plan m)) (\<lambda>_.
                Inr \<lparr>cp_metadata = m, cp_sources = sources, cp_observed = observed\<rparr>))))))))"

lemma metadata_fields:
  fixes m rest
  assumes "metadata_ok m"
  defines "body \<equiv> metadata_bytes m @ rest"
  shows "take 32 (drop 0 body) = md_instance m" "take 32 (drop 32 body) = md_build m" "take 32 (drop 64 body) = md_plan m"
    "take 32 (drop 96 body) = md_publication m" "take 8 (drop 128 body) = le_bytes 8 (md_journal_sequence m)"
    "take 8 (drop 136 body) = le_bytes 8 (md_journal_bytes m)" "take 32 (drop 144 body) = md_journal_prefix m"
    "drop 176 body = rest"
  using assms(1) by (simp_all add: body_def metadata_bytes_def metadata_ok_def)

lemma length_metadata: "metadata_ok m \<Longrightarrow> length (metadata_bytes m) = 176"
  by (simp add: metadata_bytes_def metadata_ok_def)

lemma le_u64: "n \<le> u64_max \<Longrightarrow> le_value (le_bytes 8 n) = n"
  by (simp add: codec_simps u64_max_alt)

lemma length_cp_body: "metadata_ok m \<Longrightarrow> length (cp_body m s ob) = 184 + length s + length ob"
  using length_metadata [of m] by (simp add: cp_body_def)

lemma sealed_fields:
  assumes "\<forall>bs. length (digest bs) = 32"
  shows "take 8 (cp_seal digest body) = cp_magic"
    "take 32 (drop 8 (cp_seal digest body)) = domain_checksum digest ''gatel.checkpoint.envelope.v2'' body"
    "drop 40 (cp_seal digest body) = body" "length (cp_seal digest body) = 40 + length body"
  using assms by (simp_all add: cp_seal_def cp_magic_def domain_checksum_def finish_def)

lemma decode_sealed:
  assumes d: "\<forall>bs. length (host_digest host bs) = 32" and m: "metadata_ok m" and n: "length s \<le> u64_max"
  shows "checkpoint_decode host (cp_seal (host_digest host) (cp_body m s ob)) inst registry log =
    (if cp_max_bytes < 224 + length s + length ob then Inl CpInvalid else checkpoint_check host m s ob inst registry log)"
proof -
  note f = sealed_fields [OF d, of "cp_body m s ob"]
  note g = metadata_fields [OF m, of "le_bytes 8 (length s) @ s @ ob", folded cp_body_def]
  have h: "take 8 (drop 176 (cp_body m s ob)) = le_bytes 8 (length s)" "drop (176 + 8) (cp_body m s ob) = s @ ob"
    using g(8) drop_drop [of 8 176 "cp_body m s ob"] by (simp_all add: add.commute)
  have l: "length (cp_seal (host_digest host) (cp_body m s ob)) = 224 + length s + length ob"
    using f(4) length_cp_body [OF m] by simp
  have v: "le_value (le_bytes 8 (md_journal_sequence m)) = md_journal_sequence m"
    "le_value (le_bytes 8 (md_journal_bytes m)) = md_journal_bytes m" "le_value (le_bytes 8 (length s)) = length s"
    using m n le_u64 by (simp_all add: metadata_ok_def)
  have eta: "\<lparr>md_instance = md_instance m, md_build = md_build m, md_plan = md_plan m, md_publication = md_publication m,
      md_journal_sequence = md_journal_sequence m, md_journal_bytes = md_journal_bytes m, md_journal_prefix = md_journal_prefix m\<rparr> = m"
    by simp
  have meta: "cp_header = 40" "cp_meta = 176" "cp_length = 8" by (simp_all add: cp_header_def cp_meta_def cp_length_def)
  have k: "take (length s) (s @ ob) = s" "drop (length s) (s @ ob) = ob" "(length (s @ ob) < length s) = False" by simp_all
  show ?thesis
    unfolding checkpoint_decode_def Let_def meta f(1-3) l g(1-7) h v eta k if_False
    by (simp add: checkpoint_check_def Let_def)
qed

text \<open>Every envelope the decoder accepts has this form.\<close>

lemma decode_exact:
  assumes d: "\<forall>bs. length (host_digest host bs) = 32" and a: "checkpoint_decode host bs inst registry log = Inr c"
  shows "\<exists>s ob. metadata_ok (cp_metadata c) \<and> length s \<le> u64_max \<and> bs = cp_seal (host_digest host) (cp_body (cp_metadata c) s ob) \<and>
    224 + length s + length ob \<le> cp_max_bytes \<and> checkpoint_check host (cp_metadata c) s ob inst registry log = Inr c"
proof -
  let ?body = "drop 40 bs" and ?d = "host_digest host"
  let ?m = "\<lparr>md_instance = take 32 (drop 0 ?body), md_build = take 32 (drop 32 ?body), md_plan = take 32 (drop 64 ?body),
      md_publication = take 32 (drop 96 ?body), md_journal_sequence = le_value (take 8 (drop 128 ?body)),
      md_journal_bytes = le_value (take 8 (drop 136 ?body)), md_journal_prefix = take 32 (drop 144 ?body)\<rparr>"
  let ?n = "le_value (take 8 (drop 176 ?body))" and ?rest = "drop (176 + 8) ?body"
  have meta: "cp_header = 40" "cp_meta = 176" "cp_length = 8" by (simp_all add: cp_header_def cp_meta_def cp_length_def)
  have e: "length bs \<le> cp_max_bytes" "224 \<le> length bs" "take 8 bs = cp_magic"
      "domain_checksum ?d ''gatel.checkpoint.envelope.v2'' ?body = take 32 (drop 8 bs)"
    and mc: "cp_metadata c = ?m" and n: "?n \<le> length ?rest"
    using a unfolding checkpoint_decode_def Let_def meta by (auto split: if_splits)
  define m where "m = cp_metadata c"
  define s where "s = take ?n ?rest" define ob where "ob = drop ?n ?rest"
  have len: "184 \<le> length ?body" using e(2) by simp
  have lt: "le_value (take 8 x) \<le> u64_max" for x
  proof -
    have "length (take 8 x) \<le> 8" by simp
    then have "(256::nat) ^ length (take 8 x) \<le> 256 ^ 8" by (intro power_increasing) simp_all
    then show ?thesis using le_value_lt [of "take 8 x"] by (simp add: u64_max_def)
  qed
  have ok: "metadata_ok m" using len lt by (simp add: metadata_ok_def m_def mc)
  have ls: "length s = ?n" using n by (simp add: s_def)
  have le_back: "le_bytes 8 (le_value (take 8 (drop k ?body))) = take 8 (drop k ?body)" if "k + 8 \<le> 184" for k
  proof -
    have "length (take 8 (drop k ?body)) = 8" using that len by simp
    then show ?thesis using le_bytes_value [of "take 8 (drop k ?body)"] by simp
  qed
  have "metadata_bytes m = take 32 (drop 0 ?body) @ take 32 (drop 32 ?body) @ take 32 (drop 64 ?body) @ take 32 (drop 96 ?body) @
      take 8 (drop 128 ?body) @ take 8 (drop 136 ?body) @ take 32 (drop 144 ?body)"
    using le_back [of 128] le_back [of 136] by (simp only: metadata_bytes_def m_def mc cp_metadata.simps)
  also have "\<dots> = take (32 + (32 + (32 + (32 + (8 + (8 + 32)))))) ?body"
    by (simp only: take_add drop_drop) simp
  finally have mb: "metadata_bytes m = take 176 ?body" by simp
  have so: "s @ ob = ?rest" unfolding s_def ob_def by (rule append_take_drop_id)
  have b176: "le_bytes 8 ?n = take 8 (drop 176 ?body)" by (rule le_back) simp
  have "cp_body m s ob = take 176 ?body @ take 8 (drop 176 ?body) @ ?rest"
    unfolding cp_body_def mb ls so b176 by (rule refl)
  also have "\<dots> = ?body"
    using append_take_drop_id [of 176 ?body] append_take_drop_id [of 8 "drop 176 ?body"] drop_drop [of 8 176 ?body]
    by (simp only: add.commute)
  finally have body: "cp_body m s ob = ?body" .
  have "bs = take 8 bs @ take 32 (drop 8 bs) @ ?body"
    using append_take_drop_id [of 8 bs] append_take_drop_id [of 32 "drop 8 bs"] by simp
  then have bs: "bs = cp_seal ?d (cp_body m s ob)" using e(3,4) body by (simp add: cp_seal_def)
  have "length ?body = length ?rest + 184" using len by simp
  then have sl: "length s \<le> u64_max" "224 + length s + length ob \<le> cp_max_bytes"
    using ls lt [of "drop 176 ?body"] e(1,2) n by (simp_all add: s_def ob_def)
  moreover have "checkpoint_check host m s ob inst registry log = Inr c"
    using a [unfolded bs decode_sealed [OF d ok sl(1)]] sl(2) by simp
  ultimately show ?thesis using ok bs unfolding m_def by blast
qed

subsection \<open>Saving and loading agree\<close>

lemma log_state_recovered:
  assumes d: "padded digest = digest" and l: "log_state digest log inst = Inr (r, st)"
  shows "0 < rc_sequence r \<and> rc_sequence r \<le> u64_max \<and> length log \<le> journal_max_log"
proof -
  obtain expected where r: "recover_each digest (log_visit expected) log 0 tx_default = Inr (r, st)" "rc_sequence r \<noteq> 0"
    using l by (auto simp: log_state_def split: if_splits)
  then have len: "length log \<le> journal_max_log" by (simp add: recover_each_def split: if_splits)
  obtain ps tail where p: "log = frames (record_bytes digest) 0 ps @ tail" "r = recovered_log digest ps (tail \<noteq> [])"
    using recover_each_sound [of digest "log_visit expected" log tx_default r st] r(1) d by auto
  have "length (frames (record_bytes (padded digest)) 0 ps) \<le> journal_max_log" using len p(1) d by simp
  then have "length ps < 1000000" by (rule frames_count)
  then show ?thesis using p(2) r(2) len by (simp add: recovered_log_def u64_max_def)
qed

lemma checkpoint_decode_encode:
  assumes d: "\<forall>bs. length (host_digest host bs) = 32" and c: "cc_committed capture = Some c"
    and fit: "snapshot_fits (cm_sources c)" "snapshot_fits (cc_observed capture)" "length (pl_plan_hash (cm_plan c)) = 32"
    and e: "checkpoint_encode host inst registry log capture = Inr bs"
    and l: "log_state (host_digest host) (log @ rest) inst = Inr x"
  shows "\<exists>r st. log_state (host_digest host) log inst = Inr (r, st) \<and> \<not> rc_incomplete_tail r \<and> \<not> unresolved st \<and>
    length bs \<le> cp_max_bytes \<and>
    (\<exists>m. checkpoint_decode host bs inst registry (log @ rest) = Inr \<lparr>cp_metadata = m, cp_sources = cm_sources c, cp_observed = cc_observed capture\<rparr> \<and>
      md_plan m = pl_plan_hash (cm_plan c) \<and> md_publication m = cp_publication (host_digest host) c \<and>
      md_journal_sequence m = rc_sequence r \<and> md_journal_bytes m = length log)"
proof -
  let ?d = "host_digest host"
  obtain r st sources observed b where p: "log_state ?d log inst = Inr (r, st)" "\<not> rc_incomplete_tail r" "\<not> unresolved st"
      "plan_matches host registry (cm_sources c) (pl_plan_hash (cm_plan c)) = Inr ()"
      "encode ?d (cm_sources c) = Inr sources" "encode ?d (cc_observed capture) = Inr observed"
      "source_history (cm_sources c) (cc_observed capture) = Inr ()" "cp_binding ?d inst = Inr b"
    and bs0: "bs = cp_seal ?d (metadata_bytes
        \<lparr>md_instance = domain_checksum ?d ''gatel.checkpoint.instance.v1'' b, md_build = build_hash ?d registry,
         md_plan = pl_plan_hash (cm_plan c), md_publication = cp_publication ?d c, md_journal_sequence = rc_sequence r,
         md_journal_bytes = length log, md_journal_prefix = domain_checksum ?d ''gatel.checkpoint.journal-prefix.v1'' log\<rparr> @
       le_bytes 8 (length sources) @ sources @ observed)"
    using e c by (auto simp: checkpoint_encode_def Let_def split: if_splits)
  define m where "m = \<lparr>md_instance = domain_checksum ?d ''gatel.checkpoint.instance.v1'' b, md_build = build_hash ?d registry,
         md_plan = pl_plan_hash (cm_plan c), md_publication = cp_publication ?d c, md_journal_sequence = rc_sequence r,
         md_journal_bytes = length log, md_journal_prefix = domain_checksum ?d ''gatel.checkpoint.journal-prefix.v1'' log\<rparr>"
  have bs: "bs = cp_seal ?d (cp_body m sources observed)" by (simp add: bs0 m_def cp_body_def)
  have rc: "rc_sequence r \<le> u64_max" "length log \<le> u64_max"
    using log_state_recovered [OF padded_id [OF d] p(1)] by (simp_all add: journal_max_log_def u64_max_def)
  have ok: "metadata_ok m"
    using d fit(3) rc by (simp add: metadata_ok_def m_def domain_checksum_def finish_def build_hash_def cp_publication_def Let_def)
  have ds: "decode ?d sources = Inr (cm_sources c)" "decode ?d observed = Inr (cc_observed capture)"
    using decode_encode [OF _ fit(1) p(5)] decode_encode [OF _ fit(2) p(6)] d by blast+
  then have sz: "length sources \<le> max_bytes" "length observed \<le> max_bytes" by (auto simp: decode_def split: if_splits)
  then have s64: "length sources \<le> u64_max" by (simp add: max_bytes_def u64_max_def)
  have tot: "\<not> cp_max_bytes < 224 + length sources + length observed"
    using sz by (simp add: cp_max_bytes_def cp_header_def cp_meta_def cp_length_def)
  have "checkpoint_check host m sources observed inst registry (log @ rest) =
      Inr \<lparr>cp_metadata = m, cp_sources = cm_sources c, cp_observed = cc_observed capture\<rparr>"
    using p ds l by (simp add: checkpoint_check_def Let_def map_err_def m_def)
  then have "checkpoint_decode host bs inst registry (log @ rest) =
      Inr \<lparr>cp_metadata = m, cp_sources = cm_sources c, cp_observed = cc_observed capture\<rparr>"
    using tot unfolding bs decode_sealed [OF d ok s64] by simp
  moreover have "length bs \<le> cp_max_bytes" using sealed_fields(4) [OF d] length_cp_body [OF ok] tot unfolding bs by simp
  ultimately show ?thesis using p(1-3) by (auto simp: m_def)
qed

subsection \<open>Compaction\<close>

lemma overwrite_middle: "length pre = pos \<Longrightarrow> length old = length new \<Longrightarrow> overwrite pos new (pre @ old @ post) = pre @ new @ post"
  by (simp add: overwrite_def)

lemma compacted_bytes:
  fixes digest m new n q src ob
  assumes d: "\<forall>bs. length (digest bs) = 32" and m: "metadata_ok m" and s: "length new = 32"
  defines "c3 \<equiv> overwrite 184 new (overwrite 176 (le_bytes 8 n) (overwrite 168 (le_bytes 8 q) (cp_seal digest (cp_body m src ob))))"
  shows "overwrite 8 (domain_checksum digest ''gatel.checkpoint.envelope.v2'' (drop 40 c3)) c3 =
    cp_seal digest (cp_body (m\<lparr>md_journal_sequence := q, md_journal_bytes := n, md_journal_prefix := new\<rparr>) src ob)"
proof -
  let ?m = "m\<lparr>md_journal_sequence := q, md_journal_bytes := n, md_journal_prefix := new\<rparr>"
  let ?sum = "domain_checksum digest ''gatel.checkpoint.envelope.v2'' (cp_body m src ob)"
  let ?ids = "md_instance m @ md_build m @ md_plan m @ md_publication m"
  let ?rest = "le_bytes 8 (length src) @ src @ ob"
  have sm: "length ?sum = 32" "length (domain_checksum digest dom x) = 32" for dom x
    using d by (simp_all add: domain_checksum_def finish_def)
  have l: "length (cp_magic @ ?sum @ ?ids) = 168" "length (md_journal_prefix m) = 32"
    using m sm by (simp_all add: cp_magic_def metadata_ok_def)
  have seal: "cp_seal digest (cp_body m src ob) = (cp_magic @ ?sum @ ?ids) @ le_bytes 8 (md_journal_sequence m) @
      (le_bytes 8 (md_journal_bytes m) @ md_journal_prefix m @ ?rest)"
    by (simp add: cp_seal_def cp_body_def metadata_bytes_def)
  have "overwrite 168 (le_bytes 8 q) (cp_seal digest (cp_body m src ob)) =
      (cp_magic @ ?sum @ ?ids @ le_bytes 8 q) @ le_bytes 8 (md_journal_bytes m) @ (md_journal_prefix m @ ?rest)"
    unfolding seal by (subst overwrite_middle [OF l(1)]) simp_all
  moreover have "overwrite 176 (le_bytes 8 n) \<dots> =
      (cp_magic @ ?sum @ ?ids @ le_bytes 8 q @ le_bytes 8 n) @ md_journal_prefix m @ ?rest"
    by (subst overwrite_middle) (use l(1) in simp_all)
  moreover have "overwrite 184 new \<dots> = cp_magic @ ?sum @ cp_body ?m src ob"
    by (subst overwrite_middle) (use l s in \<open>simp_all add: cp_body_def metadata_bytes_def\<close>)
  ultimately have c3: "c3 = cp_magic @ ?sum @ cp_body ?m src ob" by (simp only: c3_def)
  have "drop 40 c3 = cp_body ?m src ob" using sm(1) by (simp add: c3 cp_magic_def)
  then show ?thesis unfolding c3
    by (subst overwrite_middle) (simp_all add: sm cp_seal_def cp_magic_def [THEN arg_cong [where f = length]])
qed

text \<open>The log of a freshly bound journal: one record, no intent.\<close>

lemma log_state_fresh:
  assumes "padded digest = digest" "binding_record digest inst = Inr b"
  shows "log_state digest (record_bytes digest 1 b) inst = Inr (recovered_log digest [b] False, tx_default) \<and>
    length (record_bytes digest 1 b) \<le> u64_max"
proof -
  have f: "text_fits b" using binding_fits [of digest inst b] assms by simp
  have l: "length (record_bytes digest 1 b) = journal_header + length b" using length_record [of digest 1 b] assms(1) by simp
  have n: "length (frames (record_bytes digest) 0 [b]) \<le> journal_max_log"
    using l f by (simp add: text_fits_def max_payload_def admin_max_body_def journal_header_def journal_max_log_def)
  have "recover_each digest (log_visit b) (record_bytes digest 1 b) 0 tx_default = Inr (recovered_log digest [b] False, tx_default)"
    using recover_records [of "[b]" digest "log_visit b" tx_default] f n assms(1) by (simp add: log_visit_def)
  then show ?thesis using assms(2) l f
    by (simp add: log_state_def cp_binding_def map_err_def recovered_log_def text_fits_def max_payload_def admin_max_body_def
        journal_header_def u64_max_def)
qed

lemma compact_keeps:
  assumes d: "\<forall>bs. length (host_digest host bs) = 32" and c: "checkpoint_decode host bs inst registry log = Inr c"
    and l: "log_state (host_digest host) log inst = Inr (r, st)" "\<not> rc_incomplete_tail r" "\<not> unresolved st"
    and full: "md_journal_bytes (cp_metadata c) = length log" "md_journal_sequence (cp_metadata c) = rc_sequence r"
  shows "\<exists>bs2 log2. checkpoint_compact host bs inst registry log = Inr (bs2, log2) \<and>
    checkpoint_decode host bs2 inst registry log2 = Inr (c\<lparr>cp_metadata := (cp_metadata c)\<lparr>md_journal_sequence := 1,
      md_journal_bytes := length log2,
      md_journal_prefix := domain_checksum (host_digest host) ''gatel.checkpoint.journal-prefix.v1'' log2\<rparr>\<rparr>) \<and>
    (\<exists>r2. log_state (host_digest host) log2 inst = Inr (r2, tx_default) \<and> rc_sequence r2 = 1 \<and> \<not> rc_incomplete_tail r2)"
proof -
  let ?d = "host_digest host" and ?m = "cp_metadata c"
  note D = padded_id [OF d]
  obtain s ob where x: "metadata_ok ?m" "length s \<le> u64_max" "bs = cp_seal ?d (cp_body ?m s ob)"
      "224 + length s + length ob \<le> cp_max_bytes" "checkpoint_check host ?m s ob inst registry log = Inr c"
    using decode_exact [OF d c] by blast
  obtain b where b: "binding_record ?d inst = Inr b" "cp_binding ?d inst = Inr b"
    using l(1) by (auto simp: log_state_def cp_binding_def)
  define log2 where "log2 = record_bytes ?d 1 b"
  let ?pre = "domain_checksum ?d ''gatel.checkpoint.journal-prefix.v1'' log2"
  let ?m2 = "?m\<lparr>md_journal_sequence := 1, md_journal_bytes := length log2, md_journal_prefix := ?pre\<rparr>"
  have fresh: "log_state ?d log2 inst = Inr (recovered_log ?d [b] False, tx_default)" "length log2 \<le> u64_max"
    using log_state_fresh [OF D b(1)] by (simp_all add: log2_def)
  have p32: "length ?pre = 32" using d by (simp add: domain_checksum_def finish_def)
  have ok2: "metadata_ok ?m2" using x(1) fresh(2) p32 by (simp add: metadata_ok_def u64_max_def)
  have "text_fits b" using binding_fits [of ?d inst b] b(1) D by simp
  then have je: "journal_encode ?d 1 b = Inr log2" by (simp add: journal_encode_def log2_def text_fits_def)
  have "md_instance ?m = domain_checksum ?d ''gatel.checkpoint.instance.v1'' b \<and> md_build ?m = build_hash ?d registry \<and>
      decode ?d s = Inr (cp_sources c) \<and> decode ?d ob = Inr (cp_observed c) \<and> source_history (cp_sources c) (cp_observed c) = Inr () \<and>
      plan_matches host registry (cp_sources c) (md_plan ?m) = Inr ()"
    using x(5) b(2) by (cases c) (auto simp: checkpoint_check_def Let_def split: if_splits)
  note y = this
  have "checkpoint_check host ?m2 s ob inst registry log2 = Inr (c\<lparr>cp_metadata := ?m2\<rparr>)"
    using y b(2) fresh(1) by (simp add: checkpoint_check_def Let_def map_err_def unresolved_def tx_default_def recovered_log_def)
  then have dec: "checkpoint_decode host (cp_seal ?d (cp_body ?m2 s ob)) inst registry log2 = Inr (c\<lparr>cp_metadata := ?m2\<rparr>)"
    using x(4) unfolding decode_sealed [OF d ok2 x(2)] by simp
  have "checkpoint_compact host bs inst registry log = Inr (cp_seal ?d (cp_body ?m2 s ob), log2)"
    using c l full b(2) je dec compacted_bytes [OF d x(1) p32, of "length log2" 1 s ob]
    by (simp add: checkpoint_compact_def Let_def cp_header_def map_err_def x(3))
  then show ?thesis using dec fresh(1) by (auto simp: recovered_log_def)
qed

subsection \<open>The checkpoint file\<close>

record checkpoint_ops =
  co_read :: bool
  co_create :: bool
  co_write :: bool
  co_sync :: bool
  co_rename :: bool
  co_dir_sync :: bool

definition checkpoint_log :: "digest \<Rightarrow> file_ops \<Rightarrow> journal_dir \<Rightarrow> journal_store \<Rightarrow> (checkpoint_fault + bytes) \<times> journal_store" where
  "checkpoint_log digest io dir st =
     (if js_poisoned st then (Inl CpPoisoned, st)
      else
        let bad = st\<lparr>js_poisoned := True\<rparr>; bs = log_bytes dir in
        if \<not> fo_stat io then (Inl CpOs, bad)
        else if journal_max_log < length bs then (Inl CpSize, bad)
        else if \<not> fo_seek io \<or> \<not> fo_read io then (Inl CpOs, bad)
        else (case recover digest bs 0 of
            Inl _ \<Rightarrow> (Inl CpInvalid, bad)
          | Inr r \<Rightarrow>
              if rc_sequence r \<noteq> js_sequence st \<or> rc_valid_bytes r \<noteq> js_valid_bytes st \<or> rc_text r \<noteq> js_text st \<or>
                 rc_incomplete_tail r \<noteq> js_incomplete_tail st
              then (Inl CpChanged, bad) else (Inr bs, st)))"

definition checkpoint_bytes :: "checkpoint_ops \<Rightarrow> bytes option \<Rightarrow> checkpoint_fault + bytes option" where
  "checkpoint_bytes co cp =
     (case cp of
        None \<Rightarrow> Inr None
      | Some bs \<Rightarrow> if cp_max_bytes < length bs then Inl CpSize else if \<not> co_read co then Inl CpOs else Inr (Some bs))"

definition load_checkpoint_from ::
  "'c host \<Rightarrow> checkpoint_ops \<Rightarrow> bytes \<Rightarrow> 'c registry \<Rightarrow> bytes option \<Rightarrow> bytes \<Rightarrow> checkpoint_fault + checkpoint option" where
  "load_checkpoint_from host co inst registry cp log =
     and_then (checkpoint_bytes co cp) (\<lambda>x. case x of
         None \<Rightarrow> Inr None
       | Some bs \<Rightarrow> and_then (checkpoint_decode host bs inst registry log) (\<lambda>c. Inr (Some c)))"

definition load_checkpoint ::
  "'c host \<Rightarrow> file_ops \<Rightarrow> checkpoint_ops \<Rightarrow> bytes \<Rightarrow> 'c registry \<Rightarrow> journal_dir \<Rightarrow> bytes option \<Rightarrow> journal_store \<Rightarrow>
     (checkpoint_fault + checkpoint option) \<times> journal_store" where
  "load_checkpoint host io co inst registry dir cp st =
     (case checkpoint_log (host_digest host) io dir st of
        (Inl e, st) \<Rightarrow> (Inl e, st)
      | (Inr log, st) \<Rightarrow> (load_checkpoint_from host co inst registry cp log, st))"

text \<open>
  \<open>save_checkpoint_with\<close>: the staged file is written and synced before the rename; from its creation on,
  every failure leaves the handle poisoned.
\<close>

definition replace_checkpoint :: "checkpoint_ops \<Rightarrow> bytes \<Rightarrow> bytes option \<Rightarrow> journal_store \<Rightarrow> (checkpoint_fault + unit) \<times> bytes option \<times> journal_store" where
  "replace_checkpoint co bs cp st =
     (let bad = st\<lparr>js_poisoned := True\<rparr> in
      if \<not> co_create co \<or> \<not> co_write co \<or> \<not> co_sync co \<or> \<not> co_rename co then (Inl CpOs, cp, bad)
      else if \<not> co_dir_sync co then (Inl CpOs, Some bs, bad)
      else (Inr (), Some bs, st\<lparr>js_poisoned := False\<rparr>))"

definition save_checkpoint ::
  "'c host \<Rightarrow> file_ops \<Rightarrow> checkpoint_ops \<Rightarrow> bytes \<Rightarrow> 'c registry \<Rightarrow> ('c, 'r) configuration_capture \<Rightarrow> journal_dir \<Rightarrow>
     bytes option \<Rightarrow> journal_store \<Rightarrow> (checkpoint_fault + unit) \<times> bytes option \<times> journal_store" where
  "save_checkpoint host io co inst registry capture dir cp st =
     (if \<not> js_writable st then (Inl CpReadOnly, cp, st)
      else (case checkpoint_log (host_digest host) io dir st of
          (Inl e, st) \<Rightarrow> (Inl e, cp, st)
        | (Inr log, st) \<Rightarrow>
            (case checkpoint_encode host inst registry log capture of
               Inl e \<Rightarrow> (Inl e, cp, st)
             | Inr bs \<Rightarrow>
                 (case checkpoint_bytes co cp of
                    Inl e \<Rightarrow> (Inl e, cp, st)
                  | Inr None \<Rightarrow> replace_checkpoint co bs cp st
                  | Inr (Some previous) \<Rightarrow>
                      (case checkpoint_decode host previous inst registry log of
                         Inl e \<Rightarrow> (Inl e, cp, st)
                       | Inr _ \<Rightarrow> if previous = bs then (Inr (), cp, st) else replace_checkpoint co bs cp st)))))"

subsection \<open>Recovery\<close>

datatype reconcile_reason = IncompleteTail | UnknownOutcome | MissingCheckpoint | AppliedAfterCheckpoint

datatype disposition = Uninitialized | CheckpointCurrent | CheckpointWithRejectedIntent | Reconcile reconcile_reason

record inspection =
  ip_disposition :: disposition
  ip_checkpoint :: "checkpoint option"
  ip_latest :: "tx_intent option"
  ip_applied :: "tx_intent option"
  ip_decision :: "tx_decision option"
  ip_incomplete_tail :: bool
  ip_journal_sequence :: nat

definition classify :: "journal \<Rightarrow> checkpoint option \<Rightarrow> disposition" where
  "classify j found =
     (if js_incomplete_tail (jn_store j) then Reconcile IncompleteTail
      else if unresolved (jn_state j) then Reconcile UnknownOutcome
      else (case found of
          Some c \<Rightarrow>
            if (case tx_applied (jn_state j) of None \<Rightarrow> False | Some i \<Rightarrow> md_journal_sequence (cp_metadata c) < ti_sequence i)
              then Reconcile AppliedAfterCheckpoint
            else if md_journal_sequence (cp_metadata c) < js_sequence (jn_store j) then CheckpointWithRejectedIntent
            else CheckpointCurrent
        | None \<Rightarrow> if tx_latest (jn_state j) \<noteq> None then Reconcile MissingCheckpoint else Uninitialized))"

definition inspect_recovery ::
  "'c host \<Rightarrow> file_ops \<Rightarrow> checkpoint_ops \<Rightarrow> 'c registry \<Rightarrow> journal_dir \<Rightarrow> bytes option \<Rightarrow> journal \<Rightarrow>
     (checkpoint_fault + inspection) \<times> journal" where
  "inspect_recovery host io co registry dir cp j =
     (case load_checkpoint host io co (jn_instance j) registry dir cp (jn_store j) of
        (Inl e, st) \<Rightarrow> (Inl e, j\<lparr>jn_store := st\<rparr>)
      | (Inr found, st) \<Rightarrow>
          let j = j\<lparr>jn_store := st\<rparr> in
          (Inr \<lparr>ip_disposition = classify j found, ip_checkpoint = found, ip_latest = tx_latest (jn_state j),
                ip_applied = tx_applied (jn_state j), ip_decision = tx_decision (jn_state j),
                ip_incomplete_tail = js_incomplete_tail (jn_store j), ip_journal_sequence = js_sequence (jn_store j)\<rparr>, j))"

subsection \<open>The host's handle\<close>

record checkpoint_writer =
  cw_journal :: journal
  cw_failed :: bool
  cw_owner :: "fingerprint option"
  cw_recovery :: "(fingerprint \<times> fingerprint) option"

definition sources_identity :: "digest \<Rightarrow> snapshot \<Rightarrow> checkpoint_fault + fingerprint" where
  "sources_identity digest m =
     and_then (map_err (\<lambda>_. CpInvalid) (encode digest m)) (\<lambda>bs.
       Inr (domain_checksum digest ''gatel.checkpoint.recovery-sources.v1'' bs))"

definition pair_identity :: "digest \<Rightarrow> snapshot \<Rightarrow> snapshot \<Rightarrow> checkpoint_fault + fingerprint \<times> fingerprint" where
  "pair_identity digest serving observed =
     and_then (sources_identity digest serving) (\<lambda>a. and_then (sources_identity digest observed) (\<lambda>b. Inr (a, b)))"

definition writer_open ::
  "'c host \<Rightarrow> file_ops \<Rightarrow> checkpoint_ops \<Rightarrow> bytes \<Rightarrow> 'c registry \<Rightarrow> journal_dir \<Rightarrow> bytes option \<Rightarrow>
     (checkpoint_fault + checkpoint_writer \<times> (snapshot \<times> snapshot) option) \<times> journal_dir" where
  "writer_open host io co inst registry dir cp =
     (case journal_open (host_digest host) io inst True dir of
        (Inl e, dir) \<Rightarrow> (Inl (CpJournal e), dir)
      | (Inr j, dir) \<Rightarrow>
          (case inspect_recovery host io co registry dir cp j of
             (Inl e, _) \<Rightarrow> (Inl e, release_lock dir)
           | (Inr ip, j) \<Rightarrow>
               if ip_disposition ip \<noteq> Uninitialized \<and> ip_disposition ip \<noteq> CheckpointCurrent
                 then (Inl CpNeedsReconciliation, release_lock dir)
               else
                 let snapshots = map_option (\<lambda>c. (cp_sources c, cp_observed c)) (ip_checkpoint ip) in
                 (case (case snapshots of None \<Rightarrow> Inr None
                        | Some (a, b) \<Rightarrow> and_then (pair_identity (host_digest host) a b) (\<lambda>x. Inr (Some x))) of
                    Inl e \<Rightarrow> (Inl e, release_lock dir)
                  | Inr recovery \<Rightarrow>
                      (Inr (\<lparr>cw_journal = j, cw_failed = False, cw_owner = None, cw_recovery = recovery\<rparr>, snapshots), dir))))"

definition writer_ensure_ready :: "checkpoint_writer \<Rightarrow> checkpoint_fault + unit" where
  "writer_ensure_ready w =
     (if cw_failed w then Inl CpFailedWriter else if cw_recovery w \<noteq> None then Inl CpUnconfirmed else Inr ())"

definition verify_recovery_sources :: "digest \<Rightarrow> snapshot \<Rightarrow> snapshot \<Rightarrow> checkpoint_writer \<Rightarrow> checkpoint_fault + unit" where
  "verify_recovery_sources digest serving observed w =
     (if cw_failed w then Inl CpFailedWriter
      else (case cw_recovery w of
          None \<Rightarrow> Inl CpNotPending
        | Some expected \<Rightarrow>
            and_then (pair_identity digest serving observed) (\<lambda>x. if x \<noteq> expected then Inl CpMismatch else Inr ())))"

definition owned_by_other :: "fingerprint \<Rightarrow> checkpoint_writer \<Rightarrow> bool" where
  "owned_by_other owner w = (case cw_owner w of None \<Rightarrow> False | Some x \<Rightarrow> x \<noteq> owner)"

definition confirm_recovery ::
  "digest \<Rightarrow> ('c, 'r) configuration_capture \<Rightarrow> checkpoint_writer \<Rightarrow> (checkpoint_fault + unit) \<times> checkpoint_writer" where
  "confirm_recovery digest capture w =
     (if cw_failed w \<or> cc_sealed capture then (Inl CpSealed, w)
      else if owned_by_other (vs_boot_id (cc_version capture)) w then (Inl CpForeign, w)
      else (case cc_committed capture of
          None \<Rightarrow> (Inl CpMissing, w)
        | Some c \<Rightarrow>
            (case verify_recovery_sources digest (cm_sources c) (cc_observed capture) w of
               Inl e \<Rightarrow> (Inl e, w)
             | Inr _ \<Rightarrow> (Inr (), w\<lparr>cw_owner := Some (vs_boot_id (cc_version capture)), cw_recovery := None\<rparr>))))"

definition reserve_recovery ::
  "digest \<Rightarrow> fingerprint \<Rightarrow> snapshot \<Rightarrow> snapshot \<Rightarrow> checkpoint_writer \<Rightarrow> (checkpoint_fault + unit) \<times> checkpoint_writer" where
  "reserve_recovery digest owner serving observed w =
     (case verify_recovery_sources digest serving observed w of
        Inl e \<Rightarrow> (Inl e, w)
      | Inr _ \<Rightarrow> if owned_by_other owner w then (Inl CpForeign, w) else (Inr (), w\<lparr>cw_owner := Some owner\<rparr>))"

definition writer_bind :: "fingerprint \<Rightarrow> checkpoint_writer \<Rightarrow> (checkpoint_fault + unit) \<times> checkpoint_writer" where
  "writer_bind owner w =
     (case writer_ensure_ready w of
        Inl e \<Rightarrow> (Inl e, w)
      | Inr _ \<Rightarrow> if owned_by_other owner w then (Inl CpForeign, w) else (Inr (), w\<lparr>cw_owner := Some owner\<rparr>))"

definition require_reconciliation :: "checkpoint_writer \<Rightarrow> checkpoint_writer" where
  "require_reconciliation w = w\<lparr>cw_failed := True\<rparr>"

definition writer_save ::
  "'c host \<Rightarrow> file_ops \<Rightarrow> checkpoint_ops \<Rightarrow> 'c registry \<Rightarrow> ('c, 'r) configuration_capture \<Rightarrow> journal_dir \<Rightarrow> bytes option \<Rightarrow>
     checkpoint_writer \<Rightarrow> (checkpoint_fault + unit) \<times> bytes option \<times> checkpoint_writer" where
  "writer_save host io co registry capture dir cp w =
     (case writer_bind (vs_boot_id (cc_version capture)) w of
        (Inl e, w) \<Rightarrow> (Inl e, cp, w)
      | (Inr _, w) \<Rightarrow>
          let j = cw_journal w in
          (case save_checkpoint host io co (jn_instance j) registry capture dir cp (jn_store j) of
             (Inl e, cp, st) \<Rightarrow> (Inl e, cp, w\<lparr>cw_failed := True, cw_journal := j\<lparr>jn_store := st\<rparr>\<rparr>)
           | (Inr _, cp, st) \<Rightarrow> (Inr (), cp, w\<lparr>cw_failed := False, cw_journal := j\<lparr>jn_store := st\<rparr>\<rparr>)))"

subsection \<open>What checkpoints guarantee\<close>

lemma checkpoint_log_Inr:
  assumes "checkpoint_log digest io dir st = (Inr log, st2)"
  shows "st2 = st \<and> log = log_bytes dir \<and> \<not> js_poisoned st \<and> length log \<le> journal_max_log \<and>
    (\<exists>r. recover digest log 0 = Inr r \<and> rc_sequence r = js_sequence st \<and> rc_incomplete_tail r = js_incomplete_tail st)"
  using assms by (auto simp: checkpoint_log_def Let_def split: if_splits sum.splits)

lemma replace_checkpoint_cases:
  "replace_checkpoint co bs cp st = (Inr (), Some bs, st\<lparr>js_poisoned := False\<rparr>) \<or>
   (\<exists>cp2. replace_checkpoint co bs cp st = (Inl CpOs, cp2, st\<lparr>js_poisoned := True\<rparr>) \<and> (cp2 = cp \<or> cp2 = Some bs))"
  by (simp add: replace_checkpoint_def Let_def)

lemma save_checkpoint_cases:
  assumes "save_checkpoint host io co inst registry capture dir cp st = (res, cp2, st2)"
  shows "cp2 = cp \<and> res \<noteq> Inr () \<or>
    (\<exists>bs. checkpoint_encode host inst registry (log_bytes dir) capture = Inr bs \<and> \<not> js_poisoned st \<and>
       checkpoint_log (host_digest host) io dir st = (Inr (log_bytes dir), st) \<and>
       (res = Inr () \<and> cp2 = Some bs \<and> st2 = st \<or> res \<noteq> Inr () \<and> cp2 = Some bs \<and> js_poisoned st2))"
proof (cases "js_writable st")
  case False
  then show ?thesis using assms by (auto simp: save_checkpoint_def)
next
  case True
  show ?thesis
  proof (cases "checkpoint_log (host_digest host) io dir st")
    case (Pair r1 st1)
    show ?thesis
    proof (cases r1)
      case (Inl e)
      then show ?thesis using assms True Pair by (auto simp: save_checkpoint_def)
    next
      case (Inr log)
      have c: "st1 = st" "log = log_bytes dir" "\<not> js_poisoned st" using checkpoint_log_Inr [of "host_digest host" io dir st log st1] Pair Inr by simp_all
      have heal: "st\<lparr>js_poisoned := False\<rparr> = st" using c(3) by (cases st) simp
      show ?thesis
      proof (cases "checkpoint_encode host inst registry log capture")
        case e: (Inl e)
        then show ?thesis using assms True Pair Inr by (auto simp: save_checkpoint_def)
      next
        case e: (Inr bs)
        have r: ?thesis if "replace_checkpoint co bs cp st = (res, cp2, st2)"
          using replace_checkpoint_cases [of co bs cp st] that e c heal Pair Inr by auto
        show ?thesis
        proof (cases "checkpoint_bytes co cp")
          case (Inl x)
          then show ?thesis using assms True Pair \<open>r1 = Inr log\<close> e by (auto simp: save_checkpoint_def)
        next
          case b: (Inr x)
          show ?thesis
          proof (cases x)
            case None
            then show ?thesis using assms True Pair \<open>r1 = Inr log\<close> e b c(1) by (intro r) (simp add: save_checkpoint_def)
          next
            case (Some previous)
            have cp: "cp = Some previous" using b Some by (auto simp: checkpoint_bytes_def split: option.splits if_splits)
            show ?thesis
            proof (cases "checkpoint_decode host previous inst registry log")
              case (Inl y)
              then show ?thesis using assms True Pair \<open>r1 = Inr log\<close> e b Some by (auto simp: save_checkpoint_def)
            next
              case d: (Inr y)
              show ?thesis
              proof (cases "previous = bs")
                case True
                then have "res = Inr ()" "cp2 = Some bs" "st2 = st"
                  using assms \<open>js_writable st\<close> Pair \<open>r1 = Inr log\<close> e b Some d c(1) cp by (simp_all add: save_checkpoint_def)
                then show ?thesis using e c Pair \<open>r1 = Inr log\<close> by auto
              next
                case False
                then show ?thesis
                  using assms \<open>js_writable st\<close> Pair \<open>r1 = Inr log\<close> e b Some d c(1) by (intro r) (simp add: save_checkpoint_def)
              qed
            qed
          qed
        qed
      qed
    qed
  qed
qed

text \<open>Two scans of one log agree on where they end, whatever their visitors do.\<close>

lemma recover_same:
  assumes d: "padded digest = digest" and v: "recover_each digest visit log 0 s = Inr (r, s2)"
  shows "recover digest log 0 = Inr r"
proof -
  obtain ps tail where p: "log = frames (record_bytes digest) 0 ps @ tail" "list_all text_fits ps" "r = recovered_log digest ps (tail \<noteq> [])"
      "tail \<noteq> [] \<longrightarrow> read_record digest (length ps) tail = Inr None"
    using recover_each_sound [of digest visit log s r s2] v d by auto
  have len: "length log \<le> journal_max_log" using v by (simp add: recover_each_def split: if_splits)
  then have "length (frames (record_bytes (padded digest)) 0 ps) \<le> journal_max_log" using p(1) d by simp
  then have n: "length ps \<le> u64_max" using frames_count [of digest 0 ps] by (simp add: u64_max_def)
  define q where "q = journal_log.position_after digest ps (recovered_from 0)"
  have q: "q = recovered_log digest ps False" unfolding q_def journal_position by (simp add: d recovered_from_def recovered_log_def)
  have "recover_loop digest (\<lambda>_ _ v. Inr v) log (recovered_from 0) () = recover_loop digest (\<lambda>_ _ v. Inr v) log q ()"
    using journal_log.scan_frames [OF p(2), of "recovered_from 0" "[]" digest "\<lambda>_ _ v. Inr v" tail "()"] n
    unfolding q_def d p(1) by simp
  also have "\<dots> = Inr (r, ())"
    using p(4) unfolding p(1,3) q by (subst recover_loop.simps) (simp add: recovered_log_def)
  finally show ?thesis using len by (simp add: recover_def recover_each_def)
qed

text \<open>
  C34: replacing a checkpoint is atomic and what was saved is what is loaded: whatever fails, the file is
  afterwards the old checkpoint or the complete new one, and if it was replaced without success being
  reported, the handle refuses further use. When success is reported, loading gives back exactly the
  published and the observed configuration of the capture, with its plan, its publication and the
  journal position it covers, for as long as the journal only grows by records that replay.
\<close>

theorem checkpoint_save_load:
  fixes host dir
  defines "digest \<equiv> host_digest host" and "log \<equiv> log_bytes dir"
  assumes "\<forall>bs. length (digest bs) = 32" "cc_committed capture = Some c"
    and "snapshot_fits (cm_sources c)" "snapshot_fits (cc_observed capture)" "length (pl_plan_hash (cm_plan c)) = 32"
    and "save_checkpoint host io co inst registry capture dir cp st = (res, cp2, st2)"
    and "log_state digest (log @ rest) inst = Inr x" "co_read co"
  shows "(cp2 = cp \<or> (\<exists>bs. cp2 = Some bs \<and> checkpoint_encode host inst registry log capture = Inr bs)) \<and>
    (cp2 \<noteq> cp \<and> res \<noteq> Inr () \<longrightarrow> js_poisoned st2) \<and>
    (res = Inr () \<longrightarrow> (\<exists>m. load_checkpoint_from host co inst registry cp2 (log @ rest) =
       Inr (Some \<lparr>cp_metadata = m, cp_sources = cm_sources c, cp_observed = cc_observed capture\<rparr>) \<and>
       md_plan m = pl_plan_hash (cm_plan c) \<and> md_publication m = cp_publication digest c \<and>
       md_journal_bytes m = length log \<and> md_journal_sequence m = js_sequence st))"
proof -
  note s = save_checkpoint_cases [OF assms(8), folded log_def digest_def]
  have third: "\<exists>m. load_checkpoint_from host co inst registry cp2 (log @ rest) =
       Inr (Some \<lparr>cp_metadata = m, cp_sources = cm_sources c, cp_observed = cc_observed capture\<rparr>) \<and>
       md_plan m = pl_plan_hash (cm_plan c) \<and> md_publication m = cp_publication digest c \<and>
       md_journal_bytes m = length log \<and> md_journal_sequence m = js_sequence st"
    if res: "res = Inr ()"
  proof -
    obtain bs where b: "checkpoint_encode host inst registry log capture = Inr bs" "cp2 = Some bs"
        "checkpoint_log digest io dir st = (Inr log, st)"
      using s res by blast
    obtain r tx m where e: "log_state digest log inst = Inr (r, tx)" "length bs \<le> cp_max_bytes"
        "checkpoint_decode host bs inst registry (log @ rest) = Inr \<lparr>cp_metadata = m, cp_sources = cm_sources c, cp_observed = cc_observed capture\<rparr>"
        "md_plan m = pl_plan_hash (cm_plan c)" "md_publication m = cp_publication digest c"
        "md_journal_sequence m = rc_sequence r" "md_journal_bytes m = length log"
      using checkpoint_decode_encode [OF assms(3) [unfolded digest_def] assms(4-7) b(1) assms(9) [unfolded digest_def]] digest_def by blast
    obtain r0 where r0: "recover digest log 0 = Inr r0" "rc_sequence r0 = js_sequence st"
      using checkpoint_log_Inr [OF b(3)] by blast
    obtain expected where v: "recover_each digest (log_visit expected) log 0 tx_default = Inr (r, tx)"
      using e(1) by (auto simp: log_state_def split: if_splits)
    have "rc_sequence r0 = rc_sequence r" using recover_same [OF padded_id [OF assms(3)] v] r0(1) by simp
    then show ?thesis using e b(2) assms(10) r0(2)
      by (intro exI [of _ m]) (simp add: load_checkpoint_from_def checkpoint_bytes_def)
  qed
  then show ?thesis using s by blast
qed

definition cp_host :: "unit host" where
  "cp_host = \<lparr>host_digest = zero_digest, host_ops = no_config, host_normalize = (\<lambda>m registry. Inr (sample_spec global_default))\<rparr>"

definition cp_plan :: "unit plan" where
  "cp_plan = the (compile zero_digest no_config sample_registry (sample_spec global_default))"

definition cp_committed :: "(unit, unit) committed" where
  "cp_committed = \<lparr>cm_number = 1, cm_boot_id = replicate 32 (char_of (0::nat)), cm_plan = cp_plan, cm_runtime = (),
     cm_revs = revs sample_sources, cm_sources = sample_sources\<rparr>"

definition cp_capture :: "(unit, unit) configuration_capture" where
  "cp_capture = \<lparr>cc_version = sample_version, cc_committed = Some cp_committed, cc_observed = sample_sources, cc_sealed = False\<rparr>"

definition cp_works :: checkpoint_ops where
  "cp_works = \<lparr>co_read = True, co_create = True, co_write = True, co_sync = True, co_rename = True, co_dir_sync = True\<rparr>"

lemma cp_plan_compiles: "compile zero_digest no_config sample_registry (sample_spec global_default) = Some cp_plan"
proof -
  obtain plan where "compile zero_digest no_config sample_registry (sample_spec global_default) = Some plan"
    using compile_total [OF sample_spec_composes] by fastforce
  then show ?thesis by (simp add: cp_plan_def)
qed

lemma compile_hash_length:
  assumes "compile digest ops registry s = Some plan" "\<forall>bs. length (digest bs) = 32"
  shows "length (pl_plan_hash plan) = 32"
  using assms by (auto simp: compile_def Let_def finish_def)

lemma cp_sample:
  "cc_committed cp_capture = Some cp_committed" "snapshot_fits (cm_sources cp_committed)" "snapshot_fits (cc_observed cp_capture)"
  "length (pl_plan_hash (cm_plan cp_committed)) = 32" "\<forall>bs. length (host_digest cp_host bs) = 32"
  using compile_hash_length [OF cp_plan_compiles zero_digest_length] sample_sources_fit zero_digest_length
  by (simp_all add: cp_capture_def cp_committed_def cp_host_def)

lemma cp_sample_log:
  "log_bytes sample_opened = record_bytes zero_digest 1 sample_binding"
  "log_state zero_digest (record_bytes zero_digest 1 sample_binding) ''a'' = Inr (recovered_log zero_digest [sample_binding] False, tx_default)"
  using log_state_fresh [OF padded_id [OF zero_digest_length] sample_binding_record] by (simp_all add: sample_opened_def log_bytes_def)

lemma cp_encode:
  "\<exists>bs. checkpoint_encode cp_host ''a'' sample_registry (record_bytes zero_digest 1 sample_binding) cp_capture = Inr bs"
proof -
  obtain s where "encode zero_digest sample_sources = Inr s" using sample_sources_encode by blast
  then show ?thesis using cp_plan_compiles sample_sources_succeed sample_binding_record cp_sample_log(2)
    by (simp add: checkpoint_encode_def cp_host_def cp_capture_def cp_committed_def unresolved_def tx_default_def recovered_log_def
        plan_matches_def map_err_def source_history_def cp_binding_def)
qed

lemma cp_sample_recover:
  "recover zero_digest (record_bytes zero_digest 1 sample_binding) 0 = Inr (recovered_log zero_digest [sample_binding] False)"
proof -
  obtain expected where "recover_each zero_digest (log_visit expected) (record_bytes zero_digest 1 sample_binding) 0 tx_default =
      Inr (recovered_log zero_digest [sample_binding] False, tx_default)"
    using cp_sample_log(2) by (auto simp: log_state_def split: if_splits)
  then show ?thesis by (rule recover_same [OF padded_id [OF zero_digest_length]])
qed

lemma cp_sample_save:
  assumes "checkpoint_encode cp_host ''a'' sample_registry (record_bytes zero_digest 1 sample_binding) cp_capture = Inr bs"
  shows "save_checkpoint cp_host sample_io cp_works ''a'' sample_registry cp_capture sample_opened None (jn_store sample_journal) =
    (Inr (), Some bs, jn_store sample_journal)"
proof -
  have "length (record_bytes zero_digest 1 sample_binding) \<le> journal_max_log"
    using log_state_recovered [OF padded_id [OF zero_digest_length] cp_sample_log(2)] by simp
  then have "checkpoint_log zero_digest sample_io sample_opened (jn_store sample_journal) =
      (Inr (record_bytes zero_digest 1 sample_binding), jn_store sample_journal)"
    using cp_sample_recover
    by (simp add: checkpoint_log_def Let_def cp_sample_log(1) sample_io_def sample_journal_def store_of_def recovered_log_def)
  then show ?thesis using assms
    by (simp add: save_checkpoint_def cp_host_def checkpoint_bytes_def replace_checkpoint_def cp_works_def sample_journal_def store_of_def Let_def)
qed

theorem checkpoint_save_load_witness:
  "\<exists>bs m. save_checkpoint cp_host sample_io cp_works ''a'' sample_registry cp_capture sample_opened None (jn_store sample_journal) =
      (Inr (), Some bs, jn_store sample_journal) \<and>
    load_checkpoint_from cp_host cp_works ''a'' sample_registry (Some bs) (log_bytes sample_opened) =
      Inr (Some \<lparr>cp_metadata = m, cp_sources = sample_sources, cp_observed = sample_sources\<rparr>) \<and> md_journal_sequence m = 1"
proof -
  obtain bs where bs: "checkpoint_encode cp_host ''a'' sample_registry (record_bytes zero_digest 1 sample_binding) cp_capture = Inr bs"
    using cp_encode by blast
  have l: "log_state (host_digest cp_host) (log_bytes sample_opened @ []) ''a'' = Inr (recovered_log zero_digest [sample_binding] False, tx_default)"
    using cp_sample_log by (simp add: cp_host_def)
  have "co_read cp_works" by (simp add: cp_works_def)
  from checkpoint_save_load [OF cp_sample(5,1-4) cp_sample_save [OF bs] l this] cp_sample_save [OF bs]
  show ?thesis by (auto simp: cp_committed_def cp_capture_def sample_journal_def store_of_def)
qed

text \<open>
  C35: compaction forgets nothing but history: a checkpoint that covers a fully decided journal can
  always be compacted; the new envelope loads against the new journal, which holds nothing but the
  binding, and carries the very same configurations, plan and publication; the old pair is untouched.
\<close>

theorem compact_preserves:
  assumes "\<forall>bs. length (host_digest host bs) = 32" "checkpoint_decode host bs inst registry log = Inr c"
    and "log_state (host_digest host) log inst = Inr (r, st)" "\<not> rc_incomplete_tail r" "\<not> unresolved st"
    and "md_journal_bytes (cp_metadata c) = length log" "md_journal_sequence (cp_metadata c) = rc_sequence r"
  shows "\<exists>bs2 log2 c2 r2. checkpoint_compact host bs inst registry log = Inr (bs2, log2) \<and>
    checkpoint_decode host bs2 inst registry log2 = Inr c2 \<and> cp_sources c2 = cp_sources c \<and> cp_observed c2 = cp_observed c \<and>
    md_plan (cp_metadata c2) = md_plan (cp_metadata c) \<and> md_publication (cp_metadata c2) = md_publication (cp_metadata c) \<and>
    md_journal_sequence (cp_metadata c2) = 1 \<and> md_journal_bytes (cp_metadata c2) = length log2 \<and>
    log_state (host_digest host) log2 inst = Inr (r2, tx_default) \<and> rc_sequence r2 = 1 \<and> \<not> rc_incomplete_tail r2"
  using compact_keeps [OF assms] by fastforce

theorem compact_preserves_witness:
  "\<exists>bs bs2 log2 c2. checkpoint_encode cp_host ''a'' sample_registry (record_bytes zero_digest 1 sample_binding) cp_capture = Inr bs \<and>
    checkpoint_compact cp_host bs ''a'' sample_registry (record_bytes zero_digest 1 sample_binding) = Inr (bs2, log2) \<and>
    checkpoint_decode cp_host bs2 ''a'' sample_registry log2 = Inr c2 \<and> cp_sources c2 = sample_sources"
proof -
  obtain bs where bs: "checkpoint_encode cp_host ''a'' sample_registry (record_bytes zero_digest 1 sample_binding) cp_capture = Inr bs"
    using cp_encode by blast
  have l: "log_state (host_digest cp_host) (record_bytes zero_digest 1 sample_binding) ''a'' =
      Inr (recovered_log zero_digest [sample_binding] False, tx_default)"
    using cp_sample_log(2) by (simp add: cp_host_def)
  obtain m where m: "checkpoint_decode cp_host bs ''a'' sample_registry (record_bytes zero_digest 1 sample_binding) =
        Inr \<lparr>cp_metadata = m, cp_sources = cm_sources cp_committed, cp_observed = cc_observed cp_capture\<rparr>"
      "md_journal_sequence m = 1" "md_journal_bytes m = length (record_bytes zero_digest 1 sample_binding)"
    using checkpoint_decode_encode [OF cp_sample(5,1-4) bs, of "[]"] l by (auto simp: recovered_log_def)
  have u: "\<not> rc_incomplete_tail (recovered_log zero_digest [sample_binding] False)" "\<not> unresolved tx_default"
    by (simp_all add: recovered_log_def unresolved_def tx_default_def)
  show ?thesis
    using compact_preserves [OF cp_sample(5) m(1) l u] m(2,3) bs by (fastforce simp: recovered_log_def cp_committed_def)
qed

text \<open>A prefix of a log that ends at a record ends no later than the log, and at the same record only if it is all of it.\<close>

lemma recover_prefix:
  assumes d: "padded digest = digest" and a: "recover digest log 0 = Inr r" and b: "recover digest (take n log) 0 = Inr q"
    and t: "\<not> rc_incomplete_tail q"
  shows "rc_sequence q \<le> rc_sequence r \<and> (rc_sequence q = rc_sequence r \<longrightarrow> \<not> rc_incomplete_tail r \<longrightarrow> drop n log = [])"
proof -
  let ?v = "\<lambda>_ _ v. Inr v"
  have "recover_each (padded digest) ?v (take n log) 0 () = Inr (q, ())" using b d by (auto simp: recover_def)
  from recover_each_sound [OF this] d obtain qs tl where
    q0: "take n log = frames (record_bytes digest) 0 qs @ tl" "list_all text_fits qs" "q = recovered_log digest qs (tl \<noteq> [])" by auto
  have "tl = []" using t q0(3) by (simp add: recovered_log_def)
  then have q: "take n log = frames (record_bytes digest) 0 qs" "list_all text_fits qs" "q = recovered_log digest qs False" using q0 by simp_all
  have log: "log = frames (record_bytes digest) 0 qs @ drop n log" using append_take_drop_id [of n log] q(1) by simp
  have len: "length log \<le> journal_max_log" and loop: "recover_loop digest ?v log (recovered_from 0) () = Inr (r, ())"
    using a by (auto simp: recover_def recover_each_def split: if_splits)
  have "length (frames (record_bytes digest) 0 qs) \<le> length log" by (subst log) simp
  then have "length qs < 1000000" using frames_count [of digest 0 qs] len d by simp
  then have u: "length qs \<le> u64_max" by (simp add: u64_max_def)
  define p where "p = journal_log.position_after digest qs (recovered_from 0)"
  have p: "p = recovered_log digest qs False" unfolding p_def journal_position by (simp add: d recovered_from_def recovered_log_def)
  have f: "rc_sequence p = length qs" "rc_valid_bytes p = length (frames (record_bytes digest) 0 qs)" by (simp_all add: p recovered_log_def)
  have "recover_loop digest ?v log (recovered_from 0) () = recover_loop digest ?v log p ()"
    using journal_log.scan_frames [OF q(2), of "recovered_from 0" "[]" digest ?v "drop n log" "()"] u
    unfolding p_def d by (simp flip: log)
  then have lp: "recover_loop (padded digest) ?v log p () = Inr (r, ())" using loop d by simp
  have vb: "rc_valid_bytes p \<le> length log" unfolding f(2) using log by (metis le_add1 length_append)
  have dp: "drop (rc_valid_bytes p) log = drop n log" unfolding f(2) by (subst log) simp
  obtain ps tail where s: "drop n log = frames (record_bytes (padded digest)) (length qs) ps @ tail"
      "if tail = [] then r = journal_log.position_after digest ps p
       else r = (journal_log.position_after digest ps p)\<lparr>rc_incomplete_tail := True\<rparr> \<and>
         read_record (padded digest) (length qs + length ps) tail = Inr None"
    using journal_log.scan_sound [OF lp vb] unfolding dp f(1) by blast
  have "rc_sequence r = length qs + length ps \<and> (tail = [] \<or> rc_incomplete_tail r)"
    using s(2) f(1) by (auto simp: journal_position split: if_splits)
  then show ?thesis using s(1) q(3) by (auto simp: recovered_log_def)
qed

text \<open>
  a host starts from a checkpoint alone only when nothing of the journal is missing from it: when
  the inspection calls the checkpoint current, the checkpoint was taken at the journal's last record and
  covers all of its bytes, no intent is open, none was applied later, and no torn tail is there.
\<close>

theorem recovery_current_covers:
  assumes "\<forall>bs. length (host_digest host bs) = 32" "inspect_recovery host io co registry dir cp j = (Inr ip, j2)"
    and "ip_disposition ip = CheckpointCurrent"
  shows "\<exists>c. ip_checkpoint ip = Some c \<and> md_journal_sequence (cp_metadata c) = js_sequence (jn_store j) \<and>
    length (log_bytes dir) \<le> md_journal_bytes (cp_metadata c) \<and> \<not> js_incomplete_tail (jn_store j) \<and> \<not> unresolved (jn_state j) \<and>
    (case tx_applied (jn_state j) of None \<Rightarrow> True | Some i \<Rightarrow> ti_sequence i \<le> md_journal_sequence (cp_metadata c))"
proof -
  let ?d = "host_digest host"
  obtain found st where l: "load_checkpoint host io co (jn_instance j) registry dir cp (jn_store j) = (Inr found, st)"
      "ip_checkpoint ip = found" "ip_disposition ip = classify (j\<lparr>jn_store := st\<rparr>) found"
    using assms(2) by (auto simp: inspect_recovery_def Let_def split: prod.splits sum.splits)
  obtain log where g: "checkpoint_log ?d io dir (jn_store j) = (Inr log, st)" "load_checkpoint_from host co (jn_instance j) registry cp log = Inr found"
    using l(1) by (auto simp: load_checkpoint_def split: prod.splits sum.splits)
  obtain r where st: "st = jn_store j" "log = log_bytes dir"
    and r: "recover ?d log 0 = Inr r" "rc_sequence r = js_sequence (jn_store j)" "rc_incomplete_tail r = js_incomplete_tail (jn_store j)"
    using checkpoint_log_Inr [OF g(1)] by blast
  have cl: "classify j found = CheckpointCurrent" using l(3) assms(3) st(1) by simp
  then obtain c where c: "found = Some c" "\<not> js_incomplete_tail (jn_store j)" "\<not> unresolved (jn_state j)"
      "js_sequence (jn_store j) \<le> md_journal_sequence (cp_metadata c)"
      "case tx_applied (jn_state j) of None \<Rightarrow> True | Some i \<Rightarrow> ti_sequence i \<le> md_journal_sequence (cp_metadata c)"
    by (auto simp: classify_def split: if_splits option.splits)
  obtain bs where "checkpoint_decode host bs (jn_instance j) registry log = Inr c"
    using g(2) c(1) by (auto simp: load_checkpoint_from_def split: option.splits)
  then obtain s ob where "checkpoint_check host (cp_metadata c) s ob (jn_instance j) registry log = Inr c"
    using decode_exact [OF assms(1)] by blast
  then obtain q tx where q: "log_state ?d (take (md_journal_bytes (cp_metadata c)) log) (jn_instance j) = Inr (q, tx)"
      "\<not> rc_incomplete_tail q" "rc_sequence q = md_journal_sequence (cp_metadata c)"
    by (auto simp: checkpoint_check_def Let_def split: if_splits)
  then obtain expected where "recover_each ?d (log_visit expected) (take (md_journal_bytes (cp_metadata c)) log) 0 tx_default = Inr (q, tx)"
    by (auto simp: log_state_def split: if_splits)
  then have "recover ?d (take (md_journal_bytes (cp_metadata c)) log) 0 = Inr q" by (rule recover_same [OF padded_id [OF assms(1)]])
  from recover_prefix [OF padded_id [OF assms(1)] r(1) this q(2)]
  have "rc_sequence q \<le> rc_sequence r" "rc_sequence q = rc_sequence r \<Longrightarrow> \<not> rc_incomplete_tail r \<Longrightarrow> length log \<le> md_journal_bytes (cp_metadata c)"
    by auto
  then show ?thesis using c r q(3) l(2) st(2) by auto
qed

lemma cp_sample_inspect:
  assumes "checkpoint_encode cp_host ''a'' sample_registry (record_bytes zero_digest 1 sample_binding) cp_capture = Inr bs"
  shows "\<exists>ip. inspect_recovery cp_host sample_io cp_works sample_registry sample_opened (Some bs) sample_journal = (Inr ip, sample_journal) \<and>
    ip_disposition ip = CheckpointCurrent"
proof -
  have l: "log_state (host_digest cp_host) (record_bytes zero_digest 1 sample_binding @ []) ''a'' =
      Inr (recovered_log zero_digest [sample_binding] False, tx_default)"
    using cp_sample_log(2) by (simp add: cp_host_def)
  obtain m where m: "checkpoint_decode cp_host bs ''a'' sample_registry (record_bytes zero_digest 1 sample_binding) =
        Inr \<lparr>cp_metadata = m, cp_sources = cm_sources cp_committed, cp_observed = cc_observed cp_capture\<rparr>"
      "md_journal_sequence m = 1" "length bs \<le> cp_max_bytes"
    using checkpoint_decode_encode [OF cp_sample(5,1-4) assms l] l by (auto simp: recovered_log_def)
  have "length (record_bytes zero_digest 1 sample_binding) \<le> journal_max_log"
    using log_state_recovered [OF padded_id [OF zero_digest_length] cp_sample_log(2)] by simp
  then have "checkpoint_log zero_digest sample_io sample_opened (jn_store sample_journal) =
      (Inr (record_bytes zero_digest 1 sample_binding), jn_store sample_journal)"
    using cp_sample_recover
    by (simp add: checkpoint_log_def Let_def cp_sample_log(1) sample_io_def sample_journal_def store_of_def recovered_log_def)
  then have "load_checkpoint cp_host sample_io cp_works (jn_instance sample_journal) sample_registry sample_opened (Some bs) (jn_store sample_journal) =
      (Inr (Some \<lparr>cp_metadata = m, cp_sources = cm_sources cp_committed, cp_observed = cc_observed cp_capture\<rparr>), jn_store sample_journal)"
    using m by (simp add: load_checkpoint_def load_checkpoint_from_def checkpoint_bytes_def cp_works_def cp_host_def sample_journal_def)
  then show ?thesis using m(2)
    by (simp add: inspect_recovery_def Let_def classify_def sample_journal_def store_of_def unresolved_def tx_default_def)
qed

theorem recovery_current_covers_witness:
  "\<exists>bs ip c. inspect_recovery cp_host sample_io cp_works sample_registry sample_opened (Some bs) sample_journal = (Inr ip, sample_journal) \<and>
    ip_checkpoint ip = Some c \<and> md_journal_sequence (cp_metadata c) = 1"
proof -
  obtain bs where bs: "checkpoint_encode cp_host ''a'' sample_registry (record_bytes zero_digest 1 sample_binding) cp_capture = Inr bs"
    using cp_encode by blast
  obtain ip where ip: "inspect_recovery cp_host sample_io cp_works sample_registry sample_opened (Some bs) sample_journal = (Inr ip, sample_journal)"
      "ip_disposition ip = CheckpointCurrent"
    using cp_sample_inspect [OF bs] by blast
  from recovery_current_covers [OF cp_sample(5) ip] ip(1) show ?thesis by (fastforce simp: sample_journal_def store_of_def)
qed

subsection \<open>The writer stops at the first doubt\<close>

text \<open>The runtime of a captured generation plays no part in any of these calls; it is the unit type here.\<close>

inductive writer_step :: "'c host \<Rightarrow> 'c registry \<Rightarrow> bytes option \<times> checkpoint_writer \<Rightarrow> bytes option \<times> checkpoint_writer \<Rightarrow> bool"
  for host :: "'c host" and registry :: "'c registry" where
  writer_saves: "writer_save host io co registry (capture :: ('c, unit) configuration_capture) dir cp w = (res, cp2, w2) \<Longrightarrow> writer_step host registry (cp, w) (cp2, w2)"
| writer_binds: "writer_bind owner w = (res, w2) \<Longrightarrow> writer_step host registry (cp, w) (cp, w2)"
| writer_confirms: "confirm_recovery (host_digest host) (capture :: ('c, unit) configuration_capture) w = (res, w2) \<Longrightarrow> writer_step host registry (cp, w) (cp, w2)"
| writer_reserves: "reserve_recovery (host_digest host) owner serving observed w = (res, w2) \<Longrightarrow> writer_step host registry (cp, w) (cp, w2)"
| writer_gives_up: "writer_step host registry (cp, w) (cp, require_reconciliation w)"

definition writer_rel :: "bytes option \<times> checkpoint_writer \<Rightarrow> bytes option \<times> checkpoint_writer \<Rightarrow> bool" where
  "writer_rel s t \<longleftrightarrow>
     (cw_failed (snd s) \<longrightarrow> fst t = fst s \<and> cw_failed (snd t)) \<and>
     (cw_owner (snd s) \<noteq> None \<longrightarrow> cw_owner (snd t) = cw_owner (snd s)) \<and>
     (cw_recovery (snd t) \<noteq> None \<longrightarrow> fst t = fst s \<and> cw_recovery (snd t) = cw_recovery (snd s))"

lemma bind_rel: "writer_bind owner w = (res, w2) \<Longrightarrow>
    w2 = w \<and> res \<noteq> Inr () \<or> res = Inr () \<and> w2 = w\<lparr>cw_owner := Some owner\<rparr> \<and> \<not> owned_by_other owner w \<and> \<not> cw_failed w \<and> cw_recovery w = None"
  by (cases "cw_recovery w") (auto simp: writer_bind_def writer_ensure_ready_def split: if_splits)

lemma writer_step_rel: "writer_step host registry s t \<Longrightarrow> writer_rel s t"
proof (induction rule: writer_step.induct)
  case (writer_saves io co capture dir cp w res cp2 w2)
  obtain r1 w1 where b: "writer_bind (vs_boot_id (cc_version capture)) w = (r1, w1)" by fastforce
  show ?case
  proof (cases r1)
    case (Inl e)
    then have "cp2 = cp" "w2 = w" using writer_saves b bind_rel [OF b] by (auto simp: writer_save_def)
    then show ?thesis by (simp add: writer_rel_def)
  next
    case (Inr u)
    then have w1: "w1 = w\<lparr>cw_owner := Some (vs_boot_id (cc_version capture))\<rparr>" "\<not> owned_by_other (vs_boot_id (cc_version capture)) w"
        "\<not> cw_failed w" "cw_recovery w = None"
      using bind_rel [OF b] by auto
    have "cw_owner w2 = cw_owner w1 \<and> cw_recovery w2 = cw_recovery w1"
      using writer_saves b Inr by (auto simp: writer_save_def Let_def split: prod.splits sum.splits)
    then show ?thesis using w1 by (auto simp: writer_rel_def owned_by_other_def split: option.splits)
  qed
next
  case (writer_binds owner w res w2 cp)
  then show ?case using bind_rel [OF writer_binds]
    by (auto simp: writer_rel_def owned_by_other_def split: option.splits)
next
  case (writer_confirms capture w res w2 cp)
  then show ?case
    by (auto simp: writer_rel_def confirm_recovery_def owned_by_other_def split: if_splits option.splits sum.splits)
next
  case (writer_reserves owner serving observed w res w2 cp)
  then show ?case
    by (auto simp: writer_rel_def reserve_recovery_def verify_recovery_sources_def owned_by_other_def split: if_splits option.splits sum.splits)
next
  case (writer_gives_up cp w)
  then show ?case by (simp add: writer_rel_def require_reconciliation_def)
qed

interpretation writers: invariant_system "writer_step host registry" "\<lambda>_. True" for host registry
  by unfold_locales simp

text \<open>
  a checkpoint writer never writes past a doubt: along every sequence of its calls, once it has
  failed it stays failed and the checkpoint file keeps every byte; while a recovery is unconfirmed the
  file is untouched and what must be confirmed does not change; and a writer that belongs to one host
  lifetime never passes to another.
\<close>

theorem writer_fail_stop:
  assumes "(writer_step host registry)\<^sup>*\<^sup>* (cp, w) (cp2, w2)"
  shows "(cw_failed w \<longrightarrow> cp2 = cp \<and> cw_failed w2) \<and> (cw_owner w \<noteq> None \<longrightarrow> cw_owner w2 = cw_owner w) \<and>
    (cw_recovery w2 \<noteq> None \<longrightarrow> cp2 = cp \<and> cw_recovery w2 = cw_recovery w)"
proof -
  have "writer_rel (cp, w) (cp2, w2)"
  proof (rule writers.relation_run [OF assms])
    show "writer_rel a c" if "writer_rel a b" "writer_rel b c" for a b c
      using that unfolding writer_rel_def by metis
  qed (auto simp: writer_rel_def dest: writer_step_rel)
  then show ?thesis by (simp add: writer_rel_def)
qed

theorem writer_fail_stop_witness:
  "\<exists>w2. (writer_step cp_host sample_registry)\<^sup>*\<^sup>* (None, \<lparr>cw_journal = sample_journal, cw_failed = False, cw_owner = Some ''me'', cw_recovery = None\<rparr>)
      (None, w2) \<and> cw_failed w2 \<and> cw_owner w2 = Some ''me''"
proof -
  let ?w = "\<lparr>cw_journal = sample_journal, cw_failed = False, cw_owner = Some ''me'', cw_recovery = None\<rparr>"
  have r: "(writer_step cp_host sample_registry)\<^sup>*\<^sup>* (None, ?w) (None, require_reconciliation ?w)"
    using writer_gives_up by (rule r_into_rtranclp)
  show ?thesis using writer_fail_stop [OF r] r by (intro exI [of _ "require_reconciliation ?w"]) (simp add: require_reconciliation_def)
qed

end
