(* ===== verification/Big_Endian.thy ===== *)
theory Big_Endian
  imports Identity
begin

text \<open>Big-endian integers, as FastCGI and the PROXY protocol write them.\<close>

definition be_bytes :: "nat \<Rightarrow> nat \<Rightarrow> bytes" where
  "be_bytes k n = rev (le_bytes k n)"

definition be_value :: "bytes \<Rightarrow> nat" where
  "be_value s = le_value (rev s)"

lemma length_be_bytes [simp]: "length (be_bytes k n) = k"
  by (simp add: be_bytes_def)

lemma be_value_bytes [codec_simps]: "be_value (be_bytes k n) = n mod 256 ^ k"
  by (simp add: be_bytes_def be_value_def codec_simps)

lemma be_value_two: "be_value [a, b] = code a * 256 + code b"
  by (simp add: be_value_def)

lemma be_bytes_two: "be_bytes 2 n = [char_of (n div 256 mod 256), char_of (n mod 256)]"
  by (simp add: be_bytes_def numeral_2_eq_2)

lemma be_bytes_four: "be_bytes 4 n = [char_of (n div 256 div 256 div 256 mod 256), char_of (n div 256 div 256 mod 256),
    char_of (n div 256 mod 256), char_of (n mod 256)]"
proof -
  have "(4 :: nat) = Suc (Suc (Suc (Suc 0)))" by simp
  then show ?thesis by (simp only: be_bytes_def le_bytes.simps) simp
qed

end
