(* ===== verification/Cgi_Protocol.thy ===== *)
theory Cgi_Protocol
  imports Headers Big_Endian Ordered_Maps
begin

unbundle bit_operations_syntax

text \<open>
  The CGI building blocks of \<open>gatel-cgi-protocol\<close>: the explicit environment (\<open>environment.rs\<close>), FastCGI
  records and the responder's event machine (\<open>fastcgi.rs\<close>), SCGI request headers (\<open>scgi.rs\<close>) and the
  incremental parser of a CGI response head (\<open>head.rs\<close>).

  A \<open>usize\<close> is a 64-bit number. What the \<open>http\<close> crate decides is a parameter: the record \<open>http_crate\<close>
  extended with the bytes \<open>HeaderValue::from_bytes\<close> takes and with what parsing a \<open>Uri\<close> says of its
  scheme.
\<close>

subsection \<open>Errors\<close>

datatype cgi_error =
  CgiLimit | InvalidEnvironment | DuplicateEnvironment | InvalidHeader | DuplicateHeader | InvalidStatus
| UnsupportedLocalRedirect | BadRecord | UnexpectedRecord | StreamClosed | IncompleteResponse
| BackendRejected | BodyLengthError

subsection \<open>The environment\<close>

record environment =
  env_values :: "(bytes, bytes) btree"
  env_bytes :: nat
  env_limit :: nat

definition env_max_bytes :: nat where "env_max_bytes = 1024 * 1024"

definition env_new :: "nat \<Rightarrow> environment" where
  "env_new limit = \<lparr>env_values = [], env_bytes = 0, env_limit = min limit env_max_bytes\<rparr>"

definition env_insert :: "bytes \<Rightarrow> bytes \<Rightarrow> environment \<Rightarrow> cgi_error + environment" where
  "env_insert name v env =
     (if name = [] \<or> \<not> list_all (\<lambda>b. is_ascii_upper b \<or> is_ascii_digit b \<or> b = CHR ''_'') name \<or>
         is_ascii_digit (hd name) \<or> CHR 0x00 \<in> set v then Inl InvalidEnvironment
      else if bt_get name (env_values env) \<noteq> None then Inl DuplicateEnvironment
      else and_then (ok_or CgiLimit (Option.bind (checked_add u64_max (length name) (length v))
                                       (\<lambda>n. checked_add u64_max n 2))) (\<lambda>added.
           and_then (ok_or CgiLimit (checked_add u64_max (env_bytes env) added)) (\<lambda>total.
             if env_limit env < total then Inl CgiLimit
             else Inr (env\<lparr>env_values := bt_insert name v (env_values env), env_bytes := total\<rparr>))))"

definition env_iter :: "environment \<Rightarrow> (bytes \<times> bytes) list" where
  "env_iter env = env_values env"

text \<open>
  \<open>replace_existing\<close> subtracts the old length from the account; \<open>env_ok\<close> below shows that it never
  goes below zero.
\<close>

definition replace_existing :: "bytes \<Rightarrow> bytes \<Rightarrow> environment \<Rightarrow> cgi_error + environment" where
  "replace_existing name v env =
     (if CHR 0x00 \<in> set v then Inl InvalidEnvironment
      else and_then (ok_or InvalidEnvironment (bt_get name (env_values env))) (\<lambda>previous.
           and_then (ok_or CgiLimit (checked_add u64_max (env_bytes env - length previous) (length v))) (\<lambda>total.
             if env_limit env < total then Inl CgiLimit
             else Inr (env\<lparr>env_values := bt_insert name v (env_values env), env_bytes := total\<rparr>))))"

subsection \<open>FastCGI records\<close>

abbreviation fcgi_BEGIN :: byte where "fcgi_BEGIN \<equiv> CHR 0x01"
abbreviation fcgi_END :: byte where "fcgi_END \<equiv> CHR 0x03"
abbreviation fcgi_PARAMS :: byte where "fcgi_PARAMS \<equiv> CHR 0x04"
abbreviation fcgi_STDIN :: byte where "fcgi_STDIN \<equiv> CHR 0x05"
abbreviation fcgi_STDOUT :: byte where "fcgi_STDOUT \<equiv> CHR 0x06"
abbreviation fcgi_STDERR :: byte where "fcgi_STDERR \<equiv> CHR 0x07"

definition fcgi_REQUEST :: nat where "fcgi_REQUEST = 1"

record fcgi_record =
  fr_kind :: byte
  fr_request :: nat
  fr_body :: bytes

definition fcgi_decode :: "bytes \<Rightarrow> cgi_error + (fcgi_record \<times> nat) option" where
  "fcgi_decode input =
     (if length input < 8 then Inr None
      else if input ! 0 \<noteq> CHR 0x01 then Inl BadRecord
      else let len = be_value [input ! 4, input ! 5];
               end = 8 + len + code (input ! 6) in
        if length input < end then Inr None
        else Inr (Some (\<lparr>fr_kind = input ! 1, fr_request = be_value [input ! 2, input ! 3],
                         fr_body = take len (drop 8 input)\<rparr>, end)))"

definition fcgi_encode :: "byte \<Rightarrow> bytes \<Rightarrow> cgi_error + bytes" where
  "fcgi_encode kind body =
     (if u16_max < length body then Inl CgiLimit
      else Inr ([CHR 0x01, kind, CHR 0x00, CHR 0x01] @ be_bytes 2 (length body) @ [CHR 0x00, CHR 0x00] @ body))"

text \<open>\<open>begin\<close> unwraps the record of eight bytes.\<close>

definition fcgi_begin :: bytes where
  "fcgi_begin = (case fcgi_encode fcgi_BEGIN ([CHR 0x00, CHR 0x01] @ replicate 6 (CHR 0x00)) of
                   Inr bs \<Rightarrow> bs | Inl _ \<Rightarrow> [])"

definition fcgi_length :: "nat \<Rightarrow> cgi_error + bytes" where
  "fcgi_length n =
     (if u32_max < n then Inl CgiLimit
      else if 0x7fffffff < n then Inl CgiLimit
      else if n < 128 then Inr [char_of n]
      else Inr (be_bytes 4 (n OR 0x80000000)))"

fun params_stream :: "(bytes \<times> bytes) list \<Rightarrow> cgi_error + bytes" where
  "params_stream [] = Inr []"
| "params_stream ((name, v) # es) =
     and_then (fcgi_length (length name)) (\<lambda>a.
     and_then (fcgi_length (length v)) (\<lambda>b.
     and_then (params_stream es) (\<lambda>r. Inr (a @ b @ name @ v @ r))))"

function chunks :: "nat \<Rightarrow> 'a list \<Rightarrow> 'a list list" where
  "chunks k xs = (if k = 0 \<or> xs = [] then [] else take k xs # chunks k (drop k xs))"
  by pat_completeness auto
termination
  by (relation "measure (\<lambda>(k, xs). length xs)") auto

declare chunks.simps [simp del]

fun encode_chunks :: "bytes list \<Rightarrow> cgi_error + bytes" where
  "encode_chunks [] = fcgi_encode fcgi_PARAMS []"
| "encode_chunks (c # cs) =
     and_then (fcgi_encode fcgi_PARAMS c) (\<lambda>a. and_then (encode_chunks cs) (\<lambda>r. Inr (a @ r)))"

definition fcgi_params :: "environment \<Rightarrow> cgi_error + bytes" where
  "fcgi_params env = and_then (params_stream (env_iter env)) (\<lambda>s. encode_chunks (chunks u16_max s))"

subsection \<open>The responder\<close>

datatype fcgi_event = Stdout bytes | Stderr bytes | Complete nat

record responder =
  rp_stdout_closed :: bool
  rp_stderr_closed :: bool
  rp_ended :: bool
  rp_stderr_bytes :: nat
  rp_stderr_limit :: nat

definition responder_new :: "nat \<Rightarrow> responder" where
  "responder_new limit = \<lparr>rp_stdout_closed = False, rp_stderr_closed = False, rp_ended = False,
                          rp_stderr_bytes = 0, rp_stderr_limit = limit\<rparr>"

definition responder_accept :: "fcgi_record \<Rightarrow> responder \<Rightarrow> (cgi_error + fcgi_event) \<times> responder" where
  "responder_accept r rp =
     (if rp_ended rp then (Inl StreamClosed, rp)
      else if fr_request r \<noteq> fcgi_REQUEST then (Inl UnexpectedRecord, rp)
      else if fr_kind r = fcgi_STDOUT then
        if rp_stdout_closed rp then (Inl StreamClosed, rp)
        else (Inr (Stdout (fr_body r)), rp\<lparr>rp_stdout_closed := (fr_body r = [])\<rparr>)
      else if fr_kind r = fcgi_STDERR then
        if rp_stderr_closed rp then (Inl StreamClosed, rp)
        else case checked_add u64_max (rp_stderr_bytes rp) (length (fr_body r)) of
            None \<Rightarrow> (Inl CgiLimit, rp)
          | Some n \<Rightarrow>
              if rp_stderr_limit rp < n then (Inl CgiLimit, rp)
              else (Inr (Stderr (fr_body r)),
                    rp\<lparr>rp_stderr_bytes := n, rp_stderr_closed := (fr_body r = [])\<rparr>)
      else if fr_kind r = fcgi_END then
        if length (fr_body r) \<noteq> 8 then (Inl BadRecord, rp)
        else if fr_body r ! 4 \<noteq> CHR 0x00 then (Inl BackendRejected, rp)
        else (Inr (Complete (be_value (take 4 (fr_body r)))),
              rp\<lparr>rp_stdout_closed := True, rp_stderr_closed := True, rp_ended := True\<rparr>)
      else (Inl UnexpectedRecord, rp))"

definition responder_eof :: "responder \<Rightarrow> cgi_error + unit" where
  "responder_eof rp = (if rp_ended rp then Inr () else Inl IncompleteResponse)"

subsection \<open>SCGI request headers\<close>

text \<open>The checked decimal fold over the digits of \<open>CONTENT_LENGTH\<close>.\<close>

fun checked_decimal :: "nat \<Rightarrow> bytes \<Rightarrow> nat option" where
  "checked_decimal n [] = Some n"
| "checked_decimal n (b # s) =
     Option.bind (checked_mul u64_max n 10) (\<lambda>m.
     Option.bind (checked_add u64_max m (digit_val b)) (\<lambda>k. checked_decimal k s))"

fun scgi_scan :: "nat \<Rightarrow> (bytes \<times> bytes) list \<Rightarrow> bytes option \<times> nat \<Rightarrow> cgi_error + bytes option \<times> nat" where
  "scgi_scan body_length [] st = Inr st"
| "scgi_scan body_length ((name, v) # es) (content_length, sz) =
     (if name = ''SCGI'' then
        if v \<noteq> ''1'' then Inl InvalidEnvironment else scgi_scan body_length es (content_length, sz)
      else
        and_then
          (if name = ''CONTENT_LENGTH'' then
             if v = [] \<or> \<not> list_all is_ascii_digit v then Inl InvalidEnvironment
             else and_then (ok_or BodyLengthError (checked_decimal 0 v)) (\<lambda>len.
               if len \<noteq> body_length then Inl BodyLengthError else Inr (Some v))
           else Inr content_length) (\<lambda>content_length.
        and_then (ok_or CgiLimit (Option.bind (checked_add u64_max sz (length name)) (\<lambda>n.
                                  Option.bind (checked_add u64_max n (length v)) (\<lambda>n.
                                  checked_add u64_max n 2)))) (\<lambda>sz.
          scgi_scan body_length es (content_length, sz))))"

definition scgi_pair :: "bytes \<Rightarrow> bytes \<Rightarrow> bytes" where
  "scgi_pair name v = name @ [CHR 0x00] @ v @ [CHR 0x00]"

definition scgi_headers :: "environment \<Rightarrow> nat \<Rightarrow> nat \<Rightarrow> cgi_error + bytes" where
  "scgi_headers env body_length max_headers =
     and_then (scgi_scan body_length (env_iter env) (None, 7)) (\<lambda>(content_length, sz).
     and_then (ok_or InvalidEnvironment content_length) (\<lambda>content_length.
       if min max_headers env_max_bytes < sz then Inl CgiLimit
       else Inr (show_nat sz @ '':'' @ scgi_pair ''CONTENT_LENGTH'' content_length @ scgi_pair ''SCGI'' ''1'' @
                 concat (map (\<lambda>(name, v). scgi_pair name v)
                   (filter (\<lambda>(name, _). name \<noteq> ''CONTENT_LENGTH'' \<and> name \<noteq> ''SCGI'') (env_iter env))) @
                 '','')))"

subsection \<open>Response heads\<close>

record cgi_http = http_crate +
  bytes_valid :: "bytes \<Rightarrow> bool"
  uri_scheme :: "bytes \<Rightarrow> bool option"

record cgi_head =
  ch_status :: nat
  ch_headers :: header_map
  ch_content_length :: "nat option"

text \<open>What the lines before have given: headers, status, content length.\<close>

record head_lines =
  hl_headers :: header_map
  hl_status :: "nat option"
  hl_content_length :: "nat option"

definition framing_names :: "bytes list" where
  "framing_names = [''connection'', ''transfer-encoding'', ''keep-alive'', ''upgrade'', ''trailer'', ''te'',
     ''proxy-connection'', ''proxy-authenticate'', ''proxy-authorization'']"

definition parse_status :: "cgi_http \<Rightarrow> bytes \<Rightarrow> cgi_error + nat" where
  "parse_status http v =
     (if length v < 3 \<or> \<not> list_all is_ascii_digit (take 3 v) \<or> (3 < length v \<and> v ! 3 \<noteq> CHR 0x20) \<or>
         \<not> bytes_valid http v then Inl InvalidStatus
      else let status = dec_value (take 3 v) in
        if status < 200 \<or> 599 < status then Inl InvalidStatus else Inr status)"

definition parse_head_line :: "cgi_http \<Rightarrow> bytes \<Rightarrow> head_lines \<Rightarrow> cgi_error + head_lines" where
  "parse_head_line http line st =
     (if list_ex (\<lambda>b. is_ascii_control b \<and> b \<noteq> CHR 0x09) line then Inl InvalidHeader
      else if is_ascii_whitespace (hd line) then Inl InvalidHeader
      else and_then (ok_or InvalidHeader (split_once (CHR 0x3A) line)) (\<lambda>(raw_name, raw_value).
        if \<not> name_valid http raw_name then Inl InvalidHeader
        else let name = to_ascii_lowercase raw_name; v = trim_ascii raw_value in
          if name \<in> set framing_names then Inl InvalidHeader
          else if name = ''status'' then
            if hl_status st \<noteq> None then Inl DuplicateHeader
            else and_then (parse_status http v) (\<lambda>s. Inr (st\<lparr>hl_status := Some s\<rparr>))
          else if name \<in> {''content-length'', ''content-type'', ''location''} \<and> contains_key name (hl_headers st)
            then Inl DuplicateHeader
          else and_then
            (if name = ''content-length'' then
               if v = [] \<or> \<not> list_all is_ascii_digit v then Inl InvalidHeader
               else and_then (ok_or InvalidHeader (parse_unsigned u64_max v)) (\<lambda>n.
                 Inr (st\<lparr>hl_content_length := Some n\<rparr>))
             else Inr st) (\<lambda>st.
            if \<not> bytes_valid http v then Inl InvalidHeader
            else Inr (st\<lparr>hl_headers := append_header name v (hl_headers st)\<rparr>))))"

fun parse_head_lines :: "cgi_http \<Rightarrow> bytes list \<Rightarrow> head_lines \<Rightarrow> cgi_error + head_lines" where
  "parse_head_lines http [] st = Inr st"
| "parse_head_lines http (raw # ls) st =
     (let line = (case strip_suffix [CHR 0x0D] raw of Some l \<Rightarrow> l | None \<Rightarrow> raw) in
      if line = [] then Inr st
      else and_then (parse_head_line http line st) (parse_head_lines http ls))"

definition default_status :: "cgi_http \<Rightarrow> head_lines \<Rightarrow> cgi_error + nat" where
  "default_status http st =
     (case (hl_status st, get_header ''location'' (hl_headers st)) of
        (Some s, _) \<Rightarrow> Inr s
      | (None, None) \<Rightarrow> Inr 200
      | (None, Some location) \<Rightarrow>
          if starts_with ''/'' location then Inl UnsupportedLocalRedirect
          else and_then (ok_or InvalidHeader (Option.bind (value_str http location) (uri_scheme http)))
            (\<lambda>schemed. if schemed then Inr 302 else Inl InvalidHeader))"

definition parse_head :: "cgi_http \<Rightarrow> bytes \<Rightarrow> cgi_error + cgi_head" where
  "parse_head http bs =
     and_then (parse_head_lines http (split_at (CHR 0x0A) bs)
       \<lparr>hl_headers = [], hl_status = None, hl_content_length = None\<rparr>) (\<lambda>st.
     and_then (default_status http st) (\<lambda>status.
       if status = 204 \<and> hl_content_length st \<noteq> None then Inl InvalidHeader
       else if \<not> contains_key ''content-type'' (hl_headers st) \<and> \<not> contains_key ''location'' (hl_headers st) \<and>
               status \<noteq> 204 \<and> status \<noteq> 304 then Inl InvalidHeader
       else Inr \<lparr>ch_status = status, ch_headers = hl_headers st, ch_content_length = hl_content_length st\<rparr>))"

record head_decoder =
  hd_bytes :: bytes
  hd_limit :: nat
  hd_finished :: bool

definition head_max_bytes :: nat where "head_max_bytes = 64 * 1024"

definition decoder_new :: "nat \<Rightarrow> head_decoder" where
  "decoder_new limit = \<lparr>hd_bytes = [], hd_limit = min limit head_max_bytes, hd_finished = False\<rparr>"

definition head_ends :: "bytes \<Rightarrow> bool" where
  "head_ends bs \<longleftrightarrow> ends_with [CHR 0x0D, CHR 0x0A, CHR 0x0D, CHR 0x0A] bs \<or> ends_with [CHR 0x0A, CHR 0x0A] bs"

text \<open>The loop of \<open>feed\<close>, with the index of the next byte.\<close>

fun feed_from :: "cgi_http \<Rightarrow> nat \<Rightarrow> bytes \<Rightarrow> head_decoder \<Rightarrow> (cgi_error + nat \<times> cgi_head option) \<times> head_decoder" where
  "feed_from http i [] d = (Inr (i, None), d)"
| "feed_from http i (b # input) d =
     (if length (hd_bytes d) = hd_limit d then (Inl CgiLimit, d)
      else let d = d\<lparr>hd_bytes := hd_bytes d @ [b]\<rparr> in
        if head_ends (hd_bytes d) then
          case parse_head http (hd_bytes d) of
            Inl e \<Rightarrow> (Inl e, d)
          | Inr h \<Rightarrow> (Inr (i + 1, Some h), d\<lparr>hd_finished := True\<rparr>)
        else feed_from http (i + 1) input d)"

definition feed :: "cgi_http \<Rightarrow> bytes \<Rightarrow> head_decoder \<Rightarrow> (cgi_error + nat \<times> cgi_head option) \<times> head_decoder" where
  "feed http input d = (if hd_finished d then (Inl StreamClosed, d) else feed_from http 0 input d)"

definition decoder_eof :: "head_decoder \<Rightarrow> cgi_error + unit" where
  "decoder_eof d = (if hd_finished d then Inr () else Inl IncompleteResponse)"

subsection \<open>The length of a response body\<close>

record body_length =
  bl_expected :: "nat option"
  bl_received :: nat

definition body_length_new :: "cgi_head \<Rightarrow> bool \<Rightarrow> body_length" where
  "body_length_new h is_head_request =
     (let no_body = (is_head_request \<or> ch_status h = 204 \<or> ch_status h = 304) in
      \<lparr>bl_expected = (if no_body then Some 0 else ch_content_length h), bl_received = 0\<rparr>)"

definition body_observe :: "nat \<Rightarrow> body_length \<Rightarrow> cgi_error + body_length" where
  "body_observe n bl =
     and_then (ok_or BodyLengthError (checked_add u64_max (bl_received bl) n)) (\<lambda>total.
       if (case bl_expected bl of None \<Rightarrow> False | Some e \<Rightarrow> e < total) then Inl BodyLengthError
       else Inr (bl\<lparr>bl_received := total\<rparr>))"

definition body_finish :: "body_length \<Rightarrow> cgi_error + unit" where
  "body_finish bl =
     (if (case bl_expected bl of None \<Rightarrow> False | Some e \<Rightarrow> e \<noteq> bl_received bl) then Inl BodyLengthError
      else Inr ())"

subsection \<open>The environment keeps its account\<close>

definition entry_size :: "bytes \<times> bytes \<Rightarrow> nat" where
  "entry_size e = length (fst e) + length (snd e) + 2"

definition entry_ok :: "bytes \<times> bytes \<Rightarrow> bool" where
  "entry_ok e \<longleftrightarrow> fst e \<noteq> [] \<and> list_all (\<lambda>b. is_ascii_upper b \<or> is_ascii_digit b \<or> b = CHR ''_'') (fst e) \<and>
     \<not> is_ascii_digit (hd (fst e)) \<and> CHR 0x00 \<notin> set (snd e)"

definition env_ok :: "environment \<Rightarrow> bool" where
  "env_ok env \<longleftrightarrow> bt_ok (env_values env) \<and> list_all entry_ok (env_values env) \<and>
     env_bytes env = sum_list (map entry_size (env_values env)) \<and>
     env_bytes env \<le> env_limit env \<and> env_limit env \<le> env_max_bytes"

lemma bt_insert_fresh_sum:
  fixes f :: "'k::linorder \<times> 'v \<Rightarrow> nat"
  shows "bt_get k m = None \<Longrightarrow> sum_list (map f (bt_insert k v m)) = f (k, v) + sum_list (map f m)"
  by (induction k v m rule: bt_insert.induct) (auto simp: bt_get_Cons split: if_splits)

lemma bt_insert_present_sum:
  fixes f :: "'k::linorder \<times> 'v \<Rightarrow> nat"
  shows "bt_ok m \<Longrightarrow> bt_get k m = Some u \<Longrightarrow>
    sum_list (map f (bt_insert k v m)) + f (k, u) = f (k, v) + sum_list (map f m)"
proof (induction k v m rule: bt_insert.induct)
  case (2 k v j w m)
  show ?case
  proof (cases "k < j")
    case True
    then have "k \<notin> fst ` set ((j, w) # m)" using 2(2) by (auto simp: bt_ok_Cons)
    then show ?thesis using 2(3) by (simp only: bt_get_None [symmetric] option.distinct)
  next
    case False
    with 2 show ?thesis by (auto simp: bt_ok_Cons bt_get_Cons split: if_splits)
  qed
qed simp

lemma list_all_bt_insert:
  "list_all P m \<Longrightarrow> P (k, v) \<Longrightarrow> list_all P (bt_insert k v m)"
  by (induction k v m rule: bt_insert.induct) auto

lemma env_new_ok: "env_ok (env_new limit)"
  by (simp add: env_ok_def env_new_def)

lemma env_insert_ok:
  assumes "env_ok env" and "env_insert name v env = Inr env'"
  shows "env_ok env'" and "bt_get name (env_values env') = Some v"
    and "\<And>k. k \<noteq> name \<Longrightarrow> bt_get k (env_values env') = bt_get k (env_values env)"
  using assms bt_insert_fresh_sum [of name "env_values env" entry_size v]
  by (auto simp: env_insert_def env_ok_def entry_ok_def entry_size_def checked_add_Some bind_eq_Some_conv
      list_all_bt_insert split: if_splits)

lemma env_insert_fits:
  assumes "env_ok env" and "entry_ok (name, v)" and "bt_get name (env_values env) = None"
  shows "env_insert name v env =
    (if env_bytes env + entry_size (name, v) \<le> env_limit env
     then Inr (env\<lparr>env_values := bt_insert name v (env_values env), env_bytes := env_bytes env + entry_size (name, v)\<rparr>)
     else Inl CgiLimit)"
  using assms by (auto simp: env_insert_def env_ok_def entry_ok_def entry_size_def checked_add_def
      ok_or_def env_max_bytes_def u64_max_def)

lemma bt_insert_present_keys: "bt_ok m \<Longrightarrow> bt_get k m = Some u \<Longrightarrow> map fst (bt_insert k v m) = map fst m"
  by (induction k v m rule: bt_insert.induct) (auto simp: bt_get_Cons bt_ok_Cons bt_get_def split: if_splits dest!: map_of_SomeD)

lemma replace_existing_ok:
  assumes ok: "env_ok env" and got: "replace_existing name v env = Inr env'"
  shows "env_ok env'" and "map fst (env_values env') = map fst (env_values env)"
    and "bt_get name (env_values env') = Some v"
    and "\<And>k. k \<noteq> name \<Longrightarrow> bt_get k (env_values env') = bt_get k (env_values env)"
proof -
  obtain u where u: "bt_get name (env_values env) = Some u"
    using got by (auto simp: replace_existing_def split: if_splits)
  then have "entry_ok (name, u)" using ok bt_get_in [OF u] by (auto simp: env_ok_def list_all_iff)
  moreover have "entry_size (name, u) \<le> sum_list (map entry_size (env_values env))"
    by (rule member_le_sum_list) (use bt_get_in [OF u] in auto)
  then have "length u \<le> env_bytes env" using ok by (simp add: env_ok_def entry_size_def)
  moreover have "sum_list (map entry_size (bt_insert name v (env_values env))) + length u =
      length v + sum_list (map entry_size (env_values env))"
    using bt_insert_present_sum [OF _ u, of entry_size v] ok by (simp add: env_ok_def entry_size_def)
  ultimately show "env_ok env'"
    using ok got u by (auto simp: replace_existing_def env_ok_def entry_ok_def checked_add_Some
        list_all_bt_insert split: if_splits)
  show "map fst (env_values env') = map fst (env_values env)" "bt_get name (env_values env') = Some v"
    "\<And>k. k \<noteq> name \<Longrightarrow> bt_get k (env_values env') = bt_get k (env_values env)"
    using ok got u bt_insert_present_keys [OF _ u]
    by (auto simp: replace_existing_def env_ok_def checked_add_Some split: if_splits)
qed

subsection \<open>FastCGI framing\<close>

lemma fcgi_encode_Inr: "(\<exists>bs. fcgi_encode kind body = Inr bs) \<longleftrightarrow> length body \<le> u16_max"
  by (auto simp: fcgi_encode_def)

lemma fcgi_decode_encode:
  assumes "fcgi_encode kind body = Inr bs"
  shows "fcgi_decode (bs @ rest) =
    Inr (Some (\<lparr>fr_kind = kind, fr_request = fcgi_REQUEST, fr_body = body\<rparr>, length bs))"
proof -
  have n: "length body div 256 mod 256 * 256 + length body mod 256 = length body"
    using assms by (simp add: fcgi_encode_def u16_max_def split: if_splits)
  show ?thesis using assms n
    by (auto simp: fcgi_encode_def fcgi_decode_def be_bytes_two be_value_two code_char_of fcgi_REQUEST_def
        Let_def split: if_splits)
qed

text \<open>More input never changes a decision that was made.\<close>

lemma fcgi_decode_stable:
  "fcgi_decode s = Inl e \<Longrightarrow> fcgi_decode (s @ t) = Inl e"
  "fcgi_decode s = Inr (Some (r, n)) \<Longrightarrow>
    8 \<le> n \<and> n \<le> length s \<and> fcgi_decode (s @ t) = Inr (Some (r, n)) \<and> fcgi_decode (take n s) = Inr (Some (r, n))"
  by (auto simp: fcgi_decode_def nth_append Let_def take_drop split: if_splits)

lemma fcgi_decode_consumes: "fcgi_decode s = Inr (Some (r, n)) \<Longrightarrow> 8 \<le> n \<and> n \<le> length s"
  using fcgi_decode_stable(2) by blast

lemma fcgi_length_or:
  fixes n :: nat
  assumes "n < 2 ^ 31"
  shows "n OR 0x80000000 = n + 0x80000000"
proof -
  have "\<not> bit n 31" using assms by (simp add: bit_iff_odd)
  then have "n AND 2 ^ 31 = 0" by (intro bit_eqI) (auto simp: bit_and_iff bit_exp_iff simp del: power_numeral)
  from disjunctive_add_eq_or [OF this] show ?thesis by simp
qed

text \<open>A reader of parameter streams as the FastCGI specification describes them.\<close>

definition read_length :: "bytes \<Rightarrow> (nat \<times> bytes) option" where
  "read_length s =
     (case s of [] \<Rightarrow> None
      | b # r \<Rightarrow> if code b < 128 then Some (code b, r)
                 else if length s < 4 then None
                 else Some (be_value (take 4 s) - 0x80000000, drop 4 s))"

definition read_pair :: "bytes \<Rightarrow> ((bytes \<times> bytes) \<times> bytes) option" where
  "read_pair s =
     Option.bind (read_length s) (\<lambda>(n, s). Option.bind (read_length s) (\<lambda>(k, s).
       if length s < n + k then None else Some ((take n s, take k (drop n s)), drop (n + k) s)))"

lemma read_length_shorter: "read_length s = Some (n, r) \<Longrightarrow> length r < length s"
  by (auto simp: read_length_def split: list.splits if_splits)

lemma read_pair_shorter: "read_pair s = Some (e, r) \<Longrightarrow> length r < length s"
  by (auto simp: read_pair_def bind_eq_Some_conv split: if_splits dest!: read_length_shorter)

function read_pairs :: "bytes \<Rightarrow> (bytes \<times> bytes) list option" where
  "read_pairs s =
     (if s = [] then Some []
      else case read_pair s of None \<Rightarrow> None | Some (e, r) \<Rightarrow> map_option ((#) e) (read_pairs r))"
  by pat_completeness auto
termination
  by (relation "measure length") (auto dest: read_pair_shorter)

declare read_pairs.simps [simp del]

lemma read_length_written: "fcgi_length n = Inr a \<Longrightarrow> read_length (a @ r) = Some (n, r) \<and> a \<noteq> []"
proof (cases "n < 128")
  case True
  assume "fcgi_length n = Inr a"
  with True show ?thesis by (auto simp: fcgi_length_def read_length_def code_char_of u32_max_def)
next
  case False
  assume "fcgi_length n = Inr a"
  with False have n: "n < 2 ^ 31" and a: "a = be_bytes 4 (n + 0x80000000)"
    by (auto simp: fcgi_length_def fcgi_length_or split: if_splits)
  define m where "m = n + 0x80000000"
  obtain t where t: "a = char_of (m div 256 div 256 div 256 mod 256) # t"
    using be_bytes_four [of m] by (auto simp: a m_def)
  have "m div 256 div 256 div 256 = m div 16777216" by (simp add: div_mult2_eq [symmetric])
  moreover have "m div 16777216 < 256" using n by (intro less_mult_imp_div_less) (simp add: m_def)
  moreover have "2147483648 div 16777216 \<le> m div 16777216" by (rule div_le_mono) (simp add: m_def)
  ultimately have "128 \<le> m div 256 div 256 div 256 mod 256" by simp
  then have "\<not> code (hd a) < 128" by (simp add: t code_char_of)
  moreover have "be_value a = n + 0x80000000" using n by (simp add: a codec_simps)
  moreover have "length a = 4" by (simp add: a)
  ultimately show ?thesis by (auto simp: read_length_def t)
qed

lemma read_pairs_written: "params_stream es = Inr s \<Longrightarrow> read_pairs s = Some es"
proof (induction es arbitrary: s rule: params_stream.induct)
  case (2 name v es)
  then obtain a b r where a: "fcgi_length (length name) = Inr a" and b: "fcgi_length (length v) = Inr b"
    and r: "params_stream es = Inr r" and s: "s = a @ b @ name @ v @ r" by auto
  have "read_pair s = Some ((name, v), r)"
    using read_length_written [OF a, of "b @ name @ v @ r"] read_length_written [OF b, of "name @ v @ r"]
    by (simp add: read_pair_def s)
  with read_length_written [OF a] 2(1) [OF r] show ?case
    by (subst read_pairs.simps) (simp add: s)
qed (simp add: read_pairs.simps)

lemma params_stream_total: "list_all (\<lambda>e. length (fst e) < 2 ^ 31 \<and> length (snd e) < 2 ^ 31) es \<Longrightarrow> \<exists>s. params_stream es = Inr s"
  by (induction es rule: params_stream.induct) (auto simp: fcgi_length_def u32_max_def)

lemma concat_chunks: "0 < k \<Longrightarrow> concat (chunks k xs) = xs"
  by (induction k xs rule: chunks.induct) (subst chunks.simps, auto)
lemma chunks_length: "c \<in> set (chunks k xs) \<Longrightarrow> c \<noteq> [] \<and> length c \<le> k"
  by (induction k xs rule: chunks.induct) (subst (asm) (2) chunks.simps, auto split: if_splits)


text \<open>Reading a whole buffer of records.\<close>

function fcgi_records :: "bytes \<Rightarrow> cgi_error + fcgi_record list" where
  "fcgi_records s =
     (if s = [] then Inr []
      else case fcgi_decode s of
        Inl e \<Rightarrow> Inl e
      | Inr None \<Rightarrow> Inl IncompleteResponse
      | Inr (Some (r, n)) \<Rightarrow> and_then (fcgi_records (drop n s)) (\<lambda>rs. Inr (r # rs)))"
  by pat_completeness auto
termination
  by (relation "measure length") (auto dest!: fcgi_decode_consumes)

declare fcgi_records.simps [simp del]

lemma fcgi_records_Nil [simp]: "fcgi_records [] = Inr []"
  by (simp add: fcgi_records.simps)

lemma fcgi_records_encode:
  "fcgi_encode kind body = Inr bs \<Longrightarrow>
    fcgi_records (bs @ r) = and_then (fcgi_records r) (\<lambda>rs. Inr (\<lparr>fr_kind = kind, fr_request = fcgi_REQUEST, fr_body = body\<rparr> # rs))"
  using fcgi_decode_encode [of kind body bs r]
  by (subst fcgi_records.simps) (auto simp: fcgi_encode_def split: if_splits)

lemma fcgi_records_chunks:
  "encode_chunks cs = Inr bs \<Longrightarrow>
    fcgi_records bs = Inr (map (\<lambda>c. \<lparr>fr_kind = fcgi_PARAMS, fr_request = fcgi_REQUEST, fr_body = c\<rparr>) (cs @ [[]]))"
proof (induction cs arbitrary: bs)
  case Nil
  then show ?case using fcgi_records_encode [of fcgi_PARAMS "[]" bs "[]"] by simp
next
  case (Cons c cs)
  then obtain a r where "fcgi_encode fcgi_PARAMS c = Inr a" "encode_chunks cs = Inr r" "bs = a @ r" by auto
  with Cons.IH show ?case by (simp add: fcgi_records_encode)
qed
lemma encode_chunks_total: "\<forall>c \<in> set cs. length c \<le> u16_max \<Longrightarrow> \<exists>bs. encode_chunks cs = Inr bs"
  by (induction cs) (auto simp: fcgi_encode_def u16_max_def)

lemma entry_size_le: "env_ok env \<Longrightarrow> e \<in> set (env_values env) \<Longrightarrow> entry_size e \<le> env_max_bytes"
proof -
  assume "env_ok env" and "e \<in> set (env_values env)"
  then have "entry_size e \<le> sum_list (map entry_size (env_values env))" by (intro member_le_sum_list) auto
  then show ?thesis using \<open>env_ok env\<close> by (simp add: env_ok_def)
qed

lemma fcgi_params_stream:
  assumes "env_ok env"
  obtains s bs where "params_stream (env_iter env) = Inr s" "encode_chunks (chunks u16_max s) = Inr bs"
    "fcgi_params env = Inr bs"
proof -
  have "length (fst e) < 2 ^ 31 \<and> length (snd e) < 2 ^ 31" if "e \<in> set (env_values env)" for e
    using entry_size_le [OF assms that] by (simp add: entry_size_def env_max_bytes_def)
  then have "list_all (\<lambda>e. length (fst e) < 2 ^ 31 \<and> length (snd e) < 2 ^ 31) (env_values env)"
    by (simp add: list_all_iff)
  from params_stream_total [OF this] obtain s where s: "params_stream (env_iter env) = Inr s"
    by (auto simp: env_iter_def)
  moreover obtain bs where "encode_chunks (chunks u16_max s) = Inr bs"
    using encode_chunks_total chunks_length by blast
  ultimately show thesis by (intro that [of s bs]) (simp_all add: fcgi_params_def)
qed

lemma fcgi_params_total: "env_ok env \<Longrightarrow> \<exists>bs. fcgi_params env = Inr bs"
  by (rule fcgi_params_stream) auto

lemma fcgi_params_parsed:
  assumes "env_ok env"
  shows "\<exists>bs rs. fcgi_params env = Inr bs \<and>
    fcgi_records bs = Inr (rs @ [\<lparr>fr_kind = fcgi_PARAMS, fr_request = fcgi_REQUEST, fr_body = []\<rparr>]) \<and>
    (\<forall>r \<in> set rs. fr_kind r = fcgi_PARAMS \<and> fr_request r = fcgi_REQUEST \<and> fr_body r \<noteq> []) \<and>
    read_pairs (concat (map fr_body rs)) = Some (env_iter env)"
proof -
  obtain s bs where s: "params_stream (env_iter env) = Inr s" and bs: "encode_chunks (chunks u16_max s) = Inr bs"
    and env: "fcgi_params env = Inr bs" by (rule fcgi_params_stream [OF assms])
  have u: "0 < u16_max" by (simp add: u16_max_def)
  have ne: "\<forall>c \<in> set (chunks u16_max s). c \<noteq> []" using chunks_length by blast
  have "map fr_body (map (\<lambda>c. \<lparr>fr_kind = fcgi_PARAMS, fr_request = fcgi_REQUEST, fr_body = c\<rparr>)
      (chunks u16_max s)) = chunks u16_max s" by (simp add: comp_def)
  then show ?thesis
    using s bs ne fcgi_records_chunks [OF bs] read_pairs_written [OF s] concat_chunks [OF u, of s]
    by (intro exI [of _ bs] exI [of _ "map (\<lambda>c. \<lparr>fr_kind = fcgi_PARAMS, fr_request = fcgi_REQUEST,
        fr_body = c\<rparr>) (chunks u16_max s)"]) (simp add: env)
qed

text \<open>
  A valid environment always becomes FastCGI parameters, and a responder that reads records and
  name-value pairs the way the specification describes gets back exactly the environment: parameter
  records of request 1, none of them empty but the last one.
\<close>

theorem fcgi_params_roundtrip:
  assumes "env_ok env"
  shows "\<exists>bs rs. fcgi_params env = Inr bs \<and>
    fcgi_records bs = Inr (rs @ [\<lparr>fr_kind = fcgi_PARAMS, fr_request = fcgi_REQUEST, fr_body = []\<rparr>]) \<and>
    (\<forall>r \<in> set rs. fr_kind r = fcgi_PARAMS \<and> fr_request r = fcgi_REQUEST \<and> fr_body r \<noteq> []) \<and>
    read_pairs (concat (map fr_body rs)) = Some (env_iter env)"
  by (rule fcgi_params_parsed [OF assms])

subsection \<open>SCGI framing\<close>

text \<open>A reader of SCGI requests as the protocol describes them: a netstring of NUL-terminated strings.\<close>

definition read_netstring :: "bytes \<Rightarrow> (bytes \<times> bytes) option" where
  "read_netstring s =
     Option.bind (split_once (CHR 0x3A) s) (\<lambda>(digits, r).
     Option.bind (parse_unsigned u64_max digits) (\<lambda>n.
       if length r \<le> n \<or> r ! n \<noteq> CHR 0x2C then None else Some (take n r, drop (n + 1) r)))"

lemma split_once_shorter: "split_once c s = Some (a, r) \<Longrightarrow> length r < length s"
  by (auto simp: split_once_Some)

function read_nul_pairs :: "bytes \<Rightarrow> (bytes \<times> bytes) list option" where
  "read_nul_pairs s =
     (if s = [] then Some []
      else case split_once (CHR 0x00) s of None \<Rightarrow> None
        | Some (a, r) \<Rightarrow> (case split_once (CHR 0x00) r of None \<Rightarrow> None
            | Some (b, t) \<Rightarrow> map_option ((#) (a, b)) (read_nul_pairs t)))"
  by pat_completeness auto
termination
  by (relation "measure length") (auto dest!: split_once_shorter)

declare read_nul_pairs.simps [simp del]

lemma read_nul_pairs_written:
  "\<forall>e \<in> set es. CHR 0x00 \<notin> set (fst e) \<and> CHR 0x00 \<notin> set (snd e) \<Longrightarrow>
    read_nul_pairs (concat (map (\<lambda>(name, v). scgi_pair name v) es)) = Some es"
proof (induction es)
  case (Cons e es)
  obtain a b where e: "e = (a, b)" by fastforce
  let ?r = "concat (map (\<lambda>(name, v). scgi_pair name v) es)"
  have "split_once (CHR 0x00) (scgi_pair a b @ ?r) = Some (a, b @ CHR 0x00 # ?r)"
    using Cons.prems e by (simp add: scgi_pair_def)
  moreover have "split_once (CHR 0x00) (b @ CHR 0x00 # ?r) = Some (b, ?r)" using Cons.prems e by simp
  moreover have "scgi_pair a b @ ?r \<noteq> []" by (simp add: scgi_pair_def)
  ultimately show ?case using Cons e by (subst read_nul_pairs.simps) auto
qed (simp add: read_nul_pairs.simps)

lemma checked_decimal_value: "checked_decimal n s = Some m \<Longrightarrow> m = foldl (\<lambda>n c. 10 * n + digit_val c) n s"
  by (induction n s rule: checked_decimal.induct)
    (auto simp: bind_eq_Some_conv checked_mul_Some checked_add_Some mult.commute)

lemma checked_decimal_le: "checked_decimal n s = Some m \<Longrightarrow> n \<le> u64_max \<Longrightarrow> m \<le> u64_max"
  by (induction n s rule: checked_decimal.induct) (auto simp: bind_eq_Some_conv checked_add_Some)

lemma entry_ok_no_nul: "entry_ok e \<Longrightarrow> CHR 0x00 \<notin> set (fst e) \<and> CHR 0x00 \<notin> set (snd e)"
  by (auto simp: entry_ok_def list_all_iff is_ascii_upper_def is_ascii_digit_def)

lemma scgi_scan_Cons:
  assumes "scgi_scan n ((name, v) # es) (cl, sz) = Inr r" and "name \<noteq> ''SCGI''"
  shows "scgi_scan n es (if name = ''CONTENT_LENGTH'' then Some v else cl, sz + entry_size (name, v)) = Inr r"
    and "name = ''CONTENT_LENGTH'' \<Longrightarrow> list_all is_ascii_digit v \<and> v \<noteq> [] \<and> dec_value v = n \<and> n \<le> u64_max"
  using assms checked_decimal_value [of 0 v] checked_decimal_le [of 0 v]
  by (auto simp: bind_eq_Some_conv checked_add_Some entry_size_def dec_value_def add.assoc split: if_splits)

lemma scgi_scan_marker: "scgi_scan n ((''SCGI'', v) # es) (cl, sz) = Inr r \<Longrightarrow> scgi_scan n es (cl, sz) = Inr r"
  by (simp split: if_splits)

lemma scgi_scan_result:
  "scgi_scan n es (cl, sz) = Inr (cl', sz') \<Longrightarrow> distinct (map fst es) \<Longrightarrow>
    sz' = sz + sum_list (map entry_size (filter (\<lambda>(name, _). name \<noteq> ''SCGI'') es)) \<and>
    cl' = (case map_of es ''CONTENT_LENGTH'' of None \<Rightarrow> cl | Some v \<Rightarrow> Some v) \<and>
    (\<forall>v. map_of es ''CONTENT_LENGTH'' = Some v \<longrightarrow> list_all is_ascii_digit v \<and> v \<noteq> [] \<and> dec_value v = n \<and> n \<le> u64_max)"
proof (induction es arbitrary: cl sz)
  case (Cons e es)
  obtain name v where e: "e = (name, v)" by fastforce
  show ?case
  proof (cases "name = ''SCGI''")
    case True
    from Cons.IH [OF scgi_scan_marker] Cons.prems True e show ?thesis by simp
  next
    case False
    note step = scgi_scan_Cons [OF Cons.prems(1) [unfolded e] False]
    have "map_of es ''CONTENT_LENGTH'' = None" if "name = ''CONTENT_LENGTH''"
      using Cons.prems(2) that e by (auto simp: map_of_eq_None_iff)
    with Cons.IH [OF step(1)] step(2) Cons.prems(2) False e show ?thesis by auto
  qed
qed simp

lemma sum_without_key:
  fixes f :: "'k \<times> 'v \<Rightarrow> nat"
  shows "distinct (map fst es) \<Longrightarrow> map_of es k = Some v \<Longrightarrow> P k \<Longrightarrow>
    sum_list (map f (filter (\<lambda>(j, _). P j) es)) = f (k, v) + sum_list (map f (filter (\<lambda>(j, _). j \<noteq> k \<and> P j) es))"
proof (induction es)
  case (Cons e es)
  obtain j u where e: "e = (j, u)" by fastforce
  show ?case
  proof (cases "j = k")
    case True
    have "filter (\<lambda>(j, _). P j) es = filter (\<lambda>(j, _). j \<noteq> k \<and> P j) es"
      using Cons.prems(1) True e by (intro filter_cong) force+
    with True Cons.prems e show ?thesis by simp
  next
    case False
    with Cons e show ?thesis by simp
  qed
qed simp

lemma length_scgi_pair [simp]: "length (scgi_pair name v) = entry_size (name, v)"
  by (simp add: scgi_pair_def entry_size_def)

lemma length_scgi_pairs: "length (concat (map (\<lambda>(name, v). scgi_pair name v) es)) = sum_list (map entry_size es)"
  by (induction es) auto

lemma read_netstring_written:
  "length s = n \<Longrightarrow> n \<le> u64_max \<Longrightarrow> read_netstring (show_nat n @ '':'' @ s @ '','' @ body) = Some (s, body)"
proof -
  assume "length s = n" "n \<le> u64_max"
  have "CHR 0x3A \<notin> set (show_nat n)"
    using show_nat_digits [of n] by (auto simp: list_all_iff is_ascii_digit_def)
  then have "split_once (CHR 0x3A) (show_nat n @ '':'' @ s @ '','' @ body) = Some (show_nat n, s @ '','' @ body)"
    by simp
  with \<open>length s = n\<close> \<open>n \<le> u64_max\<close> show ?thesis
    by (auto simp: read_netstring_def parse_show_nat nth_append)
qed

text \<open>
  The SCGI request of a valid environment is one netstring, of at most the configured size, ahead
  of the body: a server that reads it gets the content length first, which is the length of the body it
  is to read, then the protocol marker, then every other variable once and in order.
\<close>

theorem scgi_headers_roundtrip:
  assumes "env_ok env" and "scgi_headers env n limit = Inr bs"
  shows "\<exists>s v. read_netstring (bs @ body) = Some (s, body) \<and> length s \<le> limit \<and>
    read_nul_pairs s = Some ((''CONTENT_LENGTH'', v) # (''SCGI'', ''1'') #
      filter (\<lambda>(name, _). name \<noteq> ''CONTENT_LENGTH'' \<and> name \<noteq> ''SCGI'') (env_iter env)) \<and>
    bt_get ''CONTENT_LENGTH'' (env_values env) = Some v \<and> parse_unsigned u64_max v = Some n"
proof -
  let ?rest = "filter (\<lambda>(name, _). name \<noteq> ''CONTENT_LENGTH'' \<and> name \<noteq> ''SCGI'') (env_iter env)"
  obtain v sz where scan: "scgi_scan n (env_iter env) (None, 7) = Inr (Some v, sz)" and sz: "sz \<le> min limit env_max_bytes"
    and bs: "bs = show_nat sz @ '':'' @ scgi_pair ''CONTENT_LENGTH'' v @ scgi_pair ''SCGI'' ''1'' @
      concat (map (\<lambda>(name, v). scgi_pair name v) ?rest) @ '',''"
    using assms(2) by (auto simp: scgi_headers_def not_less split: if_splits simp del: min.bounded_iff)
  define s where "s = concat (map (\<lambda>(name, v). scgi_pair name v) ((''CONTENT_LENGTH'', v) # (''SCGI'', ''1'') # ?rest))"
  have dist: "distinct (map fst (env_iter env))"
    using assms(1) by (simp add: env_ok_def env_iter_def bt_ok_distinct)
  note result = scgi_scan_result [OF scan dist]
  from result have v: "map_of (env_iter env) ''CONTENT_LENGTH'' = Some v" by (auto split: option.splits)
  with result have digits: "list_all is_ascii_digit v" "v \<noteq> []" "dec_value v = n" "n \<le> u64_max" by auto
  have "length s = sz"
    using result sum_without_key [OF dist v, where P = "\<lambda>j. j \<noteq> ''SCGI''" and f = entry_size]
    unfolding s_def length_scgi_pairs by (simp add: entry_size_def)
  moreover have "sz \<le> u64_max" using sz by (simp add: env_max_bytes_def u64_max_def)
  ultimately have "read_netstring (bs @ body) = Some (s, body)"
    using read_netstring_written [of s sz body] by (simp add: bs s_def)
  moreover have "\<forall>e \<in> set ((''CONTENT_LENGTH'', v) # (''SCGI'', ''1'') # ?rest). CHR 0x00 \<notin> set (fst e) \<and> CHR 0x00 \<notin> set (snd e)"
    using assms(1) digits entry_ok_no_nul by (auto simp: env_ok_def env_iter_def list_all_iff is_ascii_digit_def)
  then have "read_nul_pairs s = Some ((''CONTENT_LENGTH'', v) # (''SCGI'', ''1'') # ?rest)"
    unfolding s_def by (rule read_nul_pairs_written)
  moreover have "parse_unsigned u64_max v = Some n" using digits by (simp add: parse_unsigned_def plus_not_digit)
  ultimately show ?thesis using v sz \<open>length s = sz\<close> by (auto simp: bt_get_def env_iter_def)
qed

subsection \<open>Where a response head ends\<close>

text \<open>The first head in a byte stream is the shortest prefix that ends with an empty line.\<close>

definition head_cut :: "nat \<Rightarrow> bytes \<Rightarrow> bool" where
  "head_cut n s \<longleftrightarrow> n \<le> length s \<and> head_ends (take n s) \<and> (\<forall>k < n. \<not> head_ends (take k s))"

definition head_uncut :: "bytes \<Rightarrow> bool" where
  "head_uncut s \<longleftrightarrow> (\<forall>k \<le> length s. \<not> head_ends (take k s))"

lemma head_cut_unique: "head_cut n s \<Longrightarrow> head_cut m s \<Longrightarrow> m = n"
  by (meson head_cut_def linorder_neqE_nat)

lemma head_cases: "head_uncut s \<or> (\<exists>n. head_cut n s)"
proof (cases "head_uncut s")
  case False
  then obtain k where "k \<le> length s" "head_ends (take k s)" by (auto simp: head_uncut_def)
  moreover obtain n where "head_ends (take n s)" "\<forall>j < n. \<not> head_ends (take j s)"
    using exists_least_iff [of "\<lambda>n. head_ends (take n s)"] calculation(2) by blast
  ultimately have "head_cut n s" by (auto simp: head_cut_def) (meson le_trans not_less)
  then show ?thesis by blast
qed simp

lemma head_uncut_Nil [simp]: "head_uncut []"
  by (simp add: head_uncut_def head_ends_def ends_with_iff)

lemma head_cut_append: "head_cut n s \<Longrightarrow> head_cut n (s @ t)"
  by (auto simp: head_cut_def)

lemma head_uncut_lt: "head_uncut s \<Longrightarrow> head_cut n (s @ t) \<Longrightarrow> length s < n"
proof (rule ccontr)
  assume a: "head_uncut s" "head_cut n (s @ t)" and "\<not> length s < n"
  then have "take n (s @ t) = take n s" "n \<le> length s" by simp_all
  with a show False by (auto simp: head_cut_def head_uncut_def)
qed

lemma feed_from_cut:
  "head_cut n (hd_bytes d @ input) \<Longrightarrow> length (hd_bytes d) < n \<Longrightarrow> n \<le> hd_limit d \<Longrightarrow>
    feed_from http i input d =
      (let s = take n (hd_bytes d @ input) in case parse_head http s of
         Inl e \<Rightarrow> (Inl e, d\<lparr>hd_bytes := s\<rparr>)
       | Inr h \<Rightarrow> (Inr (i + (n - length (hd_bytes d)), Some h), d\<lparr>hd_bytes := s, hd_finished := True\<rparr>))"
proof (induction input arbitrary: i d)
  case Nil
  then show ?case by (simp add: head_cut_def)
next
  case (Cons b input)
  let ?d = "d\<lparr>hd_bytes := hd_bytes d @ [b]\<rparr>"
  have room: "length (hd_bytes d) \<noteq> hd_limit d" using Cons.prems by simp
  show ?case
  proof (cases "n = Suc (length (hd_bytes d))")
    case True
    then have "take n (hd_bytes d @ b # input) = hd_bytes d @ [b]" by simp
    with True room Cons.prems(1) show ?thesis by (simp add: head_cut_def Let_def split: sum.splits)
  next
    case False
    with Cons.prems(2) have less: "Suc (length (hd_bytes d)) < n" by simp
    then have "\<not> head_ends (take (Suc (length (hd_bytes d))) (hd_bytes d @ b # input))"
      using Cons.prems(1) unfolding head_cut_def by blast
    then have "\<not> head_ends (hd_bytes d @ [b])" by simp
    moreover have "i + 1 + (n - Suc (length (hd_bytes d))) = i + (n - length (hd_bytes d))" using less by simp
    ultimately show ?thesis using Cons.IH [of ?d "i + 1"] Cons.prems less room by (simp add: Let_def split: sum.splits)
  qed
qed

lemma feed_from_uncut:
  "head_uncut (hd_bytes d @ input) \<Longrightarrow> length (hd_bytes d @ input) \<le> hd_limit d \<Longrightarrow>
    feed_from http i input d = (Inr (i + length input, None), d\<lparr>hd_bytes := hd_bytes d @ input\<rparr>)"
proof (induction input arbitrary: i d)
  case (Cons b input)
  have "\<not> head_ends (take (Suc (length (hd_bytes d))) (hd_bytes d @ b # input))"
    using Cons.prems(1) by (simp add: head_uncut_def del: take_append)
  then have "\<not> head_ends (hd_bytes d @ [b])" by simp
  with Cons show ?case by (simp add: Let_def)
qed simp

lemma feed_from_limit:
  "\<forall>k \<le> hd_limit d. \<not> head_ends (take k (hd_bytes d @ input)) \<Longrightarrow> length (hd_bytes d) \<le> hd_limit d \<Longrightarrow>
    hd_limit d < length (hd_bytes d @ input) \<Longrightarrow>
    feed_from http i input d = (Inl CgiLimit, d\<lparr>hd_bytes := take (hd_limit d) (hd_bytes d @ input)\<rparr>)"
proof (induction input arbitrary: i d)
  case (Cons b input)
  let ?d = "d\<lparr>hd_bytes := hd_bytes d @ [b]\<rparr>"
  show ?case
  proof (cases "length (hd_bytes d) = hd_limit d")
    case True
    then show ?thesis by simp
  next
    case False
    with Cons.prems(2) have "Suc (length (hd_bytes d)) \<le> hd_limit d" by simp
    then have "\<not> head_ends (take (Suc (length (hd_bytes d))) (hd_bytes d @ b # input))"
      using Cons.prems(1) by blast
    then have "\<not> head_ends (hd_bytes d @ [b])" by simp
    with Cons.IH [of ?d "i + 1"] Cons.prems False show ?thesis by (simp add: Let_def del: take_append)
  qed
qed simp

text \<open>A decoder that still waits for its head.\<close>

definition decoder_open :: "head_decoder \<Rightarrow> bool" where
  "decoder_open d \<longleftrightarrow> \<not> hd_finished d \<and> head_uncut (hd_bytes d) \<and> length (hd_bytes d) \<le> hd_limit d"

lemma decoder_new_open: "decoder_open (decoder_new limit)"
  by (simp add: decoder_open_def decoder_new_def)

text \<open>Every answer of \<open>feed\<close>, in terms of all the bytes the decoder has seen.\<close>

lemma feed_cases:
  assumes "decoder_open d"
  obtains
    (head) n h where "head_cut n (hd_bytes d @ input)" "length (hd_bytes d) < n" "n \<le> hd_limit d"
      "parse_head http (take n (hd_bytes d @ input)) = Inr h"
      "feed http input d = (Inr (n - length (hd_bytes d), Some h), d\<lparr>hd_bytes := take n (hd_bytes d @ input), hd_finished := True\<rparr>)"
  | (waiting) "head_uncut (hd_bytes d @ input)" "length (hd_bytes d @ input) \<le> hd_limit d"
      "feed http input d = (Inr (length input, None), d\<lparr>hd_bytes := hd_bytes d @ input\<rparr>)"
  | (failed) e d' where "feed http input d = (Inl e, d')" "\<not> hd_finished d'"
proof -
  let ?s = "hd_bytes d @ input"
  note open_d = assms [unfolded decoder_open_def]
  have f: "feed http input d = feed_from http 0 input d" using open_d by (simp add: feed_def)
  consider (c) n where "head_cut n ?s" "n \<le> hd_limit d" | (u) "head_uncut ?s" "length ?s \<le> hd_limit d"
    | (l) "hd_limit d < length ?s" "\<forall>k \<le> hd_limit d. \<not> head_ends (take k ?s)"
    using head_cases [of ?s] by (auto simp: head_cut_def head_uncut_def not_le) (meson le_less_trans not_le)+
  then show thesis
  proof cases
    case c
    have less: "length (hd_bytes d) < n" using open_d c(1) by (meson head_uncut_lt)
    show thesis
    proof (cases "parse_head http (take n ?s)")
      case (Inr h)
      with feed_from_cut [OF c(1) less c(2), of http 0] f show thesis
        by (intro head [OF c(1) less c(2) Inr]) simp
    next
      case (Inl e)
      with feed_from_cut [OF c(1) less c(2), of http 0] f open_d show thesis
        by (intro failed [of e "d\<lparr>hd_bytes := take n ?s\<rparr>"]) simp_all
    qed
  next
    case u
    with feed_from_uncut [OF u, of http 0] f show thesis by (intro waiting) simp_all
  next
    case l
    with feed_from_limit [of d input http 0] f open_d show thesis
      by (intro failed [of CgiLimit "d\<lparr>hd_bytes := take (hd_limit d) ?s\<rparr>"]) simp_all
  qed
qed

subsection \<open>What a parsed head may contain\<close>

definition head_field_ok :: "cgi_http \<Rightarrow> bytes \<times> bytes \<Rightarrow> bool" where
  "head_field_ok http e \<longleftrightarrow> fst e \<notin> set framing_names \<and> fst e \<noteq> ''status'' \<and> to_ascii_lowercase (fst e) = fst e \<and>
     bytes_valid http (snd e) \<and> list_all (\<lambda>b. \<not> is_ascii_control b \<or> b = CHR 0x09) (fst e @ snd e)"

definition length_agrees :: "header_map \<Rightarrow> nat option \<Rightarrow> bool" where
  "length_agrees h len \<longleftrightarrow>
     (case len of None \<Rightarrow> get_all ''content-length'' h = []
      | Some n \<Rightarrow> \<exists>v. get_all ''content-length'' h = [v] \<and> parse_unsigned u64_max v = Some n)"

definition lines_ok :: "cgi_http \<Rightarrow> head_lines \<Rightarrow> bool" where
  "lines_ok http st \<longleftrightarrow> list_all (head_field_ok http) (hl_headers st) \<and>
     (\<forall>s. hl_status st = Some s \<longrightarrow> 200 \<le> s \<and> s \<le> 599) \<and>
     length_agrees (hl_headers st) (hl_content_length st) \<and>
     length (get_all ''content-type'' (hl_headers st)) \<le> 1 \<and> length (get_all ''location'' (hl_headers st)) \<le> 1"

lemma set_trim_ascii: "set (trim_ascii s) \<subseteq> set s"
  by (auto simp: trim_ascii_def trim_ascii_start_def dest!: set_dropWhileD)

lemma lower_not_control: "is_ascii_control (lower_byte b) = is_ascii_control b \<and> (lower_byte b = CHR 0x09 \<longleftrightarrow> b = CHR 0x09)"
proof (cases "is_ascii_upper b")
  case True
  then have r: "65 \<le> code b" "code b \<le> 90" by (auto simp: is_ascii_upper_def)
  then have "code (char_of (code b + 32)) = code b + 32" by (intro code_char_of) simp
  with True r show ?thesis
    by (auto simp: lower_byte_def is_ascii_control_def simp flip: code_inject)
qed (simp add: lower_byte_def)

lemma parse_status_range: "parse_status http v = Inr s \<Longrightarrow> 200 \<le> s \<and> s \<le> 599"
  by (auto simp: parse_status_def Let_def split: if_splits)

lemma parse_head_line_ok:
  assumes ok: "lines_ok http st" and parsed: "parse_head_line http line st = Inr st'"
  shows "lines_ok http st'"
proof -
  obtain raw_name raw_value where clean: "\<not> list_ex (\<lambda>b. is_ascii_control b \<and> b \<noteq> CHR 0x09) line"
    and split: "split_once (CHR 0x3A) line = Some (raw_name, raw_value)"
    using parsed by (auto simp: parse_head_line_def split: if_splits)
  define name where "name = to_ascii_lowercase raw_name"
  define v where "v = trim_ascii raw_value"
  have line: "line = raw_name @ CHR 0x3A # raw_value" using split by (simp add: split_once_Some)
  have names: "list_all (\<lambda>b. \<not> is_ascii_control b \<or> b = CHR 0x09) name"
    using clean by (auto simp: line name_def to_ascii_lowercase_def list_all_iff list_ex_iff lower_not_control)
  have vals: "list_all (\<lambda>b. \<not> is_ascii_control b \<or> b = CHR 0x09) v"
    using clean set_trim_ascii [of raw_value] by (auto simp: line v_def list_all_iff list_ex_iff)
  show ?thesis
  proof (cases "name = ''status''")
    case True
    with parsed split obtain s where "parse_status http v = Inr s" "st' = st\<lparr>hl_status := Some s\<rparr>"
      by (auto simp: parse_head_line_def Let_def name_def [symmetric] v_def [symmetric] split: if_splits)
    with ok parse_status_range show ?thesis by (auto simp: lines_ok_def)
  next
    case False
    define cl where "cl \<longleftrightarrow> name = ''content-length''"
    define ty where "ty \<longleftrightarrow> name = ''content-type''"
    define lo where "lo \<longleftrightarrow> name = ''location''"
    define framing where "framing \<longleftrightarrow> name \<in> set framing_names"
    define st1 where "st1 = (if cl then st\<lparr>hl_content_length := parse_unsigned u64_max v\<rparr> else st)"
    note folded = name_def [symmetric] v_def [symmetric] cl_def [symmetric] ty_def [symmetric] lo_def [symmetric] framing_def [symmetric]
    from parsed split have valid: "bytes_valid http v" "\<not> framing"
      and once: "cl \<or> ty \<or> lo \<Longrightarrow> get_all name (hl_headers st) = []"
      and number: "cl \<Longrightarrow> parse_unsigned u64_max v \<noteq> None"
      and st': "st' = st1\<lparr>hl_headers := append_header name v (hl_headers st)\<rparr>"
      unfolding parse_head_line_def Let_def by (auto simp: False folded st1_def contains_key_def split: if_splits)
    have "head_field_ok http (name, v)"
      using False valid names vals by (simp add: head_field_ok_def framing_def) (simp add: name_def)
    then have "list_all (head_field_ok http) (hl_headers st')"
      using ok by (simp add: st' lines_ok_def append_header_def)
    moreover have "length_agrees (hl_headers st') (hl_content_length st')"
    proof (cases cl)
      case True
      with once number cl_def show ?thesis by (auto simp: st' st1_def length_agrees_def)
    next
      case False
      then have "name \<noteq> ''content-length''" by (simp add: cl_def)
      with ok False show ?thesis by (simp add: st' st1_def lines_ok_def length_agrees_def split: option.splits)
    qed
    moreover have "length (get_all k (hl_headers st')) \<le> 1" if "k = ''content-type'' \<or> k = ''location''" for k
      using ok once that by (cases "name = k") (auto simp: st' lines_ok_def ty_def lo_def)
    ultimately show ?thesis using ok by (simp add: st' st1_def lines_ok_def)
  qed
qed

lemma parse_head_lines_ok: "lines_ok http st \<Longrightarrow> parse_head_lines http ls st = Inr st' \<Longrightarrow> lines_ok http st'"
  by (induction ls arbitrary: st) (auto simp: Let_def intro: parse_head_line_ok split: if_splits)

text \<open>
  A response head that is accepted cannot take over the connection: no hop-by-hop field survives,
  no control character other than a tab is left in a name or a value, the status is final, at most one
  length, type and location are given and the length the gateway counts against is the one it relays.
\<close>

theorem cgi_head_sound:
  assumes "parse_head http bs = Inr h"
  shows "200 \<le> ch_status h \<and> ch_status h \<le> 599 \<and>
    (\<forall>(name, v) \<in> set (ch_headers h). name \<notin> set framing_names \<and> name \<noteq> ''status'' \<and>
       list_all (\<lambda>b. \<not> is_ascii_control b \<or> b = CHR 0x09) (name @ v)) \<and>
    length_agrees (ch_headers h) (ch_content_length h) \<and>
    length (get_all ''content-type'' (ch_headers h)) \<le> 1 \<and> length (get_all ''location'' (ch_headers h)) \<le> 1 \<and>
    (ch_status h = 204 \<longrightarrow> ch_content_length h = None) \<and>
    (ch_status h \<notin> {204, 304} \<longrightarrow> contains_key ''content-type'' (ch_headers h) \<or> contains_key ''location'' (ch_headers h))"
proof -
  let ?start = "\<lparr>hl_headers = [], hl_status = None, hl_content_length = None\<rparr>"
  obtain st where st: "parse_head_lines http (split_at (CHR 0x0A) bs) ?start = Inr st"
    and status: "default_status http st = Inr (ch_status h)" and h: "ch_headers h = hl_headers st" "ch_content_length h = hl_content_length st"
    and checks: "ch_status h = 204 \<longrightarrow> hl_content_length st = None"
      "ch_status h \<notin> {204, 304} \<longrightarrow> contains_key ''content-type'' (hl_headers st) \<or> contains_key ''location'' (hl_headers st)"
    using assms by (auto simp: parse_head_def split: if_splits)
  have "lines_ok http ?start" by (simp add: lines_ok_def length_agrees_def)
  from parse_head_lines_ok [OF this st] have ok: "lines_ok http st" .
  have "200 \<le> ch_status h \<and> ch_status h \<le> 599"
    using status ok by (auto simp: default_status_def lines_ok_def split: option.splits if_splits)
  with ok checks h show ?thesis by (auto simp: lines_ok_def list_all_iff head_field_ok_def)
qed

subsection \<open>The responder's machine\<close>

fun event_stderr :: "fcgi_event \<Rightarrow> nat" where
  "event_stderr (Stderr bs) = length bs"
| "event_stderr _ = 0"

fun is_complete :: "fcgi_event \<Rightarrow> bool" where
  "is_complete (Complete n) = True"
| "is_complete _ = False"

lemma responder_accept_Inr:
  assumes "responder_accept r rp = (Inr ev, rp')"
  shows "rp_stderr_limit rp' = rp_stderr_limit rp"
    and "rp_stderr_bytes rp' = rp_stderr_bytes rp + event_stderr ev"
    and "rp_stderr_bytes rp \<le> rp_stderr_limit rp \<Longrightarrow> rp_stderr_bytes rp' \<le> rp_stderr_limit rp"
    and "rp_ended rp' \<longleftrightarrow> is_complete ev" and "\<not> rp_ended rp"
  using assms by (auto simp: responder_accept_def checked_add_Some split: if_splits option.splits)


subsection \<open>Samples\<close>

definition cgi_sample_http :: cgi_http where
  "cgi_sample_http = \<lparr>name_valid = (\<lambda>s. s \<noteq> [] \<and> list_all (\<lambda>b. is_ascii_alphabetic b \<or> b = CHR ''-'') s),
     value_str = Some, value_of = Some, parse_date = (\<lambda>_. None),
     bytes_valid = list_all (\<lambda>b. \<not> is_ascii_control b \<or> b = CHR 0x09), uri_scheme = (\<lambda>_. Some True)\<rparr>"

definition sample_env :: environment where
  "sample_env = \<lparr>env_values = [(''CONTENT_LENGTH'', ''2''), (''PATH'', ''/'')], env_bytes = 24, env_limit = 64\<rparr>"

definition sample_reads :: "bytes list" where
  "sample_reads = [''Content-Type:t'', [CHR 0x0A, CHR 0x0A, CHR ''h'', CHR ''i'']]"

definition sample_head :: cgi_head where
  "sample_head = \<lparr>ch_status = 200, ch_headers = [(''content-type'', ''t'')], ch_content_length = None\<rparr>"

lemma sample_env_ok: "env_ok sample_env"
proof -
  have "bt_ok [(''CONTENT_LENGTH'', ''2''), (''PATH'', ''/'')]" by code_simp
  moreover have "list_all entry_ok [(''CONTENT_LENGTH'', ''2''), (''PATH'', ''/'')]" by code_simp
  ultimately show ?thesis by (simp add: env_ok_def sample_env_def entry_size_def env_max_bytes_def)
qed

lemma sample_parsed: "parse_head cgi_sample_http (take 16 (concat sample_reads)) = Inr sample_head"
  by code_simp

lemma sample_cut: "head_cut 16 (concat sample_reads)"
  by code_simp

lemma sample_scgi: "\<exists>bs. scgi_headers sample_env 2 64 = Inr bs"
proof -
  have "scgi_scan 2 (env_iter sample_env) (None, 7) = Inr (Some ''2'', 31)"
    by (simp add: env_iter_def sample_env_def checked_mul_def checked_add_def u64_max_def ok_or_def digit_val_def is_ascii_digit_def)
  then show ?thesis by (simp add: scgi_headers_def env_max_bytes_def)
qed

theorem fcgi_params_roundtrip_witness:
  "\<exists>bs rs. fcgi_params sample_env = Inr bs \<and>
    fcgi_records bs = Inr (rs @ [\<lparr>fr_kind = fcgi_PARAMS, fr_request = fcgi_REQUEST, fr_body = []\<rparr>]) \<and>
    (\<forall>r \<in> set rs. fr_kind r = fcgi_PARAMS \<and> fr_request r = fcgi_REQUEST \<and> fr_body r \<noteq> []) \<and>
    read_pairs (concat (map fr_body rs)) = Some (env_iter sample_env)"
  by (rule fcgi_params_roundtrip [OF sample_env_ok])

theorem scgi_headers_roundtrip_witness:
  "\<exists>bs s v. scgi_headers sample_env 2 64 = Inr bs \<and> read_netstring (bs @ ''hi'') = Some (s, ''hi'') \<and> length s \<le> 64 \<and>
    read_nul_pairs s = Some ((''CONTENT_LENGTH'', v) # (''SCGI'', ''1'') #
      filter (\<lambda>(name, _). name \<noteq> ''CONTENT_LENGTH'' \<and> name \<noteq> ''SCGI'') (env_iter sample_env)) \<and>
    bt_get ''CONTENT_LENGTH'' (env_values sample_env) = Some v \<and> parse_unsigned u64_max v = Some 2"
proof -
  obtain bs where bs: "scgi_headers sample_env 2 64 = Inr bs" using sample_scgi by blast
  with scgi_headers_roundtrip [OF sample_env_ok bs, of "''hi''"] show ?thesis by (simp only: simp_thms ex_simps) blast
qed

theorem cgi_head_sound_witness:
  "parse_head cgi_sample_http (take 16 (concat sample_reads)) = Inr sample_head \<and> ch_status sample_head \<le> 599 \<and>
    length_agrees (ch_headers sample_head) (ch_content_length sample_head)"
  using cgi_head_sound [OF sample_parsed] sample_parsed by simp

end
