(* ===== verification/Cgi_Exchange.thy ===== *)
theory Cgi_Exchange
  imports Cgi_Protocol
begin

text \<open>
  Running a CGI exchange: the output sink of the HTTP terminal and what its client sees
  (\<open>gatel-cgi-http/src/terminal.rs\<close>), and the exchanges of the FastCGI, SCGI and CGI plugins
  (\<open>exchange.rs\<close> in \<open>plugins/fastcgi/src\<close>, \<open>plugins/scgi/src\<close> and \<open>plugins/cgi/src\<close>).

  What is outside the program is an argument: the bytes that arrive from the backend and how their
  arrival ends, the body of the request and how its arrival ends, whether a write to the backend fails, and for every message to the HTTP side whether the channel takes it, is broken or stalls
  past the deadline. An exchange that is cancelled, by a failed upload or by the overall deadline, is an
  exchange whose input ends with that fault.
\<close>

subsection \<open>Results with state\<close>

definition then_run :: "('e + 'a) \<times> 's \<Rightarrow> ('a \<Rightarrow> 's \<Rightarrow> ('e + 'b) \<times> 's) \<Rightarrow> ('e + 'b) \<times> 's" where
  "then_run r k = (case r of (Inl e, s) \<Rightarrow> (Inl e, s) | (Inr a, s) \<Rightarrow> k a s)"

lemma then_run_simps [simp]: "then_run (Inl e, s) k = (Inl e, s)" "then_run (Inr a, s) k = k a s"
  by (simp_all add: then_run_def)

lemma then_run_Inr: "then_run r k = (Inr b, t) \<longleftrightarrow> (\<exists>a s. r = (Inr a, s) \<and> k a s = (Inr b, t))"
  by (auto simp: then_run_def split: prod.splits sum.splits)

lemma then_run_Inl:
  "then_run r k = (Inl e, t) \<longleftrightarrow> r = (Inl e, t) \<or> (\<exists>a s. r = (Inr a, s) \<and> k a s = (Inl e, t))"
  by (auto simp: then_run_def split: prod.splits sum.splits)

subsection \<open>The output sink\<close>

datatype exchange_fault = ExIo | ExProtocol cgi_error | ExTimeout | ExRequestLength | ExApplicationExit nat
| ExStderrLimit | ExExitFailure

datatype cgi_message = HeadMsg cgi_head | BodyMsg bytes

datatype sink_phase = EXPECT_HEAD | WRITING_BODY | FINISHED | FAILED

text \<open>What the channel does with the next message.\<close>

datatype send_outcome = SendOk | SendBroken | SendStalled

definition output_chunk :: nat where "output_chunk = 8192"

record sink =
  sk_phase :: sink_phase
  sk_sent :: "cgi_message list"
  sk_channel :: "nat \<Rightarrow> send_outcome"

definition sink_new :: "(nat \<Rightarrow> send_outcome) \<Rightarrow> sink" where
  "sink_new channel = \<lparr>sk_phase = EXPECT_HEAD, sk_sent = [], sk_channel = channel\<rparr>"

definition sink_begin :: "sink_phase \<Rightarrow> sink \<Rightarrow> (exchange_fault + unit) \<times> sink" where
  "sink_begin expected s =
     (let phase = sk_phase s; s = s\<lparr>sk_phase := FAILED\<rparr> in
      if phase \<noteq> expected then (Inl ExIo, s) else (Inr (), s))"

definition sink_send :: "cgi_message \<Rightarrow> sink \<Rightarrow> (exchange_fault + unit) \<times> sink" where
  "sink_send m s =
     (case sk_channel s (length (sk_sent s)) of
        SendOk \<Rightarrow> (Inr (), s\<lparr>sk_sent := sk_sent s @ [m]\<rparr>)
      | SendBroken \<Rightarrow> (Inl ExIo, s)
      | SendStalled \<Rightarrow> (Inl ExTimeout, s))"

fun send_all :: "cgi_message list \<Rightarrow> sink \<Rightarrow> (exchange_fault + unit) \<times> sink" where
  "send_all [] s = (Inr (), s)"
| "send_all (m # ms) s = then_run (sink_send m s) (\<lambda>_. send_all ms)"

definition sink_head :: "cgi_head \<Rightarrow> sink \<Rightarrow> (exchange_fault + unit) \<times> sink" where
  "sink_head h s =
     then_run (sink_begin EXPECT_HEAD s) (\<lambda>_ s. then_run (sink_send (HeadMsg h) s) (\<lambda>_ s.
       (Inr (), s\<lparr>sk_phase := WRITING_BODY\<rparr>)))"

definition sink_body :: "bytes \<Rightarrow> sink \<Rightarrow> (exchange_fault + unit) \<times> sink" where
  "sink_body body s =
     then_run (sink_begin WRITING_BODY s) (\<lambda>_ s.
     then_run (send_all (map BodyMsg (chunks output_chunk body)) s) (\<lambda>_ s.
       (Inr (), s\<lparr>sk_phase := WRITING_BODY\<rparr>)))"

definition sink_finish :: "sink \<Rightarrow> (exchange_fault + unit) \<times> sink" where
  "sink_finish s = then_run (sink_begin WRITING_BODY s) (\<lambda>_ s. (Inr (), s\<lparr>sk_phase := FINISHED\<rparr>))"

subsection \<open>Relaying a response\<close>

record relay =
  rl_decoder :: head_decoder
  rl_length :: "body_length option"
  rl_tail :: "byte option"
  rl_sink :: sink

definition relay_new :: "nat \<Rightarrow> (nat \<Rightarrow> send_outcome) \<Rightarrow> relay" where
  "relay_new max_head channel =
     \<lparr>rl_decoder = decoder_new max_head, rl_length = None, rl_tail = None, rl_sink = sink_new channel\<rparr>"

definition on_sink :: "(sink \<Rightarrow> (exchange_fault + unit) \<times> sink) \<Rightarrow> relay \<Rightarrow> (exchange_fault + unit) \<times> relay" where
  "on_sink f r = (case f (rl_sink r) of (res, s) \<Rightarrow> (res, r\<lparr>rl_sink := s\<rparr>))"

text \<open>The bytes of a chunk that are body: the head is parsed out of the first chunks.\<close>

definition relay_head :: "cgi_http \<Rightarrow> bool \<Rightarrow> bytes \<Rightarrow> relay \<Rightarrow> (exchange_fault + bytes) \<times> relay" where
  "relay_head http head_request bs r =
     (if rl_length r \<noteq> None then (Inr bs, r)
      else case feed http bs (rl_decoder r) of
        (Inl e, d) \<Rightarrow> (Inl (ExProtocol e), r\<lparr>rl_decoder := d\<rparr>)
      | (Inr (used, None), d) \<Rightarrow> (Inr (drop used bs), r\<lparr>rl_decoder := d\<rparr>)
      | (Inr (used, Some h), d) \<Rightarrow>
          then_run (on_sink (sink_head h) (r\<lparr>rl_decoder := d, rl_length := Some (body_length_new h head_request)\<rparr>))
            (\<lambda>_ r. (Inr (drop used bs), r)))"

text \<open>All but the last byte of the body so far is passed on.\<close>

definition relay_tail :: "relay \<Rightarrow> (exchange_fault + unit) \<times> relay" where
  "relay_tail r =
     (case rl_tail r of
        None \<Rightarrow> (Inr (), r)
      | Some b \<Rightarrow> on_sink (sink_body [b]) (r\<lparr>rl_tail := None\<rparr>))"

definition relay_body :: "bytes \<Rightarrow> relay \<Rightarrow> (exchange_fault + unit) \<times> relay" where
  "relay_body body r =
     (if body = [] then (Inr (), r)
      else case rl_length r of
        None \<Rightarrow> (Inl (ExProtocol IncompleteResponse), r)
      | Some bl \<Rightarrow>
          (case body_observe (length body) bl of
             Inl e \<Rightarrow> (Inl (ExProtocol e), r)
           | Inr bl \<Rightarrow>
               then_run (relay_tail (r\<lparr>rl_length := Some bl\<rparr>)) (\<lambda>_ r.
               then_run (if 1 < length body then on_sink (sink_body (butlast body)) r else (Inr (), r)) (\<lambda>_ r.
                 (Inr (), r\<lparr>rl_tail := Some (last body)\<rparr>)))))"

definition relay_stdout :: "cgi_http \<Rightarrow> bool \<Rightarrow> bytes \<Rightarrow> relay \<Rightarrow> (exchange_fault + unit) \<times> relay" where
  "relay_stdout http head_request bs r = then_run (relay_head http head_request bs r) relay_body"

text \<open>The checks at the end of the backend's output, and passing the last byte on.\<close>

definition relay_checks :: "relay \<Rightarrow> cgi_error + unit" where
  "relay_checks r =
     and_then (decoder_eof (rl_decoder r)) (\<lambda>_.
     and_then (ok_or IncompleteResponse (rl_length r)) body_finish)"

definition relay_flush :: "relay \<Rightarrow> (exchange_fault + unit) \<times> relay" where
  "relay_flush r = then_run (relay_tail r) (\<lambda>_. on_sink sink_finish)"

subsection \<open>Sending the request body\<close>

text \<open>A read of at most \<open>n\<close> bytes from pieces of input as they arrive.\<close>

fun read_some :: "nat \<Rightarrow> bytes list \<Rightarrow> (bytes \<times> bytes list) option" where
  "read_some n [] = None"
| "read_some n (p # ps) =
     (if p = [] then read_some n ps
      else Some (take n p, if length p \<le> n then ps else drop n p # ps))"

text \<open>What the backend has been sent; a write may fail after part of its bytes.\<close>

record upload =
  up_written :: bytes
  up_writes :: nat
  up_fault :: "nat \<Rightarrow> (nat \<times> exchange_fault) option"

definition upload_new :: "(nat \<Rightarrow> (nat \<times> exchange_fault) option) \<Rightarrow> upload" where
  "upload_new fault = \<lparr>up_written = [], up_writes = 0, up_fault = fault\<rparr>"

definition write_all :: "bytes \<Rightarrow> upload \<Rightarrow> (exchange_fault + unit) \<times> upload" where
  "write_all bs u =
     (case up_fault u (up_writes u) of
        Some (k, e) \<Rightarrow> (Inl e, u\<lparr>up_written := up_written u @ take k bs, up_writes := up_writes u + 1\<rparr>)
      | None \<Rightarrow> (Inr (), u\<lparr>up_written := up_written u @ bs, up_writes := up_writes u + 1\<rparr>))"

definition write_framed :: "cgi_error + bytes \<Rightarrow> upload \<Rightarrow> (exchange_fault + unit) \<times> upload" where
  "write_framed framed u = (case framed of Inl e \<Rightarrow> (Inl (ExProtocol e), u) | Inr bs \<Rightarrow> write_all bs u)"

lemma read_some_nonempty: "0 < n \<Longrightarrow> read_some n ps = Some (bs, qs) \<Longrightarrow> bs \<noteq> [] \<and> length bs \<le> n \<and> concat ps = bs @ concat qs"
  by (induction n ps rule: read_some.induct) (auto split: if_splits)

text \<open>The loop that sends \<open>remaining\<close> bytes of the input, which ends with \<open>broken\<close> or at its end.\<close>

function upload_body :: "(bytes \<Rightarrow> cgi_error + bytes) \<Rightarrow> exchange_fault option \<Rightarrow> nat \<Rightarrow> bytes list \<Rightarrow> upload \<Rightarrow>
    (exchange_fault + bytes list) \<times> upload" where
  "upload_body frame broken remaining input u =
     (if remaining = 0 then (Inr input, u)
      else case read_some (min remaining 8192) input of
        None \<Rightarrow> (Inl (case broken of Some e \<Rightarrow> e | None \<Rightarrow> ExRequestLength), u)
      | Some (bs, rest) \<Rightarrow>
          (case write_framed (frame bs) u of
             (Inl e, u) \<Rightarrow> (Inl e, u)
           | (Inr _, u) \<Rightarrow> upload_body frame broken (remaining - length bs) rest u))"
  by pat_completeness auto
termination
  by (relation "measure (\<lambda>(frame, broken, remaining, input, u). remaining)")
    (auto dest!: read_some_nonempty [rotated])

declare upload_body.simps [simp del]

text \<open>After the body, one more read has to find the end of the input.\<close>

definition upload_end :: "exchange_fault option \<Rightarrow> bytes list \<Rightarrow> upload \<Rightarrow> (exchange_fault + unit) \<times> upload" where
  "upload_end broken input u =
     (case (read_some 1 input, broken) of
        (Some _, _) \<Rightarrow> (Inl ExRequestLength, u)
      | (None, Some e) \<Rightarrow> (Inl e, u)
      | (None, None) \<Rightarrow> (Inr (), u))"

definition fcgi_send :: "exchange_fault option \<Rightarrow> bytes list \<Rightarrow> bytes \<Rightarrow> nat \<Rightarrow> upload \<Rightarrow> (exchange_fault + unit) \<times> upload" where
  "fcgi_send broken input parameters len u =
     then_run (write_all fcgi_begin u) (\<lambda>_ u.
     then_run (write_all parameters u) (\<lambda>_ u.
     then_run (upload_body (fcgi_encode fcgi_STDIN) broken len input u) (\<lambda>rest u.
     then_run (upload_end broken rest u) (\<lambda>_. write_framed (fcgi_encode fcgi_STDIN [])))))"

definition scgi_send :: "exchange_fault option \<Rightarrow> bytes list \<Rightarrow> bytes \<Rightarrow> nat \<Rightarrow> upload \<Rightarrow> (exchange_fault + unit) \<times> upload" where
  "scgi_send broken input headers len u =
     then_run (write_all headers u) (\<lambda>_ u.
     then_run (upload_body Inr broken len input u) (\<lambda>rest. upload_end broken rest))"

definition cgi_send :: "exchange_fault option \<Rightarrow> bytes list \<Rightarrow> nat \<Rightarrow> upload \<Rightarrow> (exchange_fault + unit) \<times> upload" where
  "cgi_send broken input len u =
     then_run (upload_body Inr broken len input u) (\<lambda>rest. upload_end broken rest)"

subsection \<open>FastCGI\<close>

record fcgi_report =
  stdout_bytes :: nat
  stderr_bytes :: nat

record fcgi_limits =
  lim_max_request :: nat
  lim_max_head :: nat
  lim_max_stderr :: nat

text \<open>
  \<open>receive\<close>: the bytes from the backend are \<open>wire\<close>, and waiting for more gives the fault \<open>broken\<close>.
\<close>

function fcgi_receive :: "cgi_http \<Rightarrow> bool \<Rightarrow> exchange_fault \<Rightarrow> bytes \<Rightarrow> responder \<Rightarrow> fcgi_report \<Rightarrow> relay \<Rightarrow>
    (exchange_fault + fcgi_report) \<times> relay" where
  "fcgi_receive http head_request broken wire rp report r =
     (if length wire < 8 then (Inl broken, r)
      else case fcgi_decode (take 8 wire) of
        Inl e \<Rightarrow> (Inl (ExProtocol e), r)
      | Inr _ \<Rightarrow>
          let content = be_value [wire ! 4, wire ! 5];
              total = 8 + content + code (wire ! 6) in
          if length wire < total then (Inl broken, r)
          else case fcgi_decode (take total wire) of
            Inl e \<Rightarrow> (Inl (ExProtocol e), r)
          | Inr None \<Rightarrow> (Inl (ExProtocol BadRecord), r)
          | Inr (Some (rec, _)) \<Rightarrow>
              (case responder_accept rec rp of
                 (Inl e, rp) \<Rightarrow> (Inl (ExProtocol e), r)
               | (Inr (Stdout bs), rp) \<Rightarrow>
                   (case relay_stdout http head_request bs r of
                      (Inl e, r) \<Rightarrow> (Inl e, r)
                    | (Inr _, r) \<Rightarrow>
                        fcgi_receive http head_request broken (drop total wire) rp
                          (report\<lparr>stdout_bytes := stdout_bytes report + length bs\<rparr>) r)
               | (Inr (Stderr bs), rp) \<Rightarrow>
                   fcgi_receive http head_request broken (drop total wire) rp
                     (report\<lparr>stderr_bytes := stderr_bytes report + length bs\<rparr>) r
               | (Inr (Complete app_status), rp) \<Rightarrow>
                   (case relay_checks r of
                      Inl e \<Rightarrow> (Inl (ExProtocol e), r)
                    | Inr _ \<Rightarrow>
                        if app_status \<noteq> 0 then (Inl (ExApplicationExit app_status), r)
                        else then_run (relay_flush r) (\<lambda>_ r. (Inr report, r)))))"
  by pat_completeness auto
termination
  by (relation "measure (\<lambda>(http, hr, broken, wire, rp, report, r). length wire)") (auto simp: not_less)

declare fcgi_receive.simps [simp del]

definition cgi_declared_length :: "environment \<Rightarrow> nat option" where
  "cgi_declared_length env =
     (case find (\<lambda>(name, _). name = ''CONTENT_LENGTH'') (env_iter env) of
        None \<Rightarrow> None
      | Some (_, v) \<Rightarrow> if v \<noteq> [] \<and> list_all is_ascii_digit v then parse_unsigned u64_max v else None)"

definition fcgi_run :: "cgi_http \<Rightarrow> fcgi_limits \<Rightarrow> environment \<Rightarrow> nat \<Rightarrow> bool \<Rightarrow> exchange_fault \<Rightarrow> bytes \<Rightarrow>
    (nat \<Rightarrow> send_outcome) \<Rightarrow> (exchange_fault + fcgi_report) \<times> sink" where
  "fcgi_run http limits env request_length head_request broken wire channel =
     (if lim_max_request limits < request_length then (Inl ExRequestLength, sink_new channel)
      else if cgi_declared_length env \<noteq> Some request_length then (Inl ExRequestLength, sink_new channel)
      else case fcgi_params env of
        Inl e \<Rightarrow> (Inl (ExProtocol e), sink_new channel)
      | Inr parameters \<Rightarrow>
          (case fcgi_receive http head_request broken wire (responder_new (lim_max_stderr limits))
              \<lparr>stdout_bytes = 0, stderr_bytes = 0\<rparr> (relay_new (lim_max_head limits) channel) of
             (res, r) \<Rightarrow> (res, rl_sink r)))"

subsection \<open>SCGI\<close>

text \<open>
  \<open>receive\<close> of the SCGI plugin: one element of \<open>reads\<close> per read, the empty one being the end of the
  response; waiting beyond them gives the fault \<open>broken\<close>.
\<close>

definition scgi_end :: "relay \<Rightarrow> (exchange_fault + unit) \<times> relay" where
  "scgi_end r = (case relay_checks r of Inl e \<Rightarrow> (Inl (ExProtocol e), r) | Inr _ \<Rightarrow> relay_flush r)"

fun scgi_receive :: "cgi_http \<Rightarrow> bool \<Rightarrow> exchange_fault \<Rightarrow> bytes list \<Rightarrow> relay \<Rightarrow> (exchange_fault + unit) \<times> relay" where
  "scgi_receive http head_request broken [] r = (Inl broken, r)"
| "scgi_receive http head_request broken (c # cs) r =
     (if c = [] then scgi_end r
      else then_run (relay_stdout http head_request c r) (\<lambda>_. scgi_receive http head_request broken cs))"

record scgi_limits =
  slim_max_request :: nat
  slim_max_head :: nat
  slim_max_environment :: nat

definition scgi_run :: "cgi_http \<Rightarrow> scgi_limits \<Rightarrow> environment \<Rightarrow> nat \<Rightarrow> bool \<Rightarrow> exchange_fault \<Rightarrow> bytes list \<Rightarrow>
    (nat \<Rightarrow> send_outcome) \<Rightarrow> (exchange_fault + unit) \<times> sink" where
  "scgi_run http limits env request_length head_request broken reads channel =
     (if slim_max_request limits < request_length then (Inl ExRequestLength, sink_new channel)
      else case scgi_headers env request_length (slim_max_environment limits) of
        Inl e \<Rightarrow> (Inl (ExProtocol e), sink_new channel)
      | Inr _ \<Rightarrow>
          (case scgi_receive http head_request broken reads (relay_new (slim_max_head limits) channel) of
             (res, r) \<Rightarrow> (res, rl_sink r)))"

subsection \<open>A CGI process\<close>

text \<open>\<open>drain\<close> counts standard error; the reads that exceed the limit end it.\<close>

definition drain_size :: "nat \<Rightarrow> nat \<Rightarrow> nat" where
  "drain_size limit n = min (saturating_add u64_max (limit - n) 1) 8192"

lemma drain_size_pos [simp]: "0 < drain_size limit n"
  by (simp add: drain_size_def saturating_add_def u64_max_def)

function cgi_drain :: "nat \<Rightarrow> exchange_fault option \<Rightarrow> nat \<Rightarrow> bytes list \<Rightarrow> exchange_fault + nat" where
  "cgi_drain limit broken n input =
     (case read_some (drain_size limit n) input of
        None \<Rightarrow> (case broken of Some e \<Rightarrow> Inl e | None \<Rightarrow> Inr n)
      | Some (bs, rest) \<Rightarrow>
          (case checked_add u64_max n (length bs) of
             None \<Rightarrow> Inl ExStderrLimit
           | Some m \<Rightarrow> if limit < m then Inl ExStderrLimit else cgi_drain limit broken m rest))"
  by pat_completeness auto
termination
  by (relation "measure (\<lambda>(limit, broken, n, input). length (concat input))")
    (auto dest!: read_some_nonempty [rotated])

declare cgi_drain.simps [simp del]

text \<open>\<open>receive\<close> of the CGI plugin hands the last byte back instead of passing it on.\<close>

fun cgi_receive :: "cgi_http \<Rightarrow> bool \<Rightarrow> exchange_fault \<Rightarrow> bytes list \<Rightarrow> relay \<Rightarrow> (exchange_fault + unit) \<times> relay" where
  "cgi_receive http head_request broken [] r = (Inl broken, r)"
| "cgi_receive http head_request broken (c # cs) r =
     (if c = [] then
        (case relay_checks r of Inl e \<Rightarrow> (Inl (ExProtocol e), r) | Inr _ \<Rightarrow> (Inr (), r))
      else then_run (relay_stdout http head_request c r) (\<lambda>_. cgi_receive http head_request broken cs))"

text \<open>
  The exchange joins the transfer, the drained standard error and the exit of the process: the first
  that fails ends the others, so what the join gives is the transfer, whose input may end with the
  fault of another, and then the outcome \<open>others\<close> of standard error and exit.
\<close>

definition cgi_status :: "exchange_fault + bool \<Rightarrow> exchange_fault + unit" where
  "cgi_status ended = and_then ended (\<lambda>success. if success then Inr () else Inl ExExitFailure)"

definition cgi_run :: "cgi_http \<Rightarrow> fcgi_limits \<Rightarrow> nat \<Rightarrow> bool \<Rightarrow> exchange_fault \<Rightarrow> bytes list \<Rightarrow> exchange_fault option \<Rightarrow>
    bytes list \<Rightarrow> exchange_fault + bool \<Rightarrow> bool \<Rightarrow> (nat \<Rightarrow> send_outcome) \<Rightarrow> (exchange_fault + nat) \<times> sink" where
  "cgi_run http limits request_length head_request broken reads stderr_broken stderr ended exit_first channel =
     (if lim_max_request limits < request_length then (Inl ExRequestLength, sink_new channel)
      else
        let drained = cgi_drain (lim_max_stderr limits) stderr_broken 0 stderr;
            status = cgi_status ended;
            others = (if exit_first then and_then status (\<lambda>_. drained)
                      else and_then drained (\<lambda>n. and_then status (\<lambda>_. Inr n))) in
        (case then_run (cgi_receive http head_request broken reads (relay_new (lim_max_head limits) channel)) (\<lambda>_ r.
              case others of Inl e \<Rightarrow> (Inl e, r) | Inr n \<Rightarrow> then_run (relay_flush r) (\<lambda>_ r. (Inr n, r))) of
           (res, r) \<Rightarrow> (res, rl_sink r)))"

subsection \<open>The terminal\<close>

datatype exchange_error = ExchangeTimeout | ExchangeUnavailable | ExchangeFailed

fun error_status :: "exchange_error \<Rightarrow> nat" where
  "error_status ExchangeTimeout = 504"
| "error_status ExchangeUnavailable = 503"
| "error_status ExchangeFailed = 502"

text \<open>The adapters of the plugins tell a timeout from every other fault.\<close>

definition adapt_fault :: "exchange_fault \<Rightarrow> exchange_error" where
  "adapt_fault e = (if e = ExTimeout then ExchangeTimeout else ExchangeFailed)"

definition checked_transfer :: "(exchange_fault + 'r) \<times> sink \<Rightarrow> exchange_error + unit" where
  "checked_transfer t =
     (case t of
        (Inl e, s) \<Rightarrow> Inl (adapt_fault e)
      | (Inr _, s) \<Rightarrow> if sk_phase s \<noteq> FINISHED then Inl ExchangeFailed else Inr ())"

text \<open>\<open>ResponseStream\<close>: the bytes of the messages in order, an error at a second head.\<close>

fun stream_items :: "cgi_message list \<Rightarrow> exchange_error + unit \<Rightarrow> bytes list \<times> bool" where
  "stream_items [] ended = ([], ended = Inr ())"
| "stream_items (HeadMsg h # ms) ended = ([], False)"
| "stream_items (BodyMsg bs # ms) ended = (case stream_items ms ended of (items, clean) \<Rightarrow> (bs # items, clean))"

text \<open>
  What \<open>execute\<close> answers once the exchange runs: a status, or the head with the body as it streams and
  whether the stream ends cleanly. An exchange that ends before its head is taken, \<open>early\<close>, answers
  with its fault.
\<close>

definition execute_response :: "bool \<Rightarrow> bool \<Rightarrow> (exchange_fault + 'r) \<times> sink \<Rightarrow> nat + cgi_head \<times> bytes list \<times> bool" where
  "execute_response head_request early t =
     (let transfer = checked_transfer t in
      case sk_sent (snd t) of
        HeadMsg h # ms \<Rightarrow>
          if early \<or> head_request \<or> ch_content_length h = Some 0 \<or> ch_status h = 204 \<or> ch_status h = 304 then
            (case transfer of Inl e \<Rightarrow> Inl (error_status e) | Inr _ \<Rightarrow> Inr (h, stream_items ms (Inr ())))
          else Inr (h, stream_items ms transfer)
      | _ \<Rightarrow> Inl (case transfer of Inl e \<Rightarrow> error_status e | Inr _ \<Rightarrow> 502))"

subsection \<open>What a sink has taken\<close>

lemma chunks_Nil [simp]: "chunks k [] = []"
  by (simp add: chunks.simps)

lemma sink_send_cases:
  obtains "sink_send m s = (Inr (), s\<lparr>sk_sent := sk_sent s @ [m]\<rparr>)" | e where "sink_send m s = (Inl e, s)"
  by (cases "sk_channel s (length (sk_sent s))") (auto simp: sink_send_def)

lemma send_all_prefix:
  "send_all ms s = (res, s') \<Longrightarrow> sk_phase s' = sk_phase s \<and>
    (\<exists>j \<le> length ms. sk_sent s' = sk_sent s @ take j ms \<and> (res = Inr () \<longrightarrow> j = length ms) \<and>
      (res \<noteq> Inr () \<longrightarrow> j < length ms))"
proof (induction ms arbitrary: s)
  case (Cons m ms)
  show ?case
  proof (cases m s rule: sink_send_cases)
    case 1
    with Cons.prems Cons.IH [of "s\<lparr>sk_sent := sk_sent s @ [m]\<rparr>"] obtain j where
      "sk_phase s' = sk_phase s" "j \<le> length ms" "sk_sent s' = sk_sent s @ m # take j ms" "res = Inr () \<longrightarrow> j = length ms"
      "res \<noteq> Inr () \<longrightarrow> j < length ms"
      by auto
    then show ?thesis by (intro conjI exI [of _ "Suc j"]) auto
  next
    case (2 e)
    with Cons.prems show ?thesis by (auto intro: exI [of _ 0])
  qed
qed simp

text \<open>Every call of the sink leaves it failed unless it succeeded.\<close>

lemma sink_head_cases:
  assumes "sk_phase s = EXPECT_HEAD"
  obtains "sink_head h s = (Inr (), s\<lparr>sk_phase := WRITING_BODY, sk_sent := sk_sent s @ [HeadMsg h]\<rparr>)"
  | e where "sink_head h s = (Inl e, s\<lparr>sk_phase := FAILED\<rparr>)"
  using assms by (cases "HeadMsg h" "s\<lparr>sk_phase := FAILED\<rparr>" rule: sink_send_cases)
    (auto simp: sink_head_def sink_begin_def)

lemma sink_body_cases:
  assumes "sk_phase s = WRITING_BODY" and "sink_body bs s = (res, s')"
  obtains (passed) ps where "res = Inr ()" "sk_phase s' = WRITING_BODY" "sk_sent s' = sk_sent s @ map BodyMsg ps" "concat ps = bs"
  | (broken) e ps qs where "res = Inl e" "sk_phase s' = FAILED" "sk_sent s' = sk_sent s @ map BodyMsg ps" "concat ps @ qs = bs" "qs \<noteq> []"
proof -
  let ?cs = "chunks output_chunk bs"
  obtain res1 s1 where s1: "send_all (map BodyMsg ?cs) (s\<lparr>sk_phase := FAILED\<rparr>) = (res1, s1)" by fastforce
  from send_all_prefix [OF s1] obtain j where j: "sk_phase s1 = FAILED" "j \<le> length ?cs"
    "sk_sent s1 = sk_sent s @ map BodyMsg (take j ?cs)" "res1 = Inr () \<longrightarrow> j = length ?cs"
    "res1 \<noteq> Inr () \<longrightarrow> j < length ?cs"
    by (auto simp: take_map)
  have whole: "concat ?cs = bs" by (rule concat_chunks) (simp add: output_chunk_def)
  have run: "(res, s') = then_run (res1, s1) (\<lambda>_ s. (Inr (), s\<lparr>sk_phase := WRITING_BODY\<rparr>))"
    using assms s1 by (simp add: sink_body_def sink_begin_def)
  show thesis
  proof (cases res1)
    case (Inl e)
    have "concat (take j ?cs) @ concat (drop j ?cs) = bs" using whole by (simp flip: concat_append)
    moreover have "j < length ?cs" using Inl j(5) by simp
    then have "?cs ! j \<noteq> []" "drop j ?cs = ?cs ! j # drop (Suc j) ?cs"
      using chunks_length [OF nth_mem] by (blast, simp add: Cons_nth_drop_Suc)
    then have "concat (drop j ?cs) \<noteq> []" by simp
    ultimately show thesis using Inl run j by (intro broken [of e "take j ?cs" "concat (drop j ?cs)"]) auto
  next
    case (Inr a)
    with run j whole show thesis by (intro passed [of ?cs]) auto
  qed
qed

lemma head_cut_take: "head_cut n s \<Longrightarrow> head_cut n (take n s)"
  by (auto simp: head_cut_def min.absorb1)

subsection \<open>The relay in progress\<close>

definition expected_of :: "bool \<Rightarrow> cgi_head \<Rightarrow> nat option" where
  "expected_of head_request h = bl_expected (body_length_new h head_request)"

text \<open>
  \<open>stdout\<close> is everything the backend wrote: a complete relay has passed on its head and all of its body,
  of the declared length; a partial one is short of the declared length.
\<close>

definition complete_relay :: "cgi_http \<Rightarrow> bool \<Rightarrow> bytes \<Rightarrow> cgi_message list \<Rightarrow> bool" where
  "complete_relay http head_request stdout ms \<longleftrightarrow>
     (\<exists>n h ps. head_cut n stdout \<and> parse_head http (take n stdout) = Inr h \<and> ms = HeadMsg h # map BodyMsg ps \<and>
        concat ps = drop n stdout \<and> (\<forall>k. expected_of head_request h = Some k \<longrightarrow> length (drop n stdout) = k))"

definition partial_relay :: "bool \<Rightarrow> cgi_message list \<Rightarrow> bool" where
  "partial_relay head_request ms \<longleftrightarrow>
     ms = [] \<or> (\<exists>h ps. ms = HeadMsg h # map BodyMsg ps \<and>
        (\<forall>k. expected_of head_request h = Some k \<longrightarrow> concat ps = [] \<or> length (concat ps) < k))"

definition relay_waiting :: "bytes \<Rightarrow> relay \<Rightarrow> bool" where
  "relay_waiting stdout r \<longleftrightarrow> rl_length r = None \<and> decoder_open (rl_decoder r) \<and> hd_bytes (rl_decoder r) = stdout \<and>
     rl_tail r = None \<and> sk_phase (rl_sink r) = EXPECT_HEAD \<and> sk_sent (rl_sink r) = []"

definition relay_writing :: "cgi_http \<Rightarrow> bool \<Rightarrow> bytes \<Rightarrow> relay \<Rightarrow> nat \<Rightarrow> cgi_head \<Rightarrow> bytes list \<Rightarrow> bool" where
  "relay_writing http head_request stdout r n h ps \<longleftrightarrow>
     hd_finished (rl_decoder r) \<and> head_cut n stdout \<and> parse_head http (take n stdout) = Inr h \<and>
     rl_length r = Some \<lparr>bl_expected = expected_of head_request h, bl_received = length (drop n stdout)\<rparr> \<and>
     (\<forall>k. expected_of head_request h = Some k \<longrightarrow> length (drop n stdout) \<le> k) \<and>
     sk_phase (rl_sink r) = WRITING_BODY \<and> sk_sent (rl_sink r) = HeadMsg h # map BodyMsg ps \<and>
     drop n stdout = concat ps @ (case rl_tail r of None \<Rightarrow> [] | Some b \<Rightarrow> [b]) \<and>
     (rl_tail r = None \<longrightarrow> drop n stdout = [])"

definition relay_inv :: "cgi_http \<Rightarrow> bool \<Rightarrow> bytes \<Rightarrow> relay \<Rightarrow> bool" where
  "relay_inv http head_request stdout r \<longleftrightarrow>
     relay_waiting stdout r \<or> (\<exists>n h ps. relay_writing http head_request stdout r n h ps)"

definition relay_stopped :: "bool \<Rightarrow> sink \<Rightarrow> bool" where
  "relay_stopped head_request s \<longleftrightarrow> sk_phase s \<noteq> FINISHED \<and> partial_relay head_request (sk_sent s)"

lemma relay_new_inv: "relay_inv http head_request [] (relay_new limit channel)"
  by (simp add: relay_inv_def relay_waiting_def relay_new_def sink_new_def decoder_new_open)
    (simp add: decoder_new_def)

lemma partial_Nil [simp]: "partial_relay hr []"
  by (simp add: partial_relay_def)

lemma partial_pieces:
  assumes "\<And>k. expected_of hr h = Some k \<Longrightarrow> concat ps = [] \<or> length (concat ps) < k"
  shows "partial_relay hr (HeadMsg h # map BodyMsg ps)"
  using assms by (auto simp: partial_relay_def)

lemma partial_prefix:
  assumes "\<And>k. expected_of hr h = Some k \<Longrightarrow> length body \<le> k" and "concat ps @ qs = body" and "concat ps = [] \<or> qs \<noteq> []"
  shows "partial_relay hr (HeadMsg h # map BodyMsg ps)"
proof (rule partial_pieces)
  fix k assume "expected_of hr h = Some k"
  from assms(1) [OF this] assms(2,3) show "concat ps = [] \<or> length (concat ps) < k"
    by (cases "concat ps = []") (auto simp flip: length_greater_0_conv)
qed

lemma relay_writing_stopped:
  assumes "relay_writing http hr stdout r n h ps"
  shows "relay_stopped hr (rl_sink r)"
proof -
  note w = assms [unfolded relay_writing_def]
  let ?tail = "case rl_tail r of None \<Rightarrow> [] | Some b \<Rightarrow> [b]"
  have "partial_relay hr (HeadMsg h # map BodyMsg ps)"
  proof (rule partial_prefix)
    show "length (drop n stdout) \<le> k" if "expected_of hr h = Some k" for k using w that by blast
    show "concat ps @ ?tail = drop n stdout" using w by simp
    show "concat ps = [] \<or> ?tail \<noteq> []" using w by (cases "rl_tail r") auto
  qed
  then show ?thesis using assms by (simp add: relay_stopped_def relay_writing_def)
qed

lemma relay_inv_stopped: "relay_inv http hr stdout r \<Longrightarrow> relay_stopped hr (rl_sink r)"
  by (auto simp: relay_inv_def relay_waiting_def relay_stopped_def [of hr "rl_sink r"]
      dest: relay_writing_stopped [unfolded relay_stopped_def])

lemma relay_tail_cases:
  assumes "sk_phase (rl_sink r) = WRITING_BODY" and "sk_sent (rl_sink r) = HeadMsg h # map BodyMsg ps"
    and "relay_tail r = (res, r')" and body: "body = concat ps @ (case rl_tail r of None \<Rightarrow> [] | Some b \<Rightarrow> [b])"
  obtains (passed) ps' where "res = Inr ()" "rl_tail r' = None" "rl_length r' = rl_length r" "rl_decoder r' = rl_decoder r"
      "sk_phase (rl_sink r') = WRITING_BODY" "sk_sent (rl_sink r') = HeadMsg h # map BodyMsg ps'" "concat ps' = body"
  | (broken) e ps' qs where "res = Inl e" "sk_phase (rl_sink r') = FAILED"
      "sk_sent (rl_sink r') = HeadMsg h # map BodyMsg ps'" "concat ps' @ qs = body" "qs \<noteq> []"
proof (cases "rl_tail r")
  case None
  with assms show thesis by (intro passed [of ps]) (auto simp: relay_tail_def)
next
  case (Some b)
  obtain s' where s': "sink_body [b] (rl_sink r) = (res, s')" and r': "r' = r\<lparr>rl_tail := None, rl_sink := s'\<rparr>"
    using assms(3) Some by (auto simp: relay_tail_def on_sink_def split: prod.splits)
  from assms(1) s' show thesis
  proof (cases rule: sink_body_cases)
    case (passed qs)
    with assms Some r' show thesis by (intro that(1) [of "ps @ qs"]) auto
  next
    case (broken e qs rest)
    with assms Some r' show thesis by (intro that(2) [of e "ps @ qs" rest]) auto
  qed
qed

lemma observe_cases:
  assumes "body_observe n \<lparr>bl_expected = ex, bl_received = m\<rparr> = Inr bl"
  shows "bl = \<lparr>bl_expected = ex, bl_received = m + n\<rparr>" and "ex = Some k \<Longrightarrow> m + n \<le> k"
  using assms by (auto simp: body_observe_def checked_add_Some split: if_splits option.splits)

lemma relay_body_inv:
  assumes inv: "relay_writing http hr stdout r n h ps" and run: "relay_body body r = (res, r')"
  shows "case res of Inr _ \<Rightarrow> (\<exists>ps. relay_writing http hr (stdout @ body) r' n h ps) | Inl e \<Rightarrow> relay_stopped hr (rl_sink r')"
proof (cases "body = []")
  case True
  with assms show ?thesis by (auto simp: relay_body_def)
next
  case False
  let ?bl = "\<lparr>bl_expected = expected_of hr h, bl_received = length (drop n stdout)\<rparr>"
  note w = inv [unfolded relay_writing_def]
  have cut: "head_cut n (stdout @ body)" "take n (stdout @ body) = take n stdout"
    "drop n (stdout @ body) = drop n stdout @ body" using w by (auto simp: head_cut_def)
  show ?thesis
  proof (cases "body_observe (length body) ?bl")
    case (Inl e)
    with run w False relay_writing_stopped [OF inv] show ?thesis by (auto simp: relay_body_def)
  next
    case (Inr bl)
    note bl = observe_cases [OF Inr]
    let ?r = "r\<lparr>rl_length := Some bl\<rparr>"
    obtain res1 r1 where r1: "relay_tail ?r = (res1, r1)" by fastforce
    have phase: "sk_phase (rl_sink ?r) = WRITING_BODY" and sent: "sk_sent (rl_sink ?r) = HeadMsg h # map BodyMsg ps"
      and whole: "drop n stdout = concat ps @ (case rl_tail ?r of None \<Rightarrow> [] | Some b \<Rightarrow> [b])" using w by auto
    have run1: "(res, r') = then_run (res1, r1) (\<lambda>_ r.
        then_run (if 1 < length body then on_sink (sink_body (butlast body)) r else (Inr (), r)) (\<lambda>_ r.
          (Inr (), r\<lparr>rl_tail := Some (last body)\<rparr>)))"
      using run w False Inr r1 by (simp add: relay_body_def)
    have short: "partial_relay hr (HeadMsg h # map BodyMsg qs)" if "concat qs @ rest = drop n stdout @ butlast body" for qs rest
    proof (rule partial_prefix)
      show "concat qs @ rest @ [last body] = drop n stdout @ body" 
        using that append_butlast_last_id [OF False] by (metis append.assoc)
      show "length (drop n stdout @ body) \<le> k" if "expected_of hr h = Some k" for k using bl(2) [OF that] by simp
    qed simp
    from phase sent r1 whole show ?thesis
    proof (cases rule: relay_tail_cases)
      case (broken e qs rest)
      have "partial_relay hr (HeadMsg h # map BodyMsg qs)"
        by (rule short [of qs "rest @ butlast body"]) (use broken in simp)
      with broken run1 show ?thesis by (simp add: relay_stopped_def)
    next
      case (passed qs)
      show ?thesis
      proof (cases "1 < length body")
        case True
        obtain res2 s2 where s2: "sink_body (butlast body) (rl_sink r1) = (res2, s2)" by fastforce
        have run2: "(res, r') = then_run (res2, r1\<lparr>rl_sink := s2\<rparr>) (\<lambda>_ r. (Inr (), r\<lparr>rl_tail := Some (last body)\<rparr>))"
          using run1 passed(1) True s2 by (simp add: on_sink_def)
        from passed(5) s2 show ?thesis
        proof (cases rule: sink_body_cases)
          case (passed ts)
          with run2 \<open>concat qs = drop n stdout\<close> \<open>sk_sent (rl_sink r1) = _\<close> \<open>rl_length r1 = _\<close> \<open>rl_decoder r1 = _\<close> w cut bl False
          show ?thesis by (auto simp: relay_writing_def intro!: exI [of _ "qs @ ts"])
        next
          case (broken e ts rest)
          have "partial_relay hr (HeadMsg h # map BodyMsg (qs @ ts))"
            by (rule short [of "qs @ ts" rest]) (use broken passed in simp)
          with broken run2 passed(6) show ?thesis by (simp add: relay_stopped_def)
        qed
      next
        case one: False
        with False have body: "body = [last body]" by (cases body rule: rev_cases) auto
        with one run1 passed w cut bl show ?thesis by (auto simp: relay_writing_def intro!: exI [of _ qs])
      qed
    qed
  qed
qed

lemma relay_stdout_inv:
  assumes inv: "relay_inv http hr stdout r" and run: "relay_stdout http hr bs r = (res, r')"
  shows "case res of Inr _ \<Rightarrow> relay_inv http hr (stdout @ bs) r' | Inl e \<Rightarrow> relay_stopped hr (rl_sink r')"
proof (cases "relay_waiting stdout r")
  case False
  with inv obtain n h ps where w: "relay_writing http hr stdout r n h ps" by (auto simp: relay_inv_def)
  then have "relay_body bs r = (res, r')" using run by (simp add: relay_stdout_def relay_head_def relay_writing_def)
  from relay_body_inv [OF w this] show ?thesis by (auto simp: relay_inv_def split: sum.splits)
next
  case True
  note w = True [unfolded relay_waiting_def]
  have open_d: "decoder_open (rl_decoder r)" using w by simp
  from open_d show ?thesis
  proof (cases rule: feed_cases [where input = bs and http = http])
    case (head n h)
    let ?d = "(rl_decoder r)\<lparr>hd_bytes := take n (stdout @ bs), hd_finished := True\<rparr>"
    let ?r = "r\<lparr>rl_decoder := ?d, rl_length := Some (body_length_new h hr)\<rparr>"
    let ?rest = "drop (n - length stdout) bs"
    have cut: "head_cut n (stdout @ bs)" "length stdout < n" "parse_head http (take n (stdout @ bs)) = Inr h"
      using head w by auto
    have runs: "(res, r') = then_run (then_run (on_sink (sink_head h) ?r) (\<lambda>_ r. (Inr ?rest, r))) relay_body"
      using run head(5) w by (simp add: relay_stdout_def relay_head_def)
    have phase: "sk_phase (rl_sink ?r) = EXPECT_HEAD" using w by simp
    show ?thesis
    proof (cases rule: sink_head_cases [OF phase, of h])
      case (2 e)
      with runs w show ?thesis by (simp add: on_sink_def relay_stopped_def)
    next
      case 1
      let ?s = "(rl_sink r)\<lparr>sk_phase := WRITING_BODY, sk_sent := [HeadMsg h]\<rparr>"
      have "relay_body ?rest (?r\<lparr>rl_sink := ?s\<rparr>) = (res, r')"
        using runs 1 w by (simp add: on_sink_def)
      moreover have "relay_writing http hr (take n (stdout @ bs)) (?r\<lparr>rl_sink := ?s\<rparr>) n h []"
        using cut w head_cut_take [OF cut(1)]
        by (simp add: relay_writing_def expected_of_def body_length_new_def Let_def del: take_append)
      moreover have "take n (stdout @ bs) @ ?rest = stdout @ bs" using cut(2) by simp
      ultimately show ?thesis using relay_body_inv [of http hr "take n (stdout @ bs)" "?r\<lparr>rl_sink := ?s\<rparr>" n h "[]" ?rest res r']
        by (auto simp: relay_inv_def split: sum.splits)
    qed
  next
    case waiting
    with run w show ?thesis
      by (auto simp: relay_stdout_def relay_head_def relay_body_def relay_inv_def relay_waiting_def decoder_open_def)
  next
    case (failed e d')
    with run w show ?thesis by (auto simp: relay_stdout_def relay_head_def relay_stopped_def)
  qed
qed

lemma relay_flush_complete:
  assumes inv: "relay_inv http hr stdout r" and checks: "relay_checks r = Inr u" and run: "relay_flush r = (res, r')"
  shows "case res of Inr _ \<Rightarrow> sk_phase (rl_sink r') = FINISHED \<and> complete_relay http hr stdout (sk_sent (rl_sink r'))
    | Inl e \<Rightarrow> relay_stopped hr (rl_sink r')"
proof -
  have "\<not> relay_waiting stdout r"
    using checks by (auto simp: relay_waiting_def relay_checks_def decoder_eof_def decoder_open_def)
  with inv obtain n h ps where w: "relay_writing http hr stdout r n h ps" by (auto simp: relay_inv_def)
  note w' = w [unfolded relay_writing_def]
  have len: "\<forall>k. expected_of hr h = Some k \<longrightarrow> length (drop n stdout) = k"
  proof -
    have "hd_finished (rl_decoder r)"
      "rl_length r = Some \<lparr>bl_expected = expected_of hr h, bl_received = length (drop n stdout)\<rparr>" using w' by blast+
    with checks show ?thesis by (auto simp: relay_checks_def decoder_eof_def ok_or_def body_finish_def split: if_splits)
  qed
  obtain res1 r1 where r1: "relay_tail r = (res1, r1)" by fastforce
  have run1: "(res, r') = then_run (res1, r1) (\<lambda>_. on_sink sink_finish)" using run r1 by (simp add: relay_flush_def)
  have phase: "sk_phase (rl_sink r) = WRITING_BODY" and sent: "sk_sent (rl_sink r) = HeadMsg h # map BodyMsg ps"
    and whole: "drop n stdout = concat ps @ (case rl_tail r of None \<Rightarrow> [] | Some b \<Rightarrow> [b])" using w' by auto
  from phase sent r1 whole show ?thesis
  proof (cases rule: relay_tail_cases)
    case (passed qs)
    have "complete_relay http hr stdout (HeadMsg h # map BodyMsg qs)"
      unfolding complete_relay_def
      by (rule exI [of _ n], rule exI [of _ h], rule exI [of _ qs]) (use passed(7) w' len in blast)
    with passed run1 show ?thesis by (simp add: on_sink_def sink_finish_def sink_begin_def Let_def)
  next
    case (broken e qs rest)
    have "partial_relay hr (HeadMsg h # map BodyMsg qs)"
      by (rule partial_prefix [of hr h "drop n stdout" qs rest]) (use broken len in auto)
    with broken run1 show ?thesis by (simp add: relay_stopped_def)
  qed
qed

subsection \<open>Exchanges keep the contract\<close>

text \<open>What a FastCGI backend wrote to its standard output, up to the end of the request.\<close>

function wire_stdout :: "bytes \<Rightarrow> bytes" where
  "wire_stdout wire =
     (case fcgi_decode wire of
        Inr (Some (rec, n)) \<Rightarrow>
          if fr_kind rec = fcgi_END then []
          else (if fr_kind rec = fcgi_STDOUT then fr_body rec else []) @ wire_stdout (drop n wire)
      | _ \<Rightarrow> [])"
  by pat_completeness auto
termination
  by (relation "measure length") (auto dest!: fcgi_decode_consumes)

declare wire_stdout.simps [simp del]

lemma fcgi_decode_whole:
  assumes "8 \<le> length wire" and "n = 8 + be_value [wire ! 4, wire ! 5] + code (wire ! 6)" and "n \<le> length wire"
    and "fcgi_decode (take n wire) = Inr (Some (rec, m))"
  shows "fcgi_decode wire = Inr (Some (rec, n))"
  using assms by (auto simp: fcgi_decode_def Let_def drop_take split: if_splits)

lemma accept_kinds:
  "responder_accept rec rp = (Inr (Stdout bs), rp') \<Longrightarrow> fr_kind rec = fcgi_STDOUT \<and> fr_body rec = bs"
  "responder_accept rec rp = (Inr (Stderr bs), rp') \<Longrightarrow> fr_kind rec = fcgi_STDERR"
  "responder_accept rec rp = (Inr (Complete k), rp') \<Longrightarrow> fr_kind rec = fcgi_END"
  by (auto simp: responder_accept_def split: if_splits option.splits)

lemma fcgi_receive_inv:
  "relay_inv http hr out r \<Longrightarrow> fcgi_receive http hr broken wire rp report r = (res, r') \<Longrightarrow>
    case res of
      Inr _ \<Rightarrow> sk_phase (rl_sink r') = FINISHED \<and> complete_relay http hr (out @ wire_stdout wire) (sk_sent (rl_sink r'))
    | Inl e \<Rightarrow> relay_stopped hr (rl_sink r')"
proof (induction wire arbitrary: rp report r out rule: measure_induct_rule [where f = length])
  case (less wire)
  note stopped = relay_inv_stopped [OF less.prems(1)]
  let ?n = "8 + be_value [wire ! 4, wire ! 5] + code (wire ! 6)"
  note eq = fcgi_receive.simps [of http hr broken wire rp report r]
  show ?case
  proof (cases "8 \<le> length wire \<and> ?n \<le> length wire \<and> (\<exists>rec m. fcgi_decode (take ?n wire) = Inr (Some (rec, m)))")
    case False
    then have "\<exists>e. fcgi_receive http hr broken wire rp report r = (Inl e, r)"
      unfolding eq by (auto simp: Let_def not_less not_le split: sum.splits option.splits)
    with less.prems(2) stopped show ?thesis by auto
  next
    case True
    then obtain rec m where long: "8 \<le> length wire" "?n \<le> length wire" and rec: "fcgi_decode (take ?n wire) = Inr (Some (rec, m))"
      by blast
    note whole = fcgi_decode_whole [OF long(1) refl long(2) rec]
    have first: "\<exists>x. fcgi_decode (take 8 wire) = Inr x"
      using long whole by (auto simp: fcgi_decode_def Let_def split: if_splits)
    obtain res1 rp1 where accept: "responder_accept rec rp = (res1, rp1)" by fastforce
    have run: "fcgi_receive http hr broken wire rp report r =
      (case (res1, rp1) of
         (Inl e, rp) \<Rightarrow> (Inl (ExProtocol e), r)
       | (Inr (Stdout bs), rp) \<Rightarrow>
           (case relay_stdout http hr bs r of
              (Inl e, r) \<Rightarrow> (Inl e, r)
            | (Inr _, r) \<Rightarrow> fcgi_receive http hr broken (drop ?n wire) rp
                (report\<lparr>stdout_bytes := stdout_bytes report + length bs\<rparr>) r)
       | (Inr (Stderr bs), rp) \<Rightarrow>
           fcgi_receive http hr broken (drop ?n wire) rp (report\<lparr>stderr_bytes := stderr_bytes report + length bs\<rparr>) r
       | (Inr (Complete app_status), rp) \<Rightarrow>
           (case relay_checks r of
              Inl e \<Rightarrow> (Inl (ExProtocol e), r)
            | Inr _ \<Rightarrow> if app_status \<noteq> 0 then (Inl (ExApplicationExit app_status), r)
                else then_run (relay_flush r) (\<lambda>_ r. (Inr report, r))))"
      unfolding eq using long first rec accept by (auto simp: Let_def)
    have shorter: "length (drop ?n wire) < length wire" using long by simp
    have out: "wire_stdout wire = (if fr_kind rec = fcgi_END then []
        else (if fr_kind rec = fcgi_STDOUT then fr_body rec else []) @ wire_stdout (drop ?n wire))"
      by (subst wire_stdout.simps) (simp add: whole)
    show ?thesis
    proof (cases res1)
      case (Inl e)
      with run less.prems(2) stopped show ?thesis by auto
    next
      case (Inr ev)
      show ?thesis
      proof (cases ev)
        case (Stdout bs)
        obtain res2 r2 where r2: "relay_stdout http hr bs r = (res2, r2)" by fastforce
        have "wire_stdout wire = bs @ wire_stdout (drop ?n wire)"
          using out accept_kinds(1) [of rec rp bs rp1] accept Inr Stdout by simp
        with relay_stdout_inv [OF less.prems(1) r2] less.prems(2) run Inr Stdout r2
          less.IH [OF shorter, of "out @ bs" r2] show ?thesis by (cases res2) (auto split: sum.splits)
      next
        case (Stderr bs)
        have "wire_stdout wire = wire_stdout (drop ?n wire)"
          using out accept_kinds(2) [of rec rp bs rp1] accept Inr Stderr by simp
        with less.prems run Inr Stderr less.IH [OF shorter, of out r] show ?thesis
          by (auto split: sum.splits)
      next
        case (Complete status)
        have no_more: "wire_stdout wire = []" using out accept_kinds(3) [of rec rp status rp1] accept Inr Complete by simp
        show ?thesis
        proof (cases "relay_checks r")
          case checks: (Inr u)
          obtain res2 r2 where r2: "relay_flush r = (res2, r2)" by fastforce
          have "out @ wire_stdout wire = out" using no_more by (simp only: append_Nil2)
          then show ?thesis using relay_flush_complete [OF less.prems(1) checks r2] less.prems(2) run Inr Complete checks r2 stopped
            by (cases res2) (simp_all split: if_splits, auto)
        qed (use less.prems(2) run Inr Complete stopped in auto)
      qed
    qed
  qed
qed

fun reads_stdout :: "bytes list \<Rightarrow> bytes" where
  "reads_stdout [] = []"
| "reads_stdout (c # cs) = (if c = [] then [] else c @ reads_stdout cs)"

lemma scgi_receive_inv:
  "relay_inv http hr out r \<Longrightarrow> scgi_receive http hr broken reads r = (res, r') \<Longrightarrow>
    case res of
      Inr _ \<Rightarrow> sk_phase (rl_sink r') = FINISHED \<and> complete_relay http hr (out @ reads_stdout reads) (sk_sent (rl_sink r'))
    | Inl e \<Rightarrow> relay_stopped hr (rl_sink r')"
proof (induction reads arbitrary: out r)
  case Nil
  then show ?case by (auto dest: relay_inv_stopped)
next
  case (Cons c cs)
  show ?case
  proof (cases "c = []")
    case True
    show ?thesis
    proof (cases "relay_checks r")
      case (Inl e)
      with Cons.prems True relay_inv_stopped show ?thesis by (auto simp: scgi_end_def)
    next
      case (Inr u)
      with relay_flush_complete [OF Cons.prems(1) Inr] Cons.prems(2) True show ?thesis by (simp add: scgi_end_def split: sum.splits)
    qed
  next
    case False
    obtain res1 r1 where r1: "relay_stdout http hr c r = (res1, r1)" by fastforce
    from relay_stdout_inv [OF Cons.prems(1) r1] Cons.prems(2) Cons.IH [of "out @ c" r1] False r1
    show ?thesis by (cases res1) (auto split: sum.splits)
  qed
qed

lemma cgi_receive_inv:
  "relay_inv http hr out r \<Longrightarrow> cgi_receive http hr broken reads r = (res, r') \<Longrightarrow>
    case res of
      Inr _ \<Rightarrow> relay_inv http hr (out @ reads_stdout reads) r' \<and> relay_checks r' = Inr ()
    | Inl e \<Rightarrow> relay_stopped hr (rl_sink r')"
proof (induction reads arbitrary: out r)
  case Nil
  then show ?case by (auto dest: relay_inv_stopped)
next
  case (Cons c cs)
  show ?case
  proof (cases "c = []")
    case True
    with Cons.prems relay_inv_stopped show ?thesis by (auto split: sum.splits)
  next
    case False
    obtain res1 r1 where r1: "relay_stdout http hr c r = (res1, r1)" by fastforce
    from relay_stdout_inv [OF Cons.prems(1) r1] Cons.prems(2) Cons.IH [of "out @ c" r1] False r1
    show ?thesis by (cases res1) (auto split: sum.splits)
  qed
qed

subsection \<open>The contract of a backend\<close>

text \<open>
  What the terminal relies on: an exchange that succeeds has finished the sink and passed on all the
  backend wrote, an exchange that fails has not finished it and is short of any declared length.
\<close>

locale cgi_backend =
  fixes exchange :: "'w \<Rightarrow> (nat \<Rightarrow> send_outcome) \<Rightarrow> (exchange_fault + 'r) \<times> sink"
    and http :: cgi_http and head_request :: bool and stdout_of :: "'w \<Rightarrow> bytes"
  assumes completes: "exchange w channel = (Inr x, s) \<Longrightarrow>
      sk_phase s = FINISHED \<and> complete_relay http head_request (stdout_of w) (sk_sent s)"
    and stops: "exchange w channel = (Inl e, s) \<Longrightarrow> relay_stopped head_request s"

text \<open>
  A response that is honest about the backend's output: one that ends cleanly has the head and all of
  the body, of the declared length; one that does not is short of the declared length.
\<close>

definition honest_response :: "cgi_http \<Rightarrow> bool \<Rightarrow> bytes \<Rightarrow> nat + cgi_head \<times> bytes list \<times> bool \<Rightarrow> bool" where
  "honest_response http head_request stdout answer \<longleftrightarrow>
     (case answer of
        Inl status \<Rightarrow> status \<in> {502, 503, 504}
      | Inr (h, items, True) \<Rightarrow>
          (\<exists>n. head_cut n stdout \<and> parse_head http (take n stdout) = Inr h \<and> concat items = drop n stdout) \<and>
          (\<forall>k. expected_of head_request h = Some k \<longrightarrow> length (concat items) = k)
      | Inr (h, items, False) \<Rightarrow> (\<forall>k. expected_of head_request h = Some k \<longrightarrow> length (concat items) < k))"

lemma stream_items_bodies: "stream_items (map BodyMsg ps) ended = (ps, ended = Inr ())"
  by (induction ps) simp_all

lemma error_status_range: "error_status e \<in> {502, 503, 504}"
  by (cases e) simp_all

lemma waits_for_empty:
  "expected_of head_request h = Some 0 \<Longrightarrow>
    head_request \<or> ch_content_length h = Some 0 \<or> ch_status h = 204 \<or> ch_status h = 304"
  by (auto simp: expected_of_def body_length_new_def Let_def split: if_splits)

context cgi_backend
begin

lemma response_complete:
  assumes "exchange w channel = (Inr x, s)"
  obtains n h items where "execute_response head_request early (exchange w channel) = Inr (h, items, True)"
    "head_cut n (stdout_of w)" "parse_head http (take n (stdout_of w)) = Inr h" "concat items = drop n (stdout_of w)"
    "\<forall>k. expected_of head_request h = Some k \<longrightarrow> length (concat items) = k"
proof -
  obtain n h ps where ps: "sk_phase s = FINISHED" "head_cut n (stdout_of w)" "parse_head http (take n (stdout_of w)) = Inr h"
    "sk_sent s = HeadMsg h # map BodyMsg ps" "concat ps = drop n (stdout_of w)"
    "\<forall>k. expected_of head_request h = Some k \<longrightarrow> length (drop n (stdout_of w)) = k"
    using completes [OF assms] by (auto simp: complete_relay_def)
  have "checked_transfer (exchange w channel) = Inr ()" using assms ps(1) by (simp add: checked_transfer_def)
  then have "execute_response head_request early (exchange w channel) = Inr (h, ps, True)"
    by (simp add: execute_response_def Let_def assms ps(4) stream_items_bodies)
  from that [OF this ps(2,3,5)] ps(5,6) show thesis by simp
qed

lemma response_honest:
  "honest_response http head_request (stdout_of w) (execute_response head_request early (exchange w channel))"
proof (cases "exchange w channel")
  case (Pair res s)
  show ?thesis
  proof (cases res)
    case (Inr x)
    with Pair have "exchange w channel = (Inr x, s)" by simp
    then obtain n h items where answer: "execute_response head_request early (exchange w channel) = Inr (h, items, True)"
      and whole: "head_cut n (stdout_of w)" "parse_head http (take n (stdout_of w)) = Inr h" "concat items = drop n (stdout_of w)"
      and len: "\<forall>k. expected_of head_request h = Some k \<longrightarrow> length (concat items) = k"
      by (rule response_complete [where early = early]) (rule that; assumption)
    have "\<exists>n. head_cut n (stdout_of w) \<and> parse_head http (take n (stdout_of w)) = Inr h \<and> concat items = drop n (stdout_of w)"
      using whole by blast
    with len show ?thesis by (simp add: honest_response_def answer)
  next
    case (Inl e)
    then have st: "relay_stopped head_request s" using stops [of w channel e s] Pair by simp
    show ?thesis
    proof (cases "sk_sent s = []")
      case True
      then have "execute_response head_request early (exchange w channel) = Inl (error_status (adapt_fault e))"
        by (simp add: execute_response_def Let_def checked_transfer_def Pair Inl)
      then show ?thesis using error_status_range [of "adapt_fault e"] by (simp add: honest_response_def)
    next
      case False
      with st obtain h ps where ps: "sk_sent s = HeadMsg h # map BodyMsg ps"
        "\<And>k. expected_of head_request h = Some k \<Longrightarrow> concat ps = [] \<or> length (concat ps) < k"
        by (auto simp: relay_stopped_def partial_relay_def)
      show ?thesis
      proof (cases "early \<or> head_request \<or> ch_content_length h = Some 0 \<or> ch_status h = 204 \<or> ch_status h = 304")
        case True
        then have "execute_response head_request early (exchange w channel) = Inl (error_status (adapt_fault e))"
          unfolding execute_response_def Let_def by (simp add: checked_transfer_def Pair Inl ps(1))
        then show ?thesis using error_status_range [of "adapt_fault e"] by (simp add: honest_response_def)
      next
        case late: False
        then have "expected_of head_request h \<noteq> Some 0" using waits_for_empty by blast
        then have "length (concat ps) < k" if "expected_of head_request h = Some k" for k
          using ps(2) [OF that] that by (metis list.size(3) not_gr_zero)
        moreover have "execute_response head_request early (exchange w channel) = Inr (h, ps, False)"
          using late unfolding execute_response_def Let_def
          by (simp add: checked_transfer_def Pair Inl ps(1) stream_items_bodies)
        ultimately show ?thesis by (simp add: honest_response_def)
      qed
    qed
  qed
qed

end

lemma relay_new_stopped: "relay_stopped hr (sink_new channel)"
  by (simp add: relay_stopped_def sink_new_def)

interpretation fcgi: cgi_backend "fcgi_run http limits env len hr broken" http hr wire_stdout
  for http limits env len hr broken
proof unfold_locales
  fix wire channel x s e
  note start = fcgi_receive_inv [OF relay_new_inv, of http hr broken wire "responder_new (lim_max_stderr limits)"
      "\<lparr>stdout_bytes = 0, stderr_bytes = 0\<rparr>" "lim_max_head limits" channel]
  show "fcgi_run http limits env len hr broken wire channel = (Inr x, s) \<Longrightarrow>
      sk_phase s = FINISHED \<and> complete_relay http hr (wire_stdout wire) (sk_sent s)"
    using start by (auto simp: fcgi_run_def split: if_splits sum.splits prod.splits)
  show "fcgi_run http limits env len hr broken wire channel = (Inl e, s) \<Longrightarrow> relay_stopped hr s"
    using start by (auto simp: fcgi_run_def relay_new_stopped split: if_splits sum.splits prod.splits)
qed

interpretation scgi: cgi_backend "scgi_run http limits env len hr broken" http hr reads_stdout
  for http limits env len hr broken
proof unfold_locales
  fix reads channel x s e
  note start = scgi_receive_inv [OF relay_new_inv, of http hr broken reads "slim_max_head limits" channel]
  show "scgi_run http limits env len hr broken reads channel = (Inr x, s) \<Longrightarrow>
      sk_phase s = FINISHED \<and> complete_relay http hr (reads_stdout reads) (sk_sent s)"
    using start by (auto simp: scgi_run_def split: if_splits sum.splits prod.splits)
  show "scgi_run http limits env len hr broken reads channel = (Inl e, s) \<Longrightarrow> relay_stopped hr s"
    using start by (auto simp: scgi_run_def relay_new_stopped split: if_splits sum.splits prod.splits)
qed

interpretation cgi: cgi_backend
    "\<lambda>reads. cgi_run http limits len hr broken reads stderr_broken stderr ended exit_first" http hr reads_stdout
  for http limits len hr broken stderr_broken stderr ended exit_first
proof unfold_locales
  fix reads channel x s e
  obtain res r where r: "cgi_receive http hr broken reads (relay_new (lim_max_head limits) channel) = (res, r)" by fastforce
  obtain res2 r2 where r2: "relay_flush r = (res2, r2)" by fastforce
  note start = cgi_receive_inv [OF relay_new_inv r]
  note flush = relay_flush_complete [OF _ _ r2, of http hr "reads_stdout reads" "()"]
  show "cgi_run http limits len hr broken reads stderr_broken stderr ended exit_first channel = (Inr x, s) \<Longrightarrow>
      sk_phase s = FINISHED \<and> complete_relay http hr (reads_stdout reads) (sk_sent s)"
    using start flush r r2 by (auto simp: cgi_run_def Let_def then_run_Inr split: if_splits sum.splits prod.splits)
  show "cgi_run http limits len hr broken reads stderr_broken stderr ended exit_first channel = (Inl e, s) \<Longrightarrow> relay_stopped hr s"
    using start flush r r2 by (auto simp: cgi_run_def Let_def relay_new_stopped then_run_Inl relay_inv_stopped
        split: if_splits sum.splits prod.splits)
qed

text \<open>
  C23: Whatever a CGI backend writes, however it is cut into records and reads, and whenever a read, a
  write or a deadline fails, the client of the gateway is never given a truncated response as a complete
  one: a response that ends cleanly carries the backend's head and all of its body with the declared
  length, and a response that was cut off is short of the declared length. This holds for the FastCGI,
  the SCGI and the process exchange.
\<close>

theorem cgi_response_honest:
  "honest_response http hr (wire_stdout wire)
     (execute_response hr early (fcgi_run http limits env len hr broken wire channel)) \<and>
   honest_response http hr (reads_stdout reads)
     (execute_response hr early (scgi_run http slimits env len hr broken reads channel)) \<and>
   honest_response http hr (reads_stdout reads)
     (execute_response hr early
        (cgi_run http limits len hr broken reads stderr_broken stderr ended exit_first channel))"
  by (intro conjI fcgi.response_honest scgi.response_honest cgi.response_honest)


subsection \<open>A complete response gets through\<close>

text \<open>A sink whose channel takes every message.\<close>

definition sink_free :: "sink \<Rightarrow> bool" where
  "sink_free s \<longleftrightarrow> sk_channel s = (\<lambda>_. SendOk)"

lemma send_all_free: "sink_free s \<Longrightarrow> send_all ms s = (Inr (), s\<lparr>sk_sent := sk_sent s @ ms\<rparr>)"
  by (induction ms arbitrary: s) (simp_all add: sink_free_def sink_send_def)

lemma sink_head_free:
  "sink_free s \<Longrightarrow> sk_phase s = EXPECT_HEAD \<Longrightarrow> \<exists>s'. sink_head h s = (Inr (), s') \<and> sink_free s' \<and>
    sk_phase s' = WRITING_BODY \<and> sk_sent s' = sk_sent s @ [HeadMsg h]"
  by (auto simp: sink_head_def sink_begin_def sink_send_def sink_free_def)

lemma sink_body_free:
  assumes "sink_free s" and "sk_phase s = WRITING_BODY"
  shows "\<exists>s'. sink_body bs s = (Inr (), s') \<and> sink_free s' \<and> sk_phase s' = WRITING_BODY"
proof -
  have "sink_free (s\<lparr>sk_phase := FAILED\<rparr>)" using assms(1) by (simp add: sink_free_def)
  from send_all_free [OF this] assms show ?thesis by (simp add: sink_body_def sink_begin_def sink_free_def)
qed

lemma relay_tail_free:
  assumes "sink_free (rl_sink r)" and "sk_phase (rl_sink r) = WRITING_BODY"
  shows "\<exists>r'. relay_tail r = (Inr (), r') \<and> sink_free (rl_sink r') \<and> sk_phase (rl_sink r') = WRITING_BODY \<and>
    rl_decoder r' = rl_decoder r"
proof (cases "rl_tail r")
  case (Some b)
  from sink_body_free [OF assms, of "[b]"] obtain s where "sink_body [b] (rl_sink r) = (Inr (), s)" "sink_free s"
    "sk_phase s = WRITING_BODY" by blast
  with Some show ?thesis by (simp add: relay_tail_def on_sink_def)
qed (use assms in \<open>simp add: relay_tail_def\<close>)

lemma relay_body_free:
  assumes "sink_free (rl_sink r)" and "sk_phase (rl_sink r) = WRITING_BODY" and "rl_length r = Some bl"
    and "body_observe (length body) bl = Inr bl'"
  shows "\<exists>r'. relay_body body r = (Inr (), r') \<and> sink_free (rl_sink r') \<and> rl_decoder r' = rl_decoder r"
proof (cases "body = []")
  case True
  with assms show ?thesis by (simp add: relay_body_def)
next
  case False
  obtain r1 where r1: "relay_tail (r\<lparr>rl_length := Some bl'\<rparr>) = (Inr (), r1)" "sink_free (rl_sink r1)"
    "sk_phase (rl_sink r1) = WRITING_BODY" "rl_decoder r1 = rl_decoder r"
    using relay_tail_free [of "r\<lparr>rl_length := Some bl'\<rparr>"] assms by auto
  obtain s2 where "sink_body (butlast body) (rl_sink r1) = (Inr (), s2)" "sink_free s2"
    using sink_body_free [OF r1(2,3)] by blast
  with False assms(3,4) r1 show ?thesis by (auto simp: relay_body_def on_sink_def)
qed

text \<open>
  An output with a head within the limit that parses, and a body of the declared length.
\<close>

definition good_output :: "cgi_http \<Rightarrow> bool \<Rightarrow> nat \<Rightarrow> bytes \<Rightarrow> nat \<Rightarrow> cgi_head \<Rightarrow> bool" where
  "good_output http hr limit out n h \<longleftrightarrow> head_cut n out \<and> n \<le> limit \<and> parse_head http (take n out) = Inr h \<and>
     (\<forall>k. expected_of hr h = Some k \<longrightarrow> length (drop n out) = k) \<and> length out \<le> u64_max"

lemma observe_fits:
  assumes "m + n \<le> u64_max" and "\<And>k. ex = Some k \<Longrightarrow> m + n \<le> k"
  shows "\<exists>bl. body_observe n \<lparr>bl_expected = ex, bl_received = m\<rparr> = Inr bl"
  using assms by (cases ex) (auto simp: body_observe_def checked_add_def ok_or_def)

lemma relay_body_good:
  assumes w: "relay_writing http hr out r n h ps" and good: "good_output http hr limit (out @ bs @ rest) n h"
    and free: "sink_free (rl_sink r)"
  shows "\<exists>r'. relay_body bs r = (Inr (), r') \<and> sink_free (rl_sink r') \<and> rl_decoder r' = rl_decoder r"
proof -
  note w' = w [unfolded relay_writing_def] and g = good [unfolded good_output_def]
  have "length (drop n out) + length bs \<le> length (drop n (out @ bs @ rest))"
    using w' by (simp add: head_cut_def)
  then have "\<exists>bl. body_observe (length bs) \<lparr>bl_expected = expected_of hr h, bl_received = length (drop n out)\<rparr> = Inr bl"
    using g by (intro observe_fits) auto
  with relay_body_free [OF free, of _ bs] w' show ?thesis by blast
qed

lemma head_uncut_prefix:
  assumes "head_cut n (s @ t)" and "length s < n"
  shows "head_uncut s"
  unfolding head_uncut_def
proof (intro allI impI)
  fix k assume "k \<le> length s"
  then have "take k (s @ t) = take k s" "k < n" using assms(2) by simp_all
  with assms(1) show "\<not> head_ends (take k s)" unfolding head_cut_def by metis
qed

lemma head_cut_prefix: "head_cut n (s @ t) \<Longrightarrow> n \<le> length s \<Longrightarrow> head_cut n s"
  unfolding head_cut_def by (auto simp: less_imp_le)

lemma relay_stdout_good:
  assumes inv: "relay_inv http hr out r" and good: "good_output http hr limit (out @ bs @ rest) n h"
    and free: "sink_free (rl_sink r)" and limit: "hd_limit (rl_decoder r) = limit"
  shows "\<exists>r'. relay_stdout http hr bs r = (Inr (), r') \<and> sink_free (rl_sink r') \<and> hd_limit (rl_decoder r') = limit"
proof (cases "relay_waiting out r")
  case False
  with inv obtain m h' ps where w: "relay_writing http hr out r m h' ps" by (auto simp: relay_inv_def)
  have "m = n" using w good head_cut_append [of m out "bs @ rest"] head_cut_unique
    by (auto simp: relay_writing_def good_output_def)
  moreover from this have "h' = h" using w good by (auto simp: relay_writing_def good_output_def head_cut_def)
  ultimately have "relay_writing http hr out r n h ps" using w by simp
  from relay_body_good [OF this good free] limit w show ?thesis
    by (auto simp: relay_stdout_def relay_head_def relay_writing_def)
next
  case True
  note w = True [unfolded relay_waiting_def] and g = good [unfolded good_output_def]
  have f: "feed http bs (rl_decoder r) = feed_from http 0 bs (rl_decoder r)"
    using w by (simp add: feed_def decoder_open_def)
  show ?thesis
  proof (cases "n \<le> length (out @ bs)")
    case False
    have "head_uncut (out @ bs)" by (rule head_uncut_prefix [of n _ rest]) (use g False in auto)
    moreover have "length (out @ bs) \<le> limit" using False g by simp
    ultimately have "feed http bs (rl_decoder r) = (Inr (length bs, None), (rl_decoder r)\<lparr>hd_bytes := out @ bs\<rparr>)"
      using f feed_from_uncut [of "rl_decoder r" bs http 0] w limit by simp
    with w free limit show ?thesis by (simp add: relay_stdout_def relay_head_def relay_body_def)
  next
    case reached: True
    have cut: "head_cut n (out @ bs)" by (rule head_cut_prefix [of n _ rest]) (use g reached in auto)
    have less: "length out < n" using w cut head_uncut_lt by (auto simp: decoder_open_def)
    have parsed: "parse_head http (take n (out @ bs)) = Inr h" using g reached by simp
    let ?d = "(rl_decoder r)\<lparr>hd_bytes := take n (out @ bs), hd_finished := True\<rparr>"
    let ?r = "r\<lparr>rl_decoder := ?d, rl_length := Some (body_length_new h hr)\<rparr>"
    let ?rest = "drop (n - length out) bs"
    have fed: "feed http bs (rl_decoder r) = (Inr (n - length out, Some h), ?d)"
      using feed_from_cut [of n "rl_decoder r" bs http 0] f w cut less parsed limit g by simp
    obtain s1 where s1: "sink_head h (rl_sink r) = (Inr (), s1)" "sink_free s1" "sk_phase s1 = WRITING_BODY"
      and sent: "sk_sent s1 = [HeadMsg h]"
      using sink_head_free [OF free, of h] w by auto
    have w1: "relay_writing http hr (take n (out @ bs)) (?r\<lparr>rl_sink := s1\<rparr>) n h []"
      using w parsed sent s1(3) head_cut_take [OF cut]
      by (simp add: relay_writing_def expected_of_def body_length_new_def Let_def del: take_append)
    have "take n (out @ bs) @ ?rest @ rest = out @ bs @ rest" using less by simp
    with good have g1: "good_output http hr limit (take n (out @ bs) @ ?rest @ rest) n h" by (simp only:)
    have f1: "sink_free (rl_sink (?r\<lparr>rl_sink := s1\<rparr>))" using s1(2) by simp
    obtain r2 where "relay_body ?rest (?r\<lparr>rl_sink := s1\<rparr>) = (Inr (), r2)" "sink_free (rl_sink r2)"
      "rl_decoder r2 = rl_decoder (?r\<lparr>rl_sink := s1\<rparr>)" using relay_body_good [OF w1 g1 f1] by blast
    with w fed s1 limit show ?thesis by (auto simp: relay_stdout_def relay_head_def on_sink_def)
  qed
qed

lemma relay_end_good:
  assumes inv: "relay_inv http hr out r" and good: "good_output http hr limit out n h" and free: "sink_free (rl_sink r)"
  shows "relay_checks r = Inr () \<and> (\<exists>r'. relay_flush r = (Inr (), r'))"
proof -
  have "\<not> relay_waiting out r"
    using good by (auto simp: relay_waiting_def good_output_def decoder_open_def head_cut_def head_uncut_def)
  with inv obtain m h' ps where w: "relay_writing http hr out r m h' ps" by (auto simp: relay_inv_def)
  have m: "m = n" using w good head_cut_unique by (auto simp: relay_writing_def good_output_def)
  then have h: "h' = h" using w good by (auto simp: relay_writing_def good_output_def)
  note w' = w [unfolded relay_writing_def m h] and g = good [unfolded good_output_def]
  have "hd_finished (rl_decoder r)"
    "rl_length r = Some \<lparr>bl_expected = expected_of hr h, bl_received = length (drop n out)\<rparr>" using w' by blast+
  then have "relay_checks r = Inr ()"
    using g by (auto simp: relay_checks_def decoder_eof_def ok_or_def body_finish_def split: option.splits)
  moreover obtain r' where "relay_tail r = (Inr (), r')" "sk_phase (rl_sink r') = WRITING_BODY"
    using relay_tail_free [OF free] w' by blast
  ultimately show ?thesis by (simp add: relay_flush_def on_sink_def sink_finish_def sink_begin_def)
qed

lemma scgi_receive_good:
  "relay_inv http hr out r \<Longrightarrow> good_output http hr limit (out @ concat reads) n h \<Longrightarrow> sink_free (rl_sink r) \<Longrightarrow>
    hd_limit (rl_decoder r) = limit \<Longrightarrow> [] \<notin> set reads \<Longrightarrow>
    \<exists>r'. scgi_receive http hr broken (reads @ [[]]) r = (Inr (), r')"
proof (induction reads arbitrary: out r)
  case Nil
  then show ?case using relay_end_good [of http hr out r limit n h] by (auto simp: scgi_end_def)
next
  case (Cons c cs)
  then obtain r1 where r1: "relay_stdout http hr c r = (Inr (), r1)" "sink_free (rl_sink r1)" "hd_limit (rl_decoder r1) = limit"
    using relay_stdout_good [of http hr out r limit c "concat cs" n h] by auto
  then have "relay_inv http hr (out @ c) r1" using relay_stdout_inv [OF Cons.prems(1) r1(1)] by simp
  from Cons.IH [OF this _ r1(2,3)] Cons.prems r1(1) show ?case by auto
qed

text \<open>The records of a FastCGI backend that writes \<open>cs\<close> and ends its request successfully.\<close>

fun stdout_records :: "bytes list \<Rightarrow> cgi_error + bytes" where
  "stdout_records [] = fcgi_encode fcgi_END (replicate 8 (CHR 0x00))"
| "stdout_records (c # cs) =
     and_then (fcgi_encode fcgi_STDOUT c) (\<lambda>a. and_then (stdout_records cs) (\<lambda>r. Inr (a @ r)))"

lemma fcgi_receive_encoded:
  assumes "fcgi_encode kind body = Inr bs"
  shows "fcgi_receive http hr broken (bs @ rest) rp report r =
    (case responder_accept \<lparr>fr_kind = kind, fr_request = fcgi_REQUEST, fr_body = body\<rparr> rp of
       (Inl e, rp) \<Rightarrow> (Inl (ExProtocol e), r)
     | (Inr (Stdout bs), rp) \<Rightarrow>
         (case relay_stdout http hr bs r of
            (Inl e, r) \<Rightarrow> (Inl e, r)
          | (Inr _, r) \<Rightarrow> fcgi_receive http hr broken rest rp (report\<lparr>stdout_bytes := stdout_bytes report + length bs\<rparr>) r)
     | (Inr (Stderr bs), rp) \<Rightarrow>
         fcgi_receive http hr broken rest rp (report\<lparr>stderr_bytes := stderr_bytes report + length bs\<rparr>) r
     | (Inr (Complete app_status), rp) \<Rightarrow>
         (case relay_checks r of
            Inl e \<Rightarrow> (Inl (ExProtocol e), r)
          | Inr _ \<Rightarrow> if app_status \<noteq> 0 then (Inl (ExApplicationExit app_status), r)
              else then_run (relay_flush r) (\<lambda>_ r. (Inr report, r))))"
proof -
  let ?wire = "bs @ rest"
  have bs: "bs = [CHR 0x01, kind, CHR 0x00, CHR 0x01] @ be_bytes 2 (length body) @ [CHR 0x00, CHR 0x00] @ body"
    and small: "length body \<le> u16_max" using assms by (auto simp: fcgi_encode_def split: if_splits)
  have "length body div 256 mod 256 * 256 + length body mod 256 = length body"
    using small by (simp add: u16_max_def)
  then have n: "8 + be_value [?wire ! 4, ?wire ! 5] + code (?wire ! 6) = length bs"
    by (simp add: bs be_bytes_two be_value_two code_char_of)
  have long: "8 \<le> length bs" by (simp add: bs)
  have first: "\<exists>x. fcgi_decode (take 8 ?wire) = Inr x" by (auto simp: bs fcgi_decode_def be_bytes_two Let_def)
  have rec: "fcgi_decode bs = Inr (Some (\<lparr>fr_kind = kind, fr_request = fcgi_REQUEST, fr_body = body\<rparr>, length bs))"
    using fcgi_decode_encode [OF assms, of "[]"] by simp
  from first obtain x where x: "fcgi_decode (take 8 ?wire) = Inr x" ..
  have "\<not> length ?wire < 8" "\<not> length ?wire < length bs" "take (length bs) ?wire = bs" "drop (length bs) ?wire = rest"
    using long by simp_all
  then show ?thesis by (subst fcgi_receive.simps) (simp only: x n Let_def rec if_False sum.case option.case prod.case)
qed

lemma fcgi_receive_good:
  "relay_inv http hr out r \<Longrightarrow> good_output http hr limit (out @ concat cs) n h \<Longrightarrow> sink_free (rl_sink r) \<Longrightarrow>
    hd_limit (rl_decoder r) = limit \<Longrightarrow> [] \<notin> set cs \<Longrightarrow> stdout_records cs = Inr wire \<Longrightarrow>
    \<not> rp_ended rp \<Longrightarrow> \<not> rp_stdout_closed rp \<Longrightarrow>
    \<exists>report' r'. fcgi_receive http hr broken wire rp report r = (Inr report', r')"
proof (induction cs arbitrary: out r rp report wire)
  case Nil
  then show ?case
    using relay_end_good [of http hr out r limit n h] fcgi_receive_encoded [of fcgi_END "replicate 8 (CHR 0x00)" wire http hr broken "[]"]
    by (auto simp: responder_accept_def be_value_def eval_nat_numeral)
next
  case (Cons c cs)
  then obtain r1 where r1: "relay_stdout http hr c r = (Inr (), r1)" "sink_free (rl_sink r1)" "hd_limit (rl_decoder r1) = limit"
    using relay_stdout_good [of http hr out r limit c "concat cs" n h] by auto
  then have inv1: "relay_inv http hr (out @ c) r1" using relay_stdout_inv [OF Cons.prems(1) r1(1)] by simp
  from Cons.prems obtain a w where "fcgi_encode fcgi_STDOUT c = Inr a" "stdout_records cs = Inr w" "wire = a @ w" by auto
  with Cons.IH [OF inv1 _ r1(2,3)] Cons.prems r1(1) show ?case
    by (auto simp: fcgi_receive_encoded responder_accept_def)
qed

lemma wire_stdout_encoded:
  "fcgi_encode kind body = Inr bs \<Longrightarrow>
    wire_stdout (bs @ rest) = (if kind = fcgi_END then [] else (if kind = fcgi_STDOUT then body else []) @ wire_stdout rest)"
  by (subst wire_stdout.simps) (simp add: fcgi_decode_encode)

lemma wire_stdout_records: "stdout_records cs = Inr wire \<Longrightarrow> wire_stdout wire = concat cs"
proof (induction cs arbitrary: wire)
  case Nil
  then show ?case using wire_stdout_encoded [of fcgi_END _ wire "[]"] by simp
qed (auto simp: wire_stdout_encoded)

lemma reads_stdout_concat: "[] \<notin> set reads \<Longrightarrow> reads_stdout (reads @ [[]]) = concat reads"
  by (induction reads) auto

lemma sink_new_free: "sink_free (rl_sink (relay_new limit (\<lambda>_. SendOk)))"
  by (simp add: sink_free_def relay_new_def sink_new_def)

lemma relay_new_limit: "hd_limit (rl_decoder (relay_new limit channel)) = min limit head_max_bytes"
  by (simp add: relay_new_def decoder_new_def)

text \<open>
  C36: A well-formed response gets through however it is cut up: if the backend's output has a head within
  the limit that parses and a body of the length it declares, if any, then over any division into FastCGI
  records or SCGI reads the client is given that head, all of the body and a clean end.
\<close>

theorem cgi_response_delivered:
  assumes "good_output http hr limit (concat cs) n h" and "[] \<notin> set cs" and "env_ok env"
    and "limit = min (lim_max_head limits) head_max_bytes" and "stdout_records cs = Inr wire"
    and "cgi_declared_length env = Some len" and "len \<le> lim_max_request limits"
    and "limit = min (slim_max_head slimits) head_max_bytes" and "len \<le> slim_max_request slimits"
    and "scgi_headers env len (slim_max_environment slimits) = Inr headers"
  shows "(\<exists>items. execute_response hr early (fcgi_run http limits env len hr broken wire (\<lambda>_. SendOk)) = Inr (h, items, True) \<and>
      concat items = drop n (concat cs)) \<and>
    (\<exists>items. execute_response hr early (scgi_run http slimits env len hr broken (cs @ [[]]) (\<lambda>_. SendOk)) = Inr (h, items, True) \<and>
      concat items = drop n (concat cs))"
proof -
  have same: "m = n \<and> h' = h" if "head_cut m (concat cs)" "parse_head http (take m (concat cs)) = Inr h'" for m h'
    using that assms(1) head_cut_unique [of m "concat cs" n] by (auto simp: good_output_def)
  have good: "good_output http hr limit ([] @ concat cs) n h" using assms(1) by simp
  obtain ps where ps: "fcgi_params env = Inr ps" using fcgi_params_total [OF assms(3)] by blast
  obtain rep r where "fcgi_receive http hr broken wire (responder_new (lim_max_stderr limits))
      \<lparr>stdout_bytes = 0, stderr_bytes = 0\<rparr> (relay_new (lim_max_head limits) (\<lambda>_. SendOk)) = (Inr rep, r)"
    using fcgi_receive_good [OF relay_new_inv good sink_new_free, of "lim_max_head limits" wire "responder_new (lim_max_stderr limits)"]
      relay_new_limit assms by (fastforce simp: responder_new_def)
  then have f: "fcgi_run http limits env len hr broken wire (\<lambda>_. SendOk) = (Inr rep, rl_sink r)"
    using ps assms by (simp add: fcgi_run_def)
  obtain r2 where "scgi_receive http hr broken (cs @ [[]]) (relay_new (slim_max_head slimits) (\<lambda>_. SendOk)) = (Inr (), r2)"
    using scgi_receive_good [OF relay_new_inv good sink_new_free, of "slim_max_head slimits"] relay_new_limit assms by fastforce
  then have s: "scgi_run http slimits env len hr broken (cs @ [[]]) (\<lambda>_. SendOk) = (Inr (), rl_sink r2)"
    using assms by (simp add: scgi_run_def)
  show ?thesis
  proof
    show "\<exists>items. execute_response hr early (fcgi_run http limits env len hr broken wire (\<lambda>_. SendOk)) = Inr (h, items, True) \<and>
        concat items = drop n (concat cs)"
      by (rule fcgi.response_complete [OF f, of early])
        (use same wire_stdout_records [OF assms(5)] in auto)
    show "\<exists>items. execute_response hr early (scgi_run http slimits env len hr broken (cs @ [[]]) (\<lambda>_. SendOk)) = Inr (h, items, True) \<and>
        concat items = drop n (concat cs)"
      by (rule scgi.response_complete [OF s, of early])
        (use same reads_stdout_concat [OF assms(2)] in auto)
  qed
qed

subsection \<open>The request that is sent\<close>

lemma write_all_ok: "write_all bs u = (Inr (), u') \<Longrightarrow> up_written u' = up_written u @ bs \<and> up_fault u' = up_fault u"
  by (auto simp: write_all_def split: option.splits)

lemma upload_body_sound:
  "upload_body frame broken len input u = (Inr rest, u') \<Longrightarrow>
    \<exists>cs fs. [] \<notin> set cs \<and> map frame cs = map Inr fs \<and> up_written u' = up_written u @ concat fs \<and>
      concat input = concat cs @ concat rest \<and> length (concat cs) = len"
proof (induction len arbitrary: input u rule: less_induct)
  case (less len)
  show ?case
  proof (cases "len = 0")
    case True
    with less.prems show ?thesis by (intro exI [of _ "[]"]) (simp add: upload_body.simps)
  next
    case False
    then obtain bs more where read: "read_some (min len 8192) input = Some (bs, more)"
      using less.prems by (subst (asm) upload_body.simps) (auto split: option.splits)
    have bs: "bs \<noteq> []" "length bs \<le> len" "concat input = bs @ concat more"
      using read_some_nonempty [OF _ read] False by auto
    obtain f u1 where f: "frame bs = Inr f" and u1: "write_all f u = (Inr (), u1)"
      and more: "upload_body frame broken (len - length bs) more u1 = (Inr rest, u')"
      using less.prems False read
      by (subst (asm) upload_body.simps) (auto simp: write_framed_def split: prod.splits sum.splits)
    have "len - length bs < len" using bs(1) False by simp
    from less.IH [OF this more] obtain cs fs where "[] \<notin> set cs" "map frame cs = map Inr fs"
      "up_written u' = up_written u1 @ concat fs" "concat more = concat cs @ concat rest" "length (concat cs) = len - length bs"
      by blast
    with bs f write_all_ok [OF u1] show ?thesis
      by (intro exI [of _ "bs # cs"] exI [of _ "f # fs"]) auto
  qed
qed

lemma upload_end_sound: "upload_end broken input u = (Inr (), u') \<Longrightarrow> u' = u \<and> concat input = []"
proof -
  assume e: "upload_end broken input u = (Inr (), u')"
  have "read_some 1 input = None \<Longrightarrow> concat input = []" by (induction "1 :: nat" input rule: read_some.induct) (auto split: if_splits)
  with e show ?thesis by (auto simp: upload_end_def split: option.splits)
qed

lemma fcgi_records_append:
  "fcgi_records a = Inr rs \<Longrightarrow> fcgi_records (a @ b) = and_then (fcgi_records b) (\<lambda>ts. Inr (rs @ ts))"
proof (induction a arbitrary: rs rule: fcgi_records.induct)
  case (1 a)
  show ?case
  proof (cases "a = []")
    case True
    with "1.prems" show ?thesis by (cases "fcgi_records b") auto
  next
    case False
    with "1.prems" obtain r n ts where r: "fcgi_decode a = Inr (Some (r, n))" and ts: "fcgi_records (drop n a) = Inr ts"
      and rs: "rs = r # ts"
      by (subst (asm) (2) fcgi_records.simps) (auto split: sum.splits option.splits)
    note step = fcgi_decode_stable(2) [OF r, of b]
    have "fcgi_records (drop n a @ b) = and_then (fcgi_records b) (\<lambda>us. Inr (ts @ us))"
      by (rule "1.IH" [OF False r refl refl ts])
    with step False rs show ?thesis
      by (subst fcgi_records.simps) (cases "fcgi_records b", auto)
  qed
qed

lemma fcgi_records_map:
  "map (fcgi_encode kind) cs = map Inr fs \<Longrightarrow>
    fcgi_records (concat fs) = Inr (map (\<lambda>c. \<lparr>fr_kind = kind, fr_request = fcgi_REQUEST, fr_body = c\<rparr>) cs)"
proof (induction cs arbitrary: fs)
  case (Cons c cs)
  then obtain f gs where "fs = f # gs" "fcgi_encode kind c = Inr f" "map (fcgi_encode kind) cs = map Inr gs" by auto
  with Cons.IH show ?case by (simp add: fcgi_records_encode)
qed simp

text \<open>
  A FastCGI request that was sent without an error is exactly one responder request: the begin record,
  the parameters of the environment, the body of the request in non-empty records and the record that
  ends it. The body is all of the input and has the length that was declared, so an input that is longer
  or shorter is never sent as a complete request.
\<close>

theorem fcgi_send_exact:
  assumes "env_ok env" and "fcgi_params env = Inr parameters"
    and "fcgi_send broken input parameters len (upload_new fault) = (Inr (), u)"
  shows "\<exists>rs cs. fcgi_records (up_written u) = Inr (
      \<lparr>fr_kind = fcgi_BEGIN, fr_request = fcgi_REQUEST, fr_body = [CHR 0x00, CHR 0x01] @ replicate 6 (CHR 0x00)\<rparr> #
      rs @ \<lparr>fr_kind = fcgi_PARAMS, fr_request = fcgi_REQUEST, fr_body = []\<rparr> #
      map (\<lambda>c. \<lparr>fr_kind = fcgi_STDIN, fr_request = fcgi_REQUEST, fr_body = c\<rparr>) (cs @ [[]])) \<and>
    (\<forall>r \<in> set rs. fr_kind r = fcgi_PARAMS \<and> fr_body r \<noteq> []) \<and> read_pairs (concat (map fr_body rs)) = Some (env_iter env) \<and>
    [] \<notin> set cs \<and> concat cs = concat input \<and> length (concat input) = len"
proof -
  obtain fin where fin: "fcgi_encode fcgi_STDIN [] = Inr fin" by (auto simp: fcgi_encode_def)
  then obtain u1 u2 u3 rest u4 where steps: "write_all fcgi_begin (upload_new fault) = (Inr (), u1)"
    "write_all parameters u1 = (Inr (), u2)" "upload_body (fcgi_encode fcgi_STDIN) broken len input u2 = (Inr rest, u3)"
    "upload_end broken rest u3 = (Inr (), u4)" "write_all fin u4 = (Inr (), u)"
    using assms(3) by (auto simp: fcgi_send_def then_run_Inr write_framed_def)
  obtain cs fs where body: "[] \<notin> set cs" "map (fcgi_encode fcgi_STDIN) cs = map Inr fs" "up_written u3 = up_written u2 @ concat fs"
    "concat input = concat cs @ concat rest" "length (concat cs) = len" using upload_body_sound [OF steps(3)] by blast
  note tail = upload_end_sound [OF steps(4)]
  have written: "up_written u = fcgi_begin @ parameters @ concat fs @ fin"
    using steps(1,2,5) body(3) tail by (auto dest!: write_all_ok simp: upload_new_def)
  have start: "fcgi_encode fcgi_BEGIN ([CHR 0x00, CHR 0x01] @ replicate 6 (CHR 0x00)) = Inr fcgi_begin"
    by (simp add: fcgi_begin_def fcgi_encode_def u16_max_def)
  obtain rs where rs: "fcgi_records parameters = Inr (rs @ [\<lparr>fr_kind = fcgi_PARAMS, fr_request = fcgi_REQUEST, fr_body = []\<rparr>])"
    "\<forall>r \<in> set rs. fr_kind r = fcgi_PARAMS \<and> fr_body r \<noteq> []" "read_pairs (concat (map fr_body rs)) = Some (env_iter env)"
    using fcgi_params_parsed [OF assms(1)] assms(2) by auto
  have "fcgi_records (concat fs @ fin) = Inr (map (\<lambda>c. \<lparr>fr_kind = fcgi_STDIN, fr_request = fcgi_REQUEST, fr_body = c\<rparr>) (cs @ [[]]))"
    using fcgi_records_append [OF fcgi_records_map [OF body(2)], of fin] fcgi_records_encode [OF fin, of "[]"] by simp
  then have "fcgi_records (up_written u) = Inr (
      \<lparr>fr_kind = fcgi_BEGIN, fr_request = fcgi_REQUEST, fr_body = [CHR 0x00, CHR 0x01] @ replicate 6 (CHR 0x00)\<rparr> #
      rs @ \<lparr>fr_kind = fcgi_PARAMS, fr_request = fcgi_REQUEST, fr_body = []\<rparr> #
      map (\<lambda>c. \<lparr>fr_kind = fcgi_STDIN, fr_request = fcgi_REQUEST, fr_body = c\<rparr>) (cs @ [[]]))"
    unfolding written fcgi_records_encode [OF start] fcgi_records_append [OF rs(1)] by simp
  with rs(2,3) body tail show ?thesis by (intro exI [of _ rs] exI [of _ cs]) simp
qed


subsection \<open>Sample exchanges\<close>

lemma sample_good: "good_output cgi_sample_http False 64 (concat sample_reads) 16 sample_head"
  using sample_parsed sample_cut
  by (simp add: good_output_def expected_of_def body_length_new_def sample_head_def sample_reads_def u64_max_def)

definition sample_limits :: fcgi_limits where
  "sample_limits = \<lparr>lim_max_request = 10, lim_max_head = 64, lim_max_stderr = 10\<rparr>"

definition sample_scgi_limits :: scgi_limits where
  "sample_scgi_limits = \<lparr>slim_max_request = 10, slim_max_head = 64, slim_max_environment = 64\<rparr>"

lemma sample_wire: "\<exists>wire. stdout_records sample_reads = Inr wire"
  by (simp add: sample_reads_def fcgi_encode_def u16_max_def)

lemma sample_declared: "cgi_declared_length sample_env = Some 2"
  by (simp add: cgi_declared_length_def env_iter_def sample_env_def parse_unsigned_def strip_prefix_def starts_with_def
      is_ascii_digit_def u64_max_def dec_value_def digit_val_def)

theorem cgi_response_delivered_witness:
  "\<exists>wire items. stdout_records sample_reads = Inr wire \<and>
    execute_response False True (fcgi_run cgi_sample_http sample_limits sample_env 2 False ExIo wire (\<lambda>_. SendOk)) =
      Inr (sample_head, items, True) \<and> concat items = ''hi''"
proof -
  obtain wire where wire: "stdout_records sample_reads = Inr wire" using sample_wire by blast
  obtain headers where headers: "scgi_headers sample_env 2 (slim_max_environment sample_scgi_limits) = Inr headers"
    using sample_scgi by (auto simp: sample_scgi_limits_def)
  have hi: "drop 16 (concat sample_reads) = ''hi''" by (simp add: sample_reads_def)
  have given: "[] \<notin> set sample_reads" "64 = min (lim_max_head sample_limits) head_max_bytes" "2 \<le> lim_max_request sample_limits"
    "64 = min (slim_max_head sample_scgi_limits) head_max_bytes" "2 \<le> slim_max_request sample_scgi_limits"
    by (simp_all add: sample_reads_def sample_limits_def sample_scgi_limits_def head_max_bytes_def)
  note delivered = cgi_response_delivered [OF sample_good given(1) sample_env_ok given(2) wire sample_declared given(3,4,5) headers,
      of True ExIo, unfolded hi]
  show ?thesis by (rule exI [of _ wire]) (simp only: wire simp_thms delivered [THEN conjunct1])
qed

lemma sample_send:
  "\<exists>ps u. fcgi_params sample_env = Inr ps \<and> fcgi_send None [''hi''] ps 2 (upload_new (\<lambda>_. None)) = (Inr (), u)"
proof -
  obtain ps where "fcgi_params sample_env = Inr ps" using fcgi_params_total [OF sample_env_ok] by blast
  moreover have "\<exists>u. fcgi_send None [''hi''] ps 2 (upload_new (\<lambda>_. None)) = (Inr (), u)"
    by (simp add: fcgi_send_def write_all_def upload_new_def upload_body.simps write_framed_def fcgi_encode_def
        u16_max_def upload_end_def)
  ultimately show ?thesis by blast
qed

theorem fcgi_send_exact_witness:
  "\<exists>ps u (rs :: fcgi_record list) cs. fcgi_params sample_env = Inr ps \<and>
    fcgi_send None [''hi''] ps 2 (upload_new (\<lambda>_. None)) = (Inr (), u) \<and>
    read_pairs (concat (map fr_body rs)) = Some (env_iter sample_env) \<and> [] \<notin> set cs \<and> concat cs = ''hi''"
proof -
  obtain ps u where u: "fcgi_params sample_env = Inr ps" "fcgi_send None [''hi''] ps 2 (upload_new (\<lambda>_. None)) = (Inr (), u)"
    using sample_send by blast
  have "\<exists>(rs :: fcgi_record list) cs. read_pairs (concat (map fr_body rs)) = Some (env_iter sample_env) \<and> [] \<notin> set cs \<and> concat cs = concat [''hi'']"
    using fcgi_send_exact [OF sample_env_ok u] by (elim exE conjE, intro exI conjI)
  then have "\<exists>(rs :: fcgi_record list) cs. read_pairs (concat (map fr_body rs)) = Some (env_iter sample_env) \<and> [] \<notin> set cs \<and> concat cs = ''hi''"
    by simp
  with u show ?thesis by blast
qed

end
