(* ===== verification/Static_Files.thy ===== *)
theory Static_Files
  imports Headers Addresses Ordered_Maps
begin

text \<open>
  Static files: negotiation of content codings (\<open>encoding_accept.rs\<close>), byte ranges and their delivery
  (\<open>ranges.rs\<close>, \<open>file_body.rs\<close>), the public names of files (\<open>file_path.rs\<close>), resolution of a
  request path below the configured root (\<open>file_server.rs\<close>) and redirects that stay on the origin
  (\<open>local_redirect.rs\<close>), all in \<open>gatel-bundle-std/src\<close>.

  The file system is a parameter: what \<open>canonicalize\<close> and \<open>metadata\<close> answer. Paths are Unix paths, with
  the components \<open>std::path\<close> gives them.
\<close>

subsection \<open>\<open>Accept-Encoding\<close>\<close>

datatype coding_selection = Coding bytes | Identity | NotAcceptable | InvalidAccept

fun selection_coding :: "coding_selection \<Rightarrow> bytes option" where
  "selection_coding (Coding c) = Some c"
| "selection_coding _ = None"

definition quality :: "bytes \<Rightarrow> nat option" where
  "quality raw =
     (let (whole, fraction) = (case split_once (CHR ''.'') raw of Some p \<Rightarrow> p | None \<Rightarrow> (raw, [])) in
      if (whole \<noteq> ''0'' \<and> whole \<noteq> ''1'') \<or> 3 < length fraction \<or> \<not> list_all is_ascii_digit fraction then None
      else if whole = ''1'' then if list_all (\<lambda>b. b = CHR ''0'') fraction then Some 1000 else None
      else Some (sum_list (map2 (\<lambda>digit weight. digit_val digit * weight) fraction [100, 10, 1])))"

text \<open>One item of a field line; \<open>None\<close> is malformed, \<open>Some None\<close> an empty item.\<close>

definition accept_item :: "http_crate \<Rightarrow> bytes \<Rightarrow> (bytes \<times> nat) option option" where
  "accept_item http raw =
     (let item = trim raw in
      if item = [] then Some None
      else case split_at (CHR 0x3B) item of
        [] \<Rightarrow> None
      | first # params \<Rightarrow>
          (let coding = trim first in
           if \<not> name_valid http coding then None
           else case params of
             [] \<Rightarrow> Some (Some (to_ascii_lowercase coding, 1000))
           | [parameter] \<Rightarrow>
               Option.bind (split_once (CHR ''='') (trim parameter)) (\<lambda>(name, v).
                 if \<not> eq_ignore_ascii_case (trim name) ''q'' then None
                 else Option.bind (quality (trim v)) (\<lambda>q. Some (Some (to_ascii_lowercase coding, q))))
           | parameter # _ # _ \<Rightarrow> None))"

definition add_offer :: "bytes \<times> nat \<Rightarrow> (bytes, nat) btree \<Rightarrow> (bytes, nat) btree" where
  "add_offer e offers =
     (case bt_get (fst e) offers of
        Some existing \<Rightarrow> bt_insert (fst e) (min existing (snd e)) offers
      | None \<Rightarrow> bt_insert (fst e) (snd e) offers)"

fun accept_items :: "http_crate \<Rightarrow> bytes list \<Rightarrow> (bytes, nat) btree \<Rightarrow> (bytes, nat) btree option" where
  "accept_items http [] offers = Some offers"
| "accept_items http (raw # items) offers =
     (case accept_item http raw of
        None \<Rightarrow> None
      | Some None \<Rightarrow> accept_items http items offers
      | Some (Some e) \<Rightarrow> accept_items http items (add_offer e offers))"

fun accept_fields :: "http_crate \<Rightarrow> bytes list \<Rightarrow> (bytes, nat) btree \<Rightarrow> (bytes, nat) btree option" where
  "accept_fields http [] offers = Some offers"
| "accept_fields http (field # more_fields) offers =
     Option.bind (value_str http field) (\<lambda>text.
     Option.bind (accept_items http (split_at (CHR 0x2C) text) offers) (accept_fields http more_fields))"

definition parse_accept :: "http_crate \<Rightarrow> header_map \<Rightarrow> (bytes, nat) btree option" where
  "parse_accept http h = accept_fields http (get_all ''accept-encoding'' h) []"

text \<open>The loop over the supported codings: the best so far and its quality.\<close>

fun best_coding :: "(bytes, nat) btree \<Rightarrow> nat \<Rightarrow> bytes list \<Rightarrow> bytes option \<times> nat \<Rightarrow> bytes option \<times> nat" where
  "best_coding offers wildcard [] best = best"
| "best_coding offers wildcard (coding # codings) (best, best_quality) =
     (let q = (case bt_get coding offers of Some q \<Rightarrow> q | None \<Rightarrow> wildcard) in
      best_coding offers wildcard codings (if best_quality < q then (Some coding, q) else (best, best_quality)))"

definition select_coding :: "http_crate \<Rightarrow> header_map \<Rightarrow> bytes list \<Rightarrow> coding_selection" where
  "select_coding http h supported =
     (case parse_accept http h of
        None \<Rightarrow> InvalidAccept
      | Some offers \<Rightarrow>
          (let wildcard = (case bt_get ''*'' offers of Some q \<Rightarrow> q | None \<Rightarrow> 0);
               (best, best_quality) = best_coding offers wildcard supported (None, 0) in
           if (case bt_get ''identity'' offers of Some q \<Rightarrow> best_quality < q | None \<Rightarrow> False) then Identity
           else case best of
             Some coding \<Rightarrow> Coding coding
           | None \<Rightarrow>
               if (case bt_get ''identity'' offers of Some q \<Rightarrow> Some q | None \<Rightarrow> bt_get ''*'' offers) = Some 0
               then NotAcceptable else Identity))"

subsection \<open>Byte ranges\<close>

datatype wanted_range = Whole | Part nat nat | Unsatisfiable

definition header_of :: "http_crate \<Rightarrow> bytes \<Rightarrow> header_map \<Rightarrow> bytes option" where
  "header_of http name h =
     (case get_all name h of [] \<Rightarrow> None | [v] \<Rightarrow> value_str http v | v # _ # _ \<Rightarrow> None)"

fun decimal_fold :: "nat \<Rightarrow> bytes \<Rightarrow> nat option" where
  "decimal_fold n [] = Some n"
| "decimal_fold n (d # ds) =
     (if \<not> is_ascii_digit d then None
      else decimal_fold (saturating_add u64_max (saturating_mul u64_max n 10) (digit_val d)) ds)"

definition decimal :: "bytes \<Rightarrow> nat option" where
  "decimal v = (if v = [] then None else decimal_fold 0 v)"

text \<open>The specification after the unit, for a file of \<open>len\<close> bytes.\<close>

definition wanted_part :: "nat \<Rightarrow> bytes \<Rightarrow> bytes \<Rightarrow> wanted_range" where
  "wanted_part len from to =
     (if from = [] then
        (case decimal to of
           Some suffix \<Rightarrow> if len = 0 then Unsatisfiable else if suffix = 0 then Unsatisfiable else Part (len - suffix) (len - 1)
         | None \<Rightarrow> Whole)
      else if to = [] then
        (case decimal from of
           Some start \<Rightarrow> if start < len then Part start (len - 1) else Unsatisfiable
         | None \<Rightarrow> Whole)
      else
        (case (decimal from, decimal to) of
           (Some start, Some end) \<Rightarrow>
             if end < start then Whole
             else if start < len \<and> start \<le> end then Part start (min end (len - 1))
             else Unsatisfiable
         | _ \<Rightarrow> Whole))"

definition wanted :: "http_crate \<Rightarrow> header_map \<Rightarrow> nat \<Rightarrow> bytes \<Rightarrow> wanted_range" where
  "wanted http h len etag =
     (case header_of http ''range'' h of
        None \<Rightarrow> Whole
      | Some asked \<Rightarrow>
          if contains_key ''if-range'' h \<and>
             (case header_of http ''if-range'' h of
                None \<Rightarrow> True
              | Some condition \<Rightarrow> \<not> strong_equal (trim condition) etag) then Whole
          else case split_once (CHR ''='') (trim asked) of
            None \<Rightarrow> Whole
          | Some (unit, spec) \<Rightarrow>
              if \<not> eq_ignore_ascii_case unit ''bytes'' \<or> CHR 0x2C \<in> set spec then Whole
              else case split_once (CHR ''-'') spec of
                None \<Rightarrow> Whole
              | Some (from, to) \<Rightarrow> wanted_part len from to)"

subsection \<open>Delivery\<close>

text \<open>An opened file: the length its metadata states and the bytes its handle gives when it is read.\<close>

record opened_file =
  of_len :: nat
  of_content :: bytes

datatype file_body = NoBody | Once bytes | Streamed bytes bool

record file_response =
  fp_status :: nat
  fp_headers :: header_map
  fp_body :: file_body

datatype deliver_error = RangeOutsideFile | UnexpectedEof

definition inline_limit :: nat where "inline_limit = 64 * 1024"

definition insert_text :: "http_crate \<Rightarrow> bytes \<Rightarrow> bytes \<Rightarrow> header_map \<Rightarrow> header_map" where
  "insert_text http name text h =
     (case value_of http text of Some v \<Rightarrow> insert_header name v h | None \<Rightarrow> h)"

text \<open>Reading exactly \<open>len\<close> bytes at \<open>start\<close>, and streaming them: a stream that runs dry ends with an error.\<close>

definition read_exact :: "opened_file \<Rightarrow> nat \<Rightarrow> nat \<Rightarrow> deliver_error + bytes" where
  "read_exact f start len =
     (let buffer = take len (drop start (of_content f)) in
      if length buffer \<noteq> len then Inl UnexpectedEof else Inr buffer)"

definition stream_exact :: "opened_file \<Rightarrow> nat \<Rightarrow> nat \<Rightarrow> file_body" where
  "stream_exact f start len =
     (let bs = take len (drop start (of_content f)) in Streamed bs (length bs = len))"

definition deliver :: "http_crate \<Rightarrow> opened_file \<Rightarrow> wanted_range \<Rightarrow> file_response \<Rightarrow> (deliver_error + unit) \<times> file_response" where
  "deliver http f w rs =
     (let size_text = show_nat (of_len f) in
      if (case w of Part start end \<Rightarrow> end < start \<or> of_len f \<le> end | _ \<Rightarrow> False) then (Inl RangeOutsideFile, rs)
      else
        let rs = rs\<lparr>fp_headers := insert_header ''accept-ranges'' ''bytes'' (fp_headers rs)\<rparr>;
            body = (\<lambda>rs start len.
              let rs = rs\<lparr>fp_headers := insert_text http ''content-length'' (show_nat len) (fp_headers rs)\<rparr> in
              if len \<le> inline_limit then
                (case read_exact f start len of
                   Inl e \<Rightarrow> (Inl e, rs)
                 | Inr bs \<Rightarrow> (Inr (), rs\<lparr>fp_body := Once bs\<rparr>))
              else (Inr (), rs\<lparr>fp_body := stream_exact f start len\<rparr>)) in
        case w of
          Whole \<Rightarrow> body (rs\<lparr>fp_status := 200\<rparr>) 0 (of_len f)
        | Unsatisfiable \<Rightarrow>
            (Inr (), rs\<lparr>fp_status := 416,
               fp_headers := insert_text http ''content-range'' (''bytes */'' @ size_text) (fp_headers rs)\<rparr>)
        | Part start end \<Rightarrow>
            body (rs\<lparr>fp_status := 206,
               fp_headers := insert_text http ''content-range''
                 (''bytes '' @ show_nat start @ ''-'' @ show_nat end @ ''/'' @ size_text) (fp_headers rs)\<rparr>)
              start (end - start + 1))"

subsection \<open>Paths\<close>

datatype path_component = RootDir | CurDir | ParentDir | Normal bytes

definition component_of :: "bytes \<Rightarrow> path_component" where
  "component_of p = (if p = ''.'' then CurDir else if p = ''..'' then ParentDir else Normal p)"

text \<open>
  \<open>Path::components\<close>: repeated separators and \<open>.\<close> components vanish, except a \<open>.\<close> at the start of a
  relative path.
\<close>

definition path_components :: "bytes \<Rightarrow> path_component list" where
  "path_components p =
     (let parts = split_at (CHR ''/'') p;
          kept = filter (\<lambda>q. q \<noteq> [] \<and> q \<noteq> ''.'') parts in
      if starts_with ''/'' p then RootDir # map component_of kept
      else (if hd parts = ''.'' then [CurDir] else []) @ map component_of kept)"

definition path_join :: "bytes \<Rightarrow> bytes \<Rightarrow> bytes" where
  "path_join p q =
     (if starts_with ''/'' q then q
      else if p = [] \<or> ends_with ''/'' p then p @ q else p @ ''/'' @ q)"

definition path_strip_prefix :: "bytes \<Rightarrow> bytes \<Rightarrow> path_component list option" where
  "path_strip_prefix root p = strip_prefix (path_components root) (path_components p)"

definition public_component :: "bytes \<Rightarrow> bool" where
  "public_component name \<longleftrightarrow> name \<noteq> [] \<and> \<not> starts_with ''.'' name \<and> \<not> has_control name"

definition public_resolved :: "bytes \<Rightarrow> bytes \<Rightarrow> bool" where
  "public_resolved root resolved \<longleftrightarrow>
     (case path_strip_prefix root resolved of
        None \<Rightarrow> False
      | Some relative \<Rightarrow>
          list_all (\<lambda>c. case c of Normal name \<Rightarrow> utf8_valid name \<and> public_component name | _ \<Rightarrow> False) relative)"

text \<open>On Unix the spelling of a candidate is not compared.\<close>

definition public_target :: "bytes \<Rightarrow> bytes \<Rightarrow> bytes \<Rightarrow> bool" where
  "public_target root candidate resolved \<longleftrightarrow> public_resolved root resolved"

subsection \<open>Resolution\<close>

text \<open>\<open>u8::from_str_radix\<close> on two characters: a plus sign may stand before the digits.\<close>

definition escape_value :: "byte \<Rightarrow> byte \<Rightarrow> byte option" where
  "escape_value a b =
     (if a = CHR ''+'' then map_option char_of (hex_digit b)
      else Option.bind (hex_digit a) (\<lambda>x. map_option (\<lambda>y. char_of (16 * x + y)) (hex_digit b)))"

fun percent_decode_bytes :: "bytes \<Rightarrow> bytes option" where
  "percent_decode_bytes [] = Some []"
| "percent_decode_bytes (c # s) =
     (if c = CHR ''%'' then
        (case s of
           a # b # r \<Rightarrow> Option.bind (escape_value a b) (\<lambda>d. map_option ((#) d) (percent_decode_bytes r))
         | _ \<Rightarrow> None)
      else map_option ((#) c) (percent_decode_bytes s))"

definition percent_decode :: "bytes \<Rightarrow> bytes option" where
  "percent_decode input =
     Option.bind (percent_decode_bytes input) (\<lambda>out. if utf8_valid out then Some out else None)"

fun safe_components :: "path_component list \<Rightarrow> bytes \<Rightarrow> bytes option" where
  "safe_components [] relative = Some relative"
| "safe_components (Normal part # cs) relative =
     (if \<not> utf8_valid part \<or> \<not> public_component part then None
      else safe_components cs (path_join relative part))"
| "safe_components (CurDir # cs) relative = safe_components cs relative"
| "safe_components (c # cs) relative = None"

definition safe_relative :: "bytes \<Rightarrow> bytes option" where
  "safe_relative request_path =
     Option.bind (percent_decode (trim_start_char (CHR ''/'') request_path)) (\<lambda>decoded.
       if CHR 0x00 \<in> set decoded then None else safe_components (path_components decoded) [])"

datatype file_kind = RegularFile | Directory | OtherFile

record file_metadata =
  fm_kind :: file_kind
  fm_len :: nat
  fm_modified :: "nat option"

record file_system =
  fs_canonicalize :: "bytes \<Rightarrow> bytes option"
  fs_metadata :: "bytes \<Rightarrow> file_metadata option"

record file_server =
  fv_root :: bytes
  fv_index :: "bytes option"
  fv_browse :: bool
  fv_precompressed :: bool
  fv_fallback :: "bytes option"

datatype file_target = TargetFile bytes | Listing bytes | Redirect bytes | NotFound

definition contained_file :: "file_system \<Rightarrow> file_server \<Rightarrow> bytes \<Rightarrow> (bytes \<times> file_metadata) option" where
  "contained_file fs srv candidate =
     Option.bind (fs_canonicalize fs candidate) (\<lambda>resolved.
       if \<not> public_target (fv_root srv) candidate resolved then None
       else Option.bind (fs_metadata fs resolved) (\<lambda>m.
         if fm_kind m = RegularFile then Some (resolved, m) else None))"

definition resolve_file :: "file_system \<Rightarrow> file_server \<Rightarrow> bytes \<Rightarrow> file_target" where
  "resolve_file fs srv request_path =
     (case safe_relative request_path of
        None \<Rightarrow> NotFound
      | Some relative \<Rightarrow>
          (let candidate = path_join (fv_root srv) relative in
           case fs_canonicalize fs candidate of
             None \<Rightarrow> NotFound
           | Some resolved \<Rightarrow>
               if \<not> public_target (fv_root srv) candidate resolved then NotFound
               else case fs_metadata fs resolved of
                 None \<Rightarrow> NotFound
               | Some m \<Rightarrow>
                   if fm_kind m = RegularFile then TargetFile resolved
                   else if fm_kind m \<noteq> Directory then NotFound
                   else if \<not> ends_with ''/'' request_path then Redirect (request_path @ ''/'')
                   else case Option.bind (fv_index srv) (\<lambda>index. contained_file fs srv (path_join resolved index)) of
                     Some (path, _) \<Rightarrow> TargetFile path
                   | None \<Rightarrow> if fv_browse srv then Listing resolved else NotFound))"

definition serve_file :: "file_system \<Rightarrow> file_server \<Rightarrow> bytes \<Rightarrow> file_target" where
  "serve_file fs srv request_path =
     (case resolve_file fs srv request_path of
        NotFound \<Rightarrow>
          (case fv_fallback srv of
             None \<Rightarrow> NotFound
           | Some fallback \<Rightarrow> (case resolve_file fs srv fallback of TargetFile p \<Rightarrow> TargetFile p | _ \<Rightarrow> NotFound))
      | target \<Rightarrow> target)"

fun encoded_siblings :: "file_system \<Rightarrow> file_server \<Rightarrow> bytes \<Rightarrow> nat \<Rightarrow> (bytes \<times> bytes) list \<Rightarrow> (bytes \<times> bytes) list" where
  "encoded_siblings fs srv path modified [] = []"
| "encoded_siblings fs srv path modified ((suffix, encoding) # rest) =
     (case contained_file fs srv (path @ ''.'' @ suffix) of
        Some (resolved, m) \<Rightarrow>
          if (case fm_modified m of Some time \<Rightarrow> modified \<le> time | None \<Rightarrow> False)
          then (resolved, encoding) # encoded_siblings fs srv path modified rest
          else encoded_siblings fs srv path modified rest
      | None \<Rightarrow> encoded_siblings fs srv path modified rest)"

definition precompressed_variants :: "file_system \<Rightarrow> file_server \<Rightarrow> bytes \<Rightarrow> file_metadata \<Rightarrow> (bytes \<times> bytes) list" where
  "precompressed_variants fs srv path m =
     (if \<not> fv_precompressed srv then []
      else case fm_modified m of
        None \<Rightarrow> []
      | Some modified \<Rightarrow>
          encoded_siblings fs srv path modified [(''br'', ''br''), (''zst'', ''zstd''), (''gz'', ''gzip'')])"

text \<open>The answer when the file cannot be read after all.\<close>

definition unreadable :: "file_response \<Rightarrow> file_response" where
  "unreadable rs =
     (let h = fold remove_header [''content-length'', ''content-range'', ''content-encoding'', ''etag'',
                ''last-modified'', ''accept-ranges''] (fp_headers rs) in
      \<lparr>fp_status = 500,
       fp_headers = insert_header ''content-type'' ''text/plain; charset=utf-8''
                      (insert_header ''cache-control'' ''no-store'' h),
       fp_body = Once (''500 could not read the file'' @ [CHR 0x0A])\<rparr>)"

subsection \<open>Redirects to the same origin\<close>

definition redirect_location :: "http_crate \<Rightarrow> bytes \<Rightarrow> bytes option \<Rightarrow> bytes option" where
  "redirect_location http path query =
     (let path = replace_char (CHR 0x23) ''%23'' (replace_char (CHR 0x3F) ''%3F''
                   (replace_char (CHR 0x5C) ''%5C'' (trim_start_char (CHR ''/'') path)));
          target = ''/'' @ path @ (case query of None \<Rightarrow> [] | Some q \<Rightarrow> ''?'' @ replace_char (CHR 0x23) ''%23'' q) in
      value_of http target)"

subsection \<open>Negotiation picks the client's best offer\<close>

text \<open>The quality a client gives a coding.\<close>

definition coding_quality :: "(bytes, nat) btree \<Rightarrow> bytes \<Rightarrow> nat" where
  "coding_quality offers c =
     (case bt_get c offers of Some q \<Rightarrow> q
      | None \<Rightarrow> (case bt_get ''*'' offers of Some q \<Rightarrow> q | None \<Rightarrow> 0))"

text \<open>The first coding of the best quality, if any is acceptable.\<close>

lemma best_coding_spec:
  assumes "best_coding offers w cs (b, q) = (b', q')"
    and w: "w = (case bt_get ''*'' offers of Some q \<Rightarrow> q | None \<Rightarrow> 0)"
  shows "q \<le> q' \<and> (\<forall>c \<in> set cs. coding_quality offers c \<le> q') \<and>
    (if q' = q then b' = b
     else \<exists>as c ds. cs = as @ c # ds \<and> b' = Some c \<and> coding_quality offers c = q' \<and> (\<forall>a \<in> set as. coding_quality offers a < q'))"
  using assms(1)
proof (induction cs arbitrary: b q)
  case (Cons c cs)
  let ?k = "coding_quality offers c"
  have k: "(case bt_get c offers of Some q \<Rightarrow> q | None \<Rightarrow> w) = ?k"
    by (cases "bt_get c offers") (simp_all add: coding_quality_def w)
  show ?case
  proof (cases "q < ?k")
    case True
    with Cons.prems k have run: "best_coding offers w cs (Some c, ?k) = (b', q')" by (simp add: Let_def)
    note ih = Cons.IH [OF run]
    show ?thesis
    proof (cases "q' = ?k")
      case same: True
      have "\<exists>as d ds. c # cs = as @ d # ds \<and> b' = Some d \<and> coding_quality offers d = q' \<and> (\<forall>a \<in> set as. coding_quality offers a < q')"
        by (rule exI [of _ "[]"], rule exI [of _ c], rule exI [of _ cs]) (use same ih in simp)
      with same ih True show ?thesis by simp
    next
      case False
      with ih obtain as d ds where "cs = as @ d # ds" "b' = Some d" "coding_quality offers d = q'"
        "\<forall>a \<in> set as. coding_quality offers a < q'" by auto
      moreover have "?k < q'" using ih False by simp
      ultimately have "\<exists>as d ds. c # cs = as @ d # ds \<and> b' = Some d \<and> coding_quality offers d = q' \<and> (\<forall>a \<in> set as. coding_quality offers a < q')"
        by (intro exI [of _ "c # as"] exI [of _ d] exI [of _ ds]) simp
      with ih True \<open>?k < q'\<close> show ?thesis by simp
    qed
  next
    case False
    with Cons.prems k have run: "best_coding offers w cs (b, q) = (b', q')" by (simp add: Let_def)
    note ih = Cons.IH [OF run]
    show ?thesis
    proof (cases "q' = q")
      case True
      with ih False show ?thesis by auto
    next
      case changed: False
      with ih obtain as d ds where "cs = as @ d # ds" "b' = Some d" "coding_quality offers d = q'"
        "\<forall>a \<in> set as. coding_quality offers a < q'" by auto
      moreover have "?k < q'" using ih False changed by simp
      ultimately have "\<exists>as d ds. c # cs = as @ d # ds \<and> b' = Some d \<and> coding_quality offers d = q' \<and> (\<forall>a \<in> set as. coding_quality offers a < q')"
        by (intro exI [of _ "c # as"] exI [of _ d] exI [of _ ds]) simp
      with ih changed \<open>?k < q'\<close> show ?thesis by simp
    qed
  qed
qed simp

definition identity_quality :: "(bytes, nat) btree \<Rightarrow> nat option" where
  "identity_quality offers =
     (case bt_get ''identity'' offers of Some q \<Rightarrow> Some q | None \<Rightarrow> bt_get ''*'' offers)"

subsection \<open>What a client offers\<close>

text \<open>A printable character that is no space; a text between two of them has nothing to trim.\<close>

definition is_graphic :: "byte \<Rightarrow> bool" where
  "is_graphic b \<longleftrightarrow> 33 \<le> code b \<and> code b < 127"

lemma ws_not_graphic: "list_all (\<lambda>w. \<not> is_graphic (hd w) \<and> \<not> is_graphic (last w)) ws_encodings"
  by code_simp

lemma drop_one_graphic:
  assumes "s \<noteq> []" and "\<forall>w \<in> set ws. \<not> is_graphic (hd w)" and "is_graphic (hd s)"
  shows "drop_one ws s = None"
proof (rule ccontr)
  assume "drop_one ws s \<noteq> None"
  then obtain w r where "w \<in> set ws" "w \<noteq> []" "s = w @ r" using drop_one_Some [of ws s] by auto
  with assms show False by auto
qed

lemma trim_graphic:
  assumes "s \<noteq> []" and "is_graphic (hd s)" and "is_graphic (last s)"
  shows "trim s = s"
proof (rule trim_trimmed, unfold trimmed_def, rule conjI)
  show "drop_one ws_encodings s = None" using assms ws_not_graphic by (intro drop_one_graphic) (auto simp: list_all_iff)
  show "drop_one (map rev ws_encodings) (rev s) = None"
    using assms ws_not_graphic by (intro drop_one_graphic) (auto simp: list_all_iff hd_rev)
qed

text \<open>
  An offer as a client writes it: a coding and, if it states one, its quality in thousandths. An
  \<open>Accept-Encoding\<close> field is a list of offers separated by commas.
\<close>

type_synonym offer = "bytes \<times> nat option"

definition quality_digit :: "nat \<Rightarrow> byte" where
  "quality_digit d = char_of (48 + d)"

definition quality_text :: "nat \<Rightarrow> bytes" where
  "quality_text q = (if q = 1000 then ''1''
     else ''0.'' @ [quality_digit (q div 100), quality_digit (q div 10 mod 10), quality_digit (q mod 10)])"

fun offer_text :: "offer \<Rightarrow> bytes" where
  "offer_text (c, None) = c"
| "offer_text (c, Some q) = c @ '';q='' @ quality_text q"

definition field_text :: "offer list \<Rightarrow> bytes" where
  "field_text os = join '','' (map offer_text os)"

text \<open>A coding that can stand in a field: a token of printable characters without the separators.\<close>

definition offer_ok :: "http_crate \<Rightarrow> offer \<Rightarrow> bool" where
  "offer_ok http e \<longleftrightarrow> fst e \<noteq> [] \<and> list_all is_graphic (fst e) \<and> CHR 0x2C \<notin> set (fst e) \<and> CHR 0x3B \<notin> set (fst e) \<and>
     name_valid http (fst e) \<and> (case snd e of None \<Rightarrow> True | Some q \<Rightarrow> q \<le> 1000)"

text \<open>
  What the offers say of a coding: the least quality stated for it, whatever its case, where a quality that
  is not stated is the highest; a coding that is not named has the quality of the wildcard, or none.
\<close>

definition stated :: "offer list \<Rightarrow> bytes \<Rightarrow> nat set" where
  "stated os c = {case q of Some n \<Rightarrow> n | None \<Rightarrow> 1000 |d q. (d, q) \<in> set os \<and> to_ascii_lowercase d = c}"

definition offered :: "offer list \<Rightarrow> bytes \<Rightarrow> nat option" where
  "offered os c = (if stated os c = {} then None else Some (Min (stated os c)))"

definition offered_quality :: "offer list \<Rightarrow> bytes \<Rightarrow> nat" where
  "offered_quality os c =
     (case offered os c of Some q \<Rightarrow> q | None \<Rightarrow> (case offered os ''*'' of Some q \<Rightarrow> q | None \<Rightarrow> 0))"

lemma quality_digit: "d < 10 \<Longrightarrow> is_ascii_digit (quality_digit d) \<and> digit_val (quality_digit d) = d"
  by (simp add: quality_digit_def is_ascii_digit_def digit_val_def)

lemma quality_text_value:
  assumes "q \<le> 1000"
  shows "quality (quality_text q) = Some q"
proof (cases "q = 1000")
  case True
  then show ?thesis by (simp add: quality_text_def) code_simp
next
  case False
  let ?f = "[quality_digit (q div 100), quality_digit (q div 10 mod 10), quality_digit (q mod 10)]"
  have d: "q div 100 < 10" "q div 10 mod 10 < 10" "q mod 10 < 10" using assms False by auto
  have "split_once (CHR ''.'') (''0'' @ CHR ''.'' # ?f) = Some (''0'', ?f)" by (rule split_once_append) simp
  then have "split_once (CHR ''.'') (quality_text q) = Some (''0'', ?f)" using False by (simp add: quality_text_def)
  moreover have "q div 100 * 100 + (q div 10 mod 10 * 10 + q mod 10) = q"
    using div_mult_mod_eq [of "q div 10" 10] div_mult_mod_eq [of q 10] div_mult2_eq [of q 10 10, simplified] by linarith
  ultimately show ?thesis using d by (simp add: quality_def quality_digit)
qed

lemma quality_text_chars:
  assumes "q \<le> 1000" and "b \<in> set (quality_text q)"
  shows "is_ascii_digit b \<or> b = CHR ''.''"
proof (cases "q = 1000")
  case True
  with assms(2) show ?thesis by (simp add: quality_text_def is_ascii_digit_def)
next
  case False
  have "is_ascii_digit (quality_digit (q div 100))" "is_ascii_digit (quality_digit (q div 10 mod 10))" "is_ascii_digit (quality_digit (q mod 10))"
    using assms(1) False by (simp_all add: quality_digit)
  moreover have "is_ascii_digit (CHR ''0'')" by (simp add: is_ascii_digit_def)
  ultimately show ?thesis using assms(2) False by (auto simp: quality_text_def)
qed

lemma quality_text_graphic: "q \<le> 1000 \<Longrightarrow> list_all is_graphic (quality_text q) \<and> quality_text q \<noteq> [] \<and>
    CHR 0x2C \<notin> set (quality_text q) \<and> CHR 0x3B \<notin> set (quality_text q)"
proof -
  assume q: "q \<le> 1000"
  have "is_graphic b" if "b \<in> set (quality_text q)" for b
    using quality_text_chars [OF q that] by (auto simp: is_ascii_digit_def is_graphic_def)
  moreover have "CHR 0x2C \<notin> set (quality_text q)" using quality_text_chars [OF q, of "CHR 0x2C"] by (auto simp: is_ascii_digit_def)
  moreover have "CHR 0x3B \<notin> set (quality_text q)" using quality_text_chars [OF q, of "CHR 0x3B"] by (auto simp: is_ascii_digit_def)
  ultimately show ?thesis by (auto simp: list_all_iff quality_text_def)
qed

lemma trim_all_graphic: "s \<noteq> [] \<Longrightarrow> list_all is_graphic s \<Longrightarrow> trim s = s"
  by (intro trim_graphic) (auto simp: list_all_iff)

lemma offer_text_graphic: "offer_ok http e \<Longrightarrow> offer_text e \<noteq> [] \<and> list_all is_graphic (offer_text e) \<and> CHR 0x2C \<notin> set (offer_text e)"
proof -
  assume ok: "offer_ok http e"
  obtain c q where e: "e = (c, q)" by fastforce
  have "is_graphic (CHR 0x3B)" "is_graphic (CHR ''q'')" "is_graphic (CHR ''='')" by (simp_all add: is_graphic_def)
  with ok e quality_text_graphic show ?thesis by (cases q) (auto simp: offer_ok_def)
qed

lemma accept_item_offer:
  assumes "offer_ok http e"
  shows "accept_item http (offer_text e) = Some (Some (to_ascii_lowercase (fst e), case snd e of Some q \<Rightarrow> q | None \<Rightarrow> 1000))"
proof -
  obtain c q where e: "e = (c, q)" by fastforce
  have ok: "c \<noteq> []" "list_all is_graphic c" "CHR 0x3B \<notin> set c" "name_valid http c" using assms e by (auto simp: offer_ok_def)
  have t: "trim (offer_text e) = offer_text e" "offer_text e \<noteq> []" using offer_text_graphic [OF assms] trim_all_graphic by auto
  have c: "trim c = c" using ok trim_all_graphic by blast
  show ?thesis
  proof (cases q)
    case None
    with e t c ok show ?thesis by (simp add: accept_item_def Let_def split_at_no_sep)
  next
    case (Some n)
    with assms e have n: "n \<le> 1000" by (simp add: offer_ok_def)
    note g = quality_text_graphic [OF n]
    have "offer_text e = c @ CHR 0x3B # (''q='' @ quality_text n)" using e Some by simp
    then have s: "split_at (CHR 0x3B) (offer_text e) = [c, ''q='' @ quality_text n]"
      using ok g by (simp add: split_at_append_sep split_at_no_sep)
    have p: "trim (''q='' @ quality_text n) = ''q'' @ CHR ''='' # quality_text n"
      using g by (subst trim_all_graphic) (auto simp: is_graphic_def)
    have o: "split_once (CHR ''='') (''q'' @ CHR ''='' # quality_text n) = Some (''q'', quality_text n)" by (rule split_once_append) simp
    have "eq_ignore_ascii_case (trim ''q'') ''q''" by code_simp
    moreover have "trim (quality_text n) = quality_text n" using g trim_all_graphic by blast
    ultimately show ?thesis
      using e Some t c ok s p o quality_text_value [OF n] by (simp add: accept_item_def Let_def)
  qed
qed

text \<open>Reading the offers gives, for every coding, the quality they state.\<close>

definition reads_offers :: "(bytes, nat) btree \<Rightarrow> offer list \<Rightarrow> bool" where
  "reads_offers m os \<longleftrightarrow> bt_ok m \<and> (\<forall>c. bt_get c m = offered os c)"

lemma stated_Nil: "stated [] c = {}"
  and stated_Cons: "stated ((d, q) # os) c =
     (if to_ascii_lowercase d = c then insert (case q of Some n \<Rightarrow> n | None \<Rightarrow> 1000) (stated os c) else stated os c)"
  by (auto simp: stated_def)

lemma stated_snoc:
  "stated (os @ [(d, q)]) c =
     (if to_ascii_lowercase d = c then insert (case q of Some n \<Rightarrow> n | None \<Rightarrow> 1000) (stated os c) else stated os c)"
  by (auto simp: stated_def)

lemma finite_stated [simp]: "finite (stated os c)"
proof -
  have "stated os c \<subseteq> (\<lambda>(d, q). case q of Some n \<Rightarrow> n | None \<Rightarrow> 1000) ` set os" by (force simp: stated_def)
  then show ?thesis by (rule finite_subset) simp
qed

lemma offered_snoc:
  "offered (os @ [(d, q)]) c =
     (if to_ascii_lowercase d = c then
        (case offered os c of None \<Rightarrow> Some (case q of Some n \<Rightarrow> n | None \<Rightarrow> 1000)
         | Some k \<Rightarrow> Some (min k (case q of Some n \<Rightarrow> n | None \<Rightarrow> 1000)))
      else offered os c)"
  by (simp add: offered_def stated_snoc min.commute)

lemma add_offer_reads:
  assumes "reads_offers m os"
  shows "reads_offers (add_offer (to_ascii_lowercase (fst e), case snd e of Some q \<Rightarrow> q | None \<Rightarrow> 1000) m) (os @ [e])"
proof -
  obtain d q where e: "e = (d, q)" by fastforce
  show ?thesis
    using assms unfolding reads_offers_def e
    by (auto simp: add_offer_def offered_snoc split: option.splits)
qed

lemma accept_items_reads:
  assumes "reads_offers m os" and "\<forall>e \<in> set es. offer_ok http e"
  shows "\<exists>m'. accept_items http (map offer_text es) m = Some m' \<and> reads_offers m' (os @ es)"
  using assms
proof (induction es arbitrary: m os)
  case (Cons e es)
  from add_offer_reads [OF Cons.prems(1)] Cons.IH [of _ "os @ [e]"] Cons.prems(2) show ?case
    by (auto simp: accept_item_offer)
qed simp

lemma accept_fields_reads:
  assumes "reads_offers m os" and "\<forall>es \<in> set ess. \<forall>e \<in> set es. offer_ok http e" and "\<forall>es \<in> set ess. value_str http (field_text es) = Some (field_text es)"
  shows "\<exists>m'. accept_fields http (map field_text ess) m = Some m' \<and> reads_offers m' (os @ concat ess)"
  using assms
proof (induction ess arbitrary: m os)
  case (Cons es ess)
  have items: "\<exists>m'. accept_items http (split_at (CHR 0x2C) (field_text es)) m = Some m' \<and> reads_offers m' (os @ es)"
  proof (cases "es = []")
    case True
    have "trim [] = []" by code_simp
    then have "accept_item http [] = Some None" by (simp add: accept_item_def)
    with True Cons.prems(1) show ?thesis by (simp add: field_text_def)
  next
    case False
    have "split_at (CHR 0x2C) (field_text es) = map offer_text es"
      unfolding field_text_def using False Cons.prems(2) offer_text_graphic by (intro split_at_join) auto
    with accept_items_reads [OF Cons.prems(1)] Cons.prems(2) show ?thesis by simp
  qed
  then obtain m' where m': "accept_items http (split_at (CHR 0x2C) (field_text es)) m = Some m'" "reads_offers m' (os @ es)" by blast
  from Cons.IH [OF m'(2)] Cons.prems m'(1) show ?case by (simp add: bind_eq_Some_conv) 
qed simp

subsection \<open>The selected coding\<close>

definition first_best :: "(bytes \<Rightarrow> nat) \<Rightarrow> bytes list \<Rightarrow> bytes \<Rightarrow> bool" where
  "first_best rank cs c \<longleftrightarrow>
     (\<exists>as ds. cs = as @ c # ds \<and> (\<forall>a \<in> set as. rank a < rank c)) \<and> (\<forall>d \<in> set cs. rank d \<le> rank c)"

lemma first_best_unique:
  assumes "first_best rank cs c" and "first_best rank cs d"
  shows "c = d"
proof -
  obtain as bs where c: "cs = as @ c # bs" "\<forall>a \<in> set as. rank a < rank c" using assms(1) by (auto simp: first_best_def)
  obtain xs ys where d: "cs = xs @ d # ys" "\<forall>a \<in> set xs. rank a < rank d" using assms(2) by (auto simp: first_best_def)
  have eq: "rank c = rank d" 
  proof (rule antisym)
    have "c \<in> set cs" unfolding c(1) by simp
    moreover have "d \<in> set cs" unfolding d(1) by simp
    ultimately show "rank c \<le> rank d" "rank d \<le> rank c" using assms by (simp_all add: first_best_def)
  qed
  have "c \<notin> set xs" "d \<notin> set as" using c(2) d(2) eq by auto
  with c(1) d(1) show ?thesis by (auto simp: append_eq_append_conv2 Cons_eq_append_conv append_eq_Cons_conv)
qed

lemma select_coding_exact:
  assumes "parse_accept http h = Some offers"
  shows "(select_coding http h supported = Coding c \<longleftrightarrow>
      first_best (coding_quality offers) supported c \<and> 0 < coding_quality offers c \<and>
      (\<forall>q. bt_get ''identity'' offers = Some q \<longrightarrow> q \<le> coding_quality offers c)) \<and>
    (select_coding http h supported = NotAcceptable \<longleftrightarrow>
      (\<forall>c \<in> set supported. coding_quality offers c = 0) \<and> identity_quality offers = Some 0) \<and>
    select_coding http h supported \<noteq> InvalidAccept"
proof -
  let ?w = "case bt_get ''*'' offers of Some q \<Rightarrow> q | None \<Rightarrow> 0"
  obtain b q where run: "best_coding offers ?w supported (None, 0) = (b, q)" by fastforce
  note spec = best_coding_spec [OF run refl]
  have zero: "q = 0 \<longleftrightarrow> (\<forall>c \<in> set supported. coding_quality offers c = 0)"
    using spec by (auto split: if_splits)
  have sel: "select_coding http h supported =
      (if (case bt_get ''identity'' offers of Some k \<Rightarrow> q < k | None \<Rightarrow> False) then Identity
       else case b of Some c \<Rightarrow> Coding c | None \<Rightarrow> if identity_quality offers = Some 0 then NotAcceptable else Identity)"
    using assms run by (simp add: select_coding_def Let_def identity_quality_def)
  show ?thesis
  proof (cases "q = 0")
    case True
    with spec have "b = None" by simp
    moreover have "\<not> (first_best (coding_quality offers) supported c \<and> 0 < coding_quality offers c)"
      using True zero by (auto simp: first_best_def)
    ultimately show ?thesis using True zero sel by (auto simp: identity_quality_def split: option.splits if_splits)
  next
    case False
    with spec obtain d where d: "b = Some d" "coding_quality offers d = q" "first_best (coding_quality offers) supported d"
      by (auto simp: first_best_def)
    have nz: "\<not> (\<forall>c \<in> set supported. coding_quality offers c = 0)" using zero False by blast
    have only: "first_best (coding_quality offers) supported c \<longleftrightarrow> c = d" using first_best_unique d(3) by blast
    show ?thesis
    proof (cases "case bt_get ''identity'' offers of Some k \<Rightarrow> q < k | None \<Rightarrow> False")
      case True
      then have "\<exists>k. bt_get ''identity'' offers = Some k \<and> \<not> k \<le> q" by (auto split: option.splits)
      with True sel nz only d(2) show ?thesis by auto
    next
      case accepted: False
      then have "\<forall>k. bt_get ''identity'' offers = Some k \<longrightarrow> k \<le> q" by (auto split: option.splits)
      moreover have "select_coding http h supported = Coding d" using sel accepted d(1) by simp
      ultimately show ?thesis using nz only d(2) False by auto
    qed
  qed
qed


subsection \<open>Ranges stay inside the file\<close>

lemma wanted_part_bounds:
  "wanted_part len from to = Part start end \<Longrightarrow> start \<le> end \<and> end < len"
  by (auto simp: wanted_part_def min_def split: if_splits option.splits prod.splits)

lemma wanted_bounds: "wanted http h len validator = Part start end \<Longrightarrow> start \<le> end \<and> end < len"
  by (auto simp: wanted_def split: if_splits option.splits prod.splits dest: wanted_part_bounds)

text \<open>A resumed download is never given a part of another version.\<close>

lemma if_range_mismatch:
  "get_all ''if-range'' h = [v] \<Longrightarrow> value_str http v = Some condition \<Longrightarrow> \<not> strong_equal (trim condition) validator \<Longrightarrow>
    wanted http h len validator = Whole"
  by (simp add: wanted_def header_of_def contains_key_def split: option.splits)

lemma decimal_fold_value:
  "decimal_fold (min u64_max n) ds = Some m \<longleftrightarrow>
    list_all is_ascii_digit ds \<and> m = min u64_max (foldl (\<lambda>n c. 10 * n + digit_val c) n ds)"
proof (induction ds arbitrary: n)
  case (Cons d ds)
  have "saturating_add u64_max (saturating_mul u64_max (min u64_max n) 10) (digit_val d) = min u64_max (10 * n + digit_val d)"
    by (simp add: saturating_add_def saturating_mul_def min_def u64_max_def)
  with Cons show ?case by simp
qed auto

lemma decimal_value:
  "decimal ds = Some m \<longleftrightarrow> ds \<noteq> [] \<and> list_all is_ascii_digit ds \<and> m = min u64_max (dec_value ds)"
  using decimal_fold_value [of 0 ds m] by (auto simp: decimal_def dec_value_def)

text \<open>The header value the client is shown: what \<open>from_str\<close> makes of a decimal text.\<close>

lemma get_insert_text [simp]:
  "value_of http text = Some v \<Longrightarrow> get_all n (insert_text http name text h) = (if n = name then [v] else get_all n h)"
  by (simp add: insert_text_def)

text \<open>A response that carries exactly the bytes \<open>bs\<close>.\<close>

definition carries_bytes :: "file_response \<Rightarrow> bytes \<Rightarrow> bool" where
  "carries_bytes rs bs \<longleftrightarrow> fp_body rs = Once bs \<or> fp_body rs = Streamed bs True"

lemma read_exact_slice:
  "start + len \<le> length (of_content f) \<Longrightarrow> read_exact f start len = Inr (take len (drop start (of_content f)))"
  by (simp add: read_exact_def)

lemma stream_exact_slice:
  "start + len \<le> length (of_content f) \<Longrightarrow> stream_exact f start len = Streamed (take len (drop start (of_content f))) True"
  by (simp add: stream_exact_def)

lemma strong_equal_iff:
  "strong_equal l r \<longleftrightarrow> l = r \<and> (\<exists>opaque. r = [CHR 0x22] @ opaque @ [CHR 0x22] \<and> list_all etagc opaque)"
proof -
  have strong: "tag s = Some (False, opaque) \<longleftrightarrow> s = [CHR 0x22] @ opaque @ [CHR 0x22] \<and> list_all etagc opaque" for s opaque
  proof
    assume "tag s = Some (False, opaque)"
    then show "s = [CHR 0x22] @ opaque @ [CHR 0x22] \<and> list_all etagc opaque"
      unfolding tag_def Let_def by (auto simp: strip_prefix_iff strip_suffix_iff starts_with_iff split: option.splits if_splits)
  next
    assume s: "s = [CHR 0x22] @ opaque @ [CHR 0x22] \<and> list_all etagc opaque"
    then have "strip_prefix ''W/'' s = None" "strip_prefix [CHR 0x22] s = Some (opaque @ [CHR 0x22])"
      "strip_suffix [CHR 0x22] (opaque @ [CHR 0x22]) = Some opaque"
      by (cases "strip_prefix ''W/'' s"; simp add: strip_prefix_iff strip_suffix_iff)+
    with s show "tag s = Some (False, opaque)" unfolding tag_def Let_def by (simp add: starts_with_def)
  qed
  have "strong_equal l r \<longleftrightarrow> (\<exists>a. tag l = Some (False, a) \<and> tag r = Some (False, a))"
    unfolding strong_equal_def by (auto split: option.splits prod.splits bool.splits)
  then show ?thesis unfolding strong by blast
qed

text \<open>A range of bytes, how a client writes it and the positions of a file it asks for.\<close>

datatype range_spec = RangeBetween nat nat | RangeFrom nat | RangeLast nat

definition denotes :: "bytes \<Rightarrow> nat \<Rightarrow> bool" where
  "denotes ds n \<longleftrightarrow> ds \<noteq> [] \<and> list_all is_ascii_digit ds \<and> dec_value ds = n"

text \<open>
  \<open>a-z\<close>, \<open>a-\<close> or \<open>-n\<close>. Positions are kept in 64 bits, so that the first of two may follow the second
  where both are beyond that; such a range asks for nothing.
\<close>

fun range_written :: "range_spec \<Rightarrow> bytes \<Rightarrow> bytes \<Rightarrow> bool" where
  "range_written (RangeBetween a z) x y \<longleftrightarrow> denotes x a \<and> denotes y z \<and> (a \<le> z \<or> u64_max \<le> z)"
| "range_written (RangeFrom a) x y \<longleftrightarrow> denotes x a \<and> y = []"
| "range_written (RangeLast n) x y \<longleftrightarrow> x = [] \<and> denotes y n"

fun asks_for :: "range_spec \<Rightarrow> nat \<Rightarrow> nat \<Rightarrow> bool" where
  "asks_for (RangeBetween a z) len i \<longleftrightarrow> a \<le> i \<and> i \<le> z"
| "asks_for (RangeFrom a) len i \<longleftrightarrow> a \<le> i"
| "asks_for (RangeLast n) len i \<longleftrightarrow> len \<le> i + n"

definition asked_positions :: "range_spec \<Rightarrow> nat \<Rightarrow> nat list" where
  "asked_positions r len = filter (asks_for r len) [0..<len]"

text \<open>
  A request for one range of a file with a given entity tag: one readable \<open>Range\<close> header that is such a
  range of bytes, and no \<open>If-Range\<close> header or one that names this very version.
\<close>

definition requests_range :: "http_crate \<Rightarrow> header_map \<Rightarrow> bytes \<Rightarrow> range_spec \<Rightarrow> bool" where
  "requests_range http h validator r \<longleftrightarrow>
     (\<exists>v s unit x y. get_all ''range'' h = [v] \<and> value_str http v = Some s \<and>
        trim s = unit @ ''='' @ x @ ''-'' @ y \<and> to_ascii_lowercase unit = ''bytes'' \<and> range_written r x y) \<and>
     (get_all ''if-range'' h = [] \<or>
      (\<exists>v c. get_all ''if-range'' h = [v] \<and> value_str http v = Some c \<and> trim c = validator \<and>
         (\<exists>opaque. validator = [CHR 0x22] @ opaque @ [CHR 0x22] \<and> list_all etagc opaque)))"

definition range_of :: "range_spec \<Rightarrow> nat \<Rightarrow> wanted_range" where
  "range_of r len = (case asked_positions r len of [] \<Rightarrow> Unsatisfiable | ps \<Rightarrow> Part (hd ps) (last ps))"

lemma filter_interval: "a \<le> z \<Longrightarrow> z < len \<Longrightarrow> (\<And>i. i < len \<Longrightarrow> P i \<longleftrightarrow> a \<le> i \<and> i \<le> z) \<Longrightarrow> filter P [0..<len] = [a..<Suc z]"
proof -
  assume a: "a \<le> z" "z < len" and P: "\<And>i. i < len \<Longrightarrow> P i \<longleftrightarrow> a \<le> i \<and> i \<le> z"
  have "[0..<len] = [0..<a] @ [a..<Suc z] @ [Suc z..<len]" 
    using a upt_add_eq_append [of 0 a "len - a"] upt_add_eq_append [of a "Suc z" "len - Suc z"] by simp
  moreover have "filter P [0..<a] = []" "filter P [a..<Suc z] = [a..<Suc z]" "filter P [Suc z..<len] = []"
    using a P by (auto simp: filter_empty_conv filter_id_conv)
  ultimately show ?thesis by (metis append_Nil append_Nil2 filter_append)
qed

lemma range_of_interval:
  assumes "a \<le> z" and "z < len" and "\<And>i. i < len \<Longrightarrow> asks_for r len i \<longleftrightarrow> a \<le> i \<and> i \<le> z"
  shows "range_of r len = Part a z" "asked_positions r len = [a..<Suc z]"
proof -
  show p: "asked_positions r len = [a..<Suc z]" unfolding asked_positions_def by (rule filter_interval [OF assms])
  have "[a..<Suc z] \<noteq> []" "hd [a..<Suc z] = a" "last [a..<Suc z] = z" using assms(1) by (simp_all add: hd_upt last_upt del: upt_Suc)
  then show "range_of r len = Part a z" unfolding range_of_def p by (cases "[a..<Suc z]") auto
qed

lemma range_of_none: "(\<And>i. i < len \<Longrightarrow> \<not> asks_for r len i) \<Longrightarrow> range_of r len = Unsatisfiable"
  by (simp add: range_of_def asked_positions_def filter_empty_conv)

lemma decimal_denotes: "denotes ds n \<Longrightarrow> decimal ds = Some (min u64_max n)"
  by (simp add: decimal_value denotes_def)

lemma wanted_part_written:
  assumes "range_written r x y" and "len \<le> u64_max"
  shows "wanted_part len x y = range_of r len"
proof (cases r)
  case (RangeBetween a z)
  then have w: "denotes x a" "denotes y z" "a \<le> z \<or> u64_max \<le> z" "x \<noteq> []" "y \<noteq> []"
    using assms(1) by (auto simp: denotes_def)
  show ?thesis
  proof (cases "a < len")
    case True
    then have "range_of r len = Part a (min z (len - 1))" using w(3) assms(2) RangeBetween by (intro range_of_interval) auto
    then show ?thesis using True assms(2) w by (auto simp: wanted_part_def decimal_denotes min_def)
  next
    case False
    then have "range_of r len = Unsatisfiable" using RangeBetween by (intro range_of_none) auto
    then show ?thesis using False assms(2) w by (auto simp: wanted_part_def decimal_denotes min_def)
  qed
next
  case (RangeFrom a)
  then have w: "denotes x a" "x \<noteq> []" "y = []" using assms(1) by (auto simp: denotes_def)
  show ?thesis
  proof (cases "a < len")
    case True
    then have "range_of r len = Part a (len - 1)" using RangeFrom by (intro range_of_interval) auto
    then show ?thesis using True assms(2) w by (simp add: wanted_part_def decimal_denotes min_def)
  next
    case False
    then have "range_of r len = Unsatisfiable" using RangeFrom by (intro range_of_none) auto
    then show ?thesis using False assms(2) w by (simp add: wanted_part_def decimal_denotes min_def)
  qed
next
  case (RangeLast n)
  then have w: "x = []" "denotes y n" using assms(1) by auto
  show ?thesis
  proof (cases "len = 0 \<or> n = 0")
    case True
    then have "range_of r len = Unsatisfiable" using RangeLast by (intro range_of_none) auto
    then show ?thesis using True assms(2) w by (auto simp: wanted_part_def decimal_denotes min_def)
  next
    case False
    then have "range_of r len = Part (len - n) (len - 1)" using RangeLast by (intro range_of_interval) auto
    then show ?thesis using False assms(2) w by (auto simp: wanted_part_def decimal_denotes min_def u64_max_def)
  qed
qed

lemma wanted_part_range:
  assumes "wanted_part len x y \<noteq> Whole"
  shows "\<exists>r. range_written r x y"
proof -
  have some: "denotes ds (dec_value ds) \<and> n = min u64_max (dec_value ds)" if "decimal ds = Some n" for ds n
    using that by (simp add: decimal_value denotes_def)
  consider "x = []" | "x \<noteq> []" "y = []" | "x \<noteq> []" "y \<noteq> []" by blast
  then show ?thesis
  proof cases
    case 1
    with assms obtain n where "decimal y = Some n" by (auto simp: wanted_part_def split: option.splits)
    with some 1 have "range_written (RangeLast (dec_value y)) x y" by simp
    then show ?thesis by blast
  next
    case 2
    with assms obtain n where "decimal x = Some n" by (auto simp: wanted_part_def split: option.splits)
    with some 2 have "range_written (RangeFrom (dec_value x)) x y" by simp
    then show ?thesis by blast
  next
    case 3
    with assms obtain m n where d: "decimal x = Some m" "decimal y = Some n" "\<not> n < m"
      by (auto simp: wanted_part_def split: option.splits if_splits)
    with some [OF d(1)] some [OF d(2)] have "range_written (RangeBetween (dec_value x) (dec_value y)) x y"
      by (auto simp: min_def split: if_splits)
    then show ?thesis by blast
  qed
qed

lemma bytes_unit: "to_ascii_lowercase unit = ''bytes'' \<Longrightarrow> CHR ''='' \<notin> set unit"
proof
  assume u: "to_ascii_lowercase unit = ''bytes''" and "CHR ''='' \<in> set unit"
  from this(2) have "lower_byte (CHR ''='') \<in> set (to_ascii_lowercase unit)" by (simp add: to_ascii_lowercase_def)
  moreover have "lower_byte (CHR ''='') = CHR ''=''" by code_simp
  ultimately have "CHR ''='' \<in> set ''bytes''" unfolding u by simp
  then show False by simp
qed

lemma range_written_split:
  "range_written r x y \<Longrightarrow> CHR ''-'' \<notin> set x \<and> CHR 0x2C \<notin> set (x @ ''-'' @ y)"
  by (cases r) (auto simp: denotes_def list_all_iff is_ascii_digit_def)

lemma wanted_requests:
  assumes "requests_range http h validator r" and "len \<le> u64_max"
  shows "wanted http h len validator = range_of r len"
proof -
  from assms(1) obtain v s unit x y where v: "get_all ''range'' h = [v]" "value_str http v = Some s"
      and t: "trim s = unit @ CHR ''='' # x @ CHR ''-'' # y" and u: "to_ascii_lowercase unit = ''bytes''" and r: "range_written r x y"
    by (auto simp: requests_range_def)
  have pass: "\<not> (contains_key ''if-range'' h \<and> (case header_of http ''if-range'' h of
      None \<Rightarrow> True | Some condition \<Rightarrow> \<not> strong_equal (trim condition) validator))"
    using assms(1) by (auto simp: requests_range_def header_of_def contains_key_def strong_equal_iff)
  have h: "header_of http ''range'' h = Some s" using v by (simp add: header_of_def)
  have eq: "eq_ignore_ascii_case unit ''bytes''" using u by (simp add: eq_ignore_ascii_case_def) code_simp
  have c: "CHR 0x2C \<notin> set (x @ CHR ''-'' # y)" and d: "split_once (CHR ''-'') (x @ CHR ''-'' # y) = Some (x, y)"
    using range_written_split [OF r] by auto
  have "split_once (CHR ''='') (trim s) = Some (unit, x @ CHR ''-'' # y)" unfolding t by (rule split_once_append) (rule bytes_unit [OF u])
  then show ?thesis unfolding wanted_def h using eq c d
    by (simp only: pass if_False option.case prod.case simp_thms) (simp add: wanted_part_written [OF r assms(2)])
qed

lemma wanted_whole:
  assumes "\<And>r. \<not> requests_range http h validator r"
  shows "wanted http h len validator = Whole"
proof (rule ccontr)
  assume w: "wanted http h len validator \<noteq> Whole"
  then obtain s where s: "header_of http ''range'' h = Some s" by (auto simp: wanted_def split: option.splits)
  with w have pass: "\<not> (contains_key ''if-range'' h \<and> (case header_of http ''if-range'' h of
      None \<Rightarrow> True | Some condition \<Rightarrow> \<not> strong_equal (trim condition) validator))" by (auto simp: wanted_def)
  with w s obtain unit spec where u: "split_once (CHR ''='') (trim s) = Some (unit, spec)" "eq_ignore_ascii_case unit ''bytes''"
    by (auto simp: wanted_def split: option.splits if_splits)
  with w s pass obtain x y where x: "split_once (CHR ''-'') spec = Some (x, y)" "wanted_part len x y \<noteq> Whole"
    by (auto simp: wanted_def split: option.splits if_splits)
  from wanted_part_range [OF x(2)] obtain r where r: "range_written r x y" ..
  have t: "trim s = unit @ ''='' @ x @ ''-'' @ y" using u(1) x(1) by (simp add: split_once_Some)
  have low: "to_ascii_lowercase unit = ''bytes''" using u(2) unfolding eq_ignore_ascii_case_def by (rule trans) code_simp
  obtain v where v: "get_all ''range'' h = [v]" "value_str http v = Some s"
    using s by (auto simp: header_of_def split: list.splits)
  have "get_all ''if-range'' h = [] \<or>
      (\<exists>v c. get_all ''if-range'' h = [v] \<and> value_str http v = Some c \<and> strong_equal (trim c) validator)"
    using pass by (auto simp: header_of_def contains_key_def split: list.splits option.splits)
  with v t low r have "requests_range http h validator r" unfolding requests_range_def strong_equal_iff by blast
  with assms show False by blast
qed
lemma deliver_wanted:
  assumes "of_len f = length (of_content f)"
    and "\<And>text. list_all (\<lambda>b. 32 \<le> code b \<and> code b < 127) text \<Longrightarrow> value_of http text = Some text"
  shows "\<exists>rs'. deliver http f (wanted http h (of_len f) validator) rs = (Inr (), rs') \<and>
    get_all ''accept-ranges'' (fp_headers rs') = [''bytes''] \<and>
    (case wanted http h (of_len f) validator of
       Whole \<Rightarrow> fp_status rs' = 200 \<and> carries_bytes rs' (of_content f) \<and>
         get_all ''content-length'' (fp_headers rs') = [show_nat (length (of_content f))]
     | Part start end \<Rightarrow> start \<le> end \<and> end < length (of_content f) \<and> fp_status rs' = 206 \<and>
         carries_bytes rs' (take (end - start + 1) (drop start (of_content f))) \<and>
         get_all ''content-length'' (fp_headers rs') = [show_nat (end - start + 1)] \<and>
         get_all ''content-range'' (fp_headers rs') =
           [''bytes '' @ show_nat start @ ''-'' @ show_nat end @ ''/'' @ show_nat (length (of_content f))]
     | Unsatisfiable \<Rightarrow> fp_status rs' = 416 \<and> fp_body rs' = fp_body rs \<and>
         get_all ''content-range'' (fp_headers rs') = [''bytes */'' @ show_nat (length (of_content f))])"
proof -
  let ?w = "wanted http h (of_len f) validator" and ?size = "length (of_content f)"
  let ?rs = "rs\<lparr>fp_headers := insert_header ''accept-ranges'' ''bytes'' (fp_headers rs)\<rparr>"
  have digits: "list_all (\<lambda>b. 32 \<le> code b \<and> code b < 127) (show_nat n)" for n
    using show_nat_digits [of n] by (auto simp: list_all_iff is_ascii_digit_def)
  have number: "value_of http (show_nat n) = Some (show_nat n)" for n by (rule assms(2)) (rule digits)
  show ?thesis
  proof (cases ?w)
    case Whole
    then show ?thesis
      using assms(1) number [of ?size] read_exact_slice [of 0 ?size f] stream_exact_slice [of 0 ?size f]
      by (cases "?size \<le> inline_limit") (simp_all add: deliver_def carries_bytes_def)
  next
    case Unsatisfiable
    have "value_of http (''bytes */'' @ show_nat ?size) = Some (''bytes */'' @ show_nat ?size)"
      by (rule assms(2)) (simp add: digits)
    with Unsatisfiable assms(1) show ?thesis by (simp add: deliver_def)
  next
    case (Part a z)
    have inside: "a \<le> z" "z < ?size" using wanted_bounds [OF Part] assms(1) by auto
    let ?range = "''bytes '' @ show_nat a @ ''-'' @ show_nat z @ ''/'' @ show_nat ?size"
    have range: "value_of http ?range = Some ?range" by (rule assms(2)) (simp add: digits)
    have fits: "a + (z - a + 1) \<le> ?size" using inside by simp
    show ?thesis
      using Part assms(1) inside range number [of "z - a + 1"] read_exact_slice [OF fits] stream_exact_slice [OF fits]
      by (cases "z - a + 1 \<le> inline_limit") (simp_all add: deliver_def carries_bytes_def)
  qed
qed

lemma sorted_between: "sorted ps \<Longrightarrow> i \<in> set ps \<Longrightarrow> hd ps \<le> i \<and> i \<le> last ps" for ps :: "nat list"
  by (induction ps) auto

lemma asked_slice:
  assumes "asked_positions r (length bs) \<noteq> []"
  shows "range_of r (length bs) = Part (hd (asked_positions r (length bs))) (last (asked_positions r (length bs)))"
    "asked_positions r (length bs) = [hd (asked_positions r (length bs))..<Suc (last (asked_positions r (length bs)))]"
    "take (last (asked_positions r (length bs)) - hd (asked_positions r (length bs)) + 1)
       (drop (hd (asked_positions r (length bs))) bs) = map ((!) bs) (asked_positions r (length bs))"
proof -
  let ?ps = "asked_positions r (length bs)"
  have all: "?ps = filter (asks_for r (length bs)) [0..<length bs]" by (rule asked_positions_def)
  have m: "hd ?ps \<in> set ?ps" "last ?ps \<in> set ?ps" using assms by simp_all
  have sorted: "sorted ?ps" unfolding all using sorted_filter [of "\<lambda>i. i" "[0..<length bs]"] by simp
  have le: "hd ?ps \<le> last ?ps" using sorted assms by (cases ?ps) auto
  have lim: "last ?ps < length bs" using m(2) by (simp add: asked_positions_def)
  have bounds: "hd ?ps \<le> i \<and> i \<le> last ?ps" if "i \<in> set ?ps" for i
    using sorted_between [OF sorted that] .
  have asked: "asks_for r (length bs) i" if "hd ?ps \<le> i" "i \<le> last ?ps" for i
    using m that by (cases r) (auto simp: asked_positions_def)
  have iff: "asks_for r (length bs) i \<longleftrightarrow> hd ?ps \<le> i \<and> i \<le> last ?ps" if "i < length bs" for i
    using bounds [of i] asked [of i] that by (auto simp: asked_positions_def)
  note interval = range_of_interval [OF le lim iff]
  show "range_of r (length bs) = Part (hd ?ps) (last ?ps)" by (rule interval(1))
  show ps: "?ps = [hd ?ps..<Suc (last ?ps)]" by (rule interval(2))
  have "take (last ?ps - hd ?ps + 1) (drop (hd ?ps) bs) = map ((!) bs) [hd ?ps..<Suc (last ?ps)]"
    using le lim by (intro nth_equalityI) (auto simp del: upt_Suc)
  then show "take (last ?ps - hd ?ps + 1) (drop (hd ?ps) bs) = map ((!) bs) ?ps" using ps by simp
qed

text \<open>
  C26: What is delivered for a request is what it asked for. For a file whose handle gives the bytes its
  metadata states, delivery succeeds. A request for the bytes from one position to another, from a
  position on, or for the last so many, which names this version if it makes its range conditional, is
  given exactly the bytes of the file at the positions it asks for, with their number and place stated,
  or, if the file has none of them, told the length of the file; and every other request, one with
  several ranges, another unit, a malformed range or a stale condition among them, is given the whole
  file.
\<close>

theorem range_delivered:
  assumes "of_len f = length (of_content f)" and "of_len f \<le> u64_max"
    and "\<And>s. list_all (\<lambda>b. 32 \<le> code b \<and> code b < 127) s \<Longrightarrow> value_of http s = Some s"
  shows "\<exists>rs'. deliver http f (wanted http h (of_len f) validator) rs = (Inr (), rs') \<and>
    get_all ''accept-ranges'' (fp_headers rs') = [''bytes''] \<and>
    (\<forall>r. requests_range http h validator r \<longrightarrow>
      (let ps = asked_positions r (of_len f) in
       if ps = [] then fp_status rs' = 416 \<and> fp_body rs' = fp_body rs \<and>
         get_all ''content-range'' (fp_headers rs') = [''bytes */'' @ show_nat (of_len f)]
       else fp_status rs' = 206 \<and> carries_bytes rs' (map ((!) (of_content f)) ps) \<and>
         get_all ''content-length'' (fp_headers rs') = [show_nat (length ps)] \<and>
         get_all ''content-range'' (fp_headers rs') =
           [''bytes '' @ show_nat (hd ps) @ ''-'' @ show_nat (last ps) @ ''/'' @ show_nat (of_len f)])) \<and>
    ((\<forall>r. \<not> requests_range http h validator r) \<longrightarrow>
       fp_status rs' = 200 \<and> carries_bytes rs' (of_content f) \<and>
       get_all ''content-length'' (fp_headers rs') = [show_nat (of_len f)])"
proof -
  obtain rs' where rs': "deliver http f (wanted http h (of_len f) validator) rs = (Inr (), rs')"
      "get_all ''accept-ranges'' (fp_headers rs') = [''bytes'']"
    and w: "case wanted http h (of_len f) validator of
       Whole \<Rightarrow> fp_status rs' = 200 \<and> carries_bytes rs' (of_content f) \<and>
         get_all ''content-length'' (fp_headers rs') = [show_nat (length (of_content f))]
     | Part start end \<Rightarrow> start \<le> end \<and> end < length (of_content f) \<and> fp_status rs' = 206 \<and>
         carries_bytes rs' (take (end - start + 1) (drop start (of_content f))) \<and>
         get_all ''content-length'' (fp_headers rs') = [show_nat (end - start + 1)] \<and>
         get_all ''content-range'' (fp_headers rs') =
           [''bytes '' @ show_nat start @ ''-'' @ show_nat end @ ''/'' @ show_nat (length (of_content f))]
     | Unsatisfiable \<Rightarrow> fp_status rs' = 416 \<and> fp_body rs' = fp_body rs \<and>
         get_all ''content-range'' (fp_headers rs') = [''bytes */'' @ show_nat (length (of_content f))]"
    using deliver_wanted [OF assms(1,3)] by blast
  have "let ps = asked_positions r (of_len f) in
       if ps = [] then fp_status rs' = 416 \<and> fp_body rs' = fp_body rs \<and>
         get_all ''content-range'' (fp_headers rs') = [''bytes */'' @ show_nat (of_len f)]
       else fp_status rs' = 206 \<and> carries_bytes rs' (map ((!) (of_content f)) ps) \<and>
         get_all ''content-length'' (fp_headers rs') = [show_nat (length ps)] \<and>
         get_all ''content-range'' (fp_headers rs') =
           [''bytes '' @ show_nat (hd ps) @ ''-'' @ show_nat (last ps) @ ''/'' @ show_nat (of_len f)]"
    if "requests_range http h validator r" for r
  proof (cases "asked_positions r (of_len f) = []")
    case True
    then have "wanted http h (of_len f) validator = Unsatisfiable"
      using wanted_requests [OF that assms(2)] by (simp add: range_of_def)
    with w True assms(1) show ?thesis by simp
  next
    case False
    define ps where "ps = asked_positions r (length (of_content f))"
    have slice: "range_of r (length (of_content f)) = Part (hd ps) (last ps)" "ps = [hd ps..<Suc (last ps)]"
      "take (last ps - hd ps + 1) (drop (hd ps) (of_content f)) = map ((!) (of_content f)) ps"
      using asked_slice [of r "of_content f"] False assms(1) unfolding ps_def by simp_all
    have wp: "wanted http h (of_len f) validator = Part (hd ps) (last ps)"
      using wanted_requests [OF that assms(2)] slice(1) assms(1) by simp
    have "length ps = length (map ((!) (of_content f)) ps)" by simp
    also have "\<dots> = last ps - hd ps + 1" using w wp unfolding slice(3) [symmetric] by auto
    finally show ?thesis using w wp slice(3) False assms(1) unfolding Let_def by (simp add: ps_def)
  qed
  with rs' w show ?thesis by (auto simp: wanted_whole assms(1))
qed

subsection \<open>Nothing outside the root is served\<close>

text \<open>A path below the root of which every name is public.\<close>

definition below_root :: "bytes \<Rightarrow> bytes \<Rightarrow> bool" where
  "below_root root p \<longleftrightarrow>
     (\<exists>names. path_components p = path_components root @ map Normal names \<and>
        (\<forall>name \<in> set names. utf8_valid name \<and> public_component name))"

lemma public_resolved_below: "public_resolved root p \<longleftrightarrow> below_root root p"
proof
  assume "public_resolved root p"
  then obtain rel where rel: "path_components p = path_components root @ rel"
    and all: "list_all (\<lambda>c. case c of Normal name \<Rightarrow> utf8_valid name \<and> public_component name | _ \<Rightarrow> False) rel"
    by (auto simp: public_resolved_def path_strip_prefix_def strip_prefix_iff split: option.splits)
  from all have "\<exists>names. rel = map Normal names \<and> (\<forall>name \<in> set names. utf8_valid name \<and> public_component name)"
  proof (induction rel)
    case (Cons c rel)
    then obtain names where "rel = map Normal names" "\<forall>name \<in> set names. utf8_valid name \<and> public_component name" by auto
    moreover from Cons.prems obtain name where "c = Normal name" "utf8_valid name \<and> public_component name"
      by (cases c) auto
    ultimately show ?case by (intro exI [of _ "name # names"]) simp
  qed simp
  with rel show "below_root root p" by (auto simp: below_root_def)
next
  assume "below_root root p"
  then show "public_resolved root p"
    by (auto simp: below_root_def public_resolved_def path_strip_prefix_def list_all_iff)
qed

lemma contained_file_below:
  "contained_file fs srv c = Some (p, m) \<Longrightarrow>
    below_root (fv_root srv) p \<and> fs_canonicalize fs c = Some p \<and> fs_metadata fs p = Some m \<and> fm_kind m = RegularFile"
  by (auto simp: contained_file_def bind_eq_Some_conv public_target_def public_resolved_below split: if_splits)

lemma resolve_below:
  "resolve_file fs srv path = TargetFile p \<Longrightarrow>
    below_root (fv_root srv) p \<and> (\<exists>c. fs_canonicalize fs c = Some p) \<and> (\<exists>m. fs_metadata fs p = Some m \<and> fm_kind m = RegularFile)"
  "resolve_file fs srv path = Listing p \<Longrightarrow>
    below_root (fv_root srv) p \<and> (\<exists>c. fs_canonicalize fs c = Some p) \<and> fv_browse srv"
  by (auto simp: resolve_file_def Let_def public_target_def public_resolved_below bind_eq_Some_conv
      split: option.splits if_splits dest: contained_file_below)

lemma encoded_siblings_below: "(p, e) \<in> set (encoded_siblings fs srv path t cs) \<Longrightarrow>
    below_root (fv_root srv) p \<and> (\<exists>c. fs_canonicalize fs c = Some p) \<and>
    (\<exists>m time. fs_metadata fs p = Some m \<and> fm_kind m = RegularFile \<and> fm_modified m = Some time \<and> t \<le> time)"
proof (induction cs)
  case (Cons c cs)
  obtain suffix encoding where c: "c = (suffix, encoding)" by fastforce
  show ?case
  proof (cases "contained_file fs srv (path @ ''.'' @ suffix)")
    case None
    with Cons c show ?thesis by simp
  next
    case (Some r)
    obtain q m where r: "r = (q, m)" by fastforce
    from Cons c Some r contained_file_below [of fs srv _ q m] show ?thesis
      by (auto split: if_splits option.splits)
  qed
qed simp

text \<open>
  C24: Whatever a request asks for and whatever links the directory holds, a file that is served, directly,
  as an index, as a fallback or as a compressed sibling, is a regular file whose resolved path lies below
  the configured root with public names only, none of them hidden and none with a control character; a
  listing is of such a directory and only where browsing is on; and a compressed sibling is at least as
  new as its source.
\<close>

theorem file_server_contained:
  "(serve_file fs srv path = TargetFile p \<longrightarrow>
      below_root (fv_root srv) p \<and> (\<exists>c. fs_canonicalize fs c = Some p) \<and>
      (\<exists>m. fs_metadata fs p = Some m \<and> fm_kind m = RegularFile)) \<and>
   (serve_file fs srv path = Listing p \<longrightarrow> below_root (fv_root srv) p \<and> fv_browse srv) \<and>
   ((q, encoding) \<in> set (precompressed_variants fs srv p m) \<longrightarrow>
      below_root (fv_root srv) q \<and>
      (\<exists>k t time. fs_metadata fs q = Some k \<and> fm_kind k = RegularFile \<and> fm_modified m = Some t \<and>
         fm_modified k = Some time \<and> t \<le> time))"
proof (intro conjI impI)
  assume served: "serve_file fs srv path = TargetFile p"
  then obtain r where "resolve_file fs srv r = TargetFile p"
    by (auto simp: serve_file_def split: file_target.splits option.splits)
  from resolve_below(1) [OF this] show "below_root (fv_root srv) p" "\<exists>c. fs_canonicalize fs c = Some p"
    "\<exists>m. fs_metadata fs p = Some m \<and> fm_kind m = RegularFile" by auto
next
  assume "serve_file fs srv path = Listing p"
  then have "resolve_file fs srv path = Listing p" by (auto simp: serve_file_def split: file_target.splits option.splits)
  from resolve_below(2) [OF this] show "below_root (fv_root srv) p" "fv_browse srv" by auto
next
  assume "(q, encoding) \<in> set (precompressed_variants fs srv p m)"
  then obtain t where t: "fm_modified m = Some t" and "(q, encoding) \<in> set (encoded_siblings fs srv p t [(''br'', ''br''), (''zst'', ''zstd''), (''gz'', ''gzip'')])"
    by (cases "fm_modified m") (auto simp: precompressed_variants_def simp del: encoded_siblings.simps split: if_splits)
  from encoded_siblings_below [OF this(2)] t show "below_root (fv_root srv) q"
    "\<exists>k t time. fs_metadata fs q = Some k \<and> fm_kind k = RegularFile \<and> fm_modified m = Some t \<and> fm_modified k = Some time \<and> t \<le> time"
    by auto
qed

subsection \<open>Redirects stay on the origin\<close>

lemma replace_char_absent: "d \<notin> set s \<Longrightarrow> d \<notin> set r \<Longrightarrow> d \<notin> set (replace_char c r s)"
  using set_replace_char [of c r s] by auto

lemma hd_replace_char:
  "r \<noteq> [] \<Longrightarrow> s \<noteq> [] \<Longrightarrow> replace_char c r s \<noteq> [] \<and> hd (replace_char c r s) = (if hd s = c then hd r else hd s)"
  by (cases s) (simp_all add: replace_char_def)

lemma hd_trim_start_char: "trim_start_char c s \<noteq> [] \<Longrightarrow> hd (trim_start_char c s) \<noteq> c"
  by (metis (mono_tags, lifting) hd_dropWhile trim_start_char_def)

text \<open>
  A redirect that is made of a request path cannot leave the origin: its location is an absolute path,
  never two slashes and never a backslash where a browser would read an authority, and no part of the
  request turns into a fragment.
\<close>

theorem redirect_location_local:
  assumes "redirect_location http path query = Some v" and "\<And>t u. value_of http t = Some u \<Longrightarrow> u = t"
  shows "\<exists>p q. v = ''/'' @ p @ q \<and> CHR 0x5C \<notin> set p \<and> CHR 0x3F \<notin> set p \<and> CHR 0x23 \<notin> set v \<and>
    (p = [] \<or> hd p \<noteq> CHR ''/'') \<and> (q = [] \<or> hd q = CHR 0x3F)"
proof -
  define t where "t = trim_start_char (CHR ''/'') path"
  define p where "p = replace_char (CHR 0x23) ''%23'' (replace_char (CHR 0x3F) ''%3F'' (replace_char (CHR 0x5C) ''%5C'' t))"
  define q where "q = (case query of None \<Rightarrow> [] | Some q \<Rightarrow> ''?'' @ replace_char (CHR 0x23) ''%23'' q)"
  have v: "v = ''/'' @ p @ q"
    using assms by (auto simp: redirect_location_def Let_def p_def q_def t_def)
  have hash: "CHR 0x23 \<notin> set p" unfolding p_def by (rule replace_char_gone) simp
  have quest: "CHR 0x3F \<notin> set p" unfolding p_def
    by (intro replace_char_absent replace_char_gone) simp_all
  have bs: "CHR 0x5C \<notin> set p" unfolding p_def
    by (intro replace_char_absent replace_char_gone) simp_all
  have "CHR 0x23 \<notin> set q" unfolding q_def
    using replace_char_gone [of "CHR 0x23" "''%23''"] by (auto split: option.splits)
  moreover have "p = [] \<or> hd p \<noteq> CHR ''/''"
  proof (cases "t = []")
    case True
    then show ?thesis by (simp add: p_def)
  next
    case False
    with hd_trim_start_char [of "CHR ''/''" path] have "hd t \<noteq> CHR ''/''" by (simp add: t_def)
    with False show ?thesis by (simp add: p_def hd_replace_char)
  qed
  moreover have "q = [] \<or> hd q = CHR 0x3F" by (simp add: q_def split: option.splits)
  ultimately show ?thesis using v hash quest bs by (intro exI [of _ p] exI [of _ q]) auto
qed

subsection \<open>Samples\<close>

definition visible_http :: http_crate where
  "visible_http = \<lparr>name_valid = (\<lambda>s. s \<noteq> []), value_str = Some,
     value_of = (\<lambda>t. if list_all (\<lambda>b. 32 \<le> code b \<and> code b < 127) t then Some t else None), parse_date = (\<lambda>_. None)\<rparr>"


theorem range_delivered_witness:
  "\<exists>rs'. deliver visible_http \<lparr>of_len = 5, of_content = ''hello''\<rparr>
      (wanted visible_http [(''range'', ''bytes=1-3'')] 5 ''tag'') \<lparr>fp_status = 0, fp_headers = [], fp_body = NoBody\<rparr> = (Inr (), rs') \<and>
    fp_status rs' = 206 \<and> carries_bytes rs' ''ell''"
proof -
  have r: "requests_range visible_http [(''range'', ''bytes=1-3'')] ''tag'' (RangeBetween 1 3)"
  proof -
    have "get_all ''range'' [(''range'', ''bytes=1-3'')] = [''bytes=1-3'']" "get_all ''if-range'' [(''range'', ''bytes=1-3'')] = []"
      "trim ''bytes=1-3'' = ''bytes'' @ ''='' @ ''1'' @ ''-'' @ ''3''" "to_ascii_lowercase ''bytes'' = ''bytes''" by code_simp+
    moreover have "value_str visible_http ''bytes=1-3'' = Some ''bytes=1-3''" by (simp add: visible_http_def)
    moreover have "range_written (RangeBetween 1 3) ''1'' ''3''"
      by (simp add: denotes_def is_ascii_digit_def dec_value_def digit_val_def)
    ultimately show ?thesis unfolding requests_range_def by blast
  qed
  have ps: "asked_positions (RangeBetween 1 3) 5 = [1, 2, 3]" by code_simp
  have "value_of visible_http t = Some t" if "list_all (\<lambda>b. 32 \<le> code b \<and> code b < 127) t" for t
    using that by (simp add: visible_http_def)
  from range_delivered [of "\<lparr>of_len = 5, of_content = ''hello''\<rparr>" visible_http "[(''range'', ''bytes=1-3'')]" "''tag''"
      "\<lparr>fp_status = 0, fp_headers = [], fp_body = NoBody\<rparr>", OF _ _ this] r ps
  show ?thesis by (auto simp: Let_def u64_max_def dest!: spec [of _ "RangeBetween 1 3"])
qed

definition sample_fs :: file_system where
  "sample_fs = \<lparr>fs_canonicalize = Some, fs_metadata = (\<lambda>p. Some \<lparr>fm_kind = RegularFile, fm_len = 1, fm_modified = Some 7\<rparr>)\<rparr>"

definition sample_server :: file_server where
  "sample_server = \<lparr>fv_root = ''/www'', fv_index = None, fv_browse = False, fv_precompressed = True, fv_fallback = None\<rparr>"

theorem file_server_contained_witness:
  "serve_file sample_fs sample_server ''/a%2Eb'' = TargetFile ''/www/a.b'' \<and> below_root ''/www'' ''/www/a.b'' \<and>
   serve_file sample_fs sample_server ''/%2E%2E/x'' = NotFound"
proof -
  have "serve_file sample_fs sample_server ''/a%2Eb'' = TargetFile ''/www/a.b''" by code_simp
  moreover have "serve_file sample_fs sample_server ''/%2E%2E/x'' = NotFound" by code_simp
  moreover have "fv_root sample_server = ''/www''" by (simp add: sample_server_def)
  ultimately show ?thesis
    using file_server_contained [of sample_fs sample_server "''/a%2Eb''" "''/www/a.b''"] by simp
qed

theorem redirect_location_local_witness:
  "redirect_location visible_http ''//x/'' (Some ''a'') = Some ''/x/?a'' \<and> CHR 0x23 \<notin> set ''/x/?a''"
proof -
  have r: "redirect_location visible_http ''//x/'' (Some ''a'') = Some ''/x/?a''" by code_simp
  have "u = t" if "value_of visible_http t = Some u" for t u
    using that by (simp add: visible_http_def split: if_splits)
  from redirect_location_local [OF r this] r show ?thesis by auto
qed

end
