(* ===== verification/Proxy_Protocol.thy ===== *)
theory Proxy_Protocol
  imports Big_Endian Addresses
begin

text \<open>
  The PROXY protocol (\<open>gatel-http/src/proxy_protocol.rs\<close>): the header a balancer sends before anything
  else on a connection. The connection is the bytes that arrive before it ends or stalls; reading gives
  the claim and what is left on the socket.
\<close>

datatype proxy_error =
  ConnectionEnded | NotProxyHeader | LineTooLong | LineUnfinished | LineNotText | NoSource | NoDestination
| NoSourcePort | NoDestinationPort | TrailingText | BadAddress | FamilyMismatch | BadPort | UnknownTransport
| HeaderIncomplete | UnsupportedVersion | BlockIncomplete | UnsupportedCommand | BlockTooShort | UnsupportedFamily

datatype proxy_claim = Client ip_addr nat | Local

definition proxy_signature :: bytes where
  "proxy_signature = map char_of [0x0D, 0x0A, 0x0D, 0x0A, 0x00, 0x0D, 0x0A, 0x51, 0x55, 0x49, 0x54, 0x0A :: nat]"

definition V1_MAX :: nat where "V1_MAX = 107"

definition crlf :: bytes where "crlf = [CHR 0x0D, CHR 0x0A]"

definition proxy_read :: "proxy_error \<Rightarrow> nat \<Rightarrow> bytes \<Rightarrow> proxy_error + bytes \<times> bytes" where
  "proxy_read e n s = (if length s < n then Inl e else Inr (take n s, drop n s))"

text \<open>The loop of \<open>version_1\<close>: the line so far and the bytes still on the socket.\<close>

fun v1_line :: "bytes \<Rightarrow> bytes \<Rightarrow> proxy_error + bytes \<times> bytes" where
  "v1_line line [] = (if V1_MAX < length line then Inl LineTooLong else Inl LineUnfinished)"
| "v1_line line (b # s) =
     (if V1_MAX < length line then Inl LineTooLong
      else if ends_with crlf (line @ [b]) then Inr (line @ [b], s)
      else v1_line (line @ [b]) s)"

definition v1_claim :: "bytes list \<Rightarrow> proxy_error + proxy_claim" where
  "v1_claim parts =
     (case parts of
        [] \<Rightarrow> Inl UnknownTransport
      | family # rest \<Rightarrow>
          if family = ''UNKNOWN'' then Inr Local
          else if family = ''TCP4'' \<or> family = ''TCP6'' then
            (case rest of
               [] \<Rightarrow> Inl NoSource
             | [_] \<Rightarrow> Inl NoDestination
             | [_, _] \<Rightarrow> Inl NoSourcePort
             | [_, _, _] \<Rightarrow> Inl NoDestinationPort
             | source # destination # port # destination_port # rest \<Rightarrow>
                 if rest \<noteq> [] then Inl TrailingText
                 else and_then (ok_or BadAddress (parse_ip source)) (\<lambda>address.
                   if (family = ''TCP4'') \<noteq> is_ipv4 address then Inl FamilyMismatch
                   else and_then (ok_or BadPort (parse_unsigned u16_max port)) (\<lambda>port.
                     Inr (Client address port))))
          else Inl UnknownTransport)"

definition version_1 :: "bytes \<Rightarrow> bytes \<Rightarrow> proxy_error + proxy_claim \<times> bytes" where
  "version_1 seen s =
     (if \<not> starts_with ''PROXY '' seen then Inl NotProxyHeader
      else and_then (v1_line seen s) (\<lambda>(line, rest).
        let line = take (length line - 2) line in
        if \<not> utf8_valid line then Inl LineNotText
        else and_then (v1_claim (tl (split_at (CHR 0x20) line))) (\<lambda>c. Inr (c, rest))))"

definition v2_claim :: "nat \<Rightarrow> nat \<Rightarrow> bytes \<Rightarrow> proxy_error + proxy_claim" where
  "v2_claim command family block =
     (if command = 0 then Inr Local
      else if command \<noteq> 1 then Inl UnsupportedCommand
      else if family = 0 \<or> family = 3 then Inr Local
      else if family = 1 then
        if length block < 12 then Inl BlockTooShort
        else Inr (Client (V4 (map (\<lambda>b. of_nat (code b)) (take 4 block))) (be_value [block ! 8, block ! 9]))
      else if family = 2 then
        if length block < 36 then Inl BlockTooShort
        else Inr (Client (V6 (map (\<lambda>b. of_nat (code b)) (take 16 block))) (be_value [block ! 32, block ! 33]))
      else Inl UnsupportedFamily)"

definition version_2 :: "bytes \<Rightarrow> proxy_error + proxy_claim \<times> bytes" where
  "version_2 s =
     and_then (proxy_read HeaderIncomplete 4 s) (\<lambda>(head, s).
       if code (head ! 0) div 16 \<noteq> 2 then Inl UnsupportedVersion
       else and_then (proxy_read BlockIncomplete (be_value [head ! 2, head ! 3]) s) (\<lambda>(block, s).
         and_then (v2_claim (code (head ! 0) mod 16) (code (head ! 1) div 16) block) (\<lambda>c. Inr (c, s))))"

definition proxy_parse :: "bytes \<Rightarrow> proxy_error + proxy_claim \<times> bytes" where
  "proxy_parse s =
     and_then (proxy_read ConnectionEnded 12 s) (\<lambda>(head, s).
       if head = proxy_signature then version_2 s else version_1 head s)"

subsection \<open>Exactly the header is read\<close>

lemma proxy_read_append: "proxy_read e n s = Inr (a, r) \<Longrightarrow> s = a @ r \<and> length a = n"
  by (auto simp: proxy_read_def split: if_splits)

lemma proxy_read_exact: "length a = n \<Longrightarrow> proxy_read e n (a @ r) = Inr (a, r)"
  by (simp add: proxy_read_def)

definition first_end :: "bytes \<Rightarrow> bytes \<Rightarrow> bool" where
  "first_end line more_text \<longleftrightarrow> more_text \<noteq> [] \<and> ends_with crlf (line @ more_text) \<and>
     (\<forall>k. 0 < k \<and> k < length more_text \<longrightarrow> \<not> ends_with crlf (line @ take k more_text))"

lemma first_end_Cons: "first_end line (b # m) \<longleftrightarrow> (if ends_with crlf (line @ [b]) then m = [] else first_end (line @ [b]) m)"
proof (cases m)
  case Nil
  then show ?thesis by (auto simp: first_end_def)
next
  case (Cons c n)
  have "(\<forall>k. 0 < k \<and> k < length (b # m) \<longrightarrow> \<not> ends_with crlf (line @ take k (b # m))) \<longleftrightarrow>
      (\<forall>j < length m. \<not> ends_with crlf (line @ b # take j m))" (is "?l \<longleftrightarrow> _")
    by (auto simp: gr0_conv_Suc)
  also have "\<dots> \<longleftrightarrow> \<not> ends_with crlf (line @ [b]) \<and> (\<forall>j. 0 < j \<and> j < length m \<longrightarrow> \<not> ends_with crlf ((line @ [b]) @ take j m))"
    using Cons by (auto, metis gr0I append_Nil2 take_0)
  finally show ?thesis using Cons by (auto simp: first_end_def)
qed

lemma v1_line_iff:
  "v1_line line s = Inr (whole, r) \<longleftrightarrow>
    (\<exists>m. whole = line @ m \<and> s = m @ r \<and> length whole \<le> V1_MAX + 1 \<and> first_end line m)"
proof (induction s arbitrary: line)
  case Nil
  then show ?case by (auto simp: first_end_def)
next
  case (Cons b s)
  have cons: "(\<exists>m. whole = line @ m \<and> b # s = m @ r \<and> length whole \<le> V1_MAX + 1 \<and> first_end line m) \<longleftrightarrow>
      (\<exists>m. whole = (line @ [b]) @ m \<and> s = m @ r \<and> length whole \<le> V1_MAX + 1 \<and> first_end line (b # m))"
    by (auto simp: Cons_eq_append_conv first_end_def)
  show ?case unfolding cons using Cons.IH [of "line @ [b]"] by (auto simp: first_end_Cons)
qed

text \<open>
  The headers that make a claim, as the protocol lays them out. In binary: signature, version 2 and command,
  family, length and block; the block of a proxied connection starts with addresses and ports. In text: the
  fields of a line, up to its first terminator, in at most one byte more than \<open>V1_MAX\<close>.
\<close>

definition octet_bytes :: "octet list \<Rightarrow> bytes" where
  "octet_bytes a = map (\<lambda>w. char_of (unat w)) a"

definition block_names :: "nat \<Rightarrow> bytes \<Rightarrow> octet list \<Rightarrow> nat \<Rightarrow> bool" where
  "block_names k block a port \<longleftrightarrow> length a = k \<and> port \<le> u16_max \<and>
     (\<exists>destination destination_port tlvs. length destination = k \<and> length destination_port = 2 \<and>
        block = octet_bytes a @ destination @ be_bytes 2 port @ destination_port @ tlvs)"

definition block_claims :: "nat \<Rightarrow> nat \<Rightarrow> bytes \<Rightarrow> proxy_claim \<Rightarrow> bool" where
  "block_claims command family block c \<longleftrightarrow>
     (command = 0 \<and> c = Local) \<or> (command = 1 \<and> family \<in> {0, 3} \<and> c = Local) \<or>
     (command = 1 \<and> family = 1 \<and> (\<exists>a port. block_names 4 block a port \<and> c = Client (V4 a) port)) \<or>
     (command = 1 \<and> family = 2 \<and> (\<exists>a port. block_names 16 block a port \<and> c = Client (V6 a) port))"

definition v2_states :: "bytes \<Rightarrow> proxy_claim \<Rightarrow> bool" where
  "v2_states header c \<longleftrightarrow> (\<exists>command family block. length block \<le> u16_max \<and> command < 16 \<and>
     header = proxy_signature @ [char_of (32 + command), family] @ be_bytes 2 (length block) @ block \<and>
     block_claims command (code family div 16) block c)"

definition line_claims :: "bytes list \<Rightarrow> proxy_claim \<Rightarrow> bool" where
  "line_claims parts c \<longleftrightarrow> (\<exists>rest. parts = ''UNKNOWN'' # rest \<and> c = Local) \<or>
     (\<exists>family source destination port_text destination_port ip port. parts = [family, source, destination, port_text, destination_port] \<and>
        parse_ip source = Some ip \<and> family = (if is_ipv4 ip then ''TCP4'' else ''TCP6'') \<and>
        parse_unsigned u16_max port_text = Some port \<and> c = Client ip port)"

definition v1_states :: "bytes \<Rightarrow> proxy_claim \<Rightarrow> bool" where
  "v1_states header c \<longleftrightarrow> (\<exists>line. header = line @ crlf \<and> utf8_valid line \<and> starts_with ''PROXY '' header \<and>
     12 < length header \<and> length header \<le> V1_MAX + 1 \<and> first_end (take 12 header) (drop 12 header) \<and>
     line_claims (tl (split_at (CHR 0x20) line)) c)"

lemma octet_bytes_read: "map (\<lambda>b. of_nat (code b)) (octet_bytes a) = a"
proof (induction a)
  case (Cons w a)
  have "unat w < 256" using unsigned_less [of w] by simp
  then have "code (char_of (unat w)) = unat w" by (rule code_char_of)
  with Cons show ?case by (simp add: octet_bytes_def)
qed (simp add: octet_bytes_def)

lemma octet_bytes_written: "octet_bytes (map (\<lambda>b. of_nat (code b)) s) = s"
proof (induction s)
  case (Cons b s)
  have "unat (of_nat (code b) :: octet) = code b" by (simp add: unat_of_nat take_bit_nat_eq_self)
  with Cons show ?case by (simp add: octet_bytes_def)
qed (simp add: octet_bytes_def)

lemma two_bytes: "be_bytes 2 (be_value [a, b]) = [a, b]" "be_value [a, b] \<le> u16_max"
proof -
  have c: "code a < 256" "code b < 256" by simp_all
  then show "be_value [a, b] \<le> u16_max" unfolding be_value_two u16_max_def by linarith
  have "(code a * 256 + code b) div 256 = code a" "(code a * 256 + code b) mod 256 = code b" using c by simp_all
  with c show "be_bytes 2 (be_value [a, b]) = [a, b]" unfolding be_value_two be_bytes_two by simp
qed

lemma take_two: "n + 2 \<le> length s \<Longrightarrow> take 2 (drop n s) = [s ! n, s ! (n + 1)]"
  by (rule nth_equalityI) (auto simp: less_2_cases_iff)

lemma two_value: "n \<le> u16_max \<Longrightarrow> be_value [be_bytes 2 n ! 0, be_bytes 2 n ! 1] = n" "be_bytes 2 n = [be_bytes 2 n ! 0, be_bytes 2 n ! 1]"
  by (simp_all add: be_bytes_two be_value_two code_char_of u16_max_def)

text \<open>Where a block of addresses of \<open>k\<close> bytes has what it names.\<close>

lemma block_names_iff:
  assumes "0 < k"
  shows "block_names k block a port \<longleftrightarrow> 2 * k + 4 \<le> length block \<and> a = map (\<lambda>b. of_nat (code b)) (take k block) \<and>
    port = be_value [block ! (2 * k), block ! (2 * k + 1)]"
proof
  assume "block_names k block a port"
  then obtain d dp tlvs where b: "length a = k" "port \<le> u16_max" "length d = k" "length dp = 2"
    "block = octet_bytes a @ d @ be_bytes 2 port @ dp @ tlvs" by (auto simp: block_names_def)
  have len: "length (octet_bytes a) = k" using b(1) by (simp add: octet_bytes_def)
  have "block ! (2 * k) = be_bytes 2 port ! 0" "block ! (2 * k + 1) = be_bytes 2 port ! 1"
    using b(3) len by (simp_all add: b(5) nth_append)
  moreover have "take k block = octet_bytes a" using len by (simp add: b(5))
  ultimately show "2 * k + 4 \<le> length block \<and> a = map (\<lambda>b. of_nat (code b)) (take k block) \<and> port = be_value [block ! (2 * k), block ! (2 * k + 1)]"
    using b(1,3,4) len two_value(1) [OF b(2)] arg_cong [OF b(5), of length] by (simp add: octet_bytes_read)
next
  assume r: "2 * k + 4 \<le> length block \<and> a = map (\<lambda>b. of_nat (code b)) (take k block) \<and> port = be_value [block ! (2 * k), block ! (2 * k + 1)]"
  let ?d = "take k (drop k block)" and ?dp = "take 2 (drop (2 * k + 2) block)" and ?tlvs = "drop (2 * k + 4) block"
  have port: "take 2 (drop (2 * k) block) = be_bytes 2 port" using r take_two [of "2 * k" block] two_bytes(1) by simp
  have "block = take k block @ ?d @ take 2 (drop (2 * k) block) @ ?dp @ ?tlvs"
  proof -
    have cut: "drop n s = take m (drop n s) @ drop (n + m) s" for n m and s :: bytes
      by (metis add.commute append_take_drop_id drop_drop)
    have "block = take k block @ drop k block" by simp
    also have "drop k block = ?d @ drop (2 * k) block" using cut [of k block k] by (simp add: mult_2)
    also have "drop (2 * k) block = take 2 (drop (2 * k) block) @ drop (2 * k + 2) block" by (rule cut)
    also have "drop (2 * k + 2) block = ?dp @ ?tlvs" using cut [of "2 * k + 2" block 2] by (simp add: numeral_eq_Suc)
    finally show ?thesis .
  qed
  then have "block = octet_bytes a @ ?d @ be_bytes 2 port @ ?dp @ ?tlvs" using r unfolding port by (simp add: octet_bytes_written)
  moreover have "length ?d = k" "length ?dp = 2" "length a = k" "port \<le> u16_max" using r two_bytes(2) by (auto simp: min_def)
  ultimately show "block_names k block a port" unfolding block_names_def by blast
qed

lemma v2_claim_iff: "v2_claim command family block = Inr c \<longleftrightarrow> block_claims command family block c"
  by (auto simp: v2_claim_def block_claims_def block_names_iff)

lemma version_2_iff:
  "version_2 s = Inr (c, rest) \<longleftrightarrow> (\<exists>command family block. length block \<le> u16_max \<and> command < 16 \<and>
     s = [char_of (32 + command), family] @ be_bytes 2 (length block) @ block @ rest \<and> block_claims command (code family div 16) block c)"
proof
  assume "version_2 s = Inr (c, rest)"
  then obtain head s1 block where h: "proxy_read HeaderIncomplete 4 s = Inr (head, s1)" "code (head ! 0) div 16 = 2"
    and b: "proxy_read BlockIncomplete (be_value [head ! 2, head ! 3]) s1 = Inr (block, rest)"
    and c: "block_claims (code (head ! 0) mod 16) (code (head ! 1) div 16) block c"
    by (auto simp: version_2_def v2_claim_iff [symmetric] split: if_splits)
  note h' = proxy_read_append [OF h(1)] and b' = proxy_read_append [OF b]
  obtain v f x y where head: "head = [v, f, x, y]" using h' by (auto simp: length_Suc_conv numeral_eq_Suc)
  have "code v = 32 + code v mod 16" using h(2) head mult_div_mod_eq [of 16 "code v"] by simp
  then have "char_of (32 + code v mod 16) = v" by (metis char_of_char)
  moreover have "be_bytes 2 (length block) = [x, y]" "length block \<le> u16_max" using b' head two_bytes by simp_all
  ultimately show "\<exists>command family block. length block \<le> u16_max \<and> command < 16 \<and>
     s = [char_of (32 + command), family] @ be_bytes 2 (length block) @ block @ rest \<and> block_claims command (code family div 16) block c"
    using h' b' c head by (intro exI [of _ "code v mod 16"] exI [of _ f] exI [of _ block]) simp
next
  assume "\<exists>command family block. length block \<le> u16_max \<and> command < 16 \<and>
     s = [char_of (32 + command), family] @ be_bytes 2 (length block) @ block @ rest \<and> block_claims command (code family div 16) block c"
  then obtain command family block where b: "length block \<le> u16_max" "command < 16"
    "s = [char_of (32 + command), family] @ be_bytes 2 (length block) @ block @ rest" "block_claims command (code family div 16) block c" by blast
  let ?head = "[char_of (32 + command), family, be_bytes 2 (length block) ! 0, be_bytes 2 (length block) ! 1]"
  have s: "s = ?head @ block @ rest" using b(3) two_value(2) [of "length block"] by (metis append_Cons append_Nil)
  have r: "proxy_read HeaderIncomplete 4 s = Inr (?head, block @ rest)" unfolding s by (rule proxy_read_exact) simp
  have n: "be_value [?head ! 2, ?head ! 3] = length block" using two_value(1) [OF b(1)] by (simp add: numeral_eq_Suc)
  have code: "code (?head ! 0) = 32 + command" using b(2) by (simp add: code_char_of)
  then have v: "code (?head ! 0) div 16 = 2" "code (?head ! 0) mod 16 = command" using b(2) by presburger+
  have f: "?head ! 1 = family" by simp
  have body: "proxy_read BlockIncomplete (length block) (block @ rest) = Inr (block, rest)" by (rule proxy_read_exact) simp
  show "version_2 s = Inr (c, rest)"
    unfolding version_2_def r and_then_simps prod.case v f n body b(4) [folded v2_claim_iff] by simp
qed

lemma v1_claim_iff: "v1_claim parts = Inr c \<longleftrightarrow> line_claims parts c"
proof (cases parts)
  case (Cons family rest)
  show ?thesis
  proof (cases "family = ''TCP4'' \<or> family = ''TCP6''")
    case True
    then have u: "family \<noteq> ''UNKNOWN''" by auto
    show ?thesis
    proof (cases "\<exists>source destination port_text destination_port. rest = [source, destination, port_text, destination_port]")
      case four: True
      then obtain source destination port_text destination_port where r: "rest = [source, destination, port_text, destination_port]" by blast
      have "v1_claim parts = Inr c \<longleftrightarrow> (\<exists>ip port. parse_ip source = Some ip \<and> ((family = ''TCP4'') = is_ipv4 ip) \<and>
          parse_unsigned u16_max port_text = Some port \<and> c = Client ip port)"
        using True u by (auto simp: v1_claim_def Cons r ok_or_def split: option.splits)
      moreover have "((family = ''TCP4'') = b) \<longleftrightarrow> family = (if b then ''TCP4'' else ''TCP6'')" for b using True by auto
      ultimately show ?thesis using u by (simp add: line_claims_def Cons r)
    next
      case False
      then have "\<not> line_claims parts c" using u by (auto simp: line_claims_def Cons)
      moreover have "v1_claim parts \<noteq> Inr c"
        using False True u by (auto simp: v1_claim_def Cons split: list.splits)
      ultimately show ?thesis by blast
    qed
  next
    case False
    then show ?thesis by (auto simp: v1_claim_def line_claims_def Cons split: if_splits)
  qed
qed (simp add: v1_claim_def line_claims_def)

lemma starts_with_take: "starts_with p s \<longleftrightarrow> take (length p) s = p"
  by (auto simp: starts_with_iff) (metis append_take_drop_id)

lemma version_1_iff:
  assumes "length seen = 12"
  shows "version_1 seen s = Inr (c, rest) \<longleftrightarrow> (\<exists>m. s = m @ rest \<and> v1_states (seen @ m) c)"
proof -
  have start: "starts_with ''PROXY '' (seen @ m) \<longleftrightarrow> starts_with ''PROXY '' seen" for m
    using assms by (simp add: starts_with_take)
  have cut: "take (length (seen @ m) - 2) (seen @ m) = line" if "seen @ m = line @ crlf" for m line
    unfolding that by (simp add: crlf_def)
  have seen: "take 12 (seen @ m) = seen" "drop 12 (seen @ m) = m" for m using assms by simp_all
  have ends: "\<exists>line. seen @ m = line @ crlf" if "first_end seen m" for m using that by (auto simp: first_end_def ends_with_iff)
  have "version_1 seen s = Inr (c, rest) \<longleftrightarrow> starts_with ''PROXY '' seen \<and>
      (\<exists>m. s = m @ rest \<and> length (seen @ m) \<le> V1_MAX + 1 \<and> first_end seen m \<and>
        (let line = take (length (seen @ m) - 2) (seen @ m) in utf8_valid line \<and> line_claims (tl (split_at (CHR 0x20) line)) c))"
  proof -
    let ?ok = "\<lambda>whole. let line = take (length whole - 2) whole in utf8_valid line \<and> line_claims (tl (split_at (CHR 0x20) line)) c"
    have "version_1 seen s = Inr (c, rest) \<longleftrightarrow> starts_with ''PROXY '' seen \<and> (\<exists>whole. v1_line seen s = Inr (whole, rest) \<and> ?ok whole)"
      unfolding version_1_def v1_claim_iff [symmetric] Let_def by (auto split: if_splits)
    then show ?thesis unfolding v1_line_iff by blast
  qed
  also have "\<dots> \<longleftrightarrow> (\<exists>m. s = m @ rest \<and> v1_states (seen @ m) c)"
  proof -
    have "starts_with ''PROXY '' seen \<and> length (seen @ m) \<le> V1_MAX + 1 \<and> first_end seen m \<and>
        (let line = take (length (seen @ m) - 2) (seen @ m) in utf8_valid line \<and> line_claims (tl (split_at (CHR 0x20) line)) c) \<longleftrightarrow>
        v1_states (seen @ m) c" (is "?l \<longleftrightarrow> ?r") for m
    proof
      assume l: ?l
      then obtain line where line: "seen @ m = line @ crlf" using ends by blast
      have "m \<noteq> []" using l by (simp add: first_end_def)
      with assms have "12 < length (seen @ m)" "take 12 (seen @ m) = seen" "drop 12 (seen @ m) = m" by simp_all
      moreover have "utf8_valid line" "line_claims (tl (split_at (CHR 0x20) line)) c" using l unfolding cut [OF line] Let_def by simp_all
      ultimately show ?r unfolding v1_states_def using l line start [of m] by (intro exI [of _ line]) (simp only: simp_thms)
    next
      assume ?r
      then obtain line where line: "seen @ m = line @ crlf" and r: "utf8_valid line" "starts_with ''PROXY '' (seen @ m)"
        "length (seen @ m) \<le> V1_MAX + 1" "first_end seen m" "line_claims (tl (split_at (CHR 0x20) line)) c"
        unfolding v1_states_def seen by blast
      show ?l unfolding cut [OF line] Let_def using r start by simp
    qed
    then show ?thesis by blast
  qed
  finally show ?thesis .
qed


text \<open>A line of one byte more than \<open>V1_MAX\<close>, which is said to include the terminator, is read.\<close>

lemma v1_line_one_longer:
  "let line = ''PROXY UNKNOWN '' @ replicate 92 (CHR ''x'') @ crlf in
   length line = V1_MAX + 1 \<and> proxy_parse (line @ ''GET'') = Inr (Local, ''GET'')"
  by code_simp

subsection \<open>What a balancer writes is what is read\<close>

text \<open>
  The binary header of a proxied connection as the specification lays it out: signature, version and
  command, family and transport, length of the block; in the block the addresses, the ports and whatever
  extensions follow.
\<close>

definition v2_header :: "ip_addr \<Rightarrow> bytes \<Rightarrow> nat \<Rightarrow> bytes \<Rightarrow> bytes \<Rightarrow> bytes" where
  "v2_header source destination port destination_port tlvs =
     (let block = octet_bytes (octets source) @ destination @ be_bytes 2 port @ destination_port @ tlvs in
      proxy_signature @ [CHR 0x21, if is_ipv4 source then CHR 0x11 else CHR 0x21] @ be_bytes 2 (length block) @ block)"

lemma proxy_v2_parsed:
  assumes "wf_ip source" and "length destination = length (octets source)" and "port \<le> u16_max"
    and "length destination_port = 2" and "length (octets source) * 2 + 4 + length tlvs \<le> u16_max"
  shows "proxy_parse (v2_header source destination port destination_port tlvs @ request) = Inr (Client source port, request)"
proof -
  define block where "block = octet_bytes (octets source) @ destination @ be_bytes 2 port @ destination_port @ tlvs"
  define k where "k = length (octets source)"
  have k: "k = (if is_ipv4 source then 4 else 16)" using assms(1) by (cases source) (simp_all add: k_def)
  have len: "length block = 2 * k + 4 + length tlvs" using assms(2,4) by (simp add: block_def k_def octet_bytes_def)
  then have small: "length block \<le> u16_max" using assms(5) by (simp add: k_def)
  have two: "be_value [be_bytes 2 n ! 0, be_bytes 2 n ! 1] = n" if "n \<le> u16_max" for n
    using that by (simp add: be_bytes_two be_value_two code_char_of u16_max_def)
  have sig: "length proxy_signature = 12" by (simp add: proxy_signature_def)
  let ?head = "[CHR 0x21, if is_ipv4 source then CHR 0x11 else CHR 0x21] @ be_bytes 2 (length block)"
  have "proxy_parse (v2_header source destination port destination_port tlvs @ request) = version_2 (?head @ block @ request)"
    using sig by (simp add: proxy_parse_def v2_header_def Let_def block_def proxy_read_exact)
  also have "\<dots> = and_then (v2_claim 1 (if is_ipv4 source then 1 else 2) block) (\<lambda>c. Inr (c, request))"
  proof -
    have head: "?head ! 2 = be_bytes 2 (length block) ! 0" "?head ! 3 = be_bytes 2 (length block) ! 1"
      by (simp_all add: nth_append)
    have r: "proxy_read HeaderIncomplete 4 (?head @ block @ request) = Inr (?head, block @ request)"
      by (rule proxy_read_exact) simp
    have b: "proxy_read BlockIncomplete (length block) (block @ request) = Inr (block, request)"
      by (rule proxy_read_exact) simp
    have v: "be_value [?head ! 2, ?head ! 3] = length block" unfolding head by (rule two [OF small])
    have c: "code (?head ! 0) div 16 = 2" "code (?head ! 0) mod 16 = 1" "code (?head ! 1) div 16 = (if is_ipv4 source then 1 else 2)"
      by simp_all
    show ?thesis unfolding version_2_def r and_then_simps prod.case v b c by simp
  qed
  also have "v2_claim 1 (if is_ipv4 source then 1 else 2) block = Inr (Client source port)"
  proof -
    have first: "take k block = octet_bytes (octets source)" by (simp add: block_def k_def octet_bytes_def)
    have ports: "block ! (2 * k) = be_bytes 2 port ! 0" "block ! (2 * k + 1) = be_bytes 2 port ! 1"
      using assms(2) by (simp_all add: block_def k_def octet_bytes_def nth_append)
    have addr: "map (\<lambda>b. of_nat (code b)) (take k block) = octets source" by (simp add: first octet_bytes_read)
    from ports two [OF assms(3)] have port: "be_value [block ! (2 * k), block ! (2 * k + 1)] = port" by simp
    show ?thesis
    proof (cases source)
      case (V4 a)
      with k have "k = 4" by simp
      with V4 addr port len show ?thesis by (simp add: v2_claim_def)
    next
      case (V6 a)
      with k have "k = 16" by simp
      with V6 addr port len show ?thesis by (simp add: v2_claim_def)
    qed
  qed
  finally show ?thesis by simp
qed

text \<open>
  The client a balancer names in a binary header is the client the gateway takes it for, address and
  port, whatever extensions the header carries, and the request that follows is left on the connection.
\<close>

theorem proxy_v2_roundtrip:
  assumes "wf_ip source" and "length destination = length (octets source)" and "port \<le> u16_max"
    and "length destination_port = 2" and "length (octets source) * 2 + 4 + length tlvs \<le> u16_max"
  shows "proxy_parse (v2_header source destination port destination_port tlvs @ request) = Inr (Client source port, request)"
  by (rule proxy_v2_parsed [OF assms])

text \<open>The text header, without its terminator.\<close>

definition v1_header :: "bytes \<Rightarrow> bytes \<Rightarrow> bytes \<Rightarrow> nat \<Rightarrow> nat \<Rightarrow> bytes" where
  "v1_header family source destination port destination_port =
     join '' '' [''PROXY'', family, source, destination, show_nat port, show_nat destination_port]"

lemma ends_with_crlf: "ends_with crlf s \<Longrightarrow> last s = CHR 0x0A"
  by (auto simp: ends_with_iff crlf_def)

lemma v1_line_ends:
  "CHR 0x0A \<notin> set s \<Longrightarrow> length (line @ s) < V1_MAX \<Longrightarrow> v1_line line (s @ crlf @ t) = Inr (line @ s @ crlf, t)"
proof (induction s arbitrary: line)
  case Nil
  have "\<not> ends_with crlf (line @ [CHR 0x0D])" by (auto dest: ends_with_crlf)
  moreover have "ends_with crlf (line @ crlf)" by (auto simp: ends_with_iff)
  ultimately show ?case using Nil by (simp add: crlf_def)
next
  case (Cons b s)
  then have "\<not> ends_with crlf (line @ [b])" by (auto dest: ends_with_crlf)
  with Cons.prems Cons.IH [of "line @ [b]"] show ?case by simp
qed

text \<open>
  The client a balancer names in a text header is the client the gateway takes it for: for a source
  text the address parser reads as \<open>ip\<close>, of the family the header states, and a header within the length
  the protocol allows.
\<close>

theorem proxy_v1_roundtrip:
  assumes "parse_ip source = Some ip" and "family = (if is_ipv4 ip then ''TCP4'' else ''TCP6'')" and "port \<le> u16_max"
    and "CHR 0x20 \<notin> set source \<union> set destination" and "list_all (\<lambda>b. 32 \<le> code b \<and> code b < 127) (source @ destination)"
    and "length (v1_header family source destination port destination_port) < V1_MAX"
  shows "proxy_parse (v1_header family source destination port destination_port @ crlf @ request) = Inr (Client ip port, request)"
proof -
  let ?parts = "[''PROXY'', family, source, destination, show_nat port, show_nat destination_port]"
  define line where "line = v1_header family source destination port destination_port"
  have digits: "list_all (\<lambda>b. 32 \<le> code b \<and> code b < 127) (show_nat n)" "CHR 0x20 \<notin> set (show_nat n)" for n
    using show_nat_digits [of n] by (auto simp: list_all_iff is_ascii_digit_def)
  have visible: "list_all (\<lambda>b. 32 \<le> code b \<and> code b < 127) line"
    using assms(2,5) digits(1) by (auto simp: line_def v1_header_def)
  have parts: "split_at (CHR 0x20) line = ?parts"
    unfolding line_def v1_header_def using assms(2,4) digits(2) by (intro split_at_join) auto
  have valid: "utf8_valid line" using visible
  proof (induction line)
    case (Cons b line)
    then show ?case by (simp add: utf8_valid_ascii)
  qed simp
  have start: "take 12 line = ''PROXY '' @ take 6 (drop 6 line)" "12 \<le> length line"
  proof -
    have "line = ''PROXY '' @ family @ '' '' @ join '' '' [source, destination, show_nat port, show_nat destination_port]"
      by (simp add: line_def v1_header_def)
    then obtain rest where l: "line = ''PROXY '' @ family @ '' '' @ rest" "rest \<noteq> []" by simp
    then show "take 12 line = ''PROXY '' @ take 6 (drop 6 line)" "12 \<le> length line"
      using assms(2) by (auto simp: Suc_le_eq)
  qed
  define s where "s = drop 12 line"
  have whole: "line = take 12 line @ s" by (simp add: s_def)
  have "CHR 0x0A \<notin> set line" using visible by (auto simp: list_all_iff)
  then have "CHR 0x0A \<notin> set s" using in_set_dropD [of _ 12 line] by (auto simp: s_def)
  then have read: "v1_line (take 12 line) (s @ crlf @ request) = Inr (line @ crlf, request)"
    using v1_line_ends [of s "take 12 line" request] assms(6) by (simp add: s_def line_def)
  have "hd (take 12 line) = CHR ''P''" by (simp only: start append_Cons list.sel)
  moreover have "hd proxy_signature \<noteq> CHR ''P''" by code_simp
  ultimately have "take 12 line \<noteq> proxy_signature" by (metis (no_types))
  have "length crlf = 2" by (simp add: crlf_def)
  have "starts_with ''PROXY '' (take 12 line)" by (auto simp: start starts_with_iff)
  have "proxy_parse (line @ crlf @ request) =
      and_then (v1_claim (tl ?parts)) (\<lambda>c. Inr (c, request))"
  proof -
    have "proxy_parse (line @ crlf @ request) = proxy_parse (take 12 line @ s @ crlf @ request)"
      using whole by (metis append.assoc)
    also have "\<dots> = version_1 (take 12 line) (s @ crlf @ request)"
      using start(2) \<open>take 12 line \<noteq> proxy_signature\<close> by (simp add: proxy_parse_def proxy_read_exact)
    also have "\<dots> = and_then (v1_claim (tl ?parts)) (\<lambda>c. Inr (c, request))"
      using \<open>starts_with ''PROXY '' (take 12 line)\<close> valid \<open>length crlf = 2\<close>
      by (simp add: version_1_def read parts)
    finally show ?thesis .
  qed
  also have "v1_claim (tl ?parts) = Inr (Client ip port)"
    using assms(1,2,3) by (simp add: v1_claim_def parse_show_nat)
  finally show ?thesis by (simp add: line_def)
qed

subsection \<open>Samples\<close>

definition proxy_source :: ip_addr where "proxy_source = V4 [192, 0, 2, 1]"

lemma sample_v2:
  "proxy_parse (v2_header proxy_source (replicate 4 (CHR 0x07)) 5 [CHR 0x00, CHR 0x50] ''tlv'' @ ''GET'') =
    Inr (Client proxy_source 5, ''GET'')"
  by (rule proxy_v2_parsed) (simp_all add: proxy_source_def u16_max_def)

theorem proxy_v2_roundtrip_witness:
  "proxy_parse (v2_header proxy_source (replicate 4 (CHR 0x07)) 5 [CHR 0x00, CHR 0x50] [] @ ''GET'') =
    Inr (Client proxy_source 5, ''GET'')"
  by (rule proxy_v2_roundtrip) (simp_all add: proxy_source_def u16_max_def)

theorem proxy_v1_roundtrip_witness:
  "proxy_parse (v1_header ''TCP4'' ''10.0.0.1'' ''10.0.0.2'' 5 80 @ crlf @ ''GET'') = Inr (Client (V4 [10, 0, 0, 1]) 5, ''GET'')"
proof (rule proxy_v1_roundtrip)
  show "parse_ip ''10.0.0.1'' = Some (V4 [10, 0, 0, 1])" by code_simp
  show "length (v1_header ''TCP4'' ''10.0.0.1'' ''10.0.0.2'' 5 80) < V1_MAX" by code_simp
qed (simp_all add: u16_max_def)

end
