(* ===== verification/Cgi_Mapping.thy ===== *)
theory Cgi_Mapping
  imports Cgi_Exchange Static_Files
begin

text \<open>
  From an HTTP request to a CGI exchange (\<open>gatel-cgi-http/src\<close>): where the script is and what it is told
  of the request (\<open>mapping.rs\<close>), buffering of a body without a declared length (\<open>input.rs\<close>) and the
  terminal's steps before the exchange runs (\<open>terminal.rs\<close>).

  The request is what the \<open>http\<close> crate gives of it: the path, the query and both together, the headers,
  the method. The file system is the one of \<open>Static_Files\<close>.
\<close>

subsection \<open>Scripts\<close>

datatype mapping_error =
  BadScript | BadScriptName | BadRemoteRoot | UnresolvedRoot | UnresolvedScript | OutsideRoot | NotUtf8
| InvalidEscape | EncodedSeparator | InvalidPathCharacter | NonUtf8Path | PathTraversal
| NonTextConnection | InvalidConnectionToken | DuplicateContentType | InvalidContentType
| NonTextHeader | DuplicateSingle | EnvironmentError cgi_error

record script =
  sc_filename :: bytes
  sc_root :: bytes
  sc_name :: bytes

definition dot_segment :: "bytes \<Rightarrow> bool" where
  "dot_segment part \<longleftrightarrow> part = ''.'' \<or> part = ''..''"

definition script_validate :: "bytes \<Rightarrow> bytes \<Rightarrow> mapping_error + unit" where
  "script_validate path name =
     (if path = [] \<or> CHR 0x5C \<in> set path \<or> CHR 0x3A \<in> set path \<or> has_control path \<or>
         list_ex (\<lambda>part. part = [] \<or> dot_segment part) (split_at (CHR ''/'') path) \<or>
         \<not> list_all (\<lambda>c. case c of Normal _ \<Rightarrow> True | _ \<Rightarrow> False) (path_components path) then Inl BadScript
      else if \<not> starts_with ''/'' name \<or> list_ex (\<lambda>b. b \<in> set name) [CHR ''%'', CHR 0x3F, CHR 0x23, CHR 0x5C] \<or>
         has_control name \<or> list_ex dot_segment (split_at (CHR ''/'') name) then Inl BadScriptName
      else Inr ())"

definition validate_remote :: "bytes \<Rightarrow> mapping_error + unit" where
  "validate_remote remote =
     (if \<not> starts_with ''/'' remote \<or> CHR 0x5C \<in> set remote \<or> CHR 0x3A \<in> set remote \<or> has_control remote \<or>
         list_ex dot_segment (split_at (CHR ''/'') remote) then Inl BadRemoteRoot
      else Inr ())"

definition has_kind :: "file_system \<Rightarrow> file_kind \<Rightarrow> bytes \<Rightarrow> bool" where
  "has_kind fs k p \<longleftrightarrow> (case fs_metadata fs p of Some m \<Rightarrow> fm_kind m = k | None \<Rightarrow> False)"

definition script_resolve :: "file_system \<Rightarrow> bytes \<Rightarrow> bytes \<Rightarrow> bytes \<Rightarrow> bytes \<Rightarrow> bytes option \<Rightarrow> mapping_error + script" where
  "script_resolve fs base root path name remote =
     and_then (script_validate path name) (\<lambda>_.
     and_then (case remote of Some r \<Rightarrow> validate_remote r | None \<Rightarrow> Inr ()) (\<lambda>_.
     and_then (ok_or UnresolvedRoot (fs_canonicalize fs (path_join base root))) (\<lambda>root.
     and_then (ok_or UnresolvedScript (fs_canonicalize fs (path_join root path))) (\<lambda>filename.
       if \<not> has_kind fs Directory root \<or> \<not> has_kind fs RegularFile filename \<or>
          path_strip_prefix root filename = None then Inl OutsideRoot
       else if \<not> utf8_valid root \<or> \<not> utf8_valid filename then Inl NotUtf8
       else Inr (case remote of
           Some r \<Rightarrow> \<lparr>sc_filename = trim_end_char (CHR ''/'') r @ ''/'' @ path, sc_root = r, sc_name = name\<rparr>
         | None \<Rightarrow> \<lparr>sc_filename = filename, sc_root = root, sc_name = name\<rparr>)))))"

subsection \<open>The environment of a request\<close>

record request_info =
  ri_path :: bytes
  ri_query :: "bytes option"
  ri_path_and_query :: "bytes option"
  ri_headers :: header_map
  ri_method :: bytes
  ri_length :: nat
  ri_remote :: bytes
  ri_server :: bytes
  ri_port :: nat
  ri_protocol :: bytes
  ri_tls :: bool
  ri_pass_authorization :: bool

definition cgi_escape :: "byte \<Rightarrow> byte \<Rightarrow> mapping_error + byte" where
  "cgi_escape a b =
     and_then (ok_or InvalidEscape (hex_digit a)) (\<lambda>hi.
     and_then (ok_or InvalidEscape (hex_digit b)) (\<lambda>lo.
       let v = char_of (hi * 16 + lo) in
       if v = CHR ''/'' \<or> v = CHR 0x5C \<or> v = CHR ''%'' then Inl EncodedSeparator else Inr v))"

definition path_byte :: "byte \<Rightarrow> mapping_error + byte" where
  "path_byte b = (if is_ascii_control b \<or> b = CHR 0x5C then Inl InvalidPathCharacter else Inr b)"

fun cgi_decode_bytes :: "bytes \<Rightarrow> mapping_error + bytes" where
  "cgi_decode_bytes [] = Inr []"
| "cgi_decode_bytes (c # s) =
     (if c = CHR ''%'' then
        (case s of
           a # b # r \<Rightarrow>
             and_then (and_then (cgi_escape a b) path_byte) (\<lambda>v.
             and_then (cgi_decode_bytes r) (\<lambda>d. Inr (v # d)))
         | _ \<Rightarrow> Inl InvalidEscape)
      else and_then (path_byte c) (\<lambda>v. and_then (cgi_decode_bytes s) (\<lambda>d. Inr (v # d))))"

definition cgi_decode_path :: "bytes \<Rightarrow> mapping_error + bytes" where
  "cgi_decode_path path =
     and_then (cgi_decode_bytes path) (\<lambda>decoded.
       if \<not> utf8_valid decoded then Inl NonUtf8Path
       else if list_ex dot_segment (split_at (CHR ''/'') decoded) then Inl PathTraversal
       else Inr decoded)"

definition path_info :: "script \<Rightarrow> bytes \<Rightarrow> bytes" where
  "path_info sc path =
     (if path = sc_name sc then []
      else case strip_prefix (sc_name sc) path of
        Some t \<Rightarrow> if starts_with ''/'' t then t else path
      | None \<Rightarrow> path)"

text \<open>The variables that do not come from a header, in the order they are set.\<close>

definition fixed_variables :: "script \<Rightarrow> request_info \<Rightarrow> bytes \<Rightarrow> (bytes \<times> bytes) list" where
  "fixed_variables sc ri path =
     [(''GATEWAY_INTERFACE'', ''CGI/1.1''), (''SERVER_SOFTWARE'', ''gatel/2''),
      (''SERVER_PROTOCOL'', ri_protocol ri), (''REQUEST_METHOD'', ri_method ri),
      (''SCRIPT_FILENAME'', sc_filename sc), (''DOCUMENT_ROOT'', sc_root sc), (''SCRIPT_NAME'', sc_name sc),
      (''PATH_INFO'', path_info sc path),
      (''QUERY_STRING'', case ri_query ri of Some q \<Rightarrow> q | None \<Rightarrow> []),
      (''REQUEST_URI'', case ri_path_and_query ri of Some p \<Rightarrow> p | None \<Rightarrow> ''/''),
      (''REMOTE_ADDR'', ri_remote ri), (''SERVER_NAME'', ri_server ri),
      (''HTTPS'', if ri_tls ri then ''on'' else ''off''),
      (''CONTENT_LENGTH'', show_nat (ri_length ri)), (''SERVER_PORT'', show_nat (ri_port ri))]"

fun set_all :: "(bytes \<times> bytes) list \<Rightarrow> environment \<Rightarrow> mapping_error + environment" where
  "set_all [] env = Inr env"
| "set_all ((name, v) # vs) env =
     (case env_insert name v env of Inl e \<Rightarrow> Inl (EnvironmentError e) | Inr env \<Rightarrow> set_all vs env)"

fun nominated_tokens :: "http_crate \<Rightarrow> bytes list \<Rightarrow> mapping_error + bytes list" where
  "nominated_tokens http [] = Inr []"
| "nominated_tokens http (t # ts) =
     (let name = trim t in
      if name = [] then nominated_tokens http ts
      else if \<not> name_valid http name then Inl InvalidConnectionToken
      else and_then (nominated_tokens http ts) (\<lambda>ns. Inr (to_ascii_lowercase name # ns)))"

fun nominated_fields :: "http_crate \<Rightarrow> bytes list \<Rightarrow> mapping_error + bytes list" where
  "nominated_fields http [] = Inr []"
| "nominated_fields http (f # fs) =
     and_then (ok_or NonTextConnection (value_str http f)) (\<lambda>text.
     and_then (nominated_tokens http (split_at (CHR 0x2C) text)) (\<lambda>ns.
     and_then (nominated_fields http fs) (\<lambda>ms. Inr (ns @ ms))))"

definition content_type_variable :: "http_crate \<Rightarrow> bytes list \<Rightarrow> header_map \<Rightarrow> environment \<Rightarrow> mapping_error + environment" where
  "content_type_variable http nominated h env =
     (if ''content-type'' \<in> set nominated then Inr env
      else case get_all ''content-type'' h of
        [] \<Rightarrow> Inr env
      | [v] \<Rightarrow> and_then (ok_or InvalidContentType (value_str http v)) (\<lambda>text. set_all [(''CONTENT_TYPE'', text)] env)
      | _ \<Rightarrow> Inl DuplicateContentType)"

definition private_names :: "bytes list" where
  "private_names = [''proxy'', ''content-length'', ''content-type'', ''connection'', ''transfer-encoding'', ''te'',
     ''trailer'', ''upgrade'', ''keep-alive'', ''proxy-connection'', ''proxy-authorization'', ''proxy-authenticate'']"

definition withheld :: "bool \<Rightarrow> bytes list \<Rightarrow> bytes \<Rightarrow> bool" where
  "withheld pass_authorization nominated key \<longleftrightarrow>
     CHR ''_'' \<in> set key \<or> key \<in> set private_names \<or> key \<in> set nominated \<or>
     (\<not> pass_authorization \<and> key = ''authorization'')"

definition variable_name :: "bytes \<Rightarrow> bytes" where
  "variable_name key = ''HTTP_'' @ to_ascii_uppercase (replace_char (CHR ''-'') ''_'' key)"

fun values_text :: "http_crate \<Rightarrow> bytes list \<Rightarrow> bytes list option" where
  "values_text http [] = Some []"
| "values_text http (v # vs) =
     Option.bind (value_str http v) (\<lambda>t. map_option ((#) t) (values_text http vs))"

definition header_variable :: "http_crate \<Rightarrow> header_map \<Rightarrow> bytes \<Rightarrow> mapping_error + bytes \<times> bytes" where
  "header_variable http h key =
     and_then (ok_or NonTextHeader (values_text http (get_all key h))) (\<lambda>texts.
       if (key = ''authorization'' \<or> key = ''host'') \<and> length texts \<noteq> 1 then Inl DuplicateSingle
       else Inr (variable_name key, join (if key = ''cookie'' then ''; '' else '', '') texts))"

fun header_variables :: "http_crate \<Rightarrow> bool \<Rightarrow> bytes list \<Rightarrow> header_map \<Rightarrow> bytes list \<Rightarrow> environment \<Rightarrow> mapping_error + environment" where
  "header_variables http pass nominated h [] env = Inr env"
| "header_variables http pass nominated h (key # ks) env =
     (if withheld pass nominated key then header_variables http pass nominated h ks env
      else and_then (header_variable http h key) (\<lambda>nv.
           and_then (set_all [nv] env) (header_variables http pass nominated h ks)))"

text \<open>\<open>HeaderMap::keys\<close>: every name once.\<close>

definition header_keys :: "header_map \<Rightarrow> bytes list" where
  "header_keys h = rev (remdups (rev (map fst h)))"

definition script_environment :: "http_crate \<Rightarrow> script \<Rightarrow> request_info \<Rightarrow> mapping_error + environment" where
  "script_environment http sc ri =
     and_then (cgi_decode_path (ri_path ri)) (\<lambda>path.
     and_then (set_all (fixed_variables sc ri path) (env_new (64 * 1024))) (\<lambda>env.
     and_then (nominated_fields http (get_all ''connection'' (ri_headers ri))) (\<lambda>nominated.
     and_then (content_type_variable http nominated (ri_headers ri) env)
       (header_variables http (ri_pass_authorization ri) nominated (ri_headers ri) (header_keys (ri_headers ri))))))"

subsection \<open>Before the exchange\<close>

datatype input_error = InputTooLarge | InputRead | InputTimeout

definition input_chunk :: "nat \<Rightarrow> nat \<Rightarrow> nat" where
  "input_chunk cap n = min (saturating_add u64_max (cap - n) 1) 8192"

lemma input_chunk_pos [simp]: "0 < input_chunk cap n"
  by (simp add: input_chunk_def saturating_add_def u64_max_def)

text \<open>\<open>buffer\<close>: the body so far, the pieces that arrive and how their arrival ends.\<close>

function buffer_input :: "nat \<Rightarrow> input_error option \<Rightarrow> bytes \<Rightarrow> bytes list \<Rightarrow> input_error + bytes" where
  "buffer_input cap broken body input =
     (case read_some (input_chunk cap (length body)) input of
        None \<Rightarrow> (case broken of Some e \<Rightarrow> Inl e | None \<Rightarrow> Inr body)
      | Some (bs, rest) \<Rightarrow>
          if cap - length body < length bs then Inl InputTooLarge
          else buffer_input cap broken (body @ bs) rest)"
  by pat_completeness auto
termination
  by (relation "measure (\<lambda>(cap, broken, body, input). length (concat input))")
    (auto dest!: read_some_nonempty [rotated])

declare buffer_input.simps [simp del]

fun input_status :: "input_error \<Rightarrow> nat" where
  "input_status InputTooLarge = 413"
| "input_status InputRead = 400"
| "input_status InputTimeout = 408"

record terminal_config =
  tc_max_body :: nat
  tc_buffer_unknown :: bool
  tc_max_buffer :: nat

text \<open>The length the request declares; \<open>None\<close> is a body whose length is not known.\<close>

definition request_length :: "http_crate \<Rightarrow> terminal_config \<Rightarrow> header_map \<Rightarrow> bool \<Rightarrow> nat + nat option" where
  "request_length http cfg h body_ended =
     and_then (case get_header ''content-length'' h of
         Some v \<Rightarrow>
           (case Option.bind (value_str http v) (parse_unsigned u64_max) of
              Some n \<Rightarrow> Inr (Some n)
            | None \<Rightarrow> Inl 400)
       | None \<Rightarrow>
           if contains_key ''transfer-encoding'' h \<or> \<not> body_ended then
             if tc_buffer_unknown cfg then Inr None else Inl 411
           else Inr (Some 0)) (\<lambda>len.
       if (case len of Some n \<Rightarrow> tc_max_body cfg < n | None \<Rightarrow> False) then Inl 413 else Inr len)"

text \<open>
  \<open>execute\<close> up to the exchange: the environment, the length of the body and the input the exchange will
  read. The description of the request is for the length it is given; \<open>slot\<close> says whether a place for the
  exchange is free, and the arrival of the body, which the deadline may end, is \<open>input\<close> and \<open>broken\<close>.
\<close>

definition execute_setup :: "http_crate \<Rightarrow> terminal_config \<Rightarrow> script \<Rightarrow> (nat \<Rightarrow> request_info) \<Rightarrow> bool \<Rightarrow> bool \<Rightarrow>
    input_error option \<Rightarrow> bytes list \<Rightarrow> nat + environment \<times> nat \<times> bytes list" where
  "execute_setup http cfg sc info body_ended slot broken input =
     and_then (request_length http cfg (ri_headers (info 0)) body_ended) (\<lambda>declared.
     and_then (case script_environment http sc (info (case declared of Some n \<Rightarrow> n | None \<Rightarrow> 0)) of
                 Inl _ \<Rightarrow> Inl 400 | Inr env \<Rightarrow> Inr env) (\<lambda>env.
       if \<not> slot then Inl 503
       else and_then (case declared of
           Some n \<Rightarrow> Inr (n, input)
         | None \<Rightarrow>
             (case buffer_input (min (tc_max_buffer cfg) (tc_max_body cfg)) broken [] input of
                Inl e \<Rightarrow> Inl (input_status e)
              | Inr body \<Rightarrow> Inr (length body, [body]))) (\<lambda>(len, input).
         case replace_existing ''CONTENT_LENGTH'' (show_nat len) env of
           Inl _ \<Rightarrow> Inl 400
         | Inr env \<Rightarrow> Inr (env, len, input))))"

subsection \<open>Buffering is exact\<close>

lemma buffer_input_result:
  assumes "length body \<le> cap"
  shows "buffer_input cap broken body input =
    (if cap < length (body @ concat input) then Inl InputTooLarge
     else case broken of Some e \<Rightarrow> Inl e | None \<Rightarrow> Inr (body @ concat input))"
  using assms
proof (induction cap broken body input rule: buffer_input.induct)
  case (1 cap broken body input)
  show ?case
  proof (cases "read_some (input_chunk cap (length body)) input")
    case None
    then have e: "concat input = []"
      by (induction "input_chunk cap (length body)" input rule: read_some.induct) (auto split: if_splits)
    show ?thesis
      by (subst buffer_input.simps, unfold e) (use None 1(2) in \<open>auto split: option.splits\<close>)
  next
    case (Some r)
    obtain bs rest where r: "r = (bs, rest)" by fastforce
    note read = read_some_nonempty [OF input_chunk_pos Some [unfolded r]]
    show ?thesis
    proof (cases "cap - length body < length bs")
      case True
      with Some r read 1(2) show ?thesis by (subst buffer_input.simps) auto
    next
      case False
      then have "length (body @ bs) \<le> cap" using 1(2) by simp
      with False Some r read 1(1) [OF Some r [symmetric]] show ?thesis
        by (subst buffer_input.simps) (auto split: option.splits)
    qed
  qed
qed

subsection \<open>What a script is told\<close>

lemma set_all_ok:
  assumes "env_ok env" and "set_all vs env = Inr env'"
  shows "env_ok env'" and "distinct (map fst vs)" and "\<And>n v. (n, v) \<in> set vs \<Longrightarrow> bt_get n (env_values env') = Some v"
    and "\<And>n. n \<notin> fst ` set vs \<Longrightarrow> bt_get n (env_values env') = bt_get n (env_values env)"
    and "\<And>n. n \<in> fst ` set vs \<Longrightarrow> bt_get n (env_values env) = None"
proof -
  have "env_ok env' \<and> distinct (map fst vs) \<and> (\<forall>(n, v) \<in> set vs. bt_get n (env_values env') = Some v) \<and>
      (\<forall>n. n \<notin> fst ` set vs \<longrightarrow> bt_get n (env_values env') = bt_get n (env_values env)) \<and>
      (\<forall>n \<in> fst ` set vs. bt_get n (env_values env) = None)"
    using assms
  proof (induction vs arbitrary: env)
    case (Cons nv vs)
    obtain n v where nv: "nv = (n, v)" by fastforce
    then obtain env1 where i: "env_insert n v env = Inr env1" and s: "set_all vs env1 = Inr env'"
      using Cons.prems by (auto split: sum.splits)
    note ok = env_insert_ok [OF Cons.prems(1) i]
    note IH = Cons.IH [OF ok(1) s]
    have fresh: "n \<notin> fst ` set vs" using IH ok(2) by (metis option.distinct(1))
    have none: "bt_get n (env_values env) = None"
      using i by (auto simp: env_insert_def split: if_splits)
    have "\<forall>m \<in> fst ` set vs. bt_get m (env_values env) = None" using IH ok(3) fresh by metis
    then show ?case using IH ok fresh none unfolding nv by auto
  qed simp
  then show "env_ok env'" "distinct (map fst vs)" "\<And>n v. (n, v) \<in> set vs \<Longrightarrow> bt_get n (env_values env') = Some v"
    "\<And>n. n \<notin> fst ` set vs \<Longrightarrow> bt_get n (env_values env') = bt_get n (env_values env)"
    "\<And>n. n \<in> fst ` set vs \<Longrightarrow> bt_get n (env_values env) = None" by auto
qed

text \<open>What the header variables add: exactly the variables of the keys that are not withheld.\<close>

lemma header_variables_ok:
  assumes "env_ok env" and "header_variables http pass nominated h ks env = Inr env'"
  shows "env_ok env' \<and>
    (\<forall>n v. bt_get n (env_values env) = Some v \<longrightarrow> bt_get n (env_values env') = Some v) \<and>
    (\<forall>k \<in> set ks. \<not> withheld pass nominated k \<longrightarrow>
       (\<exists>v. header_variable http h k = Inr (variable_name k, v) \<and> bt_get (variable_name k) (env_values env') = Some v)) \<and>
    (\<forall>n v. bt_get n (env_values env') = Some v \<longrightarrow> bt_get n (env_values env) = Some v \<or>
       (\<exists>k \<in> set ks. \<not> withheld pass nominated k \<and> header_variable http h k = Inr (n, v)))"
  using assms
proof (induction ks arbitrary: env)
  case (Cons k ks)
  show ?case
  proof (cases "withheld pass nominated k")
    case True
    with Cons show ?thesis by auto
  next
    case False
    then obtain n v env1 where hv: "header_variable http h k = Inr (n, v)" and s: "set_all [(n, v)] env = Inr env1"
      and r: "header_variables http pass nominated h ks env1 = Inr env'"
      using Cons.prems(2) by fastforce
    have n: "n = variable_name k" using hv by (auto simp: header_variable_def split: if_splits)
    note ok = set_all_ok [OF Cons.prems(1) s]
    note IH = Cons.IH [OF ok(1) r]
    have kept: "bt_get m (env_values env1) = Some w" if "bt_get m (env_values env) = Some w" for m w
      using that ok(4,5) [of m] by (cases "m = n") auto
    have prior: "bt_get m (env_values env) = Some w \<or> (m, w) = (n, v)" if "bt_get m (env_values env1) = Some w" for m w
      using that ok(3) [of n v] ok(4) [of m] by (cases "m = n") auto
    show ?thesis
    proof (intro conjI allI impI)
      show "env_ok env'" using IH by blast
      show "\<forall>k' \<in> set (k # ks). \<not> withheld pass nominated k' \<longrightarrow>
          (\<exists>v. header_variable http h k' = Inr (variable_name k', v) \<and> bt_get (variable_name k') (env_values env') = Some v)"
        using IH ok(3) [of n v] hv unfolding n by auto
      fix m w
      show "bt_get m (env_values env') = Some w" if "bt_get m (env_values env) = Some w"
        using IH kept [OF that] by blast
      assume "bt_get m (env_values env') = Some w"
      with IH have "bt_get m (env_values env1) = Some w \<or>
          (\<exists>k \<in> set ks. \<not> withheld pass nominated k \<and> header_variable http h k = Inr (m, w))" by blast
      then show "bt_get m (env_values env) = Some w \<or>
          (\<exists>k' \<in> set (k # ks). \<not> withheld pass nominated k' \<and> header_variable http h k' = Inr (m, w))"
        using prior [of m w] hv False by auto
    qed
  qed
qed simp

lemma nominated_kept: "content_type_variable http nominated h env = Inr env' \<Longrightarrow> env_ok env \<Longrightarrow>
    env_ok env' \<and> (\<forall>n v. bt_get n (env_values env) = Some v \<longrightarrow> bt_get n (env_values env') = Some v) \<and>
    (\<forall>n v. bt_get n (env_values env') = Some v \<longrightarrow> bt_get n (env_values env) = Some v \<or> n = ''CONTENT_TYPE'')"
proof -
  assume got: "content_type_variable http nominated h env = Inr env'" and ok: "env_ok env"
  have "env' = env \<or> (\<exists>t. set_all [(''CONTENT_TYPE'', t)] env = Inr env')"
  proof (cases "''content-type'' \<in> set nominated")
    case False
    define vs where "vs = get_all ''content-type'' h"
    from got False have "(case vs of [] \<Rightarrow> Inr env
        | [v] \<Rightarrow> and_then (ok_or InvalidContentType (value_str http v)) (\<lambda>text. set_all [(''CONTENT_TYPE'', text)] env)
        | _ \<Rightarrow> Inl DuplicateContentType) = Inr env'"
      by (simp only: content_type_variable_def vs_def if_False)
    then show ?thesis by (cases vs; cases "tl vs") (simp_all del: set_all.simps, blast)
  qed (use got in \<open>simp add: content_type_variable_def\<close>)
  then consider "env' = env" | t where "set_all [(''CONTENT_TYPE'', t)] env = Inr env'" by blast
  then show ?thesis
  proof cases
    case 1
    with ok show ?thesis by simp
  next
    case 2
    note s = set_all_ok [OF ok 2]
    show ?thesis
    proof (intro conjI allI impI)
      fix n v
      show "env_ok env'" by (rule s(1))
      show "bt_get n (env_values env') = Some v" if "bt_get n (env_values env) = Some v"
        using that s(4,5) [of n] by (cases "n = ''CONTENT_TYPE''") auto
      show "bt_get n (env_values env) = Some v \<or> n = ''CONTENT_TYPE''" if "bt_get n (env_values env') = Some v"
        using that s(4) [of n] by auto
    qed
  qed
qed

lemma path_byte_Inr [simp]: "path_byte b = Inr c \<longleftrightarrow> c = b \<and> \<not> is_ascii_control b \<and> b \<noteq> CHR 0x5C"
  by (auto simp: path_byte_def)

lemma cgi_decode_bytes_clean:
  "cgi_decode_bytes s = Inr d \<Longrightarrow> list_all (\<lambda>b. \<not> is_ascii_control b \<and> b \<noteq> CHR 0x5C) d"
proof (induction s arbitrary: d rule: cgi_decode_bytes.induct)
  case (2 c s)
  show ?case
  proof (cases "c = CHR ''%''")
    case True
    with 2(3) obtain a b r v e where "s = a # b # r" "cgi_decode_bytes r = Inr e" "d = v # e" "path_byte v = Inr v"
      by (simp split: list.splits) blast
    with 2(1) [OF True] show ?thesis by simp
  next
    case False
    with 2(2) [OF False] 2(3) show ?thesis by auto
  qed
qed simp

lemma lower_upper_byte: "lower_byte (upper_byte c) = lower_byte c"
proof (cases "is_ascii_lower c")
  case True
  then have c: "97 \<le> code c" "code c \<le> 122" by (auto simp: is_ascii_lower_def)
  then have u: "code (upper_byte c) = code c - 32" using True by (simp add: upper_byte_def)
  with c have "is_ascii_upper (upper_byte c)" unfolding is_ascii_upper_def by linarith
  with u c have "lower_byte (upper_byte c) = char_of (code c)" by (simp add: lower_byte_def)
  moreover have "\<not> is_ascii_upper c" using c by (simp add: is_ascii_upper_def)
  ultimately show ?thesis by (simp add: lower_byte_def)
qed (simp add: upper_byte_def)

text \<open>The header a variable stands for.\<close>

definition key_of :: "bytes \<Rightarrow> bytes" where
  "key_of n = map (\<lambda>b. if b = CHR ''_'' then CHR ''-'' else lower_byte b) (drop 5 n)"

lemma variable_name_map:
  "variable_name k = ''HTTP_'' @ map (\<lambda>b. if b = CHR ''-'' then CHR ''_'' else upper_byte b) k"
proof -
  have "upper_byte (CHR ''_'') = CHR ''_''" by code_simp
  then have "to_ascii_uppercase (replace_char (CHR ''-'') ''_'' k) = map (\<lambda>b. if b = CHR ''-'' then CHR ''_'' else upper_byte b) k"
    by (induction k) (simp_all add: to_ascii_uppercase_def replace_char_def)
  then show ?thesis by (simp add: variable_name_def)
qed

lemma key_of_variable:
  assumes "to_ascii_lowercase k = k" and "CHR ''_'' \<notin> set k"
  shows "key_of (variable_name k) = k"
proof -
  have "(if (if b = CHR ''-'' then CHR ''_'' else upper_byte b) = CHR ''_'' then CHR ''-''
      else lower_byte (if b = CHR ''-'' then CHR ''_'' else upper_byte b)) = b" if "b \<in> set k" for b
  proof (cases "b = CHR ''-''")
    case False
    have l: "lower_byte b = b" using assms(1) that by (auto simp: to_ascii_lowercase_def map_idI dest: map_eq_conv [THEN iffD1, of _ _ id, simplified])
    moreover have "lower_byte (CHR ''_'') = CHR ''_''" by code_simp
    ultimately have "upper_byte b \<noteq> CHR ''_''" using lower_upper_byte [of b] that assms(2) by metis
    with False l show ?thesis by (simp add: lower_upper_byte)
  qed simp
  then show ?thesis unfolding variable_name_map key_of_def by (simp add: map_idI cong: map_cong)
qed

lemma fixed_not_header: "n \<in> fst ` set (fixed_variables sc ri path) \<Longrightarrow> \<not> starts_with ''HTTP_'' n"
  by (auto simp: fixed_variables_def starts_with_iff)

lemma header_keys_set [simp]: "set (header_keys h) = fst ` set h"
  by (simp add: header_keys_def)

lemma dot_segments_tail:
  assumes "\<not> list_ex dot_segment (split_at (CHR ''/'') (a @ t))" and "starts_with ''/'' t"
  shows "\<not> list_ex dot_segment (split_at (CHR ''/'') t)"
proof -
  obtain u where t: "t = CHR ''/'' # u" using assms(2) by (auto simp: starts_with_iff)
  have "\<not> dot_segment []" by (simp add: dot_segment_def)
  with assms(1) show ?thesis by (auto simp: t split_at_append_sep list_ex_iff)
qed

lemma path_info_clean:
  assumes "cgi_decode_path p = Inr path"
  shows "\<not> list_ex dot_segment (split_at (CHR ''/'') (path_info sc path)) \<and> CHR 0x5C \<notin> set (path_info sc path)"
proof -
  have d: "\<not> list_ex dot_segment (split_at (CHR ''/'') path)" and c: "cgi_decode_bytes p = Inr path"
    using assms by (auto simp: cgi_decode_path_def split: if_splits)
  have b: "CHR 0x5C \<notin> set path" using cgi_decode_bytes_clean [OF c] by (auto simp: list_all_iff)
  show ?thesis
  proof (cases "path = sc_name sc")
    case True
    then show ?thesis by (simp add: path_info_def dot_segment_def)
  next
    case False
    show ?thesis
    proof (cases "strip_prefix (sc_name sc) path")
      case (Some t)
      then have "path = sc_name sc @ t" by (simp add: strip_prefix_iff)
      with d b False Some show ?thesis using dot_segments_tail [of "sc_name sc" t] by (auto simp: path_info_def)
    qed (use d b False in \<open>simp add: path_info_def\<close>)
  qed
qed

text \<open>The environment of a request, in terms of its parts.\<close>

lemma script_environment_parts:
  assumes "script_environment http sc ri = Inr env"
  obtains path nominated where "cgi_decode_path (ri_path ri) = Inr path"
    and "nominated_fields http (get_all ''connection'' (ri_headers ri)) = Inr nominated" and "env_ok env"
    and "\<And>n v. (n, v) \<in> set (fixed_variables sc ri path) \<Longrightarrow> bt_get n (env_values env) = Some v"
    and "\<And>k. k \<in> fst ` set (ri_headers ri) \<Longrightarrow> \<not> withheld (ri_pass_authorization ri) nominated k \<Longrightarrow>
      \<exists>v. header_variable http (ri_headers ri) k = Inr (variable_name k, v) \<and> bt_get (variable_name k) (env_values env) = Some v"
    and "\<And>n v. bt_get n (env_values env) = Some v \<Longrightarrow> starts_with ''HTTP_'' n \<Longrightarrow>
      \<exists>k \<in> fst ` set (ri_headers ri). \<not> withheld (ri_pass_authorization ri) nominated k \<and>
        header_variable http (ri_headers ri) k = Inr (n, v)"
proof -
  let ?h = "ri_headers ri"
  obtain path env1 nominated env2 where p: "cgi_decode_path (ri_path ri) = Inr path"
    and s: "set_all (fixed_variables sc ri path) (env_new (64 * 1024)) = Inr env1"
    and m: "nominated_fields http (get_all ''connection'' ?h) = Inr nominated"
    and c: "content_type_variable http nominated ?h env1 = Inr env2"
    and v: "header_variables http (ri_pass_authorization ri) nominated ?h (header_keys ?h) env2 = Inr env"
    using assms unfolding script_environment_def and_then_Inr by blast
  note f = set_all_ok [OF env_new_ok s]
  note t = nominated_kept [OF c f(1)]
  note r = header_variables_ok [OF t [THEN conjunct1] v, unfolded header_keys_set]
  have plain: "bt_get n (env_values env2) = None" if "starts_with ''HTTP_'' n" for n
  proof -
    have "n \<noteq> ''CONTENT_TYPE''" using that by (auto simp: starts_with_iff)
    moreover have "bt_get n (env_values env1) = None"
      using f(4) fixed_not_header [of n sc ri path] that by (auto simp: env_new_def)
    ultimately show ?thesis using t by (metis not_Some_eq)
  qed
  show ?thesis
  proof (rule that [OF p m])
    show "env_ok env" using r by blast
    show "bt_get n (env_values env) = Some w" if "(n, w) \<in> set (fixed_variables sc ri path)" for n w
      using f(3) [OF that] t r by blast
    show "\<exists>v. header_variable http ?h k = Inr (variable_name k, v) \<and> bt_get (variable_name k) (env_values env) = Some v"
      if "k \<in> fst ` set ?h" "\<not> withheld (ri_pass_authorization ri) nominated k" for k
      using r that by blast
    show "\<exists>k \<in> fst ` set ?h. \<not> withheld (ri_pass_authorization ri) nominated k \<and> header_variable http ?h k = Inr (n, w)"
      if "bt_get n (env_values env) = Some w" "starts_with ''HTTP_'' n" for n w
    proof -
      have "bt_get n (env_values env2) = Some w \<or> (\<exists>k \<in> fst ` set ?h. \<not> withheld (ri_pass_authorization ri) nominated k \<and>
          header_variable http ?h k = Inr (n, w))" using r that(1) by blast
      with plain [OF that(2)] show ?thesis by simp
    qed
  qed
qed

text \<open>
  C17: What a client can tell a script is limited to its request: every variable made of a header stands for
  one header the client sent, with all its values, and never for one that belongs to the connection, that
  the client nominated as such, that is spelled ambiguously, or for credentials that are not to be passed
  on; \<open>HTTP_PROXY\<close> is never set. The script itself, its root and the length of the body are the
  gateway's own, and the path information has no dot segment and no backslash.
\<close>

theorem cgi_environment_safe:
  assumes "script_environment http sc ri = Inr env" and "\<forall>(n, _) \<in> set (ri_headers ri). to_ascii_lowercase n = n"
  shows "env_ok env \<and> bt_get ''HTTP_PROXY'' (env_values env) = None \<and>
    bt_get ''SCRIPT_FILENAME'' (env_values env) = Some (sc_filename sc) \<and>
    bt_get ''DOCUMENT_ROOT'' (env_values env) = Some (sc_root sc) \<and>
    bt_get ''CONTENT_LENGTH'' (env_values env) = Some (show_nat (ri_length ri)) \<and>
    (\<exists>info. bt_get ''PATH_INFO'' (env_values env) = Some info \<and> CHR 0x5C \<notin> set info \<and>
       \<not> list_ex dot_segment (split_at (CHR ''/'') info)) \<and>
    (\<forall>n v. starts_with ''HTTP_'' n \<and> bt_get n (env_values env) = Some v \<longrightarrow>
       contains_key (key_of n) (ri_headers ri) \<and> key_of n \<notin> set private_names \<and> CHR ''_'' \<notin> set (key_of n) \<and>
       (key_of n = ''authorization'' \<longrightarrow> ri_pass_authorization ri) \<and>
       (\<exists>nominated. nominated_fields http (get_all ''connection'' (ri_headers ri)) = Inr nominated \<and> key_of n \<notin> set nominated) \<and>
       (\<exists>texts. values_text http (get_all (key_of n) (ri_headers ri)) = Some texts \<and>
          v = join (if key_of n = ''cookie'' then ''; '' else '', '') texts))"
proof -
  obtain path nominated where p: "cgi_decode_path (ri_path ri) = Inr path"
    and m: "nominated_fields http (get_all ''connection'' (ri_headers ri)) = Inr nominated" and ok: "env_ok env"
    and f: "\<And>n v. (n, v) \<in> set (fixed_variables sc ri path) \<Longrightarrow> bt_get n (env_values env) = Some v"
    and b: "\<And>n v. bt_get n (env_values env) = Some v \<Longrightarrow> starts_with ''HTTP_'' n \<Longrightarrow>
      \<exists>k \<in> fst ` set (ri_headers ri). \<not> withheld (ri_pass_authorization ri) nominated k \<and>
        header_variable http (ri_headers ri) k = Inr (n, v)"
    by (rule script_environment_parts [OF assms(1)]) (rule that; assumption)
  have header: "key_of n \<in> fst ` set (ri_headers ri) \<and> \<not> withheld (ri_pass_authorization ri) nominated (key_of n) \<and>
      header_variable http (ri_headers ri) (key_of n) = Inr (n, v)"
    if n1: "starts_with ''HTTP_'' n" and n2: "bt_get n (env_values env) = Some v" for n v
  proof -
    obtain k where k: "k \<in> fst ` set (ri_headers ri)" "\<not> withheld (ri_pass_authorization ri) nominated k"
      and hv: "header_variable http (ri_headers ri) k = Inr (n, v)" using b [OF n2 n1] by blast
    have "n = variable_name k" using hv by (auto simp: header_variable_def split: if_splits)
    moreover have "to_ascii_lowercase k = k" "CHR ''_'' \<notin> set k" using k assms(2) by (auto simp: withheld_def)
    ultimately have "key_of n = k" by (simp add: key_of_variable)
    with k hv show ?thesis by simp
  qed
  have proxy: "bt_get ''HTTP_PROXY'' (env_values env) = None"
  proof (rule ccontr)
    assume "bt_get ''HTTP_PROXY'' (env_values env) \<noteq> None"
    then obtain v where "bt_get ''HTTP_PROXY'' (env_values env) = Some v" by blast
    with header [of "''HTTP_PROXY''" v] have "\<not> withheld (ri_pass_authorization ri) nominated (key_of ''HTTP_PROXY'')"
      by (simp add: starts_with_iff)
    moreover have "key_of ''HTTP_PROXY'' = ''proxy''" by code_simp
    ultimately show False by (simp add: withheld_def private_names_def)
  qed
  have fixed: "bt_get ''SCRIPT_FILENAME'' (env_values env) = Some (sc_filename sc)"
    "bt_get ''DOCUMENT_ROOT'' (env_values env) = Some (sc_root sc)"
    "bt_get ''CONTENT_LENGTH'' (env_values env) = Some (show_nat (ri_length ri))"
    "bt_get ''PATH_INFO'' (env_values env) = Some (path_info sc path)"
    by (intro f; simp add: fixed_variables_def)+
  show ?thesis
  proof (intro conjI allI impI, rule ok, rule proxy, rule fixed(1), rule fixed(2), rule fixed(3))
    show "\<exists>info. bt_get ''PATH_INFO'' (env_values env) = Some info \<and> CHR 0x5C \<notin> set info \<and>
        \<not> list_ex dot_segment (split_at (CHR ''/'') info)"
      using fixed(4) path_info_clean [OF p, of sc] by blast
  next
    fix n v assume "starts_with ''HTTP_'' n \<and> bt_get n (env_values env) = Some v"
    then have n: "key_of n \<in> fst ` set (ri_headers ri)" "\<not> withheld (ri_pass_authorization ri) nominated (key_of n)"
      "header_variable http (ri_headers ri) (key_of n) = Inr (n, v)" using header by blast+
    show "contains_key (key_of n) (ri_headers ri)" using n(1) by (auto simp: contains_key_def get_all_def filter_empty_conv)
    show "key_of n \<notin> set private_names" "CHR ''_'' \<notin> set (key_of n)" using n(2) by (auto simp: withheld_def)
    show "ri_pass_authorization ri" if "key_of n = ''authorization''" using n(2) that by (auto simp: withheld_def)
    show "\<exists>nominated. nominated_fields http (get_all ''connection'' (ri_headers ri)) = Inr nominated \<and> key_of n \<notin> set nominated"
      using m n(2) by (auto simp: withheld_def)
    show "\<exists>texts. values_text http (get_all (key_of n) (ri_headers ri)) = Some texts \<and>
        v = join (if key_of n = ''cookie'' then ''; '' else '', '') texts"
      using n(3) by (auto simp: header_variable_def simp del: join.simps split: if_splits)
  qed
qed

lemma declared_length_of_env:
  assumes "env_ok env" and "bt_get ''CONTENT_LENGTH'' (env_values env) = Some (show_nat n)" and "n \<le> u64_max"
  shows "cgi_declared_length env = Some n"
proof -
  have "find (\<lambda>(name, _). name = ''CONTENT_LENGTH'') m = map_option (Pair ''CONTENT_LENGTH'') (bt_get ''CONTENT_LENGTH'' m)"
    for m :: "(bytes \<times> bytes) list" by (induction m) (auto simp: bt_get_Cons)
  moreover have "show_nat n \<noteq> []" "list_all is_ascii_digit (show_nat n)" using show_nat_digits by simp_all
  ultimately show ?thesis
    using assms by (simp add: cgi_declared_length_def env_iter_def parse_show_nat)
qed

text \<open>
  An exchange that is started is started consistently: its environment is valid and declares exactly the
  length the exchange is given, the length is within the limit, a body whose length was not declared is
  buffered whole with its length counted, and no exchange refuses a request on account of its length.
\<close>

theorem execute_setup_consistent:
  assumes "execute_setup http cfg sc info body_ended slot broken input = Inr (env, len, rest)"
    and "\<And>n. ri_length (info n) = n" and "tc_max_body cfg \<le> u64_max"
  shows "env_ok env \<and> cgi_declared_length env = Some len \<and> len \<le> tc_max_body cfg \<and> slot \<and>
    (rest = input \<or> concat rest = concat input \<and> len = length (concat input) \<and> len \<le> tc_max_buffer cfg \<and>
       broken = None \<and> \<not> contains_key ''content-length'' (ri_headers (info 0)))"
proof -
  obtain declared where d: "request_length http cfg (ri_headers (info 0)) body_ended = Inr declared"
    and d': "and_then (case script_environment http sc (info (case declared of Some n \<Rightarrow> n | None \<Rightarrow> 0)) of
        Inl _ \<Rightarrow> Inl 400 | Inr env \<Rightarrow> Inr env) (\<lambda>env.
       if \<not> slot then Inl 503
       else and_then (case declared of
           Some n \<Rightarrow> Inr (n, input)
         | None \<Rightarrow> (case buffer_input (min (tc_max_buffer cfg) (tc_max_body cfg)) broken [] input of
                Inl e \<Rightarrow> Inl (input_status e) | Inr body \<Rightarrow> Inr (length body, [body]))) (\<lambda>(len, input).
         case replace_existing ''CONTENT_LENGTH'' (show_nat len) env of
           Inl _ \<Rightarrow> Inl 400 | Inr env \<Rightarrow> Inr (env, len, input))) = Inr (env, len, rest)"
    using assms(1) unfolding execute_setup_def and_then_Inr by blast
  obtain env1 where e: "script_environment http sc (info (case declared of Some n \<Rightarrow> n | None \<Rightarrow> 0)) = Inr env1"
    using d' by (cases "script_environment http sc (info (case declared of Some n \<Rightarrow> n | None \<Rightarrow> 0))") simp_all
  have slot: slot using d' unfolding e by (cases slot) simp_all
  obtain len' rest' where i': "(case declared of Some n \<Rightarrow> Inr (n, input)
         | None \<Rightarrow> (case buffer_input (min (tc_max_buffer cfg) (tc_max_body cfg)) broken [] input of
                Inl e \<Rightarrow> Inl (input_status e) | Inr body \<Rightarrow> Inr (length body, [body]))) = Inr (len', rest')"
    and r': "(case replace_existing ''CONTENT_LENGTH'' (show_nat len') env1 of
           Inl _ \<Rightarrow> Inl (400 :: nat) | Inr env \<Rightarrow> Inr (env, len', rest')) = Inr (env, len, rest)"
    using d' slot unfolding e by auto
  then have r: "replace_existing ''CONTENT_LENGTH'' (show_nat len) env1 = Inr env" and same: "len' = len" "rest' = rest"
    by (simp_all split: sum.splits)
  note i = i' [unfolded same]
  have ok: "env_ok env1" by (rule script_environment_parts [OF e]) blast
  note env = replace_existing_ok [OF ok r]
  have within: "len \<le> tc_max_body cfg \<and> (rest = input \<or> concat rest = concat input \<and> len = length (concat input) \<and>
      len \<le> tc_max_buffer cfg \<and> broken = None \<and> declared = None)"
  proof (cases declared)
    case None
    with i have "buffer_input (min (tc_max_buffer cfg) (tc_max_body cfg)) broken [] input = Inr (concat rest)"
      "len = length (concat rest)" by (auto split: sum.splits)
    with None show ?thesis by (auto simp: buffer_input_result split: if_splits option.splits simp del: length_concat)
  next
    case (Some n)
    with i d show ?thesis by (auto simp: request_length_def split: if_splits)
  qed
  have "\<not> contains_key ''content-length'' (ri_headers (info 0))" if "declared = None"
  proof -
    have "get_header ''content-length'' (ri_headers (info 0)) = None"
      using d that unfolding request_length_def
      by (cases "get_header ''content-length'' (ri_headers (info 0))") (auto split: option.splits if_splits)
    then show ?thesis by simp
  qed
  moreover have "cgi_declared_length env = Some len"
    using declared_length_of_env [OF env(1,3)] within assms(3) by simp
  ultimately show ?thesis using env(1) within slot by blast
qed

subsection \<open>An environment within its budget is built\<close>

lemma set_all_fits:
  assumes "env_ok env" and "list_all entry_ok vs" and "distinct (map fst vs)"
    and "\<forall>n \<in> fst ` set vs. bt_get n (env_values env) = None"
    and "env_bytes env + sum_list (map entry_size vs) \<le> env_limit env"
  shows "\<exists>env'. set_all vs env = Inr env' \<and> env_limit env' = env_limit env \<and>
    env_bytes env' = env_bytes env + sum_list (map entry_size vs)"
  using assms
proof (induction vs arbitrary: env)
  case (Cons nv vs)
  obtain n v where nv: "nv = (n, v)" by fastforce
  obtain env1 where i: "env_insert n v env = Inr env1" and l: "env_limit env1 = env_limit env"
    and b: "env_bytes env1 = env_bytes env + entry_size (n, v)"
    using env_insert_fits [of env n v] Cons.prems unfolding nv by auto
  note ok = env_insert_ok [OF Cons.prems(1) i]
  have p: "list_all entry_ok vs" "distinct (map fst vs)" "n \<notin> fst ` set vs" using Cons.prems(2,3) by (simp_all add: nv)
  have fresh: "\<forall>m \<in> fst ` set vs. bt_get m (env_values env1) = None"
  proof
    fix m assume m: "m \<in> fst ` set vs"
    then have "bt_get m (env_values env) = None" using Cons.prems(4) by auto
    with ok(3) [of m] m p(3) show "bt_get m (env_values env1) = None" by metis
  qed
  have fits: "env_bytes env1 + sum_list (map entry_size vs) \<le> env_limit env1"
    using Cons.prems(5) by (simp add: nv b l)
  from Cons.IH [OF ok(1) p(1,2) fresh fits] obtain env' where "set_all vs env1 = Inr env'"
    "env_limit env' = env_limit env1" "env_bytes env' = env_bytes env1 + sum_list (map entry_size vs)" by blast
  with i l b show ?case unfolding nv by simp
qed simp

subsection \<open>Samples\<close>

definition sample_script :: script where
  "sample_script = \<lparr>sc_filename = ''/w/a.php'', sc_root = ''/w'', sc_name = ''/a.php''\<rparr>"

definition sample_info :: "nat \<Rightarrow> request_info" where
  "sample_info n = \<lparr>ri_path = ''/a.php/x'', ri_query = None, ri_path_and_query = Some ''/a.php/x'',
     ri_headers = [(''host'', ''h''), (''proxy'', ''evil'')], ri_method = ''POST'', ri_length = n, ri_remote = ''::1'',
     ri_server = ''h'', ri_port = 80, ri_protocol = ''HTTP/1.1'', ri_tls = False, ri_pass_authorization = False\<rparr>"

definition sample_variables :: "nat \<Rightarrow> (bytes \<times> bytes) list" where
  "sample_variables n = fixed_variables sample_script (sample_info n) ''/a.php/x'' @ [(''HTTP_HOST'', ''h'')]"

lemma set_all_append: "set_all (vs @ ws) env = and_then (set_all vs env) (set_all ws)"
  by (induction vs arbitrary: env) (auto split: sum.splits)

lemma sample_environment_of:
  assumes "list_all entry_ok (sample_variables n)" and "distinct (map fst (sample_variables n))"
    and "sum_list (map entry_size (sample_variables n)) = 288"
  shows "\<exists>env. script_environment visible_http sample_script (sample_info n) = Inr env \<and> env_bytes env = 288 \<and> env_limit env = 65536"
proof -
  obtain env where "set_all (sample_variables n) (env_new (64 * 1024)) = Inr env" and size: "env_bytes env = 288" "env_limit env = 65536"
    using set_all_fits [OF env_new_ok assms(1,2), of "64 * 1024"] assms(3)
    by (auto simp: env_new_def env_max_bytes_def)
  then obtain env1 where f: "set_all (fixed_variables sample_script (sample_info n) ''/a.php/x'') (env_new (64 * 1024)) = Inr env1"
    and g: "set_all [(''HTTP_HOST'', ''h'')] env1 = Inr env"
    unfolding sample_variables_def set_all_append and_then_Inr by blast
  have h: "ri_headers (sample_info n) = [(''host'', ''h''), (''proxy'', ''evil'')]" "ri_path (sample_info n) = ''/a.php/x''"
    "ri_pass_authorization (sample_info n) = False" by (simp_all add: sample_info_def)
  have "cgi_decode_path ''/a.php/x'' = Inr ''/a.php/x''" by code_simp
  moreover have "nominated_fields visible_http (get_all ''connection'' [(''host'', ''h''), (''proxy'', ''evil'')]) = Inr []" by code_simp
  moreover have "content_type_variable visible_http [] [(''host'', ''h''), (''proxy'', ''evil'')] env1 = Inr env1"
    by (simp add: content_type_variable_def)
  moreover have "header_keys [(''host'', ''h''), (''proxy'', ''evil'')] = [''host'', ''proxy'']" by code_simp
  moreover have "header_variable visible_http [(''host'', ''h''), (''proxy'', ''evil'')] ''host'' = Inr (''HTTP_HOST'', ''h'')" by code_simp
  moreover have "\<not> withheld False [] ''host''" "withheld False [] ''proxy''" by code_simp+
  ultimately show ?thesis
    using f g size unfolding script_environment_def h by (simp del: set_all.simps)
qed

lemma sample_environment:
  "\<exists>env. script_environment visible_http sample_script (sample_info 2) = Inr env \<and> env_bytes env = 288 \<and> env_limit env = 65536"
  "\<exists>env. script_environment visible_http sample_script (sample_info 0) = Inr env \<and> env_bytes env = 288 \<and> env_limit env = 65536"
  by (rule sample_environment_of; code_simp)+

theorem cgi_environment_safe_witness:
  "\<exists>env. script_environment visible_http sample_script (sample_info 2) = Inr env \<and>
    bt_get ''HTTP_PROXY'' (env_values env) = None \<and> bt_get ''SCRIPT_FILENAME'' (env_values env) = Some ''/w/a.php''"
proof -
  obtain env where env: "script_environment visible_http sample_script (sample_info 2) = Inr env"
    using sample_environment(1) by blast
  have "\<forall>(n, _) \<in> set (ri_headers (sample_info 2)). to_ascii_lowercase n = n" by code_simp
  from cgi_environment_safe [OF env this] env show ?thesis by (auto simp: sample_script_def)
qed

lemma replace_existing_fits:
  assumes "bt_get name (env_values env) = Some u" and "CHR 0x00 \<notin> set v" and "env_bytes env + length v \<le> env_limit env"
    and "env_limit env \<le> u64_max"
  shows "\<exists>env'. replace_existing name v env = Inr env'"
  using assms by (auto simp: replace_existing_def checked_add_def ok_or_def)

definition sample_terminal :: terminal_config where
  "sample_terminal = \<lparr>tc_max_body = 9, tc_buffer_unknown = True, tc_max_buffer = 4\<rparr>"

theorem execute_setup_consistent_witness:
  "\<exists>env. execute_setup visible_http sample_terminal sample_script sample_info False True None [''h'', ''i''] =
     Inr (env, 2, [''hi'']) \<and> cgi_declared_length env = Some 2"
proof -
  obtain env where e: "script_environment visible_http sample_script (sample_info 0) = Inr env"
    and size: "env_bytes env = 288" "env_limit env = 65536" using sample_environment(2) by blast
  have "bt_get ''CONTENT_LENGTH'' (env_values env) = Some (show_nat (ri_length (sample_info 0)))"
    by (rule script_environment_parts [OF e]) (simp add: fixed_variables_def)
  moreover have two: "show_nat 2 = ''2''" by code_simp
  ultimately obtain env' where r: "replace_existing ''CONTENT_LENGTH'' (show_nat 2) env = Inr env'"
    using replace_existing_fits [of "''CONTENT_LENGTH''" env _ "show_nat 2"] size by (auto simp: u64_max_def)
  have "request_length visible_http sample_terminal (ri_headers (sample_info 0)) False = Inr None" by code_simp
  moreover have "buffer_input (min 4 9) None [] [''h'', ''i''] = Inr ''hi''" by (simp add: buffer_input_result)
  ultimately have s: "execute_setup visible_http sample_terminal sample_script sample_info False True None [''h'', ''i''] =
      Inr (env', 2, [''hi''])"
    using e r by (simp add: execute_setup_def sample_terminal_def flip: numeral_2_eq_2)
  have "\<And>n. ri_length (sample_info n) = n" "tc_max_body sample_terminal \<le> u64_max"
    by (simp_all add: sample_info_def sample_terminal_def u64_max_def)
  from execute_setup_consistent [OF s this] s show ?thesis by blast
qed

end
