(* ===== verification/Node_Reader.thy ===== *)
theory Node_Reader
  imports Config_Model
begin

text \<open>
  Reading a configuration node into a structure: the reader the generated decoders call
  (\<open>NodeReader\<close> in \<open>gatel-model/src/decode.rs\<close>) and the shape of a generated decoder (\<open>expand\<close> in
  \<open>gatel-macros/src/lib.rs\<close>). Unknown arguments, properties and children are errors, and a decoder gives a
  value exactly when it reported no error.
\<close>

subsection \<open>Diagnostics\<close>

definition push_error :: "diag_code \<Rightarrow> diagnostics \<Rightarrow> diagnostics" where
  "push_error c ds = ds @ [diag_error c]"

definition push_help :: "diag_code \<Rightarrow> bytes \<Rightarrow> diagnostics \<Rightarrow> diagnostics" where
  "push_help c help ds = ds @ [(diag_error c)\<lparr>diag_help := Some help\<rparr>]"

text \<open>An error with the nearest known spelling, or else the known ones, as its help.\<close>

definition suggestion_text :: "bytes \<Rightarrow> bytes" where
  "suggestion_text s = ''did you mean `'' @ s @ ''`?''"

definition push_unknown :: "diag_code \<Rightarrow> bytes \<Rightarrow> bytes list \<Rightarrow> bytes \<Rightarrow> diagnostics \<Rightarrow> diagnostics" where
  "push_unknown c kinds known name ds =
     (case did_you_mean name known of
        Some s \<Rightarrow> push_help c (suggestion_text s) ds
      | None \<Rightarrow> if known \<noteq> [] then push_help c (kinds @ join '', '' known) ds else push_error c ds)"

lemma error_count_append [simp]: "error_count (ds @ es) = error_count ds + error_count es"
  by (simp add: error_count_def)

lemma error_count_push [simp]:
  "error_count (push_error c ds) = error_count ds + 1" "error_count (push_help c h ds) = error_count ds + 1"
  "error_count (push_unknown c k known name ds) = error_count ds + 1"
  by (auto simp: push_error_def push_help_def push_unknown_def error_count_def diag_error_def is_error_def split: option.splits)

subsection \<open>The reader\<close>

type_synonym 'a value_decoder = "scalar \<Rightarrow> diag_code + 'a"
type_synonym 'a node_decoder = "node \<Rightarrow> diagnostics \<Rightarrow> 'a option \<times> diagnostics"

record node_reader =
  rd_node :: node
  rd_diags :: diagnostics
  rd_next_arg :: nat
  rd_known_props :: "bytes list"
  rd_known_children :: "bytes list"
  rd_max_args :: "nat option"
  rd_consumed_children :: bool

definition reader_new :: "node \<Rightarrow> diagnostics \<Rightarrow> node_reader" where
  "reader_new n ds = \<lparr>rd_node = n, rd_diags = ds, rd_next_arg = 0, rd_known_props = [], rd_known_children = [],
     rd_max_args = None, rd_consumed_children = False\<rparr>"

definition read_value :: "'a value_decoder \<Rightarrow> scalar \<Rightarrow> node_reader \<Rightarrow> 'a option \<times> node_reader" where
  "read_value dec v rd =
     (case dec v of
        Inl c \<Rightarrow> (None, rd\<lparr>rd_diags := push_error c (rd_diags rd)\<rparr>)
      | Inr a \<Rightarrow> (Some a, rd))"

definition reader_arg :: "'a value_decoder \<Rightarrow> node_reader \<Rightarrow> 'a option \<times> node_reader" where
  "reader_arg dec rd =
     (if rd_next_arg rd < length (node_args (rd_node rd)) then
        read_value dec (node_args (rd_node rd) ! rd_next_arg rd)
          (rd\<lparr>rd_next_arg := rd_next_arg rd + 1, rd_max_args := Some (rd_next_arg rd + 1)\<rparr>)
      else (None, rd\<lparr>rd_max_args := Some (rd_next_arg rd + 1), rd_diags := push_error ArgumentCount (rd_diags rd)\<rparr>))"

definition reader_opt_arg :: "'a value_decoder \<Rightarrow> node_reader \<Rightarrow> 'a option \<times> node_reader" where
  "reader_opt_arg dec rd =
     (if rd_next_arg rd < length (node_args (rd_node rd)) then
        read_value dec (node_args (rd_node rd) ! rd_next_arg rd)
          (rd\<lparr>rd_next_arg := rd_next_arg rd + 1, rd_max_args := Some (rd_next_arg rd + 1)\<rparr>)
      else (None, rd))"

fun read_values :: "'a value_decoder \<Rightarrow> scalar list \<Rightarrow> node_reader \<Rightarrow> 'a list \<times> node_reader" where
  "read_values dec [] rd = ([], rd)"
| "read_values dec (v # vs) rd =
     (case read_value dec v (rd\<lparr>rd_next_arg := rd_next_arg rd + 1\<rparr>) of
        (a, rd) \<Rightarrow> (case read_values dec vs rd of (as, rd) \<Rightarrow> (case a of Some x \<Rightarrow> x # as | None \<Rightarrow> as, rd)))"

definition reader_rest_args :: "'a value_decoder \<Rightarrow> node_reader \<Rightarrow> 'a list \<times> node_reader" where
  "reader_rest_args dec rd =
     (case read_values dec (drop (rd_next_arg rd) (node_args (rd_node rd))) rd of
        (as, rd) \<Rightarrow> (as, rd\<lparr>rd_max_args := None\<rparr>))"

definition know_prop :: "bytes \<Rightarrow> node_reader \<Rightarrow> node_reader" where
  "know_prop key rd = rd\<lparr>rd_known_props := insort_insert key (rd_known_props rd)\<rparr>"

definition know_child :: "bytes \<Rightarrow> node_reader \<Rightarrow> node_reader" where
  "know_child name rd = rd\<lparr>rd_known_children := insort_insert name (rd_known_children rd)\<rparr>"

definition reader_prop :: "'a value_decoder \<Rightarrow> bytes \<Rightarrow> node_reader \<Rightarrow> 'a option \<times> node_reader" where
  "reader_prop dec key rd =
     (case node_prop (rd_node rd) key of
        Some v \<Rightarrow> read_value dec v (know_prop key rd)
      | None \<Rightarrow> (None, (know_prop key rd)\<lparr>rd_diags := push_error MissingField (rd_diags rd)\<rparr>))"

definition reader_opt_prop :: "'a value_decoder \<Rightarrow> bytes \<Rightarrow> node_reader \<Rightarrow> 'a option \<times> node_reader" where
  "reader_opt_prop dec key rd =
     (case node_prop (rd_node rd) key of
        Some v \<Rightarrow> read_value dec v (know_prop key rd)
      | None \<Rightarrow> (None, know_prop key rd))"

definition read_node :: "'a node_decoder \<Rightarrow> node \<Rightarrow> node_reader \<Rightarrow> 'a option \<times> node_reader" where
  "read_node dec n rd = (case dec n (rd_diags rd) of (a, ds) \<Rightarrow> (a, rd\<lparr>rd_diags := ds\<rparr>))"

definition reader_child :: "'a node_decoder \<Rightarrow> bytes \<Rightarrow> node_reader \<Rightarrow> 'a option \<times> node_reader" where
  "reader_child dec name rd =
     (case node_child (rd_node rd) name of
        Some c \<Rightarrow> read_node dec c (know_child name rd)
      | None \<Rightarrow> (None, (know_child name rd)\<lparr>rd_diags := push_error MissingField (rd_diags rd)\<rparr>))"

definition reader_opt_child :: "'a node_decoder \<Rightarrow> bytes \<Rightarrow> node_reader \<Rightarrow> 'a option \<times> node_reader" where
  "reader_opt_child dec name rd =
     (case children_named (rd_node rd) name of
        [] \<Rightarrow> (None, know_child name rd)
      | [c] \<Rightarrow> read_node dec c (know_child name rd)
      | c # _ # _ \<Rightarrow> read_node dec c ((know_child name rd)\<lparr>rd_diags := push_error Duplicate (rd_diags rd)\<rparr>))"

fun read_nodes :: "'a node_decoder \<Rightarrow> node list \<Rightarrow> node_reader \<Rightarrow> 'a list \<times> node_reader" where
  "read_nodes dec [] rd = ([], rd)"
| "read_nodes dec (c # cs) rd =
     (case read_node dec c rd of
        (a, rd) \<Rightarrow> (case read_nodes dec cs rd of (as, rd) \<Rightarrow> (case a of Some x \<Rightarrow> x # as | None \<Rightarrow> as, rd)))"

definition reader_children :: "'a node_decoder \<Rightarrow> bytes \<Rightarrow> node_reader \<Rightarrow> 'a list \<times> node_reader" where
  "reader_children dec name rd = read_nodes dec (children_named (rd_node rd) name) (know_child name rd)"

definition takes_any_children :: "node_reader \<Rightarrow> node_reader" where
  "takes_any_children rd = rd\<lparr>rd_consumed_children := True\<rparr>"

fun unknown_errors :: "diag_code \<Rightarrow> bytes \<Rightarrow> bytes list \<Rightarrow> bytes list \<Rightarrow> diagnostics \<Rightarrow> diagnostics" where
  "unknown_errors c kinds known [] ds = ds"
| "unknown_errors c kinds known (name # names) ds =
     unknown_errors c kinds known names (if name \<in> set known then ds else push_unknown c kinds known name ds)"

definition reader_finish :: "node_reader \<Rightarrow> diagnostics" where
  "reader_finish rd =
     (let n = rd_node rd;
          ds = (case rd_max_args rd of
                  Some max_args \<Rightarrow> if max_args < length (node_args n) then push_error ArgumentCount (rd_diags rd) else rd_diags rd
                | None \<Rightarrow> rd_diags rd);
          ds = unknown_errors UnknownProperty ''known properties: '' (rd_known_props rd) (map fst (node_props n)) ds in
      if rd_consumed_children rd then ds
      else unknown_errors UnknownNode ''known child nodes: '' (rd_known_children rd) (map node_name (node_children n)) ds)"

text \<open>
  A generated decoder: the reads of the fields in order, then \<open>finish\<close>, then the structure, for which a
  required field has to be there.
\<close>

definition derive_from_node :: "(node_reader \<Rightarrow> 'f \<times> node_reader) \<Rightarrow> ('f \<Rightarrow> 'a option) \<Rightarrow> 'a node_decoder" where
  "derive_from_node reads builds n ds =
     (case reads (reader_new n ds) of
        (fs, rd) \<Rightarrow>
          (let ds' = reader_finish rd in
           if error_count ds < error_count ds' then (None, ds') else (builds fs, ds')))"

subsection \<open>What a read does\<close>

text \<open>
  Every read keeps the node, only adds diagnostics and only adds known names; a read of a required field
  that gives nothing has added an error.
\<close>

definition read_ok :: "node_reader \<Rightarrow> node_reader \<Rightarrow> bool" where
  "read_ok rd rd' \<longleftrightarrow> rd_node rd' = rd_node rd \<and> error_count (rd_diags rd) \<le> error_count (rd_diags rd') \<and>
     (\<exists>new. rd_diags rd' = rd_diags rd @ new)"

lemma read_ok_refl [simp]: "read_ok rd rd"
  by (auto simp: read_ok_def)

lemma read_ok_trans: "read_ok a b \<Longrightarrow> read_ok b c \<Longrightarrow> read_ok a c"
  by (auto simp: read_ok_def)

lemma read_ok_fields [simp]:
  "read_ok rd (know_prop k rd)" "read_ok rd (know_child k rd)" "read_ok rd (takes_any_children rd)"
  "read_ok rd (rd\<lparr>rd_next_arg := n\<rparr>)" "read_ok rd (rd\<lparr>rd_max_args := m\<rparr>)"
  by (simp_all add: read_ok_def know_prop_def know_child_def takes_any_children_def)

lemma push_append: "\<exists>new. push_error c ds = ds @ new" "\<exists>new. push_help c h ds = ds @ new"
  "\<exists>new. push_unknown c k known name ds = ds @ new"
  by (auto simp: push_error_def push_help_def push_unknown_def split: option.splits)

lemma read_value_ok:
  "read_value dec v rd = (a, rd') \<Longrightarrow> read_ok rd rd' \<and> (a = None \<longrightarrow> error_count (rd_diags rd) < error_count (rd_diags rd'))"
  using push_append(1) by (auto simp: read_value_def read_ok_def split: sum.splits)

lemma reader_arg_ok:
  "reader_arg dec rd = (a, rd') \<Longrightarrow> read_ok rd rd' \<and> (a = None \<longrightarrow> error_count (rd_diags rd) < error_count (rd_diags rd'))"
  using push_append(1) by (auto simp: reader_arg_def read_ok_def dest!: read_value_ok split: if_splits)

lemma reader_opt_arg_ok: "reader_opt_arg dec rd = (a, rd') \<Longrightarrow> read_ok rd rd'"
  by (auto simp: reader_opt_arg_def read_ok_def dest!: read_value_ok split: if_splits)

lemma read_values_ok: "read_values dec vs rd = (as, rd') \<Longrightarrow> read_ok rd rd'"
proof (induction vs arbitrary: rd as)
  case (Cons v vs)
  then obtain a rd1 bs where v: "read_value dec v (rd\<lparr>rd_next_arg := rd_next_arg rd + 1\<rparr>) = (a, rd1)"
    and vs: "read_values dec vs rd1 = (bs, rd')" by (auto split: prod.splits)
  from read_value_ok [OF v] have "read_ok rd rd1" by (blast intro: read_ok_trans [OF read_ok_fields(4)])
  with Cons.IH [OF vs] show ?case by (blast intro: read_ok_trans)
qed simp

lemma reader_rest_args_ok: "reader_rest_args dec rd = (as, rd') \<Longrightarrow> read_ok rd rd'"
  by (auto simp: reader_rest_args_def split: prod.splits dest!: read_values_ok intro: read_ok_trans)

lemma reader_prop_ok:
  "reader_prop dec k rd = (a, rd') \<Longrightarrow> read_ok rd rd' \<and> (a = None \<longrightarrow> error_count (rd_diags rd) < error_count (rd_diags rd'))"
  using push_append(1) by (auto simp: reader_prop_def read_ok_def know_prop_def split: option.splits dest!: read_value_ok)

lemma reader_opt_prop_ok: "reader_opt_prop dec k rd = (a, rd') \<Longrightarrow> read_ok rd rd'"
  by (auto simp: reader_opt_prop_def read_ok_def know_prop_def split: option.splits dest!: read_value_ok)

text \<open>The contract of a decoder of nodes.\<close>

locale strict_decoder =
  fixes decode :: "'a node_decoder"
  assumes extends: "decode n ds = (r, ds') \<Longrightarrow> \<exists>new. ds' = ds @ new"
    and reports: "decode n ds = (None, ds') \<Longrightarrow> error_count ds < error_count ds'"
    and accepts: "decode n ds = (Some a, ds') \<Longrightarrow> error_count ds' = error_count ds"
begin

lemma read_node_ok:
  "read_node decode c rd = (r, rd') \<Longrightarrow> read_ok rd rd' \<and> (r = None \<longrightarrow> error_count (rd_diags rd) < error_count (rd_diags rd'))"
proof -
  assume "read_node decode c rd = (r, rd')"
  then obtain ds where d: "decode c (rd_diags rd) = (r, ds)" and rd': "rd' = rd\<lparr>rd_diags := ds\<rparr>"
    by (auto simp: read_node_def split: prod.splits)
  show ?thesis
  proof (cases r)
    case None
    with d reports [of c "rd_diags rd" ds] extends [of c "rd_diags rd" r ds] show ?thesis by (simp add: rd' read_ok_def)
  next
    case (Some a)
    with d accepts [of c "rd_diags rd" a ds] extends [of c "rd_diags rd" r ds] show ?thesis by (simp add: rd' read_ok_def)
  qed
qed

lemma read_nodes_ok: "read_nodes decode cs rd = (as, rd') \<Longrightarrow> read_ok rd rd'"
  by (induction cs arbitrary: rd as) (auto split: prod.splits dest!: read_node_ok intro: read_ok_trans)

lemma reader_children_ok: "reader_children decode k rd = (as, rd') \<Longrightarrow> read_ok rd rd'"
  unfolding reader_children_def by (blast dest: read_nodes_ok intro: read_ok_trans [OF read_ok_fields(2)])

lemma reader_child_ok:
  "reader_child decode k rd = (r, rd') \<Longrightarrow> read_ok rd rd' \<and> (r = None \<longrightarrow> error_count (rd_diags rd) < error_count (rd_diags rd'))"
  using push_append(1)
  by (auto simp: reader_child_def read_ok_def know_child_def split: option.splits dest!: read_node_ok)

lemma reader_opt_child_ok: "reader_opt_child decode k rd = (r, rd') \<Longrightarrow> read_ok rd rd'"
  using push_append(1)
  by (auto simp: reader_opt_child_def read_ok_def know_child_def push_error_def split: list.splits dest!: read_node_ok)

end

subsection \<open>Leftovers\<close>

lemma unknown_errors_ok:
  "(\<exists>new. unknown_errors c kinds known names ds = ds @ new) \<and> error_count ds \<le> error_count (unknown_errors c kinds known names ds) \<and>
   (error_count (unknown_errors c kinds known names ds) = error_count ds \<longleftrightarrow> set names \<subseteq> set known)"
proof (induction names arbitrary: ds)
  case (Cons name names)
  show ?case
  proof (cases "name \<in> set known")
    case False
    obtain new where "push_unknown c kinds known name ds = ds @ new" using push_append(3) by blast
    moreover from this have "error_count new = 1"
      using error_count_push(3) [of c kinds known name ds] by (simp del: error_count_push)
    ultimately show ?thesis using Cons.IH [of "push_unknown c kinds known name ds"] False by auto
  qed (use Cons.IH in auto)
qed simp

text \<open>The leftovers that are reported. Arguments are only counted once a positional field was read.\<close>

definition no_leftovers :: "node_reader \<Rightarrow> bool" where
  "no_leftovers rd \<longleftrightarrow>
     (case rd_max_args rd of Some m \<Rightarrow> length (node_args (rd_node rd)) \<le> m | None \<Rightarrow> True) \<and>
     fst ` set (node_props (rd_node rd)) \<subseteq> set (rd_known_props rd) \<and>
     (rd_consumed_children rd \<or> node_name ` set (node_children (rd_node rd)) \<subseteq> set (rd_known_children rd))"

lemma reader_finish_ok:
  "(\<exists>new. reader_finish rd = rd_diags rd @ new) \<and> error_count (rd_diags rd) \<le> error_count (reader_finish rd) \<and>
   (error_count (reader_finish rd) = error_count (rd_diags rd) \<longleftrightarrow> no_leftovers rd)"
proof -
  let ?args = "case rd_max_args rd of Some m \<Rightarrow> length (node_args (rd_node rd)) \<le> m | None \<Rightarrow> True"
  define d1 where "d1 = (if ?args then rd_diags rd else push_error ArgumentCount (rd_diags rd))"
  define d2 where "d2 = unknown_errors UnknownProperty ''known properties: '' (rd_known_props rd) (map fst (node_props (rd_node rd))) d1"
  define d3 where "d3 = unknown_errors UnknownNode ''known child nodes: '' (rd_known_children rd) (map node_name (node_children (rd_node rd))) d2"
  have f: "reader_finish rd = (if rd_consumed_children rd then d2 else d3)"
    by (auto simp: reader_finish_def Let_def d1_def d2_def d3_def not_less split: option.splits)
  have "(\<exists>new. d1 = rd_diags rd @ new) \<and> error_count (rd_diags rd) \<le> error_count d1 \<and>
      (error_count d1 = error_count (rd_diags rd) \<longleftrightarrow> ?args)"
    using push_append(1) by (auto simp: d1_def)
  then obtain n1 where 1: "d1 = rd_diags rd @ n1" "error_count n1 = 0 \<longleftrightarrow> ?args" by fastforce
  obtain n2 where 2: "d2 = d1 @ n2" "error_count n2 = 0 \<longleftrightarrow> fst ` set (node_props (rd_node rd)) \<subseteq> set (rd_known_props rd)"
    using unknown_errors_ok [of UnknownProperty "''known properties: ''" "rd_known_props rd" "map fst (node_props (rd_node rd))" d1]
    unfolding d2_def [symmetric] by fastforce
  obtain n3 where 3: "d3 = d2 @ n3" "error_count n3 = 0 \<longleftrightarrow> node_name ` set (node_children (rd_node rd)) \<subseteq> set (rd_known_children rd)"
    using unknown_errors_ok [of UnknownNode "''known child nodes: ''" "rd_known_children rd" "map node_name (node_children (rd_node rd))" d2]
    unfolding d3_def [symmetric] by fastforce
  show ?thesis
    unfolding f no_leftovers_def using 1 2 3 by (cases "rd_consumed_children rd") auto
qed

subsection \<open>Generated decoders are strict\<close>

text \<open>
  What a generated decoder rests on: its reads keep to the discipline of the reader, and a field that is
  missing for the structure was reported.
\<close>

definition reads_ok :: "(node_reader \<Rightarrow> 'f \<times> node_reader) \<Rightarrow> ('f \<Rightarrow> 'a option) \<Rightarrow> bool" where
  "reads_ok reads builds \<longleftrightarrow> (\<forall>rd f rd'. reads rd = (f, rd') \<longrightarrow>
     read_ok rd rd' \<and> (builds f = None \<longrightarrow> error_count (rd_diags rd) < error_count (rd_diags rd')))"

lemma derive_from_node_result:
  assumes "reads_ok reads builds" and "derive_from_node reads builds n ds = (r, ds')"
  shows "(\<exists>new. ds' = ds @ new) \<and>
    (case r of
       Some a \<Rightarrow> error_count ds' = error_count ds \<and>
         (\<exists>f rd. reads (reader_new n ds) = (f, rd) \<and> builds f = Some a \<and> rd_node rd = n \<and> no_leftovers rd)
     | None \<Rightarrow> error_count ds < error_count ds')"
proof -
  obtain f rd where run: "reads (reader_new n ds) = (f, rd)" by fastforce
  then have ok: "read_ok (reader_new n ds) rd" "builds f = None \<Longrightarrow> error_count ds < error_count (rd_diags rd)"
    using assms(1) unfolding reads_ok_def by (metis, metis node_reader.select_convs(2) reader_new_def)
  then have node: "rd_node rd = n" and grows: "error_count ds \<le> error_count (rd_diags rd)"
    and app: "\<exists>new. rd_diags rd = ds @ new" by (auto simp: read_ok_def reader_new_def)
  note fin = reader_finish_ok [of rd]
  have res: "ds' = reader_finish rd" "r = (if error_count ds < error_count ds' then None else builds f)"
    using assms(2) run by (auto simp: derive_from_node_def Let_def split: if_splits)
  have "\<exists>new. ds' = ds @ new" using fin app unfolding res(1) by auto
  moreover have "builds f \<noteq> None \<and> error_count ds' = error_count ds \<and> no_leftovers rd" if "\<not> error_count ds < error_count ds'"
    using that fin ok(2) grows unfolding res(1) by (metis le_antisym le_less_trans not_less)
  ultimately show ?thesis using run node res(2) by (auto split: option.splits if_splits)
qed


lemma strict_decoderI: "reads_ok reads builds \<Longrightarrow> strict_decoder (derive_from_node reads builds)"
  by unfold_locales (auto dest: derive_from_node_result)

text \<open>
  Arguments are only limited by a positional field: a structure without one takes a node with any
  arguments, silently.
\<close>

lemma surplus_arguments_ignored:
  "derive_from_node (\<lambda>rd. ((), rd)) Some (Node name args [] []) ds = (Some (), ds)"
  by (simp add: derive_from_node_def reader_new_def reader_finish_def)

subsection \<open>Two-stage decoders\<close>

text \<open>
  A directive decodes its fields and then checks them: a check that fails reports one error.
\<close>

definition checked_decode :: "'f node_decoder \<Rightarrow> ('f \<Rightarrow> diagnostic + 'a) \<Rightarrow> 'a node_decoder" where
  "checked_decode decode check n ds =
     (case decode n ds of
        (None, ds) \<Rightarrow> (None, ds)
      | (Some f, ds) \<Rightarrow> (case check f of Inl d \<Rightarrow> (None, ds @ [d]) | Inr a \<Rightarrow> (Some a, ds)))"

context strict_decoder
begin

lemma checked_strict:
  assumes "\<And>f d. check f = Inl d \<Longrightarrow> is_error d"
  shows "strict_decoder (checked_decode decode check)"
proof
  fix n ds r ds' assume "checked_decode decode check n ds = (r, ds')"
  then show "\<exists>new. ds' = ds @ new"
    using extends [of n ds] by (auto simp: checked_decode_def split: prod.splits option.splits sum.splits)
next
  fix n ds ds' assume run: "checked_decode decode check n ds = (None, ds')"
  obtain f d1 where d: "decode n ds = (f, d1)" by fastforce
  show "error_count ds < error_count ds'"
  proof (cases f)
    case None
    with d run reports [of n ds d1] show ?thesis by (simp add: checked_decode_def)
  next
    case (Some a)
    with d run obtain e where e: "check a = Inl e" "ds' = d1 @ [e]"
      by (auto simp: checked_decode_def split: sum.splits)
    then have "error_count [e] = 1" using assms by (simp add: error_count_def)
    with e accepts [of n ds a d1] d Some show ?thesis by simp
  qed
next
  fix n ds a ds' assume "checked_decode decode check n ds = (Some a, ds')"
  then show "error_count ds' = error_count ds"
    using accepts [of n ds] by (auto simp: checked_decode_def split: prod.splits option.splits sum.splits)
qed

end

subsection \<open>A structure with one argument\<close>

lemma reads_ok_arg: "reads_ok (reader_arg dec) (\<lambda>a. a)"
  by (auto simp: reads_ok_def dest: reader_arg_ok)


end
