(* ===== verification/Base64.thy ===== *)
theory Base64
  imports Headers
begin

text \<open>
  Canonical base64, as the \<open>basic-auth\<close> directive decodes it (\<open>base64_decode\<close> in
  \<open>gatel-bundle-std/src/basic_auth.rs\<close>): exactly the padded standard encoding of some bytes is accepted.
\<close>

definition alphabet_position :: "bytes \<Rightarrow> byte \<Rightarrow> nat option" where
  "alphabet_position alphabet b = position (\<lambda>c. c = b) alphabet"

definition base64_table :: bytes where
  "base64_table = ''ABCDEFGHIJKLMNOPQRSTUVWXYZabcdefghijklmnopqrstuvwxyz0123456789+/''"

text \<open>The loop of \<open>base64_decode\<close>: the 32-bit accumulator, the number of bits waiting in it, the output.\<close>

fun base64_loop :: "bytes \<Rightarrow> nat \<Rightarrow> nat \<Rightarrow> bytes \<Rightarrow> (nat \<times> nat \<times> bytes) option" where
  "base64_loop [] acc bits out = Some (acc, bits, out)"
| "base64_loop (b # s) acc bits out =
     Option.bind (alphabet_position base64_table b) (\<lambda>v.
       let acc = (acc * 64 + v) mod 2 ^ 32; bits = bits + 6 in
       if 8 \<le> bits then base64_loop s acc (bits - 8) (out @ [char_of (acc div 2 ^ (bits - 8) mod 256)])
       else base64_loop s acc bits out)"

definition base64_decode :: "bytes \<Rightarrow> bytes option" where
  "base64_decode input =
     (if input = [] \<or> length input mod 4 \<noteq> 0 then None
      else let unpadded = trim_end_char (CHR ''='') input; padding = length input - length unpadded in
        if 2 < padding then None
        else Option.bind (base64_loop unpadded 0 0 []) (\<lambda>(acc, bits, out).
          if bits \<noteq> padding * 2 \<or> acc mod 2 ^ bits \<noteq> 0 then None else Some out))"

subsection \<open>The table\<close>

lemma position_Some_iff: "position P xs = Some i \<longleftrightarrow> i < length xs \<and> P (xs ! i) \<and> (\<forall>j < i. \<not> P (xs ! j))"
proof (induction xs arbitrary: i)
  case (Cons x xs)
  then show ?case by (cases i) (auto simp: All_less_Suc2 split: option.splits)
qed simp

lemma table_facts: "length base64_table = 64" "distinct base64_table" "CHR ''='' \<notin> set base64_table"
  by code_simp+

lemma table_position: "alphabet_position base64_table b = Some i \<longleftrightarrow> i < 64 \<and> base64_table ! i = b"
proof -
  have "\<forall>j < i. base64_table ! j \<noteq> base64_table ! i" if "i < 64"
    using that table_facts(1,2) by (auto simp: nth_eq_iff_index_eq)
  then show ?thesis by (auto simp: alphabet_position_def position_Some_iff table_facts(1))
qed

lemma table_nth [simp]: "i < 64 \<Longrightarrow> alphabet_position base64_table (base64_table ! i) = Some i"
  by (simp add: table_position)

lemma table_no_pad [simp]: "i < 64 \<Longrightarrow> base64_table ! i \<noteq> CHR ''=''"
  using table_facts(1,3) by (metis nth_mem)

subsection \<open>The accumulator\<close>

text \<open>Only the bits that wait in the accumulator matter.\<close>

lemma div_mod_window: "x div 2 ^ k mod 256 = (x mod 2 ^ (k + 8)) div 2 ^ k" for x :: nat
  by (simp add: power_add mod_mult2_eq)

lemma acc_window:
  fixes acc acc' v :: nat
  assumes "acc mod 2 ^ bits = acc' mod 2 ^ bits" and "bits \<le> 7"
  shows "((acc * 64 + v) mod 2 ^ 32) mod 2 ^ (bits + 6) = ((acc' * 64 + v) mod 2 ^ 32) mod 2 ^ (bits + 6)"
proof -
  have dvd: "(2::nat) ^ (bits + 6) dvd 2 ^ 32" using assms(2) by (intro le_imp_power_dvd) simp
  have "(x * 64) mod 2 ^ (bits + 6) = (x mod 2 ^ bits) * 64" for x :: nat
    by (simp add: power_add mult.commute flip: mult_mod_right)
  then have "(acc * 64) mod 2 ^ (bits + 6) = (acc' * 64) mod 2 ^ (bits + 6)" using assms(1) by simp
  then have "(acc * 64 + v) mod 2 ^ (bits + 6) = (acc' * 64 + v) mod 2 ^ (bits + 6)" by (metis mod_add_left_eq)
  then show ?thesis using dvd by (simp add: mod_mod_cancel)
qed

lemma base64_loop_window:
  assumes "acc mod 2 ^ bits = acc' mod 2 ^ bits" and "bits \<le> 7"
  shows "rel_option (\<lambda>(a, b, x) (a', b', x'). b = b' \<and> x = x' \<and> a mod 2 ^ b = a' mod 2 ^ b)
    (base64_loop s acc bits out) (base64_loop s acc' bits out)"
  using assms
proof (induction s arbitrary: acc acc' bits out)
  case (Cons c s)
  show ?case
  proof (cases "alphabet_position base64_table c")
    case (Some v)
    note w = acc_window [OF Cons.prems, of v]
    show ?thesis
    proof (cases "8 \<le> bits + 6")
      case True
      define k where "k = bits - 2"
      have k: "bits + 6 = k + 8" using True by (simp add: k_def)
      have same: "((acc * 64 + v) mod 2 ^ 32) div 2 ^ k mod 256 = ((acc' * 64 + v) mod 2 ^ 32) div 2 ^ k mod 256"
        using w unfolding k div_mod_window by simp
      have "((acc * 64 + v) mod 2 ^ 32) mod 2 ^ k = ((acc' * 64 + v) mod 2 ^ 32) mod 2 ^ k"
        using arg_cong [OF w, of "\<lambda>a. a mod 2 ^ k"] unfolding k by (simp only: mod_mod_cancel [OF le_imp_power_dvd [OF le_add1]])
      from Cons.IH [OF this] Cons.prems(2) same Some True show ?thesis
        by (simp add: Let_def k_def del: char_of_mod_256)
    next
      case False
      with Cons.IH [OF w] Some show ?thesis by (simp add: Let_def)
    qed
  qed simp
qed simp

lemma base64_loop_reset:
  "rel_option (\<lambda>(a, b, x) (a', b', x'). b = b' \<and> x = x' \<and> a mod 2 ^ b = a' mod 2 ^ b)
    (base64_loop s acc 0 out) (base64_loop s 0 0 out)"
  by (rule base64_loop_window) simp_all

subsection \<open>The encoding\<close>

definition sym :: "nat \<Rightarrow> byte" where
  "sym i = base64_table ! i"

text \<open>The reference: three bytes in four symbols, a shorter rest padded.\<close>

fun base64_encode :: "bytes \<Rightarrow> bytes" where
  "base64_encode [] = []"
| "base64_encode [a] = [sym (of_char a div 4), sym (of_char a mod 4 * 16), CHR ''='', CHR ''='']"
| "base64_encode [a, b] =
     [sym (of_char a div 4), sym (of_char a mod 4 * 16 + of_char b div 16), sym (of_char b mod 16 * 4), CHR ''='']"
| "base64_encode (a # b # c # s) =
     [sym (of_char a div 4), sym (of_char a mod 4 * 16 + of_char b div 16),
      sym (of_char b mod 16 * 4 + of_char c div 64), sym (of_char c mod 64)] @ base64_encode s"

lemma sym_eq: "i < 64 \<Longrightarrow> sym i = c \<longleftrightarrow> alphabet_position base64_table c = Some i"
  by (simp add: sym_def table_position)

lemma sym_position [simp]: "i < 64 \<Longrightarrow> alphabet_position base64_table (sym i) = Some i"
  by (simp add: sym_def)

lemma position_bound: "alphabet_position base64_table c = Some v \<Longrightarrow> v < 64 \<and> c = sym v"
  by (simp add: table_position sym_def)

lemma sym_inj [simp]: "i < 64 \<Longrightarrow> j < 64 \<Longrightarrow> sym i = sym j \<longleftrightarrow> i = j"
  by (metis sym_position option.inject)

lemma sym_no_pad [simp]: "i < 64 \<Longrightarrow> sym i \<noteq> CHR ''=''" "i < 64 \<Longrightarrow> CHR ''='' \<noteq> sym i"
  by (simp_all add: sym_def table_no_pad [symmetric])

lemma of_char_bound [simp]: "of_char c < (256 :: nat)"
  by (metis of_char_mod_256 mod_less_divisor zero_less_numeral)

lemma char_eq_iff: "n < 256 \<Longrightarrow> c = char_of n \<longleftrightarrow> of_char c = n" for n :: nat
  by (metis char_of_char of_char_of mod_less)

lemma symbols_bounds [simp]:
  fixes a b c :: nat
  shows "a < 256 \<Longrightarrow> a div 4 < 64" "b < 256 \<Longrightarrow> a mod 4 * 16 + b div 16 < 64" "c < 256 \<Longrightarrow> b mod 16 * 4 + c div 64 < 64"
    "a mod 4 * 16 < 64" "b mod 16 * 4 < 64"
proof -
  have m: "a mod 4 < 4" "b mod 16 < 16" by simp_all
  show "a < 256 \<Longrightarrow> a div 4 < 64" by (simp add: less_mult_imp_div_less)
  show "a mod 4 * 16 + b div 16 < 64" if "b < 256"
    using that m less_mult_imp_div_less [of b 16 16] by linarith
  show "b mod 16 * 4 + c div 64 < 64" if "c < 256"
    using that m less_mult_imp_div_less [of c 4 64] by linarith
  show "a mod 4 * 16 < 64" "b mod 16 * 4 < 64" using m by linarith+
qed

definition final :: "bytes \<Rightarrow> nat \<Rightarrow> bytes \<Rightarrow> (nat \<times> bytes) option" where
  "final s acc out = Option.bind (base64_loop s acc 0 out) (\<lambda>(a, b, x). if a mod 2 ^ b = 0 then Some (b, x) else None)"

lemma final_reset: "final s acc out = final s 0 out"
  using base64_loop_reset [of s acc out]
  by (cases "base64_loop s acc 0 out"; cases "base64_loop s 0 0 out") (auto simp: final_def)

lemma digit_split: "0 < m \<Longrightarrow> d < m \<Longrightarrow> (q * m + d) div m = q \<and> (q * m + d) mod m = d" for q m d :: nat
  by simp

lemma scale:
  "a = q * 16 + r \<Longrightarrow> a * 16 + c = q * 256 + (r * 16 + c)" "a = q * 4 + r \<Longrightarrow> a * 64 + c = q * 256 + (r * 64 + c)" for a q r c :: nat
  by simp_all

lemma window_values:
  fixes w x y z :: nat
  assumes "w < 64" "x < 64" "y < 64" "z < 64"
  shows "(w * 64 + x) div 16 mod 256 = w * 4 + x div 16"
    "((w * 64 + x) * 64 + y) div 4 mod 256 = x mod 16 * 16 + y div 4"
    "(((w * 64 + x) * 64 + y) * 64 + z) mod 256 = y mod 4 * 64 + z"
    "(w * 64 + x) mod 2 ^ 4 = x mod 16" "((w * 64 + x) * 64 + y) mod 2 ^ 2 = y mod 4"
proof -
  have x: "x = x div 16 * 16 + x mod 16" and y: "y = y div 4 * 4 + y mod 4" by simp_all
  have small: "x div 16 < 4" "x mod 16 < 16" "y div 4 < 16" "y mod 4 < 4"
    using assms by (simp_all add: less_mult_imp_div_less)
  have e1: "w * 64 + x = (w * 4 + x div 16) * 16 + x mod 16" using x by simp
  have d1: "(w * 64 + x) div 16 = w * 4 + x div 16" "(w * 64 + x) mod 16 = x mod 16"
    unfolding e1 using digit_split [of 16 "x mod 16" "w * 4 + x div 16"] by simp_all
  have e2: "(w * 64 + x) * 64 + y = ((w * 64 + x) * 16 + y div 4) * 4 + y mod 4" using y by simp
  have d2: "((w * 64 + x) * 64 + y) div 4 = (w * 64 + x) * 16 + y div 4" "((w * 64 + x) * 64 + y) mod 4 = y mod 4"
    unfolding e2 using digit_split [of 4 "y mod 4" "(w * 64 + x) * 16 + y div 4"] by simp_all
  have e3: "(w * 64 + x) * 16 + y div 4 = (w * 4 + x div 16) * 256 + (x mod 16 * 16 + y div 4)" by (rule scale(1) [OF e1])
  have e4: "((w * 64 + x) * 64 + y) * 64 + z = ((w * 64 + x) * 16 + y div 4) * 256 + (y mod 4 * 64 + z)" by (rule scale(2) [OF e2])
  show "(w * 64 + x) div 16 mod 256 = w * 4 + x div 16" unfolding d1(1) using assms(1) small(1) by simp
  show "((w * 64 + x) * 64 + y) div 4 mod 256 = x mod 16 * 16 + y div 4"
    unfolding d2(1) e3 using small by (intro conjunct2 [OF digit_split]) simp_all
  show "(((w * 64 + x) * 64 + y) * 64 + z) mod 256 = y mod 4 * 64 + z"
    unfolding e4 using small assms(4) by (intro conjunct2 [OF digit_split]) simp_all
  show "(w * 64 + x) mod 2 ^ 4 = x mod 16" "((w * 64 + x) * 64 + y) mod 2 ^ 2 = y mod 4" using d1(2) d2(2) by simp_all
qed

lemma bits_step:
  assumes "v < 64"
  shows "base64_loop (sym v # s) acc bits out =
    (let acc = (acc * 64 + v) mod 2 ^ 32; bits = bits + 6 in
     if 8 \<le> bits then base64_loop s acc (bits - 8) (out @ [char_of (acc div 2 ^ (bits - 8) mod 256)])
     else base64_loop s acc bits out)"
  using assms by simp

lemma acc_small:
  fixes w x y z :: nat
  assumes "w < 64" "x < 64" "y < 64" "z < 64"
  shows "(0 * 64 + w) mod 2 ^ 32 = w" "(w * 64 + x) mod 2 ^ 32 = w * 64 + x"
    "((w * 64 + x) * 64 + y) mod 2 ^ 32 = (w * 64 + x) * 64 + y"
    "(((w * 64 + x) * 64 + y) * 64 + z) mod 2 ^ 32 = ((w * 64 + x) * 64 + y) * 64 + z"
  using assms by simp_all

lemma loop_two:
  assumes "w < 64" "x < 64"
  shows "base64_loop (sym w # sym x # s) 0 0 out = base64_loop s (w * 64 + x) 4 (out @ [char_of (w * 4 + x div 16)])"
  unfolding bits_step [OF assms(1)] bits_step [OF assms(2)] Let_def acc_small [OF assms assms]
  using window_values(1) [OF assms assms] by simp

lemma loop_three:
  assumes "w < 64" "x < 64" "y < 64"
  shows "base64_loop (sym w # sym x # sym y # s) 0 0 out =
    base64_loop s ((w * 64 + x) * 64 + y) 2 (out @ [char_of (w * 4 + x div 16), char_of (x mod 16 * 16 + y div 4)])"
  unfolding loop_two [OF assms(1,2)] bits_step [OF assms(3)] Let_def acc_small [OF assms assms(1)]
  using window_values(2) [OF assms assms(1)] by simp

lemma final_four:
  assumes "w < 64" "x < 64" "y < 64" "z < 64"
  shows "final (sym w # sym x # sym y # sym z # s) 0 out =
    final s 0 (out @ [char_of (w * 4 + x div 16), char_of (x mod 16 * 16 + y div 4), char_of (y mod 4 * 64 + z)])"
proof -
  have "base64_loop (sym w # sym x # sym y # sym z # s) 0 0 out = base64_loop s (((w * 64 + x) * 64 + y) * 64 + z) 0
    (out @ [char_of (w * 4 + x div 16), char_of (x mod 16 * 16 + y div 4), char_of (y mod 4 * 64 + z)])"
    unfolding loop_three [OF assms(1-3)] bits_step [OF assms(4)] Let_def acc_small [OF assms]
    using window_values(3) [OF assms] by simp
  then show ?thesis using final_reset by (simp add: final_def)
qed

lemma digits_iff: "d < m \<Longrightarrow> n = q * m + d \<longleftrightarrow> n div m = q \<and> n mod m = d" for n q m d :: nat
  by (metis digit_split div_mult_mod_eq gr_implies_not0 gr0I)

lemma group_three:
  fixes a b c w x y z :: nat
  assumes "a < 256" "b < 256" "c < 256" "w < 64" "x < 64" "y < 64" "z < 64"
  shows "a div 4 = w \<and> a mod 4 * 16 + b div 16 = x \<and> b mod 16 * 4 + c div 64 = y \<and> c mod 64 = z \<longleftrightarrow>
    a = w * 4 + x div 16 \<and> b = x mod 16 * 16 + y div 4 \<and> c = y mod 4 * 64 + z"
proof -
  have small: "b div 16 < 16" "c div 64 < 4" "x div 16 < 4" "y div 4 < 16"
    using assms by (simp_all add: less_mult_imp_div_less)
  show ?thesis
    unfolding digits_iff [OF small(3)] digits_iff [OF small(4)] digits_iff [OF assms(7)]
      eq_commute [of _ x] eq_commute [of _ y] digits_iff [OF small(1)] digits_iff [OF small(2)]
    by auto
qed

lemma unpadded_groups:
  assumes "(length u + p) mod 4 = 0" and "p \<le> 2"
  obtains "u = []" "p = 0" | w x where "u = [w, x]" "p = 2" | w x y where "u = [w, x, y]" "p = 1"
    | w x y z s where "u = w # x # y # z # s" "(length s + p) mod 4 = 0"
proof -
  from assms(2) have p: "p = 0 \<or> p = 1 \<or> p = 2" by linarith
  show thesis
  proof (cases "4 \<le> length u")
    case True
    then obtain w x y z s where u: "u = w # x # y # z # s" by (auto simp: numeral_eq_Suc Suc_le_length_iff)
    with assms(1) show thesis by (intro that(4)) simp_all
  next
    case False
    then have "length u = 0 \<or> length u = 1 \<or> length u = 2 \<or> length u = 3" by linarith
    with p assms(1) have "length u = 0 \<and> p = 0 \<or> length u = 2 \<and> p = 2 \<or> length u = 3 \<and> p = 1" by (elim disjE) simp_all
    with that(1-3) show thesis by (auto simp: numeral_eq_Suc length_Suc_conv)
  qed
qed

text \<open>The symbols of a group, as values.\<close>

lemma final_invalid:
  "alphabet_position base64_table w = None \<Longrightarrow> final (w # s) 0 out = None"
  by (simp add: final_def)

lemma final_two:
  assumes "w < 64" "x < 64"
  shows "final [sym w, sym x] 0 out = (if x mod 16 = 0 then Some (4, out @ [char_of (w * 4 + x div 16)]) else None)"
  unfolding final_def loop_two [OF assms] using window_values(4) [OF assms assms] by simp

lemma final_three:
  assumes "w < 64" "x < 64" "y < 64"
  shows "final [sym w, sym x, sym y] 0 out =
    (if y mod 4 = 0 then Some (2, out @ [char_of (w * 4 + x div 16), char_of (x mod 16 * 16 + y div 4)]) else None)"
  unfolding final_def loop_three [OF assms] using window_values(5) [OF assms assms(1)] by simp

lemma loop_symbols: "base64_loop s acc bits out = Some r \<Longrightarrow> \<exists>vs. list_all (\<lambda>v. v < 64) vs \<and> s = map sym vs"
proof (induction s arbitrary: acc bits out)
  case (Cons c s)
  then obtain v where v: "alphabet_position base64_table c = Some v" by (auto split: bind_splits)
  obtain acc' bits' out' where "base64_loop s acc' bits' out' = Some r"
    using Cons.prems v by (auto simp: Let_def split: if_splits)
  with Cons.IH obtain vs where "list_all (\<lambda>v. v < 64) vs \<and> s = map sym vs" by blast
  with position_bound [OF v] show ?case by (intro exI [of _ "v # vs"]) simp
qed simp

lemma final_symbols: "final s acc out = Some r \<Longrightarrow> \<exists>vs. list_all (\<lambda>v. v < 64) vs \<and> s = map sym vs"
  by (auto simp: final_def split: bind_splits dest: loop_symbols)

lemma base64_encode_decodes:
  "\<exists>u p. base64_encode tail = u @ replicate p (CHR ''='') \<and> CHR ''='' \<notin> set u \<and> p \<le> 2 \<and>
    (\<forall>out. final u 0 out = Some (p * 2, out @ tail))"
proof (induction tail rule: base64_encode.induct)
  case 1
  show ?case by (intro exI [of _ "[]"] exI [of _ 0]) (simp add: final_def)
next
  case (2 a)
  have "final [sym (of_char a div 4), sym (of_char a mod 4 * 16)] 0 out = Some (4, out @ [a])" for out
    by (subst final_two) simp_all
  then show ?case
    by (intro exI [of _ "[sym (of_char a div 4), sym (of_char a mod 4 * 16)]"] exI [of _ 2]) (simp add: numeral_2_eq_2)
next
  case (3 a b)
  let ?u = "[sym (of_char a div 4), sym (of_char a mod 4 * 16 + of_char b div 16), sym (of_char b mod 16 * 4)]"
  have "of_char a div 4 * 4 + (of_char a mod 4 * 16 + of_char b div 16) div 16 = (of_char a :: nat)"
    "(of_char a mod 4 * 16 + of_char b div 16) mod 16 * 16 + of_char b mod 16 * 4 div 4 = (of_char b :: nat)"
    using digit_split [of 16 "of_char b div 16 :: nat" "of_char a mod 4"] by (simp_all add: less_mult_imp_div_less)
  then have "final ?u 0 out = Some (2, out @ [a, b])" for out
    by (subst final_three) simp_all
  then show ?case by (intro exI [of _ ?u] exI [of _ 1]) simp
next
  case (4 a b c s)
  let ?g = "[sym (of_char a div 4), sym (of_char a mod 4 * 16 + of_char b div 16),
      sym (of_char b mod 16 * 4 + of_char c div 64), sym (of_char c mod 64)]"
  from 4 obtain u p where ih: "base64_encode s = u @ replicate p (CHR ''='')" "CHR ''='' \<notin> set u" "p \<le> 2"
    "\<forall>out. final u 0 out = Some (p * 2, out @ s)" by blast
  have "final (?g @ u) 0 out = final u 0 (out @ [a, b, c])" for out
    using group_three [of "of_char a" "of_char b" "of_char c" "of_char a div 4" "of_char a mod 4 * 16 + of_char b div 16"
        "of_char b mod 16 * 4 + of_char c div 64" "of_char c mod 64"]
    by (simp add: final_four del: char_of_mod_256)
  with ih show ?case by (intro exI [of _ "?g @ u"] exI [of _ p]) simp
qed

lemma base64_final_encodes:
  assumes "final u 0 out = Some (p * 2, bs)" and "(length u + p) mod 4 = 0" and "p \<le> 2"
  shows "\<exists>tail. bs = out @ tail \<and> u @ replicate p (CHR ''='') = base64_encode tail"
  using assms
proof (induction u arbitrary: out rule: length_induct)
  case (1 u)
  obtain vs where vs: "list_all (\<lambda>v. v < 64) vs" "u = map sym vs" using final_symbols [OF 1(2)] by blast
  show ?case
  proof (rule unpadded_groups [OF 1(3,4)])
    assume "u = []" "p = 0"
    with 1(2) show ?thesis by (intro exI [of _ "[]"]) (simp add: final_def)
  next
    fix c d assume u: "u = [c, d]" "p = 2"
    with vs obtain w x where b: "w < 64" "x < 64" and s: "c = sym w" "d = sym x" by auto
    have e: "x mod 16 = 0" "bs = out @ [char_of (w * 4 + x div 16)]"
      using 1(2) unfolding u s final_two [OF b] by (auto split: if_splits)
    have "x div 16 < 4" using b by (simp add: less_mult_imp_div_less)
    then have v: "w * 4 + x div 16 < 256" "(w * 4 + x div 16) div 4 = w" "(w * 4 + x div 16) mod 4 * 16 = x"
      using b e(1) digit_split [of 4 "x div 16" w] by auto
    then show ?thesis using e(2) unfolding u s
      by (intro exI [of _ "[char_of (w * 4 + x div 16)]"]) (simp add: numeral_2_eq_2)
  next
    fix c d f assume u: "u = [c, d, f]" "p = 1"
    with vs obtain w x y where b: "w < 64" "x < 64" "y < 64" and s: "c = sym w" "d = sym x" "f = sym y" by auto
    define m n where "m = w * 4 + x div 16" and "n = x mod 16 * 16 + y div 4"
    have e: "y mod 4 = 0" "bs = out @ [char_of m, char_of n]"
      using 1(2) unfolding u s final_three [OF b] m_def n_def by (auto split: if_splits)
    have "x div 16 < 4" "x mod 16 < 16" "y div 4 < 16" using b by (simp_all add: less_mult_imp_div_less)
    then have v: "m < 256" "n < 256" using b by (simp_all add: m_def n_def)
    have "m div 4 = w \<and> m mod 4 * 16 + n div 16 = x \<and> n mod 16 * 4 + 0 div 64 = y \<and> 0 mod 64 = (0 :: nat)"
      using group_three [OF v, of 0 w x y 0] b e(1) by (simp add: m_def n_def)
    then show ?thesis using e(2) v unfolding u s by (intro exI [of _ "[char_of m, char_of n]"]) simp
  next
    fix c d f g t assume u: "u = c # d # f # g # t" "(length t + p) mod 4 = 0"
    with vs obtain w x y z where b: "w < 64" "x < 64" "y < 64" "z < 64" and s: "c = sym w" "d = sym x" "f = sym y" "g = sym z" by auto
    define k m n where "k = w * 4 + x div 16" and "m = x mod 16 * 16 + y div 4" and "n = y mod 4 * 64 + z"
    have "x div 16 < 4" "x mod 16 < 16" "y div 4 < 16" "y mod 4 < 4" using b by (simp_all add: less_mult_imp_div_less)
    then have v: "k < 256" "m < 256" "n < 256" using b by (simp_all add: k_def m_def n_def)
    have step: "final t 0 (out @ [char_of k, char_of m, char_of n]) = Some (p * 2, bs)"
      using 1(2) unfolding u s final_four [OF b] k_def m_def n_def .
    have "length t < length u" by (simp add: u)
    from 1(1) [rule_format, OF this step u(2) 1(4)] obtain r where r: "bs = (out @ [char_of k, char_of m, char_of n]) @ r"
      "t @ replicate p (CHR ''='') = base64_encode r" by blast
    have "k div 4 = w \<and> k mod 4 * 16 + m div 16 = x \<and> m mod 16 * 4 + n div 64 = y \<and> n mod 64 = z"
      using group_three [OF v b] by (simp add: k_def m_def n_def)
    then show ?thesis using r v unfolding u s by (intro exI [of _ "[char_of k, char_of m, char_of n] @ r"]) simp
  qed
qed

lemma encode_length: "length (base64_encode bs) mod 4 = 0"
  by (induction bs rule: base64_encode.induct) simp_all

lemma encode_empty [simp]: "base64_encode bs = [] \<longleftrightarrow> bs = []"
  by (induction bs rule: base64_encode.induct) simp_all

lemma trim_end_append:
  "trim_end_char c s @ replicate (length s - length (trim_end_char c s)) c = s"
proof -
  define t where "t = takeWhile (\<lambda>x. x = c) (rev s)"
  have "t @ dropWhile (\<lambda>x. x = c) (rev s) = rev s" by (simp add: t_def)
  then have s: "s = trim_end_char c s @ rev t" by (metis rev_append rev_rev_ident trim_end_char_def)
  have "replicate (length t) c = t" by (rule replicate_length_same) (auto simp: t_def dest: set_takeWhileD)
  then have "rev t = replicate (length t) c" by (metis rev_replicate)
  moreover have "length t = length s - length (trim_end_char c s)" using arg_cong [OF s, of length] by simp
  ultimately show ?thesis using s by simp
qed

lemma dropWhile_replicate: "dropWhile (\<lambda>x. x = c) (replicate p c @ s) = dropWhile (\<lambda>x. x = c) s"
  by (induction p) simp_all

lemma trim_end_replicate: "c \<notin> set u \<Longrightarrow> trim_end_char c (u @ replicate p c) = u"
  by (cases u rule: rev_cases) (auto simp: trim_end_char_def dropWhile_replicate dropWhile_eq_Nil_conv)

lemma base64_decode_final:
  "base64_decode s = Some bs \<longleftrightarrow> s \<noteq> [] \<and> length s mod 4 = 0 \<and>
    (let u = trim_end_char (CHR ''='') s; p = length s - length u in p \<le> 2 \<and> final u 0 [] = Some (p * 2, bs))"
  by (auto simp: base64_decode_def final_def Let_def not_less split: bind_splits if_splits)

text \<open>
  Decoding accepts exactly the canonical encodings: an input decodes to some bytes if and only if it is
  the padded encoding of them, and there is at least one.
\<close>

lemma base64_canonical: "base64_decode s = Some bs \<longleftrightarrow> bs \<noteq> [] \<and> s = base64_encode bs"
proof
  assume d: "base64_decode s = Some bs"
  define u p where "u = trim_end_char (CHR ''='') s" and "p = length s - length u"
  have s: "s = u @ replicate p (CHR ''='')" unfolding u_def p_def by (rule trim_end_append [symmetric])
  have f: "s \<noteq> []" "length s mod 4 = 0" "p \<le> 2" "final u 0 [] = Some (p * 2, bs)"
    using d by (simp_all add: base64_decode_final Let_def u_def p_def)
  have "(length u + p) mod 4 = 0" using f(2) arg_cong [OF s, of length] by simp
  with base64_final_encodes [OF f(4) _ f(3)] s have "s = base64_encode bs" by auto
  with f(1) show "bs \<noteq> [] \<and> s = base64_encode bs" by auto
next
  assume e: "bs \<noteq> [] \<and> s = base64_encode bs"
  obtain u p where up: "base64_encode bs = u @ replicate p (CHR ''='')" "CHR ''='' \<notin> set u" "p \<le> 2"
    "\<forall>out. final u 0 out = Some (p * 2, out @ bs)" using base64_encode_decodes by blast
  have "trim_end_char (CHR ''='') s = u" using e up trim_end_replicate by metis
  moreover have "length s - length u = p" "s \<noteq> []" using e up(1) by (simp, metis encode_empty)
  ultimately show "base64_decode s = Some bs" using up(3,4) e encode_length [of bs] by (simp add: base64_decode_final Let_def)
qed

end
