(* ===== verification/Guards.thy ===== *)
theory Guards
  imports Node_Reader Headers Routing Upstreams Identity Base64
begin

unbundle bit_operations_syntax

text \<open>
  Middleware of the standard bundle (\<open>gatel-bundle-std/src\<close>): guards by address (\<open>ip_filter.rs\<close>), by password
  (\<open>basic_auth.rs\<close>) and by another service (\<open>forward_auth.rs\<close>), limits on bodies (\<open>body_limit.rs\<close>) and
  cross-origin answers (\<open>cors.rs\<close>). Each directive has its decoder, what it feeds the fingerprint and its
  handler.

  A handler is a function of the rest of the chain, \<open>call_next\<close>, and of the visit: the request, what the
  dispatcher put into the depot, and the response so far. Calling \<open>skip_rest\<close> is not calling the rest.
  What reading the request body yields is the list of its frames. Code outside the repository is an
  argument: the \<open>http\<close> crate, the password verification, the service that authorises.
\<close>

subsection \<open>Visits and chains\<close>

record http_uri =
  uri_authority :: "bytes option"
  uri_path :: bytes
  uri_query :: "bytes option"
  uri_path_and_query :: "bytes option"

datatype req_frame = ReqData bytes | ReqTrailers | ReqFailed | ReqTooLarge nat

datatype header_op = OpSet bytes bytes | OpAdd bytes bytes | OpRemove bytes

record visit =
  vs_method :: bytes
  vs_uri :: http_uri
  vs_headers :: header_map
  vs_body :: "req_frame list"
  vs_client_ip :: "ip_addr option"
  vs_tls :: bool
  vs_generated :: bool
  vs_request_id :: "bytes option"
  vs_body_limit :: "nat option"
  vs_preview :: "header_op list list"
  vs_status :: "nat option"
  vs_out_headers :: header_map
  vs_out_body :: "bytes option"

type_synonym handler = "(visit \<Rightarrow> visit) \<Rightarrow> visit \<Rightarrow> visit"

definition write_body :: "bytes \<Rightarrow> visit \<Rightarrow> visit" where
  "write_body b v = v\<lparr>vs_out_body := Some ((case vs_out_body v of Some c \<Rightarrow> c | None \<Rightarrow> []) @ b)\<rparr>"

definition generated :: "visit \<Rightarrow> visit" where
  "generated v = v\<lparr>vs_generated := True\<rparr>"

definition put_header :: "bytes \<Rightarrow> bytes \<Rightarrow> visit \<Rightarrow> visit" where
  "put_header name x v = v\<lparr>vs_out_headers := insert_header name x (vs_out_headers v)\<rparr>"

text \<open>A refusal of the gateway's own: a status and a line of text.\<close>

definition refuse :: "nat \<Rightarrow> bytes \<Rightarrow> visit \<Rightarrow> visit" where
  "refuse status line v = write_body line ((generated v)\<lparr>vs_status := Some status\<rparr>)"

definition visit_authority :: "http_crate \<Rightarrow> visit \<Rightarrow> bytes option" where
  "visit_authority http v =
     (case uri_authority (vs_uri v) of
        Some a \<Rightarrow> Some a
      | None \<Rightarrow>
          (case Option.bind (get_header ''host'' (vs_headers v)) (value_str http) of
             None \<Rightarrow> None
           | Some h \<Rightarrow> if trim h = [] then None else Some (trim h)))"

fun run_chain :: "handler list \<Rightarrow> (visit \<Rightarrow> visit) \<Rightarrow> visit \<Rightarrow> visit" where
  "run_chain [] terminal = terminal"
| "run_chain (h # hs) terminal = h (run_chain hs terminal)"

text \<open>
  The contract of a guard: what it admits goes on exactly once, with the request it hands on, and what
  comes back may be amended; what it does not admit is answered without the rest of the chain.
\<close>

record guard_spec =
  gd_admits :: "visit \<Rightarrow> bool"
  gd_before :: "visit \<Rightarrow> visit"
  gd_after :: "visit \<Rightarrow> visit \<Rightarrow> visit"
  gd_refusal :: "visit \<Rightarrow> visit"

text \<open>What no guard changes: who the client is, how it connected and what it asked for.\<close>

definition same_client :: "visit \<Rightarrow> visit \<Rightarrow> bool" where
  "same_client v u \<longleftrightarrow> vs_client_ip u = vs_client_ip v \<and> vs_tls u = vs_tls v \<and> vs_method u = vs_method v \<and> vs_uri u = vs_uri v"

locale guard_handler =
  fixes handle :: handler and g :: guard_spec
  assumes law: "handle rest v = (if gd_admits g v then gd_after g v (rest (gd_before g v)) else gd_refusal g v)"
    and keeps: "same_client v (gd_before g v)"
begin

lemma refused: "\<not> gd_admits g v \<Longrightarrow> run_chain (handle # hs) t v = gd_refusal g v"
  by (simp add: law)

lemma admitted: "gd_admits g v \<Longrightarrow> run_chain (handle # hs) t v = gd_after g v (run_chain hs t (gd_before g v))"
  by (simp add: law)

end

subsection \<open>\<open>ip-filter\<close>\<close>

record network =
  nw_address :: ip_addr
  nw_prefix :: nat

definition network_contains :: "network \<Rightarrow> ip_addr \<Rightarrow> bool" where
  "network_contains n ip =
     (case (ip, nw_address n) of
        (V4 a, V4 b) \<Rightarrow> masked a (nw_prefix n) = masked b (nw_prefix n)
      | (V6 a, V6 b) \<Rightarrow> masked a (nw_prefix n) = masked b (nw_prefix n)
      | _ \<Rightarrow> False)"

definition network_describe :: "network \<Rightarrow> bytes" where
  "network_describe n = show_ip (nw_address n) @ ''/'' @ show_nat (nw_prefix n)"

record ip_filter =
  if_allow :: "network list"
  if_deny :: "network list"

definition ip_filter_hash :: "digest \<Rightarrow> ip_filter \<Rightarrow> hasher \<Rightarrow> hasher" where
  "ip_filter_hash digest f h =
     update_unordered digest (if_deny f) (\<lambda>n. update_str (network_describe n))
       (update_unordered digest (if_allow f) (\<lambda>n. update_str (network_describe n)) h)"

definition ip_filter_describe :: "ip_filter \<Rightarrow> bytes" where
  "ip_filter_describe f =
     ''ip-filter allow '' @ show_nat (length (if_allow f)) @ '' deny '' @ show_nat (length (if_deny f))"

fun read_networks :: "bytes list \<Rightarrow> diagnostics \<Rightarrow> network list \<times> diagnostics" where
  "read_networks [] ds = ([], ds)"
| "read_networks (entry # es) ds =
     (case parse_cidr (trim entry) of
        Inr (address, prefix) \<Rightarrow>
          (case read_networks es ds of (ns, ds) \<Rightarrow> (\<lparr>nw_address = address, nw_prefix = prefix\<rparr> # ns, ds))
      | Inl _ \<Rightarrow> read_networks es (push_error InvalidValue ds))"

text \<open>An error with the nearest of some spellings as its help, or none.\<close>

definition push_suggested :: "diag_code \<Rightarrow> bytes \<Rightarrow> bytes list \<Rightarrow> diagnostics \<Rightarrow> diagnostics" where
  "push_suggested c name known ds =
     (case did_you_mean name known of Some s \<Rightarrow> push_help c (suggestion_text s) ds | None \<Rightarrow> push_error c ds)"

fun ip_filter_props :: "property list \<Rightarrow> ip_filter \<Rightarrow> diagnostics \<Rightarrow> ip_filter \<times> diagnostics" where
  "ip_filter_props [] f ds = (f, ds)"
| "ip_filter_props ((name, v) # ps) f ds =
     (if name \<noteq> ''allow'' \<and> name \<noteq> ''deny'' then
        ip_filter_props ps f (push_suggested UnknownProperty name [''allow'', ''deny''] ds)
      else case as_str v of
        None \<Rightarrow> ip_filter_props ps f (push_error InvalidValue ds)
      | Some raw \<Rightarrow>
          (case read_networks (split_at (CHR 0x2C) raw) ds of
             (ns, ds) \<Rightarrow>
               ip_filter_props ps
                 (if name = ''allow'' then f\<lparr>if_allow := if_allow f @ ns\<rparr> else f\<lparr>if_deny := if_deny f @ ns\<rparr>) ds))"

definition ip_filter_decode :: "ip_filter node_decoder" where
  "ip_filter_decode n ds =
     (case ip_filter_props (node_props n) \<lparr>if_allow = [], if_deny = []\<rparr> ds of
        (f, ds1) \<Rightarrow>
          let ds2 = (if if_allow f = [] \<and> if_deny f = [] \<and> error_count ds1 = error_count ds
                     then push_help MissingField ''an empty filter would either block everything or nothing, silently'' ds1
                     else ds1);
              ds3 = (if node_args n \<noteq> [] then push_error ArgumentCount ds2 else ds2) in
          if error_count ds < error_count ds3 then (None, ds3) else (Some f, ds3))"

definition ip_permits :: "ip_filter \<Rightarrow> ip_addr \<Rightarrow> bool" where
  "ip_permits f ip =
     (if list_ex (\<lambda>n. network_contains n ip) (if_deny f) then False
      else if_allow f = [] \<or> list_ex (\<lambda>n. network_contains n ip) (if_allow f))"

definition ip_filter_admits :: "ip_filter \<Rightarrow> visit \<Rightarrow> bool" where
  "ip_filter_admits f v = (case vs_client_ip v of Some ip \<Rightarrow> ip_permits f ip | None \<Rightarrow> False)"

definition ip_filter_handle :: "ip_filter \<Rightarrow> handler" where
  "ip_filter_handle f rest v =
     (if ip_filter_admits f v then rest v else refuse 403 (''403 forbidden'' @ [CHR 0x0A]) v)"

subsection \<open>\<open>body-limit\<close>\<close>

definition body_limit_decode :: "nat node_decoder" where
  "body_limit_decode =
     checked_decode (derive_from_node (reader_arg size_from_value) (\<lambda>a. a))
       (\<lambda>m. if m = 0 then Inl (diag_error InvalidValue) else Inr m)"

definition body_limit_hash :: "nat \<Rightarrow> hasher \<Rightarrow> hasher" where
  "body_limit_hash m = update_u64 m"

definition body_limit_describe :: "nat \<Rightarrow> bytes" where
  "body_limit_describe m = ''body-limit '' @ show_size m"

definition limit_declared :: "http_crate \<Rightarrow> visit \<Rightarrow> nat option" where
  "limit_declared http v =
     Option.bind (Option.bind (get_header ''content-length'' (vs_headers v)) (value_str http))
       (\<lambda>t. parse_unsigned u64_max (trim t))"

text \<open>\<open>Limited\<close>: what reading the limited body yields, given how much of it was seen.\<close>

fun limited_frames :: "nat \<Rightarrow> nat \<Rightarrow> req_frame list \<Rightarrow> req_frame list" where
  "limited_frames max_size seen [] = []"
| "limited_frames max_size seen (ReqData d # fs) =
     (if max_size - seen < length d then [ReqTooLarge max_size]
      else ReqData d # limited_frames max_size (seen + length d) fs)"
| "limited_frames max_size seen (ReqTrailers # fs) = ReqTrailers # limited_frames max_size seen fs"
| "limited_frames max_size seen (e # fs) = [e]"

text \<open>\<open>RequestBodyLimit::install\<close>: the smallest limit on the way in is the one that holds.\<close>

definition install_limit :: "nat \<Rightarrow> visit \<Rightarrow> visit" where
  "install_limit m v =
     v\<lparr>vs_body_limit := Some (case vs_body_limit v of Some existing \<Rightarrow> min existing m | None \<Rightarrow> m)\<rparr>"

definition body_limit_admits :: "http_crate \<Rightarrow> nat \<Rightarrow> visit \<Rightarrow> bool" where
  "body_limit_admits http m v = (case limit_declared http v of Some declared \<Rightarrow> declared \<le> m | None \<Rightarrow> True)"

definition body_limit_handle :: "http_crate \<Rightarrow> nat \<Rightarrow> handler" where
  "body_limit_handle http m rest v =
     (let v = install_limit m v in
      case limit_declared http v of
        Some declared \<Rightarrow>
          if m < declared then
            refuse 413 (''413 request body of '' @ show_nat declared @ '' bytes is larger than the '' @
              show_nat m @ '' byte limit'' @ [CHR 0x0A]) v
          else rest (v\<lparr>vs_body := limited_frames m 0 (vs_body v)\<rparr>)
      | None \<Rightarrow> rest (v\<lparr>vs_body := limited_frames m 0 (vs_body v)\<rparr>))"

subsection \<open>\<open>cors\<close>\<close>

datatype origins = AnyOrigin | ExactOrigins "bytes list"

fun origins_allow :: "origins \<Rightarrow> bytes \<Rightarrow> bool" where
  "origins_allow AnyOrigin x = True"
| "origins_allow (ExactOrigins os) x = list_ex (\<lambda>known. known = x) os"

record cors_fields =
  cf_origins :: "bytes list"
  cf_methods :: "bytes option"
  cf_headers :: "bytes option"
  cf_expose :: "bytes option"
  cf_credentials :: bool
  cf_max_age :: "nat option"

record cors_config =
  co_origins :: origins
  co_methods :: bytes
  co_headers :: "bytes option"
  co_expose :: "bytes option"
  co_credentials :: bool
  co_max_age :: "nat option"

definition cors_origin_node :: "bytes node_decoder" where
  "cors_origin_node = derive_from_node (reader_arg string_from_value) (\<lambda>a. a)"

definition cors_reads :: "node_reader \<Rightarrow> (bytes list \<times> bytes option \<times> bytes option \<times> bytes option \<times> bool option \<times> nat option) \<times> node_reader" where
  "cors_reads rd =
     (case reader_children cors_origin_node ''origin'' rd of (os, rd) \<Rightarrow>
      case reader_opt_prop string_from_value ''methods'' rd of (ms, rd) \<Rightarrow>
      case reader_opt_prop string_from_value ''headers'' rd of (hs, rd) \<Rightarrow>
      case reader_opt_prop string_from_value ''expose'' rd of (ex, rd) \<Rightarrow>
      case reader_opt_prop bool_from_value ''credentials'' rd of (cr, rd) \<Rightarrow>
      case reader_opt_prop duration_from_value ''max-age'' rd of (age, rd) \<Rightarrow>
        ((os, ms, hs, ex, cr, age), rd))"

definition cors_fields_of :: "bytes list \<times> bytes option \<times> bytes option \<times> bytes option \<times> bool option \<times> nat option \<Rightarrow> cors_fields option" where
  "cors_fields_of f =
     (case f of (os, ms, hs, ex, cr, age) \<Rightarrow>
       Some \<lparr>cf_origins = os, cf_methods = ms, cf_headers = hs, cf_expose = ex,
         cf_credentials = (case cr of Some b \<Rightarrow> b | None \<Rightarrow> False), cf_max_age = age\<rparr>)"

text \<open>\<open>normalise\<close>: a comma-separated list, written the way a header carries it.\<close>

definition cors_normalise :: "bytes \<Rightarrow> bytes" where
  "cors_normalise list = join '', '' (filter (\<lambda>e. e \<noteq> []) (map trim (split_at (CHR 0x2C) list)))"

definition cors_default_methods :: bytes where
  "cors_default_methods = ''GET, HEAD, POST''"

definition with_help :: "diag_code \<Rightarrow> bytes \<Rightarrow> diagnostic" where
  "with_help c help = (diag_error c)\<lparr>diag_help := Some help\<rparr>"

fun check_origins :: "bytes list \<Rightarrow> diagnostic + unit" where
  "check_origins [] = Inr ()"
| "check_origins (x # os) =
     (if x \<noteq> ''*'' \<and> \<not> starts_with ''http://'' x \<and> \<not> starts_with ''https://'' x then
        Inl (with_help InvalidValue ''an origin is a scheme, a host and an optional port, and nothing else'')
      else if 2 < length (filter (\<lambda>c. c = CHR ''/'') x) then
        Inl (with_help InvalidValue ''a browser sends only the scheme, host and port'')
      else check_origins os)"

definition cors_check :: "cors_fields \<Rightarrow> diagnostic + cors_config" where
  "cors_check f =
     (let os = cf_origins f; any = list_ex (\<lambda>x. x = ''*'') os in
      if os = [] then
        Inl (with_help MissingField (''`origin '' @ [CHR 0x22] @ ''https://app.example.com'' @ [CHR 0x22] @ ''`, or `origin '' @
          [CHR 0x22] @ ''*'' @ [CHR 0x22] @ ''` for any''))
      else if any \<and> 1 < length os then Inl (with_help InvalidValue ''list the origins, or list only `*`'')
      else if any \<and> cf_credentials f then Inl (with_help InvalidValue ''name the origins that may send credentials'')
      else and_then (check_origins os) (\<lambda>_.
        Inr \<lparr>co_origins = (if any then AnyOrigin else ExactOrigins os),
             co_methods = (case cf_methods f of Some m \<Rightarrow> cors_normalise m | None \<Rightarrow> cors_default_methods),
             co_headers = map_option cors_normalise (cf_headers f),
             co_expose = map_option cors_normalise (cf_expose f),
             co_credentials = cf_credentials f, co_max_age = cf_max_age f\<rparr>))"

definition cors_decode :: "cors_config node_decoder" where
  "cors_decode = checked_decode (derive_from_node cors_reads cors_fields_of) cors_check"

text \<open>Durations are in milliseconds here and in nanoseconds in the fingerprint.\<close>

definition cors_hash :: "digest \<Rightarrow> cors_config \<Rightarrow> hasher \<Rightarrow> hasher" where
  "cors_hash digest c h =
     (let h = (case co_origins c of
                 AnyOrigin \<Rightarrow> update_str ''*'' h
               | ExactOrigins os \<Rightarrow> update_ordered digest os update_str h);
          h = update_bool (co_credentials c)
                (update_opt_str (co_expose c) (update_opt_str (co_headers c) (update_str (co_methods c) h))) in
      case co_max_age c of Some age \<Rightarrow> update_duration (age * 1000000) h | None \<Rightarrow> update_none h)"

record cors_handler =
  cr_origins :: origins
  cr_methods :: bytes
  cr_headers :: "bytes option"
  cr_expose :: "bytes option"
  cr_credentials :: bool
  cr_max_age :: "bytes option"

definition opt_value :: "http_crate \<Rightarrow> bytes option \<Rightarrow> bytes option option" where
  "opt_value http t = (case t of None \<Rightarrow> Some None | Some t \<Rightarrow> map_option Some (value_of http t))"

definition cors_build :: "http_crate \<Rightarrow> cors_config \<Rightarrow> cors_handler option" where
  "cors_build http c =
     Option.bind (value_of http (co_methods c)) (\<lambda>ms.
     Option.bind (opt_value http (co_headers c)) (\<lambda>hs.
     Option.bind (opt_value http (co_expose c)) (\<lambda>ex.
     Option.bind (opt_value http (map_option (\<lambda>age. show_nat (age div 1000)) (co_max_age c))) (\<lambda>age.
       Some \<lparr>cr_origins = co_origins c, cr_methods = ms, cr_headers = hs, cr_expose = ex,
             cr_credentials = co_credentials c, cr_max_age = age\<rparr>))))"

definition cors_allow :: "http_crate \<Rightarrow> cors_handler \<Rightarrow> bytes \<Rightarrow> bytes option" where
  "cors_allow http c x =
     (if \<not> origins_allow (cr_origins c) x then None
      else if cr_origins c = AnyOrigin \<and> \<not> cr_credentials c then Some ''*''
      else value_of http x)"

definition cors_common :: "cors_handler \<Rightarrow> bytes \<Rightarrow> visit \<Rightarrow> visit" where
  "cors_common c allow v =
     (let v = put_header ''access-control-allow-origin'' allow v in
      if cr_credentials c then put_header ''access-control-allow-credentials'' ''true'' v else v)"

definition set_opt :: "bytes \<Rightarrow> bytes option \<Rightarrow> visit \<Rightarrow> visit" where
  "set_opt name x v = (case x of Some y \<Rightarrow> put_header name y v | None \<Rightarrow> v)"

definition visit_vary :: "http_crate \<Rightarrow> bytes \<Rightarrow> visit \<Rightarrow> visit" where
  "visit_vary http name v = v\<lparr>vs_out_headers := vary_append http (vs_out_headers v) name\<rparr>"

definition cors_preflight :: "visit \<Rightarrow> bool" where
  "cors_preflight v \<longleftrightarrow> vs_method v = ''OPTIONS'' \<and> contains_key ''access-control-request-method'' (vs_headers v)"

definition cors_request_origin :: "http_crate \<Rightarrow> visit \<Rightarrow> bytes option" where
  "cors_request_origin http v = Option.bind (get_header ''origin'' (vs_headers v)) (value_str http)"

definition cors_handle :: "http_crate \<Rightarrow> cors_handler \<Rightarrow> handler" where
  "cors_handle http c rest v =
     (let allow = Option.bind (cors_request_origin http v) (cors_allow http c);
          preflight = cors_preflight v;
          v = visit_vary http ''origin'' v in
      if preflight then
        let v = visit_vary http ''access-control-request-headers'' (visit_vary http ''access-control-request-method'' v);
            v = (case allow of
                   Some a \<Rightarrow>
                     set_opt ''access-control-max-age'' (cr_max_age c) (set_opt ''access-control-allow-headers'' (cr_headers c)
                       (put_header ''access-control-allow-methods'' (cr_methods c) (cors_common c a v)))
                 | None \<Rightarrow> v) in
        v\<lparr>vs_status := Some 204\<rparr>
      else
        let v = rest v in
        (case allow of Some a \<Rightarrow> set_opt ''access-control-expose-headers'' (cr_expose c) (cors_common c a v) | None \<Rightarrow> v))"

subsection \<open>Passwords\<close>

text \<open>\<open>gatel-password/src\<close>, in the build with bcrypt only; the bcrypt computation is a parameter.\<close>

definition bcrypt_alphabet :: bytes where
  "bcrypt_alphabet = ''./ABCDEFGHIJKLMNOPQRSTUVWXYZabcdefghijklmnopqrstuvwxyz0123456789''"

definition canonical_digit :: "nat \<Rightarrow> byte \<Rightarrow> bool" where
  "canonical_digit k b = (case alphabet_position bcrypt_alphabet b of Some p \<Rightarrow> p mod k = 0 | None \<Rightarrow> False)"

definition bcrypt_valid :: "bytes \<Rightarrow> bool" where
  "bcrypt_valid hash =
     (if length hash \<noteq> 60 \<or> take 4 hash \<notin> {''$2a$'', ''$2b$'', ''$2y$''} \<or> hash ! 6 \<noteq> CHR ''$'' then False
      else case parse_unsigned u32_max (take 2 (drop 4 hash)) of
        None \<Rightarrow> False
      | Some cost \<Rightarrow>
          if cost < 4 \<or> 16 < cost \<or> \<not> list_all is_ascii_digit (take 2 (drop 4 hash)) then False
          else if \<not> list_all (\<lambda>b. b \<in> set bcrypt_alphabet) (drop 7 hash) then False
          else canonical_digit 16 (hash ! 28) \<and> canonical_digit 4 (hash ! 59))"

record credential =
  cd_memory_bytes :: nat
  cd_encoded :: bytes

definition credential_parse :: "bytes \<Rightarrow> credential option" where
  "credential_parse encoded =
     (if bcrypt_valid encoded then Some \<lparr>cd_memory_bytes = 8192, cd_encoded = encoded\<rparr> else None)"

definition credential_verify :: "(bytes \<Rightarrow> bytes \<Rightarrow> bool) \<Rightarrow> credential \<Rightarrow> bytes \<Rightarrow> bool" where
  "credential_verify bcrypt c password \<longleftrightarrow> length password \<le> 72 \<and> bcrypt password (cd_encoded c)"

subsection \<open>\<open>basic-auth\<close>\<close>

record auth_user =
  au_name :: bytes
  au_hash :: secret_ref

record basic_auth =
  ba_realm :: bytes
  ba_users :: "auth_user list"

definition basic_auth_hash :: "digest \<Rightarrow> basic_auth \<Rightarrow> hasher \<Rightarrow> hasher" where
  "basic_auth_hash digest c h =
     update_unordered digest (ba_users c) (\<lambda>u i. secret_hash_into (au_hash u) (update_str (au_name u) i))
       (update_str (ba_realm c) (update_str ''bcrypt'' (update_str ''gatel-basic-auth-v4'' h)))"

definition looks_like_bcrypt :: "bytes \<Rightarrow> bool" where
  "looks_like_bcrypt s =
     (let v = trim s in
      59 \<le> length v \<and> (starts_with ''$2a$'' v \<or> starts_with ''$2b$'' v \<or> starts_with ''$2y$'' v))"

definition user_name_bad :: "bytes \<Rightarrow> bool" where
  "user_name_bad name \<longleftrightarrow>
     name = [] \<or> 256 < length name \<or> list_ex (\<lambda>b. b \<in> set name) [CHR 0x3A, CHR 0x0D, CHR 0x0A, CHR 0x00]"

text \<open>One child node: the user it adds, or what is reported.\<close>

definition read_user :: "auth_user list \<Rightarrow> node \<Rightarrow> (diagnostics \<Rightarrow> diagnostics) + auth_user" where
  "read_user users c =
     (if node_name c \<noteq> ''user'' then Inl (push_suggested UnknownNode (node_name c) [''user''])
      else case Option.bind (case node_args c of [] \<Rightarrow> None | v # _ \<Rightarrow> Some v) as_str of
        None \<Rightarrow> Inl (push_error ArgumentCount)
      | Some name \<Rightarrow>
          if user_name_bad name then Inl (push_error InvalidValue)
          else case Option.bind (node_prop c ''hash'') as_str of
            None \<Rightarrow> Inl (push_help MissingField (''`hash='' @ [CHR 0x22] @ ''env:NAME'' @ [CHR 0x22] @ ''` or `hash='' @
                          [CHR 0x22] @ ''file:secrets/name.hash'' @ [CHR 0x22] @ ''`''))
          | Some raw \<Rightarrow>
              (case secret_parse raw of
                 Inl _ \<Rightarrow> Inl (push_error InvalidSecret)
               | Inr reference \<Rightarrow>
                   if starts_with ''$'' raw \<or> looks_like_bcrypt raw then
                     Inl (push_help InvalidSecret ''put it in a file or an environment variable and reference it'')
                   else if list_ex (\<lambda>u. au_name u = name) users then Inl (push_error Duplicate)
                   else Inr \<lparr>au_name = name, au_hash = reference\<rparr>))"

fun read_users :: "node list \<Rightarrow> auth_user list \<Rightarrow> diagnostics \<Rightarrow> auth_user list \<times> diagnostics" where
  "read_users [] users ds = (users, ds)"
| "read_users (c # cs) users ds =
     (case read_user users c of
        Inl report \<Rightarrow> read_users cs users (report ds)
      | Inr u \<Rightarrow> read_users cs (users @ [u]) ds)"

definition read_realm :: "node \<Rightarrow> bytes option" where
  "read_realm n =
     (case node_prop n ''realm'' of
        None \<Rightarrow> Some ''restricted''
      | Some v \<Rightarrow> (case as_str v of Some realm \<Rightarrow> if CHR 0x22 \<in> set realm then None else Some realm | None \<Rightarrow> None))"

fun push_each :: "diag_code \<Rightarrow> 'a list \<Rightarrow> diagnostics \<Rightarrow> diagnostics" where
  "push_each c [] ds = ds"
| "push_each c (x # xs) ds = push_each c xs (push_error c ds)"

definition basic_auth_decode :: "basic_auth node_decoder" where
  "basic_auth_decode n ds =
     (if 1024 < length (node_children n) then (None, push_error InvalidValue ds)
      else case read_realm n of
        None \<Rightarrow> (None, push_error InvalidValue ds)
      | Some realm \<Rightarrow>
          (case read_users (node_children n) [] (push_each UnknownProperty (filter (\<lambda>p. fst p \<noteq> ''realm'') (node_props n)) ds) of
             (users, ds1) \<Rightarrow>
               let ds2 = (if users = [] \<and> error_count ds1 = error_count ds
                          then push_help MissingField ''with no users it would refuse everyone, which `respond status=403` says better'' ds1
                          else ds1) in
               if error_count ds < error_count ds2 then (None, ds2)
               else (Some \<lparr>ba_realm = realm, ba_users = users\<rparr>, ds2)))"

record auth_handler =
  ah_users :: "(bytes \<times> credential) list"
  ah_challenge :: bytes

text \<open>\<open>build\<close>: the hashes are read with \<open>secret\<close> while a candidate is prepared.\<close>

fun build_users :: "(secret_ref \<Rightarrow> bytes option) \<Rightarrow> auth_user list \<Rightarrow> (bytes \<times> credential) list option" where
  "build_users secret [] = Some []"
| "build_users secret (u # us) =
     Option.bind (Option.bind (secret (au_hash u)) credential_parse) (\<lambda>c.
       map_option ((#) (au_name u, c)) (build_users secret us))"

definition basic_auth_build :: "http_crate \<Rightarrow> (secret_ref \<Rightarrow> bytes option) \<Rightarrow> basic_auth \<Rightarrow> auth_handler option" where
  "basic_auth_build http secret c =
     Option.bind (build_users secret (ba_users c)) (\<lambda>users.
     Option.bind (value_of http (''Basic realm='' @ [CHR 0x22] @ ba_realm c @ [CHR 0x22] @ '', charset='' @
         [CHR 0x22] @ ''UTF-8'' @ [CHR 0x22])) (\<lambda>challenge.
       Some \<lparr>ah_users = users, ah_challenge = challenge\<rparr>))"

definition basic_credentials :: "http_crate \<Rightarrow> visit \<Rightarrow> (bytes \<times> bytes) option" where
  "basic_credentials http v =
     (case get_all ''authorization'' (vs_headers v) of
        [x] \<Rightarrow>
          Option.bind (value_str http x) (\<lambda>header.
          Option.bind (split_once (CHR '' '') header) (\<lambda>(scheme, encoded).
            if \<not> eq_ignore_ascii_case scheme ''Basic'' then None
            else if 1024 < length encoded then None
            else Option.bind (base64_decode (trim encoded)) (\<lambda>text.
              if \<not> utf8_valid text then None
              else Option.bind (split_once (CHR 0x3A) text) (\<lambda>(name, password).
                if name = [] \<or> 256 < length name \<or> 256 < length password \<or>
                   list_ex (\<lambda>b. b \<in> set text) [CHR 0x0D, CHR 0x0A, CHR 0x00] then None
                else Some (name, password)))))
      | _ \<Rightarrow> None)"

definition constant_time_eq :: "bytes \<Rightarrow> bytes \<Rightarrow> bool" where
  "constant_time_eq a b =
     (if length a \<noteq> length b then False
      else foldl (\<lambda>d (l, r). d OR (code l XOR code r)) 0 (zip a b) = 0)"

definition authenticate :: "http_crate \<Rightarrow> (bytes \<Rightarrow> bytes \<Rightarrow> bool) \<Rightarrow> bool \<Rightarrow> auth_handler \<Rightarrow> visit \<Rightarrow> bool option" where
  "authenticate http bcrypt capacity a v =
     (case basic_credentials http v of
        None \<Rightarrow> Some False
      | Some (name, password) \<Rightarrow>
          (let selected = position (\<lambda>u. constant_time_eq (fst u) name) (ah_users a);
               i = (case selected of Some i \<Rightarrow> i | None \<Rightarrow> 0) in
           if length (ah_users a) \<le> i then Some False
           else if \<not> capacity then None
           else Some (selected \<noteq> None \<and> credential_verify bcrypt (snd (ah_users a ! i)) password)))"

definition basic_auth_handle :: "http_crate \<Rightarrow> (bytes \<Rightarrow> bytes \<Rightarrow> bool) \<Rightarrow> bool \<Rightarrow> auth_handler \<Rightarrow> handler" where
  "basic_auth_handle http bcrypt capacity a rest v =
     (case authenticate http bcrypt capacity a v of
        None \<Rightarrow> refuse 503 (''503 authentication capacity unavailable'' @ [CHR 0x0A]) v
      | Some True \<Rightarrow> rest v
      | Some False \<Rightarrow>
          write_body (''401 authentication required'' @ [CHR 0x0A])
            (put_header ''www-authenticate'' (ah_challenge a) ((generated v)\<lparr>vs_status := Some 401\<rparr>)))"

subsection \<open>\<open>forward-auth\<close>\<close>

record ask =
  ak_path :: bytes
  ak_headers :: header_map

record answer =
  an_status :: nat
  an_headers :: header_map
  an_body :: bytes

definition agreed :: "answer \<Rightarrow> bool" where
  "agreed a \<longleftrightarrow> 200 \<le> an_status a \<and> an_status a < 300"

definition never_copy :: "bytes list" where
  "never_copy = [''connection'', ''content-length'', ''content-type'', ''transfer-encoding'', ''keep-alive'', ''upgrade'']"

record forward_auth =
  fa_upstream :: resource_id
  fa_path :: bytes
  fa_forward :: "bytes list"
  fa_copy :: "bytes list"

definition forward_auth_hash :: "digest \<Rightarrow> forward_auth \<Rightarrow> hasher \<Rightarrow> hasher" where
  "forward_auth_hash digest c h =
     update_unordered digest (fa_copy c) update_str (update_unordered digest (fa_forward c) update_str
       (update_str (fa_path c) (update_str (resource_name (fa_upstream c)) h)))"

definition name_list_node :: "bytes list node_decoder" where
  "name_list_node = derive_from_node (reader_rest_args string_from_value) Some"

definition forward_auth_reads :: "node_reader \<Rightarrow> (bytes option \<times> bytes option \<times> bytes list option \<times> bytes list option) \<times> node_reader" where
  "forward_auth_reads rd =
     (case reader_prop string_from_value ''upstream'' rd of (up, rd) \<Rightarrow>
      case reader_opt_prop string_from_value ''path'' rd of (path, rd) \<Rightarrow>
      case reader_opt_child name_list_node ''forward-headers'' rd of (fw, rd) \<Rightarrow>
      case reader_opt_child name_list_node ''copy-headers'' rd of (cp, rd) \<Rightarrow>
        ((up, path, fw, cp), rd))"

definition forward_auth_fields :: "bytes option \<times> bytes option \<times> bytes list option \<times> bytes list option \<Rightarrow>
    (bytes \<times> bytes \<times> bytes list option \<times> bytes list option) option" where
  "forward_auth_fields f =
     (case f of (up, path, fw, cp) \<Rightarrow>
       map_option (\<lambda>u. (u, case path of Some p \<Rightarrow> p | None \<Rightarrow> ''/'', fw, cp)) up)"

definition forward_auth_check :: "bytes \<times> bytes \<times> bytes list option \<times> bytes list option \<Rightarrow> diagnostic + forward_auth" where
  "forward_auth_check f =
     (case f of (up, path, fw, cp) \<Rightarrow>
       if \<not> starts_with ''/'' path then Inl (diag_error InvalidValue)
       else Inr \<lparr>fa_upstream = resource_new UpstreamKind up, fa_path = path,
         fa_forward = map to_ascii_lowercase (case fw of Some l \<Rightarrow> l | None \<Rightarrow> [''cookie'', ''authorization'']),
         fa_copy = map to_ascii_lowercase (case cp of Some l \<Rightarrow> l | None \<Rightarrow> [])\<rparr>)"

definition forward_auth_decode :: "forward_auth node_decoder" where
  "forward_auth_decode = checked_decode (derive_from_node forward_auth_reads forward_auth_fields) forward_auth_check"

definition set_value :: "http_crate \<Rightarrow> bytes \<Rightarrow> bytes \<Rightarrow> header_map \<Rightarrow> header_map" where
  "set_value http name t h = (case value_of http t of Some x \<Rightarrow> insert_header name x h | None \<Rightarrow> h)"

definition question :: "http_crate \<Rightarrow> forward_auth \<Rightarrow> visit \<Rightarrow> ask" where
  "question http c v =
     (let h = concat (map (\<lambda>name. if name_valid http name then map (Pair name) (get_all name (vs_headers v)) else []) (fa_forward c));
          h = set_value http ''x-forwarded-method'' (vs_method v) h;
          h = set_value http ''x-forwarded-uri'' (case uri_path_and_query (vs_uri v) of Some p \<Rightarrow> p | None \<Rightarrow> ''/'') h;
          h = set_value http ''x-forwarded-proto'' (if vs_tls v then ''https'' else ''http'') h;
          h = (case visit_authority http v of
                 Some host \<Rightarrow> set_value http ''host'' host (set_value http ''x-forwarded-host'' host h)
               | None \<Rightarrow> h);
          h = (case vs_client_ip v of Some ip \<Rightarrow> set_value http ''x-forwarded-for'' (show_ip ip) h | None \<Rightarrow> h) in
      \<lparr>ak_path = fa_path c, ak_headers = h\<rparr>)"

definition relay_answer :: "answer \<Rightarrow> visit \<Rightarrow> visit" where
  "relay_answer a v =
     (let v = v\<lparr>vs_status := Some (an_status a),
                vs_out_headers := vs_out_headers v @ filter (\<lambda>(n, _). n \<notin> set never_copy) (an_headers a)\<rparr>;
          v = set_opt ''content-type'' (get_header ''content-type'' (an_headers a)) v in
      write_body (an_body a) v)"

fun copy_headers :: "http_crate \<Rightarrow> answer \<Rightarrow> bytes list \<Rightarrow> header_map \<Rightarrow> header_map" where
  "copy_headers http a [] h = h"
| "copy_headers http a (name # ns) h =
     copy_headers http a ns
       (if name_valid http name then remove_header name h @ map (Pair name) (get_all name (an_headers a)) else h)"

definition forward_auth_handle :: "http_crate \<Rightarrow> (ask \<Rightarrow> answer option) \<Rightarrow> forward_auth \<Rightarrow> handler" where
  "forward_auth_handle http service c rest v =
     (case service (question http c v) of
        None \<Rightarrow> refuse 503 (''503 the authorisation service could not be reached'' @ [CHR 0x0A]) v
      | Some a \<Rightarrow>
          if \<not> agreed a then relay_answer a (generated v)
          else rest (v\<lparr>vs_headers := copy_headers http a (fa_copy c) (vs_headers v)\<rparr>))"

subsection \<open>Guards decide whether the rest of the chain runs\<close>

definition ip_guard :: "ip_filter \<Rightarrow> guard_spec" where
  "ip_guard f = \<lparr>gd_admits = ip_filter_admits f, gd_before = id, gd_after = (\<lambda>_. id),
     gd_refusal = refuse 403 (''403 forbidden'' @ [CHR 0x0A])\<rparr>"

interpretation ip: guard_handler "ip_filter_handle f" "ip_guard f" for f
  by unfold_locales (simp_all add: ip_filter_handle_def ip_guard_def same_client_def)

definition limit_guard :: "http_crate \<Rightarrow> nat \<Rightarrow> guard_spec" where
  "limit_guard http m = \<lparr>gd_admits = body_limit_admits http m,
     gd_before = (\<lambda>v. (install_limit m v)\<lparr>vs_body := limited_frames m 0 (vs_body v)\<rparr>), gd_after = (\<lambda>_. id),
     gd_refusal = (\<lambda>v. body_limit_handle http m id v)\<rparr>"

lemma limit_declared_install [simp]: "limit_declared http (install_limit m v) = limit_declared http v"
  and install_limit_body [simp]: "vs_body (install_limit m v) = vs_body v"
  by (simp_all add: limit_declared_def install_limit_def)

interpretation limit: guard_handler "body_limit_handle http m" "limit_guard http m" for http m
proof
  fix rest v
  show "body_limit_handle http m rest v = (if gd_admits (limit_guard http m) v
      then gd_after (limit_guard http m) v (rest (gd_before (limit_guard http m) v)) else gd_refusal (limit_guard http m) v)"
    by (auto simp: body_limit_handle_def limit_guard_def body_limit_admits_def Let_def split: option.splits)
  show "same_client v (gd_before (limit_guard http m) v)"
    by (simp add: limit_guard_def same_client_def install_limit_def)
qed

definition cors_guard :: "http_crate \<Rightarrow> cors_handler \<Rightarrow> guard_spec" where
  "cors_guard http c = \<lparr>gd_admits = (\<lambda>v. \<not> cors_preflight v), gd_before = visit_vary http ''origin'',
     gd_after = (\<lambda>v u. case Option.bind (cors_request_origin http v) (cors_allow http c) of
        Some a \<Rightarrow> set_opt ''access-control-expose-headers'' (cr_expose c) (cors_common c a u) | None \<Rightarrow> u),
     gd_refusal = (\<lambda>v. cors_handle http c id v)\<rparr>"

interpretation cors: guard_handler "cors_handle http c" "cors_guard http c" for http c
  by unfold_locales (simp_all add: cors_handle_def cors_guard_def Let_def same_client_def visit_vary_def)

definition auth_guard :: "http_crate \<Rightarrow> (bytes \<Rightarrow> bytes \<Rightarrow> bool) \<Rightarrow> bool \<Rightarrow> auth_handler \<Rightarrow> guard_spec" where
  "auth_guard http bcrypt capacity a = \<lparr>gd_admits = (\<lambda>v. authenticate http bcrypt capacity a v = Some True),
     gd_before = id, gd_after = (\<lambda>_. id), gd_refusal = (\<lambda>v. basic_auth_handle http bcrypt capacity a id v)\<rparr>"

interpretation auth: guard_handler "basic_auth_handle http bcrypt capacity a" "auth_guard http bcrypt capacity a"
  for http bcrypt capacity a
  by unfold_locales (auto simp: basic_auth_handle_def auth_guard_def same_client_def split: option.splits bool.splits)

definition forward_agreed :: "http_crate \<Rightarrow> (ask \<Rightarrow> answer option) \<Rightarrow> forward_auth \<Rightarrow> visit \<Rightarrow> bool" where
  "forward_agreed http service c v = (case service (question http c v) of Some a \<Rightarrow> agreed a | None \<Rightarrow> False)"

definition forward_guard :: "http_crate \<Rightarrow> (ask \<Rightarrow> answer option) \<Rightarrow> forward_auth \<Rightarrow> guard_spec" where
  "forward_guard http service c = \<lparr>gd_admits = forward_agreed http service c,
     gd_before = (\<lambda>v. case service (question http c v) of
        Some a \<Rightarrow> v\<lparr>vs_headers := copy_headers http a (fa_copy c) (vs_headers v)\<rparr> | None \<Rightarrow> v),
     gd_after = (\<lambda>_. id), gd_refusal = (\<lambda>v. forward_auth_handle http service c id v)\<rparr>"

interpretation forward: guard_handler "forward_auth_handle http service c" "forward_guard http service c"
  for http service c
  by unfold_locales
    (auto simp: forward_auth_handle_def forward_guard_def forward_agreed_def same_client_def split: option.splits)

text \<open>A guard of the standard bundle, as configured.\<close>

datatype std_guard = GuardIp ip_filter | GuardLimit nat | GuardCors cors_handler | GuardBasic auth_handler | GuardForward forward_auth

record guard_world =
  gw_http :: http_crate
  gw_bcrypt :: "bytes \<Rightarrow> bytes \<Rightarrow> bool"
  gw_capacity :: bool
  gw_service :: "ask \<Rightarrow> answer option"

fun guard_handle :: "guard_world \<Rightarrow> std_guard \<Rightarrow> handler" where
  "guard_handle w (GuardIp f) = ip_filter_handle f"
| "guard_handle w (GuardLimit m) = body_limit_handle (gw_http w) m"
| "guard_handle w (GuardCors c) = cors_handle (gw_http w) c"
| "guard_handle w (GuardBasic a) = basic_auth_handle (gw_http w) (gw_bcrypt w) (gw_capacity w) a"
| "guard_handle w (GuardForward c) = forward_auth_handle (gw_http w) (gw_service w) c"

lemma same_client_refl [simp]: "same_client v v"
  by (simp add: same_client_def)

lemma same_client_trans: "same_client u v \<Longrightarrow> same_client v w \<Longrightarrow> same_client u w"
  by (simp add: same_client_def)

end
