(* ===== verification/Guard_Laws.thy ===== *)
theory Guard_Laws
  imports Guards
begin

unbundle bit_operations_syntax

text \<open>
  What the guards of \<open>Guards\<close> guarantee: their decoders either report an error or return a value and add none,
  an address filter permits exactly the networks it was given, a password is checked against the hash of
  the user that was named, a body is cut at its limit, and a chain of guards runs what is behind it
  exactly if each of them admits the request.
\<close>


subsection \<open>Decoders are strict\<close>

lemma push_suggested_count [simp]: "error_count (push_suggested c name known ds) = error_count ds + 1"
  and push_suggested_append: "\<exists>new. push_suggested c name known ds = ds @ new"
  by (auto simp: push_suggested_def push_help_def push_error_def error_count_def diag_error_def is_error_def split: option.splits)

lemma is_error_simps [simp]: "is_error (diag_error c)" "is_error (with_help c h)"
  by (simp_all add: diag_error_def with_help_def is_error_def)

text \<open>What a step of a hand-written decoder does to the diagnostics: it only adds to them.\<close>

definition grows :: "diagnostics \<Rightarrow> diagnostics \<Rightarrow> bool" where
  "grows ds ds' \<longleftrightarrow> (\<exists>new. ds' = ds @ new)"

lemma grows_refl [simp, intro]: "grows ds ds"
  by (simp add: grows_def)

lemma grows_trans [trans]: "grows a b \<Longrightarrow> grows b c \<Longrightarrow> grows a c"
  by (auto simp: grows_def)

lemma grows_push [simp, intro]:
  "grows ds (push_error c ds)" "grows ds (push_help c h ds)" "grows ds (push_suggested c name known ds)"
  using push_append push_suggested_append by (auto simp: grows_def)

lemma grows_count: "grows ds ds' \<Longrightarrow> error_count ds \<le> error_count ds'"
  by (auto simp: grows_def)

lemma read_networks_grows: "read_networks es ds = (ns, ds') \<Longrightarrow> grows ds ds'"
proof (induction es arbitrary: ds ns)
  case (Cons e es)
  show ?case
  proof (cases "parse_cidr (trim e)")
    case (Inl x)
    with Cons.prems Cons.IH [of "push_error InvalidValue ds" ns] show ?thesis by (auto intro: grows_trans)
  next
    case (Inr p)
    with Cons.prems obtain ms where "read_networks es ds = (ms, ds')" by (auto split: prod.splits)
    with Cons.IH show ?thesis by blast
  qed
qed simp

lemma ip_filter_props_grows: "ip_filter_props ps f ds = (f', ds') \<Longrightarrow> grows ds ds'"
proof (induction ps f ds rule: ip_filter_props.induct)
  case (2 name v ps f ds)
  show ?case
  proof (cases "name \<noteq> ''allow'' \<and> name \<noteq> ''deny''")
    case True
    with 2(1) [OF True] 2(4) show ?thesis by (auto intro: grows_trans [OF grows_push(3)])
  next
    case False
    show ?thesis
    proof (cases "as_str v")
      case None
      with 2(2) [OF False None] 2(4) False show ?thesis by (auto intro: grows_trans [OF grows_push(1)])
    next
      case (Some raw)
      obtain ns ds1 where r: "read_networks (split_at (CHR 0x2C) raw) ds = (ns, ds1)" by fastforce
      with 2(3) [OF False Some r [symmetric]] 2(4) False Some read_networks_grows [OF r]
      show ?thesis by (auto intro: grows_trans)
    qed
  qed
qed simp

lemma conditional_strict:
  assumes "\<And>n ds. \<exists>a ds'. decode n ds = (if error_count ds < error_count ds' then (None, ds') else (Some a, ds')) \<and> grows ds ds'"
  shows "strict_decoder decode"
proof
  fix n ds r ds' assume d: "decode n ds = (r, ds')"
  obtain a ds1 where "decode n ds = (if error_count ds < error_count ds1 then (None, ds1) else (Some a, ds1))" "grows ds ds1"
    using assms by blast
  with d show "\<exists>new. ds' = ds @ new" by (auto simp: grows_def split: if_splits)
next
  fix n ds ds' assume d: "decode n ds = (None, ds')"
  obtain a ds1 where "decode n ds = (if error_count ds < error_count ds1 then (None, ds1) else (Some a, ds1))"
    using assms by blast
  with d show "error_count ds < error_count ds'" by (auto split: if_splits)
next
  fix n ds x ds' assume d: "decode n ds = (Some x, ds')"
  obtain a ds1 where "decode n ds = (if error_count ds < error_count ds1 then (None, ds1) else (Some a, ds1))" "grows ds ds1"
    using assms by blast
  with d grows_count [of ds ds1] show "error_count ds' = error_count ds" by (auto split: if_splits)
qed

interpretation ip_filter_decoder: strict_decoder ip_filter_decode
proof (rule conditional_strict)
  fix n ds
  obtain f ds1 where r: "ip_filter_props (node_props n) \<lparr>if_allow = [], if_deny = []\<rparr> ds = (f, ds1)" by fastforce
  define ds2 where "ds2 = (if if_allow f = [] \<and> if_deny f = [] \<and> error_count ds1 = error_count ds
     then push_help MissingField ''an empty filter would either block everything or nothing, silently'' ds1 else ds1)"
  define ds3 where "ds3 = (if node_args n \<noteq> [] then push_error ArgumentCount ds2 else ds2)"
  have "grows ds1 ds2" "grows ds2 ds3" by (auto simp: ds2_def ds3_def)
  with ip_filter_props_grows [OF r] have "grows ds ds3" by (blast intro: grows_trans)
  moreover have "ip_filter_decode n ds = (if error_count ds < error_count ds3 then (None, ds3) else (Some f, ds3))"
    unfolding ip_filter_decode_def r ds3_def ds2_def by (simp only: prod.case Let_def)
  ultimately show "\<exists>a ds'. ip_filter_decode n ds = (if error_count ds < error_count ds' then (None, ds') else (Some a, ds')) \<and> grows ds ds'"
    by blast
qed

lemma read_user_report: "read_user users c = Inl report \<Longrightarrow> grows ds (report ds)"
  by (auto simp: read_user_def split: if_splits option.splits sum.splits list.splits)

lemma read_users_grows: "read_users cs users ds = (us, ds') \<Longrightarrow> grows ds ds'"
proof (induction cs arbitrary: users ds)
  case (Cons c cs)
  show ?case
  proof (cases "read_user users c")
    case (Inl report)
    with Cons.prems Cons.IH [of users "report ds"] show ?thesis
      using read_user_report [OF Inl, of ds] by (auto intro: grows_trans)
  qed (use Cons in auto)
qed simp

lemma push_each_grows: "grows ds (push_each c xs ds)"
  by (induction xs arbitrary: ds) (auto intro: grows_trans [OF grows_push(1)])

interpretation basic_auth_decoder: strict_decoder basic_auth_decode
proof (rule conditional_strict)
  fix n ds
  show "\<exists>a ds'. basic_auth_decode n ds = (if error_count ds < error_count ds' then (None, ds') else (Some a, ds')) \<and> grows ds ds'"
  proof (cases "1024 < length (node_children n) \<or> read_realm n = None")
    case True
    then have "basic_auth_decode n ds = (None, push_error InvalidValue ds)" by (auto simp: basic_auth_decode_def)
    then show ?thesis by (intro exI [of _ undefined] exI [of _ "push_error InvalidValue ds"]) simp
  next
    case False
    then obtain realm where realm: "read_realm n = Some realm" by auto
    define ds0 where "ds0 = push_each UnknownProperty (filter (\<lambda>p. fst p \<noteq> ''realm'') (node_props n)) ds"
    obtain users ds1 where r: "read_users (node_children n) [] ds0 = (users, ds1)" by fastforce
    define ds2 where "ds2 = (if users = [] \<and> error_count ds1 = error_count ds
        then push_help MissingField ''with no users it would refuse everyone, which `respond status=403` says better'' ds1 else ds1)"
    have "grows ds1 ds2" by (auto simp: ds2_def)
    with read_users_grows [OF r] push_each_grows have "grows ds ds2" unfolding ds0_def by (blast intro: grows_trans)
    moreover have "basic_auth_decode n ds = (if error_count ds < error_count ds2 then (None, ds2)
        else (Some \<lparr>ba_realm = realm, ba_users = users\<rparr>, ds2))"
      using False realm r unfolding basic_auth_decode_def ds0_def ds2_def by (simp add: Let_def)
    ultimately show ?thesis by blast
  qed
qed

interpretation origin_decoder: strict_decoder cors_origin_node
  unfolding cors_origin_node_def by (rule strict_decoderI [OF reads_ok_arg])

interpretation names_decoder: strict_decoder name_list_node
  unfolding name_list_node_def by (rule strict_decoderI) (auto simp: reads_ok_def dest: reader_rest_args_ok)

lemma cors_reads_ok: "reads_ok cors_reads cors_fields_of"
  unfolding reads_ok_def
proof (intro allI impI conjI)
  fix rd f rd' assume "cors_reads rd = (f, rd')"
  then show "read_ok rd rd'"
    unfolding cors_reads_def
    by (auto split: prod.splits dest!: reader_opt_prop_ok origin_decoder.reader_children_ok) (meson read_ok_trans)
next
  fix rd f rd' assume "cors_fields_of f = None"
  then show "error_count (rd_diags rd) < error_count (rd_diags rd')" by (simp add: cors_fields_of_def split: prod.splits)
qed

interpretation cors_fields_decoder: strict_decoder "derive_from_node cors_reads cors_fields_of"
  by (rule strict_decoderI [OF cors_reads_ok])

lemma check_origins_error: "check_origins os = Inl d \<Longrightarrow> is_error d"
  by (induction os) (auto split: if_splits)

interpretation cors_decoder: strict_decoder cors_decode
  unfolding cors_decode_def
  by (rule cors_fields_decoder.checked_strict)
    (auto simp: cors_check_def Let_def and_then_Inl split: if_splits dest: check_origins_error)

lemma forward_auth_reads_ok: "reads_ok forward_auth_reads forward_auth_fields"
  unfolding reads_ok_def
proof (intro allI impI)
  fix rd f rd' assume "forward_auth_reads rd = (f, rd')"
  then obtain up path fw cp rd1 rd2 rd3 where f: "f = (up, path, fw, cp)"
    and 1: "reader_prop string_from_value ''upstream'' rd = (up, rd1)"
    and 2: "reader_opt_prop string_from_value ''path'' rd1 = (path, rd2)"
    and 3: "reader_opt_child name_list_node ''forward-headers'' rd2 = (fw, rd3)"
    and 4: "reader_opt_child name_list_node ''copy-headers'' rd3 = (cp, rd')"
    by (auto simp: forward_auth_reads_def split: prod.splits)
  note ok = reader_prop_ok [OF 1] reader_opt_prop_ok [OF 2] names_decoder.reader_opt_child_ok [OF 3]
    names_decoder.reader_opt_child_ok [OF 4]
  then have "read_ok rd1 rd'" by (meson read_ok_trans)
  with ok(1) show "read_ok rd rd' \<and> (forward_auth_fields f = None \<longrightarrow> error_count (rd_diags rd) < error_count (rd_diags rd'))"
    unfolding f by (auto simp: forward_auth_fields_def read_ok_def)
qed

interpretation forward_auth_fields_decoder: strict_decoder "derive_from_node forward_auth_reads forward_auth_fields"
  by (rule strict_decoderI [OF forward_auth_reads_ok])

interpretation forward_auth_decoder: strict_decoder forward_auth_decode
  unfolding forward_auth_decode_def
  by (rule forward_auth_fields_decoder.checked_strict) (auto simp: forward_auth_check_def split: if_splits prod.splits)

interpretation size_decoder: strict_decoder "derive_from_node (reader_arg size_from_value) (\<lambda>a. a)"
  by (rule strict_decoderI [OF reads_ok_arg])

interpretation body_limit_decoder: strict_decoder body_limit_decode
  unfolding body_limit_decode_def by (rule size_decoder.checked_strict) (auto split: if_splits)

subsection \<open>What each guard guarantees\<close>

text \<open>A filter that was decoded permits exactly the addresses that agree with a network in its leading bits.\<close>

definition in_network :: "network \<Rightarrow> ip_addr \<Rightarrow> bool" where
  "in_network n ip \<longleftrightarrow> is_ipv4 ip = is_ipv4 (nw_address n) \<and>
     (\<forall>j < nw_prefix n. addr_bit (octets ip) j = addr_bit (octets (nw_address n)) j)"

definition network_ok :: "network \<Rightarrow> bool" where
  "network_ok n \<longleftrightarrow> wf_ip (nw_address n) \<and> nw_prefix n \<le> 8 * length (octets (nw_address n))"

lemma network_contains_iff:
  assumes "network_ok n" and "wf_ip ip"
  shows "network_contains n ip \<longleftrightarrow> in_network n ip"
proof -
  have "network_contains n ip = ip_in_network ip (nw_address n) (nw_prefix n)"
    using assms by (cases ip; cases "nw_address n") (auto simp: network_contains_def network_ok_def)
  with assms ip_in_network_iff [of ip "nw_address n" "nw_prefix n"] show ?thesis
    by (simp add: in_network_def network_ok_def)
qed

lemma read_networks_wf: "read_networks es ds = (ns, ds') \<Longrightarrow> list_all network_ok ns"
proof (induction es arbitrary: ds ns)
  case (Cons e es)
  show ?case
  proof (cases "parse_cidr (trim e)")
    case (Inr p)
    then obtain address prefix where p: "parse_cidr (trim e) = Inr (address, prefix)" by (cases p) simp
    with Cons.prems obtain ms where "read_networks es ds = (ms, ds')" "ns = \<lparr>nw_address = address, nw_prefix = prefix\<rparr> # ms"
      by (auto split: prod.splits)
    with Cons.IH [of ds ms] parse_cidr_ok [OF p] show ?thesis by (simp add: network_ok_def)
  qed (use Cons in auto)
qed simp

lemma ip_filter_props_wf:
  "ip_filter_props ps f ds = (f', ds') \<Longrightarrow> list_all network_ok (if_allow f) \<Longrightarrow> list_all network_ok (if_deny f) \<Longrightarrow>
    list_all network_ok (if_allow f') \<and> list_all network_ok (if_deny f')"
proof (induction ps f ds rule: ip_filter_props.induct)
  case (2 name v ps f ds)
  show ?case
  proof (cases "name \<noteq> ''allow'' \<and> name \<noteq> ''deny''")
    case True
    with 2(1) [OF True] 2(4-6) show ?thesis by auto
  next
    case False
    show ?thesis
    proof (cases "as_str v")
      case None
      with 2(2) [OF False None] 2(4-6) False show ?thesis by auto
    next
      case (Some raw)
      obtain ns ds1 where r: "read_networks (split_at (CHR 0x2C) raw) ds = (ns, ds1)" by fastforce
      have run: "ip_filter_props ps (if name = ''allow'' then f\<lparr>if_allow := if_allow f @ ns\<rparr> else f\<lparr>if_deny := if_deny f @ ns\<rparr>) ds1 = (f', ds')"
        using 2(4) False Some r by auto
      show ?thesis
        by (rule 2(3) [OF False Some r [symmetric] run]) (use 2(5,6) read_networks_wf [OF r] in simp_all)
    qed
  qed
qed simp

lemma ip_filter_decode_wf:
  assumes "ip_filter_decode n ds = (Some f, ds')"
  shows "list_all network_ok (if_allow f) \<and> list_all network_ok (if_deny f) \<and> (if_allow f \<noteq> [] \<or> if_deny f \<noteq> [])"
proof -
  obtain f1 ds1 where r: "ip_filter_props (node_props n) \<lparr>if_allow = [], if_deny = []\<rparr> ds = (f1, ds1)" by fastforce
  have "f1 = f" using assms by (auto simp: ip_filter_decode_def r Let_def split: if_splits)
  moreover have "error_count ds \<le> error_count ds1" by (rule grows_count [OF ip_filter_props_grows [OF r]])
  then have "if_allow f1 \<noteq> [] \<or> if_deny f1 \<noteq> []"
    using assms by (auto simp: ip_filter_decode_def r Let_def split: if_splits)
  ultimately show ?thesis using ip_filter_props_wf [OF r] by simp
qed

text \<open>
  C18: An address filter lets a request through exactly if the dispatcher knows the client's address, the
  address is in none of the denied networks, and it is in one of the allowed ones unless none is
  given; any other request is answered 403 and nothing behind the filter runs.
\<close>

theorem ip_filter_exact:
  assumes "ip_filter_decode n ds = (Some f, ds')" and "\<forall>ip. vs_client_ip v = Some ip \<longrightarrow> wf_ip ip"
  shows "ip_filter_handle f rest v =
    (if \<exists>ip. vs_client_ip v = Some ip \<and> (\<forall>n \<in> set (if_deny f). \<not> in_network n ip) \<and>
        (if_allow f = [] \<or> (\<exists>n \<in> set (if_allow f). in_network n ip))
     then rest v else refuse 403 (''403 forbidden'' @ [CHR 0x0A]) v)"
proof -
  have wf: "\<forall>n \<in> set (if_allow f) \<union> set (if_deny f). network_ok n"
    using ip_filter_decode_wf [OF assms(1)] by (auto simp: list_all_iff)
  have "ip_filter_admits f v \<longleftrightarrow> (\<exists>ip. vs_client_ip v = Some ip \<and> (\<forall>n \<in> set (if_deny f). \<not> in_network n ip) \<and>
      (if_allow f = [] \<or> (\<exists>n \<in> set (if_allow f). in_network n ip)))"
    using assms(2) wf network_contains_iff
    by (auto simp: ip_filter_admits_def ip_permits_def list_ex_iff split: option.splits)
  then show ?thesis by (simp add: ip_filter_handle_def)
qed

subsection \<open>Passwords are checked as they were presented\<close>

lemma xor_zero: "(x XOR y = 0) = (x = y)" for x y :: nat
  by (metis bit.xor_self xor_self_eq xor.assoc xor.left_neutral xor.right_neutral)

lemma or_fold_zero:
  "foldl (\<lambda>d (l, r). d OR (code l XOR code r)) (d :: nat) ps = 0 \<longleftrightarrow> d = 0 \<and> (\<forall>(l, r) \<in> set ps. l = r)"
proof (induction ps arbitrary: d)
  case (Cons p ps)
  obtain l r where p: "p = (l, r)" by fastforce
  have "d OR (code l XOR code r) = 0 \<longleftrightarrow> d = 0 \<and> l = r"
    by (auto simp: or_eq_0_iff xor_zero)
  with Cons show ?case by (auto simp: p)
qed simp

lemma constant_time_eq_iff: "constant_time_eq a b \<longleftrightarrow> a = b"
proof -
  have "(\<forall>(l, r) \<in> set (zip a b). l = r) \<longleftrightarrow> a = b" if "length a = length b"
    using that by (induction a b rule: list_induct2) auto
  then show ?thesis by (auto simp: constant_time_eq_def or_fold_zero)
qed

text \<open>The name and password of a request: one \<open>Authorization\<close> line that carries their canonical encoding.\<close>

definition presents :: "http_crate \<Rightarrow> visit \<Rightarrow> bytes \<Rightarrow> bytes \<Rightarrow> bool" where
  "presents http v name password \<longleftrightarrow>
     (\<exists>x scheme encoded. get_all ''authorization'' (vs_headers v) = [x] \<and>
        value_str http x = Some (scheme @ CHR '' '' # encoded) \<and> CHR '' '' \<notin> set scheme \<and>
        eq_ignore_ascii_case scheme ''Basic'' \<and> length encoded \<le> 1024 \<and>
        trim encoded = base64_encode (name @ CHR 0x3A # password)) \<and>
     CHR 0x3A \<notin> set name \<and> name \<noteq> [] \<and> length name \<le> 256 \<and> length password \<le> 256 \<and>
     utf8_valid (name @ CHR 0x3A # password) \<and>
     set (name @ CHR 0x3A # password) \<inter> {CHR 0x0D, CHR 0x0A, CHR 0x00} = {}"

lemma basic_credentials_iff: "basic_credentials http v = Some (name, password) \<longleftrightarrow> presents http v name password"
proof (cases "get_all ''authorization'' (vs_headers v)")
  case (Cons x xs)
  show ?thesis
  proof (cases xs)
    case Nil
    have "basic_credentials http v = Some (name, password) \<longleftrightarrow>
      (\<exists>header scheme encoded text. value_str http x = Some header \<and> split_once (CHR '' '') header = Some (scheme, encoded) \<and>
        eq_ignore_ascii_case scheme ''Basic'' \<and> length encoded \<le> 1024 \<and> base64_decode (trim encoded) = Some text \<and>
        utf8_valid text \<and> split_once (CHR 0x3A) text = Some (name, password) \<and> name \<noteq> [] \<and>
        length name \<le> 256 \<and> length password \<le> 256 \<and> set text \<inter> {CHR 0x0D, CHR 0x0A, CHR 0x00} = {})"
    proof (cases "Option.bind (value_str http x) (split_once (CHR '' ''))")
      case None
      then show ?thesis unfolding basic_credentials_def Cons Nil by (cases "value_str http x") auto
    next
      case (Some se)
      then obtain header scheme encoded where h: "value_str http x = Some header" "split_once (CHR '' '') header = Some (scheme, encoded)"
        by (cases se) (auto simp: bind_eq_Some_conv)
      show ?thesis unfolding basic_credentials_def Cons Nil
        by (cases "base64_decode (trim encoded)") (auto simp: h bind_eq_Some_conv not_less split: if_splits)
    qed
    also have "\<dots> \<longleftrightarrow> presents http v name password"
      unfolding presents_def Cons Nil base64_canonical split_once_Some by auto
    finally show ?thesis .
  qed (simp add: basic_credentials_def presents_def Cons)
qed (simp add: basic_credentials_def presents_def)

lemma build_users_nth:
  assumes "build_users secret us = Some bs"
  shows "length bs = length us \<and>
    (\<forall>i < length us. fst (bs ! i) = au_name (us ! i) \<and> (\<exists>hash. secret (au_hash (us ! i)) = Some hash \<and> credential_parse hash = Some (snd (bs ! i))))"
  using assms
proof (induction us arbitrary: bs)
  case (Cons u us)
  then obtain c hash cs where "secret (au_hash u) = Some hash" "credential_parse hash = Some c" "build_users secret us = Some cs"
    "bs = (au_name u, c) # cs" by (auto simp: bind_eq_Some_conv)
  with Cons.IH show ?case by (auto simp: less_Suc_eq_0_disj)
qed simp

lemma read_user_fresh: "read_user users c = Inr u \<Longrightarrow> au_name u \<notin> set (map au_name users) \<and> CHR 0x3A \<notin> set (au_name u)"
  by (auto simp: read_user_def user_name_bad_def list_ex_iff split: if_splits option.splits sum.splits list.splits)

lemma read_users_distinct:
  "read_users cs users ds = (us, ds') \<Longrightarrow> distinct (map au_name users) \<Longrightarrow> distinct (map au_name us)"
proof (induction cs arbitrary: users ds)
  case (Cons c cs)
  show ?case
  proof (cases "read_user users c")
    case (Inr u)
    with Cons.prems Cons.IH [of "users @ [u]" ds] read_user_fresh [OF Inr] show ?thesis by auto
  qed (use Cons in auto)
qed simp

lemma basic_auth_decode_users:
  assumes "basic_auth_decode n ds = (Some c, ds')"
  shows "distinct (map au_name (ba_users c)) \<and> ba_users c \<noteq> []"
proof -
  obtain realm users ds1 where r: "read_realm n = Some realm"
    "read_users (node_children n) [] (push_each UnknownProperty (filter (\<lambda>p. fst p \<noteq> ''realm'') (node_props n)) ds) = (users, ds1)"
    "c = \<lparr>ba_realm = realm, ba_users = users\<rparr>"
    using assms by (auto simp: basic_auth_decode_def Let_def split: if_splits option.splits prod.splits)
  have "error_count ds \<le> error_count ds1"
    by (rule grows_count [OF grows_trans [OF push_each_grows read_users_grows [OF r(2)]]])
  then have "users \<noteq> []" using assms r by (auto simp: basic_auth_decode_def Let_def split: if_splits)
  with read_users_distinct [OF r(2)] r(3) show ?thesis by simp
qed

lemma position_unique:
  assumes "distinct (map f xs)" and "i < length xs" and "f (xs ! i) = a"
  shows "position (\<lambda>x. f x = a) xs = Some i"
  unfolding position_Some_iff using assms by (auto simp: distinct_conv_nth)

lemma position_none: "position P xs = None \<longleftrightarrow> (\<forall>x \<in> set xs. \<not> P x)"
  by (induction xs) auto

definition selected_good :: "(secret_ref \<Rightarrow> bytes option) \<Rightarrow> (bytes \<Rightarrow> bytes \<Rightarrow> bool) \<Rightarrow> auth_user list \<Rightarrow> bytes \<Rightarrow> bytes \<Rightarrow> bool" where
  "selected_good secret bcrypt users name password \<longleftrightarrow> (\<exists>u \<in> set users. au_name u = name \<and> length password \<le> 72 \<and>
     (\<exists>hash. secret (au_hash u) = Some hash \<and> bcrypt_valid hash \<and> bcrypt password hash))"

lemma authenticate_users:
  assumes np: "basic_credentials http v = Some (name, password)" and built: "build_users secret users = Some (ah_users a)"
    and users: "distinct (map au_name users)" "users \<noteq> []"
  shows "authenticate http bcrypt True a v = Some (selected_good secret bcrypt users name password)"
proof -
  note nth = build_users_nth [OF built]
  have names: "map fst (ah_users a) = map au_name users" using nth by (auto intro: nth_equalityI)
  show ?thesis
  proof (cases "position (\<lambda>u. fst u = name) (ah_users a)")
    case None
    then have "name \<notin> set (map fst (ah_users a))" by (auto simp: position_none)
    then have "\<not> selected_good secret bcrypt users name password" unfolding names by (auto simp: selected_good_def)
    moreover have "ah_users a \<noteq> []" using nth users(2) by auto
    ultimately show ?thesis using None np by (simp add: authenticate_def constant_time_eq_iff Let_def)
  next
    case (Some i)
    then have i: "i < length (ah_users a)" "i < length users" "au_name (users ! i) = name"
      using nth by (auto simp: position_Some_iff)
    obtain hash where h: "secret (au_hash (users ! i)) = Some hash" "credential_parse hash = Some (snd (ah_users a ! i))"
      using nth i by blast
    have u: "u \<in> set users \<and> au_name u = name \<longleftrightarrow> u = users ! i" for u
      using i users by (metis distinct_map inj_onD nth_mem)
    have "selected_good secret bcrypt users name password \<longleftrightarrow> length password \<le> 72 \<and> bcrypt_valid hash \<and> bcrypt password hash"
      using u h(1) unfolding selected_good_def by (metis option.inject)
    moreover have "bcrypt_valid hash" "cd_encoded (snd (ah_users a ! i)) = hash"
      using h(2) by (auto simp: credential_parse_def split: if_splits) (metis credential.select_convs(2))
    ultimately show ?thesis using Some np i(1)
      by (simp add: authenticate_def constant_time_eq_iff Let_def credential_verify_def)
  qed
qed

text \<open>
  C16: With a configuration that was decoded and built, basic authentication lets a request through exactly if it
  presents the name of one of the users with a password of at most 72 bytes that the user's own
  hash accepts, and the hash is a bcrypt hash within the policy. A request without such credentials
  is answered 401 with the challenge, and nothing behind the guard runs.
\<close>

theorem basic_auth_exact:
  assumes "basic_auth_decode n ds = (Some c, ds')" and "basic_auth_build http secret c = Some a"
  shows "basic_auth_handle http bcrypt True a rest v =
    (if \<exists>u \<in> set (ba_users c). \<exists>password hash. presents http v (au_name u) password \<and> length password \<le> 72 \<and>
        secret (au_hash u) = Some hash \<and> bcrypt_valid hash \<and> bcrypt password hash
     then rest v
     else write_body (''401 authentication required'' @ [CHR 0x0A])
       (put_header ''www-authenticate'' (ah_challenge a) ((generated v)\<lparr>vs_status := Some 401\<rparr>)))"
    (is "_ = (if ?good then _ else _)")
proof -
  note users = basic_auth_decode_users [OF assms(1)]
  have built: "build_users secret (ba_users c) = Some (ah_users a)"
    using assms(2) by (auto simp: basic_auth_build_def bind_eq_Some_conv)
  have "authenticate http bcrypt True a v = Some ?good"
  proof (cases "basic_credentials http v")
    case None
    then have "\<not> presents http v m q" for m q using basic_credentials_iff [of http v m q] by simp
    with None show ?thesis by (simp add: authenticate_def)
  next
    case (Some np)
    obtain name password where np: "basic_credentials http v = Some (name, password)" using Some by (cases np) simp
    have p: "presents http v m q \<longleftrightarrow> m = name \<and> q = password" for m q
      using basic_credentials_iff [of http v m q] np by auto
    have "?good \<longleftrightarrow> selected_good secret bcrypt (ba_users c) name password" unfolding p selected_good_def by blast
    with authenticate_users [OF np built] users show ?thesis by simp
  qed
  then show ?thesis unfolding basic_auth_handle_def by (cases ?good) (simp_all only: option.case bool.case if_True if_False)
qed

subsection \<open>No handler reads more of a body than the limit\<close>

fun data_of_frame :: "req_frame \<Rightarrow> bytes" where
  "data_of_frame (ReqData d) = d"
| "data_of_frame _ = []"

definition body_bytes :: "req_frame list \<Rightarrow> bytes" where
  "body_bytes fs = concat (map data_of_frame fs)"

text \<open>What ends the reading of a body.\<close>

fun frame_fails :: "req_frame \<Rightarrow> bool" where
  "frame_fails ReqFailed = True"
| "frame_fails (ReqTooLarge _) = True"
| "frame_fails _ = False"

lemma limited_prefix:
  assumes "seen \<le> m" and "list_all (\<lambda>f. \<not> frame_fails f) fs"
  shows "if seen + length (body_bytes fs) \<le> m then limited_frames m seen fs = fs
     else \<exists>p s. fs = p @ s \<and> limited_frames m seen fs = p @ [ReqTooLarge m] \<and> seen + length (body_bytes p) \<le> m"
  using assms
proof (induction m seen fs rule: limited_frames.induct)
  case (2 m seen d fs)
  show ?case
  proof (cases "m - seen < length d")
    case True
    with 2(2) show ?thesis by (auto simp: body_bytes_def intro!: exI [of _ "[]"])
  next
    case False
    with 2(2) have le: "seen + length d \<le> m" by linarith
    have ih: "if seen + length d + length (body_bytes fs) \<le> m then limited_frames m (seen + length d) fs = fs
      else \<exists>p s. fs = p @ s \<and> limited_frames m (seen + length d) fs = p @ [ReqTooLarge m] \<and> seen + length d + length (body_bytes p) \<le> m"
      using 2(1) [OF False le] 2(3) by simp
    show ?thesis
    proof (cases "seen + length d + length (body_bytes fs) \<le> m")
      case True
      with ih False show ?thesis by (simp add: body_bytes_def)
    next
      case more_left: False
      with ih obtain p s where "fs = p @ s" "limited_frames m (seen + length d) fs = p @ [ReqTooLarge m]"
        "seen + length d + length (body_bytes p) \<le> m" by auto
      with False more_left show ?thesis by (auto simp: body_bytes_def intro!: exI [of _ "ReqData d # p"])
    qed
  qed
next
  case (3 m seen fs)
  then show ?case by (auto simp: body_bytes_def intro: exI [of _ "ReqTrailers # _"] split: if_splits)
qed (auto simp: body_bytes_def)

lemma limited_bound:
  assumes "list_all (\<lambda>f. \<not> frame_fails f) fs"
  shows "length (body_bytes (limited_frames m 0 fs)) \<le> m"
  using limited_prefix [of 0 m, OF _ assms, simplified] by (auto simp: body_bytes_def split: if_splits)

text \<open>
  C38: A body limit refuses a request that declares more with 413, without the rest of the chain. Of any
  other request whose body does not fail, the rest of the chain reads the whole body if it is within the
  limit, and otherwise a part of it that is, and then the error that it was too large.
\<close>

theorem body_limit_bounds:
  assumes "list_all (\<lambda>f. \<not> frame_fails f) (vs_body v)"
  shows "if \<exists>d. limit_declared http v = Some d \<and> m < d
     then vs_status (body_limit_handle http m rest v) = Some 413 \<and>
       body_limit_handle http m rest v = body_limit_handle http m other v
     else \<exists>fs. body_limit_handle http m rest v = rest ((install_limit m v)\<lparr>vs_body := fs\<rparr>) \<and> length (body_bytes fs) \<le> m \<and>
       (if length (body_bytes (vs_body v)) \<le> m then fs = vs_body v
        else \<exists>p s. vs_body v = p @ s \<and> fs = p @ [ReqTooLarge m])"
proof (cases "\<exists>d. limit_declared http v = Some d \<and> m < d")
  case True
  then show ?thesis by (auto simp: body_limit_handle_def refuse_def write_body_def generated_def Let_def)
next
  case False
  then have run: "body_limit_handle http m rest v = rest ((install_limit m v)\<lparr>vs_body := limited_frames m 0 (vs_body v)\<rparr>)"
    by (auto simp: body_limit_handle_def Let_def split: option.splits)
  note fs = limited_prefix [of 0 m, OF _ assms, simplified]
  note limited_bound [OF assms, of m]
  moreover have "if length (body_bytes (vs_body v)) \<le> m then limited_frames m 0 (vs_body v) = vs_body v
      else \<exists>p s. vs_body v = p @ s \<and> limited_frames m 0 (vs_body v) = p @ [ReqTooLarge m]"
    using fs by (auto split: if_splits)
  ultimately show ?thesis unfolding if_not_P [OF False] by (intro exI [of _ "limited_frames m 0 (vs_body v)"] conjI run)
qed

subsection \<open>What an authoriser can write\<close>

text \<open>
  The headers of \<open>NEVER_COPY\<close> are kept out of a refusal that is relayed, but the loop over \<open>copy-headers\<close> does
  not consult the list: one that the operator names there is written onto the request.
\<close>

lemma forward_auth_copies_listed:
  assumes "service (question http c v) = Some a" and "agreed a" and "fa_copy c = [''content-length'']"
    and "name_valid http ''content-length''"
  shows "''content-length'' \<in> set never_copy \<and> forward_auth_handle http service c rest v =
    rest (v\<lparr>vs_headers := remove_header ''content-length'' (vs_headers v) @
      map (Pair ''content-length'') (get_all ''content-length'' (an_headers a))\<rparr>)"
  using assms by (simp add: forward_auth_handle_def never_copy_def)

subsection \<open>Chains of guards\<close>

text \<open>
  What a guard asks of the request it is given, in terms of the request: the address filter, that the
  client's address is known, in no denied network and in an allowed one if any is given; the body limit,
  that no longer body is declared; CORS, that it is no preflight, which it answers itself; basic
  authentication, that it presents the name of a user and a password which the first user of that name
  has, while passwords can be checked; and the authorisation service, that it agrees to the question about this request.
\<close>

fun guard_passes :: "guard_world \<Rightarrow> std_guard \<Rightarrow> visit \<Rightarrow> bool" where
  "guard_passes w (GuardIp f) v \<longleftrightarrow>
     (\<exists>ip. vs_client_ip v = Some ip \<and> (\<forall>n \<in> set (if_deny f). \<not> network_contains n ip) \<and>
        (if_allow f = [] \<or> (\<exists>n \<in> set (if_allow f). network_contains n ip)))"
| "guard_passes w (GuardLimit m) v \<longleftrightarrow> (\<forall>d. limit_declared (gw_http w) v = Some d \<longrightarrow> d \<le> m)"
| "guard_passes w (GuardCors c) v \<longleftrightarrow>
     \<not> (vs_method v = ''OPTIONS'' \<and> get_all ''access-control-request-method'' (vs_headers v) \<noteq> [])"
| "guard_passes w (GuardBasic a) v \<longleftrightarrow> gw_capacity w \<and>
     (\<exists>name password i. presents (gw_http w) v name password \<and> i < length (ah_users a) \<and> fst (ah_users a ! i) = name \<and>
        (\<forall>j < i. fst (ah_users a ! j) \<noteq> name) \<and> credential_verify (gw_bcrypt w) (snd (ah_users a ! i)) password)"
| "guard_passes w (GuardForward c) v \<longleftrightarrow>
     (\<exists>a. gw_service w (question (gw_http w) c v) = Some a \<and> 200 \<le> an_status a \<and> an_status a < 300)"

text \<open>The request it hands on, and the status it answers with if it does not.\<close>

fun guard_hands_on :: "guard_world \<Rightarrow> std_guard \<Rightarrow> visit \<Rightarrow> visit" where
  "guard_hands_on w (GuardIp f) v = v"
| "guard_hands_on w (GuardLimit m) v = (install_limit m v)\<lparr>vs_body := limited_frames m 0 (vs_body v)\<rparr>"
| "guard_hands_on w (GuardCors c) v = visit_vary (gw_http w) ''origin'' v"
| "guard_hands_on w (GuardBasic a) v = v"
| "guard_hands_on w (GuardForward c) v =
     (case gw_service w (question (gw_http w) c v) of
        Some a \<Rightarrow> v\<lparr>vs_headers := copy_headers (gw_http w) a (fa_copy c) (vs_headers v)\<rparr> | None \<Rightarrow> v)"

fun guard_refuses_with :: "guard_world \<Rightarrow> std_guard \<Rightarrow> visit \<Rightarrow> nat" where
  "guard_refuses_with w (GuardIp f) v = 403"
| "guard_refuses_with w (GuardLimit m) v = 413"
| "guard_refuses_with w (GuardCors c) v = 204"
| "guard_refuses_with w (GuardBasic a) v =
     (if \<not> gw_capacity w \<and> ah_users a \<noteq> [] \<and> (\<exists>name password. presents (gw_http w) v name password) then 503 else 401)"
| "guard_refuses_with w (GuardForward c) v =
     (case gw_service w (question (gw_http w) c v) of Some a \<Rightarrow> an_status a | None \<Rightarrow> 503)"

text \<open>
  The way of a request through the guards: each decides on what the one before it handed on. It ends with
  the request that got through, or with the guard that refused and the request it refused.
\<close>

fun guards_journey :: "guard_world \<Rightarrow> std_guard list \<Rightarrow> visit \<Rightarrow> std_guard \<times> visit + visit" where
  "guards_journey w [] v = Inr v"
| "guards_journey w (g # gs) v = (if guard_passes w g v then guards_journey w gs (guard_hands_on w g v) else Inl (g, v))"

fun guard_spec_of :: "guard_world \<Rightarrow> std_guard \<Rightarrow> guard_spec" where
  "guard_spec_of w (GuardIp f) = ip_guard f"
| "guard_spec_of w (GuardLimit m) = limit_guard (gw_http w) m"
| "guard_spec_of w (GuardCors c) = cors_guard (gw_http w) c"
| "guard_spec_of w (GuardBasic a) = auth_guard (gw_http w) (gw_bcrypt w) (gw_capacity w) a"
| "guard_spec_of w (GuardForward c) = forward_guard (gw_http w) (gw_service w) c"

interpretation std: guard_handler "guard_handle w g" "guard_spec_of w g" for w g
proof -
  show "guard_handler (guard_handle w g) (guard_spec_of w g)"
    using ip.guard_handler_axioms limit.guard_handler_axioms cors.guard_handler_axioms auth.guard_handler_axioms
      forward.guard_handler_axioms by (cases g) simp_all
qed

lemma authenticate_iff:
  "authenticate http bcrypt capacity a v = Some True \<longleftrightarrow> capacity \<and>
     (\<exists>name password i. presents http v name password \<and> i < length (ah_users a) \<and> fst (ah_users a ! i) = name \<and>
        (\<forall>j < i. fst (ah_users a ! j) \<noteq> name) \<and> credential_verify bcrypt (snd (ah_users a ! i)) password)"
proof (cases "basic_credentials http v")
  case None
  then have "\<not> presents http v m q" for m q using basic_credentials_iff [of http v m q] by simp
  with None show ?thesis by (simp add: authenticate_def)
next
  case (Some np)
  obtain name password where np: "basic_credentials http v = Some (name, password)" using Some by (cases np) simp
  have p: "presents http v m q \<longleftrightarrow> m = name \<and> q = password" for m q
    using basic_credentials_iff [of http v m q] np by auto
  have at: "position (\<lambda>u. fst u = name) (ah_users a) = Some i \<longleftrightarrow>
      i < length (ah_users a) \<and> fst (ah_users a ! i) = name \<and> (\<forall>j < i. fst (ah_users a ! j) \<noteq> name)" for i
    by (auto simp: position_Some_iff)
  have "authenticate http bcrypt capacity a v = Some True \<longleftrightarrow> capacity \<and>
      (\<exists>i. position (\<lambda>u. fst u = name) (ah_users a) = Some i \<and> i < length (ah_users a) \<and> credential_verify bcrypt (snd (ah_users a ! i)) password)"
    using np by (cases "position (\<lambda>u. fst u = name) (ah_users a)") (auto simp: authenticate_def constant_time_eq_iff Let_def)
  then show ?thesis unfolding at p by auto
qed

lemma authenticate_None:
  "authenticate http bcrypt capacity a v = None \<longleftrightarrow> \<not> capacity \<and> ah_users a \<noteq> [] \<and> (\<exists>name password. presents http v name password)"
proof (cases "basic_credentials http v")
  case None
  then have "\<not> presents http v m q" for m q using basic_credentials_iff [of http v m q] by simp
  with None show ?thesis by (simp add: authenticate_def)
next
  case (Some np)
  obtain name password where np: "basic_credentials http v = Some (name, password)" using Some by (cases np) simp
  then have p: "\<exists>name password. presents http v name password" using basic_credentials_iff by blast
  show ?thesis
  proof (cases "position (\<lambda>u. fst u = name) (ah_users a)")
    case None
    then show ?thesis using np p by (simp add: authenticate_def constant_time_eq_iff Let_def)
  next
    case (Some i)
    then have "i < length (ah_users a)" by (simp add: position_Some_iff)
    then show ?thesis using np p Some by (auto simp: authenticate_def constant_time_eq_iff Let_def)
  qed
qed

lemma std_admits: "gd_admits (guard_spec_of w g) v \<longleftrightarrow> guard_passes w g v"
  by (cases g) (auto simp: ip_guard_def limit_guard_def cors_guard_def auth_guard_def forward_guard_def authenticate_iff
      ip_filter_admits_def ip_permits_def list_ex_iff body_limit_admits_def cors_preflight_def contains_key_def
      forward_agreed_def agreed_def split: option.splits)

lemma std_before: "gd_before (guard_spec_of w g) v = guard_hands_on w g v"
  by (cases g) (simp_all add: ip_guard_def limit_guard_def cors_guard_def auth_guard_def forward_guard_def)

lemma std_refusal:
  assumes "\<not> guard_passes w g v"
  shows "vs_status (gd_refusal (guard_spec_of w g) v) = Some (guard_refuses_with w g v)"
proof (cases g)
  case (GuardIp f)
  then show ?thesis by (simp add: ip_guard_def refuse_def write_body_def generated_def)
next
  case (GuardLimit m)
  then show ?thesis using assms
    by (auto simp: limit_guard_def body_limit_handle_def refuse_def write_body_def generated_def Let_def not_le)
next
  case (GuardCors c)
  then show ?thesis using assms by (auto simp: cors_guard_def cors_handle_def cors_preflight_def contains_key_def Let_def)
next
  case (GuardBasic a)
  let ?auth = "authenticate (gw_http w) (gw_bcrypt w) (gw_capacity w) a v"
  have not_true: "?auth \<noteq> Some True" using assms GuardBasic by (simp add: authenticate_iff)
  show ?thesis
  proof (cases ?auth)
    case None
    then have "guard_refuses_with w g v = 503" using authenticate_None [of "gw_http w" "gw_bcrypt w" "gw_capacity w" a v] GuardBasic by simp
    with None GuardBasic show ?thesis
      by (simp add: auth_guard_def basic_auth_handle_def refuse_def write_body_def generated_def)
  next
    case (Some b)
    then have "guard_refuses_with w g v = 401" "b = False"
      using authenticate_None [of "gw_http w" "gw_bcrypt w" "gw_capacity w" a v] GuardBasic not_true by auto
    with Some GuardBasic show ?thesis
      by (simp add: auth_guard_def basic_auth_handle_def write_body_def put_header_def generated_def)
  qed
next
  case (GuardForward c)
  then show ?thesis using assms
    by (auto simp: forward_guard_def forward_auth_handle_def refuse_def relay_answer_def set_opt_def put_header_def write_body_def
        generated_def agreed_def Let_def not_le not_less split: option.splits)
qed

text \<open>What a guard may add to the answer that comes back: the headers of CORS, and nothing else.\<close>

definition cors_names :: "bytes list" where
  "cors_names = [''access-control-allow-origin'', ''access-control-allow-credentials'', ''access-control-expose-headers'']"

definition same_answer :: "visit \<Rightarrow> visit \<Rightarrow> bool" where
  "same_answer r s \<longleftrightarrow> vs_status r = vs_status s \<and> vs_out_body r = vs_out_body s \<and>
     (\<forall>n. n \<notin> set cors_names \<longrightarrow> get_all n (vs_out_headers r) = get_all n (vs_out_headers s))"

lemma same_answer_put: "n \<in> set cors_names \<Longrightarrow> same_answer r s \<Longrightarrow> same_answer (put_header n x r) s"
  by (auto simp: same_answer_def put_header_def)

lemma std_after: "same_answer (gd_after (guard_spec_of w g) v r) r" "(\<And>c. g \<noteq> GuardCors c) \<Longrightarrow> gd_after (guard_spec_of w g) v r = r"
proof -
  have refl: "same_answer r r" for r by (simp add: same_answer_def)
  show "same_answer (gd_after (guard_spec_of w g) v r) r"
    by (cases g) (auto simp: ip_guard_def limit_guard_def cors_guard_def auth_guard_def forward_guard_def refl set_opt_def
        cors_common_def Let_def cors_names_def split: option.splits intro!: same_answer_put)
  show "(\<And>c. g \<noteq> GuardCors c) \<Longrightarrow> gd_after (guard_spec_of w g) v r = r"
    by (cases g) (auto simp: ip_guard_def limit_guard_def auth_guard_def forward_guard_def)
qed

text \<open>
  C15: Whatever guards are composed, in whichever order, each decides on the request as the guards before it
  handed it on. If all of them let it pass, the rest of the chain is given the request that got through
  and what it answers is the answer, to which only CORS adds headers of its own; that request comes from
  the client the dispatcher identified and asks for what it asked for at first. Otherwise the first guard
  that does not let it pass answers it, with its own status, and the answer does not depend on the rest of
  the chain.
\<close>

theorem guards_decide_chain:
  "case guards_journey w gs v of
     Inr u \<Rightarrow> same_client v u \<and>
       (\<forall>t. same_answer (run_chain (map (guard_handle w) gs) t v) (t u) \<and>
          ((\<forall>c. GuardCors c \<notin> set gs) \<longrightarrow> run_chain (map (guard_handle w) gs) t v = t u))
   | Inl (g, u) \<Rightarrow> same_client v u \<and> g \<in> set gs \<and>
       (\<exists>r. (\<forall>t. run_chain (map (guard_handle w) gs) t v = r) \<and> vs_status r = Some (guard_refuses_with w g u))"
proof (induction gs arbitrary: v)
  case Nil
  show ?case by (simp add: same_answer_def)
next
  case (Cons g gs)
  show ?case
  proof (cases "guard_passes w g v")
    case False
    then show ?thesis using std.refused [of w g v "map (guard_handle w) gs"] std_admits [of w g v] std_refusal [of w g v] by simp
  next
    case True
    define u where "u = guard_hands_on w g v"
    have run: "run_chain (map (guard_handle w) (g # gs)) t v = gd_after (guard_spec_of w g) v (run_chain (map (guard_handle w) gs) t u)" for t
      using std.admitted [of w g v "map (guard_handle w) gs" t] True by (simp add: std_admits std_before u_def)
    have c: "same_client v u" using std.keeps [of v w g] by (simp add: std_before u_def)
    have after: "vs_status (gd_after (guard_spec_of w g) v r) = vs_status r" for r
      using std_after(1) [of w g v r] by (simp add: same_answer_def)
    show ?thesis
    proof (cases "guards_journey w gs u")
      case (Inl gu)
      obtain h x where gu: "gu = (h, x)" by fastforce
      from Cons.IH [of u] Inl gu obtain r where "same_client u x" "h \<in> set gs" "\<forall>t. run_chain (map (guard_handle w) gs) t u = r"
        "vs_status r = Some (guard_refuses_with w h x)" by auto
      moreover from this have "\<forall>t. run_chain (map (guard_handle w) (g # gs)) t v = gd_after (guard_spec_of w g) v r"
        unfolding run by simp
      ultimately show ?thesis using True Inl gu c after by (auto simp: u_def [symmetric] intro: same_client_trans)
    next
      case (Inr x)
      from Cons.IH [of u] Inr have ih: "same_client u x" "\<And>t. same_answer (run_chain (map (guard_handle w) gs) t u) (t x)"
        "\<And>t. (\<forall>c. GuardCors c \<notin> set gs) \<Longrightarrow> run_chain (map (guard_handle w) gs) t u = t x" by auto
      have "same_answer (run_chain (map (guard_handle w) (g # gs)) t v) (t x)" for t
        unfolding run using std_after(1) [of w g v "run_chain (map (guard_handle w) gs) t u"] ih(2) [of t] by (simp add: same_answer_def)
      moreover have "run_chain (map (guard_handle w) (g # gs)) t v = t x" if "\<forall>c. GuardCors c \<notin> set (g # gs)" for t
      proof -
        have "gd_after (guard_spec_of w g) v r = r" for r by (rule std_after(2)) (use that in auto)
        then show ?thesis unfolding run using that ih(3) by simp
      qed
      ultimately show ?thesis using True Inr same_client_trans [OF c ih(1)] by (simp add: u_def [symmetric])
    qed
  qed
qed

subsection \<open>Sample requests\<close>

definition sample_visit :: visit where
  "sample_visit = \<lparr>vs_method = ''GET'', vs_uri = \<lparr>uri_authority = None, uri_path = ''/'', uri_query = None, uri_path_and_query = Some ''/''\<rparr>,
     vs_headers = [(''authorization'', ''Basic YTpi'')], vs_body = [ReqData ''abc'', ReqTrailers],
     vs_client_ip = Some (V4 [10, 1, 2, 3]), vs_tls = True,
     vs_generated = False, vs_request_id = None, vs_body_limit = None, vs_preview = [], vs_status = None,
     vs_out_headers = [], vs_out_body = None\<rparr>"

definition plain_http :: http_crate where
  "plain_http = \<lparr>name_valid = (\<lambda>n. n \<noteq> []), value_str = Some, value_of = Some, parse_date = (\<lambda>_. None)\<rparr>"

theorem body_limit_bounds_witness:
  "list_all (\<lambda>f. \<not> frame_fails f) (vs_body sample_visit) \<and>
   (\<exists>fs. body_limit_handle plain_http 2 (\<lambda>v. v) sample_visit = (install_limit 2 sample_visit)\<lparr>vs_body := fs\<rparr> \<and> length (body_bytes fs) \<le> 2)"
proof -
  have ok: "list_all (\<lambda>f. \<not> frame_fails f) (vs_body sample_visit)" by (simp add: sample_visit_def)
  have "limit_declared plain_http sample_visit = None" by code_simp
  with ok body_limit_bounds [OF ok, of plain_http 2 "\<lambda>v. v"] show ?thesis by auto
qed

theorem ip_filter_exact_witness:
  "\<exists>f. ip_filter_decode (Node ''ip-filter'' [] [(''allow'', ScalarStr ''10.0.0.0/8'')] []) [] = (Some f, []) \<and>
     (\<forall>ip. vs_client_ip sample_visit = Some ip \<longrightarrow> wf_ip ip) \<and> ip_filter_handle f (\<lambda>v. v) sample_visit = sample_visit"
proof -
  let ?f = "\<lparr>if_allow = [\<lparr>nw_address = V4 [10, 0, 0, 0], nw_prefix = 8\<rparr>], if_deny = []\<rparr>"
  have d: "ip_filter_decode (Node ''ip-filter'' [] [(''allow'', ScalarStr ''10.0.0.0/8'')] []) [] = (Some ?f, [])" by code_simp
  have w: "\<forall>ip. vs_client_ip sample_visit = Some ip \<longrightarrow> wf_ip ip" by (simp add: sample_visit_def)
  have "in_network \<lparr>nw_address = V4 [10, 0, 0, 0], nw_prefix = 8\<rparr> (V4 [10, 1, 2, 3])"
    by (simp add: in_network_def All_less_Suc numeral_eq_Suc) code_simp
  then have "ip_filter_handle ?f (\<lambda>v. v) sample_visit = sample_visit"
    by (subst ip_filter_exact [OF d w]) (simp add: sample_visit_def)
  with d w show ?thesis by blast
qed

definition sample_hash :: bytes where
  "sample_hash = ''$2b$10$'' @ replicate 53 (CHR ''.'')"

definition sample_basic :: basic_auth where
  "sample_basic = \<lparr>ba_realm = ''restricted'', ba_users = [\<lparr>au_name = ''a'', au_hash = SecretEnv ''A''\<rparr>]\<rparr>"

definition sample_basic_node :: node where
  "sample_basic_node = Node ''basic-auth'' [] [] [Node ''user'' [ScalarStr ''a''] [(''hash'', ScalarStr ''env:A'')] []]"

lemma sample_basic_decode: "basic_auth_decode sample_basic_node [] = (Some sample_basic, [])"
  by code_simp

lemma sample_cost: "parse_unsigned u32_max ''10'' = Some 10"
proof -
  have "''10'' = show_nat 10" by code_simp
  moreover have "(10 :: nat) \<le> u32_max" by (simp add: u32_max_def)
  ultimately show ?thesis using parse_show_nat by metis
qed

lemma sample_hash_valid: "bcrypt_valid sample_hash"
proof -
  have parts: "length sample_hash = 60" "take 4 sample_hash = ''$2b$''" "sample_hash ! 6 = CHR ''$''"
    "take 2 (drop 4 sample_hash) = ''10''" "drop 7 sample_hash = replicate 53 (CHR ''.'')"
    "sample_hash ! 28 = CHR ''.''" "sample_hash ! 59 = CHR ''.''"
    by code_simp+
  have digits: "list_all is_ascii_digit ''10''" "list_all (\<lambda>b. b \<in> set bcrypt_alphabet) (replicate 53 (CHR ''.''))"
    "canonical_digit 16 (CHR ''.'')" "canonical_digit 4 (CHR ''.'')"
    by code_simp+
  show ?thesis unfolding bcrypt_valid_def parts sample_cost using digits by simp
qed

lemma sample_basic_build: "\<exists>a. basic_auth_build plain_http (\<lambda>_. Some sample_hash) sample_basic = Some a"
  by (simp add: basic_auth_build_def credential_parse_def plain_http_def sample_hash_valid sample_basic_def)

lemma sample_presents: "presents plain_http sample_visit ''a'' ''b''"
proof -
  have "get_all ''authorization'' (vs_headers sample_visit) = [''Basic YTpi'']" "trim ''YTpi'' = base64_encode (''a'' @ CHR 0x3A # ''b'')"
    "eq_ignore_ascii_case ''Basic'' ''Basic''" "utf8_valid (''a'' @ CHR 0x3A # ''b'')"
    by code_simp+
  moreover have "value_str plain_http ''Basic YTpi'' = Some (''Basic'' @ CHR '' '' # ''YTpi'')" by (simp add: plain_http_def)
  ultimately show ?thesis unfolding presents_def by (intro conjI exI [of _ "''Basic YTpi''"] exI [of _ "''Basic''"] exI [of _ "''YTpi''"]) simp_all
qed

theorem basic_auth_exact_witness:
  "\<exists>a. basic_auth_decode sample_basic_node [] = (Some sample_basic, []) \<and>
     basic_auth_build plain_http (\<lambda>_. Some sample_hash) sample_basic = Some a \<and>
     basic_auth_handle plain_http (\<lambda>p _. p = ''b'') True a (\<lambda>v. v) sample_visit = sample_visit"
proof -
  obtain a where a: "basic_auth_build plain_http (\<lambda>_. Some sample_hash) sample_basic = Some a"
    using sample_basic_build by blast
  have "basic_auth_handle plain_http (\<lambda>p _. p = ''b'') True a (\<lambda>v. v) sample_visit = sample_visit"
    unfolding basic_auth_exact [OF sample_basic_decode a]
    by (rule if_P) (use sample_presents sample_hash_valid in \<open>auto simp: sample_basic_def\<close>)
  with sample_basic_decode a show ?thesis by blast
qed

theorem guards_decide_chain_witness:
  "run_chain (map (guard_handle \<lparr>gw_http = plain_http, gw_bcrypt = (\<lambda>_ _. False), gw_capacity = True, gw_service = (\<lambda>_. None)\<rparr>)
     [GuardIp \<lparr>if_allow = [], if_deny = []\<rparr>, GuardLimit 9]) (\<lambda>u. u\<lparr>vs_status := vs_body_limit u\<rparr>) sample_visit =
   (install_limit 9 sample_visit)\<lparr>vs_body := vs_body sample_visit, vs_status := Some 9\<rparr>"
proof -
  let ?w = "\<lparr>gw_http = plain_http, gw_bcrypt = (\<lambda>_ _. False), gw_capacity = True, gw_service = (\<lambda>_. None)\<rparr>"
  let ?gs = "[GuardIp \<lparr>if_allow = [], if_deny = []\<rparr>, GuardLimit 9]"
  have "limit_declared plain_http sample_visit = None" "limited_frames 9 0 (vs_body sample_visit) = vs_body sample_visit" by code_simp+
  then have j: "guards_journey ?w ?gs sample_visit = Inr ((install_limit 9 sample_visit)\<lparr>vs_body := vs_body sample_visit\<rparr>)"
    by (simp add: sample_visit_def)
  have "run_chain (map (guard_handle ?w) ?gs) t sample_visit = t ((install_limit 9 sample_visit)\<lparr>vs_body := vs_body sample_visit\<rparr>)" for t
    using guards_decide_chain [where w = ?w and gs = ?gs and v = sample_visit] unfolding j by simp
  then show ?thesis by (simp add: install_limit_def sample_visit_def)
qed

end
