(* ===== verification/Transforms.thy ===== *)
theory Transforms
  imports Guard_Laws Static_Files "HOL-Library.Word"
begin

text \<open>
  The directives of the standard bundle that change a request or a response, or answer by themselves
  (\<open>gatel-bundle-std/src\<close>): \<open>headers.rs\<close>, \<open>rewrite.rs\<close>, \<open>redirect.rs\<close>, \<open>trailing_slash.rs\<close>, \<open>force_https.rs\<close>,
  \<open>respond.rs\<close> and \<open>request_id.rs\<close>. Handlers are as in \<open>Guards\<close>; a terminal does not use the rest of the chain.
\<close>

subsection \<open>\<open>headers\<close>\<close>

definition PROTECTED :: "bytes list" where
  "PROTECTED = [''connection'', ''content-length'', ''host'', ''keep-alive'', ''te'', ''trailer'', ''transfer-encoding'', ''upgrade'']"

definition MAX_OPERATIONS :: nat where
  "MAX_OPERATIONS = 64"

fun op_hash :: "header_op \<Rightarrow> hasher \<Rightarrow> hasher" where
  "op_hash (OpSet n v) h = update_str v (update_str n (update_str ''set'' h))"
| "op_hash (OpAdd n v) h = update_str v (update_str n (update_str ''add'' h))"
| "op_hash (OpRemove n) h = update_str n (update_str ''remove'' h)"

record headers_config =
  hc_request :: "header_op list"
  hc_response :: "header_op list"

definition headers_hash :: "digest \<Rightarrow> headers_config \<Rightarrow> hasher \<Rightarrow> hasher" where
  "headers_hash digest c h = update_ordered digest (hc_response c) op_hash (update_ordered digest (hc_request c) op_hash h)"

definition headers_describe :: "headers_config \<Rightarrow> bytes" where
  "headers_describe c = ''headers '' @ show_nat (length (hc_request c)) @ '' request, '' @ show_nat (length (hc_response c)) @ '' response''"

text \<open>The operation of a child node by its name and its arguments, or what is reported.\<close>

definition select_operation :: "bytes \<Rightarrow> bytes \<Rightarrow> bytes list \<Rightarrow> (diagnostics \<Rightarrow> diagnostics) + header_op" where
  "select_operation kind lowered args =
     (if kind = ''remove'' \<and> length args = 1 then Inr (OpRemove lowered)
      else if kind = ''set'' \<and> length args = 2 then Inr (OpSet lowered (args ! 1))
      else if kind = ''add'' \<and> length args = 2 then Inr (OpAdd lowered (args ! 1))
      else if kind = ''set'' \<or> kind = ''add'' then Inl (push_error ArgumentCount)
      else if kind = ''remove'' then Inl (push_error ArgumentCount)
      else Inl (push_suggested UnknownNode kind [''set'', ''add'', ''remove'']))"

fun op_value :: "header_op \<Rightarrow> bytes option" where
  "op_value (OpSet n v) = Some v"
| "op_value (OpAdd n v) = Some v"
| "op_value (OpRemove n) = None"

fun op_name :: "header_op \<Rightarrow> bytes" where
  "op_name (OpSet n v) = n"
| "op_name (OpAdd n v) = n"
| "op_name (OpRemove n) = n"

definition header_operation :: "http_crate \<Rightarrow> node \<Rightarrow> (diagnostics \<Rightarrow> diagnostics) + header_op" where
  "header_operation http c =
     (let args = List.map_filter as_str (node_args c) in
      if length args \<noteq> length (node_args c) then Inl (push_error InvalidValue)
      else case args of
        [] \<Rightarrow> Inl (push_error ArgumentCount)
      | name # _ \<Rightarrow>
          let lowered = to_ascii_lowercase name in
          if \<not> name_valid http lowered then Inl (push_error InvalidValue)
          else if lowered \<in> set PROTECTED then
            Inl (push_help InvalidValue ''it controls framing or routing, which configuration must not reach past'')
          else case select_operation (node_name c) lowered args of
            Inl report \<Rightarrow> Inl report
          | Inr operation \<Rightarrow>
              if (case op_value operation of Some v \<Rightarrow> value_of http v = None | None \<Rightarrow> False)
              then Inl (push_error InvalidValue) else Inr operation)"

fun decode_operations :: "http_crate \<Rightarrow> node list \<Rightarrow> header_op list \<Rightarrow> diagnostics \<Rightarrow> header_op list \<times> diagnostics" where
  "decode_operations http [] into ds = (into, ds)"
| "decode_operations http (c # cs) into ds =
     (case header_operation http c of
        Inl report \<Rightarrow> decode_operations http cs into (report ds)
      | Inr operation \<Rightarrow> decode_operations http cs (into @ [operation]) ds)"

fun headers_children :: "http_crate \<Rightarrow> node list \<Rightarrow> headers_config \<Rightarrow> diagnostics \<Rightarrow> headers_config \<times> diagnostics" where
  "headers_children http [] c ds = (c, ds)"
| "headers_children http (n # ns) c ds =
     (if node_name n = ''request'' then
        (case decode_operations http (node_children n) (hc_request c) ds of
           (ops, ds) \<Rightarrow> headers_children http ns (c\<lparr>hc_request := ops\<rparr>) ds)
      else if node_name n = ''response'' then
        (case decode_operations http (node_children n) (hc_response c) ds of
           (ops, ds) \<Rightarrow> headers_children http ns (c\<lparr>hc_response := ops\<rparr>) ds)
      else headers_children http ns c (push_suggested UnknownNode (node_name n) [''request'', ''response''] ds))"

definition headers_decode :: "http_crate \<Rightarrow> headers_config node_decoder" where
  "headers_decode http n ds =
     (case headers_children http (node_children n) \<lparr>hc_request = [], hc_response = []\<rparr> ds of
        (c, ds1) \<Rightarrow>
          let ds2 = push_each UnknownProperty (node_props n) ds1;
              ds3 = (if hc_request c = [] \<and> hc_response c = [] \<and> error_count ds2 = error_count ds
                     then push_help MissingField (''write `headers { response { set '' @ [CHR 0x22] @ ''x-name'' @ [CHR 0x22] @ '' '' @
                       [CHR 0x22] @ ''value'' @ [CHR 0x22] @ '' } }`'') ds2 else ds2);
              ds4 = (if MAX_OPERATIONS < length (hc_request c) + length (hc_response c) then push_error InvalidValue ds3 else ds3) in
          if error_count ds < error_count ds4 then (None, ds4) else (Some c, ds4))"

text \<open>\<open>compile\<close>: names and values as the \<open>http\<close> crate has them.\<close>

fun compile_op :: "http_crate \<Rightarrow> header_op \<Rightarrow> header_op option" where
  "compile_op http (OpSet n v) = (if name_valid http n then map_option (OpSet n) (value_of http v) else None)"
| "compile_op http (OpAdd n v) = (if name_valid http n then map_option (OpAdd n) (value_of http v) else None)"
| "compile_op http (OpRemove n) = (if name_valid http n then Some (OpRemove n) else None)"

fun compile_ops :: "http_crate \<Rightarrow> header_op list \<Rightarrow> header_op list option" where
  "compile_ops http [] = Some []"
| "compile_ops http (x # xs) = Option.bind (compile_op http x) (\<lambda>y. map_option ((#) y) (compile_ops http xs))"

definition headers_build :: "http_crate \<Rightarrow> headers_config \<Rightarrow> headers_config option" where
  "headers_build http c =
     Option.bind (compile_ops http (hc_request c)) (\<lambda>rq.
     Option.bind (compile_ops http (hc_response c)) (\<lambda>rs. Some \<lparr>hc_request = rq, hc_response = rs\<rparr>))"

fun apply_op :: "header_op \<Rightarrow> header_map \<Rightarrow> header_map" where
  "apply_op (OpSet n v) h = insert_header n v h"
| "apply_op (OpAdd n v) h = append_header n v h"
| "apply_op (OpRemove n) h = remove_header n h"

definition apply_ops :: "header_op list \<Rightarrow> header_map \<Rightarrow> header_map" where
  "apply_ops ops h = fold apply_op ops h"

definition file_preview :: "visit \<Rightarrow> header_map \<Rightarrow> header_map" where
  "file_preview v h = fold apply_ops (rev (vs_preview v)) h"

definition headers_handle :: "headers_config \<Rightarrow> handler" where
  "headers_handle c rest v =
     (let v = v\<lparr>vs_headers := apply_ops (hc_request c) (vs_headers v)\<rparr>;
          previous = vs_preview v;
          v = rest (v\<lparr>vs_preview := previous @ [hc_response c]\<rparr>);
          v = v\<lparr>vs_preview := previous\<rparr> in
      v\<lparr>vs_out_headers := apply_ops (hc_response c) (vs_out_headers v)\<rparr>)"

subsection \<open>\<open>rewrite\<close>\<close>

record rewrite_config =
  rw_strip_prefix :: "bytes option"
  rw_prefix :: "bytes option"
  rw_to :: "bytes option"

definition rewrite_strip :: "bytes option \<Rightarrow> bytes \<Rightarrow> bytes" where
  "rewrite_strip strip path =
     (case Option.bind strip (\<lambda>s. strip_prefix s path) of
        Some r \<Rightarrow> if starts_with ''/'' r then r else ''/'' @ r
      | None \<Rightarrow> path)"

definition rewrite_apply :: "rewrite_config \<Rightarrow> bytes \<Rightarrow> bytes option" where
  "rewrite_apply c path =
     (case rw_to c of
        Some target \<Rightarrow> if target \<noteq> path then Some target else None
      | None \<Rightarrow>
          let rewritten = rewrite_strip (rw_strip_prefix c) path;
              rewritten = (case rw_prefix c of Some p \<Rightarrow> trim_end_char (CHR ''/'') p @ rewritten | None \<Rightarrow> rewritten) in
          if rewritten \<noteq> path then Some rewritten else None)"

definition rewrite_hash :: "rewrite_config \<Rightarrow> hasher \<Rightarrow> hasher" where
  "rewrite_hash c h = update_opt_str (rw_to c) (update_opt_str (rw_prefix c) (update_opt_str (rw_strip_prefix c) h))"

definition rewrite_describe :: "rewrite_config \<Rightarrow> bytes" where
  "rewrite_describe c =
     (case (rw_to c, rw_strip_prefix c, rw_prefix c) of
        (Some t, _, _) \<Rightarrow> ''rewrite to '' @ t
      | (None, Some s, Some p) \<Rightarrow> ''rewrite '' @ s @ '' -> '' @ p
      | (None, Some s, None) \<Rightarrow> ''rewrite strip '' @ s
      | (None, None, Some p) \<Rightarrow> ''rewrite prefix '' @ p
      | (None, None, None) \<Rightarrow> ''rewrite (nothing)'')"

definition rewrite_reads :: "node_reader \<Rightarrow> (bytes option \<times> bytes option \<times> bytes option) \<times> node_reader" where
  "rewrite_reads rd =
     (case reader_opt_prop string_from_value ''strip-prefix'' rd of (s, rd) \<Rightarrow>
      case reader_opt_prop string_from_value ''prefix'' rd of (p, rd) \<Rightarrow>
      case reader_opt_prop string_from_value ''to'' rd of (t, rd) \<Rightarrow> ((s, p, t), rd))"

definition rewrite_fields :: "bytes option \<times> bytes option \<times> bytes option \<Rightarrow> rewrite_config option" where
  "rewrite_fields f = (case f of (s, p, t) \<Rightarrow> Some \<lparr>rw_strip_prefix = s, rw_prefix = p, rw_to = t\<rparr>)"

definition rewrite_check :: "rewrite_config \<Rightarrow> diagnostic + rewrite_config" where
  "rewrite_check c =
     (if rw_to c \<noteq> None \<and> (rw_strip_prefix c \<noteq> None \<or> rw_prefix c \<noteq> None) then Inl (with_help InvalidValue ''use one or the other'')
      else if rw_to c = None \<and> rw_strip_prefix c = None \<and> rw_prefix c = None then
        Inl (with_help MissingField ''a rewrite that changes nothing is a mistake, not a no-op'')
      else if list_ex (\<lambda>x. case x of Some p \<Rightarrow> \<not> starts_with ''/'' p | None \<Rightarrow> False) [rw_strip_prefix c, rw_prefix c, rw_to c]
        then Inl (diag_error InvalidValue)
      else Inr c)"

definition rewrite_decode :: "rewrite_config node_decoder" where
  "rewrite_decode = checked_decode (derive_from_node rewrite_reads rewrite_fields) rewrite_check"

text \<open>\<open>rebuild\<close> parses the target with the \<open>http\<close> crate: the URI with its path and query replaced.\<close>

definition rewrite_handle :: "(http_uri \<Rightarrow> bytes \<Rightarrow> http_uri option) \<Rightarrow> rewrite_config \<Rightarrow> handler" where
  "rewrite_handle rebuild c rest v =
     rest (case rewrite_apply c (uri_path (vs_uri v)) of
       None \<Rightarrow> v
     | Some rewritten \<Rightarrow>
         (let target = (case uri_query (vs_uri v) of Some q \<Rightarrow> rewritten @ ''?'' @ q | None \<Rightarrow> rewritten) in
          case rebuild (vs_uri v) target of Some u \<Rightarrow> v\<lparr>vs_uri := u\<rparr> | None \<Rightarrow> v))"

subsection \<open>\<open>redirect\<close>\<close>

text \<open>\<open>StatusCode::from_u16\<close> and \<open>u16::from_value\<close>.\<close>

definition status_from_u16 :: "nat \<Rightarrow> nat option" where
  "status_from_u16 n = (if 100 \<le> n \<and> n \<le> 999 then Some n else None)"

definition u16_from_value :: "nat value_decoder" where
  "u16_from_value v = and_then (int_from_value 0 (int u16_max) v) (\<lambda>i. Inr (nat i))"

record redirect_config =
  rd_to :: bytes
  rd_status :: nat

definition redirect_hash :: "redirect_config \<Rightarrow> hasher \<Rightarrow> hasher" where
  "redirect_hash c h = update_u64 (rd_status c) (update_str (rd_to c) h)"

definition redirect_describe :: "redirect_config \<Rightarrow> bytes" where
  "redirect_describe c = ''redirect '' @ show_nat (rd_status c) @ '' -> '' @ rd_to c"

definition redirect_reads :: "node_reader \<Rightarrow> (bytes option \<times> bool option \<times> nat option) \<times> node_reader" where
  "redirect_reads rd =
     (case reader_arg string_from_value rd of (t, rd) \<Rightarrow>
      case reader_opt_prop bool_from_value ''permanent'' rd of (p, rd) \<Rightarrow>
      case reader_opt_prop u16_from_value ''status'' rd of (s, rd) \<Rightarrow> ((t, p, s), rd))"

definition redirect_fields :: "bytes option \<times> bool option \<times> nat option \<Rightarrow> (bytes \<times> bool \<times> nat option) option" where
  "redirect_fields f = (case f of (t, p, s) \<Rightarrow> map_option (\<lambda>t. (t, case p of Some b \<Rightarrow> b | None \<Rightarrow> False, s)) t)"

definition redirect_status :: "nat option \<Rightarrow> bool \<Rightarrow> diagnostic + nat" where
  "redirect_status explicit permanent =
     (case explicit of
        Some n \<Rightarrow>
          (case status_from_u16 n of
             Some st \<Rightarrow> if 300 \<le> st \<and> st < 400 then Inr st else Inl (diag_error InvalidValue)
           | None \<Rightarrow> Inl (diag_error InvalidValue))
      | None \<Rightarrow> Inr (if permanent then 308 else 307))"

definition redirect_check :: "bytes \<times> bool \<times> nat option \<Rightarrow> diagnostic + redirect_config" where
  "redirect_check f =
     (case f of (t, permanent, explicit) \<Rightarrow>
       and_then (redirect_status explicit permanent) (\<lambda>st.
         if explicit \<noteq> None \<and> permanent then Inl (with_help InvalidValue ''keep `status`, which is the more precise one'')
         else if trim t = [] then Inl (diag_error InvalidValue)
         else Inr \<lparr>rd_to = t, rd_status = st\<rparr>))"

definition redirect_decode :: "redirect_config node_decoder" where
  "redirect_decode = checked_decode (derive_from_node redirect_reads redirect_fields) redirect_check"

definition redirect_build :: "http_crate \<Rightarrow> redirect_config \<Rightarrow> redirect_config option" where
  "redirect_build http c = map_option (\<lambda>l. c\<lparr>rd_to := l\<rparr>) (value_of http (rd_to c))"

definition redirect_handle :: "redirect_config \<Rightarrow> handler" where
  "redirect_handle c rest v = put_header ''location'' (rd_to c) (v\<lparr>vs_status := Some (rd_status c)\<rparr>)"

subsection \<open>\<open>trailing-slash\<close>\<close>

datatype slash_style = AddSlash | RemoveSlash

fun slash_str :: "slash_style \<Rightarrow> bytes" where
  "slash_str AddSlash = ''add''"
| "slash_str RemoveSlash = ''remove''"

definition looks_like_a_file :: "bytes \<Rightarrow> bool" where
  "looks_like_a_file path = (let final_part = last (split_at (CHR ''/'') path) in CHR ''.'' \<in> set final_part \<and> \<not> starts_with ''.'' final_part)"

definition slash_canonical :: "slash_style \<Rightarrow> bytes \<Rightarrow> bytes option" where
  "slash_canonical style path =
     (if path = ''/'' \<or> path = [] then None
      else case style of
        AddSlash \<Rightarrow> if \<not> ends_with ''/'' path then (if looks_like_a_file path then None else Some (path @ ''/'')) else None
      | RemoveSlash \<Rightarrow> if ends_with ''/'' path then Some (trim_end_char (CHR ''/'') path) else None)"

definition slash_hash :: "slash_style \<Rightarrow> hasher \<Rightarrow> hasher" where
  "slash_hash style = update_str (slash_str style)"

definition slash_describe :: "slash_style \<Rightarrow> bytes" where
  "slash_describe style = ''trailing-slash '' @ slash_str style"

definition slash_check :: "bytes option \<Rightarrow> diagnostic + slash_style" where
  "slash_check t =
     (if t = Some ''add'' then Inr AddSlash
      else if t = Some ''remove'' then Inr RemoveSlash
      else Inl (with_help InvalidValue (''`trailing-slash '' @ [CHR 0x22] @ ''add'' @ [CHR 0x22] @ ''` or `trailing-slash '' @
        [CHR 0x22] @ ''remove'' @ [CHR 0x22] @ ''`'')))"

definition slash_decode :: "slash_style node_decoder" where
  "slash_decode = checked_decode (derive_from_node (reader_opt_arg string_from_value) Some) slash_check"

definition slash_handle :: "http_crate \<Rightarrow> slash_style \<Rightarrow> handler" where
  "slash_handle http style rest v =
     (case slash_canonical style (uri_path (vs_uri v)) of
        None \<Rightarrow> rest v
      | Some spelled \<Rightarrow>
          (case redirect_location http spelled (uri_query (vs_uri v)) of
             None \<Rightarrow> rest v
           | Some location \<Rightarrow> put_header ''location'' location (v\<lparr>vs_status := Some 308\<rparr>)))"

subsection \<open>\<open>force-https\<close>\<close>

record https_config =
  fh_port :: "nat option"
  fh_status :: nat

definition https_hash :: "https_config \<Rightarrow> hasher \<Rightarrow> hasher" where
  "https_hash c h = update_u64 (fh_status c) (case fh_port c of Some p \<Rightarrow> update_u64 p h | None \<Rightarrow> update_none h)"

definition https_describe :: "https_config \<Rightarrow> bytes" where
  "https_describe c =
     (case fh_port c of
        Some p \<Rightarrow> ''force-https '' @ show_nat (fh_status c) @ '' -> :'' @ show_nat p
      | None \<Rightarrow> ''force-https '' @ show_nat (fh_status c))"

definition https_reads :: "node_reader \<Rightarrow> (nat option \<times> bool option) \<times> node_reader" where
  "https_reads rd =
     (case reader_opt_prop u16_from_value ''port'' rd of (p, rd) \<Rightarrow>
      case reader_opt_prop bool_from_value ''permanent'' rd of (b, rd) \<Rightarrow> ((p, b), rd))"

definition https_fields :: "nat option \<times> bool option \<Rightarrow> (nat option \<times> bool) option" where
  "https_fields f = (case f of (p, b) \<Rightarrow> Some (p, case b of Some x \<Rightarrow> x | None \<Rightarrow> True))"

definition https_check :: "nat option \<times> bool \<Rightarrow> diagnostic + https_config" where
  "https_check f =
     (case f of (p, permanent) \<Rightarrow>
       if p = Some 0 then Inl (diag_error InvalidValue)
       else Inr \<lparr>fh_port = p, fh_status = (if permanent then 308 else 307)\<rparr>)"

definition https_decode :: "https_config node_decoder" where
  "https_decode = checked_decode (derive_from_node https_reads https_fields) https_check"

definition https_location :: "http_crate \<Rightarrow> https_config \<Rightarrow> visit \<Rightarrow> bytes option" where
  "https_location http c v =
     Option.bind (visit_authority http v) (\<lambda>authority.
       let host = hd (split_at (CHR 0x3A) authority);
           target = (case uri_path_and_query (vs_uri v) of Some p \<Rightarrow> p | None \<Rightarrow> ''/'');
           url = (if fh_port c = Some 443 \<or> fh_port c = None then ''https://'' @ host @ target
                  else ''https://'' @ host @ '':'' @ show_nat (the (fh_port c)) @ target) in
       value_of http url)"

definition https_handle :: "http_crate \<Rightarrow> https_config \<Rightarrow> handler" where
  "https_handle http c rest v =
     (if vs_tls v then rest v
      else case https_location http c v of
        None \<Rightarrow> refuse 400 (''400 no host to redirect to'' @ [CHR 0x0A]) v
      | Some location \<Rightarrow> put_header ''location'' location (v\<lparr>vs_status := Some (fh_status c)\<rparr>))"

subsection \<open>\<open>respond\<close>\<close>

record respond_config =
  rp_status :: nat
  rp_body :: bytes
  rp_content_type :: "bytes option"

definition respond_max_body :: nat where
  "respond_max_body = 64 * 1024"

definition respond_hash :: "respond_config \<Rightarrow> hasher \<Rightarrow> hasher" where
  "respond_hash c h = update_opt_str (rp_content_type c) (update_str (rp_body c) (update_u64 (rp_status c) h))"

definition respond_reads :: "node_reader \<Rightarrow> (bytes option \<times> nat option \<times> bytes option) \<times> node_reader" where
  "respond_reads rd =
     (case reader_opt_arg string_from_value rd of (b, rd) \<Rightarrow>
      case reader_opt_prop u16_from_value ''status'' rd of (s, rd) \<Rightarrow>
      case reader_opt_prop string_from_value ''content-type'' rd of (t, rd) \<Rightarrow> ((b, s, t), rd))"

definition respond_fields :: "bytes option \<times> nat option \<times> bytes option \<Rightarrow> (bytes \<times> nat \<times> bytes option) option" where
  "respond_fields f =
     (case f of (b, s, t) \<Rightarrow> Some (case b of Some x \<Rightarrow> x | None \<Rightarrow> [], case s of Some n \<Rightarrow> n | None \<Rightarrow> 200, t))"

definition respond_check :: "bytes \<times> nat \<times> bytes option \<Rightarrow> diagnostic + respond_config" where
  "respond_check f =
     (case f of (b, s, t) \<Rightarrow>
       if status_from_u16 s = None \<or> \<not> (100 \<le> s \<and> s \<le> 599) then Inl (diag_error InvalidValue)
       else if respond_max_body < length b then Inl (with_help InvalidValue ''serve larger content from a file instead'')
       else if b \<noteq> [] \<and> (s = 204 \<or> s = 304) then Inl (diag_error InvalidValue)
       else Inr \<lparr>rp_status = s, rp_body = b, rp_content_type = t\<rparr>)"

definition respond_decode :: "respond_config node_decoder" where
  "respond_decode = checked_decode (derive_from_node respond_reads respond_fields) respond_check"

definition respond_handle :: "http_crate \<Rightarrow> respond_config \<Rightarrow> handler" where
  "respond_handle http c rest v =
     (let v = v\<lparr>vs_status := Some (rp_status c)\<rparr>;
          v = set_opt ''content-type'' (value_of http (case rp_content_type c of Some t \<Rightarrow> t | None \<Rightarrow> ''text/plain; charset=utf-8'')) v in
      if vs_method v = ''HEAD'' then v else write_body (rp_body c) v)"

subsection \<open>\<open>request-id\<close>\<close>

record request_id_config =
  rq_header :: bytes
  rq_trust_client :: bool

definition request_id_hash :: "request_id_config \<Rightarrow> hasher \<Rightarrow> hasher" where
  "request_id_hash c h = update_bool (rq_trust_client c) (update_str (rq_header c) h)"

definition request_id_describe :: "request_id_config \<Rightarrow> bytes" where
  "request_id_describe c = ''request-id '' @ rq_header c @ (if rq_trust_client c then '' (trusting the client)'' else [])"

definition request_id_reads :: "node_reader \<Rightarrow> (bytes option \<times> bool option) \<times> node_reader" where
  "request_id_reads rd =
     (case reader_opt_prop string_from_value ''header'' rd of (h, rd) \<Rightarrow>
      case reader_opt_prop bool_from_value ''trust-client'' rd of (b, rd) \<Rightarrow> ((h, b), rd))"

definition request_id_fields :: "bytes option \<times> bool option \<Rightarrow> request_id_config option" where
  "request_id_fields f =
     (case f of (h, b) \<Rightarrow> Some \<lparr>rq_header = to_ascii_lowercase (case h of Some x \<Rightarrow> x | None \<Rightarrow> ''x-request-id''),
        rq_trust_client = (case b of Some x \<Rightarrow> x | None \<Rightarrow> False)\<rparr>)"

definition request_id_decode :: "request_id_config node_decoder" where
  "request_id_decode = derive_from_node request_id_reads request_id_fields"

definition request_id_build :: "http_crate \<Rightarrow> request_id_config \<Rightarrow> request_id_config option" where
  "request_id_build http c = (if name_valid http (rq_header c) then Some c else None)"

definition is_reasonable :: "bytes \<Rightarrow> bool" where
  "is_reasonable t \<longleftrightarrow> t \<noteq> [] \<and> length t \<le> 64 \<and>
     list_all (\<lambda>b. is_ascii_alphabetic b \<or> is_ascii_digit b \<or> b \<in> {CHR ''-'', CHR ''_'', CHR ''.'', CHR 0x3A}) t"

text \<open>
  The id of a request, given the prefix of the process and what \<open>fetch_add\<close> would give; and whether the
  counter moved.
\<close>

definition request_id_of :: "http_crate \<Rightarrow> request_id_config \<Rightarrow> bytes \<Rightarrow> 64 word \<Rightarrow> visit \<Rightarrow> bytes \<times> 64 word" where
  "request_id_of http c prefix counter v =
     (case (if rq_trust_client c then Option.bind (get_header (rq_header c) (vs_headers v)) (value_str http) else None) of
        Some t \<Rightarrow> if is_reasonable t then (t, counter) else (prefix @ ''-'' @ show_hex (unat counter), counter + 1)
      | None \<Rightarrow> (prefix @ ''-'' @ show_hex (unat counter), counter + 1))"

definition request_id_handle :: "http_crate \<Rightarrow> request_id_config \<Rightarrow> bytes \<Rightarrow> 64 word \<Rightarrow> handler" where
  "request_id_handle http c prefix counter rest v =
     (let rid = fst (request_id_of http c prefix counter v);
          v = (case value_of http rid of
                 Some x \<Rightarrow> put_header (rq_header c) x (v\<lparr>vs_headers := insert_header (rq_header c) x (vs_headers v)\<rparr>)
               | None \<Rightarrow> v) in
      rest (v\<lparr>vs_request_id := Some rid\<rparr>))"

subsection \<open>Decoders are strict\<close>

lemma header_operation_report: "header_operation http c = Inl report \<Longrightarrow> grows ds (report ds)"
  by (auto simp: header_operation_def select_operation_def Let_def split: if_splits list.splits sum.splits option.splits)

lemma decode_operations_grows: "decode_operations http cs into ds = (ops, ds') \<Longrightarrow> grows ds ds'"
proof (induction cs arbitrary: into ds)
  case (Cons c cs)
  show ?case
  proof (cases "header_operation http c")
    case (Inl report)
    with Cons.prems Cons.IH [of into "report ds"] header_operation_report [OF Inl, of ds] show ?thesis
      by (auto intro: grows_trans)
  qed (use Cons in auto)
qed simp

lemma headers_children_grows: "headers_children http ns c ds = (c', ds') \<Longrightarrow> grows ds ds'"
proof (induction ns arbitrary: c ds)
  case (Cons n ns)
  obtain o1 d1 where 1: "decode_operations http (node_children n) (hc_request c) ds = (o1, d1)" by fastforce
  obtain o2 d2 where 2: "decode_operations http (node_children n) (hc_response c) ds = (o2, d2)" by fastforce
  show ?case
    using Cons.prems Cons.IH 1 2 decode_operations_grows [OF 1] decode_operations_grows [OF 2]
    by (auto split: if_splits intro: grows_trans grows_trans [OF grows_push(3)])
qed simp

interpretation headers_decoder: strict_decoder "headers_decode http" for http
proof (rule conditional_strict)
  fix n ds
  obtain c ds1 where r: "headers_children http (node_children n) \<lparr>hc_request = [], hc_response = []\<rparr> ds = (c, ds1)" by fastforce
  define ds2 where "ds2 = push_each UnknownProperty (node_props n) ds1"
  define ds3 where "ds3 = (if hc_request c = [] \<and> hc_response c = [] \<and> error_count ds2 = error_count ds
     then push_help MissingField (''write `headers { response { set '' @ [CHR 0x22] @ ''x-name'' @ [CHR 0x22] @ '' '' @
       [CHR 0x22] @ ''value'' @ [CHR 0x22] @ '' } }`'') ds2 else ds2)"
  define ds4 where "ds4 = (if MAX_OPERATIONS < length (hc_request c) + length (hc_response c) then push_error InvalidValue ds3 else ds3)"
  have "grows ds1 ds2" "grows ds2 ds3" "grows ds3 ds4" by (auto simp: ds2_def ds3_def ds4_def push_each_grows)
  with headers_children_grows [OF r] have "grows ds ds4" by (blast intro: grows_trans)
  moreover have "headers_decode http n ds = (if error_count ds < error_count ds4 then (None, ds4) else (Some c, ds4))"
    unfolding headers_decode_def r ds4_def ds3_def ds2_def by (simp only: prod.case Let_def)
  ultimately show "\<exists>a ds'. headers_decode http n ds = (if error_count ds < error_count ds' then (None, ds') else (Some a, ds')) \<and> grows ds ds'"
    by blast
qed

lemma reads_ok_total:
  assumes "\<And>rd f rd'. reads rd = (f, rd') \<Longrightarrow> read_ok rd rd'" and "\<And>f. builds f \<noteq> None"
  shows "reads_ok reads builds"
  unfolding reads_ok_def using assms by blast

interpretation rewrite_fields_decoder: strict_decoder "derive_from_node rewrite_reads rewrite_fields"
proof (rule strict_decoderI, rule reads_ok_total)
  fix rd f rd' assume "rewrite_reads rd = (f, rd')"
  then show "read_ok rd rd'" by (auto simp: rewrite_reads_def split: prod.splits dest!: reader_opt_prop_ok) (meson read_ok_trans)
qed (simp add: rewrite_fields_def split: prod.splits)

interpretation rewrite_decoder: strict_decoder rewrite_decode
  unfolding rewrite_decode_def
  by (rule rewrite_fields_decoder.checked_strict) (auto simp: rewrite_check_def split: if_splits)

interpretation redirect_fields_decoder: strict_decoder "derive_from_node redirect_reads redirect_fields"
proof (rule strict_decoderI, unfold reads_ok_def, intro allI impI)
  fix rd f rd' assume "redirect_reads rd = (f, rd')"
  then obtain t p s rd1 rd2 where f: "f = (t, p, s)" and 1: "reader_arg string_from_value rd = (t, rd1)"
    and 2: "reader_opt_prop bool_from_value ''permanent'' rd1 = (p, rd2)"
    and 3: "reader_opt_prop u16_from_value ''status'' rd2 = (s, rd')"
    by (auto simp: redirect_reads_def split: prod.splits)
  note ok = reader_arg_ok [OF 1] reader_opt_prop_ok [OF 2] reader_opt_prop_ok [OF 3]
  then have "read_ok rd1 rd'" by (meson read_ok_trans)
  with ok(1) show "read_ok rd rd' \<and> (redirect_fields f = None \<longrightarrow> error_count (rd_diags rd) < error_count (rd_diags rd'))"
    unfolding f by (auto simp: redirect_fields_def read_ok_def)
qed

interpretation redirect_decoder: strict_decoder redirect_decode
  unfolding redirect_decode_def
  by (rule redirect_fields_decoder.checked_strict)
    (auto simp: redirect_check_def redirect_status_def and_then_Inl split: if_splits prod.splits option.splits)

interpretation slash_fields_decoder: strict_decoder "derive_from_node (reader_opt_arg string_from_value) Some"
  by (rule strict_decoderI, rule reads_ok_total) (auto dest: reader_opt_arg_ok)

interpretation slash_decoder: strict_decoder slash_decode
  unfolding slash_decode_def
  by (rule slash_fields_decoder.checked_strict) (auto simp: slash_check_def split: if_splits)

interpretation https_fields_decoder: strict_decoder "derive_from_node https_reads https_fields"
proof (rule strict_decoderI, rule reads_ok_total)
  fix rd f rd' assume "https_reads rd = (f, rd')"
  then show "read_ok rd rd'" by (auto simp: https_reads_def split: prod.splits dest!: reader_opt_prop_ok) (meson read_ok_trans)
qed (simp add: https_fields_def split: prod.splits)

interpretation https_decoder: strict_decoder https_decode
  unfolding https_decode_def
  by (rule https_fields_decoder.checked_strict) (auto simp: https_check_def split: if_splits prod.splits)

interpretation respond_fields_decoder: strict_decoder "derive_from_node respond_reads respond_fields"
proof (rule strict_decoderI, rule reads_ok_total)
  fix rd f rd' assume "respond_reads rd = (f, rd')"
  then show "read_ok rd rd'"
    by (auto simp: respond_reads_def split: prod.splits dest!: reader_opt_prop_ok reader_opt_arg_ok) (meson read_ok_trans)
qed (simp add: respond_fields_def split: prod.splits)

interpretation respond_decoder: strict_decoder respond_decode
  unfolding respond_decode_def
  by (rule respond_fields_decoder.checked_strict) (auto simp: respond_check_def split: if_splits prod.splits)

interpretation request_id_decoder: strict_decoder request_id_decode
  unfolding request_id_decode_def
proof (rule strict_decoderI, rule reads_ok_total)
  fix rd f rd' assume "request_id_reads rd = (f, rd')"
  then show "read_ok rd rd'" by (auto simp: request_id_reads_def split: prod.splits dest!: reader_opt_prop_ok) (meson read_ok_trans)
qed (simp add: request_id_fields_def split: prod.splits)

subsection \<open>Headers the gateway owns\<close>

lemma header_operation_unprotected: "header_operation http c = Inr operation \<Longrightarrow> op_name operation \<notin> set PROTECTED"
  by (auto simp: header_operation_def select_operation_def Let_def split: if_splits list.splits sum.splits option.splits)

definition unprotected :: "header_op list \<Rightarrow> bool" where
  "unprotected ops \<longleftrightarrow> list_all (\<lambda>x. op_name x \<notin> set PROTECTED) ops"

lemma decode_operations_unprotected:
  "decode_operations http cs into ds = (ops, ds') \<Longrightarrow> unprotected into \<Longrightarrow> unprotected ops"
proof (induction cs arbitrary: into ds)
  case (Cons c cs)
  show ?case
  proof (cases "header_operation http c")
    case (Inr x)
    with Cons.prems Cons.IH [of "into @ [x]" ds] header_operation_unprotected [OF Inr] show ?thesis
      by (auto simp: unprotected_def)
  qed (use Cons in auto)
qed simp

lemma headers_children_unprotected:
  "headers_children http ns c ds = (c', ds') \<Longrightarrow> unprotected (hc_request c) \<Longrightarrow> unprotected (hc_response c) \<Longrightarrow>
    unprotected (hc_request c') \<and> unprotected (hc_response c')"
proof (induction ns arbitrary: c ds)
  case (Cons n ns)
  obtain o1 d1 where 1: "decode_operations http (node_children n) (hc_request c) ds = (o1, d1)" by fastforce
  obtain o2 d2 where 2: "decode_operations http (node_children n) (hc_response c) ds = (o2, d2)" by fastforce
  consider "node_name n = ''request''" | "node_name n \<noteq> ''request''" "node_name n = ''response''"
    | "node_name n \<noteq> ''request''" "node_name n \<noteq> ''response''" by blast
  then show ?case
  proof cases
    case 1
    with Cons.prems Cons.IH [of "c\<lparr>hc_request := o1\<rparr>" d1] decode_operations_unprotected [OF \<open>decode_operations _ _ (hc_request c) _ = _\<close>]
    show ?thesis using \<open>decode_operations _ _ (hc_request c) _ = _\<close> by simp
  next
    case 2
    with Cons.prems Cons.IH [of "c\<lparr>hc_response := o2\<rparr>" d2] decode_operations_unprotected [OF \<open>decode_operations _ _ (hc_response c) _ = _\<close>]
    show ?thesis using \<open>decode_operations _ _ (hc_response c) _ = _\<close> by simp
  next
    case 3
    with Cons.prems Cons.IH show ?thesis by simp
  qed
qed simp

lemma headers_decode_unprotected:
  assumes "headers_decode http n ds = (Some c, ds')"
  shows "unprotected (hc_request c) \<and> unprotected (hc_response c)"
proof -
  obtain c1 ds1 where r: "headers_children http (node_children n) \<lparr>hc_request = [], hc_response = []\<rparr> ds = (c1, ds1)" by fastforce
  have "c1 = c" using assms by (simp add: headers_decode_def r Let_def split: if_splits)
  with headers_children_unprotected [OF r] show ?thesis by (simp add: unprotected_def)
qed

lemma compile_ops_unprotected: "compile_ops http ops = Some xs \<Longrightarrow> unprotected ops \<Longrightarrow> unprotected xs"
proof (induction ops arbitrary: xs)
  case (Cons x ops)
  then obtain y ys where xy: "compile_op http x = Some y" "compile_ops http ops = Some ys" "xs = y # ys"
    by (auto simp: bind_eq_Some_conv)
  have "op_name y = op_name x" using xy(1) by (cases x) (auto split: if_splits)
  with Cons xy show ?case by (auto simp: unprotected_def)
qed simp

lemma get_all_apply_op: "op_name x \<noteq> n \<Longrightarrow> get_all n (apply_op x h) = get_all n h"
  by (cases x) auto

lemma get_all_apply_ops: "unprotected ops \<Longrightarrow> n \<in> set PROTECTED \<Longrightarrow> get_all n (apply_ops ops h) = get_all n h"
proof (induction ops arbitrary: h)
  case (Cons x ops)
  then have "op_name x \<noteq> n" by (auto simp: unprotected_def)
  with Cons show ?case by (simp add: apply_ops_def unprotected_def get_all_apply_op)
qed (simp add: apply_ops_def)

definition sample_headers :: node where
  "sample_headers = Node ''headers'' [] [] [Node ''request'' [] [] [Node ''set'' [ScalarStr ''X-A'', ScalarStr ''b''] [] []]]"

text \<open>
  C20: Configuration cannot reach past the gateway: whatever a \<open>headers\<close> block that was decoded and built does,
  the headers that control framing and routing are, for what is behind it, those of the request, and on
  the way out those of the response.
\<close>

theorem headers_protected:
  assumes "headers_decode http n ds = (Some c, ds')" and "headers_build http c = Some hc" and "name \<in> set PROTECTED"
  shows "\<exists>u. same_client v u \<and> get_all name (vs_headers u) = get_all name (vs_headers v) \<and>
    (\<forall>rest. get_all name (vs_out_headers (headers_handle hc rest v)) = get_all name (vs_out_headers (rest u)))"
proof -
  obtain rq rs where c: "compile_ops http (hc_request c) = Some rq" "compile_ops http (hc_response c) = Some rs"
    "hc = \<lparr>hc_request = rq, hc_response = rs\<rparr>" using assms(2) by (auto simp: headers_build_def bind_eq_Some_conv)
  have safe: "unprotected rq" "unprotected rs"
    using compile_ops_unprotected c(1,2) headers_decode_unprotected [OF assms(1)] by blast+
  let ?u = "v\<lparr>vs_headers := apply_ops rq (vs_headers v), vs_preview := vs_preview v @ [rs]\<rparr>"
  have "get_all name (vs_out_headers (headers_handle hc rest v)) = get_all name (vs_out_headers (rest ?u))" for rest
    using get_all_apply_ops [OF safe(2) assms(3)] by (simp add: headers_handle_def c(3) Let_def)
  moreover have "get_all name (vs_headers ?u) = get_all name (vs_headers v)" using get_all_apply_ops [OF safe(1) assms(3)] by simp
  ultimately show ?thesis by (intro exI [of _ ?u]) (simp add: same_client_def)
qed

theorem headers_protected_witness:
  "\<exists>c u. fst (headers_decode plain_http sample_headers []) = Some c \<and> c = \<lparr>hc_request = [OpSet ''x-a'' ''b''], hc_response = []\<rparr> \<and>
     (\<forall>rest. get_all ''host'' (vs_out_headers (headers_handle c rest sample_visit)) = get_all ''host'' (vs_out_headers (rest u)))"
proof -
  let ?c = "\<lparr>hc_request = [OpSet ''x-a'' ''b''], hc_response = []\<rparr>"
  have d: "headers_decode plain_http sample_headers [] = (Some ?c, [])" and b: "headers_build plain_http ?c = Some ?c"
    and m: "''host'' \<in> set PROTECTED" by code_simp+
  from headers_protected [OF d b m, of sample_visit] d show ?thesis by auto
qed

subsection \<open>The preview is what will happen\<close>

fun headers_seen :: "headers_config list \<Rightarrow> visit \<Rightarrow> visit" where
  "headers_seen [] v = v"
| "headers_seen (c # cs) v =
     headers_seen cs (v\<lparr>vs_headers := apply_ops (hc_request c) (vs_headers v), vs_preview := vs_preview v @ [hc_response c]\<rparr>)"

lemma headers_chain:
  "vs_preview (headers_seen cs v) = vs_preview v @ map hc_response cs \<and>
   vs_out_headers (run_chain (map headers_handle cs) t v) =
     fold apply_ops (rev (map hc_response cs)) (vs_out_headers (t (headers_seen cs v)))"
  by (induction cs arbitrary: v) (simp_all add: headers_handle_def Let_def)

text \<open>
  What a file server sees as the final headers of its response, by replaying the configured operations in
  its preview, is exactly what the chain of \<open>headers\<close> directives in front of it makes of the headers it
  answers with; and each directive leaves the preview as it found it.
\<close>

theorem headers_preview_exact:
  assumes "vs_preview v = []"
  shows "\<exists>u. \<forall>t. vs_out_headers (run_chain (map headers_handle cs) t v) = file_preview u (vs_out_headers (t u)) \<and>
    (cs \<noteq> [] \<longrightarrow> vs_preview (run_chain (map headers_handle cs) t v) = [])"
proof (intro exI allI conjI impI)
  fix t
  show "vs_out_headers (run_chain (map headers_handle cs) t v) =
      file_preview (headers_seen cs v) (vs_out_headers (t (headers_seen cs v)))"
    using headers_chain [of cs v t] assms by (simp add: file_preview_def)
  show "vs_preview (run_chain (map headers_handle cs) t v) = []" if "cs \<noteq> []"
    using that assms by (cases cs) (simp_all add: headers_handle_def Let_def)
qed

theorem headers_preview_exact_witness:
  "vs_preview sample_visit = [] \<and> (\<exists>u. \<forall>t. vs_out_headers (run_chain (map headers_handle
     [\<lparr>hc_request = [], hc_response = [OpSet ''a'' ''1'']\<rparr>, \<lparr>hc_request = [], hc_response = [OpSet ''a'' ''2'']\<rparr>]) t sample_visit) =
       file_preview u (vs_out_headers (t u)))"
proof -
  have p: "vs_preview sample_visit = []" by (simp add: sample_visit_def)
  from headers_preview_exact [OF p, of "[\<lparr>hc_request = [], hc_response = [OpSet ''a'' ''1'']\<rparr>, \<lparr>hc_request = [], hc_response = [OpSet ''a'' ''2'']\<rparr>]"] p
  show ?thesis by blast
qed

subsection \<open>Redirects\<close>

text \<open>Documented of \<open>HeaderValue::from_str\<close>: a value that is accepted is the text.\<close>

definition faithful_values :: "http_crate \<Rightarrow> bool" where
  "faithful_values http \<longleftrightarrow> (\<forall>t x. value_of http t = Some x \<longrightarrow> x = t)"

definition https_guard :: "http_crate \<Rightarrow> https_config \<Rightarrow> guard_spec" where
  "https_guard http c = \<lparr>gd_admits = vs_tls, gd_before = id, gd_after = (\<lambda>_. id), gd_refusal = (\<lambda>v. https_handle http c id v)\<rparr>"

interpretation https: guard_handler "https_handle http c" "https_guard http c" for http c
  by unfold_locales (simp_all add: https_handle_def https_guard_def)

definition slash_admits :: "http_crate \<Rightarrow> slash_style \<Rightarrow> visit \<Rightarrow> bool" where
  "slash_admits http style v =
     (case slash_canonical style (uri_path (vs_uri v)) of None \<Rightarrow> True | Some p \<Rightarrow> redirect_location http p (uri_query (vs_uri v)) = None)"

definition slash_guard :: "http_crate \<Rightarrow> slash_style \<Rightarrow> guard_spec" where
  "slash_guard http style = \<lparr>gd_admits = slash_admits http style, gd_before = id, gd_after = (\<lambda>_. id),
     gd_refusal = (\<lambda>v. slash_handle http style id v)\<rparr>"

interpretation slash: guard_handler "slash_handle http style" "slash_guard http style" for http style
  by unfold_locales (auto simp: slash_handle_def slash_guard_def slash_admits_def split: option.splits)

lemma https_location_named:
  assumes "visit_authority http v = Some a" and "a = host \<or> (\<exists>port. a = host @ CHR 0x3A # port)" and "CHR 0x3A \<notin> set host"
  shows "https_location http c v = value_of http (''https://'' @ host @
    (case fh_port c of Some p \<Rightarrow> if p = 443 then [] else '':'' @ show_nat p | None \<Rightarrow> []) @
    (case uri_path_and_query (vs_uri v) of Some p \<Rightarrow> p | None \<Rightarrow> ''/''))"
proof -
  have "hd (split_at (CHR 0x3A) a) = host" using assms(2,3) by (auto simp: split_at_append_sep split_at_no_sep)
  then show ?thesis using assms(1) by (cases "fh_port c") (simp_all add: https_location_def)
qed

lemma https_decode_status:
  assumes "https_decode n ds = (Some c, ds')"
  shows "fh_status c = 307 \<or> fh_status c = 308"
  using assms by (auto simp: https_decode_def checked_decode_def https_check_def split: prod.splits option.splits sum.splits if_splits)

text \<open>
  C39: Nothing behind \<open>force-https\<close> ever sees a request that did not arrive over TLS, whatever its headers
  say, and what the client is answered does not depend on what stands behind. It is refused with 400 if it
  names no host; and if it names one, with or without a port, it is sent with a redirect that keeps method
  and body, 307 or 308, to the same host, at the configured port or the default one, and to the same path
  and query under \<open>https\<close>, or refused with 400 if that is no header value. (What the host of an authority
  is that is a bracketed IPv6 address is not part of this: it is cut inside the address.)
\<close>

theorem force_https_secure:
  assumes "https_decode n ds = (Some c, ds')" and "faithful_values http" and "\<not> vs_tls v"
  shows "\<exists>r. (\<forall>hs t. run_chain (https_handle http c # hs) t v = r) \<and>
    (vs_status r = Some 400 \<or> vs_status r = Some 307 \<or> vs_status r = Some 308) \<and>
    (visit_authority http v = None \<longrightarrow> vs_status r = Some 400) \<and>
    (\<forall>host authority. visit_authority http v = Some authority \<longrightarrow> \<not> starts_with ''['' authority \<longrightarrow> CHR 0x3A \<notin> set host \<longrightarrow>
       authority = host \<or> (\<exists>port. authority = host @ CHR 0x3A # port) \<longrightarrow>
       (let location = ''https://'' @ host @
              (case fh_port c of Some p \<Rightarrow> if p = 443 then [] else '':'' @ show_nat p | None \<Rightarrow> []) @
              (case uri_path_and_query (vs_uri v) of Some p \<Rightarrow> p | None \<Rightarrow> ''/'') in
        if value_of http location = None then vs_status r = Some 400
        else vs_status r = Some (fh_status c) \<and> get_all ''location'' (vs_out_headers r) = [location]))"
proof -
  let ?r = "https_handle http c id v"
  have fixed: "\<forall>hs t. run_chain (https_handle http c # hs) t v = ?r"
    using https.refused [of http c v] assms(3) by (simp add: https_guard_def)
  have refused: "vs_status ?r = Some 400" if "https_location http c v = None"
    using that assms(3) by (simp add: https_handle_def refuse_def write_body_def generated_def)
  have sent: "vs_status ?r = Some (fh_status c) \<and> get_all ''location'' (vs_out_headers ?r) = [location]"
    if "https_location http c v = Some location" for location
    using that assms(3) by (simp add: https_handle_def put_header_def)
  note status = https_decode_status [OF assms(1)]
  have any: "vs_status ?r = Some 400 \<or> vs_status ?r = Some 307 \<or> vs_status ?r = Some 308"
    using refused sent status by (cases "https_location http c v") auto
  have "let location = ''https://'' @ host @ (case fh_port c of Some p \<Rightarrow> if p = 443 then [] else '':'' @ show_nat p | None \<Rightarrow> []) @
        (case uri_path_and_query (vs_uri v) of Some p \<Rightarrow> p | None \<Rightarrow> ''/'') in
      if value_of http location = None then vs_status ?r = Some 400
      else vs_status ?r = Some (fh_status c) \<and> get_all ''location'' (vs_out_headers ?r) = [location]"
    if a: "visit_authority http v = Some a" "a = host \<or> (\<exists>port. a = host @ CHR 0x3A # port)" "CHR 0x3A \<notin> set host" for host a
  proof -
    define location where "location = ''https://'' @ host @ (case fh_port c of Some p \<Rightarrow> if p = 443 then [] else '':'' @ show_nat p | None \<Rightarrow> []) @
        (case uri_path_and_query (vs_uri v) of Some p \<Rightarrow> p | None \<Rightarrow> ''/'')"
    have l: "https_location http c v = value_of http location" unfolding location_def by (rule https_location_named [OF a])
    have "if value_of http location = None then vs_status ?r = Some 400
      else vs_status ?r = Some (fh_status c) \<and> get_all ''location'' (vs_out_headers ?r) = [location]"
    proof (cases "value_of http location")
      case None
      then show ?thesis using refused l by simp
    next
      case (Some x)
      with assms(2) have "x = location" by (simp add: faithful_values_def)
      then show ?thesis using sent [of x] l Some status by auto
    qed
    then show ?thesis unfolding Let_def location_def .
  qed
  moreover have "vs_status ?r = Some 400" if "visit_authority http v = None" using that by (intro refused) (simp add: https_location_def)
  ultimately show ?thesis using fixed any by (intro exI [of _ ?r]) blast
qed

theorem force_https_secure_witness:
  "\<exists>r. (\<forall>hs t. run_chain (https_handle plain_http \<lparr>fh_port = None, fh_status = 308\<rparr> # hs) t
     (sample_visit\<lparr>vs_tls := False, vs_headers := [(''host'', ''a:80'')]\<rparr>) = r) \<and>
     vs_status r = Some 308 \<and> get_all ''location'' (vs_out_headers r) = [''https://a/'']"
proof -
  have c: "https_decode (Node ''force-https'' [] [] []) [] = (Some \<lparr>fh_port = None, fh_status = 308\<rparr>, [])" by code_simp
  have f: "faithful_values plain_http" by (simp add: faithful_values_def plain_http_def)
  let ?v = "sample_visit\<lparr>vs_tls := False, vs_headers := [(''host'', ''a:80'')]\<rparr>"
  have plain: "\<not> vs_tls ?v" by simp
  have "trim ''a:80'' = ''a:80''" "get_header ''host'' [(''host'', ''a:80'')] = Some ''a:80''" by code_simp+
  then have a: "visit_authority plain_http ?v = Some ''a:80''" by (simp add: visit_authority_def sample_visit_def plain_http_def)
  obtain r where r: "\<forall>hs t. run_chain (https_handle plain_http \<lparr>fh_port = None, fh_status = 308\<rparr> # hs) t ?v = r"
    and l: "\<And>host authority. visit_authority plain_http ?v = Some authority \<Longrightarrow> \<not> starts_with ''['' authority \<Longrightarrow> CHR 0x3A \<notin> set host \<Longrightarrow>
       authority = host \<or> (\<exists>port. authority = host @ CHR 0x3A # port) \<Longrightarrow>
       let location = ''https://'' @ host @ (case fh_port \<lparr>fh_port = None, fh_status = 308\<rparr> of Some p \<Rightarrow> if p = 443 then [] else '':'' @ show_nat p | None \<Rightarrow> []) @
              (case uri_path_and_query (vs_uri ?v) of Some p \<Rightarrow> p | None \<Rightarrow> ''/'') in
        if value_of plain_http location = None then vs_status r = Some 400
        else vs_status r = Some (fh_status \<lparr>fh_port = None, fh_status = 308\<rparr>) \<and> get_all ''location'' (vs_out_headers r) = [location]"
    using force_https_secure [OF c f plain] by blast
  from l [OF a, of "''a''"] have "vs_status r = Some 308 \<and> get_all ''location'' (vs_out_headers r) = [''https://a/'']"
    by (simp add: sample_visit_def plain_http_def)
  with r show ?thesis by blast
qed

text \<open>The host of a bracketed IPv6 authority is cut inside the address.\<close>

lemma force_https_cuts_ipv6:
  assumes "visit_authority http v = Some ''[::1]:80''" and "fh_port c = None" and "uri_path_and_query (vs_uri v) = Some ''/a''"
    and "value_of http ''https://[/a'' = Some ''https://[/a''"
  shows "https_location http c v = Some ''https://[/a''"
  using assms by (simp add: https_location_def)

subsection \<open>One spelling of a path\<close>

lemma ends_with_slash: "ends_with ''/'' p \<longleftrightarrow> p \<noteq> [] \<and> last p = CHR ''/''"
  by (cases p rule: rev_cases) (auto simp: ends_with_iff)

lemma trim_end_last: "trim_end_char c s \<noteq> [] \<Longrightarrow> last (trim_end_char c s) \<noteq> c"
  unfolding trim_end_char_def by (metis (mono_tags, lifting) hd_dropWhile last_rev rev_is_Nil_conv)

lemma trim_start_last: "trim_start_char c s \<noteq> [] \<Longrightarrow> last (trim_start_char c s) = last s"
  unfolding trim_start_char_def by (metis dropWhile_eq_Nil_conv last_appendR takeWhile_dropWhile_id)

lemma replace_char_empty: "r \<noteq> [] \<Longrightarrow> replace_char c r s = [] \<longleftrightarrow> s = []"
  by (induction s) (auto simp: replace_char_def)

lemma replace_char_last:
  assumes "r \<noteq> []" and "last r \<noteq> x" and "c \<noteq> x" and "s \<noteq> []"
  shows "last (replace_char c r s) = x \<longleftrightarrow> last s = x"
proof -
  obtain t y where s: "s = t @ [y]" using assms(4) by (cases s rule: rev_cases) auto
  have "replace_char c r s = replace_char c r t @ (if y = c then r else [y])" by (simp add: s replace_char_def)
  with assms show ?thesis by (auto simp: s)
qed

text \<open>The path a redirect to a path names, as it is written in the location.\<close>

definition location_path :: "bytes \<Rightarrow> bytes" where
  "location_path p = CHR ''/'' # replace_char (CHR 0x23) ''%23'' (replace_char (CHR 0x3F) ''%3F''
     (replace_char (CHR 0x5C) ''%5C'' (trim_start_char (CHR ''/'') p)))"

lemma redirect_location_written:
  assumes "faithful_values http" and "redirect_location http p query = Some location"
  shows "location = location_path p @ (case query of None \<Rightarrow> [] | Some q \<Rightarrow> ''?'' @ replace_char (CHR 0x23) ''%23'' q)"
proof -
  have "value_of http (location_path p @ (case query of None \<Rightarrow> [] | Some q \<Rightarrow> ''?'' @ replace_char (CHR 0x23) ''%23'' q)) = Some location"
    using assms(2) unfolding redirect_location_def location_path_def Let_def by simp
  with assms(1) show ?thesis unfolding faithful_values_def by metis
qed

lemma replace_char_set: "set (replace_char c r s) \<subseteq> (set s - {c}) \<union> set r"
  by (auto simp: replace_char_def split: if_splits)

lemma location_path_plain: "CHR 0x3F \<notin> set (location_path p)" "CHR 0x23 \<notin> set (location_path p)"
proof -
  let ?t = "replace_char (CHR 0x3F) ''%3F'' (replace_char (CHR 0x5C) ''%5C'' (trim_start_char (CHR ''/'') p))"
  have "CHR 0x3F \<notin> set ?t" using replace_char_set [of "CHR 0x3F" "''%3F''"] by fastforce
  then have "CHR 0x3F \<notin> set (replace_char (CHR 0x23) ''%23'' ?t)" using replace_char_set [of "CHR 0x23" "''%23''" ?t] by auto
  then show "CHR 0x3F \<notin> set (location_path p)" by (simp add: location_path_def)
  have "CHR 0x23 \<notin> set (replace_char (CHR 0x23) ''%23'' ?t)" using replace_char_set [of "CHR 0x23" "''%23''" ?t] by auto
  then show "CHR 0x23 \<notin> set (location_path p)" by (simp add: location_path_def)
qed

lemma location_path_last:
  "location_path p = ''/'' \<or> (location_path p \<noteq> [] \<and> (last (location_path p) = CHR ''/'' \<longleftrightarrow> p \<noteq> [] \<and> last p = CHR ''/''))"
proof -
  define s where "s = trim_start_char (CHR ''/'') p"
  define t where "t = replace_char (CHR 0x23) ''%23'' (replace_char (CHR 0x3F) ''%3F'' (replace_char (CHR 0x5C) ''%5C'' s))"
  have l: "location_path p = CHR ''/'' # t" unfolding location_path_def s_def t_def ..
  show ?thesis
  proof (cases "s = []")
    case True
    then have "t = []" by (simp add: t_def replace_char_def)
    then show ?thesis by (simp add: l)
  next
    case False
    have "t \<noteq> [] \<and> (last t = CHR ''/'' \<longleftrightarrow> last s = CHR ''/'')"
      using False unfolding t_def by (simp add: replace_char_last replace_char_empty)
    moreover have "last s = last p" using False unfolding s_def by (rule trim_start_last)
    moreover have "p \<noteq> []" using False unfolding s_def trim_start_char_def by (cases p) simp_all
    ultimately show ?thesis by (simp add: l)
  qed
qed

lemma slash_canonical_add: "slash_canonical AddSlash path =
    (if path = ''/'' \<or> path = [] \<or> ends_with ''/'' path \<or> looks_like_a_file path then None else Some (path @ ''/''))"
  by (simp add: slash_canonical_def)

lemma slash_canonical_remove: "slash_canonical RemoveSlash path =
    (if path = ''/'' \<or> path = [] \<or> \<not> ends_with ''/'' path then None else Some (trim_end_char (CHR ''/'') path))"
  by (simp add: slash_canonical_def)

lemma if_Some: "(if b then None else Some x) = Some p \<Longrightarrow> p = x"
  by (simp split: if_splits)

lemma slash_canonical_settled:
  assumes "slash_canonical style path = Some p"
  shows "slash_canonical style (location_path p) = None"
proof -
  have cases: "location_path p = ''/'' \<or> (location_path p \<noteq> [] \<and> (ends_with ''/'' (location_path p) \<longleftrightarrow> p \<noteq> [] \<and> last p = CHR ''/''))"
    using location_path_last [of p] unfolding ends_with_slash by blast
  show ?thesis
  proof (cases style)
    case AddSlash
    have "p = path @ ''/''" using assms unfolding AddSlash slash_canonical_add by (rule if_Some)
    then have p: "p \<noteq> [] \<and> last p = CHR ''/''" by simp
    from cases show ?thesis unfolding AddSlash slash_canonical_add
    proof (elim disjE conjE)
      assume "ends_with ''/'' (location_path p) \<longleftrightarrow> p \<noteq> [] \<and> last p = CHR ''/''"
      with p have "ends_with ''/'' (location_path p)" by (simp only: simp_thms)
      then show "(if location_path p = ''/'' \<or> location_path p = [] \<or> ends_with ''/'' (location_path p) \<or> looks_like_a_file (location_path p) then None
        else Some (location_path p @ ''/'')) = None" by simp
    qed simp
  next
    case RemoveSlash
    have "p = trim_end_char (CHR ''/'') path" using assms unfolding RemoveSlash slash_canonical_remove by (rule if_Some)
    then have p: "\<not> (p \<noteq> [] \<and> last p = CHR ''/'')" using trim_end_last by metis
    from cases show ?thesis unfolding RemoveSlash slash_canonical_remove
    proof (elim disjE conjE)
      assume "ends_with ''/'' (location_path p) \<longleftrightarrow> p \<noteq> [] \<and> last p = CHR ''/''"
      with p have "\<not> ends_with ''/'' (location_path p)" by (simp only: simp_thms)
      then show "(if location_path p = ''/'' \<or> location_path p = [] \<or> \<not> ends_with ''/'' (location_path p) then None
        else Some (trim_end_char (CHR ''/'') (location_path p))) = None" by simp
    qed simp
  qed
qed

lemma query_cut:
  assumes "a @ s = b @ t" and "c \<notin> set a" and "s = [] \<or> hd s = c" and "c \<notin> set b" and "t = [] \<or> hd t = c"
  shows "a = b"
proof -
  have drop: "takeWhile (\<lambda>x. x \<noteq> c) (u @ r) = u" if "c \<notin> set u" "r = [] \<or> hd r = c" for u r
    using that by (cases r) (auto simp: takeWhile_append2 takeWhile_append intro: takeWhile_eq_all_conv [THEN iffD2])
  from drop [OF assms(2,3)] drop [OF assms(4,5)] assms(1) show ?thesis by simp
qed

text \<open>
  A request whose path is not spelled as \<open>trailing-slash\<close> has it is answered with one permanent redirect, and
  a client that follows it is not redirected again: the path the location names is spelled as it should
  be, and whatever is behind the directive gets the request.
\<close>

theorem trailing_slash_settles:
  assumes "faithful_values http" and "slash_handle http style rest v \<noteq> rest v" and "uri_path (vs_uri w) = path"
    and "get_all ''location'' (vs_out_headers (slash_handle http style rest v)) = [location]"
    and "location = path @ tail" and "CHR 0x3F \<notin> set path" and "tail = [] \<or> hd tail = CHR 0x3F"
  shows "vs_status (slash_handle http style rest v) = Some 308 \<and> slash_handle http style rest w = rest w"
proof -
  obtain p l where p: "slash_canonical style (uri_path (vs_uri v)) = Some p"
    "redirect_location http p (uri_query (vs_uri v)) = Some l"
    "slash_handle http style rest v = put_header ''location'' l (v\<lparr>vs_status := Some 308\<rparr>)"
    using assms(2) by (auto simp: slash_handle_def split: option.splits)
  have "l = location" using assms(4) unfolding p(3) put_header_def by simp
  then have "path @ tail = location_path p @ (case uri_query (vs_uri v) of None \<Rightarrow> [] | Some q \<Rightarrow> ''?'' @ replace_char (CHR 0x23) ''%23'' q)"
    using redirect_location_written [OF assms(1) p(2)] assms(5) by simp
  then have "path = location_path p"
    using assms(6,7) location_path_plain(1) [of p] by (rule query_cut) (simp split: option.splits)
  then have "slash_canonical style (uri_path (vs_uri w)) = None"
    using slash_canonical_settled [OF p(1)] assms(3) by simp
  then have "slash_handle http style rest w = rest w" by (simp add: slash_handle_def)
  moreover have "vs_status (slash_handle http style rest v) = Some 308" unfolding p(3) by (simp add: put_header_def)
  ultimately show ?thesis by simp
qed

definition slash_request :: "bytes \<Rightarrow> bytes option \<Rightarrow> visit" where
  "slash_request path query = sample_visit\<lparr>vs_uri := \<lparr>uri_authority = None, uri_path = path, uri_query = query, uri_path_and_query = None\<rparr>\<rparr>"

theorem trailing_slash_settles_witness:
  "get_all ''location'' (vs_out_headers (slash_handle plain_http AddSlash id (slash_request ''/a#b'' (Some ''q'')))) = [''/a%23b/?q''] \<and>
   slash_handle plain_http AddSlash id (slash_request ''/a%23b/'' (Some ''q'')) = slash_request ''/a%23b/'' (Some ''q'')"
proof -
  have f: "faithful_values plain_http" by (simp add: faithful_values_def plain_http_def)
  have l: "get_all ''location'' (vs_out_headers (slash_handle plain_http AddSlash id (slash_request ''/a#b'' (Some ''q'')))) = [''/a%23b/?q'']"
    and n: "get_all ''location'' (vs_out_headers (slash_request ''/a#b'' (Some ''q''))) = []" by code_simp+
  then have d: "slash_handle plain_http AddSlash id (slash_request ''/a#b'' (Some ''q'')) \<noteq> id (slash_request ''/a#b'' (Some ''q''))" by auto
  have "uri_path (vs_uri (slash_request ''/a%23b/'' (Some ''q''))) = ''/a%23b/''" by (simp add: slash_request_def)
  from trailing_slash_settles [OF f d this l, of "''?q''"] l show ?thesis by simp
qed

subsection \<open>Rewritten paths and request names\<close>

lemma starts_with_slash: "starts_with ''/'' p \<longleftrightarrow> p \<noteq> [] \<and> hd p = CHR ''/''"
  by (cases p) (auto simp: starts_with_iff)

lemma rewrite_absolute:
  assumes "rewrite_check c0 = Inr c" and "starts_with ''/'' path" and "rewrite_apply c path = Some p"
  shows "starts_with ''/'' p"
proof -
  have c: "c0 = c" "\<And>x. rw_prefix c = Some x \<Longrightarrow> starts_with ''/'' x" "\<And>x. rw_to c = Some x \<Longrightarrow> starts_with ''/'' x"
    using assms(1) by (auto simp: rewrite_check_def split: if_splits)
  have strip: "starts_with ''/'' (rewrite_strip (rw_strip_prefix c) path)"
    using assms(2) by (auto simp: rewrite_strip_def starts_with_slash split: option.splits)
  have pre: "starts_with ''/'' (trim_end_char (CHR ''/'') x @ r)" if "starts_with ''/'' x" "starts_with ''/'' r" for x r
  proof (cases "trim_end_char (CHR ''/'') x")
    case (Cons a s)
    have "x = trim_end_char (CHR ''/'') x @ replicate (length x - length (trim_end_char (CHR ''/'') x)) (CHR ''/'')"
      by (rule trim_end_append [symmetric])
    then have "hd x = a" unfolding Cons by (metis append_Cons list.sel(1))
    with that(1) Cons show ?thesis by (simp add: starts_with_slash)
  qed (use that in simp)
  show ?thesis using assms(3) c(2,3) strip pre
    by (auto simp: rewrite_apply_def Let_def split: option.splits if_splits)
qed

lemma hex_char_code: "k < 16 \<Longrightarrow> (of_char (hex_char k) :: nat) = (if k < 10 then 48 + k else 87 + k)"
  by (simp add: hex_char_def)

lemma hex_char_inj:
  assumes "i < 16" and "j < 16"
  shows "hex_char i = hex_char j \<longleftrightarrow> i = j"
proof
  assume "hex_char i = hex_char j"
  then have "(if i < 10 then 48 + i else 87 + i) = (if j < 10 then 48 + j else 87 + j)"
    using hex_char_code [OF assms(1)] hex_char_code [OF assms(2)] by metis
  with assms show "i = j" by presburger
qed simp

lemma show_hex_not_Nil: "show_hex n \<noteq> []"
  by (subst show_hex.simps) simp

lemma show_hex_inj: "show_hex n = show_hex m \<Longrightarrow> n = m"
proof (induction n arbitrary: m rule: show_hex.induct)
  case (1 n)
  consider "n < 16" "m < 16" | "n < 16" "\<not> m < 16" | "\<not> n < 16" "m < 16" | "\<not> n < 16" "\<not> m < 16" by blast
  then show ?case
  proof cases
    case a: 1
    with 1(2) show ?thesis by (simp add: show_hex.simps [of n] show_hex.simps [of m] hex_char_inj)
  next
    case a: 2
    with 1(2) show_hex_not_Nil [of "m div 16"] show ?thesis by (simp add: show_hex.simps [of n] show_hex.simps [of m] Cons_eq_append_conv)
  next
    case a: 3
    with 1(2) show_hex_not_Nil [of "n div 16"] show ?thesis by (simp add: show_hex.simps [of n] show_hex.simps [of m] append_eq_Cons_conv)
  next
    case a: 4
    with 1(2) have "show_hex (n div 16) = show_hex (m div 16)" "n mod 16 = m mod 16"
      by (simp_all add: show_hex.simps [of n] show_hex.simps [of m] hex_char_inj)
    with 1(1) [OF a(1)] have "n div 16 = m div 16" "n mod 16 = m mod 16" by simp_all
    then show ?thesis by (metis div_mult_mod_eq)
  qed
qed

lemma request_ids_distinct:
  assumes "\<not> rq_trust_client c" and "fst (request_id_of http c prefix a v) = fst (request_id_of http c prefix b w)"
  shows "a = b"
  using assms by (auto simp: request_id_of_def word_unat_eq_iff dest!: show_hex_inj)

end
