(* ===== verification/Dispatching.thy ===== *)
theory Dispatching
  imports Guard_Laws
begin

text \<open>
  Dispatching a request (\<open>gatel-http/src/dispatch.rs\<close> and the limit of \<open>body.rs\<close>): who the client is, which
  site and route claim the request, and the chain of handlers it goes through. The table of a listener is
  what preparation made of a plan. The address of the peer and the answers to outstanding certificate
  challenges are arguments; counters, the measuring of bodies and the names the depot keeps for logs are left out.
\<close>

subsection \<open>Prepared routes\<close>

record prepared_route =
  pr_id :: resource_id
  pr_path :: path_match
  pr_methods :: method_match
  pr_matchers :: "matcher list"
  pr_chain :: "handler list"

record prepared_site =
  ps_id :: resource_id
  ps_host :: host_match
  ps_routes :: "prepared_route list"
  ps_fallback :: "handler list"

record dispatcher =
  dp_sites :: "prepared_site list"
  dp_tls :: bool
  dp_trusted_proxies :: "(ip_addr \<times> nat) list"
  dp_max_body :: nat

datatype no_route = UnknownHost | NoRouteMatch

datatype no_match = InvalidPath | UnclaimedHost | NoSiteRoute prepared_site

definition route_accepts :: "prepared_route \<Rightarrow> match_context \<Rightarrow> bool" where
  "route_accepts r cx \<longleftrightarrow> path_matches (pr_path r) (ctx_path cx) \<and> method_matches (pr_methods r) (ctx_method cx) \<and>
     list_all (\<lambda>m. matcher_matches m cx) (pr_matchers r)"

definition salvo_header :: "http_crate \<Rightarrow> header_map \<Rightarrow> bytes \<Rightarrow> bytes option" where
  "salvo_header http h name = Option.bind (get_header name h) (value_str http)"

fun find_cookie :: "bytes \<Rightarrow> bytes list \<Rightarrow> bytes option" where
  "find_cookie name [] = None"
| "find_cookie name (pair # ps) =
     (case split_once (CHR ''='') pair of
        Some (key, v) \<Rightarrow> if trim key = name then Some (trim v) else find_cookie name ps
      | None \<Rightarrow> find_cookie name ps)"

definition header_cookie :: "http_crate \<Rightarrow> header_map \<Rightarrow> bytes \<Rightarrow> bytes option" where
  "header_cookie http h name = Option.bind (salvo_header http h ''cookie'') (\<lambda>t. find_cookie name (split_at (CHR 0x3B) t))"

subsection \<open>Who asks, and for what host\<close>

definition network_holds :: "ip_addr \<Rightarrow> ip_addr \<Rightarrow> nat \<Rightarrow> bool" where
  "network_holds ip net prefix =
     (case (ip, net) of
        (V4 a, V4 b) \<Rightarrow> masked a prefix = masked b prefix
      | (V6 a, V6 b) \<Rightarrow> masked a prefix = masked b prefix
      | _ \<Rightarrow> False)"

definition is_trusted :: "ip_addr \<Rightarrow> (ip_addr \<times> nat) list \<Rightarrow> bool" where
  "is_trusted ip trusted \<longleftrightarrow> list_ex (\<lambda>(net, prefix). network_holds ip net prefix) trusted"

definition client_ip :: "http_crate \<Rightarrow> dispatcher \<Rightarrow> ip_addr option \<Rightarrow> header_map \<Rightarrow> ip_addr option" where
  "client_ip http d peer h =
     Option.bind peer (\<lambda>peer.
       if \<not> is_trusted peer (dp_trusted_proxies d) then Some peer
       else case Option.bind (salvo_header http h ''x-forwarded-for'') (\<lambda>t. parse_ip (trim (last (split_at (CHR 0x2C) t)))) of
         Some ip \<Rightarrow> Some ip
       | None \<Rightarrow> Some peer)"

definition request_host :: "http_crate \<Rightarrow> bytes option \<Rightarrow> header_map \<Rightarrow> bytes" where
  "request_host http uri_host h =
     (let raw = (case salvo_header http h ''host'' of
                   Some t \<Rightarrow> t
                 | None \<Rightarrow> (case uri_host of Some t \<Rightarrow> t | None \<Rightarrow> []));
          without_port = (case rsplit_once (CHR 0x3A) raw of
              Some (head, tail) \<Rightarrow> if \<not> ends_with '']'' head \<and> list_all is_ascii_digit tail then head else raw
            | None \<Rightarrow> raw) in
      to_ascii_lowercase (trim_end_char (CHR '']'') (trim_start_char (CHR ''['') (trim without_port))))"

text \<open>\<open>uri_host\<close> is what the \<open>http\<close> crate gives as the host of the URI.\<close>

definition match_context_of :: "http_crate \<Rightarrow> dispatcher \<Rightarrow> ip_addr option \<Rightarrow> bytes option \<Rightarrow> visit \<Rightarrow> bytes \<Rightarrow> match_context" where
  "match_context_of http d peer uri_host v path =
     \<lparr>ctx_host = request_host http uri_host (vs_headers v), ctx_method = vs_method v, ctx_path = path,
      ctx_query = uri_query (vs_uri v), ctx_header = salvo_header http (vs_headers v),
      ctx_cookie = header_cookie http (vs_headers v), ctx_client_ip = client_ip http d peer (vs_headers v), ctx_tls = dp_tls d\<rparr>"

definition dispatch_resolve :: "http_crate \<Rightarrow> dispatcher \<Rightarrow> ip_addr option \<Rightarrow> bytes option \<Rightarrow> visit \<Rightarrow> no_match + prepared_site \<times> prepared_route" where
  "dispatch_resolve http d peer uri_host v =
     (case routing_path (uri_path (vs_uri v)) of
        None \<Rightarrow> Inl InvalidPath
      | Some path \<Rightarrow>
          (let cx = match_context_of http d peer uri_host v path in
           case find (\<lambda>s. host_matches (ps_host s) (ctx_host cx)) (dp_sites d) of
             None \<Rightarrow> Inl UnclaimedHost
           | Some site \<Rightarrow>
               (case find (\<lambda>r. route_accepts r cx) (ps_routes site) of
                  None \<Rightarrow> Inl (NoSiteRoute site)
                | Some route \<Rightarrow> Inr (site, route))))"

subsection \<open>The handler\<close>

definition write_not_found :: "no_route \<Rightarrow> visit \<Rightarrow> visit" where
  "write_not_found reason v =
     write_body ((case reason of UnknownHost \<Rightarrow> ''404 no site is configured for this host'' | NoRouteMatch \<Rightarrow> ''404 no route matched'') @ [CHR 0x0A])
       (v\<lparr>vs_status := Some 404\<rparr>)"

definition not_found_handle :: handler where
  "not_found_handle rest v = write_not_found NoRouteMatch (generated v)"

text \<open>\<open>limit\<close>: the length a request declares and does not fit, or the request with its body bounded.\<close>

definition body_limit :: "http_crate \<Rightarrow> nat \<Rightarrow> visit \<Rightarrow> nat + visit" where
  "body_limit http m v =
     (case limit_declared http v of
        Some declared \<Rightarrow> if m < declared then Inl declared else Inr (v\<lparr>vs_body := limited_frames m 0 (vs_body v)\<rparr>)
      | None \<Rightarrow> Inr (v\<lparr>vs_body := limited_frames m 0 (vs_body v)\<rparr>))"

text \<open>A chain ends where no handler is left.\<close>

definition flow :: "handler list \<Rightarrow> visit \<Rightarrow> visit" where
  "flow hs v = run_chain hs id v"

definition dispatch_handle :: "http_crate \<Rightarrow> dispatcher \<Rightarrow> (bytes \<Rightarrow> bytes option) \<Rightarrow> ip_addr option \<Rightarrow> bytes option \<Rightarrow> visit \<Rightarrow> visit" where
  "dispatch_handle http d challenge peer uri_host v =
     (let v = (case client_ip http d peer (vs_headers v) of Some ip \<Rightarrow> v\<lparr>vs_client_ip := Some ip\<rparr> | None \<Rightarrow> v);
          v = v\<lparr>vs_tls := dp_tls d\<rparr> in
      case challenge (uri_path (vs_uri v)) of
        Some answer \<Rightarrow> write_body answer (put_header ''content-type'' ''application/octet-stream'' v)
      | None \<Rightarrow>
          (let v = install_limit (dp_max_body d) v in
           case body_limit http (dp_max_body d) v of
             Inl declared \<Rightarrow>
               write_body (''413 request body of '' @ show_nat declared @ '' bytes is larger than the '' @
                 show_nat (dp_max_body d) @ '' byte limit'' @ [CHR 0x0A]) (generated (v\<lparr>vs_status := Some 413\<rparr>))
           | Inr v \<Rightarrow>
               (case dispatch_resolve http d peer uri_host v of
                  Inl InvalidPath \<Rightarrow> refuse 400 (''400 invalid request path'' @ [CHR 0x0A]) v
                | Inl UnclaimedHost \<Rightarrow> write_not_found UnknownHost (generated v)
                | Inl (NoSiteRoute site) \<Rightarrow> flow (ps_fallback site) v
                | Inr (site, route) \<Rightarrow> flow (pr_chain route) v)))"

subsection \<open>The first that matches\<close>

definition first_match :: "('a \<Rightarrow> bool) \<Rightarrow> 'a list \<Rightarrow> 'a \<Rightarrow> bool" where
  "first_match P xs x \<longleftrightarrow> P x \<and> (\<exists>ys zs. xs = ys @ x # zs \<and> (\<forall>y \<in> set ys. \<not> P y))"

lemma find_first_match: "find P xs = Some x \<longleftrightarrow> first_match P xs x"
proof (induction xs)
  case Nil
  then show ?case by (simp add: first_match_def)
next
  case (Cons a xs)
  show ?case
  proof (cases "P a")
    case True
    then show ?thesis unfolding first_match_def by (auto simp: Cons_eq_append_conv)
  next
    case False
    then have "first_match P (a # xs) x \<longleftrightarrow> first_match P xs x"
      unfolding first_match_def by (auto simp: Cons_eq_append_conv) (metis set_ConsD)
    with False Cons show ?thesis by simp
  qed
qed

lemma resolve_cong:
  assumes "vs_uri u = vs_uri v" "vs_headers u = vs_headers v" "vs_method u = vs_method v"
  shows "dispatch_resolve http d peer uri_host u = dispatch_resolve http d peer uri_host v"
proof -
  have cx: "match_context_of http d peer uri_host u = match_context_of http d peer uri_host v"
    by (rule ext) (simp add: match_context_of_def assms)
  show ?thesis unfolding dispatch_resolve_def assms(1) cx ..
qed

text \<open>
  The policy: a peer in one of the trusted networks speaks for the client its last forwarding element
  names, if that is an address; any other peer is the client.
\<close>

definition trusted_proxy :: "dispatcher \<Rightarrow> ip_addr \<Rightarrow> bool" where
  "trusted_proxy d p \<longleftrightarrow> (\<exists>(net, prefix) \<in> set (dp_trusted_proxies d). in_network \<lparr>nw_address = net, nw_prefix = prefix\<rparr> p)"

definition forwarded_for :: "http_crate \<Rightarrow> header_map \<Rightarrow> ip_addr \<Rightarrow> bool" where
  "forwarded_for http h ip \<longleftrightarrow>
     (\<exists>w s e. get_header ''x-forwarded-for'' h = Some w \<and> value_str http w = Some s \<and>
        (s = e \<or> (\<exists>earlier. s = earlier @ CHR 0x2C # e)) \<and> CHR 0x2C \<notin> set e \<and> parse_ip (trim e) = Some ip)"

definition proxies_ok :: "dispatcher \<Rightarrow> bool" where
  "proxies_ok d \<longleftrightarrow> (\<forall>(net, prefix) \<in> set (dp_trusted_proxies d). network_ok \<lparr>nw_address = net, nw_prefix = prefix\<rparr>)"

lemma is_trusted_iff:
  assumes "proxies_ok d" and "wf_ip p"
  shows "is_trusted p (dp_trusted_proxies d) \<longleftrightarrow> trusted_proxy d p"
proof -
  have "network_holds p net prefix \<longleftrightarrow> in_network \<lparr>nw_address = net, nw_prefix = prefix\<rparr> p"
    if "(net, prefix) \<in> set (dp_trusted_proxies d)" for net prefix
  proof -
    have "network_ok \<lparr>nw_address = net, nw_prefix = prefix\<rparr>" using assms(1) that by (auto simp: proxies_ok_def)
    moreover have "network_holds p net prefix \<longleftrightarrow> network_contains \<lparr>nw_address = net, nw_prefix = prefix\<rparr> p"
      by (cases p; cases net) (auto simp: network_holds_def network_contains_def)
    ultimately show ?thesis using network_contains_iff assms(2) by simp
  qed
  then show ?thesis by (auto simp: is_trusted_def trusted_proxy_def list_ex_iff)
qed

lemma last_split_at: "(s = e \<or> (\<exists>earlier. s = earlier @ c # e)) \<and> c \<notin> set e \<longleftrightarrow> last (split_at c s) = e"
proof
  assume "(s = e \<or> (\<exists>earlier. s = earlier @ c # e)) \<and> c \<notin> set e"
  then show "last (split_at c s) = e" by (auto simp: split_at_append_sep split_at_no_sep)
next
  assume e: "last (split_at c s) = e"
  then have "c \<notin> set e" using split_at_parts [of e c s] last_in_set [OF split_at_not_Nil, of c s] by blast
  moreover have "s = e \<or> (\<exists>earlier. s = earlier @ c # e)"
  proof -
    have "s = join [c] (butlast (split_at c s) @ [e])" using e append_butlast_last_id [OF split_at_not_Nil, of c s] by (metis join_split_at)
    then show ?thesis by (cases "butlast (split_at c s) = []") (auto simp: join_append_single)
  qed
  ultimately show "(s = e \<or> (\<exists>earlier. s = earlier @ c # e)) \<and> c \<notin> set e" by blast
qed

lemma client_ip_policy:
  assumes "proxies_ok d" and "\<forall>p. peer = Some p \<longrightarrow> wf_ip p"
  shows "(peer = None \<longrightarrow> client_ip http d peer h = None) \<and>
    (\<forall>p. peer = Some p \<longrightarrow>
       (\<forall>ip. trusted_proxy d p \<and> forwarded_for http h ip \<longrightarrow> client_ip http d peer h = Some ip) \<and>
       (\<not> (trusted_proxy d p \<and> (\<exists>ip. forwarded_for http h ip)) \<longrightarrow> client_ip http d peer h = Some p))"
proof -
  have f: "forwarded_for http h ip \<longleftrightarrow>
      Option.bind (salvo_header http h ''x-forwarded-for'') (\<lambda>s. parse_ip (trim (last (split_at (CHR 0x2C) s)))) = Some ip" for ip
    unfolding forwarded_for_def salvo_header_def bind_eq_Some_conv using last_split_at [of _ _ "CHR 0x2C"] by metis
  show ?thesis using is_trusted_iff [OF assms(1)] assms(2) unfolding f
    by (cases peer) (auto simp: client_ip_def split: option.splits)
qed

text \<open>The host a request names: a name, with or without a port.\<close>

definition names_host :: "http_crate \<Rightarrow> bytes option \<Rightarrow> header_map \<Rightarrow> bytes \<Rightarrow> bool" where
  "names_host http uri_host h name \<longleftrightarrow> name \<noteq> [] \<and> trimmed name \<and> set name \<inter> {CHR 0x3A, CHR ''['', CHR '']''} = {} \<and>
     (\<exists>s. (salvo_header http h ''host'' = Some s \<or> salvo_header http h ''host'' = None \<and> uri_host = Some s) \<and>
        (s = name \<or> (\<exists>port. s = name @ CHR 0x3A # port \<and> list_all is_ascii_digit port)))"

lemma request_host_name:
  assumes "names_host http uri_host h name"
  shows "request_host http uri_host h = to_ascii_lowercase name"
proof -
  have n: "name \<noteq> []" "trim name = name" "CHR 0x3A \<notin> set name" "CHR ''['' \<notin> set name" "CHR '']'' \<notin> set name"
    using assms trim_trimmed by (auto simp: names_host_def)
  obtain s where s: "(case salvo_header http h ''host'' of Some t \<Rightarrow> t | None \<Rightarrow> (case uri_host of Some t \<Rightarrow> t | None \<Rightarrow> [])) = s"
    "s = name \<or> (\<exists>port. s = name @ CHR 0x3A # port \<and> list_all is_ascii_digit port)" using assms by (auto simp: names_host_def)
  have bare: "rsplit_once (CHR 0x3A) name = None" using n(3) by (simp add: rsplit_once_def split_once_None split: option.splits)
  have ported: "rsplit_once (CHR 0x3A) (name @ CHR 0x3A # port) = Some (name, port)" if "list_all is_ascii_digit port" for port
  proof -
    have "CHR 0x3A \<notin> set (rev port)" using that by (auto simp: list_all_iff is_ascii_digit_def)
    from split_once_append [OF this, of "rev name"] show ?thesis by (simp add: rsplit_once_def)
  qed
  have head: "\<not> ends_with '']'' name" using n(5) by (auto simp: ends_with_iff)
  have ends: "trim_start_char (CHR ''['') name = name" "trim_end_char (CHR '']'') name = name"
    using n trim_end_replicate [OF n(5), of 0] by (auto simp: trim_start_char_def dropWhile_eq_self_iff dest: hd_in_set)
  show ?thesis
    using s(2) unfolding request_host_def s(1) Let_def
  proof (elim disjE exE conjE)
    assume "s = name"
    then show "to_ascii_lowercase (trim_end_char (CHR '']'') (trim_start_char (CHR ''['') (trim (case rsplit_once (CHR 0x3A) s of
        Some (head, tail) \<Rightarrow> if \<not> ends_with '']'' head \<and> list_all is_ascii_digit tail then head else s | None \<Rightarrow> s)))) = to_ascii_lowercase name"
      by (simp add: bare n(2) ends)
  next
    fix port
    assume "s = name @ CHR 0x3A # port" "list_all is_ascii_digit port"
    then show "to_ascii_lowercase (trim_end_char (CHR '']'') (trim_start_char (CHR ''['') (trim (case rsplit_once (CHR 0x3A) s of
        Some (head, tail) \<Rightarrow> if \<not> ends_with '']'' head \<and> list_all is_ascii_digit tail then head else s | None \<Rightarrow> s)))) = to_ascii_lowercase name"
      by (simp add: ported head n(2) ends)
  qed
qed

text \<open>The visit a chain is given.\<close>

definition dispatched :: "http_crate \<Rightarrow> dispatcher \<Rightarrow> ip_addr option \<Rightarrow> visit \<Rightarrow> visit" where
  "dispatched http d peer v =
     (let ip = client_ip http d peer (vs_headers v);
          v = install_limit (dp_max_body d) (v\<lparr>vs_client_ip := (case ip of Some a \<Rightarrow> Some a | None \<Rightarrow> vs_client_ip v), vs_tls := dp_tls d\<rparr>) in
      v\<lparr>vs_body := limited_frames (dp_max_body d) 0 (vs_body v)\<rparr>)"

lemma dispatched_simps:
  "vs_uri (dispatched http d peer v) = vs_uri v" "vs_headers (dispatched http d peer v) = vs_headers v"
  "vs_method (dispatched http d peer v) = vs_method v" "vs_tls (dispatched http d peer v) = dp_tls d"
  "vs_body (dispatched http d peer v) = limited_frames (dp_max_body d) 0 (vs_body v)"
  "vs_client_ip v = None \<Longrightarrow> vs_client_ip (dispatched http d peer v) = client_ip http d peer (vs_headers v)"
  by (auto simp: dispatched_def install_limit_def Let_def split: option.splits)

lemma dispatch_accepted:
  assumes "challenge (uri_path (vs_uri v)) = None" and "\<forall>n. limit_declared http v = Some n \<longrightarrow> n \<le> dp_max_body d"
  shows "dispatch_handle http d challenge peer uri_host v =
    (case dispatch_resolve http d peer uri_host v of
       Inl InvalidPath \<Rightarrow> refuse 400 (''400 invalid request path'' @ [CHR 0x0A]) (dispatched http d peer v)
     | Inl UnclaimedHost \<Rightarrow> write_not_found UnknownHost (generated (dispatched http d peer v))
     | Inl (NoSiteRoute site) \<Rightarrow> flow (ps_fallback site) (dispatched http d peer v)
     | Inr (site, route) \<Rightarrow> flow (pr_chain route) (dispatched http d peer v))"
proof -
  define w where "w = install_limit (dp_max_body d) (v\<lparr>vs_client_ip := (case client_ip http d peer (vs_headers v) of Some a \<Rightarrow> Some a | None \<Rightarrow> vs_client_ip v), vs_tls := dp_tls d\<rparr>)"
  have start: "(case client_ip http d peer (vs_headers v) of Some ip \<Rightarrow> v\<lparr>vs_client_ip := Some ip\<rparr> | None \<Rightarrow> v)\<lparr>vs_tls := dp_tls d\<rparr> =
      v\<lparr>vs_client_ip := (case client_ip http d peer (vs_headers v) of Some a \<Rightarrow> Some a | None \<Rightarrow> vs_client_ip v), vs_tls := dp_tls d\<rparr>"
    by (cases "client_ip http d peer (vs_headers v)") simp_all
  have "limit_declared http w = limit_declared http v" by (simp add: w_def limit_declared_def install_limit_def)
  with assms(2) have lim: "body_limit http (dp_max_body d) w = Inr (dispatched http d peer v)"
    by (auto simp: body_limit_def dispatched_def w_def Let_def not_less split: option.splits)
  have res: "dispatch_resolve http d peer uri_host (dispatched http d peer v) = dispatch_resolve http d peer uri_host v"
    by (rule resolve_cong) (simp_all add: dispatched_simps)
  have path: "uri_path (vs_uri (v\<lparr>vs_client_ip := a, vs_tls := b\<rparr>)) = uri_path (vs_uri v)" for a b by simp
  show ?thesis
    unfolding dispatch_handle_def Let_def start path assms(1) option.case w_def [symmetric] lim sum.case res ..
qed


text \<open>The host of a bracketed address keeps its port, so a site named by the address does not claim it.\<close>

lemma request_host_keeps_port:
  "request_host plain_http None [(''host'', ''[::1]:8080'')] = ''::1]:8080'' \<and> request_host plain_http None [(''host'', ''[::1]'')] = ''::1''"
  by code_simp

definition sample_route :: prepared_route where
  "sample_route = \<lparr>pr_id = resource_new RouteKind ''r'', pr_path = PathPrefix ''/'', pr_methods = MethodAny, pr_matchers = [Tls True],
     pr_chain = [not_found_handle]\<rparr>"

definition sample_dispatcher :: dispatcher where
  "sample_dispatcher = \<lparr>dp_sites = [\<lparr>ps_id = resource_new SiteKind ''s'', ps_host = HostAny, ps_routes = [sample_route], ps_fallback = []\<rparr>],
     dp_tls = True, dp_trusted_proxies = [(V4 [10, 0, 0, 0], 8)], dp_max_body = 2\<rparr>"

definition sample_arrival :: visit where
  "sample_arrival = sample_visit\<lparr>vs_client_ip := None, vs_headers := [(''x-forwarded-for'', ''198.51.100.7'')]\<rparr>"


end
