(* ===== verification/Blocking.thy ===== *)
theory Blocking
  imports Prelude Machines
begin

text \<open>
  Admission of blocking work (\<open>gatel-plugin-runtime/src/blocking.rs\<close>): the budget every executor shares, the
  reservations that queued and running work holds, and the change of limits by a publication. Every
  operation holds the lock of the budget from its first to its last access, so the steps of the
  interleaving are whole operations. Subtractions that would underflow are \<open>None\<close>.
\<close>

subsection \<open>The budget\<close>

record job_limits =
  jl_jobs :: nat
  jl_memory :: nat

record job_counters =
  jc_admitted :: nat
  jc_rejected_jobs :: nat
  jc_rejected_memory :: nat
  jc_rejected_closed :: nat
  jc_completed :: nat
  jc_panicked :: nat
  jc_abandoned :: nat

record job_budget =
  jb_limits :: job_limits
  jb_jobs :: nat
  jb_memory :: nat
  jb_closed :: bool
  jb_running :: nat
  jb_counters :: job_counters

datatype blocking_error = JobsSaturated | JobsClosed | ExecutionFailed

datatype job_phase = JobQueued | JobRunning | JobCompleted

record reservation =
  rv_memory :: nat
  rv_phase :: job_phase

definition default_limits :: job_limits where
  "default_limits = \<lparr>jl_jobs = 16, jl_memory = 256 * 1024 * 1024\<rparr>"

definition limits_validate :: "job_limits \<Rightarrow> job_limits option" where
  "limits_validate l = (if jl_jobs l < 1 \<or> 1024 < jl_jobs l \<or> jl_memory l = 0 then None else Some l)"

definition no_counters :: job_counters where
  "no_counters = \<lparr>jc_admitted = 0, jc_rejected_jobs = 0, jc_rejected_memory = 0, jc_rejected_closed = 0,
     jc_completed = 0, jc_panicked = 0, jc_abandoned = 0\<rparr>"

definition budget_new :: "job_limits \<Rightarrow> job_budget option" where
  "budget_new l = map_option (\<lambda>l. \<lparr>jb_limits = l, jb_jobs = 0, jb_memory = 0, jb_closed = False, jb_running = 0,
     jb_counters = no_counters\<rparr>) (limits_validate l)"

text \<open>Invalid limits change nothing.\<close>

definition budget_reconfigure :: "job_limits \<Rightarrow> job_budget \<Rightarrow> job_budget option" where
  "budget_reconfigure l b = map_option (\<lambda>l. b\<lparr>jb_limits := l\<rparr>) (limits_validate l)"

definition budget_close :: "job_budget \<Rightarrow> job_budget" where
  "budget_close b = b\<lparr>jb_closed := True\<rparr>"

text \<open>\<open>same\<close> says whether the executor belongs to the budget.\<close>

definition budget_prepare :: "bool \<Rightarrow> job_limits \<Rightarrow> job_limits option" where
  "budget_prepare same l = (if \<not> same then None else limits_validate l)"

text \<open>A publication: the limits it found, to be restored unless it is published.\<close>

definition begin_publication :: "job_limits \<Rightarrow> job_budget \<Rightarrow> job_limits \<times> job_budget" where
  "begin_publication l b = (jb_limits b, b\<lparr>jb_limits := l\<rparr>)"

definition publication_drop :: "bool \<Rightarrow> job_limits \<Rightarrow> job_budget \<Rightarrow> job_budget" where
  "publication_drop published previous b = (if \<not> published then b\<lparr>jb_limits := previous\<rparr> else b)"

definition bump :: "nat \<Rightarrow> nat" where
  "bump n = saturating_add u64_max n 1"

definition blocking_reserve :: "nat \<Rightarrow> job_budget \<Rightarrow> (blocking_error + reservation) \<times> job_budget" where
  "blocking_reserve m b =
     (let c = jb_counters b in
      if jb_closed b then (Inl JobsClosed, b\<lparr>jb_counters := c\<lparr>jc_rejected_closed := bump (jc_rejected_closed c)\<rparr>\<rparr>)
      else if jl_jobs (jb_limits b) \<le> jb_jobs b then
        (Inl JobsSaturated, b\<lparr>jb_counters := c\<lparr>jc_rejected_jobs := bump (jc_rejected_jobs c)\<rparr>\<rparr>)
      else let memory = checked_add u64_max (jb_memory b) m in
        case memory of
          None \<Rightarrow> (Inl JobsSaturated, b\<lparr>jb_counters := c\<lparr>jc_rejected_memory := bump (jc_rejected_memory c)\<rparr>\<rparr>)
        | Some total_memory \<Rightarrow>
            if jl_memory (jb_limits b) < total_memory then
              (Inl JobsSaturated, b\<lparr>jb_counters := c\<lparr>jc_rejected_memory := bump (jc_rejected_memory c)\<rparr>\<rparr>)
            else
              (Inr \<lparr>rv_memory = m, rv_phase = JobQueued\<rparr>,
               b\<lparr>jb_jobs := jb_jobs b + 1, jb_memory := total_memory,
                 jb_counters := c\<lparr>jc_admitted := bump (jc_admitted c)\<rparr>\<rparr>))"

definition blocking_start :: "reservation \<Rightarrow> job_budget \<Rightarrow> reservation \<times> job_budget" where
  "blocking_start r b = (r\<lparr>rv_phase := JobRunning\<rparr>, b\<lparr>jb_running := jb_running b + 1\<rparr>)"

definition sub_checked :: "nat \<Rightarrow> nat \<Rightarrow> nat option" where
  "sub_checked a n = (if n \<le> a then Some (a - n) else None)"

definition blocking_drop :: "reservation \<Rightarrow> job_budget \<Rightarrow> job_budget option" where
  "blocking_drop r b =
     Option.bind (sub_checked (jb_jobs b) 1) (\<lambda>jobs.
     Option.bind (sub_checked (jb_memory b) (rv_memory r)) (\<lambda>memory.
       let b = b\<lparr>jb_jobs := jobs, jb_memory := memory\<rparr>; c = jb_counters b in
       case rv_phase r of
         JobQueued \<Rightarrow> Some (b\<lparr>jb_counters := c\<lparr>jc_abandoned := bump (jc_abandoned c)\<rparr>\<rparr>)
       | JobRunning \<Rightarrow>
           map_option (\<lambda>running. b\<lparr>jb_running := running, jb_counters := c\<lparr>jc_panicked := bump (jc_panicked c)\<rparr>\<rparr>)
             (sub_checked (jb_running b) 1)
       | JobCompleted \<Rightarrow>
           map_option (\<lambda>running. b\<lparr>jb_running := running, jb_counters := c\<lparr>jc_completed := bump (jc_completed c)\<rparr>\<rparr>)
             (sub_checked (jb_running b) 1)))"

subsection \<open>Interleavings\<close>

text \<open>
  The budget and the reservations that are alive. \<open>run\<close> reserves, and the closure starts, works and ends
  its reservation; a closure that panics drops it while running, and one that never starts while queued.
\<close>

inductive blocking_step :: "job_budget \<times> reservation list \<Rightarrow> job_budget \<times> reservation list \<Rightarrow> bool" where
  step_reserve: "blocking_reserve m b = (Inr r, b') \<Longrightarrow> blocking_step (b, live) (b', r # live)"
| step_refused: "blocking_reserve m b = (Inl e, b') \<Longrightarrow> blocking_step (b, live) (b', live)"
| step_start: "r \<in> set live \<Longrightarrow> rv_phase r = JobQueued \<Longrightarrow> blocking_start r b = (r', b') \<Longrightarrow>
    blocking_step (b, live) (b', r' # remove1 r live)"
| step_worked: "r \<in> set live \<Longrightarrow> rv_phase r = JobRunning \<Longrightarrow>
    blocking_step (b, live) (b, r\<lparr>rv_phase := JobCompleted\<rparr> # remove1 r live)"
| step_drop: "r \<in> set live \<Longrightarrow> blocking_drop r b = Some b' \<Longrightarrow> blocking_step (b, live) (b', remove1 r live)"
| step_reconfigure: "budget_reconfigure l b = Some b' \<Longrightarrow> blocking_step (b, live) (b', live)"
| step_close: "blocking_step (b, live) (budget_close b, live)"
| step_publication: "budget_prepare same l = Some l' \<Longrightarrow> begin_publication l' b = (previous, b') \<Longrightarrow>
    blocking_step (b, live) (publication_drop published previous b', live)"

inductive_cases blocking_stepE: "blocking_step s t"

definition started :: "reservation \<Rightarrow> bool" where
  "started r \<longleftrightarrow> rv_phase r \<noteq> JobQueued"

definition limits_ok :: "job_limits \<Rightarrow> bool" where
  "limits_ok l \<longleftrightarrow> 1 \<le> jl_jobs l \<and> jl_jobs l \<le> 1024 \<and> 0 < jl_memory l"

text \<open>The counters of the ended work, with what is alive, account for what was admitted.\<close>

definition settled :: "job_counters \<Rightarrow> nat" where
  "settled c = jc_completed c + jc_panicked c + jc_abandoned c"

fun blocking_ok :: "job_budget \<times> reservation list \<Rightarrow> bool" where
  "blocking_ok (b, live) \<longleftrightarrow> limits_ok (jb_limits b) \<and> jb_jobs b = length live \<and> jb_jobs b \<le> 1024 \<and>
     jb_memory b = sum_list (map rv_memory live) \<and> jb_memory b \<le> u64_max \<and>
     jb_running b = length (filter started live) \<and>
     (jc_admitted (jb_counters b) < u64_max \<longrightarrow> jc_admitted (jb_counters b) = settled (jb_counters b) + length live)"

lemma bump_below [simp]: "n < u64_max \<Longrightarrow> bump n = n + 1"
  by (simp add: bump_def saturating_add_def)

lemma bump_less: "bump n < u64_max \<longleftrightarrow> n + 1 < u64_max"
  by (auto simp: bump_def saturating_add_def)

lemma limits_validate_Some: "limits_validate l = Some l' \<longleftrightarrow> l' = l \<and> limits_ok l"
  by (auto simp: limits_validate_def limits_ok_def)

lemma sub_checked_Some: "sub_checked a n = Some c \<longleftrightarrow> n \<le> a \<and> c = a - n"
  by (auto simp: sub_checked_def)

lemma live_remove:
  assumes "r \<in> set live"
  shows "length live = Suc (length (remove1 r live))"
    "sum_list (map rv_memory live) = rv_memory r + sum_list (map rv_memory (remove1 r live))"
    "length (filter started live) = (if started r then 1 else 0) + length (filter started (remove1 r live))"
proof -
  show "length live = Suc (length (remove1 r live))" using assms length_pos_if_in_set [OF assms] by (simp add: length_remove1)
  show "sum_list (map rv_memory live) = rv_memory r + sum_list (map rv_memory (remove1 r live))"
    using assms by (induction live) auto
  show "length (filter started live) = (if started r then 1 else 0) + length (filter started (remove1 r live))"
    using assms by (induction live) auto
qed

lemma blocking_reserve_ok:
  assumes "blocking_reserve m b = (r, b')"
  shows "jb_limits b' = jb_limits b" "jb_closed b' = jb_closed b" "jb_running b' = jb_running b"
    "case r of
       Inr q \<Rightarrow> \<not> jb_closed b \<and> q = \<lparr>rv_memory = m, rv_phase = JobQueued\<rparr> \<and> jb_jobs b' = jb_jobs b + 1 \<and>
         jb_jobs b' \<le> jl_jobs (jb_limits b) \<and> jb_memory b' = jb_memory b + m \<and> jb_memory b' \<le> jl_memory (jb_limits b) \<and>
         jb_memory b' \<le> u64_max \<and> settled (jb_counters b') = settled (jb_counters b) \<and>
         jc_admitted (jb_counters b') = bump (jc_admitted (jb_counters b))
     | Inl _ \<Rightarrow> jb_jobs b' = jb_jobs b \<and> jb_memory b' = jb_memory b \<and> settled (jb_counters b') = settled (jb_counters b) \<and>
         jc_admitted (jb_counters b') = jc_admitted (jb_counters b)"
  using assms
  by (auto simp: blocking_reserve_def Let_def checked_add_Some settled_def split: if_splits option.splits)

lemma blocking_drop_ok:
  assumes "blocking_ok (b, live)" and "r \<in> set live"
  shows "\<exists>b'. blocking_drop r b = Some b' \<and> jb_limits b' = jb_limits b \<and> jb_closed b' = jb_closed b \<and>
    jb_jobs b' = jb_jobs b - 1 \<and> jb_memory b' = jb_memory b - rv_memory r \<and>
    jb_running b' = jb_running b - (if started r then 1 else 0) \<and>
    jc_admitted (jb_counters b') = jc_admitted (jb_counters b) \<and>
    (settled (jb_counters b) < u64_max \<longrightarrow> settled (jb_counters b') = settled (jb_counters b) + 1)"
proof -
  note live = live_remove [OF assms(2)]
  have "1 \<le> jb_jobs b" "rv_memory r \<le> jb_memory b" "started r \<longrightarrow> 1 \<le> jb_running b"
    using assms(1) live by auto
  then show ?thesis
    by (cases "rv_phase r") (auto simp: blocking_drop_def sub_checked_def started_def settled_def Let_def)
qed

lemma blocking_step_ok:
  assumes "blocking_ok s" and "blocking_step s t"
  shows "blocking_ok t"
  using assms(2,1)
proof cases
  case (step_reserve m b r b' live)
  with assms(1) blocking_reserve_ok [OF step_reserve(3)] show ?thesis
    by (auto simp: limits_ok_def started_def bump_less)
next
  case (step_refused m b e b' live)
  with assms(1) blocking_reserve_ok [OF step_refused(3)] show ?thesis by auto
next
  case (step_start r live b r' b')
  then show ?thesis using assms(1) live_remove [OF step_start(3)]
    by (auto simp: blocking_start_def started_def)
next
  case (step_worked r live b)
  then show ?thesis using assms(1) live_remove [OF step_worked(3)] by (auto simp: started_def)
next
  case (step_drop r live b b')
  from assms(1) step_drop(1) have ok: "blocking_ok (b, live)" by simp
  note d = blocking_drop_ok [OF ok step_drop(3)] and live = live_remove [OF step_drop(3)]
  from d step_drop(4) ok live show ?thesis unfolding step_drop(2) by auto
qed (use assms(1) in \<open>auto simp: budget_reconfigure_def budget_close_def budget_prepare_def begin_publication_def
  publication_drop_def limits_validate_Some split: if_splits\<close>)

interpretation budgets: invariant_system blocking_step blocking_ok
  by unfold_locales (rule blocking_step_ok)

lemma budget_new_ok: "budget_new l = Some b \<Longrightarrow> blocking_ok (b, [])"
  by (auto simp: budget_new_def limits_validate_Some no_counters_def settled_def)

lemma closed_run: "blocking_step\<^sup>*\<^sup>* s t \<Longrightarrow> blocking_ok s \<Longrightarrow> jb_closed (fst s) \<Longrightarrow> jb_closed (fst t)"
proof -
  have step: "jb_closed (fst s) \<longrightarrow> jb_closed (fst t)" if "blocking_ok s" "blocking_step s t" for s t
    using that(2,1)
  proof cases
    case (step_drop r live b b')
    with blocking_drop_ok [of b live r] that(1) show ?thesis by auto
  qed (auto simp: blocking_start_def budget_reconfigure_def budget_close_def begin_publication_def publication_drop_def
    dest: blocking_reserve_ok(2))
  assume "blocking_step\<^sup>*\<^sup>* s t" "blocking_ok s" "jb_closed (fst s)"
  then show ?thesis using budgets.relation_run [of s t "\<lambda>s t. jb_closed (fst s) \<longrightarrow> jb_closed (fst t)"] step by blast
qed

text \<open>
  C40: Under every interleaving of reservations, starts, completions, panics, cancellations, limit changes and
  closing, the budget counts exactly the reservations that are alive, their memory and those that have
  started, so that ending one never underflows; at most 1024 are alive; and until the counter of
  admissions saturates, the outcomes and what is alive add up to it.
\<close>

theorem blocking_budget_exact:
  assumes "budget_new l = Some b0" and "blocking_step\<^sup>*\<^sup>* (b0, []) (b, live)"
  shows "jb_jobs b = length live \<and> length live \<le> 1024 \<and> jb_memory b = sum_list (map rv_memory live) \<and> jb_memory b \<le> u64_max \<and>
    jb_running b = length (filter started live) \<and> (\<forall>r \<in> set live. blocking_drop r b \<noteq> None) \<and>
    (jc_admitted (jb_counters b) < u64_max \<longrightarrow> jc_admitted (jb_counters b) = settled (jb_counters b) + length live) \<and>
    (\<forall>m r b'. blocking_reserve m b = (Inr r, b') \<longrightarrow>
       jb_jobs b' \<le> jl_jobs (jb_limits b) \<and> jb_memory b' \<le> jl_memory (jb_limits b) \<and> \<not> jb_closed b)"
proof -
  have ok: "blocking_ok (b, live)" using budgets.inv_run [OF assms(2) budget_new_ok [OF assms(1)]] .
  then have drops: "\<forall>r \<in> set live. blocking_drop r b \<noteq> None" using blocking_drop_ok [OF ok] by fastforce
  have "jb_jobs b' \<le> jl_jobs (jb_limits b) \<and> jb_memory b' \<le> jl_memory (jb_limits b) \<and> \<not> jb_closed b"
    if "blocking_reserve m b = (Inr r, b')" for m r b' using blocking_reserve_ok(4) [OF that] by simp
  with ok drops show ?thesis by auto
qed

theorem blocking_budget_exact_witness:
  "\<exists>b0 b r. budget_new default_limits = Some b0 \<and> blocking_step\<^sup>*\<^sup>* (b0, []) (b, [r]) \<and> jb_jobs b = 1 \<and> jb_memory b = 8192"
proof -
  obtain b0 where b0: "budget_new default_limits = Some b0" "b0 = \<lparr>jb_limits = default_limits, jb_jobs = 0, jb_memory = 0,
      jb_closed = False, jb_running = 0, jb_counters = no_counters\<rparr>"
    by (simp add: budget_new_def limits_validate_def default_limits_def)
  obtain r b where r: "blocking_reserve 8192 b0 = (Inr r, b)"
    by (simp add: b0(2) blocking_reserve_def default_limits_def checked_add_def u64_max_def)
  then have "rv_memory r = 8192" using blocking_reserve_ok(4) [OF r] by simp
  have run: "blocking_step\<^sup>*\<^sup>* (b0, []) (b, [r])" using step_reserve [OF r] by (rule r_into_rtranclp)
  from blocking_budget_exact [OF b0(1) run] \<open>rv_memory r = 8192\<close> b0(1) run show ?thesis by auto
qed

end
