(* ===== verification/Proxying.thy ===== *)
theory Proxying
  imports Dispatching Selector Transforms
begin

text \<open>
  The reverse proxy (\<open>gatel-http/src/proxy\<close>, \<open>upgrade.rs\<close>): what goes out, what comes back, and the loop of
  attempts over the endpoints of an upstream. What the network, the clock and other requests do is in one
  record per attempt; other requests may change the shared state of the upstream, in any way, before an
  attempt, while it waits for a connection and while it waits for an answer. What was sent and counted is
  a list of events. Texts that only go to the log are left out.
\<close>

subsection \<open>Data\<close>

record upstream_runtime =
  ur_spec :: upstream
  ur_endpoints :: endpoint_set
  ur_selector :: selector_state
  ur_retry :: retry_budget

datatype payload = PayloadEmpty | Buffered bytes | Streaming

definition is_reproducible :: "payload \<Rightarrow> bool" where
  "is_reproducible p \<longleftrightarrow> p \<noteq> Streaming"

datatype checkout_error = QueueFull | QueueTimeout nat | ConnectTimeout nat | ConnectFailed | ResolveFailed | HandshakeFailed | PoolDraining

datatype proxy_failure = NoEndpoint | CheckoutFailed checkout_error | ProxyTimeout bytes nat | UpstreamFailed | ClientBody

fun proxy_status :: "proxy_failure \<Rightarrow> nat" where
  "proxy_status NoEndpoint = 503"
| "proxy_status (CheckoutFailed e) = (case e of QueueFull \<Rightarrow> 503 | QueueTimeout _ \<Rightarrow> 503 | _ \<Rightarrow> 502)"
| "proxy_status (ProxyTimeout _ _) = 504"
| "proxy_status UpstreamFailed = 502"
| "proxy_status ClientBody = 400"

fun public_message :: "proxy_failure \<Rightarrow> bytes" where
  "public_message NoEndpoint = ''503 no healthy backend'' @ [CHR 0x0A]"
| "public_message (CheckoutFailed e) = (case e of
     QueueFull \<Rightarrow> ''503 backend at capacity'' @ [CHR 0x0A]
   | QueueTimeout _ \<Rightarrow> ''503 backend at capacity'' @ [CHR 0x0A]
   | _ \<Rightarrow> ''502 could not reach the backend'' @ [CHR 0x0A])"
| "public_message (ProxyTimeout _ _) = ''504 the backend did not answer in time'' @ [CHR 0x0A]"
| "public_message UpstreamFailed = ''502 the backend replied badly'' @ [CHR 0x0A]"
| "public_message ClientBody = ''400 the request body could not be read'' @ [CHR 0x0A]"

datatype out_body = FullBody bytes | StreamBody "req_frame list"

record out_request =
  oq_method :: bytes
  oq_target :: bytes
  oq_headers :: header_map
  oq_body :: out_body

text \<open>\<open>ua_upgrade\<close> says whether the response carries the backend's half of an upgrade.\<close>

record upstream_answer =
  ua_status :: nat
  ua_headers :: header_map
  ua_body :: bytes
  ua_upgrade :: bool

datatype attempt_outcome = AttemptAnswered | AttemptFailed | AttemptTimedOut | AttemptUnavailable

datatype proxy_event = SentTo bytes out_request | Attempted attempt_outcome | Poisoned bytes

subsection \<open>What goes out and what comes back\<close>

definition HOP_BY_HOP :: "bytes list" where
  "HOP_BY_HOP = [''connection'', ''keep-alive'', ''proxy-authenticate'', ''proxy-authorization'', ''te'', ''trailer'',
     ''transfer-encoding'', ''upgrade'']"

definition connection_values :: "http_crate \<Rightarrow> header_map \<Rightarrow> bytes list" where
  "connection_values http h = concat (map (split_at (CHR 0x2C)) (List.map_filter (value_str http) (get_all ''connection'' h)))"

definition connection_tokens :: "http_crate \<Rightarrow> header_map \<Rightarrow> bytes list" where
  "connection_tokens http h = map (\<lambda>t. to_ascii_lowercase (trim t)) (connection_values http h)"

definition requested_protocol :: "http_crate \<Rightarrow> header_map \<Rightarrow> bytes option" where
  "requested_protocol http h =
     (if \<not> list_ex (\<lambda>t. eq_ignore_ascii_case (trim t) ''upgrade'') (connection_values http h) then None
      else case Option.bind (get_header ''upgrade'' h) (value_str http) of
        None \<Rightarrow> None
      | Some t \<Rightarrow> let protocol = to_ascii_lowercase (trim t) in if protocol = [] then None else Some protocol)"

fun append_kept :: "bytes list \<Rightarrow> header_map \<Rightarrow> header_map \<Rightarrow> header_map" where
  "append_kept dropped [] into = into"
| "append_kept dropped ((n, x) # h) into =
     append_kept dropped h (if n \<in> set HOP_BY_HOP \<or> n \<in> set dropped then into else append_header n x into)"

definition insert_valid :: "http_crate \<Rightarrow> bytes \<Rightarrow> bytes \<Rightarrow> header_map \<Rightarrow> header_map" where
  "insert_valid http name t h = (case value_of http t of Some x \<Rightarrow> insert_header name x h | None \<Rightarrow> h)"

text \<open>The headers of the request that goes out; \<open>None\<close> where the host cannot be one.\<close>

definition outbound_headers ::
  "http_crate \<Rightarrow> bytes \<Rightarrow> ip_addr option \<Rightarrow> bool \<Rightarrow> bytes option \<Rightarrow> header_map \<Rightarrow> header_map option" where
  "outbound_headers http host client tls upgrade_to h =
     (case value_of http host of
        None \<Rightarrow> None
      | Some host_value \<Rightarrow>
          (let out = insert_header ''host'' host_value (append_kept (connection_tokens http h) h []);
               out = (case client of Some ip \<Rightarrow> insert_valid http ''x-forwarded-for'' (show_ip ip) out | None \<Rightarrow> out);
               out = insert_valid http ''x-forwarded-host'' host out;
               out = insert_header ''x-forwarded-proto'' (if tls then ''https'' else ''http'') out in
           Some (case Option.bind upgrade_to (value_of http) of
             Some protocol \<Rightarrow> insert_header ''connection'' ''upgrade'' (insert_header ''upgrade'' protocol out)
           | None \<Rightarrow> out)))"

definition proxy_declared_length :: "http_crate \<Rightarrow> header_map \<Rightarrow> nat option" where
  "proxy_declared_length http h =
     (if contains_key ''transfer-encoding'' h then None
      else Option.bind (Option.bind (get_header ''content-length'' h) (value_str http)) (parse_unsigned u64_max))"

text \<open>\<open>end_stream\<close> is what the body says of itself before it is read.\<close>

definition has_body :: "http_crate \<Rightarrow> bool \<Rightarrow> header_map \<Rightarrow> bool" where
  "has_body http end_stream h \<longleftrightarrow> contains_key ''transfer-encoding'' h \<or>
     (case proxy_declared_length http h of Some n \<Rightarrow> 0 < n | None \<Rightarrow> \<not> end_stream)"

definition cookie_value :: "http_crate \<Rightarrow> header_map \<Rightarrow> bytes \<Rightarrow> bytes option" where
  "cookie_value http h name =
     Option.bind (Option.bind (get_header ''cookie'' h) (value_str http)) (\<lambda>t. find_cookie name (split_at (CHR 0x3B) t))"

text \<open>\<open>collect\<close>: the data of the frames, unless reading one fails.\<close>

definition collect_body :: "req_frame list \<Rightarrow> bytes option" where
  "collect_body fs = (if list_ex frame_fails fs then None else Some (body_bytes fs))"

definition proxy_payload :: "http_crate \<Rightarrow> bool \<Rightarrow> retry option \<Rightarrow> visit \<Rightarrow> (proxy_failure + payload) \<times> visit" where
  "proxy_payload http end_stream retry v =
     (case proxy_declared_length http (vs_headers v) of
        None \<Rightarrow> (Inr (if has_body http end_stream (vs_headers v) then Streaming else PayloadEmpty), v)
      | Some n \<Rightarrow>
          if n = 0 then (Inr PayloadEmpty, v)
          else if \<not> (case retry of Some r \<Rightarrow> retry_mode r = ReplayRetry \<and> n \<le> retry_buffer r | None \<Rightarrow> False)
            then (Inr Streaming, v)
          else (case collect_body (vs_body v) of
              None \<Rightarrow> (Inl ClientBody, v\<lparr>vs_body := []\<rparr>)
            | Some bs \<Rightarrow> (Inr (Buffered bs), v\<lparr>vs_body := []\<rparr>)))"

text \<open>What is fixed for the attempts of one request.\<close>

record proxy_job =
  pj_target :: bytes
  pj_host :: bytes
  pj_client_ip :: "ip_addr option"
  pj_tls :: bool
  pj_upgrade :: "bytes option"
  pj_client_upgrade :: bool
  pj_payload :: payload
  pj_retry :: "retry option"
  pj_deadline :: nat
  pj_key :: request_key

text \<open>
  What the connection of the client offers: whether it can be upgraded and whether work can be
  registered on it; and whether the \<open>http\<close> crate takes a text for a URI.
\<close>

record proxy_ports =
  pp_http :: http_crate
  pp_uri_ok :: "bytes \<Rightarrow> bool"
  pp_end_stream :: bool
  pp_on_upgrade :: bool
  pp_work :: bool

text \<open>\<open>None\<close> is the panic of a builder that refused the target.\<close>

definition build_request :: "proxy_ports \<Rightarrow> proxy_job \<Rightarrow> visit \<Rightarrow> (proxy_failure + out_request) option \<times> visit" where
  "build_request pp job v =
     (if \<not> pp_uri_ok pp (pj_target job) then (None, v)
      else case outbound_headers (pp_http pp) (pj_host job) (pj_client_ip job) (pj_tls job) (pj_upgrade job) (vs_headers v) of
        None \<Rightarrow> (Some (Inl UpstreamFailed), v)
      | Some h \<Rightarrow>
          (let q = (\<lambda>b. Some (Inr \<lparr>oq_method = vs_method v, oq_target = pj_target job, oq_headers = h, oq_body = b\<rparr>)) in
           case pj_payload job of
             PayloadEmpty \<Rightarrow> (q (FullBody []), v)
           | Buffered bs \<Rightarrow> (q (FullBody bs), v)
           | Streaming \<Rightarrow> (q (StreamBody (vs_body v)), v\<lparr>vs_body := []\<rparr>)))"

definition write_response :: "http_crate \<Rightarrow> upstream_answer \<Rightarrow> visit \<Rightarrow> visit" where
  "write_response http a v =
     v\<lparr>vs_status := Some (ua_status a),
       vs_out_headers := append_kept (connection_tokens http (ua_headers a)) (ua_headers a) (vs_out_headers v),
       vs_out_body := Some (ua_body a)\<rparr>"

text \<open>The body of the answer, poll by poll: what the connection gave, and when.\<close>

datatype ('f, 'e) polled = PollPending | PollEnd | PollFrame 'f | PollError 'e | PollTimedOut

definition guarded_poll :: "nat \<Rightarrow> nat \<Rightarrow> nat \<Rightarrow> ('f, 'e) polled \<Rightarrow> ('f, 'e) polled \<times> nat" where
  "guarded_poll gap idle now inner =
     (case inner of
        PollPending \<Rightarrow> (if idle \<le> now then PollTimedOut else PollPending, idle)
      | PollEnd \<Rightarrow> (PollEnd, idle)
      | p \<Rightarrow> (p, now + gap))"

text \<open>A switch of protocols: the visit, and whether a tunnel keeps the guard.\<close>

definition start_tunnel :: "bool \<Rightarrow> bool \<Rightarrow> bool \<Rightarrow> upstream_answer \<Rightarrow> visit \<Rightarrow> visit \<times> bool" where
  "start_tunnel work client_upgrade registered a v =
     (if \<not> work then (v\<lparr>vs_status := Some 502\<rparr>, False)
      else
        (let copy = (\<lambda>n h. case get_header n (ua_headers a) of Some x \<Rightarrow> insert_header n x h | None \<Rightarrow> h);
             v = v\<lparr>vs_status := Some 101,
               vs_out_headers := append_kept [] (ua_headers a) (copy ''upgrade'' (copy ''connection'' (vs_out_headers v)))\<rparr> in
         if \<not> ua_upgrade a \<or> \<not> client_upgrade then (v, False)
         else if \<not> registered then (v\<lparr>vs_status := Some 502\<rparr>, False)
         else (v, True)))"

subsection \<open>One attempt\<close>

datatype checkout_result = CheckoutLease | CheckoutErr checkout_error | CheckoutElapsed

datatype send_result = SendAnswer upstream_answer | SendErr | SendElapsed

text \<open>
  What happens around one attempt: the instants it reads, what the pool and the connection do, and what
  other requests do to the upstream at its three points of suspension.
\<close>

record attempt_world =
  aw_others :: "nat \<Rightarrow> upstream_runtime \<Rightarrow> upstream_runtime"
  aw_started :: nat
  aw_checkout :: "bytes \<Rightarrow> checkout_result"
  aw_checked :: nat
  aw_sending :: nat
  aw_send :: "bytes \<Rightarrow> out_request \<Rightarrow> send_result"
  aw_sent :: nat
  aw_registered :: bool

text \<open>\<open>px_guard\<close> is the guard that outlives the loop: with the body of the answer, or with a tunnel.\<close>

record proxy_state =
  px_runtime :: upstream_runtime
  px_visit :: visit
  px_excluded :: "bytes list"
  px_last :: "proxy_failure option"
  px_events :: "proxy_event list"
  px_guard :: "bytes option"

datatype proxy_result = ProxyDone nat | ProxyFailed proxy_failure | ProxyPanic

datatype attempt_step = GoOn | Finish proxy_result

definition on_runtime :: "(upstream_runtime \<Rightarrow> upstream_runtime) \<Rightarrow> proxy_state \<Rightarrow> proxy_state" where
  "on_runtime f st = st\<lparr>px_runtime := f (px_runtime st)\<rparr>"

definition on_endpoints :: "(endpoint_set \<Rightarrow> endpoint_set) \<Rightarrow> upstream_runtime \<Rightarrow> upstream_runtime" where
  "on_endpoints f rt = rt\<lparr>ur_endpoints := f (ur_endpoints rt)\<rparr>"

definition record_event :: "proxy_event \<Rightarrow> proxy_state \<Rightarrow> proxy_state" where
  "record_event e st = st\<lparr>px_events := px_events st @ [e]\<rparr>"

definition report :: "bytes \<Rightarrow> bool \<Rightarrow> nat \<Rightarrow> proxy_state \<Rightarrow> proxy_state" where
  "report i failed now = on_runtime (on_endpoints (\<lambda>s. snd (report_traffic i failed now s)))"

definition may_replay :: "proxy_job \<Rightarrow> bool" where
  "may_replay job \<longleftrightarrow> (case pj_retry job of Some r \<Rightarrow> retry_mode r = ReplayRetry | None \<Rightarrow> False) \<and> is_reproducible (pj_payload job)"

definition attempts_allowed :: "proxy_job \<Rightarrow> nat" where
  "attempts_allowed job = (case pj_retry job of Some r \<Rightarrow> max 1 (retry_attempts r) | None \<Rightarrow> 1)"

definition attempt_deadline :: "proxy_job \<Rightarrow> attempt_world \<Rightarrow> nat" where
  "attempt_deadline job w =
     (case pj_retry job of Some r \<Rightarrow> min (pj_deadline job) (aw_started w + retry_per_try r) | None \<Rightarrow> pj_deadline job)"

definition out_of_time :: "timeouts \<Rightarrow> proxy_job \<Rightarrow> nat \<Rightarrow> proxy_failure" where
  "out_of_time timeouts job now =
     (case pj_retry job of
        Some r \<Rightarrow> if pj_deadline job \<le> now then ProxyTimeout ''overall'' (to_overall timeouts)
                  else ProxyTimeout ''per-try'' (retry_per_try r)
      | None \<Rightarrow> ProxyTimeout ''overall'' (to_overall timeouts))"

text \<open>\<open>take\<close> of the retry budget, its two operations in one go.\<close>

definition budget_take :: "nat \<Rightarrow> nat \<Rightarrow> retry_budget \<Rightarrow> bool \<times> retry_budget" where
  "budget_take in_flight percent b =
     (if percent = 0 then (False, b)
      else take_check (rb_live b + 1, allowed_retries in_flight percent) (take_claim in_flight percent b))"

definition take_permit :: "proxy_job \<Rightarrow> nat \<Rightarrow> proxy_state \<Rightarrow> bool \<times> proxy_state" where
  "take_permit job n st =
     (if n = 1 then (True, st)
      else case budget_take (es_in_flight (ur_endpoints (px_runtime st)))
             (case pj_retry job of Some r \<Rightarrow> retry_budget_percent r | None \<Rightarrow> 0) (ur_retry (px_runtime st)) of
        (ok, b) \<Rightarrow> (ok, on_runtime (\<lambda>rt. rt\<lparr>ur_retry := b\<rparr>) st))"

definition drop_permit :: "nat \<Rightarrow> proxy_state \<Rightarrow> proxy_state" where
  "drop_permit n st = (if n = 1 then st else on_runtime (\<lambda>rt. rt\<lparr>ur_retry := permit_drop (ur_retry rt)\<rparr>) st)"

text \<open>The credits of weighted round robin live on the shared endpoints.\<close>

definition write_credits :: "backend list \<Rightarrow> endpoint_set \<Rightarrow> endpoint_set" where
  "write_credits bs s = fold (\<lambda>b. es_put (be_id b) (\<lambda>x. x\<lparr>be_current_weight := be_current_weight b\<rparr>)) bs s"

definition pick_endpoint :: "proxy_job \<Rightarrow> nat \<Rightarrow> bytes list \<Rightarrow> upstream_runtime \<Rightarrow> bytes option \<times> upstream_runtime" where
  "pick_endpoint job now excluded rt =
     (case eligible now (ur_endpoints rt) of (all_eligible, s) \<Rightarrow>
      (let bs = filter (\<lambda>b. be_id b \<notin> set excluded) all_eligible in
       case select (up_balance (ur_spec rt)) bs (ur_selector rt) (pj_key job) of
         None \<Rightarrow> (None, rt\<lparr>ur_endpoints := s\<rparr>)
       | Some (chosen, selector, credited) \<Rightarrow>
           (Some (be_id (bs ! sel_index chosen)), rt\<lparr>ur_endpoints := write_credits credited s, ur_selector := selector\<rparr>)))"

definition try_elsewhere :: "bytes \<Rightarrow> proxy_failure \<Rightarrow> proxy_state \<Rightarrow> attempt_step \<times> proxy_state" where
  "try_elsewhere i e st = (GoOn, st\<lparr>px_excluded := px_excluded st @ [i], px_last := Some e\<rparr>)"

definition give_up :: "proxy_state \<Rightarrow> proxy_failure" where
  "give_up st = (case px_last st of Some e \<Rightarrow> e | None \<Rightarrow> NoEndpoint)"

definition proxy_answer ::
  "proxy_ports \<Rightarrow> proxy_job \<Rightarrow> attempt_world \<Rightarrow> nat \<Rightarrow> bytes \<Rightarrow> upstream_answer \<Rightarrow> proxy_state \<Rightarrow> attempt_step \<times> proxy_state" where
  "proxy_answer pp job w n i a st =
     (let st = record_event (Attempted AttemptAnswered) st in
      if ua_status a = 101 \<and> pj_upgrade job \<noteq> None then
        (let st = record_event (Poisoned i) (report i False (aw_sent w) st) in
         case start_tunnel (pp_work pp) (pj_client_upgrade job) (aw_registered w) a (px_visit st) of
           (v, tunnelling) \<Rightarrow> (Finish (ProxyDone n), st\<lparr>px_visit := v, px_guard := (if tunnelling then Some i else None)\<rparr>))
      else
        (let st = report i (counts_as_failure (ua_status a) (ur_endpoints (px_runtime st))) (aw_sent w) st in
         (Finish (ProxyDone n), st\<lparr>px_visit := write_response (pp_http pp) a (px_visit st), px_guard := Some i\<rparr>)))"

definition proxy_send :: "proxy_ports \<Rightarrow> proxy_job \<Rightarrow> attempt_world \<Rightarrow> nat \<Rightarrow> bytes \<Rightarrow> proxy_state \<Rightarrow> attempt_step \<times> proxy_state" where
  "proxy_send pp job w n i st =
     (case build_request pp job (px_visit st) of
        (None, v) \<Rightarrow> (Finish ProxyPanic, st)
      | (Some (Inl e), v) \<Rightarrow> (Finish (ProxyFailed e), st\<lparr>px_visit := v\<rparr>)
      | (Some (Inr q), v) \<Rightarrow>
          (let timeouts = up_timeouts (ur_spec (px_runtime st));
               head_deadline = min (attempt_deadline job w) (aw_sending w + to_response_head timeouts);
               st = on_runtime (aw_others w 2) (record_event (SentTo i q) (st\<lparr>px_visit := v\<rparr>)) in
           case aw_send w i q of
             SendAnswer a \<Rightarrow> proxy_answer pp job w n i a st
           | SendErr \<Rightarrow>
               (let st = record_event (Poisoned i) (record_event (Attempted AttemptFailed) (report i True (aw_sent w) st)) in
                if \<not> may_replay job then (Finish (ProxyFailed UpstreamFailed), st)
                else try_elsewhere i UpstreamFailed st)
           | SendElapsed \<Rightarrow>
               (let st = record_event (Poisoned i) (record_event (Attempted AttemptTimedOut) (report i True (aw_sent w) st));
                    e = (if head_deadline \<le> aw_sent w \<and> head_deadline < attempt_deadline job w
                         then ProxyTimeout ''response-head'' (to_response_head timeouts)
                         else out_of_time timeouts job (aw_sent w)) in
                if \<not> may_replay job \<or> pj_deadline job \<le> aw_sent w then (Finish (ProxyFailed e), st)
                else try_elsewhere i e st)))"

definition proxy_try :: "proxy_ports \<Rightarrow> proxy_job \<Rightarrow> attempt_world \<Rightarrow> nat \<Rightarrow> bytes \<Rightarrow> proxy_state \<Rightarrow> attempt_step \<times> proxy_state" where
  "proxy_try pp job w n i st =
     (let st = on_runtime (aw_others w 1) st in
      case aw_checkout w i of
        CheckoutLease \<Rightarrow> proxy_send pp job w n i st
      | CheckoutErr e \<Rightarrow>
          try_elsewhere i (CheckoutFailed e)
            (record_event (Attempted (if e = ConnectFailed then AttemptFailed else AttemptUnavailable)) (report i True (aw_checked w) st))
      | CheckoutElapsed \<Rightarrow>
          (let st = record_event (Attempted AttemptTimedOut) st;
               e = out_of_time (up_timeouts (ur_spec (px_runtime st))) job (aw_checked w) in
           if pj_deadline job \<le> aw_checked w then (Finish (ProxyFailed e), st) else try_elsewhere i e st))"

text \<open>The guard of an attempt is dropped with it, unless the answer or a tunnel keeps it.\<close>

definition drop_guard :: "bytes \<Rightarrow> proxy_state \<Rightarrow> proxy_state" where
  "drop_guard i st = (if px_guard st = None then on_runtime (on_endpoints (release i)) st else st)"

definition proxy_attempt :: "proxy_ports \<Rightarrow> proxy_job \<Rightarrow> attempt_world \<Rightarrow> nat \<Rightarrow> proxy_state \<Rightarrow> attempt_step \<times> proxy_state" where
  "proxy_attempt pp job w n st =
     (case take_permit job n (on_runtime (aw_others w 0) st) of (permitted, st) \<Rightarrow>
        if \<not> permitted then (Finish (ProxyFailed (give_up st)), st)
        else (case pick_endpoint job (aw_started w) (px_excluded st) (px_runtime st) of
            (None, rt) \<Rightarrow>
              (Finish (ProxyFailed (give_up st)), drop_permit n (record_event (Attempted AttemptUnavailable) (st\<lparr>px_runtime := rt\<rparr>)))
          | (Some i, rt) \<Rightarrow>
              (case proxy_try pp job w n i (st\<lparr>px_runtime := on_endpoints (claim i) rt\<rparr>) of
                 (r, st) \<Rightarrow> (r, drop_permit n (drop_guard i st)))))"

subsection \<open>The loop and the handler\<close>

fun proxy_loop :: "proxy_ports \<Rightarrow> proxy_job \<Rightarrow> (nat \<Rightarrow> attempt_world) \<Rightarrow> nat \<Rightarrow> nat \<Rightarrow> proxy_state \<Rightarrow> proxy_result \<times> proxy_state" where
  "proxy_loop pp job ws n 0 st = (ProxyFailed (give_up st), st)"
| "proxy_loop pp job ws n (Suc k) st =
     (case proxy_attempt pp job (ws n) n st of
        (Finish r, st) \<Rightarrow> (r, st)
      | (GoOn, st) \<Rightarrow> proxy_loop pp job ws (n + 1) k st)"

definition proxy_key :: "http_crate \<Rightarrow> balance \<Rightarrow> ip_addr option \<Rightarrow> bytes \<Rightarrow> header_map \<Rightarrow> request_key" where
  "proxy_key http balance client target h =
     \<lparr>rk_client_ip = client, rk_uri = target,
      rk_header = (case balance of HeaderHash name \<Rightarrow> Option.bind (get_header name h) (value_str http) | _ \<Rightarrow> None),
      rk_cookie = (case balance of CookieHash name \<Rightarrow> cookie_value http h name | _ \<Rightarrow> None)\<rparr>"

definition proxy_start :: "upstream_runtime \<Rightarrow> visit \<Rightarrow> proxy_state" where
  "proxy_start rt v = \<lparr>px_runtime = rt, px_visit = v, px_excluded = [], px_last = None, px_events = [], px_guard = None\<rparr>"

definition proxy_plan :: "proxy_ports \<Rightarrow> nat \<Rightarrow> bytes option \<Rightarrow> upstream \<Rightarrow> visit \<Rightarrow> retry option \<Rightarrow> payload \<Rightarrow> proxy_job" where
  "proxy_plan pp now uri_host spec v retry payload =
     (let http = pp_http pp;
          target = (case uri_path_and_query (vs_uri v) of Some t \<Rightarrow> t | None \<Rightarrow> ''/'');
          upgrade_to = requested_protocol http (vs_headers v) in
      \<lparr>pj_target = target, pj_host = request_host http uri_host (vs_headers v), pj_client_ip = vs_client_ip v,
       pj_tls = vs_tls v, pj_upgrade = upgrade_to, pj_client_upgrade = (upgrade_to \<noteq> None \<and> pp_on_upgrade pp),
       pj_payload = payload, pj_retry = retry, pj_deadline = now + to_overall (up_timeouts spec),
       pj_key = proxy_key http (up_balance spec) (vs_client_ip v) target (vs_headers v)\<rparr>)"

definition retry_of :: "http_crate \<Rightarrow> upstream \<Rightarrow> visit \<Rightarrow> retry option" where
  "retry_of http spec v = (if requested_protocol http (vs_headers v) = None then up_retry spec else None)"

definition proxy :: "proxy_ports \<Rightarrow> nat \<Rightarrow> bytes option \<Rightarrow> (nat \<Rightarrow> attempt_world) \<Rightarrow> upstream_runtime \<Rightarrow> visit \<Rightarrow> proxy_result \<times> proxy_state" where
  "proxy pp now uri_host ws rt v =
     (let spec = ur_spec rt; retry = retry_of (pp_http pp) spec v in
      if requested_protocol (pp_http pp) (vs_headers v) \<noteq> None \<and> up_protocol spec = Http2
        then (ProxyFailed UpstreamFailed, proxy_start rt v)
      else case proxy_payload (pp_http pp) (pp_end_stream pp) retry v of
        (Inl e, u) \<Rightarrow> (ProxyFailed e, proxy_start rt u)
      | (Inr payload, u) \<Rightarrow>
          (let job = proxy_plan pp now uri_host spec v retry payload in
           proxy_loop pp job ws 1 (attempts_allowed job) (proxy_start rt u)))"

text \<open>A panic ends the task that serves the connection: there is no visit.\<close>

definition proxy_handle ::
  "proxy_ports \<Rightarrow> nat \<Rightarrow> bytes option \<Rightarrow> (nat \<Rightarrow> attempt_world) \<Rightarrow> upstream_runtime \<Rightarrow> visit \<Rightarrow> visit option \<times> proxy_state" where
  "proxy_handle pp now uri_host ws rt v =
     (case proxy pp now uri_host ws rt v of
        (ProxyDone n, st) \<Rightarrow> (Some (px_visit st), st)
      | (ProxyFailed e, st) \<Rightarrow> (Some (refuse (proxy_status e) (public_message e) (px_visit st)), st)
      | (ProxyPanic, st) \<Rightarrow> (None, st))"

subsection \<open>What has been sent\<close>

fun sent_event :: "proxy_event \<Rightarrow> (bytes \<times> out_request) list" where
  "sent_event (SentTo i q) = [(i, q)]"
| "sent_event _ = []"

definition sends :: "proxy_state \<Rightarrow> (bytes \<times> out_request) list" where
  "sends st = concat (map sent_event (px_events st))"

lemma on_runtime_simps [simp]:
  "px_visit (on_runtime f st) = px_visit st" "px_excluded (on_runtime f st) = px_excluded st"
  "px_last (on_runtime f st) = px_last st" "sends (on_runtime f st) = sends st" "px_guard (on_runtime f st) = px_guard st"
  "px_runtime (on_runtime f st) = f (px_runtime st)"
  by (simp_all add: on_runtime_def sends_def)

lemma record_event_simps [simp]:
  "px_visit (record_event e st) = px_visit st" "px_excluded (record_event e st) = px_excluded st"
  "px_last (record_event e st) = px_last st" "sends (record_event e st) = sends st @ sent_event e"
  "px_guard (record_event e st) = px_guard st" "px_runtime (record_event e st) = px_runtime st"
  by (simp_all add: record_event_def sends_def)

lemma report_simps [simp]:
  "px_visit (report i failed now st) = px_visit st" "px_excluded (report i failed now st) = px_excluded st"
  "px_last (report i failed now st) = px_last st" "sends (report i failed now st) = sends st"
  "px_guard (report i failed now st) = px_guard st"
  "px_runtime (report i failed now st) = on_endpoints (\<lambda>s. snd (report_traffic i failed now s)) (px_runtime st)"
  by (simp_all add: report_def)

lemma sends_update [simp]:
  "sends (st\<lparr>px_visit := v\<rparr>) = sends st" "sends (st\<lparr>px_runtime := rt\<rparr>) = sends st" "sends (st\<lparr>px_guard := g\<rparr>) = sends st"
  "sends (st\<lparr>px_excluded := xs\<rparr>) = sends st" "sends (st\<lparr>px_last := l\<rparr>) = sends st"
  by (simp_all add: sends_def)

lemma drops_simps [simp]:
  "px_visit (drop_permit n st) = px_visit st" "px_excluded (drop_permit n st) = px_excluded st" "sends (drop_permit n st) = sends st"
  "px_guard (drop_permit n st) = px_guard st" "px_last (drop_permit n st) = px_last st"
  "px_visit (drop_guard i st) = px_visit st" "px_excluded (drop_guard i st) = px_excluded st" "sends (drop_guard i st) = sends st"
  "px_guard (drop_guard i st) = px_guard st" "px_last (drop_guard i st) = px_last st"
  by (simp_all add: drop_permit_def drop_guard_def)

lemma take_permit_simps:
  assumes "take_permit job n st = (ok, st')"
  shows "px_visit st' = px_visit st" "px_excluded st' = px_excluded st" "sends st' = sends st" "px_guard st' = px_guard st"
  using assms by (auto simp: take_permit_def split: if_splits prod.splits)

text \<open>The endpoint that is picked was not tried before.\<close>

lemma pick_endpoint_fresh:
  assumes "pick_endpoint job now excluded rt = (Some i, rt')"
  shows "i \<notin> set excluded"
proof -
  obtain es s where e: "eligible now (ur_endpoints rt) = (es, s)" by fastforce
  define bs where "bs = filter (\<lambda>b. be_id b \<notin> set excluded) es"
  obtain chosen selector credited where c: "select (up_balance (ur_spec rt)) bs (ur_selector rt) (pj_key job) = Some (chosen, selector, credited)"
    "i = be_id (bs ! sel_index chosen)"
    using assms by (auto simp: pick_endpoint_def e bs_def Let_def split: option.splits)
  then have "sel_index chosen < length bs" using select_total [of "up_balance (ur_spec rt)" bs "ur_selector rt" "pj_key job"] by simp
  then have "bs ! sel_index chosen \<in> set bs" by simp
  with c(2) show ?thesis by (simp add: bs_def)
qed

text \<open>
  What holds between attempts: the request is as it came unless a body that can be reproduced was taken,
  what was sent was built from it, for endpoints that are excluded since.
\<close>

definition request_kept :: "proxy_job \<Rightarrow> visit \<Rightarrow> visit \<Rightarrow> bool" where
  "request_kept job v u \<longleftrightarrow> vs_method u = vs_method v \<and> vs_headers u = vs_headers v \<and> (pj_payload job = Streaming \<longrightarrow> vs_body u = vs_body v)"

definition sends_ok :: "proxy_ports \<Rightarrow> proxy_job \<Rightarrow> visit \<Rightarrow> proxy_state \<Rightarrow> bool" where
  "sends_ok pp job v st \<longleftrightarrow> distinct (map fst (sends st)) \<and> (1 < length (sends st) \<longrightarrow> may_replay job) \<and>
     (\<forall>s \<in> set (sends st). fst (build_request pp job v) = Some (Inr (snd s)))"

definition between_ok :: "proxy_ports \<Rightarrow> proxy_job \<Rightarrow> visit \<Rightarrow> proxy_state \<Rightarrow> bool" where
  "between_ok pp job v st \<longleftrightarrow> sends_ok pp job v st \<and> request_kept job v (px_visit st) \<and> distinct (px_excluded st) \<and>
     fst ` set (sends st) \<subseteq> set (px_excluded st) \<and> (sends st \<noteq> [] \<longrightarrow> may_replay job)"

lemma build_request_kept:
  assumes "request_kept job v u" and "build_request pp job u = (b, u')"
  shows "fst (build_request pp job v) = b" "pj_payload job \<noteq> Streaming \<Longrightarrow> request_kept job v u'"
  using assms by (auto simp: build_request_def request_kept_def Let_def split: if_splits option.splits payload.splits)

definition step_ok :: "proxy_ports \<Rightarrow> proxy_job \<Rightarrow> visit \<Rightarrow> nat \<Rightarrow> attempt_step \<times> proxy_state \<Rightarrow> bool" where
  "step_ok pp job v m r \<longleftrightarrow> (if fst r = GoOn then between_ok pp job v (snd r) else sends_ok pp job v (snd r)) \<and> length (sends (snd r)) \<le> m"

lemma proxy_answer_sends [simp]: "sends (snd (proxy_answer pp job w n i a st)) = sends st" "fst (proxy_answer pp job w n i a st) = Finish (ProxyDone n)"
  by (auto simp: proxy_answer_def Let_def split: prod.splits)

lemma proxy_send_ok:
  assumes "between_ok pp job v st" and "i \<notin> set (px_excluded st)"
  shows "step_ok pp job v (Suc (length (sends st))) (proxy_send pp job w n i st)"
proof -
  obtain b u where b: "build_request pp job (px_visit st) = (b, u)" by fastforce
  note kept = build_request_kept [OF _ b, of v]
  have inv: "sends_ok pp job v st" "request_kept job v (px_visit st)" "distinct (px_excluded st)"
    "fst ` set (sends st) \<subseteq> set (px_excluded st)" "sends st \<noteq> [] \<Longrightarrow> may_replay job"
    using assms(1) by (auto simp: between_ok_def)
  show ?thesis
  proof (cases b)
    case None
    with b inv(1) show ?thesis by (simp add: proxy_send_def step_ok_def)
  next
    case (Some c)
    show ?thesis
    proof (cases c)
      case (Inl e)
      with Some b inv(1) show ?thesis by (simp add: proxy_send_def step_ok_def sends_ok_def)
    next
      case (Inr q)
      have sent: "sends_ok pp job v st'" if "sends st' = sends st @ [(i, q)]" for st'
        using inv assms(2) kept(1) Some Inr that by (auto simp: sends_ok_def)
      have go: "between_ok pp job v (snd (try_elsewhere i e st'))"
        if "sends st' = sends st @ [(i, q)]" "px_visit st' = u" "px_excluded st' = px_excluded st" "may_replay job" for e st'
      proof -
        have "pj_payload job \<noteq> Streaming" using that(4) by (simp add: may_replay_def is_reproducible_def)
        then show ?thesis using inv assms(2) sent [OF that(1)] kept(2) that
          by (auto simp: between_ok_def try_elsewhere_def sends_ok_def)
      qed
      define st2 where "st2 = on_runtime (aw_others w 2) (record_event (SentTo i q) (st\<lparr>px_visit := u\<rparr>))"
      have st2: "sends st2 = sends st @ [(i, q)]" "px_visit st2 = u" "px_excluded st2 = px_excluded st" by (simp_all add: st2_def)
      have len: "length (sends (snd (try_elsewhere i e st'))) = length (sends st')" "fst (try_elsewhere i e st') = GoOn" for e st'
        by (simp_all add: try_elsewhere_def)
      show ?thesis
      proof (cases "aw_send w i q")
        case (SendAnswer a)
        then show ?thesis using b Some Inr sent st2
          by (simp add: proxy_send_def Let_def step_ok_def st2_def [symmetric])
      next
        case SendErr
        then show ?thesis using b Some Inr sent st2 go len
          by (simp add: proxy_send_def Let_def step_ok_def st2_def [symmetric])
      next
        case SendElapsed
        then show ?thesis using b Some Inr sent st2 go len
          by (simp add: proxy_send_def Let_def step_ok_def st2_def [symmetric])
      qed
    qed
  qed
qed

lemma between_ok_cong:
  assumes "sends st' = sends st" "px_visit st' = px_visit st" "px_excluded st' = px_excluded st"
  shows "between_ok pp job v st' = between_ok pp job v st" "sends_ok pp job v st' = sends_ok pp job v st"
  using assms by (simp_all add: between_ok_def sends_ok_def)

lemma proxy_try_ok:
  assumes "between_ok pp job v st" and "i \<notin> set (px_excluded st)"
  shows "step_ok pp job v (Suc (length (sends st))) (proxy_try pp job w n i st)"
proof -
  let ?st = "on_runtime (aw_others w 1) st"
  have ok: "between_ok pp job v ?st" using assms(1) between_ok_cong(1) [of ?st st] by simp
  then have ok2: "sends_ok pp job v ?st" by (simp add: between_ok_def)
  have go: "step_ok pp job v (Suc (length (sends st))) (try_elsewhere i e st')"
    if "sends st' = sends st" "px_visit st' = px_visit st" "px_excluded st' = px_excluded st" for e st'
  proof -
    have "between_ok pp job v st'" using assms(1) between_ok_cong(1) [of st' st, OF that] by simp
    then show ?thesis using assms(2) that by (auto simp: step_ok_def try_elsewhere_def between_ok_def sends_ok_def)
  qed
  show ?thesis
  proof (cases "aw_checkout w i")
    case CheckoutLease
    then show ?thesis using proxy_send_ok [OF ok, of i w n] assms(2) by (simp add: proxy_try_def)
  next
    case (CheckoutErr e)
    then show ?thesis using go by (simp add: proxy_try_def)
  next
    case CheckoutElapsed
    have "sends_ok pp job v (record_event (Attempted AttemptTimedOut) ?st)"
      using ok2 between_ok_cong(2) [of "record_event (Attempted AttemptTimedOut) ?st" ?st] by simp
    with CheckoutElapsed go show ?thesis by (simp add: proxy_try_def Let_def step_ok_def)
  qed
qed

lemma proxy_attempt_ok:
  assumes "between_ok pp job v st"
  shows "step_ok pp job v (Suc (length (sends st))) (proxy_attempt pp job w n st)"
proof -
  obtain ok st1 where p: "take_permit job n (on_runtime (aw_others w 0) st) = (ok, st1)" by fastforce
  note s1 = take_permit_simps [OF p]
  have b1: "between_ok pp job v st1" "sends st1 = sends st" using assms between_ok_cong(1) [of st1 st] s1 by simp_all
  then have o1: "sends_ok pp job v st1" by (simp add: between_ok_def)
  obtain pick rt where k: "pick_endpoint job (aw_started w) (px_excluded st1) (px_runtime st1) = (pick, rt)" by fastforce
  show ?thesis
  proof (cases ok)
    case False
    with p o1 b1(2) show ?thesis by (simp add: proxy_attempt_def step_ok_def)
  next
    case True
    show ?thesis
    proof (cases pick)
      case None
      then show ?thesis using True p k o1 b1(2) by (simp add: proxy_attempt_def step_ok_def sends_ok_def)
    next
      case (Some i)
      let ?st = "st1\<lparr>px_runtime := on_endpoints (claim i) rt\<rparr>"
      have "i \<notin> set (px_excluded st1)" using pick_endpoint_fresh k Some by blast
      moreover have "between_ok pp job v ?st" using b1(1) between_ok_cong(1) [of ?st st1] by simp
      ultimately have t: "step_ok pp job v (Suc (length (sends ?st))) (proxy_try pp job w n i ?st)" by (intro proxy_try_ok) simp_all
      obtain r st2 where r: "proxy_try pp job w n i ?st = (r, st2)" by fastforce
      have a: "proxy_attempt pp job w n st = (r, drop_permit n (drop_guard i st2))" using True p k Some r by (simp add: proxy_attempt_def)
      show ?thesis using t b1(2) between_ok_cong [of "drop_permit n (drop_guard i st2)" st2] unfolding a r step_ok_def by (simp split: if_splits)
    qed
  qed
qed

lemma proxy_loop_ok:
  "between_ok pp job v st \<Longrightarrow> sends_ok pp job v (snd (proxy_loop pp job ws n k st)) \<and>
    length (sends (snd (proxy_loop pp job ws n k st))) \<le> length (sends st) + k"
proof (induction k arbitrary: n st)
  case 0
  then show ?case by (simp add: between_ok_def)
next
  case (Suc k)
  obtain r st' where a: "proxy_attempt pp job (ws n) n st = (r, st')" by fastforce
  have s: "step_ok pp job v (Suc (length (sends st))) (r, st')" using proxy_attempt_ok [OF Suc.prems, of "ws n" n] a by simp
  show ?case
  proof (cases r)
    case GoOn
    with s have b: "between_ok pp job v st'" and l: "length (sends st') \<le> Suc (length (sends st))" by (simp_all add: step_ok_def)
    show ?thesis using Suc.IH [OF b, of "n + 1"] l a GoOn by simp
  next
    case (Finish x)
    with s a show ?thesis by (simp add: step_ok_def)
  qed
qed

subsection \<open>A request is not repeated unless it can be\<close>

text \<open>The body that a payload stands for.\<close>

definition body_sent :: "proxy_ports \<Rightarrow> visit \<Rightarrow> out_body \<Rightarrow> bool" where
  "body_sent pp v b \<longleftrightarrow> (case b of
       StreamBody fs \<Rightarrow> fs = vs_body v
     | FullBody bs \<Rightarrow> (bs = body_bytes (vs_body v) \<and> \<not> list_ex frame_fails (vs_body v)) \<or>
         (bs = [] \<and> \<not> has_body (pp_http pp) (pp_end_stream pp) (vs_headers v)))"

lemma proxy_payload_kept:
  assumes "proxy_payload http es retry v = (Inr payload, u)"
  shows "vs_method u = vs_method v" "vs_headers u = vs_headers v" "payload = Streaming \<Longrightarrow> vs_body u = vs_body v"
    "payload = PayloadEmpty \<Longrightarrow> \<not> has_body http es (vs_headers v)"
    "payload = Buffered bs \<Longrightarrow> bs = body_bytes (vs_body v) \<and> \<not> list_ex frame_fails (vs_body v)"
  using assms by (auto simp: proxy_payload_def has_body_def collect_body_def proxy_declared_length_def split: option.splits if_splits)

lemma build_request_sent:
  assumes "fst (build_request pp job u) = Some (Inr q)"
  shows "oq_method q = vs_method u" "oq_body q = (case pj_payload job of PayloadEmpty \<Rightarrow> FullBody [] | Buffered bs \<Rightarrow> FullBody bs
    | Streaming \<Rightarrow> StreamBody (vs_body u))"
  using assms by (auto simp: build_request_def Let_def split: if_splits option.splits payload.splits)

lemma proxy_cases:
  obtains (refused) e u where "proxy pp now uh ws rt v = (ProxyFailed e, proxy_start rt u)"
  | (tried) job u where "proxy pp now uh ws rt v = proxy_loop pp job ws 1 (attempts_allowed job) (proxy_start rt u)"
      "proxy_payload (pp_http pp) (pp_end_stream pp) (retry_of (pp_http pp) (ur_spec rt) v) v = (Inr (pj_payload job), u)"
      "job = proxy_plan pp now uh (ur_spec rt) v (retry_of (pp_http pp) (ur_spec rt) v) (pj_payload job)"
proof (cases "requested_protocol (pp_http pp) (vs_headers v) \<noteq> None \<and> up_protocol (ur_spec rt) = Http2")
  case True
  then show ?thesis by (intro refused [of UpstreamFailed v]) (simp add: proxy_def Let_def)
next
  case False
  obtain r u where p: "proxy_payload (pp_http pp) (pp_end_stream pp) (retry_of (pp_http pp) (ur_spec rt) v) v = (r, u)" by fastforce
  show ?thesis
  proof (cases r)
    case (Inl e)
    show ?thesis by (rule refused [of e u]) (simp only: proxy_def Let_def False if_False p Inl prod.case sum.case)
  next
    case (Inr payload)
    let ?job = "proxy_plan pp now uh (ur_spec rt) v (retry_of (pp_http pp) (ur_spec rt) v) payload"
    have payload: "pj_payload ?job = payload" by (simp add: proxy_plan_def Let_def)
    show ?thesis
    proof (rule tried [of ?job u])
      show "proxy pp now uh ws rt v = proxy_loop pp ?job ws 1 (attempts_allowed ?job) (proxy_start rt u)"
        by (simp only: proxy_def Let_def False if_False p Inr prod.case sum.case)
    qed (simp_all only: payload p Inr)
  qed
qed

lemma proxy_plan_simps:
  "pj_retry (proxy_plan pp now uh spec v retry payload) = retry" "pj_payload (proxy_plan pp now uh spec v retry payload) = payload"
  "pj_host (proxy_plan pp now uh spec v retry payload) = request_host (pp_http pp) uh (vs_headers v)"
  "pj_target (proxy_plan pp now uh spec v retry payload) = (case uri_path_and_query (vs_uri v) of Some t \<Rightarrow> t | None \<Rightarrow> ''/'')"
  by (simp_all add: proxy_plan_def Let_def)

text \<open>
  Whatever the network, the clock and other requests do, a request is put on the wire at most once per
  endpoint and at most as often as its upstream allows; more than once only where replay was asked for
  and the body can be reproduced, and never for an upgrade. Every time it is the same request, with the
  whole body the client sent.
\<close>

theorem proxy_sends_safely:
  assumes "proxy pp now uri_host ws rt v = (r, st)"
  shows "distinct (map fst (sends st)) \<and>
    length (sends st) \<le> (case retry_of (pp_http pp) (ur_spec rt) v of Some r \<Rightarrow> max 1 (retry_attempts r) | None \<Rightarrow> 1) \<and>
    (1 < length (sends st) \<longrightarrow> requested_protocol (pp_http pp) (vs_headers v) = None \<and>
       (\<exists>r. up_retry (ur_spec rt) = Some r \<and> retry_mode r = ReplayRetry) \<and> (\<forall>s \<in> set (sends st). \<exists>bs. oq_body (snd s) = FullBody bs)) \<and>
    (\<forall>s \<in> set (sends st). \<forall>s' \<in> set (sends st). snd s = snd s') \<and>
    (\<forall>s \<in> set (sends st). oq_method (snd s) = vs_method v \<and> body_sent pp v (oq_body (snd s)))"
proof (cases rule: proxy_cases [of pp now uri_host ws rt v])
  case (refused e u)
  with assms show ?thesis by (auto simp: proxy_start_def sends_def split: option.splits)
next
  case (tried job u)
  have "between_ok pp job u (proxy_start rt u)"
    by (simp add: between_ok_def sends_ok_def sends_def proxy_start_def request_kept_def)
  from proxy_loop_ok [OF this, of ws 1 "attempts_allowed job"] assms tried(1)
  have ok: "sends_ok pp job u st" and len: "length (sends st) \<le> attempts_allowed job"
    by (simp_all add: proxy_start_def sends_def)
  have retry: "pj_retry job = retry_of (pp_http pp) (ur_spec rt) v" using arg_cong [OF tried(3), of pj_retry] by (simp only: proxy_plan_simps)
  have same: "snd s = snd s'" if "s \<in> set (sends st)" "s' \<in> set (sends st)" for s s'
  proof -
    have "fst (build_request pp job u) = Some (Inr (snd s))" "fst (build_request pp job u) = Some (Inr (snd s'))"
      using ok that unfolding sends_ok_def by blast+
    then show ?thesis by simp
  qed
  have built: "oq_method (snd s) = vs_method v \<and> body_sent pp v (oq_body (snd s)) \<and>
      (pj_payload job \<noteq> Streaming \<longrightarrow> (\<exists>bs. oq_body (snd s) = FullBody bs))" if "s \<in> set (sends st)" for s
  proof -
    have "fst (build_request pp job u) = Some (Inr (snd s))" using ok that by (simp add: sends_ok_def)
    from build_request_sent [OF this] show ?thesis using proxy_payload_kept [OF tried(2)]
      by (cases "pj_payload job") (simp_all add: body_sent_def)
  qed
  have "may_replay job" if "1 < length (sends st)" using ok that by (simp add: sends_ok_def)
  then have replay: "requested_protocol (pp_http pp) (vs_headers v) = None \<and>
      (\<exists>r. up_retry (ur_spec rt) = Some r \<and> retry_mode r = ReplayRetry) \<and> pj_payload job \<noteq> Streaming" if "1 < length (sends st)"
    using that retry by (auto simp: may_replay_def is_reproducible_def retry_of_def split: if_splits option.splits)
  have count: "length (sends st) \<le> (case retry_of (pp_http pp) (ur_spec rt) v of Some r \<Rightarrow> max 1 (retry_attempts r) | None \<Rightarrow> 1)"
    using len retry by (simp add: attempts_allowed_def)
  have "distinct (map fst (sends st))" using ok by (simp add: sends_ok_def)
  with count replay built same show ?thesis by blast
qed

subsection \<open>Headers of the next hop\<close>

lemma append_kept_get [simp]:
  "get_all n (append_kept dropped h into) = get_all n into @ (if n \<in> set HOP_BY_HOP \<or> n \<in> set dropped then [] else get_all n h)"
  by (induction dropped h into rule: append_kept.induct) auto

lemma get_all_insert_valid: "value_of http t = Some x \<Longrightarrow> get_all n (insert_valid http m t h) = (if n = m then [x] else get_all n h)"
  by (simp add: insert_valid_def)

definition forwarded_names :: "bytes list" where
  "forwarded_names = [''host'', ''x-forwarded-for'', ''x-forwarded-host'', ''x-forwarded-proto'']"

lemma forwarded_distinct:
  "''host'' \<notin> set HOP_BY_HOP" "''x-forwarded-for'' \<notin> set HOP_BY_HOP" "''x-forwarded-host'' \<notin> set HOP_BY_HOP"
  "''x-forwarded-proto'' \<notin> set HOP_BY_HOP" "''connection'' \<in> set HOP_BY_HOP" "''upgrade'' \<in> set HOP_BY_HOP"
  "''connection'' \<notin> set forwarded_names" "''upgrade'' \<notin> set forwarded_names" "distinct forwarded_names"
  by (simp_all add: HOP_BY_HOP_def forwarded_names_def)

text \<open>
  The request that goes out names the host the gateway matched, the client it believes in and how that
  client connected; it has no header of the last hop nor any that the client's \<open>Connection\<close> nominated, but
  \<open>Connection\<close> and \<open>Upgrade\<close> narrowed to the protocol of an upgrade; every other header is as it came.
\<close>

theorem proxy_headers_exact:
  assumes "faithful_values http" and "outbound_headers http host client tls upgrade_to h = Some out"
    and "client = Some ip" and "value_of http (show_ip ip) \<noteq> None"
  shows "get_all ''host'' out = [host] \<and> get_all ''x-forwarded-host'' out = [host] \<and>
    get_all ''x-forwarded-for'' out = [show_ip ip] \<and> get_all ''x-forwarded-proto'' out = [if tls then ''https'' else ''http''] \<and>
    (get_all ''connection'' out = [] \<or> (\<exists>p. upgrade_to = Some p \<and> get_all ''connection'' out = [''upgrade''] \<and> get_all ''upgrade'' out = [p])) \<and>
    (\<forall>n. n \<notin> set forwarded_names \<and> n \<notin> {''connection'', ''upgrade''} \<longrightarrow>
       get_all n out = (if n \<in> set HOP_BY_HOP \<or> n \<in> set (connection_tokens http h) then [] else get_all n h))"
proof -
  have exact: "x = t" if "value_of http t = Some x" for t x using assms(1) that by (simp add: faithful_values_def)
  obtain hv iv where hv: "value_of http host = Some hv" "hv = host" and iv: "value_of http (show_ip ip) = Some iv" "iv = show_ip ip"
    using assms(2,4) exact by (auto simp: outbound_headers_def split: option.splits)
  define base where "base = insert_header ''x-forwarded-proto'' (if tls then ''https'' else ''http'')
    (insert_header ''x-forwarded-host'' host (insert_header ''x-forwarded-for'' (show_ip ip)
      (insert_header ''host'' host (append_kept (connection_tokens http h) h []))))"
  have out: "out = (case Option.bind upgrade_to (value_of http) of
      Some p \<Rightarrow> insert_header ''connection'' ''upgrade'' (insert_header ''upgrade'' p base) | None \<Rightarrow> base)"
    using assms(2,3) hv iv unfolding base_def by (simp add: outbound_headers_def Let_def insert_valid_def split: option.splits)
  have base: "get_all n base = (if n = ''x-forwarded-proto'' then [if tls then ''https'' else ''http'']
      else if n = ''x-forwarded-host'' then [host] else if n = ''x-forwarded-for'' then [show_ip ip] else if n = ''host'' then [host]
      else if n \<in> set HOP_BY_HOP \<or> n \<in> set (connection_tokens http h) then [] else get_all n h)" for n
    by (simp only: base_def get_all_insert append_kept_get get_all_Nil append.simps)
  have other: "get_all n out = get_all n base" if "n \<noteq> ''connection''" "n \<noteq> ''upgrade''" for n
    using that by (simp only: out get_all_insert if_False split: option.split) simp
  have con: "get_all ''connection'' base = []" using forwarded_distinct by (simp add: base)
  have "get_all ''connection'' out = [] \<or> (\<exists>p. upgrade_to = Some p \<and> get_all ''connection'' out = [''upgrade''] \<and> get_all ''upgrade'' out = [p])"
  proof (cases "Option.bind upgrade_to (value_of http)")
    case None
    then show ?thesis using con by (simp add: out)
  next
    case (Some x)
    then obtain p where "upgrade_to = Some p" "x = p" using exact by (auto simp: bind_eq_Some_conv)
    with Some show ?thesis by (simp add: out)
  qed
  then show ?thesis using other base by (simp add: forwarded_names_def)
qed

subsection \<open>Not every attempt is counted\<close>

text \<open>
  An attempt whose request cannot be built, since the host is no header value, ends the loop after a connection
  was taken without one of the four counters.
\<close>

lemma unbuilt_attempt_uncounted:
  assumes "pp_uri_ok pp (pj_target job)" and "value_of (pp_http pp) (pj_host job) = None" and "aw_checkout w i = CheckoutLease"
  shows "proxy_try pp job w n i st = (Finish (ProxyFailed UpstreamFailed), on_runtime (aw_others w 1) st)"
  using assms by (simp add: proxy_try_def proxy_send_def build_request_def outbound_headers_def)

end
