(* ===== verification/Spec2Isabelle.thy ===== *)
theory Spec2Isabelle
  imports Prelude Addresses Config_Model Routing Identity Ordering Upstreams Planning Endpoints Selector
    Ordered_Maps Snapshots Snapshot_Codec Machines Generations Headers Cache_Store Cache_Policy Cache Framing
    Journal Ledger Wal_Frames Wal Checkpoints Big_Endian Cgi_Protocol Cgi_Exchange Static_Files Proxy_Protocol
    Cgi_Mapping Node_Reader Base64 Guards Guard_Laws Transforms Dispatching Blocking
    Proxying
begin

text \<open>
  A verification development of gatel, an HTTP gateway written in Rust.

  \<^bold>\<open>The program.\<close> A configuration is observed from sources (files, the admin API, Kubernetes),
  normalised into a specification, compiled into a plan, prepared and published as a generation;
  requests are routed by the published plan through a chain of directives to a terminal, which may be
  a reverse proxy that balances over health-checked endpoints. The development follows that order: the
  data model, the compiler, the store of generations, then what a request meets. The crates are under
  \<open>src/crates/\<close>; the paths below are relative to it.

  \<^bold>\<open>Shared vocabulary.\<close> \<open>Prelude\<close> has strings as UTF-8 byte lists and the operations of the standard
  library the sources use on them, bounded arithmetic, and results as sums (\<open>and_then\<close> is \<open>?\<close>).
  \<open>Machines\<close> has two locales for transition systems, \<open>invariant_system\<close> (an invariant kept by every
  step holds along every run) and \<open>simulation\<close> (a step-wise simulation gives an abstract run); they are
  interpreted on the store of generations, the cache and its fills, the checkpoint writer and the budget
  of blocking work. \<open>Ordered_Maps\<close> has
  \<open>BTreeMap\<close> as sorted association lists.

  \<^bold>\<open>Configuration model\<close> (\<open>gatel-model/src\<close>). \<open>Config_Model\<close>: values, nodes, diagnostics, durations,
  sizes, spelling suggestions (\<open>value.rs\<close>, \<open>diagnostic.rs\<close>, \<open>decode.rs\<close>). \<open>Node_Reader\<close>: the reader that
  generated decoders call and the decoder the derive macro expands to (\<open>decode.rs\<close>,
  \<open>gatel-macros/src/lib.rs\<close>); the locale \<open>strict_decoder\<close> states what a decoder promises of the diagnostics
  and is interpreted on every decoder of the guards and transforms. \<open>Identity\<close>: the hasher's
  framing over an abstract digest and resource identities (\<open>hash.rs\<close>, \<open>id.rs\<close>); the framing is
  injective. \<open>Snapshots\<close>, \<open>Snapshot_Codec\<close>: observed trees, revision vectors and their binary codec
  (\<open>snapshot.rs\<close>, \<open>snapshot_history.rs\<close>, \<open>snapshot_codec.rs\<close>, \<open>value_identity.rs\<close>, \<open>origin.rs\<close>); what
  encodes decodes to itself within the limits. The reader's recursion over nodes is bounded by the depth
  limit of the source, which serves as its fuel.

  \<^bold>\<open>The compiler\<close> (\<open>gatel-plan/src\<close>, \<open>gatel-plugin-api/src\<close>). \<open>Addresses\<close> and \<open>Routing\<close>: addresses,
  networks, request-path identity, matchers and their order (\<open>request_path.rs\<close>, \<open>matcher.rs\<close>); a
  normalised path cannot climb out of a prefix, matchers print and parse back. \<open>Ordering\<close>: directive
  metadata, the registry and the ordering of chains (\<open>directive.rs\<close>, \<open>ordering.rs\<close>, \<open>effects.rs\<close>);
  composition succeeds exactly when a conflict-free order exists and guards always run before a cache
  lookup. \<open>Upstreams\<close>: targets, policies and secret references. \<open>Planning\<close>: the specification,
  compilation, state bindings and their diff (\<open>spec.rs\<close>, \<open>plan.rs\<close>); a specification compiles exactly
  when its chains can be ordered, and the plan has what it specifies. The configuration of a directive is a
  type parameter.

  \<^bold>\<open>The store of generations\<close> (\<open>gatel-plan/src/generation*.rs\<close>). \<open>Generations\<close>: admission, finishing,
  rejection, recovery, writers and sealing, as functions on one store record and as the step relation
  \<open>store_step\<close> that interleaves any number of candidates. Publication is fenced by the head it was
  diffed with, versions never return, retained intent agrees with the head, a sealed store is final, and
  the whole refines the contract \<open>serving_step\<close> of a served configuration.

  \<^bold>\<open>Balancing\<close> (\<open>gatel-state/src\<close>). \<open>Endpoints\<close> and \<open>Selector\<close>: beliefs, ejection, draining, in-flight
  guards, retry permits and every strategy (\<open>endpoint.rs\<close>, \<open>retry.rs\<close>, \<open>selector.rs\<close>).

  \<^bold>\<open>The response cache\<close> (\<open>gatel-bundle-std/src/cache\<close>). \<open>Headers\<close>: header maps, \<open>Vary\<close> and
  preconditions. \<open>Cache_Store\<close>: the shared store as a record, every operation as a function, all
  interleavings as \<open>cache_step\<close>; the byte counter is exact and bounded, eviction is least recently used
  and minimal, invalidation fences fills, retirement is by identity. \<open>Cache_Policy\<close>: \<open>Cache-Control\<close>,
  ages, freshness, conditional answers and revalidation. \<open>Cache\<close>: fills and the handler in two halves,
  each a single step although it takes the lock of the store several times; what it serves was stored from a response that may be shared, for a request that agrees on every
  varied header.

  \<^bold>\<open>Durability\<close> (\<open>gatel/src/admin_*.rs\<close>). \<open>Framing\<close> is the locale \<open>framed_log\<close>: what a reader of one frame
  at a time finds in a log written frame by frame, whole or torn. It is interpreted on the admin journal
  (\<open>Journal\<close>: \<open>admin_journal*.rs\<close>) and on the binary log (\<open>Wal_Frames\<close>: \<open>admin_wal_frame.rs\<close>,
  \<open>admin_wal_decision.rs\<close>). \<open>Journal\<close> has the store with every file system call able to fail, the
  instance binding, intents and decisions, and the step relation \<open>journal_step\<close> with crashes at any moment;
  \<open>Ledger\<close> proves that at every point of a run the log stands for one ledger of settled intents, which each
  step changes as the call that was made says and nothing else does, that reopening replays to the lost state,
  that a failed write is old or new, that a decision always fits and is final, and that damage is never a
  torn tail. \<open>Wal\<close>: intent envelopes over the snapshot codec (\<open>admin_wal_intent.rs\<close>). \<open>Checkpoints\<close>: the
  envelope, its replacement, compaction, the classification of recovery work and the host's writer
  (\<open>admin_checkpoint*.rs\<close>, \<open>admin_recovery.rs\<close>).

  \<^bold>\<open>CGI\<close> (\<open>gatel-cgi-protocol/src\<close>, \<open>gatel-cgi-http/src\<close>, \<open>plugins/fastcgi\<close>, \<open>plugins/scgi\<close> and
  \<open>plugins/cgi\<close> beside the crates). \<open>Cgi_Protocol\<close>: environments, FastCGI records and the responder, SCGI
  netstrings, the incremental parser of response heads and the account of a body's length; what is sent
  reads back as the environment. \<open>Cgi_Exchange\<close>: the sink, the relay shared by the three exchanges, the
  exchanges themselves and what the terminal answers. The locale \<open>cgi_backend\<close> states what an exchange
  promises of its sink and is interpreted on all three: the client never takes a truncated response for a
  complete one, and a well-formed response gets through however it is divided. \<open>Cgi_Mapping\<close>: scripts, the
  environment of a request and what precedes an exchange (\<open>mapping.rs\<close>, \<open>input.rs\<close>, \<open>terminal.rs\<close>); of a
  client's headers only those that may be passed on reach a script.

  \<^bold>\<open>Static files\<close> (\<open>gatel-bundle-std/src\<close>). \<open>Static_Files\<close>: negotiation of codings, byte ranges and their
  delivery, resolution of a path below the root, compressed siblings and redirects that stay on the origin
  (\<open>encoding_accept.rs\<close>, \<open>ranges.rs\<close>, \<open>file_body.rs\<close>, \<open>file_path.rs\<close>, \<open>file_server.rs\<close>,
  \<open>local_redirect.rs\<close>). What a client offers and asks for is stated by how it writes its headers: the coding
  selected is the best of the offers, and the bytes delivered are those at the positions asked for.

  \<^bold>\<open>Guards\<close> (\<open>gatel-bundle-std/src\<close>, \<open>gatel-password/src\<close>). \<open>Guards\<close>: decoders, fingerprints and handlers of
  \<open>ip-filter\<close>, \<open>body-limit\<close>, \<open>cors\<close>, \<open>basic-auth\<close> and \<open>forward-auth\<close>, with the policy on password hashes and, in
  \<open>Base64\<close>, canonical base64. A handler is a function of the rest of the chain; the locale \<open>guard_handler\<close>
  is the contract of a guard, interpreted on all five. \<open>Guard_Laws\<close>: each guard of a chain decides on
  what the one before handed on, and what is behind it is run exactly if all pass the request; filters and passwords are decided exactly, bodies are cut at
  their limit. The bcrypt computation, the service that authorises and whether there is capacity for a
  verification are arguments; the build with argon2 is left out.

  \<^bold>\<open>Transforms and answers\<close> (\<open>gatel-bundle-std/src\<close>). \<open>Transforms\<close>: \<open>headers\<close>, \<open>rewrite\<close>, \<open>redirect\<close>,
  \<open>trailing-slash\<close>, \<open>force-https\<close>, \<open>respond\<close> and \<open>request-id\<close>. Configuration cannot touch the headers that
  control framing and routing, the preview a file server takes is what its headers become, plain requests
  never get past \<open>force-https\<close> and are sent to the same place under \<open>https\<close>, and no redirect to another spelling of a path is followed by a second.

  \<^bold>\<open>Dispatch\<close> (\<open>gatel-http/src/dispatch.rs\<close>, \<open>body.rs\<close>). \<open>Dispatching\<close>: the table of a listener, the client's
  address, the host and the handler that gives a request to the chain of the route that claims it; the
  client is the peer, or whom a trusted proxy names.

  \<^bold>\<open>Reverse proxy\<close> (\<open>gatel-http/src/proxy\<close>, \<open>upgrade.rs\<close>). \<open>Proxying\<close>: the request that goes out, the answer
  that comes back and the loop of attempts, with what the network, the clock and other requests do as
  arguments. A request is put on the wire once per endpoint at most, and again only where replay was asked for
  and its body can be reproduced; its headers are those of this hop. Copying through a tunnel is left out.

  \<^bold>\<open>Blocking work\<close> (\<open>gatel-plugin-runtime/src/blocking.rs\<close>). \<open>Blocking\<close>: the budget, reservations and the
  publication of limits as the step relation \<open>blocking_step\<close>; the budget counts what is alive exactly.

  \<^bold>\<open>PROXY protocol\<close> (\<open>gatel-http/src/proxy_protocol.rs\<close>). \<open>Proxy_Protocol\<close>: a claim is made exactly if
  what arrives starts with a header that states it, and exactly that header is taken off the connection.

  \<^bold>\<open>Parameters.\<close> Code outside the repository is an argument of the definitions that use it: the hash
  function (\<open>digest\<close>), the \<open>http\<close>, \<open>httpdate\<close> and \<open>url\<close> crates (\<open>http_crate\<close>, \<open>url_crate\<close>),
  normalisation and preparation of a candidate. Where a property needs something of them it is a
  named hypothesis, such as a collision-free digest, and its witness instantiates them. Clocks and random
  seeds are arguments, as is what each call on a file does (\<open>file_ops\<close>, \<open>checkpoint_ops\<close>).

  \<^bold>\<open>Bounds.\<close> Counters that wrap are 64-bit words, checked and saturating ones are natural numbers with the
  bound written out. Loops are recursive functions with a termination proof; no property is conditional
  on fuel.

  \<^bold>\<open>Not modelled.\<close> Pure input and output (listeners, TLS and ACME, pools and dialling, files and
  watchers, the admin and metrics servers, the command line), the KDL front end and the lowering of its
  nodes, the plugin runtime, the node decoders of upstreams and of the global settings, the other
  directives, log and metric rendering, and the texts of messages beyond those the model compares.
\<close>

end
